(* ===== verification/Prelude.thy ===== *)
theory Prelude
  imports Main "HOL-Library.Word" "HOL-Library.Char_ord" "HOL-Library.Signed_Division"
begin

text \<open>
  What every component of the engine shares: the machine types of the C code, memory as the code
  addresses it (a byte at an offset from a base pointer), the little-endian field accessors that
  \<^verbatim>\<open>07_storage.c\<close>, \<^verbatim>\<open>11_index.c\<close> and \<^verbatim>\<open>15_wal.c\<close> each carry a copy of, the error codes of
  \<^verbatim>\<open>sql_common.h\<close>, ASCII case folding as \<^verbatim>\<open>_stricmp\<close> does it, and the generic binary search.
  The collection \<open>mem\<close> holds the read-over-write laws that carry the proofs about pages.
\<close>

unbundle bit_operations_syntax

type_synonym byte = "8 word"
type_synonym u32 = "32 word"
type_synonym i32 = "32 word"
type_synonym u64 = "64 word"

text \<open>A region of memory, addressed from its base pointer; a page is such a region.\<close>

type_synonym memory = "nat \<Rightarrow> byte"
type_synonym page = memory

named_theorems mem \<open>reading back what was written, and what a write leaves alone\<close>

subsection \<open>Error codes\<close>

text \<open>
  The error codes an operation can return, the numbers of \<^verbatim>\<open>sql_common.h\<close>. A C function that
  returns \<^verbatim>\<open>SUCCESS_CODE\<close> and an out-parameter is a function into \<open>error + 'a\<close>.
\<close>

type_synonym error = nat

abbreviation (input) ERROR_UNKNOWN_TOKEN :: error where "ERROR_UNKNOWN_TOKEN \<equiv> 100"
abbreviation (input) ERROR_UNTERMINATED_STRING :: error where "ERROR_UNTERMINATED_STRING \<equiv> 101"
abbreviation (input) ERROR_TOO_MANY_TOKENS :: error where "ERROR_TOO_MANY_TOKENS \<equiv> 102"
abbreviation (input) ERROR_VALUE_OUT_OF_RANGE :: error where "ERROR_VALUE_OUT_OF_RANGE \<equiv> 103"
abbreviation (input) ERROR_TOKEN_TOO_LONG :: error where "ERROR_TOKEN_TOO_LONG \<equiv> 104"
abbreviation (input) ERROR_SYNTAX_INVALID_STATEMENT :: error where "ERROR_SYNTAX_INVALID_STATEMENT \<equiv> 200"
abbreviation (input) ERROR_SYNTAX_EXPECTED_FROM :: error where "ERROR_SYNTAX_EXPECTED_FROM \<equiv> 201"
abbreviation (input) ERROR_SYNTAX_EXPECTED_TABLE_NAME :: error where "ERROR_SYNTAX_EXPECTED_TABLE_NAME \<equiv> 202"
abbreviation (input) ERROR_SYNTAX_EXPECTED_COLUMN :: error where "ERROR_SYNTAX_EXPECTED_COLUMN \<equiv> 203"
abbreviation (input) ERROR_SYNTAX_EXPECTED_TYPE :: error where "ERROR_SYNTAX_EXPECTED_TYPE \<equiv> 204"
abbreviation (input) ERROR_SYNTAX_EXPECTED_PARENTHESES :: error where "ERROR_SYNTAX_EXPECTED_PARENTHESES \<equiv> 205"
abbreviation (input) ERROR_SYNTAX_TRAILING_TOKENS :: error where "ERROR_SYNTAX_TRAILING_TOKENS \<equiv> 206"
abbreviation (input) ERROR_SYNTAX_TOO_MANY_COLUMNS :: error where "ERROR_SYNTAX_TOO_MANY_COLUMNS \<equiv> 207"
abbreviation (input) ERROR_SYNTAX_EXPECTED_VALUES :: error where "ERROR_SYNTAX_EXPECTED_VALUES \<equiv> 208"
abbreviation (input) ERROR_SYNTAX_EXPECTED_VALUE :: error where "ERROR_SYNTAX_EXPECTED_VALUE \<equiv> 209"
abbreviation (input) ERROR_SYNTAX_EXPECTED_OPERATOR :: error where "ERROR_SYNTAX_EXPECTED_OPERATOR \<equiv> 210"
abbreviation (input) ERROR_SYNTAX_EXPECTED_BY :: error where "ERROR_SYNTAX_EXPECTED_BY \<equiv> 211"
abbreviation (input) ERROR_SYNTAX_UNKNOWN_FUNCTION :: error where "ERROR_SYNTAX_UNKNOWN_FUNCTION \<equiv> 212"
abbreviation (input) ERROR_SYNTAX_EXPECTED_NULL :: error where "ERROR_SYNTAX_EXPECTED_NULL \<equiv> 213"
abbreviation (input) ERROR_SYNTAX_EXPECTED_ON :: error where "ERROR_SYNTAX_EXPECTED_ON \<equiv> 214"
abbreviation (input) ERROR_SYNTAX_EXPECTED_SET :: error where "ERROR_SYNTAX_EXPECTED_SET \<equiv> 215"
abbreviation (input) ERROR_SYNTAX_EXPECTED_ASSIGNMENT :: error where "ERROR_SYNTAX_EXPECTED_ASSIGNMENT \<equiv> 216"
abbreviation (input) ERROR_SYNTAX_CONDITION_TOO_COMPLEX :: error where "ERROR_SYNTAX_CONDITION_TOO_COMPLEX \<equiv> 217"
abbreviation (input) ERROR_SYNTAX_TOO_MANY_TABLES :: error where "ERROR_SYNTAX_TOO_MANY_TABLES \<equiv> 218"
abbreviation (input) ERROR_SYNTAX_EXPECTED_KEY :: error where "ERROR_SYNTAX_EXPECTED_KEY \<equiv> 219"
abbreviation (input) ERROR_SYNTAX_EXPECTED_SIZE :: error where "ERROR_SYNTAX_EXPECTED_SIZE \<equiv> 220"
abbreviation (input) ERROR_SYNTAX_EXPRESSION_TOO_COMPLEX :: error where "ERROR_SYNTAX_EXPRESSION_TOO_COMPLEX \<equiv> 221"
abbreviation (input) ERROR_SYNTAX_EXPECTED_TABLE :: error where "ERROR_SYNTAX_EXPECTED_TABLE \<equiv> 222"
abbreviation (input) ERROR_SYNTAX_EXPECTED_TO :: error where "ERROR_SYNTAX_EXPECTED_TO \<equiv> 223"
abbreviation (input) ERROR_SYNTAX_TOO_MANY_SUBQUERIES :: error where "ERROR_SYNTAX_TOO_MANY_SUBQUERIES \<equiv> 224"
abbreviation (input) ERROR_SEMANTIC_TABLE_NOT_FOUND :: error where "ERROR_SEMANTIC_TABLE_NOT_FOUND \<equiv> 300"
abbreviation (input) ERROR_SEMANTIC_TABLE_EXISTS :: error where "ERROR_SEMANTIC_TABLE_EXISTS \<equiv> 301"
abbreviation (input) ERROR_SEMANTIC_COLUMN_NOT_FOUND :: error where "ERROR_SEMANTIC_COLUMN_NOT_FOUND \<equiv> 302"
abbreviation (input) ERROR_SEMANTIC_TYPE_MISMATCH :: error where "ERROR_SEMANTIC_TYPE_MISMATCH \<equiv> 303"
abbreviation (input) ERROR_SEMANTIC_COLUMN_COUNT :: error where "ERROR_SEMANTIC_COLUMN_COUNT \<equiv> 304"
abbreviation (input) ERROR_SEMANTIC_DUPLICATE_COLUMN :: error where "ERROR_SEMANTIC_DUPLICATE_COLUMN \<equiv> 305"
abbreviation (input) ERROR_SEMANTIC_NOT_GROUPED :: error where "ERROR_SEMANTIC_NOT_GROUPED \<equiv> 306"
abbreviation (input) ERROR_SEMANTIC_INDEX_EXISTS :: error where "ERROR_SEMANTIC_INDEX_EXISTS \<equiv> 307"
abbreviation (input) ERROR_SEMANTIC_INDEX_NOT_FOUND :: error where "ERROR_SEMANTIC_INDEX_NOT_FOUND \<equiv> 308"
abbreviation (input) ERROR_SEMANTIC_HAVING_WITHOUT_GROUP :: error where "ERROR_SEMANTIC_HAVING_WITHOUT_GROUP \<equiv> 309"
abbreviation (input) ERROR_SEMANTIC_DATABASE_EXISTS :: error where "ERROR_SEMANTIC_DATABASE_EXISTS \<equiv> 310"
abbreviation (input) ERROR_SEMANTIC_DATABASE_NOT_FOUND :: error where "ERROR_SEMANTIC_DATABASE_NOT_FOUND \<equiv> 311"
abbreviation (input) ERROR_SEMANTIC_CANNOT_DROP_DEFAULT :: error where "ERROR_SEMANTIC_CANNOT_DROP_DEFAULT \<equiv> 312"
abbreviation (input) ERROR_SEMANTIC_AMBIGUOUS_COLUMN :: error where "ERROR_SEMANTIC_AMBIGUOUS_COLUMN \<equiv> 313"
abbreviation (input) ERROR_SEMANTIC_DUPLICATE_TABLE :: error where "ERROR_SEMANTIC_DUPLICATE_TABLE \<equiv> 314"
abbreviation (input) ERROR_SEMANTIC_JOIN_TOO_WIDE :: error where "ERROR_SEMANTIC_JOIN_TOO_WIDE \<equiv> 315"
abbreviation (input) ERROR_SEMANTIC_MISSING_VALUE :: error where "ERROR_SEMANTIC_MISSING_VALUE \<equiv> 316"
abbreviation (input) ERROR_SEMANTIC_INVALID_DATE :: error where "ERROR_SEMANTIC_INVALID_DATE \<equiv> 317"
abbreviation (input) ERROR_SEMANTIC_LAST_COLUMN :: error where "ERROR_SEMANTIC_LAST_COLUMN \<equiv> 318"
abbreviation (input) ERROR_SEMANTIC_ALTER_UNSUPPORTED :: error where "ERROR_SEMANTIC_ALTER_UNSUPPORTED \<equiv> 319"
abbreviation (input) ERROR_SEMANTIC_CHECK_BLOCKS_DROP :: error where "ERROR_SEMANTIC_CHECK_BLOCKS_DROP \<equiv> 320"
abbreviation (input) ERROR_SEMANTIC_CORRELATED_SUBQUERY :: error where "ERROR_SEMANTIC_CORRELATED_SUBQUERY \<equiv> 321"
abbreviation (input) ERROR_SEMANTIC_SUBQUERY_COLUMNS :: error where "ERROR_SEMANTIC_SUBQUERY_COLUMNS \<equiv> 322"
abbreviation (input) ERROR_EXEC_TOO_MANY_DATABASES :: error where "ERROR_EXEC_TOO_MANY_DATABASES \<equiv> 404"
abbreviation (input) ERROR_EXEC_TABLE_FULL :: error where "ERROR_EXEC_TABLE_FULL \<equiv> 400"
abbreviation (input) ERROR_EXEC_TOO_MANY_TABLES :: error where "ERROR_EXEC_TOO_MANY_TABLES \<equiv> 401"
abbreviation (input) ERROR_EXEC_TOO_MANY_GROUPS :: error where "ERROR_EXEC_TOO_MANY_GROUPS \<equiv> 402"
abbreviation (input) ERROR_EXEC_TOO_MANY_INDEXES :: error where "ERROR_EXEC_TOO_MANY_INDEXES \<equiv> 403"
abbreviation (input) ERROR_EXEC_JOIN_TOO_LARGE :: error where "ERROR_EXEC_JOIN_TOO_LARGE \<equiv> 405"
abbreviation (input) ERROR_EXEC_ROW_TOO_LARGE :: error where "ERROR_EXEC_ROW_TOO_LARGE \<equiv> 406"
abbreviation (input) ERROR_EXEC_OUT_OF_MEMORY :: error where "ERROR_EXEC_OUT_OF_MEMORY \<equiv> 407"
abbreviation (input) ERROR_EXEC_TRANSACTION_ACTIVE :: error where "ERROR_EXEC_TRANSACTION_ACTIVE \<equiv> 408"
abbreviation (input) ERROR_EXEC_NO_TRANSACTION :: error where "ERROR_EXEC_NO_TRANSACTION \<equiv> 409"
abbreviation (input) ERROR_EXEC_CANNOT_ROLLBACK :: error where "ERROR_EXEC_CANNOT_ROLLBACK \<equiv> 410"
abbreviation (input) ERROR_EXEC_NOT_NULL :: error where "ERROR_EXEC_NOT_NULL \<equiv> 411"
abbreviation (input) ERROR_EXEC_NOT_UNIQUE :: error where "ERROR_EXEC_NOT_UNIQUE \<equiv> 412"
abbreviation (input) ERROR_EXEC_CHECK_FAILED :: error where "ERROR_EXEC_CHECK_FAILED \<equiv> 413"
abbreviation (input) ERROR_EXEC_VALUE_TOO_LONG :: error where "ERROR_EXEC_VALUE_TOO_LONG \<equiv> 414"
abbreviation (input) ERROR_EXEC_DIVIDE_BY_ZERO :: error where "ERROR_EXEC_DIVIDE_BY_ZERO \<equiv> 415"
abbreviation (input) ERROR_EXEC_TABLE_TOO_WIDE :: error where "ERROR_EXEC_TABLE_TOO_WIDE \<equiv> 416"
abbreviation (input) ERROR_EXEC_SUBQUERY_NOT_SCALAR :: error where "ERROR_EXEC_SUBQUERY_NOT_SCALAR \<equiv> 417"
abbreviation (input) ERROR_IO_CANNOT_OPEN :: error where "ERROR_IO_CANNOT_OPEN \<equiv> 600"
abbreviation (input) ERROR_IO_BAD_FORMAT :: error where "ERROR_IO_BAD_FORMAT \<equiv> 601"
abbreviation (input) ERROR_IO_VERSION :: error where "ERROR_IO_VERSION \<equiv> 602"
abbreviation (input) ERROR_IO_WRITE :: error where "ERROR_IO_WRITE \<equiv> 603"
abbreviation (input) ERROR_IO_CHECKSUM :: error where "ERROR_IO_CHECKSUM \<equiv> 604"
abbreviation (input) ERROR_IO_TIMED_OUT :: error where "ERROR_IO_TIMED_OUT \<equiv> 605"
abbreviation (input) GENERAL_ERROR :: error where "GENERAL_ERROR \<equiv> 501"

text \<open>
  Sequencing: run the continuation on success, pass an error through. This is the code's
  \<^verbatim>\<open>if (errorCode != SUCCESS_CODE) return errorCode;\<close>, with the state carried along.
\<close>

definition andThen :: "(error + 'a) \<times> 's \<Rightarrow> ('a \<Rightarrow> 's \<Rightarrow> (error + 'b) \<times> 's) \<Rightarrow> (error + 'b) \<times> 's" where
  "andThen r k = (case r of (Inl e, s) \<Rightarrow> (Inl e, s) | (Inr a, s) \<Rightarrow> k a s)"

lemma andThen_simps [simp]:
  "andThen (Inl e, s) k = (Inl e, s)" "andThen (Inr a, s) k = k a s"
  by (simp_all add: andThen_def)

lemma andThen_Inr:
  "andThen r k = (Inr b, t) \<longleftrightarrow> (\<exists>a s. r = (Inr a, s) \<and> k a s = (Inr b, t))"
  by (auto simp: andThen_def split: prod.splits sum.splits)

subsection \<open>Limits of the code\<close>

definition PAGE_SIZE :: nat where "PAGE_SIZE = 8192"
definition PAGE_TRAILER :: nat where "PAGE_TRAILER = 8"
definition PAGE_USABLE :: nat where "PAGE_USABLE = PAGE_SIZE - PAGE_TRAILER"
definition MAX_COLS :: nat where "MAX_COLS = 16"
definition NAME_LEN :: nat where "NAME_LEN = 64"
definition VALUE_LEN :: nat where "VALUE_LEN = 8192"
definition MAX_TOKENS :: nat where "MAX_TOKENS = 100"
definition MAX_DATABASES :: nat where "MAX_DATABASES = 8"
definition MAX_TABLES :: nat where "MAX_TABLES = 64"
definition CATALOG_SIZE :: nat where "CATALOG_SIZE = 101"
definition MAX_EXPR_NODES :: nat where "MAX_EXPR_NODES = 32"

lemma PAGE_USABLE_eq [simp]: "PAGE_USABLE = 8184"
  by (simp add: PAGE_USABLE_def PAGE_SIZE_def PAGE_TRAILER_def)

subsection \<open>Characters and bytes\<close>

definition byte_of_char :: "char \<Rightarrow> byte" where
  "byte_of_char c = of_char c"

definition char_of_byte :: "byte \<Rightarrow> char" where
  "char_of_byte b = char_of (unat b)"

lemma char_of_byte_of_char [simp]: "char_of_byte (byte_of_char c) = c"
proof -
  have c: "of_char c = (of_nat (of_char c) :: byte)" by (metis of_nat_of_char)
  show ?thesis
    unfolding char_of_byte_def byte_of_char_def by (subst c) (simp add: unat_of_nat)
qed

text \<open>\<^verbatim>\<open>tolower\<close> in the C locale, and the case-insensitive comparison of identifiers.\<close>

definition tolower :: "char \<Rightarrow> char" where
  "tolower c = (let n = of_char c :: nat in if 65 \<le> n \<and> n \<le> 90 then char_of (n + 32) else c)"

definition same_name :: "string \<Rightarrow> string \<Rightarrow> bool" where
  "same_name a b \<longleftrightarrow> map tolower a = map tolower b"

lemma same_name_refl [simp]: "same_name a a"
  by (simp add: same_name_def)

lemma same_name_sym: "same_name a b \<longleftrightarrow> same_name b a"
  by (auto simp: same_name_def)

lemma same_name_trans [trans]: "same_name a b \<Longrightarrow> same_name b c \<Longrightarrow> same_name a c"
  by (simp add: same_name_def)

text \<open>\<^verbatim>\<open>snprintf(name, NAME_LEN, "%s", s)\<close>: a copy cut to the buffer.\<close>

definition name_copy :: "string \<Rightarrow> string" where
  "name_copy s = take (NAME_LEN - 1) s"

subsection \<open>Memory: copies and little-endian fields\<close>

definition blit :: "nat \<Rightarrow> memory \<Rightarrow> nat \<Rightarrow> memory \<Rightarrow> memory" where
  "blit at src n m = (\<lambda>i. if at \<le> i \<and> i < at + n then src (i - at) else m i)"

lemma blit_apply [mem]: "blit at src n m i = (if at \<le> i \<and> i < at + n then src (i - at) else m i)"
  by (simp add: blit_def)

definition put_bytes :: "nat \<Rightarrow> byte list \<Rightarrow> memory \<Rightarrow> memory" where
  "put_bytes at bs m = (\<lambda>i. if at \<le> i \<and> i < at + length bs then bs ! (i - at) else m i)"

definition get_bytes :: "nat \<Rightarrow> nat \<Rightarrow> memory \<Rightarrow> byte list" where
  "get_bytes at n m = map (\<lambda>i. m (at + i)) [0..<n]"

lemma put_bytes_out [mem]: "i < at \<or> at + length bs \<le> i \<Longrightarrow> put_bytes at bs m i = m i"
  by (auto simp: put_bytes_def)

lemma put_bytes_in: "at \<le> i \<Longrightarrow> i < at + length bs \<Longrightarrow> put_bytes at bs m i = bs ! (i - at)"
  by (simp add: put_bytes_def)

lemma length_get_bytes [simp]: "length (get_bytes at n m) = n"
  by (simp add: get_bytes_def)

lemma nth_get_bytes [simp]: "i < n \<Longrightarrow> get_bytes at n m ! i = m (at + i)"
  by (simp add: get_bytes_def)

lemma get_bytes_cong: "(\<And>i. at \<le> i \<Longrightarrow> i < at + n \<Longrightarrow> m i = m' i) \<Longrightarrow>
    get_bytes at n m = get_bytes at n m'"
  by (simp add: get_bytes_def)

lemma get_put_bytes [simp]: "get_bytes at (length bs) (put_bytes at bs m) = bs"
  by (rule nth_equalityI) (auto simp: put_bytes_def)

lemma get_put_bytes_out [mem]:
  "at + n \<le> at' \<or> at' + length bs \<le> at \<Longrightarrow> get_bytes at n (put_bytes at' bs m) = get_bytes at n m"
  by (rule get_bytes_cong) (auto simp: put_bytes_def)

text \<open>
  \<^verbatim>\<open>(unsigned char)((value >> (8 * i)) & 0xFFu)\<close> of a field, its bytes in file order, and the
  accessors built on them.
\<close>

definition byte_at :: "'a::len word \<Rightarrow> nat \<Rightarrow> byte" where
  "byte_at v i = ucast (drop_bit (8 * i) v AND 0xFF)"

definition putU32 :: "nat \<Rightarrow> u32 \<Rightarrow> memory \<Rightarrow> memory" where
  "putU32 at v m = m(at := byte_at v 0, at + 1 := byte_at v 1,
                     at + 2 := byte_at v 2, at + 3 := byte_at v 3)"

definition getU32 :: "nat \<Rightarrow> memory \<Rightarrow> u32" where
  "getU32 at m = ucast (m at) OR push_bit 8 (ucast (m (at + 1)))
       OR push_bit 16 (ucast (m (at + 2))) OR push_bit 24 (ucast (m (at + 3)))"

lemma bit_0xFF: "bit (0xFF :: 'a::len word) n \<longleftrightarrow> n < 8 \<and> n < LENGTH('a)"
proof -
  have m: "(0xFF :: 'a word) = mask 8" by (simp add: mask_eq_exp_minus_1)
  show ?thesis unfolding m by (auto simp only: bit_mask_iff possible_bit_word)
qed

lemma bit_byte_at: "bit (byte_at v i) n \<longleftrightarrow> n < 8 \<and> bit v (8 * i + n)"
  unfolding byte_at_def
  by (auto simp only: bit_ucast_iff bit_and_iff bit_drop_bit_eq bit_0xFF comp_def
      possible_bit_word len_num1 len_bit0 dest: bit_imp_le_length)

lemma bytes4_join:
  "ucast (byte_at v 0) OR push_bit 8 (ucast (byte_at v 1)) OR push_bit 16 (ucast (byte_at v 2))
     OR push_bit 24 (ucast (byte_at v 3)) = (v :: u32)"
proof (rule bit_word_eqI)
  fix n assume "n < LENGTH(32)"
  then consider "n < 8" | "8 \<le> n \<and> n < 16" | "16 \<le> n \<and> n < 24" | "24 \<le> n \<and> n < 32" by force
  then show "bit (ucast (byte_at v 0) OR push_bit 8 (ucast (byte_at v 1)) OR
      push_bit 16 (ucast (byte_at v 2)) OR push_bit 24 (ucast (byte_at v 3)) :: u32) n = bit v n"
    by cases (auto simp: bit_byte_at bit_simps)
qed

lemma getU32_putU32 [mem]: "getU32 at (putU32 at v m) = v"
  using bytes4_join [of v] by (simp add: getU32_def putU32_def)

lemma getU32_putU32_out [mem]:
  "at + 4 \<le> at' \<or> at' + 4 \<le> at \<Longrightarrow> getU32 at (putU32 at' v m) = getU32 at m"
  by (auto simp: getU32_def putU32_def)

lemma putU32_out [mem]: "i < at \<or> at + 4 \<le> i \<Longrightarrow> putU32 at v m i = m i"
  by (auto simp: putU32_def)

lemma getU32_cong:
  "(\<And>i. at \<le> i \<Longrightarrow> i < at + 4 \<Longrightarrow> m i = m' i) \<Longrightarrow> getU32 at m = getU32 at m'"
  by (simp add: getU32_def)

lemma getU32_put_bytes_out [mem]:
  "at + 4 \<le> at' \<or> at' + length bs \<le> at \<Longrightarrow> getU32 at (put_bytes at' bs m) = getU32 at m"
  by (rule getU32_cong) (auto simp: put_bytes_def)

lemma getU32_blit_out [mem]:
  "at + 4 \<le> at' \<or> at' + n \<le> at \<Longrightarrow> getU32 at (blit at' src n m) = getU32 at m"
  by (rule getU32_cong) (auto simp: blit_def)

lemma getU32_blit_in [mem]:
  "at' \<le> at \<Longrightarrow> at + 4 \<le> at' + n \<Longrightarrow> getU32 at (blit at' src n m) = getU32 (at - at') src"
  by (auto simp: getU32_def blit_def Suc_diff_le)

subsection \<open>Binary search\<close>

text \<open>
  The loop every sorted lookup of the code is an instance of: the first index of \<open>[low, high)\<close>
  at which \<open>before\<close> fails.
\<close>

function bsearch :: "(nat \<Rightarrow> bool) \<Rightarrow> nat \<Rightarrow> nat \<Rightarrow> nat" where
  "bsearch before low high =
     (if low < high
      then let middle = low + (high - low) div 2
           in if before middle then bsearch before (middle + 1) high
              else bsearch before low middle
      else low)"
  by pat_completeness auto
termination
  by (relation "measure (\<lambda>(before, low, high). high - low)") auto

declare bsearch.simps [simp del]

lemma bsearch_bounds: "low \<le> high \<Longrightarrow> low \<le> bsearch before low high \<and> bsearch before low high \<le> high"
proof (induction before low high rule: bsearch.induct)
  case (1 before low high)
  show ?case
  proof (cases "low < high")
    case True
    define middle where "middle = low + (high - low) div 2"
    have "low \<le> middle" "middle < high" using True by (auto simp: middle_def)
    with 1 True show ?thesis
      by (subst (1 2) bsearch.simps) (auto simp: middle_def [symmetric] Let_def)
  qed (use 1 in \<open>simp add: bsearch.simps\<close>)
qed

lemma bsearch_split:
  assumes mono: "\<And>i j. i \<le> j \<Longrightarrow> j < n \<Longrightarrow> before j \<Longrightarrow> before i"
  shows "low \<le> high \<Longrightarrow> high \<le> n \<Longrightarrow> (\<And>i. i < low \<Longrightarrow> before i) \<Longrightarrow>
         (\<And>i. high \<le> i \<Longrightarrow> i < n \<Longrightarrow> \<not> before i) \<Longrightarrow>
         (\<forall>i < bsearch before low high. before i) \<and>
         (\<forall>i. bsearch before low high \<le> i \<longrightarrow> i < n \<longrightarrow> \<not> before i)"
proof (induction "high - low" arbitrary: low high rule: less_induct)
  case less
  show ?case
  proof (cases "low < high")
    case False
    then have "bsearch before low high = low" and "low = high"
      using less.prems(1) by (auto simp: bsearch.simps)
    then show ?thesis using less.prems by auto
  next
    case True
    define middle where "middle = low + (high - low) div 2"
    have m: "low \<le> middle" "middle < high" using True by (auto simp: middle_def)
    have unfold: "bsearch before low high =
        (if before middle then bsearch before (middle + 1) high else bsearch before low middle)"
      using True by (subst bsearch.simps) (simp add: middle_def [symmetric] Let_def)
    show ?thesis
    proof (cases "before middle")
      case True
      have "\<And>i. i < middle + 1 \<Longrightarrow> before i"
        using mono [of _ middle] True m less.prems(2) by auto
      then have "(\<forall>i < bsearch before (middle + 1) high. before i) \<and>
         (\<forall>i. bsearch before (middle + 1) high \<le> i \<longrightarrow> i < n \<longrightarrow> \<not> before i)"
        using m less.prems by (intro less.hyps) auto
      with True unfold show ?thesis by simp
    next
      case False
      have "\<And>i. middle \<le> i \<Longrightarrow> i < n \<Longrightarrow> \<not> before i"
        using mono [of middle] False by auto
      then have "(\<forall>i < bsearch before low middle. before i) \<and>
         (\<forall>i. bsearch before low middle \<le> i \<longrightarrow> i < n \<longrightarrow> \<not> before i)"
        using m less.prems by (intro less.hyps) auto
      with False unfold show ?thesis by simp
    qed
  qed
qed

end
