(* ===== verification/Dates.thy ===== *)
theory Dates
  imports Prelude
begin

text \<open>
  Dates, \<^verbatim>\<open>07_storage.c\<close>: a date is a day number counted from 1970-01-01, converted to and from
  the calendar with C's truncating division, parsed from and printed as \<open>YYYY-MM-DD\<close>. The
  lemmas show that the two conversions are inverse on the calendar's dates and on every day
  number, and that parsing and printing are inverse on the years 0 to 9999.
\<close>

subsection \<open>The code\<close>

definition daysFromCivil :: "int \<Rightarrow> int \<Rightarrow> int \<Rightarrow> int" where
  "daysFromCivil year month day =
     (let year = year - (if month \<le> 2 then 1 else 0);
          era = (if year \<ge> 0 then year else year - 399) sdiv 400;
          yoe = year - era * 400;
          doy = (153 * (month + (if month > 2 then -3 else 9)) + 2) sdiv 5 + day - 1;
          doe = yoe * 365 + yoe sdiv 4 - yoe sdiv 100 + doy
      in era * 146097 + doe - 719468)"

definition civilFromDays :: "int \<Rightarrow> int \<times> int \<times> int" where
  "civilFromDays days =
     (let z = days + 719468;
          era = (if z \<ge> 0 then z else z - 146096) sdiv 146097;
          doe = z - era * 146097;
          yoe = (doe - doe sdiv 1460 + doe sdiv 36524 - doe sdiv 146096) sdiv 365;
          doy = doe - (365 * yoe + yoe sdiv 4 - yoe sdiv 100);
          mp = (5 * doy + 2) sdiv 153;
          day = doy - (153 * mp + 2) sdiv 5 + 1;
          month = mp + (if mp < 10 then 3 else -9);
          year = yoe + era * 400 + (if month \<le> 2 then 1 else 0)
      in (year, month, day))"

definition leapYear :: "int \<Rightarrow> bool" where
  "leapYear year \<longleftrightarrow> (year smod 4 = 0 \<and> year smod 100 \<noteq> 0) \<or> year smod 400 = 0"

definition daysInMonth :: "int \<Rightarrow> int \<Rightarrow> int" where
  "daysInMonth year month =
     (if month = 2 \<and> leapYear year then 29
      else [31, 28, 31, 30, 31, 30, 31, 31, 30, 31, 30, 31] ! nat (month - 1))"

text \<open>The digit loop of one field: \<open>n\<close> digits from position \<open>at\<close>, or no number.\<close>

fun readField :: "string \<Rightarrow> nat \<Rightarrow> nat \<Rightarrow> int \<Rightarrow> int option" where
  "readField text at 0 acc = Some acc"
| "readField text at (Suc n) acc =
     (let c = of_char (text ! at) :: int
      in if c < 48 \<or> c > 57 then None else readField text (at + 1) n (acc * 10 + (c - 48)))"

definition textToDate :: "string \<Rightarrow> error + int" where
  "textToDate text =
     (if length text \<noteq> 10 \<or> text ! 4 \<noteq> CHR ''-'' \<or> text ! 7 \<noteq> CHR ''-''
      then Inl ERROR_SEMANTIC_INVALID_DATE
      else case (readField text 0 4 0, readField text 5 2 0, readField text 8 2 0) of
             (Some year, Some month, Some day) \<Rightarrow>
               if month < 1 \<or> month > 12 then Inl ERROR_SEMANTIC_INVALID_DATE
               else if day < 1 \<or> day > daysInMonth year month
                    then Inl ERROR_SEMANTIC_INVALID_DATE
               else Inr (daysFromCivil year month day)
           | _ \<Rightarrow> Inl ERROR_SEMANTIC_INVALID_DATE)"

text \<open>\<^verbatim>\<open>%0wu\<close> of a number that has at most \<open>w\<close> digits.\<close>

fun padDigits :: "nat \<Rightarrow> int \<Rightarrow> string" where
  "padDigits 0 n = []"
| "padDigits (Suc w) n = padDigits w (n div 10) @ [char_of (48 + n mod 10)]"

definition dateToText :: "int \<Rightarrow> string" where
  "dateToText days =
     (let (year, month, day) = civilFromDays days;
          y = year mod 2 ^ 32 mod 10000;
          m = month mod 2 ^ 32 mod 100;
          d = day mod 2 ^ 32 mod 100
      in padDigits 4 y @ ''-'' @ padDigits 2 m @ ''-'' @ padDigits 2 d)"


subsection \<open>Truncating division on the ranges the code uses\<close>

named_theorems cdiv \<open>C's division and remainder, where they agree with the mathematical ones\<close>

lemma sdiv_nonneg [cdiv]: "0 \<le> a \<Longrightarrow> 0 < b \<Longrightarrow> (a::int) sdiv b = a div b"
  by (simp add: signed_divide_int_def sgn_if)

lemma sdiv_floor:
  fixes a b c :: int
  assumes "0 < b" "c = b - 1"
  shows "(if 0 \<le> a then a else a - c) sdiv b = a div b"
proof (cases "0 \<le> a")
  case True
  then show ?thesis using assms by (simp add: cdiv)
next
  case False
  then have "(a - c) sdiv b = - ((b - 1 - a) div b)"
    using assms by (simp add: signed_divide_int_def sgn_if)
  also have "(b - 1 - a) div b = - (a div b)"
  proof (rule int_div_pos_eq)
    show "b - 1 - a = b * - (a div b) + (b - 1 - a mod b)"
      using mult_div_mod_eq [of b a] by (simp add: algebra_simps)
    show "0 \<le> b - 1 - a mod b" "b - 1 - a mod b < b"
      using assms pos_mod_bound [of b a] pos_mod_sign [of b a] by linarith+
  qed
  finally show ?thesis using False by simp
qed

lemma div_sandwich:
  fixes a b :: int
  assumes "0 < b"
  shows "b * (a div b) \<le> a" "a < b * (a div b + 1)"
proof -
  have "b * (a div b) + a mod b = a" "0 \<le> a mod b" "a mod b < b" using assms by simp_all
  then show "b * (a div b) \<le> a" "a < b * (a div b + 1)"
    by (simp_all only: distrib_left mult_1_right)
qed

lemma smod_zero: "0 < b \<Longrightarrow> (a::int) smod b = 0 \<longleftrightarrow> a mod b = 0"
  by (simp add: signed_modulo_int_def sgn_if flip: dvd_eq_mod_eq_0)

subsection \<open>The calendar inside one era\<close>

text \<open>
  The year of a day inside its 400-year era. The day is split into centuries \<open>c\<close>, four-year
  cycles \<open>q\<close>, years \<open>r\<close> and the day \<open>y\<close> of its March-based year; a 366th day exists
  only in the last year of a cycle.
\<close>

lemma year_of_era:
  fixes c q r y :: int
  assumes c: "0 \<le> c" "c \<le> 3" and q: "0 \<le> q" "q \<le> 24" and r: "0 \<le> r" "r \<le> 3"
    and y: "0 \<le> y" "y \<le> 365" and leap: "y = 365 \<Longrightarrow> r = 3 \<and> (q < 24 \<or> c = 3)"
  defines "doe \<equiv> 36524 * c + 1461 * q + 365 * r + y"
  shows "(doe - doe div 1460 + doe div 36524 - doe div 146096) div 365 = 100 * c + 4 * q + r"
proof -
  define x where "x = 1461 * q + 365 * r + y"
  have x: "0 \<le> x" "x \<le> 36524" 
    using q r y by (auto simp: x_def)
  have x_max: "c = 3" if "x = 36524"
  proof -
    have "y = 365" using that q r y unfolding x_def by linarith
    with leap have "r = 3" "q < 24 \<or> c = 3" by auto
    with that \<open>y = 365\<close> show ?thesis by (auto simp: x_def)
  qed
  have doe: "doe = 36524 * c + x" by (simp add: doe_def x_def)
  have cent: "doe div 36524 - doe div 146096 = c"
  proof (cases "x = 36524")
    case True
    with x_max doe show ?thesis by simp
  next
    case False
    then have "doe div 36524 = c" using x by (simp add: doe)
    moreover have "doe div 146096 = 0" using x c False by (simp add: doe)
    ultimately show ?thesis by simp
  qed
  define e where "e = (24 * c + q + 365 * r + y) div 1460"
  have e: "e = (if 1460 \<le> 24 * c + q + 365 * r + y then 1 else 0)"
    unfolding e_def using c q r y by (auto intro: int_div_pos_eq)
  have d1460: "doe div 1460 = 25 * c + q + e"
  proof -
    have "doe = 1460 * (25 * c + q) + (24 * c + q + 365 * r + y)"
      by (simp add: doe_def)
    then show ?thesis by (simp add: e_def)
  qed
  have "doe - doe div 1460 + doe div 36524 - doe div 146096 =
      365 * (100 * c + 4 * q + r) + (y - e)"
    using cent d1460 by (simp add: doe_def)
  moreover have "0 \<le> y - e" "y - e < 365"
    using e c q r y leap by (cases "y = 365"; auto split: if_splits)+
  ultimately show ?thesis
    by (metis int_div_pos_eq)
qed

text \<open>The month of a day inside its March-based year.\<close>

lemma month_of_year:
  fixes doy :: int
  assumes "0 \<le> doy" "doy \<le> 365"
  defines "mp \<equiv> (5 * doy + 2) div 153"
  shows "0 \<le> mp" "mp \<le> 11" "1 \<le> doy - (153 * mp + 2) div 5 + 1"
    "doy - (153 * mp + 2) div 5 + 1 \<le> [31, 30, 31, 30, 31, 31, 30, 31, 30, 31, 31, 29] ! nat mp"
    "mp = 11 \<Longrightarrow> doy - (153 * mp + 2) div 5 + 1 = 29 \<longleftrightarrow> doy = 365"
proof -
  have d: "153 * mp \<le> 5 * doy + 2" "5 * doy + 2 < 153 * (mp + 1)"
    unfolding mp_def by (rule div_sandwich; simp)+
  have m: "0 \<le> mp" "mp \<le> 11" using d assms by linarith+
  have "mp = 0 \<or> mp = 1 \<or> mp = 2 \<or> mp = 3 \<or> mp = 4 \<or> mp = 5 \<or> mp = 6 \<or> mp = 7 \<or> mp = 8
      \<or> mp = 9 \<or> mp = 10 \<or> mp = 11" using m by presburger
  then show "0 \<le> mp" "mp \<le> 11" "1 \<le> doy - (153 * mp + 2) div 5 + 1"
    "doy - (153 * mp + 2) div 5 + 1 \<le> [31, 30, 31, 30, 31, 31, 30, 31, 30, 31, 31, 29] ! nat mp"
    "mp = 11 \<Longrightarrow> doy - (153 * mp + 2) div 5 + 1 = 29 \<longleftrightarrow> doy = 365"
    using d assms(1,2) by (elim disjE; simp)+
qed


text \<open>What \<open>civilFromDays\<close> computes on a day given by its position in the calendar's cycles.\<close>

lemma civilFromDays_cycles:
  fixes era c q r doy :: int
  assumes c: "0 \<le> c" "c \<le> 3" and q: "0 \<le> q" "q \<le> 24" and r: "0 \<le> r" "r \<le> 3"
    and doy: "0 \<le> doy" "doy \<le> 365" and leap: "doy = 365 \<Longrightarrow> r = 3 \<and> (q < 24 \<or> c = 3)"
    and z: "z = era * 146097 + (36524 * c + 1461 * q + 365 * r + doy) - 719468"
  shows "civilFromDays z =
     (let mp = (5 * doy + 2) div 153;
          month = mp + (if mp < 10 then 3 else -9)
      in (100 * c + 4 * q + r + era * 400 + (if month \<le> 2 then 1 else 0), month,
          doy - (153 * mp + 2) div 5 + 1))"
proof -
  define doe where "doe = 36524 * c + 1461 * q + 365 * r + doy"
  define yoe where "yoe = 100 * c + 4 * q + r"
  have doe: "0 \<le> doe" "doe < 146097"
    using c q r doy leap by (auto simp: doe_def)
  have "(z + 719468) div 146097 = era"
    using doe by (intro int_div_pos_eq [of _ _ era doe]) (simp_all add: z doe_def)
  then have era: "(if 0 \<le> z + 719468 then z + 719468 else z + 719468 - 146096) sdiv 146097 = era"
    using sdiv_floor [of 146097 146096 "z + 719468"] by simp
  have yoe_eq: "(doe - doe div 1460 + doe div 36524 - doe div 146096) div 365 = yoe"
    unfolding doe_def yoe_def using c q r doy leap by (rule year_of_era)
  have sdivs: "doe sdiv 1460 = doe div 1460" "doe sdiv 36524 = doe div 36524"
    "doe sdiv 146096 = doe div 146096" "yoe sdiv 4 = yoe div 4" "yoe sdiv 100 = yoe div 100"
    using doe c q r by (auto simp: yoe_def cdiv)
  have num: "0 \<le> doe - doe div 1460 + doe div 36524 - doe div 146096"
    using doe by linarith
  have q4: "yoe div 4 = 25 * c + q" and q100: "yoe div 100 = c"
    using c q r by (auto simp: yoe_def intro!: int_div_pos_eq)
  have doy_eq: "doe - (365 * yoe + yoe sdiv 4 - yoe sdiv 100) = doy"
    by (simp add: sdivs q4 q100) (simp add: doe_def yoe_def)
  have z_doe: "z + 719468 - era * 146097 = doe"
    by (simp add: z doe_def)
  have mp: "0 \<le> (5 * doy + 2) div 153" using doy by simp
  show ?thesis
    unfolding civilFromDays_def Let_def era z_doe
    using num doy mp
    by (simp add: sdivs(1-3) yoe_eq doy_eq cdiv) (simp add: yoe_def)
qed

text \<open>Every day of an era lies in such cycles.\<close>

lemma era_cycles:
  fixes doe :: int
  assumes "0 \<le> doe" "doe < 146097"
  obtains c q r doy where "0 \<le> c" "c \<le> 3" "0 \<le> q" "q \<le> 24" "0 \<le> r" "r \<le> 3" "0 \<le> doy"
    "doy \<le> 365" "doy = 365 \<longrightarrow> r = 3 \<and> (q < 24 \<or> c = 3)"
    "doe = 36524 * c + 1461 * q + 365 * r + doy"
proof -
  define c where "c = min 3 (doe div 36524)"
  define x where "x = doe - 36524 * c"
  define q where "q = x div 1461"
  define y where "y = x mod 1461"
  define r where "r = min 3 (y div 365)"
  have c: "0 \<le> c" "c \<le> 3" using assms by (auto simp: c_def)
  have x: "0 \<le> x" "x \<le> 36524" using assms unfolding x_def c_def by (auto simp: min_def)
  have x3: "x = 36524 \<Longrightarrow> c = 3"
    using pos_mod_bound [of 36524 doe] minus_mult_div_eq_mod [of doe 36524]
    by (auto simp: x_def c_def min_def split: if_splits)
  have q: "0 \<le> q" "q \<le> 24" using x unfolding q_def by auto
  have xq: "x = 1461 * q + y" by (simp add: q_def y_def)
  have y: "0 \<le> y" "y \<le> 1460" by (simp_all add: y_def zle_diff1_eq [of _ 1461, simplified])
  have r: "0 \<le> r" "r \<le> 3" using y by (auto simp: r_def)
  have "365 * (y div 365) \<le> y" "y < 365 * (y div 365 + 1)"
    by (rule div_sandwich; simp)+
  then have d: "0 \<le> y - 365 * r" "y - 365 * r \<le> 365" "y - 365 * r = 365 \<Longrightarrow> r = 3 \<and> y = 1460"
    using y unfolding r_def by (auto simp: min_def split: if_splits)
  show thesis
  proof (rule that [of c q r "y - 365 * r"])
    show "y - 365 * r = 365 \<longrightarrow> r = 3 \<and> (q < 24 \<or> c = 3)"
    proof
      assume "y - 365 * r = 365"
      then have "r = 3" "y = 1460" using d(3) by simp_all
      moreover have "c = 3" if "q = 24" by (rule x3) (simp add: xq that \<open>y = 1460\<close>)
      ultimately show "r = 3 \<and> (q < 24 \<or> c = 3)" using q by force
    qed
    show "doe = 36524 * c + 1461 * q + 365 * r + (y - 365 * r)"
      using xq by (simp add: x_def)
  qed (use c q r d in auto)
qed


subsection \<open>The two conversions are inverse\<close>

definition valid_date :: "int \<Rightarrow> int \<Rightarrow> int \<Rightarrow> bool" where
  "valid_date year month day \<longleftrightarrow>
     1 \<le> month \<and> month \<le> 12 \<and> 1 \<le> day \<and> day \<le> daysInMonth year month"

lemma daysFromCivil_cycles:
  fixes year month day :: int
  assumes "1 \<le> month" "month \<le> 12"
  defines "y \<equiv> year - (if month \<le> 2 then 1 else 0)"
    and "mp \<equiv> month + (if month > 2 then -3 else 9)"
  shows "daysFromCivil year month day = y div 400 * 146097 +
     (y mod 400 * 365 + y mod 400 div 4 - y mod 400 div 100 + (153 * mp + 2) div 5 + day - 1) - 719468"
proof -
  have era: "(if 0 \<le> y then y else y - 399) sdiv 400 = y div 400"
    by (rule sdiv_floor) simp_all
  have yoe: "y - y div 400 * 400 = y mod 400"
    by (simp add: minus_div_mult_eq_mod)
  have "(153 * mp + 2) sdiv 5 = (153 * mp + 2) div 5"
    using assms by (intro sdiv_nonneg) (auto simp: mp_def)
  moreover have "y mod 400 sdiv 4 = y mod 400 div 4" "y mod 400 sdiv 100 = y mod 400 div 100"
    by (simp_all add: cdiv)
  ultimately show ?thesis
    unfolding daysFromCivil_def Let_def y_def [symmetric] mp_def [symmetric] era yoe by simp
qed

lemma yoe_cycles:
  fixes yoe :: int
  assumes "0 \<le> yoe" "yoe < 400"
  obtains c q r where "0 \<le> c" "c \<le> 3" "0 \<le> q" "q \<le> 24" "0 \<le> r" "r \<le> 3"
    "yoe = 100 * c + 4 * q + r" "yoe div 4 = 25 * c + q" "yoe div 100 = c"
proof -
  define c x where "c = yoe div 100" and "x = yoe mod 100"
  have yoe: "yoe = 100 * c + x" and x: "0 \<le> x" "x < 100" by (simp_all add: c_def x_def)
  define q r where "q = x div 4" and "r = x mod 4"
  have xq: "x = 4 * q + r" and r: "0 \<le> r" "r < 4" by (simp_all add: q_def r_def)
  show thesis
  proof (rule that)
    show "yoe = 100 * c + 4 * q + r" by (simp add: yoe xq)
    then have "yoe = 4 * (25 * c + q) + r" by simp
    then show "yoe div 4 = 25 * c + q" using r by (intro int_div_pos_eq)
    show "yoe div 100 = c" by (simp add: c_def)
  qed (use assms yoe xq x r in auto)
qed

lemma leapYear_iff: "leapYear y \<longleftrightarrow> (4 dvd y \<and> \<not> 100 dvd y) \<or> 400 dvd y"
  by (simp add: leapYear_def smod_zero flip: dvd_eq_mod_eq_0)

lemma leapYear_cycles:
  fixes c q r era :: int
  assumes "0 \<le> c" "c \<le> 3" "0 \<le> q" "q \<le> 24" "0 \<le> r" "r \<le> 3"
  shows "leapYear (100 * c + 4 * q + r + era * 400 + 1) \<longleftrightarrow> r = 3 \<and> (q < 24 \<or> c = 3)"
proof -
  define n where "n = 100 * c + 4 * q + r + era * 400 + 1"
  have "n = 4 * (25 * c + q + era * 100) + (r + 1)" by (simp add: n_def)
  then have "4 dvd n \<longleftrightarrow> 4 dvd r + 1" by (simp only: dvd_add_right_iff dvd_triv_left)
  also have "\<dots> \<longleftrightarrow> r = 3" using assms by presburger
  finally have d4: "4 dvd n \<longleftrightarrow> r = 3" .
  show ?thesis
  proof (cases "r = 3")
    case True
    have "n = 100 * (c + era * 4) + 4 * (q + 1)" using True by (simp add: n_def)
    then have "100 dvd n \<longleftrightarrow> 100 dvd 4 * (q + 1)" by (simp only: dvd_add_right_iff dvd_triv_left)
    also have "\<dots> \<longleftrightarrow> q = 24" using assms by presburger
    finally have d100: "100 dvd n \<longleftrightarrow> q = 24" .
    show ?thesis
    proof (cases "q = 24")
      case q: True
      have "n = 400 * era + 100 * (c + 1)" using True q by (simp add: n_def)
      then have "400 dvd n \<longleftrightarrow> 400 dvd 100 * (c + 1)"
        by (simp only: dvd_add_right_iff dvd_triv_left)
      also have "\<dots> \<longleftrightarrow> c = 3"
      proof -
        have "c = 0 \<or> c = 1 \<or> c = 2 \<or> c = 3" using assms by linarith
        then show ?thesis by (elim disjE) simp_all
      qed
      finally show ?thesis using d4 d100 q True by (simp add: leapYear_iff n_def)
    qed (use d4 d100 True assms in \<open>auto simp: leapYear_iff n_def\<close>)
  next
    case False
    then have "\<not> 400 dvd n" using d4 dvd_trans [of 4 400 n] by auto
    then show ?thesis using False d4 by (simp add: leapYear_iff n_def)
  qed
qed

text \<open>A month of the calendar is a month of the March-based year.\<close>

lemma daysInMonth_march:
  assumes "0 \<le> mp" "mp \<le> 11"
  shows "daysInMonth year (mp + (if mp < 10 then 3 else -9)) =
    (if mp = 11 then if leapYear year then 29 else 28
     else [31, 30, 31, 30, 31, 31, 30, 31, 30, 31, 31, 29] ! nat mp)"
proof -
  have "mp = 0 \<or> mp = 1 \<or> mp = 2 \<or> mp = 3 \<or> mp = 4 \<or> mp = 5 \<or> mp = 6 \<or> mp = 7 \<or> mp = 8
      \<or> mp = 9 \<or> mp = 10 \<or> mp = 11" using assms by presburger
  then show ?thesis by (elim disjE) (simp_all add: daysInMonth_def)
qed

lemma march_day:
  fixes mp day :: int
  assumes mp: "0 \<le> mp" "mp \<le> 11" and day: "1 \<le> day"
    "day \<le> [31, 30, 31, 30, 31, 31, 30, 31, 30, 31, 31, 29] ! nat mp"
  defines "doy \<equiv> (153 * mp + 2) div 5 + day - 1"
  shows "0 \<le> doy" "doy \<le> 365" "(5 * doy + 2) div 153 = mp" "doy = 365 \<longleftrightarrow> mp = 11 \<and> day = 29"
proof -
  have "mp = 0 \<or> mp = 1 \<or> mp = 2 \<or> mp = 3 \<or> mp = 4 \<or> mp = 5 \<or> mp = 6 \<or> mp = 7 \<or> mp = 8
      \<or> mp = 9 \<or> mp = 10 \<or> mp = 11" using mp by presburger
  then show "0 \<le> doy" "doy \<le> 365" "(5 * doy + 2) div 153 = mp" "doy = 365 \<longleftrightarrow> mp = 11 \<and> day = 29"
    unfolding doy_def using day by (elim disjE; simp; presburger?)+
qed

lemma civil_of_days:
  assumes valid: "valid_date year month day"
  shows "civilFromDays (daysFromCivil year month day) = (year, month, day)"
proof -
  define y where "y = year - (if month \<le> 2 then 1 else 0)"
  define mp where "mp = month + (if month > 2 then -3 else 9)"
  have m: "1 \<le> month" "month \<le> 12" "0 \<le> mp" "mp \<le> 11"
    using valid by (auto simp: valid_date_def mp_def)
  have month: "month = mp + (if mp < 10 then 3 else -9)" using m by (auto simp: mp_def)
  have "0 \<le> y mod 400" "y mod 400 < 400" by simp_all
  then obtain c q r where cyc: "0 \<le> c" "c \<le> 3" "0 \<le> q" "q \<le> 24" "0 \<le> r" "r \<le> 3"
    and yoe: "y mod 400 = 100 * c + 4 * q + r" "y mod 400 div 4 = 25 * c + q"
      "y mod 400 div 100 = c" by (rule yoe_cycles)
  have y: "y = 100 * c + 4 * q + r + y div 400 * 400" using yoe(1) by (simp flip: yoe(1))
  have day: "1 \<le> day" "day \<le> daysInMonth year month" using valid by (auto simp: valid_date_def)
  have len: "day \<le> [31, 30, 31, 30, 31, 31, 30, 31, 30, 31, 31, 29] ! nat mp"
    using day(2) m unfolding month by (auto simp: daysInMonth_march split: if_splits)
  note doy = march_day [OF m(3,4) day(1) len]
  have leap: "r = 3 \<and> (q < 24 \<or> c = 3)" if "(153 * mp + 2) div 5 + day - 1 = 365"
  proof -
    have "mp = 11" "day = 29" using doy(4) that by auto
    then have "leapYear year" "month = 2"
      using day(2) m unfolding month by (auto simp: daysInMonth_def split: if_splits)
    then have "leapYear (100 * c + 4 * q + r + y div 400 * 400 + 1)"
      using y by (simp add: y_def)
    then show ?thesis by (simp add: leapYear_cycles [OF cyc])
  qed
  have days: "daysFromCivil year month day = y div 400 * 146097 +
     (36524 * c + 1461 * q + 365 * r + ((153 * mp + 2) div 5 + day - 1)) - 719468"
    using daysFromCivil_cycles [OF m(1,2), of year day]
    unfolding y_def [symmetric] mp_def [symmetric] yoe(2,3) unfolding yoe(1) by simp
  have "civilFromDays (daysFromCivil year month day) =
     (100 * c + 4 * q + r + y div 400 * 400 + (if month \<le> 2 then 1 else 0), month, day)"
    using civilFromDays_cycles [OF cyc doy(1,2) leap days]
    unfolding doy(3) Let_def month [symmetric] by simp
  then show ?thesis using y by (simp add: y_def)
qed

lemma days_of_civil:
  obtains year month day where "civilFromDays z = (year, month, day)"
    "valid_date year month day" "daysFromCivil year month day = z"
proof -
  define era where "era = (z + 719468) div 146097"
  have "0 \<le> (z + 719468) mod 146097" "(z + 719468) mod 146097 < 146097" by simp_all
  then obtain c q r doy where cyc: "0 \<le> c" "c \<le> 3" "0 \<le> q" "q \<le> 24" "0 \<le> r" "r \<le> 3"
    and doy: "0 \<le> doy" "doy \<le> 365" "doy = 365 \<longrightarrow> r = 3 \<and> (q < 24 \<or> c = 3)"
    and doe: "(z + 719468) mod 146097 = 36524 * c + 1461 * q + 365 * r + doy"
    by (rule era_cycles)
  have z: "z = era * 146097 + (36524 * c + 1461 * q + 365 * r + doy) - 719468"
    unfolding doe [symmetric] era_def by simp
  define mp where "mp = (5 * doy + 2) div 153"
  define month where "month = mp + (if mp < 10 then 3 else -9)"
  define year where "year = 100 * c + 4 * q + r + era * 400 + (if month \<le> 2 then 1 else 0)"
  define day where "day = doy - (153 * mp + 2) div 5 + 1"
  note mo = month_of_year [OF doy(1,2), folded mp_def]
  have civil: "civilFromDays z = (year, month, day)"
    using civilFromDays_cycles [OF cyc doy(1,2) doy(3) [THEN mp] z]
    unfolding mp_def [symmetric] Let_def month_def [symmetric] day_def [symmetric] year_def .
  have "day \<le> daysInMonth year month"
  proof (cases "mp = 11")
    case True
    then have "leapYear year" if "day = 29"
      using that mo(5) doy(3) leapYear_cycles [OF cyc, of era]
      by (simp add: day_def year_def month_def)
    then show ?thesis
      using mo(4) True unfolding month_def day_def [symmetric]
      by (cases "day = 29") (auto simp: daysInMonth_def)
  qed (use mo in \<open>simp add: month_def day_def daysInMonth_march\<close>)
  then have valid: "valid_date year month day"
    using mo by (auto simp: valid_date_def month_def day_def)
  have "daysFromCivil year month day = z"
  proof -
    define y where "y = 100 * c + 4 * q + r + era * 400"
    have "y div 400 = era" by (rule int_div_pos_eq [of _ _ _ "100 * c + 4 * q + r"])
      (use cyc in \<open>auto simp: y_def\<close>)
    moreover have "y mod 400 = 100 * c + 4 * q + r" by (rule int_mod_pos_eq [of _ _ era])
      (use cyc in \<open>auto simp: y_def\<close>)
    moreover have "(100 * c + 4 * q + r) div 4 = 25 * c + q"
      by (rule int_div_pos_eq [of _ _ _ r]) (use cyc in auto)
    moreover have "(100 * c + 4 * q + r) div 100 = c"
      by (rule int_div_pos_eq [of _ _ _ "4 * q + r"]) (use cyc in auto)
    moreover have "month + (if month > 2 then -3 else 9) = mp"
      "year - (if month \<le> 2 then 1 else 0) = y" "1 \<le> month" "month \<le> 12"
      using mo(1,2) by (auto simp: month_def year_def y_def)
    ultimately show ?thesis
      using daysFromCivil_cycles [of month year day] by (simp add: day_def z)
  qed
  with civil valid show thesis by (rule that)
qed


text \<open>The day numbers of the years 0 to 9999, the ones four digits can print.\<close>

lemma civil_year_range:
  assumes z: "-719528 \<le> z" "z \<le> 2932896" and civil: "civilFromDays z = (year, month, day)"
  shows "0 \<le> year" "year \<le> 9999"
proof -
  define era where "era = (z + 719468) div 146097"
  define doe where "doe = (z + 719468) mod 146097"
  have doe_range: "0 \<le> doe" "doe < 146097" by (simp_all add: doe_def)
  then obtain c q r doy where cyc: "0 \<le> c" "c \<le> 3" "0 \<le> q" "q \<le> 24" "0 \<le> r" "r \<le> 3"
    and doy: "0 \<le> doy" "doy \<le> 365" "doy = 365 \<longrightarrow> r = 3 \<and> (q < 24 \<or> c = 3)"
    and doe: "doe = 36524 * c + 1461 * q + 365 * r + doy"
    by (rule era_cycles)
  have zd: "z = era * 146097 + doe - 719468" unfolding doe_def era_def by simp
  define yoe where "yoe = 100 * c + 4 * q + r"
  define mp where "mp = (5 * doy + 2) div 153"
  have m: "153 * mp \<le> 5 * doy + 2" "5 * doy + 2 < 153 * (mp + 1)"
    unfolding mp_def by (rule div_sandwich; simp)+
  have year: "year = yoe + era * 400 + (if mp < 10 then 0 else 1)"
    using civilFromDays_cycles [OF cyc doy(1,2) doy(3) [THEN mp] zd [unfolded doe]] civil m doy
    by (auto simp: Let_def yoe_def mp_def [symmetric] split: if_splits)
  have yoe: "0 \<le> yoe" "yoe \<le> 399" using cyc by (auto simp: yoe_def)
  have last: "doe = 145731 + doy" if "yoe = 399"
  proof -
    have "c = 3" "q = 24" "r = 3" using that cyc unfolding yoe_def by linarith+
    then show ?thesis by (simp add: doe)
  qed
  have early: "doe < 145731" if "yoe < 399"
    using that cyc doy unfolding yoe_def doe by (cases "r = 3"; cases "c = 3") auto
  have era: "-1 \<le> era" "era \<le> 24" using z zd doe_range by linarith+
  show "0 \<le> year"
  proof (cases "era = -1")
    case True
    then have "doe \<ge> 146037" using z zd by simp
    then have "yoe = 399" using early yoe by force
    then have "306 \<le> doy" using last \<open>doe \<ge> 146037\<close> by simp
    then have "\<not> mp \<le> 9" using m(2) by auto
    then have "mp \<ge> 10" by simp
    with True \<open>yoe = 399\<close> show ?thesis by (simp add: year)
  qed (use era yoe year in auto)
  show "year \<le> 9999"
  proof (cases "era = 24 \<and> yoe = 399")
    case True
    then have "doy \<le> 305" using z zd last by simp
    then have "mp < 10" using m by linarith
    with True show ?thesis by (simp add: year)
  qed (use era yoe year in auto)
qed

subsection \<open>Parsing and printing\<close>

lemma padDigits_front:
  assumes "0 \<le> c" "c \<le> 9" "0 \<le> k" "k < 10 ^ n"
  shows "padDigits (Suc n) (c * 10 ^ n + k) = char_of (48 + c) # padDigits n k"
  using assms
proof (induction n arbitrary: k)
  case (Suc n)
  have "(c * 10 ^ Suc n + k) div 10 = c * 10 ^ n + k div 10" by simp
  moreover have "padDigits (Suc n) (c * 10 ^ n + k div 10) = char_of (48 + c) # padDigits n (k div 10)"
    using Suc.prems by (intro Suc.IH) auto
  moreover have "(c * 10 ^ Suc n + k) mod 10 = k mod 10"   proof -
    have "c * 10 ^ Suc n + k = k + 10 * (c * 10 ^ n)" by simp
    then show ?thesis by (simp only: mod_mult_self2)
  qed
  ultimately show ?case by simp
qed simp

lemma readField_padDigits:
  assumes "readField text at n acc = Some v" "at + n \<le> length text"
  obtains k where "0 \<le> k" "k < 10 ^ n" "v = acc * 10 ^ n + k" "padDigits n k = take n (drop at text)"
  using assms
proof (induction n arbitrary: at acc thesis)
  case (Suc n)
  define c where "c = (of_char (text ! at) :: int) - 48"
  have c: "0 \<le> c" "c \<le> 9" and rec: "readField text (at + 1) n (acc * 10 + c) = Some v"
    using Suc.prems(2) by (auto simp: c_def Let_def split: if_splits)
  obtain k where k: "0 \<le> k" "k < 10 ^ n" "v = (acc * 10 + c) * 10 ^ n + k"
    "padDigits n k = take n (drop (at + 1) text)"
    using Suc.IH [OF _ rec] Suc.prems(3) by auto
  have "padDigits (Suc n) (c * 10 ^ n + k) = char_of (48 + c) # padDigits n k"
    using c k by (intro padDigits_front) auto
  also have "char_of (48 + c) = text ! at"
    by (simp add: c_def)
  also have "text ! at # padDigits n k = take (Suc n) (drop at text)"
    using Suc.prems(3) by (simp add: k(4) Cons_nth_drop_Suc [symmetric])
  finally have pad: "padDigits (Suc n) (c * 10 ^ n + k) = take (Suc n) (drop at text)" .
  have "c * 10 ^ n + k < (c + 1) * 10 ^ n" using k by (simp add: algebra_simps)
  also have "\<dots> \<le> 10 * 10 ^ n" using c by (intro mult_right_mono) auto
  finally have "c * 10 ^ n + k < 10 ^ Suc n" by simp
  with c k pad show ?case
    by (intro Suc.prems(1) [of "c * 10 ^ n + k"]) (auto simp: algebra_simps)
qed simp

lemma length_padDigits [simp]: "length (padDigits n k) = n"
  by (induction n arbitrary: k) auto

lemma readField_of_padDigits:
  assumes "0 \<le> k" "k < 10 ^ n" "take n (drop at text) = padDigits n k" "at + n \<le> length text"
  shows "readField text at n acc = Some (acc * 10 ^ n + k)"
  using assms
proof (induction n arbitrary: k at acc)
  case (Suc n)
  define c where "c = k div 10 ^ n"
  define r where "r = k mod 10 ^ n"
  have k: "k = c * 10 ^ n + r" by (metis c_def r_def div_mult_mod_eq)
  have r: "0 \<le> r" "r < 10 ^ n" by (simp_all add: r_def)
  have c: "0 \<le> c" "c \<le> 9"
  proof -
    show "0 \<le> c" using Suc.prems(1) by (simp add: c_def pos_imp_zdiv_nonneg_iff)
    have "c * 10 ^ n + r < 10 * 10 ^ n" using Suc.prems(2) k by simp
    then have "c * 10 ^ n < 10 * 10 ^ n" using r by linarith
    then show "c \<le> 9" by simp
  qed
  have "text ! at # take n (drop (Suc at) text) = char_of (48 + c) # padDigits n r"
    using Suc.prems(3,4) padDigits_front [OF c r]
    by (simp add: k Cons_nth_drop_Suc [symmetric])
  then have hd: "text ! at = char_of (48 + c)" and tl: "take n (drop (Suc at) text) = padDigits n r"
    by simp_all
  have "(of_char (text ! at) :: int) = 48 + c"
    using c by (simp add: hd)
  moreover have "readField text (Suc at) n (acc * 10 + c) = Some ((acc * 10 + c) * 10 ^ n + r)"
    using Suc.prems(4) r tl by (intro Suc.IH) auto
  ultimately show ?case using c by (simp add: Let_def k algebra_simps)
qed simp


lemma list10:
  assumes "length t = 10" "t ! 4 = a" "t ! 7 = b"
  shows "t = take 4 t @ [a] @ take 2 (drop 5 t) @ [b] @ take 2 (drop 8 t)"
proof -
  have "t = take 4 t @ [t ! 4] @ take 2 (drop 5 t) @ [t ! 7] @ take 2 (drop 8 t)"
  proof (rule nth_equalityI)
    fix i assume "i < length t"
    then have "i \<in> {0, 1, 2, 3, 4, 5, 6, 7, 8, 9}" using assms by auto
    then show "t ! i = (take 4 t @ [t ! 4] @ take 2 (drop 5 t) @ [t ! 7] @ take 2 (drop 8 t)) ! i"
      using assms by (auto simp: nth_append)
  qed (use assms in simp)
  with assms show ?thesis by simp
qed

text \<open>
  A date that \<open>textToDate\<close> accepts is printed back as the text it was read from.
\<close>
theorem date_print_parse:
  assumes parsed: "textToDate text = Inr days"
  shows "dateToText days = text"
proof -
  obtain y m d where len: "length text = 10" "text ! 4 = CHR ''-''" "text ! 7 = CHR ''-''"
    and fields: "readField text 0 4 0 = Some y" "readField text 5 2 0 = Some m"
      "readField text 8 2 0 = Some d"
    and valid: "valid_date y m d" and days: "days = daysFromCivil y m d"
    using parsed by (auto simp: textToDate_def valid_date_def not_less split: if_splits option.splits)
  obtain ky where y: "0 \<le> y" "y < 10 ^ 4" "padDigits 4 y = take 4 (drop 0 text)"
    using readField_padDigits [OF fields(1)] len by auto
  obtain km where m: "0 \<le> m" "m < 10 ^ 2" "padDigits 2 m = take 2 (drop 5 text)"
    using readField_padDigits [OF fields(2)] len by auto
  obtain kd where d: "0 \<le> d" "d < 10 ^ 2" "padDigits 2 d = take 2 (drop 8 text)"
    using readField_padDigits [OF fields(3)] len by auto
  have "dateToText days = padDigits 4 y @ ''-'' @ padDigits 2 m @ ''-'' @ padDigits 2 d"
    using y(1,2) m(1,2) d(1,2) by (simp add: dateToText_def days civil_of_days [OF valid])
  also have "\<dots> = text" using list10 [OF len] y(3) m(3) d(3) by simp
  finally show ?thesis .
qed

theorem date_print_parse_witness: "dateToText 19782 = ''2024-02-29''"
proof -
  have "textToDate ''2024-02-29'' = Inr 19782" by code_simp
  then show ?thesis by (rule date_print_parse)
qed

text \<open>
  Every day of the years 0 to 9999 prints as a text that reads back as that day.
\<close>
theorem date_parse_print:
  assumes range: "-719528 \<le> days" "days \<le> 2932896"
  shows "textToDate (dateToText days) = Inr days"
proof -
  obtain y m d where civil: "civilFromDays days = (y, m, d)" and valid: "valid_date y m d"
    and days: "daysFromCivil y m d = days" by (rule days_of_civil)
  have y: "0 \<le> y" "y < 10 ^ 4" using civil_year_range [OF range civil] by simp_all
  have "daysInMonth y m \<le> 31"
  proof -
    have "m = 1 \<or> m = 2 \<or> m = 3 \<or> m = 4 \<or> m = 5 \<or> m = 6 \<or> m = 7 \<or> m = 8 \<or> m = 9 \<or> m = 10
        \<or> m = 11 \<or> m = 12" using valid unfolding valid_date_def by presburger
    then show ?thesis by (elim disjE) (simp_all add: daysInMonth_def)
  qed
  then have md: "0 \<le> m" "m < 10 ^ 2" "0 \<le> d" "d < 10 ^ 2"
    using valid by (auto simp: valid_date_def)
  define printed where "printed = padDigits 4 y @ ''-'' @ padDigits 2 m @ ''-'' @ padDigits 2 d"
  have printed: "dateToText days = printed"
    using y md by (simp add: dateToText_def civil printed_def)
  have "readField printed 0 4 0 = Some (0 * 10 ^ 4 + y)" "readField printed 5 2 0 = Some (0 * 10 ^ 2 + m)"
    "readField printed 8 2 0 = Some (0 * 10 ^ 2 + d)"
    using y md by (intro readField_of_padDigits; simp add: printed_def)+
  moreover have "printed ! 4 = CHR ''-''" "printed ! 7 = CHR ''-''"
    by (simp_all add: printed_def nth_append)
  ultimately show ?thesis
    using valid unfolding printed by (simp add: textToDate_def printed_def days valid_date_def not_less)
qed

theorem date_parse_print_witness: "textToDate (dateToText 0) = Inr 0"
  by (rule date_parse_print) simp_all

end
