(* ===== verification/Files.thy ===== *)
theory Files
  imports Prelude
begin

text \<open>
  The stdio streams the pool and the log work on. A stream is its bytes, its size, its position
  and the copy that is known to be on the disk, which only a successful sync moves forward. Every
  call may fail: \<open>faults k\<close> says whether the \<open>k\<close>-th call on the stream does and, for a write,
  after how many bytes. The functions model \<^verbatim>\<open>fseek\<close>, \<^verbatim>\<open>fread\<close>, \<^verbatim>\<open>fwrite\<close> and \<^verbatim>\<open>fflush\<close>
  followed by \<^verbatim>\<open>fsync\<close> with whole-buffer counts, as the code calls them.
\<close>

record fhandle =
  fbytes :: memory
  fsize :: nat
  fpos :: nat
  dbytes :: memory
  dsize :: nat
  faults :: "nat \<Rightarrow> nat option"
  calls :: nat

definition empty_file :: "(nat \<Rightarrow> nat option) \<Rightarrow> fhandle" where
  "empty_file fs = \<lparr>fbytes = (\<lambda>_. 0), fsize = 0, fpos = 0, dbytes = (\<lambda>_. 0), dsize = 0,
     faults = fs, calls = 0\<rparr>"

definition no_faults :: "nat \<Rightarrow> nat option" where "no_faults k = None"

definition fault_now :: "fhandle \<Rightarrow> nat option" where
  "fault_now f = faults f (calls f)"

definition count_call :: "fhandle \<Rightarrow> fhandle" where
  "count_call f = f\<lparr>calls := calls f + 1\<rparr>"

definition fseek_set :: "nat \<Rightarrow> fhandle \<Rightarrow> bool \<times> fhandle" where
  "fseek_set pos f =
     (if fault_now f = None then (True, (count_call f)\<lparr>fpos := pos\<rparr>) else (False, count_call f))"

definition fseek_end :: "fhandle \<Rightarrow> bool \<times> fhandle" where
  "fseek_end f = fseek_set (fsize f) f"

text \<open>All \<open>n\<close> bytes, or no buffer the code may use and the position moved as far as it got.\<close>

definition fread :: "nat \<Rightarrow> fhandle \<Rightarrow> memory option \<times> fhandle" where
  "fread n f =
     (case fault_now f of
        Some k \<Rightarrow> (None, (count_call f)\<lparr>fpos := min (fpos f + k) (max (fpos f) (fsize f))\<rparr>)
      | None \<Rightarrow>
          if fpos f + n \<le> fsize f
          then (Some (\<lambda>i. fbytes f (fpos f + i)), (count_call f)\<lparr>fpos := fpos f + n\<rparr>)
          else (None, (count_call f)\<lparr>fpos := max (fpos f) (fsize f)\<rparr>))"

text \<open>Bytes beyond the end that a seek skipped read as zero.\<close>

definition write_bytes :: "memory \<Rightarrow> nat \<Rightarrow> fhandle \<Rightarrow> fhandle" where
  "write_bytes src n f =
     f\<lparr>fbytes := (\<lambda>i. if fpos f \<le> i \<and> i < fpos f + n then src (i - fpos f)
                      else if i < fsize f then fbytes f i else 0),
       fsize := max (fsize f) (fpos f + n), fpos := fpos f + n\<rparr>"

definition fwrite :: "memory \<Rightarrow> nat \<Rightarrow> fhandle \<Rightarrow> bool \<times> fhandle" where
  "fwrite src n f =
     (case fault_now f of
        None \<Rightarrow> (True, write_bytes src n (count_call f))
      | Some k \<Rightarrow> (False, write_bytes src (min k (n - 1)) (count_call f)))"

definition fsync :: "fhandle \<Rightarrow> bool \<times> fhandle" where
  "fsync f =
     (if fault_now f = None
      then (True, (count_call f)\<lparr>dbytes := fbytes f, dsize := fsize f\<rparr>)
      else (False, count_call f))"

definition synced :: "fhandle \<Rightarrow> bool" where
  "synced f \<longleftrightarrow> dsize f = fsize f \<and> dbytes f = fbytes f"

subsection \<open>What a successful call did\<close>

lemma fseek_set_ok: "fseek_set pos f = (True, g) \<Longrightarrow>
    fbytes g = fbytes f \<and> fsize g = fsize f \<and> fpos g = pos \<and> dbytes g = dbytes f \<and> dsize g = dsize f"
  by (auto simp: fseek_set_def count_call_def split: if_splits)

lemma fseek_set_frame: "fseek_set pos f = (ok, g) \<Longrightarrow>
    fbytes g = fbytes f \<and> fsize g = fsize f \<and> dbytes g = dbytes f \<and> dsize g = dsize f"
  by (auto simp: fseek_set_def count_call_def split: if_splits)

lemma fread_frame: "fread n f = (r, g) \<Longrightarrow>
    fbytes g = fbytes f \<and> fsize g = fsize f \<and> dbytes g = dbytes f \<and> dsize g = dsize f"
  by (auto simp: fread_def count_call_def split: option.splits if_splits)

lemma fread_ok: "fread n f = (Some m, g) \<Longrightarrow>
    fpos f + n \<le> fsize f \<and> fpos g = fpos f + n \<and> m = (\<lambda>i. fbytes f (fpos f + i))"
  by (auto simp: fread_def count_call_def split: option.splits if_splits)

lemma fread_no_fault: "faults f = no_faults \<Longrightarrow> fpos f + n \<le> fsize f \<Longrightarrow>
    fread n f = (Some (\<lambda>i. fbytes f (fpos f + i)), (count_call f)\<lparr>fpos := fpos f + n\<rparr>)"
  by (simp add: fread_def fault_now_def no_faults_def)

lemma fread_short: "fsize f < fpos f + n \<Longrightarrow> fst (fread n f) = None"
  by (auto simp: fread_def split: option.splits)

lemma fwrite_ok: "fwrite src n f = (True, g) \<Longrightarrow> g = write_bytes src n (count_call f)"
  by (auto simp: fwrite_def split: option.splits)

lemma write_bytes_sel [simp]:
  "fsize (write_bytes src n f) = max (fsize f) (fpos f + n)"
  "fpos (write_bytes src n f) = fpos f + n"
  "dbytes (write_bytes src n f) = dbytes f" "dsize (write_bytes src n f) = dsize f"
  "faults (write_bytes src n f) = faults f" "calls (write_bytes src n f) = calls f"
  by (simp_all add: write_bytes_def)

lemma write_bytes_in: "fpos f \<le> i \<Longrightarrow> i < fpos f + n \<Longrightarrow> fbytes (write_bytes src n f) i = src (i - fpos f)"
  by (simp add: write_bytes_def)

lemma write_bytes_out: "i < fsize f \<Longrightarrow> i < fpos f \<or> fpos f + n \<le> i \<Longrightarrow>
    fbytes (write_bytes src n f) i = fbytes f i"
  by (auto simp: write_bytes_def)

lemma count_call_sel [simp]:
  "fbytes (count_call f) = fbytes f" "fsize (count_call f) = fsize f" "fpos (count_call f) = fpos f"
  "dbytes (count_call f) = dbytes f" "dsize (count_call f) = dsize f"
  "faults (count_call f) = faults f" "calls (count_call f) = calls f + 1"
  by (simp_all add: count_call_def)

lemma fsync_ok: "fsync f = (True, g) \<Longrightarrow> synced g \<and> fbytes g = fbytes f \<and> fsize g = fsize f"
  by (auto simp: fsync_def synced_def split: if_splits)

end
