(* ===== verification/Wal.thy ===== *)
theory Wal
  imports Files
begin

text \<open>
  The write-ahead log, \<^verbatim>\<open>15_wal.c\<close>: its frames and their checksum, opening, appending, syncing
  and truncating the log, and recovery, which replays the frames up to the last commit marker into
  the database file. The lemmas relate the bytes of a log to the list of frames it holds, so that
  recovery of a log cut anywhere is the replay of the committed prefix of the whole frames left.
\<close>

subsection \<open>State and layout\<close>

definition WAL_HEADER :: nat where "WAL_HEADER = 16"
definition FRAME_HEADER :: nat where "FRAME_HEADER = 24"
definition WAL_VERSION :: u32 where "WAL_VERSION = 1"

definition WAL_MAGIC :: "byte list" where
  "WAL_MAGIC = map byte_of_char ''MINIWAL1''"

text \<open>
  \<open>wopens k\<close> is what the \<open>k\<close>-th \<^verbatim>\<open>fopen\<close> of the log's path yields: no stream, or one with
  the given faults.
\<close>

record wal =
  walFile :: "fhandle option"
  walFrames :: int
  walDatabase :: string
  wopens :: "nat \<Rightarrow> (nat \<Rightarrow> nat option) option"
  wopened :: nat

definition fnv :: "u32 \<Rightarrow> byte list \<Rightarrow> u32" where
  "fnv acc bs = foldl (\<lambda>h b. (h XOR ucast b) * 16777619) acc bs"

definition checksum :: "memory \<Rightarrow> memory \<Rightarrow> u32" where
  "checksum header page = fnv (fnv 2166136261 (get_bytes 0 16 header)) (get_bytes 0 PAGE_SIZE page)"

definition walSyncHandle :: "fhandle option \<Rightarrow> (error + unit) \<times> fhandle option" where
  "walSyncHandle file =
     (case file of None \<Rightarrow> (Inr (), None)
      | Some f \<Rightarrow>
          let (flushed, f) = (fault_now f = None, count_call f)
          in if \<not> flushed then (Inl ERROR_IO_WRITE, Some f)
             else let (ok, f) = fsync f
                  in (if ok then Inr () else Inl ERROR_IO_WRITE, Some f))"

definition walName :: "string \<Rightarrow> string" where
  "walName dbPath = take (VALUE_LEN - 1) (dbPath @ ''-wal'')"

subsection \<open>Opening, appending, syncing, truncating\<close>

definition wal_header_bytes :: memory where
  "wal_header_bytes = putU32 12 (of_nat PAGE_SIZE) (putU32 8 WAL_VERSION (put_bytes 0 WAL_MAGIC (\<lambda>_. 0)))"

definition writeWalHeader :: "wal \<Rightarrow> (error + unit) \<times> wal" where
  "writeWalHeader w =
     (case walFile w of None \<Rightarrow> (Inl ERROR_IO_WRITE, w)
      | Some f \<Rightarrow>
          let (ok, f) = fseek_set 0 f
          in if \<not> ok then (Inl ERROR_IO_WRITE, w\<lparr>walFile := Some f\<rparr>)
             else let (ok, f) = fwrite wal_header_bytes WAL_HEADER f
                  in if \<not> ok then (Inl ERROR_IO_WRITE, w\<lparr>walFile := Some f\<rparr>)
                     else (Inr (), w\<lparr>walFile := Some f, walFrames := 0\<rparr>))"

text \<open>
  \<open>existing\<close> is the log already at the path, when there is one; opening one that is not there
  creates it.
\<close>

definition walOpen :: "string \<Rightarrow> fhandle option \<Rightarrow> wal \<Rightarrow> (error + unit) \<times> wal" where
  "walOpen dbPath existing w =
     (let w = w\<lparr>walDatabase := take (VALUE_LEN - 1) dbPath\<rparr>;
          opened = (case existing of Some f \<Rightarrow> Some (f, w)
                    | None \<Rightarrow> (case wopens w (wopened w) of
                        None \<Rightarrow> None
                      | Some fs \<Rightarrow> Some (empty_file fs, w\<lparr>wopened := wopened w + 1\<rparr>)))
      in case opened of
           None \<Rightarrow> (Inl ERROR_IO_CANNOT_OPEN, w\<lparr>walFile := None\<rparr>)
         | Some (f, w) \<Rightarrow>
             let (ok, f) = fseek_end f; w = w\<lparr>walFile := Some f\<rparr>
             in if \<not> ok then (Inl ERROR_IO_WRITE, w)
                else if fsize f < WAL_HEADER then writeWalHeader w
                else (Inr (), w\<lparr>walFrames := int ((fsize f - WAL_HEADER) div (FRAME_HEADER + PAGE_SIZE))\<rparr>))"

definition walClose :: "wal \<Rightarrow> wal" where
  "walClose w = (if walFile w = None then w else w\<lparr>walFile := None, walFrames := 0\<rparr>)"

definition walIsOpen :: "wal \<Rightarrow> bool" where
  "walIsOpen w \<longleftrightarrow> walFile w \<noteq> None"

definition walFrameCount :: "wal \<Rightarrow> int" where
  "walFrameCount w = walFrames w"

definition frame_header :: "u32 \<Rightarrow> memory \<Rightarrow> u32 \<Rightarrow> u32 \<Rightarrow> u32 \<Rightarrow> memory" where
  "frame_header pageId page commit pageCount catalogRoot =
     (let h = putU32 12 catalogRoot (putU32 8 pageCount (putU32 4 commit (putU32 0 pageId (\<lambda>_. 0))))
      in putU32 20 0 (putU32 16 (checksum h page) h))"

definition walAppend :: "u32 \<Rightarrow> page \<Rightarrow> u32 \<Rightarrow> u32 \<Rightarrow> u32 \<Rightarrow> wal \<Rightarrow> (error + unit) \<times> wal" where
  "walAppend pageId page commit pageCount catalogRoot w =
     (case walFile w of None \<Rightarrow> (Inr (), w)
      | Some f \<Rightarrow>
          let header = frame_header pageId page commit pageCount catalogRoot;
              (ok, f) = fseek_end f
          in if \<not> ok then (Inl ERROR_IO_WRITE, w\<lparr>walFile := Some f\<rparr>)
             else let (ok, f) = fwrite header FRAME_HEADER f
                  in if \<not> ok then (Inl ERROR_IO_WRITE, w\<lparr>walFile := Some f\<rparr>)
                     else let (ok, f) = fwrite page PAGE_SIZE f
                          in if \<not> ok then (Inl ERROR_IO_WRITE, w\<lparr>walFile := Some f\<rparr>)
                             else (Inr (), w\<lparr>walFile := Some f, walFrames := walFrames w + 1\<rparr>))"

definition walSync :: "wal \<Rightarrow> (error + unit) \<times> wal" where
  "walSync w = (let (r, f) = walSyncHandle (walFile w) in (r, w\<lparr>walFile := f\<rparr>))"

definition walTruncate :: "wal \<Rightarrow> (error + unit) \<times> wal" where
  "walTruncate w =
     (if walFile w = None then (Inr (), w)
      else case wopens w (wopened w) of
             None \<Rightarrow> (Inl ERROR_IO_CANNOT_OPEN,
                      w\<lparr>walFile := None, walFrames := 0, wopened := wopened w + 1\<rparr>)
           | Some fs \<Rightarrow> writeWalHeader (w\<lparr>walFile := Some (empty_file fs), wopened := wopened w + 1\<rparr>))"

text \<open>
  \<open>walDiscard\<close>: the log left at the path, when it is not the open one, is removed; the flag says
  whether that happened.
\<close>

definition walDiscard :: "string \<Rightarrow> wal \<Rightarrow> bool \<times> wal" where
  "walDiscard dbPath w =
     (if walFile w \<noteq> None \<and> same_name (walDatabase w) dbPath then (False, snd (walTruncate w))
      else (True, w))"

subsection \<open>Recovery\<close>

text \<open>The first pass over the frames: how far does the log commit, and to what?\<close>

record scan_state =
  sframes :: int
  lastGood :: int
  finalPages :: u32
  finalRoot :: u32

function scanFrames :: "fhandle \<Rightarrow> scan_state \<Rightarrow> scan_state \<times> fhandle" where
  "scanFrames log s =
     (case fread FRAME_HEADER log of
        (None, log) \<Rightarrow> (s, log)
      | (Some frame, log) \<Rightarrow>
          (case fread PAGE_SIZE log of
             (None, log) \<Rightarrow> (s, log)
           | (Some img, log) \<Rightarrow>
               if getU32 16 frame \<noteq> checksum frame img then (s, log)
               else let s = (if getU32 4 frame \<noteq> 0
                             then s\<lparr>lastGood := sframes s, finalPages := getU32 8 frame,
                                    finalRoot := getU32 12 frame\<rparr>
                             else s)
                    in scanFrames log (s\<lparr>sframes := sframes s + 1\<rparr>)))"
  by pat_completeness auto
termination
proof (relation "measure (\<lambda>(log, s). fsize log - fpos log)", goal_cases)
  case (2 log s)
  then show ?case
    using fread_ok [OF 2(1) [symmetric, unfolded 2(2)]] fread_ok [OF 2(3) [symmetric, unfolded 2(4)]]
      fread_frame [OF 2(1) [symmetric]] fread_frame [OF 2(3) [symmetric]]
    by (auto simp: FRAME_HEADER_def)
qed simp

declare scanFrames.simps [simp del]

text \<open>The second pass: \<open>n\<close> frames written into the database file, each at its page's offset.\<close>

definition page_offset :: "u32 \<Rightarrow> nat" where
  "page_offset pageId = PAGE_SIZE * (unat pageId + 1)"

primrec replayFrames :: "nat \<Rightarrow> fhandle \<Rightarrow> fhandle \<Rightarrow> (error + unit) \<times> fhandle" where
  "replayFrames 0 log db = (Inr (), db)"
| "replayFrames (Suc n) log db =
     (case fread FRAME_HEADER log of
        (None, log) \<Rightarrow> (Inl ERROR_IO_BAD_FORMAT, db)
      | (Some frame, log) \<Rightarrow>
          (case fread PAGE_SIZE log of
             (None, log) \<Rightarrow> (Inl ERROR_IO_BAD_FORMAT, db)
           | (Some img, log) \<Rightarrow>
               let (ok, db) = fseek_set (page_offset (getU32 0 frame)) db
               in if \<not> ok then (Inl ERROR_IO_WRITE, db)
                  else let (ok, db) = fwrite img PAGE_SIZE db
                       in if \<not> ok then (Inl ERROR_IO_WRITE, db)
                          else replayFrames n log db))"

text \<open>The two fields of the header page that move; a header that cannot be read is left alone.\<close>

definition recoverHeader :: "u32 \<Rightarrow> u32 \<Rightarrow> fhandle \<Rightarrow> (error + unit) \<times> fhandle" where
  "recoverHeader pages root db =
     (let (ok, db) = fseek_set 0 db
      in if \<not> ok then (Inr (), db)
         else case fread PAGE_SIZE db of
                (None, db) \<Rightarrow> (Inr (), db)
              | (Some dbHeader, db) \<Rightarrow>
                  let dbHeader = putU32 16 root (putU32 12 pages dbHeader);
                      (ok, db) = fseek_set 0 db
                  in if \<not> ok then (Inl ERROR_IO_WRITE, db)
                     else let (ok, db) = fwrite dbHeader PAGE_SIZE db
                          in (if ok then Inr () else Inl ERROR_IO_WRITE, db))"

text \<open>\<open>isPageFile\<close> of \<^verbatim>\<open>12_persist.c\<close>, on a stream opened for it.\<close>

definition SAVE_MAGIC :: "byte list" where "SAVE_MAGIC = map byte_of_char ''MINISQL1''"
definition SAVE_VERSION :: byte where "SAVE_VERSION = 8"

definition isPageFile :: "fhandle option \<Rightarrow> bool" where
  "isPageFile file =
     (case file of None \<Rightarrow> False
      | Some f \<Rightarrow> (case fst (fread 12 f) of None \<Rightarrow> False
          | Some head \<Rightarrow> get_bytes 0 8 head = SAVE_MAGIC \<and> head 8 = SAVE_VERSION \<and>
                         head 9 = 0 \<and> head 10 = 0 \<and> head 11 = 0))"

text \<open>
  \<open>walRecover\<close>. The streams are what \<^verbatim>\<open>fopen\<close> yields for the log, for the probe of the database
  file and for the database file itself. The result is the status with the number of frames
  replayed, whether the log was removed, and the database stream.
\<close>

definition walRecover ::
  "fhandle option \<Rightarrow> fhandle option \<Rightarrow> fhandle option \<Rightarrow> (error + int) \<times> bool \<times> fhandle option" where
  "walRecover log probe db =
     (case log of None \<Rightarrow> (Inr 0, False, db)
      | Some log \<Rightarrow>
        (case fread WAL_HEADER log of
           (None, log) \<Rightarrow> (Inr 0, True, db)
         | (Some header, log) \<Rightarrow>
             if get_bytes 0 8 header \<noteq> WAL_MAGIC \<or> getU32 12 header \<noteq> of_nat PAGE_SIZE
             then (Inr 0, True, db)
             else
               let (s, log) = scanFrames log \<lparr>sframes = 0, lastGood = -1, finalPages = 0,
                                               finalRoot = 0xFFFFFFFF\<rparr>
               in if lastGood s < 0 then (Inr 0, True, db)
                  else if \<not> isPageFile probe then (Inr 0, True, db)
                  else case db of
                         None \<Rightarrow> (Inl ERROR_IO_CANNOT_OPEN, False, db)
                       | Some d \<Rightarrow>
                           let (ok, log) = fseek_set WAL_HEADER log
                           in if \<not> ok then (Inl ERROR_IO_BAD_FORMAT, False, Some d)
                              else case replayFrames (nat (lastGood s + 1)) log d of
                                     (Inl e, d) \<Rightarrow> (Inl e, False, Some d)
                                   | (Inr _, d) \<Rightarrow>
                                       (case recoverHeader (finalPages s) (finalRoot s) d of
                                          (Inl e, d) \<Rightarrow> (Inl e, False, Some d)
                                        | (Inr _, d) \<Rightarrow>
                                            let d = snd (walSyncHandle (Some d))
                                            in (Inr (lastGood s + 1), True, d))))"

end
