(* ===== verification/WalRecovery.thy ===== *)
theory WalRecovery
  imports Wal
begin

text \<open>
  What recovery does, stated on frames instead of bytes: the frames a log holds, the committed
  prefix of them, and the replay of that prefix. The main result covers a log cut at any byte.
\<close>

subsection \<open>Frames and the bytes they are written as\<close>

record frame =
  fr_page :: u32
  fr_commit :: u32
  fr_count :: u32
  fr_root :: u32
  fr_image :: page

definition frame_len :: nat where "frame_len = FRAME_HEADER + PAGE_SIZE"

definition frame_bytes :: "frame \<Rightarrow> memory" where
  "frame_bytes fr i =
     (if i < FRAME_HEADER
      then frame_header (fr_page fr) (fr_image fr) (fr_commit fr) (fr_count fr) (fr_root fr) i
      else fr_image fr (i - FRAME_HEADER))"

definition frame_at :: "fhandle \<Rightarrow> nat \<Rightarrow> frame \<Rightarrow> bool" where
  "frame_at f pos fr \<longleftrightarrow>
     pos + frame_len \<le> fsize f \<and> (\<forall>i < frame_len. fbytes f (pos + i) = frame_bytes fr i)"

text \<open>The log holds the frames \<open>frs\<close>, cut where its size says.\<close>

definition log_cut :: "fhandle \<Rightarrow> frame list \<Rightarrow> bool" where
  "log_cut f frs \<longleftrightarrow>
     WAL_HEADER \<le> fsize f \<and> fsize f \<le> WAL_HEADER + frame_len * length frs \<and>
     (\<forall>i < WAL_HEADER. fbytes f i = wal_header_bytes i) \<and>
     (\<forall>k < length frs. \<forall>i < frame_len. WAL_HEADER + frame_len * k + i < fsize f \<longrightarrow>
        fbytes f (WAL_HEADER + frame_len * k + i) = frame_bytes (frs ! k) i)"

definition whole_frames :: "fhandle \<Rightarrow> frame list \<Rightarrow> frame list" where
  "whole_frames f frs = take ((fsize f - WAL_HEADER) div frame_len) frs"

text \<open>The frames up to the last commit marker.\<close>

definition committed :: "frame list \<Rightarrow> frame list" where
  "committed frs = rev (dropWhile (\<lambda>fr. fr_commit fr = 0) (rev frs))"

lemma lens [simp]: "WAL_HEADER = 16" "FRAME_HEADER = 24" "frame_len = 8216"
  by (simp_all add: WAL_HEADER_def FRAME_HEADER_def frame_len_def PAGE_SIZE_def)

lemma committed_snoc [simp]:
  "committed [] = []"
  "committed (frs @ [fr]) = (if fr_commit fr = 0 then committed frs else frs @ [fr])"
  by (simp_all add: committed_def)

lemma committed_prefix: "\<exists>rest. frs = committed frs @ rest"
proof -
  have "rev frs = takeWhile (\<lambda>fr. fr_commit fr = 0) (rev frs) @ dropWhile (\<lambda>fr. fr_commit fr = 0) (rev frs)"
    by simp
  then have "frs = committed frs @ rev (takeWhile (\<lambda>fr. fr_commit fr = 0) (rev frs))"
    unfolding committed_def by (metis rev_append rev_rev_ident)
  then show ?thesis ..
qed

lemma committed_last: "committed frs \<noteq> [] \<Longrightarrow> fr_commit (last (committed frs)) \<noteq> 0"
  by (induction frs rule: rev_induct) auto

subsection \<open>Reading a frame back\<close>

lemma fnv_cong: "m = m' \<Longrightarrow> fnv s m = fnv s m'" by simp

lemma checksum_cong:
  assumes "\<And>i. i < 16 \<Longrightarrow> h i = h' i" "\<And>i. i < PAGE_SIZE \<Longrightarrow> p i = p' i"
  shows "checksum h p = checksum h' p'"
proof -
  have "get_bytes 0 16 h = get_bytes 0 16 h'" "get_bytes 0 PAGE_SIZE p = get_bytes 0 PAGE_SIZE p'"
    by (intro get_bytes_cong; simp add: assms)+
  then show ?thesis by (simp add: checksum_def)
qed

lemma frame_header_fields:
  "getU32 0 (frame_header pg im c n r) = pg" "getU32 4 (frame_header pg im c n r) = c"
  "getU32 8 (frame_header pg im c n r) = n" "getU32 12 (frame_header pg im c n r) = r"
  "getU32 16 (frame_header pg im c n r) = checksum (frame_header pg im c n r) im"
proof -
  show "getU32 16 (frame_header pg im c n r) = checksum (frame_header pg im c n r) im"
    unfolding frame_header_def Let_def
    by (simp add: mem) (rule checksum_cong, auto simp: mem)
qed (simp_all add: frame_header_def Let_def mem)

lemma frame_fields:
  assumes "\<And>i. i < FRAME_HEADER \<Longrightarrow> m i = frame_bytes fr i"
    and "\<And>i. i < PAGE_SIZE \<Longrightarrow> im i = fr_image fr i"
  shows "getU32 0 m = fr_page fr" "getU32 4 m = fr_commit fr" "getU32 8 m = fr_count fr"
    "getU32 12 m = fr_root fr" "getU32 16 m = checksum m im"
proof -
  let ?h = "frame_header (fr_page fr) (fr_image fr) (fr_commit fr) (fr_count fr) (fr_root fr)"
  have m: "\<And>i. i < 24 \<Longrightarrow> m i = ?h i" using assms(1) by (simp add: frame_bytes_def)
  have g: "\<And>k. k + 4 \<le> 24 \<Longrightarrow> getU32 k m = getU32 k ?h" by (rule getU32_cong) (simp add: m)
  show "getU32 0 m = fr_page fr" "getU32 4 m = fr_commit fr" "getU32 8 m = fr_count fr"
    "getU32 12 m = fr_root fr" by (simp_all add: g frame_header_fields)
  have "checksum ?h (fr_image fr) = checksum m im"
    by (rule checksum_cong) (simp_all add: m assms(2))
  then show "getU32 16 m = checksum m im" by (simp add: g frame_header_fields)
qed

lemma read_frame:
  assumes frame: "frame_at f (fpos f) fr" and ok: "faults f = no_faults"
  obtains m im g g' where "fread FRAME_HEADER f = (Some m, g)" "fread PAGE_SIZE g = (Some im, g')"
    "g' = f\<lparr>fpos := fpos f + frame_len, calls := calls f + 2\<rparr>"
    "getU32 0 m = fr_page fr" "getU32 4 m = fr_commit fr" "getU32 8 m = fr_count fr"
    "getU32 12 m = fr_root fr" "getU32 16 m = checksum m im"
    "\<And>i. i < PAGE_SIZE \<Longrightarrow> im i = fr_image fr i"
proof -
  define m where "m = (\<lambda>i. fbytes f (fpos f + i))"
  define g where "g = (count_call f)\<lparr>fpos := fpos f + FRAME_HEADER\<rparr>"
  define im where "im = (\<lambda>i. fbytes g (fpos g + i))"
  define g' where "g' = (count_call g)\<lparr>fpos := fpos g + PAGE_SIZE\<rparr>"
  have r1: "fread FRAME_HEADER f = (Some m, g)"
    unfolding m_def g_def using frame ok by (intro fread_no_fault) (auto simp: frame_at_def)
  have r2: "fread PAGE_SIZE g = (Some im, g')"
    unfolding im_def g'_def using frame ok
    by (intro fread_no_fault) (auto simp: frame_at_def g_def PAGE_SIZE_def)
  have g': "g' = f\<lparr>fpos := fpos f + frame_len, calls := calls f + 2\<rparr>"
    by (simp add: g'_def g_def count_call_def PAGE_SIZE_def)
  have b: "\<And>i. i < 8216 \<Longrightarrow> fbytes f (fpos f + i) = frame_bytes fr i"
    using frame by (auto simp: frame_at_def)
  have im: "im i = fr_image fr i" if "i < PAGE_SIZE" for i
    using that b [of "24 + i"] by (simp add: im_def g_def frame_bytes_def PAGE_SIZE_def add.assoc)
  have "m i = frame_bytes fr i" if "i < FRAME_HEADER" for i
    using that b by (simp add: m_def)
  note fields = frame_fields [OF this im]
  show thesis by (rule that [OF r1 r2 g' fields im])
qed


subsection \<open>The first pass\<close>

definition scan_step :: "scan_state \<Rightarrow> frame \<Rightarrow> scan_state" where
  "scan_step s fr =
     (let s = (if fr_commit fr \<noteq> 0
               then s\<lparr>lastGood := sframes s, finalPages := fr_count fr, finalRoot := fr_root fr\<rparr>
               else s)
      in s\<lparr>sframes := sframes s + 1\<rparr>)"

definition frames_at :: "fhandle \<Rightarrow> nat \<Rightarrow> frame list \<Rightarrow> bool" where
  "frames_at f pos frs \<longleftrightarrow> (\<forall>k < length frs. frame_at f (pos + frame_len * k) (frs ! k))"

lemma frames_at_Cons [simp]:
  "frames_at f pos (fr # frs) \<longleftrightarrow> frame_at f pos fr \<and> frames_at f (pos + frame_len) frs"
  by (auto simp: frames_at_def less_Suc_eq_0_disj algebra_simps)

lemma frames_at_Nil [simp]: "frames_at f pos []"
  by (simp add: frames_at_def)

lemma frames_at_cong: "fbytes f = fbytes g \<Longrightarrow> fsize f = fsize g \<Longrightarrow> frames_at f pos frs = frames_at g pos frs"
  by (simp add: frames_at_def frame_at_def)

lemma frames_at_moved [simp]: "frames_at (f\<lparr>fpos := p, calls := c\<rparr>) pos frs = frames_at f pos frs"
  by (rule frames_at_cong) simp_all

lemma scanFrames_frames:
  assumes "faults f = no_faults" "frames_at f (fpos f) frs"
    and "fsize f < fpos f + frame_len * length frs + frame_len"
  shows "\<exists>g. scanFrames f s = (foldl scan_step s frs, g) \<and>
           faults g = no_faults \<and> fbytes g = fbytes f \<and> fsize g = fsize f"
  using assms
proof (induction frs arbitrary: f s)
  case Nil
  obtain r g where r1: "fread FRAME_HEADER f = (r, g)" by force
  note g = fread_frame [OF r1]
  have fg: "faults g = no_faults"
    using r1 Nil.prems(1) by (auto simp: fread_def split: option.splits if_splits)
  show ?case
  proof (cases r)
    case None
    with r1 g fg show ?thesis by (subst scanFrames.simps) auto
  next
    case (Some m)
    with r1 have "fpos g = fpos f + 24" using fread_ok [of FRAME_HEADER f m g] by simp
    then have "fst (fread PAGE_SIZE g) = None"
      using Nil.prems(3) g by (intro fread_short) (simp add: PAGE_SIZE_def)
    then obtain g' where r2: "fread PAGE_SIZE g = (None, g')" by (metis prod.collapse)
    have "faults g' = no_faults"
      using r2 fg by (auto simp: fread_def split: option.splits if_splits)
    with r1 r2 Some g fread_frame [OF r2] show ?thesis by (subst scanFrames.simps) auto
  qed
next
  case (Cons fr frs)
  have "frame_at f (fpos f) fr" using Cons.prems(2) by simp
  from this Cons.prems(1) show ?case
  proof (rule read_frame)
    fix m im g g'
    assume r1: "fread FRAME_HEADER f = (Some m, g)" and r2: "fread PAGE_SIZE g = (Some im, g')"
      and g': "g' = f\<lparr>fpos := fpos f + frame_len, calls := calls f + 2\<rparr>"
      and fields: "getU32 4 m = fr_commit fr" "getU32 8 m = fr_count fr" "getU32 12 m = fr_root fr"
        "getU32 16 m = checksum m im"
    have step: "scanFrames f s = scanFrames g' (scan_step s fr)"
      by (subst scanFrames.simps)
         (simp only: r1 r2 fields scan_step_def prod.case option.case not_True_eq_False if_False
            Let_def simp_thms)
    have "\<exists>h. scanFrames g' (scan_step s fr) = (foldl scan_step (scan_step s fr) frs, h) \<and>
        faults h = no_faults \<and> fbytes h = fbytes g' \<and> fsize h = fsize g'"
      using Cons.prems by (intro Cons.IH) (auto simp: g')
    then show ?thesis by (simp add: step g')
  qed
qed

lemma foldl_scan_step:
  "foldl scan_step \<lparr>sframes = 0, lastGood = -1, finalPages = p, finalRoot = r\<rparr> frs =
     \<lparr>sframes = int (length frs), lastGood = int (length (committed frs)) - 1,
      finalPages = (if committed frs = [] then p else fr_count (last (committed frs))),
      finalRoot = (if committed frs = [] then r else fr_root (last (committed frs)))\<rparr>"
  by (induction frs rule: rev_induct) (auto simp: scan_step_def Let_def)

subsection \<open>The second pass\<close>

text \<open>The image a list of frames leaves a page with: the last one for it.\<close>

definition last_image :: "frame list \<Rightarrow> u32 \<Rightarrow> page option" where
  "last_image frs pid = map_of (rev (map (\<lambda>fr. (fr_page fr, fr_image fr)) frs)) pid"

lemma last_image_Cons:
  "last_image (fr # frs) pid =
     (case last_image frs pid of Some im \<Rightarrow> Some im
      | None \<Rightarrow> if fr_page fr = pid then Some (fr_image fr) else None)"
  by (auto simp: last_image_def map_add_def split: option.splits)

lemma last_image_Nil [simp]: "last_image [] pid = None"
  by (simp add: last_image_def)

lemma page_offset_apart:
  "pid \<noteq> pid' \<Longrightarrow> page_offset pid + PAGE_SIZE \<le> page_offset pid' \<or> page_offset pid' + PAGE_SIZE \<le> page_offset pid"
proof -
  assume "pid \<noteq> pid'"
  then have "unat pid + 1 \<le> unat pid' \<or> unat pid' + 1 \<le> unat pid"
    using word_unat_eq_iff by (metis Suc_eq_plus1 Suc_leI linorder_neqE_nat)
  then show ?thesis by (auto simp: page_offset_def PAGE_SIZE_def)
qed

lemma page_offset_header: "PAGE_SIZE \<le> page_offset pid"
  by (simp add: page_offset_def)

definition apply_frame :: "frame \<Rightarrow> fhandle \<Rightarrow> fhandle" where
  "apply_frame fr db = write_bytes (fr_image fr) PAGE_SIZE (db\<lparr>fpos := page_offset (fr_page fr)\<rparr>)"

lemma apply_frame_page:
  assumes "i < PAGE_SIZE"
  shows "fbytes (apply_frame fr db) (page_offset pid + i) =
    (if pid = fr_page fr then fr_image fr i
     else if page_offset pid + i < fsize db then fbytes db (page_offset pid + i) else 0)"
  using assms page_offset_apart [of pid "fr_page fr"]
  by (auto simp: apply_frame_def write_bytes_def)

lemma apply_frame_header:
  "i < PAGE_SIZE \<Longrightarrow> i < fsize db \<Longrightarrow> fbytes (apply_frame fr db) i = fbytes db i"
  using page_offset_header [of "fr_page fr"] by (auto simp: apply_frame_def write_bytes_def)

lemma replayFrames_frames:
  assumes "faults f = no_faults" "frames_at f (fpos f) frs" "faults db = no_faults"
  shows "\<exists>db'. replayFrames (length frs) f db = (Inr (), db') \<and> faults db' = no_faults \<and>
     fsize db \<le> fsize db' \<and>
     (\<forall>i < PAGE_SIZE. i < fsize db \<longrightarrow> fbytes db' i = fbytes db i) \<and>
     (\<forall>pid. \<forall>i < PAGE_SIZE. (case last_image frs pid of
         Some im \<Rightarrow> page_offset pid + i < fsize db' \<and> fbytes db' (page_offset pid + i) = im i
       | None \<Rightarrow> page_offset pid + i < fsize db \<longrightarrow>
                   fbytes db' (page_offset pid + i) = fbytes db (page_offset pid + i)))"
  using assms
proof (induction frs arbitrary: f db)
  case Nil
  then show ?case by simp
next
  case (Cons fr frs)
  have "frame_at f (fpos f) fr" using Cons.prems(2) by simp
  from this Cons.prems(1) show ?case
  proof (rule read_frame)
    fix m im g g'
    assume r1: "fread FRAME_HEADER f = (Some m, g)" and r2: "fread PAGE_SIZE g = (Some im, g')"
      and g': "g' = f\<lparr>fpos := fpos f + frame_len, calls := calls f + 2\<rparr>"
      and pg: "getU32 0 m = fr_page fr" and im: "\<And>i. i < PAGE_SIZE \<Longrightarrow> im i = fr_image fr i"
    define d where "d = (count_call db)\<lparr>fpos := page_offset (fr_page fr)\<rparr>"
    define e where "e = write_bytes im PAGE_SIZE (count_call d)"
    have seek: "fseek_set (page_offset (getU32 0 m)) db = (True, d)"
      using Cons.prems(3) by (simp add: fseek_set_def fault_now_def no_faults_def d_def pg)
    have wr: "fwrite im PAGE_SIZE d = (True, e)"
      using Cons.prems(3) by (simp add: fwrite_def fault_now_def no_faults_def d_def e_def)
    have step: "replayFrames (length (fr # frs)) f db = replayFrames (length frs) g' e"
      by (simp add: r1 r2 seek wr del: lens)
    have e_bytes: "fbytes e = fbytes (apply_frame fr db)"
      using im by (auto simp: e_def apply_frame_def write_bytes_def d_def fun_eq_iff)
    have e_size: "fsize e = max (fsize db) (page_offset (fr_page fr) + PAGE_SIZE)"
      by (simp add: e_def d_def)
    have "faults e = no_faults" using Cons.prems(3) by (simp add: e_def d_def)
    moreover have "frames_at g' (fpos g') frs"
      using Cons.prems(2) by (simp add: g')
    moreover have "faults g' = no_faults" using Cons.prems(1) by (simp add: g')
    ultimately obtain db' where IH: "replayFrames (length frs) g' e = (Inr (), db')"
        "faults db' = no_faults" "fsize e \<le> fsize db'"
        "\<And>i. i < PAGE_SIZE \<Longrightarrow> i < fsize e \<Longrightarrow> fbytes db' i = fbytes e i"
        "\<And>pid i. i < PAGE_SIZE \<Longrightarrow> (case last_image frs pid of
           Some im \<Rightarrow> page_offset pid + i < fsize db' \<and> fbytes db' (page_offset pid + i) = im i
         | None \<Rightarrow> page_offset pid + i < fsize e \<longrightarrow>
                     fbytes db' (page_offset pid + i) = fbytes e (page_offset pid + i))"
      using Cons.IH [of g' e] by blast
    have page: "case last_image (fr # frs) pid of
         Some im \<Rightarrow> page_offset pid + i < fsize db' \<and> fbytes db' (page_offset pid + i) = im i
       | None \<Rightarrow> page_offset pid + i < fsize db \<longrightarrow>
                   fbytes db' (page_offset pid + i) = fbytes db (page_offset pid + i)"
      if "i < PAGE_SIZE" for pid i
      using IH(5) [OF that, of pid] IH(3) that
      by (auto simp: last_image_Cons e_bytes e_size apply_frame_page split: option.splits)
    show ?thesis
      unfolding step IH(1)
    proof (intro exI conjI allI impI)
      show "fbytes db' i = fbytes db i" if "i < PAGE_SIZE" "i < fsize db" for i
        using IH(4) [of i] that by (simp add: e_size e_bytes apply_frame_header)
    qed (use IH(2,3) e_size page in auto)
  qed
qed


subsection \<open>Recovery of a log cut anywhere\<close>

lemma log_cut_frames:
  assumes "log_cut f frs"
  shows "frames_at f WAL_HEADER (whole_frames f frs)"
    "fsize f < WAL_HEADER + frame_len * length (whole_frames f frs) + frame_len"
    "length (whole_frames f frs) = (fsize f - WAL_HEADER) div frame_len"
proof -
  let ?n = "(fsize f - 16) div 8216"
  have n: "8216 * ?n \<le> fsize f - 16" "fsize f - 16 < 8216 * ?n + 8216"
    using dividend_less_times_div [of 8216 "fsize f - 16"] by (simp_all add: mult.commute)
  have le: "?n \<le> length frs"
    using assms div_le_mono [of "fsize f - 16" "8216 * length frs" 8216] by (auto simp: log_cut_def)
  then show len: "length (whole_frames f frs) = (fsize f - WAL_HEADER) div frame_len"
    by (simp add: whole_frames_def)
  show "fsize f < WAL_HEADER + frame_len * length (whole_frames f frs) + frame_len"
    using n assms by (simp add: len log_cut_def)
  show "frames_at f WAL_HEADER (whole_frames f frs)"
    unfolding frames_at_def frame_at_def
  proof (intro allI impI conjI)
    fix k assume k: "k < length (whole_frames f frs)"
    then have k': "k < ?n" by (simp add: len)
    then have room: "8216 * k + 8216 \<le> fsize f - 16"
      using n(1) mult_le_mono2 [of "Suc k" ?n 8216] by simp
    with assms show "WAL_HEADER + frame_len * k + frame_len \<le> fsize f" by (simp add: log_cut_def)
    fix i assume "i < frame_len"
    with room k' le assms show "fbytes f (WAL_HEADER + frame_len * k + i) = frame_bytes (whole_frames f frs ! k) i"
      by (auto simp: log_cut_def whole_frames_def)
  qed
qed

lemma frames_at_take: "frames_at f pos (xs @ ys) \<Longrightarrow> frames_at f pos xs"
  unfolding frames_at_def by (metis length_append nth_append trans_less_add1)

lemma wal_header_good:
  assumes "\<And>i. i < WAL_HEADER \<Longrightarrow> m i = wal_header_bytes i"
  shows "get_bytes 0 8 m = WAL_MAGIC" "getU32 12 m = of_nat PAGE_SIZE"
proof -
  have len: "length WAL_MAGIC = 8" by (simp add: WAL_MAGIC_def)
  have "get_bytes 0 8 m = get_bytes 0 8 (put_bytes 0 WAL_MAGIC (\<lambda>_. 0))"
    using assms by (intro get_bytes_cong) (simp add: wal_header_bytes_def mem)
  then show "get_bytes 0 8 m = WAL_MAGIC" using get_put_bytes [of 0 WAL_MAGIC] by (simp add: len)
  have "getU32 12 m = getU32 12 wal_header_bytes" using assms by (intro getU32_cong) simp
  then show "getU32 12 m = of_nat PAGE_SIZE" by (simp add: wal_header_bytes_def mem)
qed

lemma recoverHeader_ok:
  assumes "faults db = no_faults" "PAGE_SIZE \<le> fsize db"
  obtains db' where "recoverHeader pages root db = (Inr (), db')" "faults db' = no_faults"
    "fsize db' = fsize db"
    "\<And>i. i < fsize db \<Longrightarrow> fbytes db' i =
       (if i < PAGE_SIZE then putU32 16 root (putU32 12 pages (fbytes db)) i else fbytes db i)"
proof -
  define d where "d = (count_call db)\<lparr>fpos := 0\<rparr>"
  define e where "e = (count_call d)\<lparr>fpos := PAGE_SIZE\<rparr>"
  define h where "h = putU32 16 root (putU32 12 pages (\<lambda>i. fbytes db i))"
  define g where "g = (count_call e)\<lparr>fpos := 0\<rparr>"
  define db' where "db' = write_bytes h PAGE_SIZE (count_call g)"
  have "fseek_set 0 db = (True, d)" "fread PAGE_SIZE d = (Some (\<lambda>i. fbytes db i), e)"
    "fseek_set 0 e = (True, g)" "fwrite h PAGE_SIZE g = (True, db')"
    using assms
    by (simp_all add: fseek_set_def fread_def fwrite_def fault_now_def no_faults_def
        d_def e_def g_def db'_def)
  then have "recoverHeader pages root db = (Inr (), db')"
    by (simp add: recoverHeader_def h_def)
  moreover have "fbytes db' i = (if i < PAGE_SIZE then h i else fbytes db i)" if "i < fsize db" for i
    using that by (simp add: db'_def write_bytes_def g_def e_def d_def)
  ultimately show thesis
    using assms by (intro that [of db']) (auto simp: db'_def g_def e_def d_def h_def)
qed

lemma walSyncHandle_ok:
  assumes "faults db = no_faults"
  obtains db' where "walSyncHandle (Some db) = (Inr (), Some db')" "synced db'"
    "fbytes db' = fbytes db" "fsize db' = fsize db"
proof -
  have "walSyncHandle (Some db) = (Inr (), Some (snd (fsync (count_call db))))"
    using assms by (simp add: walSyncHandle_def fault_now_def no_faults_def fsync_def)
  then show thesis
    using assms by (intro that [of "snd (fsync (count_call db))"])
      (auto simp: fsync_def fault_now_def no_faults_def synced_def)
qed

text \<open>What a database file holds after the frames \<open>frs\<close> were replayed into it.\<close>

definition replayed :: "frame list \<Rightarrow> fhandle \<Rightarrow> fhandle \<Rightarrow> bool" where
  "replayed frs db db' \<longleftrightarrow>
     (\<forall>pid. \<forall>i < PAGE_SIZE. case last_image frs pid of
        Some im \<Rightarrow> fbytes db' (page_offset pid + i) = im i
      | None \<Rightarrow> page_offset pid + i < fsize db \<longrightarrow>
                  fbytes db' (page_offset pid + i) = fbytes db (page_offset pid + i)) \<and>
     getU32 12 (fbytes db') = fr_count (last frs) \<and> getU32 16 (fbytes db') = fr_root (last frs) \<and>
     (\<forall>i < PAGE_SIZE. i < 12 \<or> 20 \<le> i \<longrightarrow> fbytes db' i = fbytes db i)"

lemma walRecover_scan:
  assumes cut: "log_cut log frs" and pos: "fpos log = 0" and ok: "faults log = no_faults"
  obtains m g g' where "fread WAL_HEADER log = (Some m, g)" "get_bytes 0 8 m = WAL_MAGIC"
    "getU32 12 m = of_nat PAGE_SIZE"
    "scanFrames g \<lparr>sframes = 0, lastGood = -1, finalPages = 0, finalRoot = 0xFFFFFFFF\<rparr> =
       (foldl scan_step \<lparr>sframes = 0, lastGood = -1, finalPages = 0, finalRoot = 0xFFFFFFFF\<rparr>
          (whole_frames log frs), g')"
    "faults g' = no_faults" "fbytes g' = fbytes log" "fsize g' = fsize log"
proof -
  define m where "m = (\<lambda>i. fbytes log (fpos log + i))"
  define g where "g = (count_call log)\<lparr>fpos := fpos log + WAL_HEADER\<rparr>"
  have r: "fread WAL_HEADER log = (Some m, g)"
    unfolding m_def g_def using cut pos ok by (intro fread_no_fault) (auto simp: log_cut_def)
  have header: "m i = wal_header_bytes i" if "i < WAL_HEADER" for i
    using that cut pos by (simp add: m_def log_cut_def)
  have "faults g = no_faults" using ok by (simp add: g_def)
  moreover have "frames_at g (fpos g) (whole_frames log frs)"
    using log_cut_frames(1) [OF cut] pos by (simp add: g_def frames_at_def frame_at_def)
  moreover have "fsize g < fpos g + frame_len * length (whole_frames log frs) + frame_len"
    using log_cut_frames(2) [OF cut] pos by (simp add: g_def)
  ultimately obtain g' where
    "scanFrames g \<lparr>sframes = 0, lastGood = -1, finalPages = 0, finalRoot = 0xFFFFFFFF\<rparr> =
       (foldl scan_step \<lparr>sframes = 0, lastGood = -1, finalPages = 0, finalRoot = 0xFFFFFFFF\<rparr>
          (whole_frames log frs), g')"
    "faults g' = no_faults" "fbytes g' = fbytes g" "fsize g' = fsize g"
    using scanFrames_frames by blast
  with r wal_header_good [OF header] show thesis
    by (intro that [of m g g']) (simp_all add: g_def del: lens)
qed

lemma walRecover_none:
  assumes "log_cut log frs" "fpos log = 0" "faults log = no_faults"
    and none: "committed (whole_frames log frs) = []"
  shows "walRecover (Some log) probe db = (Inr 0, True, db)"
proof -
  obtain m g g' where "fread WAL_HEADER log = (Some m, g)" "get_bytes 0 8 m = WAL_MAGIC"
    "getU32 12 m = of_nat PAGE_SIZE"
    "scanFrames g \<lparr>sframes = 0, lastGood = -1, finalPages = 0, finalRoot = 0xFFFFFFFF\<rparr> =
       (foldl scan_step \<lparr>sframes = 0, lastGood = -1, finalPages = 0, finalRoot = 0xFFFFFFFF\<rparr>
          (whole_frames log frs), g')"
    using walRecover_scan [OF assms(1-3)] by metis
  then show ?thesis by (simp add: walRecover_def foldl_scan_step none del: lens)
qed


lemma recovery_committed:
  assumes cut: "log_cut log frs" and pos: "fpos log = 0" and ok: "faults log = no_faults"
    and probe: "isPageFile probe" and db: "faults db = no_faults" "PAGE_SIZE \<le> fsize db"
  shows "case committed (whole_frames log frs) of
      [] \<Rightarrow> walRecover (Some log) probe (Some db) = (Inr 0, True, Some db)
    | fr # rest \<Rightarrow> \<exists>db'. walRecover (Some log) probe (Some db) =
          (Inr (int (length (fr # rest))), True, Some db') \<and> synced db' \<and> replayed (fr # rest) db db'"
proof (cases "committed (whole_frames log frs)")
  case Nil
  with walRecover_none [OF cut pos ok Nil] show ?thesis by simp
next
  case (Cons fr rest)
  let ?c = "committed (whole_frames log frs)"
  obtain m g g' where scan: "fread WAL_HEADER log = (Some m, g)" "get_bytes 0 8 m = WAL_MAGIC"
    "getU32 12 m = of_nat PAGE_SIZE"
    "scanFrames g \<lparr>sframes = 0, lastGood = -1, finalPages = 0, finalRoot = 0xFFFFFFFF\<rparr> =
       (foldl scan_step \<lparr>sframes = 0, lastGood = -1, finalPages = 0, finalRoot = 0xFFFFFFFF\<rparr>
          (whole_frames log frs), g')"
    and g': "faults g' = no_faults" "fbytes g' = fbytes log" "fsize g' = fsize log"
    by (rule walRecover_scan [OF cut pos ok])
  define h where "h = (count_call g')\<lparr>fpos := WAL_HEADER\<rparr>"
  have seek: "fseek_set WAL_HEADER g' = (True, h)" and h: "faults h = no_faults"
    using g'(1) by (simp_all add: fseek_set_def fault_now_def no_faults_def h_def)
  have "frames_at log WAL_HEADER ?c"
    using log_cut_frames(1) [OF cut] committed_prefix frames_at_take by metis
  then have "frames_at h (fpos h) ?c"
    using g' by (simp add: h_def frames_at_def frame_at_def)
  from replayFrames_frames [OF h this db(1)] obtain d where d:
    "replayFrames (length ?c) h db = (Inr (), d)" "faults d = no_faults" "fsize db \<le> fsize d"
    "\<And>i. i < PAGE_SIZE \<Longrightarrow> i < fsize db \<Longrightarrow> fbytes d i = fbytes db i"
    "\<And>pid i. i < PAGE_SIZE \<Longrightarrow> (case last_image ?c pid of
        Some im \<Rightarrow> page_offset pid + i < fsize d \<and> fbytes d (page_offset pid + i) = im i
      | None \<Rightarrow> page_offset pid + i < fsize db \<longrightarrow>
                  fbytes d (page_offset pid + i) = fbytes db (page_offset pid + i))"
    by blast
  obtain e where e: "recoverHeader (fr_count (last ?c)) (fr_root (last ?c)) d = (Inr (), e)"
    "faults e = no_faults" "fsize e = fsize d"
    "\<And>i. i < fsize d \<Longrightarrow> fbytes e i = (if i < PAGE_SIZE
       then putU32 16 (fr_root (last ?c)) (putU32 12 (fr_count (last ?c)) (fbytes d)) i
       else fbytes d i)"
    using recoverHeader_ok [OF d(2), of "fr_count (last ?c)" "fr_root (last ?c)"] d(3) db(2) by auto
  obtain db' where s: "walSyncHandle (Some e) = (Inr (), Some db')" "synced db'"
    "fbytes db' = fbytes e" "fsize db' = fsize e" by (rule walSyncHandle_ok [OF e(2)])
  have run: "walRecover (Some log) probe (Some db) = (Inr (int (length ?c)), True, Some db')"
    using scan seek d(1) e(1) s(1) probe Cons
    by (simp add: walRecover_def foldl_scan_step nat_add_distrib del: lens replayFrames.simps)
  have field: "getU32 k (fbytes db') =
      getU32 k (putU32 16 (fr_root (last ?c)) (putU32 12 (fr_count (last ?c)) (fbytes d)))"
    if "k + 4 \<le> PAGE_SIZE" for k
    using that d(3) db(2) by (intro getU32_cong) (simp add: s(3) e(4))
  have "replayed ?c db db'"
    unfolding replayed_def
  proof (intro conjI allI impI)
    fix pid i assume i: "i < PAGE_SIZE"
    show "case last_image ?c pid of Some im \<Rightarrow> fbytes db' (page_offset pid + i) = im i
      | None \<Rightarrow> page_offset pid + i < fsize db \<longrightarrow>
                  fbytes db' (page_offset pid + i) = fbytes db (page_offset pid + i)"
      using d(5) [OF i, of pid] d(3) page_offset_header [of pid]
      by (auto simp: s(3) e(4) split: option.splits)
  next
    show "getU32 12 (fbytes db') = fr_count (last ?c)" "getU32 16 (fbytes db') = fr_root (last ?c)"
      by (simp_all add: field PAGE_SIZE_def mem)
  next
    fix i assume "i < PAGE_SIZE" "i < 12 \<or> 20 \<le> i"
    then show "fbytes db' i = fbytes db i"
      using d(3,4) db(2) by (auto simp: s(3) e(4) mem)
  qed
  with run s(2) Cons show ?thesis by simp
qed

text \<open>
  C2: recovery is atomic. Cut the log at any byte: recovery replays exactly the frames up to the
  last commit marker among the frames left whole, leaves every other page alone, records the last
  commit's size and catalog root in the header, and drops the log with the file on the disk. With
  no commit marker left it changes nothing.
\<close>
theorem recovery_atomic:
  assumes cut: "log_cut log frs" and pos: "fpos log = 0" and ok: "faults log = no_faults"
    and probe: "isPageFile probe" and db: "faults db = no_faults" "PAGE_SIZE \<le> fsize db"
  shows "case committed (whole_frames log frs) of
      [] \<Rightarrow> walRecover (Some log) probe (Some db) = (Inr 0, True, Some db)
    | fr # rest \<Rightarrow> \<exists>db'. walRecover (Some log) probe (Some db) =
          (Inr (int (length (fr # rest))), True, Some db') \<and> synced db' \<and> replayed (fr # rest) db db'"
  using assms by (rule recovery_committed)

text \<open>A log of one committed frame, and a database file of one page, to apply it to.\<close>

definition demo_frame :: frame where
  "demo_frame = \<lparr>fr_page = 0, fr_commit = 1, fr_count = 1, fr_root = 0, fr_image = (\<lambda>_. 7)\<rparr>"

definition demo_log :: fhandle where
  "demo_log = (empty_file no_faults)\<lparr>fsize := 16 + 8216,
     fbytes := (\<lambda>i. if i < 16 then wal_header_bytes i else frame_bytes demo_frame (i - 16))\<rparr>"

definition demo_db :: fhandle where
  "demo_db = (empty_file no_faults)\<lparr>fsize := 16384,
     fbytes := put_bytes 0 (SAVE_MAGIC @ [SAVE_VERSION, 0, 0, 0]) (\<lambda>_. 0)\<rparr>"

lemma demo_page_file: "isPageFile (Some demo_db)"
proof -
  have len: "length SAVE_MAGIC = 8" by (simp add: SAVE_MAGIC_def)
  have "get_bytes 0 8 (fbytes demo_db) = SAVE_MAGIC"
    by (rule nth_equalityI) (auto simp: len demo_db_def put_bytes_def nth_append)
  moreover have "fbytes demo_db 8 = SAVE_VERSION" "fbytes demo_db 9 = 0" "fbytes demo_db 10 = 0"
    "fbytes demo_db 11 = 0"
    by (simp_all add: demo_db_def put_bytes_def nth_append len nth_Cons')
  ultimately show ?thesis
    by (simp add: isPageFile_def fread_def fault_now_def demo_db_def empty_file_def no_faults_def)
qed

theorem recovery_atomic_witness:
  "\<exists>db'. walRecover (Some demo_log) (Some demo_db) (Some demo_db) = (Inr 1, True, Some db') \<and>
     synced db' \<and> replayed [demo_frame] demo_db db'"
proof -
  have cut: "log_cut demo_log [demo_frame]"
    by (auto simp: log_cut_def demo_log_def)
  have whole: "committed (whole_frames demo_log [demo_frame]) = [demo_frame]"
    by (simp add: whole_frames_def demo_log_def committed_def demo_frame_def)
  have "fpos demo_log = 0" "faults demo_log = no_faults" "faults demo_db = no_faults"
    "PAGE_SIZE \<le> fsize demo_db"
    by (simp_all add: demo_log_def demo_db_def empty_file_def PAGE_SIZE_def)
  from recovery_atomic [OF cut this(1,2) demo_page_file this(3,4)] show ?thesis
    by (simp add: whole)
qed

end
