(* ===== verification/Float64.thy ===== *)
theory Float64
  imports Prelude
begin

text \<open>
  The C type \<^verbatim>\<open>double\<close> as the code uses it: an IEEE 754 binary64 bit pattern with the arithmetic,
  the comparisons and the conversions of the language, in round-to-nearest-even. The engine copies
  a double's bytes into records and index keys, so the bit pattern is the value here. Where the
  standard leaves the payload of a NaN result open, the model returns the quiet NaN.
\<close>

type_synonym double = u64

definition fl_sign :: "double \<Rightarrow> bool" where
  "fl_sign x \<longleftrightarrow> 2 ^ 63 \<le> uint x"

definition fl_magnitude :: "double \<Rightarrow> int" where
  "fl_magnitude x = uint x mod 2 ^ 63"

definition fl_expo :: "double \<Rightarrow> int" where
  "fl_expo x = fl_magnitude x div 2 ^ 52"

definition fl_frac :: "double \<Rightarrow> int" where
  "fl_frac x = fl_magnitude x mod 2 ^ 52"

definition fl_nan :: "double \<Rightarrow> bool" where
  "fl_nan x \<longleftrightarrow> 2047 * 2 ^ 52 < fl_magnitude x"

definition fl_inf :: "double \<Rightarrow> bool" where
  "fl_inf x \<longleftrightarrow> fl_magnitude x = 2047 * 2 ^ 52"

text \<open>A finite double is \<open>fl_int * 2 ^ (fl_scale - 1074)\<close>, with the significand signed.\<close>

definition fl_mant :: "double \<Rightarrow> int" where
  "fl_mant x = (if fl_expo x = 0 then fl_frac x else 2 ^ 52 + fl_frac x)"

definition fl_scale :: "double \<Rightarrow> int" where
  "fl_scale x = (if fl_expo x = 0 then 0 else fl_expo x - 1)"

definition fl_int :: "double \<Rightarrow> int" where
  "fl_int x = (if fl_sign x then - fl_mant x else fl_mant x)"

definition fl_make :: "bool \<Rightarrow> int \<Rightarrow> double" where
  "fl_make s mag = of_int (if s then 2 ^ 63 + mag else mag)"

definition fl_qnan :: double where "fl_qnan = 0x7FF8000000000000"
definition fl_zero :: double where "fl_zero = 0"
definition fl_neg_zero :: double where "fl_neg_zero = 0x8000000000000000"

subsection \<open>Comparison\<close>

text \<open>Sign and magnitude read as one integer, which orders the numbers; both zeros are 0.\<close>

definition fl_key :: "double \<Rightarrow> int" where
  "fl_key x = (if fl_sign x then - fl_magnitude x else fl_magnitude x)"

definition fl_less :: "double \<Rightarrow> double \<Rightarrow> bool" where
  "fl_less x y \<longleftrightarrow> \<not> fl_nan x \<and> \<not> fl_nan y \<and> fl_key x < fl_key y"

definition fl_eq :: "double \<Rightarrow> double \<Rightarrow> bool" where
  "fl_eq x y \<longleftrightarrow> \<not> fl_nan x \<and> \<not> fl_nan y \<and> fl_key x = fl_key y"

subsection \<open>Rounding\<close>

function bit_length :: "int \<Rightarrow> int" where
  "bit_length n = (if n \<le> 0 then 0 else 1 + bit_length (n div 2))"
  by pat_completeness auto
termination
  by (relation "measure nat") auto

declare bit_length.simps [simp del]

text \<open>\<open>m / 2 ^ k\<close> rounded to the nearest integer, ties to even.\<close>

definition round_even :: "int \<Rightarrow> nat \<Rightarrow> int" where
  "round_even m k =
     (let q = m div 2 ^ k; r = m mod 2 ^ k
      in if 2 * r < 2 ^ k \<or> (2 * r = 2 ^ k \<and> even q) then q else q + 1)"

text \<open>
  The double nearest to \<open>\<plusminus> m * 2 ^ (e - 1074)\<close>. The last place kept is the one 52 below the
  leading bit, and never below \<open>2 ^ -1074\<close>; adding the rounded significand to the shifted
  exponent carries into the exponent where rounding reaches the next power of two.
\<close>

definition fl_round :: "bool \<Rightarrow> int \<Rightarrow> int \<Rightarrow> double" where
  "fl_round s m e =
     (if m = 0 then fl_make s 0
      else let ulp = max 0 (e + bit_length m - 53);
               q = (if ulp \<le> e then m * 2 ^ nat (e - ulp) else round_even m (nat (ulp - e)));
               bits = ulp * 2 ^ 52 + q
           in fl_make s (min bits (2047 * 2 ^ 52)))"

subsection \<open>Arithmetic\<close>

definition fl_neg :: "double \<Rightarrow> double" where
  "fl_neg x = x XOR 0x8000000000000000"

definition fl_add :: "double \<Rightarrow> double \<Rightarrow> double" where
  "fl_add x y =
     (if fl_nan x \<or> fl_nan y then fl_qnan
      else if fl_inf x then (if fl_inf y \<and> fl_sign x \<noteq> fl_sign y then fl_qnan else x)
      else if fl_inf y then y
      else let e = min (fl_scale x) (fl_scale y);
               t = fl_int x * 2 ^ nat (fl_scale x - e) + fl_int y * 2 ^ nat (fl_scale y - e)
           in if t = 0 then fl_make (fl_sign x \<and> fl_sign y) 0
              else fl_round (t < 0) \<bar>t\<bar> e)"

definition fl_sub :: "double \<Rightarrow> double \<Rightarrow> double" where
  "fl_sub x y = (if fl_nan y then fl_qnan else fl_add x (fl_neg y))"

definition fl_mul :: "double \<Rightarrow> double \<Rightarrow> double" where
  "fl_mul x y =
     (let s = (fl_sign x \<noteq> fl_sign y)
      in if fl_nan x \<or> fl_nan y then fl_qnan
         else if fl_inf x \<or> fl_inf y
              then (if fl_magnitude x = 0 \<or> fl_magnitude y = 0 then fl_qnan
                    else fl_make s (2047 * 2 ^ 52))
         else fl_round s (fl_mant x * fl_mant y) (fl_scale x + fl_scale y - 1074))"

text \<open>
  A quotient of two significands: enough bits for the rounding position to lie inside, and one
  sticky bit for the remainder, so rounding the truncated quotient is rounding the exact one.
\<close>

definition fl_quotient :: "bool \<Rightarrow> int \<Rightarrow> int \<Rightarrow> int \<Rightarrow> double" where
  "fl_quotient s n d e =
     (let k = bit_length d + 66;
          q = n * 2 ^ nat k div d;
          sticky = (if n * 2 ^ nat k mod d = 0 then 0 else 1)
      in fl_round s (2 * q + sticky) (e - k - 1))"

definition fl_div :: "double \<Rightarrow> double \<Rightarrow> double" where
  "fl_div x y =
     (let s = (fl_sign x \<noteq> fl_sign y)
      in if fl_nan x \<or> fl_nan y then fl_qnan
         else if fl_inf x then (if fl_inf y then fl_qnan else fl_make s (2047 * 2 ^ 52))
         else if fl_inf y then fl_make s 0
         else if fl_magnitude y = 0
              then (if fl_magnitude x = 0 then fl_qnan else fl_make s (2047 * 2 ^ 52))
         else fl_quotient s (fl_mant x) (fl_mant y) (fl_scale x - fl_scale y + 1074))"

text \<open>\<^verbatim>\<open>(double)n\<close> of an int, and the decimal \<open>digits / 10 ^ places\<close> that \<^verbatim>\<open>strtod\<close> reads.\<close>

definition fl_of_int :: "int \<Rightarrow> double" where
  "fl_of_int n = fl_round (n < 0) \<bar>n\<bar> 1074"

definition fl_of_decimal :: "bool \<Rightarrow> int \<Rightarrow> nat \<Rightarrow> double" where
  "fl_of_decimal s digits places = fl_quotient s digits (10 ^ places) 1074"

subsection \<open>Facts the engine's orders rest on\<close>

lemma mod_of_two_halves:
  fixes u k :: int
  assumes "0 \<le> u" "u < 2 * k"
  shows "u = (if k \<le> u then k else 0) + u mod k"
proof (cases "k \<le> u")
  case True
  have "u mod k = (u - k) mod k" by simp
  also have "\<dots> = u - k" using assms True by (intro mod_pos_pos_trivial) auto
  finally show ?thesis using True by simp
qed (use assms in auto)

lemma uint_double_split: "uint x = (if fl_sign x then 2 ^ 63 else 0) + fl_magnitude x"
proof -
  have "uint x < 2 * 2 ^ 63" using uint_lt2p [of x] by simp
  then show ?thesis
    unfolding fl_sign_def fl_magnitude_def by (intro mod_of_two_halves) simp_all
qed

lemma fl_magnitude_bounds: "0 \<le> fl_magnitude x" "fl_magnitude x < 2 ^ 63"
  by (simp_all add: fl_magnitude_def)

lemma fl_bits_eqI: "fl_sign x = fl_sign y \<Longrightarrow> fl_magnitude x = fl_magnitude y \<Longrightarrow> x = y"
  by (rule word_uint_eq_iff [THEN iffD2]) (simp add: uint_double_split)

lemma fl_key_eq_iff:
  "fl_key x = fl_key y \<longleftrightarrow> x = y \<or> (fl_magnitude x = 0 \<and> fl_magnitude y = 0)"
  using fl_magnitude_bounds(1) [of x] fl_magnitude_bounds(1) [of y]
  by (auto simp: fl_key_def intro: fl_bits_eqI split: if_splits)

lemma fl_eq_refl: "\<not> fl_nan x \<Longrightarrow> fl_eq x x"
  by (simp add: fl_eq_def)

lemma fl_zeros_equal: "fl_eq fl_zero fl_neg_zero"
  by (simp add: fl_eq_def fl_nan_def fl_key_def fl_magnitude_def fl_sign_def fl_zero_def
      fl_neg_zero_def)

end
