(* ===== verification/Values.thy ===== *)
theory Values
  imports Float64
begin

text \<open>
  Values as every stage passes them, and the helpers of \<^verbatim>\<open>07_storage.c\<close> that compare, order and
  build them: the text order and the two equalities, the one of WHERE and the one of GROUP BY.
\<close>

subsection \<open>Types and values\<close>

text \<open>
  \<open>ColType\<close>. A tag byte read from a page is cast to the enum without a check, so a tag outside it
  is a value of its own.
\<close>

datatype coltype = TYPE_INT | TYPE_TEXT | TYPE_FLOAT | TYPE_DATE | TYPE_TAG byte

text \<open>
  A \<open>Value\<close>. Its text is the bytes \<open>(text, textLength)\<close>; an unset pointer is the empty text, as
  \<open>valueText\<close> reads it.
\<close>

record Value =
  vtype :: coltype
  isNull :: bool
  intValue :: i32
  floatValue :: double
  vtext :: string

definition blank_value :: "Value" where
  "blank_value = \<lparr>vtype = TYPE_INT, isNull = False, intValue = 0, floatValue = 0, vtext = []\<rparr>"

definition setNull :: "coltype \<Rightarrow> Value" where
  "setNull t = \<lparr>vtype = t, isNull = True, intValue = 0, floatValue = 0, vtext = []\<rparr>"

definition setFloat :: "double \<Rightarrow> Value" where
  "setFloat x = \<lparr>vtype = TYPE_FLOAT, isNull = False, intValue = 0, floatValue = x, vtext = []\<rparr>"

text \<open>\<open>setText\<close> leaves the number fields of the value it writes to as they were.\<close>

definition setText :: "Value \<Rightarrow> string \<Rightarrow> Value" where
  "setText v s = v\<lparr>vtype := TYPE_TEXT, isNull := False, vtext := s\<rparr>"

definition intLike :: "coltype \<Rightarrow> bool" where
  "intLike t \<longleftrightarrow> t = TYPE_INT \<or> t = TYPE_DATE"

subsection \<open>Orders and equalities\<close>

fun memcmp :: "string \<Rightarrow> string \<Rightarrow> int" where
  "memcmp (a # as) (b # bs) =
     (if (of_char a :: nat) < of_char b then -1
      else if (of_char b :: nat) < of_char a then 1 else memcmp as bs)"
| "memcmp _ _ = 0"

definition compareText :: "string \<Rightarrow> string \<Rightarrow> int" where
  "compareText a b =
     (let shared = min (length a) (length b);
          order = (if shared > 0 then memcmp (take shared a) (take shared b) else 0)
      in if order \<noteq> 0 then (if order < 0 then -1 else 1)
         else if length a < length b then -1 else if length a > length b then 1 else 0)"

definition compareValues :: "Value \<Rightarrow> Value \<Rightarrow> int" where
  "compareValues a b =
     (if intLike (vtype a)
      then (if sint (intValue a) < sint (intValue b) then -1
            else if sint (intValue a) > sint (intValue b) then 1 else 0)
      else if vtype a = TYPE_FLOAT
      then (if fl_less (floatValue a) (floatValue b) then -1
            else if fl_less (floatValue b) (floatValue a) then 1 else 0)
      else compareText (vtext a) (vtext b))"

definition valuesSame :: "Value \<Rightarrow> Value \<Rightarrow> bool" where
  "valuesSame a b =
     (if intLike (vtype a) then intValue a = intValue b
      else if vtype a = TYPE_FLOAT then fl_eq (floatValue a) (floatValue b)
      else length (vtext a) = length (vtext b) \<and>
           (length (vtext a) = 0 \<or> memcmp (vtext a) (vtext b) = 0))"

definition valuesEqual :: "Value \<Rightarrow> Value \<Rightarrow> bool" where
  "valuesEqual a b =
     (if isNull a \<or> isNull b then isNull a \<and> isNull b
      else if vtype a \<noteq> vtype b then False else valuesSame a b)"

subsection \<open>The text order is the lexicographic one\<close>

lemma memcmp_self [simp]: "memcmp a a = 0"
  by (induction a) auto

lemma memcmp_zero: "length a = length b \<Longrightarrow> memcmp a b = 0 \<longleftrightarrow> a = b"
  by (induction a b rule: memcmp.induct)
     (auto simp: not_less dest: order_antisym split: if_splits)

lemma memcmp_range: "memcmp a b \<in> {-1, 0, 1}"
  by (induction a b rule: memcmp.induct) auto

lemma memcmp_take: "memcmp (take (min (length a) (length b)) a) (take (min (length a) (length b)) b) = memcmp a b"
  by (induction a b rule: memcmp.induct) auto

lemma compareText_memcmp:
  "compareText a b = (if memcmp a b \<noteq> 0 then memcmp a b
     else if length a < length b then -1 else if length a > length b then 1 else 0)"
proof (cases "a = [] \<or> b = []")
  case True
  then show ?thesis by (cases a; cases b) (auto simp: compareText_def)
next
  case False
  then show ?thesis
    using memcmp_range [of a b]
    by (auto simp: compareText_def memcmp_take Let_def)
qed

lemma compareText_Nil [simp]:
  "compareText [] [] = 0" "compareText [] (b # bs) = -1" "compareText (a # as) [] = 1"
  by (simp_all add: compareText_memcmp)

lemma compareText_Cons [simp]:
  "compareText (a # as) (b # bs) =
     (if a < b then -1 else if b < a then 1 else compareText as bs)"
  by (simp add: compareText_memcmp less_char_def)

lemma compareText_zero [simp]: "compareText a b = 0 \<longleftrightarrow> a = b"
  by (induction a b rule: list_induct2') auto

lemma compareText_swap: "compareText b a = - compareText a b"
  by (induction a b rule: list_induct2') auto

lemma compareText_range: "compareText a b \<in> {-1, 0, 1}"
  by (induction a b rule: list_induct2') auto

lemma compareText_trans:
  "compareText a b \<le> 0 \<Longrightarrow> compareText b c \<le> 0 \<Longrightarrow> compareText a c \<le> 0"
proof (induction a b arbitrary: c rule: list_induct2')
  case (4 x xs y ys)
  then show ?case by (cases c) (auto split: if_splits)
qed (case_tac c; auto split: if_splits)+

lemma compareText_lexordp: "compareText a b = -1 \<longleftrightarrow> ord_class.lexordp a b"
  by (induction a b rule: list_induct2') auto

end
