(* ===== verification/Records.thy ===== *)
theory Records
  imports Values
begin

text \<open>
  Rows and the bytes they are stored as, the record encoding of \<^verbatim>\<open>07_storage.c\<close>: measuring,
  writing and reading a record, and decoding the first columns of one in place. The double is
  stored in the host's byte order, taken as little-endian.
\<close>

subsection \<open>Rows\<close>

text \<open>\<open>rvals\<close> is the array of \<open>MAX_COLS\<close> values, of which \<open>ncols\<close> are in use.\<close>

record row =
  rvals :: "Value list"
  ncols :: nat
  deleted :: bool

definition blank_row :: row where
  "blank_row = \<lparr>rvals = replicate MAX_COLS blank_value, ncols = 0, deleted = False\<rparr>"

definition columns :: "row \<Rightarrow> Value list" where
  "columns r = take (ncols r) (rvals r)"

fun type_byte :: "coltype \<Rightarrow> byte" where
  "type_byte TYPE_INT = 0"
| "type_byte TYPE_TEXT = 1"
| "type_byte TYPE_FLOAT = 2"
| "type_byte TYPE_DATE = 3"
| "type_byte (TYPE_TAG b) = b"

definition type_of_byte :: "byte \<Rightarrow> coltype" where
  "type_of_byte b = (if b = 0 then TYPE_INT else if b = 1 then TYPE_TEXT
     else if b = 2 then TYPE_FLOAT else if b = 3 then TYPE_DATE else TYPE_TAG b)"

subsection \<open>Writing\<close>

definition bytes_of :: "nat \<Rightarrow> 'a::len word \<Rightarrow> byte list" where
  "bytes_of n w = map (byte_at w) [0..<n]"

definition value_size :: "Value \<Rightarrow> nat" where
  "value_size v =
     (if isNull v then 1
      else 2 + (if intLike (vtype v) then 4 else if vtype v = TYPE_FLOAT then 8
                else 2 + length (vtext v)))"

definition recordSize :: "row \<Rightarrow> nat" where
  "recordSize r = 2 + sum_list (map value_size (columns r))"

definition value_bytes :: "Value \<Rightarrow> byte list" where
  "value_bytes v =
     (if isNull v then [1]
      else 0 # type_byte (vtype v) #
        (if intLike (vtype v) then bytes_of 4 (intValue v)
         else if vtype v = TYPE_FLOAT then bytes_of 8 (floatValue v)
         else bytes_of 2 (of_nat (length (vtext v)) :: u32) @ map byte_of_char (vtext v)))"

definition record_bytes :: "row \<Rightarrow> byte list" where
  "record_bytes r = bytes_of 2 (of_nat (ncols r) :: u32) @ concat (map value_bytes (columns r))"

definition writeRecord :: "nat \<Rightarrow> row \<Rightarrow> memory \<Rightarrow> memory" where
  "writeRecord at r m = put_bytes at (record_bytes r) m"

subsection \<open>Reading\<close>

definition get16 :: "nat \<Rightarrow> memory \<Rightarrow> nat" where
  "get16 at m = unat (m at) + 256 * unat (m (at + 1))"

definition getU64 :: "nat \<Rightarrow> memory \<Rightarrow> u64" where
  "getU64 at m = ucast (m at) OR push_bit 8 (ucast (m (at + 1))) OR push_bit 16 (ucast (m (at + 2)))
       OR push_bit 24 (ucast (m (at + 3))) OR push_bit 32 (ucast (m (at + 4)))
       OR push_bit 40 (ucast (m (at + 5))) OR push_bit 48 (ucast (m (at + 6)))
       OR push_bit 56 (ucast (m (at + 7)))"

definition text_at :: "nat \<Rightarrow> nat \<Rightarrow> memory \<Rightarrow> string" where
  "text_at at n m = map char_of_byte (get_bytes at n m)"

text \<open>One field read into \<open>old\<close>: the value, and where the next field starts.\<close>

definition read_value :: "Value \<Rightarrow> memory \<Rightarrow> nat \<Rightarrow> Value \<times> nat" where
  "read_value old m n =
     (if m n \<noteq> 0 then (old\<lparr>isNull := True, vtype := TYPE_TEXT\<rparr>, n + 1)
      else let t = type_of_byte (m (n + 1)); v = old\<lparr>isNull := False, vtype := t\<rparr>
           in if intLike t then (v\<lparr>intValue := getU32 (n + 2) m\<rparr>, n + 6)
              else if t = TYPE_FLOAT then (v\<lparr>floatValue := getU64 (n + 2) m\<rparr>, n + 10)
              else let len = get16 (n + 2) m
                   in (setText v (text_at (n + 4) len m), n + 4 + len))"

primrec read_values :: "nat \<Rightarrow> memory \<Rightarrow> nat \<Rightarrow> Value list" where
  "read_values 0 m n = []"
| "read_values (Suc k) m n = (let (v, n) = read_value blank_value m n in v # read_values k m n)"

definition readRecord :: "nat \<Rightarrow> memory \<Rightarrow> row" where
  "readRecord at m =
     (let cols = get16 at m; vs = read_values (min cols MAX_COLS) m (at + 2)
      in \<lparr>rvals = vs @ replicate (MAX_COLS - length vs) blank_value, ncols = cols, deleted = False\<rparr>)"

text \<open>
  \<open>decodeRecord\<close> reads the columns up to \<open>wanted\<close> over the values \<open>out\<close> already holds, and points
  text into the page; the type is the stored one even where it is no type of the engine.
\<close>

definition decode_value :: "Value \<Rightarrow> memory \<Rightarrow> nat \<Rightarrow> Value \<times> nat" where
  "decode_value old m n =
     (if m n \<noteq> 0 then (old\<lparr>isNull := True, vtype := TYPE_TEXT, vtext := []\<rparr>, n + 1)
      else let t = type_of_byte (m (n + 1)); v = old\<lparr>isNull := False, vtype := t\<rparr>
           in if intLike t then (v\<lparr>intValue := getU32 (n + 2) m, vtext := []\<rparr>, n + 6)
              else if t = TYPE_FLOAT then (v\<lparr>floatValue := getU64 (n + 2) m, vtext := []\<rparr>, n + 10)
              else let len = get16 (n + 2) m
                   in (v\<lparr>vtext := text_at (n + 4) len m\<rparr>, n + 4 + len))"

fun decode_values :: "nat \<Rightarrow> Value list \<Rightarrow> memory \<Rightarrow> nat \<Rightarrow> Value list" where
  "decode_values (Suc k) (old # olds) m n =
     (let (v, n) = decode_value old m n in v # decode_values k olds m n)"
| "decode_values _ olds m n = olds"

definition decodeRecord :: "nat \<Rightarrow> memory \<Rightarrow> row \<Rightarrow> int \<Rightarrow> row" where
  "decodeRecord at m out wanted =
     (let cols = get16 at m;
          wanted = (if wanted \<ge> int cols then int cols - 1 else wanted);
          wanted = (if wanted \<ge> int MAX_COLS then int MAX_COLS - 1 else wanted)
      in out\<lparr>ncols := cols, deleted := False,
             rvals := decode_values (nat (wanted + 1)) (rvals out) m (at + 2)\<rparr>)"

subsection \<open>Bytes and fields\<close>

definition holds :: "memory \<Rightarrow> nat \<Rightarrow> byte list \<Rightarrow> bool" where
  "holds m at bs \<longleftrightarrow> (\<forall>i < length bs. m (at + i) = bs ! i)"

lemma holds_Nil [simp]: "holds m at []"
  by (simp add: holds_def)

lemma holds_Cons [simp]: "holds m at (b # bs) \<longleftrightarrow> m at = b \<and> holds m (at + 1) bs"
  by (auto simp: holds_def less_Suc_eq_0_disj)

lemma holds_append [simp]: "holds m at (xs @ ys) \<longleftrightarrow> holds m at xs \<and> holds m (at + length xs) ys"
  by (induction xs arbitrary: at) auto

lemma holds_put_bytes [simp]: "holds (put_bytes at bs m) at bs"
  by (simp add: holds_def put_bytes_def)

lemma holds_cong: "(\<And>i. at \<le> i \<Longrightarrow> i < at + length bs \<Longrightarrow> m i = m' i) \<Longrightarrow> holds m at bs = holds m' at bs"
  by (auto simp: holds_def)

lemma length_bytes_of [simp]: "length (bytes_of n w) = n"
  by (simp add: bytes_of_def)

lemma holds_bytes_of: "holds m at (bytes_of n w) \<longleftrightarrow> (\<forall>i < n. m (at + i) = byte_at w i)"
  by (auto simp: holds_def bytes_of_def)

lemma unat_byte_at: "unat (byte_at w i) = unat w div 2 ^ (8 * i) mod 256"
proof -
  have "(0xFF :: 'a word) = mask 8" by (simp add: mask_eq_exp_minus_1)
  then have "byte_at w i = ucast (take_bit 8 (drop_bit (8 * i) w))"
    by (simp add: byte_at_def take_bit_eq_mask)
  then show ?thesis
    by (simp only: unsigned_ucast_eq unsigned_take_bit_eq unsigned_drop_bit_eq)
       (simp add: take_bit_eq_mod drop_bit_eq_div)
qed

lemma getU32_holds:
  assumes "holds m at (bytes_of 4 (v :: u32))"
  shows "getU32 at m = v"
proof -
  have m: "\<forall>i < 4. m (at + i) = byte_at v i" using assms by (simp add: holds_bytes_of)
  have "m at = byte_at v 0" using m [rule_format, of 0] by simp
  moreover have "m (at + 1) = byte_at v 1" "m (at + 2) = byte_at v 2" "m (at + 3) = byte_at v 3"
    by (rule m [rule_format]; simp)+
  ultimately show ?thesis using bytes4_join [of v] by (simp add: getU32_def)
qed

lemma bytes8_join:
  "ucast (byte_at v 0) OR push_bit 8 (ucast (byte_at v 1)) OR push_bit 16 (ucast (byte_at v 2))
     OR push_bit 24 (ucast (byte_at v 3)) OR push_bit 32 (ucast (byte_at v 4))
     OR push_bit 40 (ucast (byte_at v 5)) OR push_bit 48 (ucast (byte_at v 6))
     OR push_bit 56 (ucast (byte_at v 7)) = (v :: u64)"
proof (rule bit_word_eqI)
  fix n assume "n < LENGTH(64)"
  define k where "k = n mod 8"
  have k: "k < 8" by (simp add: k_def)
  have "n div 8 < 8" using \<open>n < LENGTH(64)\<close> by simp
  then have "n div 8 \<in> {0, 1, 2, 3, 4, 5, 6, 7}" by force
  moreover have "n = 8 * (n div 8) + k" by (simp add: k_def)
  ultimately have "n = k \<or> n = 8 + k \<or> n = 16 + k \<or> n = 24 + k \<or> n = 32 + k \<or> n = 40 + k \<or>
      n = 48 + k \<or> n = 56 + k" by auto
  then show "bit (ucast (byte_at v 0) OR push_bit 8 (ucast (byte_at v 1)) OR push_bit 16 (ucast (byte_at v 2))
     OR push_bit 24 (ucast (byte_at v 3)) OR push_bit 32 (ucast (byte_at v 4))
     OR push_bit 40 (ucast (byte_at v 5)) OR push_bit 48 (ucast (byte_at v 6))
     OR push_bit 56 (ucast (byte_at v 7)) :: u64) n = bit v n"
    using k by (elim disjE) (simp_all add: bit_byte_at bit_simps)
qed

lemma getU64_holds:
  assumes "holds m at (bytes_of 8 (v :: u64))"
  shows "getU64 at m = v"
proof -
  have m: "\<forall>i < 8. m (at + i) = byte_at v i" using assms by (simp add: holds_bytes_of)
  have "m at = byte_at v 0" using m [rule_format, of 0] by simp
  moreover have "m (at + 1) = byte_at v 1" "m (at + 2) = byte_at v 2" "m (at + 3) = byte_at v 3"
    "m (at + 4) = byte_at v 4" "m (at + 5) = byte_at v 5" "m (at + 6) = byte_at v 6" "m (at + 7) = byte_at v 7"
    by (rule m [rule_format]; simp)+
  ultimately show ?thesis using bytes8_join [of v] by (simp add: getU64_def)
qed

lemma get16_holds:
  assumes "holds m at (bytes_of 2 (of_nat n :: u32))" "n < 65536"
  shows "get16 at m = n"
proof -
  have "m at = byte_at (of_nat n :: u32) 0" "m (at + 1) = byte_at (of_nat n :: u32) 1"
    using assms(1) by (auto simp: holds_bytes_of dest: spec [of _ 0] spec [of _ 1])
  moreover have "unat (byte_at (of_nat n :: u32) 0) = n mod 256" "unat (byte_at (of_nat n :: u32) 1) = n div 256"
    using assms(2) by (simp_all add: unat_byte_at unat_of_nat)
  ultimately show ?thesis by (simp add: get16_def)
qed

lemma text_at_holds: "holds m at (map byte_of_char s) \<Longrightarrow> text_at at (length s) m = s"
  by (rule nth_equalityI) (auto simp: text_at_def holds_def)


subsection \<open>What is written is what is read\<close>

text \<open>The value a field reads back as: a null has no type of its own, and only one field counts.\<close>

definition stored_value :: "Value \<Rightarrow> Value" where
  "stored_value v =
     (if isNull v then blank_value\<lparr>isNull := True, vtype := TYPE_TEXT\<rparr>
      else if intLike (vtype v) then blank_value\<lparr>vtype := vtype v, intValue := intValue v\<rparr>
      else if vtype v = TYPE_FLOAT then blank_value\<lparr>vtype := TYPE_FLOAT, floatValue := floatValue v\<rparr>
      else blank_value\<lparr>vtype := TYPE_TEXT, vtext := vtext v\<rparr>)"

definition stored_row :: "row \<Rightarrow> row" where
  "stored_row r = \<lparr>rvals = map stored_value (columns r) @ replicate (MAX_COLS - ncols r) blank_value,
     ncols = ncols r, deleted = False\<rparr>"

definition row_ok :: "row \<Rightarrow> bool" where
  "row_ok r \<longleftrightarrow> ncols r \<le> MAX_COLS \<and> length (rvals r) = MAX_COLS \<and>
     (\<forall>v \<in> set (columns r). length (vtext v) < 65536 \<and>
        (\<not> isNull v \<longrightarrow> vtype v \<in> {TYPE_INT, TYPE_TEXT, TYPE_FLOAT, TYPE_DATE}))"

lemma value_size_bytes: "length (value_bytes v) = value_size v"
  by (simp add: value_bytes_def value_size_def)

lemma record_size_bytes: "length (record_bytes r) = recordSize r"
  by (simp add: record_bytes_def recordSize_def length_concat value_size_bytes comp_def)

lemma type_of_type_byte: "t \<in> {TYPE_INT, TYPE_TEXT, TYPE_FLOAT, TYPE_DATE} \<Longrightarrow> type_of_byte (type_byte t) = t"
  by (auto simp: type_of_byte_def)

lemma read_value_holds:
  assumes "holds m n (value_bytes v)" "length (vtext v) < 65536"
    and "\<not> isNull v \<Longrightarrow> vtype v \<in> {TYPE_INT, TYPE_TEXT, TYPE_FLOAT, TYPE_DATE}"
  shows "read_value blank_value m n = (stored_value v, n + value_size v)"
proof (cases "isNull v")
  case True
  then show ?thesis using assms(1) by (simp add: value_bytes_def read_value_def stored_value_def value_size_def)
next
  case False
  then have t: "type_of_byte (m (n + 1)) = vtype v" "m n = 0"
    using assms type_of_type_byte by (auto simp: value_bytes_def)
  consider "intLike (vtype v)" | "vtype v = TYPE_FLOAT" | "vtype v = TYPE_TEXT"
    using assms(3) False by (auto simp: intLike_def)
  then show ?thesis
  proof cases
    case 1
    then have "getU32 (n + 2) m = intValue v"
      using assms(1) False getU32_holds [of m "n + 2" "intValue v"] by (simp add: value_bytes_def)
    then show ?thesis using 1 t False
      by (simp add: read_value_def stored_value_def value_size_def Let_def blank_value_def)
  next
    case 2
    then have "getU64 (n + 2) m = floatValue v"
      using assms(1) False getU64_holds [of m "n + 2" "floatValue v"] by (simp add: value_bytes_def intLike_def)
    then show ?thesis using 2 t False
      by (simp add: read_value_def stored_value_def value_size_def Let_def blank_value_def intLike_def)
  next
    case 3
    then have "holds m (n + 2) (bytes_of 2 (of_nat (length (vtext v)) :: u32))"
      "holds m (n + 4) (map byte_of_char (vtext v))"
      using assms(1) False by (simp_all add: value_bytes_def intLike_def eval_nat_numeral)
    then have "get16 (n + 2) m = length (vtext v)" "text_at (n + 4) (length (vtext v)) m = vtext v"
      using get16_holds assms(2) text_at_holds by blast+
    then show ?thesis using 3 t False
      by (simp add: read_value_def stored_value_def value_size_def Let_def blank_value_def intLike_def setText_def)
  qed
qed

lemma read_values_holds:
  assumes "holds m n (concat (map value_bytes vs))"
    and "\<forall>v \<in> set vs. length (vtext v) < 65536 \<and>
        (\<not> isNull v \<longrightarrow> vtype v \<in> {TYPE_INT, TYPE_TEXT, TYPE_FLOAT, TYPE_DATE})"
  shows "read_values (length vs) m n = map stored_value vs"
  using assms
proof (induction vs arbitrary: n)
  case (Cons v vs)
  then have "read_value blank_value m n = (stored_value v, n + value_size v)"
    by (intro read_value_holds) auto
  moreover have "read_values (length vs) m (n + value_size v) = map stored_value vs"
    using Cons by (simp add: value_size_bytes)
  ultimately show ?case by simp
qed simp

lemma readRecord_holds:
  assumes "row_ok r" "holds m at (record_bytes r)"
  shows "readRecord at m = stored_row r"
proof -
  have n: "ncols r \<le> MAX_COLS" "length (columns r) = ncols r" using assms(1) by (auto simp: row_ok_def columns_def)
  have "get16 at m = ncols r"
    using assms(2) n get16_holds [of m at "ncols r"] by (simp add: record_bytes_def MAX_COLS_def)
  moreover have "read_values (ncols r) m (at + 2) = map stored_value (columns r)"
    using read_values_holds [of m "at + 2" "columns r"] assms n by (simp add: record_bytes_def row_ok_def)
  ultimately show ?thesis using n by (simp add: readRecord_def stored_row_def Let_def min_def)
qed


text \<open>
  C14: a record reads back as the row that was written: every value of every column in use, with a
  null losing the type it was written with, whatever the page held before.
\<close>
theorem record_roundtrip: "row_ok r \<Longrightarrow> readRecord at (writeRecord at r m) = stored_row r"
  by (rule readRecord_holds) (simp_all add: writeRecord_def)

definition demo_row :: row where
  "demo_row = \<lparr>rvals = [setText blank_value ''ab'', setFloat 5, setNull TYPE_DATE] @ replicate (MAX_COLS - 3) blank_value,
     ncols = 3, deleted = False\<rparr>"

lemma demo_row_ok: "row_ok demo_row" "recordSize demo_row = 19"
  by (simp_all add: demo_row_def row_ok_def columns_def MAX_COLS_def setText_def setFloat_def setNull_def
      recordSize_def value_size_def intLike_def)

theorem record_roundtrip_witness: "readRecord 40 (writeRecord 40 demo_row (\<lambda>_. 255)) = stored_row demo_row"
  by (rule record_roundtrip [OF demo_row_ok(1)])

subsection \<open>Decoding in place\<close>

lemma stored_value_idem: "stored_value (stored_value v) = stored_value v"
  by (simp add: stored_value_def blank_value_def intLike_def)

lemma decode_read:
  "decode_value old m n = (v, k) \<Longrightarrow> read_value blank_value m n = (w, j) \<Longrightarrow> j = k \<and> stored_value v = stored_value w"
  by (auto simp: decode_value_def read_value_def Let_def setText_def stored_value_def blank_value_def intLike_def
      split: if_splits)

lemma decode_read_values:
  "k \<le> length olds \<Longrightarrow>
   map stored_value (take k (decode_values k olds m n)) = map stored_value (read_values k m n)"
proof (induction k olds m n rule: decode_values.induct)
  case (1 k old olds m n)
  obtain v i where v: "decode_value old m n = (v, i)" by force
  obtain w j where w: "read_value blank_value m n = (w, j)" by force
  show ?case using 1 v w decode_read [OF v w] by simp
qed auto

lemma read_values_take: "k \<le> n \<Longrightarrow> take k (read_values n m at) = read_values k m at"
proof (induction n arbitrary: k at)
  case (Suc n)
  then show ?case by (cases k) (auto split: prod.split)
qed simp

lemma decode_values_length: "length (decode_values k olds m n) = length olds"
  by (induction k olds m n rule: decode_values.induct) (auto split: prod.split)

lemma length_read_values [simp]: "length (read_values k m n) = k"
  by (induction k arbitrary: n) (auto split: prod.split)

text \<open>
  Decoding in place agrees with copying out. Every column \<open>decodeRecord\<close> was asked for carries
  the null flag and, when it has one, the type and the value \<open>readRecord\<close> gives; a stale value
  field of the row it decodes into is never one that the type selects.
\<close>
theorem decode_agrees:
  assumes "length (rvals out) = MAX_COLS" "int c \<le> wanted" "c < ncols (readRecord at m)" "c < MAX_COLS"
  shows "stored_value (rvals (decodeRecord at m out wanted) ! c) = stored_value (rvals (readRecord at m) ! c) \<and>
    ncols (decodeRecord at m out wanted) = ncols (readRecord at m)"
proof -
  let ?cols = "get16 at m"
  define w where "w = min wanted (min (int ?cols - 1) (int MAX_COLS - 1))"
  have w: "rvals (decodeRecord at m out wanted) = decode_values (nat (w + 1)) (rvals out) m (at + 2)"
    by (simp add: decodeRecord_def w_def min_def Let_def)
  have cols: "ncols (readRecord at m) = ?cols" by (simp add: readRecord_def Let_def)
  have r: "rvals (readRecord at m) ! c = read_values (min ?cols MAX_COLS) m (at + 2) ! c"
    using assms(3,4) cols by (simp add: readRecord_def Let_def nth_append)
  have k: "nat (w + 1) \<le> min ?cols MAX_COLS" "c < nat (w + 1)" "nat (w + 1) \<le> length (rvals out)"
    using assms cols by (auto simp: w_def)
  have "map stored_value (take (nat (w + 1)) (decode_values (nat (w + 1)) (rvals out) m (at + 2)))
      = map stored_value (read_values (nat (w + 1)) m (at + 2))"
    by (rule decode_read_values [OF k(3)])
  also have "read_values (nat (w + 1)) m (at + 2) = take (nat (w + 1)) (read_values (min ?cols MAX_COLS) m (at + 2))"
    using read_values_take [OF k(1)] by simp
  finally have "map stored_value (take (nat (w + 1)) (decode_values (nat (w + 1)) (rvals out) m (at + 2))) ! c
      = map stored_value (take (nat (w + 1)) (read_values (min ?cols MAX_COLS) m (at + 2))) ! c" by simp
  then show ?thesis
    using k w r cols decode_values_length [of "nat (w + 1)" "rvals out" m "at + 2"]
    by (simp add: decodeRecord_def Let_def)
qed

theorem decode_agrees_witness:
  "let m = writeRecord 40 demo_row (\<lambda>_. 255) in
   stored_value (rvals (decodeRecord 40 m demo_row 1) ! 1) = stored_value (rvals (readRecord 40 m) ! 1) \<and>
   ncols (decodeRecord 40 m demo_row 1) = ncols (readRecord 40 m)"
proof -
  let ?m = "writeRecord 40 demo_row (\<lambda>_. 255)"
  have "readRecord 40 ?m = stored_row demo_row" using demo_row_ok(1) by (intro readRecord_holds) (simp_all add: writeRecord_def)
  then have "1 < ncols (readRecord 40 ?m)" by (simp add: stored_row_def demo_row_def)
  then show ?thesis
    unfolding Let_def by (intro decode_agrees) (simp_all add: demo_row_def MAX_COLS_def)
qed

end
