(* ===== verification/Pool.thy ===== *)
theory Pool
  imports Wal
begin

text \<open>
  The buffer pool, \<^verbatim>\<open>14_pool.c\<close>: the frames and the directory that finds a page's frame, the CLOCK
  sweep that chooses a victim, pinning, allocating and freeing pages, and the three operations the
  log takes part in: commit, checkpoint and rollback. Memory is an environment that serves a
  bounded number of frames, directory entries and free-list entries, so running out of it is a
  branch of the model.
\<close>

subsection \<open>State\<close>

definition INITIAL_FRAMES :: nat where "INITIAL_FRAMES = 64"

record pframe =
  pf_id :: "nat option"
  pf_pins :: nat
  pf_dirty :: bool
  pf_logged :: bool
  pf_referenced :: bool
  pf_page :: page

record pool =
  frames :: "pframe list"
  hand :: nat
  pageFrame :: "nat option list"
  pageFile :: "fhandle option"
  writable :: bool
  catalogRootPage :: int
  pageCount :: nat
  freeIds :: "nat list"
  freeCapacity :: nat
  hits :: nat
  misses :: nat
  evictions :: nat
  checksums :: bool
  corrupt :: nat
  plog :: wal
  frameLimit :: nat
  directoryLimit :: nat
  freeLimit :: nat

definition blank_frame :: pframe where
  "blank_frame = \<lparr>pf_id = None, pf_pins = 0, pf_dirty = False, pf_logged = False,
     pf_referenced = False, pf_page = (\<lambda>_. 0)\<rparr>"

definition release_frame :: "pframe \<Rightarrow> pframe" where
  "release_frame f = f\<lparr>pf_id := None, pf_pins := 0, pf_dirty := False, pf_logged := False,
     pf_referenced := False\<rparr>"

definition update_frame :: "nat \<Rightarrow> (pframe \<Rightarrow> pframe) \<Rightarrow> pool \<Rightarrow> pool" where
  "update_frame i g p = p\<lparr>frames := (frames p)[i := g (frames p ! i)]\<rparr>"

definition set_directory :: "nat \<Rightarrow> nat option \<Rightarrow> pool \<Rightarrow> pool" where
  "set_directory pid v p = p\<lparr>pageFrame := (pageFrame p)[pid := v]\<rparr>"

subsection \<open>Checksums\<close>

definition poolSetChecksums :: "bool \<Rightarrow> pool \<Rightarrow> pool" where
  "poolSetChecksums on p = p\<lparr>checksums := on\<rparr>"

definition pageChecksum :: "page \<Rightarrow> u32" where
  "pageChecksum page =
     (let h = fnv 2166136261 (get_bytes 0 PAGE_USABLE page) in if h \<noteq> 0 then h else 1)"

definition poolStampPage :: "page \<Rightarrow> page" where
  "poolStampPage page = putU32 PAGE_USABLE (pageChecksum page) page"

definition storedChecksum :: "page \<Rightarrow> u32" where
  "storedChecksum page = getU32 PAGE_USABLE page"

definition pageOffset :: "nat \<Rightarrow> nat" where
  "pageOffset pid = PAGE_SIZE * (pid + 1)"

subsection \<open>Lifecycle\<close>

definition growFrames :: "pool \<Rightarrow> (error + unit) \<times> pool" where
  "growFrames p =
     (let count = length (frames p);
          grown = (if count \<noteq> 0 then count * 2 else INITIAL_FRAMES);
          served = min grown (frameLimit p)
      in if served \<le> count then (Inl ERROR_EXEC_OUT_OF_MEMORY, p)
         else (Inr (), p\<lparr>frames := frames p @ replicate (served - count) blank_frame\<rparr>))"

function double_to :: "nat \<Rightarrow> nat \<Rightarrow> nat" where
  "double_to wanted grown =
     (if grown < wanted \<and> 0 < grown then double_to wanted (grown * 2) else grown)"
  by pat_completeness auto
termination
  by (relation "measure (\<lambda>(wanted, grown). wanted - grown)") auto

declare double_to.simps [simp del]

definition growDirectory :: "nat \<Rightarrow> pool \<Rightarrow> (error + unit) \<times> pool" where
  "growDirectory pages p =
     (let size = length (pageFrame p)
      in if pages \<le> size then (Inr (), p)
         else let grown = double_to pages (if size \<noteq> 0 then size else 256)
              in if grown > directoryLimit p then (Inl ERROR_EXEC_OUT_OF_MEMORY, p)
                 else (Inr (), p\<lparr>pageFrame := pageFrame p @ replicate (grown - size) None\<rparr>))"

definition poolInit :: "wal \<Rightarrow> nat \<Rightarrow> nat \<Rightarrow> nat \<Rightarrow> pool" where
  "poolInit w flimit dlimit idlimit =
     \<lparr>frames = [], hand = 0, pageFrame = [], pageFile = None, writable = False,
      catalogRootPage = -1, pageCount = 0, freeIds = [], freeCapacity = 0, hits = 0, misses = 0,
      evictions = 0, checksums = False, corrupt = 0, plog = w, frameLimit = flimit,
      directoryLimit = dlimit, freeLimit = idlimit\<rparr>"

definition poolClear :: "pool \<Rightarrow> pool" where
  "poolClear p = poolInit (plog p) (frameLimit p) (directoryLimit p) (freeLimit p)"

definition poolAdopt :: "fhandle \<Rightarrow> nat \<Rightarrow> pool \<Rightarrow> pool" where
  "poolAdopt f pages p =
     snd (growDirectory pages (p\<lparr>pageFile := Some f, pageCount := pages, writable := False\<rparr>))"

definition poolDetachFile :: "pool \<Rightarrow> pool" where
  "poolDetachFile p = p\<lparr>pageFile := None\<rparr>"

definition poolSetCatalogRoot :: "int \<Rightarrow> pool \<Rightarrow> pool" where
  "poolSetCatalogRoot page p = p\<lparr>catalogRootPage := page\<rparr>"

definition header_fields :: "nat \<Rightarrow> int \<Rightarrow> memory" where
  "header_fields pages root = putU32 4 (of_int root) (putU32 0 (of_nat pages) (\<lambda>_. 0))"

definition poolWriteHeader :: "pool \<Rightarrow> (error + unit) \<times> pool" where
  "poolWriteHeader p =
     (case pageFile p of None \<Rightarrow> (Inr (), p)
      | Some f \<Rightarrow>
          if \<not> writable p then (Inr (), p)
          else let (ok, f) = fseek_set 12 f
               in if \<not> ok then (Inl ERROR_IO_WRITE, p\<lparr>pageFile := Some f\<rparr>)
                  else let (ok, f) = fwrite (header_fields (pageCount p) (catalogRootPage p)) 8 f
                       in (if ok then Inr () else Inl ERROR_IO_WRITE, p\<lparr>pageFile := Some f\<rparr>))"

definition poolCorruptCount :: "pool \<Rightarrow> nat" where
  "poolCorruptCount p = corrupt p"

definition poolHasDirty :: "pool \<Rightarrow> bool" where
  "poolHasDirty p \<longleftrightarrow> (\<exists>f \<in> set (frames p). pf_id f \<noteq> None \<and> pf_dirty f)"

text \<open>The loop over the frames from \<open>i\<close> on, dropping each dirty page and its directory entry.\<close>

primrec drop_dirty :: "nat \<Rightarrow> pframe list \<Rightarrow> pool \<Rightarrow> pool" where
  "drop_dirty i [] p = p"
| "drop_dirty i (f # fs) p =
     (case pf_id f of None \<Rightarrow> drop_dirty (i + 1) fs p
      | Some pid \<Rightarrow>
          if \<not> pf_dirty f then drop_dirty (i + 1) fs p
          else drop_dirty (i + 1) fs (set_directory pid None (update_frame i release_frame p)))"

definition poolRollback :: "int \<Rightarrow> pool \<Rightarrow> pool" where
  "poolRollback pages p =
     (let p = drop_dirty 0 (frames p) p
      in if pages \<ge> 0 \<and> pages < int (pageCount p) then p\<lparr>pageCount := nat pages\<rparr> else p)"

definition poolMarkAllClean :: "pool \<Rightarrow> pool" where
  "poolMarkAllClean p =
     p\<lparr>frames := map (\<lambda>f. f\<lparr>pf_dirty := False, pf_logged := False\<rparr>) (frames p)\<rparr>"

definition poolSetWritable :: "fhandle option \<Rightarrow> nat \<Rightarrow> pool \<Rightarrow> pool" where
  "poolSetWritable f pages p =
     snd (growDirectory pages (p\<lparr>pageFile := f, pageCount := pages, writable := f \<noteq> None\<rparr>))"

definition flushFrame :: "nat \<Rightarrow> pool \<Rightarrow> (error + unit) \<times> pool" where
  "flushFrame i p =
     (case (pageFile p, pf_id (frames p ! i)) of
        (Some f, Some pid) \<Rightarrow>
          if \<not> writable p then (Inl ERROR_IO_WRITE, p)
          else let (ok, f) = fseek_set (pageOffset pid) f
               in if \<not> ok then (Inl ERROR_IO_WRITE, p\<lparr>pageFile := Some f\<rparr>)
                  else let p = update_frame i (\<lambda>fr. fr\<lparr>pf_page := poolStampPage (pf_page fr)\<rparr>) p;
                           (ok, f) = fwrite (pf_page (frames p ! i)) PAGE_SIZE f;
                           p = p\<lparr>pageFile := Some f\<rparr>
                       in if \<not> ok then (Inl ERROR_IO_WRITE, p)
                          else (Inr (), update_frame i (\<lambda>fr. fr\<lparr>pf_dirty := False, pf_logged := False\<rparr>) p)
      | _ \<Rightarrow> (Inl ERROR_IO_WRITE, p))"

subsection \<open>Finding a frame\<close>

definition findFrame :: "int \<Rightarrow> pool \<Rightarrow> nat option" where
  "findFrame pid p =
     (if pid < 0 \<or> pid \<ge> int (length (pageFrame p)) then None else pageFrame p ! nat pid)"

text \<open>\<open>acquireFrame\<close>'s two sweeps: at most \<open>n\<close> more steps of the hand.\<close>

primrec sweep :: "nat \<Rightarrow> pool \<Rightarrow> nat option \<times> pool" where
  "sweep 0 p = (None, p)"
| "sweep (Suc n) p =
     (let i = hand p;
          p = p\<lparr>hand := (i + 1) mod length (frames p)\<rparr>;
          f = frames p ! i
      in case pf_id f of None \<Rightarrow> (Some i, p)
         | Some pid \<Rightarrow>
             if pf_pins f > 0 then sweep n p
             else if pf_dirty f \<and> \<not> (writable p \<and> pf_logged f) then sweep n p
             else if pf_referenced f
                  then sweep n (update_frame i (\<lambda>fr. fr\<lparr>pf_referenced := False\<rparr>) p)
             else if pf_dirty f
                  then (case flushFrame i p of
                          (Inl e, p) \<Rightarrow> sweep n p
                        | (Inr _, p) \<Rightarrow>
                            (Some i, (set_directory pid None p)\<lparr>evictions := evictions p + 1\<rparr>))
             else (Some i, (set_directory pid None p)\<lparr>evictions := evictions p + 1\<rparr>))"

definition acquireFrame :: "pool \<Rightarrow> nat option \<times> pool" where
  "acquireFrame p =
     (case sweep (length (frames p) * 2) p of
        (Some i, p) \<Rightarrow> (Some i, p)
      | (None, p) \<Rightarrow>
          (let previous = length (frames p)
           in case growFrames p of
                (Inl e, p) \<Rightarrow> (None, p)
              | (Inr _, p) \<Rightarrow> (Some previous, p\<lparr>hand := 0\<rparr>)))"

subsection \<open>Pinning\<close>

text \<open>
  \<open>pinLocked\<close>: the frame that holds the page, pinned, or nothing. A page that fails its checksum is
  counted and refused.
\<close>

definition pinLocked :: "int \<Rightarrow> pool \<Rightarrow> nat option \<times> pool" where
  "pinLocked pageId p =
     (if pageId < 0 \<or> pageId \<ge> int (pageCount p) then (None, p)
      else case findFrame pageId p of
             Some i \<Rightarrow>
               (Some i, update_frame i (\<lambda>fr. fr\<lparr>pf_referenced := True, pf_pins := pf_pins fr + 1\<rparr>)
                          (p\<lparr>hits := hits p + 1\<rparr>))
           | None \<Rightarrow>
               (case acquireFrame (p\<lparr>misses := misses p + 1\<rparr>) of
                  (None, p) \<Rightarrow> (None, p)
                | (Some i, p) \<Rightarrow>
                    let p = update_frame i (\<lambda>fr. fr\<lparr>pf_id := None\<rparr>) p
                    in case pageFile p of
                         None \<Rightarrow> (None, p)
                       | Some f \<Rightarrow>
                           let (ok, f) = fseek_set (pageOffset (nat pageId)) f
                           in if \<not> ok then (None, p\<lparr>pageFile := Some f\<rparr>)
                              else let (r, f) = fread PAGE_SIZE f; p = p\<lparr>pageFile := Some f\<rparr>
                                   in case r of
                                        None \<Rightarrow> (None, p)
                                      | Some m \<Rightarrow>
                                          let p = update_frame i (\<lambda>fr. fr\<lparr>pf_page := m\<rparr>) p
                                          in if checksums p \<and> storedChecksum m \<noteq> 0
                                                \<and> storedChecksum m \<noteq> pageChecksum m
                                             then (None, p\<lparr>corrupt := corrupt p + 1\<rparr>)
                                             else (Some i,
                                               set_directory (nat pageId) (Some i)
                                                 (update_frame i (\<lambda>fr. fr\<lparr>pf_id := Some (nat pageId),
                                                    pf_dirty := False, pf_logged := False, pf_pins := 1,
                                                    pf_referenced := False\<rparr>) p))))"

definition unpinLocked :: "int \<Rightarrow> bool \<Rightarrow> pool \<Rightarrow> pool" where
  "unpinLocked pageId dirty p =
     (case findFrame pageId p of None \<Rightarrow> p
      | Some i \<Rightarrow> update_frame i (\<lambda>fr.
          let fr = fr\<lparr>pf_pins := pf_pins fr - 1\<rparr>
          in if dirty then fr\<lparr>pf_dirty := True, pf_logged := False\<rparr> else fr) p)"

text \<open>
  What a caller does through the pointer it holds: the bytes of a pinned page, and a write to
  them.
\<close>

definition frame_page :: "nat \<Rightarrow> pool \<Rightarrow> page" where
  "frame_page i p = pf_page (frames p ! i)"

definition write_page :: "nat \<Rightarrow> (page \<Rightarrow> page) \<Rightarrow> pool \<Rightarrow> pool" where
  "write_page i g p = update_frame i (\<lambda>fr. fr\<lparr>pf_page := g (pf_page fr)\<rparr>) p"

subsection \<open>Allocation\<close>

definition allocateLocked :: "pool \<Rightarrow> (error + nat) \<times> pool" where
  "allocateLocked p =
     (case acquireFrame p of
        (None, p) \<Rightarrow> (Inl ERROR_EXEC_OUT_OF_MEMORY, p)
      | (Some i, p) \<Rightarrow>
          let (pid, p) = (case freeIds p of
                            pid # rest \<Rightarrow> (pid, p\<lparr>freeIds := rest\<rparr>)
                          | [] \<Rightarrow> (pageCount p, p\<lparr>pageCount := pageCount p + 1\<rparr>))
          in andThen (growDirectory (pid + 1) p) (\<lambda>_ p.
               (Inr pid, set_directory pid (Some i)
                  (update_frame i (\<lambda>fr. \<lparr>pf_id = Some pid, pf_pins = 0, pf_dirty = True,
                     pf_logged = False, pf_referenced = True, pf_page = (\<lambda>_. 0)\<rparr>) p))))"

text \<open>The free list is a stack, its top first.\<close>

definition freeLocked :: "nat \<Rightarrow> pool \<Rightarrow> pool" where
  "freeLocked pid p =
     (let p = (case findFrame (int pid) p of None \<Rightarrow> p
               | Some i \<Rightarrow> set_directory pid None (update_frame i release_frame p))
      in if length (freeIds p) = freeCapacity p
         then let grown = (if freeCapacity p \<noteq> 0 then freeCapacity p * 2 else 16)
              in if grown > freeLimit p then p
                 else p\<lparr>freeCapacity := grown, freeIds := pid # freeIds p\<rparr>
         else p\<lparr>freeIds := pid # freeIds p\<rparr>)"

text \<open>The entry points take the pool's mutex around these, see \<open>Locks\<close>.\<close>

definition poolPin :: "int \<Rightarrow> pool \<Rightarrow> nat option \<times> pool" where "poolPin = pinLocked"
definition poolUnpin :: "int \<Rightarrow> bool \<Rightarrow> pool \<Rightarrow> pool" where "poolUnpin = unpinLocked"
definition poolAllocate :: "pool \<Rightarrow> (error + nat) \<times> pool" where "poolAllocate = allocateLocked"
definition poolFree :: "nat \<Rightarrow> pool \<Rightarrow> pool" where "poolFree = freeLocked"

subsection \<open>Saving, commit, checkpoint\<close>

primrec write_all :: "nat list \<Rightarrow> fhandle \<Rightarrow> pool \<Rightarrow> (error + unit) \<times> fhandle \<times> pool" where
  "write_all [] f p = (Inr (), f, p)"
| "write_all (pid # pids) f p =
     (case pinLocked (int pid) p of
        (None, p) \<Rightarrow>
          let (ok, f) = fwrite (\<lambda>_. 0) PAGE_SIZE f
          in if ok then write_all pids f p else (Inl ERROR_IO_WRITE, f, p)
      | (Some i, p) \<Rightarrow>
          let p = write_page i poolStampPage p;
              (ok, f) = fwrite (frame_page i p) PAGE_SIZE f;
              p = unpinLocked (int pid) False p
          in if ok then write_all pids f p else (Inl ERROR_IO_WRITE, f, p))"

definition poolWriteAll :: "fhandle \<Rightarrow> pool \<Rightarrow> (error + unit) \<times> fhandle \<times> pool" where
  "poolWriteAll f p = write_all [0..<pageCount p] f p"

definition unlogged :: "pframe \<Rightarrow> bool" where
  "unlogged f \<longleftrightarrow> pf_id f \<noteq> None \<and> pf_dirty f \<and> \<not> pf_logged f"

text \<open>The last of the frames to log, which carries the commit marker.\<close>

definition last_unlogged :: "pool \<Rightarrow> nat option" where
  "last_unlogged p =
     (case filter (\<lambda>i. unlogged (frames p ! i)) (rev [0..<length (frames p)]) of
        [] \<Rightarrow> None | i # _ \<Rightarrow> Some i)"

primrec log_frames :: "nat \<Rightarrow> nat list \<Rightarrow> pool \<Rightarrow> (error + unit) \<times> pool" where
  "log_frames lst [] p = (Inr (), p)"
| "log_frames lst (i # is) p =
     (if \<not> unlogged (frames p ! i) then log_frames lst is p
      else let p = write_page i poolStampPage p;
               (r, w) = walAppend (of_nat (the (pf_id (frames p ! i)))) (frame_page i p)
                          (if i = lst then 1 else 0) (of_nat (pageCount p))
                          (of_int (catalogRootPage p)) (plog p);
               p = p\<lparr>plog := w\<rparr>
           in case r of Inl e \<Rightarrow> (Inl e, p) | Inr _ \<Rightarrow> log_frames lst is p)"

definition mark_logged :: "pframe \<Rightarrow> pframe" where
  "mark_logged f = (if pf_id f \<noteq> None \<and> pf_dirty f then f\<lparr>pf_logged := True\<rparr> else f)"

definition poolCommit :: "pool \<Rightarrow> (error + unit) \<times> pool" where
  "poolCommit p =
     (if \<not> walIsOpen (plog p) then (Inr (), p)
      else case last_unlogged p of
             None \<Rightarrow> (Inr (), p)
           | Some lst \<Rightarrow>
               andThen (log_frames lst [0..<length (frames p)] p) (\<lambda>_ p.
                 let (r, w) = walSync (plog p); p = p\<lparr>plog := w\<rparr>
                 in case r of Inl e \<Rightarrow> (Inl e, p)
                    | Inr _ \<Rightarrow> (Inr (), p\<lparr>frames := map mark_logged (frames p)\<rparr>)))"

primrec flush_dirty :: "nat list \<Rightarrow> pool \<Rightarrow> (error + unit) \<times> pool" where
  "flush_dirty [] p = (Inr (), p)"
| "flush_dirty (i # is) p =
     (if pf_id (frames p ! i) = None \<or> \<not> pf_dirty (frames p ! i) then flush_dirty is p
      else andThen (flushFrame i p) (\<lambda>_ p. flush_dirty is p))"

definition poolCheckpoint :: "pool \<Rightarrow> (error + unit) \<times> pool" where
  "poolCheckpoint p =
     (if \<not> writable p \<or> pageFile p = None then (Inr (), p)
      else andThen (flush_dirty [0..<length (frames p)] p) (\<lambda>_ p.
             case poolWriteHeader p of
               (Inl e, p) \<Rightarrow> (Inl ERROR_IO_WRITE, p)
             | (Inr _, p) \<Rightarrow>
                 let (r, f) = walSyncHandle (pageFile p); p = p\<lparr>pageFile := f\<rparr>
                 in case r of Inl e \<Rightarrow> (Inl ERROR_IO_WRITE, p)
                    | Inr _ \<Rightarrow> let (r, w) = walTruncate (plog p) in (r, p\<lparr>plog := w\<rparr>)))"

end
