(* ===== verification/PoolCache.thy ===== *)
theory PoolCache
  imports Pool
begin

text \<open>
  The buffer pool as a cache. \<open>pool_view\<close> is what the pool promises its callers: the content of
  every page, whether it is resident or only in the file. The invariant \<open>pool_ok\<close> ties the
  directory to the frames and every clean frame to the file; the lemmas show that pinning,
  evicting, writing back and freeing keep both, and that a pinned frame is never taken away.
\<close>

subsection \<open>The content of a page\<close>

text \<open>The bytes that are the callers' to use, everything but the trailer.\<close>

definition usable :: "page \<Rightarrow> page" where
  "usable m i = (if i < PAGE_USABLE then m i else 0)"

definition sound_image :: "bool \<Rightarrow> page \<Rightarrow> bool" where
  "sound_image on m \<longleftrightarrow> \<not> (on \<and> storedChecksum m \<noteq> 0 \<and> storedChecksum m \<noteq> pageChecksum m)"

definition file_image :: "fhandle \<Rightarrow> nat \<Rightarrow> page" where
  "file_image f pid = (\<lambda>i. fbytes f (pageOffset pid + i))"

definition file_view :: "pool \<Rightarrow> nat \<Rightarrow> page option" where
  "file_view p pid =
     (case pageFile p of None \<Rightarrow> None
      | Some f \<Rightarrow> if pageOffset pid + PAGE_SIZE \<le> fsize f \<and> sound_image (checksums p) (file_image f pid)
                 then Some (usable (file_image f pid)) else None)"

definition resident :: "pool \<Rightarrow> nat \<Rightarrow> nat option" where
  "resident p pid = (if pid < length (pageFrame p) then pageFrame p ! pid else None)"

definition pool_view :: "pool \<Rightarrow> nat \<Rightarrow> page option" where
  "pool_view p pid =
     (case resident p pid of Some i \<Rightarrow> Some (usable (pf_page (frames p ! i)))
      | None \<Rightarrow> file_view p pid)"

lemma resident_findFrame [simp]: "findFrame (int pid) p = resident p pid"
  by (auto simp: findFrame_def resident_def)

lemma usable_eqI: "(\<And>i. i < PAGE_USABLE \<Longrightarrow> m i = m' i) \<Longrightarrow> usable m = usable m'"
  by (auto simp: usable_def fun_eq_iff)

lemma pageChecksum_cong: "(\<And>i. i < PAGE_USABLE \<Longrightarrow> m i = m' i) \<Longrightarrow> pageChecksum m = pageChecksum m'"
  unfolding pageChecksum_def by (subst get_bytes_cong [of 0 PAGE_USABLE m m']) auto

lemma sound_image_cong:
  assumes "\<And>i. i < PAGE_SIZE \<Longrightarrow> m i = m' i"
  shows "sound_image on m = sound_image on m'"
proof -
  have "storedChecksum m = storedChecksum m'"
    unfolding storedChecksum_def by (rule getU32_cong) (simp add: assms PAGE_SIZE_def)
  moreover have "pageChecksum m = pageChecksum m'"
    by (rule pageChecksum_cong) (simp add: assms PAGE_SIZE_def)
  ultimately show ?thesis by (simp add: sound_image_def)
qed

lemma usable_stamp [simp]: "usable (poolStampPage m) = usable m"
  by (rule usable_eqI) (simp add: poolStampPage_def putU32_out)

lemma stored_stamp [simp]: "storedChecksum (poolStampPage m) = pageChecksum m"
  by (simp add: storedChecksum_def poolStampPage_def getU32_putU32)

lemma checksum_stamp [simp]: "pageChecksum (poolStampPage m) = pageChecksum m"
  by (rule pageChecksum_cong) (simp add: poolStampPage_def putU32_out)

lemma sound_stamp [simp]: "sound_image on (poolStampPage m)"
  by (simp add: sound_image_def)

lemma pageOffset_apart:
  "pid \<noteq> pid' \<Longrightarrow> pageOffset pid + PAGE_SIZE \<le> pageOffset pid' \<or> pageOffset pid' + PAGE_SIZE \<le> pageOffset pid"
  by (auto simp: pageOffset_def PAGE_SIZE_def)

subsection \<open>The invariant\<close>

definition directory_ok :: "pool \<Rightarrow> bool" where
  "directory_ok p \<longleftrightarrow>
     (\<forall>pid i. resident p pid = Some i \<longrightarrow> i < length (frames p) \<and> pf_id (frames p ! i) = Some pid) \<and>
     (\<forall>i pid. i < length (frames p) \<longrightarrow> pf_id (frames p ! i) = Some pid \<longrightarrow> resident p pid = Some i)"

text \<open>A clean frame holds what the file holds, unless a caller has written to it under its pin.\<close>

definition clean_ok :: "nat set \<Rightarrow> pool \<Rightarrow> bool" where
  "clean_ok W p \<longleftrightarrow>
     (\<forall>i pid. i < length (frames p) \<longrightarrow> pf_id (frames p ! i) = Some pid \<longrightarrow>
        \<not> pf_dirty (frames p ! i) \<longrightarrow> i \<notin> W \<longrightarrow>
        file_view p pid = Some (usable (pf_page (frames p ! i))))"

definition held :: "pool \<Rightarrow> nat \<Rightarrow> bool" where
  "held p i \<longleftrightarrow> i < length (frames p) \<and> pf_pins (frames p ! i) > 0 \<and> pf_id (frames p ! i) \<noteq> None"

definition pool_ok :: "nat set \<Rightarrow> pool \<Rightarrow> bool" where
  "pool_ok W p \<longleftrightarrow> directory_ok p \<and> clean_ok W p \<and> (\<forall>i \<in> W. held p i) \<and>
     hand p < max 1 (length (frames p)) \<and> pageCount p \<le> length (pageFrame p)"

text \<open>What a step leaves alone: the content of every page, and every frame a caller holds.\<close>

definition calm :: "pool \<Rightarrow> pool \<Rightarrow> bool" where
  "calm p p' \<longleftrightarrow> pool_view p \<subseteq>\<^sub>m pool_view p' \<and>
     (\<forall>i. held p i \<longrightarrow> held p' i \<and> pf_id (frames p' ! i) = pf_id (frames p ! i) \<and>
          usable (pf_page (frames p' ! i)) = usable (pf_page (frames p ! i)))"

lemma calm_refl [simp]: "calm p p"
  by (simp add: calm_def)

lemma calm_trans: "calm p q \<Longrightarrow> calm q r \<Longrightarrow> calm p r"
  by (auto simp: calm_def intro: map_le_trans)

lemma update_frame_sel [simp]:
  "frames (update_frame i g p) = (frames p)[i := g (frames p ! i)]"
  "hand (update_frame i g p) = hand p" "pageFrame (update_frame i g p) = pageFrame p"
  "pageFile (update_frame i g p) = pageFile p" "writable (update_frame i g p) = writable p"
  "pageCount (update_frame i g p) = pageCount p" "freeIds (update_frame i g p) = freeIds p"
  "checksums (update_frame i g p) = checksums p" "plog (update_frame i g p) = plog p"
  "catalogRootPage (update_frame i g p) = catalogRootPage p"
  "directoryLimit (update_frame i g p) = directoryLimit p"
  by (simp_all add: update_frame_def)

lemma set_directory_sel [simp]:
  "pageFrame (set_directory pid v p) = (pageFrame p)[pid := v]"
  "frames (set_directory pid v p) = frames p" "hand (set_directory pid v p) = hand p"
  "pageFile (set_directory pid v p) = pageFile p" "writable (set_directory pid v p) = writable p"
  "pageCount (set_directory pid v p) = pageCount p" "freeIds (set_directory pid v p) = freeIds p"
  "checksums (set_directory pid v p) = checksums p" "plog (set_directory pid v p) = plog p"
  "catalogRootPage (set_directory pid v p) = catalogRootPage p"
  "directoryLimit (set_directory pid v p) = directoryLimit p"
  by (simp_all add: set_directory_def)

lemma file_view_cong:
  "pageFile p = pageFile q \<Longrightarrow> checksums p = checksums q \<Longrightarrow> file_view p = file_view q"
  by (rule ext) (simp add: file_view_def split: option.split)

lemma resident_cong: "pageFrame p = pageFrame q \<Longrightarrow> resident p = resident q"
  by (simp add: resident_def fun_eq_iff)

lemma file_view_update [simp]: "file_view (update_frame i g p) = file_view p"
  "file_view (set_directory pid v p) = file_view p"
  by (rule file_view_cong; simp)+

lemma resident_update [simp]: "resident (update_frame i g p) = resident p"
  by (rule resident_cong) simp

lemma resident_set_directory:
  "resident (set_directory pid v p) x = (if x = pid \<and> pid < length (pageFrame p) then v else resident p x)"
  by (simp add: resident_def)


lemma pool_ok_frame:
  "pool_ok W p \<Longrightarrow> resident p pid = Some i \<Longrightarrow> i < length (frames p) \<and> pf_id (frames p ! i) = Some pid"
  "pool_ok W p \<Longrightarrow> i < length (frames p) \<Longrightarrow> pf_id (frames p ! i) = Some pid \<Longrightarrow> resident p pid = Some i"
  unfolding pool_ok_def directory_ok_def by blast+

text \<open>
  The steps that change no assignment of frames to pages: they may pin, mark, stamp, or write a
  frame back.
\<close>

lemma settle:
  assumes ok: "pool_ok W p" and len: "length (frames p') = length (frames p)"
    and dir: "pageFrame p' = pageFrame p" "pageCount p' = pageCount p"
    and hand: "hand p' < max 1 (length (frames p))"
    and mono: "\<And>pid v. file_view p pid = Some v \<Longrightarrow>
          (\<And>i. i < length (frames p) \<Longrightarrow> pf_id (frames p ! i) = Some pid \<Longrightarrow> \<not> pf_dirty (frames p ! i)) \<Longrightarrow>
          file_view p' pid = Some v"
    and ids: "\<And>i. i < length (frames p) \<Longrightarrow> pf_id (frames p' ! i) = pf_id (frames p ! i)"
    and pins: "\<And>i. i < length (frames p) \<Longrightarrow> pf_pins (frames p ! i) \<le> pf_pins (frames p' ! i)"
    and pages: "\<And>i pid. i < length (frames p) \<Longrightarrow> pf_id (frames p ! i) = Some pid \<Longrightarrow>
          usable (pf_page (frames p' ! i)) = usable (pf_page (frames p ! i))"
    and dirty: "\<And>i pid. i < length (frames p) \<Longrightarrow> pf_id (frames p ! i) = Some pid \<Longrightarrow>
          pf_dirty (frames p ! i) \<Longrightarrow> \<not> pf_dirty (frames p' ! i) \<Longrightarrow>
          file_view p' pid = Some (usable (pf_page (frames p ! i)))"
  shows "pool_ok W p' \<and> calm p p'"
proof -
  have res: "resident p' = resident p" using dir(1) by (rule resident_cong)
  have "directory_ok p'"
    using ok ids len res unfolding pool_ok_def directory_ok_def by metis
  moreover have "clean_ok W p'"
    unfolding clean_ok_def
  proof (intro allI impI)
    fix i pid
    assume i: "i < length (frames p')" "pf_id (frames p' ! i) = Some pid"
      "\<not> pf_dirty (frames p' ! i)" "i \<notin> W"
    show "file_view p' pid = Some (usable (pf_page (frames p' ! i)))"
    proof (cases "pf_dirty (frames p ! i)")
      case True
      then show ?thesis using dirty pages i ids len by metis
    next
      case False
      have home: "i < length (frames p)" "pf_id (frames p ! i) = Some pid" using i ids len by auto
      then have "file_view p pid = Some (usable (pf_page (frames p ! i)))"
        using ok False i unfolding pool_ok_def clean_ok_def by metis
      moreover have "\<not> pf_dirty (frames p ! j)" if "j < length (frames p)" "pf_id (frames p ! j) = Some pid" for j
              proof -
        have "resident p pid = Some i" "resident p pid = Some j"
          using ok home that unfolding pool_ok_def directory_ok_def by blast+
        then show ?thesis using False by simp
      qed
      ultimately show ?thesis using mono pages home by simp
    qed
  qed
  moreover have held: "held p' i" if "held p i" for i
    using that ids pins len unfolding held_def by (metis gr0I le_zero_eq)
  moreover have "calm p p'"
    unfolding calm_def
  proof (intro conjI allI impI)
    show "pool_view p \<subseteq>\<^sub>m pool_view p'"
      unfolding map_le_def
    proof
      fix pid assume pid: "pid \<in> dom (pool_view p)"
      show "pool_view p pid = pool_view p' pid"
      proof (cases "resident p pid")
        case None
        then have "pf_id (frames p ! i) \<noteq> Some pid" if "i < length (frames p)" for i
          using pool_ok_frame(2) [OF ok that] None by fastforce
        moreover obtain v where "file_view p pid = Some v" using pid None by (auto simp: pool_view_def)
        ultimately have "file_view p' pid = Some v" using mono by blast
        then show ?thesis using None res \<open>file_view p pid = Some v\<close> by (simp add: pool_view_def)
      next
        case (Some i)
        then show ?thesis using pages pool_ok_frame(1) [OF ok Some] res by (simp add: pool_view_def)
      qed
    qed
  qed (use held ids pages in \<open>auto simp: held_def\<close>)
  ultimately show ?thesis using ok hand dir len unfolding pool_ok_def by simp
qed

lemma pool_ok_clean:
  "pool_ok W p \<Longrightarrow> i < length (frames p) \<Longrightarrow> pf_id (frames p ! i) = Some pid \<Longrightarrow>
   \<not> pf_dirty (frames p ! i) \<Longrightarrow> i \<notin> W \<Longrightarrow> file_view p pid = Some (usable (pf_page (frames p ! i)))"
  by (simp add: pool_ok_def clean_ok_def)

lemma pool_ok_held: "pool_ok W p \<Longrightarrow> i \<in> W \<Longrightarrow> held p i"
  by (simp add: pool_ok_def)

subsection \<open>Writing a page back\<close>

lemma write_page_images:
  assumes "fpos f = pageOffset pid" "n \<le> PAGE_SIZE" "pid' \<noteq> pid"
    and "pageOffset pid' + PAGE_SIZE \<le> fsize f" "i < PAGE_SIZE"
  shows "file_image (write_bytes m n f) pid' i = file_image f pid' i"
  using assms pageOffset_apart [of pid' pid] by (auto simp: file_image_def write_bytes_def)

lemma write_page_view:
  assumes p: "pageFile p = Some f" and f: "fpos f' = pageOffset pid" "fbytes f' = fbytes f" "fsize f' = fsize f"
    and n: "n \<le> PAGE_SIZE" and pid': "pid' \<noteq> pid" and old: "file_view p pid' = Some v"
  shows "file_view (p\<lparr>pageFile := Some (write_bytes m n f')\<rparr>) pid' = Some v"
proof -
  have in_file: "pageOffset pid' + PAGE_SIZE \<le> fsize f" "sound_image (checksums p) (file_image f pid')"
    and v: "v = usable (file_image f pid')"
    using old p by (auto simp: file_view_def split: if_splits)
  have same: "file_image (write_bytes m n f') pid' i = file_image f pid' i" if "i < PAGE_SIZE" for i
    using write_page_images [OF f(1) n pid' _ that, of m] in_file f that by (simp add: file_image_def)
  have "sound_image (checksums p) (file_image (write_bytes m n f') pid')"
    using sound_image_cong [of "file_image (write_bytes m n f') pid'" "file_image f pid'"] same in_file by simp
  moreover have "usable (file_image (write_bytes m n f') pid') = v"
    unfolding v by (rule usable_eqI) (simp add: same PAGE_SIZE_def)
  ultimately show ?thesis using in_file f by (simp add: file_view_def)
qed

lemma write_stamped_view:
  assumes "fpos f = pageOffset pid"
  shows "file_view (p\<lparr>pageFile := Some (write_bytes (poolStampPage m) PAGE_SIZE f)\<rparr>) pid = Some (usable m)"
proof -
  let ?g = "write_bytes (poolStampPage m) PAGE_SIZE f"
  have same: "file_image ?g pid i = poolStampPage m i" if "i < PAGE_SIZE" for i
    using that assms by (simp add: file_image_def write_bytes_def)
  have "sound_image (checksums p) (file_image ?g pid)"
    using sound_image_cong [of "file_image ?g pid" "poolStampPage m"] same by simp
  moreover have "usable (file_image ?g pid) = usable m"
    using usable_eqI [of "file_image ?g pid" "poolStampPage m"] same by (simp add: PAGE_SIZE_def)
  ultimately show ?thesis using assms by (simp add: file_view_def)
qed

text \<open>A frame taken off its page: by eviction, by freeing the page or by a rollback.\<close>

lemma drop_frame:
  assumes ok: "pool_ok W p" and i: "i < length (frames p)" "pf_id (frames p ! i) = Some pid" "i \<notin> W"
    and q: "frames q = (frames p)[i := fr]" "pf_id fr = None" "pageFrame q = (pageFrame p)[pid := None]"
      "pageCount q \<le> pageCount p" "hand q = hand p" "pageFile q = pageFile p" "checksums q = checksums p"
  shows "pool_ok W q" and "x \<noteq> pid \<Longrightarrow> pool_view q x = pool_view p x"
    and "pool_view q pid = file_view p pid"
proof -
  have home: "resident p pid = Some i" using pool_ok_frame(2) [OF ok i(1,2)] .
  have res: "resident q x = (if x = pid then None else resident p x)" for x
    using q(3) by (auto simp: resident_def)
  have same: "file_view q = file_view p" using q by (intro file_view_cong) auto
  have nth: "frames q ! j = (if j = i then fr else frames p ! j)" if "j < length (frames p)" for j
    using that q(1) by simp
  have len: "length (frames q) = length (frames p)" using q(1) by simp
  have "directory_ok q"
    unfolding directory_ok_def
  proof (intro conjI allI impI)
    fix x j assume x: "resident q x = Some j"
    then have "resident p x = Some j" "x \<noteq> pid" by (auto simp: res split: if_splits)
    with pool_ok_frame(1) [OF ok, of x j] i
    show "j < length (frames q)" "pf_id (frames q ! j) = Some x" by (auto simp: len nth)
  next
    fix j x assume j: "j < length (frames q)" "pf_id (frames q ! j) = Some x"
    then have "j \<noteq> i" "pf_id (frames p ! j) = Some x" using q(2) len by (auto simp: nth split: if_splits)
    with pool_ok_frame(2) [OF ok, of j x] home j len show "resident q x = Some j" by (auto simp: res)
  qed
  moreover have "clean_ok W q"
    unfolding clean_ok_def
  proof (intro allI impI)
    fix j x assume j: "j < length (frames q)" "pf_id (frames q ! j) = Some x"
      "\<not> pf_dirty (frames q ! j)" "j \<notin> W"
    then have "j \<noteq> i" using q(2) len nth by auto
    then show "file_view q x = Some (usable (pf_page (frames q ! j)))"
      using pool_ok_clean [OF ok, of j x] j len nth same by simp
  qed
  moreover have "held q j" if "j \<in> W" for j
    using pool_ok_held [OF ok that] that i(3) len nth by (auto simp: held_def)
  ultimately show "pool_ok W q" using ok q len unfolding pool_ok_def by simp
  show "x \<noteq> pid \<Longrightarrow> pool_view q x = pool_view p x"
  proof -
    assume x: "x \<noteq> pid"
    have "i \<noteq> j \<and> j < length (frames p)" if "resident p x = Some j" for j
      using pool_ok_frame(1) [OF ok that] i x by auto
    then show ?thesis using x by (auto simp: pool_view_def res same nth split: option.split)
  qed
  show "pool_view q pid = file_view p pid" by (simp add: pool_view_def res same)
qed

text \<open>What the sweep may do to the frames it passes, and which bytes of the file it may write.\<close>

definition steady :: "pool \<Rightarrow> pool \<Rightarrow> bool" where
  "steady p p' \<longleftrightarrow>
     length (frames p') = length (frames p) \<and> length (pageFrame p') = length (pageFrame p) \<and>
     pageCount p' = pageCount p \<and> checksums p' = checksums p \<and> plog p' = plog p \<and>
     freeIds p' = freeIds p \<and> writable p' = writable p \<and> catalogRootPage p' = catalogRootPage p \<and>
     (pageFile p' = None \<longleftrightarrow> pageFile p = None) \<and>
     (\<forall>i < length (frames p). pf_id (frames p' ! i) = pf_id (frames p ! i) \<and>
        pf_pins (frames p' ! i) = pf_pins (frames p ! i) \<and>
        (pf_dirty (frames p' ! i) \<longrightarrow> pf_dirty (frames p ! i)) \<and>
        (pf_logged (frames p' ! i) \<longrightarrow> pf_logged (frames p ! i)))"

definition log_first :: "pool \<Rightarrow> pool \<Rightarrow> bool" where
  "log_first p p' \<longleftrightarrow>
     (\<forall>f f' x. pageFile p = Some f \<longrightarrow> pageFile p' = Some f' \<longrightarrow> x < fsize f \<longrightarrow>
        fbytes f' x \<noteq> fbytes f x \<longrightarrow>
        (\<exists>i < length (frames p). \<exists>pid. pf_id (frames p ! i) = Some pid \<and> pf_dirty (frames p ! i) \<and>
           pf_logged (frames p ! i) \<and> pageOffset pid \<le> x \<and> x < pageOffset pid + PAGE_SIZE))"

definition grows :: "pool \<Rightarrow> pool \<Rightarrow> bool" where
  "grows p p' \<longleftrightarrow> (\<forall>f f'. pageFile p = Some f \<longrightarrow> pageFile p' = Some f' \<longrightarrow> fsize f \<le> fsize f')"

lemma steady_refl [simp]: "steady p p" by (simp add: steady_def)
lemma grows_refl [simp]: "grows p p" by (simp add: grows_def)
lemma log_first_refl [simp]: "log_first p p" by (simp add: log_first_def)

lemma steady_trans: "steady p q \<Longrightarrow> steady q r \<Longrightarrow> steady p r"
  by (auto simp: steady_def)

lemma grows_trans:
  assumes "grows p q" "grows q r" "steady p q"
  shows "grows p r"
proof (cases "pageFile q")
  case None
  then show ?thesis using assms(3) by (simp add: grows_def steady_def)
next
  case (Some g)
  then show ?thesis using assms by (auto simp: grows_def intro: order_trans)
qed

lemma log_first_trans:
  assumes "log_first p q" "log_first q r" "steady p q" "grows p q"
  shows "log_first p r"
  unfolding log_first_def
proof (intro allI impI)
  fix f f' x
  assume f: "pageFile p = Some f" "pageFile r = Some f'" "x < fsize f" "fbytes f' x \<noteq> fbytes f x"
  then obtain g where g: "pageFile q = Some g" using assms(3) by (auto simp: steady_def)
  show "\<exists>i < length (frames p). \<exists>pid. pf_id (frames p ! i) = Some pid \<and> pf_dirty (frames p ! i) \<and>
           pf_logged (frames p ! i) \<and> pageOffset pid \<le> x \<and> x < pageOffset pid + PAGE_SIZE"
  proof (cases "fbytes g x = fbytes f x")
    case False
    then show ?thesis using assms(1) f g unfolding log_first_def by blast
  next
    case True
    have "x < fsize g" using assms(4) f g by (auto simp: grows_def)
    with True assms(2) f g obtain i pid where "i < length (frames q)" "pf_id (frames q ! i) = Some pid"
      "pf_dirty (frames q ! i)" "pf_logged (frames q ! i)" "pageOffset pid \<le> x" "x < pageOffset pid + PAGE_SIZE"
      unfolding log_first_def by metis
    then show ?thesis using assms(3) unfolding steady_def by metis
  qed
qed


lemma count_call_pos [simp]: "count_call (f\<lparr>fpos := x\<rparr>) = (count_call f)\<lparr>fpos := x\<rparr>"
  by (simp add: count_call_def)

lemma flushFrame_settles:
  assumes ok: "pool_ok W p" and i: "i < length (frames p)" "pf_id (frames p ! i) = Some pid"
    and dirty: "pf_dirty (frames p ! i)" and run: "flushFrame i p = (r, p')"
  shows "pool_ok W p' \<and> calm p p' \<and> steady p p' \<and> grows p p' \<and> hand p' = hand p \<and>
    pageFrame p' = pageFrame p \<and> (pf_logged (frames p ! i) \<longrightarrow> log_first p p') \<and>
    (r = Inr () \<longrightarrow> \<not> pf_dirty (frames p' ! i))"
proof (cases "pageFile p = None \<or> \<not> writable p")
  case True
  then have "p' = p \<and> r = Inl ERROR_IO_WRITE"
    using run i by (auto simp: flushFrame_def split: option.splits)
  then show ?thesis using ok by simp
next
  case False
  then obtain f where f: "pageFile p = Some f" and w: "writable p" by auto
  obtain sought g where seek: "fseek_set (pageOffset pid) f = (sought, g)" by force
  have g: "fbytes g = fbytes f" "fsize g = fsize f" using fseek_set_frame [OF seek] by auto
  have hand: "hand p < max 1 (length (frames p))" using ok by (simp add: pool_ok_def)
  show ?thesis
  proof (cases sought)
    case False
    then have p': "p' = p\<lparr>pageFile := Some g\<rparr>" and r: "r = Inl ERROR_IO_WRITE"
      using run f w i seek by (auto simp: flushFrame_def)
    have img: "file_image g = file_image f" using g by (simp add: file_image_def fun_eq_iff)
    have same: "file_view p' = file_view p"
      using f g p' img by (auto simp: file_view_def)
    have "pool_ok W p' \<and> calm p p'"
      by (rule settle [OF ok]) (use p' same hand in auto)
    then show ?thesis using p' r f g by (simp add: steady_def log_first_def grows_def)
  next
    case True
    define m where "m = poolStampPage (pf_page (frames p ! i))"
    obtain wrote h where put: "fwrite m PAGE_SIZE g = (wrote, h)" by force
    have pos: "fpos g = pageOffset pid" using fseek_set_ok [of "pageOffset pid" f g] seek True by simp
    define n where "n = (case fault_now g of None \<Rightarrow> PAGE_SIZE | Some k \<Rightarrow> min k (PAGE_SIZE - 1))"
    have n: "n \<le> PAGE_SIZE" by (auto simp: n_def PAGE_SIZE_def split: option.split)
    have h: "h = write_bytes m n (count_call g)" and full: "wrote \<Longrightarrow> n = PAGE_SIZE"
      using put by (auto simp: fwrite_def n_def split: option.splits)
    define q where "q = (update_frame i (\<lambda>fr. fr\<lparr>pf_page := m\<rparr>) p)\<lparr>pageFile := Some h\<rparr>"
    have p': "p' = (if wrote then update_frame i (\<lambda>fr. fr\<lparr>pf_dirty := False, pf_logged := False\<rparr>) q else q)"
      and r: "r = (if wrote then Inr () else Inl ERROR_IO_WRITE)"
      using run f w i(1,2) seek True put
      by (auto simp: flushFrame_def Let_def m_def update_frame_def q_def split: if_splits prod.splits)
    have views: "file_view p' = file_view (p\<lparr>pageFile := Some h\<rparr>)"
      unfolding p' q_def by (rule file_view_cong) auto
    have keep: "file_view p' x = Some v" if "file_view p x = Some v" "x \<noteq> pid" for x v
      unfolding views h
      using write_page_view [OF f, of "count_call g" pid n x v m] pos g n that by simp
    have stored: "file_view p' pid = Some (usable (pf_page (frames p ! i)))" if wrote
      unfolding views h full [OF that] m_def
      by (rule write_stamped_view) (simp add: pos)
    have nth: "frames p' ! j = (if j = i then (frames p ! i)\<lparr>pf_page := m, pf_dirty := \<not> wrote,
        pf_logged := (pf_logged (frames p ! i) \<and> \<not> wrote)\<rparr> else frames p ! j)" if "j < length (frames p)" for j
      using that i dirty by (auto simp: p' q_def)
    have len: "length (frames p') = length (frames p)" "pageFrame p' = pageFrame p" "hand p' = hand p"
      "pageCount p' = pageCount p" "checksums p' = checksums p" "plog p' = plog p" "freeIds p' = freeIds p"
      "writable p' = writable p" "catalogRootPage p' = catalogRootPage p" "pageFile p' = Some h"
      by (simp_all add: p' q_def)
    have stead: "steady p p'" using len nth dirty f by (simp add: steady_def)
    have wrote_at: "x < fsize f \<Longrightarrow> fbytes h x \<noteq> fbytes f x \<Longrightarrow> pageOffset pid \<le> x \<and> x < pageOffset pid + PAGE_SIZE" for x
      using n pos g unfolding h by (auto simp: write_bytes_def split: if_splits)
    have lf: "log_first p p'" if "pf_logged (frames p ! i)"
      unfolding log_first_def using wrote_at len f i dirty that by auto
    have gr: "grows p p'" using len f g by (simp add: grows_def h)
    have others: "file_view p' x = Some v" if "file_view p x = Some v"
      "\<And>j. j < length (frames p) \<Longrightarrow> pf_id (frames p ! j) = Some x \<Longrightarrow> \<not> pf_dirty (frames p ! j)" for x v
      using keep [OF that(1)] that(2) [OF i(1)] i dirty by auto
    have "pool_ok W p' \<and> calm p p'"
      by (rule settle [OF ok]) (use len nth hand m_def stored i others in \<open>auto split: if_splits\<close>)
    then show ?thesis using stead lf gr len nth i r by simp
  qed
qed


subsection \<open>The sweep\<close>

definition drop_id :: "pframe \<Rightarrow> pframe" where "drop_id f = f\<lparr>pf_id := None\<rparr>"

text \<open>
  What the sweep ends with: no frame, and nothing changed hands; or a frame nobody holds, which
  may be given to another page.
\<close>

definition taken :: "nat set \<Rightarrow> pool \<Rightarrow> nat option \<Rightarrow> pool \<Rightarrow> bool" where
  "taken W p r p' \<longleftrightarrow>
     (case r of None \<Rightarrow> pool_ok W p' \<and> calm p p'
      | Some i \<Rightarrow> i < length (frames p') \<and> \<not> held p' i \<and> i \<notin> W \<and>
           pool_ok W (update_frame i drop_id p') \<and> calm p (update_frame i drop_id p'))"

lemma taken_calm: "calm p q \<Longrightarrow> taken W q r p' \<Longrightarrow> taken W p r p'"
  by (auto simp: taken_def intro: calm_trans split: option.splits)

lemma evict_frame:
  assumes ok: "pool_ok W p" and i: "i < length (frames p)" "pf_id (frames p ! i) = Some pid"
    and idle: "pf_pins (frames p ! i) = 0" "\<not> pf_dirty (frames p ! i)"
  shows "taken W p (Some i) ((set_directory pid None p)\<lparr>evictions := n\<rparr>)"
proof -
  let ?p = "(set_directory pid None p)\<lparr>evictions := n\<rparr>"
  let ?q = "update_frame i drop_id ?p"
  have iW: "i \<notin> W" using pool_ok_held [OF ok, of i] idle by (auto simp: held_def)
  have "pool_ok W ?q" "\<And>x. x \<noteq> pid \<Longrightarrow> pool_view ?q x = pool_view p x" "pool_view ?q pid = file_view p pid"
    using drop_frame [OF ok i iW, of ?q "drop_id (frames p ! i)"] by (simp_all add: drop_id_def)
  moreover have "pool_view p pid = file_view p pid"
    using pool_ok_clean [OF ok i idle(2) iW] pool_ok_frame(2) [OF ok i] by (simp add: pool_view_def)
  ultimately have "pool_view p = pool_view ?q" by (intro ext) metis
  moreover have "\<not> held p i" using idle by (simp add: held_def)
  ultimately show ?thesis
    using i iW \<open>pool_ok W ?q\<close> idle
    by (auto simp: taken_def calm_def held_def drop_id_def nth_list_update split: if_splits)
qed

lemma free_frame_taken:
  assumes "pool_ok W p" "i < length (frames p)" "pf_id (frames p ! i) = None"
  shows "taken W p (Some i) p"
proof -
  have "drop_id (frames p ! i) = frames p ! i" using assms(3) by (simp add: drop_id_def)
  then have "update_frame i drop_id p = p" by (simp add: update_frame_def)
  then show ?thesis using assms pool_ok_held [of W p i] by (auto simp: taken_def held_def)
qed

lemma sweep_taken:
  assumes "pool_ok W p" "frames p \<noteq> []" "sweep n p = (r, p')"
  shows "taken W p r p' \<and> steady p p' \<and> grows p p' \<and> log_first p p'"
  using assms
proof (induction n arbitrary: p)
  case 0
  then show ?case by (simp add: taken_def)
next
  case (Suc n)
  define i where "i = hand p"
  define q where "q = p\<lparr>hand := (i + 1) mod length (frames p)\<rparr>"
  have i: "i < length (frames p)" using Suc.prems by (simp add: pool_ok_def i_def max_def Suc_le_eq split: if_splits)
  have nth: "frames q = frames p" by (simp add: q_def)
  have views: "file_view q = file_view p" by (rule file_view_cong) (simp_all add: q_def)
  have "pool_ok W q \<and> calm p q"
    by (rule settle [OF Suc.prems(1)]) (use Suc.prems(2) views in \<open>auto simp: q_def less_max_iff_disj\<close>)
  then have q: "pool_ok W q" "calm p q" by auto
  have sq: "steady p q" "grows p q" "log_first p q"
    by (simp_all add: q_def steady_def grows_def log_first_def)
  let ?f = "frames p ! i"
  have run: "sweep (Suc n) p =
     (case pf_id ?f of None \<Rightarrow> (Some i, q)
      | Some pid \<Rightarrow>
          if pf_pins ?f > 0 then sweep n q
          else if pf_dirty ?f \<and> \<not> (writable q \<and> pf_logged ?f) then sweep n q
          else if pf_referenced ?f then sweep n (update_frame i (\<lambda>fr. fr\<lparr>pf_referenced := False\<rparr>) q)
          else if pf_dirty ?f
               then (case flushFrame i q of (Inl e, q) \<Rightarrow> sweep n q
                     | (Inr _, q) \<Rightarrow> (Some i, (set_directory pid None q)\<lparr>evictions := evictions q + 1\<rparr>))
          else (Some i, (set_directory pid None q)\<lparr>evictions := evictions q + 1\<rparr>))"
    unfolding i_def q_def by (cases "pf_id (frames p ! hand p)") (simp_all add: Let_def)
  have again: "taken W p r p' \<and> steady p p' \<and> grows p p' \<and> log_first p p'"
    if "sweep n t = (r, p')" "pool_ok W t" "calm q t" "steady q t" "grows q t" "log_first q t" for t
  proof -
    have "frames t \<noteq> []" using that(4) nth Suc.prems(2) by (auto simp: steady_def)
    from Suc.IH [OF that(2) this that(1)]
    have t: "taken W t r p'" "steady t p'" "grows t p'" "log_first t p'" by auto
    have u: "calm p t" "steady p t" "grows p t" "log_first p t"
      using calm_trans q(2) that(3) steady_trans sq that(4) grows_trans that(5) log_first_trans that(6) by blast+
    show ?thesis
      using taken_calm [OF u(1) t(1)] steady_trans [OF u(2) t(2)] grows_trans [OF u(3) t(3) u(2)]
        log_first_trans [OF u(4) t(4) u(2,3)] by simp
  qed
  show ?case
  proof (cases "pf_id ?f")
    case None
    then have "r = Some i" "p' = q" using run Suc.prems(3) by auto
    then show ?thesis using free_frame_taken [OF q(1), of i] taken_calm [OF q(2)] sq nth i None by simp
  next
    case (Some pid)
    let ?u = "update_frame i (\<lambda>fr. fr\<lparr>pf_referenced := False\<rparr>) q"
    have u: "pool_ok W ?u \<and> calm q ?u"
      by (rule settle [OF q(1)]) (use q(1) i nth in \<open>auto simp: pool_ok_def nth_list_update split: if_splits\<close>)
    have su: "steady q ?u" "grows q ?u" "log_first q ?u"
      using i nth by (auto simp: steady_def grows_def log_first_def nth_list_update)
    consider (skip) "sweep n q = (r, p')" | (reprieve) "sweep n ?u = (r, p')"
      | (flush) "pf_pins ?f = 0" "pf_dirty ?f" "pf_logged ?f" "(case flushFrame i q of (Inl e, q) \<Rightarrow> sweep n q
                     | (Inr _, q) \<Rightarrow> (Some i, (set_directory pid None q)\<lparr>evictions := evictions q + 1\<rparr>)) = (r, p')"
      | (evict) "pf_pins ?f = 0" "\<not> pf_dirty ?f" "r = Some i" "p' = (set_directory pid None q)\<lparr>evictions := evictions q + 1\<rparr>"
      using run Suc.prems(3) Some by (auto split: if_splits)
    then show ?thesis
    proof cases
      case skip
      then show ?thesis using again [of q] q by simp
    next
      case reprieve
      then show ?thesis using again [of ?u] u su by simp
    next
      case flush
      obtain r' t where fl: "flushFrame i q = (r', t)" by force
      have t: "pool_ok W t" "calm q t" "steady q t" "grows q t" "log_first q t"
        "r' = Inr () \<longrightarrow> \<not> pf_dirty (frames t ! i)"
        using flushFrame_settles [OF q(1) _ _ _ fl, of pid] i Some flush nth by auto
      show ?thesis
      proof (cases r')
        case (Inl e)
        then show ?thesis using flush fl again [OF _ t(1-5)] by simp
      next
        case (Inr x)
        let ?e = "(set_directory pid None t)\<lparr>evictions := evictions t + 1\<rparr>"
        have res: "r = Some i" "p' = ?e" using flush fl Inr by simp_all
        have "i < length (frames t)" "pf_id (frames t ! i) = Some pid" "pf_pins (frames t ! i) = 0" "\<not> pf_dirty (frames t ! i)"
          using t(3,6) i Some flush nth Inr by (auto simp: steady_def)
        from evict_frame [OF t(1) this] have "taken W p r p'"
          using taken_calm [OF calm_trans [OF q(2) t(2)]] res by simp
        moreover have "steady t ?e" "grows t ?e" "log_first t ?e"
          by (simp_all add: steady_def grows_def log_first_def)
        ultimately show ?thesis using res t sq
          by (metis steady_trans grows_trans log_first_trans)
      qed
    next
      case evict
      have "taken W q r p'" using evict_frame [OF q(1), of i pid] i nth Some evict by simp
      moreover have "steady q p'" "grows q p'" "log_first q p'"
        using evict(4) by (simp_all add: steady_def grows_def log_first_def)
      ultimately show ?thesis using taken_calm [OF q(2)] sq
        by (metis steady_trans grows_trans log_first_trans)
    qed
  qed
qed


subsection \<open>Acquiring a frame\<close>

lemma grown_frames:
  assumes ok: "pool_ok W p" and q: "q = p\<lparr>frames := frames p @ replicate k blank_frame, hand := 0\<rparr>"
  shows "pool_ok W q \<and> calm p q"
proof -
  have views: "file_view q = file_view p" "resident q = resident p"
    using file_view_cong [of q p] resident_cong [of q p] by (simp_all add: q)
  have nth: "frames q ! j = (if j < length (frames p) then frames p ! j else blank_frame)"
    if "j < length (frames q)" for j
    using that by (simp add: q nth_append)
  have old: "j < length (frames q) \<and> frames q ! j = frames p ! j" if "j < length (frames p)" for j
    using that by (simp add: q nth_append)
  have id: "j < length (frames p)" if "j < length (frames q)" "pf_id (frames q ! j) = Some x" for j x
    using that nth by (auto simp: blank_frame_def split: if_splits)
  have "directory_ok q"
    unfolding directory_ok_def views using pool_ok_frame [OF ok] old id by metis
  moreover have "clean_ok W q"
    unfolding clean_ok_def views using pool_ok_clean [OF ok] old id by metis
  moreover have held: "held p j \<Longrightarrow> held q j" for j using old by (auto simp: held_def)
  moreover have "pool_view q = pool_view p"
  proof
    fix x show "pool_view q x = pool_view p x"
      using pool_ok_frame(1) [OF ok, of x] old by (auto simp: pool_view_def views split: option.split)
  qed
  ultimately show ?thesis
    using ok old pool_ok_held [OF ok] by (auto simp: pool_ok_def calm_def held_def q)
qed

definition stays :: "pool \<Rightarrow> pool \<Rightarrow> bool" where
  "stays p p' \<longleftrightarrow>
     length (pageFrame p') = length (pageFrame p) \<and> pageCount p' = pageCount p \<and>
     checksums p' = checksums p \<and> plog p' = plog p \<and> freeIds p' = freeIds p \<and>
     writable p' = writable p \<and> catalogRootPage p' = catalogRootPage p \<and>
     (pageFile p' = None \<longleftrightarrow> pageFile p = None)"

lemma steady_stays: "steady p p' \<Longrightarrow> stays p p'"
  by (auto simp: steady_def stays_def)

lemma acquireFrame_taken:
  assumes ok: "pool_ok W p" and run: "acquireFrame p = (r, p')"
  shows "taken W p r p' \<and> stays p p' \<and> grows p p' \<and> log_first p p' \<and>
    (\<forall>j x. j < length (frames p') \<longrightarrow> pf_id (frames p' ! j) = Some x \<longrightarrow>
       j < length (frames p) \<and> pf_id (frames p ! j) = Some x)"
proof -
  obtain s q where sw: "sweep (length (frames p) * 2) p = (s, q)" by force
  have q: "taken W p s q" "steady p q" "grows p q" "log_first p q"
    using sw ok sweep_taken [OF ok _ sw] by (cases "frames p = []"; simp add: taken_def)+
  have ids: "j < length (frames p) \<and> pf_id (frames p ! j) = Some x"
    if "j < length (frames q)" "pf_id (frames q ! j) = Some x" for j x
    using that q(2) by (auto simp: steady_def)
  show ?thesis
  proof (cases s)
    case (Some i)
    then have "r = Some i" "p' = q" using run sw by (simp_all add: acquireFrame_def)
    then show ?thesis using q Some steady_stays ids by simp
  next
    case None
    then have okq: "pool_ok W q" "calm p q" using q(1) by (simp_all add: taken_def)
    obtain g t where gr: "growFrames q = (g, t)" by force
    show ?thesis
    proof (cases g)
      case (Inl e)
      then have "r = None" "p' = q" using run sw None gr
        by (auto simp: acquireFrame_def growFrames_def Let_def split: if_splits)
      then show ?thesis using q None steady_stays ids by simp
    next
      case (Inr u)
      define k where "k = length (frames t) - length (frames q)"
      let ?t = "q\<lparr>frames := frames q @ replicate k blank_frame, hand := 0\<rparr>"
      have k: "k > 0" "t = q\<lparr>frames := frames q @ replicate k blank_frame\<rparr>"
        using gr Inr by (auto simp: growFrames_def Let_def k_def split: if_splits)
      have res: "r = Some (length (frames q))" "p' = ?t"
        using run sw None gr Inr k(2) by (simp_all add: acquireFrame_def)
      have t: "pool_ok W ?t" "calm q ?t" using grown_frames [OF okq(1) refl] by auto
      have "taken W ?t (Some (length (frames q))) ?t"
        by (rule free_frame_taken [OF t(1)]) (use k(1) in \<open>simp_all add: nth_append blank_frame_def\<close>)
      then have "taken W p r p'" using taken_calm [OF calm_trans [OF okq(2) t(2)]] res by simp
      moreover have "stays p p'" using steady_stays [OF q(2)] res by (simp add: stays_def)
      moreover have "grows p p'" "log_first p p'" using q(3,4) res by (simp_all add: grows_def log_first_def)
      moreover have "j < length (frames p) \<and> pf_id (frames p ! j) = Some x"
        if "j < length (frames p')" "pf_id (frames p' ! j) = Some x" for j x
        using that ids [of j x] res by (auto simp: nth_append blank_frame_def split: if_splits)
      ultimately show ?thesis by blast
    qed
  qed
qed

text \<open>A frame nobody holds, given to a page that is not resident.\<close>

lemma install_frame:
  assumes ok: "pool_ok W q" and i: "i < length (frames q)" "pf_id (frames q ! i) = None"
    and page: "resident q pid = None" "pid < length (pageFrame s)"
    and fr: "pf_id fr = Some pid" "pf_dirty fr \<or> file_view q pid = Some (usable (pf_page fr))"
    and s: "frames s = (frames q)[i := fr]" "resident s = (resident q)(pid := Some i)"
      "file_view s = file_view q" "hand s = hand q" "pageCount s \<le> length (pageFrame s)"
  shows "pool_ok W s" and "x \<noteq> pid \<Longrightarrow> pool_view s x = pool_view q x"
    and "pool_view s pid = Some (usable (pf_page fr))"
    and "held q j \<Longrightarrow> held s j \<and> frames s ! j = frames q ! j"
proof -
  have nth: "frames s ! j = (if j = i then fr else frames q ! j)" if "j < length (frames q)" for j
    using that s(1) by simp
  have len: "length (frames s) = length (frames q)" using s(1) by simp
  have iW: "i \<notin> W" using pool_ok_held [OF ok, of i] i by (auto simp: held_def)
  have "directory_ok s"
    unfolding directory_ok_def
  proof (intro conjI allI impI)
    fix x j assume x: "resident s x = Some j"
    show "j < length (frames s)"
      using x s(2) len i(1) pool_ok_frame(1) [OF ok, of x j] by (auto split: if_splits)
    show "pf_id (frames s ! j) = Some x"
      using x s(2) len i fr(1) nth pool_ok_frame(1) [OF ok, of x j] by (auto split: if_splits)
  next
    fix j x assume j: "j < length (frames s)" "pf_id (frames s ! j) = Some x"
    show "resident s x = Some j"
    proof (cases "j = i")
      case True
      then show ?thesis using j nth i fr s(2) by simp
    next
      case False
      then have "resident q x = Some j" using pool_ok_frame(2) [OF ok, of j x] j nth len by simp
      then show ?thesis using s(2) page(1) by auto
    qed
  qed
  moreover have "clean_ok W s"
    unfolding clean_ok_def
  proof (intro allI impI)
    fix j x assume j: "j < length (frames s)" "pf_id (frames s ! j) = Some x"
      "\<not> pf_dirty (frames s ! j)" "j \<notin> W"
    show "file_view s x = Some (usable (pf_page (frames s ! j)))"
      using pool_ok_clean [OF ok, of j x] j len nth s(3) fr i by (cases "j = i") auto
  qed
  moreover have "held s j" if "j \<in> W" for j
    using pool_ok_held [OF ok that] that iW len nth by (auto simp: held_def)
  ultimately show "pool_ok W s" using ok s len unfolding pool_ok_def by simp
  show "x \<noteq> pid \<Longrightarrow> pool_view s x = pool_view q x"
  proof -
    assume "x \<noteq> pid"
    moreover have "i \<noteq> j \<and> j < length (frames q)" if "resident q x = Some j" for j
      using pool_ok_frame(1) [OF ok that] i by auto
    ultimately show ?thesis by (auto simp: pool_view_def s(2,3) nth split: option.split)
  qed
  show "pool_view s pid = Some (usable (pf_page fr))" using i nth by (simp add: pool_view_def s(2))
  show "held q j \<Longrightarrow> held s j \<and> frames s ! j = frames q ! j"
    using i len nth by (auto simp: held_def)
qed


subsection \<open>Pinning\<close>

lemma pin_hit:
  assumes ok: "pool_ok W p" and hit: "resident p pid = Some i"
    and p': "p' = update_frame i (\<lambda>fr. fr\<lparr>pf_referenced := True, pf_pins := pf_pins fr + 1\<rparr>) (p\<lparr>hits := n\<rparr>)"
  shows "pool_ok W p' \<and> calm p p' \<and> held p' i \<and> pf_id (frames p' ! i) = Some pid \<and>
    pool_view p' pid = Some (usable (frame_page i p'))"
proof -
  have i: "i < length (frames p)" "pf_id (frames p ! i) = Some pid" using pool_ok_frame(1) [OF ok hit] by auto
  have views: "file_view p' = file_view p" "resident p' = resident p"
    using file_view_cong [of p' p] resident_cong [of p' p] by (simp_all add: p')
  have "pool_ok W p' \<and> calm p p'"
    by (rule settle [OF ok])
       (use ok i views in \<open>auto simp: p' pool_ok_def nth_list_update split: if_splits\<close>)
  then show ?thesis
    using i hit views by (simp add: held_def pool_view_def frame_page_def) (simp add: p')
qed

definition same_cache :: "pool \<Rightarrow> pool \<Rightarrow> bool" where
  "same_cache q s \<longleftrightarrow> frames s = frames q \<and> pageFrame s = pageFrame q \<and> hand s = hand q \<and>
     pageCount s = pageCount q \<and> file_view s = file_view q"

lemma same_cache_ok:
  assumes "same_cache q s" "pool_ok W q"
  shows "pool_ok W s \<and> calm q s"
  by (rule settle [OF assms(2)]) (use assms in \<open>auto simp: same_cache_def pool_ok_def\<close>)

lemma free_frame_page:
  assumes "pool_ok W q" "pf_id (frames q ! i) = None" "i < length (frames q)"
  shows "pool_ok W (update_frame i (\<lambda>fr. fr\<lparr>pf_page := m\<rparr>) q) \<and>
    calm q (update_frame i (\<lambda>fr. fr\<lparr>pf_page := m\<rparr>) q)"
  by (rule settle [OF assms(1)])
     (use assms in \<open>auto simp: pool_ok_def nth_list_update split: if_splits\<close>)


text \<open>A miss, from the frame \<open>acquireFrame\<close> gave on: read, check, install.\<close>

lemma pin_miss:
  assumes ok: "pool_ok W p" and miss: "resident p pid = None" and pid: "pid < pageCount p"
    and run: "pinLocked (int pid) p = (r, p')"
  shows "pool_ok W p' \<and> calm p p' \<and> log_first p p' \<and> stays p p' \<and>
    (\<forall>x. resident p x = None \<longrightarrow> x \<noteq> pid \<longrightarrow> resident p' x = None) \<and>
    (\<forall>i. r = Some i \<longrightarrow> held p' i \<and> pf_id (frames p' ! i) = Some pid \<and>
         pool_view p' pid = Some (usable (frame_page i p')))"
proof -
  let ?p = "p\<lparr>misses := misses p + 1\<rparr>"
  have same: "same_cache p ?p" using file_view_cong [of ?p p] by (simp add: same_cache_def)
  have okp: "pool_ok W ?p" "calm p ?p" using same_cache_ok [OF same ok] by auto
  obtain s q where acq: "acquireFrame ?p = (s, q)" by force
  have taken: "taken W ?p s q" "stays ?p q" "grows ?p q" "log_first ?p q"
    and ids: "\<And>j x. j < length (frames q) \<Longrightarrow> pf_id (frames q ! j) = Some x \<Longrightarrow>
       j < length (frames ?p) \<and> pf_id (frames ?p ! j) = Some x"
    using acquireFrame_taken [OF okp(1) acq] by blast+
  have lf: "log_first p q" "stays p q" using taken by (simp_all add: log_first_def stays_def)
  have pin: "pinLocked (int pid) p = (case s of None \<Rightarrow> (None, q) | Some i \<Rightarrow>
      let q = update_frame i drop_id q
      in case pageFile q of
           None \<Rightarrow> (None, q)
         | Some f \<Rightarrow>
             let (ok, f) = fseek_set (pageOffset pid) f
             in if \<not> ok then (None, q\<lparr>pageFile := Some f\<rparr>)
                else let (r, f) = fread PAGE_SIZE f; q = q\<lparr>pageFile := Some f\<rparr>
                     in case r of
                          None \<Rightarrow> (None, q)
                        | Some m \<Rightarrow>
                            let q = update_frame i (\<lambda>fr. fr\<lparr>pf_page := m\<rparr>) q
                            in if checksums q \<and> storedChecksum m \<noteq> 0 \<and> storedChecksum m \<noteq> pageChecksum m
                               then (None, q\<lparr>corrupt := corrupt q + 1\<rparr>)
                               else (Some i, set_directory pid (Some i)
                                  (update_frame i (\<lambda>fr. fr\<lparr>pf_id := Some pid, pf_dirty := False,
                                      pf_logged := False, pf_pins := 1, pf_referenced := False\<rparr>) q)))"
    unfolding pinLocked_def drop_id_def [abs_def] nat_int using pid miss acq by (cases s) simp_all
  show ?thesis
  proof (cases s)
    case None
    then have "p' = q" "r = None" using run pin by simp_all
    moreover have "resident q x = None" if "resident p x = None" for x
    proof (rule ccontr)
      assume "resident q x \<noteq> None"
      then obtain j where "resident q x = Some j" by auto
      from pool_ok_frame(1) [OF _ this, of W] taken(1) None ids [of j x] pool_ok_frame(2) [OF ok, of j x] that
      show False by (auto simp: taken_def)
    qed
    ultimately show ?thesis using taken(1) None calm_trans [OF okp(2)] lf by (simp add: taken_def)
  next
    case (Some i)
    define t where "t = update_frame i drop_id q"
    have t: "pool_ok W t" "calm p t" "i < length (frames t)" "pf_id (frames t ! i) = None"
      using taken(1) Some calm_trans [OF okp(2)] by (simp_all add: taken_def t_def drop_id_def)
    have st: "stays p t" "log_first p t" using lf by (simp_all add: stays_def log_first_def t_def)
    have nores: "resident t x = None" if "resident p x = None" for x
    proof (rule ccontr)
      assume "resident t x \<noteq> None"
      then obtain j where "resident t x = Some j" by auto
      from pool_ok_frame(1) [OF t(1) this] have j: "j < length (frames t)" "pf_id (frames t ! j) = Some x" by auto
      then have "j \<noteq> i" using t(4) by auto
      with j have "j < length (frames q)" "pf_id (frames q ! j) = Some x" by (auto simp: t_def)
      from ids [OF this] have "resident p x = Some j" using pool_ok_frame(2) [OF ok] by simp
      then show False using that by simp
    qed
    have gone: "resident t pid = None" using nores miss .
    show ?thesis
    proof (cases "pageFile t")
      case None
      then have "p' = t" "r = None" using run pin Some by (simp_all add: t_def)
      then show ?thesis using t st nores by simp
    next
      case (Some f)
      obtain sought g where seek: "fseek_set (pageOffset pid) f = (sought, g)" by force
      obtain rd h where read: "fread PAGE_SIZE g = (rd, h)" by force
      have moved: "same_cache t (t\<lparr>pageFile := Some g\<rparr>)" "same_cache t (t\<lparr>pageFile := Some h\<rparr>)"
        "log_first p (t\<lparr>pageFile := Some g\<rparr>)" "log_first p (t\<lparr>pageFile := Some h\<rparr>)"
        "stays p (t\<lparr>pageFile := Some g\<rparr>)" "stays p (t\<lparr>pageFile := Some h\<rparr>)"
        using fseek_set_frame [OF seek] fread_frame [OF read] Some st
        by (auto simp: same_cache_def file_view_def fun_eq_iff file_image_def log_first_def stays_def)
      show ?thesis
      proof (cases "sought \<and> rd \<noteq> None")
        case False
        then have "r = None \<and> (p' = t\<lparr>pageFile := Some g\<rparr> \<or> p' = t\<lparr>pageFile := Some h\<rparr>)"
          using run pin \<open>s = Some i\<close> Some seek read by (auto simp: t_def Let_def split: if_splits)
        moreover have "resident (t\<lparr>pageFile := y\<rparr>) = resident t" for y by (rule resident_cong) simp
        ultimately show ?thesis
          using same_cache_ok [OF moved(1) t(1)] same_cache_ok [OF moved(2) t(1)] moved calm_trans [OF t(2)] nores
          by auto
      next
        case True
        then obtain m where m: "rd = Some m" by auto
        define u where "u = t\<lparr>pageFile := Some h\<rparr>"
        define v where "v = update_frame i (\<lambda>fr. fr\<lparr>pf_page := m\<rparr>) u"
        have u: "pool_ok W u" "calm t u" using same_cache_ok [OF moved(2) t(1)] by (simp_all add: u_def)
        have v: "pool_ok W v" "calm u v"
          using free_frame_page [OF u(1), of i m] t by (simp_all add: u_def v_def)
        have cv: "calm p v" using calm_trans t(2) u(2) v(2) by blast
        have sv: "stays p v" "log_first p v" using moved by (simp_all add: v_def u_def stays_def log_first_def)
        have img: "m = file_image f pid" "pageOffset pid + PAGE_SIZE \<le> fsize f"
          using fread_ok [of PAGE_SIZE g m h] read m fseek_set_ok [of "pageOffset pid" f g] seek True
          by (simp_all add: file_image_def)
        have vres: "resident v = resident t" using resident_cong [of u t] by (simp add: v_def u_def)
        have vi: "i < length (frames v)" "pf_id (frames v ! i) = None" "resident v pid = None"
          using t gone resident_cong [of u t] by (simp_all add: v_def u_def)
        show ?thesis
        proof (cases "sound_image (checksums t) m")
          case False
          then have "r = None" "p' = v\<lparr>corrupt := corrupt v + 1\<rparr>"
            using run pin \<open>s = Some i\<close> Some seek read True m
            by (simp_all add: t_def u_def v_def sound_image_def Let_def)
          moreover have "same_cache v (v\<lparr>corrupt := corrupt v + 1\<rparr>)"
            using file_view_cong [of "v\<lparr>corrupt := corrupt v + 1\<rparr>" v] by (simp add: same_cache_def)
          ultimately show ?thesis
            using same_cache_ok [OF _ v(1)] calm_trans [OF cv] sv vres nores
              resident_cong [of "v\<lparr>corrupt := corrupt v + 1\<rparr>" v]
            by (simp add: stays_def log_first_def)
        next
          case sound: True
          define fr where "fr = (frames v ! i)\<lparr>pf_id := Some pid, pf_dirty := False,
              pf_logged := False, pf_pins := 1, pf_referenced := False\<rparr>"
          have res: "r = Some i" "p' = set_directory pid (Some i)
              (update_frame i (\<lambda>fr. fr\<lparr>pf_id := Some pid, pf_dirty := False,
                                      pf_logged := False, pf_pins := 1, pf_referenced := False\<rparr>) v)"
            using run pin \<open>s = Some i\<close> Some seek read True m sound
            by (auto simp: t_def u_def v_def sound_image_def Let_def split: if_splits)
          have room: "pid < length (pageFrame v)" using pid sv(1) ok by (simp add: stays_def pool_ok_def)
          have page: "pf_page fr = m" "pf_id fr = Some pid" using vi by (simp_all add: fr_def v_def)
          have fv: "file_view v pid = Some (usable m)"
          proof -
            have "file_view v pid = file_view t pid"
              using moved(2) by (simp add: v_def u_def same_cache_def)
            then show ?thesis using Some img sound by (simp add: file_view_def)
          qed
          have p': "frames p' = (frames v)[i := fr]" "resident p' = (resident v)(pid := Some i)"
            "file_view p' = file_view v" "hand p' = hand v" "pageCount p' \<le> length (pageFrame p')"
            "pid < length (pageFrame p')"
            using room v(1) by (auto simp: res fr_def resident_set_directory fun_eq_iff pool_ok_def)
          note inst = install_frame [OF v(1) vi p'(6) page(2) _ p'(1-5)]
          have new: "pool_ok W p'" "\<And>x. x \<noteq> pid \<Longrightarrow> pool_view p' x = pool_view v x"
            "pool_view p' pid = Some (usable m)" "\<And>j. held v j \<Longrightarrow> held p' j \<and> frames p' ! j = frames v ! j"
            using inst fv page by auto
          have "calm v p'"
            unfolding calm_def map_le_def
          proof (intro conjI ballI allI impI)
            fix x assume "x \<in> dom (pool_view v)"
            show "pool_view v x = pool_view p' x"
              using new(2,3) fv vi(3) by (cases "x = pid") (auto simp: pool_view_def)
          qed (use new(4) in auto)
          then have "calm p p'" using calm_trans cv by blast
          moreover have "stays p p'" "log_first p p'" using sv by (simp_all add: res stays_def log_first_def)
          moreover have "held p' i" "pf_id (frames p' ! i) = Some pid" "frame_page i p' = m"
            using vi(1) p'(1) page by (simp_all add: held_def frame_page_def fr_def)
          ultimately show ?thesis using new(1,3) res(1) p'(2) vres nores by auto
        qed
      qed
    qed
  qed
qed


text \<open>
  A page handed out under a pin is the page: whatever \<open>pinLocked\<close> had to evict, write back or read
  to get it, every page keeps its content and every frame already held stays with its holder.
\<close>

lemma pinLocked_ok:
  assumes ok: "pool_ok W p" and run: "pinLocked (int pid) p = (r, p')"
  shows "pool_ok W p' \<and> calm p p' \<and> log_first p p' \<and> stays p p' \<and>
    (\<forall>x. resident p x = None \<longrightarrow> x \<noteq> pid \<or> pageCount p \<le> pid \<longrightarrow> resident p' x = None) \<and>
    (\<forall>i. r = Some i \<longrightarrow> held p' i \<and> pf_id (frames p' ! i) = Some pid \<and>
         pool_view p' pid = Some (usable (frame_page i p')))"
proof (cases "pid < pageCount p")
  case False
  then have "p' = p" "r = None" using run by (simp_all add: pinLocked_def)
  then show ?thesis using ok by (simp add: stays_def)
next
  case True
  show ?thesis
  proof (cases "resident p pid")
    case None
    then show ?thesis using pin_miss [OF ok None True run] True by auto
  next
    case (Some i)
    then have res: "r = Some i"
      "p' = update_frame i (\<lambda>fr. fr\<lparr>pf_referenced := True, pf_pins := pf_pins fr + 1\<rparr>) (p\<lparr>hits := hits p + 1\<rparr>)"
      using run True by (simp_all add: pinLocked_def)
    moreover have "resident p' = resident p" using resident_cong [of p' p] res(2) by simp
    ultimately show ?thesis using pin_hit [OF ok Some res(2)] by (simp add: stays_def log_first_def)
  qed
qed

lemma unpinLocked_ok:
  assumes ok: "pool_ok W p" and home: "resident p pid = Some i" and clean: "dirty \<or> i \<notin> W"
  shows "pool_ok (W - {i}) (unpinLocked (int pid) dirty p)"
    and "pool_view (unpinLocked (int pid) dirty p) = pool_view p"
proof -
  let ?p = "unpinLocked (int pid) dirty p"
  have i: "i < length (frames p)" "pf_id (frames p ! i) = Some pid" using pool_ok_frame(1) [OF ok home] by auto
  obtain g where p': "?p = update_frame i g p" and g: "\<And>fr. pf_id (g fr) = pf_id fr"
    "\<And>fr. pf_page (g fr) = pf_page fr" "\<And>fr. \<not> pf_dirty (g fr) \<longrightarrow> \<not> dirty \<and> \<not> pf_dirty fr"
    using home by (simp add: unpinLocked_def Let_def)
  have nth: "frames ?p ! j = (if j = i then g (frames p ! i) else frames p ! j)" if "j < length (frames p)" for j
    using that i by (simp add: p')
  have views: "file_view ?p = file_view p" "resident ?p = resident p" "length (frames ?p) = length (frames p)"
    "pageCount ?p = pageCount p" "pageFrame ?p = pageFrame p" "hand ?p = hand p" by (simp_all add: p')
  have id: "pf_id (frames ?p ! j) = pf_id (frames p ! j)" if "j < length (frames p)" for j
    using nth [OF that] g(1) by simp
  have "directory_ok ?p"
    unfolding directory_ok_def views
  proof (intro conjI allI impI)
    fix x j assume "resident p x = Some j"
    from pool_ok_frame(1) [OF ok this] show "j < length (frames p)" "pf_id (frames ?p ! j) = Some x"
      using id [of j] by auto
  qed (use pool_ok_frame(2) [OF ok] id in auto)
  moreover have "clean_ok (W - {i}) ?p"
    unfolding clean_ok_def views
  proof (intro allI impI)
    fix j x assume j: "j < length (frames p)" "pf_id (frames ?p ! j) = Some x"
      "\<not> pf_dirty (frames ?p ! j)" "j \<notin> W - {i}"
    then show "file_view p x = Some (usable (pf_page (frames ?p ! j)))"
      using pool_ok_clean [OF ok, of j x] clean g i nth [of j] by (cases "j = i") auto
  qed
  moreover have "held ?p j" if "j \<in> W - {i}" for j
    using pool_ok_held [OF ok, of j] that nth [of j] views by (auto simp: held_def)
  ultimately show "pool_ok (W - {i}) ?p" using ok views unfolding pool_ok_def by simp
  show "pool_view ?p = pool_view p"
  proof
    fix x show "pool_view ?p x = pool_view p x"
      using pool_ok_frame(1) [OF ok, of x] nth g by (auto simp: pool_view_def views split: option.split)
  qed
qed

lemma write_page_ok:
  assumes ok: "pool_ok W p" and i: "held p i" "pf_id (frames p ! i) = Some pid"
  shows "pool_ok (insert i W) (write_page i g p)"
    and "pool_view (write_page i g p) = (pool_view p)(pid \<mapsto> usable (g (frame_page i p)))"
proof -
  let ?p = "write_page i g p"
  have il: "i < length (frames p)" using i by (simp add: held_def)
  have home: "resident p pid = Some i" using pool_ok_frame(2) [OF ok il i(2)] .
  have nth: "frames ?p ! j = (if j = i then (frames p ! i)\<lparr>pf_page := g (pf_page (frames p ! i))\<rparr> else frames p ! j)"
    if "j < length (frames p)" for j using that il by (simp add: write_page_def)
  have views: "file_view ?p = file_view p" "resident ?p = resident p" "length (frames ?p) = length (frames p)"
    "pageCount ?p = pageCount p" "pageFrame ?p = pageFrame p" "hand ?p = hand p"
    by (simp_all add: write_page_def)
  have "directory_ok ?p"
    unfolding directory_ok_def views
  proof (intro conjI allI impI)
    fix x j assume "resident p x = Some j"
    from pool_ok_frame(1) [OF ok this] show "j < length (frames p)" "pf_id (frames ?p ! j) = Some x"
      using nth [of j] by auto
  next
    fix j x assume j: "j < length (frames p)" "pf_id (frames ?p ! j) = Some x"
    then have "pf_id (frames p ! j) = Some x" using nth [of j] by (auto split: if_splits)
    then show "resident p x = Some j" using pool_ok_frame(2) [OF ok j(1)] by simp
  qed
  moreover have "clean_ok (insert i W) ?p"
    unfolding clean_ok_def views using pool_ok_clean [OF ok] nth by auto
  moreover have "held ?p j" if "j \<in> insert i W" for j
    using that i pool_ok_held [OF ok, of j] nth views by (auto simp: held_def)
  ultimately show "pool_ok (insert i W) ?p" using ok views unfolding pool_ok_def by simp
  show "pool_view ?p = (pool_view p)(pid \<mapsto> usable (g (frame_page i p)))"
  proof
    fix x show "pool_view ?p x = ((pool_view p)(pid \<mapsto> usable (g (frame_page i p)))) x"
    proof (cases "resident p x")
      case None
      then show ?thesis using home by (auto simp: pool_view_def views)
    next
      case (Some j)
      from pool_ok_frame(1) [OF ok Some] home i(2)
      have "j < length (frames p)" "j = i \<longleftrightarrow> x = pid" using Some by auto
      then show ?thesis using Some nth [of j] by (simp add: pool_view_def views frame_page_def)
    qed
  qed
qed

end
