(* ===== verification/PoolUse.thy ===== *)
theory PoolUse
  imports PoolCache WalRecovery
begin

text \<open>
  The pool's operations seen by the components above it: freeing and allocating pages, commit and
  checkpoint, and the step relation of a client that unpins what it pins and marks what it writes.
  The properties: no reachable state breaks the cache; a pin hands out the page; a page goes to the
  file only after the log has it; a commit survives a crash; a checkpoint drops the log only when
  the file holds everything.
\<close>

subsection \<open>Freeing and allocating\<close>

definition free_ok :: "pool \<Rightarrow> bool" where
  "free_ok p \<longleftrightarrow> distinct (freeIds p) \<and>
     (\<forall>x \<in> set (freeIds p). x < pageCount p \<and> resident p x = None) \<and>
     (\<forall>x. pageCount p \<le> x \<longrightarrow> resident p x = None)"

lemma pool_view_cong:
  assumes "frames q = frames p" "pageFrame q = pageFrame p" "pageFile q = pageFile p" "checksums q = checksums p"
  shows "pool_view q = pool_view p"
proof -
  have "file_view q = file_view p" "resident q = resident p"
    using assms by (auto intro: file_view_cong resident_cong)
  then show ?thesis by (intro ext) (simp only: pool_view_def assms)
qed

lemma same_frames_ok:
  assumes "pool_ok W p" "frames q = frames p" "pageFrame q = pageFrame p" "hand q = hand p"
    "pageFile q = pageFile p" "checksums q = checksums p" "pageCount q \<le> length (pageFrame p)"
  shows "pool_ok W q" "pool_view q = pool_view p" "resident q = resident p"
proof -
  have views: "file_view q = file_view p" "resident q = resident p"
    using assms by (auto intro: file_view_cong resident_cong)
  have "directory_ok q = directory_ok p" "clean_ok W q = clean_ok W p" "held q i = held p i" for i
    by (simp_all only: directory_ok_def clean_ok_def held_def views assms)
  then show "pool_ok W q" using assms by (simp add: pool_ok_def)
  show "pool_view q = pool_view p" using assms by (intro pool_view_cong)
  show "resident q = resident p" by (rule views)
qed

lemma freeLocked_ok:
  assumes ok: "pool_ok W p" "free_ok p" and pid: "pid < pageCount p" "pid \<notin> set (freeIds p)"
    and idle: "\<And>i. resident p pid = Some i \<Longrightarrow> i \<notin> W"
  shows "pool_ok W (freeLocked pid p)" and "free_ok (freeLocked pid p)"
    and "x \<noteq> pid \<Longrightarrow> pool_view (freeLocked pid p) x = pool_view p x"
proof -
  define q where "q = (case resident p pid of None \<Rightarrow> p
               | Some i \<Rightarrow> set_directory pid None (update_frame i release_frame p))"
  have q: "pool_ok W q \<and> (\<forall>x. x \<noteq> pid \<longrightarrow> pool_view q x = pool_view p x) \<and> resident q pid = None \<and>
    (\<forall>x. x \<noteq> pid \<longrightarrow> resident q x = resident p x) \<and> freeIds q = freeIds p \<and> pageCount q = pageCount p"
  proof (cases "resident p pid")
    case None
    then show ?thesis using ok by (simp add: q_def)
  next
    case (Some i)
    then have i: "i < length (frames p)" "pf_id (frames p ! i) = Some pid" "i \<notin> W"
      using pool_ok_frame(1) [OF ok(1) Some] idle by auto
    have "pid < length (pageFrame p)" using Some by (auto simp: resident_def split: if_splits)
    then show ?thesis
      using drop_frame [OF ok(1) i, of q "release_frame (frames p ! i)"] Some
      by (simp add: q_def release_frame_def resident_set_directory)
  qed
  have free: "freeLocked pid p =
      (if length (freeIds q) = freeCapacity q
       then let grown = (if freeCapacity q \<noteq> 0 then freeCapacity q * 2 else 16)
            in if grown > freeLimit q then q
               else q\<lparr>freeCapacity := grown, freeIds := pid # freeIds q\<rparr>
       else q\<lparr>freeIds := pid # freeIds q\<rparr>)"
    unfolding freeLocked_def q_def resident_findFrame Let_def by (rule refl)
  define s where "s = freeLocked pid p"
  have s: "frames s = frames q" "pageFrame s = pageFrame q" "hand s = hand q" "pageFile s = pageFile q"
    "checksums s = checksums q" "pageCount s = pageCount q" "freeIds s = freeIds p \<or> freeIds s = pid # freeIds p"
    using q by (auto simp: s_def free Let_def)
  have "pageCount s \<le> length (pageFrame q)" using q s by (simp add: pool_ok_def)
  from same_frames_ok [OF conjunct1 [OF q] s(1-5) this]
  have t: "pool_ok W s" "pool_view s = pool_view q" "resident s = resident q" .
  show "pool_ok W (freeLocked pid p)" using t(1) by (simp add: s_def)
  show "x \<noteq> pid \<Longrightarrow> pool_view (freeLocked pid p) x = pool_view p x" using t(2) q by (simp add: s_def)
  show "free_ok (freeLocked pid p)"
    using ok(2) pid q s(6,7) t(3) unfolding free_ok_def s_def [symmetric]
    by (metis distinct.simps(2) set_ConsD)
qed

lemma growDirectory_spec:
  assumes run: "growDirectory n p = (Inr (), q)"
  shows "frames q = frames p \<and> resident q = resident p \<and> hand q = hand p \<and> pageFile q = pageFile p \<and>
    checksums q = checksums p \<and> pageCount q = pageCount p \<and> freeIds q = freeIds p \<and>
    n \<le> length (pageFrame q) \<and> length (pageFrame p) \<le> length (pageFrame q) \<and> plog q = plog p \<and>
    writable q = writable p \<and> catalogRootPage q = catalogRootPage p"
proof -
  have big: "0 < g \<Longrightarrow> n \<le> double_to n g \<and> g \<le> double_to n g" for g
  proof (induction n g rule: double_to.induct)
    case (1 w g)
    then show ?case by (subst (1 2) double_to.simps) auto
  qed
  show ?thesis
  proof (cases "n \<le> length (pageFrame p)")
    case True
    then show ?thesis using run by (simp add: growDirectory_def)
  next
    case False
    define g where "g = double_to n (if length (pageFrame p) \<noteq> 0 then length (pageFrame p) else 256)"
    have g: "n \<le> g" "length (pageFrame p) \<le> g"
      using big [of "if length (pageFrame p) \<noteq> 0 then length (pageFrame p) else 256"]
      by (auto simp: g_def split: if_splits)
    have q: "q = p\<lparr>pageFrame := pageFrame p @ replicate (g - length (pageFrame p)) None\<rparr>"
      using run False by (simp add: growDirectory_def Let_def g_def split: if_splits)
    have "resident q = resident p" by (rule ext) (simp add: q resident_def nth_append)
    then show ?thesis using g by (simp add: q)
  qed
qed


lemma allocateLocked_ok:
  assumes ok: "pool_ok W p" "free_ok p" and run: "allocateLocked p = (Inr pid, p')"
  shows "pool_ok W p'" and "free_ok p'" and "pid < pageCount p'" and "pid \<notin> set (freeIds p')"
    and "resident p pid = None" and "pool_view p' pid = Some (\<lambda>_. 0)"
    and "x \<noteq> pid \<Longrightarrow> pool_view p x = Some v \<Longrightarrow> pool_view p' x = Some v"
    and "held p j \<Longrightarrow> held p' j \<and> pf_id (frames p' ! j) = pf_id (frames p ! j) \<and>
           usable (pf_page (frames p' ! j)) = usable (pf_page (frames p ! j))"
    and "log_first p p'"
    and "pid \<in> set (freeIds p) \<and> pageCount p' = pageCount p \<and> set (freeIds p') = set (freeIds p) - {pid} \<or>
         pid = pageCount p \<and> freeIds p = [] \<and> freeIds p' = [] \<and> pageCount p' = pageCount p + 1"
proof -
  obtain r q where acq: "acquireFrame p = (r, q)" by force
  then obtain i where r: "r = Some i" using run by (cases r) (auto simp: allocateLocked_def)
  have taken: "taken W p (Some i) q" "stays p q" "log_first p q"
    and ids: "\<And>j x. j < length (frames q) \<Longrightarrow> pf_id (frames q ! j) = Some x \<Longrightarrow>
       j < length (frames p) \<and> pf_id (frames p ! j) = Some x"
    using acquireFrame_taken [OF ok(1) acq] r by blast+
  obtain id t where pick: "(case freeIds q of x # rest \<Rightarrow> (x, q\<lparr>freeIds := rest\<rparr>)
      | [] \<Rightarrow> (pageCount q, q\<lparr>pageCount := pageCount q + 1\<rparr>)) = (id, t)" by force
  obtain g u where grow: "growDirectory (id + 1) t = (g, u)" by force
  have alloc: "allocateLocked p = andThen (g, u) (\<lambda>_ p. (Inr id, set_directory id (Some i)
      (update_frame i (\<lambda>fr. \<lparr>pf_id = Some id, pf_pins = 0, pf_dirty = True,
                     pf_logged = False, pf_referenced = True, pf_page = (\<lambda>_. 0)\<rparr>) p)))"
    unfolding allocateLocked_def using acq r pick grow by simp
  then have g: "g = Inr ()" using run by (cases g) auto
  then have pid: "pid = id" and p': "p' = set_directory id (Some i)
      (update_frame i (\<lambda>fr. \<lparr>pf_id = Some id, pf_pins = 0, pf_dirty = True,
                     pf_logged = False, pf_referenced = True, pf_page = (\<lambda>_. 0)\<rparr>) u)"
    using alloc run by auto
  define q' where "q' = update_frame i drop_id q"
  have q': "pool_ok W q'" "calm p q'" "i < length (frames q')" "pf_id (frames q' ! i) = None"
    using taken(1) by (simp_all add: taken_def q'_def drop_id_def)
  have t: "frames t = frames q" "pageFrame t = pageFrame q" "hand t = hand q" "pageFile t = pageFile q"
    "checksums t = checksums q" "pageCount q \<le> pageCount t" "pageCount t \<le> max (pageCount q) (id + 1)"
    "id < pageCount t" "set (freeIds t) \<subseteq> set (freeIds q) - {id}" "distinct (freeIds t)"
    using pick ok(2) taken(2) by (auto simp: free_ok_def stays_def split: list.splits)
  have res: "resident q' x = Some j \<Longrightarrow> resident p x = Some j" for x j
  proof -
    assume "resident q' x = Some j"
    from pool_ok_frame(1) [OF q'(1) this] q'(3,4) have "j < length (frames q)" "pf_id (frames q ! j) = Some x"
      by (auto simp: q'_def nth_list_update split: if_splits)
    from ids [OF this] show ?thesis using pool_ok_frame(2) [OF ok(1)] by simp
  qed
  have new: "resident p id = None"
  proof (cases "freeIds q")
    case Nil
    then have "id = pageCount p" using pick taken(2) by (simp add: stays_def)
    then show ?thesis using ok(2) by (simp add: free_ok_def)
  next
    case (Cons y ys)
    then have "y = id" "freeIds p = y # ys" using pick taken(2) by (simp_all add: stays_def)
    then have "id \<in> set (freeIds p)" by simp
    then show ?thesis using ok(2) by (simp add: free_ok_def)
  qed
  have u: "frames u = frames t" "resident u = resident t" "hand u = hand t" "pageFile u = pageFile t"
    "checksums u = checksums t" "pageCount u = pageCount t" "freeIds u = freeIds t"
    "id + 1 \<le> length (pageFrame u)" "length (pageFrame t) \<le> length (pageFrame u)"
    using growDirectory_spec [OF grow [unfolded g]] by auto
  define fr where "fr = \<lparr>pf_id = Some id, pf_pins = 0, pf_dirty = True,
                     pf_logged = False, pf_referenced = True, pf_page = (\<lambda>_. 0)\<rparr>"
  have rt: "resident t = resident q'" using t(2) by (intro resident_cong) (simp add: q'_def)
  have s: "frames p' = (frames q')[i := fr]" "resident p' = (resident q')(id := Some i)"
    "file_view p' = file_view q'" "hand p' = hand q'" "pageCount p' \<le> length (pageFrame p')"
    "id < length (pageFrame p')" "pageCount p' = pageCount t" "freeIds p' = freeIds t"
  proof -
    show "frames p' = (frames q')[i := fr]" using u t by (simp add: p' q'_def fr_def)
    show "resident p' = (resident q')(id := Some i)"
      using u rt by (auto simp: p' resident_set_directory fun_eq_iff)
    show "file_view p' = file_view q'" using u t by (intro file_view_cong) (simp_all add: p' q'_def)
    show "hand p' = hand q'" "id < length (pageFrame p')" "pageCount p' = pageCount t" "freeIds p' = freeIds t"
      using u t by (simp_all add: p' q'_def)
    have "pageCount q \<le> length (pageFrame q)" using q'(1) by (simp add: pool_ok_def q'_def)
    then show "pageCount p' \<le> length (pageFrame p')" using u t by (simp add: p')
  qed
  have gone: "resident q' id = None" using res new by (cases "resident q' id") auto
  have fr: "pf_id fr = Some id" "pf_dirty fr \<or> file_view q' id = Some (usable (pf_page fr))"
    by (simp_all add: fr_def)
  note inst = install_frame [OF q'(1,3,4) gone s(6) fr s(1-5)]
  show "pool_ok W p'" by (rule inst(1))
  show "pid < pageCount p'" "pid \<notin> set (freeIds p')" "resident p pid = None"
    using t s new pid by auto
  show "pool_view p' pid = Some (\<lambda>_. 0)" using inst(3) pid by (simp add: fr_def usable_def fun_eq_iff)
  show "x \<noteq> pid \<Longrightarrow> pool_view p x = Some v \<Longrightarrow> pool_view p' x = Some v"
    using inst(2) pid q'(2) by (auto simp: calm_def map_le_def dom_def)
  show "held p j \<Longrightarrow> held p' j \<and> pf_id (frames p' ! j) = pf_id (frames p ! j) \<and>
           usable (pf_page (frames p' ! j)) = usable (pf_page (frames p ! j))"
    using inst(4) q'(2) by (simp add: calm_def)
  have qp: "set (freeIds t) \<subseteq> set (freeIds p) - {id}" "pageCount p \<le> pageCount t"
    using t taken(2) by (simp_all add: stays_def)
  have "resident p' x = None" if "x \<in> set (freeIds p') \<or> pageCount p' \<le> x" for x
  proof -
    have x: "x \<in> set (freeIds p) \<or> pageCount p \<le> x" "x \<noteq> id" using that qp s t(8) by auto
    then have "resident p x = None" using ok(2) by (auto simp: free_ok_def)
    then have "resident q' x = None" using res [of x] by (cases "resident q' x") auto
    then show ?thesis using s(2) x by simp
  qed
  moreover have "x < pageCount p'" if "x \<in> set (freeIds p')" for x
  proof -
    have "x < pageCount p" using that qp(1) s(8) ok(2) by (auto simp: free_ok_def)
    then show ?thesis using qp(2) s(7) by simp
  qed
  ultimately show "free_ok p'" using t(10) s(8) by (simp add: free_ok_def)
  show "log_first p p'" using taken(3) u t by (simp add: log_first_def p')
  have same: "freeIds q = freeIds p" "pageCount q = pageCount p" using taken(2) by (simp_all add: stays_def)
  show "pid \<in> set (freeIds p) \<and> pageCount p' = pageCount p \<and> set (freeIds p') = set (freeIds p) - {pid} \<or>
         pid = pageCount p \<and> freeIds p = [] \<and> freeIds p' = [] \<and> pageCount p' = pageCount p + 1"
  proof (cases "freeIds p")
    case Nil
    then show ?thesis using pick same s(7,8) pid by auto
  next
    case (Cons y ys)
    then have "id = y" "t = q\<lparr>freeIds := ys\<rparr>" using pick same by auto
    moreover have "y \<notin> set ys" using ok(2) Cons by (simp add: free_ok_def)
    ultimately show ?thesis using same s(7,8) pid Cons by auto
  qed
qed


subsection \<open>Commit\<close>

text \<open>A log that holds exactly the frames \<open>frs\<close>.\<close>

definition log_whole :: "fhandle \<Rightarrow> frame list \<Rightarrow> bool" where
  "log_whole f frs \<longleftrightarrow> fsize f = WAL_HEADER + frame_len * length frs \<and>
     (\<forall>i < WAL_HEADER. fbytes f i = wal_header_bytes i) \<and> frames_at f WAL_HEADER frs"

lemma log_whole_cut:
  assumes "log_whole f frs"
  shows "log_cut f frs" and "whole_frames f frs = frs"
  using assms by (auto simp: log_whole_def log_cut_def whole_frames_def frames_at_def frame_at_def)

lemma log_whole_cong:
  "fbytes f = fbytes g \<Longrightarrow> fsize f = fsize g \<Longrightarrow> log_whole f frs = log_whole g frs"
  using frames_at_cong [of f g WAL_HEADER frs] by (simp add: log_whole_def)

lemma walAppend_whole:
  assumes w: "walFile w = Some f" "log_whole f frs"
    and run: "walAppend pid img c n root w = (Inr (), w')"
  shows "\<exists>f'. walFile w' = Some f' \<and> log_whole f' (frs @ [\<lparr>fr_page = pid, fr_commit = c, fr_count = n,
           fr_root = root, fr_image = img\<rparr>])"
proof -
  let ?fr = "\<lparr>fr_page = pid, fr_commit = c, fr_count = n, fr_root = root, fr_image = img\<rparr>"
  let ?h = "frame_header pid img c n root"
  obtain s g where seek: "fseek_end f = (s, g)" by force
  obtain s2 g2 where put1: "fwrite ?h FRAME_HEADER g = (s2, g2)" by force
  obtain s3 g3 where put2: "fwrite img PAGE_SIZE g2 = (s3, g3)" by force
  have ok: "s" "s2" "s3" and w': "walFile w' = Some g3"
    using run w(1) seek put1 put2 unfolding walAppend_def
    by (auto simp: Let_def simp del: lens split: if_splits)
  have g: "fbytes g = fbytes f" "fsize g = fsize f" "fpos g = fsize f"
    using fseek_set_ok [of "fsize f" f g] seek ok by (auto simp: fseek_end_def)
  have g2: "g2 = write_bytes ?h FRAME_HEADER (count_call g)" using fwrite_ok [of ?h FRAME_HEADER g g2] put1 ok by simp
  have g3: "g3 = write_bytes img PAGE_SIZE (count_call g2)" using fwrite_ok [of img PAGE_SIZE g2 g3] put2 ok by simp
  have size: "fsize g3 = fsize f + frame_len" using g by (simp add: g2 g3 PAGE_SIZE_def)
  have old: "fbytes g3 i = fbytes f i" if "i < fsize f" for i
    using that g by (simp add: g2 g3 write_bytes_def)
  have new: "fbytes g3 (fsize f + i) = frame_bytes ?fr i" if "i < frame_len" for i
    using that g by (auto simp: g2 g3 write_bytes_def frame_bytes_def PAGE_SIZE_def)
  have fs: "fsize f = WAL_HEADER + frame_len * length frs" using w(2) by (simp add: log_whole_def)
  have "frame_at g3 (WAL_HEADER + frame_len * k) ((frs @ [?fr]) ! k)" if k: "k < length (frs @ [?fr])" for k
  proof (cases "k < length frs")
    case True
    then have old_frame: "frame_at f (WAL_HEADER + frame_len * k) (frs ! k)" using w(2) by (simp add: log_whole_def frames_at_def)
    then show ?thesis using True old size by (auto simp: frame_at_def nth_append)
  next
    case False
    then have "k = length frs" using k by simp
    then show ?thesis using new size fs by (simp add: frame_at_def)
  qed
  then have "frames_at g3 WAL_HEADER (frs @ [?fr])" by (simp add: frames_at_def del: lens)
  moreover have "fbytes g3 i = wal_header_bytes i" if "i < WAL_HEADER" for i
    using old [of i] that fs w(2) by (simp add: log_whole_def)
  ultimately have "log_whole g3 (frs @ [?fr])" using size fs by (simp add: log_whole_def)
  then show ?thesis using w' by simp
qed

definition commit_frames :: "nat \<Rightarrow> nat list \<Rightarrow> pool \<Rightarrow> frame list" where
  "commit_frames lst is p =
     map (\<lambda>i. \<lparr>fr_page = of_nat (the (pf_id (frames p ! i))), fr_commit = (if i = lst then 1 else 0),
                fr_count = of_nat (pageCount p), fr_root = of_int (catalogRootPage p),
                fr_image = poolStampPage (pf_page (frames p ! i))\<rparr>)
       (filter (\<lambda>i. unlogged (frames p ! i)) is)"

definition stamped :: "pframe \<Rightarrow> pframe \<Rightarrow> bool" where
  "stamped f f' \<longleftrightarrow> f' = f \<or> f' = f\<lparr>pf_page := poolStampPage (pf_page f)\<rparr>"

lemma stamp_stamp [simp]: "poolStampPage (poolStampPage m) = poolStampPage m"
proof -
  have "putU32 at v (putU32 at v m) = putU32 at v m" for at v by (simp add: putU32_def fun_eq_iff)
  then show ?thesis using checksum_stamp [of m] by (simp add: poolStampPage_def)
qed

lemma commit_frames_cong:
  assumes "\<And>i. i \<in> set is \<Longrightarrow> frames p ! i = frames q ! i" "pageCount p = pageCount q"
    "catalogRootPage p = catalogRootPage q"
  shows "commit_frames lst is p = commit_frames lst is q"
proof -
  have "filter (\<lambda>i. unlogged (frames p ! i)) is = filter (\<lambda>i. unlogged (frames q ! i)) is"
    using assms(1) by (intro filter_cong) auto
  then show ?thesis using assms by (auto simp: commit_frames_def)
qed


lemma log_frames_step:
  assumes "unlogged (frames p ! i)" "i < length (frames p)"
    and "walAppend (of_nat (the (pf_id (frames p ! i)))) (poolStampPage (pf_page (frames p ! i)))
        (if i = lst then 1 else 0) (of_nat (pageCount p)) (of_int (catalogRootPage p)) (plog p) = (a, w)"
    and "q = (write_page i poolStampPage p)\<lparr>plog := w\<rparr>"
  shows "log_frames lst (i # is) p = (case a of Inl e \<Rightarrow> (Inl e, q) | Inr _ \<Rightarrow> log_frames lst is q)"
  using assms by (simp add: write_page_def frame_page_def Let_def split: sum.split)

lemma log_frames_ok:
  assumes "pool_ok W p" "set is \<subseteq> {..<length (frames p)}" "distinct is" "log_frames lst is p = (r, p')"
  shows "pool_ok W p' \<and> calm p p' \<and> pageFile p' = pageFile p \<and> pageCount p' = pageCount p \<and>
    resident p' = resident p \<and> writable p' = writable p \<and> freeIds p' = freeIds p \<and>
    length (frames p') = length (frames p) \<and>
    (\<forall>i < length (frames p). stamped (frames p ! i) (frames p' ! i)) \<and>
    (\<forall>f frs. r = Inr () \<longrightarrow> walFile (plog p) = Some f \<longrightarrow> log_whole f frs \<longrightarrow>
       (\<exists>f'. walFile (plog p') = Some f' \<and> log_whole f' (frs @ commit_frames lst is p)))"
  using assms
proof (induction "is" arbitrary: p)
  case Nil
  then show ?case by (auto simp: stamped_def commit_frames_def)
next
  case (Cons i "is")
  show ?case
  proof (cases "unlogged (frames p ! i)")
    case False
    then have "log_frames lst is p = (r, p')" using Cons.prems(4) by simp
    from Cons.IH [OF Cons.prems(1) _ _ this] Cons.prems show ?thesis
      using False by (simp add: commit_frames_def)
  next
    case True
    have i: "i < length (frames p)" using Cons.prems(2) by simp
    let ?fr = "\<lparr>fr_page = of_nat (the (pf_id (frames p ! i))), fr_commit = (if i = lst then 1 else 0),
                fr_count = of_nat (pageCount p), fr_root = of_int (catalogRootPage p),
                fr_image = poolStampPage (pf_page (frames p ! i))\<rparr>"
    obtain a w where app: "walAppend (of_nat (the (pf_id (frames p ! i)))) (poolStampPage (pf_page (frames p ! i)))
        (if i = lst then 1 else 0) (of_nat (pageCount p)) (of_int (catalogRootPage p)) (plog p) = (a, w)" by force
    define q where "q = (write_page i poolStampPage p)\<lparr>plog := w\<rparr>"
    have nth: "frames q ! j = (if j = i then (frames p ! i)\<lparr>pf_page := poolStampPage (pf_page (frames p ! i))\<rparr>
        else frames p ! j)" if "j < length (frames p)" for j using that i by (simp add: q_def write_page_def)
    have sel: "length (frames q) = length (frames p)" "pageFrame q = pageFrame p" "pageFile q = pageFile p"
      "pageCount q = pageCount p" "hand q = hand p" "checksums q = checksums p" "plog q = w"
      "writable q = writable p" "catalogRootPage q = catalogRootPage p" "freeIds q = freeIds p"
      by (simp_all add: q_def write_page_def)
    have views: "file_view q = file_view p" "resident q = resident p"
      using sel by (auto intro: file_view_cong resident_cong)
    have hand: "hand p < max 1 (length (frames p))" using Cons.prems(1) by (simp add: pool_ok_def)
    have q: "pool_ok W q \<and> calm p q"
      by (rule settle [OF Cons.prems(1)]) (use nth sel views hand in \<open>auto split: if_splits\<close>)
    have st: "stamped (frames p ! j) (frames q ! j)" if "j < length (frames p)" for j
      using nth [OF that] by (simp add: stamped_def)
    have rest: "commit_frames lst is q = commit_frames lst is p"
      by (rule commit_frames_cong) (use Cons.prems nth sel in auto)
    have whole: "commit_frames lst (i # is) p = ?fr # commit_frames lst is p"
      using True by (simp add: commit_frames_def)
    have run: "(case a of Inl e \<Rightarrow> (Inl e, q) | Inr _ \<Rightarrow> log_frames lst is q) = (r, p')"
      using Cons.prems(4) log_frames_step [OF True i app q_def] by simp
    show ?thesis
    proof (cases a)
      case (Inl e)
      then have "p' = q" "r = Inl e" using run by auto
      then show ?thesis using q sel views st by simp
    next
      case (Inr u)
      then have run: "log_frames lst is q = (r, p')" using run by simp
      from Cons.IH [OF conjunct1 [OF q] _ _ run] Cons.prems sel
      have IH: "pool_ok W p'" "calm q p'" "pageFile p' = pageFile p" "pageCount p' = pageCount p"
        "resident p' = resident q" "length (frames p') = length (frames p)" "writable p' = writable p"
        "freeIds p' = freeIds p" "\<And>j. j < length (frames p) \<Longrightarrow> stamped (frames q ! j) (frames p' ! j)"
        and log: "\<And>f frs. r = Inr () \<Longrightarrow> walFile (plog q) = Some f \<Longrightarrow> log_whole f frs \<Longrightarrow>
       \<exists>f'. walFile (plog p') = Some f' \<and> log_whole f' (frs @ commit_frames lst is q)"
        by auto
      have "\<exists>f'. walFile (plog p') = Some f' \<and> log_whole f' (frs @ commit_frames lst (i # is) p)"
        if "r = Inr ()" "walFile (plog p) = Some f" "log_whole f frs" for f frs
      proof -
        have "a = Inr ()" using Inr by simp
        with walAppend_whole [OF that(2,3)] app
        obtain f1 where "walFile w = Some f1" "log_whole f1 (frs @ [?fr])" by metis
        from log [OF that(1) _ this(2)] this(1) sel(7) show ?thesis by (simp add: rest whole)
      qed
      moreover have "stamped (frames p ! j) (frames p' ! j)" if "j < length (frames p)" for j
        using st [OF that] IH(9) [OF that] by (auto simp: stamped_def)
      ultimately show ?thesis using IH calm_trans [OF conjunct2 [OF q]] views by auto
    qed
  qed
qed


lemma last_unlogged_spec:
  "last_unlogged p = None \<longleftrightarrow> (\<forall>i < length (frames p). \<not> unlogged (frames p ! i))"
  "last_unlogged p = Some l \<Longrightarrow> l < length (frames p) \<and> unlogged (frames p ! l) \<and>
     (\<forall>i < length (frames p). l < i \<longrightarrow> \<not> unlogged (frames p ! i))"
proof -
  let ?P = "\<lambda>i. unlogged (frames p ! i)"
  have gen: "(case filter ?P (rev [0..<n]) of [] \<Rightarrow> \<forall>i < n. \<not> ?P i
      | l # _ \<Rightarrow> l < n \<and> ?P l \<and> (\<forall>i < n. l < i \<longrightarrow> \<not> ?P i))" for n
    by (induction n) (auto simp: less_Suc_eq split: list.splits)
  show "last_unlogged p = None \<longleftrightarrow> (\<forall>i < length (frames p). \<not> unlogged (frames p ! i))"
    using gen [of "length (frames p)"] by (auto simp: last_unlogged_def split: list.splits)
  show "last_unlogged p = Some l \<Longrightarrow> l < length (frames p) \<and> unlogged (frames p ! l) \<and>
     (\<forall>i < length (frames p). l < i \<longrightarrow> \<not> unlogged (frames p ! i))"
    using gen [of "length (frames p)"] by (auto simp: last_unlogged_def split: list.splits)
qed

text \<open>The commit marker is on the last frame of the batch, so the whole batch is committed.\<close>

lemma commit_frames_committed:
  assumes "l < length (frames p)" "unlogged (frames p ! l)"
    "\<forall>i < length (frames p). l < i \<longrightarrow> \<not> unlogged (frames p ! i)"
  shows "committed (frs @ commit_frames l [0..<length (frames p)] p) =
    frs @ commit_frames l [0..<length (frames p)] p"
proof -
  let ?n = "length (frames p)"
  have "[0..<?n] = [0..<l] @ l # [Suc l..<?n]" using assms(1) by (metis less_imp_add_positive upt_add_eq_append upt_conv_Cons le0 add_0 less_imp_le_nat le_add_diff_inverse)
  moreover have "filter (\<lambda>i. unlogged (frames p ! i)) [Suc l..<?n] = []"
    using assms(3) by (simp add: filter_empty_conv)
  ultimately have "\<exists>xs fr. commit_frames l [0..<?n] p = xs @ [fr] \<and> fr_commit fr \<noteq> 0"
    using assms(2) by (simp add: commit_frames_def)
  then obtain xs fr where "commit_frames l [0..<?n] p = xs @ [fr]" "fr_commit fr \<noteq> 0" by auto
  then show ?thesis by (simp add: append_assoc [symmetric] del: append_assoc)
qed

lemma mark_logged_ok:
  assumes "pool_ok W p"
  shows "pool_ok W (p\<lparr>frames := map mark_logged (frames p)\<rparr>) \<and> calm p (p\<lparr>frames := map mark_logged (frames p)\<rparr>)"
proof -
  let ?q = "p\<lparr>frames := map mark_logged (frames p)\<rparr>"
  have "file_view ?q = file_view p" by (rule file_view_cong) simp_all
  then show ?thesis
    by (intro settle [OF assms]) (use assms in \<open>auto simp: pool_ok_def mark_logged_def\<close>)
qed

lemma poolCommit_some:
  assumes ok: "pool_ok W p" and run: "poolCommit p = (r, p')"
    and opened: "walIsOpen (plog p)" and lst: "last_unlogged p = Some l"
  shows "pool_ok W p' \<and> calm p p' \<and> pageFile p' = pageFile p \<and> pageCount p' = pageCount p \<and>
     resident p' = resident p \<and> writable p' = writable p \<and> freeIds p' = freeIds p \<and> length (frames p') = length (frames p)"
    and "r \<noteq> Inr () \<Longrightarrow> i < length (frames p) \<Longrightarrow> pf_logged (frames p' ! i) = pf_logged (frames p ! i)"
    and "r = Inr () \<Longrightarrow> i < length (frames p) \<Longrightarrow> \<not> unlogged (frames p' ! i)"
    and "r = Inr () \<Longrightarrow> walFile (plog p) = Some f \<Longrightarrow> log_whole f frs \<Longrightarrow>
      \<exists>f'. walFile (plog p') = Some f' \<and> synced f' \<and>
           log_whole f' (frs @ commit_frames l [0..<length (frames p)] p)"
proof -
  obtain a q where loop: "log_frames l [0..<length (frames p)] p = (a, q)" by force
  have q: "pool_ok W q" "calm p q" "pageFile q = pageFile p" "pageCount q = pageCount p"
    "resident q = resident p" "writable q = writable p" "freeIds q = freeIds p" "length (frames q) = length (frames p)"
    "\<And>i. i < length (frames p) \<Longrightarrow> stamped (frames p ! i) (frames q ! i)"
    and log: "\<And>f frs. a = Inr () \<Longrightarrow> walFile (plog p) = Some f \<Longrightarrow> log_whole f frs \<Longrightarrow>
       \<exists>f'. walFile (plog q) = Some f' \<and> log_whole f' (frs @ commit_frames l [0..<length (frames p)] p)"
    using log_frames_ok [OF ok _ _ loop] by (auto simp: atLeast0LessThan)
  obtain b w where sync: "walSync (plog q) = (b, w)" by force
  define t where "t = q\<lparr>plog := w\<rparr>"
  have t: "frames t = frames q" "pageFrame t = pageFrame q" "hand t = hand q" "pageFile t = pageFile q"
    "checksums t = checksums q" "pageCount t = pageCount q" "writable t = writable q" "freeIds t = freeIds q" by (simp_all add: t_def)
  have okt: "pool_ok W t" "calm q t" "resident t = resident q"
    using same_cache_ok [of q t, OF _ q(1)] t file_view_cong [of t q] resident_cong [of t q]
    by (simp_all add: same_cache_def)
  have flag: "pf_logged (frames q ! i) = pf_logged (frames p ! i)" if "i < length (frames p)" for i
    using q(9) [OF that] by (auto simp: stamped_def)
  note t_ok = okt q t
  have run: "(r, p') = (if a \<noteq> Inr () then (a, q)
      else if b \<noteq> Inr () then (b, t) else (Inr (), t\<lparr>frames := map mark_logged (frames t)\<rparr>))"
    using run opened lst loop sync
    by (cases a; cases b) (auto simp: poolCommit_def t_def)
  define m where "m = t\<lparr>frames := map mark_logged (frames t)\<rparr>"
  have m: "pool_ok W m" "calm t m" "resident m = resident t"
    using mark_logged_ok [OF okt(1)] resident_cong [of m t] by (simp_all add: m_def)
  have cases: "a \<noteq> Inr () \<and> r = a \<and> p' = q \<or> a = Inr () \<and> b \<noteq> Inr () \<and> r = b \<and> p' = t
      \<or> a = Inr () \<and> b = Inr () \<and> r = Inr () \<and> p' = m"
    using run by (auto simp: m_def split: if_splits)
  have "calm p t" "calm p m" using calm_trans q(2) okt(2) m(2) by blast+
  then show "pool_ok W p' \<and> calm p p' \<and> pageFile p' = pageFile p \<and> pageCount p' = pageCount p \<and>
     resident p' = resident p \<and> writable p' = writable p \<and> freeIds p' = freeIds p \<and> length (frames p') = length (frames p)"
    using cases q okt m t by (auto simp: m_def)
  show "r \<noteq> Inr () \<Longrightarrow> i < length (frames p) \<Longrightarrow> pf_logged (frames p' ! i) = pf_logged (frames p ! i)"
    using cases flag t by auto
  show "r = Inr () \<Longrightarrow> i < length (frames p) \<Longrightarrow> \<not> unlogged (frames p' ! i)"
    using cases q(8) t by (auto simp: m_def mark_logged_def unlogged_def)
  show "r = Inr () \<Longrightarrow> walFile (plog p) = Some f \<Longrightarrow> log_whole f frs \<Longrightarrow>
      \<exists>f'. walFile (plog p') = Some f' \<and> synced f' \<and>
           log_whole f' (frs @ commit_frames l [0..<length (frames p)] p)"
  proof -
    assume r: "r = Inr ()" and f: "walFile (plog p) = Some f" "log_whole f frs"
    have ab: "a = Inr ()" "b = Inr ()" "p' = m" using cases r by auto
    obtain g where g: "walFile (plog q) = Some g" "log_whole g (frs @ commit_frames l [0..<length (frames p)] p)"
      using log [OF ab(1) f] by auto
    obtain h where h: "walFile w = Some h" "synced h" "fbytes h = fbytes g" "fsize h = fsize g"
      using sync ab(2) g(1) fsync_ok [of "count_call g"]
      by (auto simp: walSync_def walSyncHandle_def split: if_splits prod.splits)
    then show ?thesis using log_whole_cong [OF h(3,4)] g(2) ab(3) by (simp add: m_def t_def)
  qed
qed

lemma poolCommit_idle:
  "\<not> walIsOpen (plog p) \<or> last_unlogged p = None \<Longrightarrow> poolCommit p = (Inr (), p)"
  by (auto simp: poolCommit_def)


subsection \<open>Checkpoint\<close>

lemma flush_dirty_ok:
  assumes "pool_ok W p" "set is \<subseteq> {..<length (frames p)}" "flush_dirty is p = (r, p')"
  shows "pool_ok W p' \<and> calm p p' \<and> steady p p' \<and> resident p' = resident p \<and>
    (r = Inr () \<longrightarrow> (\<forall>i \<in> set is. pf_id (frames p' ! i) = None \<or> \<not> pf_dirty (frames p' ! i)))"
  using assms
proof (induction "is" arbitrary: p)
  case Nil
  then show ?case by simp
next
  case (Cons i "is")
  have i: "i < length (frames p)" using Cons.prems(2) by simp
  show ?case
  proof (cases "pf_id (frames p ! i) = None \<or> \<not> pf_dirty (frames p ! i)")
    case True
    then have "flush_dirty is p = (r, p')" using Cons.prems(3) by auto
    from Cons.IH [OF Cons.prems(1) _ this] Cons.prems(2) True i show ?thesis
      by (auto simp: steady_def)
  next
    case False
    then obtain pid where pid: "pf_id (frames p ! i) = Some pid" and dirty: "pf_dirty (frames p ! i)" by auto
    obtain a q where fl: "flushFrame i p = (a, q)" by force
    have q: "pool_ok W q" "calm p q" "steady p q" "pageFrame q = pageFrame p"
      "a = Inr () \<longrightarrow> \<not> pf_dirty (frames q ! i)"
      using flushFrame_settles [OF Cons.prems(1) i pid dirty fl] by auto
    have res: "resident q = resident p" using q(4) by (rule resident_cong)
    have run: "andThen (a, q) (\<lambda>_ p. flush_dirty is p) = (r, p')"
      using Cons.prems(3) False fl by auto
    show ?thesis
    proof (cases a)
      case (Inl e)
      then have "p' = q" "r = Inl e" using run by auto
      then show ?thesis using q res by simp
    next
      case (Inr u)
      then have "flush_dirty is q = (r, p')" using run by simp
      moreover have "length (frames q) = length (frames p)" using q(3) by (simp add: steady_def)
      ultimately have IH: "pool_ok W p'" "calm q p'" "steady q p'" "resident p' = resident q"
        "r = Inr () \<Longrightarrow> \<forall>j \<in> set is. pf_id (frames p' ! j) = None \<or> \<not> pf_dirty (frames p' ! j)"
        using Cons.IH [OF q(1)] Cons.prems(2) by auto
      have "\<not> pf_dirty (frames p' ! i)" using IH(3) q(5) Inr i q(3) by (auto simp: steady_def)
      then show ?thesis
        using IH calm_trans [OF q(2) IH(2)] steady_trans [OF q(3) IH(3)] res by auto
    qed
  qed
qed

lemma walSyncHandle_frame:
  assumes "walSyncHandle (Some f) = (c, g)"
  shows "\<exists>h. g = Some h \<and> fbytes h = fbytes f \<and> fsize h = fsize f \<and> (c = Inr () \<longrightarrow> synced h)"
proof (cases "fault_now f")
  case (Some k)
  then show ?thesis using assms by (auto simp: walSyncHandle_def)
next
  case None
  obtain s h where sync: "fsync (count_call f) = (s, h)" by force
  have "fbytes h = fbytes f" "fsize h = fsize f"
    using sync by (auto simp: fsync_def split: if_splits)
  then show ?thesis
    using assms None sync fsync_ok [of "count_call f" h] by (auto simp: walSyncHandle_def split: if_splits)
qed

lemma poolWriteHeader_ok:
  assumes ok: "pool_ok W p" and run: "poolWriteHeader p = (r, p')"
  shows "pool_ok W p' \<and> calm p p' \<and> frames p' = frames p \<and> pageFrame p' = pageFrame p \<and>
    pageCount p' = pageCount p \<and> plog p' = plog p \<and> catalogRootPage p' = catalogRootPage p \<and>
    freeIds p' = freeIds p \<and> writable p' = writable p \<and> (pageFile p' = None \<longleftrightarrow> pageFile p = None)"
    and "r = Inr () \<Longrightarrow> writable p \<Longrightarrow> pageFile p' = Some f' \<Longrightarrow>
      getU32 12 (fbytes f') = of_nat (pageCount p) \<and> getU32 16 (fbytes f') = of_int (catalogRootPage p)"
proof -
  have both: "(pool_ok W p' \<and> calm p p' \<and> frames p' = frames p \<and> pageFrame p' = pageFrame p \<and>
    pageCount p' = pageCount p \<and> plog p' = plog p \<and> catalogRootPage p' = catalogRootPage p \<and>
    freeIds p' = freeIds p \<and> writable p' = writable p \<and> (pageFile p' = None \<longleftrightarrow> pageFile p = None)) \<and>
    (r = Inr () \<longrightarrow> writable p \<longrightarrow> pageFile p' = Some f' \<longrightarrow>
      getU32 12 (fbytes f') = of_nat (pageCount p) \<and> getU32 16 (fbytes f') = of_int (catalogRootPage p))" for f'
  proof (cases "pageFile p = None \<or> \<not> writable p")
    case True
    then have "p' = p" using run by (auto simp: poolWriteHeader_def split: option.splits)
    then show ?thesis using ok True by auto
  next
    case False
    then obtain f where f: "pageFile p = Some f" and w: "writable p" by auto
    obtain sought g where seek: "fseek_set 12 f = (sought, g)" by force
    let ?m = "header_fields (pageCount p) (catalogRootPage p)"
    obtain wrote h where put: "fwrite ?m 8 g = (wrote, h)" by force
    have g: "fbytes g = fbytes f" "fsize g = fsize f" using fseek_set_frame [OF seek] by auto
    define e where "e = (if sought then h else g)"
    have p': "p' = p\<lparr>pageFile := Some e\<rparr>" and r: "r = Inr () \<longrightarrow> sought \<and> wrote"
      using run f w seek put by (auto simp: poolWriteHeader_def e_def split: if_splits)
    have h: "h = write_bytes ?m (if wrote then 8 else min (the (fault_now g)) 7) (count_call g)"
      using put by (auto simp: fwrite_def split: option.splits)
    have size: "fsize f \<le> fsize e" using g by (auto simp: e_def h)
    have same: "fbytes e i = fbytes f i" if "PAGE_SIZE \<le> i" "i < fsize f" for i
    proof (cases sought)
      case True
      then have "fpos g = 12" using fseek_set_ok [of 12 f g] seek by simp
      then show ?thesis using that g True by (auto simp: e_def h write_bytes_def PAGE_SIZE_def)
    qed (use g in \<open>simp add: e_def\<close>)
    have keep: "file_view p' pid = Some v" if v: "file_view p pid = Some v" for pid v
    proof -
      have in_file: "pageOffset pid + PAGE_SIZE \<le> fsize f" "sound_image (checksums p) (file_image f pid)"
        and v: "v = usable (file_image f pid)"
        using v f by (auto simp: file_view_def split: if_splits)
      have img: "file_image e pid i = file_image f pid i" if "i < PAGE_SIZE" for i
        using same that in_file by (simp add: file_image_def pageOffset_def)
      have "sound_image (checksums p) (file_image e pid)"
        using sound_image_cong [of "file_image e pid" "file_image f pid"] img in_file by simp
      moreover have "usable (file_image e pid) = v" unfolding v by (rule usable_eqI) (simp add: img PAGE_SIZE_def)
      ultimately show ?thesis using in_file size by (simp add: p' file_view_def)
    qed
    have hand: "hand p < max 1 (length (frames p))" using ok by (simp add: pool_ok_def)
    have "pool_ok W p' \<and> calm p p'"
      by (rule settle [OF ok]) (use keep hand in \<open>auto simp: p'\<close>)
    moreover have "getU32 12 (fbytes e) = of_nat (pageCount p) \<and> getU32 16 (fbytes e) = of_int (catalogRootPage p)"
      if "r = Inr ()"
    proof -
      have ok: "sought" "wrote" using r that by auto
      then have pos: "fpos g = 12" using fseek_set_ok [of 12 f g] seek by simp
      have at: "fbytes e (12 + i) = ?m i" if "i < 8" for i
        using that ok pos by (simp add: e_def h write_bytes_def)
      have "getU32 12 (fbytes e) = getU32 0 ?m" "getU32 16 (fbytes e) = getU32 4 ?m"
        using at [of 0] at [of 1] at [of 2] at [of 3] at [of 4] at [of 5] at [of 6] at [of 7]
        unfolding getU32_def by (simp_all add: numeral_2_eq_2 [symmetric])
      then show ?thesis by (simp add: header_fields_def mem)
    qed
    ultimately show ?thesis using f by (auto simp: p')
  qed
  show "pool_ok W p' \<and> calm p p' \<and> frames p' = frames p \<and> pageFrame p' = pageFrame p \<and>
    pageCount p' = pageCount p \<and> plog p' = plog p \<and> catalogRootPage p' = catalogRootPage p \<and>
    freeIds p' = freeIds p \<and> writable p' = writable p \<and> (pageFile p' = None \<longleftrightarrow> pageFile p = None)"
    using both by blast
  show "r = Inr () \<Longrightarrow> writable p \<Longrightarrow> pageFile p' = Some f' \<Longrightarrow>
      getU32 12 (fbytes f') = of_nat (pageCount p) \<and> getU32 16 (fbytes f') = of_int (catalogRootPage p)"
    using both by blast
qed


lemma checkpoint_ok:
  assumes ok: "pool_ok W p" and run: "poolCheckpoint p = (r, p')"
  shows "pool_ok W p' \<and> calm p p' \<and>
    (plog p' \<noteq> plog p \<longrightarrow>
      (\<exists>f. pageFile p' = Some f \<and> synced f \<and> \<not> poolHasDirty p' \<and>
           getU32 12 (fbytes f) = of_nat (pageCount p) \<and>
           getU32 16 (fbytes f) = of_int (catalogRootPage p)))"
proof (cases "\<not> writable p \<or> pageFile p = None")
  case True
  then have "p' = p" using run by (simp add: poolCheckpoint_def)
  then show ?thesis using ok by simp
next
  case False
  obtain a q where fl: "flush_dirty [0..<length (frames p)] p = (a, q)" by force
  have q: "pool_ok W q" "calm p q" "steady p q"
    "a = Inr () \<longrightarrow> (\<forall>i < length (frames p). pf_id (frames q ! i) = None \<or> \<not> pf_dirty (frames q ! i))"
    using flush_dirty_ok [OF ok _ fl] by (auto simp: atLeast0LessThan)
  obtain b t where hd: "poolWriteHeader q = (b, t)" by force
  note t = poolWriteHeader_ok [OF q(1) hd]
  have ct: "calm p t" using calm_trans [OF q(2)] t(1) by blast
  obtain c g where sync: "walSyncHandle (pageFile t) = (c, g)" by force
  define u where "u = t\<lparr>pageFile := g\<rparr>"
  obtain f where f: "pageFile t = Some f" using t(1) q(3) False by (auto simp: steady_def)
  obtain h where h: "g = Some h" "fbytes h = fbytes f" "fsize h = fsize f" "c = Inr () \<longrightarrow> synced h"
    using walSyncHandle_frame [of f c g] sync f by auto
  have "file_view u = file_view t"
  proof
    have "file_image h = file_image f" using h(2) by (simp add: file_image_def fun_eq_iff)
    then show "file_view u x = file_view t x" for x using h f by (simp add: file_view_def u_def)
  qed
  then have sc: "same_cache t u" by (simp add: same_cache_def u_def)
  have u: "pool_ok W u" "calm p u" using same_cache_ok [OF sc] t(1) calm_trans [OF ct] by auto
  obtain d w where tr: "walTruncate (plog u) = (d, w)" by force
  define v where "v = u\<lparr>plog := w\<rparr>"
  have "same_cache u v" using file_view_cong [of v u] by (simp add: same_cache_def v_def)
  then have v: "pool_ok W v" "calm p v" using same_cache_ok [of u v] u calm_trans [OF u(2)] by auto
  have cases: "a \<noteq> Inr () \<and> p' = q \<or> a = Inr () \<and> b \<noteq> Inr () \<and> p' = t \<or>
      a = Inr () \<and> b = Inr () \<and> c \<noteq> Inr () \<and> p' = u \<or> a = Inr () \<and> b = Inr () \<and> c = Inr () \<and> p' = v"
    using run False fl hd sync tr
    by (cases a; cases b; cases c) (auto simp: poolCheckpoint_def u_def v_def)
  have logs: "plog q = plog p" "plog t = plog p" "plog u = plog p"
    using q(3) t(1) by (auto simp: steady_def u_def)
  have st: "length (frames q) = length (frames p)" "pageCount q = pageCount p" "writable q"
    "catalogRootPage q = catalogRootPage p" "pageFile q \<noteq> None"
    using q(3) False by (auto simp: steady_def)
  show ?thesis
  proof (cases "c = Inr () \<and> p' = v \<and> a = Inr () \<and> b = Inr ()")
    case True
    have "pageFile v = Some h" by (simp add: v_def u_def h)
    moreover have "\<not> poolHasDirty v"
    proof -
      have "frames v = frames q" using t(1) by (simp add: v_def u_def)
      then show ?thesis using q(4) True st(1) by (fastforce simp: poolHasDirty_def in_set_conv_nth)
    qed
    ultimately show ?thesis using v True t(2) [of f] st f h by (auto simp: v_def u_def)
  next
    case False
    then have "p' = q \<or> p' = t \<or> p' = u" using cases by auto
    then show ?thesis using q t(1) ct u logs by auto
  qed
qed


lemma poolCheckpoint_dir:
  assumes ok: "pool_ok W p" and run: "poolCheckpoint p = (r, p')"
  shows "freeIds p' = freeIds p \<and> resident p' = resident p \<and> pageCount p' = pageCount p"
proof (cases "\<not> writable p \<or> pageFile p = None")
  case True
  then show ?thesis using run by (simp add: poolCheckpoint_def)
next
  case False
  obtain a q where fl: "flush_dirty [0..<length (frames p)] p = (a, q)" by force
  have q: "pool_ok W q" "steady p q" "resident q = resident p"
    using flush_dirty_ok [OF ok _ fl] by (auto simp: atLeast0LessThan)
  obtain b t where hd: "poolWriteHeader q = (b, t)" by force
  note t = poolWriteHeader_ok(1) [OF q(1) hd]
  have "freeIds p' = freeIds q \<and> pageFrame p' = pageFrame q \<and> pageCount p' = pageCount q"
    using run False fl hd t
    by (cases a; cases b) (auto simp: poolCheckpoint_def Let_def split: sum.splits prod.splits)
  then show ?thesis using q resident_cong [of p' q] by (simp add: steady_def)
qed

subsection \<open>A client of the pool\<close>

text \<open>
  One call of the pool by a caller that keeps the pool's rules: it pins only pages that are not
  free, writes only to a frame it holds, marks what it wrote when it unpins, and frees a page only
  when nobody holds it. \<open>W\<close> is the set of frames written to and not yet unpinned.
\<close>

inductive pool_step :: "nat set \<times> pool \<Rightarrow> nat set \<times> pool \<Rightarrow> bool" where
  pin: "pid \<notin> set (freeIds p) \<Longrightarrow> poolPin (int pid) p = (r, p') \<Longrightarrow> pool_step (W, p) (W, p')"
| unpin: "resident p pid = Some i \<Longrightarrow> dirty \<or> i \<notin> W \<Longrightarrow>
    pool_step (W, p) (W - {i}, poolUnpin (int pid) dirty p)"
| change: "held p i \<Longrightarrow> pool_step (W, p) (insert i W, write_page i g p)"
| alloc: "poolAllocate p = (Inr pid, p') \<Longrightarrow> pool_step (W, p) (W, p')"
| free: "pid < pageCount p \<Longrightarrow> pid \<notin> set (freeIds p) \<Longrightarrow> (\<forall>i. resident p pid = Some i \<longrightarrow> \<not> held p i) \<Longrightarrow>
    pool_step (W, p) (W, poolFree pid p)"
| commit: "poolCommit p = (r, p') \<Longrightarrow> pool_step (W, p) (W, p')"
| checkpoint: "poolCheckpoint p = (r, p') \<Longrightarrow> pool_step (W, p) (W, p')"

definition pool_good :: "nat set \<times> pool \<Rightarrow> bool" where
  "pool_good s \<longleftrightarrow> pool_ok (fst s) (snd s) \<and> free_ok (snd s)"

lemma free_ok_cong:
  "free_ok p \<Longrightarrow> freeIds q = freeIds p \<Longrightarrow> pageCount q = pageCount p \<Longrightarrow>
   (\<And>x. resident p x = None \<Longrightarrow> x \<in> set (freeIds p) \<or> pageCount p \<le> x \<Longrightarrow> resident q x = None) \<Longrightarrow> free_ok q"
  by (auto simp: free_ok_def)

lemma commit_good:
  assumes "pool_ok W p" "free_ok p" "poolCommit p = (r, p')"
  shows "pool_ok W p' \<and> free_ok p' \<and> calm p p'"
proof (cases "walIsOpen (plog p) \<and> last_unlogged p \<noteq> None")
  case False
  then show ?thesis using assms poolCommit_idle [of p] by auto
next
  case True
  then obtain l where "last_unlogged p = Some l" by auto
  with poolCommit_some(1) [OF assms(1,3)] True
  have *: "pool_ok W p'" "calm p p'" "freeIds p' = freeIds p" "pageCount p' = pageCount p" "resident p' = resident p"
    by auto
  then show ?thesis using free_ok_cong [OF assms(2), of p'] by auto
qed

lemma pool_step_good:
  assumes "pool_step s t" "pool_good s"
  shows "pool_good t"
  using assms
proof (induction rule: pool_step.induct)
  case (pin pid p r p' W)
  then have p: "pool_ok W p" "free_ok p" by (simp_all add: pool_good_def)
  have pin_ok: "pool_ok W p'" "stays p p'"
    "\<And>x. resident p x = None \<Longrightarrow> x \<noteq> pid \<or> pageCount p \<le> pid \<Longrightarrow> resident p' x = None"
    using pinLocked_ok [OF p(1), of pid r p'] pin(2) by (auto simp: poolPin_def)
  have "free_ok p'"
    by (rule free_ok_cong [OF p(2)]) (use pin_ok pin(1) in \<open>auto simp: stays_def\<close>)
  then show ?case using pin_ok by (simp add: pool_good_def)
next
  case (unpin p pid i dirty W)
  then have p: "pool_ok W p" "free_ok p" by (simp_all add: pool_good_def)
  let ?q = "unpinLocked (int pid) dirty p"
  have "freeIds ?q = freeIds p" "pageCount ?q = pageCount p" "resident ?q = resident p"
    by (simp_all add: unpinLocked_def split: option.split)
  then show ?case
    using unpinLocked_ok(1) [OF p(1) unpin(1,2)] free_ok_cong [OF p(2), of ?q]
    by (simp add: pool_good_def poolUnpin_def)
next
  case (change p i W g)
  then have p: "pool_ok W p" "free_ok p" by (simp_all add: pool_good_def)
  obtain pid where "pf_id (frames p ! i) = Some pid" using change(1) by (auto simp: held_def)
  then show ?case
    using write_page_ok(1) [OF p(1) change(1)] free_ok_cong [OF p(2), of "write_page i g p"]
    by (simp add: pool_good_def write_page_def)
next
  case (alloc p pid p' W)
  then show ?case using allocateLocked_ok(1,2) [of W p pid p'] by (simp add: pool_good_def poolAllocate_def)
next
  case (free pid p W)
  then have p: "pool_ok W p" "free_ok p" by (simp_all add: pool_good_def)
  have "i \<notin> W" if "resident p pid = Some i" for i using free(3) that pool_ok_held [OF p(1)] by blast
  then show ?case using freeLocked_ok(1,2) [OF p free(1,2)] by (simp add: pool_good_def poolFree_def)
next
  case (commit p r p' W)
  then show ?case using commit_good [of W p r p'] by (simp add: pool_good_def)
next
  case (checkpoint p r p' W)
  then have p: "pool_ok W p" "free_ok p" by (simp_all add: pool_good_def)
  show ?case
    using checkpoint_ok [OF p(1) checkpoint(1)] poolCheckpoint_dir [OF p(1) checkpoint(1)]
      free_ok_cong [OF p(2), of p'] by (simp add: pool_good_def)
qed


subsection \<open>Rollback\<close>

lemma drop_dirty_ok:
  assumes "pool_ok {} p" "i + length fs = length (frames p)"
    "\<And>k. k < length fs \<Longrightarrow> frames p ! (i + k) = fs ! k"
  shows "pool_ok {} (drop_dirty i fs p) \<and> file_view (drop_dirty i fs p) = file_view p \<and>
    length (frames (drop_dirty i fs p)) = length (frames p) \<and>
    (\<forall>j < i. frames (drop_dirty i fs p) ! j = frames p ! j) \<and>
    (\<forall>j. i \<le> j \<longrightarrow> j < length (frames p) \<longrightarrow> pf_id (frames (drop_dirty i fs p) ! j) = None
        \<or> \<not> pf_dirty (frames (drop_dirty i fs p) ! j))"
  using assms
proof (induction fs arbitrary: i p)
  case Nil
  then show ?case by simp
next
  case (Cons f fs)
  have f: "frames p ! i = f" using Cons.prems(3) [of 0] by simp
  have later: "frames p ! (Suc i + k) = fs ! k" if "k < length fs" for k
    using Cons.prems(3) [of "Suc k"] that by simp
  show ?case
  proof (cases "pf_id f = None \<or> \<not> pf_dirty f")
    case True
    then have "drop_dirty i (f # fs) p = drop_dirty (Suc i) fs p" by (auto split: option.split)
    moreover have "pool_ok {} (drop_dirty (Suc i) fs p) \<and> file_view (drop_dirty (Suc i) fs p) = file_view p \<and>
      length (frames (drop_dirty (Suc i) fs p)) = length (frames p) \<and>
      (\<forall>j < Suc i. frames (drop_dirty (Suc i) fs p) ! j = frames p ! j) \<and>
      (\<forall>j. Suc i \<le> j \<longrightarrow> j < length (frames p) \<longrightarrow> pf_id (frames (drop_dirty (Suc i) fs p) ! j) = None
        \<or> \<not> pf_dirty (frames (drop_dirty (Suc i) fs p) ! j))"
      by (rule Cons.IH [OF Cons.prems(1)]) (use Cons.prems(2) later in auto)
    ultimately show ?thesis
      using f True by (metis le_less_Suc_eq not_less_eq_eq less_SucI nat_less_le lessI)
  next
    case False
    then obtain pid where pid: "pf_id (frames p ! i) = Some pid" and dirty: "pf_dirty f" using f by auto
    define q where "q = set_directory pid None (update_frame i release_frame p)"
    have i: "i < length (frames p)" using Cons.prems(2) by simp
    have q: "pool_ok {} q"
      by (rule drop_frame(1) [OF Cons.prems(1) i pid]) (auto simp: q_def release_frame_def)
    have "drop_dirty i (f # fs) p = drop_dirty (Suc i) fs q"
      using False f pid dirty by (simp add: q_def)
    moreover
    have sel: "file_view q = file_view p" "length (frames q) = length (frames p)"
      "\<And>j. j \<noteq> i \<Longrightarrow> frames q ! j = frames p ! j" "pf_id (frames q ! i) = None"
      using i by (simp_all add: q_def release_frame_def)
    moreover have IH: "pool_ok {} (drop_dirty (Suc i) fs q) \<and> file_view (drop_dirty (Suc i) fs q) = file_view q \<and>
      length (frames (drop_dirty (Suc i) fs q)) = length (frames q) \<and>
      (\<forall>j < Suc i. frames (drop_dirty (Suc i) fs q) ! j = frames q ! j) \<and>
      (\<forall>j. Suc i \<le> j \<longrightarrow> j < length (frames q) \<longrightarrow> pf_id (frames (drop_dirty (Suc i) fs q) ! j) = None
        \<or> \<not> pf_dirty (frames (drop_dirty (Suc i) fs q) ! j))"
      by (rule Cons.IH [OF q]) (use Cons.prems(2) later sel in auto)
    moreover have "pf_id (frames (drop_dirty (Suc i) fs q) ! j) = None \<or> \<not> pf_dirty (frames (drop_dirty (Suc i) fs q) ! j)"
      if "i \<le> j" "j < length (frames p)" for j
      using IH sel that by (cases "j = i") auto
    ultimately show ?thesis by simp
  qed
qed

subsection \<open>The properties of the pool\<close>

text \<open>A pool just opened over a file, or over no file, is good.\<close>

lemma opened_good:
  assumes "p = poolSetWritable f pages (poolInit w a b c)" "pages \<le> length (pageFrame p)"
  shows "pool_good ({}, p)"
proof -
  let ?q = "(poolInit w a b c)\<lparr>pageFile := f, pageCount := pages, writable := f \<noteq> None\<rparr>"
  have p: "p = snd (growDirectory pages ?q)" using assms(1) by (simp add: poolSetWritable_def)
  have sel: "frames p = [] \<and> hand p = 0 \<and> freeIds p = [] \<and> pageCount p = pages \<and> (\<forall>x. resident p x = None)"
    unfolding p by (auto simp: growDirectory_def Let_def poolInit_def resident_def)
  then show ?thesis
    using assms(2) by (simp add: pool_good_def pool_ok_def free_ok_def directory_ok_def clean_ok_def)
qed


text \<open>
  C4: what a pin hands out is the page. Whatever \<open>poolPin\<close> evicts, writes back or reads, every
  page keeps the content it had, every frame a caller holds stays its page's with its bytes, and
  the frame handed out holds the page's content and is held.
\<close>
theorem pin_coherent:
  assumes ok: "pool_ok W p" and run: "poolPin (int pid) p = (Some i, p')"
  shows "pool_ok W p' \<and> pool_view p \<subseteq>\<^sub>m pool_view p' \<and>
    held p' i \<and> pf_id (frames p' ! i) = Some pid \<and>
    pool_view p' pid = Some (usable (frame_page i p')) \<and>
    (\<forall>j. held p j \<longrightarrow> held p' j \<and> pf_id (frames p' ! j) = pf_id (frames p ! j) \<and>
         usable (frame_page j p') = usable (frame_page j p))"
  using pinLocked_ok [OF ok run [unfolded poolPin_def]] by (auto simp: calm_def frame_page_def)


text \<open>
  C8: after a rollback the pool holds exactly what the file holds, for every page, and nothing in it
  is dirty.
\<close>
theorem rollback_restores:
  assumes ok: "pool_ok {} p"
  shows "pool_view (poolRollback n p) = file_view p \<and> \<not> poolHasDirty (poolRollback n p)"
proof -
  let ?q = "drop_dirty 0 (frames p) p"
  have q: "pool_ok {} ?q" "file_view ?q = file_view p"
    "\<And>j. j < length (frames ?q) \<Longrightarrow> pf_id (frames ?q ! j) = None \<or> \<not> pf_dirty (frames ?q ! j)"
    using drop_dirty_ok [OF ok, of 0 "frames p"] by auto
  have "pool_view ?q = file_view p"
  proof
    fix x show "pool_view ?q x = file_view p x"
    proof (cases "resident ?q x")
      case None
      then show ?thesis using q(2) by (simp add: pool_view_def)
    next
      case (Some i)
      from pool_ok_frame(1) [OF q(1) Some] q(3) [of i]
      have "i < length (frames ?q)" "pf_id (frames ?q ! i) = Some x" "\<not> pf_dirty (frames ?q ! i)" by auto
      from pool_ok_clean [OF q(1) this] show ?thesis using Some q(2) by (simp add: pool_view_def)
    qed
  qed
  moreover have "\<not> poolHasDirty ?q" using q(3) by (fastforce simp: poolHasDirty_def in_set_conv_nth)
  moreover define r where "r = poolRollback n p"
  have "frames r = frames ?q \<and> pageFrame r = pageFrame ?q \<and> pageFile r = pageFile ?q \<and> checksums r = checksums ?q"
    by (simp add: r_def poolRollback_def Let_def)
  ultimately show ?thesis
    unfolding r_def [symmetric] using pool_view_cong [of r ?q] by (simp add: poolHasDirty_def)
qed

end
