(* ===== verification/PageStore.thy ===== *)
theory PageStore
  imports PoolUse
begin

text \<open>
  The interface the heaps and the indexes have to the pool: pin a page, look at it, change it,
  unpin it, allocate one and release one. The locale states what a client may rely on; the client
  lemmas derive the two patterns of the code, reading under a pin and changing under a pin. The
  pool is the interpretation.
\<close>

locale page_store =
  fixes ok :: "nat set \<Rightarrow> 's \<Rightarrow> bool"
    and view :: "'s \<Rightarrow> nat \<Rightarrow> page option"
    and used :: "'s \<Rightarrow> nat set"
    and home :: "'s \<Rightarrow> nat \<Rightarrow> nat \<Rightarrow> bool"
    and pin :: "nat \<Rightarrow> 's \<Rightarrow> nat option \<times> 's"
    and unpin :: "nat \<Rightarrow> bool \<Rightarrow> 's \<Rightarrow> 's"
    and look :: "nat \<Rightarrow> 's \<Rightarrow> page"
    and poke :: "nat \<Rightarrow> (page \<Rightarrow> page) \<Rightarrow> 's \<Rightarrow> 's"
    and alloc :: "'s \<Rightarrow> (error + nat) \<times> 's"
    and release :: "nat \<Rightarrow> 's \<Rightarrow> 's"
  assumes pin_law: "ok W s \<Longrightarrow> pid \<in> used s \<Longrightarrow> pin pid s = (r, s') \<Longrightarrow>
        ok W s' \<and> view s \<subseteq>\<^sub>m view s' \<and> used s' = used s \<and>
        (\<forall>i. r = Some i \<longrightarrow> home s' pid i \<and> view s' pid = Some (usable (look i s')))"
    and unpin_law: "ok W s \<Longrightarrow> home s pid i \<Longrightarrow> d \<or> i \<notin> W \<Longrightarrow>
        ok (W - {i}) (unpin pid d s) \<and> view (unpin pid d s) = view s \<and> used (unpin pid d s) = used s"
    and poke_law: "ok W s \<Longrightarrow> home s pid i \<Longrightarrow>
        ok (insert i W) (poke i g s) \<and> view (poke i g s) = (view s)(pid \<mapsto> usable (g (look i s))) \<and>
        used (poke i g s) = used s \<and> home (poke i g s) pid i \<and> look i (poke i g s) = g (look i s)"
    and alloc_law: "ok {} s \<Longrightarrow> alloc s = (Inr pid, s') \<Longrightarrow>
        ok {} s' \<and> pid \<notin> used s \<and> used s' = insert pid (used s) \<and> view s' pid = Some (\<lambda>_. 0) \<and>
        (\<forall>x v. x \<noteq> pid \<longrightarrow> view s x = Some v \<longrightarrow> view s' x = Some v)"
    and release_law: "ok {} s \<Longrightarrow> pid \<in> used s \<Longrightarrow>
        ok {} (release pid s) \<and> used s - {pid} \<subseteq> used (release pid s) \<and> used (release pid s) \<subseteq> used s \<and>
        (\<forall>x. x \<noteq> pid \<longrightarrow> view (release pid s) x = view s x)"
begin

text \<open>Pin, look, unpin: the page as it is, and nothing changed.\<close>

lemma read_under_pin:
  assumes "ok {} s" "pid \<in> used s" "pin pid s = (Some i, s')"
  shows "ok {} (unpin pid False s') \<and> view s \<subseteq>\<^sub>m view (unpin pid False s') \<and>
    used (unpin pid False s') = used s \<and> view (unpin pid False s') pid = Some (usable (look i s'))"
  using pin_law [OF assms] unpin_law [of "{}" s' pid i False] by simp

lemma failed_pin:
  assumes "ok {} s" "pid \<in> used s" "pin pid s = (None, s')"
  shows "ok {} s' \<and> view s \<subseteq>\<^sub>m view s' \<and> used s' = used s"
  using pin_law [OF assms] by simp

text \<open>Pin, write through the pointer, unpin dirty: exactly that page changes.\<close>

lemma change_under_pin:
  assumes "ok {} s" "pid \<in> used s" "pin pid s = (Some i, s')" "t = unpin pid True (poke i g s')"
  shows "ok {} t \<and> view t pid = Some (usable (g (look i s'))) \<and>
    view s' pid = Some (usable (look i s')) \<and> used t = used s \<and>
    (\<forall>x v. x \<noteq> pid \<longrightarrow> view s x = Some v \<longrightarrow> view t x = Some v)"
proof -
  from pin_law [OF assms(1-3)] have p: "ok {} s'" "view s \<subseteq>\<^sub>m view s'" "used s' = used s"
    "home s' pid i" "view s' pid = Some (usable (look i s'))" by auto
  from poke_law [OF p(1,4), of g] have k: "ok {i} (poke i g s')" "home (poke i g s') pid i"
    "view (poke i g s') = (view s')(pid \<mapsto> usable (g (look i s')))" "used (poke i g s') = used s'" by auto
  from unpin_law [OF k(1,2), of True] have "ok {} t" "view t = view (poke i g s')" "used t = used s"
    using assms(4) k p by auto
  then show ?thesis using k p by (auto simp: map_le_def dom_def)
qed

lemma view_stays: "view s \<subseteq>\<^sub>m view s' \<Longrightarrow> view s pid = Some m \<Longrightarrow> view s' pid = Some m"
  by (metis domI map_le_def)

end

subsection \<open>The pool provides it\<close>

definition store_ok :: "nat set \<Rightarrow> pool \<Rightarrow> bool" where
  "store_ok W p \<longleftrightarrow> pool_ok W p \<and> free_ok p"

definition used_pages :: "pool \<Rightarrow> nat set" where
  "used_pages p = {pid. pid < pageCount p \<and> pid \<notin> set (freeIds p)}"

definition home_frame :: "pool \<Rightarrow> nat \<Rightarrow> nat \<Rightarrow> bool" where
  "home_frame p pid i \<longleftrightarrow> held p i \<and> pf_id (frames p ! i) = Some pid"

lemma store_ok_step: "pool_step (W, p) (W', p') \<Longrightarrow> store_ok W p \<Longrightarrow> store_ok W' p'"
  using pool_step_good [of "(W, p)" "(W', p')"] by (simp add: store_ok_def pool_good_def)

lemma home_resident: "store_ok W p \<Longrightarrow> home_frame p pid i \<Longrightarrow> resident p pid = Some i"
  using pool_ok_frame(2) [of W p i pid] by (simp add: store_ok_def home_frame_def held_def)

interpretation store: page_store store_ok pool_view used_pages home_frame
  "\<lambda>pid. poolPin (int pid)" "\<lambda>pid. poolUnpin (int pid)" frame_page write_page poolAllocate poolFree
proof
  fix W s pid r s' assume ok: "store_ok W s" and pid: "pid \<in> used_pages s" and run: "poolPin (int pid) s = (r, s')"
  have "store_ok W s'" by (rule store_ok_step [OF _ ok], rule pool_step.pin [OF _ run]) (use pid in \<open>simp add: used_pages_def\<close>)
  then show "store_ok W s' \<and> pool_view s \<subseteq>\<^sub>m pool_view s' \<and> used_pages s' = used_pages s \<and>
      (\<forall>i. r = Some i \<longrightarrow> home_frame s' pid i \<and> pool_view s' pid = Some (usable (frame_page i s')))"
    using pinLocked_ok [of W s pid r s'] ok run
    by (auto simp: store_ok_def poolPin_def calm_def used_pages_def stays_def home_frame_def)
next
  fix W s pid i d assume ok: "store_ok W s" and home: "home_frame s pid i" and d: "d \<or> i \<notin> W"
  have res: "resident s pid = Some i" by (rule home_resident [OF ok home])
  have "store_ok (W - {i}) (poolUnpin (int pid) d s)"
    by (rule store_ok_step [OF pool_step.unpin [OF res d] ok])
  moreover have "used_pages (poolUnpin (int pid) d s) = used_pages s"
    by (simp add: used_pages_def poolUnpin_def unpinLocked_def split: option.split)
  ultimately show "store_ok (W - {i}) (poolUnpin (int pid) d s) \<and>
      pool_view (poolUnpin (int pid) d s) = pool_view s \<and> used_pages (poolUnpin (int pid) d s) = used_pages s"
    using unpinLocked_ok(2) [of W s pid i d] ok res d by (simp add: store_ok_def poolUnpin_def)
next
  fix W s pid i g assume ok: "store_ok W s" and home: "home_frame s pid i"
  have held: "held s i" "pf_id (frames s ! i) = Some pid" using home by (simp_all add: home_frame_def)
  have "store_ok (insert i W) (write_page i g s)" by (rule store_ok_step [OF pool_step.change [OF held(1)] ok])
  moreover have "home_frame (write_page i g s) pid i" "frame_page i (write_page i g s) = g (frame_page i s)"
    using held by (simp_all add: home_frame_def held_def write_page_def frame_page_def)
  moreover have "used_pages (write_page i g s) = used_pages s" by (simp add: used_pages_def write_page_def)
  ultimately show "store_ok (insert i W) (write_page i g s) \<and>
      pool_view (write_page i g s) = (pool_view s)(pid \<mapsto> usable (g (frame_page i s))) \<and>
      used_pages (write_page i g s) = used_pages s \<and> home_frame (write_page i g s) pid i \<and>
      frame_page i (write_page i g s) = g (frame_page i s)"
    using write_page_ok(2) [of W s i pid g] ok held by (simp add: store_ok_def)
next
  fix s pid s' assume ok: "store_ok {} s" and run: "poolAllocate s = (Inr pid, s')"
  have "pool_ok {} s" "free_ok s" using ok by (simp_all add: store_ok_def)
  note al = allocateLocked_ok [OF this run [unfolded poolAllocate_def]]
  have "pid \<notin> used_pages s \<and> used_pages s' = insert pid (used_pages s)"
    using al(10) \<open>free_ok s\<close> by (auto simp: used_pages_def free_ok_def)
  then show "store_ok {} s' \<and> pid \<notin> used_pages s \<and> used_pages s' = insert pid (used_pages s) \<and>
      pool_view s' pid = Some (\<lambda>_. 0) \<and> (\<forall>x v. x \<noteq> pid \<longrightarrow> pool_view s x = Some v \<longrightarrow> pool_view s' x = Some v)"
    using al by (simp add: store_ok_def)
next
  fix s pid assume ok: "store_ok {} s" and pid: "pid \<in> used_pages s"
  have "pool_ok {} s" "free_ok s" using ok by (simp_all add: store_ok_def)
  note fr = freeLocked_ok [OF this]
  have "used_pages s - {pid} \<subseteq> used_pages (poolFree pid s) \<and> used_pages (poolFree pid s) \<subseteq> used_pages s"
    by (auto simp: used_pages_def poolFree_def freeLocked_def Let_def split: option.splits if_splits)
  then show "store_ok {} (poolFree pid s) \<and> used_pages s - {pid} \<subseteq> used_pages (poolFree pid s) \<and>
      used_pages (poolFree pid s) \<subseteq> used_pages s \<and>
      (\<forall>x. x \<noteq> pid \<longrightarrow> pool_view (poolFree pid s) x = pool_view s x)"
    using fr [of pid] pid by (simp add: store_ok_def used_pages_def poolFree_def)
qed

end
