(* ===== verification/Heap.thy ===== *)
theory Heap
  imports Records PageStore
begin

text \<open>
  Heap storage, \<^verbatim>\<open>07_storage.c\<close>: slotted pages, the heap's list of them, inserting, reading,
  deleting and scanning rows, and compaction. The lemmas here are those of one page: what its slot
  directory and its records hold, as a list of rows with holes.
\<close>

subsection \<open>Slotted pages\<close>

definition SLOT_BITS :: nat where "SLOT_BITS = 10"
definition SLOTS_PER_PAGE :: nat where "SLOTS_PER_PAGE = 1024"
definition PAGE_HEADER :: nat where "PAGE_HEADER = 8"
definition SLOT_WIDTH :: nat where "SLOT_WIDTH = 8"

definition slotCount :: "page \<Rightarrow> u32" where "slotCount m = getU32 0 m"
definition dataStart :: "page \<Rightarrow> u32" where "dataStart m = getU32 4 m"
definition setSlotCount :: "u32 \<Rightarrow> page \<Rightarrow> page" where "setSlotCount n m = putU32 0 n m"
definition setDataStart :: "u32 \<Rightarrow> page \<Rightarrow> page" where "setDataStart n m = putU32 4 n m"
definition slotAt :: "nat \<Rightarrow> nat" where "slotAt slot = PAGE_HEADER + slot * SLOT_WIDTH"

definition initPage :: "page \<Rightarrow> page" where
  "initPage m = setDataStart (of_nat PAGE_USABLE) (\<lambda>i. if i < PAGE_SIZE then 0 else m i)"

definition pack_position :: "int \<Rightarrow> int \<Rightarrow> int" where
  "pack_position page slot = push_bit SLOT_BITS page OR slot"

definition position_page :: "int \<Rightarrow> int" where "position_page pos = drop_bit SLOT_BITS pos"
definition position_slot :: "int \<Rightarrow> int" where "position_slot pos = pos AND int (SLOTS_PER_PAGE - 1)"

subsection \<open>Heaps\<close>

text \<open>\<open>hlimit\<close> bounds the entries the allocator serves for the page lists.\<close>

record heap =
  htable :: string
  pageIds :: "nat list"
  pageSlots :: "nat list"
  hcapacity :: nat
  nlive :: int
  nslots :: int
  hlimit :: nat

definition npages :: "heap \<Rightarrow> nat" where "npages h = length (pageIds h)"

definition clearHeap :: "heap \<Rightarrow> heap" where
  "clearHeap h = h\<lparr>pageIds := [], pageSlots := [], hcapacity := 0, nlive := 0, nslots := 0\<rparr>"

definition heapReset :: "heap \<Rightarrow> pool \<Rightarrow> heap \<times> pool" where
  "heapReset h p = (clearHeap h, foldl (\<lambda>p pid. poolFree pid p) p (pageIds h))"

definition growPageList :: "heap \<Rightarrow> (error + unit) \<times> heap" where
  "growPageList h =
     (if npages h < hcapacity h then (Inr (), h)
      else let grown = (if hcapacity h \<noteq> 0 then hcapacity h * 2 else 8)
           in if grown > hlimit h then (Inl ERROR_EXEC_OUT_OF_MEMORY, h)
              else (Inr (), h\<lparr>hcapacity := grown\<rparr>))"

definition add_page :: "nat \<Rightarrow> nat \<Rightarrow> heap \<Rightarrow> heap" where
  "add_page pid slots h = h\<lparr>pageIds := pageIds h @ [pid], pageSlots := pageSlots h @ [slots]\<rparr>"

definition appendPage :: "heap \<times> pool \<Rightarrow> (error + nat) \<times> heap \<times> pool" where
  "appendPage = (\<lambda>(h, p).
     case growPageList h of
       (Inl e, h) \<Rightarrow> (Inl e, h, p)
     | (Inr _, h) \<Rightarrow>
         (case poolAllocate p of
            (Inl e, p) \<Rightarrow> (Inl e, h, p)
          | (Inr pid, p) \<Rightarrow>
              (case poolPin (int pid) p of
                 (None, p) \<Rightarrow> (Inl ERROR_EXEC_OUT_OF_MEMORY, h, p)
               | (Some i, p) \<Rightarrow>
                   (Inr pid, add_page pid 0 h, poolUnpin (int pid) True (write_page i initPage p)))))"

definition heapAdoptPage :: "heap \<Rightarrow> nat \<Rightarrow> nat \<Rightarrow> (error + unit) \<times> heap" where
  "heapAdoptPage h pid slotsUsed =
     (case growPageList h of
        (Inl e, h) \<Rightarrow> (Inl e, h)
      | (Inr _, h) \<Rightarrow> (Inr (), (add_page pid slotsUsed h)\<lparr>nslots := nslots h + int slotsUsed\<rparr>))"

definition heapSetLive :: "heap \<Rightarrow> int \<Rightarrow> heap" where "heapSetLive h live = h\<lparr>nlive := live\<rparr>"
definition heapSlots :: "heap \<Rightarrow> int" where "heapSlots h = nslots h"
definition heapLive :: "heap \<Rightarrow> int" where "heapLive h = nlive h"

subsection \<open>Inserting\<close>

text \<open>Does the page lack room for a slot and a record of \<open>need\<close> bytes?\<close>

definition page_full :: "nat \<Rightarrow> page \<Rightarrow> bool" where
  "page_full need m \<longleftrightarrow>
     (let slots = slotCount m; start = dataStart m;
          slots_end = of_nat PAGE_HEADER + (slots + 1) * of_nat SLOT_WIDTH
      in slots = of_nat SLOTS_PER_PAGE \<or> start < slots_end + of_nat need)"

definition place_record :: "row \<Rightarrow> page \<Rightarrow> page" where
  "place_record r m =
     (let slot = unat (slotCount m); start = dataStart m - of_nat (recordSize r);
          m = writeRecord (unat start) r m;
          m = putU32 (slotAt slot) start m;
          m = putU32 (slotAt slot + 4) (of_nat (recordSize r)) m
      in setDataStart start (setSlotCount (of_nat slot + 1) m))"

definition place_row :: "nat \<Rightarrow> nat \<Rightarrow> row \<Rightarrow> heap \<times> pool \<Rightarrow> (error + int) \<times> heap \<times> pool" where
  "place_row pid i r = (\<lambda>(h, p).
     let k = npages h - 1; slot = unat (slotCount (frame_page i p));
         p = poolUnpin (int pid) True (write_page i (place_record r) p)
     in (Inr (pack_position (int k) (int slot)),
         h\<lparr>pageSlots := (pageSlots h)[k := slot + 1], nlive := nlive h + 1, nslots := nslots h + 1\<rparr>, p))"

text \<open>The heap's last page, pinned, when it can be had and has room.\<close>

definition last_page :: "nat \<Rightarrow> heap \<Rightarrow> pool \<Rightarrow> (nat \<times> nat) option \<times> pool" where
  "last_page need h p =
     (if pageIds h = [] then (None, p)
      else let pid = last (pageIds h)
           in case poolPin (int pid) p of
                (None, p) \<Rightarrow> (None, p)
              | (Some i, p) \<Rightarrow>
                  if page_full need (frame_page i p) then (None, poolUnpin (int pid) False p)
                  else (Some (pid, i), p))"

definition heapInsert :: "heap \<Rightarrow> row \<Rightarrow> pool \<Rightarrow> (error + int) \<times> heap \<times> pool" where
  "heapInsert h r p =
     (let need = recordSize r
      in if need > PAGE_SIZE - PAGE_HEADER - SLOT_WIDTH then (Inl ERROR_EXEC_ROW_TOO_LARGE, h, p)
         else case last_page need h p of
                (Some (pid, i), p) \<Rightarrow> place_row pid i r (h, p)
              | (None, p) \<Rightarrow>
                  andThen (appendPage (h, p)) (\<lambda>pid (h, p).
                    case poolPin (int pid) p of
                      (None, p) \<Rightarrow> (Inl ERROR_EXEC_OUT_OF_MEMORY, h, p)
                    | (Some i, p) \<Rightarrow> place_row pid i r (h, p)))"

subsection \<open>Reading and deleting\<close>

text \<open>\<open>pinFor\<close>: the page id, the frame it is pinned in and the record's offset.\<close>

definition pinFor :: "heap \<Rightarrow> int \<Rightarrow> pool \<Rightarrow> (nat \<times> nat \<times> nat) option \<times> pool" where
  "pinFor h pos p =
     (let page = position_page pos; slot = position_slot pos
      in if page < 0 \<or> page \<ge> int (npages h) then (None, p)
         else if slot < 0 \<or> slot \<ge> int (pageSlots h ! nat page) then (None, p)
         else let pid = pageIds h ! nat page
              in case poolPin (int pid) p of
                   (None, p) \<Rightarrow> (None, p)
                 | (Some i, p) \<Rightarrow>
                     let offset = unat (getU32 (slotAt (nat slot)) (frame_page i p))
                     in if offset = 0 then (None, poolUnpin (int pid) False p)
                        else (Some (pid, i, offset), p))"

definition heapRead :: "heap \<Rightarrow> int \<Rightarrow> pool \<Rightarrow> row \<times> pool" where
  "heapRead h pos p =
     (case pinFor h pos p of
        (None, p) \<Rightarrow> (blank_row\<lparr>deleted := True\<rparr>, p)
      | (Some (pid, i, offset), p) \<Rightarrow>
          ((readRecord offset (frame_page i p))\<lparr>deleted := False\<rparr>, poolUnpin (int pid) False p))"

definition heapMarkDeleted :: "heap \<Rightarrow> int \<Rightarrow> pool \<Rightarrow> heap \<times> pool" where
  "heapMarkDeleted h pos p =
     (case pinFor h pos p of
        (None, p) \<Rightarrow> (h, p)
      | (Some (pid, i, offset), p) \<Rightarrow>
          (h\<lparr>nlive := nlive h - 1\<rparr>,
           poolUnpin (int pid) True (write_page i (putU32 (slotAt (nat (position_slot pos))) 0) p)))"


subsection \<open>What a page holds\<close>

lemma page_consts [simp]: "SLOT_BITS = 10" "SLOTS_PER_PAGE = 1024" "PAGE_HEADER = 8" "SLOT_WIDTH = 8"
  "slotAt k = 8 + k * 8"
  by (simp_all add: SLOT_BITS_def SLOTS_PER_PAGE_def PAGE_HEADER_def SLOT_WIDTH_def slotAt_def)

text \<open>
  A page holds the rows \<open>rs\<close>, a hole where a row was deleted: the slots say where each record is,
  every record lies between the data start and the trailer, and its bytes are the row's.
\<close>

definition slot_rep :: "page \<Rightarrow> nat \<Rightarrow> row option \<Rightarrow> bool" where
  "slot_rep m k ro \<longleftrightarrow>
     (let off = unat (getU32 (8 + k * 8) m)
      in case ro of None \<Rightarrow> off = 0
         | Some r \<Rightarrow> off \<noteq> 0 \<and> unat (dataStart m) \<le> off \<and> off + recordSize r \<le> PAGE_USABLE \<and>
                     row_ok r \<and> holds m off (record_bytes r))"

definition page_rep :: "page \<Rightarrow> row option list \<Rightarrow> bool" where
  "page_rep m rs \<longleftrightarrow> slotCount m = of_nat (length rs) \<and> length rs \<le> SLOTS_PER_PAGE \<and>
     8 + 8 * length rs \<le> unat (dataStart m) \<and> unat (dataStart m) \<le> PAGE_USABLE \<and>
     (\<forall>k < length rs. slot_rep m k (rs ! k))"

lemma page_rep_cong:
  assumes "\<And>i. i < PAGE_USABLE \<Longrightarrow> m i = m' i" "page_rep m rs"
  shows "page_rep m' rs"
proof -
  have u32: "getU32 at m' = getU32 at m" if "at + 4 \<le> PAGE_USABLE" for at
    by (rule getU32_cong) (use assms(1) that in auto)
  have n: "length rs \<le> 1024" using assms(2) by (simp add: page_rep_def)
  have slot: "getU32 (8 + k * 8) m' = getU32 (8 + k * 8) m" if "k < length rs" for k
    by (rule u32) (use that assms(2) in \<open>simp add: page_rep_def\<close>)
  have rec: "holds m' off (record_bytes r)" if "holds m off (record_bytes r)" "off + recordSize r \<le> PAGE_USABLE" for off r
    using that holds_cong [of off "record_bytes r" m m'] assms(1) by (simp add: record_size_bytes)
  show ?thesis
    using assms(2) u32 [of 0] u32 [of 4] slot rec
    by (auto simp: page_rep_def slotCount_def dataStart_def slot_rep_def Let_def split: option.splits)
qed

lemma page_rep_usable [simp]: "page_rep (usable m) rs \<longleftrightarrow> page_rep m rs"
  using page_rep_cong [of "usable m" m rs] page_rep_cong [of m "usable m" rs] by (auto simp: usable_def)

lemma initPage_rep: "page_rep (initPage m) []"
  by (simp add: page_rep_def initPage_def slotCount_def dataStart_def setDataStart_def mem)
     (simp add: getU32_def PAGE_SIZE_def)

text \<open>The code's unsigned test for room, read as arithmetic.\<close>

lemma page_full_rep:
  assumes "page_rep m rs" "need \<le> PAGE_SIZE"
  shows "page_full need m \<longleftrightarrow> length rs = SLOTS_PER_PAGE \<or> unat (dataStart m) < 16 + 8 * length rs + need"
proof -
  have n: "length rs \<le> 1024" and s: "slotCount m = of_nat (length rs)" using assms(1) by (simp_all add: page_rep_def)
  have "slotCount m = of_nat SLOTS_PER_PAGE \<longleftrightarrow> length rs = 1024"
    using n by (simp add: s word_unat_eq_iff unat_of_nat)
  moreover have "unat (of_nat PAGE_HEADER + (slotCount m + 1) * of_nat SLOT_WIDTH + of_nat need :: u32)
      = 16 + 8 * length rs + need"
  proof -
    have eq: "of_nat PAGE_HEADER + (slotCount m + 1) * of_nat SLOT_WIDTH + of_nat need
        = (of_nat (16 + 8 * length rs + need) :: u32)" by (simp add: s algebra_simps)
    show ?thesis unfolding eq unat_of_nat using n assms(2) by (simp add: PAGE_SIZE_def)
  qed
  ultimately show ?thesis by (simp add: page_full_def Let_def word_less_nat_alt)
qed

lemma place_record_rep:
  assumes rep: "page_rep m rs" and r: "row_ok r" and room: "length rs < SLOTS_PER_PAGE"
    "16 + 8 * length rs + recordSize r \<le> unat (dataStart m)"
  shows "page_rep (place_record r m) (rs @ [Some r])"
proof -
  let ?n = "length rs" and ?d = "unat (dataStart m)" and ?z = "recordSize r"
  define e where "e = ?d - ?z"
  have n: "?n < 1024" and s: "slotCount m = of_nat ?n" and d: "?d \<le> 8184" and z: "?z \<le> ?d"
    using assms by (simp_all add: page_rep_def)
  have e: "16 + 8 * ?n \<le> e" "e + ?z = ?d" using room z by (simp_all add: e_def)
  have slot: "unat (slotCount m) = ?n" using n by (simp add: s unat_of_nat)
  have start: "unat (dataStart m - of_nat ?z) = e"
    using z d by (simp add: unat_sub_if' unat_of_nat e_def)
  define st where "st = dataStart m - of_nat ?z"
  have st: "unat st = e" using start by (simp add: st_def)
  define m1 where "m1 = writeRecord e r m"
  define m' where "m' = place_record r m"
  have m': "m' = putU32 4 st (putU32 0 (of_nat ?n + 1) (putU32 (12 + ?n * 8) (of_nat ?z) (putU32 (8 + ?n * 8) st m1)))"
    by (simp add: m'_def place_record_def Let_def slot st_def [symmetric] st m1_def setDataStart_def setSlotCount_def)
  have len: "length (record_bytes r) = ?z" by (rule record_size_bytes)
  have low: "m' i = m i" if "8 \<le> i" "i < 8 + 8 * ?n" for i
    using that e by (simp add: m' putU32_out m1_def writeRecord_def put_bytes_out)
  have high: "m' i = m i" if "?d \<le> i" for i
    using that e len by (simp add: m' putU32_out m1_def writeRecord_def put_bytes_out)
  have count: "slotCount m' = of_nat (Suc ?n)" and data: "dataStart m' = st"
    using e by (simp_all add: m' slotCount_def dataStart_def mem)
  have mine: "getU32 (8 + ?n * 8) m' = st" using e by (simp add: m' mem)
  have bytes: "holds m' e (record_bytes r)"
  proof -
    have "m' (e + i) = m1 (e + i)" if "i < ?z" for i using that e by (simp add: m' putU32_out)
    then show ?thesis
      using holds_put_bytes [of e "record_bytes r" m] by (simp add: holds_def len m1_def writeRecord_def)
  qed
  have "slot_rep m' k ((rs @ [Some r]) ! k)" if k: "k < Suc ?n" for k
  proof (cases "k = ?n")
    case True
    then show ?thesis using mine st bytes e d r data by (simp add: slot_rep_def)
  next
    case False
    then have k: "k < ?n" using k by simp
    have entry: "getU32 (8 + k * 8) m' = getU32 (8 + k * 8) m"
      by (rule getU32_cong) (use low k in auto)
    have old: "slot_rep m k (rs ! k)" using rep k by (simp add: page_rep_def)
    have keep: "holds m' off bs = holds m off bs" if "?d \<le> off" for off bs
      by (rule holds_cong) (use high that in auto)
    show ?thesis
      using old k e keep st
      by (auto simp: slot_rep_def entry data nth_append Let_def split: option.splits)
  qed
  then show ?thesis
    unfolding m'_def [symmetric] page_rep_def using count data st e d n by (simp add: algebra_simps)
qed

lemma clear_slot_rep:
  assumes rep: "page_rep m rs" and k: "k < length rs"
  shows "page_rep (putU32 (8 + k * 8) 0 m) (rs[k := None])"
proof -
  let ?m = "putU32 (8 + k * 8) 0 m"
  have d: "8 + 8 * length rs \<le> unat (dataStart m)" using rep by (simp add: page_rep_def)
  have head: "slotCount ?m = slotCount m" "dataStart ?m = dataStart m"
    by (simp_all add: slotCount_def dataStart_def mem)
  have "slot_rep ?m j (rs[k := None] ! j)" if j: "j < length rs" for j
  proof (cases "j = k")
    case True
    then show ?thesis using k by (simp add: slot_rep_def mem)
  next
    case False
    have entry: "getU32 (8 + j * 8) ?m = getU32 (8 + j * 8) m"
      using False by (intro getU32_putU32_out) auto
    have keep: "holds ?m off bs = holds m off bs" if "unat (dataStart m) \<le> off" for off bs
      by (rule holds_cong) (use that d k in \<open>simp add: putU32_out\<close>)
    have "slot_rep m j (rs ! j)" using rep j by (simp add: page_rep_def)
    then show ?thesis
      using False j keep by (auto simp: slot_rep_def entry head Let_def split: option.splits)
  qed
  then show ?thesis using rep by (simp add: page_rep_def head)
qed

end
