(* ===== verification/HeapTable.thy ===== *)
theory HeapTable
  imports Heap
begin

text \<open>
  Heaps as tables: a heap holds, page by page, the rows inserted and not deleted. Inserting appends
  one row and tells where, reading gives back what was stored there, deleting leaves a hole; every
  other row stays where it was.
\<close>

subsection \<open>Positions\<close>

lemma pack_position_eq: "0 \<le> slot \<Longrightarrow> slot < 1024 \<Longrightarrow> pack_position page slot = page * 1024 + slot"
proof -
  assume slot: "0 \<le> slot" "slot < 1024"
  have low: "\<not> bit slot n" if "10 \<le> n" for n
  proof -
    have "take_bit 10 slot = slot" using slot by (simp add: take_bit_int_eq_self)
    then show ?thesis using that by (metis bit_take_bit_iff not_le)
  qed
  have "push_bit 10 page + slot = push_bit 10 page OR slot"
    by (rule disjunctive_add_eq_or) (auto simp: bit_eq_iff bit_simps low)
  then show ?thesis by (simp add: pack_position_def push_bit_eq_mult)
qed

lemma position_split:
  assumes "0 \<le> slot" "slot < 1024"
  shows "position_page (page * 1024 + slot) = page" "position_slot (page * 1024 + slot) = slot"
proof -
  show "position_page (page * 1024 + slot) = page"
    using assms by (simp add: position_page_def drop_bit_eq_div)
  have "position_slot (page * 1024 + slot) = (page * 1024 + slot) AND mask 10"
    by (simp add: position_slot_def mask_eq_exp_minus_1)
  then show "position_slot (page * 1024 + slot) = slot"
    using assms by (simp only: take_bit_eq_mask [symmetric] take_bit_eq_mod) simp
qed

lemma dataStart_usable [simp]: "dataStart (usable m) = dataStart m"
  unfolding dataStart_def by (rule getU32_cong) (simp add: usable_def)

subsection \<open>The rows of a heap\<close>

definition live_count :: "row option list list \<Rightarrow> nat" where
  "live_count rss = length (filter (\<lambda>r. r \<noteq> None) (concat rss))"

definition heap_rep :: "heap \<Rightarrow> pool \<Rightarrow> row option list list \<Rightarrow> bool" where
  "heap_rep h p rss \<longleftrightarrow> store_ok {} p \<and>
     pageSlots h = map length rss \<and> length (pageIds h) = length rss \<and>
     distinct (pageIds h) \<and> set (pageIds h) \<subseteq> used_pages p \<and>
     (\<forall>k < length rss. \<exists>m. pool_view p (pageIds h ! k) = Some m \<and> page_rep m (rss ! k)) \<and>
     nslots h = int (length (concat rss)) \<and> nlive h = int (live_count rss)"

text \<open>Where the pool's other clients work, the heap does not change.\<close>

lemma heap_rep_keep:
  assumes "heap_rep h p rss" "store_ok {} q" "used_pages p \<subseteq> used_pages q"
    "\<And>x v. x \<in> set (pageIds h) \<Longrightarrow> pool_view p x = Some v \<Longrightarrow> pool_view q x = Some v"
  shows "heap_rep h q rss"
  using assms unfolding heap_rep_def by (metis nth_mem order_trans)

lemma heap_rep_slots:
  assumes "heap_rep h p rss" "k < length rss"
  shows "length (rss ! k) \<le> 1024"
  using assms unfolding heap_rep_def page_rep_def by (metis page_consts(2))

lemma live_count_append [simp]: "live_count (xs @ ys) = live_count xs + live_count ys"
  by (simp add: live_count_def)

lemma live_count_simps [simp]: "live_count [] = 0"
  "live_count [rs] = length (filter (\<lambda>r. r \<noteq> None) rs)"
  by (simp_all add: live_count_def)

text \<open>A row goes into the page \<open>k\<close>, pinned in frame \<open>i\<close>, which is the last one.\<close>

lemma place_row_rep:
  assumes rep: "heap_rep h p (rss @ [rs])" and pid: "pid = last (pageIds h)"
    and pin: "poolPin (int pid) p = (Some i, q)"
    and room: "row_ok r" "length rs < 1024" "16 + 8 * length rs + recordSize r \<le> unat (dataStart (frame_page i q))"
    and run: "place_row pid i r (h, q) = (res, h', p')"
  shows "res = Inr (int (length rss) * 1024 + int (length rs))"
    and "heap_rep h' p' (rss @ [rs @ [Some r]])" and "pageIds h' = pageIds h" and "used_pages p' = used_pages p"
    and "x \<noteq> pid \<Longrightarrow> pool_view p x = Some v \<Longrightarrow> pool_view p' x = Some v"
proof -
  let ?n = "length rss"
  have h: "store_ok {} p" "pageSlots h = map length (rss @ [rs])" "length (pageIds h) = Suc ?n"
    "distinct (pageIds h)" "set (pageIds h) \<subseteq> used_pages p"
    using rep by (simp_all add: heap_rep_def)
  have last: "pid = pageIds h ! ?n" using pid h(3) by (metis diff_Suc_1 last_conv_nth length_0_conv nat.distinct(1))
  have used: "pid \<in> used_pages p" using h(3,5) last by (metis lessI nth_mem subsetD)
  define t where "t = poolUnpin (int pid) True (write_page i (place_record r) q)"
  note ch = store.change_under_pin [OF h(1) used pin t_def]
  have view: "pool_view q pid = Some (usable (frame_page i q))" using ch by simp
  obtain m where m: "pool_view p pid = Some m" "page_rep m rs"
    using rep last unfolding heap_rep_def by (metis length_append_singleton lessI nth_append_length)
  have "pool_view p \<subseteq>\<^sub>m pool_view q" using store.pin_law [OF h(1) used pin] by simp
  from store.view_stays [OF this m(1)] view have fp: "page_rep (frame_page i q) rs" using m(2) by auto
  have slot: "unat (slotCount (frame_page i q)) = length rs"
    using fp room(2) by (simp add: page_rep_def unat_of_nat)
  have run': "res = Inr (pack_position (int ?n) (int (length rs)))"
    "h' = h\<lparr>pageSlots := (pageSlots h)[?n := length rs + 1], nlive := nlive h + 1, nslots := nslots h + 1\<rparr>" "p' = t"
    using run h(3) unfolding place_row_def Let_def prod.case slot npages_def t_def by auto
  show "res = Inr (int ?n * 1024 + int (length rs))" using run'(1) room(2) by (simp add: pack_position_eq)
  show "pageIds h' = pageIds h" using run'(2) by simp
  show "used_pages p' = used_pages p" using ch run'(3) by simp
  show keep: "x \<noteq> pid \<Longrightarrow> pool_view p x = Some v \<Longrightarrow> pool_view p' x = Some v" for x v using ch run'(3) by blast
  have new: "pool_view p' pid = Some (usable (place_record r (frame_page i q)))" using ch run'(3) by simp
  have page: "page_rep (place_record r (frame_page i q)) (rs @ [Some r])"
    by (rule place_record_rep [OF fp]) (use room in simp_all)
  show "heap_rep h' p' (rss @ [rs @ [Some r]])"
    unfolding heap_rep_def
  proof (intro conjI allI impI)
    show "store_ok {} p'" using ch run'(3) by simp
    show "pageSlots h' = map length (rss @ [rs @ [Some r]])" using run'(2) h(2) by (simp add: list_update_append)
    show "set (pageIds h') \<subseteq> used_pages p'" using ch run' h(5) by simp
    show "nslots h' = int (length (concat (rss @ [rs @ [Some r]])))" "nlive h' = int (live_count (rss @ [rs @ [Some r]]))"
      using rep run'(2) by (simp_all add: heap_rep_def)
    fix k assume k: "k < length (rss @ [rs @ [Some r]])"
    show "\<exists>m. pool_view p' (pageIds h' ! k) = Some m \<and> page_rep m ((rss @ [rs @ [Some r]]) ! k)"
    proof (cases "k = ?n")
      case True
      then show ?thesis using new page last run'(2) by simp
    next
      case False
      then have k: "k < ?n" using k by simp
      then have "pageIds h ! k \<noteq> pid" using last h(3,4) by (simp add: nth_eq_iff_index_eq)
      moreover obtain m where "pool_view p (pageIds h ! k) = Some m" "page_rep m (rss ! k)"
        using rep k unfolding heap_rep_def by (metis length_append_singleton less_Suc_eq nth_append)
      ultimately show ?thesis using keep k run'(2) by (auto simp: nth_append)
    qed
  qed (use run' h in simp_all)
qed


lemma appendPage_rep:
  assumes rep: "heap_rep h p rss" and run: "appendPage (h, p) = (Inr pid, h', p')"
  shows "heap_rep h' p' (rss @ [[]])" and "last (pageIds h') = pid" and "pid \<notin> used_pages p"
    and "used_pages p' = insert pid (used_pages p)" and "pageIds h' = pageIds h @ [pid]"
    and "x \<in> used_pages p \<Longrightarrow> pool_view p x = Some v \<Longrightarrow> pool_view p' x = Some v"
    and "\<exists>m. pool_view p' pid = Some m \<and> page_rep m [] \<and> unat (dataStart m) = PAGE_USABLE"
proof -
  obtain g h1 where grow: "growPageList h = (g, h1)" by force
  have g: "g = Inr ()" "pageIds h1 = pageIds h" "pageSlots h1 = pageSlots h" "nlive h1 = nlive h" "nslots h1 = nslots h"
    using grow run by (auto simp: growPageList_def appendPage_def Let_def split: if_splits)
  obtain a q where al: "poolAllocate p = (a, q)" by force
  then obtain id where a: "a = Inr id" using run grow g by (cases a) (auto simp: appendPage_def)
  obtain f t where pin: "poolPin (int id) q = (f, t)" by force
  then obtain i where f: "f = Some i" using run grow g al a by (cases f) (auto simp: appendPage_def)
  have res: "pid = id" "h' = add_page id 0 h1" "p' = poolUnpin (int id) True (write_page i initPage t)"
    using run grow g al a pin f by (auto simp: appendPage_def)
  have ok: "store_ok {} p" using rep by (simp add: heap_rep_def)
  from store.alloc_law [OF ok al [unfolded a]]
  have q: "store_ok {} q" "id \<notin> used_pages p" "used_pages q = insert id (used_pages p)"
    "\<And>x v. x \<noteq> id \<Longrightarrow> pool_view p x = Some v \<Longrightarrow> pool_view q x = Some v" by auto
  note ch = store.change_under_pin [OF q(1) _ pin [unfolded f] res(3)]
  have ch: "store_ok {} p'" "pool_view p' id = Some (usable (initPage (frame_page i t)))"
    "used_pages p' = used_pages q" "\<And>x v. x \<noteq> id \<Longrightarrow> pool_view q x = Some v \<Longrightarrow> pool_view p' x = Some v"
    using ch q(3) by auto
  show "pid \<notin> used_pages p" "used_pages p' = insert pid (used_pages p)" using q ch res by auto
  show ids: "pageIds h' = pageIds h @ [pid]" using res g by (simp add: add_page_def)
  then show "last (pageIds h') = pid" by simp
  show keep: "x \<in> used_pages p \<Longrightarrow> pool_view p x = Some v \<Longrightarrow> pool_view p' x = Some v" for x v
    using q(2,4) ch(4) by metis
  have start: "dataStart (initPage m) = of_nat PAGE_USABLE" for m
    by (simp add: dataStart_def initPage_def setDataStart_def mem)
  show "\<exists>m. pool_view p' pid = Some m \<and> page_rep m [] \<and> unat (dataStart m) = PAGE_USABLE"
    using ch(2) res(1) initPage_rep start by simp
  show "heap_rep h' p' (rss @ [[]])"
    unfolding heap_rep_def
  proof (intro conjI allI impI)
    show "store_ok {} p'" by (rule ch(1))
    show "pageSlots h' = map length (rss @ [[]])" "length (pageIds h') = length (rss @ [[]])"
      "nslots h' = int (length (concat (rss @ [[]])))" "nlive h' = int (live_count (rss @ [[]]))"
      using rep res g by (simp_all add: heap_rep_def add_page_def)
    show "distinct (pageIds h')" "set (pageIds h') \<subseteq> used_pages p'"
      using rep ids q ch res by (auto simp: heap_rep_def)
    fix k assume k: "k < length (rss @ [[]])"
    have len: "length (pageIds h) = length rss" using rep by (simp add: heap_rep_def)
    show "\<exists>m. pool_view p' (pageIds h' ! k) = Some m \<and> page_rep m ((rss @ [[]]) ! k)"
    proof (cases "k = length rss")
      case True
      then show ?thesis using ch(2) res(1) initPage_rep ids len by (simp add: nth_append)
    next
      case False
      then have k: "k < length rss" using k by simp
      then obtain m where m: "pool_view p (pageIds h ! k) = Some m" "page_rep m (rss ! k)"
        using rep by (auto simp: heap_rep_def)
      have "pageIds h ! k \<in> used_pages p" using rep k by (auto simp: heap_rep_def)
      from keep [OF this m(1)] show ?thesis using m(2) k ids len by (auto simp: nth_append)
    qed
  qed
qed

text \<open>
  Inserting: the row lands after the rows of the last page, or alone on a new page; the position
  says where. The largest record is the largest that leaves room for its slot.
\<close>

definition max_record :: nat where "max_record = PAGE_USABLE - PAGE_HEADER - SLOT_WIDTH"

definition add_row :: "bool \<Rightarrow> row option list list \<Rightarrow> row \<Rightarrow> row option list list" where
  "add_row fresh rss r = (if fresh then rss @ [[Some r]] else butlast rss @ [last rss @ [Some r]])"

definition last_position :: "row option list list \<Rightarrow> int" where
  "last_position rss = int (length rss - 1) * 1024 + int (length (last rss) - 1)"

text \<open>What the insertion keeps of the pages of others.\<close>

definition others_keep :: "nat set \<Rightarrow> pool \<Rightarrow> pool \<Rightarrow> bool" where
  "others_keep own p p' \<longleftrightarrow> used_pages p \<subseteq> used_pages p' \<and>
     (\<forall>x v. x \<in> used_pages p \<longrightarrow> x \<notin> own \<longrightarrow> pool_view p x = Some v \<longrightarrow> pool_view p' x = Some v)"

lemma last_page_rep:
  assumes rep: "heap_rep h p rss" and need: "need \<le> max_record" and run: "last_page need h p = (found, q)"
  shows "found = None \<Longrightarrow> heap_rep h q rss \<and> pool_view p \<subseteq>\<^sub>m pool_view q \<and> used_pages q = used_pages p"
    and "found = Some (pid, i) \<Longrightarrow> rss \<noteq> [] \<and> pid = last (pageIds h) \<and> poolPin (int pid) p = (Some i, q) \<and>
      length (last rss) < 1024 \<and> 16 + 8 * length (last rss) + need \<le> unat (dataStart (frame_page i q))"
proof -
  have both: "(found = None \<longrightarrow> heap_rep h q rss \<and> pool_view p \<subseteq>\<^sub>m pool_view q \<and> used_pages q = used_pages p) \<and>
    (\<forall>pid i. found = Some (pid, i) \<longrightarrow> rss \<noteq> [] \<and> pid = last (pageIds h) \<and> poolPin (int pid) p = (Some i, q) \<and>
      length (last rss) < 1024 \<and> 16 + 8 * length (last rss) + need \<le> unat (dataStart (frame_page i q)))"
  proof (cases "pageIds h = []")
    case True
    then show ?thesis using run rep by (auto simp: last_page_def)
  next
    case False
    let ?pid = "last (pageIds h)"
    have ok: "store_ok {} p" and used: "?pid \<in> used_pages p" and ne: "rss \<noteq> []"
      using rep False by (auto simp: heap_rep_def)
    have lastp: "?pid = pageIds h ! (length rss - 1)" "length rss - 1 < length rss" "last rss = rss ! (length rss - 1)"
      using rep False ne by (auto simp: heap_rep_def last_conv_nth)
    obtain m where m: "pool_view p ?pid = Some m" "page_rep m (last rss)"
      using rep lastp unfolding heap_rep_def by metis
    obtain f t where pin: "poolPin (int ?pid) p = (f, t)" by force
    show ?thesis
    proof (cases f)
      case None
      then have "found = None" "q = t" using run False pin by (simp_all add: last_page_def)
      moreover have "store_ok {} t \<and> pool_view p \<subseteq>\<^sub>m pool_view t \<and> used_pages t = used_pages p"
        using store.failed_pin [OF ok used] pin None by simp
      moreover from this have "heap_rep h t rss"
        by (intro heap_rep_keep [OF rep]) (use store.view_stays in auto)
      ultimately show ?thesis by simp
    next
      case (Some i)
      let ?m = "frame_page i t" and ?u = "poolUnpin (int ?pid) False t"
      have u: "store_ok {} ?u" "pool_view p \<subseteq>\<^sub>m pool_view ?u" "used_pages ?u = used_pages p"
        "pool_view ?u ?pid = Some (usable ?m)"
        using store.read_under_pin [OF ok used pin [unfolded Some]] by auto
      have fp: "page_rep ?m (last rss)" using store.view_stays [OF u(2) m(1)] u(4) m(2) by auto
      have full: "page_full need ?m \<longleftrightarrow> length (last rss) = 1024 \<or> unat (dataStart ?m) < 16 + 8 * length (last rss) + need"
        using page_full_rep [OF fp, of need] need by (simp add: max_record_def PAGE_SIZE_def)
      have n: "length (last rss) \<le> 1024" using fp by (simp add: page_rep_def)
      show ?thesis
      proof (cases "page_full need ?m")
        case True
        then have "found = None" "q = ?u" using run False pin Some by (simp_all add: last_page_def)
        then show ?thesis using heap_rep_keep [OF rep u(1)] u store.view_stays [OF u(2)] by simp
      next
        case not_full: False
        then have "found = Some (?pid, i)" "q = t" using run False pin Some by (simp_all add: last_page_def)
        then show ?thesis using ne pin Some full not_full n by auto
      qed
    qed
  qed
  show "found = None \<Longrightarrow> heap_rep h q rss \<and> pool_view p \<subseteq>\<^sub>m pool_view q \<and> used_pages q = used_pages p"
    using both by blast
  show "found = Some (pid, i) \<Longrightarrow> rss \<noteq> [] \<and> pid = last (pageIds h) \<and> poolPin (int pid) p = (Some i, q) \<and>
      length (last rss) < 1024 \<and> 16 + 8 * length (last rss) + need \<le> unat (dataStart (frame_page i q))"
    using both by blast
qed

lemma heapInsert_rep:
  assumes rep: "heap_rep h p rss" and r: "row_ok r" "recordSize r \<le> max_record"
    and run: "heapInsert h r p = (Inr pos, h', p')"
  shows "\<exists>fresh. (fresh \<or> rss \<noteq> []) \<and> heap_rep h' p' (add_row fresh rss r) \<and>
      pos = last_position (add_row fresh rss r) \<and> others_keep (set (pageIds h)) p p' \<and>
      set (pageIds h) \<subseteq> set (pageIds h') \<and> (set (pageIds h') - set (pageIds h)) \<inter> used_pages p = {}"
proof -
  let ?z = "recordSize r"
  obtain found q where lp: "last_page ?z h p = (found, q)" by force
  have small: "\<not> PAGE_SIZE - PAGE_HEADER - SLOT_WIDTH < ?z" using r(2) by (simp add: max_record_def PAGE_SIZE_def)
  show ?thesis
  proof (cases found)
    case (Some y)
    then obtain pid i where y: "found = Some (pid, i)" by (cases y) auto
    from last_page_rep(2) [OF rep r(2) lp y]
    have lp: "rss \<noteq> []" "pid = last (pageIds h)" "poolPin (int pid) p = (Some i, q)" "length (last rss) < 1024"
      "16 + 8 * length (last rss) + ?z \<le> unat (dataStart (frame_page i q))" and run': "place_row pid i r (h, q) = (Inr pos, h', p')"
      using run small lp y by (auto simp: heapInsert_def)
    have "rss = butlast rss @ [last rss]" using lp(1) by simp
    then have rep': "heap_rep h p (butlast rss @ [last rss])" using rep by simp
    note place = place_row_rep [OF rep' lp(2,3) r(1) lp(4,5) run']
    have "pageIds h \<noteq> []" using lp(1) rep by (auto simp: heap_rep_def)
    then have "pid \<in> set (pageIds h)" using lp(2) by simp
    then have "others_keep (set (pageIds h)) p p'"
      using place(4) by (auto simp: others_keep_def intro!: place(5))
    then show ?thesis
      using place(1-3) lp(1) by (intro exI [of _ False]) (simp add: add_row_def last_position_def)
  next
    case None
    from last_page_rep(1) [OF rep r(2) lp None]
    have q: "heap_rep h q rss" "pool_view p \<subseteq>\<^sub>m pool_view q" "used_pages q = used_pages p" by auto
    obtain a h1 p1 where ap: "appendPage (h, q) = (a, h1, p1)" by (cases "appendPage (h, q)") auto
    then obtain pid where a: "a = Inr pid" using run small lp None by (cases a) (auto simp: heapInsert_def)
    note app = appendPage_rep [OF q(1) ap [unfolded a]]
    obtain f t where pin: "poolPin (int pid) p1 = (f, t)" by force
    then obtain i where f: "f = Some i" using run small lp None ap a by (cases f) (auto simp: heapInsert_def)
    have run': "place_row pid i r (h1, t) = (Inr pos, h', p')"
      using run small lp None ap a pin f by (auto simp: heapInsert_def)
    obtain m where m: "pool_view p1 pid = Some m" "unat (dataStart m) = PAGE_USABLE" using app(7) by auto
    have ok1: "store_ok {} p1" "pid \<in> used_pages p1" using app(1,4) by (auto simp: heap_rep_def)
    from store.pin_law [OF ok1 pin] f
    have "pool_view p1 \<subseteq>\<^sub>m pool_view t" "pool_view t pid = Some (usable (frame_page i t))" by auto
    from store.view_stays [OF this(1) m(1)] this(2) have "unat (dataStart (frame_page i t)) = PAGE_USABLE"
      using m(2) by auto
    then have room: "16 + 8 * length [] + ?z \<le> unat (dataStart (frame_page i t))" using r(2) by (simp add: max_record_def)
    note place = place_row_rep [OF app(1) app(2) [symmetric] pin [unfolded f] r(1) _ room run']
    have "others_keep (set (pageIds h)) p p'"
      unfolding others_keep_def
    proof (intro conjI allI impI)
      show "used_pages p \<subseteq> used_pages p'" using place(4) app(4) q(3) by auto
      fix x v assume x: "x \<in> used_pages p" "pool_view p x = Some v"
      then have "pool_view p1 x = Some v" using app(6) q(2,3) store.view_stays by blast
      moreover have "x \<noteq> pid" using x app(3) q(3) by auto
      ultimately show "pool_view p' x = Some v" using place(5) by simp
    qed
    then show ?thesis
      using place app(3,5) q(3) by (intro exI [of _ True]) (auto simp: add_row_def last_position_def)
  qed
qed


subsection \<open>Reading and deleting\<close>

lemma pinFor_rep:
  assumes rep: "heap_rep h p rss" and k: "k < length rss" "s < length (rss ! k)"
    and run: "pinFor h (int k * 1024 + int s) p = (res, q)" and pid: "pid = pageIds h ! k"
  shows "heap_rep h (if res = None then q else p) rss"
    and "res = None \<Longrightarrow> others_keep {} p q \<and> (rss ! k ! s = None \<or> fst (poolPin (int pid) p) = None)"
    and "res = Some (pid', i, off) \<Longrightarrow> pid' = pid \<and> poolPin (int pid) p = (Some i, q) \<and>
      page_rep (frame_page i q) (rss ! k) \<and>
      (\<exists>r. rss ! k ! s = Some r \<and> row_ok r \<and> holds (frame_page i q) off (record_bytes r))"
proof -
  have h: "pageSlots h = map length rss" "length (pageIds h) = length rss" "store_ok {} p" "pid \<in> used_pages p"
    using rep k pid by (auto simp: heap_rep_def)
  have s: "s < 1024" using heap_rep_slots [OF rep k(1)] k(2) by simp
  obtain m where m: "pool_view p pid = Some m" "page_rep m (rss ! k)" using rep k pid by (auto simp: heap_rep_def)
  have split: "position_page (int k * 1024 + int s) = int k" "position_slot (int k * 1024 + int s) = int s"
    using s by (simp_all add: position_split)
  obtain f t where pin: "poolPin (int pid) p = (f, t)" by force
  have run: "(res, q) = (case f of None \<Rightarrow> (None, t)
      | Some i \<Rightarrow> let offset = unat (getU32 (slotAt s) (frame_page i t))
                  in if offset = 0 then (None, poolUnpin (int pid) False t) else (Some (pid, i, offset), t))"
    using run k h(1,2) pin by (cases f) (auto simp: pinFor_def Let_def split npages_def pid [symmetric])
  have both: "heap_rep h (if res = None then q else p) rss \<and>
     (res = None \<longrightarrow> others_keep {} p q \<and> (rss ! k ! s = None \<or> fst (poolPin (int pid) p) = None)) \<and>
     (\<forall>pid' i off. res = Some (pid', i, off) \<longrightarrow> pid' = pid \<and> poolPin (int pid) p = (Some i, q) \<and>
      page_rep (frame_page i q) (rss ! k) \<and>
      (\<exists>r. rss ! k ! s = Some r \<and> row_ok r \<and> holds (frame_page i q) off (record_bytes r)))"
  proof (cases f)
    case None
    then have r: "res = None" "q = t" using run by simp_all
    have t: "store_ok {} t" "pool_view p \<subseteq>\<^sub>m pool_view t" "used_pages t = used_pages p"
      using store.failed_pin [OF h(3,4)] pin None by auto
    have "heap_rep h t rss" by (rule heap_rep_keep [OF rep t(1)]) (use t store.view_stays in auto)
    then show ?thesis using r pin None t store.view_stays [OF t(2)] by (auto simp: others_keep_def)
  next
    case (Some i)
    let ?u = "poolUnpin (int pid) False t" and ?off = "unat (getU32 (slotAt s) (frame_page i t))"
    have u: "store_ok {} ?u" "pool_view p \<subseteq>\<^sub>m pool_view ?u" "used_pages ?u = used_pages p"
      "pool_view ?u pid = Some (usable (frame_page i t))"
      using store.read_under_pin [OF h(3,4) pin [unfolded Some]] by auto
    have fp: "page_rep (frame_page i t) (rss ! k)" using store.view_stays [OF u(2) m(1)] u(4) m(2) by auto
    then have slot: "slot_rep (frame_page i t) s (rss ! k ! s)" using k(2) by (simp add: page_rep_def)
    show ?thesis
    proof (cases "?off = 0")
      case True
      then have r: "res = None" "q = ?u" using run Some by simp_all
      have "heap_rep h ?u rss" by (rule heap_rep_keep [OF rep u(1)]) (use u store.view_stays in auto)
      moreover have "rss ! k ! s = None" using slot True by (auto simp: slot_rep_def split: option.splits)
      ultimately show ?thesis using r u store.view_stays [OF u(2)] by (auto simp: others_keep_def)
    next
      case False
      then have r: "res = Some (pid, i, ?off)" "q = t" using run Some by simp_all
      obtain row where "rss ! k ! s = Some row" using slot False by (cases "rss ! k ! s") (auto simp: slot_rep_def)
      then show ?thesis using r rep pin Some fp slot by (auto simp: slot_rep_def Let_def)
    qed
  qed
  show "heap_rep h (if res = None then q else p) rss" by (rule both [THEN conjunct1])
  show "res = None \<Longrightarrow> others_keep {} p q \<and> (rss ! k ! s = None \<or> fst (poolPin (int pid) p) = None)"
    by (rule both [THEN conjunct2, THEN conjunct1, rule_format])
  show "res = Some (pid', i, off) \<Longrightarrow> pid' = pid \<and> poolPin (int pid) p = (Some i, q) \<and>
      page_rep (frame_page i q) (rss ! k) \<and>
      (\<exists>r. rss ! k ! s = Some r \<and> row_ok r \<and> holds (frame_page i q) off (record_bytes r))"
    by (rule both [THEN conjunct2, THEN conjunct2, rule_format])
qed

lemma heapRead_rep:
  assumes rep: "heap_rep h p rss" and k: "k < length rss" "s < length (rss ! k)"
    and pinned: "fst (poolPin (int (pageIds h ! k)) p) \<noteq> None"
    and run: "heapRead h (int k * 1024 + int s) p = (r, p')"
  shows "r = (case rss ! k ! s of Some r \<Rightarrow> stored_row r | None \<Rightarrow> blank_row\<lparr>deleted := True\<rparr>)"
    and "heap_rep h p' rss" and "others_keep {} p p'"
proof -
  let ?pid = "pageIds h ! k"
  obtain res q where pf: "pinFor h (int k * 1024 + int s) p = (res, q)" by force
  note pr = pinFor_rep [OF rep k pf refl]
  have both: "r = (case rss ! k ! s of Some r \<Rightarrow> stored_row r | None \<Rightarrow> blank_row\<lparr>deleted := True\<rparr>) \<and>
    heap_rep h p' rss \<and> others_keep {} p p'"
  proof (cases res)
    case None
    then have "r = blank_row\<lparr>deleted := True\<rparr>" "p' = q" using run pf by (simp_all add: heapRead_def)
    then show ?thesis using pr(1,2) None pinned by auto
  next
    case (Some y)
    then obtain pid' i off where y: "res = Some (pid', i, off)" by (cases y) auto
    from pr(3) [OF y] obtain row where row: "pid' = ?pid" "poolPin (int ?pid) p = (Some i, q)"
      "rss ! k ! s = Some row" "row_ok row" "holds (frame_page i q) off (record_bytes row)" by auto
    have res: "r = (readRecord off (frame_page i q))\<lparr>deleted := False\<rparr>" "p' = poolUnpin (int ?pid) False q"
      using run pf y row(1) by (simp_all add: heapRead_def)
    have used: "store_ok {} p" "?pid \<in> used_pages p" using rep k by (auto simp: heap_rep_def)
    have u: "store_ok {} p'" "pool_view p \<subseteq>\<^sub>m pool_view p'" "used_pages p' = used_pages p"
      using store.read_under_pin [OF used row(2)] res(2) by auto
    have "heap_rep h p' rss" by (rule heap_rep_keep [OF rep u(1)]) (use u store.view_stays in auto)
    then show ?thesis
      using res(1) row(3) readRecord_holds [OF row(4,5)] u store.view_stays [OF u(2)]
      by (auto simp: stored_row_def others_keep_def)
  qed
  then show "r = (case rss ! k ! s of Some r \<Rightarrow> stored_row r | None \<Rightarrow> blank_row\<lparr>deleted := True\<rparr>)"
    "heap_rep h p' rss" "others_keep {} p p'" by blast+
qed

text \<open>One row of one page replaced by a hole.\<close>

definition punch :: "nat \<Rightarrow> nat \<Rightarrow> row option list list \<Rightarrow> row option list list" where
  "punch k s rss = rss[k := (rss ! k)[s := None]]"

lemma concat_punch:
  assumes "k < length rss" "s < length (rss ! k)" "rss ! k ! s \<noteq> None"
  shows "length (concat (punch k s rss)) = length (concat rss)" "Suc (live_count (punch k s rss)) = live_count rss"
proof -
  obtain xs rs ys where split: "rss = xs @ rs # ys" "length xs = k"
    using assms(1) by (metis id_take_nth_drop length_take less_imp_le_nat min.absorb2)
  then have rs: "rs = rss ! k" and p: "punch k s rss = xs @ rs[s := None] # ys" by (auto simp: punch_def)
  obtain as b bs where b: "rs = as @ b # bs" "length as = s"
    using assms(2) rs by (metis id_take_nth_drop length_take less_imp_le_nat min.absorb2)
  then have "b \<noteq> None" using assms(3) rs by auto
  then show "length (concat (punch k s rss)) = length (concat rss)" "Suc (live_count (punch k s rss)) = live_count rss"
    using b unfolding p unfolding split(1) by (auto simp: live_count_def)
qed

lemma heapMarkDeleted_rep:
  assumes rep: "heap_rep h p rss" and k: "k < length rss" "s < length (rss ! k)"
    and pinned: "fst (poolPin (int (pageIds h ! k)) p) \<noteq> None"
    and run: "heapMarkDeleted h (int k * 1024 + int s) p = (h', p')"
  shows "heap_rep h' p' (punch k s rss)" and "others_keep (set (pageIds h)) p p'"
proof -
  let ?pid = "pageIds h ! k"
  obtain res q where pf: "pinFor h (int k * 1024 + int s) p = (res, q)" by force
  note pr = pinFor_rep [OF rep k pf refl]
  have s: "s < 1024" using heap_rep_slots [OF rep k(1)] k(2) by simp
  have both: "heap_rep h' p' (punch k s rss) \<and> others_keep (set (pageIds h)) p p'"
  proof (cases res)
    case None
    then have "h' = h" "p' = q" using run pf by (simp_all add: heapMarkDeleted_def)
    moreover have "rss ! k ! s = None" using pr(2) None pinned by auto
    then have "(rss ! k)[s := None] = rss ! k" by (metis list_update_id)
    then have "punch k s rss = rss" by (simp add: punch_def)
    ultimately show ?thesis using pr(1,2) None pinned by (auto simp: others_keep_def)
  next
    case (Some y)
    then obtain pid' i off where y: "res = Some (pid', i, off)" by (cases y) auto
    from pr(3) [OF y] have row: "pid' = ?pid" "poolPin (int ?pid) p = (Some i, q)"
      "page_rep (frame_page i q) (rss ! k)" "rss ! k ! s \<noteq> None" by auto
    let ?g = "putU32 (8 + s * 8) 0"
    have res: "h' = h\<lparr>nlive := nlive h - 1\<rparr>" "p' = poolUnpin (int ?pid) True (write_page i ?g q)"
      using run pf y row(1) s by (simp_all add: heapMarkDeleted_def position_split)
    have used: "store_ok {} p" "?pid \<in> used_pages p" using rep k by (auto simp: heap_rep_def)
    from store.change_under_pin [OF used row(2) res(2)]
    have t: "store_ok {} p'" "pool_view p' ?pid = Some (usable (?g (frame_page i q)))" "used_pages p' = used_pages p"
      "\<And>x v. x \<noteq> ?pid \<Longrightarrow> pool_view p x = Some v \<Longrightarrow> pool_view p' x = Some v" by auto
    have page: "page_rep (?g (frame_page i q)) ((rss ! k)[s := None])" by (rule clear_slot_rep [OF row(3) k(2)])
    have "heap_rep h' p' (punch k s rss)"
      unfolding heap_rep_def
    proof (intro conjI allI impI)
      show "pageSlots h' = map length (punch k s rss)"
        using rep res(1) k by (auto simp: heap_rep_def punch_def map_update list_update_same_conv [THEN iffD2])
      show "nslots h' = int (length (concat (punch k s rss)))" "nlive h' = int (live_count (punch k s rss))"
        using concat_punch [OF k row(4)] rep res(1) by (simp_all add: heap_rep_def)
      fix j assume j: "j < length (punch k s rss)"
      show "\<exists>m. pool_view p' (pageIds h' ! j) = Some m \<and> page_rep m (punch k s rss ! j)"
      proof (cases "j = k")
        case True
        then show ?thesis using t(2) page res(1) k by (simp add: punch_def)
      next
        case False
        obtain m where m: "pool_view p (pageIds h ! j) = Some m" "page_rep m (rss ! j)"
          using rep j by (auto simp: heap_rep_def punch_def)
        have "pageIds h ! j \<noteq> ?pid" using rep j k False by (simp add: heap_rep_def punch_def nth_eq_iff_index_eq)
        then show ?thesis using t(4) m res(1) False by (simp add: punch_def)
      qed
    qed (use t res rep in \<open>simp_all add: heap_rep_def punch_def\<close>)
    moreover have "?pid \<in> set (pageIds h)" using rep k by (simp add: heap_rep_def)
    moreover have "others_keep (set (pageIds h)) p p'"
      using t(3) \<open>?pid \<in> set (pageIds h)\<close> by (auto simp: others_keep_def intro!: t(4))
    ultimately show ?thesis by simp
  qed
  then show "heap_rep h' p' (punch k s rss)" "others_keep (set (pageIds h)) p p'" by blast+
qed

end
