(* ===== verification/HeapScan.thy ===== *)
theory HeapScan
  imports HeapTable
begin

text \<open>
  Walking a heap, \<^verbatim>\<open>07_storage.c\<close>: the scan that keeps its page pinned, the lookup of one
  position through the same cursor, and the positions \<open>heapFirst\<close> and \<open>heapNext\<close> give. A record is
  told by the frame it lies in and its offset there.
\<close>

subsection \<open>The cursor\<close>

record heapscan =
  spage :: nat
  sslot :: nat
  spageId :: int
  spinned :: "nat option"

definition heapScanStart :: heapscan where
  "heapScanStart = \<lparr>spage = 0, sslot = 0, spageId = -1, spinned = None\<rparr>"

definition releaseScanPage :: "heapscan \<Rightarrow> pool \<Rightarrow> heapscan \<times> pool" where
  "releaseScanPage sc p =
     (if spinned sc \<noteq> None then (sc\<lparr>spinned := None, spageId := -1\<rparr>, poolUnpin (spageId sc) False p)
      else (sc, p))"

text \<open>The page of the cursor, pinned now or before.\<close>

definition pin_scan :: "heap \<Rightarrow> heapscan \<Rightarrow> pool \<Rightarrow> nat option \<times> heapscan \<times> pool" where
  "pin_scan h sc p =
     (case spinned sc of Some i \<Rightarrow> (Some i, sc, p)
      | None \<Rightarrow>
          let pid = int (pageIds h ! spage sc)
          in case poolPin pid p of
               (None, p) \<Rightarrow> (None, sc\<lparr>spageId := -1\<rparr>, p)
             | (Some i, p) \<Rightarrow> (Some i, sc\<lparr>spageId := pid, spinned := Some i\<rparr>, p))"

lemma cursor_stays [simp]:
  "spage (fst (releaseScanPage sc p)) = spage sc" "sslot (fst (releaseScanPage sc p)) = sslot sc"
  "spage (fst (snd (pin_scan h sc p))) = spage sc" "sslot (fst (snd (pin_scan h sc p))) = sslot sc"
  by (simp_all add: releaseScanPage_def pin_scan_def Let_def split: option.splits prod.splits)

function heapScanNext :: "heap \<Rightarrow> heapscan \<Rightarrow> pool \<Rightarrow> (int \<times> nat \<times> nat) option \<times> heapscan \<times> pool" where
  "heapScanNext h sc p =
     (if spage sc \<ge> npages h then (None, releaseScanPage sc p)
      else if sslot sc \<ge> pageSlots h ! spage sc then
        (let (sc, p) = releaseScanPage sc p
         in heapScanNext h (sc\<lparr>spage := spage sc + 1, sslot := 0\<rparr>) p)
      else
        (case pin_scan h sc p of
           (None, sc, p) \<Rightarrow> (None, sc, p)
         | (Some i, sc, p) \<Rightarrow>
             let slot = sslot sc;
                 sc = sc\<lparr>sslot := slot + 1\<rparr>;
                 offset = unat (getU32 (slotAt slot) (frame_page i p))
             in if offset = 0 then heapScanNext h sc p
                else (Some (pack_position (int (spage sc)) (int slot), i, offset), sc, p)))"
  by pat_completeness auto

text \<open>Every step moves the cursor to a later slot or to a later page.\<close>

termination
proof (relation "measures [\<lambda>(h, sc, p). npages h - spage sc, \<lambda>(h, sc, p). pageSlots h ! spage sc - sslot sc]",
    goal_cases)
  case 1
  then show ?case by simp
next
  case (2 h sc p x sc1 p1)
  then have "spage sc1 = spage sc" by (metis cursor_stays(1) fst_conv)
  then show ?case using 2 by simp
next
  case (3 h sc p o1 x i sc1 p1 slot sc2 offset)
  then have "pin_scan h sc p = (Some i, sc1, p1)" by simp
  then have "spage sc1 = spage sc" "sslot sc1 = sslot sc"
    using cursor_stays(3,4) [of h sc p] by simp_all
  then show ?case using 3 by simp
qed

declare heapScanNext.simps [simp del]

definition heapScanEnd :: "heapscan \<Rightarrow> pool \<Rightarrow> heapscan \<times> pool" where
  "heapScanEnd sc p = releaseScanPage sc p"

definition heapScanAt :: "heap \<Rightarrow> heapscan \<Rightarrow> int \<Rightarrow> pool \<Rightarrow> (nat \<times> nat) option \<times> heapscan \<times> pool" where
  "heapScanAt h sc pos p =
     (let page = position_page pos; slot = position_slot pos
      in if page < 0 \<or> page \<ge> int (npages h) then (None, sc, p)
         else if slot < 0 \<or> slot \<ge> int (pageSlots h ! nat page) then (None, sc, p)
         else
           let (sc, p) = (if spinned sc = None \<or> spage sc \<noteq> nat page
                          then let (sc, p) = releaseScanPage sc p in (sc\<lparr>spage := nat page\<rparr>, p)
                          else (sc, p))
           in case pin_scan h sc p of
                (None, sc, p) \<Rightarrow> (None, sc, p)
              | (Some i, sc, p) \<Rightarrow>
                  let offset = unat (getU32 (slotAt (nat slot)) (frame_page i p))
                  in (if offset = 0 then None else Some (i, offset), sc, p))"

subsection \<open>Positions without reading a page\<close>

definition first_from :: "heap \<Rightarrow> nat \<Rightarrow> int" where
  "first_from h k =
     (case filter (\<lambda>page. pageSlots h ! page > 0) [k..<npages h] of
        page # _ \<Rightarrow> pack_position (int page) 0 | [] \<Rightarrow> -1)"

definition heapFirst :: "heap \<Rightarrow> int" where "heapFirst h = first_from h 0"

definition heapNext :: "heap \<Rightarrow> int \<Rightarrow> int" where
  "heapNext h pos =
     (let page = position_page pos; slot = position_slot pos + 1
      in if page < 0 \<or> page \<ge> int (npages h) then -1
         else if slot < int (pageSlots h ! nat page) then pack_position page slot
         else first_from h (nat page + 1))"

subsection \<open>The rows a walk meets\<close>

fun page_rows :: "nat \<Rightarrow> nat \<Rightarrow> row option list \<Rightarrow> (int \<times> row) list" where
  "page_rows k j [] = []"
| "page_rows k j (None # rs) = page_rows k (Suc j) rs"
| "page_rows k j (Some r # rs) = (int k * 1024 + int j, r) # page_rows k (Suc j) rs"

fun table_rows :: "nat \<Rightarrow> row option list list \<Rightarrow> (int \<times> row) list" where
  "table_rows k [] = []"
| "table_rows k (rs # rss) = page_rows k 0 rs @ table_rows (Suc k) rss"

definition remaining :: "row option list list \<Rightarrow> nat \<Rightarrow> nat \<Rightarrow> (int \<times> row) list" where
  "remaining rss k s =
     (if k < length rss then page_rows k s (drop s (rss ! k)) @ table_rows (Suc k) (drop (Suc k) rss) else [])"

lemma remaining_all: "remaining rss 0 0 = table_rows 0 rss"
  by (cases rss) (simp_all add: remaining_def)

lemma remaining_end: "length rss \<le> k \<Longrightarrow> remaining rss k s = []"
  by (simp add: remaining_def)

lemma remaining_page: "k < length rss \<Longrightarrow> length (rss ! k) \<le> s \<Longrightarrow> remaining rss k s = remaining rss (Suc k) 0"
  by (auto simp: remaining_def Cons_nth_drop_Suc [symmetric])

lemma remaining_slot:
  assumes "k < length rss" "s < length (rss ! k)"
  shows "remaining rss k s = (case rss ! k ! s of None \<Rightarrow> remaining rss k (Suc s)
     | Some r \<Rightarrow> (int k * 1024 + int s, r) # remaining rss k (Suc s))"
  using assms by (auto simp: remaining_def Cons_nth_drop_Suc [symmetric] split: option.split)

lemma map_snd_page_rows: "map snd (page_rows k j rs) = List.map_filter id rs"
  by (induction k j rs rule: page_rows.induct) (auto simp: List.map_filter_simps)

lemma map_filter_append: "List.map_filter f (xs @ ys) = List.map_filter f xs @ List.map_filter f ys"
  by (simp add: List.map_filter_def)

lemma map_snd_table_rows: "map snd (table_rows k rss) = List.map_filter id (concat rss)"
  by (induction k rss rule: table_rows.induct) (auto simp: map_snd_page_rows map_filter_append List.map_filter_simps id_def)

lemma live_count_rows: "live_count rss = length (table_rows k rss)"
proof -
  have "length (filter (\<lambda>r. r \<noteq> None) rs) = length (page_rows k j rs)" for k j and rs :: "row option list"
    by (induction k j rs rule: page_rows.induct) auto
  then show ?thesis
    by (induction k rss rule: table_rows.induct) (simp_all add: live_count_def)
qed


subsection \<open>The cursor and the rows\<close>

definition cursor_ok :: "heap \<Rightarrow> heapscan \<Rightarrow> pool \<Rightarrow> bool" where
  "cursor_ok h sc p \<longleftrightarrow>
     (case spinned sc of None \<Rightarrow> True
      | Some i \<Rightarrow> spage sc < npages h \<and> spageId sc = int (pageIds h ! spage sc) \<and>
          home_frame p (pageIds h ! spage sc) i \<and>
          pool_view p (pageIds h ! spage sc) = Some (usable (frame_page i p)))"

lemma cursor_ok_slot [simp]: "cursor_ok h (sc\<lparr>sslot := n\<rparr>) p = cursor_ok h sc p"
  by (simp add: cursor_ok_def cong: option.case_cong)

lemma releaseScanPage_rep:
  assumes rep: "heap_rep h p rss" and cur: "cursor_ok h sc p" and run: "releaseScanPage sc p = (sc', p')"
  shows "heap_rep h p' rss" "others_keep {} p p'" "spinned sc' = None" "cursor_ok h sc' p'"
proof -
  have "heap_rep h p' rss \<and> others_keep {} p p' \<and> spinned sc' = None"
  proof (cases "spinned sc")
    case None
    then show ?thesis using rep run by (auto simp: releaseScanPage_def others_keep_def)
  next
    case (Some i)
    then have c: "spageId sc = int (pageIds h ! spage sc)" "home_frame p (pageIds h ! spage sc) i"
      using cur by (simp_all add: cursor_ok_def)
    have ok: "store_ok {} p" using rep by (simp add: heap_rep_def)
    have r: "p' = poolUnpin (int (pageIds h ! spage sc)) False p" "spinned sc' = None"
      using run Some c by (auto simp: releaseScanPage_def)
    from store.unpin_law [OF ok c(2), of False]
    have u: "store_ok {} p'" "pool_view p' = pool_view p" "used_pages p' = used_pages p" using r by auto
    then show ?thesis using r heap_rep_keep [OF rep u(1)] by (auto simp: others_keep_def)
  qed
  then show "heap_rep h p' rss" "others_keep {} p p'" "spinned sc' = None" "cursor_ok h sc' p'"
    by (simp_all add: cursor_ok_def)
qed

lemma pin_scan_rep:
  assumes rep: "heap_rep h p rss" and cur: "cursor_ok h sc p" and k: "spage sc < npages h"
    and run: "pin_scan h sc p = (f, sc', p')"
  shows "heap_rep h p' rss" "others_keep {} p p'" "cursor_ok h sc' p'" "spage sc' = spage sc" "sslot sc' = sslot sc"
    and "f = Some i \<Longrightarrow> spinned sc' = Some i \<and> page_rep (frame_page i p') (rss ! spage sc)"
    and "f = None \<Longrightarrow> spinned sc' = None"
proof -
  let ?pid = "pageIds h ! spage sc"
  have k': "spage sc < length rss" using rep k by (simp add: heap_rep_def npages_def)
  obtain m where m: "pool_view p ?pid = Some m" "page_rep m (rss ! spage sc)" using rep k' by (auto simp: heap_rep_def)
  have used: "store_ok {} p" "?pid \<in> used_pages p" using rep k' by (auto simp: heap_rep_def)
  have both: "heap_rep h p' rss \<and> others_keep {} p p' \<and> cursor_ok h sc' p' \<and> spage sc' = spage sc \<and> sslot sc' = sslot sc \<and>
      spinned sc' = f \<and> (\<forall>i. f = Some i \<longrightarrow> page_rep (frame_page i p') (rss ! spage sc))"
  proof (cases "spinned sc")
    case (Some i)
    then have r: "f = Some i" "sc' = sc" "p' = p" using run by (simp_all add: pin_scan_def)
    have "pool_view p ?pid = Some (usable (frame_page i p))" using cur Some by (simp add: cursor_ok_def)
    then have "page_rep (frame_page i p) (rss ! spage sc)" using m by simp
    then show ?thesis using r rep cur Some by (auto simp: others_keep_def)
  next
    case None
    obtain g t where pin: "poolPin (int ?pid) p = (g, t)" by force
    from store.pin_law [OF used pin]
    have t: "store_ok {} t" "pool_view p \<subseteq>\<^sub>m pool_view t" "used_pages t = used_pages p"
      "\<And>i. g = Some i \<Longrightarrow> home_frame t ?pid i \<and> pool_view t ?pid = Some (usable (frame_page i t))" by auto
    have r: "f = g" "p' = t" "spage sc' = spage sc" "sslot sc' = sslot sc" "spinned sc' = g"
      "g \<noteq> None \<Longrightarrow> spageId sc' = int ?pid"
      using run None pin by (cases g; auto simp: pin_scan_def Let_def)+
    have keep: "pool_view p x = Some v \<Longrightarrow> pool_view t x = Some v" for x v by (rule store.view_stays [OF t(2)])
    have "heap_rep h t rss" by (rule heap_rep_keep [OF rep t(1)]) (use t(3) keep in auto)
    moreover have "cursor_ok h sc' t" using r t(4) k by (cases g) (simp_all add: cursor_ok_def)
    moreover have "page_rep (frame_page i t) (rss ! spage sc)" if "g = Some i" for i
    proof -
      have "m = usable (frame_page i t)" using keep [OF m(1)] t(4) [OF that] by simp
      then show ?thesis using m(2) by simp
    qed
    ultimately show ?thesis using r t(3) keep by (auto simp: others_keep_def)
  qed
  then show "heap_rep h p' rss" "others_keep {} p p'" "cursor_ok h sc' p'" "spage sc' = spage sc" "sslot sc' = sslot sc"
    "f = Some i \<Longrightarrow> spinned sc' = Some i \<and> page_rep (frame_page i p') (rss ! spage sc)" "f = None \<Longrightarrow> spinned sc' = None"
    by auto
qed

lemma others_keep_trans: "others_keep A p q \<Longrightarrow> others_keep A q r \<Longrightarrow> others_keep A p r"
  by (auto simp: others_keep_def subset_iff)

lemma page_rep_slot:
  assumes "page_rep m rs" "s < length rs"
  shows "unat (getU32 (slotAt s) m) = 0 \<longleftrightarrow> rs ! s = None"
    and "rs ! s = Some r \<Longrightarrow> readRecord (unat (getU32 (slotAt s) m)) m = stored_row r"
proof -
  have "slot_rep m s (rs ! s)" using assms by (simp add: page_rep_def)
  then show "unat (getU32 (slotAt s) m) = 0 \<longleftrightarrow> rs ! s = None"
    and "rs ! s = Some r \<Longrightarrow> readRecord (unat (getU32 (slotAt s) m)) m = stored_row r"
    by (auto simp: slot_rep_def Let_def readRecord_holds split: option.splits)
qed

definition scan_result :: "heap \<Rightarrow> row option list list \<Rightarrow> nat \<Rightarrow> nat \<Rightarrow>
    (int \<times> nat \<times> nat) option \<times> heapscan \<times> pool \<Rightarrow> bool" where
  "scan_result h rss k s res \<longleftrightarrow>
     (case res of
        (Some (pos, i, off), sc', p') \<Rightarrow>
          (\<exists>r. remaining rss k s = (pos, r) # remaining rss (spage sc') (sslot sc') \<and>
               spinned sc' = Some i \<and> readRecord off (frame_page i p') = stored_row r)
      | (None, sc', p') \<Rightarrow> spinned sc' = None \<and> (spage sc' < npages h \<or> remaining rss k s = []))"

lemma scan_result_same:
  "remaining rss k s = remaining rss j t \<Longrightarrow> scan_result h rss j t x \<Longrightarrow> scan_result h rss k s x"
  by (simp only: scan_result_def)

lemma heapScanNext_rep:
  "heap_rep h p rss \<Longrightarrow> cursor_ok h sc p \<Longrightarrow> heapScanNext h sc p = (res, sc', p') \<Longrightarrow>
   heap_rep h p' rss \<and> cursor_ok h sc' p' \<and> others_keep {} p p' \<and>
   scan_result h rss (spage sc) (sslot sc) (res, sc', p')"
proof (induction h sc p rule: heapScanNext.induct)
  case (1 h sc p)
  have len: "npages h = length rss" "pageSlots h = map length rss" using 1(3) by (auto simp: heap_rep_def npages_def)
  obtain sc1 p1 where rel: "releaseScanPage sc p = (sc1, p1)" by force
  note r1 = releaseScanPage_rep [OF 1(3,4) rel]
  have same: "spage sc1 = spage sc" using cursor_stays(1) [of sc p] rel by simp
  consider "npages h \<le> spage sc" | "spage sc < npages h" "pageSlots h ! spage sc \<le> sslot sc"
    | "spage sc < npages h" "sslot sc < pageSlots h ! spage sc" by linarith
  then show ?case
  proof cases
    case 1
    then have "res = None" "sc' = sc1" "p' = p1" using 1 \<open>heapScanNext h sc p = (res, sc', p')\<close> rel
      by (simp_all add: heapScanNext.simps [of h sc p])
    then show ?thesis using r1 1 len by (simp add: scan_result_def remaining_end)
  next
    case 2
    let ?sc = "sc1\<lparr>spage := spage sc + 1, sslot := 0\<rparr>"
    have run: "heapScanNext h ?sc p1 = (res, sc', p')"
      using 2 \<open>heapScanNext h sc p = (res, sc', p')\<close> rel same by (simp add: heapScanNext.simps [of h sc p])
    have "cursor_ok h ?sc p1" using r1(3) by (simp add: cursor_ok_def)
    from "1.IH"(1) [OF _ _ rel [symmetric] refl r1(1)] this run 2 same
    have "heap_rep h p' rss \<and> cursor_ok h sc' p' \<and> others_keep {} p1 p' \<and>
        scan_result h rss (Suc (spage sc)) 0 (res, sc', p')" by simp
    moreover have "remaining rss (spage sc) (sslot sc) = remaining rss (Suc (spage sc)) 0"
      using 2 len by (intro remaining_page) simp_all
    ultimately show ?thesis using others_keep_trans [OF r1(2)] scan_result_same by blast
  next
    case 3
    obtain f sc2 p2 where pin: "pin_scan h sc p = (f, sc2, p2)" by (cases "pin_scan h sc p") auto
    note r2 = pin_scan_rep [OF \<open>heap_rep h p rss\<close> \<open>cursor_ok h sc p\<close> 3(1) pin]
    show ?thesis
    proof (cases f)
      case None
      then have "res = None" "sc' = sc2" "p' = p2"
        using 3 \<open>heapScanNext h sc p = (res, sc', p')\<close> pin by (simp_all add: heapScanNext.simps [of h sc p])
      then show ?thesis using r2 3 None by (simp add: scan_result_def)
    next
      case (Some i)
      let ?s = "sslot sc" and ?k = "spage sc"
      let ?off = "unat (getU32 (slotAt ?s) (frame_page i p2))" and ?sc = "sc2\<lparr>sslot := ?s + 1\<rparr>"
      have ks: "?k < length rss" "?s < length (rss ! ?k)" using 3 len by simp_all
      have page: "page_rep (frame_page i p2) (rss ! ?k)" "spinned sc2 = Some i" using r2(6) Some by simp_all
      have cur: "cursor_ok h ?sc p2" using r2(3) by simp
      show ?thesis
      proof (cases "?off = 0")
        case True
        then have run: "heapScanNext h ?sc p2 = (res, sc', p')"
          using 3 \<open>heapScanNext h sc p = (res, sc', p')\<close> pin Some r2(4,5) by (simp add: heapScanNext.simps [of h sc p])
        have "heap_rep h p' rss \<and> cursor_ok h sc' p' \<and> others_keep {} p2 p' \<and>
            scan_result h rss ?k (Suc ?s) (res, sc', p')"
          using "1.IH"(2) [OF _ _ pin [symmetric] Some refl refl refl refl _ r2(1)] 3 True cur run r2(4,5) by simp
        moreover have "remaining rss ?k ?s = remaining rss ?k (Suc ?s)"
          using remaining_slot [OF ks] page_rep_slot(1) [OF page(1) ks(2)] True by simp
        ultimately show ?thesis using others_keep_trans [OF r2(2)] scan_result_same by blast
      next
        case False
        then have run: "res = Some (pack_position (int ?k) (int ?s), i, ?off)" "sc' = ?sc" "p' = p2"
          using 3 \<open>heapScanNext h sc p = (res, sc', p')\<close> pin Some r2(4,5)
          by (auto simp add: heapScanNext.simps [of h sc p] Let_def)
        obtain r where r: "rss ! ?k ! ?s = Some r" using page_rep_slot(1) [OF page(1) ks(2)] False by auto
        have "?s < 1024" using heap_rep_slots [OF \<open>heap_rep h p rss\<close> ks(1)] ks(2) by simp
        then have "pack_position (int ?k) (int ?s) = int ?k * 1024 + int ?s" by (simp add: pack_position_eq)
        then show ?thesis
          using run r2 cur page remaining_slot [OF ks] r page_rep_slot(2) [OF page(1) ks(2) r]
          by (simp add: scan_result_def)
      qed
    qed
  qed
qed


lemma heapScanAt_rep:
  assumes rep: "heap_rep h p rss" and cur: "cursor_ok h sc p" and k: "k < length rss" "s < length (rss ! k)"
    and run: "heapScanAt h sc (int k * 1024 + int s) p = (res, sc', p')"
  shows "heap_rep h p' rss" "cursor_ok h sc' p'" "others_keep {} p p'"
    and "res = Some (i, off) \<Longrightarrow> \<exists>r. rss ! k ! s = Some r \<and> spinned sc' = Some i \<and> readRecord off (frame_page i p') = stored_row r"
    and "res = None \<Longrightarrow> spinned sc' = None \<or> rss ! k ! s = None"
proof -
  have len: "npages h = length rss" "pageSlots h = map length rss" using rep by (auto simp: heap_rep_def npages_def)
  have s: "s < 1024" using heap_rep_slots [OF rep k(1)] k(2) by simp
  obtain sc0 p0 where rel: "releaseScanPage sc p = (sc0, p0)" by force
  note r0 = releaseScanPage_rep [OF rep cur rel]
  define moved where "moved \<longleftrightarrow> spinned sc = None \<or> spage sc \<noteq> k"
  obtain sc1 p1 where one: "(sc1, p1) = (if moved then (sc0\<lparr>spage := k\<rparr>, p0) else (sc, p))" by (metis surj_pair)
  have r1: "heap_rep h p1 rss" "cursor_ok h sc1 p1" "others_keep {} p p1" "spage sc1 = k"
    using one r0 rep cur by (auto simp: moved_def cursor_ok_def others_keep_def split: if_splits)
  obtain f sc2 p2 where pin: "pin_scan h sc1 p1 = (f, sc2, p2)" by (cases "pin_scan h sc1 p1") auto
  have "spage sc1 < npages h" using r1(4) k(1) len by simp
  note r2 = pin_scan_rep [OF r1(1,2) this pin]
  have "heapScanAt h sc (int k * 1024 + int s) p = (case f of None \<Rightarrow> (None, sc2, p2)
      | Some i \<Rightarrow> let off = unat (getU32 (slotAt s) (frame_page i p2))
                  in (if off = 0 then None else Some (i, off), sc2, p2))"
    using one rel pin k s len
    by (cases f; cases moved) (simp_all add: heapScanAt_def Let_def position_split moved_def [symmetric])
  then have run: "(res, sc', p') = (case f of None \<Rightarrow> (None, sc2, p2)
      | Some i \<Rightarrow> let off = unat (getU32 (slotAt s) (frame_page i p2))
                  in (if off = 0 then None else Some (i, off), sc2, p2))"
    using run by simp
  then have same: "sc' = sc2" "p' = p2" by (cases f; simp add: Let_def)+
  have "others_keep {} p p2" using others_keep_trans [OF r1(3) r2(2)] .
  then show "heap_rep h p' rss" "cursor_ok h sc' p'" "others_keep {} p p'" using r2 by (simp_all only: same)
  have page: "spinned sc2 = Some i \<and> page_rep (frame_page i p2) (rss ! k)" if "f = Some i" for i
    using r2(6) [OF that] r1(4) by simp
  show "\<exists>r. rss ! k ! s = Some r \<and> spinned sc' = Some i \<and> readRecord off (frame_page i p') = stored_row r"
    if res: "res = Some (i, off)"
  proof -
    have f: "f = Some i" using run res by (cases f) (auto simp: Let_def simp del: page_consts split: if_splits)
    then have off: "off = unat (getU32 (slotAt s) (frame_page i p2))" "off \<noteq> 0"
      using run res by (auto simp: Let_def simp del: page_consts split: if_splits)
    have pg: "page_rep (frame_page i p2) (rss ! k)" using page [OF f] by simp
    obtain r where r: "rss ! k ! s = Some r" using off page_rep_slot(1) [OF pg k(2)] by fastforce
    from page_rep_slot(2) [OF pg k(2) r] show ?thesis using off(1) r page [OF f] same by simp
  qed
  show "spinned sc' = None \<or> rss ! k ! s = None" if res: "res = None"
  proof (cases f)
    case None
    then show ?thesis using r2(7) same by simp
  next
    case (Some i)
    have pg: "page_rep (frame_page i p2) (rss ! k)" using page [OF Some] by simp
    have "unat (getU32 (slotAt s) (frame_page i p2)) = 0"
      using run res Some by (auto simp: Let_def simp del: page_consts split: if_splits)
    then show ?thesis using page_rep_slot(1) [OF pg k(2)] by simp
  qed
qed

subsection \<open>Positions\<close>

text \<open>\<open>slots_from\<close>: the positions of the slots in use from one on, whether the row is live or not.\<close>

fun slots_from :: "nat \<Rightarrow> row option list list \<Rightarrow> (nat \<times> nat) list" where
  "slots_from k [] = []"
| "slots_from k (rs # rss) = map (\<lambda>j. (k, j)) [0..<length rs] @ slots_from (Suc k) rss"

definition slots_after :: "row option list list \<Rightarrow> nat \<Rightarrow> nat \<Rightarrow> (nat \<times> nat) list" where
  "slots_after rss k s =
     (if k < length rss then map (\<lambda>j. (k, j)) [s..<length (rss ! k)] @ slots_from (Suc k) (drop (Suc k) rss) else [])"

definition position_of :: "nat \<times> nat \<Rightarrow> int" where
  "position_of ks = int (fst ks) * 1024 + int (snd ks)"

definition head_position :: "(nat \<times> nat) list \<Rightarrow> int" where
  "head_position xs = (case xs of [] \<Rightarrow> -1 | x # _ \<Rightarrow> position_of x)"

lemma slots_after_page: "k < length rss \<Longrightarrow> length (rss ! k) \<le> s \<Longrightarrow> slots_after rss k s = slots_after rss (Suc k) 0"
  by (auto simp: slots_after_def Cons_nth_drop_Suc [symmetric])

lemma slots_after_slot: "k < length rss \<Longrightarrow> s < length (rss ! k) \<Longrightarrow> slots_after rss k s = (k, s) # slots_after rss k (Suc s)"
  by (simp add: slots_after_def upt_conv_Cons)

lemma slots_after_end: "length rss \<le> k \<Longrightarrow> slots_after rss k s = []"
  by (simp add: slots_after_def)

lemma slots_after_all: "slots_after rss 0 0 = slots_from 0 rss"
  by (cases rss) (simp_all add: slots_after_def)

lemma first_from_rep:
  assumes h: "pageSlots h = map length rss" "length (pageIds h) = length rss"
  shows "first_from h k = head_position (slots_after rss k 0)"
proof (induction "length rss - k" arbitrary: k)
  case 0
  then show ?case using h by (simp add: first_from_def npages_def slots_after_end head_position_def)
next
  case (Suc n)
  then have k: "k < length rss" by simp
  have IH: "first_from h (Suc k) = head_position (slots_after rss (Suc k) 0)" using Suc by simp
  show ?case
  proof (cases "rss ! k = []")
    case True
    then have "first_from h k = first_from h (Suc k)" using k h by (simp add: first_from_def npages_def upt_conv_Cons)
    then show ?thesis using IH slots_after_page [OF k] True by simp
  next
    case False
    then show ?thesis using k h slots_after_slot [OF k]
      by (simp add: first_from_def npages_def upt_conv_Cons head_position_def position_of_def pack_position_eq)
  qed
qed

lemma heapFirst_rep:
  assumes "pageSlots h = map length rss" "length (pageIds h) = length rss"
  shows "heapFirst h = head_position (slots_from 0 rss)"
  using first_from_rep [OF assms] by (simp add: heapFirst_def slots_after_all)

lemma heapNext_rep:
  assumes h: "pageSlots h = map length rss" "length (pageIds h) = length rss"
    and small: "\<forall>rs \<in> set rss. length rs \<le> 1024" and k: "k < length rss" "s < length (rss ! k)"
  shows "heapNext h (position_of (k, s)) = head_position (slots_after rss k (Suc s))"
proof -
  have len: "length (rss ! k) \<le> 1024" using small nth_mem [OF k(1)] by blast
  then have s: "s < 1024" using k(2) by simp
  have pos: "position_page (position_of (k, s)) = int k" "position_slot (position_of (k, s)) = int s"
    using s by (simp_all add: position_of_def position_split)
  show ?thesis
  proof (cases "Suc s < length (rss ! k)")
    case True
    then have "Suc s < 1024" using len by simp
    then have pack: "pack_position (int k) (int s + 1) = int k * 1024 + (int s + 1)" by (simp add: pack_position_eq)
    have "heapNext h (position_of (k, s)) = pack_position (int k) (int s + 1)"
      using True k(1) h by (simp add: heapNext_def pos npages_def)
    then show ?thesis unfolding pack slots_after_slot [OF k(1) True] by (simp add: head_position_def position_of_def)
  next
    case False
    then have "heapNext h (position_of (k, s)) = first_from h (Suc k)"
      using k h pos by (simp add: heapNext_def Let_def npages_def)
    also have "\<dots> = head_position (slots_after rss (Suc k) 0)" by (rule first_from_rep [OF h])
    also have "slots_after rss (Suc k) 0 = slots_after rss k (Suc s)"
      using slots_after_page [OF k(1), of "Suc s"] False by simp
    finally show ?thesis .
  qed
qed

end
