(* ===== verification/HeapCompact.thy ===== *)
theory HeapCompact
  imports HeapScan "HOL-Library.Sublist"
begin

text \<open>
  Compaction, \<open>heapCompact\<close> of \<^verbatim>\<open>07_storage.c\<close>: the live rows are read in position order and
  inserted into a new heap, whose pages then replace the old ones. The loop goes from position to
  position and could turn in circles on page counts no page has, so its end is a theorem.
\<close>

subsection \<open>The loop\<close>

partial_function (option) compact_from ::
  "heap \<Rightarrow> int \<Rightarrow> heap \<Rightarrow> pool \<Rightarrow> ((error + unit) \<times> heap \<times> pool) option" where
  [code]: "compact_from h pos rebuilt p =
     (if pos < 0 then Some (Inr (), rebuilt, p)
      else let (row, p) = heapRead h pos p
           in if deleted row then compact_from h (heapNext h pos) rebuilt p
              else case heapInsert rebuilt row p of
                     (Inl e, rebuilt, p) \<Rightarrow> Some (Inl e, rebuilt, p)
                   | (Inr landed, rebuilt, p) \<Rightarrow> compact_from h (heapNext h pos) rebuilt p)"

definition heapCompact :: "heap \<Rightarrow> pool \<Rightarrow> ((error + int) \<times> heap \<times> pool) option" where
  "heapCompact h p =
     (case compact_from h (heapFirst h) (clearHeap h) p of
        None \<Rightarrow> None
      | Some (Inl e, rebuilt, p) \<Rightarrow> Some (Inl e, h, snd (heapReset rebuilt p))
      | Some (Inr _, rebuilt, p) \<Rightarrow>
          let reclaimed = nslots h - nlive rebuilt;
              (h, p) = heapReset h p
          in Some (Inr reclaimed,
                   h\<lparr>pageIds := pageIds rebuilt, pageSlots := pageSlots rebuilt, hcapacity := hcapacity rebuilt,
                     nlive := nlive rebuilt, nslots := nslots rebuilt\<rparr>, p))"

subsection \<open>The rows it keeps\<close>

definition rows_of :: "row option list list \<Rightarrow> row list" where
  "rows_of rss = List.map_filter id (concat rss)"

lemma row_ok_stored: "row_ok r \<Longrightarrow> row_ok (stored_row r)"
proof -
  assume ok: "row_ok r"
  then have n: "ncols r \<le> MAX_COLS" "length (columns r) = ncols r" by (auto simp: row_ok_def columns_def)
  then have "columns (stored_row r) = map stored_value (columns r)" by (simp add: columns_def stored_row_def)
  then show "row_ok (stored_row r)"
    using ok n by (auto simp: row_ok_def stored_row_def stored_value_def blank_value_def)
qed

lemma stored_size: "row_ok r \<Longrightarrow> recordSize (stored_row r) = recordSize r"
proof -
  assume ok: "row_ok r"
  then have "length (columns r) = ncols r" by (auto simp: row_ok_def columns_def)
  then have c: "columns (stored_row r) = map stored_value (columns r)" by (simp add: columns_def stored_row_def)
  have "value_size (stored_value v) = value_size v" if "v \<in> set (columns r)" for v
    using ok that by (auto simp: row_ok_def value_size_def stored_value_def blank_value_def intLike_def)
  then show "recordSize (stored_row r) = recordSize r"
    by (simp add: recordSize_def c comp_def cong: map_cong)
qed

lemma page_rep_row:
  assumes "page_rep m rs" "s < length rs" "rs ! s = Some r"
  shows "row_ok r" "recordSize r \<le> max_record"
proof -
  have "slot_rep m s (Some r)" "8 + 8 * length rs \<le> unat (dataStart m)" using assms by (auto simp: page_rep_def)
  then show "row_ok r" "recordSize r \<le> max_record"
    using assms(2) by (auto simp: slot_rep_def Let_def max_record_def)
qed

lemma heapRead_any:
  assumes rep: "heap_rep h p rss" and k: "k < length rss" "s < length (rss ! k)"
    and run: "heapRead h (position_of (k, s)) p = (r, p')"
  shows "heap_rep h p' rss" "others_keep {} p p'"
    and "deleted r \<or> (\<exists>x. rss ! k ! s = Some x \<and> r = stored_row x)"
proof -
  have pos: "position_of (k, s) = int k * 1024 + int s" by (simp add: position_of_def)
  obtain res q where pf: "pinFor h (int k * 1024 + int s) p = (res, q)" by force
  note pr = pinFor_rep [OF rep k pf refl]
  have "heap_rep h p' rss \<and> others_keep {} p p' \<and> (deleted r \<or> (\<exists>x. rss ! k ! s = Some x \<and> r = stored_row x))"
  proof (cases "fst (poolPin (int (pageIds h ! k)) p)")
    case None
    then have "res = None" using pr(3) by (cases res) auto
    then show ?thesis using pr(1,2) run pf pos by (auto simp: heapRead_def)
  next
    case (Some i)
    note rd = heapRead_rep [OF rep k _ run [unfolded pos]]
    show ?thesis using rd Some by (cases "rss ! k ! s") auto
  qed
  then show "heap_rep h p' rss" "others_keep {} p p'"
    "deleted r \<or> (\<exists>x. rss ! k ! s = Some x \<and> r = stored_row x)" by auto
qed

lemma heap_rep_page:
  "heap_rep h p rss \<Longrightarrow> k < length rss \<Longrightarrow> \<exists>m. pool_view p (pageIds h ! k) = Some m \<and> page_rep m (rss ! k)"
  by (simp add: heap_rep_def)

lemma heap_rep_move:
  assumes "heap_rep h p rss" "store_ok {} q" "set (pageIds h) \<subseteq> used_pages q"
    "\<And>x v. x \<in> set (pageIds h) \<Longrightarrow> pool_view p x = Some v \<Longrightarrow> pool_view q x = Some v"
  shows "heap_rep h q rss"
proof -
  have "\<exists>m. pool_view q (pageIds h ! k) = Some m \<and> page_rep m (rss ! k)" if k: "k < length rss" for k
  proof -
    obtain m where "pool_view p (pageIds h ! k) = Some m" "page_rep m (rss ! k)"
      using heap_rep_page [OF assms(1) k] by blast
    moreover have "pageIds h ! k \<in> set (pageIds h)" using assms(1) k by (simp add: heap_rep_def)
    ultimately show ?thesis using assms(4) by blast
  qed
  then show ?thesis using assms(1-3) unfolding heap_rep_def by simp
qed

lemma rows_of_add_row: "fresh \<or> rss \<noteq> [] \<Longrightarrow> concat (add_row fresh rss r) = concat rss @ [Some r]"
  by (cases rss rule: rev_cases) (auto simp: add_row_def)

text \<open>One turn of the loop keeps the heap read, the heap built and everybody else's pages.\<close>

lemma compact_insert:
  assumes h: "heap_rep h p rss" and b: "heap_rep b p bss" and apart: "set (pageIds h) \<inter> set (pageIds b) = {}"
    and r: "row_ok r" "recordSize r \<le> max_record" and run: "heapInsert b r p = (Inr pos, b', p')"
  shows "\<exists>bss'. heap_rep b' p' bss' \<and> concat bss' = concat bss @ [Some r]"
    and "heap_rep h p' rss" and "set (pageIds h) \<inter> set (pageIds b') = {}"
    and "set (pageIds b) \<subseteq> set (pageIds b')" "(set (pageIds b') - set (pageIds b)) \<inter> used_pages p = {}"
    and "others_keep (set (pageIds b)) p p'"
proof -
  from heapInsert_rep [OF b r run]
  obtain fresh where f: "fresh \<or> bss \<noteq> []" "heap_rep b' p' (add_row fresh bss r)"
    "others_keep (set (pageIds b)) p p'" "set (pageIds b) \<subseteq> set (pageIds b')"
    "(set (pageIds b') - set (pageIds b)) \<inter> used_pages p = {}"
    by (elim exE conjE) (rule that; assumption)
  have used: "set (pageIds h) \<subseteq> used_pages p" "store_ok {} p'" using h f(2) by (simp_all add: heap_rep_def)
  show "\<exists>bss'. heap_rep b' p' bss' \<and> concat bss' = concat bss @ [Some r]" using f(1,2) rows_of_add_row by blast
  show "heap_rep h p' rss"
    by (rule heap_rep_keep [OF h used(2)]) (use f(3) apart used(1) in \<open>auto simp: others_keep_def\<close>)
  show "set (pageIds h) \<inter> set (pageIds b') = {}" using apart f(5) used(1) by blast
  show "set (pageIds b) \<subseteq> set (pageIds b')" "(set (pageIds b') - set (pageIds b)) \<inter> used_pages p = {}"
    "others_keep (set (pageIds b)) p p'" by (rule f)+
qed


lemma slots_after_Cons:
  "slots_after rss k s = (j, t) # xs \<Longrightarrow> j < length rss \<and> t < length (rss ! j) \<and> xs = slots_after rss j (Suc t)"
proof (induction "length rss - k" arbitrary: k s)
  case 0
  then show ?case by (simp add: slots_after_end)
next
  case (Suc n)
  then have k: "k < length rss" by simp
  show ?case
  proof (cases "s < length (rss ! k)")
    case True
    then show ?thesis using Suc.prems slots_after_slot [OF k True] k by auto
  next
    case False
    then have "slots_after rss (Suc k) 0 = (j, t) # xs" using Suc.prems slots_after_page [OF k, of s] by simp
    then show ?thesis using Suc.hyps(1) [of "Suc k" 0] Suc.hyps(2) by simp
  qed
qed

definition rows_at :: "row option list list \<Rightarrow> (nat \<times> nat) list \<Rightarrow> row list" where
  "rows_at rss xs = List.map_filter (\<lambda>(k, s). rss ! k ! s) xs"

lemma rows_at_Cons: "rows_at rss ((k, s) # xs) = (case rss ! k ! s of None \<Rightarrow> rows_at rss xs | Some r \<Rightarrow> r # rows_at rss xs)"
  by (simp add: rows_at_def List.map_filter_simps split: option.split)

lemma rows_at_all: "rows_at rss (slots_from 0 rss) = rows_of rss"
proof -
  have page: "List.map_filter (\<lambda>(k, s). (xs @ rs # ys) ! k ! s) (map (\<lambda>j. (length xs, j)) [0..<length rs]) = List.map_filter id rs"
    for xs ys and rs :: "row option list"
  proof -
    have "List.map_filter id rs = List.map_filter id (map ((!) rs) [0..<length rs])" by (simp add: map_nth)
    then show ?thesis by (simp add: List.map_filter_def comp_def filter_map nth_append)
  qed
  have "List.map_filter (\<lambda>(k, s). (xs @ ys) ! k ! s) (slots_from (length xs) ys) = List.map_filter id (concat ys)" for xs ys
  proof (induction ys arbitrary: xs)
    case (Cons rs ys)
    then show ?case using Cons.IH [of "xs @ [rs]"] page by (simp add: map_filter_append id_def)
  qed (simp add: List.map_filter_simps)
  from this [of "[]" rss] show ?thesis by (simp add: rows_at_def rows_of_def)
qed

definition compacted :: "heap \<Rightarrow> row option list list \<Rightarrow> heap \<Rightarrow> row option list list \<Rightarrow> pool \<Rightarrow> row list \<Rightarrow> heap \<Rightarrow> pool \<Rightarrow> bool" where
  "compacted h rss b bss p rows b' p' \<longleftrightarrow>
     (\<exists>bss' kept. heap_rep h p' rss \<and> heap_rep b' p' bss' \<and> set (pageIds h) \<inter> set (pageIds b') = {} \<and>
        set (pageIds b) \<subseteq> set (pageIds b') \<and> (set (pageIds b') - set (pageIds b)) \<inter> used_pages p = {} \<and>
        concat bss' = concat bss @ map Some kept \<and> subseq kept (map stored_row rows) \<and>
        others_keep (set (pageIds b)) p p')"

lemma compact_from_rep:
  assumes "heap_rep h p rss" "heap_rep b p bss" "set (pageIds h) \<inter> set (pageIds b) = {}" "slots_after rss k s = xs"
  shows "\<exists>res b' p'. compact_from h (head_position xs) b p = Some (res, b', p') \<and>
     (res = Inr () \<longrightarrow> compacted h rss b bss p (rows_at rss xs) b' p')"
  using assms
proof (induction xs arbitrary: p b bss k s)
  case Nil
  then have "compacted h rss b bss p (rows_at rss []) b p"
    by (auto simp: compacted_def others_keep_def rows_at_def List.map_filter_simps)
  then show ?case by (simp add: compact_from.simps [of h "-1"] head_position_def)
next
  case (Cons x xs)
  obtain j t where x: "x = (j, t)" by (cases x) auto
  from slots_after_Cons [OF Cons.prems(4) [unfolded x]]
  have jt: "j < length rss" "t < length (rss ! j)" "slots_after rss j (Suc t) = xs" by auto
  have pos: "head_position (x # xs) = position_of (j, t)" "\<not> position_of (j, t) < 0"
    by (simp_all add: head_position_def x position_of_def)
  have small: "\<forall>rs \<in> set rss. length rs \<le> 1024"
    using heap_rep_slots [OF Cons.prems(1)] by (metis in_set_conv_nth)
  have next_pos: "heapNext h (position_of (j, t)) = head_position xs"
    using heapNext_rep [OF _ _ small jt(1,2)] jt(3) Cons.prems(1) by (simp add: heap_rep_def)
  obtain row q where rd: "heapRead h (position_of (j, t)) p = (row, q)" by force
  note r = heapRead_any [OF Cons.prems(1) jt(1,2) rd]
  have b: "heap_rep b q bss"
    using Cons.prems(2) r(1,2) by (intro heap_rep_keep [OF Cons.prems(2)]) (auto simp: others_keep_def heap_rep_def)
  show ?case
  proof (cases "deleted row")
    case True
    then have step: "compact_from h (head_position (x # xs)) b p = compact_from h (head_position xs) b q"
      using pos rd next_pos by (simp add: compact_from.simps [of h "position_of (j, t)"])
    from Cons.IH [OF r(1) b Cons.prems(3) jt(3)] obtain res b' p' where
      ih: "compact_from h (head_position xs) b q = Some (res, b', p')"
      "res = Inr () \<longrightarrow> compacted h rss b bss q (rows_at rss xs) b' p'" by blast
    have "compacted h rss b bss q (rows_at rss xs) b' p' \<Longrightarrow> compacted h rss b bss p (rows_at rss (x # xs)) b' p'"
      unfolding compacted_def
      by (elim exE conjE, intro exI conjI, assumption+)
         (use r(2) in \<open>auto simp: x rows_at_Cons others_keep_def split: option.split\<close>)
    then show ?thesis using ih step by auto
  next
    case False
    then obtain y where y: "rss ! j ! t = Some y" "row = stored_row y" using r(3) by auto
    obtain m where m: "page_rep m (rss ! j)" using heap_rep_page [OF Cons.prems(1) jt(1)] by auto
    have ok: "row_ok row" "recordSize row \<le> max_record"
      using page_rep_row [OF m jt(2) y(1)] y(2) row_ok_stored stored_size by auto
    obtain ins b1 p1 where ins: "heapInsert b row q = (ins, b1, p1)" by (cases "heapInsert b row q") auto
    show ?thesis
    proof (cases ins)
      case (Inl e)
      then show ?thesis using pos rd False ins by (simp add: compact_from.simps [of h "position_of (j, t)"])
    next
      case (Inr landed)
      note c = compact_insert [OF r(1) b Cons.prems(3) ok ins [unfolded Inr]]
      have step: "compact_from h (head_position (x # xs)) b p = compact_from h (head_position xs) b1 p1"
        using pos rd next_pos False ins Inr by (simp add: compact_from.simps [of h "position_of (j, t)"])
      obtain bss1 where b1: "heap_rep b1 p1 bss1" "concat bss1 = concat bss @ [Some row]" using c(1) by blast
      from Cons.IH [OF c(2) b1(1) c(3) jt(3)] obtain res b' p' where
        ih: "compact_from h (head_position xs) b1 p1 = Some (res, b', p')"
        "res = Inr () \<longrightarrow> compacted h rss b1 bss1 p1 (rows_at rss xs) b' p'" by blast
      have "compacted h rss b bss p (rows_at rss (x # xs)) b' p'"
        if "compacted h rss b1 bss1 p1 (rows_at rss xs) b' p'"
      proof -
        from that obtain bss' kept where k: "heap_rep h p' rss" "heap_rep b' p' bss'"
          "set (pageIds h) \<inter> set (pageIds b') = {}" "set (pageIds b1) \<subseteq> set (pageIds b')"
          "(set (pageIds b') - set (pageIds b1)) \<inter> used_pages p1 = {}"
          "concat bss' = concat bss1 @ map Some kept" "subseq kept (map stored_row (rows_at rss xs))"
          "others_keep (set (pageIds b1)) p1 p'"
          unfolding compacted_def by (elim exE conjE) (rule that; assumption)
        have grow: "used_pages p \<subseteq> used_pages q" "used_pages q \<subseteq> used_pages p1"
          using r(2) c(6) by (simp_all add: others_keep_def)
        have "concat bss' = concat bss @ map Some (row # kept)" using k(6) b1(2) by simp
        moreover have "subseq (row # kept) (map stored_row (rows_at rss (x # xs)))"
          using k(7) y by (simp add: x rows_at_Cons)
        moreover have "(set (pageIds b') - set (pageIds b)) \<inter> used_pages p = {}"
          using k(5) c(5) grow by blast
        moreover have "others_keep (set (pageIds b)) p p'"
          unfolding others_keep_def
        proof (intro conjI allI impI)
          show "used_pages p \<subseteq> used_pages p'" using grow k(8) by (auto simp: others_keep_def)
          fix z v assume z: "z \<in> used_pages p" "z \<notin> set (pageIds b)" "pool_view p z = Some v"
          then have "pool_view q z = Some v" using r(2) by (simp add: others_keep_def)
          then have "pool_view p1 z = Some v" using z grow c(6) by (auto simp: others_keep_def)
          moreover have "z \<notin> set (pageIds b1)" using z grow c(5) by blast
          ultimately show "pool_view p' z = Some v" using z grow k(8) by (auto simp: others_keep_def)
        qed
        ultimately show ?thesis using k(1-4) c(4) unfolding compacted_def by blast
      qed
      then show ?thesis using ih step by auto
    qed
  qed
qed


subsection \<open>The pages it gives back\<close>

lemma heapReset_rep:
  assumes "store_ok {} p" "set pids \<subseteq> used_pages p" "distinct pids"
  shows "store_ok {} (foldl (\<lambda>p pid. poolFree pid p) p pids) \<and>
    used_pages p - set pids \<subseteq> used_pages (foldl (\<lambda>p pid. poolFree pid p) p pids) \<and>
    (\<forall>x. x \<notin> set pids \<longrightarrow> pool_view (foldl (\<lambda>p pid. poolFree pid p) p pids) x = pool_view p x)"
  using assms
proof (induction pids arbitrary: p)
  case (Cons pid pids)
  have "pid \<in> used_pages p" using Cons.prems(2) by simp
  from store.release_law [OF Cons.prems(1) this]
  have q: "store_ok {} (poolFree pid p)" "used_pages p - {pid} \<subseteq> used_pages (poolFree pid p)"
    "\<And>x. x \<noteq> pid \<Longrightarrow> pool_view (poolFree pid p) x = pool_view p x" by auto
  have "set pids \<subseteq> used_pages (poolFree pid p)" using Cons.prems(2,3) q(2) by auto
  with Cons.IH [OF q(1) this] Cons.prems(3) q(2,3) show ?case by auto
qed simp

lemma rows_map_Some: "List.map_filter id (map Some xs) = xs"
  by (simp add: List.map_filter_def comp_def)

lemma heapCompact_rep:
  assumes rep: "heap_rep h p rss"
  shows "\<exists>res h' p'. heapCompact h p = Some (res, h', p') \<and>
    (\<forall>n. res = Inr n \<longrightarrow>
      (\<exists>rss' kept. heap_rep h' p' rss' \<and> concat rss' = map Some kept \<and> subseq kept (map stored_row (rows_of rss)) \<and>
         n = heapSlots h - int (length kept) \<and>
         (\<forall>x \<in> used_pages p - set (pageIds h). x \<in> used_pages p' \<and>
            (\<forall>v. pool_view p x = Some v \<longrightarrow> pool_view p' x = Some v))))"
proof -
  have empty: "heap_rep (clearHeap h) p []" using rep by (simp add: heap_rep_def clearHeap_def)
  have first: "heapFirst h = head_position (slots_after rss 0 0)"
    using heapFirst_rep [of h rss] rep by (simp add: heap_rep_def slots_after_all)
  have "set (pageIds h) \<inter> set (pageIds (clearHeap h)) = {}" by (simp add: clearHeap_def)
  from compact_from_rep [OF rep empty this refl] first obtain res b q where
    run: "compact_from h (heapFirst h) (clearHeap h) p = Some (res, b, q)" and
    good: "res = Inr () \<longrightarrow> compacted h rss (clearHeap h) [] p (rows_at rss (slots_after rss 0 0)) b q"
    by (simp only:) blast
  show ?thesis
  proof (cases res)
    case (Inl e)
    then show ?thesis using run by (auto simp: heapCompact_def)
  next
    case (Inr u)
    let ?q = "snd (heapReset h q)"
    let ?h = "(clearHeap h)\<lparr>pageIds := pageIds b, pageSlots := pageSlots b, hcapacity := hcapacity b,
                     nlive := nlive b, nslots := nslots b\<rparr>"
    from good Inr obtain bss kept where c: "heap_rep h q rss" "heap_rep b q bss"
      "set (pageIds h) \<inter> set (pageIds b) = {}" "concat bss = map Some kept"
      "subseq kept (map stored_row (rows_of rss))" "others_keep {} p q"
      unfolding compacted_def slots_after_all rows_at_all by (auto simp: clearHeap_def)
    have res: "heapCompact h p = Some (Inr (nslots h - nlive b), ?h, ?q)"
      using run Inr by (simp add: heapCompact_def heapReset_def)
    have "store_ok {} q" "set (pageIds h) \<subseteq> used_pages q" "distinct (pageIds h)" using c(1) by (simp_all add: heap_rep_def)
    from heapReset_rep [OF this] have f: "store_ok {} ?q" "used_pages q - set (pageIds h) \<subseteq> used_pages ?q"
      "\<And>x. x \<notin> set (pageIds h) \<Longrightarrow> pool_view ?q x = pool_view q x" by (simp_all add: heapReset_def)
    have own: "set (pageIds b) \<subseteq> used_pages q - set (pageIds h)" using c(2,3) by (auto simp: heap_rep_def)
    have "heap_rep b ?q bss"
    proof (rule heap_rep_move [OF c(2) f(1)])
      show "set (pageIds b) \<subseteq> used_pages ?q" using own f(2) by (rule subset_trans)
      fix x v assume "x \<in> set (pageIds b)" "pool_view q x = Some v"
      then show "pool_view ?q x = Some v" using own f(3) [of x] by auto
    qed
    then have new: "heap_rep ?h ?q bss" by (simp add: heap_rep_def)
    have "nlive b = int (length kept)"
      using c(2,4) by (simp add: heap_rep_def live_count_def)
    then have "nslots h - nlive b = heapSlots h - int (length kept)" by (simp add: heapSlots_def)
    moreover have "\<forall>x \<in> used_pages p - set (pageIds h). x \<in> used_pages ?q \<and>
            (\<forall>v. pool_view p x = Some v \<longrightarrow> pool_view ?q x = Some v)"
      using c(6) f(2,3) by (auto simp: others_keep_def)
    ultimately show ?thesis using res new c(4,5) by blast
  qed
qed

end
