(* ===== verification/PoolDurability.thy ===== *)
theory PoolDurability
  imports PoolUse
begin

text \<open>
  Commit and checkpoint against a crash: the pages a commit logged come back from the log alone,
  whatever state the database file was left in, and a checkpoint drops the log only when the file
  no longer needs it. Concrete pools witness the pool's properties.
\<close>

subsection \<open>What a restart finds\<close>

text \<open>A file reopened after a crash: the bytes that had reached the disk.\<close>

definition crashed :: "fhandle \<Rightarrow> fhandle" where
  "crashed f = \<lparr>fbytes = dbytes f, fsize = dsize f, fpos = 0, dbytes = dbytes f, dsize = dsize f,
     faults = no_faults, calls = 0\<rparr>"

lemma crashed_synced:
  assumes "synced f" "log_whole f frs"
  shows "log_whole (crashed f) frs"
proof -
  have "fbytes f = fbytes (crashed f)" "fsize f = fsize (crashed f)"
    using assms(1) by (simp_all add: synced_def crashed_def)
  from log_whole_cong [OF this] assms(2) show ?thesis by simp
qed

lemma last_image_append:
  "last_image (xs @ ys) pid = (case last_image ys pid of Some im \<Rightarrow> Some im | None \<Rightarrow> last_image xs pid)"
  unfolding last_image_def by (simp add: map_add_def)

lemma last_image_distinct:
  assumes "distinct (map fr_page frs)" "fr \<in> set frs"
  shows "last_image frs (fr_page fr) = Some (fr_image fr)"
proof -
  have "distinct (map fst (rev (map (\<lambda>fr. (fr_page fr, fr_image fr)) frs)))"
    using assms(1) by (simp add: rev_map [symmetric] comp_def)
  then show ?thesis using assms(2) unfolding last_image_def by (intro map_of_is_SomeI) auto
qed

lemma commit_frames_distinct:
  assumes ok: "pool_ok W p" and small: "length (pageFrame p) \<le> 2 ^ 32"
  shows "distinct (map fr_page (commit_frames l [0..<length (frames p)] p))"
proof -
  let ?is = "filter (\<lambda>i. unlogged (frames p ! i)) [0..<length (frames p)]"
  have "inj_on (\<lambda>i. of_nat (the (pf_id (frames p ! i))) :: u32) (set ?is)"
  proof (rule inj_onI)
    fix i j assume i: "i \<in> set ?is" and j: "j \<in> set ?is"
      and eq: "(of_nat (the (pf_id (frames p ! i))) :: u32) = of_nat (the (pf_id (frames p ! j)))"
    obtain a b where a: "pf_id (frames p ! i) = Some a" and b: "pf_id (frames p ! j) = Some b"
      using i j by (auto simp: unlogged_def)
    have ra: "resident p a = Some i" and rb: "resident p b = Some j"
      using pool_ok_frame(2) [OF ok] i j a b by auto
    then have "a < 2 ^ 32" "b < 2 ^ 32" using small by (auto simp: resident_def split: if_splits)
    moreover have "unat (of_nat a :: u32) = unat (of_nat b :: u32)" using eq a b by simp
    ultimately have "a = b" by (simp add: unat_of_nat)
    then show "i = j" using ra rb by simp
  qed
  then show ?thesis by (simp add: commit_frames_def comp_def distinct_map)
qed



text \<open>
  C7: a commit that fails makes nothing movable. No frame becomes logged that was not, so no page of
  the failed statement may be written to the file by an eviction; content and held frames stay.
\<close>
theorem commit_failed:
  assumes ok: "pool_ok W p" and run: "poolCommit p = (Inl e, p')"
  shows "pool_ok W p' \<and> calm p p' \<and> pageFile p' = pageFile p \<and>
    (\<forall>i < length (frames p). pf_logged (frames p' ! i) = pf_logged (frames p ! i))"
proof -
  have "walIsOpen (plog p) \<and> last_unlogged p \<noteq> None" using run poolCommit_idle [of p] by force
  then obtain l where l: "walIsOpen (plog p)" "last_unlogged p = Some l" by auto
  show ?thesis using poolCommit_some(1,2) [OF ok run l] by simp
qed

text \<open>
  C6: a checkpoint keeps every page's content, on every path, and touches the log only when the
  database file is on the disk with every frame clean and the header naming the pages there are.
\<close>
theorem checkpoint_safe:
  assumes ok: "pool_ok W p" and run: "poolCheckpoint p = (r, p')"
  shows "pool_ok W p' \<and> calm p p' \<and>
    (plog p' \<noteq> plog p \<longrightarrow>
      (\<exists>f. pageFile p' = Some f \<and> synced f \<and> \<not> poolHasDirty p' \<and>
           getU32 12 (fbytes f) = of_nat (pageCount p) \<and>
           getU32 16 (fbytes f) = of_int (catalogRootPage p)))"
  using ok run by (rule checkpoint_ok)

subsection \<open>Witnesses\<close>

text \<open>A pool of one frame over a file of two pages and a fresh log; then an allocation, a commit.\<close>

definition demo_file :: fhandle where
  "demo_file = (empty_file no_faults)\<lparr>fsize := 24576, fbytes := (\<lambda>i. if i < 16384 then fbytes demo_db i else 7)\<rparr>"

definition demo_wal :: wal where
  "demo_wal = \<lparr>walFile = Some ((empty_file no_faults)\<lparr>fsize := 16, fbytes := wal_header_bytes\<rparr>),
     walFrames = 0, walDatabase = [], wopens = (\<lambda>_. Some no_faults), wopened = 0\<rparr>"

definition demo_pool :: pool where
  "demo_pool = poolSetWritable (Some demo_file) 1 (poolInit demo_wal 1 256 16)"

definition demo_frame1 :: "bool \<Rightarrow> pframe" where
  "demo_frame1 logged = \<lparr>pf_id = Some 1, pf_pins = 0, pf_dirty = True, pf_logged = logged,
     pf_referenced = True, pf_page = (\<lambda>_. 0)\<rparr>"

definition demo_pool1 :: pool where
  "demo_pool1 = demo_pool\<lparr>frames := [demo_frame1 False], pageFrame := (replicate 256 None)[1 := Some 0],
     pageCount := 2\<rparr>"

lemma demo_pool_sel [simp]:
  "frames demo_pool = []" "pageFrame demo_pool = replicate 256 None" "hand demo_pool = 0"
  "pageFile demo_pool = Some demo_file" "writable demo_pool" "catalogRootPage demo_pool = -1"
  "pageCount demo_pool = 1" "freeIds demo_pool = []" "\<not> checksums demo_pool" "plog demo_pool = demo_wal"
  "frameLimit demo_pool = 1" "directoryLimit demo_pool = 256"
  by (simp_all add: demo_pool_def poolSetWritable_def poolInit_def growDirectory_def Let_def double_to.simps)

lemma demo_good: "pool_ok {} demo_pool" "free_ok demo_pool"
  using opened_good [OF demo_pool_def] by (simp_all add: pool_good_def)

lemma demo_alloc: "poolAllocate demo_pool = (Inr 1, demo_pool1)"
  by (simp add: poolAllocate_def allocateLocked_def acquireFrame_def growFrames_def INITIAL_FRAMES_def
      growDirectory_def update_frame_def set_directory_def demo_pool1_def demo_frame1_def)

lemma demo_pool1_sel [simp]:
  "frames demo_pool1 = [demo_frame1 False]" "pageFrame demo_pool1 = (replicate 256 None)[1 := Some 0]"
  "hand demo_pool1 = 0" "pageFile demo_pool1 = Some demo_file" "writable demo_pool1"
  "pageCount demo_pool1 = 2" "plog demo_pool1 = demo_wal"
  by (simp_all add: demo_pool1_def)

lemma demo_pool1_good: "pool_ok {} demo_pool1" "free_ok demo_pool1"
  using allocateLocked_ok(1,2) [OF demo_good demo_alloc [unfolded poolAllocate_def]] by auto

lemma demo_commit: "fst (poolCommit demo_pool1) = Inr ()"
  by (simp add: poolCommit_def walIsOpen_def demo_wal_def last_unlogged_def unlogged_def demo_frame1_def
      write_page_def update_frame_def frame_page_def walAppend_def fseek_end_def fseek_set_def fault_now_def
      no_faults_def count_call_def fwrite_def Let_def walSync_def walSyncHandle_def fsync_def write_bytes_def empty_file_def)



lemma demo_pin: "fst (poolPin (int 0) demo_pool) = Some 0"
  by (simp add: poolPin_def pinLocked_def findFrame_def acquireFrame_def growFrames_def INITIAL_FRAMES_def
      update_frame_def demo_file_def demo_db_def empty_file_def fseek_set_def fault_now_def no_faults_def
      count_call_def fread_def pageOffset_def PAGE_SIZE_def Let_def set_directory_def)

theorem pin_coherent_witness:
  "let p' = snd (poolPin (int 0) demo_pool) in
   pool_ok {} p' \<and> held p' 0 \<and> pool_view p' 0 = Some (usable (frame_page 0 p'))"
proof -
  have "poolPin (int 0) demo_pool = (Some 0, snd (poolPin (int 0) demo_pool))"
    using demo_pin by (simp add: prod_eq_iff)
  from pin_coherent [OF demo_good(1) this] show ?thesis by (simp add: Let_def)
qed

lemma demo_log: "log_whole ((empty_file no_faults)\<lparr>fsize := 16, fbytes := wal_header_bytes\<rparr>) []"
  by (simp add: log_whole_def)


definition demo_stuck :: pool where
  "demo_stuck = demo_pool1\<lparr>plog := demo_wal\<lparr>walFile := Some (empty_file (\<lambda>_. Some 0))\<rparr>\<rparr>"

theorem commit_failed_witness:
  "let p' = snd (poolCommit demo_stuck) in
   pool_ok {} p' \<and> calm demo_stuck p' \<and> pageFile p' = pageFile demo_stuck \<and>
   pf_logged (frames p' ! 0) = pf_logged (frames demo_stuck ! 0)"
proof -
  have one: "0 < length (frames demo_stuck)" by (simp add: demo_stuck_def demo_pool1_def)
  have "pool_ok {} demo_stuck"
    by (rule same_frames_ok [OF demo_pool1_good(1)]) (simp_all add: demo_stuck_def demo_pool1_def)
  moreover have "poolCommit demo_stuck = (Inl ERROR_IO_WRITE, snd (poolCommit demo_stuck))"
    by (simp add: demo_stuck_def poolCommit_def walIsOpen_def last_unlogged_def unlogged_def demo_frame1_def
      write_page_def update_frame_def frame_page_def walAppend_def fseek_end_def fseek_set_def fault_now_def
      count_call_def empty_file_def Let_def demo_wal_def)
  ultimately show ?thesis using commit_failed one by (simp add: Let_def)
qed

theorem checkpoint_safe_witness:
  "let (r, p') = poolCheckpoint demo_pool1 in pool_ok {} p' \<and> calm demo_pool1 p'"
  using checkpoint_safe [OF demo_pool1_good(1), of "fst (poolCheckpoint demo_pool1)" "snd (poolCheckpoint demo_pool1)"]
  by (simp add: case_prod_beta)

theorem rollback_restores_witness:
  "pool_view (poolRollback 1 demo_pool1) = file_view demo_pool1 \<and> \<not> poolHasDirty (poolRollback 1 demo_pool1)"
  by (rule rollback_restores [OF demo_pool1_good(1)])

text \<open>The committed page evicted to make room for page 0, over other bytes of the file.\<close>

definition demo_pool2 :: pool where
  "demo_pool2 = demo_pool1\<lparr>frames := [demo_frame1 True]\<rparr>"


lemma demo_pool2_good: "pool_ok {} demo_pool2" "free_ok demo_pool2"
proof -
  have "demo_pool2 = demo_pool1\<lparr>frames := map mark_logged (frames demo_pool1)\<rparr>"
    by (simp add: demo_pool2_def mark_logged_def demo_frame1_def)
  then show "pool_ok {} demo_pool2" using mark_logged_ok [OF demo_pool1_good(1)] by simp
  show "free_ok demo_pool2"
    by (rule free_ok_cong [OF demo_pool1_good(2)])
       (use resident_cong [of demo_pool2 demo_pool1] in \<open>simp_all add: demo_pool2_def\<close>)
qed

lemma demo_evict:
  "\<exists>f'. pageFile (snd (poolPin (int 0) demo_pool2)) = Some f' \<and> fbytes f' 16384 = 0"
proof -
  have stamp: "poolStampPage (\<lambda>_. 0) 0 = 0" by (simp add: poolStampPage_def putU32_def)
  show ?thesis
    by (simp add: poolPin_def pinLocked_def findFrame_def acquireFrame_def demo_pool2_def demo_frame1_def
      numeral_2_eq_2 flushFrame_def Let_def fwrite_def write_bytes_def
      update_frame_def demo_file_def demo_db_def empty_file_def fseek_set_def fault_now_def no_faults_def
      count_call_def fread_def pageOffset_def PAGE_SIZE_def set_directory_def stamp)
qed


subsection \<open>What the rules exclude\<close>

definition demo_memory :: pool where
  "demo_memory = snd (poolAllocate (poolInit demo_wal 1 256 16))"

text \<open>
  Saving an in-memory session to a file loses its pages. \<open>saveDatabase\<close> marks every frame clean
  when the pool is not writable, and an in-memory pool has no file: the next page allocated takes
  a clean frame, and the page that was in it can no longer be pinned.
\<close>
theorem memory_save_loses_page:
  "pool_view demo_memory 0 = Some (\<lambda>_. 0) \<and>
   (let p = snd (poolAllocate (poolMarkAllClean demo_memory))
    in pool_view p 0 = None \<and> fst (poolPin 0 p) = None)"
proof -
  let ?F = "\<lambda>id d r. \<lparr>pf_id = Some id, pf_pins = 0, pf_dirty = d, pf_logged = False, pf_referenced = r,
     pf_page = (\<lambda>_. 0)\<rparr>"
  let ?p = "poolInit demo_wal 1 256 16"
  have m: "demo_memory = ?p\<lparr>frames := [?F 0 True True], pageFrame := (replicate 256 None)[0 := Some 0], pageCount := 1\<rparr>"
    by (simp add: demo_memory_def poolAllocate_def allocateLocked_def acquireFrame_def growFrames_def
      INITIAL_FRAMES_def growDirectory_def update_frame_def set_directory_def poolInit_def Let_def double_to.simps)
  define q where "q = snd (poolAllocate (poolMarkAllClean demo_memory))"
  have "frames q = [?F 1 True True]" "pageFile q = None" "pageCount q = 2" "resident q 0 = None"
    "pageFrame q = (replicate 256 None)[0 := None, 1 := Some 0]" "hand q = 0" "frameLimit q = 1"
    by (simp_all add: q_def m poolMarkAllClean_def poolAllocate_def allocateLocked_def acquireFrame_def
      numeral_2_eq_2 growDirectory_def update_frame_def set_directory_def poolInit_def Let_def resident_def)
  moreover from this have "pool_view q 0 = None" by (simp add: pool_view_def file_view_def)
  moreover have "pool_view demo_memory 0 = Some (\<lambda>_. 0)"
    by (simp add: m pool_view_def resident_def usable_def fun_eq_iff)
  ultimately show ?thesis
    unfolding q_def [symmetric] Let_def
    by (simp add: poolPin_def pinLocked_def findFrame_def acquireFrame_def growFrames_def INITIAL_FRAMES_def
      numeral_2_eq_2 update_frame_def Let_def)
qed


text \<open>
  The save stream pins every page below the page count, the free ones that lie in the file
  included, and leaves them resident; after a second save such a page is referenced as well. The
  next allocation then reuses its id in another frame, and the page is resident twice.
\<close>
theorem save_then_reuse_twice_resident:
  "let p = (poolFree 0 demo_pool)\<lparr>frameLimit := 2\<rparr>;
       p = snd (snd (poolWriteAll (empty_file no_faults) p));
       p = snd (snd (poolWriteAll (empty_file no_faults) p));
       (r, p) = poolAllocate p
   in r = Inr 0 \<and> length (frames p) = 2 \<and> pf_id (frames p ! 0) = Some 0 \<and> pf_id (frames p ! 1) = Some 0"
proof -
  define a where "a = (poolFree 0 demo_pool)\<lparr>frameLimit := 2\<rparr>"
  define b where "b = snd (snd (poolWriteAll (empty_file no_faults) a))"
  define c where "c = snd (snd (poolWriteAll (empty_file no_faults) b))"
  have a: "frames a = []" "pageFrame a = replicate 256 None" "hand a = 0"
    "pageFile a = Some demo_file" "pageCount a = 1" "\<not> checksums a" "frameLimit a = 2" "freeIds a = [0]"
    by (simp_all add: a_def poolFree_def freeLocked_def findFrame_def Let_def
      demo_pool_def poolSetWritable_def poolInit_def growDirectory_def double_to.simps)
  have b: "length (frames b) = 2" "pf_id (frames b ! 0) = Some 0" "pf_id (frames b ! 1) = None" "hand b = 0"
    "freeIds b = [0]" "pageCount b = 1" "pageFrame b = (replicate 256 None)[0 := Some 0]" "pf_pins (frames b ! 0) = 0"
    "\<not> pf_dirty (frames b ! 0)"
    using a by (simp_all add: b_def poolWriteAll_def pinLocked_def findFrame_def acquireFrame_def growFrames_def
      INITIAL_FRAMES_def update_frame_def demo_file_def demo_db_def empty_file_def fseek_set_def fault_now_def
      no_faults_def count_call_def fread_def pageOffset_def PAGE_SIZE_def Let_def set_directory_def
      unpinLocked_def write_page_def fwrite_def numeral_2_eq_2 blank_frame_def)
  have c: "length (frames c) = 2" "pf_id (frames c ! 0) = Some 0" "pf_id (frames c ! 1) = None" "hand c = 0"
    "freeIds c = [0]" "pageCount c = 1" "pageFrame c = (replicate 256 None)[0 := Some 0]"
    "pf_pins (frames c ! 0) = 0" "\<not> pf_dirty (frames c ! 0)" "pf_referenced (frames c ! 0)"
    using b by (simp_all add: c_def poolWriteAll_def pinLocked_def findFrame_def
      update_frame_def empty_file_def fault_now_def no_faults_def count_call_def Let_def
      unpinLocked_def write_page_def fwrite_def)
  have "fst (poolAllocate c) = Inr 0" "length (frames (snd (poolAllocate c))) = 2"
    "pf_id (frames (snd (poolAllocate c)) ! 0) = Some 0" "pf_id (frames (snd (poolAllocate c)) ! 1) = Some 0"
    using c by (simp_all add: poolAllocate_def allocateLocked_def acquireFrame_def growDirectory_def
      update_frame_def set_directory_def Let_def eval_nat_numeral)
  then show ?thesis
    unfolding a_def [symmetric] b_def [symmetric] c_def [symmetric] Let_def by (simp add: case_prod_beta)
qed

end
