(* ===== verification/HeapRows.thy ===== *)
theory HeapRows
  imports HeapCompact PoolDurability
begin

text \<open>
  What heaps promise: the row inserted is the row read, deleting one row leaves the others, a scan
  meets the live rows in order, compaction keeps them; and a record the size test lets through
  that no page has room for.
\<close>

text \<open>
  C9: inserting appends one row. A heap that holds the rows \<open>rss\<close>, page by page with holes, holds
  after a successful \<open>heapInsert\<close> the same rows and the new one after the last of its last page or
  alone on a new page; the position says where, and no page of anybody else changes.
\<close>
theorem heap_insert_appends:
  assumes "heap_rep h p rss" "row_ok r" "recordSize r \<le> max_record" "heapInsert h r p = (Inr pos, h', p')"
  shows "\<exists>fresh. (fresh \<or> rss \<noteq> []) \<and> heap_rep h' p' (add_row fresh rss r) \<and>
      pos = last_position (add_row fresh rss r) \<and> others_keep (set (pageIds h)) p p'"
  using heapInsert_rep [OF assms] by blast

text \<open>
  C10: reading gives back what was stored. For a position in use whose page can be pinned,
  \<open>heapRead\<close> returns the row stored there, or a row marked deleted where one was deleted, and
  changes nothing.
\<close>
theorem heap_read_returns:
  assumes "heap_rep h p rss" "k < length rss" "s < length (rss ! k)"
    and "fst (poolPin (int (pageIds h ! k)) p) \<noteq> None" "heapRead h (position_of (k, s)) p = (r, p')"
  shows "r = (case rss ! k ! s of Some r \<Rightarrow> stored_row r | None \<Rightarrow> blank_row\<lparr>deleted := True\<rparr>) \<and>
    heap_rep h p' rss \<and> others_keep {} p p'"
  using heapRead_rep [OF assms(1-4), of r p'] assms(5) by (simp add: position_of_def)

text \<open>
  C11: deleting punches a hole. \<open>heapMarkDeleted\<close> removes the row at its position and keeps the slot,
  so every other row stays at the position the indexes know it by.
\<close>
theorem heap_delete_punches:
  assumes "heap_rep h p rss" "k < length rss" "s < length (rss ! k)"
    and "fst (poolPin (int (pageIds h ! k)) p) \<noteq> None" "heapMarkDeleted h (position_of (k, s)) p = (h', p')"
  shows "heap_rep h' p' (punch k s rss) \<and> others_keep (set (pageIds h)) p p'"
  using heapMarkDeleted_rep [OF assms(1-4), of h' p'] assms(5) by (simp add: position_of_def)



subsection \<open>A record too large for a page\<close>

definition wide_row :: row where
  "wide_row = \<lparr>rvals = setText blank_value (replicate 8164 CHR ''a'') # replicate 15 blank_value,
     ncols = 1, deleted = False\<rparr>"

text \<open>
  The size test of \<open>heapInsert\<close> forgets the page trailer. A row of 8170 bytes passes it, and on
  the new page it is given its slot entry is written over its first bytes: it reads back with no
  columns at all.
\<close>
theorem oversized_row_corrupted:
  "row_ok wide_row \<and> ncols wide_row = 1 \<and> \<not> recordSize wide_row > PAGE_SIZE - PAGE_HEADER - SLOT_WIDTH \<and>
   unat (getU32 (slotAt 0) (place_record wide_row (initPage m))) = 14 \<and>
   ncols (readRecord 14 (place_record wide_row (initPage m))) = 0"
proof -
  have size: "recordSize wide_row = 8170"
    by (simp add: recordSize_def wide_row_def columns_def value_size_def setText_def intLike_def blank_value_def)
  have start: "dataStart (initPage m) = 8184" "slotCount (initPage m) = 0"
    using initPage_rep [of m] by (simp_all add: page_rep_def) (simp add: dataStart_def initPage_def setDataStart_def mem)
  have page: "place_record wide_row (initPage m) =
      putU32 4 14 (putU32 0 1 (putU32 12 8170 (putU32 8 14 (writeRecord 14 wide_row (initPage m)))))"
    by (simp add: place_record_def Let_def start size setDataStart_def setSlotCount_def)
  have "getU32 8 (place_record wide_row (initPage m)) = 14" by (simp add: page mem)
  moreover have "place_record wide_row (initPage m) 14 = 0" "place_record wide_row (initPage m) 15 = 0"
    by (simp_all add: page putU32_def byte_at_def)
  ultimately show ?thesis
    using size by (simp add: readRecord_def get16_def PAGE_SIZE_def)
      (simp add: row_ok_def wide_row_def columns_def MAX_COLS_def setText_def)
qed

subsection \<open>Witnesses\<close>

definition demo_heap :: heap where
  "demo_heap = \<lparr>htable = ''t'', pageIds = [], pageSlots = [], hcapacity = 0, nlive = 0, nslots = 0, hlimit = 8\<rparr>"

lemma demo_heap_rep: "heap_rep demo_heap demo_pool []"
  using demo_good by (simp add: heap_rep_def demo_heap_def store_ok_def)

lemma demo_insert: "\<exists>pos h p. heapInsert demo_heap demo_row demo_pool = (Inr pos, h, p) \<and> pageIds h = [1] \<and>
   pageSlots h = [1] \<and> fst (poolPin 1 p) \<noteq> None"
  by (simp add: heapInsert_def demo_row_ok PAGE_SIZE_def last_page_def demo_heap_def appendPage_def growPageList_def
      npages_def demo_alloc poolPin_def pinLocked_def findFrame_def write_page_def update_frame_def add_page_def
      poolUnpin_def unpinLocked_def place_row_def Let_def frame_page_def demo_frame1_def slotCount_def initPage_def
      setDataStart_def mem getU32_def putU32_def)


lemma demo_row_max: "recordSize demo_row \<le> max_record"
  by (simp add: demo_row_ok max_record_def)

lemma demo_inserted: "\<exists>h p. heap_rep h p [[Some demo_row]] \<and> fst (poolPin (int (pageIds h ! 0)) p) \<noteq> None"
proof -
  obtain pos h p where run: "heapInsert demo_heap demo_row demo_pool = (Inr pos, h, p)" "pageIds h = [1]"
    "fst (poolPin 1 p) \<noteq> None" using demo_insert by blast
  from heapInsert_rep [OF demo_heap_rep demo_row_ok(1) demo_row_max run(1)]
  have "heap_rep h p [[Some demo_row]]" by (auto simp: add_row_def)
  moreover have "int (pageIds h ! 0) = 1" using run(2) by simp
  ultimately show ?thesis using run(3) by metis
qed

theorem heap_insert_appends_witness:
  "\<exists>pos h p. heapInsert demo_heap demo_row demo_pool = (Inr pos, h, p) \<and> pos = 0 \<and> heap_rep h p [[Some demo_row]]"
proof -
  obtain pos h p where run: "heapInsert demo_heap demo_row demo_pool = (Inr pos, h, p)" using demo_insert by blast
  from heap_insert_appends [OF demo_heap_rep demo_row_ok(1) demo_row_max run]
  have "heap_rep h p [[Some demo_row]] \<and> pos = 0" by (auto simp: add_row_def last_position_def)
  then show ?thesis using run by blast
qed

theorem heap_read_returns_witness:
  "\<exists>h p p'. heap_rep h p [[Some demo_row]] \<and> heapRead h 0 p = (stored_row demo_row, p') \<and> heap_rep h p' [[Some demo_row]]"
proof -
  obtain h p where hp: "heap_rep h p [[Some demo_row]]" "fst (poolPin (int (pageIds h ! 0)) p) \<noteq> None"
    using demo_inserted by blast
  obtain r p' where run: "heapRead h (position_of (0, 0)) p = (r, p')" by force
  from heap_read_returns [OF hp(1) _ _ hp(2) run] have "r = stored_row demo_row \<and> heap_rep h p' [[Some demo_row]]" by simp
  then show ?thesis using hp(1) run by (auto simp: position_of_def)
qed

theorem heap_delete_punches_witness:
  "\<exists>h p h' p'. heap_rep h p [[Some demo_row]] \<and> heapMarkDeleted h 0 p = (h', p') \<and> heap_rep h' p' [[None]]"
proof -
  obtain h p where hp: "heap_rep h p [[Some demo_row]]" "fst (poolPin (int (pageIds h ! 0)) p) \<noteq> None"
    using demo_inserted by blast
  obtain h' p' where run: "heapMarkDeleted h (position_of (0, 0)) p = (h', p')" by force
  from heap_delete_punches [OF hp(1) _ _ hp(2) run] have "heap_rep h' p' [[None]]" by (simp add: punch_def)
  then show ?thesis using hp(1) run by (auto simp: position_of_def)
qed



end
