(* ===== verification/Names.thy ===== *)
theory Names
  imports Values
begin

text \<open>
  Names and the text helpers of the C library the stages share: comparison without case, copying
  into a \<open>NAME_LEN\<close> buffer, the part after the last dot, and the decimal and \<^verbatim>\<open>%g\<close> conversions a
  label is printed with. A string is the bytes before its terminator.
\<close>

subsection \<open>Character classes of the C locale\<close>

definition is_upper :: "char \<Rightarrow> bool" where
  "is_upper c \<longleftrightarrow> 65 \<le> (of_char c :: nat) \<and> (of_char c :: nat) \<le> 90"

definition is_lower :: "char \<Rightarrow> bool" where
  "is_lower c \<longleftrightarrow> 97 \<le> (of_char c :: nat) \<and> (of_char c :: nat) \<le> 122"

definition is_digit :: "char \<Rightarrow> bool" where
  "is_digit c \<longleftrightarrow> 48 \<le> (of_char c :: nat) \<and> (of_char c :: nat) \<le> 57"

definition is_alpha :: "char \<Rightarrow> bool" where "is_alpha c \<longleftrightarrow> is_upper c \<or> is_lower c"
definition is_alnum :: "char \<Rightarrow> bool" where "is_alnum c \<longleftrightarrow> is_alpha c \<or> is_digit c"

definition is_space :: "char \<Rightarrow> bool" where
  "is_space c \<longleftrightarrow> (of_char c :: nat) = 32 \<or> (9 \<le> (of_char c :: nat) \<and> (of_char c :: nat) \<le> 13)"

definition to_lower :: "char \<Rightarrow> char" where
  "to_lower c = (if is_upper c then char_of ((of_char c :: nat) + 32) else c)"

definition digit_value :: "char \<Rightarrow> int" where
  "digit_value c = int (of_char c) - 48"

subsection \<open>Comparing without case\<close>

text \<open>\<^verbatim>\<open>_stricmp(a, b) == 0\<close> and \<^verbatim>\<open>_strnicmp(a, b, n) == 0\<close>.\<close>

definition stricmp :: "string \<Rightarrow> string \<Rightarrow> bool" where
  "stricmp a b \<longleftrightarrow> map to_lower a = map to_lower b"

definition strnicmp :: "nat \<Rightarrow> string \<Rightarrow> string \<Rightarrow> bool" where
  "strnicmp n a b \<longleftrightarrow> take n (map to_lower a) = take n (map to_lower b)"

lemma stricmp_refl [simp]: "stricmp a a" by (simp add: stricmp_def)
lemma stricmp_sym: "stricmp a b \<longleftrightarrow> stricmp b a" by (auto simp: stricmp_def)
lemma stricmp_trans: "stricmp a b \<Longrightarrow> stricmp b c \<Longrightarrow> stricmp a c" by (simp add: stricmp_def)

text \<open>Two names that agree without case are interchangeable on the left and on the right.\<close>

lemma stricmp_cong: "stricmp a b \<Longrightarrow> stricmp a c \<longleftrightarrow> stricmp b c"
  by (auto simp: stricmp_def)

subsection \<open>Buffers\<close>

text \<open>\<^verbatim>\<open>snprintf(out, NAME_LEN, "%s", name)\<close> keeps what fits before the terminator.\<close>

definition clip :: "nat \<Rightarrow> string \<Rightarrow> string" where "clip n s = take (n - 1) s"
definition name_of :: "string \<Rightarrow> string" where "name_of s = clip NAME_LEN s"

lemma name_of_short [simp]: "length s < NAME_LEN \<Longrightarrow> name_of s = s"
  by (simp add: name_of_def clip_def)

lemma name_of_length: "length (name_of s) < NAME_LEN"
  by (simp add: name_of_def clip_def NAME_LEN_def)

lemma name_of_idem [simp]: "name_of (name_of s) = name_of s"
  by (simp add: name_of_length)

text \<open>What follows the last dot: \<^verbatim>\<open>strrchr(name, '.')\<close> gives what precedes it and what follows.\<close>

definition last_dot :: "string \<Rightarrow> (string \<times> string) option" where
  "last_dot s =
     (if CHR ''.'' \<in> set s
      then let tail = takeWhile (\<lambda>c. c \<noteq> CHR ''.'') (rev s)
           in Some (take (length s - length tail - 1) s, rev tail)
      else None)"

definition bareName :: "string \<Rightarrow> string" where
  "bareName s = (case last_dot s of Some (_, tail) \<Rightarrow> tail | None \<Rightarrow> s)"

lemma last_dot_join:
  assumes "CHR ''.'' \<notin> set b"
  shows "last_dot (a @ CHR ''.'' # b) = Some (a, b)"
proof -
  have "takeWhile (\<lambda>c. c \<noteq> CHR ''.'') (rev b @ CHR ''.'' # rev a) = rev b"
    using assms by (subst takeWhile_append2) auto
  then show ?thesis by (simp add: last_dot_def Let_def)
qed

lemma last_dot_none: "CHR ''.'' \<notin> set s \<Longrightarrow> last_dot s = None"
  by (simp add: last_dot_def)

subsection \<open>Printing numbers\<close>

fun digits_of :: "nat \<Rightarrow> string" where
  "digits_of n = (if n < 10 then [char_of (48 + n)] else digits_of (n div 10) @ [char_of (48 + n mod 10)])"

declare digits_of.simps [simp del]

text \<open>\<^verbatim>\<open>%d\<close>.\<close>

definition print_int :: "int \<Rightarrow> string" where
  "print_int n = (if n < 0 then CHR ''-'' # digits_of (nat (- n)) else digits_of (nat n))"

text \<open>
  \<^verbatim>\<open>%g\<close>: six significant digits of the exact value, rounded to even, in the style with an exponent
  when that is below -4 or above 5, without trailing zeros.
\<close>

definition round_ratio :: "nat \<Rightarrow> nat \<Rightarrow> nat" where
  "round_ratio n d =
     (let q = n div d; r = n mod d in if 2 * r < d \<or> (2 * r = d \<and> even q) then q else q + 1)"

text \<open>How often ten goes into the ratio \<open>n / d\<close>, or the ratio into one: its decimal exponent.\<close>

function ten_below :: "nat \<Rightarrow> nat \<Rightarrow> nat" where
  "ten_below n d = (if n \<ge> d \<or> n = 0 then 0 else Suc (ten_below (n * 10) d))"
  by pat_completeness auto
termination by (relation "measure (\<lambda>(n, d). d - n)") auto

declare ten_below.simps [simp del]

definition decimal_exponent :: "nat \<Rightarrow> nat \<Rightarrow> int" where
  "decimal_exponent n d =
     (if n \<ge> d then int (length (digits_of (n div d))) - 1 else - int (ten_below n d))"

definition strip_zeros :: "string \<Rightarrow> string" where
  "strip_zeros s = rev (dropWhile (\<lambda>c. c = CHR ''0'') (rev s))"

definition with_point :: "string \<Rightarrow> string \<Rightarrow> string" where
  "with_point whole frac = (let f = strip_zeros frac in if f = [] then whole else whole @ CHR ''.'' # f)"

definition print_ratio :: "nat \<Rightarrow> nat \<Rightarrow> string" where
  "print_ratio n d =
     (let x = decimal_exponent n d;
          q = (if x \<le> 5 then round_ratio (n * 10 ^ nat (5 - x)) d else round_ratio n (d * 10 ^ nat (x - 5)));
          (q, x) = (if q \<ge> 1000000 then (q div 10, x + 1) else (q, x));
          ds = digits_of q
      in if x < -4 \<or> x \<ge> 6
         then with_point (take 1 ds) (drop 1 ds) @ CHR ''e'' # (if x < 0 then CHR ''-'' else CHR ''+'') #
              (if \<bar>x\<bar> < 10 then CHR ''0'' # digits_of (nat \<bar>x\<bar>) else digits_of (nat \<bar>x\<bar>))
         else if x < 0 then with_point ''0'' (replicate (nat (- x) - 1) CHR ''0'' @ ds)
         else with_point (take (nat x + 1) ds) (drop (nat x + 1) ds))"

definition print_g :: "double \<Rightarrow> string" where
  "print_g f =
     (let sign = (if fl_sign f then ''-'' else [])
      in sign @ (if fl_nan f then ''nan'' else if fl_inf f then ''inf''
                 else if fl_magnitude f = 0 then ''0''
                 else print_ratio (nat (fl_mant f) * 2 ^ nat (fl_scale f)) (2 ^ 1074)))"

subsection \<open>Reading numbers\<close>

text \<open>The value of the decimal digits a string starts with, and what follows them.\<close>

definition leading_digits :: "string \<Rightarrow> string" where "leading_digits s = takeWhile is_digit s"

definition digits_value :: "string \<Rightarrow> int" where
  "digits_value ds = foldl (\<lambda>v c. v * 10 + digit_value c) 0 ds"

text \<open>
  \<^verbatim>\<open>strtoll(s, NULL, 10)\<close> on the token of a number, which starts with a digit: the value, or the
  largest \<^verbatim>\<open>long long\<close> and the range error.
\<close>

definition strtoll :: "string \<Rightarrow> int \<times> bool" where
  "strtoll s =
     (let v = digits_value (leading_digits s)
      in if v > 2 ^ 63 - 1 then (2 ^ 63 - 1, True) else (v, False))"

text \<open>
  \<^verbatim>\<open>strtod\<close> on such a token: digits, at most one point and digits after it. A value that rounds to
  infinity is out of range, and so is one that is not zero and rounds below the normal numbers.
\<close>

definition strtod :: "string \<Rightarrow> double \<times> bool" where
  "strtod s =
     (let whole = leading_digits s; rest = drop (length whole) s;
          frac = (case rest of c # cs \<Rightarrow> if c = CHR ''.'' then leading_digits cs else [] | [] \<Rightarrow> []);
          v = digits_value (whole @ frac); x = fl_of_decimal False v (length frac)
      in (x, fl_inf x \<or> (v \<noteq> 0 \<and> fl_expo x = 0)))"

lemma digits_value_nonneg: "0 \<le> digits_value (leading_digits s)"
proof -
  have digit: "is_digit c \<Longrightarrow> 0 \<le> digit_value c" for c by (simp add: is_digit_def digit_value_def)
  have "0 \<le> foldl (\<lambda>v c. v * 10 + digit_value c) a ds" if "0 \<le> a" "\<forall>c \<in> set ds. is_digit c" for a ds
    using that by (induction ds arbitrary: a) (use digit in auto)
  moreover have "\<forall>c \<in> set (leading_digits s). is_digit c"
    by (auto simp: leading_digits_def dest: set_takeWhileD)
  ultimately show ?thesis by (simp add: digits_value_def)
qed

end
