(* ===== verification/Schema.thy ===== *)
theory Schema
  imports Names
begin

text \<open>
  The statement and schema types of \<^verbatim>\<open>sql_common.h\<close>, as the stages pass them, and the lookup of a
  column in a table, \<open>findColumn\<close> of \<^verbatim>\<open>02_catalog.c\<close>. Pools are lists of their nodes in use, edges
  are indices, -1 where there is none. An array with its count is a list; a field the code leaves
  unset has the value its initialiser gives it.
\<close>

subsection \<open>Columns\<close>

definition COL_NOT_NULL :: int where "COL_NOT_NULL = 1"
definition COL_UNIQUE :: int where "COL_UNIQUE = 2"
definition COL_PRIMARY :: int where "COL_PRIMARY = 4"
definition COLUMN_AMBIGUOUS :: int where "COLUMN_AMBIGUOUS = -2"

record column =
  cname :: string
  ctype :: coltype
  csize :: int
  cflags :: int
  hasDefault :: bool
  defaultValue :: "Value"

definition blank_column :: column where
  "blank_column = \<lparr>cname = [], ctype = TYPE_INT, csize = 0, cflags = 0, hasDefault = False,
     defaultValue = blank_value\<rparr>"

subsection \<open>Expressions\<close>

datatype exprkind = EXPR_COLUMN | EXPR_LITERAL | EXPR_BINARY | EXPR_NEGATE
datatype arithop = ARITH_ADD | ARITH_SUB | ARITH_MUL | ARITH_DIV | ARITH_MOD

record exprnode =
  ekind :: exprkind
  eop :: arithop
  eleft :: int
  eright :: int
  ecolumn :: string
  eliteral :: "Value"
  eslot :: int
  etype :: coltype

type_synonym exprpool = "exprnode list"

subsection \<open>Conditions\<close>

datatype compareop = OP_EQ | OP_NE | OP_LT | OP_LTE | OP_GT | OP_GTE | OP_IS_NULL | OP_IS_NOT_NULL
  | OP_LIKE | OP_NOT_LIKE | OP_IN | OP_EXISTS

record predicate =
  pleft :: int
  pop :: compareop
  pright :: int
  psubquery :: int

datatype conditionkind = COND_COMPARE | COND_AND | COND_OR | COND_NOT

record conditionnode =
  ckind :: conditionkind
  ccompare :: predicate
  cleft :: int
  cright :: int

record condition =
  present :: bool
  croot :: int
  cnodes :: "conditionnode list"
  cexprs :: exprpool

definition blank_condition :: condition where
  "blank_condition = \<lparr>present = False, croot = 0, cnodes = [], cexprs = []\<rparr>"

subsection \<open>Statements\<close>

datatype aggregatetype = AGG_NONE | AGG_COUNT | AGG_SUM | AGG_AVG | AGG_MIN | AGG_MAX

record selectitem =
  aggregate :: aggregatetype
  iexpr :: int
  istar :: bool
  ilabel :: string
  aliased :: bool

record orderterm =
  ocolumn :: string
  descending :: bool

record selectstatement =
  sitems :: "selectitem list"
  sexprs :: exprpool
  selectAll :: bool
  stable :: string
  stables :: "string list"
  saliases :: "string list"
  souter :: "bool list"
  onRoot :: "int list"
  swhere :: condition
  sdistinct :: bool
  having :: condition
  sorder :: "orderterm list"
  slimit :: int
  groupBy :: "string list"

record createstatement =
  crtable :: string
  crcols :: "column list"
  crcheck :: condition

record insertstatement =
  intable :: string
  incolumns :: "string list"
  invalues :: "Value list"

record createindexstatement =
  ixname :: string
  ixtable :: string
  ixcolumn :: string

record deletestatement =
  detable :: string
  dewhere :: condition

record assignment =
  ascolumn :: string
  asexpr :: int

record updatestatement =
  uptable :: string
  upsets :: "assignment list"
  upexprs :: exprpool
  upwhere :: condition

datatype alteraction = ALTER_ADD_COLUMN | ALTER_DROP_COLUMN | ALTER_RENAME_COLUMN | ALTER_RENAME_TABLE

record alterstatement =
  altable :: string
  alaction :: alteraction
  alcolumn :: column
  alname :: string
  alnewName :: string

text \<open>\<open>Statement\<close>: the tag and the union are one datatype.\<close>

datatype statement = STMT_SELECT selectstatement | STMT_CREATE_TABLE createstatement
  | STMT_CREATE_INDEX createindexstatement | STMT_INSERT insertstatement | STMT_DELETE deletestatement
  | STMT_UPDATE updatestatement | STMT_VACUUM string | STMT_DROP_TABLE string | STMT_DROP_INDEX string
  | STMT_CREATE_DATABASE string | STMT_USE_DATABASE string | STMT_DROP_DATABASE string
  | STMT_ALTER_TABLE alterstatement | STMT_BEGIN | STMT_COMMIT | STMT_ROLLBACK

subsection \<open>Tables\<close>

record table =
  tname :: string
  tcols :: "column list"
  tcheck :: "condition option"

definition JOIN_SCHEMA_NAME :: string where "JOIN_SCHEMA_NAME = ''<join>''"

text \<open>The position of the first column whose name agrees, -1 when none does.\<close>

fun column_at :: "(string \<Rightarrow> bool) \<Rightarrow> column list \<Rightarrow> nat \<Rightarrow> int" where
  "column_at same [] i = -1"
| "column_at same (c # cs) i = (if same (cname c) then int i else column_at same cs (Suc i))"

text \<open>A bare name against qualified columns: one column may answer to it, not two.\<close>

fun bare_column :: "string \<Rightarrow> column list \<Rightarrow> nat \<Rightarrow> int \<Rightarrow> int" where
  "bare_column name [] i found = found"
| "bare_column name (c # cs) i found =
     (if stricmp (bareName (cname c)) name
      then (if found \<ge> 0 then COLUMN_AMBIGUOUS else bare_column name cs (Suc i) (int i))
      else bare_column name cs (Suc i) found)"

definition findColumn :: "table \<Rightarrow> string \<Rightarrow> int" where
  "findColumn t name =
     (let exact = column_at (\<lambda>c. stricmp c name) (tcols t) 0
      in if exact \<ge> 0 then exact
         else case last_dot name of
                Some (qualifier, column) \<Rightarrow>
                  if \<not> strnicmp (length qualifier) name (tname t) \<or> length (tname t) \<noteq> length qualifier then -1
                  else column_at (\<lambda>c. stricmp c column) (tcols t) 0
              | None \<Rightarrow> bare_column name (tcols t) 0 (-1))"

subsection \<open>What the lookup finds\<close>

lemma column_at_range: "column_at same cs i = -1 \<or> (int i \<le> column_at same cs i \<and> column_at same cs i < int (i + length cs))"
  by (induction cs arbitrary: i) fastforce+

lemma column_at_found:
  "0 \<le> column_at same cs i \<Longrightarrow> same (cname (cs ! nat (column_at same cs i - int i)))"
proof (induction cs arbitrary: i)
  case (Cons c cs)
  show ?case
  proof (cases "same (cname c)")
    case False
    then have pos: "0 \<le> column_at same cs (Suc i)" using Cons.prems by simp
    then have "int (Suc i) \<le> column_at same cs (Suc i)" using column_at_range [of same cs "Suc i"] by linarith
    then have "nat (column_at same cs (Suc i) - int i) = Suc (nat (column_at same cs (Suc i) - int (Suc i)))" by simp
    then show ?thesis using False Cons.IH [OF pos] by simp
  qed simp
qed simp

lemma column_at_none: "column_at same cs i = -1 \<longleftrightarrow> (\<forall>c \<in> set cs. \<not> same (cname c))"
  by (induction cs arbitrary: i) auto

lemma bare_column_range:
  "bare_column name cs i found \<in> {COLUMN_AMBIGUOUS, found} \<or>
   (int i \<le> bare_column name cs i found \<and> bare_column name cs i found < int (i + length cs))"
  by (induction name cs i found rule: bare_column.induct) (auto simp: COLUMN_AMBIGUOUS_def)

lemma findColumn_range: "findColumn t name \<in> {-1, COLUMN_AMBIGUOUS} \<or> (0 \<le> findColumn t name \<and> findColumn t name < int (length (tcols t)))"
  using column_at_range [of "\<lambda>c. stricmp c name" "tcols t" 0] bare_column_range [of name "tcols t" 0 "-1"]
    column_at_range [of _ "tcols t" 0]
  by (fastforce simp: findColumn_def Let_def split: option.splits prod.splits)

end
