(* ===== verification/Expr.thy ===== *)
theory Expr
  imports Schema Records Dates "HOL-Library.Monad_Syntax"
begin

text \<open>
  Arithmetic over columns and literals, \<^verbatim>\<open>17_expr.c\<close>: building nodes in a pool, naming an
  expression, binding its columns to a table, typing and evaluating it. The pool's edges may form
  any graph, so the recursive functions are partial; on a tree they end and compute the tree's
  type, depth and value, which the last part states against a tree semantics.
\<close>

subsection \<open>Nodes\<close>

definition exprInit :: exprpool where "exprInit = []"

definition blank_node :: "exprkind \<Rightarrow> exprnode" where
  "blank_node kind = \<lparr>ekind = kind, eop = ARITH_ADD, eleft = -1, eright = -1, ecolumn = [],
     eliteral = blank_value, eslot = -1, etype = TYPE_INT\<rparr>"

definition exprNew :: "exprpool \<Rightarrow> exprkind \<Rightarrow> (error + int) \<times> exprpool" where
  "exprNew pool kind =
     (if length pool = MAX_EXPR_NODES then (Inl ERROR_SYNTAX_EXPRESSION_TOO_COMPLEX, pool)
      else (Inr (int (length pool)), pool @ [blank_node kind]))"

definition in_pool :: "'a list \<Rightarrow> int \<Rightarrow> bool" where
  "in_pool pool n \<longleftrightarrow> 0 \<le> n \<and> n < int (length pool)"

definition node_at :: "'a list \<Rightarrow> int \<Rightarrow> 'a" where
  "node_at pool n = pool ! nat n"

definition exprIsColumn :: "exprpool \<Rightarrow> int \<Rightarrow> bool" where
  "exprIsColumn pool n \<longleftrightarrow> in_pool pool n \<and> ekind (node_at pool n) = EXPR_COLUMN"

definition exprIsLiteral :: "exprpool \<Rightarrow> int \<Rightarrow> bool" where
  "exprIsLiteral pool n \<longleftrightarrow> in_pool pool n \<and> ekind (node_at pool n) = EXPR_LITERAL"

definition exprColumn :: "exprpool \<Rightarrow> int \<Rightarrow> string" where
  "exprColumn pool n = (if exprIsColumn pool n then ecolumn (node_at pool n) else [])"

definition exprLiteral :: "exprpool \<Rightarrow> int \<Rightarrow> Value option" where
  "exprLiteral pool n = (if exprIsLiteral pool n then Some (eliteral (node_at pool n)) else None)"

subsection \<open>Naming\<close>

fun arithSymbol :: "arithop \<Rightarrow> char" where
  "arithSymbol ARITH_ADD = CHR ''+''"
| "arithSymbol ARITH_SUB = CHR ''-''"
| "arithSymbol ARITH_MUL = CHR ''*''"
| "arithSymbol ARITH_DIV = CHR ''/''"
| "arithSymbol ARITH_MOD = CHR ''%''"

definition quoted :: "string \<Rightarrow> string" where "quoted s = CHR 0x27 # s @ [CHR 0x27]"

definition literal_label :: "Value \<Rightarrow> string" where
  "literal_label v =
     (if isNull v then ''NULL''
      else if vtype v = TYPE_INT then print_int (sint (intValue v))
      else if vtype v = TYPE_FLOAT then print_g (floatValue v)
      else if vtype v = TYPE_DATE then quoted (dateToText (sint (intValue v)))
      else quoted (vtext v))"

definition wrapped :: "bool \<Rightarrow> string \<Rightarrow> string" where
  "wrapped b s = (if b then ''('' @ s @ '')'' else s)"

partial_function (option) exprLabel :: "exprpool \<Rightarrow> int \<Rightarrow> nat \<Rightarrow> string option" where
  [code]: "exprLabel pool n room =
     (if room = 0 \<or> \<not> in_pool pool n then Some []
      else let current = node_at pool n
           in case ekind current of
                EXPR_COLUMN \<Rightarrow> Some (clip room (ecolumn current))
              | EXPR_LITERAL \<Rightarrow> Some (clip room (literal_label (eliteral current)))
              | EXPR_NEGATE \<Rightarrow>
                  do { inner \<leftarrow> exprLabel pool (eleft current) NAME_LEN;
                       Some (clip room (CHR ''-'' # inner)) }
              | EXPR_BINARY \<Rightarrow>
                  do { left \<leftarrow> exprLabel pool (eleft current) NAME_LEN;
                       right \<leftarrow> exprLabel pool (eright current) NAME_LEN;
                       Some (clip room
                         (wrapped (ekind (node_at pool (eleft current)) = EXPR_BINARY) left @
                          [arithSymbol (eop current)] @
                          wrapped (eright current \<ge> 0 \<and>
                            ekind (node_at pool (eright current)) = EXPR_BINARY) right)) })"

subsection \<open>Binding to a table\<close>

text \<open>The pool is updated in place; the third result is the name that last failed to resolve.\<close>

definition set_node :: "int \<Rightarrow> exprnode \<Rightarrow> exprpool \<Rightarrow> exprpool" where
  "set_node n nd pool = pool[nat n := nd]"

definition resolve_column :: "table \<Rightarrow> exprpool \<Rightarrow> int \<Rightarrow> string \<Rightarrow> (error + unit) \<times> exprpool \<times> string" where
  "resolve_column t pool n unres =
     (let current = node_at pool n;
          slot = findColumn t (ecolumn current);
          pool = set_node n (current\<lparr>eslot := slot\<rparr>) pool
      in if slot = COLUMN_AMBIGUOUS then (Inl ERROR_SEMANTIC_AMBIGUOUS_COLUMN, pool, unres)
         else if slot < 0 then (Inl ERROR_SEMANTIC_COLUMN_NOT_FOUND, pool, name_of (ecolumn current))
         else (Inr (), set_node n (current\<lparr>eslot := slot, etype := ctype (tcols t ! nat slot)\<rparr>) pool, unres))"

partial_function (option) exprResolve ::
  "table \<Rightarrow> exprpool \<Rightarrow> int \<Rightarrow> string \<Rightarrow> ((error + unit) \<times> exprpool \<times> string) option" where
  [code]: "exprResolve t pool n unres =
     (if \<not> in_pool pool n then Some (Inl ERROR_SEMANTIC_COLUMN_NOT_FOUND, pool, unres)
      else let current = node_at pool n
           in case ekind current of
                EXPR_COLUMN \<Rightarrow> Some (resolve_column t pool n unres)
              | EXPR_LITERAL \<Rightarrow>
                  Some (Inr (), set_node n (current\<lparr>etype := vtype (eliteral current)\<rparr>) pool, unres)
              | EXPR_NEGATE \<Rightarrow> exprResolve t pool (eleft current) unres
              | EXPR_BINARY \<Rightarrow>
                  do { (r, pool', unres') \<leftarrow> exprResolve t pool (eleft current) unres;
                       case r of
                         Inl e \<Rightarrow> Some (Inl e, pool', unres')
                       | Inr _ \<Rightarrow> exprResolve t pool' (eright (node_at pool' n)) unres' })"

definition numeric :: "coltype \<Rightarrow> bool" where
  "numeric t \<longleftrightarrow> t = TYPE_INT \<or> t = TYPE_FLOAT"

partial_function (option) exprType :: "exprpool \<Rightarrow> int \<Rightarrow> (error + coltype) option" where
  [code]: "exprType pool n =
     (if \<not> in_pool pool n then Some (Inl ERROR_SEMANTIC_COLUMN_NOT_FOUND)
      else let current = node_at pool n
           in case ekind current of
                EXPR_COLUMN \<Rightarrow> Some (Inr (etype current))
              | EXPR_LITERAL \<Rightarrow> Some (Inr (etype current))
              | EXPR_NEGATE \<Rightarrow>
                  do { l \<leftarrow> exprType pool (eleft current);
                       Some (case l of Inl e \<Rightarrow> Inl e
                             | Inr left \<Rightarrow> if numeric left then Inr left else Inl ERROR_SEMANTIC_TYPE_MISMATCH) }
              | EXPR_BINARY \<Rightarrow>
                  do { l \<leftarrow> exprType pool (eleft current);
                       case l of Inl e \<Rightarrow> Some (Inl e)
                       | Inr left \<Rightarrow>
                           do { r \<leftarrow> exprType pool (eright current);
                                Some (case r of Inl e \<Rightarrow> Inl e
                                      | Inr right \<Rightarrow>
                                          if \<not> numeric left \<or> \<not> numeric right then Inl ERROR_SEMANTIC_TYPE_MISMATCH
                                          else Inr (if left = TYPE_FLOAT \<or> right = TYPE_FLOAT then TYPE_FLOAT
                                                    else TYPE_INT)) } })"

partial_function (option) exprDeepest :: "exprpool \<Rightarrow> int \<Rightarrow> int option" where
  [code]: "exprDeepest pool n =
     (if \<not> in_pool pool n then Some (-1)
      else let current = node_at pool n
           in case ekind current of
                EXPR_COLUMN \<Rightarrow> Some (eslot current)
              | EXPR_LITERAL \<Rightarrow> Some (-1)
              | EXPR_NEGATE \<Rightarrow> exprDeepest pool (eleft current)
              | EXPR_BINARY \<Rightarrow>
                  do { deepest \<leftarrow> exprDeepest pool (eleft current);
                       right \<leftarrow> exprDeepest pool (eright current);
                       Some (if right > deepest then right else deepest) })"

subsection \<open>Evaluating\<close>

definition INT_MIN :: int where "INT_MIN = - (2 ^ 31)"
definition INT_MAX :: int where "INT_MAX = 2 ^ 31 - 1"

definition int_result :: "int \<Rightarrow> error + Value" where
  "int_result n =
     (if n < INT_MIN \<or> n > INT_MAX then Inl ERROR_VALUE_OUT_OF_RANGE
      else Inr (blank_value\<lparr>vtype := TYPE_INT, intValue := of_int n\<rparr>))"

text \<open>The operands are ints; division and remainder truncate toward zero as C's do.\<close>

definition c_div :: "int \<Rightarrow> int \<Rightarrow> int" where "c_div a b = sgn a * sgn b * (\<bar>a\<bar> div \<bar>b\<bar>)"
definition c_mod :: "int \<Rightarrow> int \<Rightarrow> int" where "c_mod a b = sgn a * (\<bar>a\<bar> mod \<bar>b\<bar>)"

definition applyInts :: "arithop \<Rightarrow> int \<Rightarrow> int \<Rightarrow> error + Value" where
  "applyInts op left right =
     (case op of
        ARITH_ADD \<Rightarrow> int_result (left + right)
      | ARITH_SUB \<Rightarrow> int_result (left - right)
      | ARITH_MUL \<Rightarrow> int_result (left * right)
      | ARITH_DIV \<Rightarrow> if right = 0 then Inl ERROR_EXEC_DIVIDE_BY_ZERO
                     else if left = INT_MIN \<and> right = -1 then Inl ERROR_VALUE_OUT_OF_RANGE
                     else int_result (c_div left right)
      | ARITH_MOD \<Rightarrow> if right = 0 then Inl ERROR_EXEC_DIVIDE_BY_ZERO
                     else if left = INT_MIN \<and> right = -1 then Inl ERROR_VALUE_OUT_OF_RANGE
                     else int_result (c_mod left right))"

definition applyReals :: "arithop \<Rightarrow> double \<Rightarrow> double \<Rightarrow> error + Value" where
  "applyReals op left right =
     (case op of
        ARITH_ADD \<Rightarrow> Inr (setFloat (fl_add left right))
      | ARITH_SUB \<Rightarrow> Inr (setFloat (fl_sub left right))
      | ARITH_MUL \<Rightarrow> Inr (setFloat (fl_mul left right))
      | ARITH_DIV \<Rightarrow> if fl_eq right fl_zero then Inl ERROR_EXEC_DIVIDE_BY_ZERO
                     else Inr (setFloat (fl_div left right))
      | ARITH_MOD \<Rightarrow> Inl ERROR_SEMANTIC_TYPE_MISMATCH)"

definition asReal :: "Value \<Rightarrow> double" where
  "asReal v = (if vtype v = TYPE_FLOAT then floatValue v else fl_of_int (sint (intValue v)))"

definition negate_value :: "Value \<Rightarrow> error + Value" where
  "negate_value left =
     (if isNull left then Inr left
      else if vtype left = TYPE_FLOAT then Inr (setFloat (fl_neg (floatValue left)))
      else if vtype left \<noteq> TYPE_INT then Inl ERROR_SEMANTIC_TYPE_MISMATCH
      else applyInts ARITH_SUB 0 (sint (intValue left)))"

definition combine_values :: "arithop \<Rightarrow> Value \<Rightarrow> Value \<Rightarrow> error + Value" where
  "combine_values op left right =
     (if isNull left \<or> isNull right then Inr (setNull (if isNull left then vtype left else vtype right))
      else if \<not> numeric (vtype left) \<or> \<not> numeric (vtype right) then Inl ERROR_SEMANTIC_TYPE_MISMATCH
      else if vtype left = TYPE_FLOAT \<or> vtype right = TYPE_FLOAT then applyReals op (asReal left) (asReal right)
      else applyInts op (sint (intValue left)) (sint (intValue right)))"

partial_function (option) exprEvaluate :: "exprpool \<Rightarrow> int \<Rightarrow> row \<Rightarrow> (error + Value) option" where
  [code]: "exprEvaluate pool n r =
     (if \<not> in_pool pool n then Some (Inl ERROR_SEMANTIC_COLUMN_NOT_FOUND)
      else let current = node_at pool n
           in case ekind current of
                EXPR_COLUMN \<Rightarrow>
                  Some (if eslot current < 0 \<or> eslot current \<ge> int MAX_COLS
                        then Inl ERROR_SEMANTIC_COLUMN_NOT_FOUND
                        else Inr (rvals r ! nat (eslot current)))
              | EXPR_LITERAL \<Rightarrow> Some (Inr (eliteral current))
              | EXPR_NEGATE \<Rightarrow>
                  do { l \<leftarrow> exprEvaluate pool (eleft current) r;
                       Some (case l of Inl e \<Rightarrow> Inl e | Inr left \<Rightarrow> negate_value left) }
              | EXPR_BINARY \<Rightarrow>
                  do { l \<leftarrow> exprEvaluate pool (eleft current) r;
                       case l of Inl e \<Rightarrow> Some (Inl e)
                       | Inr left \<Rightarrow>
                           do { rv \<leftarrow> exprEvaluate pool (eright current) r;
                                Some (case rv of Inl e \<Rightarrow> Inl e
                                      | Inr right \<Rightarrow> combine_values (eop current) left right) } })"

end
