(* ===== verification/ExprTree.thy ===== *)
theory ExprTree
  imports Expr
begin

text \<open>
  What an expression in a pool means: the tree its edges form, with the value, type and depth of a
  tree given by structural recursion. The pool functions of \<^verbatim>\<open>17_expr.c\<close> end on a tree and compute
  these; the tree's type is kept by evaluation.
\<close>

subsection \<open>Trees in a pool\<close>

datatype etree = Leaf exprnode | Neg etree | Bin arithop etree etree

fun is_tree :: "exprpool \<Rightarrow> int \<Rightarrow> etree \<Rightarrow> bool" where
  "is_tree pool n (Leaf nd) \<longleftrightarrow>
     in_pool pool n \<and> node_at pool n = nd \<and> ekind nd \<in> {EXPR_COLUMN, EXPR_LITERAL}"
| "is_tree pool n (Neg t) \<longleftrightarrow>
     in_pool pool n \<and> ekind (node_at pool n) = EXPR_NEGATE \<and> is_tree pool (eleft (node_at pool n)) t"
| "is_tree pool n (Bin op a b) \<longleftrightarrow>
     in_pool pool n \<and> ekind (node_at pool n) = EXPR_BINARY \<and> eop (node_at pool n) = op \<and>
     is_tree pool (eleft (node_at pool n)) a \<and> is_tree pool (eright (node_at pool n)) b"

text \<open>A pool built bottom up, as the parser builds it: every edge goes to an earlier node.\<close>

definition edges_down :: "exprpool \<Rightarrow> bool" where
  "edges_down pool \<longleftrightarrow> (\<forall>n < length pool.
     (ekind (pool ! n) = EXPR_NEGATE \<longrightarrow> 0 \<le> eleft (pool ! n) \<and> eleft (pool ! n) < int n) \<and>
     (ekind (pool ! n) = EXPR_BINARY \<longrightarrow> 0 \<le> eleft (pool ! n) \<and> eleft (pool ! n) < int n \<and>
        0 \<le> eright (pool ! n) \<and> eright (pool ! n) < int n))"

lemma edges_down_tree:
  assumes "edges_down pool" "in_pool pool n"
  shows "\<exists>t. is_tree pool n t"
  using assms(2)
proof (induction "nat n" arbitrary: n rule: less_induct)
  case less
  let ?nd = "node_at pool n"
  have n: "nat n < length pool" "?nd = pool ! nat n" using less.prems by (auto simp: in_pool_def node_at_def)
  have child: "\<exists>t. is_tree pool m t" if "0 \<le> m" "m < n" for m
    using less.hyps [of m] that less.prems by (auto simp: in_pool_def)
  show ?case
  proof (cases "ekind ?nd")
    case EXPR_NEGATE
    then have "0 \<le> eleft ?nd" "eleft ?nd < n" using assms(1) n less.prems by (auto simp: edges_down_def in_pool_def)
    then obtain t where "is_tree pool (eleft ?nd) t" using child by blast
    then show ?thesis using EXPR_NEGATE less.prems by (intro exI [of _ "Neg t"]) simp
  next
    case EXPR_BINARY
    then have "0 \<le> eleft ?nd" "eleft ?nd < n" "0 \<le> eright ?nd" "eright ?nd < n"
      using assms(1) n less.prems by (auto simp: edges_down_def in_pool_def)
    then obtain a b where "is_tree pool (eleft ?nd) a" "is_tree pool (eright ?nd) b" using child by blast
    then show ?thesis using EXPR_BINARY less.prems by (intro exI [of _ "Bin (eop ?nd) a b"]) simp
  qed (use less.prems in \<open>auto intro!: exI [of _ "Leaf ?nd"]\<close>)
qed

subsection \<open>Meaning\<close>

fun eval_tree :: "etree \<Rightarrow> row \<Rightarrow> error + Value" where
  "eval_tree (Leaf nd) r =
     (if ekind nd = EXPR_LITERAL then Inr (eliteral nd)
      else if eslot nd < 0 \<or> eslot nd \<ge> int MAX_COLS then Inl ERROR_SEMANTIC_COLUMN_NOT_FOUND
      else Inr (rvals r ! nat (eslot nd)))"
| "eval_tree (Neg t) r = (case eval_tree t r of Inl e \<Rightarrow> Inl e | Inr v \<Rightarrow> negate_value v)"
| "eval_tree (Bin op a b) r =
     (case eval_tree a r of Inl e \<Rightarrow> Inl e
      | Inr v \<Rightarrow> (case eval_tree b r of Inl e \<Rightarrow> Inl e | Inr w \<Rightarrow> combine_values op v w))"

fun type_tree :: "etree \<Rightarrow> error + coltype" where
  "type_tree (Leaf nd) = Inr (etype nd)"
| "type_tree (Neg t) = (case type_tree t of Inl e \<Rightarrow> Inl e
     | Inr ty \<Rightarrow> if numeric ty then Inr ty else Inl ERROR_SEMANTIC_TYPE_MISMATCH)"
| "type_tree (Bin op a b) = (case type_tree a of Inl e \<Rightarrow> Inl e
     | Inr s \<Rightarrow> (case type_tree b of Inl e \<Rightarrow> Inl e
        | Inr t \<Rightarrow> if \<not> numeric s \<or> \<not> numeric t then Inl ERROR_SEMANTIC_TYPE_MISMATCH
                  else Inr (if s = TYPE_FLOAT \<or> t = TYPE_FLOAT then TYPE_FLOAT else TYPE_INT)))"

fun deepest_tree :: "etree \<Rightarrow> int" where
  "deepest_tree (Leaf nd) = (if ekind nd = EXPR_COLUMN then eslot nd else -1)"
| "deepest_tree (Neg t) = deepest_tree t"
| "deepest_tree (Bin op a b) = max (deepest_tree a) (deepest_tree b)"

lemma exprEvaluate_tree: "is_tree pool n t \<Longrightarrow> exprEvaluate pool n r = Some (eval_tree t r)"
proof (induction t arbitrary: n)
  case (Leaf nd)
  then show ?case by (auto simp: exprEvaluate.simps [of pool n])
next
  case (Neg t)
  then show ?case by (simp add: exprEvaluate.simps [of pool n] Let_def)
next
  case (Bin op a b)
  then show ?case by (simp add: exprEvaluate.simps [of pool n] Let_def split: sum.split)
qed

lemma exprType_tree: "is_tree pool n t \<Longrightarrow> exprType pool n = Some (type_tree t)"
proof (induction t arbitrary: n)
  case (Leaf nd)
  then show ?case by (auto simp: exprType.simps [of pool n] Let_def)
next
  case (Neg t)
  then show ?case by (simp add: exprType.simps [of pool n] Let_def)
next
  case (Bin op a b)
  then show ?case by (simp add: exprType.simps [of pool n] Let_def split: sum.split)
qed

lemma exprDeepest_tree: "is_tree pool n t \<Longrightarrow> exprDeepest pool n = Some (deepest_tree t)"
proof (induction t arbitrary: n)
  case (Leaf nd)
  then show ?case by (auto simp: exprDeepest.simps [of pool n] Let_def)
next
  case (Neg t)
  then show ?case by (simp add: exprDeepest.simps [of pool n] Let_def)
next
  case (Bin op a b)
  then show ?case by (simp add: exprDeepest.simps [of pool n] Let_def max_def)
qed

subsection \<open>Binding\<close>

definition bind_node :: "table \<Rightarrow> exprnode \<Rightarrow> exprnode" where
  "bind_node tb nd =
     (case ekind nd of
        EXPR_COLUMN \<Rightarrow>
          (let slot = findColumn tb (ecolumn nd)
           in if slot < 0 then nd\<lparr>eslot := slot\<rparr> else nd\<lparr>eslot := slot, etype := ctype (tcols tb ! nat slot)\<rparr>)
      | EXPR_LITERAL \<Rightarrow> nd\<lparr>etype := vtype (eliteral nd)\<rparr>
      | _ \<Rightarrow> nd)"

lemma bind_node_same [simp]: "ekind (bind_node tb nd) = ekind nd" "eleft (bind_node tb nd) = eleft nd"
  "eright (bind_node tb nd) = eright nd" "eop (bind_node tb nd) = eop nd" "ecolumn (bind_node tb nd) = ecolumn nd"
  "eliteral (bind_node tb nd) = eliteral nd" "bind_node tb (bind_node tb nd) = bind_node tb nd"
  by (auto simp: bind_node_def Let_def split: exprkind.splits)

lemma bind_node_inner: "ekind nd \<in> {EXPR_NEGATE, EXPR_BINARY} \<Longrightarrow> bind_node tb nd = nd"
  by (auto simp: bind_node_def)

definition partly_bound :: "table \<Rightarrow> exprpool \<Rightarrow> exprpool \<Rightarrow> bool" where
  "partly_bound tb pool pool' \<longleftrightarrow> length pool' = length pool \<and>
     (\<forall>m < length pool. pool' ! m = pool ! m \<or> pool' ! m = bind_node tb (pool ! m))"

lemma partly_bound_refl [simp]: "partly_bound tb pool pool" by (simp add: partly_bound_def)

lemma partly_bound_trans: "partly_bound tb p q \<Longrightarrow> partly_bound tb q r \<Longrightarrow> partly_bound tb p r"
  unfolding partly_bound_def by (metis bind_node_same(7))

lemma partly_bound_node:
  assumes "partly_bound tb p q" "in_pool p n"
  shows "in_pool q n" "node_at q n = node_at p n \<or> node_at q n = bind_node tb (node_at p n)"
proof -
  have "nat n < length p" using assms(2) by (auto simp: in_pool_def)
  then show "node_at q n = node_at p n \<or> node_at q n = bind_node tb (node_at p n)"
    using assms(1) by (simp add: partly_bound_def node_at_def)
qed (use assms in \<open>simp add: partly_bound_def in_pool_def\<close>)

text \<open>Every leaf of the tree knows its column's position and type.\<close>

fun tree_bound :: "table \<Rightarrow> etree \<Rightarrow> bool" where
  "tree_bound tb (Leaf nd) \<longleftrightarrow> bind_node tb nd = nd \<and> (ekind nd = EXPR_COLUMN \<longrightarrow> 0 \<le> eslot nd)"
| "tree_bound tb (Neg t) \<longleftrightarrow> tree_bound tb t"
| "tree_bound tb (Bin op a b) \<longleftrightarrow> tree_bound tb a \<and> tree_bound tb b"

text \<open>Two trees that differ only in what binding writes.\<close>

fun like_tree :: "table \<Rightarrow> etree \<Rightarrow> etree \<Rightarrow> bool" where
  "like_tree tb (Leaf nd) t' \<longleftrightarrow> t' = Leaf nd \<or> t' = Leaf (bind_node tb nd)"
| "like_tree tb (Neg t) t' \<longleftrightarrow> (\<exists>u. t' = Neg u \<and> like_tree tb t u)"
| "like_tree tb (Bin op a b) t' \<longleftrightarrow> (\<exists>u v. t' = Bin op u v \<and> like_tree tb a u \<and> like_tree tb b v)"

lemma like_tree_refl [simp]: "like_tree tb t t" by (induction t) auto

lemma like_tree_trans: "like_tree tb s t \<Longrightarrow> like_tree tb t u \<Longrightarrow> like_tree tb s u"
  by (induction s arbitrary: t u) auto

lemma partly_bound_tree:
  assumes "partly_bound tb p q" "is_tree p n t"
  shows "\<exists>t'. is_tree q n t' \<and> like_tree tb t t'"
  using assms(2)
proof (induction t arbitrary: n)
  case (Leaf nd)
  then have nd: "in_pool p n" "node_at p n = nd" "ekind nd \<in> {EXPR_COLUMN, EXPR_LITERAL}" by auto
  then have "is_tree q n (Leaf (node_at q n))" "node_at q n = nd \<or> node_at q n = bind_node tb nd"
    using partly_bound_node [OF assms(1) nd(1)] by auto
  then have "is_tree q n (Leaf (node_at q n)) \<and> like_tree tb (Leaf nd) (Leaf (node_at q n))" by auto
  then show ?case by blast
next
  case (Neg t)
  then have n: "in_pool p n" "ekind (node_at p n) = EXPR_NEGATE" "is_tree p (eleft (node_at p n)) t" by auto
  then have "in_pool q n" "node_at q n = node_at p n"
    using partly_bound_node [OF assms(1) n(1)] bind_node_inner [of "node_at p n" tb] by auto
  then show ?case using Neg.IH [OF n(3)] n(2) by (metis is_tree.simps(2) like_tree.simps(2))
next
  case (Bin op a b)
  then have n: "in_pool p n" "ekind (node_at p n) = EXPR_BINARY" "eop (node_at p n) = op"
    "is_tree p (eleft (node_at p n)) a" "is_tree p (eright (node_at p n)) b" by auto
  then have "in_pool q n" "node_at q n = node_at p n"
    using partly_bound_node [OF assms(1) n(1)] bind_node_inner [of "node_at p n" tb] by auto
  then show ?case using Bin.IH(1) [OF n(4)] Bin.IH(2) [OF n(5)] n(2,3) by (metis is_tree.simps(3) like_tree.simps(3))
qed

lemma tree_bound_stays: "tree_bound tb t \<Longrightarrow> like_tree tb t t' \<Longrightarrow> t' = t"
  by (induction t arbitrary: t') auto

lemma set_node_bound: "in_pool p n \<Longrightarrow> partly_bound tb p (set_node n (bind_node tb (node_at p n)) p)"
  by (auto simp: partly_bound_def set_node_def node_at_def in_pool_def nth_list_update)

definition unresolved_errors :: "error set" where
  "unresolved_errors = {ERROR_SEMANTIC_AMBIGUOUS_COLUMN, ERROR_SEMANTIC_COLUMN_NOT_FOUND}"

definition resolves :: "table \<Rightarrow> etree \<Rightarrow> exprpool \<Rightarrow> int \<Rightarrow> (error + unit) \<times> exprpool \<times> string \<Rightarrow> bool" where
  "resolves tb t pool n = (\<lambda>(res, pool', unres').
     partly_bound tb pool pool' \<and>
     (case res of Inr _ \<Rightarrow> \<exists>t'. is_tree pool' n t' \<and> like_tree tb t t' \<and> tree_bound tb t'
      | Inl e \<Rightarrow> e \<in> unresolved_errors))"

lemma exprResolve_tree:
  "like_tree tb t s \<Longrightarrow> is_tree pool n s \<Longrightarrow> \<exists>x. exprResolve tb pool n unres = Some x \<and> resolves tb t pool n x"
proof (induction t arbitrary: s pool n unres)
  case (Leaf nd0)
  then obtain nd where nd: "in_pool pool n" "node_at pool n = nd" "ekind nd \<in> {EXPR_COLUMN, EXPR_LITERAL}"
    "bind_node tb nd = bind_node tb nd0" by auto
  let ?q = "set_node n (bind_node tb nd) pool"
  have q: "partly_bound tb pool ?q" using set_node_bound [OF nd(1), of tb] nd(2) by simp
  have "in_pool ?q n" "node_at ?q n = bind_node tb nd" using nd(1) by (auto simp: in_pool_def node_at_def set_node_def)
  then have leaf: "is_tree ?q n (Leaf (bind_node tb nd))" using nd(3) by auto
  show ?case
  proof (cases "ekind nd = EXPR_LITERAL")
    case True
    then have "exprResolve tb pool n unres = Some (Inr (), ?q, unres)"
      using nd by (simp add: exprResolve.simps [of tb pool n] Let_def bind_node_def)
    moreover have "tree_bound tb (Leaf (bind_node tb nd))" using True by simp
    ultimately show ?thesis using q leaf nd(4) by (auto simp: resolves_def simp del: is_tree.simps tree_bound.simps)
  next
    case False
    then have col: "ekind nd = EXPR_COLUMN" using nd(3) by auto
    let ?slot = "findColumn tb (ecolumn nd)"
    have run: "exprResolve tb pool n unres = Some (resolve_column tb pool n unres)"
      using nd col by (simp add: exprResolve.simps [of tb pool n] Let_def)
    show ?thesis
    proof (cases "?slot < 0")
      case True
      then show ?thesis
        using run q nd(2) col
        by (auto simp: resolve_column_def Let_def bind_node_def resolves_def unresolved_errors_def)
    next
      case False
      then have "resolve_column tb pool n unres = (Inr (), ?q, unres)"
        using nd(2) col by (simp add: resolve_column_def Let_def bind_node_def set_node_def COLUMN_AMBIGUOUS_def)
      moreover have "tree_bound tb (Leaf (bind_node tb nd))" using False col by (simp add: bind_node_def Let_def)
      ultimately show ?thesis
        using run q leaf nd(4) by (auto simp: resolves_def simp del: is_tree.simps tree_bound.simps)
    qed
  qed
next
  case (Neg t)
  then obtain u where n: "in_pool pool n" "ekind (node_at pool n) = EXPR_NEGATE" "like_tree tb t u"
    "is_tree pool (eleft (node_at pool n)) u" by auto
  from Neg.IH [OF n(3,4), of unres] obtain res pool' unres' where ih:
    "exprResolve tb pool (eleft (node_at pool n)) unres = Some (res, pool', unres')"
    "resolves tb t pool (eleft (node_at pool n)) (res, pool', unres')" by (metis prod_cases3)
  have run: "exprResolve tb pool n unres = Some (res, pool', unres')"
    using n ih(1) by (simp add: exprResolve.simps [of tb pool n] Let_def)
  have part: "partly_bound tb pool pool'" using ih(2) by (simp add: resolves_def)
  have same: "in_pool pool' n" "node_at pool' n = node_at pool n"
    using partly_bound_node [OF part n(1)] bind_node_inner [of "node_at pool n" tb] n(2) by auto
  show ?case
  proof (cases res)
    case (Inr u)
    with ih(2) obtain t' where "is_tree pool' (eleft (node_at pool n)) t'" "like_tree tb t t'" "tree_bound tb t'"
      by (auto simp: resolves_def)
    then have "is_tree pool' n (Neg t') \<and> like_tree tb (Neg t) (Neg t') \<and> tree_bound tb (Neg t')"
      using same n(2) by simp
    then show ?thesis
      using run part Inr by (auto simp: resolves_def simp del: is_tree.simps like_tree.simps tree_bound.simps)
  qed (use run ih in \<open>simp add: resolves_def\<close>)
next
  case (Bin op a b)
  let ?nd = "node_at pool n"
  obtain u v where n: "in_pool pool n" "ekind ?nd = EXPR_BINARY" "eop ?nd = op" "like_tree tb a u" "like_tree tb b v"
    "is_tree pool (eleft ?nd) u" "is_tree pool (eright ?nd) v"
    using Bin.prems by auto
  from Bin.IH(1) [OF n(4,6), of unres] obtain r1 p1 u1 where one:
    "exprResolve tb pool (eleft ?nd) unres = Some (r1, p1, u1)" "resolves tb a pool (eleft ?nd) (r1, p1, u1)"
    by (metis prod_cases3)
  have part: "partly_bound tb pool p1" using one(2) by (simp add: resolves_def)
  have s1: "in_pool p1 n" "node_at p1 n = ?nd"
    using partly_bound_node [OF part n(1)] bind_node_inner [of ?nd tb] n(2) by auto
  show ?case
  proof (cases r1)
    case (Inl e)
    then show ?thesis using n one by (simp add: exprResolve.simps [of tb pool n] Let_def resolves_def)
  next
    case (Inr w)
    with one(2) obtain a1 where a1: "is_tree p1 (eleft ?nd) a1" "like_tree tb a a1" "tree_bound tb a1"
      by (auto simp: resolves_def)
    obtain b1 where b1: "is_tree p1 (eright ?nd) b1" "like_tree tb v b1" using partly_bound_tree [OF part n(7)] by blast
    from Bin.IH(2) [OF like_tree_trans [OF n(5) b1(2)] b1(1), of u1] obtain r2 p2 u2 where two:
      "exprResolve tb p1 (eright ?nd) u1 = Some (r2, p2, u2)" "resolves tb b p1 (eright ?nd) (r2, p2, u2)"
      by (metis prod_cases3)
    have run: "exprResolve tb pool n unres = Some (r2, p2, u2)"
      using n one(1) two(1) s1 Inr by (simp add: exprResolve.simps [of tb pool n] Let_def)
    have part2: "partly_bound tb p1 p2" using two(2) by (simp add: resolves_def)
    have s2: "in_pool p2 n" "node_at p2 n = ?nd"
      using partly_bound_node [OF part2 s1(1)] bind_node_inner [of ?nd tb] n(2) s1(2) by auto
    obtain a2 where "is_tree p2 (eleft ?nd) a2" "like_tree tb a1 a2" using partly_bound_tree [OF part2 a1(1)] by blast
    with tree_bound_stays [OF a1(3)] have a2: "is_tree p2 (eleft ?nd) a1" by blast
    show ?thesis
    proof (cases r2)
      case (Inr x)
      with two(2) obtain b2 where "is_tree p2 (eright ?nd) b2" "like_tree tb b b2" "tree_bound tb b2"
        by (auto simp: resolves_def)
      then have "is_tree p2 n (Bin op a1 b2) \<and> like_tree tb (Bin op a b) (Bin op a1 b2) \<and> tree_bound tb (Bin op a1 b2)"
        using a1 a2 s2 n(2,3) by simp
      then show ?thesis
        using run Inr partly_bound_trans [OF part part2]
        by (auto simp: resolves_def simp del: is_tree.simps like_tree.simps tree_bound.simps)
    qed (use run two(2) partly_bound_trans [OF part part2] in \<open>simp add: resolves_def\<close>)
  qed
qed


subsection \<open>Types\<close>

text \<open>A row as the table stores it: every column holds null or a value of its type.\<close>

definition row_fits :: "table \<Rightarrow> row \<Rightarrow> bool" where
  "row_fits tb r \<longleftrightarrow> length (tcols tb) \<le> MAX_COLS \<and> length (rvals r) = MAX_COLS \<and>
     (\<forall>c < length (tcols tb). isNull (rvals r ! c) \<or> vtype (rvals r ! c) = ctype (tcols tb ! c))"

fun real_mod :: "etree \<Rightarrow> bool" where
  "real_mod (Leaf nd) \<longleftrightarrow> False"
| "real_mod (Neg t) \<longleftrightarrow> real_mod t"
| "real_mod (Bin op a b) \<longleftrightarrow> (op = ARITH_MOD \<and> type_tree (Bin op a b) = Inr TYPE_FLOAT) \<or> real_mod a \<or> real_mod b"

definition arith_errors :: "error set" where
  "arith_errors = {ERROR_EXEC_DIVIDE_BY_ZERO, ERROR_VALUE_OUT_OF_RANGE}"

definition value_fits :: "coltype \<Rightarrow> Value \<Rightarrow> bool" where
  "value_fits t v \<longleftrightarrow> isNull v \<or> vtype v = t"

definition result_fits :: "coltype \<Rightarrow> bool \<Rightarrow> error + Value \<Rightarrow> bool" where
  "result_fits t m res \<longleftrightarrow>
     (case res of Inr v \<Rightarrow> value_fits t v
      | Inl e \<Rightarrow> e \<in> arith_errors \<or> (m \<and> e = ERROR_SEMANTIC_TYPE_MISMATCH))"

lemma int_result_fits: "result_fits TYPE_INT m (int_result n)"
  by (simp add: int_result_def result_fits_def value_fits_def arith_errors_def)

lemma applyInts_fits: "result_fits TYPE_INT m (applyInts op a b)"
  using int_result_fits by (auto simp: applyInts_def result_fits_def arith_errors_def split: arithop.splits)

lemma applyReals_fits: "result_fits TYPE_FLOAT (op = ARITH_MOD) (applyReals op a b)"
  by (auto simp: applyReals_def result_fits_def value_fits_def arith_errors_def setFloat_def split: arithop.splits)

lemma negate_fits:
  assumes "value_fits t v" "numeric t"
  shows "result_fits t m (negate_value v)"
  using assms applyInts_fits [of m ARITH_SUB 0 "sint (intValue v)"]
  by (auto simp: negate_value_def numeric_def result_fits_def value_fits_def setFloat_def split: sum.splits)

lemma combine_fits:
  assumes "value_fits s v" "value_fits t w" "numeric s" "numeric t"
  shows "result_fits (if s = TYPE_FLOAT \<or> t = TYPE_FLOAT then TYPE_FLOAT else TYPE_INT)
    (op = ARITH_MOD \<and> (s = TYPE_FLOAT \<or> t = TYPE_FLOAT)) (combine_values op v w)"
proof (cases "isNull v \<or> isNull w")
  case True
  then show ?thesis by (simp add: combine_values_def result_fits_def value_fits_def setNull_def)
next
  case False
  then have ty: "vtype v = s" "vtype w = t" using assms(1,2) by (auto simp: value_fits_def)
  show ?thesis
  proof (cases "s = TYPE_FLOAT \<or> t = TYPE_FLOAT")
    case True
    then have "combine_values op v w = applyReals op (asReal v) (asReal w)"
      using False ty assms(3,4) by (auto simp: combine_values_def)
    then show ?thesis using applyReals_fits [of op "asReal v" "asReal w"] True by auto
  next
    case no: False
    then have "combine_values op v w = applyInts op (sint (intValue v)) (sint (intValue w))"
      using False ty assms(3,4) by (auto simp: combine_values_def)
    then show ?thesis using applyInts_fits no by auto
  qed
qed

lemma eval_tree_fits:
  "tree_bound tb t \<Longrightarrow> row_fits tb r \<Longrightarrow> is_tree pool n t \<Longrightarrow> type_tree t = Inr ty \<Longrightarrow>
   result_fits ty (real_mod t) (eval_tree t r)"
proof (induction t arbitrary: n ty)
  case (Leaf nd)
  then have kind: "ekind nd \<in> {EXPR_COLUMN, EXPR_LITERAL}" and ty: "ty = etype nd" by auto
  show ?case
  proof (cases "ekind nd = EXPR_LITERAL")
    case True
    have "bind_node tb nd = nd" using Leaf.prems(1) by simp
    then have "nd\<lparr>etype := vtype (eliteral nd)\<rparr> = nd" using True by (simp add: bind_node_def)
    then have "etype nd = vtype (eliteral nd)" by (metis exprnode.select_convs(8) exprnode.surjective exprnode.update_convs(8))
    then show ?thesis using True ty by (simp add: result_fits_def value_fits_def)
  next
    case False
    then have col: "ekind nd = EXPR_COLUMN" using kind by auto
    let ?slot = "findColumn tb (ecolumn nd)"
    have "bind_node tb nd = nd" "0 \<le> eslot nd" using Leaf.prems(1) col by auto
    then have b: "(if ?slot < 0 then nd\<lparr>eslot := ?slot\<rparr> else nd\<lparr>eslot := ?slot, etype := ctype (tcols tb ! nat ?slot)\<rparr>) = nd"
      using col by (simp add: bind_node_def Let_def)
    then have "eslot nd = ?slot" by (metis exprnode.select_convs(7) exprnode.surjective exprnode.update_convs(7,8))
    with \<open>0 \<le> eslot nd\<close> b have "etype nd = ctype (tcols tb ! nat ?slot)"
      by (metis exprnode.select_convs(8) exprnode.surjective exprnode.update_convs(7,8) not_less)
    moreover have "?slot < int (length (tcols tb))"
      using findColumn_range [of tb "ecolumn nd"] \<open>0 \<le> eslot nd\<close> \<open>eslot nd = ?slot\<close> by (auto simp: COLUMN_AMBIGUOUS_def)
    ultimately show ?thesis
      using False ty \<open>0 \<le> eslot nd\<close> \<open>eslot nd = ?slot\<close> Leaf.prems(2)
      by (auto simp: result_fits_def value_fits_def row_fits_def)
  qed
next
  case (Neg t)
  then obtain s where s: "type_tree t = Inr s" "numeric s" "ty = s" by (auto split: sum.splits if_splits)
  have "result_fits s (real_mod t) (eval_tree t r)"
    by (rule Neg.IH) (use Neg.prems s in auto)
  then show ?case
    using negate_fits [OF _ s(2), of _ "real_mod t"] s(3) by (cases "eval_tree t r") (simp_all add: result_fits_def)
next
  case (Bin op a b)
  then obtain s t where st: "type_tree a = Inr s" "type_tree b = Inr t" "numeric s" "numeric t"
    "ty = (if s = TYPE_FLOAT \<or> t = TYPE_FLOAT then TYPE_FLOAT else TYPE_INT)"
    by (auto split: sum.splits if_splits)
  have a: "result_fits s (real_mod a) (eval_tree a r)" by (rule Bin.IH(1)) (use Bin.prems st in auto)
  have b: "result_fits t (real_mod b) (eval_tree b r)" by (rule Bin.IH(2)) (use Bin.prems st in auto)
  show ?case
  proof (cases "eval_tree a r")
    case (Inl e)
    then show ?thesis using a by (auto simp: result_fits_def)
  next
    case v: (Inr v)
    show ?thesis
    proof (cases "eval_tree b r")
      case (Inl e)
      then show ?thesis using b v by (auto simp: result_fits_def)
    next
      case (Inr w)
      have "result_fits ty (op = ARITH_MOD \<and> (s = TYPE_FLOAT \<or> t = TYPE_FLOAT)) (combine_values op v w)"
        using combine_fits [of s v t w op] a b v Inr st by (simp add: result_fits_def)
      then show ?thesis using v Inr st by (auto simp: result_fits_def split: sum.splits)
    qed
  qed
qed


subsection \<open>Properties\<close>


text \<open>
  C18: a typed expression yields its type. When \<open>exprResolve\<close> has bound the tree to a table and
  \<open>exprType\<close> gives it a type, evaluating it on a row of the table gives null or a value of that
  type, or divides by zero or overflows; the one type error left is a remainder of reals, which
  \<open>exprType\<close> accepts and \<open>applyReals\<close> refuses.
\<close>
theorem expr_type_sound:
  assumes "exprResolve tb pool n unres = Some (Inr (), pool', unres')" "is_tree pool n t"
    and "exprType pool' n = Some (Inr ty)" "row_fits tb r"
  shows "\<exists>t' res. is_tree pool' n t' \<and> exprEvaluate pool' n r = Some res \<and>
    (case res of Inr v \<Rightarrow> isNull v \<or> vtype v = ty
     | Inl e \<Rightarrow> e \<in> {ERROR_EXEC_DIVIDE_BY_ZERO, ERROR_VALUE_OUT_OF_RANGE} \<or>
               (real_mod t' \<and> e = ERROR_SEMANTIC_TYPE_MISMATCH))"
proof -
  have "resolves tb t pool n (Inr (), pool', unres')"
    using exprResolve_tree [OF like_tree_refl assms(2), of tb unres] assms(1) by auto
  then obtain t' where t': "is_tree pool' n t'" "tree_bound tb t'" by (auto simp: resolves_def)
  have "type_tree t' = Inr ty" using exprType_tree [OF t'(1)] assms(3) by simp
  from eval_tree_fits [OF t'(2) assms(4) t'(1) this]
  show ?thesis
    using t'(1) exprEvaluate_tree [OF t'(1), of r]
    by (auto simp: result_fits_def value_fits_def arith_errors_def split: sum.splits)
qed

text \<open>
  \<open>exprDeepest\<close> is deep enough. Two rows that agree on the columns up to it give the same
  value, so a scan may decode a record that far and no further.
\<close>
theorem expr_deepest_enough:
  assumes "is_tree pool n t" "exprDeepest pool n = Some d"
    and "\<And>c. int c \<le> d \<Longrightarrow> rvals r ! c = rvals s ! c"
  shows "exprEvaluate pool n r = exprEvaluate pool n s"
proof -
  have "eval_tree t r = eval_tree t s" if "is_tree pool n t" "deepest_tree t \<le> d" for t n
    using that
  proof (induction t arbitrary: n)
    case (Leaf nd)
    then show ?case using assms(3) [of "nat (eslot nd)"] by auto
  next
    case (Bin op a b)
    then have "eval_tree a r = eval_tree a s" "eval_tree b r = eval_tree b s" by auto
    then show ?case by (simp split: sum.split)
  qed auto
  moreover have "deepest_tree t = d" using exprDeepest_tree [OF assms(1)] assms(2) by simp
  ultimately show ?thesis using exprEvaluate_tree [OF assms(1)] assms(1) by simp
qed

text \<open>The exact result of an operation on ints, none when it divides by zero.\<close>

definition exact :: "arithop \<Rightarrow> int \<Rightarrow> int \<Rightarrow> int option" where
  "exact op a b =
     (case op of ARITH_ADD \<Rightarrow> Some (a + b) | ARITH_SUB \<Rightarrow> Some (a - b) | ARITH_MUL \<Rightarrow> Some (a * b)
      | ARITH_DIV \<Rightarrow> if b = 0 then None else Some (c_div a b)
      | ARITH_MOD \<Rightarrow> if b = 0 then None else Some (c_mod a b))"

lemma sint_of_int_range: "INT_MIN \<le> n \<Longrightarrow> n \<le> INT_MAX \<Longrightarrow> sint (of_int n :: i32) = n"
proof -
  assume n: "INT_MIN \<le> n" "n \<le> INT_MAX"
  have "signed_take_bit 31 n = n"
    by (rule signed_take_bit_int_eq_self) (use n in \<open>simp_all add: INT_MIN_def INT_MAX_def\<close>)
  then show "sint (of_int n :: i32) = n" by (simp add: signed_of_int)
qed

text \<open>
  Integer arithmetic is exact or an error. \<open>applyInts\<close> on two ints returns their exact result
  when it is an int, reports a division by zero exactly when there is one, and is out of range
  otherwise; the least int modulo -1, whose remainder 0 is an int, is reported out of range too.
\<close>
theorem int_arithmetic_exact:
  "applyInts op a b =
     (case exact op a b of
        None \<Rightarrow> Inl ERROR_EXEC_DIVIDE_BY_ZERO
      | Some n \<Rightarrow> if INT_MIN \<le> n \<and> n \<le> INT_MAX \<and> \<not> (op = ARITH_MOD \<and> a = INT_MIN \<and> b = -1)
                 then Inr (blank_value\<lparr>vtype := TYPE_INT, intValue := of_int n\<rparr>)
                 else Inl ERROR_VALUE_OUT_OF_RANGE) \<and>
   (INT_MIN \<le> n \<and> n \<le> INT_MAX \<longrightarrow> sint (of_int n :: i32) = n)"
proof
  have "c_div INT_MIN (-1) = 2 ^ 31" by (simp add: c_div_def INT_MIN_def)
  then show "applyInts op a b =
     (case exact op a b of
        None \<Rightarrow> Inl ERROR_EXEC_DIVIDE_BY_ZERO
      | Some n \<Rightarrow> if INT_MIN \<le> n \<and> n \<le> INT_MAX \<and> \<not> (op = ARITH_MOD \<and> a = INT_MIN \<and> b = -1)
                 then Inr (blank_value\<lparr>vtype := TYPE_INT, intValue := of_int n\<rparr>)
                 else Inl ERROR_VALUE_OUT_OF_RANGE)"
    by (cases op) (auto simp: applyInts_def exact_def int_result_def INT_MAX_def not_less not_le)
  show "INT_MIN \<le> n \<and> n \<le> INT_MAX \<longrightarrow> sint (of_int n :: i32) = n" using sint_of_int_range by blast
qed

subsection \<open>Witnesses\<close>

text \<open>\<open>a * -2\<close> over a table with the column \<open>a\<close>.\<close>

definition demo_table :: table where
  "demo_table = \<lparr>tname = ''t'', tcols = [blank_column\<lparr>cname := ''a''\<rparr>], tcheck = None\<rparr>"

definition demo_pool_of :: "coltype \<Rightarrow> int \<Rightarrow> exprpool" where
  "demo_pool_of ty slot =
     [(blank_node EXPR_COLUMN)\<lparr>ecolumn := ''A'', eslot := slot\<rparr>,
      (blank_node EXPR_LITERAL)\<lparr>eliteral := blank_value\<lparr>intValue := 2\<rparr>\<rparr>,
      (blank_node EXPR_NEGATE)\<lparr>eleft := 1\<rparr>,
      (blank_node EXPR_BINARY)\<lparr>eop := ARITH_MUL, eleft := 0, eright := 2\<rparr>]"

definition demo_tree :: "int \<Rightarrow> etree" where
  "demo_tree slot = Bin ARITH_MUL (Leaf ((blank_node EXPR_COLUMN)\<lparr>ecolumn := ''A'', eslot := slot\<rparr>))
     (Neg (Leaf ((blank_node EXPR_LITERAL)\<lparr>eliteral := blank_value\<lparr>intValue := 2\<rparr>\<rparr>)))"

definition demo_row7 :: row where
  "demo_row7 = \<lparr>rvals = blank_value\<lparr>intValue := 7\<rparr> # replicate 15 blank_value, ncols = 1, deleted = False\<rparr>"

lemma demo_is_tree: "is_tree (demo_pool_of TYPE_INT slot) 3 (demo_tree slot)"
  by (simp add: demo_pool_of_def demo_tree_def in_pool_def node_at_def blank_node_def)

lemma demo_edges: "edges_down (demo_pool_of TYPE_INT slot)"
  by (auto simp: edges_down_def demo_pool_of_def blank_node_def less_Suc_eq)


lemma demo_find: "findColumn demo_table ''A'' = 0"
  by code_simp

lemma demo_resolve: "exprResolve demo_table (demo_pool_of TYPE_INT (-1)) 3 [] = Some (Inr (), demo_pool_of TYPE_INT 0, [])"
proof -
  have ty: "ctype (tcols demo_table ! 0) = TYPE_INT" by (simp add: demo_table_def blank_column_def)
  show ?thesis
    by (simp add: exprResolve.simps demo_pool_of_def in_pool_def node_at_def blank_node_def resolve_column_def
        demo_find ty Let_def set_node_def COLUMN_AMBIGUOUS_def blank_value_def)
qed

lemma demo_fits: "row_fits demo_table demo_row7"
  by (simp add: row_fits_def demo_table_def demo_row7_def MAX_COLS_def blank_column_def blank_value_def)

theorem expr_type_sound_witness:
  "\<exists>t' res. is_tree (demo_pool_of TYPE_INT 0) 3 t' \<and> exprEvaluate (demo_pool_of TYPE_INT 0) 3 demo_row7 = Some res \<and>
    (case res of Inr v \<Rightarrow> isNull v \<or> vtype v = TYPE_INT
     | Inl e \<Rightarrow> e \<in> {ERROR_EXEC_DIVIDE_BY_ZERO, ERROR_VALUE_OUT_OF_RANGE} \<or>
               (real_mod t' \<and> e = ERROR_SEMANTIC_TYPE_MISMATCH))"
proof -
  have "exprType (demo_pool_of TYPE_INT 0) 3 = Some (Inr TYPE_INT)"
    unfolding exprType_tree [OF demo_is_tree] by (simp add: demo_tree_def blank_node_def numeric_def)
  from expr_type_sound [OF demo_resolve demo_is_tree this demo_fits] show ?thesis .
qed

theorem expr_deepest_enough_witness:
  "exprEvaluate (demo_pool_of TYPE_INT 0) 3 demo_row7 =
   exprEvaluate (demo_pool_of TYPE_INT 0) 3 (demo_row7\<lparr>rvals := (rvals demo_row7)[4 := setFloat 1]\<rparr>)"
proof (rule expr_deepest_enough [OF demo_is_tree])
  show "exprDeepest (demo_pool_of TYPE_INT 0) 3 = Some 0"
    unfolding exprDeepest_tree [OF demo_is_tree] by (simp add: demo_tree_def blank_node_def)
qed simp

theorem int_arithmetic_exact_witness:
  "applyInts ARITH_MUL 65536 32768 = Inl ERROR_VALUE_OUT_OF_RANGE \<and> sint (of_int (-7) :: i32) = -7"
  using int_arithmetic_exact [of ARITH_MUL 65536 32768 "-7"] by (simp add: exact_def INT_MIN_def INT_MAX_def)

end
