(* ===== verification/Catalog.thy ===== *)
theory Catalog
  imports ExprTree
begin

text \<open>
  The catalog, \<^verbatim>\<open>02_catalog.c\<close>: per database a hash table of tables keyed by their name without
  case, the schema of a join, and dropping, renaming and listing tables. Text a table keeps is
  copied into the catalog's arena by the code; a text is a value here, so the copy is the text.
\<close>

subsection \<open>The hash table\<close>

text \<open>\<open>catalog db bucket\<close> is the chain of a bucket, newest first.\<close>

type_synonym catalog = "nat \<Rightarrow> nat \<Rightarrow> table list"

definition hashName :: "string \<Rightarrow> nat" where
  "hashName name =
     unat (foldl (\<lambda>h c. h * 33 + of_nat (of_char (to_lower c))) (5381 :: u32) name mod of_nat CATALOG_SIZE)"

definition initCatalog :: catalog where "initCatalog = (\<lambda>_ _. [])"

definition named :: "string \<Rightarrow> table \<Rightarrow> bool" where "named name t \<longleftrightarrow> stricmp (tname t) name"

definition findTable :: "nat \<Rightarrow> string \<Rightarrow> catalog \<Rightarrow> table option" where
  "findTable db name cat = List.find (named name) (cat db (hashName name))"

definition set_bucket :: "nat \<Rightarrow> nat \<Rightarrow> table list \<Rightarrow> catalog \<Rightarrow> catalog" where
  "set_bucket db b ts cat = cat(db := (cat db)(b := ts))"

definition push_table :: "nat \<Rightarrow> nat \<Rightarrow> table \<Rightarrow> catalog \<Rightarrow> catalog" where
  "push_table db b t cat = set_bucket db b (t # cat db b) cat"

text \<open>
  A CHECK is bound to its table once; the results of \<open>exprResolve\<close> are not looked at. \<open>nodeOk\<close> and
  \<open>checkOk\<close> are what \<^verbatim>\<open>malloc\<close> answers for the node and for the condition.
\<close>

fun bind_operands :: "table \<Rightarrow> conditionnode list \<Rightarrow> exprpool \<Rightarrow> string \<Rightarrow> exprpool option" where
  "bind_operands t [] pool unres = Some pool"
| "bind_operands t (nd # nds) pool unres =
     (if ckind nd = COND_COMPARE
      then do { (_, pool, unres) \<leftarrow> exprResolve t pool (pleft (ccompare nd)) unres;
                (_, pool, unres) \<leftarrow> exprResolve t pool (pright (ccompare nd)) unres;
                bind_operands t nds pool unres }
      else bind_operands t nds pool unres)"

definition addTable :: "bool \<Rightarrow> bool \<Rightarrow> nat \<Rightarrow> string \<Rightarrow> column list \<Rightarrow> condition option \<Rightarrow> catalog \<Rightarrow>
    ((error + unit) \<times> catalog) option" where
  "addTable nodeOk checkOk db name cols check cat =
     (if length cols = 0 \<or> length cols > MAX_COLS then Some (Inl ERROR_SYNTAX_TOO_MANY_COLUMNS, cat)
      else if \<not> nodeOk then Some (Inl GENERAL_ERROR, cat)
      else
        let t = \<lparr>tname = name_of name, tcols = cols, tcheck = None\<rparr>
        in case check of
             Some c \<Rightarrow>
               if \<not> present c then Some (Inr (), push_table db (hashName name) t cat)
               else if \<not> checkOk then Some (Inl ERROR_EXEC_OUT_OF_MEMORY, cat)
               else do { pool \<leftarrow> bind_operands t (cnodes c) (cexprs c) [];
                         Some (Inr (), push_table db (hashName name) (t\<lparr>tcheck := Some (c\<lparr>cexprs := pool\<rparr>)\<rparr>) cat) }
           | None \<Rightarrow> Some (Inr (), push_table db (hashName name) t cat))"

text \<open>The chain without its first table of that name.\<close>

fun unlink :: "string \<Rightarrow> table list \<Rightarrow> (table \<times> table list) option" where
  "unlink name [] = None"
| "unlink name (t # ts) =
     (if named name t then Some (t, ts)
      else case unlink name ts of None \<Rightarrow> None | Some (x, rest) \<Rightarrow> Some (x, t # rest))"

definition dropTable :: "nat \<Rightarrow> string \<Rightarrow> catalog \<Rightarrow> (error + unit) \<times> catalog" where
  "dropTable db name cat =
     (case unlink name (cat db (hashName name)) of
        None \<Rightarrow> (Inl ERROR_SEMANTIC_TABLE_NOT_FOUND, cat)
      | Some (_, rest) \<Rightarrow> (Inr (), set_bucket db (hashName name) rest cat))"

definition renameTableInCatalog :: "nat \<Rightarrow> string \<Rightarrow> string \<Rightarrow> catalog \<Rightarrow> (error + unit) \<times> catalog" where
  "renameTableInCatalog db from_name to_name cat =
     (if findTable db to_name cat \<noteq> None then (Inl ERROR_SEMANTIC_TABLE_EXISTS, cat)
      else case unlink from_name (cat db (hashName from_name)) of
             None \<Rightarrow> (Inl ERROR_SEMANTIC_TABLE_NOT_FOUND, cat)
           | Some (t, rest) \<Rightarrow>
               (Inr (), push_table db (hashName to_name) (t\<lparr>tname := name_of to_name\<rparr>)
                          (set_bucket db (hashName from_name) rest cat)))"

definition listTables :: "nat \<Rightarrow> nat \<Rightarrow> catalog \<Rightarrow> table list" where
  "listTables db limit cat = take limit (concat (map (cat db) [0..<CATALOG_SIZE]))"

definition freeCatalog :: "catalog \<Rightarrow> catalog" where
  "freeCatalog cat = (\<lambda>db b. if db < MAX_DATABASES \<and> b < CATALOG_SIZE then [] else cat db b)"

subsection \<open>The schema of a join\<close>

definition join_column :: "string \<Rightarrow> column \<Rightarrow> column" where
  "join_column alias c =
     c\<lparr>cflags := 0, hasDefault := False, cname := name_of (take (NAME_LEN div 2) alias @ CHR ''.'' # cname c)\<rparr>"

fun join_columns :: "string \<Rightarrow> column list \<Rightarrow> column list \<Rightarrow> error + column list" where
  "join_columns alias [] out = Inr out"
| "join_columns alias (c # cs) out =
     (if length out = MAX_COLS then Inl ERROR_SEMANTIC_JOIN_TOO_WIDE
      else join_columns alias cs (out @ [join_column alias c]))"

fun join_tables :: "nat \<Rightarrow> catalog \<Rightarrow> string list \<Rightarrow> (string \<times> string) list \<Rightarrow> column list \<Rightarrow> error + column list" where
  "join_tables db cat seen [] out = Inr out"
| "join_tables db cat seen ((name, alias) # rest) out =
     (if \<exists>prior \<in> set seen. stricmp prior alias then Inl ERROR_SEMANTIC_DUPLICATE_TABLE
      else case findTable db name cat of
             None \<Rightarrow> Inl ERROR_SEMANTIC_TABLE_NOT_FOUND
           | Some source \<Rightarrow>
               (case join_columns alias (tcols source) out of
                  Inl e \<Rightarrow> Inl e
                | Inr out \<Rightarrow> join_tables db cat (seen @ [alias]) rest out))"

definition buildJoinSchema :: "nat \<Rightarrow> catalog \<Rightarrow> string list \<Rightarrow> string list \<Rightarrow> error + table" where
  "buildJoinSchema db cat names aliases =
     (case join_tables db cat [] (zip names aliases) [] of
        Inl e \<Rightarrow> Inl e
      | Inr cols \<Rightarrow> Inr \<lparr>tname = JOIN_SCHEMA_NAME, tcols = cols, tcheck = None\<rparr>)"

definition joinSchemaNeeded :: "selectstatement \<Rightarrow> bool" where
  "joinSchemaNeeded s \<longleftrightarrow>
     (if length (stables s) > 1 then True else \<not> stricmp (saliases s ! 0) (stables s ! 0))"

subsection \<open>The catalog as a map\<close>

text \<open>
  Every table sits in the bucket of its name and no two of a database share a name. Then a
  database is a map from names without case to tables.
\<close>

definition lowered :: "string \<Rightarrow> string" where "lowered s = map to_lower s"

definition catalog_ok :: "catalog \<Rightarrow> bool" where
  "catalog_ok cat \<longleftrightarrow> (\<forall>db b. distinct (map (lowered \<circ> tname) (cat db b)) \<and>
     (\<forall>t \<in> set (cat db b). b = hashName (tname t) \<and> length (tname t) < NAME_LEN))"

definition cat_map :: "catalog \<Rightarrow> nat \<Rightarrow> string \<Rightarrow> table option" where
  "cat_map cat db = (\<lambda>key. List.find (\<lambda>t. lowered (tname t) = key) (concat (map (cat db) [0..<CATALOG_SIZE])))"

lemma hashName_lower: "hashName (lowered s) = hashName s"
proof -
  have "to_lower (to_lower c) = to_lower c" for c
    by (cases "is_upper c") (auto simp: to_lower_def is_upper_def)
  then have "foldl (\<lambda>h c. h * 33 + of_nat (of_char (to_lower c))) (a :: u32) (map to_lower s) =
      foldl (\<lambda>h c. h * 33 + of_nat (of_char (to_lower c))) a s" for a
    by (induction s arbitrary: a) auto
  then show ?thesis by (simp add: hashName_def lowered_def)
qed

lemma hashName_same: "stricmp a b \<Longrightarrow> hashName a = hashName b"
  using hashName_lower [of a] hashName_lower [of b] by (simp add: stricmp_def lowered_def)

lemma hashName_bucket: "hashName s < CATALOG_SIZE"
  by (simp add: hashName_def CATALOG_SIZE_def unat_mod)

lemma named_lowered: "named name t \<longleftrightarrow> lowered (tname t) = lowered name"
  by (simp add: named_def stricmp_def lowered_def)

lemma find_append: "List.find P (xs @ ys) = (case List.find P xs of Some x \<Rightarrow> Some x | None \<Rightarrow> List.find P ys)"
  by (induction xs) auto

lemma find_none: "(\<And>x. x \<in> set xs \<Longrightarrow> \<not> P x) \<Longrightarrow> List.find P xs = None"
  by (simp add: find_None_iff)

lemma find_in_bucket:
  assumes "\<And>b t. t \<in> set (f b) \<Longrightarrow> P t \<Longrightarrow> b = k" "k < n"
  shows "List.find P (concat (map f [0..<n])) = List.find P (f k)"
proof -
  have "[0..<n] = [0..<k] @ k # [Suc k..<n]" using assms(2) upt_add_eq_append [of 0 k "n - k"] upt_conv_Cons [of k n] by simp
  moreover have "List.find P (concat (map f [0..<k])) = None" by (rule find_none) (use assms(1) in fastforce)
  moreover have "List.find P (concat (map f [Suc k..<n])) = None" by (rule find_none) (use assms(1) in fastforce)
  ultimately show ?thesis by (simp add: find_append split: option.split)
qed

lemma cat_map_bucket:
  assumes "catalog_ok cat"
  shows "cat_map cat db (lowered name) = List.find (named name) (cat db (hashName name))"
proof -
  have "List.find (\<lambda>t. lowered (tname t) = lowered name) (concat (map (cat db) [0..<CATALOG_SIZE])) =
      List.find (\<lambda>t. lowered (tname t) = lowered name) (cat db (hashName name))"
  proof (rule find_in_bucket [OF _ hashName_bucket])
    fix b t assume t: "t \<in> set (cat db b)" "lowered (tname t) = lowered name"
    then have "b = hashName (tname t)" using assms by (simp add: catalog_ok_def)
    then show "b = hashName name" using t(2) hashName_same [of "tname t" name] by (simp add: stricmp_def lowered_def)
  qed
  then show ?thesis by (simp add: cat_map_def named_lowered [abs_def])
qed

lemma lowered_idem [simp]: "lowered (lowered s) = lowered s"
proof -
  have "to_lower (to_lower c) = to_lower c" for c
    by (cases "is_upper c") (auto simp: to_lower_def is_upper_def)
  then show ?thesis by (simp add: lowered_def)
qed

lemma cat_map_key: "cat_map cat db key \<noteq> None \<Longrightarrow> lowered key = key"
  by (auto simp: cat_map_def find_Some_iff)


lemma cat_map_other: "d \<noteq> db \<Longrightarrow> cat_map (set_bucket db b ts cat) d = cat_map cat d"
  by (simp add: cat_map_def set_bucket_def)

text \<open>Two well-formed catalogs are compared bucket by bucket, on names already lowered.\<close>

lemma cat_map_eqI:
  assumes "catalog_ok cat" "\<And>key. lowered key = key \<Longrightarrow> List.find (named key) (cat db (hashName key)) = m key"
    "\<And>key. lowered key \<noteq> key \<Longrightarrow> m key = None"
  shows "cat_map cat db = m"
proof
  fix key
  show "cat_map cat db key = m key"
  proof (cases "lowered key = key")
    case True
    then show ?thesis using cat_map_bucket [OF assms(1), of db key] assms(2) by simp
  next
    case False
    then have "cat_map cat db key = None" using cat_map_key by blast
    then show ?thesis using False assms(3) by simp
  qed
qed

lemma cat_map_find:
  "catalog_ok cat \<Longrightarrow> lowered key = key \<Longrightarrow> List.find (named key) (cat db (hashName key)) = cat_map cat db key"
  using cat_map_bucket [of cat db key] by simp

lemma push_table_map:
  assumes ok: "catalog_ok cat" and new: "findTable db (tname t) cat = None" and short: "length (tname t) < NAME_LEN"
  shows "catalog_ok (push_table db (hashName (tname t)) t cat)"
    and "cat_map (push_table db (hashName (tname t)) t cat) db = (cat_map cat db)(lowered (tname t) \<mapsto> t)"
proof -
  let ?c = "push_table db (hashName (tname t)) t cat"
  have "\<forall>u \<in> set (cat db (hashName (tname t))). lowered (tname u) \<noteq> lowered (tname t)"
    using new by (auto simp: findTable_def find_None_iff named_lowered)
  then show c: "catalog_ok ?c"
    using ok short by (auto simp: catalog_ok_def push_table_def set_bucket_def)
  show "cat_map ?c db = (cat_map cat db)(lowered (tname t) \<mapsto> t)"
  proof (rule cat_map_eqI [OF c])
    fix key assume key: "lowered key = key"
    show "List.find (named key) (?c db (hashName key)) = ((cat_map cat db)(lowered (tname t) \<mapsto> t)) key"
    proof (cases "key = lowered (tname t)")
      case True
      then have "hashName key = hashName (tname t)" by (simp add: hashName_lower)
      then show ?thesis using True by (simp add: push_table_def set_bucket_def named_lowered)
    next
      case False
      then have "\<not> named key t" using key by (simp add: named_lowered)
      then show ?thesis
        using cat_map_find [OF ok key, of db] False
        by (cases "hashName key = hashName (tname t)") (simp_all add: push_table_def set_bucket_def)
    qed
  next
    fix key assume key: "lowered key \<noteq> key"
    then have "cat_map cat db key = None" using cat_map_key by blast
    then show "((cat_map cat db)(lowered (tname t) \<mapsto> t)) key = None" using key by auto
  qed
qed

lemma unlink_find:
  "distinct (map (lowered \<circ> tname) ts) \<Longrightarrow>
   case unlink name ts of
     None \<Rightarrow> List.find (named name) ts = None
   | Some (x, rest) \<Rightarrow> List.find (named name) ts = Some x \<and> set rest \<subseteq> set ts \<and>
       distinct (map (lowered \<circ> tname) rest) \<and>
       (\<forall>key. List.find (named key) rest = (if lowered key = lowered name then None else List.find (named key) ts))"
proof (induction ts)
  case (Cons t ts)
  show ?case
  proof (cases "named name t")
    case True
    then have "List.find (named key) ts = None" if "lowered key = lowered name" for key
      using that Cons.prems by (intro find_none) (force simp: named_lowered)
    moreover have "t \<notin> set ts" using Cons.prems by force
    ultimately show ?thesis using True Cons.prems by (auto simp: named_lowered comp_def)
  next
    case False
    have n: "named key t \<longleftrightarrow> lowered (tname t) = lowered key" for key by (rule named_lowered)
    show ?thesis using Cons False by (auto simp: n comp_def split: option.splits)
  qed
qed simp

lemma unlink_map:
  assumes ok: "catalog_ok cat" and run: "unlink name (cat db (hashName name)) = Some (x, rest)"
  shows "catalog_ok (set_bucket db (hashName name) rest cat)"
    and "cat_map (set_bucket db (hashName name) rest cat) db = (cat_map cat db)(lowered name := None)"
    and "cat_map cat db (lowered name) = Some x" "length (tname x) < NAME_LEN" "stricmp (tname x) name"
proof -
  let ?c = "set_bucket db (hashName name) rest cat"
  have "distinct (map (lowered \<circ> tname) (cat db (hashName name)))" using ok by (simp add: catalog_ok_def)
  note u = unlink_find [OF this, of name, unfolded run option.case prod.case]
  show c: "catalog_ok ?c" using ok u by (auto simp: catalog_ok_def set_bucket_def)
  show x: "cat_map cat db (lowered name) = Some x" using cat_map_bucket [OF ok, of db name] u by simp
  have "x \<in> set (cat db (hashName name))" "named name x" using u by (auto simp: find_Some_iff)
  then show "length (tname x) < NAME_LEN" "stricmp (tname x) name" using ok by (auto simp: catalog_ok_def named_def)
  show "cat_map ?c db = (cat_map cat db)(lowered name := None)"
  proof (rule cat_map_eqI [OF c])
    fix key assume key: "lowered key = key"
    show "List.find (named key) (?c db (hashName key)) = ((cat_map cat db)(lowered name := None)) key"
    proof (cases "hashName key = hashName name")
      case True
      then show ?thesis using u cat_map_find [OF ok key, of db] key by (auto simp: set_bucket_def)
    next
      case False
      then have "key \<noteq> lowered name" by (auto simp: hashName_lower)
      then show ?thesis using False cat_map_find [OF ok key, of db] by (simp add: set_bucket_def)
    qed
  next
    fix key assume "lowered key \<noteq> key"
    then have "cat_map cat db key = None" using cat_map_key by blast
    then show "((cat_map cat db)(lowered name := None)) key = None" by simp
  qed
qed

lemma addTable_map:
  assumes "catalog_ok cat" "length name < NAME_LEN" "findTable db name cat = None"
    and add: "addTable nodeOk checkOk db name cols check cat = Some (Inr (), cat1)"
  shows "catalog_ok cat1 \<and> (\<exists>t. tname t = name \<and> tcols t = cols \<and> cat_map cat1 db = (cat_map cat db)(lowered name \<mapsto> t)) \<and>
    (\<forall>d. d \<noteq> db \<longrightarrow> cat_map cat1 d = cat_map cat d)"
proof -
  obtain chk where c: "cat1 = push_table db (hashName name) \<lparr>tname = name, tcols = cols, tcheck = chk\<rparr> cat"
    using assms(2) add by (auto simp: addTable_def Let_def bind_eq_Some_conv split: option.splits if_splits)
  define t where "t = \<lparr>tname = name, tcols = cols, tcheck = chk\<rparr>"
  have t: "tname t = name" "tcols t = cols" "cat1 = push_table db (hashName (tname t)) t cat"
    using c by (simp_all add: t_def)
  have "catalog_ok cat1" "cat_map cat1 db = (cat_map cat db)(lowered name \<mapsto> t)"
    using push_table_map [OF assms(1), of db t] t assms(2,3) by simp_all
  moreover have "\<forall>d. d \<noteq> db \<longrightarrow> cat_map cat1 d = cat_map cat d" using t by (simp add: push_table_def cat_map_other)
  ultimately show ?thesis using t by blast
qed

lemma find_named: "catalog_ok cat \<Longrightarrow> List.find (named name) (cat db (hashName name)) = cat_map cat db (lowered name)"
  using cat_map_bucket by simp

lemma dropTable_map:
  assumes "catalog_ok cat"
  shows "case dropTable db name cat of
      (Inl e, cat2) \<Rightarrow> cat2 = cat \<and> cat_map cat db (lowered name) = None
    | (Inr _, cat2) \<Rightarrow> catalog_ok cat2 \<and> cat_map cat2 db = (cat_map cat db)(lowered name := None) \<and>
        (\<forall>d. d \<noteq> db \<longrightarrow> cat_map cat2 d = cat_map cat d)"
proof -
  have ok: "distinct (map (lowered \<circ> tname) (cat db (hashName name)))" using assms by (simp add: catalog_ok_def)
  show ?thesis
    using unlink_find [OF ok, of name] find_named [OF assms, of name db] unlink_map [OF assms, of name db] cat_map_other
    by (auto simp: dropTable_def split: option.splits)
qed

lemma renameTable_map:
  assumes "catalog_ok cat" "length new < NAME_LEN"
  shows "case renameTableInCatalog db name new cat of
      (Inl e, cat3) \<Rightarrow> cat3 = cat \<and> (cat_map cat db (lowered new) \<noteq> None \<or> cat_map cat db (lowered name) = None)
    | (Inr _, cat3) \<Rightarrow> catalog_ok cat3 \<and> (\<exists>t. cat_map cat db (lowered name) = Some t \<and>
        cat_map cat3 db = (cat_map cat db)(lowered name := None, lowered new \<mapsto> t\<lparr>tname := new\<rparr>))"
proof (cases "findTable db new cat = None")
  case False
  then show ?thesis
    using find_named [OF assms(1), of new db] by (simp add: renameTableInCatalog_def findTable_def)
next
  case True
  then have free: "cat_map cat db (lowered new) = None"
    using find_named [OF assms(1), of new db] by (simp add: findTable_def)
  have ok: "distinct (map (lowered \<circ> tname) (cat db (hashName name)))" using assms(1) by (simp add: catalog_ok_def)
  note find = unlink_find [OF ok, of name] find_named [OF assms(1), of name db]
  show ?thesis
  proof (cases "unlink name (cat db (hashName name))")
    case None
    then show ?thesis using True find by (simp add: renameTableInCatalog_def)
  next
    case (Some y)
    then obtain t rest where y: "unlink name (cat db (hashName name)) = Some (t, rest)" by (cases y) auto
    note u = unlink_map [OF assms(1) y]
    let ?c = "set_bucket db (hashName name) rest cat" and ?t = "t\<lparr>tname := new\<rparr>"
    have "cat_map ?c db (lowered new) = None" using u(2) free by simp
    then have "findTable db (tname ?t) ?c = None" using find_named [OF u(1), of new db] by (simp add: findTable_def)
    note p = push_table_map [OF u(1) this]
    show ?thesis using True y p u find assms(2) by (simp add: renameTableInCatalog_def)
  qed
qed

text \<open>
  C19: the catalog is a map from names without case. On a well-formed catalog \<open>findTable\<close> looks a
  name up, whatever its case; \<open>addTable\<close> of a name not there adds exactly that table; \<open>dropTable\<close>
  removes exactly that one; \<open>renameTableInCatalog\<close> moves it to the new name, refusing a name that
  is taken. Every operation keeps the catalog well-formed and the other databases as they were.
\<close>
theorem catalog_refines_map:
  assumes "catalog_ok cat" "length name < NAME_LEN" "length new < NAME_LEN"
  shows "findTable db name cat = cat_map cat db (lowered name) \<and>
    (findTable db name cat = None \<and> addTable nodeOk checkOk db name cols check cat = Some (Inr (), cat1) \<longrightarrow>
       catalog_ok cat1 \<and> (\<exists>t. tname t = name \<and> tcols t = cols \<and> cat_map cat1 db = (cat_map cat db)(lowered name \<mapsto> t)) \<and>
       (\<forall>d. d \<noteq> db \<longrightarrow> cat_map cat1 d = cat_map cat d)) \<and>
    (case dropTable db name cat of
       (Inl e, cat2) \<Rightarrow> cat2 = cat \<and> cat_map cat db (lowered name) = None
     | (Inr _, cat2) \<Rightarrow> catalog_ok cat2 \<and> cat_map cat2 db = (cat_map cat db)(lowered name := None) \<and>
         (\<forall>d. d \<noteq> db \<longrightarrow> cat_map cat2 d = cat_map cat d)) \<and>
    (case renameTableInCatalog db name new cat of
       (Inl e, cat3) \<Rightarrow> cat3 = cat \<and> (cat_map cat db (lowered new) \<noteq> None \<or> cat_map cat db (lowered name) = None)
     | (Inr _, cat3) \<Rightarrow> catalog_ok cat3 \<and> (\<exists>t. cat_map cat db (lowered name) = Some t \<and>
         cat_map cat3 db = (cat_map cat db)(lowered name := None, lowered new \<mapsto> t\<lparr>tname := new\<rparr>)))"
  by (intro conjI)
     (simp add: findTable_def find_named [OF assms(1)], use addTable_map [OF assms(1,2)] in blast,
      rule dropTable_map [OF assms(1)], rule renameTable_map [OF assms(1,3)])

theorem catalog_refines_map_witness:
  "findTable 0 ''T'' (push_table 0 (hashName ''t'') demo_table initCatalog) = Some demo_table \<and>
   snd (dropTable 0 ''T'' (push_table 0 (hashName ''t'') demo_table initCatalog)) 0 (hashName ''T'') = []"
proof -
  have t: "tname demo_table = ''t''" by (simp add: demo_table_def)
  have same: "hashName ''T'' = hashName ''t''" by (rule hashName_same) code_simp
  have "catalog_ok initCatalog" by (simp add: catalog_ok_def initCatalog_def)
  then have ok: "catalog_ok (push_table 0 (hashName ''t'') demo_table initCatalog)"
    using push_table_map(1) [of initCatalog 0 demo_table] t by (simp add: findTable_def initCatalog_def NAME_LEN_def)
  have "findTable 0 ''T'' (push_table 0 (hashName ''t'') demo_table initCatalog) =
      cat_map (push_table 0 (hashName ''t'') demo_table initCatalog) 0 (lowered ''T'')"
    using catalog_refines_map [OF ok, of "''T''" "''u''"] by (simp add: NAME_LEN_def)
  moreover have "named ''T'' demo_table" unfolding named_def t by code_simp
  ultimately show ?thesis
    using same by (simp add: findTable_def dropTable_def push_table_def set_bucket_def initCatalog_def)
qed

end
