(* ===== verification/Databases.thy ===== *)
theory Databases
  imports Names HeapRows "HOL-Library.Multiset"
begin

text \<open>
  Databases and their heaps: the slots of \<^verbatim>\<open>13_database.c\<close>, of which one is current, and the lists
  of heaps per database of \<^verbatim>\<open>07_storage.c\<close>, looked up by table name. A database's id is its slot, so
  dropping one never moves another.
\<close>

subsection \<open>Slots\<close>

record databases =
  dnames :: "string list"
  dused :: "bool list"
  current :: nat

definition DEFAULT_DB_NAME :: string where "DEFAULT_DB_NAME = ''main''"

definition initDatabases :: "databases \<Rightarrow> databases" where
  "initDatabases d = d\<lparr>dnames := (dnames d)[0 := name_of DEFAULT_DB_NAME],
     dused := (replicate MAX_DATABASES False)[0 := True], current := 0\<rparr>"

definition setCurrentDatabaseId :: "int \<Rightarrow> databases \<Rightarrow> databases" where
  "setCurrentDatabaseId k d =
     (if k \<ge> 0 \<and> k < int MAX_DATABASES \<and> dused d ! nat k then d\<lparr>current := nat k\<rparr> else d)"

definition findDatabase :: "string \<Rightarrow> databases \<Rightarrow> int" where
  "findDatabase name d =
     (case List.find (\<lambda>i. dused d ! i \<and> stricmp (dnames d ! i) name) [0..<MAX_DATABASES] of
        Some i \<Rightarrow> int i | None \<Rightarrow> -1)"

definition createDatabase :: "string \<Rightarrow> databases \<Rightarrow> (error + unit) \<times> databases" where
  "createDatabase name d =
     (if findDatabase name d \<ge> 0 then (Inl ERROR_SEMANTIC_DATABASE_EXISTS, d)
      else case List.find (\<lambda>i. \<not> dused d ! i) [0..<MAX_DATABASES] of
             Some i \<Rightarrow> (Inr (), d\<lparr>dnames := (dnames d)[i := name_of name], dused := (dused d)[i := True]\<rparr>)
           | None \<Rightarrow> (Inl ERROR_EXEC_TOO_MANY_DATABASES, d))"

definition useDatabase :: "string \<Rightarrow> databases \<Rightarrow> (error + unit) \<times> databases" where
  "useDatabase name d =
     (let k = findDatabase name d
      in if k < 0 then (Inl ERROR_SEMANTIC_DATABASE_NOT_FOUND, d) else (Inr (), d\<lparr>current := nat k\<rparr>))"

definition releaseDatabase :: "nat \<Rightarrow> databases \<Rightarrow> databases" where
  "releaseDatabase k d =
     (let d = d\<lparr>dused := (dused d)[k := False]\<rparr> in if current d = k then d\<lparr>current := 0\<rparr> else d)"

definition currentDatabaseId :: "databases \<Rightarrow> nat" where "currentDatabaseId d = current d"
definition currentDatabaseName :: "databases \<Rightarrow> string" where "currentDatabaseName d = dnames d ! current d"
definition databaseCount :: "databases \<Rightarrow> nat" where
  "databaseCount d = length (filter (\<lambda>i. dused d ! i) [0..<MAX_DATABASES])"
definition selectDatabaseById :: "nat \<Rightarrow> databases \<Rightarrow> databases" where "selectDatabaseById k d = d\<lparr>current := k\<rparr>"

subsection \<open>Heaps by name\<close>

text \<open>\<open>storage db\<close>: the heaps of a database in the order of the array.\<close>

type_synonym storage = "nat \<Rightarrow> heap list"

definition initStorage :: storage where "initStorage = (\<lambda>_. [])"

definition heap_index :: "string \<Rightarrow> heap list \<Rightarrow> nat option" where
  "heap_index name hs = List.find (\<lambda>i. stricmp (htable (hs ! i)) name) [0..<length hs]"

definition findHeap :: "nat \<Rightarrow> string \<Rightarrow> storage \<Rightarrow> heap option" where
  "findHeap db name st = (case heap_index name (st db) of Some i \<Rightarrow> Some (st db ! i) | None \<Rightarrow> None)"

definition renameHeap :: "nat \<Rightarrow> string \<Rightarrow> string \<Rightarrow> storage \<Rightarrow> storage" where
  "renameHeap db from_name to_name st =
     (case heap_index from_name (st db) of None \<Rightarrow> st
      | Some i \<Rightarrow> st(db := (st db)[i := (st db ! i)\<lparr>htable := name_of to_name\<rparr>]))"

definition createHeap :: "bool \<Rightarrow> nat \<Rightarrow> nat \<Rightarrow> string \<Rightarrow> storage \<Rightarrow> heap option \<times> storage" where
  "createHeap heapOk limit db name st =
     (if length (st db) = MAX_TABLES \<or> \<not> heapOk then (None, st)
      else let h = \<lparr>htable = name_of name, pageIds = [], pageSlots = [], hcapacity = 0, nlive = 0,
                    nslots = 0, hlimit = limit\<rparr>
           in (Some h, st(db := st db @ [h])))"

text \<open>The last heap of the array takes the place of the one dropped.\<close>

definition dropHeap :: "nat \<Rightarrow> string \<Rightarrow> storage \<times> pool \<Rightarrow> (error + unit) \<times> storage \<times> pool" where
  "dropHeap db name = (\<lambda>(st, p).
     case heap_index name (st db) of
       None \<Rightarrow> (Inl ERROR_SEMANTIC_TABLE_NOT_FOUND, st, p)
     | Some i \<Rightarrow> (Inr (), st(db := butlast ((st db)[i := last (st db)])), snd (heapReset (st db ! i) p)))"

definition freeStorage :: "storage \<times> pool \<Rightarrow> storage \<times> pool" where
  "freeStorage = (\<lambda>(st, p).
     (\<lambda>db. if db < MAX_DATABASES then [] else st db,
      foldl (\<lambda>p h. snd (heapReset h p)) p (concat (map st [0..<MAX_DATABASES]))))"

subsection \<open>Slots keep their databases\<close>

definition databases_ok :: "databases \<Rightarrow> bool" where
  "databases_ok d \<longleftrightarrow> length (dnames d) = MAX_DATABASES \<and> length (dused d) = MAX_DATABASES \<and>
     dused d ! 0 \<and> current d < MAX_DATABASES \<and> dused d ! current d \<and>
     (\<forall>i < MAX_DATABASES. \<forall>j < MAX_DATABASES. dused d ! i \<and> dused d ! j \<and> stricmp (dnames d ! i) (dnames d ! j) \<longrightarrow> i = j)"

lemma find_upt_Some: "List.find P [0..<n] = Some i \<Longrightarrow> i < n \<and> P i"
  by (auto simp: find_Some_iff)

lemma find_upt_None: "List.find P [0..<n] = None \<longleftrightarrow> (\<forall>i < n. \<not> P i)"
  by (auto simp: find_None_iff)

lemma findDatabase_Some: "0 \<le> findDatabase name d \<Longrightarrow>
    nat (findDatabase name d) < MAX_DATABASES \<and> dused d ! nat (findDatabase name d) \<and>
    stricmp (dnames d ! nat (findDatabase name d)) name"
  using find_upt_Some by (fastforce simp: findDatabase_def split: option.splits)

lemma findDatabase_None: "findDatabase name d < 0 \<longleftrightarrow> (\<forall>i < MAX_DATABASES. dused d ! i \<longrightarrow> \<not> stricmp (dnames d ! i) name)"
  by (auto simp: findDatabase_def find_upt_None split: option.splits dest: find_upt_Some)

lemma createDatabase_slot:
  assumes "databases_ok d" "length name < NAME_LEN" "\<not> 0 \<le> findDatabase name d" "i < MAX_DATABASES" "\<not> dused d ! i"
    and d': "d' = d\<lparr>dnames := (dnames d)[i := name_of name], dused := (dused d)[i := True]\<rparr>"
  shows "databases_ok d'" "findDatabase name d' = int i"
proof -
  have len: "length (dnames d) = MAX_DATABASES" "length (dused d) = MAX_DATABASES" using assms(1) by (simp_all add: databases_ok_def)
  have free: "\<not> stricmp (dnames d ! j) name" "\<not> stricmp name (dnames d ! j)" if "j < MAX_DATABASES" "dused d ! j" for j
    using assms(3) findDatabase_None [of name d] that stricmp_sym [of name] by auto
  have names: "dnames d' ! j = (if j = i then name else dnames d ! j)" "dused d' ! j = (j = i \<or> dused d ! j)"
    if "j < MAX_DATABASES" for j
    using assms(2,4) len that by (simp_all add: d' nth_list_update)
  have cur: "current d' = current d" "length (dnames d') = MAX_DATABASES" "length (dused d') = MAX_DATABASES" using len by (simp_all add: d')
  have "\<forall>a < MAX_DATABASES. \<forall>b < MAX_DATABASES. dused d' ! a \<and> dused d' ! b \<and> stricmp (dnames d' ! a) (dnames d' ! b) \<longrightarrow> a = b"
    using assms(1) free names by (simp add: databases_ok_def)
  moreover have "0 < MAX_DATABASES" by (simp add: MAX_DATABASES_def)
  then have "dused d' ! 0" "current d' < MAX_DATABASES" "dused d' ! current d'"
    using assms(1) names(2) [of 0] names(2) [of "current d"] cur(1) by (simp_all add: databases_ok_def)
  ultimately show "databases_ok d'" using cur by (simp add: databases_ok_def)
  have "\<not> findDatabase name d' < 0" unfolding findDatabase_None using names assms(4) by auto
  then have f: "0 \<le> findDatabase name d'" by simp
  have "nat (findDatabase name d') = i"
    using findDatabase_Some [OF f] names [of "nat (findDatabase name d')"] free(1) by (auto split: if_splits)
  then show "findDatabase name d' = int i" using f by linarith
qed

lemma createDatabase_ok:
  assumes "databases_ok d" "length name < NAME_LEN"
  shows "case createDatabase name d of
      (Inr _, d') \<Rightarrow> databases_ok d' \<and> 0 \<le> findDatabase name d' \<and> \<not> dused d ! nat (findDatabase name d') \<and>
        (\<forall>i. i \<noteq> nat (findDatabase name d') \<longrightarrow> dnames d' ! i = dnames d ! i \<and> dused d' ! i = dused d ! i)
    | (Inl e, d') \<Rightarrow> d' = d \<and> (0 \<le> findDatabase name d \<or> databaseCount d = MAX_DATABASES)"
proof (cases "findDatabase name d \<ge> 0")
  case True
  then show ?thesis by (simp add: createDatabase_def)
next
  case new: False
  show ?thesis
  proof (cases "List.find (\<lambda>i. \<not> dused d ! i) [0..<MAX_DATABASES]")
    case None
    then have "filter (\<lambda>i. dused d ! i) [0..<MAX_DATABASES] = [0..<MAX_DATABASES]"
      by (auto simp: find_upt_None filter_id_conv)
    then show ?thesis using new None by (simp add: createDatabase_def databaseCount_def)
  next
    case (Some i)
    then have "i < MAX_DATABASES" "\<not> dused d ! i" using find_upt_Some by auto
    from createDatabase_slot [OF assms new this refl] show ?thesis
      using new Some \<open>\<not> dused d ! i\<close> by (simp add: createDatabase_def)
  qed
qed

lemma releaseDatabase_ok:
  assumes "databases_ok d" "r \<noteq> 0"
  shows "databases_ok (releaseDatabase r d)"
proof -
  have "(dused d)[r := False] ! i \<Longrightarrow> dused d ! i" for i
    by (cases "i = r"; cases "r < length (dused d)") (simp_all add: list_update_beyond)
  then show ?thesis using assms by (auto simp: releaseDatabase_def Let_def databases_ok_def)
qed

text \<open>
  C20: the database slots. Each of creating, using, selecting and releasing a database (never the
  default one) keeps one used current slot and used names that differ without case; a database
  just created is found under its name, in a slot that was free, and every other slot stays.
\<close>
theorem databases_invariant:
  assumes "databases_ok d" "length name < NAME_LEN"
  shows "(case createDatabase name d of
       (Inr _, d') \<Rightarrow> databases_ok d' \<and> 0 \<le> findDatabase name d' \<and> \<not> dused d ! nat (findDatabase name d') \<and>
         (\<forall>i. i \<noteq> nat (findDatabase name d') \<longrightarrow> dnames d' ! i = dnames d ! i \<and> dused d' ! i = dused d ! i)
     | (Inl e, d') \<Rightarrow> d' = d \<and> (0 \<le> findDatabase name d \<or> databaseCount d = MAX_DATABASES)) \<and>
    databases_ok (snd (useDatabase name d)) \<and> databases_ok (setCurrentDatabaseId k d) \<and>
    (r \<noteq> 0 \<longrightarrow> databases_ok (releaseDatabase r d)) \<and>
    (length (dnames e) = MAX_DATABASES \<longrightarrow> databases_ok (initDatabases e))"
proof (intro conjI impI)
  show "databases_ok (snd (useDatabase name d))"
    using assms(1) findDatabase_Some [of name d] by (auto simp: useDatabase_def Let_def databases_ok_def)
  show "databases_ok (setCurrentDatabaseId k d)"
    using assms(1) by (auto simp: setCurrentDatabaseId_def databases_ok_def)
  show "databases_ok (initDatabases e)" if "length (dnames e) = MAX_DATABASES"
    using that by (auto simp: initDatabases_def databases_ok_def nth_list_update MAX_DATABASES_def)
qed (use createDatabase_ok [OF assms] releaseDatabase_ok [OF assms(1)] in simp_all)

definition demo_databases :: databases where
  "demo_databases = initDatabases \<lparr>dnames = replicate 8 [], dused = replicate 8 False, current = 0\<rparr>"

theorem databases_invariant_witness:
  "\<exists>d'. createDatabase ''shop'' demo_databases = (Inr (), d') \<and> databases_ok d' \<and> 0 \<le> findDatabase ''shop'' d'"
proof -
  have ok: "databases_ok demo_databases"
    by (auto simp: demo_databases_def initDatabases_def databases_ok_def nth_list_update MAX_DATABASES_def)
  have "fst (createDatabase ''shop'' demo_databases) = Inr ()" by code_simp
  then obtain d' where "createDatabase ''shop'' demo_databases = (Inr (), d')" by (cases "createDatabase ''shop'' demo_databases") auto
  then show ?thesis using databases_invariant [OF ok, of "''shop''"] by (simp add: NAME_LEN_def)
qed

subsection \<open>Heaps keep their names\<close>

definition storage_ok :: "storage \<Rightarrow> bool" where
  "storage_ok st \<longleftrightarrow> (\<forall>db. length (st db) \<le> MAX_TABLES \<and> distinct (map (map to_lower \<circ> htable) (st db)))"

definition heap_map :: "storage \<Rightarrow> nat \<Rightarrow> string \<Rightarrow> heap option" where
  "heap_map st db = (\<lambda>key. List.find (\<lambda>h. map to_lower (htable h) = key) (st db))"


lemma heap_key: "stricmp (htable h) name \<longleftrightarrow> map to_lower (htable h) = map to_lower name"
  by (simp add: stricmp_def)

lemma storage_distinct:
  assumes "storage_ok st"
  shows "distinct (map (map to_lower \<circ> htable) (st db))" "distinct (st db)"
  using assms distinct_map [of "map to_lower \<circ> htable" "st db"] by (simp_all add: storage_ok_def)

lemma heap_map_iff:
  assumes "distinct (map (map to_lower \<circ> htable) (st db))"
  shows "heap_map st db key = Some h \<longleftrightarrow> h \<in> set (st db) \<and> map to_lower (htable h) = key"
proof
  assume "heap_map st db key = Some h"
  then show "h \<in> set (st db) \<and> map to_lower (htable h) = key" by (auto simp: heap_map_def find_Some_iff)
next
  assume h: "h \<in> set (st db) \<and> map to_lower (htable h) = key"
  then have "heap_map st db key \<noteq> None" by (auto simp: heap_map_def find_None_iff)
  then obtain g where g: "heap_map st db key = Some g" by auto
  then have "g \<in> set (st db) \<and> map to_lower (htable g) = key" by (auto simp: heap_map_def find_Some_iff)
  then have "g = h" using h assms by (auto simp: distinct_map inj_on_def)
  then show "heap_map st db key = Some h" using g by simp
qed

lemma heap_index_Some:
  assumes "heap_index name hs = Some i"
  shows "i < length hs" "map to_lower (htable (hs ! i)) = map to_lower name"
  using assms find_upt_Some by (auto simp: heap_index_def heap_key)

lemma heap_index_None: "heap_index name hs = None \<longleftrightarrow> (\<forall>h \<in> set hs. map to_lower (htable h) \<noteq> map to_lower name)"
  unfolding heap_index_def find_upt_None heap_key all_set_conv_all_nth by (rule refl)

lemma distinct_submset: "mset xs \<subseteq># mset ys \<Longrightarrow> distinct ys \<Longrightarrow> distinct xs"
proof -
  assume sub: "mset xs \<subseteq># mset ys" and ys: "distinct ys"
  obtain zs where "mset zs = mset ys - mset xs" using ex_mset by blast
  then have "mset (xs @ zs) = mset ys" using sub by simp
  then have "distinct (xs @ zs)" using mset_eq_imp_distinct_iff ys by blast
  then show "distinct xs" by simp
qed

text \<open>The last element into the place of the one that goes.\<close>

lemma swap_remove:
  assumes "i < length xs"
  shows "mset (butlast (xs[i := last xs])) = mset xs - {#xs ! i#}"
proof -
  have ne: "xs \<noteq> []" using assms by auto
  have "mset (xs[i := last xs]) = add_mset (last xs) (mset xs - {#xs ! i#})" by (rule mset_update [OF assms])
  moreover have "mset (xs[i := last xs]) = add_mset (last (xs[i := last xs])) (mset (butlast (xs[i := last xs])))"
    using ne by (metis append_butlast_last_id list_update_nonempty mset_append add_mset_add_single union_commute mset.simps)
  moreover have "last (xs[i := last xs]) = last xs" using ne assms by (simp add: last_list_update)
  ultimately show ?thesis by simp
qed

text \<open>Each operation against the map, from distinct names.\<close>

lemma findHeap_map:
  assumes "storage_ok st"
  shows "findHeap db name st = heap_map st db (map to_lower name)"
proof (cases "heap_index name (st db)")
  case None
  then have "heap_map st db (map to_lower name) = None"
    using heap_index_None [of name "st db"] by (simp add: heap_map_def find_None_iff)
  then show ?thesis using None by (simp add: findHeap_def)
next
  case (Some i)
  then have "heap_map st db (map to_lower name) = Some (st db ! i)"
    using heap_index_Some [OF Some] heap_map_iff [of st db, OF storage_distinct(1) [OF assms]] by simp
  then show ?thesis using Some by (simp add: findHeap_def)
qed

lemma findHeap_None: "findHeap db name st = None \<longleftrightarrow> (\<forall>h \<in> set (st db). map to_lower (htable h) \<noteq> map to_lower name)"
  using heap_index_None [of name "st db"] by (auto simp: findHeap_def split: option.splits)

lemma heap_map_eqI:
  assumes "distinct (map (map to_lower \<circ> htable) (st db))"
    and "\<And>key h. m key = Some h \<longleftrightarrow> h \<in> set (st db) \<and> map to_lower (htable h) = key"
  shows "heap_map st db = m"
proof
  fix key
  show "heap_map st db key = m key"
    using heap_map_iff [of st db, OF assms(1), of key] assms(2) [of key] by (cases "m key") (metis not_None_eq)+
qed

lemma createHeap_map:
  assumes "storage_ok st" "length name < NAME_LEN" "findHeap db name st = None"
  shows "case createHeap True limit db name st of
      (None, st1) \<Rightarrow> st1 = st \<and> length (st db) = MAX_TABLES
    | (Some h, st1) \<Rightarrow> storage_ok st1 \<and> pageIds h = [] \<and> heap_map st1 db = (heap_map st db)(map to_lower name \<mapsto> h)"
proof (cases "length (st db) = MAX_TABLES")
  case True
  then show ?thesis by (simp add: createHeap_def)
next
  case False
  note d = storage_distinct [OF assms(1), of db]
  define h where "h = \<lparr>htable = name_of name, pageIds = [], pageSlots = [], hcapacity = 0, nlive = 0,
                  nslots = 0, hlimit = limit\<rparr>"
  let ?st = "st(db := st db @ [h])"
  have h: "htable h = name" "pageIds h = []" using assms(2) by (simp_all add: h_def)
  have dist: "distinct (map (map to_lower \<circ> htable) (?st db))" using d(1) assms(3) findHeap_None h(1) by auto
  have "length (st db) \<le> MAX_TABLES" using assms(1) by (simp add: storage_ok_def)
  then have "length (?st db) \<le> MAX_TABLES" using False by simp
  then have ok: "storage_ok ?st" using assms(1) dist by (simp add: storage_ok_def)
  have "heap_map ?st db = (heap_map st db)(map to_lower name \<mapsto> h)"
    by (rule heap_map_eqI [of ?st, OF dist]) (use heap_map_iff [of st db, OF d(1)] assms(3) findHeap_None h(1) in auto)
  then show ?thesis using False ok h(2) by (simp add: createHeap_def h_def [symmetric] Let_def)
qed

lemma renameHeap_map:
  assumes "storage_ok st" "length new < NAME_LEN" "findHeap db new st = None"
  shows "storage_ok (renameHeap db name new st) \<and> heap_map (renameHeap db name new st) db =
      (case findHeap db name st of None \<Rightarrow> heap_map st db
       | Some h \<Rightarrow> (heap_map st db)(map to_lower name := None, map to_lower new \<mapsto> h\<lparr>htable := new\<rparr>))"
proof (cases "heap_index name (st db)")
  case None
  then show ?thesis using assms(1) by (simp add: renameHeap_def findHeap_def)
next
  case (Some i)
  note i = heap_index_Some [OF Some] and d = storage_distinct [OF assms(1), of db]
  let ?h = "(st db ! i)\<lparr>htable := new\<rparr>" and ?st = "st(db := (st db)[i := (st db ! i)\<lparr>htable := new\<rparr>])"
  have run: "renameHeap db name new st = ?st" using Some assms(2) by (simp add: renameHeap_def)
  have others: "set ((st db)[i := ?h]) = insert ?h (set (st db) - {st db ! i})"
    by (rule set_update_distinct [OF d(2) i(1)])
  have "map to_lower new \<notin> set (map (map to_lower \<circ> htable) (st db))" using assms(3) findHeap_None [of db new st] by auto
  then have "distinct ((map (map to_lower \<circ> htable) (st db))[i := map to_lower new])"
    by (intro distinct_list_update [OF d(1)]) blast
  then have dist: "distinct (map (map to_lower \<circ> htable) (?st db))" by (simp add: map_update)
  have ok: "storage_ok ?st" using assms(1) dist by (auto simp: storage_ok_def)
  have "heap_map ?st db = (heap_map st db)(map to_lower name := None, map to_lower new \<mapsto> ?h)"
    by (rule heap_map_eqI [of ?st, OF dist])
       (use heap_map_iff [of st db, OF d(1)] others assms(3) findHeap_None [of db new st] i d(1) nth_mem [OF i(1)] in
        \<open>auto simp: distinct_map inj_on_def\<close>)
  then show ?thesis using run ok Some by (simp add: findHeap_def)
qed

lemma dropHeap_map:
  assumes "storage_ok st"
  shows "case dropHeap db name (st, p) of
      (Inl e, st2, p2) \<Rightarrow> st2 = st \<and> p2 = p \<and> findHeap db name st = None
    | (Inr _, st2, p2) \<Rightarrow> storage_ok st2 \<and> heap_map st2 db = (heap_map st db)(map to_lower name := None)"
proof (cases "heap_index name (st db)")
  case None
  then show ?thesis by (simp add: dropHeap_def findHeap_def)
next
  case (Some i)
  note i = heap_index_Some [OF Some] and d = storage_distinct [OF assms, of db]
  let ?hs = "butlast ((st db)[i := last (st db)])" and ?st = "st(db := butlast ((st db)[i := last (st db)]))"
  have m: "mset ?hs = mset (st db) - {#st db ! i#}" by (rule swap_remove [OF i(1)])
  then have "mset (map (map to_lower \<circ> htable) ?hs) \<subseteq># mset (map (map to_lower \<circ> htable) (st db))"
    by (simp add: image_mset_subseteq_mono)
  then have dist: "distinct (map (map to_lower \<circ> htable) (?st db))"
    using distinct_submset [OF _ d(1)] by simp
  have "mset (st db ! i # ?hs) = mset (st db)" using m i(1) by simp
  then have "distinct (st db ! i # ?hs)" "set (st db ! i # ?hs) = set (st db)"
    using d(2) mset_eq_imp_distinct_iff mset_eq_setD by blast+
  then have set: "set ?hs = set (st db) - {st db ! i}" by auto
  have ok: "storage_ok ?st"
    using assms dist le_trans [of "length (st db) - 1" "length (st db)"] by (auto simp: storage_ok_def)
  have "heap_map ?st db = (heap_map st db)(map to_lower name := None)"
    by (rule heap_map_eqI [of ?st, OF dist])
       (use heap_map_iff [of st db, OF d(1)] set i d(1) nth_mem [OF i(1)] in \<open>auto simp: distinct_map inj_on_def\<close>)
  then show ?thesis using Some ok by (simp add: dropHeap_def)
qed

text \<open>
  C21: the heaps of a database are a map from table names. With distinct names without case,
  \<open>findHeap\<close> looks a name up, \<open>createHeap\<close> of a new name adds an empty heap or reports the table
  full, \<open>renameHeap\<close> to a name not taken moves one entry, and \<open>dropHeap\<close>, which fills the gap with
  the last heap, removes exactly its own.
\<close>
theorem storage_refines_map:
  assumes "storage_ok st" "length name < NAME_LEN" "length new < NAME_LEN"
  shows "findHeap db name st = heap_map st db (map to_lower name) \<and>
    (findHeap db name st = None \<longrightarrow>
      (case createHeap True limit db name st of
         (None, st1) \<Rightarrow> st1 = st \<and> length (st db) = MAX_TABLES
       | (Some h, st1) \<Rightarrow> storage_ok st1 \<and> pageIds h = [] \<and> heap_map st1 db = (heap_map st db)(map to_lower name \<mapsto> h))) \<and>
    (findHeap db new st = None \<longrightarrow> storage_ok (renameHeap db name new st) \<and>
      heap_map (renameHeap db name new st) db =
        (case findHeap db name st of None \<Rightarrow> heap_map st db
         | Some h \<Rightarrow> (heap_map st db)(map to_lower name := None, map to_lower new \<mapsto> h\<lparr>htable := new\<rparr>))) \<and>
    (case dropHeap db name (st, p) of
       (Inl e, st2, p2) \<Rightarrow> st2 = st \<and> p2 = p \<and> findHeap db name st = None
     | (Inr _, st2, p2) \<Rightarrow> storage_ok st2 \<and> heap_map st2 db = (heap_map st db)(map to_lower name := None))"
  by (intro conjI impI)
     (rule findHeap_map [OF assms(1)] createHeap_map [OF assms(1,2)]
        renameHeap_map [OF assms(1,3), THEN conjunct1] renameHeap_map [OF assms(1,3), THEN conjunct2]
        dropHeap_map [OF assms(1)] | assumption)+

theorem storage_refines_map_witness:
  "\<exists>h st. createHeap True 8 0 ''t'' initStorage = (Some h, st) \<and> storage_ok st \<and> findHeap 0 ''T'' st = Some h"
proof -
  have empty: "storage_ok initStorage" "findHeap 0 ''t'' initStorage = None"
    by (simp_all add: storage_ok_def initStorage_def findHeap_def heap_index_def)
  have "fst (createHeap True 8 0 ''t'' initStorage) \<noteq> None"
    by (simp add: createHeap_def initStorage_def MAX_TABLES_def Let_def)
  then obtain h st where run: "createHeap True 8 0 ''t'' initStorage = (Some h, st)"
    by (cases "createHeap True 8 0 ''t'' initStorage") auto
  then have st: "storage_ok st" "heap_map st 0 = (heap_map initStorage 0)(map to_lower ''t'' \<mapsto> h)"
    using storage_refines_map [OF empty(1), of "''t''" "''u''" 0 8] empty(2) by (simp_all add: NAME_LEN_def)
  have low: "map to_lower ''T'' = map to_lower ''t''" by code_simp
  have "findHeap 0 ''T'' st = heap_map st 0 (map to_lower ''T'')"
    using storage_refines_map [OF st(1), of "''T''" "''u''" 0] by (simp add: NAME_LEN_def)
  then have "findHeap 0 ''T'' st = Some h" using st(2) low by simp
  then show ?thesis using run st(1) by blast
qed

end
