(* ===== verification/Tokens.thy ===== *)
theory Tokens
  imports Names
begin

text \<open>The token types of \<^verbatim>\<open>sql_common.h\<close>, and a token: its type and its text.\<close>

subsection \<open>Tokens\<close>

datatype tokentype = TOKEN_KEYWORD_SELECT | TOKEN_KEYWORD_FROM | TOKEN_KEYWORD_CREATE
   | TOKEN_KEYWORD_TABLE | TOKEN_KEYWORD_INSERT | TOKEN_KEYWORD_INTO | TOKEN_KEYWORD_VALUES
   | TOKEN_KEYWORD_INT | TOKEN_KEYWORD_TEXT | TOKEN_KEYWORD_WHERE | TOKEN_KEYWORD_GROUP
   | TOKEN_KEYWORD_BY | TOKEN_KEYWORD_NULL | TOKEN_KEYWORD_IS | TOKEN_KEYWORD_NOT
   | TOKEN_KEYWORD_INDEX | TOKEN_KEYWORD_ON | TOKEN_KEYWORD_DELETE | TOKEN_KEYWORD_UPDATE
   | TOKEN_KEYWORD_SET | TOKEN_KEYWORD_VACUUM | TOKEN_KEYWORD_ORDER | TOKEN_KEYWORD_ASC
   | TOKEN_KEYWORD_DESC | TOKEN_KEYWORD_LIKE | TOKEN_KEYWORD_AND | TOKEN_KEYWORD_OR
   | TOKEN_KEYWORD_LIMIT | TOKEN_KEYWORD_DISTINCT | TOKEN_KEYWORD_HAVING | TOKEN_KEYWORD_DROP
   | TOKEN_KEYWORD_DATABASE | TOKEN_KEYWORD_USE | TOKEN_KEYWORD_JOIN | TOKEN_KEYWORD_INNER
   | TOKEN_KEYWORD_AS | TOKEN_KEYWORD_BEGIN | TOKEN_KEYWORD_COMMIT | TOKEN_KEYWORD_ROLLBACK
   | TOKEN_KEYWORD_FLOAT | TOKEN_KEYWORD_DATE | TOKEN_KEYWORD_VARCHAR | TOKEN_KEYWORD_PRIMARY
   | TOKEN_KEYWORD_KEY | TOKEN_KEYWORD_UNIQUE | TOKEN_KEYWORD_DEFAULT | TOKEN_KEYWORD_CHECK
   | TOKEN_KEYWORD_ALTER | TOKEN_KEYWORD_ADD | TOKEN_KEYWORD_COLUMN | TOKEN_KEYWORD_RENAME
   | TOKEN_KEYWORD_TO | TOKEN_KEYWORD_LEFT | TOKEN_KEYWORD_OUTER | TOKEN_KEYWORD_IN
   | TOKEN_KEYWORD_EXISTS | TOKEN_IDENTIFIER | TOKEN_NUMBER | TOKEN_STRING | TOKEN_STAR
   | TOKEN_COMMA | TOKEN_LPAREN | TOKEN_RPAREN | TOKEN_SEMICOLON | TOKEN_MINUS | TOKEN_PLUS
   | TOKEN_SLASH | TOKEN_PERCENT | TOKEN_OPERATOR_EQ | TOKEN_OPERATOR_NE | TOKEN_OPERATOR_LT
   | TOKEN_OPERATOR_LTE | TOKEN_OPERATOR_GT | TOKEN_OPERATOR_GTE | TOKEN_UNKNOWN

record token =
  tokType :: tokentype
  tokValue :: string

end
