(* ===== verification/Lexer.thy ===== *)
theory Lexer
  imports Tokens
begin

text \<open>
  The lexer, \<^verbatim>\<open>03_lexer.c\<close>: one statement into a list of tokens. The keyword dispatch on the first
  four bytes, packed into one integer and folded to lower case, is modelled as written and proved
  to be the lookup of the whole word without case. A position in the text is what follows it.
\<close>

subsection \<open>Keywords\<close>

definition KEYWORD_MAX :: nat where "KEYWORD_MAX = 8"

definition NUL :: char where "NUL = CHR 0x00"

definition PACK_4 :: "u32 \<Rightarrow> u32 \<Rightarrow> u32 \<Rightarrow> u32 \<Rightarrow> u32" where
  "PACK_4 a b c d = a OR push_bit 8 b OR push_bit 16 c OR push_bit 24 d"

definition FOLD :: "char \<Rightarrow> u32" where
  "FOLD c = of_nat (of_char c) OR 0x20"

definition PACK_4_LOWER :: "char \<Rightarrow> char \<Rightarrow> char \<Rightarrow> char \<Rightarrow> u32" where
  "PACK_4_LOWER a b c d = PACK_4 (FOLD a) (FOLD b) (FOLD c) (FOLD d)"

text \<open>The cases of the switch: label, length, rest of the word, token.\<close>

definition keyword_cases :: "(u32 \<times> nat \<times> string \<times> tokentype) list" where
  "keyword_cases = [
     (PACK_4_LOWER (CHR ''s'') (CHR ''e'') (CHR ''l'') (CHR ''e''), 6, ''ct'', TOKEN_KEYWORD_SELECT),
     (PACK_4_LOWER (CHR ''f'') (CHR ''r'') (CHR ''o'') (CHR ''m''), 4, '''', TOKEN_KEYWORD_FROM),
     (PACK_4_LOWER (CHR ''w'') (CHR ''h'') (CHR ''e'') (CHR ''r''), 5, ''e'', TOKEN_KEYWORD_WHERE),
     (PACK_4_LOWER (CHR ''g'') (CHR ''r'') (CHR ''o'') (CHR ''u''), 5, ''p'', TOKEN_KEYWORD_GROUP),
     (PACK_4_LOWER (CHR ''b'') (CHR ''y'') (NUL) (NUL), 2, '''', TOKEN_KEYWORD_BY),
     (PACK_4_LOWER (CHR ''n'') (CHR ''u'') (CHR ''l'') (CHR ''l''), 4, '''', TOKEN_KEYWORD_NULL),
     (PACK_4_LOWER (CHR ''i'') (CHR ''s'') (NUL) (NUL), 2, '''', TOKEN_KEYWORD_IS),
     (PACK_4_LOWER (CHR ''n'') (CHR ''o'') (CHR ''t'') (NUL), 3, '''', TOKEN_KEYWORD_NOT),
     (PACK_4_LOWER (CHR ''i'') (CHR ''n'') (CHR ''d'') (CHR ''e''), 5, ''x'', TOKEN_KEYWORD_INDEX),
     (PACK_4_LOWER (CHR ''o'') (CHR ''n'') (NUL) (NUL), 2, '''', TOKEN_KEYWORD_ON),
     (PACK_4_LOWER (CHR ''j'') (CHR ''o'') (CHR ''i'') (CHR ''n''), 4, '''', TOKEN_KEYWORD_JOIN),
     (PACK_4_LOWER (CHR ''i'') (CHR ''n'') (CHR ''n'') (CHR ''e''), 5, ''r'', TOKEN_KEYWORD_INNER),
     (PACK_4_LOWER (CHR ''a'') (CHR ''s'') (NUL) (NUL), 2, '''', TOKEN_KEYWORD_AS),
     (PACK_4_LOWER (CHR ''b'') (CHR ''e'') (CHR ''g'') (CHR ''i''), 5, ''n'', TOKEN_KEYWORD_BEGIN),
     (PACK_4_LOWER (CHR ''c'') (CHR ''o'') (CHR ''m'') (CHR ''m''), 6, ''it'', TOKEN_KEYWORD_COMMIT),
     (PACK_4_LOWER (CHR ''r'') (CHR ''o'') (CHR ''l'') (CHR ''l''), 8, ''back'', TOKEN_KEYWORD_ROLLBACK),
     (PACK_4_LOWER (CHR ''f'') (CHR ''l'') (CHR ''o'') (CHR ''a''), 5, ''t'', TOKEN_KEYWORD_FLOAT),
     (PACK_4_LOWER (CHR ''d'') (CHR ''a'') (CHR ''t'') (CHR ''e''), 4, '''', TOKEN_KEYWORD_DATE),
     (PACK_4_LOWER (CHR ''v'') (CHR ''a'') (CHR ''r'') (CHR ''c''), 7, ''har'', TOKEN_KEYWORD_VARCHAR),
     (PACK_4_LOWER (CHR ''p'') (CHR ''r'') (CHR ''i'') (CHR ''m''), 7, ''ary'', TOKEN_KEYWORD_PRIMARY),
     (PACK_4_LOWER (CHR ''k'') (CHR ''e'') (CHR ''y'') (NUL), 3, '''', TOKEN_KEYWORD_KEY),
     (PACK_4_LOWER (CHR ''u'') (CHR ''n'') (CHR ''i'') (CHR ''q''), 6, ''ue'', TOKEN_KEYWORD_UNIQUE),
     (PACK_4_LOWER (CHR ''d'') (CHR ''e'') (CHR ''f'') (CHR ''a''), 7, ''ult'', TOKEN_KEYWORD_DEFAULT),
     (PACK_4_LOWER (CHR ''c'') (CHR ''h'') (CHR ''e'') (CHR ''c''), 5, ''k'', TOKEN_KEYWORD_CHECK),
     (PACK_4_LOWER (CHR ''a'') (CHR ''l'') (CHR ''t'') (CHR ''e''), 5, ''r'', TOKEN_KEYWORD_ALTER),
     (PACK_4_LOWER (CHR ''a'') (CHR ''d'') (CHR ''d'') (NUL), 3, '''', TOKEN_KEYWORD_ADD),
     (PACK_4_LOWER (CHR ''c'') (CHR ''o'') (CHR ''l'') (CHR ''u''), 6, ''mn'', TOKEN_KEYWORD_COLUMN),
     (PACK_4_LOWER (CHR ''r'') (CHR ''e'') (CHR ''n'') (CHR ''a''), 6, ''me'', TOKEN_KEYWORD_RENAME),
     (PACK_4_LOWER (CHR ''t'') (CHR ''o'') (NUL) (NUL), 2, '''', TOKEN_KEYWORD_TO),
     (PACK_4_LOWER (CHR ''l'') (CHR ''e'') (CHR ''f'') (CHR ''t''), 4, '''', TOKEN_KEYWORD_LEFT),
     (PACK_4_LOWER (CHR ''o'') (CHR ''u'') (CHR ''t'') (CHR ''e''), 5, ''r'', TOKEN_KEYWORD_OUTER),
     (PACK_4_LOWER (CHR ''i'') (CHR ''n'') (NUL) (NUL), 2, '''', TOKEN_KEYWORD_IN),
     (PACK_4_LOWER (CHR ''e'') (CHR ''x'') (CHR ''i'') (CHR ''s''), 6, ''ts'', TOKEN_KEYWORD_EXISTS),
     (PACK_4_LOWER (CHR ''d'') (CHR ''e'') (CHR ''l'') (CHR ''e''), 6, ''te'', TOKEN_KEYWORD_DELETE),
     (PACK_4_LOWER (CHR ''u'') (CHR ''p'') (CHR ''d'') (CHR ''a''), 6, ''te'', TOKEN_KEYWORD_UPDATE),
     (PACK_4_LOWER (CHR ''s'') (CHR ''e'') (CHR ''t'') (NUL), 3, '''', TOKEN_KEYWORD_SET),
     (PACK_4_LOWER (CHR ''v'') (CHR ''a'') (CHR ''c'') (CHR ''u''), 6, ''um'', TOKEN_KEYWORD_VACUUM),
     (PACK_4_LOWER (CHR ''o'') (CHR ''r'') (CHR ''d'') (CHR ''e''), 5, ''r'', TOKEN_KEYWORD_ORDER),
     (PACK_4_LOWER (CHR ''a'') (CHR ''s'') (CHR ''c'') (NUL), 3, '''', TOKEN_KEYWORD_ASC),
     (PACK_4_LOWER (CHR ''d'') (CHR ''e'') (CHR ''s'') (CHR ''c''), 4, '''', TOKEN_KEYWORD_DESC),
     (PACK_4_LOWER (CHR ''l'') (CHR ''i'') (CHR ''k'') (CHR ''e''), 4, '''', TOKEN_KEYWORD_LIKE),
     (PACK_4_LOWER (CHR ''a'') (CHR ''n'') (CHR ''d'') (NUL), 3, '''', TOKEN_KEYWORD_AND),
     (PACK_4_LOWER (CHR ''o'') (CHR ''r'') (NUL) (NUL), 2, '''', TOKEN_KEYWORD_OR),
     (PACK_4_LOWER (CHR ''l'') (CHR ''i'') (CHR ''m'') (CHR ''i''), 5, ''t'', TOKEN_KEYWORD_LIMIT),
     (PACK_4_LOWER (CHR ''d'') (CHR ''i'') (CHR ''s'') (CHR ''t''), 8, ''inct'', TOKEN_KEYWORD_DISTINCT),
     (PACK_4_LOWER (CHR ''h'') (CHR ''a'') (CHR ''v'') (CHR ''i''), 6, ''ng'', TOKEN_KEYWORD_HAVING),
     (PACK_4_LOWER (CHR ''d'') (CHR ''r'') (CHR ''o'') (CHR ''p''), 4, '''', TOKEN_KEYWORD_DROP),
     (PACK_4_LOWER (CHR ''d'') (CHR ''a'') (CHR ''t'') (CHR ''a''), 8, ''base'', TOKEN_KEYWORD_DATABASE),
     (PACK_4_LOWER (CHR ''u'') (CHR ''s'') (CHR ''e'') (NUL), 3, '''', TOKEN_KEYWORD_USE),
     (PACK_4_LOWER (CHR ''c'') (CHR ''r'') (CHR ''e'') (CHR ''a''), 6, ''te'', TOKEN_KEYWORD_CREATE),
     (PACK_4_LOWER (CHR ''t'') (CHR ''a'') (CHR ''b'') (CHR ''l''), 5, ''e'', TOKEN_KEYWORD_TABLE),
     (PACK_4_LOWER (CHR ''i'') (CHR ''n'') (CHR ''s'') (CHR ''e''), 6, ''rt'', TOKEN_KEYWORD_INSERT),
     (PACK_4_LOWER (CHR ''i'') (CHR ''n'') (CHR ''t'') (CHR ''o''), 4, '''', TOKEN_KEYWORD_INTO),
     (PACK_4_LOWER (CHR ''v'') (CHR ''a'') (CHR ''l'') (CHR ''u''), 6, ''es'', TOKEN_KEYWORD_VALUES),
     (PACK_4_LOWER (CHR ''i'') (CHR ''n'') (CHR ''t'') (NUL), 3, '''', TOKEN_KEYWORD_INT),
     (PACK_4_LOWER (CHR ''t'') (CHR ''e'') (CHR ''x'') (CHR ''t''), 4, '''', TOKEN_KEYWORD_TEXT)]"

text \<open>The word's first four bytes, zero-filled, loaded in the host's (little-endian) order and folded.\<close>

definition word_prefix :: "string \<Rightarrow> u32" where
  "word_prefix w =
     (let at = (\<lambda>i. of_nat (of_char (if i < length w then w ! i else NUL)))
      in PACK_4 (at 0) (at 1) (at 2) (at 3) OR 0x20202020)"

definition classifyWord :: "string \<Rightarrow> tokentype" where
  "classifyWord w =
     (if length w > KEYWORD_MAX then TOKEN_IDENTIFIER
      else case List.find (\<lambda>(label, _). label = word_prefix w) keyword_cases of
             None \<Rightarrow> TOKEN_IDENTIFIER
           | Some (_, n, rest, tok) \<Rightarrow>
               if length w = n \<and> (n \<le> 4 \<or> strnicmp (n - 4) (drop 4 w) rest) then tok else TOKEN_IDENTIFIER)"

subsection \<open>Scanning\<close>

text \<open>\<open>heldOk n\<close> is whether the arena could hold the text of the token numbered \<open>n\<close>.\<close>

definition pushToken :: "(nat \<Rightarrow> bool) \<Rightarrow> token list \<Rightarrow> tokentype \<Rightarrow> string \<Rightarrow> error + token list" where
  "pushToken heldOk out type v =
     (if length out = MAX_TOKENS then Inl ERROR_TOO_MANY_TOKENS
      else if \<not> heldOk (length out) then Inl ERROR_EXEC_OUT_OF_MEMORY
      else Inr (out @ [\<lparr>tokType = type, tokValue = v\<rparr>]))"

definition word_char :: "char \<Rightarrow> bool" where "word_char c \<longleftrightarrow> is_alnum c \<or> c = CHR ''_''"

fun starts :: "(char \<Rightarrow> bool) \<Rightarrow> string \<Rightarrow> bool" where
  "starts P [] = False"
| "starts P (c # cs) = P c"

text \<open>A word and what follows it; \<open>n\<close> bytes are already in the buffer.\<close>

fun read_word :: "nat \<Rightarrow> string \<Rightarrow> error + string \<times> string" where
  "read_word n [] = Inr ([], [])"
| "read_word n (c # cs) =
     (if word_char c \<or> (c = CHR ''.'' \<and> starts word_char cs)
      then if n \<ge> VALUE_LEN - 1 then Inl ERROR_TOKEN_TOO_LONG
           else (case read_word (Suc n) cs of Inl e \<Rightarrow> Inl e | Inr (w, rest) \<Rightarrow> Inr (c # w, rest))
      else Inr ([], c # cs))"

fun read_number :: "nat \<Rightarrow> bool \<Rightarrow> string \<Rightarrow> error + string \<times> string" where
  "read_number n dot [] = Inr ([], [])"
| "read_number n dot (c # cs) =
     (if is_digit c \<or> (c = CHR ''.'' \<and> \<not> dot \<and> starts is_digit cs)
      then if n \<ge> VALUE_LEN - 1 then Inl ERROR_TOKEN_TOO_LONG
           else (case read_number (Suc n) (dot \<or> c = CHR ''.'') cs of
                   Inl e \<Rightarrow> Inl e | Inr (w, rest) \<Rightarrow> Inr (c # w, rest))
      else Inr ([], c # cs))"

definition QUOTE :: char where "QUOTE = CHR 0x27"

text \<open>From behind the opening quote; a doubled quote is one quote of the text.\<close>

fun readString :: "nat \<Rightarrow> string \<Rightarrow> error + string \<times> string" where
  "readString n [] = Inl ERROR_UNTERMINATED_STRING"
| "readString n (c # cs) =
     (if c = QUOTE
      then case cs of
             d # ds \<Rightarrow>
               if d \<noteq> QUOTE then Inr ([], cs)
               else if n \<ge> VALUE_LEN - 1 then Inl ERROR_TOKEN_TOO_LONG
               else (case readString (Suc n) ds of Inl e \<Rightarrow> Inl e | Inr (w, rest) \<Rightarrow> Inr (QUOTE # w, rest))
           | [] \<Rightarrow> Inr ([], [])
      else if n \<ge> VALUE_LEN - 1 then Inl ERROR_TOKEN_TOO_LONG
      else (case readString (Suc n) cs of Inl e \<Rightarrow> Inl e | Inr (w, rest) \<Rightarrow> Inr (c # w, rest)))"

text \<open>The type of the operator a text starts with and how many bytes it takes.\<close>

definition readOperator :: "string \<Rightarrow> error + tokentype \<times> nat" where
  "readOperator cs =
     (let two = take 2 cs; one = take 1 cs
      in if two = ''<='' then Inr (TOKEN_OPERATOR_LTE, 2)
         else if two = ''>='' then Inr (TOKEN_OPERATOR_GTE, 2)
         else if two = ''<>'' then Inr (TOKEN_OPERATOR_NE, 2)
         else if two = ''!='' then Inr (TOKEN_OPERATOR_NE, 2)
         else if one = ''<'' then Inr (TOKEN_OPERATOR_LT, 1)
         else if one = ''>'' then Inr (TOKEN_OPERATOR_GT, 1)
         else if one = ''='' then Inr (TOKEN_OPERATOR_EQ, 1)
         else Inl ERROR_UNKNOWN_TOKEN)"

definition symbol_token :: "char \<Rightarrow> tokentype option" where
  "symbol_token c =
     (if c = CHR ''*'' then Some TOKEN_STAR else if c = CHR '','' then Some TOKEN_COMMA
      else if c = CHR ''('' then Some TOKEN_LPAREN else if c = CHR '')'' then Some TOKEN_RPAREN
      else if c = CHR '';'' then Some TOKEN_SEMICOLON else if c = CHR ''-'' then Some TOKEN_MINUS
      else if c = CHR ''+'' then Some TOKEN_PLUS else if c = CHR ''/'' then Some TOKEN_SLASH
      else if c = CHR ''%'' then Some TOKEN_PERCENT else None)"

text \<open>The token at the front of a text that is neither blank nor a comment: type, value, what follows.\<close>

definition next_token :: "string \<Rightarrow> error + tokentype \<times> string \<times> string" where
  "next_token cs =
     (let c = hd cs
      in if is_alpha c \<or> c = CHR ''_'' then
           (case read_word 0 cs of Inl e \<Rightarrow> Inl e | Inr (w, rest) \<Rightarrow> Inr (classifyWord w, w, rest))
         else if is_digit c then
           (case read_number 0 False cs of Inl e \<Rightarrow> Inl e | Inr (w, rest) \<Rightarrow> Inr (TOKEN_NUMBER, w, rest))
         else if c = QUOTE then
           (case readString 0 (tl cs) of Inl e \<Rightarrow> Inl e | Inr (w, rest) \<Rightarrow> Inr (TOKEN_STRING, w, rest))
         else if c \<in> {CHR ''<'', CHR ''>'', CHR ''='', CHR ''!''} then
           (case readOperator cs of Inl e \<Rightarrow> Inl e | Inr (type, n) \<Rightarrow> Inr (type, take n cs, drop n cs))
         else case symbol_token c of None \<Rightarrow> Inl ERROR_UNKNOWN_TOKEN | Some type \<Rightarrow> Inr (type, [c], tl cs))"

lemma read_word_rest: "read_word n cs = Inr (w, rest) \<Longrightarrow> cs = w @ rest"
  by (induction n cs arbitrary: w rest rule: read_word.induct) (auto split: if_splits sum.splits)

lemma read_number_rest: "read_number n dot cs = Inr (w, rest) \<Longrightarrow> cs = w @ rest"
  by (induction n dot cs arbitrary: w rest rule: read_number.induct) (auto split: if_splits sum.splits)

lemma readString_rest: "readString n cs = Inr (w, rest) \<Longrightarrow> length rest < length cs"
proof (induction n cs arbitrary: w rest rule: readString.induct)
  case (2 n c cs)
  then show ?case by (fastforce split: if_splits sum.splits list.splits)
qed simp

lemma readOperator_length: "readOperator xs = Inr (t, n) \<Longrightarrow> 0 < n"
  by (auto simp: readOperator_def Let_def split: if_splits)

lemma next_token_shorter: "next_token (c # ds) = Inr (type, v, rest) \<Longrightarrow> length rest < length (c # ds)"
proof -
  assume tok: "next_token (c # ds) = Inr (type, v, rest)"
  consider (word) "is_alpha c \<or> c = CHR ''_''" | (number) "\<not> (is_alpha c \<or> c = CHR ''_'')" "is_digit c"
    | (string) "\<not> (is_alpha c \<or> c = CHR ''_'')" "\<not> is_digit c" "c = QUOTE"
    | (op) "\<not> (is_alpha c \<or> c = CHR ''_'')" "\<not> is_digit c" "c \<noteq> QUOTE" "c \<in> {CHR ''<'', CHR ''>'', CHR ''='', CHR ''!''}"
    | (symbol) "\<not> (is_alpha c \<or> c = CHR ''_'')" "\<not> is_digit c" "c \<noteq> QUOTE" "c \<notin> {CHR ''<'', CHR ''>'', CHR ''='', CHR ''!''}"
    by blast
  then show "length rest < length (c # ds)"
  proof cases
    case word
    then obtain w where w: "read_word 0 (c # ds) = Inr (w, rest)"
      using tok by (cases "read_word 0 (c # ds)") (auto simp: next_token_def)
    then have "w \<noteq> []" using word by (auto simp: word_char_def is_alnum_def VALUE_LEN_def split: if_splits sum.splits)
    then show ?thesis using read_word_rest [OF w] by (cases w) auto
  next
    case number
    then obtain w where w: "read_number 0 False (c # ds) = Inr (w, rest)"
      using tok by (cases "read_number 0 False (c # ds)") (auto simp: next_token_def)
    then have "w \<noteq> []" using number by (auto simp: VALUE_LEN_def split: if_splits sum.splits)
    then show ?thesis using read_number_rest [OF w] by (cases w) auto
  next
    case string
    then obtain w where "readString 0 ds = Inr (w, rest)"
      using tok by (cases "readString 0 ds") (auto simp: next_token_def)
    then show ?thesis using readString_rest by fastforce
  next
    case op
    then obtain t n where n: "readOperator (c # ds) = Inr (t, n)" "rest = drop n (c # ds)"
      using tok by (cases "readOperator (c # ds)") (auto simp: next_token_def)
    then show ?thesis using readOperator_length [OF n(1)] by (cases n) auto
  next
    case symbol
    then show ?thesis using tok by (cases "symbol_token c") (auto simp: next_token_def)
  qed
qed

function tokenize :: "(nat \<Rightarrow> bool) \<Rightarrow> string \<Rightarrow> token list \<Rightarrow> error + token list" where
  "tokenize heldOk cs out =
     (if cs = [] then Inr out
      else if is_space (hd cs) then tokenize heldOk (tl cs) out
      else if take 2 cs = ''--'' then Inr out
      else case next_token cs of
             Inl e \<Rightarrow> Inl e
           | Inr (type, v, rest) \<Rightarrow>
               (case pushToken heldOk out type v of Inl e \<Rightarrow> Inl e | Inr out \<Rightarrow> tokenize heldOk rest out))"
  by pat_completeness auto

termination
proof (relation "measure (\<lambda>(_, cs, _). length cs)", goal_cases)
  case (3 heldOk cs out x type z v rest out')
  then show ?case by (cases cs) (auto dest: next_token_shorter)
qed auto

declare tokenize.simps [simp del]

text \<open>The text is what stands before the first NUL.\<close>

definition tokenizeStatement :: "(nat \<Rightarrow> bool) \<Rightarrow> string \<Rightarrow> error + token list" where
  "tokenizeStatement heldOk sql = tokenize heldOk (takeWhile (\<lambda>c. c \<noteq> NUL) sql) []"

text \<open>The keywords, as words.\<close>

definition keyword_table :: "(string \<times> tokentype) list" where
  "keyword_table = [
     (''select'', TOKEN_KEYWORD_SELECT),
     (''from'', TOKEN_KEYWORD_FROM),
     (''where'', TOKEN_KEYWORD_WHERE),
     (''group'', TOKEN_KEYWORD_GROUP),
     (''by'', TOKEN_KEYWORD_BY),
     (''null'', TOKEN_KEYWORD_NULL),
     (''is'', TOKEN_KEYWORD_IS),
     (''not'', TOKEN_KEYWORD_NOT),
     (''index'', TOKEN_KEYWORD_INDEX),
     (''on'', TOKEN_KEYWORD_ON),
     (''join'', TOKEN_KEYWORD_JOIN),
     (''inner'', TOKEN_KEYWORD_INNER),
     (''as'', TOKEN_KEYWORD_AS),
     (''begin'', TOKEN_KEYWORD_BEGIN),
     (''commit'', TOKEN_KEYWORD_COMMIT),
     (''rollback'', TOKEN_KEYWORD_ROLLBACK),
     (''float'', TOKEN_KEYWORD_FLOAT),
     (''date'', TOKEN_KEYWORD_DATE),
     (''varchar'', TOKEN_KEYWORD_VARCHAR),
     (''primary'', TOKEN_KEYWORD_PRIMARY),
     (''key'', TOKEN_KEYWORD_KEY),
     (''unique'', TOKEN_KEYWORD_UNIQUE),
     (''default'', TOKEN_KEYWORD_DEFAULT),
     (''check'', TOKEN_KEYWORD_CHECK),
     (''alter'', TOKEN_KEYWORD_ALTER),
     (''add'', TOKEN_KEYWORD_ADD),
     (''column'', TOKEN_KEYWORD_COLUMN),
     (''rename'', TOKEN_KEYWORD_RENAME),
     (''to'', TOKEN_KEYWORD_TO),
     (''left'', TOKEN_KEYWORD_LEFT),
     (''outer'', TOKEN_KEYWORD_OUTER),
     (''in'', TOKEN_KEYWORD_IN),
     (''exists'', TOKEN_KEYWORD_EXISTS),
     (''delete'', TOKEN_KEYWORD_DELETE),
     (''update'', TOKEN_KEYWORD_UPDATE),
     (''set'', TOKEN_KEYWORD_SET),
     (''vacuum'', TOKEN_KEYWORD_VACUUM),
     (''order'', TOKEN_KEYWORD_ORDER),
     (''asc'', TOKEN_KEYWORD_ASC),
     (''desc'', TOKEN_KEYWORD_DESC),
     (''like'', TOKEN_KEYWORD_LIKE),
     (''and'', TOKEN_KEYWORD_AND),
     (''or'', TOKEN_KEYWORD_OR),
     (''limit'', TOKEN_KEYWORD_LIMIT),
     (''distinct'', TOKEN_KEYWORD_DISTINCT),
     (''having'', TOKEN_KEYWORD_HAVING),
     (''drop'', TOKEN_KEYWORD_DROP),
     (''database'', TOKEN_KEYWORD_DATABASE),
     (''use'', TOKEN_KEYWORD_USE),
     (''create'', TOKEN_KEYWORD_CREATE),
     (''table'', TOKEN_KEYWORD_TABLE),
     (''insert'', TOKEN_KEYWORD_INSERT),
     (''into'', TOKEN_KEYWORD_INTO),
     (''values'', TOKEN_KEYWORD_VALUES),
     (''int'', TOKEN_KEYWORD_INT),
     (''text'', TOKEN_KEYWORD_TEXT)]"


subsection \<open>The dispatch is the keyword table\<close>

definition char_at :: "string \<Rightarrow> nat \<Rightarrow> char" where
  "char_at w i = (if i < length w then w ! i else NUL)"

lemma or_32: "x OR 32 = (if bit x 5 then x else x + 32)" for x :: nat
proof -
  have "set_bit 5 x = x OR 32" by (simp add: set_bit_eq_or push_bit_eq_mult)
  then show ?thesis using set_bit_eq [of 5 x] by (cases "bit x 5") auto
qed

lemma of_char_less: "(of_char c :: nat) < 256"
  using of_char_mod_256 [of c, where 'a = nat] by (metis mod_less_divisor zero_less_numeral)

lemma FOLD_unat: "unat (FOLD c) = of_char c OR 32"
proof -
  have "FOLD c = of_nat (of_char c OR 32)"
    by (simp add: FOLD_def of_nat_or_eq)
  moreover have "(of_char c OR 32 :: nat) < 4294967296"
  proof (cases "bit (of_char c :: nat) 5")
    case True
    then show ?thesis unfolding or_32 if_P [OF True] using of_char_less [of c] by linarith
  next
    case False
    then show ?thesis unfolding or_32 if_not_P [OF False] using of_char_less [of c] by linarith
  qed
  ultimately show ?thesis by (simp add: unat_of_nat)
qed

lemma FOLD_eq_iff: "FOLD c = FOLD d \<longleftrightarrow> (of_char c OR 32 :: nat) = of_char d OR 32"
  by (metis FOLD_unat word_unat_eq_iff)

definition lower_or_NUL :: "char \<Rightarrow> bool" where "lower_or_NUL d \<longleftrightarrow> is_lower d \<or> d = NUL"

lemma bit5: "bit (n :: nat) 5 \<longleftrightarrow> odd (n div 32)"
  by (simp add: bit_iff_odd)

lemma div_32: "k * 32 \<le> n \<Longrightarrow> n < Suc k * 32 \<Longrightarrow> n div 32 = k" for n k :: nat
  by (rule div_nat_eqI) simp_all

lemma bit5_word:
  fixes n :: nat
  assumes "n = 0 \<or> n = 46 \<or> (48 \<le> n \<and> n \<le> 57) \<or> (65 \<le> n \<and> n \<le> 90) \<or> n = 95 \<or> (97 \<le> n \<and> n \<le> 122)"
  shows "bit n 5 \<longleftrightarrow> n = 46 \<or> (48 \<le> n \<and> n \<le> 57) \<or> (97 \<le> n \<and> n \<le> 122)"
  using assms
proof (elim disjE conjE)
  assume "65 \<le> n" "n \<le> 90"
  then show ?thesis using div_32 [of 2 n] by (auto simp: bit5)
next
  assume "48 \<le> n" "n \<le> 57"
  then show ?thesis using div_32 [of 1 n] by (auto simp: bit5)
next
  assume "97 \<le> n" "n \<le> 122"
  then show ?thesis using div_32 [of 3 n] by (auto simp: bit5)
qed (simp_all add: bit5)

lemma fold_cases:
  fixes x y :: nat
  assumes "x = 0 \<or> x = 46 \<or> (48 \<le> x \<and> x \<le> 57) \<or> (65 \<le> x \<and> x \<le> 90) \<or> x = 95 \<or> (97 \<le> x \<and> x \<le> 122)"
    and "y = 0 \<or> (97 \<le> y \<and> y \<le> 122)"
  shows "(if bit x 5 then x else x + 32) = (if bit y 5 then y else y + 32) \<longleftrightarrow>
    (if 65 \<le> x \<and> x \<le> 90 then x + 32 else x) = y"
proof -
  have "bit y 5 \<longleftrightarrow> 97 \<le> y" using bit5_word [of y] assms(2) by auto
  then show ?thesis unfolding bit5_word [OF assms(1)] using assms by auto
qed

lemma FOLD_lower:
  assumes "lower_or_NUL d" "word_char c \<or> c = CHR ''.'' \<or> c = NUL"
  shows "FOLD c = FOLD d \<longleftrightarrow> to_lower c = d"
proof -
  let ?c = "of_char c :: nat" and ?d = "of_char d :: nat"
  have c: "?c = 0 \<or> ?c = 46 \<or> (48 \<le> ?c \<and> ?c \<le> 57) \<or> (65 \<le> ?c \<and> ?c \<le> 90) \<or> ?c = 95 \<or> (97 \<le> ?c \<and> ?c \<le> 122)"
    using assms(2) by (auto simp: word_char_def is_alnum_def is_alpha_def is_upper_def is_lower_def is_digit_def NUL_def)
  have d: "?d = 0 \<or> (97 \<le> ?d \<and> ?d \<le> 122)" using assms(1) by (auto simp: lower_or_NUL_def is_lower_def NUL_def)
  have low: "(of_char (to_lower c) :: nat) = (if 65 \<le> ?c \<and> ?c \<le> 90 then ?c + 32 else ?c)"
    by (auto simp: to_lower_def is_upper_def)
  have "to_lower c = d \<longleftrightarrow> (of_char (to_lower c) :: nat) = ?d" by simp
  then show ?thesis unfolding FOLD_eq_iff or_32 low using fold_cases [OF c d] by simp
qed

definition is_byte :: "u32 \<Rightarrow> bool" where "is_byte x \<longleftrightarrow> (\<forall>n \<ge> 8. \<not> bit x n)"

lemma is_byte_FOLD: "is_byte (FOLD c)"
  unfolding is_byte_def
proof (intro allI impI)
  fix n :: nat assume n: "8 \<le> n"
  have "take_bit 8 (of_char c :: nat) = of_char c" using of_char_less [of c] by (simp add: take_bit_eq_mod)
  then have "\<not> bit (of_char c :: nat) n" using n by (metis bit_take_bit_iff not_le)
  moreover have "(32 :: u32) = 2 ^ 5" by simp
  then have "\<not> bit (32 :: u32) n" using n by (simp only: bit_exp_iff) simp
  ultimately show "\<not> bit (FOLD c) n" by (simp add: FOLD_def bit_simps)
qed

lemma is_byte_eqI: "is_byte x \<Longrightarrow> is_byte y \<Longrightarrow> (\<And>n. n < 8 \<Longrightarrow> bit x n = bit y n) \<Longrightarrow> x = y"
  by (rule bit_word_eqI) (metis is_byte_def not_le)

lemma PACK_4_bit:
  assumes "is_byte a" "is_byte b" "is_byte c" "is_byte d" "n < 8"
  shows "bit (PACK_4 a b c d) n = bit a n" "bit (PACK_4 a b c d) (n + 8) = bit b n"
    "bit (PACK_4 a b c d) (n + 16) = bit c n" "bit (PACK_4 a b c d) (n + 24) = bit d n"
  using assms by (auto simp: PACK_4_def bit_simps is_byte_def)

lemma PACK_4_LOWER_inj:
  "PACK_4_LOWER a b c d = PACK_4_LOWER a' b' c' d' \<longleftrightarrow>
   FOLD a = FOLD a' \<and> FOLD b = FOLD b' \<and> FOLD c = FOLD c' \<and> FOLD d = FOLD d'"
proof
  assume eq: "PACK_4_LOWER a b c d = PACK_4_LOWER a' b' c' d'"
  note p = PACK_4_bit [OF is_byte_FOLD is_byte_FOLD is_byte_FOLD is_byte_FOLD, of _ a b c d, folded PACK_4_LOWER_def]
  note q = PACK_4_bit [OF is_byte_FOLD is_byte_FOLD is_byte_FOLD is_byte_FOLD, of _ a' b' c' d', folded PACK_4_LOWER_def]
  show "FOLD a = FOLD a' \<and> FOLD b = FOLD b' \<and> FOLD c = FOLD c' \<and> FOLD d = FOLD d'"
  proof (intro conjI)
    show "FOLD a = FOLD a'" by (rule is_byte_eqI [OF is_byte_FOLD is_byte_FOLD]) (use p(1) q(1) eq in simp)
    show "FOLD b = FOLD b'" by (rule is_byte_eqI [OF is_byte_FOLD is_byte_FOLD]) (use p(2) q(2) eq in simp)
    show "FOLD c = FOLD c'" by (rule is_byte_eqI [OF is_byte_FOLD is_byte_FOLD]) (use p(3) q(3) eq in simp)
    show "FOLD d = FOLD d'" by (rule is_byte_eqI [OF is_byte_FOLD is_byte_FOLD]) (use p(4) q(4) eq in simp)
  qed
qed (simp add: PACK_4_LOWER_def)

lemma word_prefix_pack: "word_prefix w = PACK_4_LOWER (char_at w 0) (char_at w 1) (char_at w 2) (char_at w 3)"
proof -
  have "(0x20202020 :: u32) = 0x20 OR push_bit 8 0x20 OR push_bit 16 0x20 OR push_bit 24 0x20"
    by (simp add: push_bit_eq_mult)
  then show ?thesis
    unfolding word_prefix_def Let_def PACK_4_LOWER_def PACK_4_def FOLD_def char_at_def
    by (simp only: push_bit_or ac_simps)
qed

text \<open>A word as the lexer reads one, and what a label says of it.\<close>

definition word_text :: "string \<Rightarrow> bool" where
  "word_text w \<longleftrightarrow> (\<forall>c \<in> set w. word_char c \<or> c = CHR ''.'')"

definition label_of :: "string \<Rightarrow> u32" where
  "label_of k = PACK_4_LOWER (char_at k 0) (char_at k 1) (char_at k 2) (char_at k 3)"

definition keyword_case :: "string \<times> tokentype \<Rightarrow> u32 \<times> nat \<times> string \<times> tokentype" where
  "keyword_case = (\<lambda>(k, tok). (label_of k, length k, drop 4 k, tok))"

lemma keyword_cases_table: "keyword_cases = map keyword_case keyword_table"
  by (simp add: keyword_cases_def keyword_table_def keyword_case_def label_of_def char_at_def)

lemma keyword_words: "\<forall>(k, tok) \<in> set keyword_table. length k \<le> 8 \<and> list_all is_lower k"
  by code_simp

lemma keyword_heads: "distinct (map (take 4 \<circ> fst) keyword_table)"
  by code_simp

lemma to_lower_idem [simp]: "to_lower (to_lower c) = to_lower c"
  by (cases "is_upper c") (auto simp: to_lower_def is_upper_def)

lemma take_4_eq:
  "take 4 v = take 4 k \<longleftrightarrow> (\<forall>i < 4. (i < length v \<longleftrightarrow> i < length k) \<and> (i < length v \<longrightarrow> v ! i = k ! i))"
proof
  assume eq: "take 4 v = take 4 k"
  then have len: "min (length v) 4 = min (length k) 4" by (metis length_take min.commute)
  show "\<forall>i < 4. (i < length v \<longleftrightarrow> i < length k) \<and> (i < length v \<longrightarrow> v ! i = k ! i)"
  proof (intro allI impI conjI)
    fix i :: nat assume i: "i < 4"
    show "i < length v \<longleftrightarrow> i < length k" using len i by linarith
    assume "i < length v"
    then show "v ! i = k ! i" using eq i by (metis nth_take)
  qed
next
  assume all: "\<forall>i < 4. (i < length v \<longleftrightarrow> i < length k) \<and> (i < length v \<longrightarrow> v ! i = k ! i)"
  have "min (length v) 4 = min (length k) 4"
    using all [rule_format, of 0] all [rule_format, of 1] all [rule_format, of 2] all [rule_format, of 3] by linarith
  then show "take 4 v = take 4 k" using all by (intro nth_equalityI) auto
qed

lemma to_lower_nonzero: "word_char c \<or> c = CHR ''.'' \<Longrightarrow> to_lower c \<noteq> NUL"
proof -
  assume c: "word_char c \<or> c = CHR ''.''"
  have low: "(of_char (to_lower c) :: nat) = (if 65 \<le> (of_char c :: nat) \<and> (of_char c :: nat) \<le> 90 then of_char c + 32 else of_char c)"
    by (auto simp: to_lower_def is_upper_def)
  have "(of_char c :: nat) \<noteq> 0"
    using c by (auto simp: word_char_def is_alnum_def is_alpha_def is_upper_def is_lower_def is_digit_def)
  then have "(of_char (to_lower c) :: nat) \<noteq> 0" unfolding low by simp
  then show "to_lower c \<noteq> NUL" by (auto simp: NUL_def)
qed

lemma prefix_label:
  assumes w: "word_text w" and k: "list_all is_lower k"
  shows "word_prefix w = label_of k \<longleftrightarrow> take 4 (map to_lower w) = take 4 k"
proof -
  have one: "FOLD (char_at w i) = FOLD (char_at k i) \<longleftrightarrow> to_lower (char_at w i) = char_at k i" for i
    by (rule FOLD_lower)
       (use w k in \<open>auto simp: char_at_def lower_or_NUL_def word_text_def list_all_iff\<close>)
  have nul: "to_lower NUL = NUL" "\<And>c. word_char c \<or> c = CHR ''.'' \<Longrightarrow> to_lower c \<noteq> NUL" "\<And>c. is_lower c \<Longrightarrow> c \<noteq> NUL"
    by (simp add: NUL_def to_lower_def is_upper_def, rule to_lower_nonzero, assumption) (auto simp: NUL_def is_lower_def)
  have two: "to_lower (char_at w i) = char_at k i \<longleftrightarrow>
      (i < length (map to_lower w) \<longleftrightarrow> i < length k) \<and> (i < length (map to_lower w) \<longrightarrow> map to_lower w ! i = k ! i)" for i
  proof -
    have a: "to_lower (w ! i) \<noteq> NUL" if "i < length w"
      using w nth_mem [OF that] by (intro nul(2)) (simp add: word_text_def)
    have b: "k ! i \<noteq> NUL" if "i < length k" using k that by (intro nul(3)) (simp add: list_all_length)
    show ?thesis
    proof (cases "i < length w"; cases "i < length k")
      assume "i < length w" "\<not> i < length k"
      then show ?thesis using a by (simp add: char_at_def)
    next
      assume "\<not> i < length w" "i < length k"
      then show ?thesis using b nul(1) by (auto simp: char_at_def)
    qed (simp_all add: char_at_def nul(1))
  qed
  have four: "(\<forall>i < 4. P i) \<longleftrightarrow> P 0 \<and> P 1 \<and> P 2 \<and> P (3 :: nat)" for P
    by (auto simp: less_Suc_eq numeral_eq_Suc)
  show ?thesis
    unfolding word_prefix_pack label_of_def PACK_4_LOWER_inj one two take_4_eq four by blast
qed

lemma keyword_shape:
  assumes "(k, tok) \<in> set keyword_table"
  shows "length k \<le> 8" and "list_all is_lower k"
  using keyword_words assms by auto

lemma keyword_head_unique:
  assumes "(k, tok) \<in> set keyword_table" "(k', tok') \<in> set keyword_table" "take 4 k = take 4 k'"
  shows "k = k' \<and> tok = tok'"
  using keyword_heads assms by (force simp: distinct_map inj_on_def)

lemma lower_fixed: "list_all is_lower k \<Longrightarrow> map to_lower k = k"
  by (induction k) (auto simp: to_lower_def is_lower_def is_upper_def)

lemma keyword_match_iff:
  assumes "list_all is_lower k" "take 4 (map to_lower w) = take 4 k"
  shows "length w = length k \<and> (length k \<le> 4 \<or> strnicmp (length k - 4) (drop 4 w) (drop 4 k)) \<longleftrightarrow> map to_lower w = k"
    (is "?match \<longleftrightarrow> ?lw = k")
proof
  note low = lower_fixed [OF assms(1)]
  assume match: ?match
  have "drop 4 ?lw = drop 4 k"
  proof (cases "length k \<le> 4")
    case True
    then show ?thesis using match by simp
  next
    case False
    then have "strnicmp (length k - 4) (drop 4 w) (drop 4 k)" and "length w = length k" using match by auto
    then have "map to_lower (drop 4 w) = map to_lower (drop 4 k)" by (simp add: strnicmp_def)
    also have "\<dots> = drop 4 k" using low by (metis drop_map)
    finally show ?thesis by (simp add: drop_map)
  qed
  then show "?lw = k" using assms(2) append_take_drop_id [of 4 ?lw] append_take_drop_id [of 4 k] by argo
next
  assume eq: "?lw = k"
  then have len: "length w = length k" by (metis length_map)
  have "map to_lower (drop 4 w) = map to_lower (drop 4 k)" using lower_fixed [OF assms(1)] eq by (metis drop_map)
  then show ?match using len by (simp add: strnicmp_def)
qed

lemma find_case_None:
  assumes "word_text w" "List.find (\<lambda>(label, _ :: nat \<times> string \<times> tokentype). label = word_prefix w) keyword_cases = None"
  shows "map_of keyword_table (map to_lower w) = None"
proof (rule ccontr)
  let ?lw = "map to_lower w"
  assume "map_of keyword_table ?lw \<noteq> None"
  then obtain tok where t: "(?lw, tok) \<in> set keyword_table" by (auto dest: map_of_SomeD)
  then have "word_prefix w = label_of ?lw" using prefix_label [OF assms(1) keyword_shape(2) [OF t]] by simp
  then have "fst (keyword_case (?lw, tok)) = word_prefix w" by (simp add: keyword_case_def)
  moreover have "keyword_case (?lw, tok) \<in> set keyword_cases" using t by (simp add: keyword_cases_table)
  ultimately show False using assms(2) [unfolded find_None_iff] by (metis (mono_tags, lifting) case_prod_beta)
qed

lemma find_case_Some:
  assumes "word_text w"
    and "List.find (\<lambda>(label, _ :: nat \<times> string \<times> tokentype). label = word_prefix w) keyword_cases = Some x"
  obtains k tok where "(k, tok) \<in> set keyword_table" "x = (label_of k, length k, drop 4 k, tok)"
    "take 4 (map to_lower w) = take 4 k"
proof -
  have x: "x \<in> set keyword_cases" "fst x = word_prefix w"
    using assms(2) by (auto simp: find_Some_iff dest: nth_mem)
  then obtain k tok where k: "(k, tok) \<in> set keyword_table" "x = (label_of k, length k, drop 4 k, tok)"
    by (auto simp: keyword_cases_table keyword_case_def)
  then have "take 4 (map to_lower w) = take 4 k"
    using x(2) prefix_label [OF assms(1) keyword_shape(2) [OF k(1)]] by simp
  then show thesis using that k by blast
qed

lemma map_of_keyword:
  assumes "(k, tok) \<in> set keyword_table" "take 4 l = take 4 k"
  shows "map_of keyword_table l = (if l = k then Some tok else None)"
proof (cases "map_of keyword_table l")
  case None
  then show ?thesis using assms(1) by (metis map_of_eq_None_iff fst_conv image_eqI)
next
  case (Some t)
  then have "(l, t) \<in> set keyword_table" by (rule map_of_SomeD)
  then show ?thesis using Some keyword_head_unique [OF _ assms] by auto
qed

lemma long_word_no_keyword: "KEYWORD_MAX < length w \<Longrightarrow> map_of keyword_table (map to_lower w) = None"
  using keyword_shape(1) [of "map to_lower w"]
  by (cases "map_of keyword_table (map to_lower w)") (auto dest: map_of_SomeD simp: KEYWORD_MAX_def)

text \<open>
  C15: the packed dispatch is the keyword table. For every word the lexer can read, \<open>classifyWord\<close>
  gives the keyword the word is without case, and an identifier when it is none: no word is taken
  for a keyword by its first four bytes, and none is missed for its case or its length.
\<close>
theorem classify_is_lookup:
  assumes "word_text w"
  shows "classifyWord w = (case map_of keyword_table (map to_lower w) of Some tok \<Rightarrow> tok | None \<Rightarrow> TOKEN_IDENTIFIER)"
proof (cases "length w > KEYWORD_MAX")
  case True
  then show ?thesis using long_word_no_keyword [OF True] by (simp add: classifyWord_def)
next
  case False
  let ?find = "List.find (\<lambda>(label, _ :: nat \<times> string \<times> tokentype). label = word_prefix w) keyword_cases"
  have run: "classifyWord w = (case ?find of
           None \<Rightarrow> TOKEN_IDENTIFIER
         | Some (_, n, rest, tok) \<Rightarrow>
             if length w = n \<and> (n \<le> 4 \<or> strnicmp (n - 4) (drop 4 w) rest) then tok else TOKEN_IDENTIFIER)"
    using False by (simp add: classifyWord_def)
  show ?thesis
  proof (cases ?find)
    case None
    then show ?thesis using run find_case_None [OF assms None] by simp
  next
    case (Some x)
    from find_case_Some [OF assms Some] obtain k tok where k: "(k, tok) \<in> set keyword_table"
      "x = (label_of k, length k, drop 4 k, tok)" "take 4 (map to_lower w) = take 4 k" .
    have "classifyWord w = (if map to_lower w = k then tok else TOKEN_IDENTIFIER)"
      using run Some k(2) keyword_match_iff [OF keyword_shape(2) [OF k(1)] k(3)] by simp
    then show ?thesis using map_of_keyword [OF k(1,3)] by simp
  qed
qed

theorem classify_is_lookup_witness: "classifyWord ''RollBack'' = TOKEN_KEYWORD_ROLLBACK"
proof -
  have "word_text ''RollBack''" by code_simp
  moreover have "map_of keyword_table (map to_lower ''RollBack'') = Some TOKEN_KEYWORD_ROLLBACK" by code_simp
  ultimately show ?thesis using classify_is_lookup [of "''RollBack''"] by simp
qed

end
