(* ===== verification/Lexing.thy ===== *)
theory Lexing
  imports Lexer
begin

text \<open>
  What the lexer gives: string literals come back as they were quoted, and what the parser is
  handed is bounded and well formed.
\<close>

subsection \<open>String literals\<close>

text \<open>A text as a client writes it in a statement: every quote of it doubled.\<close>

definition doubled :: "string \<Rightarrow> string" where
  "doubled w = concat (map (\<lambda>c. if c = QUOTE then [QUOTE, QUOTE] else [c]) w)"

lemma readString_doubled:
  "\<lbrakk>n + length w < VALUE_LEN; \<not> starts (\<lambda>c. c = QUOTE) rest\<rbrakk>
   \<Longrightarrow> readString n (doubled w @ QUOTE # rest) = Inr (w, rest)"
proof (induction w arbitrary: n)
  case Nil
  then show ?case by (cases rest) (simp_all add: doubled_def)
next
  case (Cons c w)
  then have "readString (Suc n) (doubled w @ QUOTE # rest) = Inr (w, rest)" "\<not> n \<ge> VALUE_LEN - 1" by auto
  then show ?case by (simp add: doubled_def)
qed

lemma doubled_NUL: "NUL \<notin> set w \<Longrightarrow> NUL \<notin> set (doubled w)"
  by (auto simp: doubled_def QUOTE_def NUL_def)

lemma takeWhile_all: "x \<notin> set xs \<Longrightarrow> takeWhile (\<lambda>c. c \<noteq> x) xs = xs"
  by (induction xs) auto

text \<open>
  A quoted text comes back as written. The literal made of any text shorter than the token
  buffer, its quotes doubled, is one string token whose value is the text: quotes, dashes,
  keywords and operators inside it are text.
\<close>
theorem string_literal_roundtrip:
  assumes "length w < VALUE_LEN" "NUL \<notin> set w" "heldOk 0"
  shows "tokenizeStatement heldOk (QUOTE # doubled w @ [QUOTE]) = Inr [\<lparr>tokType = TOKEN_STRING, tokValue = w\<rparr>]"
proof -
  let ?cs = "QUOTE # doubled w @ [QUOTE]"
  have whole: "takeWhile (\<lambda>c. c \<noteq> NUL) ?cs = ?cs"
    by (rule takeWhile_all) (use doubled_NUL [OF assms(2)] in \<open>simp add: QUOTE_def NUL_def\<close>)
  have q: "\<not> is_space QUOTE" "\<not> is_alpha QUOTE" "\<not> is_digit QUOTE" "QUOTE \<noteq> CHR ''_''" "QUOTE \<noteq> CHR ''-''"
    by code_simp+
  have body: "readString 0 (doubled w @ [QUOTE]) = Inr (w, [])"
    using readString_doubled [of 0 w "[]"] assms(1) by simp
  have tok: "next_token ?cs = Inr (TOKEN_STRING, w, [])"
    using q body by (simp add: next_token_def)
  have "pushToken heldOk [] TOKEN_STRING w = Inr [\<lparr>tokType = TOKEN_STRING, tokValue = w\<rparr>]"
    using assms(3) by (simp add: pushToken_def MAX_TOKENS_def)
  then show ?thesis
    unfolding tokenizeStatement_def whole using q tok by (simp add: tokenize.simps)
qed

theorem string_literal_roundtrip_witness:
  "tokenizeStatement (\<lambda>_. True) (QUOTE # doubled (''a'' @ [QUOTE] @ ''--b'') @ [QUOTE]) =
   Inr [\<lparr>tokType = TOKEN_STRING, tokValue = ''a'' @ [QUOTE] @ ''--b''\<rparr>]"
  by (rule string_literal_roundtrip) (simp_all add: VALUE_LEN_def NUL_def QUOTE_def)

subsection \<open>Bounds\<close>

lemma read_word_length: "read_word n cs = Inr (w, rest) \<Longrightarrow> n < VALUE_LEN \<Longrightarrow> n + length w < VALUE_LEN"
  by (induction n cs arbitrary: w rest rule: read_word.induct) (fastforce split: if_splits sum.splits)+

lemma read_number_length: "read_number n dot cs = Inr (w, rest) \<Longrightarrow> n < VALUE_LEN \<Longrightarrow> n + length w < VALUE_LEN"
  by (induction n dot cs arbitrary: w rest rule: read_number.induct) (fastforce split: if_splits sum.splits)+

lemma readString_length: "readString n cs = Inr (w, rest) \<Longrightarrow> n < VALUE_LEN \<Longrightarrow> n + length w < VALUE_LEN"
  by (induction n cs arbitrary: w rest rule: readString.induct) (fastforce split: if_splits sum.splits list.splits)+

lemma readOperator_two: "readOperator cs = Inr (type, n) \<Longrightarrow> n \<le> 2 \<and> type \<noteq> TOKEN_UNKNOWN"
  by (auto simp: readOperator_def Let_def split: if_splits)

lemma classifyWord_known: "classifyWord w \<noteq> TOKEN_UNKNOWN"
proof -
  have cases: "\<forall>x \<in> set keyword_cases. snd (snd (snd x)) \<noteq> TOKEN_UNKNOWN" by (simp add: keyword_cases_def)
  show ?thesis
  proof (cases "List.find (\<lambda>(label, _). label = word_prefix w) keyword_cases")
    case None
    then show ?thesis by (simp add: classifyWord_def)
  next
    case (Some x)
    then obtain i where "i < length keyword_cases" "x = keyword_cases ! i" by (auto simp: find_Some_iff)
    then have "snd (snd (snd x)) \<noteq> TOKEN_UNKNOWN" using cases by simp
    then show ?thesis using Some by (cases x) (simp add: classifyWord_def)
  qed
qed

lemma symbol_token_known: "symbol_token c = Some type \<Longrightarrow> type \<noteq> TOKEN_UNKNOWN"
  by (auto simp: symbol_token_def split: if_splits)

lemma next_token_bounds:
  assumes "next_token cs = Inr (type, v, rest)"
  shows "length v < VALUE_LEN \<and> type \<noteq> TOKEN_UNKNOWN"
proof -
  have v: "0 < VALUE_LEN" "Suc (Suc 0) < VALUE_LEN" by (simp_all add: VALUE_LEN_def)
  show ?thesis
    using assms v classifyWord_known readOperator_two symbol_token_known
      read_word_length [of 0 cs] read_number_length [of 0 False cs] readString_length [of 0 "tl cs"]
    unfolding next_token_def Let_def
    by (fastforce split: if_splits sum.splits option.splits)
qed

definition token_ok :: "token \<Rightarrow> bool" where
  "token_ok t \<longleftrightarrow> length (tokValue t) < VALUE_LEN \<and> tokType t \<noteq> TOKEN_UNKNOWN"

lemma tokenize_stop:
  "cs = [] \<or> (\<not> is_space (hd cs) \<and> take 2 cs = ''--'') \<Longrightarrow> tokenize heldOk cs out = Inr out"
  by (subst tokenize.simps) (elim disjE; simp)

lemma tokenize_ok:
  "\<lbrakk>tokenize heldOk cs out = Inr ts; list_all token_ok out; length out \<le> MAX_TOKENS\<rbrakk>
   \<Longrightarrow> list_all token_ok ts \<and> length ts \<le> MAX_TOKENS"
proof (induction heldOk cs out rule: tokenize.induct)
  case (1 heldOk cs out)
  consider (stop) "cs = [] \<or> (\<not> is_space (hd cs) \<and> take 2 cs = ''--'')" | (blank) "cs \<noteq> []" "is_space (hd cs)"
    | (token) "cs \<noteq> []" "\<not> is_space (hd cs)" "take 2 cs \<noteq> ''--''" by blast
  then show ?case
  proof cases
    case stop
    then show ?thesis using 1(3-5) tokenize_stop [of cs heldOk out] by auto
  next
    case blank
    then show ?thesis using 1 by (simp add: tokenize.simps [of heldOk cs])
  next
    case token
    then obtain type v rest where t: "next_token cs = Inr (type, v, rest)"
      using 1(3) by (cases "next_token cs") (auto simp: tokenize.simps)
    then obtain out' where p: "pushToken heldOk out type v = Inr out'" and go: "tokenize heldOk rest out' = Inr ts"
      using 1(3) token by (cases "pushToken heldOk out type v") (auto simp: tokenize.simps)
    have "list_all token_ok out' \<and> length out' \<le> MAX_TOKENS"
      using p 1(4,5) next_token_bounds [OF t] by (auto simp: pushToken_def token_ok_def [of "\<lparr>tokType = type, tokValue = v\<rparr>"] split: if_splits)
    then show ?thesis using 1(2) [OF token t refl refl p go] by blast
  qed
qed

definition lexer_errors :: "error list" where
  "lexer_errors = [ERROR_TOO_MANY_TOKENS, ERROR_EXEC_OUT_OF_MEMORY, ERROR_TOKEN_TOO_LONG,
                   ERROR_UNTERMINATED_STRING, ERROR_UNKNOWN_TOKEN]"

lemma read_word_error: "read_word n cs = Inl e \<Longrightarrow> e = ERROR_TOKEN_TOO_LONG"
  by (induction n cs rule: read_word.induct) (auto split: if_splits sum.splits)

lemma read_number_error: "read_number n dot cs = Inl e \<Longrightarrow> e = ERROR_TOKEN_TOO_LONG"
  by (induction n dot cs rule: read_number.induct) (auto split: if_splits sum.splits)

lemma readString_error: "readString n cs = Inl e \<Longrightarrow> e = ERROR_TOKEN_TOO_LONG \<or> e = ERROR_UNTERMINATED_STRING"
  by (induction n cs rule: readString.induct) (auto split: if_splits sum.splits list.splits)

lemma next_token_error: "next_token cs = Inl e \<Longrightarrow> e \<in> set lexer_errors"
  by (auto simp: next_token_def Let_def lexer_errors_def readOperator_def split: if_splits sum.splits option.splits
        dest: read_word_error read_number_error readString_error)

lemma tokenize_error: "tokenize heldOk cs out = Inl e \<Longrightarrow> e \<in> set lexer_errors"
proof (induction heldOk cs out rule: tokenize.induct)
  case (1 heldOk cs out)
  consider (stop) "cs = [] \<or> (\<not> is_space (hd cs) \<and> take 2 cs = ''--'')" | (blank) "cs \<noteq> []" "is_space (hd cs)"
    | (token) "cs \<noteq> []" "\<not> is_space (hd cs)" "take 2 cs \<noteq> ''--''" by blast
  then show ?case
  proof cases
    case stop
    then show ?thesis using 1(3) tokenize_stop [of cs heldOk out] by auto
  next
    case blank
    then show ?thesis using 1 by (simp add: tokenize.simps [of heldOk cs])
  next
    case token
    show ?thesis
    proof (cases "next_token cs")
      case (Inl a)
      then show ?thesis using 1(3) token next_token_error [OF Inl] by (simp add: tokenize.simps)
    next
      case (Inr x)
      obtain type v rest where x: "x = (type, v, rest)" by (cases x)
      show ?thesis
      proof (cases "pushToken heldOk out type v")
        case (Inl a)
        then have "a \<in> set lexer_errors" by (auto simp: pushToken_def lexer_errors_def split: if_splits)
        then show ?thesis using 1(3) token Inl Inr x by (simp add: tokenize.simps)
      next
        case p: (Inr out')
        then have "tokenize heldOk rest out' = Inl e" using 1(3) token Inr x by (simp add: tokenize.simps)
        then show ?thesis using 1(2) [OF token Inr [unfolded x] refl refl p] by blast
      qed
    qed
  qed
qed

text \<open>
  C16: what the parser is handed is bounded. The lexer comes to an end on every text. A statement
  that lexes gives at most \<open>MAX_TOKENS\<close> tokens, each of a type the grammar knows and with a text
  that fits the token buffer; any other is refused with one of the lexer's five errors.
\<close>
theorem lexer_bounds:
  "case tokenizeStatement heldOk sql of
     Inl e \<Rightarrow> e \<in> set lexer_errors
   | Inr ts \<Rightarrow> list_all token_ok ts \<and> length ts \<le> MAX_TOKENS"
proof (cases "tokenizeStatement heldOk sql")
  case (Inl e)
  then show ?thesis using tokenize_error by (simp add: tokenizeStatement_def)
next
  case (Inr ts)
  then show ?thesis using tokenize_ok [of heldOk _ "[]" ts] by (simp add: tokenizeStatement_def)
qed

end
