(* ===== verification/Parser.thy ===== *)
theory Parser
  imports ExprTree Tokens "HOL-Library.Sublist"
begin

text \<open>
  The parser's ground, \<^verbatim>\<open>04_parser.c\<close>: reading a literal, the grammar of expressions and a select
  item. The recursive functions carry fuel; \<open>fuel toks\<close> is enough for every token list, which the
  theory of the grammar shows. What a parse leaves behind when it fails is of no statement, so an
  error is only its code.
\<close>

subsection \<open>Results\<close>

text \<open>\<open>None\<close> is running out of fuel.\<close>

type_synonym 'a parsed = "(error + 'a) option"

definition got :: "'a \<Rightarrow> 'a parsed" where "got x = Some (Inr x)"
definition refuse :: "error \<Rightarrow> 'a parsed" where "refuse e = Some (Inl e)"

definition after :: "'a parsed \<Rightarrow> ('a \<Rightarrow> 'b parsed) \<Rightarrow> 'b parsed" where
  "after m k = (case m of None \<Rightarrow> None | Some (Inl e) \<Rightarrow> Some (Inl e) | Some (Inr x) \<Rightarrow> k x)"

lemma after_simps [simp]:
  "after None k = None" "after (refuse e) k = refuse e" "after (got x) k = k x"
  "after (Some (Inl e)) k = Some (Inl e)" "after (Some (Inr x)) k = k x"
  by (simp_all add: after_def got_def refuse_def)

lemma got_simps [simp]: "got x = got y \<longleftrightarrow> x = y" "got x \<noteq> refuse e" "refuse e \<noteq> got x" "got x \<noteq> None" "refuse e \<noteq> None"
  by (simp_all add: got_def refuse_def)

definition typeAt :: "token list \<Rightarrow> nat \<Rightarrow> tokentype" where
  "typeAt toks i = (if i < length toks then tokType (toks ! i) else TOKEN_UNKNOWN)"

definition textAt :: "token list \<Rightarrow> nat \<Rightarrow> string" where "textAt toks i = tokValue (toks ! i)"

text \<open>\<^verbatim>\<open>if (typeAt(tokens, i) != type) return e;\<close>\<close>

definition need :: "token list \<Rightarrow> nat \<Rightarrow> tokentype \<Rightarrow> error \<Rightarrow> 'a parsed \<Rightarrow> 'a parsed" where
  "need toks i type e m = (if typeAt toks i = type then m else refuse e)"

definition fuel :: "token list \<Rightarrow> nat" where "fuel toks = length toks + 1"

definition endOfStatement :: "token list \<Rightarrow> nat \<Rightarrow> unit parsed" where
  "endOfStatement toks i =
     (let i = (if typeAt toks i = TOKEN_SEMICOLON then i + 1 else i)
      in if i = length toks then got () else refuse ERROR_SYNTAX_TRAILING_TOKENS)"

subsection \<open>Literals\<close>

definition number_value :: "string \<Rightarrow> bool \<Rightarrow> error + Value" where
  "number_value digits negative =
     (if CHR ''.'' \<in> set digits
      then let (number, range) = strtod digits
           in if range then Inl ERROR_VALUE_OUT_OF_RANGE
              else Inr (setFloat (if negative then fl_neg number else number))
      else let (n, range) = strtoll digits; n = (if negative then - n else n)
           in if range \<or> n < INT_MIN \<or> n > INT_MAX then Inl ERROR_VALUE_OUT_OF_RANGE
              else Inr (blank_value\<lparr>intValue := of_int n\<rparr>))"

definition parseValue :: "token list \<Rightarrow> nat \<Rightarrow> (Value \<times> nat) parsed" where
  "parseValue toks i =
     (let negative = typeAt toks i = TOKEN_MINUS; i = (if negative then i + 1 else i)
      in if typeAt toks i = TOKEN_NUMBER
         then after (Some (number_value (textAt toks i) negative)) (\<lambda>v. got (v, i + 1))
         else if \<not> negative \<and> typeAt toks i = TOKEN_STRING
         then got (blank_value\<lparr>vtype := TYPE_TEXT, vtext := textAt toks i\<rparr>, i + 1)
         else if \<not> negative \<and> typeAt toks i = TOKEN_KEYWORD_NULL then got (setNull TYPE_INT, i + 1)
         else refuse ERROR_SYNTAX_EXPECTED_VALUE)"

subsection \<open>Expressions\<close>

text \<open>A node allocated and filled in.\<close>

definition new_expr :: "exprpool \<Rightarrow> exprkind \<Rightarrow> (exprnode \<Rightarrow> exprnode) \<Rightarrow> (int \<times> exprpool) parsed" where
  "new_expr pool kind fill =
     (case exprNew pool kind of
        (Inl e, _) \<Rightarrow> refuse e
      | (Inr n, pool) \<Rightarrow> got (n, set_node n (fill (node_at pool n)) pool))"

definition term_op :: "tokentype \<Rightarrow> arithop option" where
  "term_op type = (if type = TOKEN_STAR then Some ARITH_MUL else if type = TOKEN_SLASH then Some ARITH_DIV
                   else if type = TOKEN_PERCENT then Some ARITH_MOD else None)"

definition sum_op :: "tokentype \<Rightarrow> arithop option" where
  "sum_op type = (if type = TOKEN_PLUS then Some ARITH_ADD else if type = TOKEN_MINUS then Some ARITH_SUB else None)"

text \<open>
  A result is the node, the index behind what was read, and the pool. The two loops of the grammar
  are one, over the operators it takes and the parser of its operands; a factor in parentheses ties
  the knot, so the parser of a whole expression is over the parser of factors.
\<close>

type_synonym expr_parser = "nat \<Rightarrow> exprpool \<Rightarrow> (int \<times> nat \<times> exprpool) parsed"

primrec left_loop :: "nat \<Rightarrow> (tokentype \<Rightarrow> arithop option) \<Rightarrow> expr_parser \<Rightarrow> token list \<Rightarrow> int \<Rightarrow> expr_parser" where
  "left_loop 0 ops operand toks node i pool = None"
| "left_loop (Suc k) ops operand toks node i pool =
     (case ops (typeAt toks i) of
        None \<Rightarrow> got (node, i, pool)
      | Some op \<Rightarrow>
          after (operand (i + 1) pool) (\<lambda>(right, j, pool).
          after (new_expr pool EXPR_BINARY (\<lambda>nd. nd\<lparr>eop := op, eleft := node, eright := right\<rparr>)) (\<lambda>(parent, pool).
          left_loop k ops operand toks parent j pool)))"

definition parseTerm :: "expr_parser \<Rightarrow> token list \<Rightarrow> expr_parser" where
  "parseTerm factor toks i pool =
     after (factor i pool) (\<lambda>(node, j, pool). left_loop (fuel toks) term_op factor toks node j pool)"

definition expression_of :: "expr_parser \<Rightarrow> token list \<Rightarrow> expr_parser" where
  "expression_of factor toks i pool =
     after (parseTerm factor toks i pool) (\<lambda>(node, j, pool).
     left_loop (fuel toks) sum_op (parseTerm factor toks) toks node j pool)"

primrec parseFactor :: "nat \<Rightarrow> token list \<Rightarrow> expr_parser" where
  "parseFactor 0 toks i pool = None"
| "parseFactor (Suc k) toks i pool =
     (if typeAt toks i = TOKEN_MINUS
      then after (parseFactor k toks (i + 1) pool) (\<lambda>(inner, j, pool).
           after (new_expr pool EXPR_NEGATE (\<lambda>nd. nd\<lparr>eleft := inner\<rparr>)) (\<lambda>(node, pool). got (node, j, pool)))
      else if typeAt toks i = TOKEN_LPAREN
      then after (expression_of (parseFactor k toks) toks (i + 1) pool) (\<lambda>(node, j, pool).
           need toks j TOKEN_RPAREN ERROR_SYNTAX_EXPECTED_PARENTHESES (got (node, j + 1, pool)))
      else if typeAt toks i = TOKEN_IDENTIFIER
      then after (new_expr pool EXPR_COLUMN (\<lambda>nd. nd\<lparr>ecolumn := name_of (textAt toks i)\<rparr>))
             (\<lambda>(node, pool). got (node, i + 1, pool))
      else if typeAt toks i \<notin> {TOKEN_NUMBER, TOKEN_STRING, TOKEN_KEYWORD_NULL}
      then refuse ERROR_SYNTAX_EXPECTED_COLUMN
      else case exprNew pool EXPR_LITERAL of
             (Inl e, _) \<Rightarrow> refuse e
           | (Inr node, pool) \<Rightarrow>
               after (parseValue toks i) (\<lambda>(v, j).
               got (node, j, set_node node ((node_at pool node)\<lparr>eliteral := v\<rparr>) pool)))"

definition parseExpression :: "token list \<Rightarrow> expr_parser" where
  "parseExpression toks = expression_of (parseFactor (fuel toks) toks) toks"

definition literalExpr :: "exprpool \<Rightarrow> Value \<Rightarrow> (int \<times> exprpool) parsed" where
  "literalExpr pool v = new_expr pool EXPR_LITERAL (\<lambda>nd. nd\<lparr>eliteral := v\<rparr>)"

definition columnExpr :: "exprpool \<Rightarrow> string \<Rightarrow> (int \<times> exprpool) parsed" where
  "columnExpr pool name = new_expr pool EXPR_COLUMN (\<lambda>nd. nd\<lparr>ecolumn := name_of name\<rparr>)"

subsection \<open>Select items\<close>

definition aggregateFromName :: "string \<Rightarrow> aggregatetype option" where
  "aggregateFromName name =
     (if stricmp name ''count'' then Some AGG_COUNT else if stricmp name ''sum'' then Some AGG_SUM
      else if stricmp name ''avg'' then Some AGG_AVG else if stricmp name ''min'' then Some AGG_MIN
      else if stricmp name ''max'' then Some AGG_MAX else None)"

definition label_text :: "exprpool \<Rightarrow> int \<Rightarrow> string parsed" where
  "label_text pool n = (case exprLabel pool n NAME_LEN of None \<Rightarrow> None | Some s \<Rightarrow> got s)"

definition parseSelectItem :: "token list \<Rightarrow> nat \<Rightarrow> exprpool \<Rightarrow> (selectitem \<times> nat \<times> exprpool) parsed" where
  "parseSelectItem toks i pool =
     (if typeAt toks i = TOKEN_IDENTIFIER \<and> typeAt toks (i + 1) = TOKEN_LPAREN
      then let name = name_of (textAt toks i)
           in case aggregateFromName name of
                None \<Rightarrow> refuse ERROR_SYNTAX_UNKNOWN_FUNCTION
              | Some agg \<Rightarrow>
                  if typeAt toks (i + 2) = TOKEN_STAR
                  then if agg \<noteq> AGG_COUNT then refuse ERROR_SYNTAX_EXPECTED_COLUMN
                       else need toks (i + 3) TOKEN_RPAREN ERROR_SYNTAX_EXPECTED_PARENTHESES
                              (got (\<lparr>aggregate = agg, iexpr = -1, istar = True,
                                     ilabel = name_of (take (NAME_LEN - 4) name @ ''(*)''), aliased = False\<rparr>, i + 4, pool))
                  else after (parseExpression toks (i + 2) pool) (\<lambda>(n, j, pool).
                       after (label_text pool n) (\<lambda>inner.
                       need toks j TOKEN_RPAREN ERROR_SYNTAX_EXPECTED_PARENTHESES
                         (got (\<lparr>aggregate = agg, iexpr = n, istar = False,
                                ilabel = name_of (take (NAME_LEN div 2 - 2) name @ ''('' @
                                                  take (NAME_LEN div 2 - 2) inner @ '')''), aliased = False\<rparr>, j + 1, pool))))
      else after (parseExpression toks i pool) (\<lambda>(n, j, pool).
           after (label_text pool n) (\<lambda>label.
           got (\<lparr>aggregate = AGG_NONE, iexpr = n, istar = False, ilabel = label, aliased = False\<rparr>, j, pool))))"

subsection \<open>Lists between commas\<close>

text \<open>
  \<^verbatim>\<open>for (;;) { <one>; if (typeAt(tokens, index) != TOKEN_COMMA) break; index++; }\<close>: every list of the
  grammar is read this way. \<open>one\<close> reads an entry at an index into what is built so far.
\<close>

primrec comma_list :: "nat \<Rightarrow> token list \<Rightarrow> (nat \<Rightarrow> 's \<Rightarrow> (nat \<times> 's) parsed) \<Rightarrow> nat \<Rightarrow> 's \<Rightarrow> (nat \<times> 's) parsed" where
  "comma_list 0 toks one i s = None"
| "comma_list (Suc k) toks one i s =
     after (one i s) (\<lambda>(i, s).
     if typeAt toks i = TOKEN_COMMA then comma_list k toks one (i + 1) s else got (i, s))"

end
