(* ===== verification/Conditions.thy ===== *)
theory Conditions
  imports Parser
begin

text \<open>
  Conditions and subqueries, \<^verbatim>\<open>04_parser.c\<close>: comparisons in all their forms, NOT, AND, OR and
  parentheses, into the node pool of a condition. A subquery goes to a pool of its own and a
  predicate keeps its index; the parser of the inner SELECT is an argument here, \<open>sel\<close>.
\<close>

subsection \<open>Subqueries\<close>

text \<open>The subquery pool in use: each statement and whether one value is wanted of it.\<close>

type_synonym subqueries = "(selectstatement \<times> bool) list"

type_synonym select_parser = "token list \<Rightarrow> subqueries \<Rightarrow> (selectstatement \<times> subqueries) parsed"

definition resetSubqueries :: subqueries where "resetSubqueries = []"
definition subqueryTotal :: "subqueries \<Rightarrow> nat" where "subqueryTotal subs = length subs"

definition subqueryIsScalar :: "subqueries \<Rightarrow> int \<Rightarrow> bool" where
  "subqueryIsScalar subs n = (if n \<ge> 0 \<and> n < int (length subs) then snd (subs ! nat n) else False)"

definition subqueryAt :: "subqueries \<Rightarrow> int \<Rightarrow> selectstatement option" where
  "subqueryAt subs n = (if n \<ge> 0 \<and> n < int (length subs) then Some (fst (subs ! nat n)) else None)"

definition MAX_JOIN_TABLES :: nat where "MAX_JOIN_TABLES = 4"
definition MAX_CONDITION_NODES :: nat where "MAX_CONDITION_NODES = 32"
definition MAX_SUBQUERIES :: nat where "MAX_SUBQUERIES = 4"

definition blank_select :: selectstatement where
  "blank_select = \<lparr>sitems = [], sexprs = [], selectAll = False, stable = [], stables = [], saliases = [],
     souter = replicate MAX_JOIN_TABLES False, onRoot = replicate MAX_JOIN_TABLES (-1),
     swhere = blank_condition, sdistinct = False, having = blank_condition, sorder = [], slimit = -1, groupBy = []\<rparr>"

text \<open>The tokens up to the parenthesis that closes the one before them, and the depth left open.\<close>

fun lifted :: "token list \<Rightarrow> nat \<Rightarrow> token list \<Rightarrow> error + nat \<times> token list" where
  "lifted [] depth inner = Inr (depth, inner)"
| "lifted (t # ts) depth inner =
     (let depth' = (if tokType t = TOKEN_LPAREN then depth + 1
                    else if tokType t = TOKEN_RPAREN then depth - 1 else depth)
      in if tokType t = TOKEN_RPAREN \<and> depth' = 0 then Inr (0, inner)
         else if length inner = MAX_TOKENS then Inl ERROR_TOO_MANY_TOKENS
         else lifted ts depth' (inner @ [t]))"

definition parseSubquery :: "select_parser \<Rightarrow> token list \<Rightarrow> nat \<Rightarrow> subqueries \<Rightarrow> (int \<times> nat \<times> subqueries) parsed" where
  "parseSubquery sel toks i subs =
     (if typeAt toks i \<noteq> TOKEN_LPAREN \<or> typeAt toks (i + 1) \<noteq> TOKEN_KEYWORD_SELECT
      then refuse ERROR_SYNTAX_EXPECTED_PARENTHESES
      else if length subs = MAX_SUBQUERIES then refuse ERROR_SYNTAX_TOO_MANY_SUBQUERIES
      else case lifted (drop (i + 1) toks) 1 [] of
             Inl e \<Rightarrow> refuse e
           | Inr (depth, inner) \<Rightarrow>
               if depth \<noteq> 0 then refuse ERROR_SYNTAX_EXPECTED_PARENTHESES
               else after (sel inner (subs @ [(blank_select, False)])) (\<lambda>(s, subs').
                    got (int (length subs), i + 1 + length inner + 1, subs'[length subs := (s, False)])))"

subsection \<open>Nodes of a condition\<close>

definition blank_predicate :: predicate where
  "blank_predicate = \<lparr>pleft = -1, pop = OP_EQ, pright = -1, psubquery = -1\<rparr>"

definition newCondition :: "condition \<Rightarrow> conditionkind \<Rightarrow> (int \<times> condition) parsed" where
  "newCondition c kind =
     (if length (cnodes c) = MAX_CONDITION_NODES then refuse ERROR_SYNTAX_CONDITION_TOO_COMPLEX
      else got (int (length (cnodes c)),
                c\<lparr>cnodes := cnodes c @ [\<lparr>ckind = kind, ccompare = blank_predicate, cleft = -1, cright = -1\<rparr>]\<rparr>))"

definition set_cnode :: "int \<Rightarrow> (conditionnode \<Rightarrow> conditionnode) \<Rightarrow> condition \<Rightarrow> condition" where
  "set_cnode n f c = c\<lparr>cnodes := (cnodes c)[nat n := f (cnodes c ! nat n)]\<rparr>"

definition set_pred :: "int \<Rightarrow> (predicate \<Rightarrow> predicate) \<Rightarrow> condition \<Rightarrow> condition" where
  "set_pred n f = set_cnode n (\<lambda>nd. nd\<lparr>ccompare := f (ccompare nd)\<rparr>)"

text \<open>A node above others.\<close>

definition above :: "condition \<Rightarrow> conditionkind \<Rightarrow> int \<Rightarrow> int \<Rightarrow> (int \<times> condition) parsed" where
  "above c kind l r = after (newCondition c kind) (\<lambda>(n, c). got (n, set_cnode n (\<lambda>nd. nd\<lparr>cleft := l, cright := r\<rparr>) c))"

subsection \<open>Comparisons\<close>

definition comparison_op :: "tokentype \<Rightarrow> compareop option" where
  "comparison_op type =
     (if type = TOKEN_OPERATOR_EQ then Some OP_EQ else if type = TOKEN_OPERATOR_NE then Some OP_NE
      else if type = TOKEN_OPERATOR_LT then Some OP_LT else if type = TOKEN_OPERATOR_LTE then Some OP_LTE
      else if type = TOKEN_OPERATOR_GT then Some OP_GT else if type = TOKEN_OPERATOR_GTE then Some OP_GTE else None)"

text \<open>
  \<open>x IN (a, b, ...)\<close> is \<open>x = a OR x = b OR ...\<close>: \<open>spine\<close> is the comparison being filled in, \<open>node\<close> the
  root so far.
\<close>

primrec in_list :: "nat \<Rightarrow> token list \<Rightarrow> int \<Rightarrow> int \<Rightarrow> int \<Rightarrow> nat \<Rightarrow> condition \<Rightarrow> (int \<times> nat \<times> condition) parsed" where
  "in_list 0 toks left node spine i c = None"
| "in_list (Suc k) toks left node spine i c =
     after (parseExpression toks i (cexprs c)) (\<lambda>(right, i, pool).
     let c = set_pred spine (\<lambda>p. (if spine \<noteq> node then p\<lparr>pleft := left, psubquery := -1\<rparr> else p)\<lparr>pop := OP_EQ, pright := right\<rparr>)
               (c\<lparr>cexprs := pool\<rparr>)
     in if typeAt toks i \<noteq> TOKEN_COMMA then got (node, i, c)
        else after (newCondition c COND_COMPARE) (\<lambda>(next_term, c).
             after (above c COND_OR node next_term) (\<lambda>(either, c).
             in_list k toks left either next_term (i + 1) c)))"

type_synonym cond_parser = "nat \<Rightarrow> condition \<Rightarrow> subqueries \<Rightarrow> (int \<times> nat \<times> condition \<times> subqueries) parsed"

definition in_clause :: "select_parser \<Rightarrow> token list \<Rightarrow> int \<Rightarrow> int \<Rightarrow> cond_parser" where
  "in_clause sel toks left node i c subs =
     (let negated = typeAt toks i = TOKEN_KEYWORD_NOT; i = (if negated then i + 2 else i + 1)
      in after
           (if typeAt toks (i + 1) = TOKEN_KEYWORD_SELECT
            then after (parseSubquery sel toks i subs) (\<lambda>(slot, i, subs).
                 got (node, i, set_pred node (\<lambda>p. p\<lparr>pop := OP_IN, psubquery := slot\<rparr>) c, subs))
            else need toks i TOKEN_LPAREN ERROR_SYNTAX_EXPECTED_PARENTHESES
                   (after (in_list (fuel toks) toks left node node (i + 1) c) (\<lambda>(node, i, c).
                    need toks i TOKEN_RPAREN ERROR_SYNTAX_EXPECTED_PARENTHESES (got (node, i + 1, c, subs)))))
           (\<lambda>(node, i, c, subs).
              if negated then after (above c COND_NOT node (-1)) (\<lambda>(inverted, c). got (inverted, i, c, subs))
              else got (node, i, c, subs)))"

definition is_clause :: "token list \<Rightarrow> int \<Rightarrow> cond_parser" where
  "is_clause toks node i c subs =
     (let negated = typeAt toks (i + 1) = TOKEN_KEYWORD_NOT; i = (if negated then i + 2 else i + 1)
      in need toks i TOKEN_KEYWORD_NULL ERROR_SYNTAX_EXPECTED_NULL
           (got (node, i + 1, set_pred node (\<lambda>p. p\<lparr>pop := if negated then OP_IS_NOT_NULL else OP_IS_NULL\<rparr>) c, subs)))"

definition like_clause :: "token list \<Rightarrow> int \<Rightarrow> cond_parser" where
  "like_clause toks node i c subs =
     (let negated = typeAt toks i = TOKEN_KEYWORD_NOT; i = (if negated then i + 2 else i + 1)
      in after (parseValue toks i) (\<lambda>(pattern, i).
         if isNull pattern \<or> vtype pattern \<noteq> TYPE_TEXT then refuse ERROR_SYNTAX_EXPECTED_VALUE
         else after (literalExpr (cexprs c) pattern) (\<lambda>(right, pool).
              got (node, i, set_pred node (\<lambda>p. p\<lparr>pop := if negated then OP_NOT_LIKE else OP_LIKE, pright := right\<rparr>)
                              (c\<lparr>cexprs := pool\<rparr>), subs))))"

definition operator_clause :: "select_parser \<Rightarrow> token list \<Rightarrow> int \<Rightarrow> cond_parser" where
  "operator_clause sel toks node i c subs =
     (case comparison_op (typeAt toks i) of
        None \<Rightarrow> refuse ERROR_SYNTAX_EXPECTED_OPERATOR
      | Some op \<Rightarrow>
          if typeAt toks (i + 1) = TOKEN_LPAREN \<and> typeAt toks (i + 2) = TOKEN_KEYWORD_SELECT
          then after (parseSubquery sel toks (i + 1) subs) (\<lambda>(slot, i, subs).
               got (node, i, set_pred node (\<lambda>p. p\<lparr>pop := op, psubquery := slot\<rparr>) c,
                    subs[nat slot := (fst (subs ! nat slot), True)]))
          else after (parseExpression toks (i + 1) (cexprs c)) (\<lambda>(right, i, pool).
               if (case exprLiteral pool right of Some v \<Rightarrow> isNull v | None \<Rightarrow> False)
               then refuse ERROR_SYNTAX_EXPECTED_NULL
               else got (node, i, set_pred node (\<lambda>p. p\<lparr>pop := op, pright := right\<rparr>) (c\<lparr>cexprs := pool\<rparr>), subs)))"

text \<open>The left side: in HAVING the label of a select item, parsed into a pool that is thrown away.\<close>

definition left_side :: "token list \<Rightarrow> bool \<Rightarrow> nat \<Rightarrow> exprpool \<Rightarrow> (int \<times> nat \<times> exprpool) parsed" where
  "left_side toks allowAggregate i pool =
     (if allowAggregate
      then after (parseSelectItem toks i exprInit) (\<lambda>(item, i, _).
           after (columnExpr pool (ilabel item)) (\<lambda>(left, pool). got (left, i, pool)))
      else parseExpression toks i pool)"

definition parseComparison :: "select_parser \<Rightarrow> token list \<Rightarrow> bool \<Rightarrow> cond_parser" where
  "parseComparison sel toks allowAggregate i c subs =
     after (left_side toks allowAggregate i (cexprs c)) (\<lambda>(left, i, pool).
     after (newCondition (c\<lparr>cexprs := pool\<rparr>) COND_COMPARE) (\<lambda>(node, c).
     let c = set_pred node (\<lambda>p. p\<lparr>pleft := left, pright := -1, psubquery := -1\<rparr>) c;
         word = (if typeAt toks i = TOKEN_KEYWORD_NOT then typeAt toks (i + 1) else typeAt toks i)
     in if word = TOKEN_KEYWORD_IN then in_clause sel toks left node i c subs
        else if typeAt toks i = TOKEN_KEYWORD_IS then is_clause toks node i c subs
        else if word = TOKEN_KEYWORD_LIKE then like_clause toks node i c subs
        else operator_clause sel toks node i c subs))"

subsection \<open>Boolean structure\<close>

definition parsePrimary :: "select_parser \<Rightarrow> token list \<Rightarrow> bool \<Rightarrow> cond_parser \<Rightarrow> cond_parser" where
  "parsePrimary sel toks allowAggregate whole i c subs =
     (if typeAt toks i = TOKEN_KEYWORD_EXISTS
      then after (newCondition c COND_COMPARE) (\<lambda>(node, c).
           after (parseSubquery sel toks (i + 1) subs) (\<lambda>(slot, i, subs).
           got (node, i, set_pred node (\<lambda>p. p\<lparr>pleft := -1, pright := -1, pop := OP_EXISTS, psubquery := slot\<rparr>) c, subs)))
      else if typeAt toks i = TOKEN_LPAREN
      then after (whole (i + 1) c subs) (\<lambda>(node, i, c, subs).
           need toks i TOKEN_RPAREN ERROR_SYNTAX_EXPECTED_PARENTHESES (got (node, i + 1, c, subs)))
      else parseComparison sel toks allowAggregate i c subs)"

primrec condition_loop :: "nat \<Rightarrow> tokentype \<Rightarrow> conditionkind \<Rightarrow> cond_parser \<Rightarrow> token list \<Rightarrow> int \<Rightarrow> cond_parser" where
  "condition_loop 0 word kind operand toks node i c subs = None"
| "condition_loop (Suc k) word kind operand toks node i c subs =
     (if typeAt toks i = word
      then after (operand (i + 1) c subs) (\<lambda>(right, i, c, subs).
           after (above c kind node right) (\<lambda>(parent, c).
           condition_loop k word kind operand toks parent i c subs))
      else got (node, i, c, subs))"

definition parseAndExpression :: "cond_parser \<Rightarrow> token list \<Rightarrow> cond_parser" where
  "parseAndExpression operand toks i c subs =
     after (operand i c subs) (\<lambda>(node, i, c, subs).
     condition_loop (fuel toks) TOKEN_KEYWORD_AND COND_AND operand toks node i c subs)"

definition or_expression_of :: "cond_parser \<Rightarrow> token list \<Rightarrow> cond_parser" where
  "or_expression_of operand toks i c subs =
     after (parseAndExpression operand toks i c subs) (\<lambda>(node, i, c, subs).
     condition_loop (fuel toks) TOKEN_KEYWORD_OR COND_OR (parseAndExpression operand toks) toks node i c subs)"

primrec parseNotExpression :: "nat \<Rightarrow> select_parser \<Rightarrow> token list \<Rightarrow> bool \<Rightarrow> cond_parser" where
  "parseNotExpression 0 sel toks allowAggregate i c subs = None"
| "parseNotExpression (Suc k) sel toks allowAggregate i c subs =
     (if typeAt toks i = TOKEN_KEYWORD_NOT
      then after (parseNotExpression k sel toks allowAggregate (i + 1) c subs) (\<lambda>(child, i, c, subs).
           after (above c COND_NOT child (-1)) (\<lambda>(node, c). got (node, i, c, subs)))
      else parsePrimary sel toks allowAggregate
             (or_expression_of (parseNotExpression k sel toks allowAggregate) toks) i c subs)"

definition parseOrExpression :: "select_parser \<Rightarrow> token list \<Rightarrow> bool \<Rightarrow> cond_parser" where
  "parseOrExpression sel toks allowAggregate =
     or_expression_of (parseNotExpression (fuel toks) sel toks allowAggregate) toks"

text \<open>HAVING and WHERE of one table, from behind the keyword.\<close>

definition whole_condition :: "select_parser \<Rightarrow> token list \<Rightarrow> bool \<Rightarrow> nat \<Rightarrow> subqueries \<Rightarrow> (condition \<times> nat \<times> subqueries) parsed" where
  "whole_condition sel toks allowAggregate i subs =
     after (parseOrExpression sel toks allowAggregate (i + 1) blank_condition subs) (\<lambda>(root, i, c, subs).
     got (c\<lparr>croot := root, present := True\<rparr>, i, subs))"

definition parseHaving :: "select_parser \<Rightarrow> token list \<Rightarrow> nat \<Rightarrow> subqueries \<Rightarrow> (condition \<times> nat \<times> subqueries) parsed" where
  "parseHaving sel toks = whole_condition sel toks True"

definition parseWhere :: "select_parser \<Rightarrow> token list \<Rightarrow> nat \<Rightarrow> subqueries \<Rightarrow> (condition \<times> nat \<times> subqueries) parsed" where
  "parseWhere sel toks = whole_condition sel toks False"

text \<open>A condition ANDed onto the root built so far, -1 when there is none.\<close>

definition addCondition :: "select_parser \<Rightarrow> token list \<Rightarrow> int \<Rightarrow> cond_parser" where
  "addCondition sel toks root i c subs =
     after (parseOrExpression sel toks False i c subs) (\<lambda>(node, i, c, subs).
     if root < 0 then got (node, i, c, subs)
     else after (above c COND_AND root node) (\<lambda>(combined, c). got (combined, i, c, subs)))"

end
