(* ===== verification/Statements.thy ===== *)
theory Statements
  imports Conditions
begin

text \<open>
  The statements of \<^verbatim>\<open>04_parser.c\<close>: SELECT with its lists, joins and subqueries, CREATE TABLE with
  its constraints, the other statements, and the dispatch on the first token.
\<close>

subsection \<open>SELECT\<close>

text \<open>
  The pieces of \<open>parseSelect\<close> in order. Each is a reader of one part into the statement, from an
  index on; the parts that parse conditions carry the subqueries.
\<close>

definition identifier_at :: "token list \<Rightarrow> nat \<Rightarrow> error \<Rightarrow> (string \<times> nat) parsed" where
  "identifier_at toks i e = need toks i TOKEN_IDENTIFIER e (got (name_of (textAt toks i), i + 1))"

definition skip_token :: "token list \<Rightarrow> nat \<Rightarrow> tokentype \<Rightarrow> nat" where
  "skip_token toks i type = (if typeAt toks i = type then i + 1 else i)"

definition select_item :: "token list \<Rightarrow> nat \<Rightarrow> selectstatement \<Rightarrow> (nat \<times> selectstatement) parsed" where
  "select_item toks i s =
     (if length (sitems s) = MAX_COLS then refuse ERROR_SYNTAX_TOO_MANY_COLUMNS
      else after (parseSelectItem toks i (sexprs s)) (\<lambda>(item, i, pool).
           let i = skip_token toks i TOKEN_KEYWORD_AS; named = typeAt toks i = TOKEN_IDENTIFIER;
               item = (if named then item\<lparr>aliased := True, ilabel := name_of (textAt toks i)\<rparr> else item\<lparr>aliased := False\<rparr>)
           in got (if named then i + 1 else i, s\<lparr>sitems := sitems s @ [item], sexprs := pool\<rparr>)))"

definition select_list :: "token list \<Rightarrow> nat \<Rightarrow> selectstatement \<Rightarrow> (nat \<times> selectstatement) parsed" where
  "select_list toks i s =
     (if typeAt toks i = TOKEN_STAR then got (i + 1, s\<lparr>selectAll := True\<rparr>)
      else comma_list (fuel toks) toks (select_item toks) i s)"

text \<open>
  A table of FROM, its alias, and its ON when a JOIN announced one: an inner ON is ANDed to the WHERE
  tree with root \<open>root\<close>, an outer one is a tree of its own. Flags: an ON is due, and it is a LEFT join's.
\<close>

definition join_condition :: "select_parser \<Rightarrow> token list \<Rightarrow> nat \<Rightarrow> bool \<Rightarrow> bool \<Rightarrow> nat \<Rightarrow> selectstatement \<Rightarrow> int \<Rightarrow>
    subqueries \<Rightarrow> (nat \<times> selectstatement \<times> int \<times> subqueries) parsed" where
  "join_condition sel toks slot expectOn expectOuter i s root subs =
     (if \<not> expectOn then got (i, s, root, subs)
      else need toks i TOKEN_KEYWORD_ON ERROR_SYNTAX_EXPECTED_ON
        (after (addCondition sel toks (if expectOuter then -1 else root) (i + 1) (swhere s) subs) (\<lambda>(node, i, c, subs).
         if expectOuter
         then got (i, s\<lparr>swhere := c, souter := (souter s)[slot := True], onRoot := (onRoot s)[slot := node]\<rparr>, root, subs)
         else got (i, s\<lparr>swhere := c\<rparr>, node, subs))))"

definition from_entry :: "select_parser \<Rightarrow> token list \<Rightarrow> bool \<Rightarrow> bool \<Rightarrow> nat \<Rightarrow> selectstatement \<Rightarrow> int \<Rightarrow>
    subqueries \<Rightarrow> (nat \<times> selectstatement \<times> int \<times> subqueries) parsed" where
  "from_entry sel toks expectOn expectOuter i s root subs =
     need toks i TOKEN_IDENTIFIER ERROR_SYNTAX_EXPECTED_TABLE_NAME
       (if length (stables s) = MAX_JOIN_TABLES then refuse ERROR_SYNTAX_TOO_MANY_TABLES
        else let slot = length (stables s); name = name_of (textAt toks i); i = skip_token toks (i + 1) TOKEN_KEYWORD_AS;
                 named = typeAt toks i = TOKEN_IDENTIFIER; alias = (if named then name_of (textAt toks i) else name);
                 s = s\<lparr>stables := stables s @ [name], saliases := saliases s @ [alias]\<rparr>
             in join_condition sel toks slot expectOn expectOuter (if named then i + 1 else i) s root subs)"

text \<open>How many words stand before JOIN, and whether it is a LEFT one.\<close>

definition join_words :: "token list \<Rightarrow> nat \<Rightarrow> nat \<times> bool" where
  "join_words toks i =
     (if typeAt toks i = TOKEN_KEYWORD_INNER then (1, False)
      else if typeAt toks i = TOKEN_KEYWORD_LEFT
      then (if typeAt toks (i + 1) = TOKEN_KEYWORD_OUTER then 2 else 1, True)
      else (0, False))"

primrec from_list :: "nat \<Rightarrow> select_parser \<Rightarrow> token list \<Rightarrow> bool \<Rightarrow> bool \<Rightarrow> nat \<Rightarrow> selectstatement \<Rightarrow> int \<Rightarrow>
    subqueries \<Rightarrow> (nat \<times> selectstatement \<times> int \<times> subqueries) parsed" where
  "from_list 0 sel toks expectOn expectOuter i s root subs = None"
| "from_list (Suc k) sel toks expectOn expectOuter i s root subs =
     after (from_entry sel toks expectOn expectOuter i s root subs) (\<lambda>(i, s, root, subs).
     if typeAt toks i = TOKEN_COMMA then from_list k sel toks False False (i + 1) s root subs
     else let (skip, left) = join_words toks i
          in if typeAt toks (i + skip) \<noteq> TOKEN_KEYWORD_JOIN then got (i, s, root, subs)
             else from_list k sel toks True left (i + skip + 1) s root subs)"

definition where_clause :: "select_parser \<Rightarrow> token list \<Rightarrow> nat \<Rightarrow> selectstatement \<Rightarrow> int \<Rightarrow> subqueries \<Rightarrow>
    (nat \<times> selectstatement \<times> int \<times> subqueries) parsed" where
  "where_clause sel toks i s root subs =
     (if typeAt toks i = TOKEN_KEYWORD_WHERE
      then after (addCondition sel toks root (i + 1) (swhere s) subs) (\<lambda>(root, i, c, subs).
           got (i, s\<lparr>swhere := c\<rparr>, root, subs))
      else got (i, s, root, subs))"

definition group_column :: "token list \<Rightarrow> nat \<Rightarrow> selectstatement \<Rightarrow> (nat \<times> selectstatement) parsed" where
  "group_column toks i s =
     need toks i TOKEN_IDENTIFIER ERROR_SYNTAX_EXPECTED_COLUMN
       (if length (groupBy s) = MAX_COLS then refuse ERROR_SYNTAX_TOO_MANY_COLUMNS
        else got (i + 1, s\<lparr>groupBy := groupBy s @ [name_of (textAt toks i)]\<rparr>))"

definition group_clause :: "token list \<Rightarrow> nat \<Rightarrow> selectstatement \<Rightarrow> (nat \<times> selectstatement) parsed" where
  "group_clause toks i s =
     (if typeAt toks i = TOKEN_KEYWORD_GROUP
      then need toks (i + 1) TOKEN_KEYWORD_BY ERROR_SYNTAX_EXPECTED_BY
             (comma_list (fuel toks) toks (group_column toks) (i + 2) s)
      else got (i, s))"

definition having_clause :: "select_parser \<Rightarrow> token list \<Rightarrow> nat \<Rightarrow> selectstatement \<Rightarrow> subqueries \<Rightarrow>
    (nat \<times> selectstatement \<times> subqueries) parsed" where
  "having_clause sel toks i s subs =
     (if typeAt toks i = TOKEN_KEYWORD_HAVING
      then after (parseHaving sel toks i subs) (\<lambda>(c, i, subs). got (i, s\<lparr>having := c\<rparr>, subs))
      else got (i, s, subs))"

definition order_term :: "token list \<Rightarrow> nat \<Rightarrow> selectstatement \<Rightarrow> (nat \<times> selectstatement) parsed" where
  "order_term toks i s =
     (if length (sorder s) = MAX_COLS then refuse ERROR_SYNTAX_TOO_MANY_COLUMNS
      else after (parseSelectItem toks i (sexprs s)) (\<lambda>(item, i, pool).
           let desc = typeAt toks i = TOKEN_KEYWORD_DESC;
               s = s\<lparr>sexprs := pool, sorder := sorder s @ [\<lparr>ocolumn = name_of (ilabel item), descending = desc\<rparr>]\<rparr>
           in got (if desc then i + 1 else skip_token toks i TOKEN_KEYWORD_ASC, s)))"

definition order_clause :: "token list \<Rightarrow> nat \<Rightarrow> selectstatement \<Rightarrow> (nat \<times> selectstatement) parsed" where
  "order_clause toks i s =
     (if typeAt toks i = TOKEN_KEYWORD_ORDER
      then need toks (i + 1) TOKEN_KEYWORD_BY ERROR_SYNTAX_EXPECTED_BY
             (comma_list (fuel toks) toks (order_term toks) (i + 2) s)
      else got (i, s))"

definition limit_clause :: "token list \<Rightarrow> nat \<Rightarrow> selectstatement \<Rightarrow> (nat \<times> selectstatement) parsed" where
  "limit_clause toks i s =
     (if typeAt toks i = TOKEN_KEYWORD_LIMIT
      then need toks (i + 1) TOKEN_NUMBER ERROR_SYNTAX_EXPECTED_VALUE
             (let (rows, range) = strtoll (textAt toks (i + 1))
              in if range \<or> rows > INT_MAX then refuse ERROR_VALUE_OUT_OF_RANGE
                 else got (i + 2, s\<lparr>slimit := rows\<rparr>))
      else got (i, s))"

text \<open>\<open>parseSelect\<close> over the parser of its subqueries.\<close>

definition select_body :: "select_parser \<Rightarrow> select_parser" where
  "select_body sel toks subs =
     (let distinct_word = typeAt toks 1 = TOKEN_KEYWORD_DISTINCT; i = (if distinct_word then 2 else 1)
      in after (select_list toks i (blank_select\<lparr>sdistinct := distinct_word\<rparr>)) (\<lambda>(i, s).
         need toks i TOKEN_KEYWORD_FROM ERROR_SYNTAX_EXPECTED_FROM
           (after (from_list (fuel toks) sel toks False False (i + 1) s (-1) subs) (\<lambda>(i, s, root, subs).
            after (where_clause sel toks i (s\<lparr>stable := stables s ! 0\<rparr>) root subs) (\<lambda>(i, s, root, subs).
            let s = (if root \<ge> 0 then s\<lparr>swhere := (swhere s)\<lparr>croot := root, present := True\<rparr>\<rparr> else s)
            in after (group_clause toks i s) (\<lambda>(i, s).
               after (having_clause sel toks i s subs) (\<lambda>(i, s, subs).
               after (order_clause toks i s) (\<lambda>(i, s).
               after (limit_clause toks i s) (\<lambda>(i, s).
               after (endOfStatement toks i) (\<lambda>_. got (s, subs)))))))))))"

text \<open>An inner SELECT has fewer tokens than the one it stands in, so their number is fuel enough.\<close>

primrec select_within :: "nat \<Rightarrow> select_parser" where
  "select_within 0 toks subs = None"
| "select_within (Suc k) toks subs = select_body (select_within k) toks subs"

definition parseSelect :: select_parser where
  "parseSelect toks subs = select_within (fuel toks) toks subs"

subsection \<open>CREATE TABLE\<close>

definition parseColumnType :: "token list \<Rightarrow> nat \<Rightarrow> column \<Rightarrow> (nat \<times> column) parsed" where
  "parseColumnType toks i c =
     (let c = c\<lparr>csize := 0\<rparr>; type = typeAt toks i
      in if type = TOKEN_KEYWORD_INT then got (i + 1, c\<lparr>ctype := TYPE_INT\<rparr>)
         else if type = TOKEN_KEYWORD_TEXT then got (i + 1, c\<lparr>ctype := TYPE_TEXT\<rparr>)
         else if type = TOKEN_KEYWORD_FLOAT then got (i + 1, c\<lparr>ctype := TYPE_FLOAT\<rparr>)
         else if type = TOKEN_KEYWORD_DATE then got (i + 1, c\<lparr>ctype := TYPE_DATE\<rparr>)
         else if type = TOKEN_KEYWORD_VARCHAR
         then need toks (i + 1) TOKEN_LPAREN ERROR_SYNTAX_EXPECTED_PARENTHESES
                (need toks (i + 2) TOKEN_NUMBER ERROR_SYNTAX_EXPECTED_SIZE
                  (let (size_read, _) = strtoll (textAt toks (i + 2))
                   in if size_read \<le> 0 \<or> size_read > int VALUE_LEN then refuse ERROR_SYNTAX_EXPECTED_SIZE
                      else need toks (i + 3) TOKEN_RPAREN ERROR_SYNTAX_EXPECTED_PARENTHESES
                             (got (i + 4, c\<lparr>ctype := TYPE_TEXT, csize := size_read\<rparr>))))
         else refuse ERROR_SYNTAX_EXPECTED_TYPE)"

definition with_flags :: "int \<Rightarrow> column \<Rightarrow> column" where
  "with_flags flags c = c\<lparr>cflags := cflags c OR flags\<rparr>"

text \<open>The column with its constraints, and the table's CHECK with the root of its tree.\<close>

primrec parseColumnConstraints :: "nat \<Rightarrow> select_parser \<Rightarrow> token list \<Rightarrow> nat \<Rightarrow> column \<Rightarrow> condition \<Rightarrow> int \<Rightarrow> subqueries \<Rightarrow>
    (nat \<times> column \<times> condition \<times> int \<times> subqueries) parsed" where
  "parseColumnConstraints 0 sel toks i c check root subs = None"
| "parseColumnConstraints (Suc k) sel toks i c check root subs =
     (let type = typeAt toks i
      in if type = TOKEN_KEYWORD_PRIMARY
         then need toks (i + 1) TOKEN_KEYWORD_KEY ERROR_SYNTAX_EXPECTED_KEY
                (parseColumnConstraints k sel toks (i + 2) (with_flags (COL_PRIMARY OR COL_UNIQUE OR COL_NOT_NULL) c) check root subs)
         else if type = TOKEN_KEYWORD_UNIQUE
         then parseColumnConstraints k sel toks (i + 1) (with_flags COL_UNIQUE c) check root subs
         else if type = TOKEN_KEYWORD_NOT
         then need toks (i + 1) TOKEN_KEYWORD_NULL ERROR_SYNTAX_EXPECTED_NULL
                (parseColumnConstraints k sel toks (i + 2) (with_flags COL_NOT_NULL c) check root subs)
         else if type = TOKEN_KEYWORD_DEFAULT
         then after (parseValue toks (i + 1)) (\<lambda>(v, i).
              parseColumnConstraints k sel toks i (c\<lparr>defaultValue := v, hasDefault := True\<rparr>) check root subs)
         else if type = TOKEN_KEYWORD_CHECK
         then need toks (i + 1) TOKEN_LPAREN ERROR_SYNTAX_EXPECTED_PARENTHESES
                (after (addCondition sel toks root (i + 2) check subs) (\<lambda>(root, i, check, subs).
                 need toks i TOKEN_RPAREN ERROR_SYNTAX_EXPECTED_PARENTHESES
                   (parseColumnConstraints k sel toks (i + 1) c check root subs)))
         else got (i, c, check, root, subs))"

definition table_entry :: "select_parser \<Rightarrow> token list \<Rightarrow> nat \<Rightarrow> createstatement \<times> int \<times> subqueries \<Rightarrow>
    (nat \<times> createstatement \<times> int \<times> subqueries) parsed" where
  "table_entry sel toks i = (\<lambda>(s, root, subs).
     if typeAt toks i = TOKEN_KEYWORD_CHECK
     then after (parseColumnConstraints (fuel toks) sel toks i blank_column (crcheck s) root subs) (\<lambda>(i, _, check, root, subs).
          got (i, s\<lparr>crcheck := check\<rparr>, root, subs))
     else need toks i TOKEN_IDENTIFIER ERROR_SYNTAX_EXPECTED_COLUMN
       (if length (crcols s) = MAX_COLS then refuse ERROR_SYNTAX_TOO_MANY_COLUMNS
        else after (parseColumnType toks (i + 1) (blank_column\<lparr>cname := name_of (textAt toks i)\<rparr>)) (\<lambda>(i, c).
             after (parseColumnConstraints (fuel toks) sel toks i c (crcheck s) root subs) (\<lambda>(i, c, check, root, subs).
             got (i, s\<lparr>crcols := crcols s @ [c], crcheck := check\<rparr>, root, subs)))))"

definition parseCreateTable :: "select_parser \<Rightarrow> token list \<Rightarrow> subqueries \<Rightarrow> (createstatement \<times> subqueries) parsed" where
  "parseCreateTable sel toks subs =
     need toks 1 TOKEN_KEYWORD_TABLE ERROR_SYNTAX_INVALID_STATEMENT
       (after (identifier_at toks 2 ERROR_SYNTAX_EXPECTED_TABLE_NAME) (\<lambda>(name, i).
        need toks i TOKEN_LPAREN ERROR_SYNTAX_EXPECTED_PARENTHESES
          (after (comma_list (fuel toks) toks (table_entry sel toks) (i + 1)
                    (\<lparr>crtable = name, crcols = [], crcheck = blank_condition\<rparr>, -1, subs)) (\<lambda>(i, s, root, subs).
           if crcols s = [] then refuse ERROR_SYNTAX_EXPECTED_COLUMN
           else need toks i TOKEN_RPAREN ERROR_SYNTAX_EXPECTED_PARENTHESES
             (let s = (if root \<ge> 0 then s\<lparr>crcheck := (crcheck s)\<lparr>croot := root, present := True\<rparr>\<rparr> else s)
              in after (endOfStatement toks (i + 1)) (\<lambda>_. got (s, subs)))))))"

subsection \<open>The other statements\<close>

text \<open>A statement that is a name from an index on: USE, CREATE DATABASE, VACUUM, and DROP after its kind.\<close>

definition name_statement :: "token list \<Rightarrow> nat \<Rightarrow> string parsed" where
  "name_statement toks i =
     after (identifier_at toks i ERROR_SYNTAX_EXPECTED_TABLE_NAME) (\<lambda>(name, i).
     after (endOfStatement toks i) (\<lambda>_. got name))"

definition parseUse :: "token list \<Rightarrow> string parsed" where "parseUse toks = name_statement toks 1"
definition parseCreateDatabase :: "token list \<Rightarrow> string parsed" where "parseCreateDatabase toks = name_statement toks 2"
definition parseVacuum :: "token list \<Rightarrow> string parsed" where "parseVacuum toks = name_statement toks 1"

definition parseDrop :: "token list \<Rightarrow> statement parsed" where
  "parseDrop toks =
     (if typeAt toks 1 = TOKEN_KEYWORD_TABLE then after (name_statement toks 2) (\<lambda>n. got (STMT_DROP_TABLE n))
      else if typeAt toks 1 = TOKEN_KEYWORD_INDEX then after (name_statement toks 2) (\<lambda>n. got (STMT_DROP_INDEX n))
      else if typeAt toks 1 = TOKEN_KEYWORD_DATABASE then after (name_statement toks 2) (\<lambda>n. got (STMT_DROP_DATABASE n))
      else refuse ERROR_SYNTAX_INVALID_STATEMENT)"

definition insert_column :: "token list \<Rightarrow> nat \<Rightarrow> insertstatement \<Rightarrow> (nat \<times> insertstatement) parsed" where
  "insert_column toks i s =
     need toks i TOKEN_IDENTIFIER ERROR_SYNTAX_EXPECTED_COLUMN
       (if length (incolumns s) = MAX_COLS then refuse ERROR_SYNTAX_TOO_MANY_COLUMNS
        else got (i + 1, s\<lparr>incolumns := incolumns s @ [name_of (textAt toks i)]\<rparr>))"

definition insert_value :: "token list \<Rightarrow> nat \<Rightarrow> insertstatement \<Rightarrow> (nat \<times> insertstatement) parsed" where
  "insert_value toks i s =
     (if length (invalues s) = MAX_COLS then refuse ERROR_SYNTAX_TOO_MANY_COLUMNS
      else after (parseValue toks i) (\<lambda>(v, i). got (i, s\<lparr>invalues := invalues s @ [v]\<rparr>)))"

definition insert_columns :: "token list \<Rightarrow> nat \<Rightarrow> insertstatement \<Rightarrow> (nat \<times> insertstatement) parsed" where
  "insert_columns toks i s =
     (if typeAt toks i = TOKEN_LPAREN
      then after (comma_list (fuel toks) toks (insert_column toks) (i + 1) s) (\<lambda>(i, s).
           need toks i TOKEN_RPAREN ERROR_SYNTAX_EXPECTED_PARENTHESES (got (i + 1, s)))
      else got (i, s))"

definition parseInsert :: "token list \<Rightarrow> insertstatement parsed" where
  "parseInsert toks =
     need toks 1 TOKEN_KEYWORD_INTO ERROR_SYNTAX_INVALID_STATEMENT
       (after (identifier_at toks 2 ERROR_SYNTAX_EXPECTED_TABLE_NAME) (\<lambda>(name, i).
        after (insert_columns toks i \<lparr>intable = name, incolumns = [], invalues = []\<rparr>) (\<lambda>(i, s).
        need toks i TOKEN_KEYWORD_VALUES ERROR_SYNTAX_EXPECTED_VALUES
          (need toks (i + 1) TOKEN_LPAREN ERROR_SYNTAX_EXPECTED_PARENTHESES
            (after (comma_list (fuel toks) toks (insert_value toks) (i + 2) s) (\<lambda>(i, s).
             need toks i TOKEN_RPAREN ERROR_SYNTAX_EXPECTED_PARENTHESES
               (after (endOfStatement toks (i + 1)) (\<lambda>_. got s))))))))"

definition parseCreateIndex :: "token list \<Rightarrow> createindexstatement parsed" where
  "parseCreateIndex toks =
     after (identifier_at toks 2 ERROR_SYNTAX_EXPECTED_TABLE_NAME) (\<lambda>(name, i).
     need toks i TOKEN_KEYWORD_ON ERROR_SYNTAX_EXPECTED_ON
       (after (identifier_at toks (i + 1) ERROR_SYNTAX_EXPECTED_TABLE_NAME) (\<lambda>(tab, i).
        need toks i TOKEN_LPAREN ERROR_SYNTAX_EXPECTED_PARENTHESES
          (after (identifier_at toks (i + 1) ERROR_SYNTAX_EXPECTED_COLUMN) (\<lambda>(col, i).
           need toks i TOKEN_RPAREN ERROR_SYNTAX_EXPECTED_PARENTHESES
             (after (endOfStatement toks (i + 1)) (\<lambda>_.
              got \<lparr>ixname = name, ixtable = tab, ixcolumn = col\<rparr>)))))))"

definition optional_where :: "select_parser \<Rightarrow> token list \<Rightarrow> nat \<Rightarrow> subqueries \<Rightarrow> (condition \<times> nat \<times> subqueries) parsed" where
  "optional_where sel toks i subs =
     (if typeAt toks i = TOKEN_KEYWORD_WHERE then parseWhere sel toks i subs else got (blank_condition, i, subs))"

definition parseDelete :: "select_parser \<Rightarrow> token list \<Rightarrow> subqueries \<Rightarrow> (deletestatement \<times> subqueries) parsed" where
  "parseDelete sel toks subs =
     need toks 1 TOKEN_KEYWORD_FROM ERROR_SYNTAX_EXPECTED_FROM
       (after (identifier_at toks 2 ERROR_SYNTAX_EXPECTED_TABLE_NAME) (\<lambda>(name, i).
        after (optional_where sel toks i subs) (\<lambda>(c, i, subs).
        after (endOfStatement toks i) (\<lambda>_. got (\<lparr>detable = name, dewhere = c\<rparr>, subs)))))"

definition update_set :: "token list \<Rightarrow> nat \<Rightarrow> updatestatement \<Rightarrow> (nat \<times> updatestatement) parsed" where
  "update_set toks i s =
     need toks i TOKEN_IDENTIFIER ERROR_SYNTAX_EXPECTED_COLUMN
       (if length (upsets s) = MAX_COLS then refuse ERROR_SYNTAX_TOO_MANY_COLUMNS
        else need toks (i + 1) TOKEN_OPERATOR_EQ ERROR_SYNTAX_EXPECTED_ASSIGNMENT
          (after (parseExpression toks (i + 2) (upexprs s)) (\<lambda>(n, j, pool).
           got (j, s\<lparr>upsets := upsets s @ [\<lparr>ascolumn = name_of (textAt toks i), asexpr = n\<rparr>], upexprs := pool\<rparr>))))"

definition parseUpdate :: "select_parser \<Rightarrow> token list \<Rightarrow> subqueries \<Rightarrow> (updatestatement \<times> subqueries) parsed" where
  "parseUpdate sel toks subs =
     after (identifier_at toks 1 ERROR_SYNTAX_EXPECTED_TABLE_NAME) (\<lambda>(name, i).
     need toks i TOKEN_KEYWORD_SET ERROR_SYNTAX_EXPECTED_SET
       (after (comma_list (fuel toks) toks (update_set toks) (i + 1)
                 \<lparr>uptable = name, upsets = [], upexprs = exprInit, upwhere = blank_condition\<rparr>) (\<lambda>(i, s).
        after (optional_where sel toks i subs) (\<lambda>(c, i, subs).
        after (endOfStatement toks i) (\<lambda>_. got (s\<lparr>upwhere := c\<rparr>, subs))))))"

definition alter_add :: "select_parser \<Rightarrow> token list \<Rightarrow> nat \<Rightarrow> alterstatement \<Rightarrow> subqueries \<Rightarrow>
    (nat \<times> alterstatement \<times> subqueries) parsed" where
  "alter_add sel toks i s subs =
     after (identifier_at toks (skip_token toks i TOKEN_KEYWORD_COLUMN) ERROR_SYNTAX_EXPECTED_COLUMN) (\<lambda>(name, i).
     after (parseColumnType toks i ((alcolumn s)\<lparr>cname := name\<rparr>)) (\<lambda>(i, c).
     after (parseColumnConstraints (fuel toks) sel toks i c blank_condition (-1) subs) (\<lambda>(i, c, _, root, subs).
     if root \<noteq> -1 then refuse ERROR_SEMANTIC_ALTER_UNSUPPORTED
     else got (i, s\<lparr>alaction := ALTER_ADD_COLUMN, alcolumn := c\<rparr>, subs))))"

definition alter_drop :: "token list \<Rightarrow> nat \<Rightarrow> alterstatement \<Rightarrow> (nat \<times> alterstatement) parsed" where
  "alter_drop toks i s =
     after (identifier_at toks (skip_token toks i TOKEN_KEYWORD_COLUMN) ERROR_SYNTAX_EXPECTED_COLUMN) (\<lambda>(name, i).
     got (i, s\<lparr>alaction := ALTER_DROP_COLUMN, alname := name\<rparr>))"

definition alter_rename :: "token list \<Rightarrow> nat \<Rightarrow> alterstatement \<Rightarrow> (nat \<times> alterstatement) parsed" where
  "alter_rename toks i s =
     (if typeAt toks i = TOKEN_KEYWORD_TO
      then after (identifier_at toks (i + 1) ERROR_SYNTAX_EXPECTED_TABLE_NAME) (\<lambda>(name, i).
           got (i, s\<lparr>alaction := ALTER_RENAME_TABLE, alnewName := name\<rparr>))
      else need toks i TOKEN_KEYWORD_COLUMN ERROR_SYNTAX_EXPECTED_COLUMN
        (after (identifier_at toks (i + 1) ERROR_SYNTAX_EXPECTED_COLUMN) (\<lambda>(name, i).
         need toks i TOKEN_KEYWORD_TO ERROR_SYNTAX_EXPECTED_TO
           (after (identifier_at toks (i + 1) ERROR_SYNTAX_EXPECTED_COLUMN) (\<lambda>(new, i).
            got (i, s\<lparr>alaction := ALTER_RENAME_COLUMN, alname := name, alnewName := new\<rparr>))))))"

definition parseAlter :: "select_parser \<Rightarrow> token list \<Rightarrow> subqueries \<Rightarrow> (alterstatement \<times> subqueries) parsed" where
  "parseAlter sel toks subs =
     need toks 1 TOKEN_KEYWORD_TABLE ERROR_SYNTAX_EXPECTED_TABLE
       (after (identifier_at toks 2 ERROR_SYNTAX_EXPECTED_TABLE_NAME) (\<lambda>(name, i).
        let s = \<lparr>altable = name, alaction = ALTER_ADD_COLUMN, alcolumn = blank_column, alname = [], alnewName = []\<rparr>;
            type = typeAt toks i
        in after
             (if type = TOKEN_KEYWORD_ADD then alter_add sel toks (i + 1) s subs
              else if type = TOKEN_KEYWORD_DROP then after (alter_drop toks (i + 1) s) (\<lambda>(i, s). got (i, s, subs))
              else if type = TOKEN_KEYWORD_RENAME then after (alter_rename toks (i + 1) s) (\<lambda>(i, s). got (i, s, subs))
              else refuse ERROR_SYNTAX_INVALID_STATEMENT)
             (\<lambda>(i, s, subs). after (endOfStatement toks i) (\<lambda>_. got (s, subs)))))"

subsection \<open>Dispatch\<close>

definition bare_statement :: "token list \<Rightarrow> statement \<Rightarrow> statement parsed" where
  "bare_statement toks s = after (endOfStatement toks 1) (\<lambda>_. got s)"

definition with_subqueries :: "subqueries \<Rightarrow> 'a parsed \<Rightarrow> ('a \<times> subqueries) parsed" where
  "with_subqueries subs m = after m (\<lambda>x. got (x, subs))"

text \<open>No statement at all is a success, and leaves \<open>out\<close> as it was.\<close>

definition parseStatement :: "token list \<Rightarrow> subqueries \<Rightarrow> (statement option \<times> subqueries) parsed" where
  "parseStatement toks subs =
     (if toks = [] then got (None, subs)
      else let type = typeAt toks 0; sel = parseSelect
           in after
             (if type = TOKEN_KEYWORD_SELECT then after (parseSelect toks subs) (\<lambda>(s, subs). got (STMT_SELECT s, subs))
              else if type = TOKEN_KEYWORD_CREATE then
                (if typeAt toks 1 = TOKEN_KEYWORD_DATABASE
                 then with_subqueries subs (after (parseCreateDatabase toks) (\<lambda>n. got (STMT_CREATE_DATABASE n)))
                 else if typeAt toks 1 = TOKEN_KEYWORD_INDEX
                 then with_subqueries subs (after (parseCreateIndex toks) (\<lambda>s. got (STMT_CREATE_INDEX s)))
                 else after (parseCreateTable sel toks subs) (\<lambda>(s, subs). got (STMT_CREATE_TABLE s, subs)))
              else if type = TOKEN_KEYWORD_INSERT
              then with_subqueries subs (after (parseInsert toks) (\<lambda>s. got (STMT_INSERT s)))
              else if type = TOKEN_KEYWORD_DELETE then after (parseDelete sel toks subs) (\<lambda>(s, subs). got (STMT_DELETE s, subs))
              else if type = TOKEN_KEYWORD_UPDATE then after (parseUpdate sel toks subs) (\<lambda>(s, subs). got (STMT_UPDATE s, subs))
              else if type = TOKEN_KEYWORD_VACUUM
              then with_subqueries subs (after (parseVacuum toks) (\<lambda>n. got (STMT_VACUUM n)))
              else if type = TOKEN_KEYWORD_USE
              then with_subqueries subs (after (parseUse toks) (\<lambda>n. got (STMT_USE_DATABASE n)))
              else if type = TOKEN_KEYWORD_BEGIN then with_subqueries subs (bare_statement toks STMT_BEGIN)
              else if type = TOKEN_KEYWORD_COMMIT then with_subqueries subs (bare_statement toks STMT_COMMIT)
              else if type = TOKEN_KEYWORD_ROLLBACK then with_subqueries subs (bare_statement toks STMT_ROLLBACK)
              else if type = TOKEN_KEYWORD_ALTER then after (parseAlter sel toks subs) (\<lambda>(s, subs). got (STMT_ALTER_TABLE s, subs))
              else if type = TOKEN_KEYWORD_DROP then with_subqueries subs (parseDrop toks)
              else refuse ERROR_SYNTAX_INVALID_STATEMENT)
             (\<lambda>(s, subs). got (Some s, subs)))"

end
