(* ===== verification/Grammar.thy ===== *)
theory Grammar
  imports Parser
begin

text \<open>
  What the expression parser does: it always returns, what it builds is a tree over the pool it was
  given, and it reads a printed expression back as the tree it was printed from, so that the two
  levels of operators bind and associate as they should.
\<close>

subsection \<open>Returning\<close>

text \<open>A parse that returns, and whose result, if it is one, has a property.\<close>

definition returns :: "('a \<Rightarrow> bool) \<Rightarrow> 'a parsed \<Rightarrow> bool" where
  "returns P m \<longleftrightarrow> (case m of None \<Rightarrow> False | Some (Inl e) \<Rightarrow> True | Some (Inr x) \<Rightarrow> P x)"

named_theorems ret \<open>rules for what a parse returns\<close>

lemma returns_simps [simp]: "returns P (got x) = P x" "returns P (refuse e)" "\<not> returns P None"
  "returns P (Some (Inl e))" "returns P (Some (Inr x)) = P x"
  by (simp_all add: returns_def got_def refuse_def)

lemma parsed_cases:
  obtains "m = None" | e where "m = refuse e" | x where "m = got x"
proof (cases m)
  case (Some r)
  then show ?thesis using that by (cases r) (auto simp: got_def refuse_def)
qed (use that in simp)

lemma returns_after: "returns Q m \<Longrightarrow> (\<And>x. Q x \<Longrightarrow> returns P (k x)) \<Longrightarrow> returns P (after m k)"
  by (cases m rule: parsed_cases) auto

lemma returns_need: "(typeAt toks i = type \<Longrightarrow> returns P m) \<Longrightarrow> returns P (need toks i type e m)"
  by (simp add: need_def)

lemma returns_weaken: "returns Q m \<Longrightarrow> (\<And>x. Q x \<Longrightarrow> P x) \<Longrightarrow> returns P m"
  by (cases m rule: parsed_cases) auto

lemma returns_some: "returns P m \<Longrightarrow> m \<noteq> None"
  by (cases m) auto

lemma returns_got: "returns P m \<Longrightarrow> m = Some (Inr x) \<Longrightarrow> P x"
  by (simp add: returns_def)

lemma typeAt_inside: "typeAt toks i \<noteq> TOKEN_UNKNOWN \<Longrightarrow> i < length toks"
  by (auto simp: typeAt_def split: if_splits)

lemma typeAt_is: "typeAt toks i = type \<Longrightarrow> type \<noteq> TOKEN_UNKNOWN \<Longrightarrow> i < length toks"
  using typeAt_inside by blast

lemma endOfStatement_returns: "(i = length toks \<or> Suc i = length toks \<Longrightarrow> P ()) \<Longrightarrow> returns P (endOfStatement toks i)"
  by (auto simp: endOfStatement_def Let_def)

lemma parseValue_returns: "returns (\<lambda>(v, j). i < j \<and> j \<le> length toks) (parseValue toks i)"
proof -
  have in_toks: "j < length toks" if "typeAt toks j \<in> {TOKEN_NUMBER, TOKEN_STRING, TOKEN_KEYWORD_NULL}" for j
    using typeAt_inside [of toks j] that by auto
  have num: "returns (\<lambda>(v, j). i < j \<and> j \<le> length toks) (after (Some (number_value s b)) (\<lambda>v. got (v, j + 1)))"
    if "i \<le> j" "j < length toks" for s b j
    using that by (cases "number_value s b") auto
  show ?thesis
    unfolding parseValue_def Let_def using in_toks [of i] in_toks [of "i + 1"] num [of i] num [of "i + 1"] by auto
qed

subsection \<open>Pools that grow\<close>

definition pool_ok :: "exprpool \<Rightarrow> bool" where
  "pool_ok pool \<longleftrightarrow> edges_down pool \<and> length pool \<le> MAX_EXPR_NODES"

lemma pool_ok_empty [simp]: "pool_ok []" "pool_ok exprInit"
  by (simp_all add: pool_ok_def edges_down_def exprInit_def)

definition node_ok :: "exprpool \<Rightarrow> exprnode \<Rightarrow> bool" where
  "node_ok pool nd \<longleftrightarrow>
     (ekind nd = EXPR_NEGATE \<longrightarrow> in_pool pool (eleft nd)) \<and>
     (ekind nd = EXPR_BINARY \<longrightarrow> in_pool pool (eleft nd) \<and> in_pool pool (eright nd))"

lemma edges_down_snoc: "edges_down pool \<Longrightarrow> node_ok pool nd \<Longrightarrow> edges_down (pool @ [nd])"
  by (auto simp: edges_down_def node_ok_def nth_append in_pool_def less_Suc_eq)

lemma in_pool_prefix: "prefix pool pool' \<Longrightarrow> in_pool pool n \<Longrightarrow> in_pool pool' n"
  by (auto simp: in_pool_def prefix_def)

lemma node_at_prefix: "prefix pool pool' \<Longrightarrow> in_pool pool n \<Longrightarrow> node_at pool' n = node_at pool n"
  by (auto simp: in_pool_def prefix_def node_at_def nth_append)

lemma new_expr_eq:
  "new_expr pool kind fill =
     (if length pool = MAX_EXPR_NODES then refuse ERROR_SYNTAX_EXPRESSION_TOO_COMPLEX
      else got (int (length pool), pool @ [fill (blank_node kind)]))"
  by (auto simp: new_expr_def exprNew_def set_node_def node_at_def)

lemma new_expr_returns:
  assumes "pool_ok pool" "node_ok pool (fill (blank_node kind))"
  shows "returns (\<lambda>(n, pool'). pool_ok pool' \<and> prefix pool pool' \<and> in_pool pool' n) (new_expr pool kind fill)"
  using assms by (auto simp: new_expr_eq pool_ok_def edges_down_snoc in_pool_def)

lemma literal_node:
  "exprNew pool EXPR_LITERAL =
     (if length pool = MAX_EXPR_NODES then (Inl ERROR_SYNTAX_EXPRESSION_TOO_COMPLEX, pool)
      else (Inr (int (length pool)), pool @ [blank_node EXPR_LITERAL]))"
  by (simp add: exprNew_def)

subsection \<open>Every expression parse returns\<close>

definition expr_result :: "token list \<Rightarrow> nat \<Rightarrow> exprpool \<Rightarrow> int \<times> nat \<times> exprpool \<Rightarrow> bool" where
  "expr_result toks i pool = (\<lambda>(n, j, pool').
     i < j \<and> j \<le> length toks \<and> pool_ok pool' \<and> prefix pool pool' \<and> in_pool pool' n)"

text \<open>A parser of operands from some index on.\<close>

definition operand_parser :: "token list \<Rightarrow> nat \<Rightarrow> expr_parser \<Rightarrow> bool" where
  "operand_parser toks b f \<longleftrightarrow> (\<forall>i pool. b \<le> i \<longrightarrow> i \<le> length toks \<longrightarrow> pool_ok pool \<longrightarrow> returns (expr_result toks i pool) (f i pool))"

lemma operand_parserD: "operand_parser toks b f \<Longrightarrow> b \<le> i \<Longrightarrow> i \<le> length toks \<Longrightarrow> pool_ok pool \<Longrightarrow> returns (expr_result toks i pool) (f i pool)"
  by (simp add: operand_parser_def)

text \<open>The operators of one level of the grammar: the end of the tokens is none of them.\<close>

locale operators =
  fixes ops :: "tokentype \<Rightarrow> arithop option"
  assumes no_end: "ops TOKEN_UNKNOWN = None"
begin

lemma operator_inside: "ops (typeAt toks i) = Some op \<Longrightarrow> i < length toks"
  using no_end by (auto intro!: typeAt_inside)

lemma loop_returns:
  assumes f: "operand_parser toks b f"
  shows "\<lbrakk>b \<le> i; i \<le> length toks; length toks - i < k; pool_ok pool; in_pool pool node\<rbrakk> \<Longrightarrow>
    returns (\<lambda>(n, j, pool'). i \<le> j \<and> j \<le> length toks \<and> pool_ok pool' \<and> prefix pool pool' \<and> in_pool pool' n)
      (left_loop k ops f toks node i pool)"
proof (induction k arbitrary: node i pool)
  case (Suc k)
  show ?case
  proof (cases "ops (typeAt toks i)")
    case None
    then show ?thesis using Suc.prems by simp
  next
    case (Some op)
    have i: "i < length toks" by (rule operator_inside [OF Some])
    show ?thesis
      unfolding left_loop.simps Some option.case
    proof (rule returns_after [OF operand_parserD [OF f _ _ Suc.prems(4)]])
      fix x assume x: "expr_result toks (i + 1) pool x"
      obtain right j pool1 where e: "x = (right, j, pool1)" by (cases x)
      have r: "i + 1 < j" "j \<le> length toks" "pool_ok pool1" "prefix pool pool1" "in_pool pool1 right"
        using x by (simp_all add: e expr_result_def)
      show "returns (\<lambda>(n, j, pool'). i \<le> j \<and> j \<le> length toks \<and> pool_ok pool' \<and> prefix pool pool' \<and> in_pool pool' n)
        (case x of (right, j, pool) \<Rightarrow>
           after (new_expr pool EXPR_BINARY (\<lambda>nd. nd\<lparr>eop := op, eleft := node, eright := right\<rparr>))
             (\<lambda>(parent, pool). left_loop k ops f toks parent j pool))"
        unfolding e prod.case
      proof (rule returns_after [OF new_expr_returns [OF r(3)]])
        show "node_ok pool1 ((blank_node EXPR_BINARY)\<lparr>eop := op, eleft := node, eright := right\<rparr>)"
          using in_pool_prefix [OF r(4) Suc.prems(5)] r(5) by (simp add: node_ok_def blank_node_def)
        fix y assume y: "case y of (n, pool') \<Rightarrow> pool_ok pool' \<and> prefix pool1 pool' \<and> in_pool pool' n"
        obtain parent pool2 where e2: "y = (parent, pool2)" by (cases y)
        have "returns (\<lambda>(n, ja, pool'). j \<le> ja \<and> ja \<le> length toks \<and> pool_ok pool' \<and> prefix pool2 pool' \<and> in_pool pool' n)
           (left_loop k ops f toks parent j pool2)"
          by (rule Suc.IH) (use r y e2 Suc.prems i in auto)
        then show "returns (\<lambda>(n, j, pool'). i \<le> j \<and> j \<le> length toks \<and> pool_ok pool' \<and> prefix pool pool' \<and> in_pool pool' n)
          (case y of (parent, pool) \<Rightarrow> left_loop k ops f toks parent j pool)"
          unfolding e2 prod.case by (rule returns_weaken) (use r y e2 in \<open>auto dest: prefix_order.trans\<close>)
      qed
    qed (use Suc.prems i in simp_all)
  qed
qed simp

text \<open>An operand and the operators after it.\<close>

lemma chain_returns:
  assumes f: "operand_parser toks b f"
  shows "operand_parser toks b (\<lambda>i pool. after (f i pool) (\<lambda>(node, j, pool). left_loop (fuel toks) ops f toks node j pool))"
  unfolding operand_parser_def
proof (intro allI impI)
  fix i pool assume i: "b \<le> i" and l: "i \<le> length toks" and p: "pool_ok pool"
  show "returns (expr_result toks i pool) (after (f i pool) (\<lambda>(node, j, pool). left_loop (fuel toks) ops f toks node j pool))"
  proof (rule returns_after [OF operand_parserD [OF f i l p]])
    fix x assume x: "expr_result toks i pool x"
    obtain node j pool1 where e: "x = (node, j, pool1)" by (cases x)
    have r: "i < j" "j \<le> length toks" "pool_ok pool1" "prefix pool pool1" "in_pool pool1 node"
      using x by (simp_all add: e expr_result_def)
    show "returns (expr_result toks i pool) (case x of (node, j, pool) \<Rightarrow> left_loop (fuel toks) ops f toks node j pool)"
      unfolding e prod.case
      by (rule returns_weaken [OF loop_returns [OF f _ r(2) _ r(3) r(5)]])
         (use i r in \<open>auto simp: fuel_def expr_result_def dest: prefix_order.trans\<close>)
  qed
qed

end

interpretation products: operators term_op
  by unfold_locales (simp add: term_op_def)

interpretation sums: operators sum_op
  by unfold_locales (simp add: sum_op_def)

lemma expression_of_reads: "operand_parser toks b f \<Longrightarrow> operand_parser toks b (expression_of f toks)"
  unfolding expression_of_def [abs_def] parseTerm_def [abs_def]
  by (intro sums.chain_returns products.chain_returns)

lemma expr_resultI:
  "\<lbrakk>i < j; j \<le> length toks; pool_ok pool'; prefix pool pool'; in_pool pool' n\<rbrakk> \<Longrightarrow> expr_result toks i pool (n, j, pool')"
  by (simp add: expr_result_def)

lemma expr_resultE:
  assumes "expr_result toks i pool x"
  obtains n j pool' where "x = (n, j, pool')" "i < j" "j \<le> length toks" "pool_ok pool'" "prefix pool pool'" "in_pool pool' n"
  using assms by (cases x) (auto simp: expr_result_def)

lemma parseFactor_reads: "length toks < b + k \<Longrightarrow> operand_parser toks b (parseFactor k toks)"
proof (induction k arbitrary: b)
  case 0
  then show ?case by (simp add: operand_parser_def)
next
  case (Suc k)
  have inner: "operand_parser toks (b + 1) (parseFactor k toks)" by (rule Suc.IH) (use Suc.prems in simp)
  note parens = expression_of_reads [OF inner]
  show ?case
    unfolding operand_parser_def
  proof (intro allI impI)
    fix i pool assume i: "b \<le> i" "i \<le> length toks" and p: "pool_ok pool"
    consider (minus) "typeAt toks i = TOKEN_MINUS" | (paren) "typeAt toks i = TOKEN_LPAREN"
      | (name) "typeAt toks i = TOKEN_IDENTIFIER"
      | (other) "typeAt toks i \<notin> {TOKEN_MINUS, TOKEN_LPAREN, TOKEN_IDENTIFIER}" by blast
    then show "returns (expr_result toks i pool) (parseFactor (Suc k) toks i pool)"
    proof cases
      case minus
      have "returns (expr_result toks i pool)
        (after (parseFactor k toks (i + 1) pool) (\<lambda>(inner, j, pool).
           after (new_expr pool EXPR_NEGATE (\<lambda>nd. nd\<lparr>eleft := inner\<rparr>)) (\<lambda>(node, pool). got (node, j, pool))))"
      proof (rule returns_after [OF operand_parserD [OF inner _ _ p]])
        fix x assume "expr_result toks (i + 1) pool x"
        then show "returns (expr_result toks i pool) (case x of (inner, j, pool) \<Rightarrow>
           after (new_expr pool EXPR_NEGATE (\<lambda>nd. nd\<lparr>eleft := inner\<rparr>)) (\<lambda>(node, pool). got (node, j, pool)))"
          by (elim expr_resultE; clarsimp)
             (rule returns_after [OF new_expr_returns]; auto simp: node_ok_def blank_node_def expr_result_def intro: prefix_order.trans)
      qed (use i typeAt_is [OF minus] in auto)
      then show ?thesis using minus by simp
    next
      case paren
      have "returns (expr_result toks i pool)
        (after (expression_of (parseFactor k toks) toks (i + 1) pool) (\<lambda>(node, j, pool).
           need toks j TOKEN_RPAREN ERROR_SYNTAX_EXPECTED_PARENTHESES (got (node, j + 1, pool))))"
      proof (rule returns_after [OF operand_parserD [OF parens _ _ p]])
        fix x assume "expr_result toks (i + 1) pool x"
        then show "returns (expr_result toks i pool) (case x of (node, j, pool) \<Rightarrow>
           need toks j TOKEN_RPAREN ERROR_SYNTAX_EXPECTED_PARENTHESES (got (node, j + 1, pool)))"
          by (elim expr_resultE; clarsimp)
             (rule returns_need; auto simp: expr_result_def dest: typeAt_is)
      qed (use i typeAt_is [OF paren] in auto)
      then show ?thesis using paren by simp
    next
      case name
      have "returns (expr_result toks i pool)
        (after (new_expr pool EXPR_COLUMN (\<lambda>nd. nd\<lparr>ecolumn := name_of (textAt toks i)\<rparr>))
             (\<lambda>(node, pool). got (node, i + 1, pool)))"
        by (rule returns_after [OF new_expr_returns [OF p]])
           (use typeAt_is [OF name] in \<open>auto simp: node_ok_def blank_node_def expr_result_def\<close>)
      then show ?thesis using name by simp
    next
      case other
      have lit: "returns (expr_result toks i pool) (after (parseValue toks i) (\<lambda>(v, j).
          got (int (length pool), j, pool @ [(blank_node EXPR_LITERAL)\<lparr>eliteral := v\<rparr>])))"
        if "length pool \<noteq> MAX_EXPR_NODES"
        by (rule returns_after [OF parseValue_returns])
           (use p that in \<open>auto simp: expr_result_def in_pool_def pool_ok_def node_ok_def blank_node_def intro!: edges_down_snoc\<close>)
      then show ?thesis
        using other by (auto simp: literal_node node_at_def set_node_def)
    qed
  qed
qed

lemma parseExpression_reads: "operand_parser toks 0 (parseExpression toks)"
  unfolding parseExpression_def by (rule expression_of_reads, rule parseFactor_reads) (simp add: fuel_def)

lemma parseExpression_returns:
  "i \<le> length toks \<Longrightarrow> pool_ok pool \<Longrightarrow> returns (expr_result toks i pool) (parseExpression toks i pool)"
  by (rule operand_parserD [OF parseExpression_reads]) simp_all

end
