(* ===== verification/Parsing.thy ===== *)
theory Parsing
  imports Statements Grammar
begin

text \<open>
  The parser is total and what it hands on is well formed: every statement, on every token list,
  is parsed or refused, and a parsed one has conditions and expressions whose edges lead to earlier
  nodes of their pools, predicates with the operands their operator needs, subqueries that exist,
  and lists within their bounds. This is what makes the later stages' walks end.
\<close>

subsection \<open>Labels\<close>

lemma exprLabel_tree: "is_tree pool n t \<Longrightarrow> \<exists>s. exprLabel pool n room = Some s"
proof (induction t arbitrary: n room)
  case (Leaf nd)
  then show ?case by (auto simp: exprLabel.simps [of pool n room])
next
  case (Neg t)
  then obtain s where "exprLabel pool (eleft (node_at pool n)) NAME_LEN = Some s" by fastforce
  then show ?case using Neg.prems by (simp add: exprLabel.simps [of pool n room])
next
  case (Bin op a b)
  then obtain s where "exprLabel pool (eleft (node_at pool n)) NAME_LEN = Some s" by fastforce
  moreover obtain u where "exprLabel pool (eright (node_at pool n)) NAME_LEN = Some u" using Bin by fastforce
  ultimately show ?case using Bin.prems by (simp add: exprLabel.simps [of pool n room] Let_def)
qed

lemma label_text_returns: "pool_ok pool \<Longrightarrow> in_pool pool n \<Longrightarrow> returns (\<lambda>_. True) (label_text pool n)"
proof -
  assume "pool_ok pool" "in_pool pool n"
  then obtain t where "is_tree pool n t" using edges_down_tree by (auto simp: pool_ok_def)
  then obtain s where "exprLabel pool n NAME_LEN = Some s" using exprLabel_tree by blast
  then show "returns (\<lambda>_. True) (label_text pool n)" by (simp add: label_text_def)
qed

definition item_ok :: "exprpool \<Rightarrow> selectitem \<Rightarrow> bool" where
  "item_ok pool it \<longleftrightarrow> (istar it \<and> aggregate it = AGG_COUNT) \<or> in_pool pool (iexpr it)"

lemma item_ok_prefix: "item_ok pool it \<Longrightarrow> prefix pool pool' \<Longrightarrow> item_ok pool' it"
  by (auto simp: item_ok_def in_pool_prefix)

definition item_result :: "token list \<Rightarrow> nat \<Rightarrow> exprpool \<Rightarrow> selectitem \<times> nat \<times> exprpool \<Rightarrow> bool" where
  "item_result toks i pool = (\<lambda>(it, j, pool'). i < j \<and> j \<le> length toks \<and> pool_ok pool' \<and> prefix pool pool' \<and> item_ok pool' it)"

text \<open>Rules for the shapes a parser is made of, and for its parts under a continuation.\<close>

lemma returns_if [ret]: "(c \<Longrightarrow> returns P a) \<Longrightarrow> (\<not> c \<Longrightarrow> returns P b) \<Longrightarrow> returns P (if c then a else b)"
  by simp

lemma returns_option [ret]:
  "(m = None \<Longrightarrow> returns P a) \<Longrightarrow> (\<And>x. m = Some x \<Longrightarrow> returns P (f x)) \<Longrightarrow> returns P (case m of None \<Rightarrow> a | Some x \<Rightarrow> f x)"
  by (cases m) simp_all

lemma returns_sum [ret]:
  "(\<And>e. m = Inl e \<Longrightarrow> returns P (f e)) \<Longrightarrow> (\<And>x. m = Inr x \<Longrightarrow> returns P (g x)) \<Longrightarrow> returns P (case m of Inl e \<Rightarrow> f e | Inr x \<Rightarrow> g x)"
  by (cases m) simp_all

lemma returns_pair [ret]: "(\<And>x y. p = (x, y) \<Longrightarrow> returns P (f x y)) \<Longrightarrow> returns P (case p of (x, y) \<Rightarrow> f x y)"
  by (cases p) simp

declare returns_need [ret]

lemma returns_refuse [ret]: "returns P (refuse e)" by simp

lemma need_inside: "type \<noteq> TOKEN_UNKNOWN \<Longrightarrow> (i < length toks \<Longrightarrow> typeAt toks i = type \<Longrightarrow> returns P m) \<Longrightarrow> returns P (need toks i type e m)"
  using typeAt_is by (auto intro!: returns_need)

lemma after_pair:
  assumes "returns Q m" "\<And>a b. Q (a, b) \<Longrightarrow> returns P (k a b)"
  shows "returns P (after m (\<lambda>(a, b). k a b))"
  using assms(1) by (rule returns_after) (use assms(2) in auto)

lemma after_triple:
  assumes "returns Q m" "\<And>a b c. Q (a, b, c) \<Longrightarrow> returns P (k a b c)"
  shows "returns P (after m (\<lambda>(a, b, c). k a b c))"
  using assms(1) by (rule returns_after) (use assms(2) in auto)

lemma after_quad:
  assumes "returns Q m" "\<And>a b c d. Q (a, b, c, d) \<Longrightarrow> returns P (k a b c d)"
  shows "returns P (after m (\<lambda>(a, b, c, d). k a b c d))"
  using assms(1) by (rule returns_after) (use assms(2) in auto)

lemma after_quint:
  assumes "returns Q m" "\<And>a b c d e. Q (a, b, c, d, e) \<Longrightarrow> returns P (k a b c d e)"
  shows "returns P (after m (\<lambda>(a, b, c, d, e). k a b c d e))"
  using assms(1) by (rule returns_after) (use assms(2) in auto)

lemma after_expression [ret]:
  assumes "i \<le> length toks" "pool_ok pool"
    and "\<And>n j pool'. \<lbrakk>i < j; j \<le> length toks; pool_ok pool'; prefix pool pool'; in_pool pool' n\<rbrakk> \<Longrightarrow> returns P (k n j pool')"
  shows "returns P (after (parseExpression toks i pool) (\<lambda>(n, j, pool). k n j pool))"
  using parseExpression_returns [OF assms(1,2)] by (rule after_triple) (use assms(3) in \<open>auto simp: expr_result_def\<close>)

lemma after_label [ret]:
  assumes "pool_ok pool" "in_pool pool n" "\<And>s. returns P (k s)"
  shows "returns P (after (label_text pool n) k)"
  using label_text_returns [OF assms(1,2)] by (rule returns_after) (rule assms(3))

lemma after_value [ret]:
  assumes "\<And>v j. \<lbrakk>i < j; j \<le> length toks\<rbrakk> \<Longrightarrow> returns P (k v j)"
  shows "returns P (after (parseValue toks i) (\<lambda>(v, j). k v j))"
  using parseValue_returns by (rule after_pair) (use assms in auto)

lemma parseSelectItem_returns:
  assumes "i \<le> length toks" "pool_ok pool"
  shows "returns (item_result toks i pool) (parseSelectItem toks i pool)"
  unfolding parseSelectItem_def Let_def
  by (intro ret assms) (use assms typeAt_is in \<open>fastforce simp: item_result_def item_ok_def\<close>)+


lemma after_item [ret]:
  assumes "i \<le> length toks" "pool_ok pool"
    and "\<And>it j pool'. \<lbrakk>i < j; j \<le> length toks; pool_ok pool'; prefix pool pool'; item_ok pool' it\<rbrakk> \<Longrightarrow> returns P (k it j pool')"
  shows "returns P (after (parseSelectItem toks i pool) (\<lambda>(it, j, pool). k it j pool))"
  using parseSelectItem_returns [OF assms(1,2)] by (rule after_triple) (use assms(3) in \<open>auto simp: item_result_def\<close>)

lemma after_new_leaf:
  assumes "pool_ok pool" "kind \<in> {EXPR_COLUMN, EXPR_LITERAL}" "ekind (fill (blank_node kind)) = kind"
    and "\<And>n pool'. \<lbrakk>pool_ok pool'; prefix pool pool'; in_pool pool' n; node_at pool' n = fill (blank_node kind)\<rbrakk> \<Longrightarrow> returns P (k n pool')"
  shows "returns P (after (new_expr pool kind fill) (\<lambda>(n, pool). k n pool))"
proof -
  have "returns P (k (int (length pool)) (pool @ [fill (blank_node kind)]))" if "length pool \<noteq> MAX_EXPR_NODES"
    by (rule assms(4))
       (use that assms(1-3) in \<open>auto simp: pool_ok_def node_ok_def in_pool_def node_at_def intro!: edges_down_snoc\<close>)
  then show ?thesis by (simp add: new_expr_eq)
qed

lemma after_columnExpr [ret]:
  assumes "pool_ok pool"
    and "\<And>n pool'. \<lbrakk>pool_ok pool'; prefix pool pool'; in_pool pool' n\<rbrakk> \<Longrightarrow> returns P (k n pool')"
  shows "returns P (after (columnExpr pool name) (\<lambda>(n, pool). k n pool))"
  unfolding columnExpr_def by (rule after_new_leaf) (use assms in \<open>auto simp: blank_node_def\<close>)

lemma after_literalExpr [ret]:
  assumes "pool_ok pool"
    and "\<And>n pool'. \<lbrakk>pool_ok pool'; prefix pool pool'; in_pool pool' n; exprLiteral pool' n = Some v\<rbrakk> \<Longrightarrow> returns P (k n pool')"
  shows "returns P (after (literalExpr pool v) (\<lambda>(n, pool). k n pool))"
  unfolding literalExpr_def by (rule after_new_leaf) (use assms in \<open>auto simp: blank_node_def exprLiteral_def exprIsLiteral_def\<close>)

subsection \<open>Well-formed conditions\<close>

text \<open>What an operator needs: \<open>m\<close> subqueries exist.\<close>

definition subquery_in :: "nat \<Rightarrow> int \<Rightarrow> bool" where "subquery_in m n \<longleftrightarrow> 0 \<le> n \<and> n < int m"

definition pred_ok :: "exprpool \<Rightarrow> nat \<Rightarrow> predicate \<Rightarrow> bool" where
  "pred_ok pool m p \<longleftrightarrow>
     (case pop p of
        OP_EXISTS \<Rightarrow> subquery_in m (psubquery p)
      | OP_IN \<Rightarrow> in_pool pool (pleft p) \<and> subquery_in m (psubquery p)
      | OP_IS_NULL \<Rightarrow> in_pool pool (pleft p)
      | OP_IS_NOT_NULL \<Rightarrow> in_pool pool (pleft p)
      | OP_LIKE \<Rightarrow> in_pool pool (pleft p) \<and> (\<exists>v. exprLiteral pool (pright p) = Some v \<and> \<not> isNull v \<and> vtype v = TYPE_TEXT)
      | OP_NOT_LIKE \<Rightarrow> in_pool pool (pleft p) \<and> (\<exists>v. exprLiteral pool (pright p) = Some v \<and> \<not> isNull v \<and> vtype v = TYPE_TEXT)
      | _ \<Rightarrow> in_pool pool (pleft p) \<and> (if psubquery p = -1 then in_pool pool (pright p) else subquery_in m (psubquery p)))"

text \<open>Node \<open>n\<close> of a condition; a comparison in \<open>H\<close> is still being filled in.\<close>

definition cnode_ok :: "int set \<Rightarrow> nat \<Rightarrow> exprpool \<Rightarrow> nat \<Rightarrow> conditionnode \<Rightarrow> bool" where
  "cnode_ok H m pool n nd \<longleftrightarrow>
     (case ckind nd of
        COND_COMPARE \<Rightarrow> int n \<in> H \<or> pred_ok pool m (ccompare nd)
      | COND_NOT \<Rightarrow> 0 \<le> cleft nd \<and> cleft nd < int n
      | _ \<Rightarrow> 0 \<le> cleft nd \<and> cleft nd < int n \<and> 0 \<le> cright nd \<and> cright nd < int n)"

definition cond_ok :: "int set \<Rightarrow> nat \<Rightarrow> condition \<Rightarrow> bool" where
  "cond_ok H m c \<longleftrightarrow> pool_ok (cexprs c) \<and> length (cnodes c) \<le> MAX_CONDITION_NODES \<and>
     (\<forall>n < length (cnodes c). cnode_ok H m (cexprs c) n (cnodes c ! n))"

definition cnode_in :: "condition \<Rightarrow> int \<Rightarrow> bool" where "cnode_in c n \<longleftrightarrow> 0 \<le> n \<and> n < int (length (cnodes c))"

lemma subquery_in_mono: "subquery_in m n \<Longrightarrow> m \<le> m' \<Longrightarrow> subquery_in m' n" by (simp add: subquery_in_def)

lemma exprLiteral_prefix: "exprLiteral pool n = Some v \<Longrightarrow> prefix pool pool' \<Longrightarrow> exprLiteral pool' n = Some v"
  by (auto simp: exprLiteral_def exprIsLiteral_def in_pool_prefix node_at_prefix split: if_splits)

lemma pred_ok_mono:
  assumes "pred_ok pool m p" "prefix pool pool'" "m \<le> m'"
  shows "pred_ok pool' m' p"
proof (cases "pop p")
qed (use assms in \<open>auto simp: pred_ok_def in_pool_prefix subquery_in_mono intro: exprLiteral_prefix split: if_splits\<close>)

lemma cnode_ok_mono:
  "\<lbrakk>cnode_ok H m pool n nd; H \<subseteq> H'; prefix pool pool'; m \<le> m'\<rbrakk> \<Longrightarrow> cnode_ok H' m' pool' n nd"
  by (auto simp: cnode_ok_def intro: pred_ok_mono split: conditionkind.splits)

lemma cond_ok_mono: "\<lbrakk>cond_ok H m c; H \<subseteq> H'; m \<le> m'\<rbrakk> \<Longrightarrow> cond_ok H' m' c"
  unfolding cond_ok_def using cnode_ok_mono by blast

lemma cond_ok_pool: "\<lbrakk>cond_ok H m c; prefix (cexprs c) pool; pool_ok pool\<rbrakk> \<Longrightarrow> cond_ok H m (c\<lparr>cexprs := pool\<rparr>)"
  unfolding cond_ok_def by (auto intro: cnode_ok_mono)

lemma cond_ok_blank [simp]: "cond_ok H m blank_condition"
  by (simp add: cond_ok_def blank_condition_def)

lemma cond_ok_exprs: "cond_ok H m c \<Longrightarrow> pool_ok (cexprs c)" by (simp add: cond_ok_def)

lemma cond_ok_root [simp]: "cond_ok H m (c\<lparr>croot := r, present := b\<rparr>) = cond_ok H m c" by (simp add: cond_ok_def)
lemma cnode_in_root [simp]: "cnode_in (c\<lparr>croot := r, present := b\<rparr>) n = cnode_in c n" by (simp add: cnode_in_def)

lemma cnode_in_pool [simp]: "cnode_in (c\<lparr>cexprs := pool\<rparr>) n = cnode_in c n" by (simp add: cnode_in_def)

definition grows :: "condition \<Rightarrow> condition \<Rightarrow> bool" where
  "grows c c' \<longleftrightarrow> length (cnodes c) \<le> length (cnodes c') \<and> prefix (cexprs c) (cexprs c') \<and>
     present c' = present c \<and> croot c' = croot c"

lemma cond_grows_refl [simp]: "grows c c" by (simp add: grows_def)
lemma cond_grows_trans: "grows a b \<Longrightarrow> grows b c \<Longrightarrow> grows a c" unfolding grows_def by (auto intro: prefix_order.trans)
lemma grows_in: "grows c c' \<Longrightarrow> cnode_in c n \<Longrightarrow> cnode_in c' n" by (simp add: grows_def cnode_in_def)

lemma grows_pool: "prefix (cexprs c) pool \<Longrightarrow> grows c (c\<lparr>cexprs := pool\<rparr>)" by (simp add: grows_def)

lemma after_compare [ret]:
  assumes "cond_ok H m c"
    and "\<And>n c'. \<lbrakk>cond_ok (insert n H) m c'; cnode_in c' n; \<not> cnode_in c n; grows c c'; cexprs c' = cexprs c; ckind (cnodes c' ! nat n) = COND_COMPARE;
          ccompare (cnodes c' ! nat n) = blank_predicate\<rbrakk> \<Longrightarrow> returns P (k n c')"
  shows "returns P (after (newCondition c COND_COMPARE) (\<lambda>(n, c). k n c))"
proof (cases "length (cnodes c) = MAX_CONDITION_NODES")
  case False
  let ?c = "c\<lparr>cnodes := cnodes c @ [\<lparr>ckind = COND_COMPARE, ccompare = blank_predicate, cleft = -1, cright = -1\<rparr>]\<rparr>"
  have "cnode_ok (insert (int (length (cnodes c))) H) m (cexprs ?c) i (cnodes ?c ! i)" if "i < length (cnodes ?c)" for i
  proof (cases "i = length (cnodes c)")
    case True
    then show ?thesis by (simp add: cnode_ok_def)
  next
    case False
    then have "i < length (cnodes c)" using that by simp
    then have "cnode_ok H m (cexprs c) i (cnodes c ! i)" using assms(1) by (simp add: cond_ok_def)
    then show ?thesis using False that by (simp add: nth_append) (rule cnode_ok_mono, auto)
  qed
  then have "cond_ok (insert (int (length (cnodes c))) H) m ?c"
    using assms(1) False by (auto simp: cond_ok_def)
  then have "returns P (k (int (length (cnodes c))) ?c)"
    by (rule assms(2)) (auto simp: cnode_in_def grows_def)
  then show ?thesis using False by (simp add: newCondition_def)
qed (simp add: newCondition_def)

lemma after_above [ret]:
  assumes "cond_ok H m c" "kind \<noteq> COND_COMPARE" "cnode_in c l" "kind = COND_NOT \<or> cnode_in c r"
    and "\<And>n c'. \<lbrakk>cond_ok H m c'; cnode_in c' n; grows c c'; \<not> cnode_in c n; cexprs c' = cexprs c;
          \<And>i. cnode_in c i \<Longrightarrow> cnodes c' ! nat i = cnodes c ! nat i\<rbrakk> \<Longrightarrow> returns P (k n c')"
  shows "returns P (after (above c kind l r) (\<lambda>(n, c). k n c))"
proof (cases "length (cnodes c) = MAX_CONDITION_NODES")
  case False
  let ?nd = "\<lparr>ckind = kind, ccompare = blank_predicate, cleft = l, cright = r\<rparr>"
  let ?c = "c\<lparr>cnodes := cnodes c @ [?nd]\<rparr>"
  have "cnode_ok H m (cexprs ?c) i (cnodes ?c ! i)" if "i < length (cnodes ?c)" for i
  proof (cases "i = length (cnodes c)")
    case True
    then show ?thesis using assms(2-4) by (cases kind) (auto simp: cnode_ok_def cnode_in_def)
  next
    case False
    then show ?thesis using that assms(1) by (simp add: cond_ok_def nth_append)
  qed
  then have "cond_ok H m ?c" using assms(1) False by (auto simp: cond_ok_def)
  then have "returns P (k (int (length (cnodes c))) ?c)"
    by (rule assms(5)) (auto simp: cnode_in_def grows_def nth_append)
  moreover have "above c kind l r = got (int (length (cnodes c)), ?c)"
    using False by (simp add: above_def newCondition_def set_cnode_def)
  ultimately show ?thesis by simp
qed (simp add: above_def newCondition_def)

lemma cond_ok_set_pred:
  assumes "cond_ok (insert n H) m c" "cnode_in c n" "pred_ok (cexprs c) m (f (ccompare (cnodes c ! nat n)))"
    "ckind (cnodes c ! nat n) = COND_COMPARE"
  shows "cond_ok H m (set_pred n f c)"
proof -
  have "cnode_ok H m (cexprs c) i (cnodes (set_pred n f c) ! i)" if i: "i < length (cnodes c)" for i
  proof (cases "i = nat n")
    case True
    then have "nat n < length (cnodes c)" using i by simp
    then show ?thesis using assms(3,4) unfolding True by (simp add: set_pred_def set_cnode_def cnode_ok_def)
  next
    case False
    have "cnode_ok (insert n H) m (cexprs c) i (cnodes c ! i)" using assms(1) i by (simp add: cond_ok_def)
    then have "cnode_ok H m (cexprs c) i (cnodes c ! i)" using False by (auto simp: cnode_ok_def split: conditionkind.splits)
    then show ?thesis using False by (simp add: set_pred_def set_cnode_def)
  qed
  then show ?thesis using assms(1) by (simp add: cond_ok_def set_pred_def set_cnode_def)
qed

text \<open>Filling in a part of a predicate that stays incomplete.\<close>

lemma cond_ok_part: "cond_ok H m c \<Longrightarrow> n \<in> H \<Longrightarrow> cnode_in c n \<Longrightarrow> ckind (cnodes c ! nat n) = COND_COMPARE \<Longrightarrow> cond_ok H m (set_pred n f c)"
proof -
  assume c: "cond_ok H m c" and n: "n \<in> H" "cnode_in c n" "ckind (cnodes c ! nat n) = COND_COMPARE"
  have "cnode_ok H m (cexprs c) i (cnodes (set_pred n f c) ! i)" if i: "i < length (cnodes c)" for i
  proof (cases "i = nat n")
    case True
    then show ?thesis using n i by (simp add: set_pred_def set_cnode_def cnode_ok_def cnode_in_def)
  next
    case False
    then show ?thesis using c i by (simp add: set_pred_def set_cnode_def cond_ok_def)
  qed
  then show ?thesis using c by (simp add: cond_ok_def set_pred_def set_cnode_def)
qed

lemma set_pred_simps [simp]:
  "present (set_pred n f c) = present c" "croot (set_pred n f c) = croot c"
  "cexprs (set_pred n f c) = cexprs c" "cnode_in (set_pred n f c) i = cnode_in c i" "length (cnodes (set_pred n f c)) = length (cnodes c)"
  by (simp_all add: set_pred_def set_cnode_def cnode_in_def)

lemma set_pred_at:
  "cnode_in c n \<Longrightarrow> ckind (cnodes (set_pred n f c) ! nat n) = ckind (cnodes c ! nat n)"
  "cnode_in c n \<Longrightarrow> ccompare (cnodes (set_pred n f c) ! nat n) = f (ccompare (cnodes c ! nat n))"
  by (simp_all add: set_pred_def set_cnode_def cnode_in_def nat_less_iff)

lemma grows_set_pred [simp]: "grows c (set_pred n f c') = grows c c'" "grows (set_pred n f c') c = grows c' c"
  by (simp_all add: grows_def)

subsection \<open>Well-formed statements\<close>

definition select_ok :: "nat \<Rightarrow> selectstatement \<Rightarrow> bool" where
  "select_ok m s \<longleftrightarrow> pool_ok (sexprs s) \<and> list_all (item_ok (sexprs s)) (sitems s) \<and> length (sitems s) \<le> MAX_COLS \<and>
     cond_ok {} m (swhere s) \<and> (present (swhere s) \<longrightarrow> cnode_in (swhere s) (croot (swhere s))) \<and>
     list_all (\<lambda>r. r = -1 \<or> cnode_in (swhere s) r) (onRoot s) \<and>
     cond_ok {} m (having s) \<and> (present (having s) \<longrightarrow> cnode_in (having s) (croot (having s))) \<and>
     length (stables s) \<le> MAX_JOIN_TABLES \<and> length (saliases s) = length (stables s) \<and>
     length (groupBy s) \<le> MAX_COLS \<and> length (sorder s) \<le> MAX_COLS"

definition subs_ok :: "subqueries \<Rightarrow> bool" where
  "subs_ok subs \<longleftrightarrow> length subs \<le> MAX_SUBQUERIES \<and> list_all (\<lambda>(s, _). select_ok (length subs) s) subs"

lemma select_ok_mono: "select_ok m s \<Longrightarrow> m \<le> m' \<Longrightarrow> select_ok m' s"
  unfolding select_ok_def by (meson cond_ok_mono subset_refl)

lemma select_ok_blank [simp]: "select_ok m blank_select"
  by (simp add: select_ok_def blank_select_def blank_condition_def cond_ok_def list_all_iff)

lemma subs_ok_nil [simp]: "subs_ok []" by (simp add: subs_ok_def)

lemma subs_ok_push: "subs_ok subs \<Longrightarrow> length subs \<noteq> MAX_SUBQUERIES \<Longrightarrow> subs_ok (subs @ [(blank_select, False)])"
  by (auto simp: subs_ok_def list_all_iff intro: select_ok_mono)

lemma subs_ok_update: "subs_ok subs \<Longrightarrow> select_ok (length subs) s \<Longrightarrow> subs_ok (subs[n := (s, b)])"
  by (auto simp: subs_ok_def list_all_iff dest!: set_update_subset_insert [THEN subsetD])

lemma subs_ok_at: "subs_ok subs \<Longrightarrow> n < length subs \<Longrightarrow> select_ok (length subs) (fst (subs ! n))"
  by (auto simp: subs_ok_def list_all_length case_prod_beta)

text \<open>The parser of inner statements, on lists shorter than \<open>b\<close>.\<close>

definition inner_parser :: "nat \<Rightarrow> select_parser \<Rightarrow> bool" where
  "inner_parser b sel \<longleftrightarrow> (\<forall>toks subs. length toks < b \<longrightarrow> subs_ok subs \<longrightarrow>
     returns (\<lambda>(s, subs'). select_ok (length subs') s \<and> subs_ok subs' \<and> length subs \<le> length subs') (sel toks subs))"

lemma inner_parserD:
  "\<lbrakk>inner_parser b sel; length toks < b; subs_ok subs\<rbrakk> \<Longrightarrow>
   returns (\<lambda>(s, subs'). select_ok (length subs') s \<and> subs_ok subs' \<and> length subs \<le> length subs') (sel toks subs)"
  by (simp add: inner_parser_def)

lemma lifted_length:
  "lifted ts d inner = Inr (d', inner') \<Longrightarrow> length inner \<le> length inner' \<and> length inner' \<le> length inner + length ts \<and>
     (d' = 0 \<longrightarrow> 0 < d \<longrightarrow> length inner' < length inner + length ts)"
proof (induction ts arbitrary: d inner)
  case (Cons t ts)
  let ?d = "if tokType t = TOKEN_LPAREN then d + 1 else if tokType t = TOKEN_RPAREN then d - 1 else d"
  show ?case
  proof (cases "tokType t = TOKEN_RPAREN \<and> ?d = 0")
    case True
    then have "d \<le> Suc 0" by (simp split: if_splits)
    then show ?thesis using True Cons.prems by (simp add: Let_def)
  next
    case False
    then have go: "lifted ts ?d (inner @ [t]) = Inr (d', inner')" using Cons.prems by (simp add: Let_def split: if_splits)
    have "0 < d \<Longrightarrow> 0 < ?d" using False by auto
    then show ?thesis using Cons.IH [OF go] by auto
  qed
qed simp

lemma after_subquery [ret]:
  assumes "inner_parser (length toks) sel" "subs_ok subs" "i \<le> length toks"
    and "\<And>slot j subs'. \<lbrakk>subquery_in (length subs') slot; i < j; j \<le> length toks; subs_ok subs'; length subs \<le> length subs'\<rbrakk> \<Longrightarrow>
          returns P (k slot j subs')"
  shows "returns P (after (parseSubquery sel toks i subs) (\<lambda>(slot, i, subs). k slot i subs))"
proof -
  have "returns (\<lambda>(slot, j, subs'). subquery_in (length subs') slot \<and> i < j \<and> j \<le> length toks \<and> subs_ok subs' \<and> length subs \<le> length subs')
     (parseSubquery sel toks i subs)" (is "returns ?Q _")
    unfolding parseSubquery_def
  proof (intro ret; (simp; fail)?)
    fix x depth inner
    assume paren: "\<not> (typeAt toks i \<noteq> TOKEN_LPAREN \<or> typeAt toks (i + 1) \<noteq> TOKEN_KEYWORD_SELECT)"
      and room: "length subs \<noteq> MAX_SUBQUERIES" and l: "lifted (drop (i + 1) toks) 1 [] = Inr x"
      and x: "x = (depth, inner)" and d: "\<not> depth \<noteq> 0"
    have i: "i < length toks" using paren typeAt_is [of toks i TOKEN_LPAREN] by simp
    have len: "i + 1 + length inner < length toks" using lifted_length [OF l [unfolded x]] d i by auto
    have push: "subs_ok (subs @ [(blank_select, False)])" by (rule subs_ok_push [OF assms(2) room])
    have sel: "returns (\<lambda>(s, subs'). select_ok (length subs') s \<and> subs_ok subs' \<and> length (subs @ [(blank_select, False)]) \<le> length subs')
        (sel inner (subs @ [(blank_select, False)]))"
      by (rule inner_parserD [OF assms(1) _ push]) (use len in simp)
    show "returns ?Q (after (sel inner (subs @ [(blank_select, False)]))
       (\<lambda>(s, subs'). got (int (length subs), i + 1 + length inner + 1, subs'[length subs := (s, False)])))"
      using sel by (rule after_pair) (use len in \<open>auto simp: subquery_in_def intro: subs_ok_update\<close>)
  qed
  then show ?thesis by (rule after_triple) (use assms(4) in auto)
qed

subsection \<open>Every condition parse returns\<close>

definition cond_result :: "token list \<Rightarrow> nat \<Rightarrow> condition \<Rightarrow> subqueries \<Rightarrow> int \<times> nat \<times> condition \<times> subqueries \<Rightarrow> bool" where
  "cond_result toks i c subs = (\<lambda>(n, j, c', subs'). i < j \<and> j \<le> length toks \<and> cond_ok {} (length subs') c' \<and> cnode_in c' n \<and>
     grows c c' \<and> subs_ok subs' \<and> length subs \<le> length subs')"

lemma after_left_side [ret]:
  assumes "i \<le> length toks" "pool_ok pool"
    and "\<And>n j pool'. \<lbrakk>i < j; j \<le> length toks; pool_ok pool'; prefix pool pool'; in_pool pool' n\<rbrakk> \<Longrightarrow> returns P (k n j pool')"
  shows "returns P (after (left_side toks allow i pool) (\<lambda>(n, j, pool). k n j pool))"
proof -
  have "returns (expr_result toks i pool) (left_side toks allow i pool)"
    unfolding left_side_def
    by (intro ret assms(1,2) parseExpression_returns) (auto simp: expr_result_def assms)
  then show ?thesis by (rule after_triple) (use assms(3) in \<open>auto simp: expr_result_def\<close>)
qed

text \<open>The list of IN: \<open>spine\<close> is the only comparison not filled in.\<close>

definition list_result :: "token list \<Rightarrow> nat \<Rightarrow> nat \<Rightarrow> condition \<Rightarrow> int \<times> nat \<times> condition \<Rightarrow> bool" where
  "list_result toks i m c = (\<lambda>(n, j, c'). i < j \<and> j \<le> length toks \<and> cond_ok {} m c' \<and> cnode_in c' n \<and> grows c c')"

lemma in_list_returns:
  "\<lbrakk>i \<le> length toks; length toks - i < k; cond_ok {spine} m c; cnode_in c spine; cnode_in c node; in_pool (cexprs c) left;
    ckind (cnodes c ! nat spine) = COND_COMPARE;
    spine = node \<Longrightarrow> pleft (ccompare (cnodes c ! nat spine)) = left \<and> psubquery (ccompare (cnodes c ! nat spine)) = -1\<rbrakk>
   \<Longrightarrow> returns (list_result toks i m c) (in_list k toks left node spine i c)"
proof (induction k arbitrary: node spine i c)
  case (Suc k)
  show ?case
    unfolding in_list.simps Let_def
  proof (rule after_expression)
    fix right j pool
    assume j: "i < j" "j \<le> length toks" and p: "pool_ok pool" "prefix (cexprs c) pool" "in_pool pool right"
    let ?f = "\<lambda>p. (if spine \<noteq> node then p\<lparr>pleft := left, psubquery := -1\<rparr> else p)\<lparr>pop := OP_EQ, pright := right\<rparr>"
    let ?c = "set_pred spine ?f (c\<lparr>cexprs := pool\<rparr>)"
    have left: "in_pool pool left" by (rule in_pool_prefix [OF p(2) Suc.prems(6)])
    have ok: "cond_ok {} m ?c"
      by (rule cond_ok_set_pred [OF cond_ok_pool [OF Suc.prems(3) p(2,1)]])
         (use Suc.prems left p(3) in \<open>auto simp: pred_ok_def\<close>)
    have g: "grows c ?c" using grows_pool [OF p(2)] by simp
    show "returns (list_result toks i m c)
      (if typeAt toks j \<noteq> TOKEN_COMMA then got (node, j, ?c)
       else after (newCondition ?c COND_COMPARE) (\<lambda>(next_term, c).
            after (above c COND_OR node next_term) (\<lambda>(either, c). in_list k toks left either next_term (j + 1) c)))"
    proof (intro returns_if)
      show "returns (list_result toks i m c) (got (node, j, ?c))"
        using j ok g grows_in [OF g Suc.prems(5)] by (simp add: list_result_def)
    next
      assume comma: "\<not> typeAt toks j \<noteq> TOKEN_COMMA"
      then have jl: "j < length toks" using typeAt_is [of toks j TOKEN_COMMA] by simp
      show "returns (list_result toks i m c)
        (after (newCondition ?c COND_COMPARE) (\<lambda>(next_term, c).
            after (above c COND_OR node next_term) (\<lambda>(either, c). in_list k toks left either next_term (j + 1) c)))"
      proof (rule after_compare [OF ok], rule after_above, assumption)
        fix nxt c1 n c2
        assume one: "cond_ok {nxt} m c1" "cnode_in c1 nxt" "grows ?c c1" "cexprs c1 = cexprs ?c" "ckind (cnodes c1 ! nat nxt) = COND_COMPARE"
        assume two: "cond_ok {nxt} m c2" "cnode_in c2 n" "grows c1 c2" "\<not> cnode_in c1 n" "cexprs c2 = cexprs c1"
          "\<And>i. cnode_in c1 i \<Longrightarrow> cnodes c2 ! nat i = cnodes c1 ! nat i"
        have "returns (list_result toks (j + 1) m c2) (in_list k toks left n nxt (j + 1) c2)"
          by (rule Suc.IH)
             (use jl j Suc.prems(2) one two left grows_in [OF two(3) one(2)] in auto)
        moreover have "grows c c2" using g one(3) two(3) cond_grows_trans by blast
        ultimately show "returns (list_result toks i m c) (in_list k toks left n nxt (j + 1) c2)"
          using j by (auto simp: list_result_def intro: cond_grows_trans elim!: returns_weaken)
      next
        fix nxt c1
        assume one: "grows ?c c1" "cnode_in c1 nxt"
        show "cnode_in c1 node" using grows_in [OF one(1)] Suc.prems(5) by simp
        show "COND_OR = COND_NOT \<or> cnode_in c1 nxt" using one(2) by simp
      qed simp
    qed
  qed (use Suc.prems cond_ok_exprs in auto)
qed simp

text \<open>A comparison whose left side is read and whose node is new.\<close>

definition started :: "nat \<Rightarrow> int \<Rightarrow> int \<Rightarrow> condition \<Rightarrow> bool" where
  "started m left node c \<longleftrightarrow> cond_ok {node} m c \<and> cnode_in c node \<and> in_pool (cexprs c) left \<and>
     ckind (cnodes c ! nat node) = COND_COMPARE \<and>
     ccompare (cnodes c ! nat node) = blank_predicate\<lparr>pleft := left\<rparr>"

lemma started_set:
  assumes "started m left node c" "prefix (cexprs c) pool" "pool_ok pool" "m \<le> m'"
    and "pred_ok pool m' (f (blank_predicate\<lparr>pleft := left\<rparr>))"
  shows "cond_ok {} m' (set_pred node f (c\<lparr>cexprs := pool\<rparr>))" "cnode_in (set_pred node f (c\<lparr>cexprs := pool\<rparr>)) node"
    "grows c (set_pred node f (c\<lparr>cexprs := pool\<rparr>))"
proof -
  have "cond_ok {node} m' (c\<lparr>cexprs := pool\<rparr>)"
    by (rule cond_ok_mono [OF cond_ok_pool]) (use assms in \<open>auto simp: started_def\<close>)
  then show "cond_ok {} m' (set_pred node f (c\<lparr>cexprs := pool\<rparr>))"
    by (rule cond_ok_set_pred) (use assms in \<open>auto simp: started_def\<close>)
qed (use assms in \<open>auto simp: started_def intro: grows_pool\<close>)

lemma started_keep: "started m left node c \<Longrightarrow> prefix (cexprs c) (cexprs c) \<and> pool_ok (cexprs c)"
  by (simp add: started_def cond_ok_def)

text \<open>The interface to the parser of inner statements; \<open>parseSelect\<close> provides it.\<close>

locale subquery_parser =
  fixes toks :: "token list" and sel :: select_parser
  assumes inner: "inner_parser (length toks) sel"
begin

lemma is_clause_returns:
  assumes "started (length subs) left node c" "i \<le> length toks" "subs_ok subs"
  shows "returns (cond_result toks i c subs) (is_clause toks node i c subs)"
  unfolding is_clause_def Let_def
  by (rule need_inside)
     (use assms started_set [OF assms(1), of "cexprs c" "length subs"] started_keep [OF assms(1)] in
       \<open>auto simp: cond_result_def pred_ok_def started_def\<close>)

lemma like_clause_returns:
  assumes "started (length subs) left node c" "i \<le> length toks" "subs_ok subs"
  shows "returns (cond_result toks i c subs) (like_clause toks node i c subs)"
  unfolding like_clause_def Let_def
proof (intro ret)
  show "pool_ok (cexprs c)" using started_keep [OF assms(1)] by simp
next
  fix pattern j right pool
  assume j: "(if typeAt toks i = TOKEN_KEYWORD_NOT then i + 2 else i + 1) < j" "j \<le> length toks"
    and v: "\<not> (isNull pattern \<or> vtype pattern \<noteq> TYPE_TEXT)"
    and p: "pool_ok pool" "prefix (cexprs c) pool" "in_pool pool right" "exprLiteral pool right = Some pattern"
  let ?f = "\<lambda>p. p\<lparr>pop := if typeAt toks i = TOKEN_KEYWORD_NOT then OP_NOT_LIKE else OP_LIKE, pright := right\<rparr>"
  have "in_pool pool left" using assms(1) in_pool_prefix [OF p(2)] by (simp add: started_def)
  then have "pred_ok pool (length subs) (?f (blank_predicate\<lparr>pleft := left\<rparr>))"
    using p(4) v by (auto simp: pred_ok_def)
  note s = started_set [where f = ?f, OF assms(1) p(2,1) le_refl this]
  show "returns (cond_result toks i c subs) (got (node, j, set_pred node ?f (c\<lparr>cexprs := pool\<rparr>), subs))"
    using s j assms(3) by (auto simp: cond_result_def split: if_splits)
qed

lemma operator_clause_returns:
  assumes "started (length subs) left node c" "i \<le> length toks" "subs_ok subs"
  shows "returns (cond_result toks i c subs) (operator_clause sel toks node i c subs)"
  unfolding operator_clause_def
proof (intro returns_option returns_if returns_simps(2))
  fix op assume op: "comparison_op (typeAt toks i) = Some op"
  then have "typeAt toks i \<noteq> TOKEN_UNKNOWN" by (auto simp: comparison_op_def)
  then have i: "i < length toks" by (rule typeAt_inside)
  have plain: "op \<in> {OP_EQ, OP_NE, OP_LT, OP_LTE, OP_GT, OP_GTE}" using op by (auto simp: comparison_op_def split: if_splits)
  show "returns (cond_result toks i c subs)
     (after (parseSubquery sel toks (i + 1) subs) (\<lambda>(slot, i, subs).
        got (node, i, set_pred node (\<lambda>p. p\<lparr>pop := op, psubquery := slot\<rparr>) c, subs[nat slot := (fst (subs ! nat slot), True)])))"
  proof (rule after_subquery [OF inner assms(3)])
    fix slot j subs'
    assume q: "subquery_in (length subs') slot" "i + 1 < j" "j \<le> length toks" "subs_ok subs'" "length subs \<le> length subs'"
    have "pred_ok (cexprs c) (length subs') (blank_predicate\<lparr>pleft := left, pop := op, psubquery := slot\<rparr>)"
      using assms(1) plain q(1) by (auto simp: pred_ok_def started_def subquery_in_def)
    then have s: "cond_ok {} (length subs') (set_pred node (\<lambda>p. p\<lparr>pop := op, psubquery := slot\<rparr>) c)"
      "cnode_in (set_pred node (\<lambda>p. p\<lparr>pop := op, psubquery := slot\<rparr>) c) node"
      using started_set [OF assms(1), of "cexprs c" "length subs'" "\<lambda>p. p\<lparr>pop := op, psubquery := slot\<rparr>"]
        started_keep [OF assms(1)] q(5) by simp_all
    have "subs_ok (subs'[nat slot := (fst (subs' ! nat slot), True)])"
      by (rule subs_ok_update [OF q(4) subs_ok_at [OF q(4)]]) (use q(1) in \<open>auto simp: subquery_in_def\<close>)
    then show "returns (cond_result toks i c subs)
      (got (node, j, set_pred node (\<lambda>p. p\<lparr>pop := op, psubquery := slot\<rparr>) c, subs'[nat slot := (fst (subs' ! nat slot), True)]))"
      using s q by (simp add: cond_result_def)
  qed (use i in simp)
  show "returns (cond_result toks i c subs)
     (after (parseExpression toks (i + 1) (cexprs c)) (\<lambda>(right, i, pool).
        if (case exprLiteral pool right of Some v \<Rightarrow> isNull v | None \<Rightarrow> False) then refuse ERROR_SYNTAX_EXPECTED_NULL
        else got (node, i, set_pred node (\<lambda>p. p\<lparr>pop := op, pright := right\<rparr>) (c\<lparr>cexprs := pool\<rparr>), subs)))"
  proof (intro after_expression returns_if returns_simps(2))
    fix right j pool
    assume p: "i + 1 < j" "j \<le> length toks" "pool_ok pool" "prefix (cexprs c) pool" "in_pool pool right"
    have "in_pool pool left" using assms(1) in_pool_prefix [OF p(4)] by (simp add: started_def)
    then have "pred_ok pool (length subs) (blank_predicate\<lparr>pleft := left, pop := op, pright := right\<rparr>)"
      using plain p(5) by (auto simp: pred_ok_def blank_predicate_def)
    then show "returns (cond_result toks i c subs)
      (got (node, j, set_pred node (\<lambda>p. p\<lparr>pop := op, pright := right\<rparr>) (c\<lparr>cexprs := pool\<rparr>), subs))"
      using started_set [OF assms(1) p(4,3) le_refl, of "\<lambda>p. p\<lparr>pop := op, pright := right\<rparr>"] p assms(3)
      by (simp add: cond_result_def)
  qed (use i started_keep [OF assms(1)] in auto)
qed

lemma in_clause_returns:
  assumes "started (length subs) left node c" "i < length toks" "subs_ok subs"
    and "typeAt toks i = TOKEN_KEYWORD_NOT \<Longrightarrow> i + 1 < length toks"
  shows "returns (cond_result toks i c subs) (in_clause sel toks left node i c subs)"
proof -
  let ?i = "if typeAt toks i = TOKEN_KEYWORD_NOT then i + 2 else i + 1"
  have i: "?i \<le> length toks" "i < ?i" using assms(2,4) by auto
  have body: "returns (cond_result toks i c subs)
      (if typeAt toks (?i + 1) = TOKEN_KEYWORD_SELECT
       then after (parseSubquery sel toks ?i subs) (\<lambda>(slot, i, subs).
            got (node, i, set_pred node (\<lambda>p. p\<lparr>pop := OP_IN, psubquery := slot\<rparr>) c, subs))
       else need toks ?i TOKEN_LPAREN ERROR_SYNTAX_EXPECTED_PARENTHESES
              (after (in_list (fuel toks) toks left node node (?i + 1) c) (\<lambda>(node, i, c).
               need toks i TOKEN_RPAREN ERROR_SYNTAX_EXPECTED_PARENTHESES (got (node, i + 1, c, subs)))))"
  proof (intro returns_if need_inside after_subquery [OF inner assms(3) i(1)])
    fix slot j subs'
    assume q: "subquery_in (length subs') slot" "?i < j" "j \<le> length toks" "subs_ok subs'" "length subs \<le> length subs'"
    have "pred_ok (cexprs c) (length subs') (blank_predicate\<lparr>pleft := left, pop := OP_IN, psubquery := slot\<rparr>)"
      using assms(1) q(1) by (auto simp: pred_ok_def started_def)
    then show "returns (cond_result toks i c subs)
      (got (node, j, set_pred node (\<lambda>p. p\<lparr>pop := OP_IN, psubquery := slot\<rparr>) c, subs'))"
      using started_set [OF assms(1), of "cexprs c" "length subs'" "\<lambda>p. p\<lparr>pop := OP_IN, psubquery := slot\<rparr>"]
        started_keep [OF assms(1)] q i(2) by (simp add: cond_result_def)
  next
    assume l: "?i < length toks"
    have "returns (list_result toks (?i + 1) (length subs) c) (in_list (fuel toks) toks left node node (?i + 1) c)"
      by (rule in_list_returns) (use assms(1) l in \<open>auto simp: started_def fuel_def blank_predicate_def\<close>)
    then show "returns (cond_result toks i c subs)
      (after (in_list (fuel toks) toks left node node (?i + 1) c) (\<lambda>(node, i, c).
         need toks i TOKEN_RPAREN ERROR_SYNTAX_EXPECTED_PARENTHESES (got (node, i + 1, c, subs))))"
      by (rule after_triple) (rule need_inside, use i(2) assms(3) in \<open>auto simp: list_result_def cond_result_def\<close>)
  qed simp_all
  show ?thesis
    unfolding in_clause_def Let_def
    using body
  proof (rule after_quad)
    fix n j c' subs'
    assume "cond_result toks i c subs (n, j, c', subs')"
    then have r: "i < j" "j \<le> length toks" "cond_ok {} (length subs') c'" "cnode_in c' n" "grows c c'" "subs_ok subs'"
      "length subs \<le> length subs'" by (simp_all add: cond_result_def)
    show "returns (cond_result toks i c subs)
      (if typeAt toks i = TOKEN_KEYWORD_NOT
       then after (above c' COND_NOT n (-1)) (\<lambda>(inverted, c). got (inverted, j, c, subs')) else got (n, j, c', subs'))"
      by (intro returns_if after_above [OF r(3) _ r(4)])
         (use r in \<open>auto simp: cond_result_def intro: cond_grows_trans\<close>)
  qed
qed

lemma parseComparison_returns:
  assumes "cond_ok {} (length subs) c" "i \<le> length toks" "subs_ok subs"
  shows "returns (cond_result toks i c subs) (parseComparison sel toks allow i c subs)"
  unfolding parseComparison_def
proof (rule after_left_side [OF assms(2) cond_ok_exprs [OF assms(1)]])
  fix left j pool
  assume p: "i < j" "j \<le> length toks" "pool_ok pool" "prefix (cexprs c) pool" "in_pool pool left"
  note ok = cond_ok_pool [OF assms(1) p(4,3)]
  show "returns (cond_result toks i c subs)
     (after (newCondition (c\<lparr>cexprs := pool\<rparr>) COND_COMPARE) (\<lambda>(node, c).
        let c = set_pred node (\<lambda>p. p\<lparr>pleft := left, pright := -1, psubquery := -1\<rparr>) c;
            word = (if typeAt toks j = TOKEN_KEYWORD_NOT then typeAt toks (j + 1) else typeAt toks j)
        in if word = TOKEN_KEYWORD_IN then in_clause sel toks left node j c subs
           else if typeAt toks j = TOKEN_KEYWORD_IS then is_clause toks node j c subs
           else if word = TOKEN_KEYWORD_LIKE then like_clause toks node j c subs
           else operator_clause sel toks node j c subs))"
  proof (rule after_compare [OF ok])
    fix node c1
    assume one: "cond_ok {node} (length subs) c1" "cnode_in c1 node" "grows (c\<lparr>cexprs := pool\<rparr>) c1" "cexprs c1 = cexprs (c\<lparr>cexprs := pool\<rparr>)"
      "ckind (cnodes c1 ! nat node) = COND_COMPARE" "ccompare (cnodes c1 ! nat node) = blank_predicate"
    let ?f = "\<lambda>p. p\<lparr>pleft := left, pright := -1, psubquery := -1\<rparr>"
    let ?c = "set_pred node ?f c1"
    have "grows c (c\<lparr>cexprs := pool\<rparr>)" by (rule grows_pool [OF p(4)])
    then have g: "grows c ?c" using one(3) cond_grows_trans by simp
    have s: "started (length subs) left node ?c"
      using cond_ok_part [OF one(1) _ one(2,5)] one(2,4,5,6) p(5)
      by (simp add: started_def set_pred_at blank_predicate_def)
    let ?word = "if typeAt toks j = TOKEN_KEYWORD_NOT then typeAt toks (j + 1) else typeAt toks j"
    have win: "j < length toks \<and> (typeAt toks j = TOKEN_KEYWORD_NOT \<longrightarrow> j + 1 < length toks)" if "?word = TOKEN_KEYWORD_IN"
      using that typeAt_is [of toks j] typeAt_is [of toks "j + 1"] by (auto split: if_splits)
    have "returns (cond_result toks j ?c subs)
       (if ?word = TOKEN_KEYWORD_IN then in_clause sel toks left node j ?c subs
        else if typeAt toks j = TOKEN_KEYWORD_IS then is_clause toks node j ?c subs
        else if ?word = TOKEN_KEYWORD_LIKE then like_clause toks node j ?c subs
        else operator_clause sel toks node j ?c subs)"
      by (intro returns_if in_clause_returns [OF s] is_clause_returns [OF s] like_clause_returns [OF s]
            operator_clause_returns [OF s] p(2) assms(3))
         (use win in blast)+
    then show "returns (cond_result toks i c subs)
       (let c = ?c; word = ?word
        in if word = TOKEN_KEYWORD_IN then in_clause sel toks left node j c subs
           else if typeAt toks j = TOKEN_KEYWORD_IS then is_clause toks node j c subs
           else if word = TOKEN_KEYWORD_LIKE then like_clause toks node j c subs
           else operator_clause sel toks node j c subs)"
      unfolding Let_def
      by (rule returns_weaken) (use g p(1) in \<open>auto simp: cond_result_def intro: cond_grows_trans\<close>)
  qed
qed

definition condition_parser :: "nat \<Rightarrow> cond_parser \<Rightarrow> bool" where
  "condition_parser b f \<longleftrightarrow> (\<forall>i c subs. b \<le> i \<longrightarrow> i \<le> length toks \<longrightarrow> cond_ok {} (length subs) c \<longrightarrow> subs_ok subs \<longrightarrow>
     returns (cond_result toks i c subs) (f i c subs))"

lemma condition_parserD:
  "\<lbrakk>condition_parser b f; b \<le> i; i \<le> length toks; cond_ok {} (length subs) c; subs_ok subs\<rbrakk> \<Longrightarrow>
   returns (cond_result toks i c subs) (f i c subs)"
  by (simp add: condition_parser_def)

lemma condition_loop_returns:
  assumes f: "condition_parser b f" and word: "word \<noteq> TOKEN_UNKNOWN" and kind: "kind \<noteq> COND_COMPARE"
  shows "\<lbrakk>b \<le> i; i \<le> length toks; length toks - i < k; cond_ok {} (length subs) c; subs_ok subs; cnode_in c node\<rbrakk> \<Longrightarrow>
    returns (\<lambda>(n, j, c', subs'). i \<le> j \<and> j \<le> length toks \<and> cond_ok {} (length subs') c' \<and> cnode_in c' n \<and>
       grows c c' \<and> subs_ok subs' \<and> length subs \<le> length subs')
      (condition_loop k word kind f toks node i c subs)"
proof (induction k arbitrary: node i c subs)
  case (Suc k)
  show ?case
    unfolding condition_loop.simps
  proof (rule returns_if)
    assume "typeAt toks i = word"
    then have i: "i < length toks" using word typeAt_is by blast
    have "returns (cond_result toks (i + 1) c subs) (f (i + 1) c subs)"
      by (rule condition_parserD [OF f]) (use i Suc.prems in simp_all)
    then show "returns (\<lambda>(n, j, c', subs'). i \<le> j \<and> j \<le> length toks \<and> cond_ok {} (length subs') c' \<and> cnode_in c' n \<and>
       grows c c' \<and> subs_ok subs' \<and> length subs \<le> length subs')
      (after (f (i + 1) c subs) (\<lambda>(right, i, c, subs).
         after (above c kind node right) (\<lambda>(parent, c). condition_loop k word kind f toks parent i c subs)))"
    proof (rule after_quad)
      fix r j c1 subs1
      assume "cond_result toks (i + 1) c subs (r, j, c1, subs1)"
      then have q: "i + 1 < j" "j \<le> length toks" "cond_ok {} (length subs1) c1" "cnode_in c1 r" "grows c c1" "subs_ok subs1"
        "length subs \<le> length subs1" by (simp_all add: cond_result_def)
      show "returns (\<lambda>(n, j, c', subs'). i \<le> j \<and> j \<le> length toks \<and> cond_ok {} (length subs') c' \<and> cnode_in c' n \<and>
           grows c c' \<and> subs_ok subs' \<and> length subs \<le> length subs')
         (after (above c1 kind node r) (\<lambda>(parent, c). condition_loop k word kind f toks parent j c subs1))"
      proof (rule after_above [OF q(3) kind grows_in [OF q(5) Suc.prems(6)] disjI2 [OF q(4)]])
        fix n c2
        assume two: "cond_ok {} (length subs1) c2" "cnode_in c2 n" "grows c1 c2"
        have "returns (\<lambda>(n, ja, c', subs'). j \<le> ja \<and> ja \<le> length toks \<and> cond_ok {} (length subs') c' \<and> cnode_in c' n \<and>
            grows c2 c' \<and> subs_ok subs' \<and> length subs1 \<le> length subs')
          (condition_loop k word kind f toks n j c2 subs1)"
          by (rule Suc.IH) (use Suc.prems q two i in auto)
        then show "returns (\<lambda>(n, j, c', subs'). i \<le> j \<and> j \<le> length toks \<and> cond_ok {} (length subs') c' \<and> cnode_in c' n \<and>
            grows c c' \<and> subs_ok subs' \<and> length subs \<le> length subs') (condition_loop k word kind f toks n j c2 subs1)"
          by (rule returns_weaken) (use q cond_grows_trans [OF q(5) two(3)] in \<open>auto intro: cond_grows_trans\<close>)
      qed
    qed
  qed (use Suc.prems in simp)
qed simp

lemma chain_condition:
  assumes f: "condition_parser b f" and word: "word \<noteq> TOKEN_UNKNOWN" and kind: "kind \<noteq> COND_COMPARE"
  shows "condition_parser b (\<lambda>i c subs. after (f i c subs) (\<lambda>(node, i, c, subs).
    condition_loop (fuel toks) word kind f toks node i c subs))"
  unfolding condition_parser_def
proof (intro allI impI)
  fix i c and subs :: subqueries assume i: "b \<le> i" "i \<le> length toks" and c: "cond_ok {} (length subs) c" and s: "subs_ok subs"
  from condition_parserD [OF f i c s]
  show "returns (cond_result toks i c subs) (after (f i c subs) (\<lambda>(node, i, c, subs).
    condition_loop (fuel toks) word kind f toks node i c subs))"
  proof (rule after_quad)
    fix n j c1 subs1
    assume "cond_result toks i c subs (n, j, c1, subs1)"
    then have q: "i < j" "j \<le> length toks" "cond_ok {} (length subs1) c1" "cnode_in c1 n" "grows c c1" "subs_ok subs1"
        "length subs \<le> length subs1" by (simp_all add: cond_result_def)
    show "returns (cond_result toks i c subs) (condition_loop (fuel toks) word kind f toks n j c1 subs1)"
      by (rule returns_weaken [OF condition_loop_returns [OF f word kind _ q(2) _ q(3,6,4)]])
         (use q i in \<open>auto simp: fuel_def cond_result_def intro: cond_grows_trans\<close>)
  qed
qed

lemma or_expression_parses: "condition_parser b f \<Longrightarrow> condition_parser b (or_expression_of f toks)"
  unfolding or_expression_of_def [abs_def] parseAndExpression_def [abs_def]
  by (intro chain_condition) simp_all

lemma parsePrimary_returns:
  assumes w: "condition_parser (i + 1) whole" and c: "cond_ok {} (length subs) c" and i: "i \<le> length toks" and s: "subs_ok subs"
  shows "returns (cond_result toks i c subs) (parsePrimary sel toks allow whole i c subs)"
  unfolding parsePrimary_def
proof (intro returns_if)
  assume "typeAt toks i = TOKEN_KEYWORD_EXISTS"
  then have i1: "i < length toks" using typeAt_is by blast
  show "returns (cond_result toks i c subs)
     (after (newCondition c COND_COMPARE) (\<lambda>(node, c).
      after (parseSubquery sel toks (i + 1) subs) (\<lambda>(slot, i, subs).
      got (node, i, set_pred node (\<lambda>p. p\<lparr>pleft := -1, pright := -1, pop := OP_EXISTS, psubquery := slot\<rparr>) c, subs))))"
  proof (rule after_compare [OF c], rule after_subquery [OF inner s])
    fix node c1 slot j subs'
    assume one: "cond_ok {node} (length subs) c1" "cnode_in c1 node" "grows c c1" "ckind (cnodes c1 ! nat node) = COND_COMPARE"
    assume q: "subquery_in (length subs') slot" "i + 1 < j" "j \<le> length toks" "subs_ok subs'" "length subs \<le> length subs'"
    have "cond_ok {node} (length subs') c1" by (rule cond_ok_mono [OF one(1) subset_refl q(5)])
    then have "cond_ok {} (length subs') (set_pred node (\<lambda>p. p\<lparr>pleft := -1, pright := -1, pop := OP_EXISTS, psubquery := slot\<rparr>) c1)"
      by (rule cond_ok_set_pred) (use one q in \<open>auto simp: pred_ok_def\<close>)
    then show "returns (cond_result toks i c subs)
      (got (node, j, set_pred node (\<lambda>p. p\<lparr>pleft := -1, pright := -1, pop := OP_EXISTS, psubquery := slot\<rparr>) c1, subs'))"
      using one q by (simp add: cond_result_def)
  qed (use i1 in simp)
next
  assume "typeAt toks i = TOKEN_LPAREN"
  then have i1: "i < length toks" using typeAt_is by blast
  have "returns (cond_result toks (i + 1) c subs) (whole (i + 1) c subs)"
    by (rule condition_parserD [OF w _ _ c s]) (use i1 in simp_all)
  then show "returns (cond_result toks i c subs)
     (after (whole (i + 1) c subs) (\<lambda>(node, i, c, subs).
      need toks i TOKEN_RPAREN ERROR_SYNTAX_EXPECTED_PARENTHESES (got (node, i + 1, c, subs))))"
    by (rule after_quad) (rule need_inside, auto simp: cond_result_def)
qed (rule parseComparison_returns [OF c i s])

lemma parseNotExpression_parses: "length toks < b + k \<Longrightarrow> condition_parser b (parseNotExpression k sel toks allow)"
proof (induction k arbitrary: b)
  case 0
  then show ?case by (simp add: condition_parser_def)
next
  case (Suc k)
  have inner_p: "condition_parser (b' + 1) (parseNotExpression k sel toks allow)" if "b \<le> b'" for b'
    by (rule Suc.IH) (use Suc.prems that in simp)
  show ?case
    unfolding condition_parser_def parseNotExpression.simps
  proof (intro allI impI returns_if)
    fix i c and subs :: subqueries
    assume i: "b \<le> i" "i \<le> length toks" and c: "cond_ok {} (length subs) c" and s: "subs_ok subs"
    { assume "typeAt toks i = TOKEN_KEYWORD_NOT"
      then have i1: "i < length toks" using typeAt_is by blast
      have "returns (cond_result toks (i + 1) c subs) (parseNotExpression k sel toks allow (i + 1) c subs)"
        by (rule condition_parserD [OF inner_p [OF i(1)] _ _ c s]) (use i1 in simp_all)
      then show "returns (cond_result toks i c subs)
          (after (parseNotExpression k sel toks allow (i + 1) c subs) (\<lambda>(child, i, c, subs).
           after (above c COND_NOT child (-1)) (\<lambda>(node, c). got (node, i, c, subs))))"
        by (rule after_quad) (rule after_above, auto simp: cond_result_def intro: cond_grows_trans) }
    show "returns (cond_result toks i c subs)
      (parsePrimary sel toks allow (or_expression_of (parseNotExpression k sel toks allow) toks) i c subs)"
      by (rule parsePrimary_returns [OF or_expression_parses [OF inner_p [OF i(1)]] c i(2) s])
  qed
qed

lemma parseOrExpression_returns:
  "\<lbrakk>i \<le> length toks; cond_ok {} (length subs) c; subs_ok subs\<rbrakk> \<Longrightarrow>
   returns (cond_result toks i c subs) (parseOrExpression sel toks allow i c subs)"
  unfolding parseOrExpression_def
  by (rule condition_parserD [OF or_expression_parses [OF parseNotExpression_parses [of 0]]]) (simp_all add: fuel_def)

end

end
