(* ===== verification/Parsed.thy ===== *)
theory Parsed
  imports Parsing
begin

text \<open>
  Every statement parse returns, and what a parsed statement is: the properties of the parser as a
  whole.
\<close>

subsection \<open>Lists\<close>

text \<open>\<open>I\<close> holds before an entry, \<open>J\<close> after at least one.\<close>

lemma comma_list_returns:
  assumes one: "\<And>i s. \<lbrakk>i \<le> length toks; I s\<rbrakk> \<Longrightarrow> returns (\<lambda>(j, s'). i < j \<and> j \<le> length toks \<and> J s') (one i s)"
    and again: "\<And>s. J s \<Longrightarrow> I s"
  shows "\<lbrakk>i \<le> length toks; length toks - i < k; I s\<rbrakk> \<Longrightarrow>
    returns (\<lambda>(j, s'). i < j \<and> j \<le> length toks \<and> J s') (comma_list k toks one i s)"
proof (induction k arbitrary: i s)
  case (Suc k)
  show ?case
    unfolding comma_list.simps
    using one [OF Suc.prems(1,3)]
  proof (rule after_pair)
    fix j s'
    assume q: "case (j, s') of (j, s') \<Rightarrow> i < j \<and> j \<le> length toks \<and> J s'"
    show "returns (\<lambda>(j, s'). i < j \<and> j \<le> length toks \<and> J s')
       (if typeAt toks j = TOKEN_COMMA then comma_list k toks one (j + 1) s' else got (j, s'))"
    proof (rule returns_if)
      assume "typeAt toks j = TOKEN_COMMA"
      then have "j < length toks" using typeAt_is by blast
      then have "returns (\<lambda>(k, s'). j + 1 < k \<and> k \<le> length toks \<and> J s') (comma_list k toks one (j + 1) s')"
        using q Suc.prems again by (intro Suc.IH) auto
      then show "returns (\<lambda>(j, s'). i < j \<and> j \<le> length toks \<and> J s') (comma_list k toks one (j + 1) s')"
        by (rule returns_weaken) (use q in auto)
    qed (use q in simp)
  qed
qed simp

lemma fuel_enough: "length toks - i < fuel toks" by (simp add: fuel_def)

lemma after_comma_list:
  assumes "\<And>i s. \<lbrakk>i \<le> length toks; I s\<rbrakk> \<Longrightarrow> returns (\<lambda>(j, s'). i < j \<and> j \<le> length toks \<and> J s') (one i s)"
    and "\<And>s. J s \<Longrightarrow> I s" "i \<le> length toks" "I s" "\<And>j s'. \<lbrakk>i < j; j \<le> length toks; J s'\<rbrakk> \<Longrightarrow> returns P (k j s')"
  shows "returns P (after (comma_list (fuel toks) toks one i s) (\<lambda>(j, s). k j s))"
  by (rule after_pair [OF comma_list_returns [where I = I and J = J, OF assms(1,2,3) fuel_enough assms(4)]])
     (use assms(5) in auto)

lemma after_end [ret]: "(i \<le> length toks \<Longrightarrow> returns P (k ())) \<Longrightarrow> returns P (after (endOfStatement toks i) k)"
  by (auto simp: endOfStatement_def Let_def)

lemma after_identifier [ret]:
  "(\<And>name. i < length toks \<Longrightarrow> length name < NAME_LEN \<Longrightarrow> returns P (k name (i + 1))) \<Longrightarrow>
   returns P (after (identifier_at toks i e) (\<lambda>(name, i). k name i))"
  unfolding identifier_at_def need_def using typeAt_is [of toks i] name_of_length by (auto split: if_splits)

lemma skip_token_range: "i \<le> length toks \<Longrightarrow> type \<noteq> TOKEN_UNKNOWN \<Longrightarrow> i \<le> skip_token toks i type \<and> skip_token toks i type \<le> length toks"
  using typeAt_is [of toks i type] by (auto simp: skip_token_def)

subsection \<open>SELECT\<close>

definition listed :: "selectstatement \<Rightarrow> bool" where "listed s \<longleftrightarrow> selectAll s \<or> sitems s \<noteq> []"

text \<open>What a clause of a SELECT does to the statement: \<open>m\<close> subqueries exist.\<close>

definition clause_result :: "token list \<Rightarrow> nat \<Rightarrow> nat \<Rightarrow> selectstatement \<Rightarrow> nat \<times> selectstatement \<Rightarrow> bool" where
  "clause_result toks i m s = (\<lambda>(j, s'). i \<le> j \<and> j \<le> length toks \<and> select_ok m s' \<and> stables s' = stables s \<and> (listed s \<longrightarrow> listed s'))"

lemma items_grow: "list_all (item_ok pool) its \<Longrightarrow> prefix pool pool' \<Longrightarrow> list_all (item_ok pool') its"
  by (auto simp: list_all_iff intro: item_ok_prefix)

lemma select_item_returns:
  assumes "i \<le> length toks" "select_ok m s"
  shows "returns (\<lambda>(j, s'). i < j \<and> j \<le> length toks \<and> select_ok m s' \<and> stables s' = stables s \<and> sitems s' \<noteq> []) (select_item toks i s)"
  unfolding select_item_def Let_def
proof (intro ret)
  show "i \<le> length toks" by (rule assms(1))
  show "pool_ok (sexprs s)" using assms(2) by (simp add: select_ok_def)
next
  fix it j pool
  assume full: "length (sitems s) \<noteq> MAX_COLS" and j: "i < j" "j \<le> length toks" and p: "pool_ok pool" "prefix (sexprs s) pool" "item_ok pool it"
  let ?j = "skip_token toks j TOKEN_KEYWORD_AS"
  have k: "j \<le> ?j" "?j \<le> length toks" using skip_token_range [OF j(2), of TOKEN_KEYWORD_AS] by simp_all
  have n: "?j < length toks" if "typeAt toks ?j = TOKEN_IDENTIFIER" using that typeAt_is by blast
  have it: "item_ok pool (if typeAt toks ?j = TOKEN_IDENTIFIER then it\<lparr>aliased := True, ilabel := name_of (textAt toks ?j)\<rparr> else it\<lparr>aliased := False\<rparr>)"
    using p(3) by (simp add: item_ok_def)
  show "returns (\<lambda>(j, s'). i < j \<and> j \<le> length toks \<and> select_ok m s' \<and> stables s' = stables s \<and> sitems s' \<noteq> [])
     (got (if typeAt toks ?j = TOKEN_IDENTIFIER then ?j + 1 else ?j,
           s\<lparr>sitems := sitems s @ [if typeAt toks ?j = TOKEN_IDENTIFIER then it\<lparr>aliased := True, ilabel := name_of (textAt toks ?j)\<rparr>
                                    else it\<lparr>aliased := False\<rparr>], sexprs := pool\<rparr>))"
    using assms(2) full j p k n it items_grow [OF _ p(2), of "sitems s"]
    by (auto simp: select_ok_def)
qed

lemma select_list_returns:
  assumes "i \<le> length toks" "select_ok m s"
  shows "returns (\<lambda>(j, s'). i < j \<and> j \<le> length toks \<and> select_ok m s' \<and> stables s' = stables s \<and> listed s') (select_list toks i s)"
  unfolding select_list_def
proof (rule returns_if)
  assume "typeAt toks i = TOKEN_STAR"
  then have "i < length toks" using typeAt_is by blast
  then show "returns (\<lambda>(j, s'). i < j \<and> j \<le> length toks \<and> select_ok m s' \<and> stables s' = stables s \<and> listed s') (got (i + 1, s\<lparr>selectAll := True\<rparr>))"
    using assms(2) by (simp add: listed_def select_ok_def)
next
  have "returns (\<lambda>(j, s'). i < j \<and> j \<le> length toks \<and> (select_ok m s' \<and> stables s' = stables s \<and> sitems s' \<noteq> []))
      (comma_list (fuel toks) toks (select_item toks) i s)"
    by (rule comma_list_returns [where I = "\<lambda>s'. select_ok m s' \<and> stables s' = stables s"])
       (use assms in \<open>auto simp: fuel_def intro: returns_weaken [OF select_item_returns]\<close>)
  then show "returns (\<lambda>(j, s'). i < j \<and> j \<le> length toks \<and> select_ok m s' \<and> stables s' = stables s \<and> listed s')
      (comma_list (fuel toks) toks (select_item toks) i s)"
    by (rule returns_weaken) (auto simp: listed_def)
qed

lemma group_clause_returns:
  assumes "i \<le> length toks" "select_ok m s"
  shows "returns (clause_result toks i m s) (group_clause toks i s)"
proof -
  have one: "returns (\<lambda>(k, s'). j < k \<and> k \<le> length toks \<and> (select_ok m s' \<and> stables s' = stables s \<and> (listed s \<longrightarrow> listed s')))
      (group_column toks j s1)" if "j \<le> length toks" "select_ok m s1 \<and> stables s1 = stables s \<and> (listed s \<longrightarrow> listed s1)" for j s1
    unfolding group_column_def by (rule need_inside) (use that in \<open>auto simp: select_ok_def listed_def\<close>)
  have "returns (\<lambda>(k, s'). i + 2 < k \<and> k \<le> length toks \<and> (select_ok m s' \<and> stables s' = stables s \<and> (listed s \<longrightarrow> listed s')))
      (comma_list (fuel toks) toks (group_column toks) (i + 2) s)" if "i + 2 \<le> length toks"
    by (rule comma_list_returns [where I = "\<lambda>s'. select_ok m s' \<and> stables s' = stables s \<and> (listed s \<longrightarrow> listed s')"])
       (use one that assms in \<open>auto simp: fuel_def\<close>)
  then show ?thesis
    unfolding group_clause_def
    by (intro ret; use assms typeAt_is [of toks "i + 1"] in \<open>auto simp: clause_result_def elim!: returns_weaken\<close>)
qed

lemma order_term_returns:
  assumes "i \<le> length toks" "select_ok m s"
  shows "returns (\<lambda>(j, s'). i < j \<and> j \<le> length toks \<and> select_ok m s' \<and> stables s' = stables s \<and> (listed s \<longrightarrow> listed s')) (order_term toks i s)"
  unfolding order_term_def Let_def
proof (intro ret)
  show "i \<le> length toks" by (rule assms(1))
  show "pool_ok (sexprs s)" using assms(2) by (simp add: select_ok_def)
next
  fix it j pool
  assume full: "length (sorder s) \<noteq> MAX_COLS" and j: "i < j" "j \<le> length toks" and p: "pool_ok pool" "prefix (sexprs s) pool"
  have n: "j < length toks" if "typeAt toks j = TOKEN_KEYWORD_DESC" using that typeAt_is by blast
  show "returns (\<lambda>(j, s'). i < j \<and> j \<le> length toks \<and> select_ok m s' \<and> stables s' = stables s \<and> (listed s \<longrightarrow> listed s'))
     (got (if typeAt toks j = TOKEN_KEYWORD_DESC then j + 1 else skip_token toks j TOKEN_KEYWORD_ASC,
           s\<lparr>sexprs := pool, sorder := sorder s @ [\<lparr>ocolumn = name_of (ilabel it), descending = typeAt toks j = TOKEN_KEYWORD_DESC\<rparr>]\<rparr>))"
    using assms(2) full j p n items_grow [OF _ p(2), of "sitems s"] skip_token_range [OF j(2), of TOKEN_KEYWORD_ASC]
    by (auto simp: select_ok_def listed_def)
qed

lemma order_clause_returns:
  assumes "i \<le> length toks" "select_ok m s"
  shows "returns (clause_result toks i m s) (order_clause toks i s)"
proof -
  have "returns (\<lambda>(k, s'). i + 2 < k \<and> k \<le> length toks \<and> (select_ok m s' \<and> stables s' = stables s \<and> (listed s \<longrightarrow> listed s')))
      (comma_list (fuel toks) toks (order_term toks) (i + 2) s)" if "i + 2 \<le> length toks"
    by (rule comma_list_returns [where I = "\<lambda>s'. select_ok m s' \<and> stables s' = stables s \<and> (listed s \<longrightarrow> listed s')"])
       (use that assms in \<open>auto simp: fuel_def intro: returns_weaken [OF order_term_returns]\<close>)
  then show ?thesis
    unfolding order_clause_def
    by (intro ret; use assms typeAt_is [of toks "i + 1"] in \<open>auto simp: clause_result_def elim!: returns_weaken\<close>)
qed

lemma limit_clause_returns:
  assumes "i \<le> length toks" "select_ok m s"
  shows "returns (clause_result toks i m s) (limit_clause toks i s)"
  unfolding limit_clause_def Let_def
  by (intro ret need_inside; use assms in \<open>auto simp: clause_result_def select_ok_def listed_def\<close>)

text \<open>While FROM and WHERE are read the root of the WHERE tree is apart from the statement.\<close>

definition root_ok :: "condition \<Rightarrow> int \<Rightarrow> bool" where "root_ok c r \<longleftrightarrow> r = -1 \<or> cnode_in c r"

definition from_state :: "nat \<Rightarrow> selectstatement \<Rightarrow> int \<Rightarrow> bool" where
  "from_state m s root \<longleftrightarrow> select_ok m s \<and> listed s \<and> root_ok (swhere s) root"

definition from_result :: "token list \<Rightarrow> nat \<Rightarrow> subqueries \<Rightarrow> nat \<times> selectstatement \<times> int \<times> subqueries \<Rightarrow> bool" where
  "from_result toks i subs = (\<lambda>(j, s, root, subs'). i \<le> j \<and> j \<le> length toks \<and> from_state (length subs') s root \<and>
     subs_ok subs' \<and> length subs \<le> length subs' \<and> stables s \<noteq> [])"

lemma root_ok_grows: "grows c c' \<Longrightarrow> root_ok c r \<Longrightarrow> root_ok c' r"
  by (auto simp: root_ok_def grows_in)

lemma root_ok_in: "cnode_in c r \<Longrightarrow> root_ok c r" by (simp add: root_ok_def)

lemma root_negative: "root_ok c r \<Longrightarrow> r < 0 \<longleftrightarrow> r = -1"
  by (auto simp: root_ok_def cnode_in_def)

lemma from_state_present:
  assumes "from_state m s root"
  shows "select_ok m (if root \<ge> 0 then s\<lparr>swhere := (swhere s)\<lparr>croot := root, present := True\<rparr>\<rparr> else s)"
    "listed (if root \<ge> 0 then s\<lparr>swhere := (swhere s)\<lparr>croot := root, present := True\<rparr>\<rparr> else s)"
    "stables (if root \<ge> 0 then s\<lparr>swhere := (swhere s)\<lparr>croot := root, present := True\<rparr>\<rparr> else s) = stables s"
  using assms by (auto simp: from_state_def select_ok_def root_ok_def listed_def)

lemma from_state_where:
  assumes "from_state m s root" "grows (swhere s) c" "cond_ok {} m' c" "m \<le> m'" "root_ok c r"
  shows "from_state m' (s\<lparr>swhere := c\<rparr>) r"
  using assms select_ok_mono [of m s m'] grows_in [OF assms(2)]
  by (auto simp: from_state_def select_ok_def listed_def list_all_iff grows_def)

context subquery_parser
begin

lemma addCondition_returns:
  assumes "i \<le> length toks" "cond_ok {} (length subs) c" "subs_ok subs" "root_ok c root"
  shows "returns (cond_result toks i c subs) (addCondition sel toks root i c subs)"
  unfolding addCondition_def using parseOrExpression_returns [OF assms(1-3)]
proof (rule after_quad)
  fix n j c1 subs1
  assume "cond_result toks i c subs (n, j, c1, subs1)"
  then have q: "i < j" "j \<le> length toks" "cond_ok {} (length subs1) c1" "cnode_in c1 n" "grows c c1" "subs_ok subs1"
      "length subs \<le> length subs1" by (simp_all add: cond_result_def)
  have root: "cnode_in c1 root" if "\<not> root < 0"
    using that root_negative [OF assms(4)] assms(4) grows_in [OF q(5)] by (auto simp: root_ok_def)
  show "returns (cond_result toks i c subs)
     (if root < 0 then got (n, j, c1, subs1)
      else after (above c1 COND_AND root n) (\<lambda>(combined, c). got (combined, j, c, subs1)))"
    by (intro returns_if after_above [OF q(3)])
       (use q root in \<open>auto simp: cond_result_def intro: cond_grows_trans\<close>)
qed

lemma after_addCondition:
  assumes "i \<le> length toks" "cond_ok {} (length subs) c" "subs_ok subs" "root_ok c root"
    and "\<And>n j c' subs'. \<lbrakk>i < j; j \<le> length toks; cond_ok {} (length subs') c'; cnode_in c' n; grows c c'; subs_ok subs';
      length subs \<le> length subs'\<rbrakk> \<Longrightarrow> returns P (k n j c' subs')"
  shows "returns P (after (addCondition sel toks root i c subs) (\<lambda>(n, j, c, subs). k n j c subs))"
  using addCondition_returns [OF assms(1-4)] by (rule after_quad) (use assms(5) in \<open>auto simp: cond_result_def\<close>)

lemma join_condition_returns:
  assumes "i \<le> length toks" "from_state (length subs) s root" "subs_ok subs" "stables s \<noteq> []"
  shows "returns (from_result toks i subs) (join_condition sel toks slot expectOn expectOuter i s root subs)"
  unfolding join_condition_def
proof (intro returns_if need_inside after_addCondition)
  fix n j c subs'
  assume i: "i < length toks" and q: "i + 1 < j" "j \<le> length toks" "cond_ok {} (length subs') c" "cnode_in c n" "grows (swhere s) c"
    "subs_ok subs'" "length subs \<le> length subs'"
  have r: "root_ok c root" using assms(2) root_ok_grows [OF q(5)] by (simp add: from_state_def)
  have st: "from_state (length subs') (s\<lparr>swhere := c\<rparr>) n" "from_state (length subs') (s\<lparr>swhere := c\<rparr>) root"
    using from_state_where [OF assms(2) q(5,3,7)] q(4) r by (auto simp: root_ok_def)
  show "returns (from_result toks i subs) (got (j, s\<lparr>swhere := c\<rparr>, n, subs'))"
    using st(1) q assms(4) by (simp add: from_result_def)
  have "list_all (\<lambda>r. r = -1 \<or> cnode_in c r) ((onRoot s)[slot := n])"
    using st(2) q(4) by (auto simp: from_state_def select_ok_def list_all_iff dest!: set_update_subset_insert [THEN subsetD])
  then have "from_state (length subs') (s\<lparr>swhere := c, souter := (souter s)[slot := True], onRoot := (onRoot s)[slot := n]\<rparr>) root"
    using st(2) by (simp add: from_state_def select_ok_def listed_def)
  then show "returns (from_result toks i subs)
     (got (j, s\<lparr>swhere := c, souter := (souter s)[slot := True], onRoot := (onRoot s)[slot := n]\<rparr>, root, subs'))"
    using q assms(4) by (simp add: from_result_def)
qed (use assms in \<open>auto simp: from_result_def from_state_def select_ok_def root_ok_def\<close>)

lemma from_entry_returns:
  assumes "i \<le> length toks" "from_state (length subs) s root" "subs_ok subs"
  shows "returns (\<lambda>(j, r). i < j \<and> from_result toks i subs (j, r)) (from_entry sel toks expectOn expectOuter i s root subs)"
  unfolding from_entry_def Let_def
proof (intro need_inside returns_if)
  assume i: "i < length toks" and room: "length (stables s) \<noteq> MAX_JOIN_TABLES"
  let ?j = "skip_token toks (i + 1) TOKEN_KEYWORD_AS"
  let ?s = "s\<lparr>stables := stables s @ [name_of (textAt toks i)],
             saliases := saliases s @ [if typeAt toks ?j = TOKEN_IDENTIFIER then name_of (textAt toks ?j) else name_of (textAt toks i)]\<rparr>"
  have j: "i + 1 \<le> ?j" "?j \<le> length toks" using skip_token_range [of "i + 1" toks TOKEN_KEYWORD_AS] i by simp_all
  have k: "(if typeAt toks ?j = TOKEN_IDENTIFIER then ?j + 1 else ?j) \<le> length toks" using j typeAt_is [of toks ?j] by fastforce
  have "from_state (length subs) ?s root" using assms(2) room by (simp add: from_state_def select_ok_def listed_def)
  from join_condition_returns [OF k this assms(3), of "length (stables s)" expectOn expectOuter]
  show "returns (\<lambda>(j, r). i < j \<and> from_result toks i subs (j, r))
     (join_condition sel toks (length (stables s)) expectOn expectOuter
        (if typeAt toks ?j = TOKEN_IDENTIFIER then ?j + 1 else ?j) ?s root subs)"
    using j by (auto elim!: returns_weaken simp: from_result_def split: if_splits)
qed simp_all

lemma from_list_returns:
  "\<lbrakk>i \<le> length toks; length toks - i < k; from_state (length subs) s root; subs_ok subs\<rbrakk> \<Longrightarrow>
   returns (from_result toks i subs) (from_list k sel toks expectOn expectOuter i s root subs)"
proof (induction k arbitrary: expectOn expectOuter i s root subs)
  case (Suc k)
  show ?case
    unfolding from_list.simps
    using from_entry_returns [OF Suc.prems(1,3,4), of expectOn expectOuter]
  proof (rule after_quad)
    fix j s1 root1 subs1
    assume "case (j, s1, root1, subs1) of (j, r) \<Rightarrow> i < j \<and> from_result toks i subs (j, r)"
    then have q: "i < j" "j \<le> length toks" "from_state (length subs1) s1 root1" "subs_ok subs1" "length subs \<le> length subs1" "stables s1 \<noteq> []"
      by (simp_all add: from_result_def)
    obtain skip left where w: "join_words toks j = (skip, left)" by (cases "join_words toks j")
    have again: "returns (from_result toks i subs) (from_list k sel toks on outer l s1 root1 subs1)" if "j < l" "l \<le> length toks" for on outer l
    proof -
      have "returns (from_result toks l subs1) (from_list k sel toks on outer l s1 root1 subs1)"
        by (rule Suc.IH) (use that q Suc.prems(2) in auto)
      then show ?thesis by (rule returns_weaken) (use that q in \<open>auto simp: from_result_def\<close>)
    qed
    show "returns (from_result toks i subs)
       (if typeAt toks j = TOKEN_COMMA then from_list k sel toks False False (j + 1) s1 root1 subs1
        else let (skip, left) = join_words toks j
             in if typeAt toks (j + skip) \<noteq> TOKEN_KEYWORD_JOIN then got (j, s1, root1, subs1)
                else from_list k sel toks True left (j + skip + 1) s1 root1 subs1)"
      unfolding w Let_def prod.case
    proof (intro returns_if)
      assume "typeAt toks j = TOKEN_COMMA"
      then show "returns (from_result toks i subs) (from_list k sel toks False False (j + 1) s1 root1 subs1)"
        using typeAt_is [of toks j] by (intro again) auto
    next
      assume "\<not> typeAt toks (j + skip) \<noteq> TOKEN_KEYWORD_JOIN"
      then show "returns (from_result toks i subs) (from_list k sel toks True left (j + skip + 1) s1 root1 subs1)"
        using typeAt_is [of toks "j + skip"] by (intro again) auto
    qed (use q in \<open>simp add: from_result_def\<close>)
  qed
qed simp

lemma where_clause_returns:
  assumes "i \<le> length toks" "from_state (length subs) s root" "subs_ok subs" "stables s \<noteq> []"
  shows "returns (from_result toks i subs) (where_clause sel toks i s root subs)"
  unfolding where_clause_def
proof (intro returns_if after_addCondition)
  fix n j c subs'
  assume q: "i + 1 < j" "j \<le> length toks" "cond_ok {} (length subs') c" "cnode_in c n" "grows (swhere s) c"
    "subs_ok subs'" "length subs \<le> length subs'"
  show "returns (from_result toks i subs) (got (j, s\<lparr>swhere := c\<rparr>, n, subs'))"
    using from_state_where [OF assms(2) q(5,3,7), of n] q assms(4) by (simp add: from_result_def root_ok_def)
qed (use assms typeAt_is [of toks i] in \<open>auto simp: from_result_def from_state_def select_ok_def\<close>)

lemma whole_condition_returns:
  assumes "i < length toks" "subs_ok subs"
  shows "returns (\<lambda>(c, j, subs'). i < j \<and> j \<le> length toks \<and> cond_ok {} (length subs') c \<and> cnode_in c (croot c) \<and> subs_ok subs' \<and>
     length subs \<le> length subs') (whole_condition sel toks allow i subs)"
  unfolding whole_condition_def
  by (rule after_quad [OF parseOrExpression_returns])
     (use assms in \<open>auto simp: cond_result_def\<close>)

lemma having_clause_returns:
  assumes "i \<le> length toks" "select_ok (length subs) s" "subs_ok subs"
  shows "returns (\<lambda>(j, s', subs'). clause_result toks i (length subs') s (j, s') \<and> subs_ok subs' \<and> length subs \<le> length subs')
     (having_clause sel toks i s subs)"
  unfolding having_clause_def parseHaving_def
proof (rule returns_if)
  assume "typeAt toks i = TOKEN_KEYWORD_HAVING"
  then have i: "i < length toks" using typeAt_is by blast
  show "returns (\<lambda>(j, s', subs'). clause_result toks i (length subs') s (j, s') \<and> subs_ok subs' \<and> length subs \<le> length subs')
     (after (whole_condition sel toks True i subs) (\<lambda>(c, i, subs). got (i, s\<lparr>having := c\<rparr>, subs)))"
    using whole_condition_returns [OF i assms(3)]
  proof (rule after_triple)
    fix c j subs'
    assume q: "case (c, j, subs') of (c, j, subs') \<Rightarrow> i < j \<and> j \<le> length toks \<and> cond_ok {} (length subs') c \<and> cnode_in c (croot c) \<and>
      subs_ok subs' \<and> length subs \<le> length subs'"
    then have "select_ok (length subs') s" using select_ok_mono [OF assms(2)] by simp
    then show "returns (\<lambda>(j, s', subs'). clause_result toks i (length subs') s (j, s') \<and> subs_ok subs' \<and> length subs \<le> length subs')
       (got (j, s\<lparr>having := c\<rparr>, subs'))"
      using q by (simp add: clause_result_def select_ok_def listed_def)
  qed
qed (use assms in \<open>simp add: clause_result_def\<close>)

lemma select_body_returns:
  assumes "subs_ok subs"
  shows "returns (\<lambda>(s, subs'). (select_ok (length subs') s \<and> listed s \<and> stables s \<noteq> []) \<and> subs_ok subs' \<and> length subs \<le> length subs')
    (select_body sel toks subs)"
proof -
  let ?P = "\<lambda>(s, subs'). (select_ok (length subs') s \<and> listed s \<and> stables s \<noteq> []) \<and> subs_ok subs' \<and> length subs \<le> length subs'"
  let ?distinct = "typeAt toks 1 = TOKEN_KEYWORD_DISTINCT"
  let ?i = "if ?distinct then 2 else 1 :: nat"
  have tail: "returns ?P (after (group_clause toks i s) (\<lambda>(i, s).
               after (having_clause sel toks i s subs1) (\<lambda>(i, s, subs).
               after (order_clause toks i s) (\<lambda>(i, s).
               after (limit_clause toks i s) (\<lambda>(i, s).
               after (endOfStatement toks i) (\<lambda>_. got (s, subs)))))))"
    if "i \<le> length toks" "select_ok (length subs1) s" "listed s" "stables s \<noteq> []" "subs_ok subs1" "length subs \<le> length subs1" for i s subs1
  proof (rule after_pair [OF group_clause_returns [OF that(1,2)]])
    fix i1 s1 assume g: "clause_result toks i (length subs1) s (i1, s1)"
    then have "i1 \<le> length toks" "select_ok (length subs1) s1" by (simp_all add: clause_result_def)
    from having_clause_returns [OF this that(5)]
    show "returns ?P (after (having_clause sel toks i1 s1 subs1) (\<lambda>(i, s, subs).
               after (order_clause toks i s) (\<lambda>(i, s).
               after (limit_clause toks i s) (\<lambda>(i, s).
               after (endOfStatement toks i) (\<lambda>_. got (s, subs))))))"
    proof (rule after_triple)
      fix i2 s2 subs2
      assume h: "case (i2, s2, subs2) of (j, s', subs') \<Rightarrow> clause_result toks i1 (length subs') s1 (j, s') \<and> subs_ok subs' \<and> length subs1 \<le> length subs'"
      then have "i2 \<le> length toks" "select_ok (length subs2) s2" by (simp_all add: clause_result_def)
      from order_clause_returns [OF this]
      show "returns ?P (after (order_clause toks i2 s2) (\<lambda>(i, s).
               after (limit_clause toks i s) (\<lambda>(i, s). after (endOfStatement toks i) (\<lambda>_. got (s, subs2)))))"
      proof (rule after_pair)
        fix i3 s3 assume o: "clause_result toks i2 (length subs2) s2 (i3, s3)"
        then have "i3 \<le> length toks" "select_ok (length subs2) s3" by (simp_all add: clause_result_def)
        from limit_clause_returns [OF this]
        show "returns ?P (after (limit_clause toks i3 s3) (\<lambda>(i, s). after (endOfStatement toks i) (\<lambda>_. got (s, subs2))))"
          by (rule after_pair) (rule after_end, use g h o that in \<open>auto simp: clause_result_def\<close>)
      qed
    qed
  qed
  show ?thesis
  proof (cases "?i \<le> length toks")
    case False
    then have "\<not> 1 \<le> length toks" using typeAt_is [of toks 1 TOKEN_KEYWORD_DISTINCT] by (cases ?distinct) auto
    then have e: "toks = []" by (cases toks) auto
    show ?thesis
      by (simp add: e select_body_def select_list_def select_item_def typeAt_def fuel_def parseSelectItem_def
          parseExpression_def expression_of_def parseTerm_def blank_select_def exprInit_def MAX_COLS_def)
  next
    case True
    have "select_ok (length subs) (blank_select\<lparr>sdistinct := ?distinct\<rparr>)"
      using select_ok_blank [of "length subs"] by (simp add: select_ok_def)
    from select_list_returns [OF True this]
    show ?thesis
      unfolding select_body_def Let_def
    proof (rule after_pair)
      fix i s assume l: "case (i, s) of (j, s') \<Rightarrow> ?i < j \<and> j \<le> length toks \<and> select_ok (length subs) s' \<and>
         stables s' = stables (blank_select\<lparr>sdistinct := ?distinct\<rparr>) \<and> listed s'"
      show "returns ?P (need toks i TOKEN_KEYWORD_FROM ERROR_SYNTAX_EXPECTED_FROM
           (after (from_list (fuel toks) sel toks False False (i + 1) s (-1) subs) (\<lambda>(i, s, root, subs).
            after (where_clause sel toks i (s\<lparr>stable := stables s ! 0\<rparr>) root subs) (\<lambda>(i, s, root, subs).
               after (group_clause toks i (if root \<ge> 0 then s\<lparr>swhere := (swhere s)\<lparr>croot := root, present := True\<rparr>\<rparr> else s)) (\<lambda>(i, s).
               after (having_clause sel toks i s subs) (\<lambda>(i, s, subs).
               after (order_clause toks i s) (\<lambda>(i, s).
               after (limit_clause toks i s) (\<lambda>(i, s).
               after (endOfStatement toks i) (\<lambda>_. got (s, subs))))))))))"
      proof (rule need_inside)
        assume i: "i < length toks"
        have "from_state (length subs) s (-1)" using l by (simp add: from_state_def root_ok_def)
        from from_list_returns [OF _ _ this assms, of "i + 1" "fuel toks" False False] i
        have "returns (from_result toks (i + 1) subs) (from_list (fuel toks) sel toks False False (i + 1) s (-1) subs)"
          by (simp add: fuel_def)
        then show "returns ?P (after (from_list (fuel toks) sel toks False False (i + 1) s (-1) subs) (\<lambda>(i, s, root, subs).
            after (where_clause sel toks i (s\<lparr>stable := stables s ! 0\<rparr>) root subs) (\<lambda>(i, s, root, subs).
               after (group_clause toks i (if root \<ge> 0 then s\<lparr>swhere := (swhere s)\<lparr>croot := root, present := True\<rparr>\<rparr> else s)) (\<lambda>(i, s).
               after (having_clause sel toks i s subs) (\<lambda>(i, s, subs).
               after (order_clause toks i s) (\<lambda>(i, s).
               after (limit_clause toks i s) (\<lambda>(i, s).
               after (endOfStatement toks i) (\<lambda>_. got (s, subs)))))))))"
        proof (rule after_quad)
          fix i1 s1 root1 subs1
          assume f: "from_result toks (i + 1) subs (i1, s1, root1, subs1)"
          then have "i1 \<le> length toks" "from_state (length subs1) (s1\<lparr>stable := stables s1 ! 0\<rparr>) root1" "subs_ok subs1"
              "stables (s1\<lparr>stable := stables s1 ! 0\<rparr>) \<noteq> []"
            by (simp_all add: from_result_def from_state_def select_ok_def listed_def)
          from where_clause_returns [OF this]
          show "returns ?P (after (where_clause sel toks i1 (s1\<lparr>stable := stables s1 ! 0\<rparr>) root1 subs1) (\<lambda>(i, s, root, subs).
               after (group_clause toks i (if root \<ge> 0 then s\<lparr>swhere := (swhere s)\<lparr>croot := root, present := True\<rparr>\<rparr> else s)) (\<lambda>(i, s).
               after (having_clause sel toks i s subs) (\<lambda>(i, s, subs).
               after (order_clause toks i s) (\<lambda>(i, s).
               after (limit_clause toks i s) (\<lambda>(i, s).
               after (endOfStatement toks i) (\<lambda>_. got (s, subs))))))))"
          proof (rule after_quad)
            fix i2 s2 root2 subs2
            assume w: "from_result toks i1 subs1 (i2, s2, root2, subs2)"
            show "returns ?P (after (group_clause toks i2 (if root2 \<ge> 0 then s2\<lparr>swhere := (swhere s2)\<lparr>croot := root2, present := True\<rparr>\<rparr> else s2)) (\<lambda>(i, s).
               after (having_clause sel toks i s subs2) (\<lambda>(i, s, subs).
               after (order_clause toks i s) (\<lambda>(i, s).
               after (limit_clause toks i s) (\<lambda>(i, s).
               after (endOfStatement toks i) (\<lambda>_. got (s, subs)))))))"
            proof (rule tail)
              have "from_state (length subs2) s2 root2" using w by (simp add: from_result_def)
              note p = from_state_present [OF this]
              show "select_ok (length subs2) (if root2 \<ge> 0 then s2\<lparr>swhere := (swhere s2)\<lparr>croot := root2, present := True\<rparr>\<rparr> else s2)"
                "listed (if root2 \<ge> 0 then s2\<lparr>swhere := (swhere s2)\<lparr>croot := root2, present := True\<rparr>\<rparr> else s2)"
                "stables (if root2 \<ge> 0 then s2\<lparr>swhere := (swhere s2)\<lparr>croot := root2, present := True\<rparr>\<rparr> else s2) \<noteq> []"
                using p w by (simp_all add: from_result_def)
            qed (use f w in \<open>auto simp: from_result_def\<close>)
          qed
        qed
      qed simp
    qed
  qed
qed

end

text \<open>An inner statement is shorter than the one around it, so its parser returns with less fuel.\<close>

lemma select_within_inner: "inner_parser k (select_within k)"
proof (induction k)
  case 0
  then show ?case by (simp add: inner_parser_def)
next
  case (Suc k)
  show ?case
    unfolding inner_parser_def
  proof (intro allI impI)
    fix toks :: "token list" and subs :: subqueries
    assume l: "length toks < Suc k" and s: "subs_ok subs"
    have "inner_parser (length toks) (select_within k)"
      using Suc.IH l unfolding inner_parser_def by simp
    then have "subquery_parser toks (select_within k)" by (rule subquery_parser.intro)
    from subquery_parser.select_body_returns [OF this s]
    show "returns (\<lambda>(s, subs'). select_ok (length subs') s \<and> subs_ok subs' \<and> length subs \<le> length subs')
       (select_within (Suc k) toks subs)"
      by (auto elim!: returns_weaken)
  qed
qed

lemma parseSelect_inner: "inner_parser b parseSelect"
  unfolding inner_parser_def
proof (intro allI impI)
  fix toks :: "token list" and subs :: subqueries
  assume "subs_ok subs"
  then show "returns (\<lambda>(s, subs'). select_ok (length subs') s \<and> subs_ok subs' \<and> length subs \<le> length subs') (parseSelect toks subs)"
    unfolding parseSelect_def fuel_def by (intro inner_parserD [OF select_within_inner]) simp_all
qed

lemma parseSelect_returns:
  assumes "subs_ok subs"
  shows "returns (\<lambda>(s, subs'). (select_ok (length subs') s \<and> listed s \<and> stables s \<noteq> []) \<and> subs_ok subs' \<and> length subs \<le> length subs')
    (parseSelect toks subs)"
proof -
  have "inner_parser (length toks) (select_within (length toks))" by (rule select_within_inner)
  then have "subquery_parser toks (select_within (length toks))" by (rule subquery_parser.intro)
  from subquery_parser.select_body_returns [OF this assms]
  show ?thesis by (simp add: parseSelect_def fuel_def)
qed

interpretation parser: subquery_parser toks parseSelect for toks
  by unfold_locales (rule parseSelect_inner)

subsection \<open>The other statements\<close>

definition condition_done :: "nat \<Rightarrow> condition \<Rightarrow> bool" where
  "condition_done m c \<longleftrightarrow> cond_ok {} m c \<and> (present c \<longrightarrow> cnode_in c (croot c))"

definition select_done :: "nat \<Rightarrow> selectstatement \<Rightarrow> bool" where
  "select_done m s \<longleftrightarrow> select_ok m s \<and> listed s \<and> stables s \<noteq> []"

definition create_done :: "nat \<Rightarrow> createstatement \<Rightarrow> bool" where
  "create_done m s \<longleftrightarrow> crcols s \<noteq> [] \<and> length (crcols s) \<le> MAX_COLS \<and> condition_done m (crcheck s)"

definition insert_done :: "insertstatement \<Rightarrow> bool" where
  "insert_done s \<longleftrightarrow> invalues s \<noteq> [] \<and> length (invalues s) \<le> MAX_COLS \<and> length (incolumns s) \<le> MAX_COLS"

definition update_done :: "nat \<Rightarrow> updatestatement \<Rightarrow> bool" where
  "update_done m s \<longleftrightarrow> upsets s \<noteq> [] \<and> length (upsets s) \<le> MAX_COLS \<and> pool_ok (upexprs s) \<and>
     list_all (\<lambda>a. in_pool (upexprs s) (asexpr a)) (upsets s) \<and> condition_done m (upwhere s)"

text \<open>A statement the later stages can walk; \<open>m\<close> subqueries exist.\<close>

fun statement_done :: "nat \<Rightarrow> statement \<Rightarrow> bool" where
  "statement_done m (STMT_SELECT s) \<longleftrightarrow> select_done m s"
| "statement_done m (STMT_CREATE_TABLE s) \<longleftrightarrow> create_done m s"
| "statement_done m (STMT_INSERT s) \<longleftrightarrow> insert_done s"
| "statement_done m (STMT_DELETE s) \<longleftrightarrow> condition_done m (dewhere s)"
| "statement_done m (STMT_UPDATE s) \<longleftrightarrow> update_done m s"
| "statement_done m _ \<longleftrightarrow> True"

lemma parseColumnType_returns:
  "i \<le> length toks \<Longrightarrow> returns (\<lambda>(j, c). i < j \<and> j \<le> length toks) (parseColumnType toks i col)"
  unfolding parseColumnType_def Let_def
  by (intro ret need_inside; use typeAt_is [of toks i] in auto)

lemma constraints_returns:
  "\<lbrakk>i \<le> length toks; length toks - i < k; cond_ok {} (length subs) check; subs_ok subs; root_ok check root\<rbrakk> \<Longrightarrow>
   returns (\<lambda>(j, c, check', root', subs'). (typeAt toks i = TOKEN_KEYWORD_CHECK \<longrightarrow> i < j) \<and> i \<le> j \<and> j \<le> length toks \<and> cond_ok {} (length subs') check' \<and> grows check check' \<and>
       root_ok check' root' \<and> subs_ok subs' \<and> length subs \<le> length subs')
     (parseColumnConstraints k parseSelect toks i c check root subs)"
proof (induction k arbitrary: i c check root subs)
  case (Suc k)
  let ?P = "\<lambda>(j, c, check', root', subs'). (typeAt toks i = TOKEN_KEYWORD_CHECK \<longrightarrow> i < j) \<and> i \<le> j \<and> j \<le> length toks \<and> cond_ok {} (length subs') check' \<and> grows check check' \<and>
       root_ok check' root' \<and> subs_ok subs' \<and> length subs \<le> length subs'"
  have again: "returns ?P (parseColumnConstraints k parseSelect toks j c' check' root' subs')"
    if "i < j" "j \<le> length toks" "cond_ok {} (length subs') check'" "grows check check'" "root_ok check' root'" "subs_ok subs'"
      "length subs \<le> length subs'" for j c' check' root' subs'
  proof -
    have "returns (\<lambda>(l, c, check'', root', subs''). (typeAt toks j = TOKEN_KEYWORD_CHECK \<longrightarrow> j < l) \<and> j \<le> l \<and> l \<le> length toks \<and> cond_ok {} (length subs'') check'' \<and> grows check' check'' \<and>
       root_ok check'' root' \<and> subs_ok subs'' \<and> length subs' \<le> length subs'')
     (parseColumnConstraints k parseSelect toks j c' check' root' subs')"
      by (rule Suc.IH) (use that Suc.prems(2) in auto)
    then show ?thesis by (rule returns_weaken) (use that cond_grows_trans [OF that(4)] in auto)
  qed
  show ?case
    unfolding parseColumnConstraints.simps Let_def
    by (intro returns_if need_inside after_value parser.after_addCondition again)
       (use Suc.prems typeAt_is [of toks i] root_ok_in in auto)
qed simp

lemma after_constraints:
  assumes "i \<le> length toks" "cond_ok {} (length subs) check" "subs_ok subs" "root_ok check root"
    and "\<And>j c' check' root' subs'. \<lbrakk>typeAt toks i = TOKEN_KEYWORD_CHECK \<longrightarrow> i < j; i \<le> j; j \<le> length toks; cond_ok {} (length subs') check'; grows check check'; root_ok check' root';
       subs_ok subs'; length subs \<le> length subs'\<rbrakk> \<Longrightarrow> returns P (k j c' check' root' subs')"
  shows "returns P (after (parseColumnConstraints (fuel toks) parseSelect toks i c check root subs)
     (\<lambda>(j, c, check, root, subs). k j c check root subs))"
  by (rule after_quint [OF constraints_returns [OF assms(1) fuel_enough assms(2,3,4)]]) (use assms(5) in auto)

definition create_state :: "createstatement \<times> int \<times> subqueries \<Rightarrow> bool" where
  "create_state = (\<lambda>(s, root, subs). length (crcols s) \<le> MAX_COLS \<and> cond_ok {} (length subs) (crcheck s) \<and>
     root_ok (crcheck s) root \<and> subs_ok subs \<and> \<not> present (crcheck s))"

lemma table_entry_returns:
  assumes "i \<le> length toks" "create_state st"
  shows "returns (\<lambda>(j, st'). i < j \<and> j \<le> length toks \<and> create_state st') (table_entry parseSelect toks i st)"
proof -
  obtain s root subs where st: "st = (s, root, subs)" by (cases st)
  have c: "cond_ok {} (length subs) (crcheck s)" "subs_ok subs" "root_ok (crcheck s) root" "length (crcols s) \<le> MAX_COLS" "\<not> present (crcheck s)"
    using assms(2) by (simp_all add: st create_state_def)
  let ?P = "\<lambda>(j, st'). i < j \<and> j \<le> length toks \<and> create_state st'"
  show ?thesis
    unfolding st table_entry_def prod.case
  proof (intro returns_if need_inside)
    assume k: "typeAt toks i = TOKEN_KEYWORD_CHECK"
    show "returns ?P (after (parseColumnConstraints (fuel toks) parseSelect toks i blank_column (crcheck s) root subs)
       (\<lambda>(i, _, check, root, subs). got (i, s\<lparr>crcheck := check\<rparr>, root, subs)))"
      by (rule after_constraints) (use assms(1) c k in \<open>auto simp: create_state_def grows_def\<close>)
  next
    assume i: "i < length toks" and room: "length (crcols s) \<noteq> MAX_COLS"
    have "i + 1 \<le> length toks" using i by simp
    from parseColumnType_returns [OF this, of "blank_column\<lparr>cname := name_of (textAt toks i)\<rparr>"]
    show "returns ?P (after (parseColumnType toks (i + 1) (blank_column\<lparr>cname := name_of (textAt toks i)\<rparr>)) (\<lambda>(i, c).
             after (parseColumnConstraints (fuel toks) parseSelect toks i c (crcheck s) root subs) (\<lambda>(i, c, check, root, subs).
             got (i, s\<lparr>crcols := crcols s @ [c], crcheck := check\<rparr>, root, subs))))"
    proof (rule after_pair)
      fix j and col :: column assume j: "case (j, col) of (j, c) \<Rightarrow> i + 1 < j \<and> j \<le> length toks"
      show "returns ?P (after (parseColumnConstraints (fuel toks) parseSelect toks j col (crcheck s) root subs) (\<lambda>(i, c, check, root, subs).
             got (i, s\<lparr>crcols := crcols s @ [c], crcheck := check\<rparr>, root, subs)))"
        by (rule after_constraints) (use j c room in \<open>auto simp: create_state_def grows_def\<close>)
    qed
  qed simp_all
qed

lemma parseCreateTable_returns:
  assumes "subs_ok subs"
  shows "returns (\<lambda>(s, subs'). create_done (length subs') s \<and> subs_ok subs') (parseCreateTable parseSelect toks subs)"
  unfolding parseCreateTable_def Let_def
proof (intro need_inside after_identifier)
  fix name assume i: "2 + 1 < length toks"
  let ?s = "(\<lparr>crtable = name, crcols = [], crcheck = blank_condition\<rparr>, -1 :: int, subs)"
  let ?P = "\<lambda>(s, subs'). create_done (length subs') s \<and> subs_ok subs'"
  have st: "create_state ?s" using assms by (simp add: create_state_def root_ok_def) (simp add: blank_condition_def)
  show "returns ?P (after (comma_list (fuel toks) toks (table_entry parseSelect toks) (2 + 1 + 1) ?s) (\<lambda>(i, s, root, subs).
     if crcols s = [] then refuse ERROR_SYNTAX_EXPECTED_COLUMN
     else need toks i TOKEN_RPAREN ERROR_SYNTAX_EXPECTED_PARENTHESES
       (after (endOfStatement toks (i + 1)) (\<lambda>_.
          got (if 0 \<le> root then s\<lparr>crcheck := (crcheck s)\<lparr>croot := root, present := True\<rparr>\<rparr> else s, subs)))))"
  proof (rule after_comma_list [where I = create_state and J = create_state, OF table_entry_returns _ _ st])
    fix j st' assume j: "j \<le> length toks" "create_state st'"
    obtain s root subs' where e: "st' = (s, root, subs')" by (cases st')
    show "returns ?P (case st' of (s, root, subs) \<Rightarrow>
       if crcols s = [] then refuse ERROR_SYNTAX_EXPECTED_COLUMN
       else need toks j TOKEN_RPAREN ERROR_SYNTAX_EXPECTED_PARENTHESES
         (after (endOfStatement toks (j + 1)) (\<lambda>_.
            got (if 0 \<le> root then s\<lparr>crcheck := (crcheck s)\<lparr>croot := root, present := True\<rparr>\<rparr> else s, subs))))"
      unfolding e prod.case
      by (intro returns_if need_inside after_end)
         (use j e in \<open>auto simp: create_state_def create_done_def condition_done_def root_ok_def\<close>)
  qed (use i in simp_all)
qed simp_all

lemma optional_where_returns:
  assumes "i \<le> length toks" "subs_ok subs"
  shows "returns (\<lambda>(c, j, subs'). i \<le> j \<and> j \<le> length toks \<and> condition_done (length subs') c \<and> subs_ok subs')
    (optional_where parseSelect toks i subs)"
  unfolding optional_where_def parseWhere_def
proof (rule returns_if)
  assume "typeAt toks i = TOKEN_KEYWORD_WHERE"
  then have "i < length toks" using typeAt_is by blast
  from parser.whole_condition_returns [OF this assms(2)]
  show "returns (\<lambda>(c, j, subs'). i \<le> j \<and> j \<le> length toks \<and> condition_done (length subs') c \<and> subs_ok subs')
      (whole_condition parseSelect toks False i subs)"
    by (rule returns_weaken) (auto simp: condition_done_def)
next
  have "\<not> present blank_condition" by (simp add: blank_condition_def)
  then show "returns (\<lambda>(c, j, subs'). i \<le> j \<and> j \<le> length toks \<and> condition_done (length subs') c \<and> subs_ok subs')
      (got (blank_condition, i, subs))"
    using assms by (simp add: condition_done_def)
qed

lemma parseDelete_returns:
  assumes "subs_ok subs"
  shows "returns (\<lambda>(s, subs'). condition_done (length subs') (dewhere s) \<and> subs_ok subs') (parseDelete parseSelect toks subs)"
  unfolding parseDelete_def
  by (intro need_inside after_identifier after_triple [OF optional_where_returns] after_end) (use assms in auto)

lemma insert_columns_returns:
  assumes "i \<le> length toks" "length (incolumns s) \<le> MAX_COLS" "invalues s = []"
  shows "returns (\<lambda>(j, s'). i \<le> j \<and> j \<le> length toks \<and> length (incolumns s') \<le> MAX_COLS \<and> invalues s' = []) (insert_columns toks i s)"
  unfolding insert_columns_def
proof (rule returns_if)
  assume "typeAt toks i = TOKEN_LPAREN"
  then have i: "i < length toks" using typeAt_is by blast
  let ?I = "\<lambda>s. length (incolumns s) \<le> MAX_COLS \<and> invalues s = []"
  have one: "returns (\<lambda>(j, s'). l < j \<and> j \<le> length toks \<and> ?I s') (insert_column toks l s1)" if "l \<le> length toks" "?I s1" for l s1
    unfolding insert_column_def by (intro need_inside returns_if) (use that in auto)
  show "returns (\<lambda>(j, s'). i \<le> j \<and> j \<le> length toks \<and> length (incolumns s') \<le> MAX_COLS \<and> invalues s' = [])
     (after (comma_list (fuel toks) toks (insert_column toks) (i + 1) s) (\<lambda>(i, s).
        need toks i TOKEN_RPAREN ERROR_SYNTAX_EXPECTED_PARENTHESES (got (i + 1, s))))"
    by (rule after_comma_list [where I = ?I and J = ?I, OF one]) (use i assms in \<open>auto intro!: need_inside\<close>)
qed (use assms in simp)

lemma parseInsert_returns: "returns insert_done (parseInsert toks)"
  unfolding parseInsert_def
proof (intro need_inside after_identifier)
  fix name assume i: "2 < length toks"
  have "2 + 1 \<le> length toks" using i by simp
  from insert_columns_returns [OF this, of "\<lparr>intable = name, incolumns = [], invalues = []\<rparr>"]
  have cols: "returns (\<lambda>(j, s'). 2 + 1 \<le> j \<and> j \<le> length toks \<and> length (incolumns s') \<le> MAX_COLS \<and> invalues s' = [])
     (insert_columns toks (2 + 1) \<lparr>intable = name, incolumns = [], invalues = []\<rparr>)" by simp
  let ?I = "\<lambda>s. length (incolumns s) \<le> MAX_COLS \<and> length (invalues s) \<le> MAX_COLS"
  let ?J = "\<lambda>s. ?I s \<and> invalues s \<noteq> []"
  have one: "returns (\<lambda>(j, s'). l < j \<and> j \<le> length toks \<and> ?J s') (insert_value toks l s1)" if "l \<le> length toks" "?I s1" for l s1
    unfolding insert_value_def by (intro returns_if after_value) (use that in auto)
  have list: "returns insert_done (after (comma_list (fuel toks) toks (insert_value toks) (j + 2) s) (\<lambda>(i, s).
      need toks i TOKEN_RPAREN ERROR_SYNTAX_EXPECTED_PARENTHESES (after (endOfStatement toks (i + 1)) (\<lambda>_. got s))))"
    if "j + 2 \<le> length toks" "length (incolumns s) \<le> MAX_COLS" "invalues s = []" for j s
    by (rule after_comma_list [where I = ?I and J = ?J, OF one])
       (use that in \<open>auto simp: insert_done_def intro!: need_inside after_end\<close>)
  show "returns insert_done (after (insert_columns toks (2 + 1) \<lparr>intable = name, incolumns = [], invalues = []\<rparr>) (\<lambda>(i, s).
        need toks i TOKEN_KEYWORD_VALUES ERROR_SYNTAX_EXPECTED_VALUES
          (need toks (i + 1) TOKEN_LPAREN ERROR_SYNTAX_EXPECTED_PARENTHESES
            (after (comma_list (fuel toks) toks (insert_value toks) (i + 2) s) (\<lambda>(i, s).
             need toks i TOKEN_RPAREN ERROR_SYNTAX_EXPECTED_PARENTHESES
               (after (endOfStatement toks (i + 1)) (\<lambda>_. got s)))))))"
    using cols by (rule after_pair) (intro need_inside list; simp)
qed simp_all

lemma update_set_returns:
  assumes "i \<le> length toks" "pool_ok (upexprs s)" "length (upsets s) \<le> MAX_COLS" "list_all (\<lambda>a. in_pool (upexprs s) (asexpr a)) (upsets s)"
  shows "returns (\<lambda>(j, s'). i < j \<and> j \<le> length toks \<and> pool_ok (upexprs s') \<and> length (upsets s') \<le> MAX_COLS \<and>
     list_all (\<lambda>a. in_pool (upexprs s') (asexpr a)) (upsets s') \<and> upsets s' \<noteq> []) (update_set toks i s)"
  unfolding update_set_def
  by (intro need_inside returns_if after_expression)
     (use assms in \<open>auto simp: list_all_iff intro: in_pool_prefix\<close>)

lemma parseUpdate_returns:
  assumes "subs_ok subs"
  shows "returns (\<lambda>(s, subs'). update_done (length subs') s \<and> subs_ok subs') (parseUpdate parseSelect toks subs)"
  unfolding parseUpdate_def
proof (intro need_inside after_identifier)
  fix name assume i: "1 + 1 < length toks"
  let ?I = "\<lambda>s. pool_ok (upexprs s) \<and> length (upsets s) \<le> MAX_COLS \<and> list_all (\<lambda>a. in_pool (upexprs s) (asexpr a)) (upsets s)"
  let ?J = "\<lambda>s. ?I s \<and> upsets s \<noteq> []"
  have one: "returns (\<lambda>(j, s'). l < j \<and> j \<le> length toks \<and> ?J s') (update_set toks l s1)" if "l \<le> length toks" "?I s1" for l s1
    using update_set_returns [of l toks s1] that by (auto elim!: returns_weaken)
  have rest: "returns (\<lambda>(s, subs'). update_done (length subs') s \<and> subs_ok subs')
     (after (optional_where parseSelect toks j subs) (\<lambda>(c, i, subs). after (endOfStatement toks i) (\<lambda>_. got (s\<lparr>upwhere := c\<rparr>, subs))))"
    if "j \<le> length toks" "?J s" for j s
    by (rule after_triple [OF optional_where_returns [OF that(1) assms]])
       (use that in \<open>auto simp: update_done_def intro!: after_end\<close>)
  show "returns (\<lambda>(s, subs'). update_done (length subs') s \<and> subs_ok subs')
     (after (comma_list (fuel toks) toks (update_set toks) (1 + 1 + 1)
               \<lparr>uptable = name, upsets = [], upexprs = exprInit, upwhere = blank_condition\<rparr>) (\<lambda>(i, s).
      after (optional_where parseSelect toks i subs) (\<lambda>(c, i, subs). after (endOfStatement toks i) (\<lambda>_. got (s\<lparr>upwhere := c\<rparr>, subs)))))"
    by (rule after_comma_list [where I = ?I and J = ?J, OF one]) (use i rest in auto)
qed simp_all

lemma alter_add_returns:
  assumes "i \<le> length toks" "subs_ok subs"
  shows "returns (\<lambda>(j, s', subs'). j \<le> length toks \<and> subs_ok subs') (alter_add parseSelect toks i s subs)"
  unfolding alter_add_def
  by (intro after_identifier after_pair [OF parseColumnType_returns] after_constraints returns_if)
     (use assms in \<open>auto simp: root_ok_def\<close>)

lemma parseAlter_returns:
  assumes "subs_ok subs"
  shows "returns (\<lambda>(s, subs'). subs_ok subs') (parseAlter parseSelect toks subs)"
  unfolding parseAlter_def Let_def
proof (intro need_inside after_identifier)
  fix name assume i: "2 < length toks"
  let ?s = "\<lparr>altable = name, alaction = ALTER_ADD_COLUMN, alcolumn = blank_column, alname = [], alnewName = []\<rparr>"
  have drop_c: "returns (\<lambda>(j, s', subs'). j \<le> length toks \<and> subs_ok subs')
     (after (alter_drop toks (2 + 1 + 1) ?s) (\<lambda>(i, s). got (i, s, subs)))"
    unfolding alter_drop_def by (rule after_pair [where Q = "\<lambda>(j, s). j \<le> length toks"]; (intro after_identifier)?) (use assms in auto)
  have rename: "returns (\<lambda>(j, s', subs'). j \<le> length toks \<and> subs_ok subs')
     (after (alter_rename toks (2 + 1 + 1) ?s) (\<lambda>(i, s). got (i, s, subs)))"
    unfolding alter_rename_def
    by (rule after_pair [where Q = "\<lambda>(j, s). j \<le> length toks"]; (intro returns_if need_inside after_identifier)?) (use assms in auto)
  have add: "returns (\<lambda>(j, s', subs'). j \<le> length toks \<and> subs_ok subs') (alter_add parseSelect toks (2 + 1 + 1) ?s subs)"
    if "typeAt toks (2 + 1) = TOKEN_KEYWORD_ADD"
    by (rule alter_add_returns) (use typeAt_is [OF that] assms in simp_all)
  show "returns (\<lambda>(s, subs'). subs_ok subs')
     (after (if typeAt toks (2 + 1) = TOKEN_KEYWORD_ADD then alter_add parseSelect toks (2 + 1 + 1) ?s subs
             else if typeAt toks (2 + 1) = TOKEN_KEYWORD_DROP then after (alter_drop toks (2 + 1 + 1) ?s) (\<lambda>(i, s). got (i, s, subs))
             else if typeAt toks (2 + 1) = TOKEN_KEYWORD_RENAME then after (alter_rename toks (2 + 1 + 1) ?s) (\<lambda>(i, s). got (i, s, subs))
             else refuse ERROR_SYNTAX_INVALID_STATEMENT)
       (\<lambda>(i, s, subs). after (endOfStatement toks i) (\<lambda>_. got (s, subs))))"
    by (rule after_triple [where Q = "\<lambda>(j, s', subs'). j \<le> length toks \<and> subs_ok subs'"]; (intro returns_if add drop_c rename after_end)?) auto
qed simp_all

subsection \<open>The parser as a whole\<close>

definition parsed_ok :: "token list \<Rightarrow> statement option \<times> subqueries \<Rightarrow> bool" where
  "parsed_ok toks = (\<lambda>(st, subs). subs_ok subs \<and>
     (case st of None \<Rightarrow> toks = [] | Some s \<Rightarrow> statement_done (length subs) s))"

lemma name_statement_returns: "returns (\<lambda>_. True) (name_statement toks i)"
  unfolding name_statement_def by (intro after_identifier after_end) simp

lemma named_returns:
  "returns (\<lambda>_. True) (parseUse toks)" "returns (\<lambda>_. True) (parseCreateDatabase toks)" "returns (\<lambda>_. True) (parseVacuum toks)"
  by (simp_all add: parseUse_def parseCreateDatabase_def parseVacuum_def name_statement_returns)

lemma parseCreateIndex_returns: "returns (\<lambda>_. True) (parseCreateIndex toks)"
  unfolding parseCreateIndex_def by (intro need_inside after_identifier after_end) simp_all

lemma parseDrop_returns: "returns (\<lambda>s. statement_done m s) (parseDrop toks)"
  unfolding parseDrop_def by (intro returns_if returns_after [OF name_statement_returns]) simp_all

lemma with_subqueries_returns:
  "returns P m \<Longrightarrow> returns (\<lambda>(x, subs'). P x \<and> subs' = subs) (with_subqueries subs m)"
  unfolding with_subqueries_def by (erule returns_after) simp

lemma parseStatement_returns: "returns (parsed_ok toks) (parseStatement toks resetSubqueries)"
proof (cases "toks = []")
  case True
  then show ?thesis by (simp add: parseStatement_def resetSubqueries_def parsed_ok_def)
next
  case False
  have nil: "subs_ok resetSubqueries" by (simp add: resetSubqueries_def)
  let ?P = "\<lambda>(s, subs). statement_done (length subs) s \<and> subs_ok subs"
  have plain: "returns ?P (with_subqueries resetSubqueries m)" if "returns (\<lambda>s. statement_done (length resetSubqueries) s) m" for m
    using with_subqueries_returns [OF that] by (rule returns_weaken) (use nil in auto)
  have one: "returns (\<lambda>s. statement_done k s) (bare_statement toks s)" if "statement_done k s" for k s
    unfolding bare_statement_def by (rule after_end) (use that in simp)
  have body: "returns ?P m \<Longrightarrow> returns (parsed_ok toks) (after m (\<lambda>(s, subs). got (Some s, subs)))" for m
    by (erule after_pair) (simp add: parsed_ok_def)
  have parts: "returns ?P (after (parseSelect toks resetSubqueries) (\<lambda>(s, subs). got (STMT_SELECT s, subs)))"
    "returns ?P (after (parseCreateTable parseSelect toks resetSubqueries) (\<lambda>(s, subs). got (STMT_CREATE_TABLE s, subs)))"
    "returns ?P (after (parseDelete parseSelect toks resetSubqueries) (\<lambda>(s, subs). got (STMT_DELETE s, subs)))"
    "returns ?P (after (parseUpdate parseSelect toks resetSubqueries) (\<lambda>(s, subs). got (STMT_UPDATE s, subs)))"
    "returns ?P (after (parseAlter parseSelect toks resetSubqueries) (\<lambda>(s, subs). got (STMT_ALTER_TABLE s, subs)))"
    by (rule after_pair [OF parseSelect_returns [OF nil]], simp add: select_done_def)
       (rule after_pair [OF parseCreateTable_returns [OF nil]], simp,
        rule after_pair [OF parseDelete_returns [OF nil]], simp,
        rule after_pair [OF parseUpdate_returns [OF nil]], simp,
        rule after_pair [OF parseAlter_returns [OF nil]], simp)
  show ?thesis
    unfolding parseStatement_def if_not_P [OF False] Let_def
    by (intro body returns_if parts plain parseDrop_returns one
          named_returns [THEN returns_after]
          returns_after [OF parseCreateIndex_returns] returns_after [OF parseInsert_returns]; simp)
qed

text \<open>
  C22: the parser is total and its statements are well formed. On every token list \<open>parseStatement\<close>
  comes back with a statement or an error code, nested conditions, expressions and subqueries
  included. A statement it hands on has its trees in bounded pools whose edges lead to earlier
  nodes, predicates with the operands their operator needs, subqueries that exist, and lists within
  their arrays; no statement at all comes of no token only.
\<close>
theorem parser_total:
  "\<exists>r. parseStatement toks resetSubqueries = Some r \<and> (case r of Inl e \<Rightarrow> True | Inr x \<Rightarrow> parsed_ok toks x)"
  using parseStatement_returns [of toks] by (auto simp: returns_def split: option.splits sum.splits)

end
