(* ===== verification/Printing.thy ===== *)
theory Printing
  imports Grammar
begin

text \<open>
  Expressions as a client writes them, with parentheses only where the grammar needs them, and the
  parser reading them back: multiplication binds tighter than addition, both associate to the left,
  and a minus binds to its factor.
\<close>

subsection \<open>Printed expressions\<close>

datatype expr = Column string | Literal token "Value" | Minus expr | Op arithop expr expr

definition op_token :: "arithop \<Rightarrow> token" where
  "op_token op = (case op of
     ARITH_ADD \<Rightarrow> \<lparr>tokType = TOKEN_PLUS, tokValue = ''+''\<rparr> | ARITH_SUB \<Rightarrow> \<lparr>tokType = TOKEN_MINUS, tokValue = ''-''\<rparr>
   | ARITH_MUL \<Rightarrow> \<lparr>tokType = TOKEN_STAR, tokValue = ''*''\<rparr> | ARITH_DIV \<Rightarrow> \<lparr>tokType = TOKEN_SLASH, tokValue = ''/''\<rparr>
   | ARITH_MOD \<Rightarrow> \<lparr>tokType = TOKEN_PERCENT, tokValue = [CHR 0x25]\<rparr>)"

definition LP :: token where "LP = \<lparr>tokType = TOKEN_LPAREN, tokValue = ''(''\<rparr>"
definition RP :: token where "RP = \<lparr>tokType = TOKEN_RPAREN, tokValue = '')''\<rparr>"

text \<open>The level of an operator: sums are 0, products 1; factors are level 2.\<close>

definition own :: "arithop \<Rightarrow> nat" where
  "own op = (if op \<in> {ARITH_ADD, ARITH_SUB} then 0 else 1)"

fun shown :: "nat \<Rightarrow> expr \<Rightarrow> token list" where
  "shown l (Column c) = [\<lparr>tokType = TOKEN_IDENTIFIER, tokValue = c\<rparr>]"
| "shown l (Literal t v) = [t]"
| "shown l (Minus e) = op_token ARITH_SUB # shown 2 e"
| "shown l (Op op a b) =
     (let body = shown (own op) a @ op_token op # shown (own op + 1) b
      in if l \<le> own op then body else LP # body @ [RP])"

fun nodes_of :: "expr \<Rightarrow> nat" where
  "nodes_of (Column c) = 1"
| "nodes_of (Literal t v) = 1"
| "nodes_of (Minus e) = nodes_of e + 1"
| "nodes_of (Op op a b) = nodes_of a + nodes_of b + 1"

text \<open>A literal's token is one the literal reader takes for that value.\<close>

fun readable :: "expr \<Rightarrow> bool" where
  "readable (Column c) \<longleftrightarrow> True"
| "readable (Literal t v) \<longleftrightarrow> tokType t \<in> {TOKEN_NUMBER, TOKEN_STRING, TOKEN_KEYWORD_NULL} \<and> parseValue [t] 0 = got (v, 1)"
| "readable (Minus e) \<longleftrightarrow> readable e"
| "readable (Op op a b) \<longleftrightarrow> readable a \<and> readable b"

fun tree_of :: "expr \<Rightarrow> etree" where
  "tree_of (Column c) = Leaf ((blank_node EXPR_COLUMN)\<lparr>ecolumn := name_of c\<rparr>)"
| "tree_of (Literal t v) = Leaf ((blank_node EXPR_LITERAL)\<lparr>eliteral := v\<rparr>)"
| "tree_of (Minus e) = Neg (tree_of e)"
| "tree_of (Op op a b) = Bin op (tree_of a) (tree_of b)"

lemma shown_nonempty: "0 < length (shown l e)"
  by (cases e) (auto simp: Let_def)

subsection \<open>Tokens at an index\<close>

definition at_index :: "token list \<Rightarrow> nat \<Rightarrow> token list \<Rightarrow> bool" where
  "at_index toks i ts \<longleftrightarrow> (\<exists>pre post. toks = pre @ ts @ post \<and> length pre = i)"

lemma at_index_append [simp]: "at_index toks i (a @ b) \<longleftrightarrow> at_index toks i a \<and> at_index toks (i + length a) b"
proof
  assume "at_index toks i (a @ b)"
  then obtain pre post where p: "toks = pre @ a @ b @ post" "length pre = i" by (auto simp: at_index_def)
  then have "toks = (pre @ a) @ b @ post" "length (pre @ a) = i + length a" by simp_all
  then have "at_index toks (i + length a) b" unfolding at_index_def by blast
  moreover have "at_index toks i a" using p unfolding at_index_def by blast
  ultimately show "at_index toks i a \<and> at_index toks (i + length a) b" by simp
next
  assume a: "at_index toks i a \<and> at_index toks (i + length a) b"
  then obtain pre post pre2 post2 where p: "toks = pre @ a @ post" "length pre = i" "toks = pre2 @ b @ post2" "length pre2 = i + length a"
    unfolding at_index_def by blast
  have "pre2 = take (i + length a) toks" using p(3,4) by simp
  then have "pre2 = pre @ a" using p(1,2) by simp
  then show "at_index toks i (a @ b)" using p by (auto simp: at_index_def)
qed

lemma at_index_Nil [simp]: "at_index toks i [] \<longleftrightarrow> i \<le> length toks"
proof
  assume "i \<le> length toks"
  then have "toks = take i toks @ [] @ drop i toks" "length (take i toks) = i" by simp_all
  then show "at_index toks i []" unfolding at_index_def by blast
qed (auto simp: at_index_def)

lemma at_index_Cons: "at_index toks i (t # ts) \<longleftrightarrow> i < length toks \<and> toks ! i = t \<and> at_index toks (i + 1) ts"
proof -
  have one: "at_index toks i [t] \<longleftrightarrow> i < length toks \<and> toks ! i = t"
  proof
    assume "i < length toks \<and> toks ! i = t"
    then have "toks = take i toks @ [t] @ drop (Suc i) toks" "length (take i toks) = i"
      using id_take_nth_drop [of i toks] by auto
    then show "at_index toks i [t]" unfolding at_index_def by blast
  qed (auto simp: at_index_def nth_append)
  show ?thesis using at_index_append [of toks i "[t]" ts] one by simp
qed

lemma at_index_length: "at_index toks i ts \<Longrightarrow> i + length ts \<le> length toks"
  by (auto simp: at_index_def)

lemma at_index_type: "at_index toks i (t # ts) \<Longrightarrow> typeAt toks i = tokType t"
  by (simp add: at_index_Cons typeAt_def)

lemma is_tree_prefix: "is_tree pool n t \<Longrightarrow> prefix pool pool' \<Longrightarrow> is_tree pool' n t"
  by (induction t arbitrary: n) (simp_all add: node_at_prefix in_pool_prefix)

subsection \<open>Reading them back\<close>

definition stops :: "nat \<Rightarrow> tokentype \<Rightarrow> bool" where
  "stops l type \<longleftrightarrow> (l \<le> 1 \<longrightarrow> term_op type = None) \<and> (l = 0 \<longrightarrow> sum_op type = None)"

definition level_ops :: "nat \<Rightarrow> tokentype \<Rightarrow> arithop option" where
  "level_ops l = (if l = 0 then sum_op else term_op)"

lemma level_ops_token: "own op = l \<Longrightarrow> level_ops l (tokType (op_token op)) = Some op"
  by (cases op) (auto simp: own_def level_ops_def op_token_def sum_op_def term_op_def)

lemma stops_token: "own op = l \<Longrightarrow> stops (Suc l) (tokType (op_token op))"
  by (cases op) (auto simp: own_def stops_def op_token_def sum_op_def term_op_def)

lemma stops_RP: "stops l (tokType RP)" by (simp add: stops_def RP_def sum_op_def term_op_def)

definition read_as :: "exprpool \<Rightarrow> expr \<Rightarrow> int \<Rightarrow> exprpool \<Rightarrow> bool" where
  "read_as pool e n pool' \<longleftrightarrow> length pool' = length pool + nodes_of e \<and> prefix pool pool' \<and> is_tree pool' n (tree_of e)"

text \<open>A parser that reads printed expressions of a level, up to a length.\<close>

definition reads_level :: "token list \<Rightarrow> nat \<Rightarrow> nat \<Rightarrow> expr_parser \<Rightarrow> bool" where
  "reads_level toks l k f \<longleftrightarrow> (\<forall>e i pool. length (shown l e) \<le> k \<longrightarrow> at_index toks i (shown l e) \<longrightarrow> readable e \<longrightarrow>
     length pool + nodes_of e \<le> MAX_EXPR_NODES \<longrightarrow> stops l (typeAt toks (i + length (shown l e))) \<longrightarrow>
     (\<exists>n pool'. f i pool = got (n, i + length (shown l e), pool') \<and> read_as pool e n pool'))"

lemma reads_levelD:
  assumes "reads_level toks l k f" "length (shown l e) \<le> k" "at_index toks i (shown l e)" "readable e"
    "length pool + nodes_of e \<le> MAX_EXPR_NODES" "stops l (typeAt toks (i + length (shown l e)))"
  obtains n pool' where "f i pool = got (n, i + length (shown l e), pool')" "read_as pool e n pool'"
  using assms unfolding reads_level_def by blast

text \<open>How many operators of a level the printed text has at its top.\<close>

fun chain :: "nat \<Rightarrow> expr \<Rightarrow> nat" where
  "chain l (Op op a b) = (if own op = l then Suc (chain l a) else 0)"
| "chain l e = 0"

lemma chain_length: "chain l e < length (shown l e)"
  using shown_nonempty by (induction l e rule: chain.induct) (auto simp: Let_def)

lemma shown_up:
  assumes "l \<le> 1" "chain l e = 0"
  shows "shown l e = shown (Suc l) e"
  using assms by (cases e) (auto simp: Let_def own_def split: if_splits)

lemma read_binary:
  assumes "read_as pool a n pool1" "read_as pool1 b m pool2" "length pool2 \<noteq> MAX_EXPR_NODES"
  shows "\<exists>parent pool3. new_expr pool2 EXPR_BINARY (\<lambda>nd. nd\<lparr>eop := op, eleft := n, eright := m\<rparr>) = got (parent, pool3) \<and>
    read_as pool (Op op a b) parent pool3"
proof -
  let ?nd = "(blank_node EXPR_BINARY)\<lparr>eop := op, eleft := n, eright := m\<rparr>"
  have pre: "prefix pool2 (pool2 @ [?nd])" by simp
  have p: "prefix pool1 pool2" "prefix pool pool1" using assms by (simp_all add: read_as_def)
  have a: "is_tree (pool2 @ [?nd]) n (tree_of a)"
    using assms(1) is_tree_prefix [OF _ prefix_order.trans [OF p(1) pre]] by (simp add: read_as_def)
  have b: "is_tree (pool2 @ [?nd]) m (tree_of b)"
    using assms(2) is_tree_prefix [OF _ pre] by (simp add: read_as_def)
  have "is_tree (pool2 @ [?nd]) (int (length pool2)) (tree_of (Op op a b))"
    using a b by (simp add: in_pool_def node_at_def blank_node_def)
  moreover have "prefix pool (pool2 @ [?nd])"
    using prefix_order.trans [OF prefix_order.trans [OF p(2) p(1)] pre] .
  moreover have "length (pool2 @ [?nd]) = length pool + nodes_of (Op op a b)"
    using assms by (simp add: read_as_def)
  ultimately have "read_as pool (Op op a b) (int (length pool2)) (pool2 @ [?nd])"
    unfolding read_as_def by blast
  then show ?thesis using assms(3) by (auto simp: new_expr_eq)
qed

lemma chain_none:
  assumes f: "reads_level toks (Suc l) k f" and l: "l \<le> 1" and up: "chain l e = 0"
    and "length (shown l e) \<le> k" "at_index toks i (shown l e)" "readable e" "length pool + nodes_of e \<le> MAX_EXPR_NODES"
    "stops (Suc l) (typeAt toks (i + length (shown l e)))"
  shows "\<exists>n pool'. read_as pool e n pool' \<and>
     (\<forall>m. after (f i pool) (\<lambda>(node, j, pool). left_loop (m + chain l e) (level_ops l) f toks node j pool) =
          left_loop m (level_ops l) f toks n (i + length (shown l e)) pool')"
proof -
  note same = shown_up [OF l up]
  obtain n pool' where "f i pool = got (n, i + length (shown (Suc l) e), pool')" "read_as pool e n pool'"
    using reads_levelD [OF f] assms(4-8) unfolding same by blast
  then show ?thesis unfolding up same by (intro exI [of _ n] exI [of _ pool']) simp
qed

lemma chain_reads:
  assumes f: "reads_level toks (Suc l) k f" and l: "l \<le> 1"
  shows "\<lbrakk>length (shown l e) \<le> k; at_index toks i (shown l e); readable e; length pool + nodes_of e \<le> MAX_EXPR_NODES;
     stops (Suc l) (typeAt toks (i + length (shown l e)))\<rbrakk> \<Longrightarrow>
     \<exists>n pool'. read_as pool e n pool' \<and>
       (\<forall>m. after (f i pool) (\<lambda>(node, j, pool). left_loop (m + chain l e) (level_ops l) f toks node j pool) =
            left_loop m (level_ops l) f toks n (i + length (shown l e)) pool')"
proof (induction e arbitrary: i pool)
  case (Op op a b)
  show ?case
  proof (cases "own op = l")
    case False
    then have up: "chain l (Op op a b) = 0" by simp
    show ?thesis by (rule chain_none [OF f l up Op.prems])
  next
    case True
    let ?a = "shown l a" and ?b = "shown (Suc l) b" and ?go = "\<lambda>m (node, j, pool). left_loop m (level_ops l) f toks node j pool"
    have shape: "shown l (Op op a b) = ?a @ op_token op # ?b" using True by simp
    have here: "at_index toks i ?a" "at_index toks (i + length ?a) [op_token op]" "at_index toks (i + length ?a + 1) ?b"
      using Op.prems(2) unfolding shape at_index_append by (simp_all add: at_index_Cons)
    have ty: "typeAt toks (i + length ?a) = tokType (op_token op)" using at_index_type [OF here(2)] .
    have room: "length pool + nodes_of a \<le> MAX_EXPR_NODES" using Op.prems(4) by simp
    have read: "readable a" "readable b" using Op.prems(3) by simp_all
    have len: "length ?a \<le> k" "length ?b \<le> k" using Op.prems(1) unfolding shape by simp_all
    obtain n pool1 where a: "read_as pool a n pool1"
      "\<And>m. after (f i pool) (?go (m + chain l a)) = left_loop m (level_ops l) f toks n (i + length ?a) pool1"
      using Op.IH(1) [OF len(1) here(1) read(1) room] stops_token [OF True] unfolding ty by blast
    have room1: "length pool1 + nodes_of b \<le> MAX_EXPR_NODES" using a(1) Op.prems(4) by (simp add: read_as_def)
    have stop: "stops (Suc l) (typeAt toks (i + length ?a + 1 + length ?b))"
      using Op.prems(5) unfolding shape by (simp add: ac_simps)
    obtain r pool2 where b: "f (i + length ?a + 1) pool1 = got (r, i + length ?a + 1 + length ?b, pool2)" "read_as pool1 b r pool2"
      by (rule reads_levelD [OF f len(2) here(3) read(2) room1 stop])
    have "length pool2 \<noteq> MAX_EXPR_NODES" using a(1) b(2) Op.prems(4) by (simp add: read_as_def)
    from read_binary [OF a(1) b(2) this] obtain parent pool3 where
      c: "new_expr pool2 EXPR_BINARY (\<lambda>nd. nd\<lparr>eop := op, eleft := n, eright := r\<rparr>) = got (parent, pool3)"
         "read_as pool (Op op a b) parent pool3" by blast
    have "after (f i pool) (?go (m + chain l (Op op a b))) =
        left_loop m (level_ops l) f toks parent (i + length (shown l (Op op a b))) pool3" for m
    proof -
      have "after (f i pool) (?go (m + chain l (Op op a b))) = after (f i pool) (?go (Suc m + chain l a))"
        using True by simp
      also have "\<dots> = left_loop (Suc m) (level_ops l) f toks n (i + length ?a) pool1" by (rule a(2))
      also have "\<dots> = left_loop m (level_ops l) f toks parent (i + length ?a + 1 + length ?b) pool3"
        by (simp add: ty level_ops_token [OF True] b(1) [simplified] c(1))
      finally show ?thesis unfolding shape by (simp add: ac_simps)
    qed
    then show ?thesis using c(2) by blast
  qed
next
  case (Column c)
  show ?case by (rule chain_none [OF f l _ Column.prems]) simp
next
  case (Literal t v)
  show ?case by (rule chain_none [OF f l _ Literal.prems]) simp
next
  case (Minus e)
  show ?case by (rule chain_none [OF f l _ Minus.prems]) simp
qed

lemma left_loop_stops:
  assumes "level_ops l (typeAt toks i) = None" "0 < k"
  shows "left_loop k (level_ops l) f toks n i pool = got (n, i, pool)"
  using assms by (cases k) simp_all

text \<open>From the parser of one level to the parser of the level below.\<close>

lemma level_reads:
  assumes f: "reads_level toks (Suc l) k f" and l: "l \<le> 1"
  shows "reads_level toks l k (\<lambda>i pool. after (f i pool) (\<lambda>(node, j, pool). left_loop (fuel toks) (level_ops l) f toks node j pool))"
  unfolding reads_level_def
proof (intro allI impI)
  fix e i and pool :: exprpool
  assume a: "length (shown l e) \<le> k" "at_index toks i (shown l e)" "readable e"
    "length pool + nodes_of e \<le> MAX_EXPR_NODES" "stops l (typeAt toks (i + length (shown l e)))"
  have up: "stops (Suc l) (typeAt toks (i + length (shown l e)))" using a(5) l by (auto simp: stops_def)
  obtain n pool' where r: "read_as pool e n pool'"
    "\<And>m. after (f i pool) (\<lambda>(node, j, pool). left_loop (m + chain l e) (level_ops l) f toks node j pool) =
       left_loop m (level_ops l) f toks n (i + length (shown l e)) pool'"
    using chain_reads [OF f l a(1-4) up] by blast
  have "length (shown l e) \<le> length toks" using at_index_length [OF a(2)] by simp
  then have "chain l e < fuel toks" using chain_length [of l e] by (simp add: fuel_def)
  then obtain m where enough: "fuel toks = m + chain l e" "0 < m"
    by (metis add.commute less_imp_add_positive)
  have none: "level_ops l (typeAt toks (i + length (shown l e))) = None"
    using a(5) l by (auto simp: stops_def level_ops_def)
  have "after (f i pool) (\<lambda>(node, j, pool). left_loop (fuel toks) (level_ops l) f toks node j pool) =
      got (n, i + length (shown l e), pool')"
    unfolding enough(1) r(2) by (rule left_loop_stops [OF none enough(2)])
  then show "\<exists>n pool'. after (f i pool) (\<lambda>(node, j, pool). left_loop (fuel toks) (level_ops l) f toks node j pool) =
      got (n, i + length (shown l e), pool') \<and> read_as pool e n pool'" using r(1) by blast
qed

lemma expression_level: "reads_level toks 2 k f \<Longrightarrow> reads_level toks 0 k (expression_of f toks)"
  using level_reads [of toks 0 k] level_reads [of toks 1 k f]
  by (simp add: expression_of_def [abs_def] parseTerm_def [abs_def] level_ops_def numeral_2_eq_2)

lemma read_leaf:
  assumes "ekind nd \<in> {EXPR_COLUMN, EXPR_LITERAL}" "tree_of e = Leaf nd" "nodes_of e = 1"
  shows "read_as pool e (int (length pool)) (pool @ [nd])"
  using assms by (simp add: read_as_def in_pool_def node_at_def)

lemma parseValue_token:
  assumes "tokType t \<in> {TOKEN_NUMBER, TOKEN_STRING, TOKEN_KEYWORD_NULL}" "parseValue [t] 0 = got (v, 1)"
    "i < length toks" "toks ! i = t"
  shows "parseValue toks i = got (v, i + 1)"
proof -
  have "after (Some r) (\<lambda>v. got (v, Suc 0)) = got (v, 1) \<Longrightarrow> after (Some r) (\<lambda>v. got (v, i + 1)) = got (v, i + 1)"
    for r :: "error + Value" by (cases r) (auto simp: got_def)
  then show ?thesis using assms by (auto simp: parseValue_def Let_def typeAt_def textAt_def got_def)
qed

lemma factor_level: "reads_level toks 2 k (parseFactor k toks)"
proof (induction k)
  case 0
  then show ?case using shown_nonempty by (simp add: reads_level_def)
next
  case (Suc k)
  note parens = expression_level [OF Suc.IH]
  show ?case
    unfolding reads_level_def
  proof (intro allI impI)
    fix e i and pool :: exprpool
    assume a: "length (shown 2 e) \<le> Suc k" "at_index toks i (shown 2 e)" "readable e"
      "length pool + nodes_of e \<le> MAX_EXPR_NODES" "stops 2 (typeAt toks (i + length (shown 2 e)))"
    show "\<exists>n pool'. parseFactor (Suc k) toks i pool = got (n, i + length (shown 2 e), pool') \<and> read_as pool e n pool'"
    proof (cases e)
      case (Column c)
      have "typeAt toks i = TOKEN_IDENTIFIER" "textAt toks i = c"
        using a(2) by (simp_all add: Column at_index_Cons typeAt_def textAt_def)
      then show ?thesis using a(4) read_leaf [of "(blank_node EXPR_COLUMN)\<lparr>ecolumn := name_of c\<rparr>" e pool]
        by (simp add: Column new_expr_eq blank_node_def)
    next
      case (Literal t v)
      have t: "i < length toks" "toks ! i = t" using a(2) by (simp_all add: Literal at_index_Cons)
      have v: "parseValue toks i = got (v, i + 1)" using parseValue_token [OF _ _ t] a(3) by (simp add: Literal)
      show ?thesis using a(3,4) t v read_leaf [of "(blank_node EXPR_LITERAL)\<lparr>eliteral := v\<rparr>" e pool]
        by (auto simp: Literal literal_node typeAt_def node_at_def set_node_def blank_node_def)
    next
      case (Minus u)
      have ty: "typeAt toks i = TOKEN_MINUS" using a(2) by (simp add: Minus at_index_Cons typeAt_def op_token_def)
      have u: "length (shown 2 u) \<le> k" "at_index toks (i + 1) (shown 2 u)" "readable u" "length pool + nodes_of u \<le> MAX_EXPR_NODES"
        "stops 2 (typeAt toks (i + 1 + length (shown 2 u)))"
        using a by (simp_all add: Minus at_index_Cons)
      obtain n pool1 where r: "parseFactor k toks (i + 1) pool = got (n, i + 1 + length (shown 2 u), pool1)" "read_as pool u n pool1"
        by (rule reads_levelD [OF Suc.IH u])
      let ?nd = "(blank_node EXPR_NEGATE)\<lparr>eleft := n\<rparr>"
      have "is_tree (pool1 @ [?nd]) n (tree_of u)" using r(2) is_tree_prefix [of pool1 n "tree_of u"] by (simp add: read_as_def)
      then have "is_tree (pool1 @ [?nd]) (int (length pool1)) (tree_of e)"
        by (simp add: Minus in_pool_def node_at_def blank_node_def)
      then have "read_as pool e (int (length pool1)) (pool1 @ [?nd])"
        using r(2) by (simp add: read_as_def Minus)
      then show ?thesis using ty r a(4) by (auto simp: Minus new_expr_eq read_as_def)
    next
      case (Op op c d)
      have text2: "shown 2 e = LP # shown 0 e @ [RP]" by (simp add: Op own_def Let_def)
      have ty: "typeAt toks i = TOKEN_LPAREN" and b: "at_index toks (i + 1) (shown 0 e)" and rp: "typeAt toks (i + 1 + length (shown 0 e)) = TOKEN_RPAREN"
        using a(2) unfolding text2 by (simp_all add: at_index_Cons typeAt_def LP_def RP_def)
      have u: "length (shown 0 e) \<le> k" "stops 0 (typeAt toks (i + 1 + length (shown 0 e)))"
        using a(1) stops_RP [of 0] unfolding text2 rp by (simp_all add: RP_def)
      obtain n pool1 where r: "expression_of (parseFactor k toks) toks (i + 1) pool = got (n, i + 1 + length (shown 0 e), pool1)"
          "read_as pool e n pool1"
        by (rule reads_levelD [OF parens u(1) b a(3,4) u(2)])
      show ?thesis unfolding text2 using ty r rp by (simp add: need_def)
    qed
  qed
qed

text \<open>
  C23: expressions are read as they are written. Printing an expression with parentheses only where
  precedence and associativity need them, and parsing the tokens wherever they stand in a statement,
  gives back the same expression and stops right behind it, as long as the pool has room for it.
\<close>
theorem expression_roundtrip:
  assumes "readable e" "length pool + nodes_of e \<le> MAX_EXPR_NODES"
    and "stops 0 (typeAt (pre @ shown 0 e @ post) (length pre + length (shown 0 e)))"
  shows "\<exists>n pool'. parseExpression (pre @ shown 0 e @ post) (length pre) pool =
      Some (Inr (n, length pre + length (shown 0 e), pool')) \<and> prefix pool pool' \<and> is_tree pool' n (tree_of e)"
proof -
  let ?toks = "pre @ shown 0 e @ post"
  have reads: "reads_level ?toks 0 (fuel ?toks) (parseExpression ?toks)"
    unfolding parseExpression_def by (rule expression_level, rule factor_level)
  have "at_index ?toks (length pre) (shown 0 e)" unfolding at_index_def by blast
  then obtain n pool' where "parseExpression ?toks (length pre) pool = got (n, length pre + length (shown 0 e), pool')"
      "read_as pool e n pool'"
    using reads_levelD [OF reads _ _ assms] by (auto simp: fuel_def)
  then show ?thesis unfolding got_def read_as_def by blast
qed

text \<open>\<open>a - (b - 2) * c\<close>, between \<open>select\<close> and \<open>from\<close>.\<close>

definition demo_expr :: expr where
  "demo_expr = Op ARITH_SUB (Column ''a'') (Op ARITH_MUL (Op ARITH_SUB (Column ''b'')
     (Literal \<lparr>tokType = TOKEN_NUMBER, tokValue = ''2''\<rparr> (blank_value\<lparr>intValue := 2\<rparr>))) (Column ''c''))"

theorem expression_roundtrip_witness:
  "\<exists>n pool'. parseExpression ([\<lparr>tokType = TOKEN_KEYWORD_SELECT, tokValue = ''select''\<rparr>] @ shown 0 demo_expr @
       [\<lparr>tokType = TOKEN_KEYWORD_FROM, tokValue = ''from''\<rparr>]) 1 [] =
     Some (Inr (n, 10, pool')) \<and> is_tree pool' n (tree_of demo_expr)"
proof -
  have "readable demo_expr" by code_simp
  moreover have "length (shown 0 demo_expr) = 9" by code_simp
  moreover have "nodes_of demo_expr = 7" by code_simp
  ultimately show ?thesis
    using expression_roundtrip [of demo_expr "[]" "[\<lparr>tokType = TOKEN_KEYWORD_SELECT, tokValue = ''select''\<rparr>]"
        "[\<lparr>tokType = TOKEN_KEYWORD_FROM, tokValue = ''from''\<rparr>]"]
    by (simp add: MAX_EXPR_NODES_def typeAt_def nth_append stops_def sum_op_def term_op_def)
qed

end
