(* ===== verification/Like.thy ===== *)
theory Like
  imports Records "HOL-Library.Sublist"
begin

text \<open>
  \<^verbatim>\<open>LIKE\<close> of \<^verbatim>\<open>06_executor.c\<close>: the backtracking matcher and the literal head of a pattern that an
  index can be searched by, against the meaning of a pattern by recursion over it.
\<close>

subsection \<open>The matcher\<close>

text \<open>
  \<^verbatim>\<open>likeMatch\<close>. The text is its bytes, the pattern the bytes before its terminator: at its end
  \<^verbatim>\<open>*pattern\<close> is the terminator, which only a zero byte of the text would equal. The state keeps
  \<open>afterStar\<close> and \<open>retry\<close> together, since both are set by the same branch.
\<close>

definition at_pattern :: "string \<Rightarrow> char" where
  "at_pattern p = (case p of [] \<Rightarrow> CHR 0x00 | c # _ \<Rightarrow> c)"

definition no_wildcard_left :: "string \<Rightarrow> bool" where
  "no_wildcard_left p \<longleftrightarrow> dropWhile (\<lambda>c. c = CHR ''%'') p = []"

partial_function (option) likeLoop :: "string \<Rightarrow> string \<Rightarrow> (string \<times> string) option \<Rightarrow> bool option" where
  [code]: "likeLoop text pattern star =
     (case text of [] \<Rightarrow> Some (no_wildcard_left pattern)
      | c # rest \<Rightarrow>
          if at_pattern pattern = CHR ''%'' then likeLoop text (tl pattern) (Some (tl pattern, text))
          else if at_pattern pattern = CHR ''_'' \<or> at_pattern pattern = c then likeLoop rest (tl pattern) star
          else case star of
                 Some (afterStar, retry) \<Rightarrow> likeLoop (tl retry) afterStar (Some (afterStar, tl retry))
               | None \<Rightarrow> Some False)"

definition likeMatch :: "string \<Rightarrow> string \<Rightarrow> bool option" where
  "likeMatch text pattern = likeLoop text pattern None"

subsection \<open>The literal head\<close>

definition wildcard :: "char \<Rightarrow> bool" where "wildcard c \<longleftrightarrow> c = CHR ''%'' \<or> c = CHR ''_''"

definition likePrefix :: "string \<Rightarrow> string" where
  "likePrefix pattern = take (VALUE_LEN - 1) (takeWhile (\<lambda>c. \<not> wildcard c) pattern)"

subsection \<open>What a pattern means\<close>

fun like :: "string \<Rightarrow> string \<Rightarrow> bool" where
  "like [] t \<longleftrightarrow> t = []"
| "like (p # ps) t \<longleftrightarrow>
     (if p = CHR ''%'' then like ps t \<or> (case t of [] \<Rightarrow> False | _ # t' \<Rightarrow> like (p # ps) t')
      else case t of [] \<Rightarrow> False | c # t' \<Rightarrow> (p = CHR ''_'' \<or> p = c) \<and> like ps t')"

lemma like_percent: "like (CHR ''%'' # ps) t \<longleftrightarrow> (\<exists>k \<le> length t. like ps (drop k t))"
proof (induction t)
  case (Cons c t)
  have "(\<exists>k \<le> length (c # t). like ps (drop k (c # t))) \<longleftrightarrow> like ps (c # t) \<or> (\<exists>k \<le> length t. like ps (drop k t))"
    (is "?l = ?r")
  proof
    assume ?l
    then obtain k where "k \<le> Suc (length t)" "like ps (drop k (c # t))" by auto
    then show ?r by (cases k) auto
  next
    assume ?r
    then show ?l
    proof
      assume "\<exists>k \<le> length t. like ps (drop k t)"
      then obtain k where "k \<le> length t" "like ps (drop k t)" by blast
      then show ?l by (intro exI [of _ "Suc k"]) simp
    qed (intro exI [of _ 0], simp)
  qed
  then show ?case using Cons.IH by simp
qed simp

lemma like_end: "like p [] \<longleftrightarrow> no_wildcard_left p"
  by (induction p) (auto simp: no_wildcard_left_def)

text \<open>A matched literal part: no \<open>%\<close>, one character of the text for each of the pattern.\<close>

definition fits :: "string \<Rightarrow> string \<Rightarrow> bool" where
  "fits ps u \<longleftrightarrow> list_all2 (\<lambda>p c. p \<noteq> CHR ''%'' \<and> (p = CHR ''_'' \<or> p = c)) ps u"

lemma fits_snoc: "fits ps u \<Longrightarrow> q \<noteq> CHR ''%'' \<Longrightarrow> q = CHR ''_'' \<or> q = c \<Longrightarrow> fits (ps @ [q]) (u @ [c])"
  unfolding fits_def by (rule list_all2_appendI) auto

lemma fits_like: "fits ps u \<Longrightarrow> like (ps @ qs) (u @ t) \<longleftrightarrow> like qs t"
  unfolding fits_def by (induction ps u rule: list_all2_induct) auto

lemma like_after: "CHR ''%'' \<notin> set ps \<Longrightarrow> like (ps @ qs) t \<Longrightarrow> length ps \<le> length t \<and> like qs (drop (length ps) t)"
proof (induction ps arbitrary: t)
  case (Cons p ps)
  then show ?case by (cases t) auto
qed simp

subsection \<open>The matcher decides it\<close>

lemma at_pattern_Nil [simp]: "at_pattern [] = CHR 0x00" by (simp add: at_pattern_def)
lemma at_pattern_Cons [simp]: "at_pattern (c # p) = c" by (simp add: at_pattern_def)

text \<open>What the last \<open>%\<close> has swallowed may grow; the part matched after it stands between.\<close>

lemma like_star_end:
  assumes "fits ps u" shows "like (CHR ''%'' # ps @ p) u \<longleftrightarrow> like p []"
proof -
  have n: "CHR ''%'' \<notin> set ps" "length ps = length u"
    using assms by (auto simp: fits_def list_all2_conv_all_nth in_set_conv_nth)
  have "k = 0" if "like (ps @ p) (drop k u)" "k \<le> length u" for k
    using like_after [OF n(1) that(1)] n(2) that(2) by (simp only: length_drop) linarith
  moreover have "like (ps @ p) u \<longleftrightarrow> like p []" using fits_like [OF assms, of p "[]"] by simp
  ultimately show ?thesis unfolding like_percent by (metis drop0 le0)
qed

lemma like_star_again:
  assumes "fits ps u" shows "like (CHR ''%'' # ps @ CHR ''%'' # qs) (u @ t) \<longleftrightarrow> like (CHR ''%'' # qs) t"
proof -
  let ?a = "ps @ CHR ''%'' # qs"
  have n: "CHR ''%'' \<notin> set ps" "length ps = length u"
    using assms by (auto simp: fits_def list_all2_conv_all_nth in_set_conv_nth)
  have "like (CHR ''%'' # qs) t" if "like ?a (drop k (u @ t))" for k
  proof -
    have "drop (length ps) (drop k (u @ t)) = drop k (drop (length ps) (u @ t))" by (simp only: drop_drop add.commute)
    then have "drop (length ps) (drop k (u @ t)) = drop k t" using n(2) by simp
    then have "like (CHR ''%'' # qs) (drop k t)" using like_after [OF n(1) that] by simp
    then obtain j where "like qs (drop (j + k) t)" unfolding like_percent by auto
    then show ?thesis unfolding like_percent
      by (metis drop_all le_refl nat_le_linear)
  qed
  moreover have "like ?a (u @ t) \<longleftrightarrow> like (CHR ''%'' # qs) t" by (rule fits_like [OF assms])
  ultimately show ?thesis unfolding like_percent [of ?a] by (metis drop0 le0)
qed

lemma shrinking: "wf (less_than <*lex*> less_than)" by (rule wf_lex_prod) (rule wf_less_than)+

lemma likeLoop_star:
  assumes "fits ps u" "CHR 0x00 \<notin> set (u @ t)"
  shows "likeLoop t p (Some (ps @ p, u @ t)) = Some (like (CHR ''%'' # ps @ p) (u @ t))"
  using assms
proof (induction "(length (u @ t), length p)" arbitrary: ps u t p
    rule: wf_induct_rule [OF shrinking])
  case 1
  show ?case
  proof (cases t)
    case Nil
    then show ?thesis using 1(2) like_star_end [of ps u p] by (simp add: likeLoop.simps [of "[]"] like_end)
  next
    case (Cons c rest)
    consider (percent) qs where "p = CHR ''%'' # qs"
      | (step) q qs where "p = q # qs" "q \<noteq> CHR ''%''" "q = CHR ''_'' \<or> q = c"
      | (retry) "at_pattern p \<noteq> CHR ''%''" "at_pattern p \<noteq> CHR ''_''" "at_pattern p \<noteq> c"
      using 1(3) Cons by (cases p) auto
    then show ?thesis
    proof cases
      case percent
      have "likeLoop t qs (Some ([] @ qs, [] @ t)) = Some (like (CHR ''%'' # [] @ qs) ([] @ t))"
        by (rule 1(1)) (use 1(3) percent in \<open>auto simp: fits_def\<close>)
      moreover have "likeLoop t p (Some (ps @ p, u @ t)) = likeLoop t qs (Some (qs, t))"
        using percent Cons by (subst likeLoop.simps) simp
      ultimately show ?thesis using like_star_again [OF 1(2), of qs t] percent by simp
    next
      case step
      have "likeLoop rest qs (Some ((ps @ [q]) @ qs, (u @ [c]) @ rest)) = Some (like (CHR ''%'' # (ps @ [q]) @ qs) ((u @ [c]) @ rest))"
        by (rule 1(1)) (use 1(2,3) step Cons in \<open>auto intro: fits_snoc\<close>)
      moreover have "likeLoop t p star = likeLoop rest qs star" for star
        using step Cons by (subst likeLoop.simps) auto
      ultimately show ?thesis using step Cons by simp
    next
      case retry
      have "\<not> like p t" using retry Cons by (cases p) auto
      then have no: "\<not> like (ps @ p) (u @ t)" using fits_like [OF 1(2)] by blast
      obtain d r where r: "u @ t = d # r" using Cons by (cases u) auto
      have "likeLoop r (ps @ p) (Some ([] @ (ps @ p), [] @ r)) = Some (like (CHR ''%'' # [] @ ps @ p) ([] @ r))"
        by (rule 1(1)) (use 1(3) r in \<open>auto simp: fits_def\<close>)
      moreover have "likeLoop t p (Some (ps @ p, u @ t)) = likeLoop r (ps @ p) (Some (ps @ p, r))"
        using retry Cons r by (subst likeLoop.simps) simp
      ultimately show ?thesis using no r by simp
    qed
  qed
qed

lemma likeLoop_plain: "CHR 0x00 \<notin> set t \<Longrightarrow> likeLoop t p None = Some (like p t)"
proof (induction t arbitrary: p)
  case Nil
  then show ?case by (simp add: likeLoop.simps [of "[]"] like_end)
next
  case (Cons c rest)
  show ?case
  proof (cases p)
    case Nil
    then show ?thesis using Cons.prems by (simp add: likeLoop.simps [of "c # rest"])
  next
    case (Cons q qs)
    have "likeLoop (c # rest) qs (Some ([] @ qs, [] @ (c # rest))) = Some (like (CHR ''%'' # [] @ qs) ([] @ c # rest))"
      by (rule likeLoop_star) (use Cons.prems in \<open>auto simp: fits_def\<close>)
    then show ?thesis using Cons.IH Cons.prems Cons by (simp add: likeLoop.simps [of "c # rest"])
  qed
qed

text \<open>Whatever the bytes of the text, the matcher ends: what it retries from only gets shorter.\<close>

lemma likeLoop_star_ends: "length t \<le> length r \<Longrightarrow> \<exists>b. likeLoop t p (Some (a, r)) = Some b"
proof (induction "(length r, length p + length t)" arbitrary: r t p a rule: wf_induct_rule [OF shrinking])
  case 1
  show ?case
  proof (cases t)
    case Nil
    then show ?thesis by (simp add: likeLoop.simps [of "[]"])
  next
    case (Cons c rest)
    have retry: "\<exists>b. likeLoop (tl r) a (Some (a, tl r)) = Some b"
      by (rule 1(1)) (use 1(2) Cons in auto)
    have star: "\<exists>b. likeLoop t q (Some (q, t)) = Some b" if "length q < length p" for q
      by (rule 1(1)) (use 1(2) Cons that in auto)
    have step: "\<exists>b. likeLoop rest (tl p) (Some (a, r)) = Some b"
      by (rule 1(1)) (use 1(2) Cons in auto)
    show ?thesis
    proof (cases "at_pattern p = CHR ''%''")
      case True
      then have "length (tl p) < length p" by (cases p) auto
      then show ?thesis using star True Cons by (subst likeLoop.simps) simp
    next
      case False
      then show ?thesis using retry step Cons by (subst likeLoop.simps) auto
    qed
  qed
qed

lemma likeMatch_ends: "\<exists>b. likeMatch t p = Some b"
proof -
  have "\<exists>b. likeLoop t p None = Some b"
  proof (induction t arbitrary: p)
    case Nil
    then show ?case by (simp add: likeLoop.simps [of "[]"])
  next
    case (Cons c rest)
    then show ?case using likeLoop_star_ends [of "c # rest" "c # rest"] by (subst likeLoop.simps) auto
  qed
  then show ?thesis by (simp add: likeMatch_def)
qed

lemma like_head: "like ps t \<Longrightarrow> prefix (takeWhile (\<lambda>c. \<not> wildcard c) ps) t"
proof (induction ps arbitrary: t)
  case (Cons p ps)
  then show ?case by (cases t) (auto simp: wildcard_def split: if_splits)
qed simp

text \<open>
  C26: LIKE. The matcher ends on every text and pattern, returning to its last \<open>%\<close> as often as it
  has to, and answers what the pattern means; a text it accepts begins with the literal head that an
  index is searched by.
\<close>
theorem like_decides:
  assumes "CHR 0x00 \<notin> set text"
  shows "likeMatch text pattern = Some (like pattern text) \<and>
    (likeMatch text pattern = Some True \<longrightarrow> prefix (likePrefix pattern) text)"
proof (intro conjI impI)
  show m: "likeMatch text pattern = Some (like pattern text)"
    unfolding likeMatch_def by (rule likeLoop_plain [OF assms])
  show "prefix (likePrefix pattern) text" if "likeMatch text pattern = Some True"
  proof -
    have "prefix (takeWhile (\<lambda>c. \<not> wildcard c) pattern) text" using that m by (simp add: like_head)
    then show ?thesis unfolding likePrefix_def using take_is_prefix prefix_order.trans by blast
  qed
qed

theorem like_decides_witness:
  "likeMatch ''banana'' ''%an_'' = Some True \<and> likePrefix ''ban%x_'' = ''ban''"
proof
  have "likeMatch ''banana'' ''%an_'' = Some (like ''%an_'' ''banana'')" using like_decides [of "''banana''"] by simp
  then show "likeMatch ''banana'' ''%an_'' = Some True" by simp
  show "likePrefix ''ban%x_'' = ''ban''" by (simp add: likePrefix_def wildcard_def VALUE_LEN_def)
qed

end
