(* ===== verification/Evaluate.thy ===== *)
theory Evaluate
  imports Like Parsed
begin

text \<open>
  Conditions against a row, \<^verbatim>\<open>06_executor.c\<close>: one comparison, membership in what a subquery
  returned, the walk of the condition tree, the columns it reads and the comparison an index may
  narrow it by. The last part states the walk as Kleene's three-valued logic over the tree the
  nodes form.
\<close>

subsection \<open>Results\<close>

text \<open>
  \<open>ResultSet\<close>: the headers and the rows are lists, so \<open>ncols\<close> and \<open>nrows\<close> are their lengths. The
  capacity of the row array is memory management and left out.
\<close>

record resultset =
  headers :: "string list"
  rtypes :: "coltype list"
  rrows :: "row list"
  rowsAffected :: int
  message :: string

definition blank_result :: resultset where
  "blank_result = \<lparr>headers = [], rtypes = [], rrows = [], rowsAffected = 0, message = []\<rparr>"

subsection \<open>One comparison\<close>

datatype tristate = TRI_FALSE | TRI_TRUE | TRI_UNKNOWN

definition tri_of :: "bool \<Rightarrow> tristate" where "tri_of b = (if b then TRI_TRUE else TRI_FALSE)"

text \<open>\<open>valueText\<close> hands the pattern on as a terminated string.\<close>

definition pattern_text :: "Value \<Rightarrow> string" where
  "pattern_text v = takeWhile (\<lambda>c. c \<noteq> CHR 0x00) (vtext v)"

definition comparePredicate :: "Value \<Rightarrow> Value \<Rightarrow> compareop \<Rightarrow> tristate option" where
  "comparePredicate v other op =
     (if op = OP_IS_NULL then Some (tri_of (isNull v))
      else if op = OP_IS_NOT_NULL then Some (tri_of (\<not> isNull v))
      else if isNull v \<or> isNull other then Some TRI_UNKNOWN
      else if vtype v \<noteq> vtype other then Some TRI_UNKNOWN
      else case op of
             OP_LIKE \<Rightarrow> map_option tri_of (likeMatch (vtext v) (pattern_text other))
           | OP_NOT_LIKE \<Rightarrow> map_option (\<lambda>m. tri_of (\<not> m)) (likeMatch (vtext v) (pattern_text other))
           | OP_EQ \<Rightarrow> Some (tri_of (valuesSame v other))
           | OP_NE \<Rightarrow> Some (tri_of (\<not> valuesSame v other))
           | OP_LT \<Rightarrow> Some (tri_of (compareValues v other < 0))
           | OP_LTE \<Rightarrow> Some (tri_of (compareValues v other \<le> 0))
           | OP_GT \<Rightarrow> Some (tri_of (compareValues v other > 0))
           | OP_GTE \<Rightarrow> Some (tri_of (compareValues v other \<ge> 0))
           | _ \<Rightarrow> Some TRI_FALSE)"

subsection \<open>Membership in a result\<close>

definition first_value :: "row \<Rightarrow> Value" where "first_value r = rvals r ! 0"

fun value_in_rows :: "Value \<Rightarrow> bool \<Rightarrow> row list \<Rightarrow> tristate" where
  "value_in_rows v sawNull [] = (if sawNull then TRI_UNKNOWN else TRI_FALSE)"
| "value_in_rows v sawNull (r # rs) =
     (if isNull (first_value r) then value_in_rows v True rs
      else if comparePredicate v (first_value r) OP_EQ = Some TRI_TRUE then TRI_TRUE
      else value_in_rows v sawNull rs)"

definition valueInResult :: "Value \<Rightarrow> resultset \<Rightarrow> tristate" where
  "valueInResult v res = (if isNull v then TRI_UNKNOWN else value_in_rows v False (rrows res))"

subsection \<open>The condition tree\<close>

definition result_of :: "resultset list \<Rightarrow> int \<Rightarrow> resultset" where
  "result_of results n = results ! nat n"

definition evaluate_compare :: "resultset list \<Rightarrow> exprpool \<Rightarrow> predicate \<Rightarrow> row \<Rightarrow> tristate option" where
  "evaluate_compare results pool c r =
     (if pop c = OP_EXISTS then Some (tri_of (rrows (result_of results (psubquery c)) \<noteq> []))
      else do {
        l \<leftarrow> exprEvaluate pool (pleft c) r;
        case l of Inl e \<Rightarrow> Some TRI_UNKNOWN
        | Inr left \<Rightarrow>
            if pop c = OP_IS_NULL \<or> pop c = OP_IS_NOT_NULL then comparePredicate left left (pop c)
            else if pop c = OP_IN then Some (valueInResult left (result_of results (psubquery c)))
            else if psubquery c \<ge> 0
            then (case rrows (result_of results (psubquery c)) of
                    [] \<Rightarrow> Some TRI_UNKNOWN
                  | first # _ \<Rightarrow> comparePredicate left (first_value first) (pop c))
            else do {
              rv \<leftarrow> exprEvaluate pool (pright c) r;
              case rv of Inl e \<Rightarrow> Some TRI_UNKNOWN
              | Inr right \<Rightarrow> comparePredicate left right (pop c) } })"

definition tri_not :: "tristate \<Rightarrow> tristate" where
  "tri_not v = (if v = TRI_UNKNOWN then TRI_UNKNOWN else if v = TRI_TRUE then TRI_FALSE else TRI_TRUE)"

definition tri_and :: "tristate \<Rightarrow> tristate \<Rightarrow> tristate" where
  "tri_and l r = (if l = TRI_FALSE \<or> r = TRI_FALSE then TRI_FALSE
     else if l = TRI_UNKNOWN \<or> r = TRI_UNKNOWN then TRI_UNKNOWN else TRI_TRUE)"

definition tri_or :: "tristate \<Rightarrow> tristate \<Rightarrow> tristate" where
  "tri_or l r = (if l = TRI_TRUE \<or> r = TRI_TRUE then TRI_TRUE
     else if l = TRI_UNKNOWN \<or> r = TRI_UNKNOWN then TRI_UNKNOWN else TRI_FALSE)"

partial_function (option) evaluateCondition :: "resultset list \<Rightarrow> condition \<Rightarrow> int \<Rightarrow> row \<Rightarrow> tristate option" where
  [code]: "evaluateCondition results c n r =
     (let current = node_at (cnodes c) n
      in case ckind current of
           COND_COMPARE \<Rightarrow> evaluate_compare results (cexprs c) (ccompare current) r
         | COND_NOT \<Rightarrow> do { v \<leftarrow> evaluateCondition results c (cleft current) r; Some (tri_not v) }
         | kind \<Rightarrow>
             do { left \<leftarrow> evaluateCondition results c (cleft current) r;
                  right \<leftarrow> evaluateCondition results c (cright current) r;
                  Some (if kind = COND_AND then tri_and left right else tri_or left right) })"

subsection \<open>Binding a condition\<close>

fun resolve_nodes :: "table \<Rightarrow> conditionnode list \<Rightarrow> exprpool \<Rightarrow> string \<Rightarrow> ((error + unit) \<times> exprpool \<times> string) option" where
  "resolve_nodes t [] pool unres = Some (Inr (), pool, unres)"
| "resolve_nodes t (nd # nds) pool unres =
     (if ckind nd \<noteq> COND_COMPARE \<or> pop (ccompare nd) = OP_EXISTS then resolve_nodes t nds pool unres
      else do {
        (r, pool, unres) \<leftarrow> exprResolve t pool (pleft (ccompare nd)) unres;
        case r of Inl e \<Rightarrow> Some (Inl e, pool, unres)
        | Inr _ \<Rightarrow>
            if pright (ccompare nd) < 0 then resolve_nodes t nds pool unres
            else do {
              (r, pool, unres) \<leftarrow> exprResolve t pool (pright (ccompare nd)) unres;
              case r of Inl e \<Rightarrow> Some (Inl e, pool, unres)
              | Inr _ \<Rightarrow> resolve_nodes t nds pool unres } })"

definition resolveCondition :: "table \<Rightarrow> condition \<Rightarrow> string \<Rightarrow> ((error + unit) \<times> condition \<times> string) option" where
  "resolveCondition t c unres =
     do { (r, pool, unres) \<leftarrow> resolve_nodes t (cnodes c) (cexprs c) unres;
          Some (r, c\<lparr>cexprs := pool\<rparr>, unres) }"

subsection \<open>The columns a condition reads\<close>

fun deepest_nodes :: "exprpool \<Rightarrow> conditionnode list \<Rightarrow> int \<Rightarrow> int option" where
  "deepest_nodes pool [] deepest = Some deepest"
| "deepest_nodes pool (nd # nds) deepest =
     (if ckind nd \<noteq> COND_COMPARE then deepest_nodes pool nds deepest
      else do {
        left \<leftarrow> exprDeepest pool (pleft (ccompare nd));
        right \<leftarrow> exprDeepest pool (pright (ccompare nd));
        deepest_nodes pool nds (max right (max left deepest)) })"

definition conditionDeepest :: "condition \<Rightarrow> int option" where
  "conditionDeepest c = deepest_nodes (cexprs c) (cnodes c) (-1)"

subsection \<open>The comparison an index narrows by\<close>

definition indexableOperator :: "compareop \<Rightarrow> bool" where
  "indexableOperator op \<longleftrightarrow> op = OP_EQ \<or> op = OP_LT \<or> op = OP_LTE \<or> op = OP_GT \<or> op = OP_GTE"

text \<open>\<open>indexed column\<close>: \<open>findIndexOn(table->table, column)\<close> finds an index.\<close>

definition indexable_compare :: "(string \<Rightarrow> bool) \<Rightarrow> exprpool \<Rightarrow> predicate \<Rightarrow> bool" where
  "indexable_compare indexed pool c \<longleftrightarrow>
     exprIsColumn pool (pleft c) \<and> exprIsLiteral pool (pright c) \<and> indexed (exprColumn pool (pleft c)) \<and>
     (indexableOperator (pop c) \<or>
      (pop c = OP_LIKE \<and> likePrefix (pattern_text (eliteral (node_at pool (pright c)))) \<noteq> []))"

partial_function (option) findIndexableLeaf :: "(string \<Rightarrow> bool) \<Rightarrow> condition \<Rightarrow> int \<Rightarrow> int option" where
  [code]: "findIndexableLeaf indexed c n =
     (let current = node_at (cnodes c) n
      in case ckind current of
           COND_COMPARE \<Rightarrow> Some (if indexable_compare indexed (cexprs c) (ccompare current) then n else -1)
         | COND_AND \<Rightarrow>
             do { leaf \<leftarrow> findIndexableLeaf indexed c (cleft current);
                  if leaf \<ge> 0 then Some leaf else findIndexableLeaf indexed c (cright current) }
         | _ \<Rightarrow> Some (-1))"

end
