(* ===== verification/Comparators.thy ===== *)
theory Comparators
  imports Records "HOL-Library.Multiset"
begin

text \<open>
  Comparison functions in the C convention, negative, zero or positive, and \<^verbatim>\<open>qsort\<close> by one. The
  laws a sort relies on are the locale \<open>comparator\<close>; the engine's orders of values are instances.
\<close>

subsection \<open>Sorting by a comparison\<close>

fun insert_by :: "('a \<Rightarrow> 'a \<Rightarrow> int) \<Rightarrow> 'a \<Rightarrow> 'a list \<Rightarrow> 'a list" where
  "insert_by cmp x [] = [x]"
| "insert_by cmp x (y # ys) = (if cmp x y \<le> 0 then x # y # ys else y # insert_by cmp x ys)"

text \<open>
  \<^verbatim>\<open>qsort\<close>. The standard leaves the order of elements that compare equal open; the engine's sorts
  break every tie, so any sort by its comparisons gives this list.
\<close>

definition qsort :: "('a \<Rightarrow> 'a \<Rightarrow> int) \<Rightarrow> 'a list \<Rightarrow> 'a list" where
  "qsort cmp xs = foldr (insert_by cmp) xs []"

definition sorted_by :: "('a \<Rightarrow> 'a \<Rightarrow> int) \<Rightarrow> 'a list \<Rightarrow> bool" where
  "sorted_by cmp xs \<longleftrightarrow> sorted_wrt (\<lambda>a b. cmp a b \<le> 0) xs"

lemma mset_insert_by [simp]: "mset (insert_by cmp x xs) = {#x#} + mset xs"
  by (induction xs) auto

lemma mset_qsort [simp]: "mset (qsort cmp xs) = mset xs"
  by (induction xs) (auto simp: qsort_def)

lemma set_qsort [simp]: "set (qsort cmp xs) = set xs"
  by (simp flip: set_mset_mset)

lemma length_qsort [simp]: "length (qsort cmp xs) = length xs"
  by (simp flip: size_mset)

lemma set_insert_by [simp]: "set (insert_by cmp x xs) = insert x (set xs)"
  by (simp flip: set_mset_mset)

lemma insert_by_cong:
  "(\<And>y. y \<in> set ys \<Longrightarrow> cmp x y \<le> 0 \<longleftrightarrow> cmp' x y \<le> 0) \<Longrightarrow> insert_by cmp x ys = insert_by cmp' x ys"
  by (induction ys) auto

lemma insert_by_map:
  "(\<And>y. y \<in> set ys \<Longrightarrow> cmp' (f x) (f y) \<le> 0 \<longleftrightarrow> cmp x y \<le> 0) \<Longrightarrow>
   map f (insert_by cmp x ys) = insert_by cmp' (f x) (map f ys)"
  by (induction ys) auto

lemma qsort_map:
  assumes "\<And>x y. x \<in> set xs \<Longrightarrow> y \<in> set xs \<Longrightarrow> cmp' (f x) (f y) \<le> 0 \<longleftrightarrow> cmp x y \<le> 0"
  shows "map f (qsort cmp xs) = qsort cmp' (map f xs)"
  using assms
proof (induction xs)
  case (Cons x xs)
  have "map f (insert_by cmp x (qsort cmp xs)) = insert_by cmp' (f x) (map f (qsort cmp xs))"
    by (rule insert_by_map) (use Cons.prems in auto)
  then show ?case using Cons by (simp add: qsort_def)
qed (simp add: qsort_def)

subsection \<open>The laws of a comparison\<close>

locale comparator =
  fixes V :: "'a set" and cmp :: "'a \<Rightarrow> 'a \<Rightarrow> int"
  assumes refl: "a \<in> V \<Longrightarrow> cmp a a = 0"
    and swap: "a \<in> V \<Longrightarrow> b \<in> V \<Longrightarrow> cmp a b < 0 \<longleftrightarrow> cmp b a > 0"
    and trans: "a \<in> V \<Longrightarrow> b \<in> V \<Longrightarrow> c \<in> V \<Longrightarrow> cmp a b \<le> 0 \<Longrightarrow> cmp b c \<le> 0 \<Longrightarrow> cmp a c \<le> 0"
begin

lemma total: "a \<in> V \<Longrightarrow> b \<in> V \<Longrightarrow> cmp a b \<le> 0 \<or> cmp b a \<le> 0"
  using swap [of a b] by linarith

lemma greater: "a \<in> V \<Longrightarrow> b \<in> V \<Longrightarrow> \<not> cmp a b \<le> 0 \<Longrightarrow> cmp b a \<le> 0"
  using swap [of b a] by linarith

lemma sorted_insert: "x \<in> V \<Longrightarrow> set ys \<subseteq> V \<Longrightarrow> sorted_by cmp ys \<Longrightarrow> sorted_by cmp (insert_by cmp x ys)"
proof (induction ys)
  case (Cons y ys)
  show ?case
  proof (cases "cmp x y \<le> 0")
    case True
    have "cmp x z \<le> 0" if "z \<in> set ys" for z
      using trans [of x y z] True Cons.prems that by (auto simp: sorted_by_def)
    then show ?thesis using True Cons.prems by (auto simp: sorted_by_def)
  next
    case False
    then show ?thesis using Cons greater [of x y] by (auto simp: sorted_by_def)
  qed
qed (simp add: sorted_by_def)

lemma qsort_sorted: "set xs \<subseteq> V \<Longrightarrow> sorted_by cmp (qsort cmp xs)"
proof (induction xs)
  case (Cons x xs)
  have "set (qsort cmp xs) \<subseteq> V" using Cons.prems by simp
  then show ?case using Cons sorted_insert [of x "qsort cmp xs"] by (simp add: qsort_def)
qed (simp add: qsort_def sorted_by_def)

end

text \<open>A comparison that tells all elements apart: the sorted list is the only one.\<close>

locale total_comparator = comparator +
  assumes apart: "a \<in> V \<Longrightarrow> b \<in> V \<Longrightarrow> cmp a b = 0 \<Longrightarrow> a = b"
begin

lemma antisym: "a \<in> V \<Longrightarrow> b \<in> V \<Longrightarrow> cmp a b \<le> 0 \<Longrightarrow> cmp b a \<le> 0 \<Longrightarrow> a = b"
  using swap [of a b] apart [of a b] by linarith

lemma sorted_unique:
  "mset xs = mset ys \<Longrightarrow> set xs \<subseteq> V \<Longrightarrow> sorted_by cmp xs \<Longrightarrow> sorted_by cmp ys \<Longrightarrow> xs = ys"
proof (induction xs arbitrary: ys)
  case (Cons x xs)
  then obtain y zs where ys: "ys = y # zs" by (cases ys) auto
  have s: "set (x # xs) = set (y # zs)" using Cons.prems(1) ys by (metis set_mset_mset)
  have V: "x \<in> V" "y \<in> V" using Cons.prems(2) s by auto
  have "cmp x y \<le> 0" using Cons.prems(3) s refl [OF V(1)] by (cases "x = y") (auto simp: sorted_by_def)
  moreover have "cmp y x \<le> 0" using Cons.prems(4) ys s refl [OF V(1)] by (cases "x = y") (auto simp: sorted_by_def)
  ultimately have "x = y" using antisym V by blast
  then show ?case using Cons ys by (auto simp: sorted_by_def)
qed simp

lemma qsort_unique: "set xs \<subseteq> V \<Longrightarrow> mset ys = mset xs \<Longrightarrow> sorted_by cmp ys \<Longrightarrow> ys = qsort cmp xs"
  using sorted_unique [of ys "qsort cmp xs"] qsort_sorted by (metis mset_qsort set_mset_mset)

text \<open>What is at most everything left out is the front of the sorted list.\<close>

lemma qsort_take:
  assumes "mset as + mset bs = mset xs" "set xs \<subseteq> V" "\<And>a b. a \<in> set as \<Longrightarrow> b \<in> set bs \<Longrightarrow> cmp a b \<le> 0"
  shows "qsort cmp as = take (length as) (qsort cmp xs)"
proof -
  have sets: "set as \<subseteq> V" "set bs \<subseteq> V"
    using assms(1,2) by (metis Un_subset_iff set_mset_mset set_mset_union)+
  have "sorted_by cmp (qsort cmp as @ qsort cmp bs)"
    using qsort_sorted [OF sets(1)] qsort_sorted [OF sets(2)] assms(3) by (auto simp: sorted_by_def sorted_wrt_append)
  then have "qsort cmp as @ qsort cmp bs = qsort cmp xs"
    by (intro qsort_unique assms(2)) (simp_all add: assms(1))
  then show ?thesis by (metis append_eq_conv_conj length_qsort)
qed

end

subsection \<open>The engine's orders\<close>

text \<open>The values of one type a column holds: null ones, and no real that is not a number.\<close>

definition column_values :: "coltype \<Rightarrow> Value set" where
  "column_values ty = {v. isNull v \<or> (vtype v = ty \<and> (ty = TYPE_FLOAT \<longrightarrow> \<not> fl_nan (floatValue v)))}"

text \<open>\<open>orderCompare\<close> of \<^verbatim>\<open>06_executor.c\<close>: null is a value here and comes first.\<close>

definition orderCompare :: "Value \<Rightarrow> Value \<Rightarrow> int" where
  "orderCompare a b =
     (if isNull a \<or> isNull b then (if isNull a \<and> isNull b then 0 else if isNull a then -1 else 1)
      else compareValues a b)"

interpretation text_order: total_comparator UNIV compareText
proof
  show "compareText a b < 0 \<longleftrightarrow> compareText b a > 0" for a b using compareText_swap [of a b] by linarith
  show "compareText a b \<le> 0 \<Longrightarrow> compareText b c \<le> 0 \<Longrightarrow> compareText a c \<le> 0" for a b c by (rule compareText_trans)
  show "compareText a a = 0" for a using compareText_zero [of a a] by blast
qed (use compareText_zero in blast)

lemma compareValues_of:
  "vtype a = ty \<Longrightarrow> compareValues a b =
     (case ty of TYPE_INT \<Rightarrow> sgn (sint (intValue a) - sint (intValue b))
      | TYPE_DATE \<Rightarrow> sgn (sint (intValue a) - sint (intValue b))
      | TYPE_FLOAT \<Rightarrow> if fl_nan (floatValue a) \<or> fl_nan (floatValue b) then 0
                      else sgn (fl_key (floatValue a) - fl_key (floatValue b))
      | _ \<Rightarrow> compareText (vtext a) (vtext b))"
  by (auto simp: compareValues_def intLike_def fl_less_def split: coltype.split)

lemma sgn_trans: "sgn (a - b) \<le> 0 \<Longrightarrow> sgn (b - c) \<le> 0 \<Longrightarrow> sgn (a - c) \<le> (0 :: int)"
  by (auto simp: sgn_if split: if_splits)

interpretation order: comparator "column_values ty" orderCompare for ty
proof
  fix a b c
  assume ab: "a \<in> column_values ty" "b \<in> column_values ty"
  show "orderCompare a a = 0"
    using ab(1) text_order.refl by (simp add: orderCompare_def column_values_def compareValues_of split: coltype.split)
  show "orderCompare a b < 0 \<longleftrightarrow> orderCompare b a > 0"
  proof (cases "isNull a \<or> isNull b")
    case True
    then show ?thesis by (cases "isNull a"; cases "isNull b"; simp add: orderCompare_def)
  next
    case False
    then have ty: "vtype a = ty" "vtype b = ty" using ab by (auto simp: column_values_def)
    have sgn: "sgn (x - y) < 0 \<longleftrightarrow> sgn (y - x) > (0 :: int)" for x y by (simp add: sgn_if)
    note cmp = compareValues_of [OF ty(1)] compareValues_of [OF ty(2)]
    show ?thesis
      using False by (cases ty) (simp_all add: orderCompare_def cmp text_order.swap sgn)
  qed
  assume c: "c \<in> column_values ty" and le: "orderCompare a b \<le> 0" "orderCompare b c \<le> 0"
  show "orderCompare a c \<le> 0"
  proof (cases "isNull a \<or> isNull b \<or> isNull c")
    case True
    then show ?thesis
      using le by (cases "isNull a"; cases "isNull b"; cases "isNull c"; simp add: orderCompare_def)
  next
    case False
    then have ty: "vtype a = ty" "vtype b = ty" and v: "orderCompare a b = compareValues a b"
        "orderCompare b c = compareValues b c" "orderCompare a c = compareValues a c"
      using ab by (auto simp: column_values_def orderCompare_def)
    have nan: "\<not> fl_nan (floatValue x)" if "ty = TYPE_FLOAT" "x \<in> {a, b, c}" for x
      using False ab c that by (auto simp: column_values_def)
    note cmp = compareValues_of [OF ty(1)] compareValues_of [OF ty(2)]
    show ?thesis
    proof (cases ty)
      case TYPE_FLOAT
      then show ?thesis
        using le nan sgn_trans [of "fl_key (floatValue a)" "fl_key (floatValue b)" "fl_key (floatValue c)"]
        by (simp add: v cmp)
    qed (use le sgn_trans [of "sint (intValue a)" "sint (intValue b)" "sint (intValue c)"]
           compareText_trans [of "vtext a" "vtext b" "vtext c"] in \<open>simp_all add: v cmp\<close>)
  qed
qed

end
