(* ===== verification/Results.thy ===== *)
theory Results
  imports Evaluate Comparators
begin

text \<open>
  Result sets as they are built: growing the arrays behind them, finding a column by its header, and
  binding HAVING to the headers; \<^verbatim>\<open>06_executor.c\<close> and \<^verbatim>\<open>08_result_set.c\<close>.
\<close>

subsection \<open>Growing arrays\<close>

text \<open>
  \<^verbatim>\<open>while (grown < rows) grown *= 2\<close> from a capacity that is not zero. \<open>memory\<close> is whether
  \<^verbatim>\<open>realloc\<close> finds room; the new capacity is the result.
\<close>

definition INITIAL_RESULT_ROWS :: nat where "INITIAL_RESULT_ROWS = 256"

function doubled :: "nat \<Rightarrow> nat \<Rightarrow> nat" where
  "doubled grown rows = (if 0 < grown \<and> grown < rows then doubled (grown * 2) rows else grown)"
  by pat_completeness auto
termination
  by (relation "measure (\<lambda>(grown, rows). rows - grown)") auto

declare doubled.simps [simp del]

definition reserve :: "bool \<Rightarrow> nat \<Rightarrow> nat \<Rightarrow> error + nat" where
  "reserve memory capacity rows =
     (if rows \<le> capacity then Inr capacity
      else if \<not> memory then Inl ERROR_EXEC_OUT_OF_MEMORY
      else Inr (doubled (if capacity \<noteq> 0 then capacity else INITIAL_RESULT_ROWS) rows))"

definition resultReserve :: "bool \<Rightarrow> nat \<Rightarrow> nat \<Rightarrow> error + nat" where "resultReserve = reserve"
definition reserveProbe :: "bool \<Rightarrow> nat \<Rightarrow> nat \<Rightarrow> error + nat" where "reserveProbe = reserve"
definition reserveCandidates :: "bool \<Rightarrow> nat \<Rightarrow> nat \<Rightarrow> error + nat" where "reserveCandidates = reserve"
definition reserveOrder :: "bool \<Rightarrow> nat \<Rightarrow> nat \<Rightarrow> error + nat" where "reserveOrder = reserve"
definition reserveJoinEntries :: "bool \<Rightarrow> nat \<Rightarrow> nat \<Rightarrow> error + nat" where "reserveJoinEntries = reserve"

text \<open>The capacity reached holds the rows and is less than twice what was asked for.\<close>

lemma doubled_bounds: "0 < grown \<Longrightarrow> rows \<le> doubled grown rows \<and> doubled grown rows \<le> max grown (2 * rows - 1)"
proof (induction grown rows rule: doubled.induct)
  case (1 grown rows)
  then show ?case by (subst (1 2) doubled.simps) auto
qed

lemma reserve_enough:
  "reserve memory capacity rows = Inr c \<Longrightarrow> rows \<le> c \<and> c \<le> max capacity (max INITIAL_RESULT_ROWS (2 * rows))"
  using doubled_bounds [of "if capacity \<noteq> 0 then capacity else INITIAL_RESULT_ROWS" rows]
  by (auto simp: reserve_def INITIAL_RESULT_ROWS_def split: if_splits)

subsection \<open>Finding a column by its header\<close>

text \<open>The part of a name after its last dot, all of it when it has none.\<close>

fun unqualified :: "string list \<Rightarrow> string \<Rightarrow> nat \<Rightarrow> nat option \<Rightarrow> error + nat option" where
  "unqualified [] wanted i slot = Inr slot"
| "unqualified (h # hs) wanted i slot =
     (if \<not> stricmp (bareName h) wanted then unqualified hs wanted (Suc i) slot
      else if slot \<noteq> None then Inl ERROR_SEMANTIC_AMBIGUOUS_COLUMN
      else unqualified hs wanted (Suc i) (Some i))"

definition findHeader :: "resultset \<Rightarrow> string \<Rightarrow> error + nat" where
  "findHeader out name =
     (case List.find (\<lambda>c. stricmp (headers out ! c) name) [0..<length (headers out)] of
        Some c \<Rightarrow> Inr c
      | None \<Rightarrow>
          (case unqualified (headers out) (bareName name) 0 None of
             Inl e \<Rightarrow> Inl e
           | Inr (Some c) \<Rightarrow> Inr c
           | Inr None \<Rightarrow> Inl ERROR_SEMANTIC_COLUMN_NOT_FOUND))"

text \<open>A lookup that fails ends the statement, so what it leaves in the node is not read again.\<close>

fun resolve_headers :: "resultset \<Rightarrow> exprnode list \<Rightarrow> (error + unit) \<times> exprnode list" where
  "resolve_headers out [] = (Inr (), [])"
| "resolve_headers out (nd # nds) =
     (if ekind nd \<noteq> EXPR_COLUMN then (case resolve_headers out nds of (r, nds') \<Rightarrow> (r, nd # nds'))
      else case findHeader out (ecolumn nd) of
             Inl e \<Rightarrow> (Inl e, nd # nds)
           | Inr slot \<Rightarrow> (case resolve_headers out nds of (r, nds') \<Rightarrow> (r, nd\<lparr>eslot := int slot\<rparr> # nds')))"

definition resolveHavingExprs :: "condition \<Rightarrow> resultset \<Rightarrow> (error + unit) \<times> condition" where
  "resolveHavingExprs c out =
     (case resolve_headers out (cexprs c) of (r, pool) \<Rightarrow> (r, c\<lparr>cexprs := pool\<rparr>))"

lemma unqualified_range:
  "unqualified hs wanted i slot = Inr (Some c) \<Longrightarrow> slot = Some c \<or> (i \<le> c \<and> c < i + length hs)"
  by (induction hs wanted i slot rule: unqualified.induct) (auto split: if_splits)

lemma findHeader_range: "findHeader out name = Inr c \<Longrightarrow> c < length (headers out)"
  using unqualified_range [of "headers out" "bareName name" 0 None c]
  by (auto simp: findHeader_def find_Some_iff split: option.splits sum.splits)

subsection \<open>LIMIT\<close>

definition applyLimit :: "selectstatement \<Rightarrow> resultset \<Rightarrow> resultset" where
  "applyLimit s out =
     (if slimit s \<ge> 0 \<and> int (length (rrows out)) > slimit s then out\<lparr>rrows := take (nat (slimit s)) (rrows out)\<rparr>
      else out)"

end
