(* ===== verification/TopRows.thy ===== *)
theory TopRows
  imports Comparators
begin

text \<open>
  Keeping the best few keys in a heap, the part of \<open>selectTop\<close> of \<^verbatim>\<open>06_executor.c\<close> before its rows
  move. The heap is the front of the key array, its root the worst kept; \<open>cmp\<close> is \<open>sortCompare\<close>
  with its globals.
\<close>

subsection \<open>The heap\<close>

definition worse :: "('a \<Rightarrow> 'a \<Rightarrow> int) \<Rightarrow> 'a list \<Rightarrow> nat \<Rightarrow> nat \<Rightarrow> nat \<Rightarrow> nat" where
  "worse cmp keys n child worst = (if child < n \<and> cmp (keys ! child) (keys ! worst) > 0 then child else worst)"

definition worst_of :: "('a \<Rightarrow> 'a \<Rightarrow> int) \<Rightarrow> 'a list \<Rightarrow> nat \<Rightarrow> nat \<Rightarrow> nat" where
  "worst_of cmp keys n at =
     (let left = at * 2 + 1; right = left + 1 in worse cmp keys n right (worse cmp keys n left at))"

lemma worst_of_cases:
  "worst_of cmp keys n at = at \<or>
   (worst_of cmp keys n at \<in> {2 * at + 1, 2 * at + 2} \<and> worst_of cmp keys n at < n)"
  by (auto simp: worst_of_def worse_def Let_def)

definition exchange :: "nat \<Rightarrow> nat \<Rightarrow> 'a list \<Rightarrow> 'a list" where
  "exchange i j xs = xs[i := xs ! j, j := xs ! i]"

function siftDown :: "('a \<Rightarrow> 'a \<Rightarrow> int) \<Rightarrow> 'a list \<Rightarrow> nat \<Rightarrow> nat \<Rightarrow> 'a list" where
  "siftDown cmp keys n at =
     (let worst = worst_of cmp keys n at
      in if worst = at then keys else siftDown cmp (exchange at worst keys) n worst)"
  by pat_completeness auto
termination
proof (relation "measure (\<lambda>(cmp, keys, n, at). n - at)")
  fix cmp :: "'a \<Rightarrow> 'a \<Rightarrow> int" and keys n at worst
  assume "worst = worst_of cmp keys n at" "worst \<noteq> at"
  then show "((cmp, exchange at worst keys, n, worst), cmp, keys, n, at)
      \<in> measure (\<lambda>(cmp, keys, n, at). n - at)"
    using worst_of_cases [of cmp keys n at] by auto
qed simp

declare siftDown.simps [simp del]

text \<open>\<open>for (i = wanted / 2 - 1; i >= 0; i--)\<close>: the next index to sift is one below \<open>i\<close>.\<close>

primrec build_heap :: "('a \<Rightarrow> 'a \<Rightarrow> int) \<Rightarrow> nat \<Rightarrow> nat \<Rightarrow> 'a list \<Rightarrow> 'a list" where
  "build_heap cmp wanted 0 keys = keys"
| "build_heap cmp wanted (Suc i) keys = build_heap cmp wanted i (siftDown cmp keys wanted i)"

definition offer :: "('a \<Rightarrow> 'a \<Rightarrow> int) \<Rightarrow> nat \<Rightarrow> 'a list \<Rightarrow> nat \<Rightarrow> 'a list" where
  "offer cmp wanted keys i =
     (if cmp (keys ! i) (keys ! 0) \<ge> 0 then keys else siftDown cmp (keys[0 := keys ! i]) wanted 0)"

definition top_keys :: "('a \<Rightarrow> 'a \<Rightarrow> int) \<Rightarrow> nat \<Rightarrow> 'a list \<Rightarrow> 'a list" where
  "top_keys cmp wanted keys =
     foldl (offer cmp wanted) (build_heap cmp wanted (wanted div 2) keys) [wanted..<length keys]"

subsection \<open>Sifting keeps the keys\<close>

lemma length_exchange [simp]: "length (exchange i j xs) = length xs" by (simp add: exchange_def)

lemma nth_exchange:
  "i < length xs \<Longrightarrow> j < length xs \<Longrightarrow> exchange i j xs ! k = (if k = j then xs ! i else if k = i then xs ! j else xs ! k)"
  by (auto simp: exchange_def nth_list_update)

lemma take_exchange: "i < n \<Longrightarrow> j < n \<Longrightarrow> take n (exchange i j xs) = exchange i j (take n xs)"
  by (auto simp: exchange_def take_update_swap)

lemma drop_exchange: "i < n \<Longrightarrow> j < n \<Longrightarrow> drop n (exchange i j xs) = drop n xs"
  by (auto simp: exchange_def)

lemma mset_exchange: "i < length xs \<Longrightarrow> j < length xs \<Longrightarrow> mset (exchange i j xs) = mset xs"
  by (simp add: exchange_def mset_swap)

lemma siftDown_keeps:
  "at < n \<Longrightarrow> n \<le> length keys \<Longrightarrow>
   length (siftDown cmp keys n at) = length keys \<and>
   mset (take n (siftDown cmp keys n at)) = mset (take n keys) \<and>
   drop n (siftDown cmp keys n at) = drop n keys"
proof (induction cmp keys n at rule: siftDown.induct)
  case (1 cmp keys n at)
  let ?w = "worst_of cmp keys n at"
  show ?case
  proof (cases "?w = at")
    case True
    then show ?thesis by (simp add: siftDown.simps)
  next
    case False
    then have w: "?w < n" using worst_of_cases [of cmp keys n at] by auto
    have "siftDown cmp keys n at = siftDown cmp (exchange at ?w keys) n ?w"
      using False by (subst siftDown.simps) (simp add: Let_def)
    then show ?thesis
      using 1 False w by (simp add: take_exchange drop_exchange mset_exchange)
  qed
qed

subsection \<open>Sifting makes a heap\<close>

text \<open>Of the parents from \<open>low\<close> on, other than \<open>hole\<close>, none is better than its children.\<close>

definition heap_from :: "('a \<Rightarrow> 'a \<Rightarrow> int) \<Rightarrow> 'a list \<Rightarrow> nat \<Rightarrow> nat \<Rightarrow> nat option \<Rightarrow> bool" where
  "heap_from cmp keys n low hole \<longleftrightarrow>
     (\<forall>p c. low \<le> p \<longrightarrow> hole \<noteq> Some p \<longrightarrow> c \<in> {2 * p + 1, 2 * p + 2} \<longrightarrow> c < n \<longrightarrow> cmp (keys ! c) (keys ! p) \<le> 0)"

text \<open>The keys below the hole are no worse than the one above it.\<close>

definition bridged :: "('a \<Rightarrow> 'a \<Rightarrow> int) \<Rightarrow> 'a list \<Rightarrow> nat \<Rightarrow> nat \<Rightarrow> nat \<Rightarrow> bool" where
  "bridged cmp keys n low hole \<longleftrightarrow>
     (\<forall>p c. low \<le> p \<longrightarrow> hole \<in> {2 * p + 1, 2 * p + 2} \<longrightarrow> c \<in> {2 * hole + 1, 2 * hole + 2} \<longrightarrow> c < n \<longrightarrow>
        cmp (keys ! c) (keys ! p) \<le> 0)"

lemma heap_fromD: "heap_from cmp keys n low hole \<Longrightarrow> low \<le> p \<Longrightarrow> hole \<noteq> Some p \<Longrightarrow>
    c \<in> {2 * p + 1, 2 * p + 2} \<Longrightarrow> c < n \<Longrightarrow> cmp (keys ! c) (keys ! p) \<le> 0"
  by (auto simp: heap_from_def)

context comparator
begin

lemma worst_of_worst:
  assumes "set keys \<subseteq> V" "n \<le> length keys" "at < n" "w = worst_of cmp keys n at"
  shows "cmp (keys ! at) (keys ! w) \<le> 0" "\<And>c. c \<in> {2 * at + 1, 2 * at + 2} \<Longrightarrow> c < n \<Longrightarrow> cmp (keys ! c) (keys ! w) \<le> 0"
proof -
  have V: "i < n \<Longrightarrow> keys ! i \<in> V" for i using assms(1,2) by (auto simp: subset_iff)
  let ?l = "2 * at + 1" and ?r = "2 * at + 2"
  let ?m = "worse cmp keys n ?l at"
  have w: "w = worse cmp keys n ?r ?m" by (simp add: assms(4) worst_of_def Let_def mult.commute)
  have m: "?m < n" using assms(3) by (simp add: worse_def)
  have up: "cmp (keys ! x) (keys ! worse cmp keys n c x) \<le> 0" "c < n \<Longrightarrow> cmp (keys ! c) (keys ! worse cmp keys n c x) \<le> 0"
    if "x < n" for c x
    using refl V swap that by (auto simp: worse_def) (smt (verit) V)+
  have wn: "w < n" using m by (simp add: w worse_def)
  have mw: "cmp (keys ! ?m) (keys ! w) \<le> 0" using up(1) [OF m] w by simp
  show "cmp (keys ! at) (keys ! w) \<le> 0"
    by (rule trans [OF _ _ _ up(1) [OF assms(3)] mw]) (use V assms(3) m wn in auto)
  show "cmp (keys ! c) (keys ! w) \<le> 0" if "c \<in> {?l, ?r}" "c < n" for c
  proof (cases "c = ?r")
    case True
    then show ?thesis using up(2) [OF m] w that(2) by simp
  next
    case False
    then have "cmp (keys ! c) (keys ! ?m) \<le> 0" using up(2) [OF assms(3)] that by simp
    then show ?thesis by (rule trans [rotated 3]) (use V m wn mw that in auto)
  qed
qed

lemma siftDown_heap:
  "\<lbrakk>at < n; n \<le> length keys; set keys \<subseteq> V; low \<le> at; heap_from cmp keys n low (Some at); bridged cmp keys n low at\<rbrakk> \<Longrightarrow>
   heap_from cmp (siftDown cmp keys n at) n low None"
proof (induction "n - at" arbitrary: keys at rule: less_induct)
  case less
  let ?w = "worst_of cmp keys n at"
  note worst = worst_of_worst [OF less.prems(3,2,1) HOL.refl]
  show ?case
  proof (cases "?w = at")
    case True
    have "cmp (keys ! c) (keys ! p) \<le> 0" if "low \<le> p" "c \<in> {2 * p + 1, 2 * p + 2}" "c < n" for p c
      using heap_fromD [OF less.prems(5) that(1) _ that(2,3)] worst(2) [of c] that True by (cases "p = at") auto
    then show ?thesis using True by (simp add: siftDown.simps heap_from_def)
  next
    case False
    then have w: "?w \<in> {2 * at + 1, 2 * at + 2}" "?w < n" using worst_of_cases [of cmp keys n at] by auto
    let ?keys = "exchange at ?w keys"
    have nth: "?keys ! k = (if k = ?w then keys ! at else if k = at then keys ! ?w else keys ! k)" for k
      using less.prems(1,2) w(2) by (intro nth_exchange) auto
    have "heap_from cmp ?keys n low (Some ?w)"
      unfolding heap_from_def
    proof (intro allI impI)
      fix p c
      assume p: "low \<le> p" "Some ?w \<noteq> Some p" and c: "c \<in> {2 * p + 1, 2 * p + 2}" "c < n"
      show "cmp (?keys ! c) (?keys ! p) \<le> 0"
      proof (cases "p = at")
        case True
        then show ?thesis using worst(1) worst(2) [of c] c nth False by auto
      next
        case np: False
        have "c \<noteq> ?w" using c w(1) np by auto
        then show ?thesis
          using heap_fromD [OF less.prems(5) p(1) _ c] less.prems(6) p c np nth w by (cases "c = at") (auto simp: bridged_def)
      qed
    qed
    moreover have "bridged cmp ?keys n low ?w"
      unfolding bridged_def
    proof (intro allI impI)
      fix p c
      assume p: "low \<le> p" "?w \<in> {2 * p + 1, 2 * p + 2}" and c: "c \<in> {2 * ?w + 1, 2 * ?w + 2}" "c < n"
      have "p = at" using p(2) w(1) by auto
      moreover have "cmp (keys ! c) (keys ! ?w) \<le> 0"
        by (rule heap_fromD [OF less.prems(5) _ _ c]) (use less.prems(4) w False in auto)
      ultimately show "cmp (?keys ! c) (?keys ! p) \<le> 0" using c w nth False by auto
    qed
    moreover have "set ?keys \<subseteq> V"
      using mset_exchange [of at keys ?w] less.prems(1,2,3) w(2) by (metis order_less_le_trans set_mset_mset)
    ultimately have "heap_from cmp (siftDown cmp ?keys n ?w) n low None"
      by (intro less.hyps) (use less.prems w in auto)
    moreover have "siftDown cmp keys n at = siftDown cmp ?keys n ?w"
      using False by (subst siftDown.simps) (simp add: Let_def)
    ultimately show ?thesis by simp
  qed
qed

lemma set_siftDown: "at < n \<Longrightarrow> n \<le> length keys \<Longrightarrow> set (siftDown cmp' keys n at) = set keys"
  using siftDown_keeps [of at n keys cmp'] by (metis append_take_drop_id mset_append set_mset_mset)

lemma build_heap_heap:
  assumes "n \<le> length keys" "set keys \<subseteq> V" "i \<le> n" "heap_from cmp keys n i None"
  shows "length (build_heap cmp n i keys) = length keys \<and> mset (take n (build_heap cmp n i keys)) = mset (take n keys) \<and>
    drop n (build_heap cmp n i keys) = drop n keys \<and> heap_from cmp (build_heap cmp n i keys) n 0 None"
  using assms
proof (induction i arbitrary: keys)
  case (Suc i)
  have "heap_from cmp keys n i (Some i)" using Suc.prems(4) by (auto simp: heap_from_def Suc_le_eq)
  moreover have "bridged cmp keys n i i" by (auto simp: bridged_def)
  ultimately have "heap_from cmp (siftDown cmp keys n i) n i None"
    by (intro siftDown_heap) (use Suc.prems in auto)
  moreover note siftDown_keeps [of i n keys cmp] set_siftDown [of i n keys cmp]
  ultimately show ?case using Suc.IH [of "siftDown cmp keys n i"] Suc.prems by simp
qed simp

lemma heap_root:
  assumes "heap_from cmp keys n 0 None" "set keys \<subseteq> V" "n \<le> length keys" "i < n"
  shows "cmp (keys ! i) (keys ! 0) \<le> 0"
  using assms(4)
proof (induction i rule: less_induct)
  case (less i)
  have V: "k < n \<Longrightarrow> keys ! k \<in> V" for k using assms(2,3) by (auto simp: subset_iff)
  show ?case
  proof (cases "i = 0")
    case True
    then show ?thesis using refl V less.prems by simp
  next
    case False
    let ?p = "(i - 1) div 2"
    have p: "?p < i" "i \<in> {2 * ?p + 1, 2 * ?p + 2}" using False by auto
    then have "cmp (keys ! i) (keys ! ?p) \<le> 0" using heap_fromD [OF assms(1), of ?p i] less.prems by simp
    moreover have "cmp (keys ! ?p) (keys ! 0) \<le> 0" using less.IH [OF p(1)] p(1) less.prems by simp
    ultimately show ?thesis using trans [of "keys ! i" "keys ! ?p" "keys ! 0"] V less.prems p(1) by simp
  qed
qed

text \<open>The heap holds the least of what it was offered; \<open>rest\<close> is what it was offered and let go.\<close>

definition holds_least :: "nat \<Rightarrow> 'a list \<Rightarrow> 'a multiset \<Rightarrow> 'a list \<Rightarrow> bool" where
  "holds_least n ks M rest \<longleftrightarrow> heap_from cmp ks n 0 None \<and> mset (take n ks) + mset rest = M \<and>
     (\<forall>a \<in> set (take n ks). \<forall>b \<in> set rest. cmp a b \<le> 0)"

lemma offer_holds:
  assumes "0 < n" "n \<le> i" "i < length ks" "set ks \<subseteq> V" "set rest \<subseteq> V" "holds_least n ks M rest"
  shows "\<exists>rest'. set rest' \<subseteq> V \<and> holds_least n (offer cmp n ks i) (M + {#ks ! i#}) rest' \<and>
    length (offer cmp n ks i) = length ks \<and> drop n (offer cmp n ks i) = drop n ks \<and> set (offer cmp n ks i) \<subseteq> V"
proof -
  let ?x = "ks ! i" and ?root = "ks ! 0"
  have n: "n \<le> length ks" using assms(2,3) by simp
  have V: "?x \<in> V" "?root \<in> V" using assms(3,4) nth_mem [of 0 ks] nth_mem [of i ks] by (cases ks; auto)+
  have heap: "heap_from cmp ks n 0 None" and M: "mset (take n ks) + mset rest = M"
    and least: "\<And>a b. a \<in> set (take n ks) \<Longrightarrow> b \<in> set rest \<Longrightarrow> cmp a b \<le> 0"
    using assms(6) by (auto simp: holds_least_def)
  have root: "cmp a ?root \<le> 0" if "a \<in> set (take n ks)" for a
    using heap_root [OF heap assms(4) n] that n by (auto simp: in_set_conv_nth)
  have front: "set (take n ks) \<subseteq> V" using assms(4) by (meson order_trans set_take_subset)
  show ?thesis
  proof (cases "cmp ?x ?root \<ge> 0")
    case True
    then have "cmp ?root ?x \<le> 0" using swap V by (metis linorder_not_less)
    then have "cmp a ?x \<le> 0" if "a \<in> set (take n ks)" for a
      using trans [of a ?root ?x] root [OF that] V front that by blast
    then have "holds_least n ks (M + {#?x#}) (?x # rest)" using heap M least by (auto simp: holds_least_def)
    then show ?thesis using True assms(4,5) V(1) by (intro exI [of _ "?x # rest"]) (simp add: offer_def)
  next
    case False
    let ?ks = "ks[0 := ?x]" and ?out = "siftDown cmp (ks[0 := ?x]) n 0"
    have out: "offer cmp n ks i = ?out" using False by (simp add: offer_def)
    have V': "set ?ks \<subseteq> V" using set_update_subset_insert [of ks 0 ?x] assms(4) V(1) by blast
    have "heap_from cmp ?ks n 0 (Some 0)" using heap by (auto simp: heap_from_def)
    moreover have "bridged cmp ?ks n 0 0" by (auto simp: bridged_def)
    ultimately have h: "heap_from cmp ?out n 0 None" by (intro siftDown_heap) (use assms(1) n V' in auto)
    have keeps: "length ?out = length ks" "mset (take n ?out) = mset (take n ?ks)" "drop n ?out = drop n ks"
      using siftDown_keeps [of 0 n ?ks cmp] assms(1) n by auto
    obtain t where t: "take n ks = ?root # t" using assms(1) n by (cases ks; cases n) auto
    then have t': "take n ?ks = ?x # t" using assms(1) by (cases ks; cases n) auto
    have xr: "cmp ?x ?root \<le> 0" using False by simp
    have "cmp a ?root \<le> 0" if "a \<in> set (take n ?out)" for a
      using that root xr t t' keeps(2) by (metis list.set_intros(2) set_ConsD set_mset_mset)
    moreover have "cmp a b \<le> 0" if "a \<in> set (take n ?out)" "b \<in> set rest" for a b
    proof -
      have "a = ?x \<or> a \<in> set t" using that(1) t' keeps(2) by (metis set_ConsD set_mset_mset)
      then show ?thesis using least [of a b] least [of ?root b] trans [of ?x ?root b] xr V assms(5) that(2) t by auto
    qed
    ultimately have "holds_least n ?out (M + {#?x#}) (?root # rest)"
      using h keeps(2) t t' M by (auto simp: holds_least_def)
    then show ?thesis
      using out keeps assms(5) V V' set_siftDown [of 0 n ?ks cmp] assms(1) n by (intro exI [of _ "?root # rest"]) simp
  qed
qed

lemma top_keys_least:
  assumes "0 < n" "n \<le> length keys" "set keys \<subseteq> V"
  shows "length (top_keys cmp n keys) = length keys \<and> (\<exists>rest. mset (take n (top_keys cmp n keys)) + mset rest = mset keys \<and>
    (\<forall>a \<in> set (take n (top_keys cmp n keys)). \<forall>b \<in> set rest. cmp a b \<le> 0))"
proof -
  let ?h = "build_heap cmp n (n div 2) keys"
  have "heap_from cmp keys n (n div 2) None" by (auto simp: heap_from_def)
  note h = build_heap_heap [OF assms(2,3) div_le_dividend this]
  have hV: "set ?h \<subseteq> V" using h assms(3) by (metis append_take_drop_id mset_append set_mset_mset)
  have "\<exists>rest. set rest \<subseteq> V \<and> holds_least n (foldl (offer cmp n) ?h [n..<k]) (mset (take k keys)) rest \<and>
      length (foldl (offer cmp n) ?h [n..<k]) = length keys \<and> drop n (foldl (offer cmp n) ?h [n..<k]) = drop n keys \<and>
      set (foldl (offer cmp n) ?h [n..<k]) \<subseteq> V"
    if "n \<le> k" "k \<le> length keys" for k
    using that
  proof (induction k rule: dec_induct)
    case base
    then show ?case using h hV by (intro exI [of _ "[]"]) (simp add: holds_least_def)
  next
    case (step k)
    let ?ks = "foldl (offer cmp n) ?h [n..<k]"
    obtain rest where r: "set rest \<subseteq> V" "holds_least n ?ks (mset (take k keys)) rest" "length ?ks = length keys"
        "drop n ?ks = drop n keys" "set ?ks \<subseteq> V"
      using step by auto
    have "?ks ! k = drop n ?ks ! (k - n)" using step.hyps(1) step.prems r(3) by (simp add: nth_drop)
    also have "\<dots> = keys ! k" using r(4) step.hyps(1) step.prems by (simp add: nth_drop)
    finally have x: "?ks ! k = keys ! k" .
    have "mset (take (Suc k) keys) = mset (take k keys) + {#?ks ! k#}"
      using step.prems x by (simp add: take_Suc_conv_app_nth)
    then show ?case
      using offer_holds [OF assms(1) step.hyps(1) _ r(5,1,2)] step.hyps(1) step.prems r(3,4) by fastforce
  qed
  from this [OF assms(2) order_refl] show ?thesis by (auto simp: top_keys_def holds_least_def)
qed

end

text \<open>Where the comparison tells the keys apart, sorting what is kept gives the front of the sorted whole.\<close>

context total_comparator
begin

lemma top_keys_sorted:
  assumes "0 < n" "n \<le> length keys" "set keys \<subseteq> V"
  shows "qsort cmp (take n (top_keys cmp n keys)) = take n (qsort cmp keys)"
proof -
  obtain rest where r: "length (top_keys cmp n keys) = length keys"
      "mset (take n (top_keys cmp n keys)) + mset rest = mset keys"
      "\<And>a b. a \<in> set (take n (top_keys cmp n keys)) \<Longrightarrow> b \<in> set rest \<Longrightarrow> cmp a b \<le> 0"
    using top_keys_least [OF assms] by blast
  show ?thesis using qsort_take [OF r(2) assms(3) r(3)] r(1) assms(2) by simp
qed

end

end
