(* ===== verification/OrderBy.thy ===== *)
theory OrderBy
  imports Results TopRows
begin

text \<open>
  ORDER BY over a finished result, \<^verbatim>\<open>06_executor.c\<close>: the comparison of sort keys, the selection of
  the best few under a LIMIT, and moving the rows into their order in place. The last part shows
  that all of it is a stable sort of the rows by the terms, cut at the limit.
\<close>

subsection \<open>Sort keys\<close>

record sortkey =
  sfirst :: "Value"
  sindex :: nat

text \<open>A term is the column it reads and whether it is descending: \<open>sortSlot\<close> and \<open>sortDescending\<close>.\<close>

type_synonym terms = "(nat \<times> bool) list"

definition directed :: "bool \<Rightarrow> int \<Rightarrow> int" where "directed desc n = (if desc then - n else n)"

definition compareByIndex :: "sortkey \<Rightarrow> sortkey \<Rightarrow> int" where
  "compareByIndex a b = (if sindex a < sindex b then -1 else if sindex a > sindex b then 1 else 0)"

fun compare_later :: "row list \<Rightarrow> terms \<Rightarrow> sortkey \<Rightarrow> sortkey \<Rightarrow> int" where
  "compare_later rows [] a b = compareByIndex a b"
| "compare_later rows ((slot, desc) # ts) a b =
     (let comparison = orderCompare (rvals (rows ! sindex a) ! slot) (rvals (rows ! sindex b) ! slot)
      in if comparison \<noteq> 0 then directed desc comparison else compare_later rows ts a b)"

definition sortCompare :: "row list \<Rightarrow> terms \<Rightarrow> sortkey \<Rightarrow> sortkey \<Rightarrow> int" where
  "sortCompare rows terms a b =
     (let comparison = orderCompare (sfirst a) (sfirst b)
      in if comparison \<noteq> 0 then directed (snd (hd terms)) comparison else compare_later rows (tl terms) a b)"

subsection \<open>Moving rows\<close>

text \<open>The kept rows move forward; \<open>sortKeys[j].index\<close> becomes the place of the row.\<close>

definition compact_row :: "row list \<times> sortkey list \<Rightarrow> nat \<Rightarrow> row list \<times> sortkey list" where
  "compact_row = (\<lambda>(rows, keys) j.
     (if sindex (keys ! j) \<noteq> j then rows[j := rows ! sindex (keys ! j)] else rows,
      keys[j := (keys ! j)\<lparr>sindex := j\<rparr>]))"

definition selectTop :: "terms \<Rightarrow> row list \<Rightarrow> sortkey list \<Rightarrow> nat \<Rightarrow> row list \<times> sortkey list" where
  "selectTop terms rows keys wanted =
     (let keys = top_keys (sortCompare rows terms) wanted keys;
          keys = qsort compareByIndex (take wanted keys) @ drop wanted keys;
          (rows, keys) = foldl compact_row (rows, keys) [0..<wanted]
      in (take wanted rows, keys))"

text \<open>
  One cycle of the permutation, followed to its end: \<open>from\<close> are the \<open>index\<close> fields of the keys, whose
  other field is not read any more. The position the cycle ends at is the result.
\<close>

partial_function (option) follow_cycle :: "nat \<Rightarrow> nat \<Rightarrow> 'a list \<Rightarrow> nat list \<Rightarrow> ('a list \<times> nat list \<times> nat) option" where
  [code]: "follow_cycle i at rows index =
     (let from_at = index ! at; index = index[at := at]
      in if from_at = i then Some (rows, index, at)
         else follow_cycle i from_at (rows[at := rows ! from_at]) index)"

fun place_rows :: "nat list \<Rightarrow> 'a list \<Rightarrow> nat list \<Rightarrow> ('a list \<times> nat list) option" where
  "place_rows [] rows index = Some (rows, index)"
| "place_rows (i # todo) rows index =
     (if index ! i = i then place_rows todo rows index
      else case follow_cycle i i rows index of None \<Rightarrow> None
           | Some (rows', index', at) \<Rightarrow> place_rows todo (rows'[at := rows ! i]) index')"

subsection \<open>ORDER BY\<close>

fun order_slots :: "resultset \<Rightarrow> orderterm list \<Rightarrow> error + terms" where
  "order_slots out [] = Inr []"
| "order_slots out (t # ts) =
     (case findHeader out (ocolumn t) of Inl e \<Rightarrow> Inl e
      | Inr slot \<Rightarrow> (case order_slots out ts of Inl e \<Rightarrow> Inl e | Inr rest \<Rightarrow> Inr ((slot, descending t) # rest)))"

definition keys_of :: "nat \<Rightarrow> row list \<Rightarrow> sortkey list" where
  "keys_of slot rows = map (\<lambda>i. \<lparr>sfirst = rvals (rows ! i) ! slot, sindex = i\<rparr>) [0..<length rows]"

definition order_rows :: "terms \<Rightarrow> int \<Rightarrow> row list \<Rightarrow> row list option" where
  "order_rows terms limit rows =
     (if 0 \<le> limit \<and> limit < int (length rows) \<and> limit = 0 then Some []
      else let keys = keys_of (fst (hd terms)) rows;
               (rows, keys) = (if 0 \<le> limit \<and> limit < int (length rows) then selectTop terms rows keys (nat limit)
                               else (rows, keys));
               keys = qsort (sortCompare rows terms) (take (length rows) keys)
           in map_option fst (place_rows [0..<length rows] rows (map sindex keys)))"

definition applyOrder :: "bool \<Rightarrow> nat \<Rightarrow> selectstatement \<Rightarrow> resultset \<Rightarrow> (error + resultset) option" where
  "applyOrder memory capacity s out =
     (if sorder s = [] then Some (Inr out)
      else case order_slots out (sorder s) of Inl e \<Rightarrow> Some (Inl e)
           | Inr terms \<Rightarrow>
               (case reserveOrder memory capacity (length (rrows out)) of Inl e \<Rightarrow> Some (Inl e)
                | Inr _ \<Rightarrow> map_option (\<lambda>rows. Inr (out\<lparr>rrows := rows\<rparr>)) (order_rows terms (slimit s) (rrows out))))"

subsection \<open>Cycles put every row in its place\<close>

text \<open>
  Positions in \<open>S\<close> are settled: they hold the row the order \<open>p\<close> wants there; the others hold what
  they held. No cycle of the order crosses \<open>S\<close>.
\<close>

definition permutes :: "nat list \<Rightarrow> bool" where
  "permutes p \<longleftrightarrow> distinct p \<and> set p = {..<length p}"

definition settled :: "nat list \<Rightarrow> 'a list \<Rightarrow> nat set \<Rightarrow> 'a list \<Rightarrow> nat list \<Rightarrow> bool" where
  "settled p rows0 S rows index \<longleftrightarrow>
     length rows = length p \<and> length index = length p \<and>
     (\<forall>j < length p. if j \<in> S then index ! j = j \<and> rows ! j = rows0 ! (p ! j) else index ! j = p ! j \<and> rows ! j = rows0 ! j)"

definition closed :: "nat list \<Rightarrow> nat set \<Rightarrow> bool" where
  "closed p S \<longleftrightarrow> (\<forall>j < length p. j \<in> S \<longleftrightarrow> p ! j \<in> S)"

lemma permutes_less: "permutes p \<Longrightarrow> j < length p \<Longrightarrow> p ! j < length p"
  using nth_mem [of j p] by (auto simp: permutes_def simp del: nth_mem)

lemma permutes_inj: "permutes p \<Longrightarrow> i < length p \<Longrightarrow> j < length p \<Longrightarrow> p ! i = p ! j \<Longrightarrow> i = j"
  by (simp add: permutes_def nth_eq_iff_index_eq)

text \<open>On the way round from \<open>i\<close>: \<open>T\<close> has been passed, \<open>at\<close> is next, and each of them but \<open>i\<close> was reached from \<open>T\<close>.\<close>

definition on_cycle :: "nat list \<Rightarrow> nat set \<Rightarrow> nat \<Rightarrow> nat set \<Rightarrow> nat \<Rightarrow> bool" where
  "on_cycle p S i T at \<longleftrightarrow> T \<subseteq> {..<length p} \<and> at < length p \<and> at \<notin> S \<union> T \<and> S \<inter> T = {} \<and> i \<in> insert at T \<and>
     (\<forall>j \<in> T. p ! j \<in> insert at T \<and> p ! j \<noteq> i) \<and> (\<forall>k \<in> insert at T. k \<noteq> i \<longrightarrow> (\<exists>j \<in> T. p ! j = k))"

lemma follow_cycle_settles:
  assumes "permutes p" "closed p S"
  shows "\<lbrakk>on_cycle p S i T at; settled p rows0 (S \<union> T) rows index\<rbrakk> \<Longrightarrow>
    \<exists>rows' index' at' T'. follow_cycle i at rows index = Some (rows', index', at') \<and>
      at' < length p \<and> p ! at' = i \<and> i \<in> T' \<and> closed p (S \<union> T') \<and>
      settled p rows0 (S \<union> T') (rows'[at' := rows0 ! i]) index'"
proof (induction "length p - card T" arbitrary: T at rows index rule: less_induct)
  case less
  let ?n = "length p" and ?from = "p ! at"
  note c = less.prems(1)[unfolded on_cycle_def]
  have at: "at < ?n" "at \<notin> S" "at \<notin> T" and i: "i \<in> insert at T" using c by auto
  have fin: "finite T" using c finite_subset by blast
  have from_less: "?from < ?n" by (rule permutes_less [OF assms(1) at(1)])
  have fromS: "?from \<notin> S" using assms(2) at by (auto simp: closed_def)
  have idx: "index ! at = ?from" using less.prems(2) at by (auto simp: settled_def)
  have fresh: "?from \<notin> insert at T" if ne: "?from \<noteq> i"
  proof
    assume "?from \<in> insert at T"
    moreover have "\<forall>k \<in> insert at T. k \<noteq> i \<longrightarrow> (\<exists>j \<in> T. p ! j = k)" using c by blast
    ultimately obtain j where "j \<in> T" "p ! j = ?from" using ne by blast
    then show False using permutes_inj [OF assms(1), of j at] c at by auto
  qed
  show ?case
  proof (cases "?from = i")
    case True
    have closed': "closed p (S \<union> insert at T)"
      unfolding closed_def
    proof (intro allI impI iffI)
      fix j assume j: "j < ?n" "j \<in> S \<union> insert at T"
      then show "p ! j \<in> S \<union> insert at T" using assms(2) c True i by (auto simp: closed_def)
    next
      fix j assume j: "j < ?n" "p ! j \<in> S \<union> insert at T"
      show "j \<in> S \<union> insert at T"
      proof (cases "p ! j \<in> S")
        case False
        then have "p ! j \<in> insert at T" using j by simp
        then obtain l where "l \<in> insert at T" "p ! l = p ! j" using c True by (metis insertI1 insertI2)
        then show ?thesis using permutes_inj [OF assms(1), of l j] j c by auto
      qed (use assms(2) j in \<open>auto simp: closed_def\<close>)
    qed
    have "settled p rows0 (S \<union> insert at T) (rows[at := rows0 ! i]) (index[at := at])"
      using less.prems(2) at True by (auto simp: settled_def nth_list_update)
    moreover have "follow_cycle i at rows index = Some (rows, index[at := at], at)"
      using True idx by (subst follow_cycle.simps) (simp add: Let_def)
    ultimately show ?thesis using True at i closed' by (intro exI [of _ rows] exI [of _ "index[at := at]"] exI [of _ at] exI [of _ "insert at T"]) auto
  next
    case False
    have "on_cycle p S i (insert at T) ?from"
      unfolding on_cycle_def
    proof (intro conjI)
      show "\<forall>k \<in> insert ?from (insert at T). k \<noteq> i \<longrightarrow> (\<exists>j \<in> insert at T. p ! j = k)"
        using c by (metis insert_iff)
      show "\<forall>j \<in> insert at T. p ! j \<in> insert ?from (insert at T) \<and> p ! j \<noteq> i" using c False by auto
    qed (use c at fromS fresh [OF False] from_less in auto)
    moreover have "settled p rows0 (S \<union> insert at T) (rows[at := rows ! ?from]) (index[at := at])"
    proof -
      have "rows ! ?from = rows0 ! ?from" using less.prems(2) fromS fresh [OF False] from_less by (auto simp: settled_def)
      then show ?thesis using less.prems(2) at by (auto simp: settled_def nth_list_update)
    qed
    moreover have "card T < ?n" using c at fin card_mono [of "{..<?n}" "insert at T"] by simp
    then have "?n - card (insert at T) < ?n - card T" using at fin by simp
    ultimately have "\<exists>rows' index' at' T'. follow_cycle i ?from (rows[at := rows ! ?from]) (index[at := at]) = Some (rows', index', at') \<and>
      at' < length p \<and> p ! at' = i \<and> i \<in> T' \<and> closed p (S \<union> T') \<and>
      settled p rows0 (S \<union> T') (rows'[at' := rows0 ! i]) index'"
      by (rule less.hyps [rotated])
    then show ?thesis using False idx by (subst follow_cycle.simps) (simp add: Let_def)
  qed
qed

lemma place_rows_settles:
  assumes "permutes p"
  shows "\<lbrakk>closed p S; settled p rows0 S rows index; set todo \<subseteq> {..<length p}\<rbrakk> \<Longrightarrow>
    \<exists>rows' index' S'. place_rows todo rows index = Some (rows', index') \<and> S \<union> set todo \<subseteq> S' \<and> settled p rows0 S' rows' index'"
proof (induction todo arbitrary: S rows index)
  case (Cons i todo)
  have i: "i < length p" using Cons.prems by simp
  show ?case
  proof (cases "index ! i = i")
    case True
    then have s: "closed p (insert i S)" "settled p rows0 (insert i S) rows index"
    proof -
      have "i \<in> S \<or> p ! i = i" using Cons.prems(2) i True by (auto simp: settled_def split: if_splits)
      then show "closed p (insert i S)"
      proof
        assume fixed: "p ! i = i"
        have "p ! j \<noteq> i" if "j < length p" "j \<noteq> i" for j
          using permutes_inj [OF assms that(1) i] fixed that(2) by metis
        then show ?thesis using Cons.prems(1) fixed by (metis closed_def insert_iff)
      qed (use Cons.prems(1) in \<open>simp add: insert_absorb\<close>)
      show "settled p rows0 (insert i S) rows index"
        using Cons.prems(2) True \<open>i \<in> S \<or> p ! i = i\<close> i by (cases "i \<in> S") (auto simp: settled_def insert_absorb)
    qed
    then obtain rows' index' S' where "place_rows todo rows index = Some (rows', index')" "insert i S \<union> set todo \<subseteq> S'"
        "settled p rows0 S' rows' index'"
      using Cons.IH [OF s] Cons.prems(3) by auto
    then show ?thesis using True by (intro exI [of _ rows'] exI [of _ index'] exI [of _ S']) auto
  next
    case False
    have iS: "i \<notin> S" using Cons.prems(2) i False by (auto simp: settled_def)
    have "on_cycle p S i {} i" using i iS by (simp add: on_cycle_def)
    moreover have "settled p rows0 (S \<union> {}) rows index" using Cons.prems(2) by simp
    ultimately obtain rows1 index1 at T where f: "follow_cycle i i rows index = Some (rows1, index1, at)"
        "i \<in> T" "closed p (S \<union> T)" "settled p rows0 (S \<union> T) (rows1[at := rows0 ! i]) index1"
      using follow_cycle_settles [OF assms Cons.prems(1)] by blast
    have "rows ! i = rows0 ! i" using Cons.prems(2) i iS by (auto simp: settled_def)
    then have "place_rows (i # todo) rows index = place_rows todo (rows1[at := rows0 ! i]) index1" using False f(1) by simp
    moreover obtain rows' index' S' where "place_rows todo (rows1[at := rows0 ! i]) index1 = Some (rows', index')"
        "S \<union> T \<union> set todo \<subseteq> S'" "settled p rows0 S' rows' index'"
      using Cons.IH [OF f(3,4)] Cons.prems(3) by auto
    ultimately show ?thesis using f(2) by (intro exI [of _ rows'] exI [of _ index'] exI [of _ S']) auto
  qed
qed (auto simp: subset_iff)

lemma place_rows_permutes:
  assumes "permutes p" "length rows = length p"
  shows "map_option fst (place_rows [0..<length rows] rows p) = Some (map (\<lambda>j. rows ! j) p)"
proof -
  have "closed p {}" "settled p rows {} rows p" using assms(2) by (auto simp: closed_def settled_def)
  moreover have todo: "set [0..<length rows] = {..<length p}" using assms(2) by (simp add: atLeast0LessThan)
  ultimately obtain rows' index' S' where r: "place_rows [0..<length rows] rows p = Some (rows', index')"
      "{} \<union> {..<length p} \<subseteq> S'" "settled p rows S' rows' index'"
    using place_rows_settles [OF assms(1), of "{}" rows rows p "[0..<length rows]"] by (metis order_refl)
  have "rows' = map (\<lambda>j. rows ! j) p"
    using r(2,3) by (intro nth_equalityI) (auto simp: settled_def subset_iff)
  then show ?thesis using r(1) by simp
qed

subsection \<open>The order of rows\<close>

fun row_compare :: "terms \<Rightarrow> row \<Rightarrow> row \<Rightarrow> int" where
  "row_compare [] a b = 0"
| "row_compare ((slot, desc) # ts) a b =
     (let comparison = orderCompare (rvals a ! slot) (rvals b ! slot)
      in if comparison \<noteq> 0 then directed desc comparison else row_compare ts a b)"

text \<open>Each column ordered by holds values of one type, null or numbers where it is real.\<close>

definition uniform :: "row list \<Rightarrow> terms \<Rightarrow> bool" where
  "uniform rows terms \<longleftrightarrow> (\<forall>t \<in> set terms. \<exists>ty. \<forall>r \<in> set rows. rvals r ! fst t \<in> column_values ty)"

lemma uniform_subset: "uniform rows terms \<Longrightarrow> set rows' \<subseteq> set rows \<Longrightarrow> uniform rows' terms"
  unfolding uniform_def by (meson subsetD)

lemma comparator_lex:
  assumes "comparator V f" "comparator V g"
  shows "comparator V (\<lambda>a b. if f a b \<noteq> 0 then f a b else g a b)"
proof
  fix a b c
  show "(if f a a \<noteq> 0 then f a a else g a a) = 0" if "a \<in> V"
    using comparator.refl [OF assms(1) that] comparator.refl [OF assms(2) that] by simp
  have zero: "f b a = 0" if "a \<in> V" "b \<in> V" "f a b = 0" for a b
    using comparator.swap [OF assms(1) that(1,2)] comparator.swap [OF assms(1) that(2,1)] that(3) by linarith
  show "(if f a b \<noteq> 0 then f a b else g a b) < 0 \<longleftrightarrow> (if f b a \<noteq> 0 then f b a else g b a) > 0" if "a \<in> V" "b \<in> V"
    using comparator.swap [OF assms(1) that] comparator.swap [OF assms(2) that] zero [OF that] zero [OF that(2,1)]
    by (cases "f a b = 0"; cases "f b a = 0"; simp)
  assume V: "a \<in> V" "b \<in> V" "c \<in> V" and ab: "(if f a b \<noteq> 0 then f a b else g a b) \<le> 0"
    and bc: "(if f b c \<noteq> 0 then f b c else g b c) \<le> 0"
  have f: "f a b \<le> 0" "f b c \<le> 0" using ab bc by (auto split: if_splits)
  have ac: "f a c \<le> 0" by (rule comparator.trans [OF assms(1) V f])
  show "(if f a c \<noteq> 0 then f a c else g a c) \<le> 0"
  proof (cases "f a c = 0")
    case True
    have "f c a \<le> 0" using zero [OF V(1,3) True] by simp
    then have "f b a \<le> 0" "f c b \<le> 0"
      using comparator.trans [OF assms(1) V(2,3,1) f(2)] comparator.trans [OF assms(1) V(3,1,2) _ f(1)] by simp_all
    then have "f a b = 0" "f b c = 0"
      using f comparator.swap [OF assms(1) V(1,2)] comparator.swap [OF assms(1) V(2,3)] by linarith+
    then show ?thesis using comparator.trans [OF assms(2) V] ab bc True by simp
  qed (use ac in simp)
qed

lemma comparator_directed:
  assumes "comparator V f" shows "comparator V (\<lambda>a b. directed desc (f a b))"
proof
  fix a b c
  show "directed desc (f a a) = 0" if "a \<in> V" using comparator.refl [OF assms that] by (simp add: directed_def)
  show "directed desc (f a b) < 0 \<longleftrightarrow> directed desc (f b a) > 0" if "a \<in> V" "b \<in> V"
    using comparator.swap [OF assms that] comparator.swap [OF assms that(2,1)] by (auto simp: directed_def)
  assume V: "a \<in> V" "b \<in> V" "c \<in> V" and le: "directed desc (f a b) \<le> 0" "directed desc (f b c) \<le> 0"
  have up: "0 \<le> f x y \<longleftrightarrow> f y x \<le> 0" if "x \<in> V" "y \<in> V" for x y
    using comparator.swap [OF assms that] by linarith
  show "directed desc (f a c) \<le> 0"
    using le comparator.trans [OF assms V] comparator.trans [OF assms V(3,2,1)] up V by (auto simp: directed_def split: if_splits)
qed

lemma comparator_through:
  "comparator W f \<Longrightarrow> (\<And>a. a \<in> V \<Longrightarrow> h a \<in> W) \<Longrightarrow> comparator V (\<lambda>a b. f (h a) (h b))"
  unfolding comparator_def by meson

lemma comparator_cong:
  assumes f: "comparator V f" and e: "\<And>a b. a \<in> V \<Longrightarrow> b \<in> V \<Longrightarrow> g a b = f a b"
  shows "comparator V g"
proof
  fix a b c
  show "g a a = 0" if "a \<in> V" using e [OF that that] comparator.refl [OF f that] by simp
  show "g a b < 0 \<longleftrightarrow> g b a > 0" if "a \<in> V" "b \<in> V"
    using e [OF that] e [OF that(2,1)] comparator.swap [OF f that] by simp
  assume V: "a \<in> V" "b \<in> V" "c \<in> V" and le: "g a b \<le> 0" "g b c \<le> 0"
  show "g a c \<le> 0"
    using comparator.trans [OF f V] le e [OF V(1,2)] e [OF V(2,3)] e [OF V(1,3)] by simp
qed

lemma row_compare_comparator: "uniform rows terms \<Longrightarrow> comparator (set rows) (row_compare terms)"
proof (induction terms)
  case (Cons t ts)
  obtain slot desc where t: "t = (slot, desc)" by fastforce
  obtain ty where ty: "\<And>r. r \<in> set rows \<Longrightarrow> rvals r ! slot \<in> column_values ty"
    using Cons.prems t by (auto simp: uniform_def)
  let ?f = "\<lambda>a b. directed desc (orderCompare (rvals a ! slot) (rvals b ! slot))"
  have "comparator (set rows) ?f"
    by (intro comparator_directed comparator_through [OF order.comparator_axioms [of ty]] ty)
  moreover have "comparator (set rows) (row_compare ts)" using Cons by (auto simp: uniform_def)
  ultimately have "comparator (set rows) (\<lambda>a b. if ?f a b \<noteq> 0 then ?f a b else row_compare ts a b)"
    by (rule comparator_lex)
  moreover have "row_compare (t # ts) = (\<lambda>a b. if ?f a b \<noteq> 0 then ?f a b else row_compare ts a b)"
    by (intro ext) (auto simp: t Let_def directed_def)
  ultimately show ?case by simp
qed (unfold_locales; simp)

text \<open>A key stands for its row.\<close>

definition sort_keys :: "row list \<Rightarrow> terms \<Rightarrow> sortkey set" where
  "sort_keys rows terms = {k. sindex k < length rows \<and> terms \<noteq> [] \<and> uniform rows terms \<and>
     sfirst k = rvals (rows ! sindex k) ! fst (hd terms)}"

lemma compare_later_rows:
  "compare_later rows ts a b =
     (if row_compare ts (rows ! sindex a) (rows ! sindex b) \<noteq> 0 then row_compare ts (rows ! sindex a) (rows ! sindex b)
      else compareByIndex a b)"
  by (induction ts) (auto simp: Let_def directed_def)

lemma sortCompare_rows:
  assumes "a \<in> sort_keys rows terms" "b \<in> sort_keys rows terms"
  shows "sortCompare rows terms a b =
     (if row_compare terms (rows ! sindex a) (rows ! sindex b) \<noteq> 0 then row_compare terms (rows ! sindex a) (rows ! sindex b)
      else compareByIndex a b)"
proof (cases terms)
  case (Cons t ts)
  then show ?thesis
    using assms by (cases t) (auto simp: sort_keys_def sortCompare_def compare_later_rows Let_def directed_def)
qed (use assms in \<open>simp add: sort_keys_def\<close>)

interpretation by_index: comparator UNIV compareByIndex
  by unfold_locales (auto simp: compareByIndex_def split: if_splits)

interpretation sort: total_comparator "sort_keys rows terms" "sortCompare rows terms" for rows terms
proof -
  let ?V = "sort_keys rows terms"
  let ?g = "\<lambda>a b. row_compare terms (rows ! sindex a) (rows ! sindex b)"
  let ?f = "\<lambda>a b. if ?g a b \<noteq> 0 then ?g a b else compareByIndex a b"
  have "comparator ?V ?f"
  proof (cases "uniform rows terms")
    case True
    have "comparator ?V ?g"
      by (rule comparator_through [OF row_compare_comparator [OF True]]) (simp add: sort_keys_def)
    moreover have "comparator ?V compareByIndex" using by_index.comparator_axioms by (simp add: comparator_def)
    ultimately show ?thesis by (rule comparator_lex)
  qed (simp add: sort_keys_def comparator_def)
  then have c: "comparator ?V (sortCompare rows terms)"
    by (rule comparator_cong) (rule sortCompare_rows)
  have "a = b" if "a \<in> ?V" "b \<in> ?V" "sortCompare rows terms a b = 0" for a b
    using that sortCompare_rows [OF that(1,2)]
    by (auto simp: sort_keys_def compareByIndex_def split: if_splits)
  then show "total_comparator ?V (sortCompare rows terms)"
    using c by (simp add: total_comparator_def total_comparator_axioms_def)
qed

subsection \<open>Sorting keys sorts rows\<close>

abbreviation row_of :: "row list \<Rightarrow> sortkey \<Rightarrow> row" where "row_of rows \<equiv> \<lambda>k. rows ! sindex k"

lemma qsort_stable:
  assumes "set ks \<subseteq> sort_keys rows terms" "sorted_wrt (\<lambda>a b. sindex a < sindex b) ks"
  shows "map (row_of rows) (qsort (sortCompare rows terms) ks) = qsort (row_compare terms) (map (row_of rows) ks)"
  using assms
proof (induction ks)
  case (Cons k ks)
  have "row_compare terms (row_of rows k) (row_of rows l) \<le> 0 \<longleftrightarrow> sortCompare rows terms k l \<le> 0" if "l \<in> set ks" for l
    using Cons.prems that sortCompare_rows [of k rows terms l] by (auto simp: compareByIndex_def subset_iff split: if_splits)
  then have "map (row_of rows) (insert_by (sortCompare rows terms) k (qsort (sortCompare rows terms) ks)) =
      insert_by (row_compare terms) (row_of rows k) (map (row_of rows) (qsort (sortCompare rows terms) ks))"
    by (intro insert_by_map) simp
  then show ?case using Cons by (simp add: qsort_def)
qed (simp add: qsort_def)

lemma keys_of_rows: "map (row_of rows) (keys_of slot rows) = rows" "map sindex (keys_of slot rows) = [0..<length rows]"
  by (simp_all add: keys_of_def comp_def map_nth)

lemma keys_of_first: "map sfirst (keys_of slot rows) = map (\<lambda>r. rvals r ! slot) rows"
  by (rule nth_equalityI) (simp_all add: keys_of_def)

lemma keys_of_sorted: "sorted_wrt (\<lambda>a b. sindex a < sindex b) (keys_of slot rows)"
  by (simp add: keys_of_def sorted_wrt_map)

lemma keys_of_sort_keys:
  "uniform rows terms \<Longrightarrow> terms \<noteq> [] \<Longrightarrow> set (keys_of (fst (hd terms)) rows) \<subseteq> sort_keys rows terms"
  by (auto simp: keys_of_def sort_keys_def)

lemma increasing_index:
  "sorted_wrt (<) xs \<Longrightarrow> j < length xs \<Longrightarrow> j \<le> (xs ! j :: nat)"
proof (induction j)
  case (Suc j)
  then have "xs ! j < xs ! Suc j" by (simp add: sorted_wrt_iff_nth_less)
  then show ?case using Suc by simp
qed simp

lemma compact_rows:
  assumes "sorted_wrt (<) (map sindex K)" "\<And>k. k \<in> set K \<Longrightarrow> sindex k < length rows" "length K \<le> length rows"
    and "foldl compact_row (rows, K @ D) [0..<length K] = (rows', keys')"
  shows "take (length K) rows' = map (row_of rows) K" "map sfirst (take (length K) keys') = map sfirst K"
    "map sindex (take (length K) keys') = [0..<length K]"
proof -
  define good where "good = (\<lambda>j rs ks. length rs = length rows \<and> length ks = length (K @ D) \<and>
    (\<forall>i < length rows. rs ! i = (if i < j then row_of rows (K ! i) else rows ! i)) \<and>
    (\<forall>i < length (K @ D). ks ! i = (if i < j then (K ! i)\<lparr>sindex := i\<rparr> else (K @ D) ! i)))"
  have "good j (fst (foldl compact_row (rows, K @ D) [0..<j])) (snd (foldl compact_row (rows, K @ D) [0..<j]))"
    if "j \<le> length K" for j
    using that
  proof (induction j)
    case 0
    then show ?case by (simp add: good_def)
  next
    case (Suc j)
    obtain rs ks where f: "foldl compact_row (rows, K @ D) [0..<j] = (rs, ks)" by fastforce
    have g: "good j rs ks" using Suc f by simp
    have k: "ks ! j = K ! j" using g Suc.prems by (auto simp: good_def nth_append)
    have "j \<le> sindex (K ! j)" using increasing_index [OF assms(1), of j] Suc.prems by simp
    moreover have "sindex (K ! j) < length rows" using assms(2) Suc.prems by simp
    ultimately have "rs ! sindex (K ! j) = row_of rows (K ! j)" using g by (auto simp: good_def)
    then have "good (Suc j) (if sindex (K ! j) \<noteq> j then rs[j := rs ! sindex (K ! j)] else rs) (ks[j := (K ! j)\<lparr>sindex := j\<rparr>])"
      using g Suc.prems assms(3) by (auto simp: good_def nth_list_update less_Suc_eq)
    moreover have "compact_row (rs, ks) j =
        (if sindex (K ! j) \<noteq> j then rs[j := rs ! sindex (K ! j)] else rs, ks[j := (K ! j)\<lparr>sindex := j\<rparr>])"
      by (simp add: compact_row_def k)
    ultimately show ?case using f by simp
  qed
  from this [of "length K"] have g: "good (length K) rows' keys'" using assms(4) by simp
  show "take (length K) rows' = map (row_of rows) K" using g assms(3) by (intro nth_equalityI) (auto simp: good_def)
  show "map sfirst (take (length K) keys') = map sfirst K" using g by (intro nth_equalityI) (auto simp: good_def)
  show "map sindex (take (length K) keys') = [0..<length K]" using g by (intro nth_equalityI) (auto simp: good_def)
qed

lemma sortkey_list_eqI: "map sfirst ks = map sfirst ls \<Longrightarrow> map sindex ks = map sindex ls \<Longrightarrow> ks = (ls :: sortkey list)"
proof (induction ks arbitrary: ls)
  case (Cons k ks)
  then show ?case by (cases ls) (auto intro: sortkey.equality)
qed simp

text \<open>What the selection leaves: the best rows in the order they had, with keys as for a result of their own.\<close>

lemma selectTop_rows:
  assumes "uniform rows terms" "terms \<noteq> []" "0 < wanted" "wanted < length rows"
    and "selectTop terms rows (keys_of (fst (hd terms)) rows) wanted = (rows', keys')"
  shows "length rows' = wanted" "set rows' \<subseteq> set rows" "take wanted keys' = keys_of (fst (hd terms)) rows'"
    "qsort (row_compare terms) rows' = take wanted (qsort (row_compare terms) rows)"
proof -
  let ?keys = "keys_of (fst (hd terms)) rows" and ?sc = "sortCompare rows terms"
  define kept where "kept = take wanted (top_keys ?sc wanted ?keys)"
  define K where "K = qsort compareByIndex kept"
  note V = keys_of_sort_keys [OF assms(1,2)]
  have n: "length ?keys = length rows" by (simp add: keys_of_def)
  obtain rest where least: "length (top_keys ?sc wanted ?keys) = length ?keys" "mset kept + mset rest = mset ?keys"
    using sort.top_keys_least [OF assms(3) _ V] assms(4) n by (auto simp: kept_def)
  have K: "mset K = mset kept" "length K = wanted" using least(1) assms(4) n by (simp_all add: K_def kept_def)
  have sub: "set K \<subseteq> set ?keys" using K(1) least(2) by (metis Un_upper1 set_mset_mset set_mset_union)
  have "sorted_by compareByIndex K" unfolding K_def by (rule by_index.qsort_sorted) simp
  then have le: "sorted (map sindex K)"
    by (auto simp: sorted_by_def sorted_wrt_map compareByIndex_def elim!: sorted_wrt_mono_rel [rotated] split: if_splits)
  have "image_mset sindex (mset kept) + image_mset sindex (mset rest) = mset [0..<length rows]"
    using arg_cong [OF least(2), of "image_mset sindex"] by (simp add: keys_of_rows flip: mset_map)
  then have "distinct (map sindex kept @ map sindex rest)"
    by (metis distinct_upt mset_append mset_eq_imp_distinct_iff mset_map)
  then have "distinct (map sindex K)" using K(1) by (metis distinct_append mset_eq_imp_distinct_iff mset_map)
  then have lt: "sorted_wrt (<) (map sindex K)" using le strict_sorted_iff by blast
  have in_rows: "sindex k < length rows" if "k \<in> set K" for k using sub that by (auto simp: keys_of_def)
  obtain rs ks where f: "foldl compact_row (rows, K @ drop wanted (top_keys ?sc wanted ?keys)) [0..<length K] = (rs, ks)" by fastforce
  then have out: "rows' = take wanted rs" "keys' = ks"
    using assms(5) K(2) by (simp_all add: selectTop_def Let_def K_def kept_def)
  note c = compact_rows [OF lt in_rows _ f]
  have rows': "rows' = map (row_of rows) K" using c(1) assms(4) K(2) out by simp
  then show "length rows' = wanted" "set rows' \<subseteq> set rows" using K(2) in_rows by auto
  have first: "sfirst k = rvals (row_of rows k) ! fst (hd terms)" if "k \<in> set K" for k using sub V that by (auto simp: sort_keys_def)
  show "take wanted keys' = keys_of (fst (hd terms)) rows'"
  proof (rule sortkey_list_eqI)
    show "map sfirst (take wanted keys') = map sfirst (keys_of (fst (hd terms)) rows')"
      using c(2) K(2) assms(4) out(2) first by (simp add: keys_of_first rows')
    show "map sindex (take wanted keys') = map sindex (keys_of (fst (hd terms)) rows')"
      using c(3) K(2) assms(4) out(2) by (simp add: keys_of_rows rows')
  qed
  have "qsort (row_compare terms) rows' = map (row_of rows) (qsort ?sc K)"
    unfolding rows' by (rule qsort_stable [symmetric]) (use sub V lt in \<open>auto simp: sorted_wrt_map\<close>)
  also have "qsort ?sc K = qsort ?sc kept"
    using sub V K(1) by (intro sort.qsort_unique) (auto simp: sort.qsort_sorted simp flip: set_mset_mset)
  also have "\<dots> = take wanted (qsort ?sc ?keys)"
    unfolding kept_def using sort.top_keys_sorted [OF assms(3) _ V] assms(4) n by simp
  also have "map (row_of rows) \<dots> = take wanted (qsort (row_compare terms) rows)"
    using qsort_stable [OF V keys_of_sorted] by (simp add: take_map [symmetric] keys_of_rows)
  finally show "qsort (row_compare terms) rows' = take wanted (qsort (row_compare terms) rows)" .
qed

lemma place_sorted:
  assumes "uniform rows terms" "terms \<noteq> []" "slot = fst (hd terms)"
  shows "map_option fst (place_rows [0..<length rows] rows (map sindex (qsort (sortCompare rows terms) (keys_of slot rows)))) =
    Some (qsort (row_compare terms) rows)"
proof -
  let ?p = "map sindex (qsort (sortCompare rows terms) (keys_of slot rows))"
  have "mset ?p = mset (map sindex (keys_of slot rows))" by (simp only: mset_map mset_qsort)
  then have "mset ?p = mset [0..<length rows]" by (simp only: keys_of_rows)
  then have "permutes ?p"
    unfolding permutes_def by (metis atLeast_upt distinct_upt length_map length_qsort keys_of_rows(2) length_upt minus_nat.diff_0 mset_eq_imp_distinct_iff mset_eq_setD)
  moreover have "length rows = length ?p" by (simp add: keys_of_def)
  ultimately have "map_option fst (place_rows [0..<length rows] rows ?p) = Some (map ((!) rows) ?p)"
    by (rule place_rows_permutes)
  moreover have "map ((!) rows) ?p = qsort (row_compare terms) rows"
    using qsort_stable [OF keys_of_sort_keys [OF assms(1,2)] keys_of_sorted] assms(3) by (simp add: comp_def keys_of_rows)
  ultimately show ?thesis by simp
qed

lemma order_rows_sorts:
  assumes "uniform rows terms" "terms \<noteq> []"
  shows "order_rows terms limit rows =
    Some (if 0 \<le> limit \<and> limit < int (length rows) then take (nat limit) (qsort (row_compare terms) rows)
          else qsort (row_compare terms) rows)"
proof (cases "0 \<le> limit \<and> limit < int (length rows)")
  case False
  have "take (length rows) (keys_of (fst (hd terms)) rows) = keys_of (fst (hd terms)) rows" by (simp add: keys_of_def)
  then show ?thesis
    using False place_sorted [OF assms HOL.refl]
    by (simp only: order_rows_def Let_def if_not_P prod.case not_False_eq_True refl if_False conj_assoc) auto
next
  case top: True
  show ?thesis
  proof (cases "limit = 0")
    case True
    then show ?thesis using top by (simp add: order_rows_def)
  next
    case False
    then have w: "0 < nat limit" "nat limit < length rows" using top by auto
    obtain rows' keys' where s: "selectTop terms rows (keys_of (fst (hd terms)) rows) (nat limit) = (rows', keys')" by fastforce
    note t = selectTop_rows [OF assms w s]
    note u = uniform_subset [OF assms(1) t(2)]
    show ?thesis using False top s t place_sorted [OF u assms(2) HOL.refl] by (simp add: order_rows_def Let_def)
  qed
qed

subsection \<open>Properties\<close>

lemma order_slots_Nil: "order_slots out ts = Inr [] \<Longrightarrow> ts = []"
  by (cases ts) (auto split: sum.splits)

text \<open>
  C27: ORDER BY and LIMIT. Where the terms name output columns, each holding values of one type,
  ordering the result and cutting it at the limit ends, and gives the first rows of a stable sort by
  the terms: the heap that keeps the best few of a limited result, the compaction of its rows and
  the cycles that put rows into place agree with sorting all of them.
\<close>
theorem order_by_sorts:
  assumes "sorder s \<noteq> []" "order_slots out (sorder s) = Inr terms" "uniform (rrows out) terms"
    and "reserveOrder memory capacity (length (rrows out)) = Inr capacity'"
  shows "let sorted = qsort (row_compare terms) (rrows out)
    in map_option (map_sum id (applyLimit s)) (applyOrder memory capacity s out) =
         Some (Inr (out\<lparr>rrows := if 0 \<le> slimit s then take (nat (slimit s)) sorted else sorted\<rparr>)) \<and>
       sorted_by (row_compare terms) sorted \<and> mset sorted = mset (rrows out)"
proof -
  let ?sorted = "qsort (row_compare terms) (rrows out)"
  have "terms \<noteq> []" using assms(1,2) order_slots_Nil by blast
  then have "applyOrder memory capacity s out =
      Some (Inr (out\<lparr>rrows := if 0 \<le> slimit s \<and> slimit s < int (length (rrows out)) then take (nat (slimit s)) ?sorted else ?sorted\<rparr>))"
    using assms order_rows_sorts [OF assms(3)] by (simp add: applyOrder_def)
  moreover have "sorted_by (row_compare terms) ?sorted"
    by (rule comparator.qsort_sorted [OF row_compare_comparator [OF assms(3)]]) simp
  ultimately show ?thesis by (auto simp: applyLimit_def)
qed

definition demo_result :: resultset where
  "demo_result = blank_result\<lparr>headers := [''t.a''], rtypes := [TYPE_INT],
     rrows := map (\<lambda>n. blank_row\<lparr>rvals := [n], ncols := 1\<rparr>)
       [blank_value\<lparr>intValue := 4\<rparr>, blank_value\<lparr>intValue := 9\<rparr>, setNull TYPE_INT, blank_value\<lparr>intValue := 6\<rparr>]\<rparr>"

definition demo_select :: selectstatement where
  "demo_select = \<lparr>sitems = [], sexprs = [], selectAll = True, stable = ''t'', stables = [''t''], saliases = [[]], souter = [False],
     onRoot = [-1], swhere = blank_condition, sdistinct = False, having = blank_condition,
     sorder = [\<lparr>ocolumn = ''A'', descending = True\<rparr>], slimit = 2, groupBy = []\<rparr>"

theorem order_by_sorts_witness:
  "map_option (map_sum id (\<lambda>out. map (\<lambda>r. sint (intValue (rvals r ! 0))) (rrows (applyLimit demo_select out))))
     (applyOrder True 0 demo_select demo_result) = Some (Inr [9, 6])"
proof -
  have slots: "order_slots demo_result (sorder demo_select) = Inr [(0, True)]" by code_simp
  have u: "uniform (rrows demo_result) [(0, True)]"
    by (auto simp: uniform_def demo_result_def column_values_def blank_value_def setNull_def intro!: exI [of _ TYPE_INT])
  have r: "reserveOrder True 0 (length (rrows demo_result)) = Inr 256"
    by (simp add: reserveOrder_def reserve_def demo_result_def INITIAL_RESULT_ROWS_def doubled.simps [of 256])
  have "sorder demo_select \<noteq> []" by (simp add: demo_select_def)
  note order_by_sorts [OF this slots u r]
  then have "map_option (map_sum id (applyLimit demo_select)) (applyOrder True 0 demo_select demo_result) =
      Some (Inr (demo_result\<lparr>rrows := take 2 (qsort (row_compare [(0, True)]) (rrows demo_result))\<rparr>))"
    by (simp add: Let_def demo_select_def)
  moreover have "map (\<lambda>r. sint (intValue (rvals r ! 0))) (take 2 (qsort (row_compare [(0, True)]) (rrows demo_result))) = [9, 6]"
    by (simp add: qsort_def demo_result_def blank_row_def orderCompare_def compareValues_def intLike_def directed_def
        blank_value_def setNull_def numeral_2_eq_2)
  moreover have "map_option (map_sum id (\<lambda>out. map (\<lambda>r. sint (intValue (rvals r ! 0))) (rrows (applyLimit demo_select out)))) x =
      map_option (map_sum id (\<lambda>out. map (\<lambda>r. sint (intValue (rvals r ! 0))) (rrows out))) (map_option (map_sum id (applyLimit demo_select)) x)"
    for x :: "(error + resultset) option"
    by (cases x; simp; case_tac a; simp)
  moreover have "rrows (demo_result\<lparr>rrows := xs\<rparr>) = xs" for xs by simp
  ultimately show ?thesis by (simp only: option.map map_sum.simps)
qed

end
