(* ===== verification/Hashing.thy ===== *)
theory Hashing
  imports Records
begin

text \<open>
  Hashing values and the open-addressed tables of \<^verbatim>\<open>06_executor.c\<close>: GROUP BY, DISTINCT and the hash
  join each keep an array of buckets holding an entry's index plus one, zero for an empty bucket,
  and walk it from the hash on. The walk and the placing are stated once.
\<close>

subsection \<open>Hashes\<close>

definition FNV_BASIS :: u32 where "FNV_BASIS = 2166136261"
definition FNV_PRIME :: u32 where "FNV_PRIME = 16777619"

definition fnv_step :: "u32 \<Rightarrow> byte \<Rightarrow> u32" where
  "fnv_step h b = xor h (ucast b) * FNV_PRIME"

definition hashValue :: "Value \<Rightarrow> u32" where
  "hashValue v =
     (if isNull v then xor FNV_BASIS 0x9E3779B9
      else if vtype v = TYPE_INT \<or> vtype v = TYPE_DATE
      then foldl fnv_step FNV_BASIS (map (byte_at (intValue v)) [0..<4])
      else if vtype v = TYPE_FLOAT
      then foldl fnv_step FNV_BASIS (map (byte_at (floatValue v)) [0..<8])
      else foldl fnv_step FNV_BASIS (map byte_of_char (vtext v)))"

definition hash_values :: "Value list \<Rightarrow> u32" where
  "hash_values vs = foldl (\<lambda>h v. xor h (hashValue v) * FNV_PRIME) FNV_BASIS vs"

definition hashKey :: "row \<Rightarrow> nat list \<Rightarrow> u32" where
  "hashKey r groupSlots = hash_values (map (\<lambda>s. rvals r ! s) groupSlots)"

subsection \<open>Walking the buckets\<close>

definition mask_of :: "nat list \<Rightarrow> u32" where "mask_of buckets = word_of_nat (length buckets) - 1"

text \<open>The entry \<open>same\<close> accepts, if any, and the bucket the walk stopped at.\<close>

partial_function (option) walk :: "(nat \<Rightarrow> bool) \<Rightarrow> nat list \<Rightarrow> u32 \<Rightarrow> (nat option \<times> nat) option" where
  [code]: "walk same buckets at =
     (let slot = buckets ! unat at
      in if slot = 0 then Some (None, unat at)
         else if same (slot - 1) then Some (Some (slot - 1), unat at)
         else walk same buckets (and (at + 1) (mask_of buckets)))"

definition find_entry :: "(nat \<Rightarrow> bool) \<Rightarrow> nat list \<Rightarrow> u32 \<Rightarrow> (nat option \<times> nat) option" where
  "find_entry same buckets hash = walk same buckets (and hash (mask_of buckets))"

text \<open>Entry \<open>g\<close> goes into the first empty bucket from its hash on.\<close>

definition place_entry :: "nat \<Rightarrow> u32 \<Rightarrow> nat list \<Rightarrow> nat list option" where
  "place_entry g hash buckets =
     map_option (\<lambda>(_, at). buckets[at := Suc g]) (find_entry (\<lambda>_. False) buckets hash)"

subsection \<open>Tables\<close>

text \<open>
  Entry \<open>g\<close> lies \<open>d\<close> steps past its hash and no bucket on the way is empty; \<open>hs\<close> are the hashes.
\<close>

definition bucket :: "nat list \<Rightarrow> u32 \<Rightarrow> nat \<Rightarrow> nat" where
  "bucket buckets h d = (unat h + d) mod length buckets"

definition reached :: "nat list \<Rightarrow> u32 \<Rightarrow> nat \<Rightarrow> bool" where
  "reached buckets h g \<longleftrightarrow> (\<exists>d. buckets ! bucket buckets h d = Suc g \<and> (\<forall>e < d. buckets ! bucket buckets h e \<noteq> 0))"

definition table_ok :: "nat list \<Rightarrow> u32 list \<Rightarrow> bool" where
  "table_ok buckets hs \<longleftrightarrow>
     (\<exists>k \<le> 31. length buckets = 2 ^ k) \<and> length hs < length buckets \<and>
     (\<forall>i < length buckets. buckets ! i \<le> length hs) \<and>
     (\<forall>i < length buckets. \<forall>j < length buckets. buckets ! i = buckets ! j \<longrightarrow> buckets ! i \<noteq> 0 \<longrightarrow> i = j) \<and>
     (\<forall>g < length hs. reached buckets (hs ! g) g)"

lemma unat_and_mask:
  assumes "length buckets = 2 ^ k" "k \<le> 31"
  shows "unat (and x (mask_of buckets)) = unat x mod length buckets"
proof -
  have "mask_of buckets = mask k" using assms(1) by (simp add: mask_of_def mask_eq_exp_minus_1)
  then have "and x (mask_of buckets) = take_bit k x" by (simp add: take_bit_eq_mask)
  then have "unat (and x (mask_of buckets)) = take_bit k (unat x)" by (simp only: unsigned_take_bit_eq)
  then show ?thesis using assms(1) by (simp add: take_bit_eq_mod)
qed

lemma unat_next:
  assumes "length buckets = 2 ^ k" "k \<le> 31" "unat at = bucket buckets h d"
  shows "unat (and (at + 1) (mask_of buckets)) = bucket buckets h (Suc d)"
proof -
  have "unat (at + 1) = (unat at + 1) mod 2 ^ 32" by (simp add: unat_word_ariths)
  moreover have "(2 :: nat) ^ k dvd 2 ^ 32" by (rule le_imp_power_dvd) (use assms(2) in simp)
  ultimately have "unat (at + 1) mod 2 ^ k = (unat at + 1) mod 2 ^ k" by (simp add: mod_mod_cancel)
  then show ?thesis using unat_and_mask [OF assms(1,2), of "at + 1"] assms(1,3) by (simp add: bucket_def mod_Suc_eq)
qed

lemma bucket_less: "length buckets = 2 ^ k \<Longrightarrow> bucket buckets h d < length buckets"
  by (simp add: bucket_def)

text \<open>A table that is not full has an empty bucket ahead of every hash.\<close>

lemma empty_ahead:
  assumes "table_ok buckets hs"
  shows "\<exists>d. buckets ! bucket buckets h d = 0"
proof -
  let ?N = "length buckets"
  have "\<exists>i < ?N. buckets ! i = 0"
  proof (rule ccontr)
    assume "\<not> ?thesis"
    then have full: "\<And>i. i < ?N \<Longrightarrow> buckets ! i \<noteq> 0" by simp
    have "inj_on ((!) buckets) {..<?N}" using assms full by (auto simp: table_ok_def inj_on_def)
    moreover have "(!) buckets ` {..<?N} \<subseteq> {1..length hs}"
      using assms full by (auto simp: table_ok_def Suc_le_eq)
    ultimately have "?N \<le> length hs" using card_inj_on_le [of "(!) buckets" "{..<?N}" "{1..length hs}"] by simp
    then show False using assms by (auto simp: table_ok_def)
  qed
  then obtain i where i: "i < ?N" "buckets ! i = 0" by blast
  have "bucket buckets h (i + (?N - unat h mod ?N)) = i"
  proof -
    have "0 < ?N" using i by (cases buckets) auto
    then have le: "unat h mod ?N \<le> ?N" by (simp add: order_less_imp_le)
    have "(unat h + (i + (?N - unat h mod ?N))) mod ?N = (unat h mod ?N + (i + (?N - unat h mod ?N))) mod ?N"
      by (simp add: mod_add_left_eq)
    also have "unat h mod ?N + (i + (?N - unat h mod ?N)) = i + ?N" using le by linarith
    also have "(i + ?N) mod ?N = i mod ?N" by simp
    also have "\<dots> = i" using i by simp
    finally show ?thesis by (simp add: bucket_def)
  qed
  then show ?thesis using i by metis
qed

text \<open>The walk: past buckets that hold other entries, to an empty one or the entry sought.\<close>

lemma walk_from:
  assumes "length buckets = 2 ^ k" "k \<le> 31" "buckets ! bucket buckets h e = 0" "d \<le> e" "unat at = bucket buckets h d"
  shows "\<exists>f r. walk same buckets at = Some (r, bucket buckets h f) \<and> d \<le> f \<and>
    (\<forall>i. d \<le> i \<longrightarrow> i < f \<longrightarrow> buckets ! bucket buckets h i \<noteq> 0 \<and> \<not> same (buckets ! bucket buckets h i - 1)) \<and>
    (case r of None \<Rightarrow> buckets ! bucket buckets h f = 0
     | Some g \<Rightarrow> buckets ! bucket buckets h f = Suc g \<and> same g)"
  using assms(4,5)
proof (induction "e - d" arbitrary: d at)
  case 0
  then have "d = e" by simp
  then show ?case using assms(3) 0 by (intro exI [of _ d] exI [of _ None]) (simp add: walk.simps [of _ _ at] Let_def)
next
  case (Suc m)
  let ?slot = "buckets ! bucket buckets h d"
  show ?case
  proof (cases "?slot = 0 \<or> same (?slot - 1)")
    case True
    then show ?thesis
      using Suc.prems by (intro exI [of _ d] exI [of _ "if ?slot = 0 then None else Some (?slot - 1)"])
        (auto simp: walk.simps [of _ _ at] Let_def)
  next
    case False
    have next_at: "unat (and (at + 1) (mask_of buckets)) = bucket buckets h (Suc d)"
      by (rule unat_next [OF assms(1,2) Suc.prems(2)])
    have "m = e - Suc d" "Suc d \<le> e" using Suc.hyps(2) by simp_all
    from Suc.hyps(1) [OF this next_at] obtain f r where fr: "walk same buckets (and (at + 1) (mask_of buckets)) = Some (r, bucket buckets h f)"
        "Suc d \<le> f" "\<And>i. Suc d \<le> i \<Longrightarrow> i < f \<Longrightarrow> buckets ! bucket buckets h i \<noteq> 0 \<and> \<not> same (buckets ! bucket buckets h i - 1)"
        "case r of None \<Rightarrow> buckets ! bucket buckets h f = 0 | Some g \<Rightarrow> buckets ! bucket buckets h f = Suc g \<and> same g"
      by blast
    have "walk same buckets at = walk same buckets (and (at + 1) (mask_of buckets))"
      using False Suc.prems(2) by (simp add: walk.simps [of _ _ at] Let_def)
    moreover have "buckets ! bucket buckets h i \<noteq> 0 \<and> \<not> same (buckets ! bucket buckets h i - 1)" if "d \<le> i" "i < f" for i
      using fr(3) [of i] False that by (cases "i = d") auto
    ultimately show ?thesis using fr(1,2,4) by (intro exI [of _ f] exI [of _ r]) simp
  qed
qed

lemma find_entry_walks:
  assumes "table_ok buckets hs"
  shows "\<exists>f r. find_entry same buckets h = Some (r, bucket buckets h f) \<and>
    (\<forall>i < f. buckets ! bucket buckets h i \<noteq> 0 \<and> \<not> same (buckets ! bucket buckets h i - 1)) \<and>
    (case r of None \<Rightarrow> buckets ! bucket buckets h f = 0
     | Some g \<Rightarrow> buckets ! bucket buckets h f = Suc g \<and> same g)"
proof -
  obtain k where k: "length buckets = 2 ^ k" "k \<le> 31" using assms by (auto simp: table_ok_def)
  obtain e where e: "buckets ! bucket buckets h e = 0" using empty_ahead [OF assms] by blast
  have "unat (and h (mask_of buckets)) = bucket buckets h 0"
    using unat_and_mask [OF k, of h] by (simp add: bucket_def)
  from walk_from [OF k e _ this, of same] show ?thesis by (simp add: find_entry_def)
qed

text \<open>What is found is an entry that was sought; what is not found is not there.\<close>

lemma find_entry_result:
  assumes "table_ok buckets hs"
  shows "\<exists>r at. find_entry same buckets h = Some (r, at) \<and>
    (case r of None \<Rightarrow> \<forall>g < length hs. hs ! g = h \<longrightarrow> \<not> same g | Some g \<Rightarrow> g < length hs \<and> same g)"
proof -
  obtain f r where fr: "find_entry same buckets h = Some (r, bucket buckets h f)"
      "\<And>i. i < f \<Longrightarrow> buckets ! bucket buckets h i \<noteq> 0 \<and> \<not> same (buckets ! bucket buckets h i - 1)"
      "case r of None \<Rightarrow> buckets ! bucket buckets h f = 0 | Some g \<Rightarrow> buckets ! bucket buckets h f = Suc g \<and> same g"
    using find_entry_walks [OF assms] by blast
  show ?thesis
  proof (cases r)
    case None
    have "\<not> same g" if g: "g < length hs" "hs ! g = h" for g
    proof -
      obtain d where d: "buckets ! bucket buckets h d = Suc g" "\<And>e. e < d \<Longrightarrow> buckets ! bucket buckets h e \<noteq> 0"
        using assms g by (auto simp: table_ok_def reached_def)
      have "buckets ! bucket buckets h f = 0" using fr(3) None by simp
      then have "d \<noteq> f" "\<not> f < d" using d(1) d(2) [of f] by auto
      then have "d < f" by simp
      then show ?thesis using fr(2) [of d] d(1) by simp
    qed
    then show ?thesis using fr(1) None by (intro exI [of _ r]) auto
  next
    case (Some g)
    obtain k where "length buckets = 2 ^ k" using assms by (auto simp: table_ok_def)
    then have "Suc g \<le> length hs" using fr(3) Some assms bucket_less [of buckets k h f] by (auto simp: table_ok_def)
    then show ?thesis using fr(1,3) Some by auto
  qed
qed

lemma find_entry_empty:
  assumes "table_ok buckets hs" "find_entry same buckets h = Some (None, at)"
  shows "find_entry same' buckets h = Some (None, at) \<or> (\<exists>g at'. find_entry same' buckets h = Some (Some g, at'))"
proof -
  obtain f r where fr: "find_entry same buckets h = Some (r, bucket buckets h f)"
      "\<And>i. i < f \<Longrightarrow> buckets ! bucket buckets h i \<noteq> 0"
      "case r of None \<Rightarrow> buckets ! bucket buckets h f = 0 | Some g \<Rightarrow> buckets ! bucket buckets h f = Suc g \<and> same g"
    using find_entry_walks [OF assms(1), of same h] by blast
  obtain f' r' where fr': "find_entry same' buckets h = Some (r', bucket buckets h f')"
      "\<And>i. i < f' \<Longrightarrow> buckets ! bucket buckets h i \<noteq> 0"
      "case r' of None \<Rightarrow> buckets ! bucket buckets h f' = 0 | Some g \<Rightarrow> buckets ! bucket buckets h f' = Suc g \<and> same' g"
    using find_entry_walks [OF assms(1), of same' h] by blast
  show ?thesis
  proof (cases r')
    case None
    have "buckets ! bucket buckets h f = 0" "buckets ! bucket buckets h f' = 0" using fr fr' assms(2) None by auto
    then have "\<not> f < f'" "\<not> f' < f" using fr(2) [of f'] fr'(2) [of f] by auto
    then show ?thesis using fr fr' assms(2) None by simp
  qed (use fr'(1) in auto)
qed

lemma place_entry_at:
  assumes "table_ok buckets hs" "find_entry same buckets h = Some (None, at)"
  shows "place_entry g h buckets = Some (buckets[at := Suc g])"
proof -
  have "\<exists>f r. find_entry (\<lambda>_. False) buckets h = Some (r, bucket buckets h f) \<and> r = None"
    using find_entry_walks [OF assms(1), of "\<lambda>_. False" h] by (auto split: option.splits)
  then have "find_entry (\<lambda>_. False) buckets h = Some (None, at)"
    using find_entry_empty [OF assms, of "\<lambda>_. False"] by auto
  then show ?thesis by (simp add: place_entry_def)
qed

lemma place_entry_ok:
  assumes "table_ok buckets hs" "Suc (length hs) < length buckets"
  shows "\<exists>buckets'. place_entry (length hs) h buckets = Some buckets' \<and> length buckets' = length buckets \<and>
    table_ok buckets' (hs @ [h])"
proof -
  obtain k where k: "length buckets = 2 ^ k" "k \<le> 31" using assms by (auto simp: table_ok_def)
  obtain f r where fr: "find_entry (\<lambda>_. False) buckets h = Some (r, bucket buckets h f)"
      "\<And>i. i < f \<Longrightarrow> buckets ! bucket buckets h i \<noteq> 0" "buckets ! bucket buckets h f = 0"
    using find_entry_walks [OF assms(1), of "\<lambda>_. False" h] by (auto split: option.splits)
  let ?at = "bucket buckets h f" and ?b = "buckets[bucket buckets h f := Suc (length hs)]"
  have at: "?at < length buckets" by (rule bucket_less [OF k(1)])
  have nth: "?b ! i = (if i = ?at then Suc (length hs) else buckets ! i)" if "i < length buckets" for i
    using that at by simp
  have same: "bucket ?b h' d = bucket buckets h' d" for h' d by (simp add: bucket_def)
  have less: "bucket buckets h' d < length buckets" for h' d by (rule bucket_less [OF k(1)])
  have "reached ?b ((hs @ [h]) ! g) g" if "g < length (hs @ [h])" for g
  proof (cases "g = length hs")
    case True
    have "\<forall>e < f. ?b ! bucket buckets h e \<noteq> 0" using fr(2) nth [OF less] by auto
    then show ?thesis using True nth [OF at] unfolding reached_def same by (intro exI [of _ f]) simp
  next
    case False
    then have g: "g < length hs" using that by simp
    then obtain d where d: "buckets ! bucket buckets (hs ! g) d = Suc g"
        "\<And>e. e < d \<Longrightarrow> buckets ! bucket buckets (hs ! g) e \<noteq> 0"
      using assms(1) by (auto simp: table_ok_def reached_def)
    have "bucket buckets (hs ! g) d \<noteq> ?at" using d(1) fr(3) by auto
    then have "?b ! bucket buckets (hs ! g) d = Suc g" using d(1) nth [OF less] by simp
    moreover have "\<forall>e < d. ?b ! bucket buckets (hs ! g) e \<noteq> 0" using d(2) nth [OF less] by auto
    ultimately show ?thesis using g unfolding reached_def same by (auto simp: nth_append)
  qed
  moreover have "\<forall>i < length buckets. ?b ! i \<le> Suc (length hs)"
    using assms(1) nth by (auto simp: table_ok_def le_SucI)
  moreover have "i = j" if "i < length buckets" "j < length buckets" "?b ! i = ?b ! j" "?b ! i \<noteq> 0" for i j
  proof -
    have "buckets ! l \<noteq> Suc (length hs)" if "l < length buckets" for l
      using assms(1) that by (metis table_ok_def Suc_n_not_le_n)
    then show ?thesis using that nth [OF that(1)] nth [OF that(2)] assms(1) by (auto simp: table_ok_def split: if_splits)
  qed
  ultimately have "table_ok ?b (hs @ [h])" using k assms(2) unfolding table_ok_def by auto
  then show ?thesis using fr(1) by (simp add: place_entry_def)
qed

lemma empty_table: "k \<le> 31 \<Longrightarrow> table_ok (replicate (2 ^ k) 0) []"
  by (simp add: table_ok_def)

end
