(* ===== verification/Distinct.thy ===== *)
theory Distinct
  imports Results Hashing
begin

text \<open>
  DISTINCT over a finished result, \<^verbatim>\<open>06_executor.c\<close>, and what it shares with GROUP BY: the
  equality of values that counts nulls as equal, and the hash that agrees with it.
\<close>

subsection \<open>Equality and hash\<close>

definition rowsEqual :: "row \<Rightarrow> row \<Rightarrow> nat \<Rightarrow> bool" where
  "rowsEqual a b width \<longleftrightarrow> list_all (\<lambda>c. valuesEqual (rvals a ! c) (rvals b ! c)) [0..<width]"

text \<open>The zero with a sign equals the other one and hashes apart from it: the one value the two disagree on.\<close>

definition plain :: "Value \<Rightarrow> bool" where
  "plain v \<longleftrightarrow> isNull v \<or> vtype v \<noteq> TYPE_FLOAT \<or> floatValue v \<noteq> fl_neg_zero"

lemma positive_zero: "fl_magnitude x = 0 \<Longrightarrow> x \<noteq> fl_neg_zero \<Longrightarrow> x = fl_zero"
proof (rule fl_bits_eqI)
  assume m: "fl_magnitude x = 0" and n: "x \<noteq> fl_neg_zero"
  have "fl_sign fl_neg_zero" "fl_magnitude fl_neg_zero = 0"
    by (simp_all add: fl_sign_def fl_magnitude_def fl_neg_zero_def)
  then show "fl_sign x = fl_sign fl_zero" using m n fl_bits_eqI [of x fl_neg_zero] by (auto simp: fl_sign_def fl_zero_def)
  show "fl_magnitude x = fl_magnitude fl_zero" using m by (simp add: fl_magnitude_def fl_zero_def)
qed

lemma hashValue_equal:
  assumes "valuesEqual a b" "plain a" "plain b" shows "hashValue a = hashValue b"
proof (cases "isNull a \<or> isNull b")
  case True
  then show ?thesis using assms(1) by (auto simp: valuesEqual_def hashValue_def)
next
  case False
  then have e: "vtype a = vtype b" "valuesSame a b" using assms(1) by (auto simp: valuesEqual_def split: if_splits)
  have "floatValue a = floatValue b" if "vtype a = TYPE_FLOAT"
    using e that False assms(2,3) positive_zero [of "floatValue a"] positive_zero [of "floatValue b"]
    by (auto simp: valuesSame_def intLike_def fl_eq_def fl_key_eq_iff plain_def)
  moreover have "vtext a = vtext b" if "\<not> intLike (vtype a)" "vtype a \<noteq> TYPE_FLOAT"
    using e that by (auto simp: valuesSame_def memcmp_zero)
  moreover have "intValue a = intValue b" if "intLike (vtype a)" using e that by (simp add: valuesSame_def)
  ultimately show ?thesis using e False by (auto simp: hashValue_def intLike_def)
qed

lemma hash_values_equal:
  "list_all2 (\<lambda>a b. valuesEqual a b \<and> plain a \<and> plain b) vs ws \<Longrightarrow> hash_values vs = hash_values ws"
proof -
  assume l: "list_all2 (\<lambda>a b. valuesEqual a b \<and> plain a \<and> plain b) vs ws"
  then have "map hashValue vs = map hashValue ws"
    by (induction rule: list_all2_induct) (auto intro: hashValue_equal)
  moreover have "hash_values us = foldl (\<lambda>h x. xor h x * FNV_PRIME) FNV_BASIS (map hashValue us)" for us
    by (simp add: hash_values_def foldl_map)
  ultimately show ?thesis by simp
qed

subsection \<open>DISTINCT\<close>

definition row_hash :: "nat \<Rightarrow> row \<Rightarrow> u32" where
  "row_hash width r = hash_values (map (\<lambda>c. rvals r ! c) [0..<width])"

text \<open>One row of the loop: the rows array, \<open>kept\<close> and the buckets.\<close>

definition distinct_step :: "nat \<Rightarrow> nat \<Rightarrow> row list \<times> nat \<times> nat list \<Rightarrow> (row list \<times> nat \<times> nat list) option" where
  "distinct_step width r = (\<lambda>(rows, kept, buckets).
     map_option
       (\<lambda>(found, at). case found of Some _ \<Rightarrow> (rows, kept, buckets)
          | None \<Rightarrow> (rows[kept := rows ! r], Suc kept, buckets[at := Suc kept]))
       (find_entry (\<lambda>g. rowsEqual (rows ! r) (rows ! g) width) buckets (row_hash width (rows ! r))))"

fun distinct_loop :: "nat \<Rightarrow> nat list \<Rightarrow> row list \<times> nat \<times> nat list \<Rightarrow> (row list \<times> nat \<times> nat list) option" where
  "distinct_loop width [] st = Some st"
| "distinct_loop width (r # rs) st =
     (case distinct_step width r st of None \<Rightarrow> None | Some st' \<Rightarrow> distinct_loop width rs st')"

text \<open>\<open>room\<close> is \<open>distinctCount\<close>, the length of the buckets kept from statement to statement.\<close>

definition applyDistinct :: "bool \<Rightarrow> nat \<Rightarrow> selectstatement \<Rightarrow> resultset \<Rightarrow> ((error + resultset) \<times> nat) option" where
  "applyDistinct memory room s out =
     (if \<not> sdistinct s \<or> rrows out = [] then Some (Inr out, room)
      else let wanted = doubled 1 (length (rrows out) * 2)
           in if wanted > room \<and> \<not> memory then Some (Inl ERROR_EXEC_OUT_OF_MEMORY, room)
              else let room = max wanted room
                   in map_option (\<lambda>(rows, kept, buckets). (Inr (out\<lparr>rrows := take kept rows\<rparr>), room))
                        (distinct_loop (length (headers out)) [0..<length (rrows out)]
                           (rrows out, 0, replicate room 0)))"

subsection \<open>The first of each kind\<close>

text \<open>Rows in order, each kept unless it equals one kept before it.\<close>

fun keep_first :: "('a \<Rightarrow> 'a \<Rightarrow> bool) \<Rightarrow> 'a list \<Rightarrow> 'a list \<Rightarrow> 'a list" where
  "keep_first eq kept [] = kept"
| "keep_first eq kept (r # rs) = keep_first eq (if \<exists>k \<in> set kept. eq r k then kept else kept @ [r]) rs"

lemma keep_first_snoc:
  "keep_first eq kept (rs @ [r]) =
     (if \<exists>k \<in> set (keep_first eq kept rs). eq r k then keep_first eq kept rs else keep_first eq kept rs @ [r])"
  by (induction rs arbitrary: kept) auto

lemma keep_first_set: "set (keep_first eq kept rs) \<subseteq> set kept \<union> set rs"
proof (induction rs arbitrary: kept)
  case (Cons r rs)
  show ?case using Cons.IH [of kept] Cons.IH [of "kept @ [r]"] by auto
qed simp

lemma keep_first_length: "length (keep_first eq kept rs) \<le> length kept + length rs"
proof (induction rs arbitrary: kept)
  case (Cons r rs)
  show ?case using Cons.IH [of kept] Cons.IH [of "kept @ [r]"] by auto
qed simp

lemma keep_first_apart:
  "sorted_wrt (\<lambda>a b. \<not> eq b a) kept \<Longrightarrow> sorted_wrt (\<lambda>a b. \<not> eq b a) (keep_first eq kept rs)"
  by (induction rs arbitrary: kept) (auto simp: sorted_wrt_append)

lemma rowsEqual_hash:
  assumes "rowsEqual a b width" "\<forall>c < width. plain (rvals a ! c)" "\<forall>c < width. plain (rvals b ! c)"
  shows "row_hash width a = row_hash width b"
  unfolding row_hash_def
  by (rule hash_values_equal) (use assms in \<open>auto simp: list_all2_conv_all_nth rowsEqual_def list_all_iff\<close>)

definition distinct_state :: "nat \<Rightarrow> row list \<Rightarrow> nat \<Rightarrow> nat \<Rightarrow> row list \<times> nat \<times> nat list \<Rightarrow> bool" where
  "distinct_state width rows0 room r = (\<lambda>(rows, kept, buckets).
     length rows = length rows0 \<and> kept \<le> r \<and> (\<forall>i. r \<le> i \<longrightarrow> i < length rows0 \<longrightarrow> rows ! i = rows0 ! i) \<and>
     take kept rows = keep_first (\<lambda>a b. rowsEqual a b width) [] (take r rows0) \<and>
     length buckets = room \<and> table_ok buckets (map (row_hash width) (take kept rows)))"

lemma distinct_step_keeps:
  assumes st: "distinct_state width rows0 room r (rows, kept, buckets)" and r: "r < length rows0" "Suc r < room"
    and plain: "\<And>x c. x \<in> set rows0 \<Longrightarrow> c < width \<Longrightarrow> plain (rvals x ! c)"
  shows "\<exists>st'. distinct_step width r (rows, kept, buckets) = Some st' \<and> distinct_state width rows0 room (Suc r) st'"
proof -
  let ?eq = "\<lambda>a b. rowsEqual a b width" and ?h = "row_hash width"
  let ?kept = "take kept rows"
  have s: "length rows = length rows0" "kept \<le> r" "rows ! r = rows0 ! r" "length buckets = room"
      "?kept = keep_first ?eq [] (take r rows0)" "table_ok buckets (map ?h ?kept)"
    using st r by (auto simp: distinct_state_def)
  have len: "length ?kept = kept" using s(1,2) r by (simp only: length_take)
  have plain_row: "\<forall>c < width. plain (rvals x ! c)" if "x \<in> set ?kept" for x
    using keep_first_set [of ?eq "[]" "take r rows0"] that s(5) plain by (auto dest: in_set_takeD)
  have plain_r: "\<forall>c < width. plain (rvals (rows0 ! r) ! c)" using plain r by simp
  obtain f at where fe: "find_entry (\<lambda>g. ?eq (rows ! r) (rows ! g)) buckets (?h (rows ! r)) = Some (f, at)"
      "case f of None \<Rightarrow> \<forall>g < kept. map ?h ?kept ! g = ?h (rows ! r) \<longrightarrow> \<not> ?eq (rows ! r) (rows ! g)
       | Some g \<Rightarrow> g < kept \<and> ?eq (rows ! r) (rows ! g)"
    using find_entry_result [OF s(6), of "\<lambda>g. ?eq (rows ! r) (rows ! g)" "?h (rows ! r)"]
    by (simp only: length_map len) blast
  have found: "(\<exists>k \<in> set ?kept. ?eq (rows0 ! r) k) \<longleftrightarrow> f \<noteq> None"
  proof
    assume "\<exists>k \<in> set ?kept. ?eq (rows0 ! r) k"
    then obtain g where g: "g < kept" "?eq (rows0 ! r) (?kept ! g)" using len by (metis in_set_conv_nth)
    then have "?h (rows0 ! r) = ?h (?kept ! g)" using rowsEqual_hash plain_r plain_row len by (metis nth_mem)
    then have "map ?h ?kept ! g = ?h (rows ! r)" using g(1) len s(3) by (metis nth_map)
    then show "f \<noteq> None" using fe(2) g s(3) by (cases f) auto
  next
    assume "f \<noteq> None"
    then obtain g where g: "g < kept" "?eq (rows ! r) (rows ! g)" using fe(2) by auto
    then have "rows ! g \<in> set ?kept" using len by (metis nth_mem nth_take)
    then show "\<exists>k \<in> set ?kept. ?eq (rows0 ! r) k" using g(2) s(3) by auto
  qed
  have first: "keep_first ?eq [] (take (Suc r) rows0) = (if f \<noteq> None then ?kept else ?kept @ [rows0 ! r])"
    using r(1) s(5) found keep_first_snoc [of ?eq "[]" "take r rows0" "rows0 ! r"] by (simp add: take_Suc_conv_app_nth)
  show ?thesis
  proof (cases f)
    case (Some g)
    then have "distinct_state width rows0 room (Suc r) (rows, kept, buckets)"
      using st first s(2) by (auto simp: distinct_state_def)
    then show ?thesis using fe(1) Some by (simp add: distinct_step_def)
  next
    case None
    have "kept < length rows" using s r by simp
    then have take': "take (Suc kept) (rows[kept := rows ! r]) = ?kept @ [rows0 ! r]"
      using s(3) by (simp add: take_Suc_conv_app_nth)
    have "place_entry kept (?h (rows ! r)) buckets = Some (buckets[at := Suc kept])"
      using place_entry_at [OF s(6)] fe(1) None by simp
    then have "table_ok (buckets[at := Suc kept]) (map ?h (?kept @ [rows0 ! r]))"
      using place_entry_ok [OF s(6), of "?h (rows ! r)"] len s(2,3,4) r(2) by simp
    then have "distinct_state width rows0 room (Suc r) (rows[kept := rows ! r], Suc kept, buckets[at := Suc kept])"
      using s st first None take' by (auto simp: distinct_state_def)
    then show ?thesis using fe(1) None by (simp add: distinct_step_def)
  qed
qed

lemma distinct_loop_keeps:
  assumes "\<And>x c. x \<in> set rows0 \<Longrightarrow> c < width \<Longrightarrow> plain (rvals x ! c)" "length rows0 < room"
  shows "\<lbrakk>distinct_state width rows0 room r st; r \<le> length rows0\<rbrakk> \<Longrightarrow>
    \<exists>st'. distinct_loop width [r..<length rows0] st = Some st' \<and> distinct_state width rows0 room (length rows0) st'"
proof (induction "length rows0 - r" arbitrary: r st)
  case (Suc m)
  obtain rows kept buckets where st: "st = (rows, kept, buckets)" by (metis prod_cases3)
  have r: "r < length rows0" "Suc r < room" using Suc.hyps(2) assms(2) by auto
  obtain st' where st': "distinct_step width r st = Some st'" "distinct_state width rows0 room (Suc r) st'"
    using distinct_step_keeps [OF _ r assms(1)] Suc.prems(1) st by blast
  have "[r..<length rows0] = r # [Suc r..<length rows0]" using r by (simp add: upt_conv_Cons)
  then show ?case using Suc.hyps(1) [of "Suc r" st'] Suc.hyps(2) st' r by simp
qed simp

lemma doubled_power: "\<exists>k. doubled (2 ^ j) n = 2 ^ k"
proof (induction "2 ^ j :: nat" n arbitrary: j rule: doubled.induct)
  case (1 n)
  then show ?case using "1" [of "Suc j"] by (subst doubled.simps) (auto simp: mult.commute)
qed

text \<open>
  C28: DISTINCT. On rows without a signed zero, whose hash and equality agree, the hashed pass ends
  and keeps the first of each kind of row in the order they came, with nulls equal to each other:
  what comparing every row with all those kept before it keeps.
\<close>
theorem distinct_keeps_first:
  assumes "sdistinct s" "\<And>r c. r \<in> set (rrows out) \<Longrightarrow> c < length (headers out) \<Longrightarrow> plain (rvals r ! c)"
    and "length (rrows out) \<le> 2 ^ 29" "room = 0 \<or> (\<exists>k \<le> 30. room = 2 ^ k)"
  shows "\<exists>room'. applyDistinct True room s out =
    Some (Inr (out\<lparr>rrows := keep_first (\<lambda>a b. rowsEqual a b (length (headers out))) [] (rrows out)\<rparr>), room')"
proof (cases "rrows out = []")
  case True
  then show ?thesis by (simp add: applyDistinct_def)
next
  case False
  let ?n = "length (rrows out)" and ?width = "length (headers out)"
  define total where "total = max (doubled 1 (?n * 2)) room"
  obtain k where k: "doubled 1 (?n * 2) = 2 ^ k" using doubled_power [of 0 "?n * 2"] by auto
  have n: "0 < ?n" using False by simp
  have "doubled 1 (?n * 2) \<le> 2 * (?n * 2) - 1" using doubled_bounds [of 1 "?n * 2"] n by simp
  then have "doubled 1 (?n * 2) < 2 ^ 31" using assms(3) n by simp
  then have "(2 :: nat) ^ k < 2 ^ 31" using k by simp
  then have "k < 31" using power_less_imp_less_exp [of "2 :: nat" k 31] by simp
  then have "\<exists>j \<le> 31. total = 2 ^ j"
    using assms(4) k by (auto simp: total_def max_def intro: exI [of _ k] le_trans [of _ 30])
  then have empty: "table_ok (replicate total 0) []" using empty_table by auto
  have "?n * 2 \<le> doubled 1 (?n * 2)" "doubled 1 (?n * 2) \<le> total" using doubled_bounds [of 1 "?n * 2"] by (simp_all add: total_def)
  then have enough: "?n < total" using n by linarith
  have "distinct_state ?width (rrows out) total 0 (rrows out, 0, replicate total 0)"
    using empty by (simp add: distinct_state_def)
  from distinct_loop_keeps [OF assms(2) enough this]
  obtain rows kept buckets where "distinct_loop ?width [0..<?n] (rrows out, 0, replicate total 0) = Some (rows, kept, buckets)"
      "distinct_state ?width (rrows out) total ?n (rows, kept, buckets)"
    by (metis le0 prod_cases3)
  then show ?thesis using assms(1) False by (simp add: applyDistinct_def Let_def total_def distinct_state_def)
qed

definition pairs_result :: resultset where
  "pairs_result = blank_result\<lparr>headers := [''a''], rtypes := [TYPE_INT],
     rrows := map (\<lambda>v. blank_row\<lparr>rvals := [v], ncols := 1\<rparr>)
       [setNull TYPE_INT, blank_value\<lparr>intValue := 5\<rparr>, setNull TYPE_INT, blank_value\<lparr>intValue := 5\<rparr>]\<rparr>"

definition distinct_select :: selectstatement where
  "distinct_select = \<lparr>sitems = [], sexprs = [], selectAll = True, stable = ''t'', stables = [''t''], saliases = [[]], souter = [False],
     onRoot = [-1], swhere = blank_condition, sdistinct = True, having = blank_condition, sorder = [], slimit = -1, groupBy = []\<rparr>"

theorem distinct_keeps_first_witness:
  "map_option (map_sum id (\<lambda>out. map (\<lambda>r. isNull (rvals r ! 0)) (rrows out)) \<circ> fst)
     (applyDistinct True 0 distinct_select pairs_result) = Some (Inr [True, False])"
proof -
  have d: "sdistinct distinct_select" by (simp add: distinct_select_def)
  have p: "plain (rvals r ! c)" if "r \<in> set (rrows pairs_result)" "c < length (headers pairs_result)" for r c
    using that by (auto simp: pairs_result_def plain_def setNull_def blank_value_def)
  have n: "length (rrows pairs_result) \<le> 2 ^ 29" "length (headers pairs_result) = 1" by (simp_all add: pairs_result_def)
  obtain room' where "applyDistinct True 0 distinct_select pairs_result =
      Some (Inr (pairs_result\<lparr>rrows := keep_first (\<lambda>a b. rowsEqual a b 1) [] (rrows pairs_result)\<rparr>), room')"
    using distinct_keeps_first [OF d p n(1), of 0] unfolding n(2) by auto
  moreover have "map (\<lambda>r. isNull (rvals r ! 0)) (keep_first (\<lambda>a b. rowsEqual a b 1) [] (rrows pairs_result)) = [True, False]"
    by (simp add: pairs_result_def rowsEqual_def valuesEqual_def valuesSame_def intLike_def setNull_def blank_value_def)
  ultimately show ?thesis by simp
qed

text \<open>
  The signed zero: the two equal each other, their hashes differ from the eighth bit on. A table of
  four buckets drops the second; the same statement after one that needed 256 buckets keeps both.
\<close>

definition zeros_result :: resultset where
  "zeros_result = pairs_result\<lparr>rtypes := [TYPE_FLOAT],
     rrows := map (\<lambda>x. blank_row\<lparr>rvals := [setFloat x], ncols := 1\<rparr>) [fl_zero, fl_neg_zero]\<rparr>"

lemma signed_zero_once:
  "map_option (map_sum id (\<lambda>out. length (rrows out)) \<circ> fst) (applyDistinct True 0 distinct_select zeros_result) = Some (Inr 1)"
  by code_simp

lemma signed_zero_twice:
  "map_option (map_sum id (\<lambda>out. length (rrows out)) \<circ> fst) (applyDistinct True 256 distinct_select zeros_result) = Some (Inr 2)"
  by code_simp

end
