(* ===== verification/ConditionTree.thy ===== *)
theory ConditionTree
  imports Evaluate
begin

text \<open>
  What a condition means: the tree its nodes form, three-valued as Kleene's logic, over comparisons
  stated by the orders of the types. The walks of \<^verbatim>\<open>06_executor.c\<close> end on every condition the
  parser builds and compute this.
\<close>

subsection \<open>Truth values are ordered\<close>

fun rank :: "tristate \<Rightarrow> nat" where
  "rank TRI_FALSE = 0" | "rank TRI_UNKNOWN = 1" | "rank TRI_TRUE = 2"

instantiation tristate :: linorder
begin
definition less_eq_tristate :: "tristate \<Rightarrow> tristate \<Rightarrow> bool" where "a \<le> b \<longleftrightarrow> rank a \<le> rank b"
definition less_tristate :: "tristate \<Rightarrow> tristate \<Rightarrow> bool" where "a < b \<longleftrightarrow> rank a < rank b"
instance
proof
  show "a \<le> b \<Longrightarrow> b \<le> a \<Longrightarrow> a = b" for a b :: tristate
    by (cases a; cases b) (simp_all add: less_eq_tristate_def)
qed (auto simp: less_eq_tristate_def less_tristate_def)
end

lemmas tri_simps = tri_and_def tri_or_def tri_not_def tri_of_def min_def max_def less_eq_tristate_def

lemma tri_and_min: "tri_and a b = min a b" by (cases a; cases b) (simp_all add: tri_simps)
lemma tri_or_max: "tri_or a b = max a b" by (cases a; cases b) (simp_all add: tri_simps)
lemma tri_not_not [simp]: "tri_not (tri_not a) = a" by (cases a) (simp_all add: tri_simps)
lemma tri_not_min: "tri_not (min a b) = max (tri_not a) (tri_not b)" by (cases a; cases b) (simp_all add: tri_simps)
lemma tri_and_true: "tri_and a b = TRI_TRUE \<longleftrightarrow> a = TRI_TRUE \<and> b = TRI_TRUE" by (cases a; cases b) (simp_all add: tri_simps)
lemma tri_of_iff [simp]: "tri_of b = TRI_TRUE \<longleftrightarrow> b" "tri_of b = TRI_FALSE \<longleftrightarrow> \<not> b" "tri_of b \<noteq> TRI_UNKNOWN"
  by (simp_all add: tri_of_def)

subsection \<open>What a comparison means\<close>

definition value_less :: "Value \<Rightarrow> Value \<Rightarrow> bool" where
  "value_less a b \<longleftrightarrow>
     (case vtype a of TYPE_FLOAT \<Rightarrow> fl_less (floatValue a) (floatValue b)
      | TYPE_INT \<Rightarrow> sint (intValue a) < sint (intValue b)
      | TYPE_DATE \<Rightarrow> sint (intValue a) < sint (intValue b)
      | _ \<Rightarrow> ord_class.lexordp (vtext a) (vtext b))"

definition value_same :: "Value \<Rightarrow> Value \<Rightarrow> bool" where
  "value_same a b \<longleftrightarrow>
     (case vtype a of TYPE_FLOAT \<Rightarrow> fl_eq (floatValue a) (floatValue b)
      | TYPE_INT \<Rightarrow> intValue a = intValue b
      | TYPE_DATE \<Rightarrow> intValue a = intValue b
      | _ \<Rightarrow> vtext a = vtext b)"

text \<open>An operator on two values of one type, neither null; a real that is no number is not less than any.\<close>

definition sql_op :: "compareop \<Rightarrow> Value \<Rightarrow> Value \<Rightarrow> bool" where
  "sql_op op a b \<longleftrightarrow>
     (case op of OP_EQ \<Rightarrow> value_same a b | OP_NE \<Rightarrow> \<not> value_same a b
      | OP_LT \<Rightarrow> value_less a b | OP_GTE \<Rightarrow> \<not> value_less a b
      | OP_GT \<Rightarrow> value_less b a | OP_LTE \<Rightarrow> \<not> value_less b a
      | OP_LIKE \<Rightarrow> like (pattern_text b) (vtext a) | OP_NOT_LIKE \<Rightarrow> \<not> like (pattern_text b) (vtext a)
      | _ \<Rightarrow> False)"

definition sql_compare :: "compareop \<Rightarrow> Value \<Rightarrow> Value \<Rightarrow> tristate" where
  "sql_compare op a b =
     (case op of OP_IS_NULL \<Rightarrow> tri_of (isNull a) | OP_IS_NOT_NULL \<Rightarrow> tri_of (\<not> isNull a)
      | _ \<Rightarrow> if isNull a \<or> isNull b \<or> vtype a \<noteq> vtype b then TRI_UNKNOWN else tri_of (sql_op op a b))"

lemma compareText_self [simp]: "compareText a a = 0" using compareText_zero [of a a] by blast

lemma valuesSame_value_same: "vtype a = vtype b \<Longrightarrow> valuesSame a b = value_same a b"
  by (cases "vtype a"; auto simp: valuesSame_def value_same_def intLike_def memcmp_zero split: coltype.split)

lemma compareValues_less: "compareValues a b < 0 \<longleftrightarrow> value_less a b"
proof -
  have "compareText (vtext a) (vtext b) < 0 \<longleftrightarrow> ord_class.lexordp (vtext a) (vtext b)"
    using compareText_range [of "vtext a" "vtext b"] compareText_lexordp [of "vtext a" "vtext b"] by auto
  then show ?thesis by (auto simp: compareValues_def value_less_def intLike_def split: coltype.split)
qed

lemma compareValues_greater:
  assumes "vtype a = vtype b" shows "compareValues a b > 0 \<longleftrightarrow> value_less b a"
proof -
  have no: "\<not> (fl_less (floatValue a) (floatValue b) \<and> fl_less (floatValue b) (floatValue a))"
    by (simp add: fl_less_def)
  have "0 < compareText (vtext a) (vtext b) \<longleftrightarrow> ord_class.lexordp (vtext b) (vtext a)"
    using compareText_range [of "vtext b" "vtext a"] compareText_lexordp [of "vtext b" "vtext a"]
      compareText_swap [of "vtext a" "vtext b"] by auto
  then show ?thesis
    using assms no by (auto simp: compareValues_def value_less_def intLike_def split: coltype.split)
qed

lemma comparePredicate_sql:
  assumes "CHR 0x00 \<notin> set (vtext a) \<or> op \<notin> {OP_LIKE, OP_NOT_LIKE}"
  shows "comparePredicate a b op = Some (sql_compare op a b)"
proof (cases "isNull a \<or> isNull b \<or> vtype a \<noteq> vtype b")
  case True
  then show ?thesis by (cases op) (auto simp: comparePredicate_def sql_compare_def)
next
  case False
  then have same: "vtype a = vtype b" by simp
  have like: "likeMatch (vtext a) (pattern_text b) = Some (like (pattern_text b) (vtext a))" if "op \<in> {OP_LIKE, OP_NOT_LIKE}"
    using likeLoop_plain assms that by (auto simp: likeMatch_def)
  have le: "compareValues a b \<le> 0 \<longleftrightarrow> \<not> value_less b a" "compareValues a b \<ge> 0 \<longleftrightarrow> \<not> value_less a b"
    using compareValues_less [of a b] compareValues_greater [OF same] by linarith+
  show ?thesis
    using False like same valuesSame_value_same [OF same] compareValues_less [of a b] compareValues_greater [OF same] le
    by (cases op) (auto simp: comparePredicate_def sql_compare_def sql_op_def tri_of_def)
qed

lemma comparePredicate_ends: "\<exists>v. comparePredicate a b op = Some v"
  using likeMatch_ends by (auto simp: comparePredicate_def split: compareop.splits)

text \<open>
  \<^verbatim>\<open>IN\<close> over the values a subquery returned: an equal one makes it true, else a null among them
  unknown. A value of another type is neither.
\<close>

definition in_truth :: "Value \<Rightarrow> Value list \<Rightarrow> tristate" where
  "in_truth v vs =
     (if isNull v then TRI_UNKNOWN
      else if \<exists>w \<in> set vs. sql_compare OP_EQ v w = TRI_TRUE then TRI_TRUE
      else if \<exists>w \<in> set vs. isNull w then TRI_UNKNOWN else TRI_FALSE)"

lemma valueInResult_in: "valueInResult v res = in_truth v (map first_value (rrows res))"
proof -
  have "value_in_rows v sawNull rs =
      (if \<exists>w \<in> set (map first_value rs). sql_compare OP_EQ v w = TRI_TRUE then TRI_TRUE
       else if sawNull \<or> (\<exists>w \<in> set (map first_value rs). isNull w) then TRI_UNKNOWN else TRI_FALSE)" for sawNull rs
  proof (induction rs arbitrary: sawNull)
    case (Cons r rs)
    have "comparePredicate v (first_value r) OP_EQ = Some (sql_compare OP_EQ v (first_value r))"
      by (rule comparePredicate_sql) simp
    moreover have "isNull (first_value r) \<Longrightarrow> sql_compare OP_EQ v (first_value r) \<noteq> TRI_TRUE" by (simp add: sql_compare_def)
    ultimately show ?case using Cons.IH by auto
  qed simp
  then show ?thesis by (simp add: valueInResult_def in_truth_def)
qed

subsection \<open>What a condition means\<close>

datatype ctree = Compare int predicate | Negation ctree | Both ctree ctree | Either ctree ctree

fun is_ctree :: "condition \<Rightarrow> int \<Rightarrow> ctree \<Rightarrow> bool" where
  "is_ctree c n (Compare m p) \<longleftrightarrow>
     m = n \<and> cnode_in c n \<and> ckind (node_at (cnodes c) n) = COND_COMPARE \<and> ccompare (node_at (cnodes c) n) = p"
| "is_ctree c n (Negation t) \<longleftrightarrow>
     cnode_in c n \<and> ckind (node_at (cnodes c) n) = COND_NOT \<and> is_ctree c (cleft (node_at (cnodes c) n)) t"
| "is_ctree c n (Both s t) \<longleftrightarrow>
     cnode_in c n \<and> ckind (node_at (cnodes c) n) = COND_AND \<and>
     is_ctree c (cleft (node_at (cnodes c) n)) s \<and> is_ctree c (cright (node_at (cnodes c) n)) t"
| "is_ctree c n (Either s t) \<longleftrightarrow>
     cnode_in c n \<and> ckind (node_at (cnodes c) n) = COND_OR \<and>
     is_ctree c (cleft (node_at (cnodes c) n)) s \<and> is_ctree c (cright (node_at (cnodes c) n)) t"

fun truth :: "(predicate \<Rightarrow> tristate) \<Rightarrow> ctree \<Rightarrow> tristate" where
  "truth f (Compare n p) = f p"
| "truth f (Negation t) = tri_not (truth f t)"
| "truth f (Both s t) = min (truth f s) (truth f t)"
| "truth f (Either s t) = max (truth f s) (truth f t)"

text \<open>The value of an operand, none where it cannot be computed.\<close>

definition operand :: "exprpool \<Rightarrow> int \<Rightarrow> row \<Rightarrow> Value option" where
  "operand pool n r = (case exprEvaluate pool n r of Some (Inr v) \<Rightarrow> Some v | _ \<Rightarrow> None)"

definition other_operand :: "resultset list \<Rightarrow> exprpool \<Rightarrow> predicate \<Rightarrow> row \<Rightarrow> Value option" where
  "other_operand results pool p r =
     (if pop p = OP_IS_NULL \<or> pop p = OP_IS_NOT_NULL then operand pool (pleft p) r
      else if psubquery p < 0 then operand pool (pright p) r
      else case rrows (result_of results (psubquery p)) of [] \<Rightarrow> None | first # _ \<Rightarrow> Some (first_value first))"

definition compare_truth :: "resultset list \<Rightarrow> exprpool \<Rightarrow> row \<Rightarrow> predicate \<Rightarrow> tristate" where
  "compare_truth results pool r p =
     (if pop p = OP_EXISTS then tri_of (rrows (result_of results (psubquery p)) \<noteq> [])
      else case operand pool (pleft p) r of None \<Rightarrow> TRI_UNKNOWN
           | Some left \<Rightarrow>
               if pop p = OP_IN then in_truth left (map first_value (rrows (result_of results (psubquery p))))
               else case other_operand results pool p r of None \<Rightarrow> TRI_UNKNOWN
                    | Some right \<Rightarrow> sql_compare (pop p) left right)"

subsection \<open>Conditions the parser builds are trees\<close>

lemma cond_ok_tree:
  assumes "cond_ok {} m c" "cnode_in c n"
  shows "\<exists>t. is_ctree c n t"
  using assms(2)
proof (induction "nat n" arbitrary: n rule: less_induct)
  case less
  let ?nd = "node_at (cnodes c) n"
  have ok: "cnode_ok {} m (cexprs c) (nat n) ?nd" using assms(1) less.prems by (auto simp: cond_ok_def cnode_in_def node_at_def)
  have child: "\<exists>t. is_ctree c k t" if "0 \<le> k" "k < int (nat n)" for k
    using less.hyps [of k] that less.prems by (auto simp: cnode_in_def)
  show ?case
  proof (cases "ckind ?nd")
    case COND_COMPARE
    then show ?thesis using less.prems by (intro exI [of _ "Compare n (ccompare ?nd)"]) simp
  next
    case COND_NOT
    then obtain t where "is_ctree c (cleft ?nd) t" using ok child by (auto simp: cnode_ok_def)
    then show ?thesis using COND_NOT less.prems by (intro exI [of _ "Negation t"]) simp
  next
    case COND_AND
    then obtain s t where "is_ctree c (cleft ?nd) s" "is_ctree c (cright ?nd) t" using ok child by (auto simp: cnode_ok_def) metis
    then show ?thesis using COND_AND less.prems by (intro exI [of _ "Both s t"]) simp
  next
    case COND_OR
    then obtain s t where "is_ctree c (cleft ?nd) s" "is_ctree c (cright ?nd) t" using ok child by (auto simp: cnode_ok_def) metis
    then show ?thesis using COND_OR less.prems by (intro exI [of _ "Either s t"]) simp
  qed
qed

text \<open>On a tree the walk is the truth of the tree, given what its comparisons return.\<close>

lemma evaluateCondition_tree:
  assumes "is_ctree c n t"
    and "\<And>k. cnode_in c k \<Longrightarrow> ckind (node_at (cnodes c) k) = COND_COMPARE \<Longrightarrow>
      evaluate_compare results (cexprs c) (ccompare (node_at (cnodes c) k)) r = Some (f (ccompare (node_at (cnodes c) k)))"
  shows "evaluateCondition results c n r = Some (truth f t)"
  using assms(1)
proof (induction t arbitrary: n)
  case (Compare k p)
  then show ?case using assms(2) [of n] by (subst evaluateCondition.simps) auto
next
  case (Negation t)
  then show ?case by (subst evaluateCondition.simps) simp
next
  case (Both s t)
  then show ?case by (subst evaluateCondition.simps) (simp add: tri_and_min)
next
  case (Either s t)
  then show ?case by (subst evaluateCondition.simps) (simp add: tri_or_max)
qed

lemma pool_ok_evaluates: "pool_ok pool \<Longrightarrow> \<exists>res. exprEvaluate pool n r = Some res"
proof (cases "in_pool pool n")
  case True
  assume "pool_ok pool"
  then obtain t where "is_tree pool n t" using True edges_down_tree by (auto simp: pool_ok_def)
  then show ?thesis using exprEvaluate_tree by blast
qed (simp add: exprEvaluate.simps [of pool n])

lemma evaluate_compare_ends:
  assumes "pool_ok pool" shows "\<exists>v. evaluate_compare results pool p r = Some v"
proof -
  have "\<exists>v. (case x of Inl e \<Rightarrow> Some TRI_UNKNOWN | Inr right \<Rightarrow> comparePredicate left right op) = Some v" for x left op
    using comparePredicate_ends by (cases x) auto
  moreover have "\<exists>v. (case x of [] \<Rightarrow> Some TRI_UNKNOWN | first # _ \<Rightarrow> comparePredicate left (first_value first) op) = Some v" for x left op
    using comparePredicate_ends by (cases x) auto
  ultimately show ?thesis
    using pool_ok_evaluates [OF assms, of "pleft p" r] pool_ok_evaluates [OF assms, of "pright p" r] comparePredicate_ends
    by (auto simp: evaluate_compare_def split: sum.split)
qed

lemma evaluate_compare_truth:
  assumes "pool_ok pool" "\<And>v. operand pool (pleft p) r = Some v \<Longrightarrow> CHR 0x00 \<notin> set (vtext v)"
  shows "evaluate_compare results pool p r = Some (compare_truth results pool r p)"
proof (cases "pop p = OP_EXISTS")
  case False
  obtain l rv where e: "exprEvaluate pool (pleft p) r = Some l" "exprEvaluate pool (pright p) r = Some rv"
    using pool_ok_evaluates [OF assms(1)] by metis
  show ?thesis
  proof (cases l)
    case (Inr left)
    have cmp: "comparePredicate left w op = Some (sql_compare op left w)" for w op
      by (rule comparePredicate_sql) (use assms(2) e Inr in \<open>simp add: operand_def\<close>)
    show ?thesis
      using False e Inr
      by (auto simp: evaluate_compare_def compare_truth_def operand_def other_operand_def cmp valueInResult_in
          split: sum.split list.split)
  qed (use False e in \<open>simp add: evaluate_compare_def compare_truth_def operand_def\<close>)
qed (simp add: evaluate_compare_def compare_truth_def)

subsection \<open>Properties\<close>

text \<open>
  C24: conditions. On every condition the parser builds, \<open>evaluateCondition\<close> returns, and what it
  returns is Kleene's logic over the tree the nodes form: AND the lesser and OR the greater of
  false, unknown and true, NOT exchanging true and false; a comparison with a null, with a value
  of another type or with an operand that cannot be computed is unknown.
\<close>
theorem condition_is_kleene:
  assumes "condition_done m c" "present c"
    and "\<And>n v. operand (cexprs c) n r = Some v \<Longrightarrow> CHR 0x00 \<notin> set (vtext v)"
  shows "\<exists>t. is_ctree c (croot c) t \<and>
    evaluateCondition results c (croot c) r = Some (truth (compare_truth results (cexprs c) r) t)"
proof -
  have ok: "cond_ok {} m c" "cnode_in c (croot c)" using assms(1,2) by (simp_all add: condition_done_def)
  obtain t where t: "is_ctree c (croot c) t" using cond_ok_tree [OF ok] by blast
  have "evaluate_compare results (cexprs c) p r = Some (compare_truth results (cexprs c) r p)" for p
    by (rule evaluate_compare_truth [OF cond_ok_exprs [OF ok(1)]]) (rule assms(3))
  then show ?thesis using evaluateCondition_tree [OF t] t by blast
qed

lemma evaluateCondition_ends:
  assumes "cond_ok {} m c" "cnode_in c n"
  shows "\<exists>v. evaluateCondition results c n r = Some v"
proof -
  obtain t where t: "is_ctree c n t" using cond_ok_tree [OF assms] by blast
  have "evaluate_compare results (cexprs c) p r = Some (the (evaluate_compare results (cexprs c) p r))" for p
    using evaluate_compare_ends [OF cond_ok_exprs [OF assms(1)], of results p r] by auto
  then show ?thesis using evaluateCondition_tree [OF t, of results r "\<lambda>p. the (evaluate_compare results (cexprs c) p r)"] by blast
qed

text \<open>The leaf an index narrows by is one of the conjuncts.\<close>

lemma findIndexableLeaf_tree:
  assumes "is_ctree c n t" "\<And>k. cnode_in c k \<Longrightarrow> \<exists>v. evaluateCondition results c k r = Some v"
  shows "\<exists>leaf. findIndexableLeaf indexed c n = Some leaf \<and> (leaf = -1 \<or>
    (cnode_in c leaf \<and> ckind (node_at (cnodes c) leaf) = COND_COMPARE \<and>
     indexable_compare indexed (cexprs c) (ccompare (node_at (cnodes c) leaf)) \<and>
     (evaluateCondition results c n r = Some TRI_TRUE \<longrightarrow> evaluateCondition results c leaf r = Some TRI_TRUE)))"
  using assms(1)
proof (induction t arbitrary: n)
  case (Both s t)
  let ?l = "cleft (node_at (cnodes c) n)" and ?r = "cright (node_at (cnodes c) n)"
  have ins: "cnode_in c ?l" "cnode_in c ?r" using Both.prems by (cases s; cases t; auto)+
  obtain a b where ab: "evaluateCondition results c ?l r = Some a" "evaluateCondition results c ?r r = Some b"
    using assms(2) ins by metis
  have e: "evaluateCondition results c n r = Some (tri_and a b)"
    using Both.prems ab by (subst evaluateCondition.simps) simp
  obtain x where x: "findIndexableLeaf indexed c ?l = Some x" "x = -1 \<or>
    (cnode_in c x \<and> ckind (node_at (cnodes c) x) = COND_COMPARE \<and>
     indexable_compare indexed (cexprs c) (ccompare (node_at (cnodes c) x)) \<and>
     (evaluateCondition results c ?l r = Some TRI_TRUE \<longrightarrow> evaluateCondition results c x r = Some TRI_TRUE))"
    using Both.IH(1) [of ?l] Both.prems by auto
  obtain y where y: "findIndexableLeaf indexed c ?r = Some y" "y = -1 \<or>
    (cnode_in c y \<and> ckind (node_at (cnodes c) y) = COND_COMPARE \<and>
     indexable_compare indexed (cexprs c) (ccompare (node_at (cnodes c) y)) \<and>
     (evaluateCondition results c ?r r = Some TRI_TRUE \<longrightarrow> evaluateCondition results c y r = Some TRI_TRUE))"
    using Both.IH(2) [of ?r] Both.prems by auto
  have "findIndexableLeaf indexed c n = Some (if x \<ge> 0 then x else y)"
    using Both.prems x(1) y(1) by (subst findIndexableLeaf.simps) simp
  then show ?case using x(2) y(2) ab e by (auto simp: tri_and_true cnode_in_def)
qed (subst findIndexableLeaf.simps; auto)+

text \<open>
  C25: the comparison an index may narrow by. The search returns, and where it names a node, that
  node compares an indexed column with a literal by an operator the index can be searched by, and
  is true of every row the whole condition is true of: fetching only the rows it admits loses none.
\<close>
theorem narrowing_keeps_rows:
  assumes "condition_done m c" "present c"
  shows "\<exists>leaf. findIndexableLeaf indexed c (croot c) = Some leaf \<and> (leaf = -1 \<or>
    (indexable_compare indexed (cexprs c) (ccompare (node_at (cnodes c) leaf)) \<and>
     (evaluateCondition results c (croot c) r = Some TRI_TRUE \<longrightarrow>
      evaluate_compare results (cexprs c) (ccompare (node_at (cnodes c) leaf)) r = Some TRI_TRUE)))"
proof -
  have ok: "cond_ok {} m c" "cnode_in c (croot c)" using assms(1,2) by (simp_all add: condition_done_def)
  obtain t where t: "is_ctree c (croot c) t" using cond_ok_tree [OF ok] by blast
  have "evaluateCondition results c leaf r = evaluate_compare results (cexprs c) (ccompare (node_at (cnodes c) leaf)) r"
    if "ckind (node_at (cnodes c) leaf) = COND_COMPARE" for leaf
    using that by (subst evaluateCondition.simps) simp
  then show ?thesis
    using findIndexableLeaf_tree [OF t evaluateCondition_ends [OF ok(1)], of indexed results r] by metis
qed

subsection \<open>The columns a condition reads\<close>

lemma pool_ok_deepest: "pool_ok pool \<Longrightarrow> \<exists>d. exprDeepest pool n = Some d"
proof (cases "in_pool pool n")
  case True
  assume "pool_ok pool"
  then obtain t where "is_tree pool n t" using True edges_down_tree by (auto simp: pool_ok_def)
  then show ?thesis using exprDeepest_tree by blast
qed (simp add: exprDeepest.simps [of pool n])

lemma deepest_nodes_covers:
  assumes "pool_ok pool"
  shows "\<exists>d'. deepest_nodes pool nds d = Some d' \<and> d \<le> d' \<and>
    (\<forall>nd \<in> set nds. ckind nd = COND_COMPARE \<longrightarrow> (\<forall>n \<in> {pleft (ccompare nd), pright (ccompare nd)}.
       \<exists>e. exprDeepest pool n = Some e \<and> e \<le> d'))"
proof (induction nds arbitrary: d)
  case (Cons nd nds)
  show ?case
  proof (cases "ckind nd = COND_COMPARE")
    case True
    obtain a b where ab: "exprDeepest pool (pleft (ccompare nd)) = Some a" "exprDeepest pool (pright (ccompare nd)) = Some b"
      using pool_ok_deepest [OF assms] by metis
    show ?thesis using True ab Cons.IH [of "max b (max a d)"] by (auto 4 3)
  next
    case False
    then show ?thesis using Cons.IH [of d] by auto
  qed
qed simp

lemma same_value:
  assumes "pool_ok pool" "exprDeepest pool n = Some e" "\<And>k. int k \<le> e \<Longrightarrow> rvals r ! k = rvals s ! k"
  shows "exprEvaluate pool n r = exprEvaluate pool n s"
proof (cases "in_pool pool n")
  case True
  then obtain t where "is_tree pool n t" using assms(1) edges_down_tree by (auto simp: pool_ok_def)
  moreover have "eval_tree t r = eval_tree t s" if "is_tree pool n t" "deepest_tree t \<le> e" for t n
    using that
  proof (induction t arbitrary: n)
    case (Leaf nd)
    then show ?case using assms(3) [of "nat (eslot nd)"] by auto
  next
    case (Bin op a b)
    then have "eval_tree a r = eval_tree a s" "eval_tree b r = eval_tree b s" by auto
    then show ?case by (simp split: sum.split)
  qed auto
  ultimately show ?thesis using exprDeepest_tree exprEvaluate_tree assms(2) by (metis option.inject order_refl)
qed (simp add: exprEvaluate.simps [of pool n])

lemma condition_deepest_enough:
  assumes "cond_ok {} m c" "cnode_in c n" "conditionDeepest c = Some d" "\<And>k. int k \<le> d \<Longrightarrow> rvals r ! k = rvals s ! k"
  shows "evaluateCondition results c n r = evaluateCondition results c n s"
proof -
  let ?f = "\<lambda>p. the (evaluate_compare results (cexprs c) p r)"
  have ok: "pool_ok (cexprs c)" by (rule cond_ok_exprs [OF assms(1)])
  obtain t where t: "is_ctree c n t" using cond_ok_tree [OF assms(1,2)] by blast
  note cov = deepest_nodes_covers [OF ok, of "cnodes c" "-1"]
  have same: "evaluate_compare results (cexprs c) (ccompare (node_at (cnodes c) k)) s =
      evaluate_compare results (cexprs c) (ccompare (node_at (cnodes c) k)) r"
    if k: "cnode_in c k" "ckind (node_at (cnodes c) k) = COND_COMPARE" for k
  proof -
    let ?p = "ccompare (node_at (cnodes c) k)"
    have "node_at (cnodes c) k \<in> set (cnodes c)" using k(1) by (auto simp: cnode_in_def node_at_def)
    then have "\<forall>n \<in> {pleft ?p, pright ?p}. \<exists>e. exprDeepest (cexprs c) n = Some e \<and> e \<le> d"
      using cov k(2) assms(3) by (auto simp: conditionDeepest_def)
    then have "exprEvaluate (cexprs c) n s = exprEvaluate (cexprs c) n r" if "n \<in> {pleft ?p, pright ?p}" for n
      using same_value [OF ok, of n _ r s] assms(4) that by (metis order_trans)
    then have "exprEvaluate (cexprs c) (pleft ?p) s = exprEvaluate (cexprs c) (pleft ?p) r"
      "exprEvaluate (cexprs c) (pright ?p) s = exprEvaluate (cexprs c) (pright ?p) r" by simp_all
    then show ?thesis by (simp only: evaluate_compare_def)
  qed
  have "evaluate_compare results (cexprs c) p r = Some (?f p)" for p
    using evaluate_compare_ends [OF ok, of results p r] by auto
  then show ?thesis using evaluateCondition_tree [OF t, of results r ?f] evaluateCondition_tree [OF t, of results s ?f] same by simp
qed

subsection \<open>Witnesses\<close>

text \<open>\<^verbatim>\<open>a > 2 and b is null\<close> over a row with a = 7 and no b.\<close>

definition demo_condition :: condition where
  "demo_condition = \<lparr>present = True, croot = 2,
     cnodes = [\<lparr>ckind = COND_COMPARE, ccompare = \<lparr>pleft = 0, pop = OP_GT, pright = 1, psubquery = -1\<rparr>, cleft = -1, cright = -1\<rparr>,
       \<lparr>ckind = COND_COMPARE, ccompare = \<lparr>pleft = 2, pop = OP_IS_NULL, pright = -1, psubquery = -1\<rparr>, cleft = -1, cright = -1\<rparr>,
       \<lparr>ckind = COND_AND, ccompare = \<lparr>pleft = -1, pop = OP_EQ, pright = -1, psubquery = -1\<rparr>, cleft = 0, cright = 1\<rparr>],
     cexprs = [(blank_node EXPR_COLUMN)\<lparr>ecolumn := ''a'', eslot := 0\<rparr>,
       (blank_node EXPR_LITERAL)\<lparr>eliteral := blank_value\<lparr>intValue := 2\<rparr>\<rparr>,
       (blank_node EXPR_COLUMN)\<lparr>ecolumn := ''b'', eslot := 1\<rparr>]\<rparr>"

definition demo_crow :: row where
  "demo_crow = blank_row\<lparr>rvals := [blank_value\<lparr>intValue := 7\<rparr>, setNull TYPE_TEXT]\<rparr>"

lemmas demo_simps = demo_condition_def demo_crow_def blank_node_def blank_value_def setNull_def node_at_def in_pool_def

lemma demo_condition_done: "condition_done 0 demo_condition" "present demo_condition"
  by (auto simp: condition_done_def cond_ok_def pool_ok_def edges_down_def cnode_in_def cnode_ok_def pred_ok_def
      demo_simps MAX_EXPR_NODES_def MAX_CONDITION_NODES_def less_Suc_eq)

lemma demo_no_nul: "operand (cexprs demo_condition) n demo_crow = Some v \<Longrightarrow> CHR 0x00 \<notin> set (vtext v)"
proof (cases "n = 0 \<or> n = 1 \<or> n = 2")
  case False
  assume "operand (cexprs demo_condition) n demo_crow = Some v"
  moreover have "\<not> in_pool (cexprs demo_condition) n" using False by (auto simp: demo_simps)
  ultimately show ?thesis by (simp add: operand_def exprEvaluate.simps [of _ n])
qed (auto simp: operand_def exprEvaluate.simps demo_simps MAX_COLS_def)

theorem condition_is_kleene_witness:
  "\<exists>t. is_ctree demo_condition 2 t \<and>
    evaluateCondition [] demo_condition 2 demo_crow = Some (truth (compare_truth [] (cexprs demo_condition) demo_crow) t)"
  using condition_is_kleene [OF demo_condition_done demo_no_nul, where results = "[]"] by (simp add: demo_condition_def)

theorem narrowing_keeps_rows_witness:
  "findIndexableLeaf (\<lambda>c. c = ''a'') demo_condition 2 = Some 0 \<and>
   evaluate_compare [] (cexprs demo_condition) (ccompare (cnodes demo_condition ! 0)) demo_crow = Some TRI_TRUE"
proof -
  have leaf: "findIndexableLeaf (\<lambda>c. c = ''a'') demo_condition 2 = Some 0"
    by (simp add: findIndexableLeaf.simps [of _ _ 2] findIndexableLeaf.simps [of _ _ 0] indexable_compare_def
        exprIsColumn_def exprIsLiteral_def exprColumn_def indexableOperator_def demo_simps)
  have "evaluateCondition [] demo_condition 2 demo_crow = Some TRI_TRUE"
    by (simp add: evaluateCondition.simps evaluate_compare_def exprEvaluate.simps comparePredicate_def compareValues_def
        intLike_def demo_simps MAX_COLS_def tri_simps)
  then show ?thesis
    using narrowing_keeps_rows [OF demo_condition_done, of "\<lambda>c. c = ''a''" "[]" demo_crow] leaf
    by (simp add: node_at_def demo_condition_def)
qed

end
