(* ===== verification/Grouping.thy ===== *)
theory Grouping
  imports Distinct ConditionTree
begin

text \<open>
  GROUP BY and the aggregates, \<^verbatim>\<open>06_executor.c\<close>: the group table with its hashed buckets, the
  accumulators, the pass over the rows and the rows of the result.
\<close>

subsection \<open>The group table\<close>

text \<open>
  An accumulator. \<open>sum\<close> is a \<^verbatim>\<open>long long\<close> over at most \<open>2 ^ 31\<close> ints and \<open>count\<close> a number of rows, so
  neither wraps; both are integers here.
\<close>

record accumulator =
  acount :: int
  asum :: int
  areal :: double
  extreme :: "Value"
  seen :: bool

text \<open>The table: one list of keys and one of accumulators for each group, its hash, and the buckets.\<close>

record groups =
  gkeys :: "Value list list"
  gaccs :: "accumulator list list"
  ghashes :: "u32 list"
  gbuckets :: "nat list"
  gcapacity :: nat

text \<open>What \<open>freeGroups\<close> leaves, and what a query starts from: the buckets of the last one, emptied.\<close>

definition freeGroups :: groups where
  "freeGroups = \<lparr>gkeys = [], gaccs = [], ghashes = [], gbuckets = [], gcapacity = 0\<rparr>"

definition start_groups :: "groups \<Rightarrow> groups" where
  "start_groups g = \<lparr>gkeys = [], gaccs = [], ghashes = [], gbuckets = replicate (length (gbuckets g)) 0, gcapacity = 0\<rparr>"

definition key_of :: "nat list \<Rightarrow> row \<Rightarrow> Value list" where
  "key_of groupSlots r = map (\<lambda>s. rvals r ! s) groupSlots"

definition keys_equal :: "Value list \<Rightarrow> Value list \<Rightarrow> bool" where
  "keys_equal ks ls \<longleftrightarrow> list_all2 valuesEqual ks ls"

definition findGroup :: "nat list \<Rightarrow> row \<Rightarrow> u32 \<Rightarrow> groups \<Rightarrow> nat option option" where
  "findGroup groupSlots r hash g =
     (if gbuckets g = [] then Some None
      else map_option fst (find_entry (\<lambda>i. keys_equal (key_of groupSlots r) (gkeys g ! i)) (gbuckets g) hash))"

fun place_all :: "nat \<Rightarrow> u32 list \<Rightarrow> nat list \<Rightarrow> nat list option" where
  "place_all i [] buckets = Some buckets"
| "place_all i (h # hs) buckets =
     (case place_entry i h buckets of None \<Rightarrow> None | Some buckets' \<Rightarrow> place_all (Suc i) hs buckets')"

text \<open>\<open>memory\<close> says of a size in entries whether the allocation finds room.\<close>

definition rehashGroups :: "(nat \<Rightarrow> bool) \<Rightarrow> groups \<Rightarrow> (error + groups) option" where
  "rehashGroups memory g =
     (let grown = (if gbuckets g \<noteq> [] then length (gbuckets g) * 2 else 256)
      in if \<not> memory grown then Some (Inl ERROR_EXEC_OUT_OF_MEMORY)
         else map_option (\<lambda>b. Inr (g\<lparr>gbuckets := b\<rparr>)) (place_all 0 (ghashes g) (replicate grown 0)))"

definition reserveGroup :: "(nat \<Rightarrow> bool) \<Rightarrow> groups \<Rightarrow> (error + groups) option" where
  "reserveGroup memory g =
     (let n = length (gkeys g);
          grown = (if gcapacity g \<noteq> 0 then gcapacity g * 2 else 256)
      in if n = gcapacity g \<and> \<not> memory grown then Some (Inl ERROR_EXEC_OUT_OF_MEMORY)
         else let g = (if n = gcapacity g then g\<lparr>gcapacity := grown\<rparr> else g)
              in if (n + 1) * 3 \<ge> length (gbuckets g) * 2 then rehashGroups memory g else Some (Inr g))"

definition recordGroup :: "nat \<Rightarrow> u32 \<Rightarrow> groups \<Rightarrow> groups option" where
  "recordGroup i hash g = map_option (\<lambda>b. g\<lparr>gbuckets := b\<rparr>) (place_entry i hash (gbuckets g))"

subsection \<open>Accumulating\<close>

text \<open>A new accumulator's \<open>extreme\<close> is what the memory held: it is not set before it is \<open>seen\<close>.\<close>

definition fresh_accumulator :: "Value \<Rightarrow> accumulator" where
  "fresh_accumulator held = \<lparr>acount = 0, asum = 0, areal = fl_zero, extreme = held, seen = False\<rparr>"

definition accumulate :: "selectitem \<Rightarrow> Value option \<Rightarrow> accumulator \<Rightarrow> accumulator" where
  "accumulate item v acc =
     (if aggregate item = AGG_NONE then acc
      else if istar item then acc\<lparr>acount := acount acc + 1, seen := True\<rparr>
      else case v of None \<Rightarrow> acc
           | Some v \<Rightarrow>
               if isNull v then acc
               else let acc = acc\<lparr>acount := acount acc + 1\<rparr>;
                        acc = (if aggregate item = AGG_SUM \<or> aggregate item = AGG_AVG
                               then (if vtype v = TYPE_FLOAT then acc\<lparr>areal := fl_add (areal acc) (floatValue v)\<rparr>
                                     else acc\<lparr>asum := asum acc + sint (intValue v),
                                              areal := fl_add (areal acc) (fl_of_int (sint (intValue v)))\<rparr>)
                               else if aggregate item = AGG_MIN \<or> aggregate item = AGG_MAX
                               then (if \<not> seen acc
                                        \<or> (aggregate item = AGG_MIN \<and> compareValues v (extreme acc) < 0)
                                        \<or> (aggregate item = AGG_MAX \<and> compareValues v (extreme acc) > 0)
                                     then acc\<lparr>extreme := v\<rparr> else acc)
                               else acc)
                    in acc\<lparr>seen := True\<rparr>)"

fun accumulate_items :: "exprpool \<Rightarrow> row \<Rightarrow> selectitem list \<Rightarrow> accumulator list \<Rightarrow> (error + accumulator list) option" where
  "accumulate_items pool r (item # items) (acc # accs) =
     (if istar item
      then map_option (map_sum id ((#) (accumulate item None acc))) (accumulate_items pool r items accs)
      else do {
        v \<leftarrow> exprEvaluate pool (iexpr item) r;
        case v of Inl e \<Rightarrow> Some (Inl e)
        | Inr computed \<Rightarrow>
            map_option (map_sum id ((#) (accumulate item (Some computed) acc))) (accumulate_items pool r items accs) })"
| "accumulate_items pool r _ accs = Some (Inr accs)"

text \<open>One row of the pass: its group found or opened, then every item's accumulator.\<close>

definition open_group :: "(nat \<Rightarrow> bool) \<Rightarrow> Value \<Rightarrow> selectstatement \<Rightarrow> nat list \<Rightarrow> row \<Rightarrow> u32 \<Rightarrow> groups \<Rightarrow> (error + nat \<times> groups) option" where
  "open_group memory held s groupSlots r hash g =
     do {
       res \<leftarrow> reserveGroup memory g;
       case res of Inl e \<Rightarrow> Some (Inl e)
       | Inr g \<Rightarrow>
           let i = length (gkeys g)
           in map_option (\<lambda>g. Inr (i, g\<lparr>gkeys := gkeys g @ [key_of groupSlots r],
                                        gaccs := gaccs g @ [map (\<lambda>_. fresh_accumulator held) (sitems s)]\<rparr>))
                (recordGroup i hash (g\<lparr>ghashes := ghashes g @ [hash]\<rparr>)) }"

definition group_row :: "(nat \<Rightarrow> bool) \<Rightarrow> Value \<Rightarrow> selectstatement \<Rightarrow> nat list \<Rightarrow> row \<Rightarrow> groups \<Rightarrow> (error + groups) option" where
  "group_row memory held s groupSlots r g =
     (let hash = hashKey r groupSlots
      in do {
        found \<leftarrow> findGroup groupSlots r hash g;
        opened \<leftarrow> (case found of Some i \<Rightarrow> Some (Inr (i, g))
                   | None \<Rightarrow> open_group memory held s groupSlots r hash g);
        case opened of Inl e \<Rightarrow> Some (Inl e)
        | Inr (i, g) \<Rightarrow>
            map_option (map_sum id (\<lambda>accs. g\<lparr>gaccs := (gaccs g)[i := accs]\<rparr>))
              (accumulate_items (sexprs s) r (sitems s) (gaccs g ! i)) })"

fun group_rows :: "(nat \<Rightarrow> bool) \<Rightarrow> Value \<Rightarrow> selectstatement \<Rightarrow> nat list \<Rightarrow> row list \<Rightarrow> groups \<Rightarrow> (error + groups) option" where
  "group_rows memory held s groupSlots [] g = Some (Inr g)"
| "group_rows memory held s groupSlots (r # rs) g =
     do { res \<leftarrow> group_row memory held s groupSlots r g;
          case res of Inl e \<Rightarrow> Some (Inl e) | Inr g \<Rightarrow> group_rows memory held s groupSlots rs g }"

subsection \<open>The rows of the result\<close>

text \<open>\<open>itemKey\<close> and \<open>itemType\<close> of an item, as the preparation of the pass finds them.\<close>

definition group_value :: "Value list \<Rightarrow> selectitem \<Rightarrow> nat \<Rightarrow> coltype \<Rightarrow> accumulator \<Rightarrow> error + Value" where
  "group_value keys item itemKey itemType acc =
     (case aggregate item of
        AGG_NONE \<Rightarrow> Inr (keys ! itemKey)
      | AGG_COUNT \<Rightarrow> Inr (blank_value\<lparr>vtype := TYPE_INT, isNull := False, intValue := of_int (acount acc)\<rparr>)
      | AGG_AVG \<Rightarrow> Inr (if \<not> seen acc \<or> acount acc = 0 then setNull TYPE_FLOAT
                       else setFloat (fl_div (areal acc) (fl_of_int (acount acc))))
      | AGG_SUM \<Rightarrow> if \<not> seen acc then Inr (setNull itemType)
                  else if itemType = TYPE_FLOAT then Inr (setFloat (areal acc))
                  else if asum acc < INT_MIN \<or> asum acc > INT_MAX then Inl ERROR_VALUE_OUT_OF_RANGE
                  else Inr (blank_value\<lparr>vtype := TYPE_INT, isNull := False, intValue := of_int (asum acc)\<rparr>)
      | _ \<Rightarrow> Inr (if seen acc then extreme acc else setNull itemType))"

fun group_values :: "Value list \<Rightarrow> (selectitem \<times> nat \<times> coltype) list \<Rightarrow> accumulator list \<Rightarrow> error + Value list" where
  "group_values keys ((item, itemKey, itemType) # items) (acc # accs) =
     (case group_value keys item itemKey itemType acc of Inl e \<Rightarrow> Inl e
      | Inr v \<Rightarrow> map_sum id ((#) v) (group_values keys items accs))"
| "group_values keys _ _ = Inr []"

text \<open>A row of the result; nothing reads the values past its columns.\<close>

definition result_row :: "Value list \<Rightarrow> row" where
  "result_row vs = \<lparr>rvals = vs @ replicate (MAX_COLS - length vs) blank_value, ncols = length vs, deleted = False\<rparr>"

fun finish_groups :: "resultset list \<Rightarrow> condition \<Rightarrow> (selectitem \<times> nat \<times> coltype) list \<Rightarrow>
    (Value list \<times> accumulator list) list \<Rightarrow> (error + row list) option" where
  "finish_groups results hav items [] = Some (Inr [])"
| "finish_groups results hav items ((keys, accs) # gs) =
     (case group_values keys items accs of Inl e \<Rightarrow> Some (Inl e)
      | Inr vs \<Rightarrow> do {
          keep \<leftarrow> (if present hav then evaluateCondition results hav (croot hav) (result_row vs) else Some TRI_TRUE);
          rest \<leftarrow> finish_groups results hav items gs;
          Some (case rest of Inl e \<Rightarrow> Inl e | Inr rs \<Rightarrow> Inr (if keep = TRI_TRUE then result_row vs # rs else rs)) })"

subsection \<open>One group for each key\<close>

lemma fl_eq_sym: "fl_eq x y \<Longrightarrow> fl_eq y x" by (simp add: fl_eq_def)
lemma fl_eq_trans: "fl_eq x y \<Longrightarrow> fl_eq y z \<Longrightarrow> fl_eq x z" by (simp add: fl_eq_def)

lemma valuesEqual_iff:
  "valuesEqual a b \<longleftrightarrow> (isNull a \<and> isNull b) \<or> (\<not> isNull a \<and> \<not> isNull b \<and> vtype a = vtype b \<and> value_same a b)"
  by (auto simp: valuesEqual_def valuesSame_value_same)

lemma value_same_sym: "vtype a = vtype b \<Longrightarrow> value_same a b \<Longrightarrow> value_same b a"
  by (cases "vtype b") (auto simp: value_same_def intro: fl_eq_sym)

lemma value_same_trans: "vtype a = vtype b \<Longrightarrow> vtype b = vtype c \<Longrightarrow> value_same a b \<Longrightarrow> value_same b c \<Longrightarrow> value_same a c"
  by (cases "vtype c") (auto simp: value_same_def intro: fl_eq_trans)

lemma valuesEqual_sym: "valuesEqual a b \<Longrightarrow> valuesEqual b a"
  unfolding valuesEqual_iff by (metis value_same_sym)

lemma valuesEqual_trans: "valuesEqual a b \<Longrightarrow> valuesEqual b c \<Longrightarrow> valuesEqual a c"
  unfolding valuesEqual_iff by (metis value_same_trans)

lemma keys_equal_sym: "keys_equal a b \<Longrightarrow> keys_equal b a"
  unfolding keys_equal_def by (auto simp: list_all2_conv_all_nth intro: valuesEqual_sym)

lemma keys_equal_trans: "keys_equal a b \<Longrightarrow> keys_equal b c \<Longrightarrow> keys_equal a c"
  unfolding keys_equal_def by (rule list_all2_trans [where ?P1.0 = valuesEqual and ?P2.0 = valuesEqual]) (rule valuesEqual_trans)

text \<open>A value with one hash, equal to itself: no signed zero, and a number where it is real.\<close>

definition groupable :: "Value \<Rightarrow> bool" where
  "groupable v \<longleftrightarrow> plain v \<and> valuesEqual v v"

lemma keys_equal_hash:
  "keys_equal a b \<Longrightarrow> list_all groupable a \<Longrightarrow> list_all groupable b \<Longrightarrow> hash_values a = hash_values b"
  by (rule hash_values_equal) (auto simp: keys_equal_def list_all2_conv_all_nth list_all_length groupable_def)

lemma keys_equal_refl: "list_all groupable a \<Longrightarrow> keys_equal a a"
  by (auto simp: keys_equal_def list_all2_conv_all_nth list_all_length groupable_def)

lemma place_all_ok:
  "\<lbrakk>table_ok b hs; length hs + length later < length b\<rbrakk> \<Longrightarrow>
   \<exists>b'. place_all (length hs) later b = Some b' \<and> length b' = length b \<and> table_ok b' (hs @ later)"
proof (induction later arbitrary: b hs)
  case (Cons h later)
  obtain b' where b': "place_entry (length hs) h b = Some b'" "length b' = length b" "table_ok b' (hs @ [h])"
    using place_entry_ok [OF Cons.prems(1), of h] Cons.prems(2) by auto
  then show ?case using Cons.IH [OF b'(3)] Cons.prems(2) by auto
qed auto

text \<open>The buckets of a table: none yet and no group, or a sound table of at most \<open>2 ^ 30\<close>.\<close>

definition buckets_ok :: "nat list \<Rightarrow> u32 list \<Rightarrow> bool" where
  "buckets_ok b hs \<longleftrightarrow> (b = [] \<and> hs = []) \<or> (table_ok b hs \<and> (\<exists>k \<le> 30. length b = 2 ^ k))"

lemma reserveGroup_room:
  assumes "buckets_ok (gbuckets g) (ghashes g)" "length (ghashes g) = length (gkeys g)" "length (gkeys g) < 2 ^ 28"
  shows "\<exists>b c. reserveGroup (\<lambda>_. True) g = Some (Inr (g\<lparr>gbuckets := b, gcapacity := c\<rparr>)) \<and>
    buckets_ok b (ghashes g) \<and> Suc (length (gkeys g)) < length b"
proof -
  let ?n = "length (gkeys g)" and ?B = "length (gbuckets g)"
  define g' where "g' = (if ?n = gcapacity g then g\<lparr>gcapacity := if gcapacity g \<noteq> 0 then gcapacity g * 2 else 256\<rparr> else g)"
  have g': "gbuckets g' = gbuckets g" "ghashes g' = ghashes g" "\<exists>c. g' = g\<lparr>gcapacity := c\<rparr>"
    by (auto simp: g'_def intro: exI [of _ "gcapacity g"])
  have res: "reserveGroup (\<lambda>_. True) g = (if (?n + 1) * 3 \<ge> ?B * 2 then rehashGroups (\<lambda>_. True) g' else Some (Inr g'))"
    by (simp add: reserveGroup_def g'_def)
  show ?thesis
  proof (cases "(?n + 1) * 3 \<ge> ?B * 2")
    case False
    then have "Suc ?n < ?B" by simp
    then show ?thesis using res False assms(1) g' by (metis groups.surjective groups.update_convs(4,5))
  next
    case True
    define grown where "grown = (if gbuckets g \<noteq> [] then ?B * 2 else 256)"
    have size: "(\<exists>k \<le> 30. grown = 2 ^ k) \<and> Suc ?n < grown"
    proof (cases "gbuckets g = []")
      case empty: True
      then have "?n = 0" using assms(1,2) by (auto simp: buckets_ok_def table_ok_def)
      then show ?thesis using empty by (auto simp: grown_def intro!: exI [of _ 8])
    next
      case False
      then obtain k where k: "?B = 2 ^ k" "table_ok (gbuckets g) (ghashes g)" using assms(1) by (auto simp: buckets_ok_def)
      have "?B * 2 < 2 ^ 30" using True assms(3) by simp
      then have "(2 :: nat) ^ Suc k < 2 ^ 30" using k(1) by (simp add: mult.commute)
      then have "Suc k < 30" using power_less_imp_less_exp [of "2 :: nat" "Suc k" 30] by simp
      moreover have "?n < ?B" using k(2) assms(2) by (simp add: table_ok_def)
      ultimately show ?thesis using False k(1) by (auto simp: grown_def intro!: exI [of _ "Suc k"])
    qed
    then obtain k where k: "k \<le> 30" "grown = 2 ^ k" by blast
    then have "table_ok (replicate grown 0) []" using empty_table [of k] by simp
    from place_all_ok [OF this, of "ghashes g"] size assms(2)
    obtain b where "place_all 0 (ghashes g) (replicate grown 0) = Some b" "length b = grown" "table_ok b (ghashes g)" by auto
    then have "rehashGroups (\<lambda>_. True) g' = Some (Inr (g'\<lparr>gbuckets := b\<rparr>))" "buckets_ok b (ghashes g)" "Suc ?n < length b"
      using g' k size by (auto simp: rehashGroups_def grown_def Let_def buckets_ok_def)
    moreover obtain c where c: "g' = g\<lparr>gcapacity := c\<rparr>" using g'(3) by blast
    moreover have "g\<lparr>gcapacity := c, gbuckets := b\<rparr> = g\<lparr>gbuckets := b, gcapacity := c\<rparr>" by (cases g) simp
    ultimately show ?thesis using res True by (intro exI [of _ b] exI [of _ c]) simp
  qed
qed

text \<open>The value an item has in a row, none for a star.\<close>

definition item_value :: "exprpool \<Rightarrow> row \<Rightarrow> selectitem \<Rightarrow> Value option" where
  "item_value pool r item = (if istar item then None else operand pool (iexpr item) r)"

definition items_evaluate :: "selectstatement \<Rightarrow> row \<Rightarrow> bool" where
  "items_evaluate s r \<longleftrightarrow> list_all (\<lambda>item. istar item \<or> operand (sexprs s) (iexpr item) r \<noteq> None) (sitems s)"

lemma accumulate_items_all:
  assumes "list_all (\<lambda>item. istar item \<or> operand pool (iexpr item) r \<noteq> None) items" "length accs = length items"
  shows "accumulate_items pool r items accs = Some (Inr (map2 (\<lambda>item acc. accumulate item (item_value pool r item) acc) items accs))"
  using assms
proof (induction items arbitrary: accs)
  case (Cons item items)
  then obtain acc accs' where "accs = acc # accs'" by (cases accs) auto
  then show ?case
    using Cons by (auto simp: item_value_def operand_def split: option.splits sum.splits)
qed simp

text \<open>What a group's accumulators hold: its rows in order, one item at a time.\<close>

definition group_accs :: "Value \<Rightarrow> selectstatement \<Rightarrow> row list \<Rightarrow> accumulator list" where
  "group_accs held s rs =
     map (\<lambda>item. foldl (\<lambda>acc r. accumulate item (item_value (sexprs s) r item) acc) (fresh_accumulator held) rs) (sitems s)"

definition rows_of :: "nat list \<Rightarrow> Value list \<Rightarrow> row list \<Rightarrow> row list" where
  "rows_of groupSlots key rs = filter (\<lambda>r. keys_equal (key_of groupSlots r) key) rs"

definition grouped :: "Value \<Rightarrow> selectstatement \<Rightarrow> nat list \<Rightarrow> row list \<Rightarrow> groups \<Rightarrow> bool" where
  "grouped held s groupSlots rs g \<longleftrightarrow>
     gkeys g = keep_first keys_equal [] (map (key_of groupSlots) rs) \<and> ghashes g = map hash_values (gkeys g) \<and>
     gaccs g = map (\<lambda>k. group_accs held s (rows_of groupSlots k rs)) (gkeys g) \<and> buckets_ok (gbuckets g) (ghashes g)"

lemma group_accs_snoc:
  "group_accs held s (rs @ [r]) =
     map2 (\<lambda>item acc. accumulate item (item_value (sexprs s) r item) acc) (sitems s) (group_accs held s rs)"
  by (rule nth_equalityI) (simp_all add: group_accs_def)

lemma findGroup_finds:
  assumes "buckets_ok (gbuckets g) (map hash_values (gkeys g))" "ghashes g = map hash_values (gkeys g)"
    and "list_all groupable (key_of groupSlots r)" "\<And>k. k \<in> set (gkeys g) \<Longrightarrow> list_all groupable k"
  shows "\<exists>f. findGroup groupSlots r (hashKey r groupSlots) g = Some f \<and>
    (case f of None \<Rightarrow> \<forall>k \<in> set (gkeys g). \<not> keys_equal (key_of groupSlots r) k
     | Some i \<Rightarrow> i < length (gkeys g) \<and> keys_equal (key_of groupSlots r) (gkeys g ! i))"
proof (cases "gbuckets g = []")
  case True
  then show ?thesis using assms(1) by (auto simp: findGroup_def buckets_ok_def table_ok_def)
next
  case False
  let ?k = "key_of groupSlots r" and ?same = "\<lambda>i. keys_equal (key_of groupSlots r) (gkeys g ! i)"
  have h: "hashKey r groupSlots = hash_values ?k" by (simp add: hashKey_def key_of_def)
  have "table_ok (gbuckets g) (map hash_values (gkeys g))" using assms(1) False by (auto simp: buckets_ok_def)
  from find_entry_result [OF this, of ?same "hash_values ?k"] obtain f at where
    f: "find_entry ?same (gbuckets g) (hash_values ?k) = Some (f, at)"
       "case f of None \<Rightarrow> \<forall>i < length (gkeys g). map hash_values (gkeys g) ! i = hash_values ?k \<longrightarrow> \<not> ?same i
        | Some i \<Rightarrow> i < length (gkeys g) \<and> ?same i" by (simp only: length_map) blast
  have "case f of None \<Rightarrow> \<forall>k \<in> set (gkeys g). \<not> keys_equal ?k k | Some i \<Rightarrow> i < length (gkeys g) \<and> ?same i"
  proof (cases f)
    case None
    have "\<not> keys_equal ?k (gkeys g ! i)" if i: "i < length (gkeys g)" for i
    proof
      assume e: "keys_equal ?k (gkeys g ! i)"
      then have "hash_values (gkeys g ! i) = hash_values ?k" using keys_equal_hash [OF e assms(3) assms(4)] i by simp
      then show False using f(2) None i e by simp
    qed
    then show ?thesis using None by (auto simp: in_set_conv_nth)
  qed (use f(2) in simp)
  then show ?thesis using f(1) h False by (intro exI [of _ f]) (simp add: findGroup_def)
qed

lemma keep_first_covers:
  "(\<And>x. x \<in> set xs \<Longrightarrow> eq x x) \<Longrightarrow> x \<in> set xs \<Longrightarrow> \<exists>k \<in> set (keep_first eq kept xs). eq x k"
proof (induction xs rule: rev_induct)
  case (snoc y xs)
  show ?case
  proof (cases "x \<in> set xs")
    case True
    then obtain k where "k \<in> set (keep_first eq kept xs)" "eq x k" using snoc by auto
    then show ?thesis by (auto simp: keep_first_snoc)
  next
    case False
    then show ?thesis using snoc.prems by (auto simp: keep_first_snoc)
  qed
qed simp

lemma grouped_keys_apart:
  assumes "grouped held s groupSlots rs g" "i < length (gkeys g)" "j < length (gkeys g)" "keys_equal (gkeys g ! i) (gkeys g ! j)"
  shows "i = j"
proof -
  have "sorted_wrt (\<lambda>a b. \<not> keys_equal b a) (gkeys g)"
    using assms(1) keep_first_apart [of keys_equal "[]"] by (simp add: grouped_def)
  then have "\<not> keys_equal (gkeys g ! b) (gkeys g ! a)" if "a < b" "b < length (gkeys g)" for a b
    using that by (simp add: sorted_wrt_iff_nth_less)
  then show ?thesis using assms(2,3,4) keys_equal_sym [OF assms(4)] by (metis linorder_neqE_nat)
qed

lemma rows_of_snoc:
  "rows_of groupSlots k (rs @ [r]) = rows_of groupSlots k rs @ (if keys_equal (key_of groupSlots r) k then [r] else [])"
  by (simp add: rows_of_def)

lemma group_row_groups:
  assumes g: "grouped held s groupSlots rs g" and size: "length rs < 2 ^ 28"
    and keys: "\<And>x. x \<in> set (rs @ [r]) \<Longrightarrow> list_all groupable (key_of groupSlots x)" and items: "items_evaluate s r"
  shows "\<exists>g'. group_row (\<lambda>_. True) held s groupSlots r g = Some (Inr g') \<and> grouped held s groupSlots (rs @ [r]) g'"
proof -
  let ?k = "key_of groupSlots r" and ?h = "hashKey r groupSlots"
  let ?step = "map2 (\<lambda>item acc. accumulate item (item_value (sexprs s) r item) acc) (sitems s)"
  let ?accs = "\<lambda>k. group_accs held s (rows_of groupSlots k rs)"
  have kf: "gkeys g = keep_first keys_equal [] (map (key_of groupSlots) rs)" and hs: "ghashes g = map hash_values (gkeys g)"
    and ga: "gaccs g = map ?accs (gkeys g)" and b: "buckets_ok (gbuckets g) (map hash_values (gkeys g))"
    using g by (auto simp: grouped_def)
  have in_keys: "list_all groupable k" if "k \<in> set (gkeys g)" for k
    using keep_first_set [of keys_equal "[]" "map (key_of groupSlots) rs"] that kf keys by auto
  have n: "length (gkeys g) < 2 ^ 28" using keep_first_length [of keys_equal "[]" "map (key_of groupSlots) rs"] kf size by simp
  have h: "?h = hash_values ?k" by (simp add: hashKey_def key_of_def)
  have run: "accumulate_items (sexprs s) r (sitems s) accs = Some (Inr (?step accs))" if "length accs = length (sitems s)" for accs
    using accumulate_items_all items that by (simp add: items_evaluate_def)
  have len: "length (?accs k) = length (sitems s)" for k by (simp add: group_accs_def)
  obtain f where f: "findGroup groupSlots r ?h g = Some f"
      "case f of None \<Rightarrow> \<forall>k \<in> set (gkeys g). \<not> keys_equal ?k k
       | Some i \<Rightarrow> i < length (gkeys g) \<and> keys_equal ?k (gkeys g ! i)"
    using findGroup_finds [OF b hs keys in_keys] by auto
  show ?thesis
  proof (cases f)
    case (Some i)
    then have i: "i < length (gkeys g)" "keys_equal ?k (gkeys g ! i)" using f(2) by simp_all
    let ?g = "g\<lparr>gaccs := (gaccs g)[i := ?step (gaccs g ! i)]\<rparr>"
    have "group_row (\<lambda>_. True) held s groupSlots r g = Some (Inr ?g)"
      using f(1) Some i ga run [OF len] by (simp add: group_row_def Let_def)
    moreover have "keep_first keys_equal [] (map (key_of groupSlots) (rs @ [r])) = gkeys g"
      using kf i by (auto simp: keep_first_snoc)
    moreover have "(gaccs g)[i := ?step (gaccs g ! i)] = map (\<lambda>k. group_accs held s (rows_of groupSlots k (rs @ [r]))) (gkeys g)"
    proof (rule nth_equalityI)
      fix j assume "j < length ((gaccs g)[i := ?step (gaccs g ! i)])"
      then have j: "j < length (gkeys g)" using ga by simp
      have "keys_equal ?k (gkeys g ! j) \<longleftrightarrow> j = i"
      proof
        assume e: "keys_equal ?k (gkeys g ! j)"
        show "j = i" by (rule grouped_keys_apart [OF g j i(1) keys_equal_trans [OF keys_equal_sym [OF e] i(2)]])
      qed (use i(2) in simp)
      then show "(gaccs g)[i := ?step (gaccs g ! i)] ! j = map (\<lambda>k. group_accs held s (rows_of groupSlots k (rs @ [r]))) (gkeys g) ! j"
        using j i(1) ga by (auto simp: rows_of_snoc group_accs_snoc nth_list_update)
    qed (simp add: ga)
    ultimately show ?thesis using hs b by (intro exI [of _ ?g]) (simp add: grouped_def)
  next
    case None
    then have new: "\<And>k. k \<in> set (gkeys g) \<Longrightarrow> \<not> keys_equal ?k k" using f(2) by simp
    obtain bs c where res: "reserveGroup (\<lambda>_. True) g = Some (Inr (g\<lparr>gbuckets := bs, gcapacity := c\<rparr>))"
        "buckets_ok bs (ghashes g)" "Suc (length (gkeys g)) < length bs"
      using reserveGroup_room [of g] b hs n by auto
    have t: "table_ok bs (ghashes g)" using res(2,3) by (auto simp: buckets_ok_def)
    obtain bs' where bs': "place_entry (length (gkeys g)) ?h bs = Some bs'" "length bs' = length bs" "table_ok bs' (ghashes g @ [?h])"
      using place_entry_ok [OF t, of ?h] res(3) hs by auto
    let ?new = "map (\<lambda>_. fresh_accumulator held) (sitems s)"
    let ?g = "g\<lparr>gbuckets := bs', gcapacity := c, ghashes := ghashes g @ [?h], gkeys := gkeys g @ [?k], gaccs := gaccs g @ [?step ?new]\<rparr>"
    have opened: "open_group (\<lambda>_. True) held s groupSlots r ?h g =
        Some (Inr (length (gkeys g), g\<lparr>gbuckets := bs', gcapacity := c, ghashes := ghashes g @ [?h], gkeys := gkeys g @ [?k], gaccs := gaccs g @ [?new]\<rparr>))"
      using res(1) bs'(1) by (cases g) (simp add: open_group_def recordGroup_def Let_def)
    have "length (gkeys g) = length (gaccs g)" using ga by simp
    then have "group_row (\<lambda>_. True) held s groupSlots r g = Some (Inr ?g)"
      using f(1) None opened run [of ?new] by (cases g) (simp add: group_row_def Let_def)
    moreover have "keep_first keys_equal [] (map (key_of groupSlots) (rs @ [r])) = gkeys g @ [?k]"
      using kf new by (auto simp: keep_first_snoc)
    moreover have "rows_of groupSlots ?k rs = []"
    proof -
      have "\<not> keys_equal (key_of groupSlots x) ?k" if "x \<in> set rs" for x
      proof
        assume e: "keys_equal (key_of groupSlots x) ?k"
        have "keys_equal k k" if "k \<in> set (map (key_of groupSlots) rs)" for k using that keys keys_equal_refl by auto
        then have "\<exists>k \<in> set (gkeys g). keys_equal (key_of groupSlots x) k"
          unfolding kf by (rule keep_first_covers) (use that in auto)
        then obtain k where "k \<in> set (gkeys g)" "keys_equal (key_of groupSlots x) k" by blast
        then show False using new keys_equal_trans [OF keys_equal_sym [OF e]] by blast
      qed
      then show ?thesis by (simp add: rows_of_def filter_empty_conv)
    qed
    then have "group_accs held s (rows_of groupSlots ?k (rs @ [r])) = ?step ?new"
      using keys_equal_refl [OF keys, of r] by (simp add: rows_of_snoc group_accs_snoc) (rule nth_equalityI; simp add: group_accs_def)
    moreover have "map (\<lambda>k. group_accs held s (rows_of groupSlots k (rs @ [r]))) (gkeys g) = gaccs g"
      using new by (simp add: ga rows_of_snoc)
    moreover have "buckets_ok bs' (ghashes g @ [?h])" using bs' res(2,3) by (auto simp: buckets_ok_def)
    ultimately show ?thesis using hs h by (intro exI [of _ ?g]) (simp add: grouped_def)
  qed
qed

lemma group_rows_groups:
  assumes "\<And>x. x \<in> set (rs @ more_rows) \<Longrightarrow> list_all groupable (key_of groupSlots x)" "\<And>x. x \<in> set more_rows \<Longrightarrow> items_evaluate s x"
    and "length (rs @ more_rows) \<le> 2 ^ 28" "grouped held s groupSlots rs g"
  shows "\<exists>g'. group_rows (\<lambda>_. True) held s groupSlots more_rows g = Some (Inr g') \<and> grouped held s groupSlots (rs @ more_rows) g'"
  using assms
proof (induction more_rows arbitrary: rs g)
  case (Cons r rest)
  obtain g' where g': "group_row (\<lambda>_. True) held s groupSlots r g = Some (Inr g')" "grouped held s groupSlots (rs @ [r]) g'"
    using group_row_groups [OF Cons.prems(4), of r] Cons.prems(1,2,3) by fastforce
  have "\<exists>g''. group_rows (\<lambda>_. True) held s groupSlots rest g' = Some (Inr g'') \<and> grouped held s groupSlots ((rs @ [r]) @ rest) g''"
    by (rule Cons.IH) (use Cons.prems g'(2) in auto)
  then show ?case using g'(1) by simp
qed simp

subsection \<open>What an accumulator holds\<close>

text \<open>The values of an item in the rows of a group, nulls left out.\<close>

definition values_of :: "exprpool \<Rightarrow> selectitem \<Rightarrow> row list \<Rightarrow> Value list" where
  "values_of pool item rs = filter (\<lambda>v. \<not> isNull v) (concat (map (\<lambda>r. case item_value pool r item of None \<Rightarrow> [] | Some v \<Rightarrow> [v]) rs))"

text \<open>What the aggregates promise of the values \<open>vs\<close> and the number of rows \<open>n\<close>.\<close>

definition holds_aggregate :: "selectitem \<Rightarrow> nat \<Rightarrow> Value list \<Rightarrow> accumulator \<Rightarrow> bool" where
  "holds_aggregate item n vs acc \<longleftrightarrow>
     acount acc = int (if istar item then n else length vs) \<and>
     (\<not> istar item \<longrightarrow> (seen acc \<longleftrightarrow> vs \<noteq> [])) \<and>
     (\<not> istar item \<longrightarrow> aggregate item \<in> {AGG_SUM, AGG_AVG} \<longrightarrow> (\<forall>v \<in> set vs. vtype v = TYPE_INT) \<longrightarrow>
        asum acc = sum_list (map (\<lambda>v. sint (intValue v)) vs)) \<and>
     (\<not> istar item \<longrightarrow> aggregate item \<in> {AGG_MIN, AGG_MAX} \<longrightarrow> vs \<noteq> [] \<longrightarrow> (\<exists>ty. set vs \<subseteq> column_values ty) \<longrightarrow>
        extreme acc \<in> set vs \<and>
        (\<forall>v \<in> set vs. if aggregate item = AGG_MIN then compareValues (extreme acc) v \<le> 0 else compareValues (extreme acc) v \<ge> 0))"

lemma accumulate_star:
  "aggregate item \<noteq> AGG_NONE \<Longrightarrow> istar item \<Longrightarrow> acount (accumulate item v acc) = acount acc + 1"
  by (simp add: accumulate_def)

lemma accumulate_skips: "\<not> istar item \<Longrightarrow> v = None \<or> isNull (the v) \<Longrightarrow> accumulate item v acc = acc"
  by (cases v) (auto simp: accumulate_def)

lemma accumulate_takes:
  assumes "aggregate item \<noteq> AGG_NONE" "\<not> istar item" "\<not> isNull v"
  shows "acount (accumulate item (Some v) acc) = acount acc + 1" "seen (accumulate item (Some v) acc)"
    "aggregate item \<in> {AGG_SUM, AGG_AVG} \<Longrightarrow> vtype v = TYPE_INT \<Longrightarrow>
       asum (accumulate item (Some v) acc) = asum acc + sint (intValue v)"
  using assms by (auto simp: accumulate_def Let_def)

lemma values_of_snoc:
  "values_of pool item (rs @ [r]) = values_of pool item rs @
     (case item_value pool r item of Some v \<Rightarrow> if isNull v then [] else [v] | None \<Rightarrow> [])"
  by (simp add: values_of_def split: option.split)

lemma values_of_Nil [simp]: "values_of pool item [] = []" by (simp add: values_of_def)

lemma accumulate_count:
  "aggregate item \<noteq> AGG_NONE \<Longrightarrow>
   acount (foldl (\<lambda>acc r. accumulate item (item_value pool r item) acc) (fresh_accumulator held) rs) =
     int (if istar item then length rs else length (values_of pool item rs)) \<and>
   (\<not> istar item \<longrightarrow> (seen (foldl (\<lambda>acc r. accumulate item (item_value pool r item) acc) (fresh_accumulator held) rs) \<longleftrightarrow> values_of pool item rs \<noteq> []))"
proof (induction rs rule: rev_induct)
  case Nil
  then show ?case by (simp add: fresh_accumulator_def)
next
  case (snoc r rs)
  show ?case
  proof (cases "istar item \<or> item_value pool r item = None \<or> isNull (the (item_value pool r item))")
    case True
    then show ?thesis
      using snoc by (cases "istar item") (auto simp: accumulate_star accumulate_skips values_of_snoc split: option.split)
  next
    case False
    then obtain v where "item_value pool r item = Some v" "\<not> isNull v" "\<not> istar item" by auto
    then show ?thesis using snoc by (simp add: accumulate_takes values_of_snoc)
  qed
qed

lemma accumulate_sum:
  "\<lbrakk>aggregate item \<in> {AGG_SUM, AGG_AVG}; \<not> istar item; \<forall>v \<in> set (values_of pool item rs). vtype v = TYPE_INT\<rbrakk> \<Longrightarrow>
   asum (foldl (\<lambda>acc r. accumulate item (item_value pool r item) acc) (fresh_accumulator held) rs) =
     sum_list (map (\<lambda>v. sint (intValue v)) (values_of pool item rs))"
proof (induction rs rule: rev_induct)
  case Nil
  then show ?case by (simp add: fresh_accumulator_def)
next
  case (snoc r rs)
  have agg: "aggregate item \<noteq> AGG_NONE" using snoc.prems(1) by auto
  show ?case
  proof (cases "item_value pool r item = None \<or> isNull (the (item_value pool r item))")
    case True
    then show ?thesis using snoc by (auto simp: accumulate_skips values_of_snoc split: option.split)
  next
    case False
    then obtain v where v: "item_value pool r item = Some v" "\<not> isNull v" by auto
    have ty: "vtype v = TYPE_INT" using snoc.prems(3) v by (simp add: values_of_snoc)
    show ?thesis
      using snoc v by (simp add: values_of_snoc accumulate_takes(3) [OF agg snoc.prems(2) v(2) snoc.prems(1) ty])
  qed
qed

lemma accumulate_minmax:
  "\<lbrakk>aggregate item \<in> {AGG_MIN, AGG_MAX}; \<not> istar item; \<not> isNull v\<rbrakk> \<Longrightarrow>
   extreme (accumulate item (Some v) acc) =
     (if \<not> seen acc \<or> (aggregate item = AGG_MIN \<and> compareValues v (extreme acc) < 0)
         \<or> (aggregate item = AGG_MAX \<and> compareValues v (extreme acc) > 0) then v else extreme acc)"
  by (auto simp: accumulate_def Let_def)

lemma accumulate_extreme:
  assumes "aggregate item \<in> {AGG_MIN, AGG_MAX}" "\<not> istar item"
  shows "\<lbrakk>set (values_of pool item rs) \<subseteq> column_values ty; values_of pool item rs \<noteq> []\<rbrakk> \<Longrightarrow>
    let acc = foldl (\<lambda>acc r. accumulate item (item_value pool r item) acc) (fresh_accumulator held) rs
    in extreme acc \<in> set (values_of pool item rs) \<and>
       (\<forall>v \<in> set (values_of pool item rs). if aggregate item = AGG_MIN then orderCompare (extreme acc) v \<le> 0 else orderCompare v (extreme acc) \<le> 0)"
proof (induction rs rule: rev_induct)
  case Nil
  then show ?case by (simp add: values_of_def)
next
  case (snoc r rs)
  let ?f = "\<lambda>acc r. accumulate item (item_value pool r item) acc"
  let ?acc = "foldl ?f (fresh_accumulator held) rs" and ?vs = "values_of pool item rs"
  have seen: "seen ?acc \<longleftrightarrow> ?vs \<noteq> []" using accumulate_count [of item pool held rs] assms by auto
  have nonnull: "\<not> isNull v" if "v \<in> set (values_of pool item qs)" for v qs using that by (auto simp: values_of_def)
  have agg: "aggregate item \<noteq> AGG_NONE" "aggregate item \<noteq> AGG_SUM" "aggregate item \<noteq> AGG_AVG" using assms(1) by auto
  show ?case
  proof (cases "\<exists>v. item_value pool r item = Some v \<and> \<not> isNull v")
    case False
    then have "values_of pool item (rs @ [r]) = ?vs" by (auto simp: values_of_def split: option.splits)
    moreover have "?f ?acc r = ?acc" using False agg assms(2) by (auto simp: accumulate_def split: option.splits)
    ultimately show ?thesis using snoc by (simp only: foldl_append foldl.simps) simp
  next
    case True
    then obtain v where v: "item_value pool r item = Some v" "\<not> isNull v" by blast
    then have vs: "values_of pool item (rs @ [r]) = ?vs @ [v]" by (simp add: values_of_def)
    have vin: "v \<in> column_values ty" "set ?vs \<subseteq> column_values ty" using snoc.prems(1) vs by simp_all
    have vv: "orderCompare v v = 0" by (rule order.refl [OF vin(1)])
    have ext: "extreme (?f ?acc r) =
        (if ?vs = [] \<or> (aggregate item = AGG_MIN \<and> compareValues v (extreme ?acc) < 0)
            \<or> (aggregate item = AGG_MAX \<and> compareValues v (extreme ?acc) > 0) then v else extreme ?acc)"
      using accumulate_minmax [OF assms v(2)] v(1) seen by simp
    show ?thesis
    proof (cases "?vs = []")
      case True
      then show ?thesis using ext vs vv by simp
    next
      case False
      let ?e = "extreme ?acc"
      have e: "?e \<in> set ?vs" "\<And>w. w \<in> set ?vs \<Longrightarrow> if aggregate item = AGG_MIN then orderCompare ?e w \<le> 0 else orderCompare w ?e \<le> 0"
        using snoc.IH vin(2) False by (auto simp: Let_def)
      have oc: "compareValues v ?e = orderCompare v ?e" using nonnull [OF e(1)] v(2) by (simp add: orderCompare_def)
      have ein: "?e \<in> column_values ty" using e(1) vin(2) by blast
      show ?thesis
      proof (cases "aggregate item = AGG_MIN")
        case True
        show ?thesis
        proof (cases "orderCompare v ?e < 0")
          case lt: True
          have "orderCompare v w \<le> 0" if "w \<in> set ?vs" for w
            using order.trans [OF vin(1) ein, of w] e(2) [OF that] vin(2) that lt True by auto
          then show ?thesis using ext vs True lt oc vv by simp
        next
          case False
          then have "orderCompare ?e v \<le> 0" using order.swap [OF ein vin(1)] order.swap [OF vin(1) ein] by linarith
          then show ?thesis using ext vs True False oc e \<open>?vs \<noteq> []\<close> by simp
        qed
      next
        case max: False
        then have mx: "aggregate item = AGG_MAX" using assms(1) by simp
        show ?thesis
        proof (cases "orderCompare v ?e > 0")
          case gt: True
          then have ev: "orderCompare ?e v \<le> 0" using order.swap [OF ein vin(1)] by linarith
          have "orderCompare w v \<le> 0" if "w \<in> set ?vs" for w
            using order.trans [OF _ ein vin(1) _ ev, of w] e(2) [OF that] vin(2) that max by auto
          then show ?thesis using ext vs mx gt oc vv by simp
        next
          case False
          then show ?thesis using ext vs mx False oc e \<open>?vs \<noteq> []\<close> by simp
        qed
      qed
    qed
  qed
qed

subsection \<open>Properties\<close>

lemma orderCompare_values: "\<not> isNull a \<Longrightarrow> \<not> isNull b \<Longrightarrow> orderCompare a b = compareValues a b"
  by (simp add: orderCompare_def)

lemma holds_aggregate_fold:
  assumes "aggregate item \<noteq> AGG_NONE"
  shows "holds_aggregate item (length rs) (values_of pool item rs)
    (foldl (\<lambda>acc r. accumulate item (item_value pool r item) acc) (fresh_accumulator held) rs)"
    (is "holds_aggregate item _ ?vs ?acc")
proof -
  have ext: "extreme ?acc \<in> set ?vs \<and>
      (\<forall>v \<in> set ?vs. if aggregate item = AGG_MIN then compareValues (extreme ?acc) v \<le> 0 else compareValues (extreme ?acc) v \<ge> 0)"
    if m: "\<not> istar item" "aggregate item \<in> {AGG_MIN, AGG_MAX}" "?vs \<noteq> []" "set ?vs \<subseteq> column_values ty" for ty
  proof -
    have e: "extreme ?acc \<in> set ?vs"
        "\<And>v. v \<in> set ?vs \<Longrightarrow> if aggregate item = AGG_MIN then orderCompare (extreme ?acc) v \<le> 0 else orderCompare v (extreme ?acc) \<le> 0"
      using accumulate_extreme [OF m(2,1,4,3), of held] by (simp_all add: Let_def)
    have nonnull: "\<not> isNull v" if "v \<in> set ?vs" for v using that by (simp add: values_of_def)
    have "if aggregate item = AGG_MIN then compareValues (extreme ?acc) v \<le> 0 else compareValues (extreme ?acc) v \<ge> 0"
      if v: "v \<in> set ?vs" for v
    proof -
      have "orderCompare (extreme ?acc) v = compareValues (extreme ?acc) v"
        by (rule orderCompare_values) (use nonnull e(1) v in auto)
      moreover have "extreme ?acc \<in> column_values ty" "v \<in> column_values ty" using m(4) e(1) v by auto
      ultimately show ?thesis using e(2) [OF v] order.swap [of "extreme ?acc" ty v] by (auto split: if_splits)
    qed
    then show ?thesis using e(1) by blast
  qed
  show ?thesis
    unfolding holds_aggregate_def
    using accumulate_count [OF assms, of pool held rs] accumulate_sum [of item pool rs held] ext by blast
qed

text \<open>
  C29: GROUP BY. On rows whose keys are equal to themselves and hash alike where they are equal, and
  whose items can be computed, the pass through the hashed group table ends with one group for each
  key in the order the keys first came, and in each group's accumulators the aggregates of exactly
  the rows with that key: counts of rows and of values that are not null, exact sums of ints, a
  least or greatest value.
\<close>
theorem groups_hold_aggregates:
  assumes "\<And>r. r \<in> set rs \<Longrightarrow> list_all groupable (key_of groupSlots r)" "\<And>r. r \<in> set rs \<Longrightarrow> items_evaluate s r"
    and "length rs \<le> 2 ^ 28" "gbuckets old = [] \<or> (\<exists>k \<le> 30. length (gbuckets old) = 2 ^ k)"
  shows "\<exists>g. group_rows (\<lambda>_. True) held s groupSlots rs (start_groups old) = Some (Inr g) \<and>
    gkeys g = keep_first keys_equal [] (map (key_of groupSlots) rs) \<and>
    list_all2 (\<lambda>key accs. list_all2 (\<lambda>item acc. aggregate item = AGG_NONE \<or>
        holds_aggregate item (length (rows_of groupSlots key rs)) (values_of (sexprs s) item (rows_of groupSlots key rs)) acc)
      (sitems s) accs) (gkeys g) (gaccs g)"
proof -
  have "buckets_ok (gbuckets (start_groups old)) (ghashes (start_groups old))"
    using assms(4) empty_table by (auto simp: start_groups_def buckets_ok_def)
  then have "grouped held s groupSlots [] (start_groups old)" by (simp add: grouped_def start_groups_def)
  from group_rows_groups [OF _ _ _ this, of rs] assms(1,2,3)
  obtain g where g: "group_rows (\<lambda>_. True) held s groupSlots rs (start_groups old) = Some (Inr g)" "grouped held s groupSlots rs g"
    by auto
  have "list_all2 (\<lambda>item acc. aggregate item = AGG_NONE \<or>
        holds_aggregate item (length grp) (values_of (sexprs s) item grp) acc) (sitems s) (group_accs held s grp)" for grp
    using holds_aggregate_fold by (simp add: group_accs_def list_all2_conv_all_nth) blast
  then show ?thesis using g by (intro exI [of _ g]) (simp add: grouped_def list_all2_conv_all_nth)
qed

text \<open>\<^verbatim>\<open>select count(*), min(b) from t group by a\<close> over three rows and two keys.\<close>

definition group_select :: selectstatement where
  "group_select = distinct_select\<lparr>sdistinct := False, selectAll := False,
     sitems := [\<lparr>aggregate = AGG_COUNT, iexpr = -1, istar = True, ilabel = ''count(*)'', aliased = False\<rparr>,
                \<lparr>aggregate = AGG_MIN, iexpr = 0, istar = False, ilabel = ''min(b)'', aliased = False\<rparr>],
     sexprs := [(blank_node EXPR_COLUMN)\<lparr>ecolumn := ''b'', eslot := 1\<rparr>], groupBy := [''a'']\<rparr>"

definition group_demo :: "row list" where
  "group_demo = map (\<lambda>(a, b). blank_row\<lparr>rvals := [blank_value\<lparr>intValue := a\<rparr>, blank_value\<lparr>intValue := b\<rparr>]\<rparr>) [(1, 7), (2, 4), (1, 3)]"

lemma group_demo_items: "r \<in> set group_demo \<Longrightarrow> items_evaluate group_select r"
  by (auto simp: group_demo_def items_evaluate_def group_select_def operand_def exprEvaluate.simps in_pool_def node_at_def
      blank_node_def MAX_COLS_def)

lemma group_demo_keys: "r \<in> set group_demo \<Longrightarrow> list_all groupable (key_of [0] r)"
  by (auto simp: group_demo_def key_of_def groupable_def plain_def valuesEqual_def valuesSame_def blank_value_def)

theorem groups_hold_aggregates_witness:
  "\<exists>g. group_rows (\<lambda>_. True) blank_value group_select [0] group_demo (start_groups freeGroups) = Some (Inr g) \<and>
    map (\<lambda>k. sint (intValue (k ! 0))) (gkeys g) = [1, 2]"
proof -
  have size: "length group_demo \<le> 2 ^ 28" "gbuckets freeGroups = []" by (simp_all add: group_demo_def freeGroups_def)
  obtain g where g: "group_rows (\<lambda>_. True) blank_value group_select [0] group_demo (start_groups freeGroups) = Some (Inr g)"
      "gkeys g = keep_first keys_equal [] (map (key_of [0]) group_demo)"
    using groups_hold_aggregates [OF group_demo_keys group_demo_items size(1) disjI1 [OF size(2)], of blank_value] by blast
  have "map (\<lambda>k. sint (intValue (k ! 0))) (keep_first keys_equal [] (map (key_of [0]) group_demo)) = [1, 2]"
    by (simp add: group_demo_def key_of_def keys_equal_def valuesEqual_def valuesSame_def intLike_def blank_value_def)
  then show ?thesis using g by auto
qed

end
