(* ===== verification/IndexNode.thy ===== *)
theory IndexNode
  imports PageStore Comparators
begin

text \<open>
  The nodes of a B+ tree, \<^verbatim>\<open>11_index.c\<close>: one page each, a header and an array of entries of one
  size, a page or a row position with a stored key. The keys of a tree are all ints, all doubles or
  all texts cut to their first bytes. The lemmas read a page as the list of its entries and state
  each operation on a page on that list.
\<close>

subsection \<open>Layout\<close>

definition INDEX_KEY_MAX :: nat where "INDEX_KEY_MAX = 40"
definition INDEX_ENTRY_INT :: nat where "INDEX_ENTRY_INT = 8"
definition INDEX_ENTRY_FLOAT :: nat where "INDEX_ENTRY_FLOAT = 12"
definition INDEX_ENTRY_TEXT :: nat where "INDEX_ENTRY_TEXT = 12 + INDEX_KEY_MAX"
definition INDEX_HEADER :: nat where "INDEX_HEADER = 16"
definition INVALID_PAGE :: u32 where "INVALID_PAGE = 0xFFFFFFFF"
definition NODE_LEAF :: u32 where "NODE_LEAF = 1"
definition NODE_TEXT :: u32 where "NODE_TEXT = 2"
definition NODE_FLOAT :: u32 where "NODE_FLOAT = 4"
definition NODE_KEY :: u32 where "NODE_KEY = NODE_TEXT OR NODE_FLOAT"

definition nodeIsLeaf :: "page \<Rightarrow> bool" where "nodeIsLeaf m \<longleftrightarrow> getU32 0 m AND NODE_LEAF \<noteq> 0"
definition nodeIsText :: "page \<Rightarrow> bool" where "nodeIsText m \<longleftrightarrow> getU32 0 m AND NODE_TEXT \<noteq> 0"
definition nodeIsFloat :: "page \<Rightarrow> bool" where "nodeIsFloat m \<longleftrightarrow> getU32 0 m AND NODE_FLOAT \<noteq> 0"
definition nodeKeyBits :: "page \<Rightarrow> u32" where "nodeKeyBits m = getU32 0 m AND NODE_KEY"

definition keyBitsFor :: "coltype \<Rightarrow> u32" where
  "keyBitsFor t = (if t = TYPE_TEXT then NODE_TEXT else if t = TYPE_FLOAT then NODE_FLOAT else 0)"

definition nodeEntry :: "page \<Rightarrow> nat" where
  "nodeEntry m = (if nodeIsText m then INDEX_ENTRY_TEXT else if nodeIsFloat m then INDEX_ENTRY_FLOAT
     else INDEX_ENTRY_INT)"

definition nodeOrder :: "page \<Rightarrow> nat" where
  "nodeOrder m = (PAGE_USABLE - INDEX_HEADER) div nodeEntry m"

definition nodeKeys :: "page \<Rightarrow> int" where "nodeKeys m = sint (getU32 4 m)"
definition nodeNextLeaf :: "page \<Rightarrow> u32" where "nodeNextLeaf m = getU32 8 m"
definition nodeLastChild :: "page \<Rightarrow> u32" where "nodeLastChild m = getU32 12 m"
definition setNodeKeys :: "int \<Rightarrow> page \<Rightarrow> page" where "setNodeKeys n m = putU32 4 (of_int n) m"
definition setNodeNextLeaf :: "u32 \<Rightarrow> page \<Rightarrow> page" where "setNodeNextLeaf w m = putU32 8 w m"
definition setNodeLastChild :: "u32 \<Rightarrow> page \<Rightarrow> page" where "setNodeLastChild w m = putU32 12 w m"

definition entryAt :: "page \<Rightarrow> nat \<Rightarrow> nat" where "entryAt m i = INDEX_HEADER + i * nodeEntry m"
definition entryPayload :: "page \<Rightarrow> nat \<Rightarrow> u32" where "entryPayload m i = getU32 (entryAt m i) m"

subsection \<open>Stored keys\<close>

text \<open>The double's bits, so that unsigned comparison orders them as the doubles are.\<close>

definition floatOrder :: "double \<Rightarrow> u64" where
  "floatOrder x = (if x AND 0x8000000000000000 \<noteq> 0 then NOT x else x OR 0x8000000000000000)"

text \<open>
  A \<open>StoredKey\<close>. The buffer is \<open>INDEX_KEY_MAX\<close> bytes; what a key leaves of it unwritten counts as
  zero, no comparison and no entry reads it.
\<close>

record storedkey =
  ktype :: byte
  storedLength :: nat
  fullLength :: u32
  kbytes :: "byte list"

definition padded :: "byte list \<Rightarrow> byte list" where
  "padded bs = bs @ replicate (INDEX_KEY_MAX - length bs) 0"

definition int_key :: "i32 \<Rightarrow> storedkey" where
  "int_key n = \<lparr>ktype = type_byte TYPE_INT, storedLength = 4, fullLength = 4,
     kbytes = padded (bytes_of 4 (n XOR 0x80000000))\<rparr>"

definition float_key :: "double \<Rightarrow> storedkey" where
  "float_key x = \<lparr>ktype = type_byte TYPE_FLOAT, storedLength = 8, fullLength = 8,
     kbytes = padded (bytes_of 8 (floatOrder x))\<rparr>"

definition text_key :: "byte \<Rightarrow> string \<Rightarrow> storedkey" where
  "text_key t s = \<lparr>ktype = t, storedLength = min (length s) INDEX_KEY_MAX, fullLength = of_nat (length s),
     kbytes = padded (map byte_of_char (take INDEX_KEY_MAX s))\<rparr>"

definition makeKey :: "Value \<Rightarrow> storedkey" where
  "makeKey v =
     (if vtype v = TYPE_FLOAT then float_key (floatValue v)
      else if vtype v = TYPE_DATE \<or> vtype v = TYPE_INT then int_key (intValue v)
      else text_key (type_byte (vtype v)) (vtext v))"

definition readKey :: "page \<Rightarrow> nat \<Rightarrow> storedkey" where
  "readKey m i =
     (let at = entryAt m i
      in if nodeIsFloat m
         then \<lparr>ktype = type_byte TYPE_FLOAT, storedLength = 8, fullLength = 8, kbytes = padded (get_bytes (at + 4) 8 m)\<rparr>
         else if \<not> nodeIsText m
         then \<lparr>ktype = type_byte TYPE_INT, storedLength = 4, fullLength = 4, kbytes = padded (get_bytes (at + 4) 4 m)\<rparr>
         else \<lparr>ktype = m (at + 8), storedLength = unat (m (at + 9)), fullLength = getU32 (at + 4) m,
                kbytes = get_bytes (at + 12) INDEX_KEY_MAX m\<rparr>)"

definition writeEntry :: "nat \<Rightarrow> storedkey \<Rightarrow> u32 \<Rightarrow> page \<Rightarrow> page" where
  "writeEntry i k payload m =
     (let at = entryAt m i; m' = putU32 at payload m
      in if nodeIsFloat m then put_bytes (at + 4) (take 8 (kbytes k)) m'
         else if \<not> nodeIsText m then put_bytes (at + 4) (take 4 (kbytes k)) m'
         else put_bytes (at + 12) (kbytes k)
                (put_bytes (at + 8) [ktype k, of_nat (storedLength k), 0, 0]
                  (putU32 (at + 4) (fullLength k) m')))"

definition moveEntry :: "nat \<Rightarrow> page \<Rightarrow> nat \<Rightarrow> page \<Rightarrow> page" where
  "moveEntry i source j m =
     put_bytes (entryAt m i) (get_bytes (INDEX_HEADER + j * nodeEntry m) (nodeEntry m) source) m"

definition key_number :: "storedkey \<Rightarrow> u32" where "key_number k = getU32 0 (\<lambda>i. kbytes k ! i)"
definition key_real :: "storedkey \<Rightarrow> u64" where "key_real k = getU64 0 (\<lambda>i. kbytes k ! i)"

definition compareKeys :: "storedkey \<Rightarrow> storedkey \<Rightarrow> int" where
  "compareKeys a b =
     (if ktype a = type_byte TYPE_FLOAT
      then (if key_real a < key_real b then -1 else if key_real a > key_real b then 1 else 0)
      else if ktype a = type_byte TYPE_INT
      then (if key_number a < key_number b then -1 else if key_number a > key_number b then 1 else 0)
      else
        let shared = min (storedLength a) (storedLength b);
            order = memcmp (map char_of_byte (take shared (kbytes a))) (map char_of_byte (take shared (kbytes b)))
        in if order \<noteq> 0 then (if order < 0 then -1 else 1)
           else if storedLength a \<noteq> storedLength b then (if storedLength a < storedLength b then -1 else 1)
           else if storedLength a = INDEX_KEY_MAX \<and> fullLength a \<noteq> fullLength b then 0
           else if fullLength a < fullLength b then -1 else if fullLength a > fullLength b then 1 else 0)"

subsection \<open>Searching a node\<close>

definition lowerBound :: "page \<Rightarrow> storedkey \<Rightarrow> nat" where
  "lowerBound m k = bsearch (\<lambda>i. compareKeys (readKey m i) k < 0) 0 (nat (nodeKeys m))"

text \<open>The loops that open a gap for an entry and that copy the upper entries to a new node.\<close>

function open_gap :: "nat \<Rightarrow> nat \<Rightarrow> page \<Rightarrow> page" where
  "open_gap i at m = (if at < i then open_gap (i - 1) at (moveEntry i m (i - 1) m) else m)"
  by pat_completeness auto
termination by (relation "measure (\<lambda>(i, at, m). i)") auto

declare open_gap.simps [simp del]

primrec copy_entries :: "nat \<Rightarrow> page \<Rightarrow> nat \<Rightarrow> page \<Rightarrow> page" where
  "copy_entries 0 source first m = m"
| "copy_entries (Suc n) source first m = moveEntry n source (first + n) (copy_entries n source first m)"

definition init_node :: "bool \<Rightarrow> u32 \<Rightarrow> page \<Rightarrow> page" where
  "init_node leaf bits m =
     setNodeLastChild INVALID_PAGE (setNodeNextLeaf INVALID_PAGE (setNodeKeys 0
       (putU32 0 ((if leaf then NODE_LEAF else 0) OR bits) (\<lambda>i. if i < PAGE_SIZE then 0 else m i))))"


text \<open>
  The page of \<open>insertIntoLeaf\<close> with the new entry, and that of \<open>insertInto\<close> with a child that split:
  the entry takes the separator and keeps the child, the new node takes the place just past it.
\<close>

definition insert_entry :: "nat \<Rightarrow> storedkey \<Rightarrow> u32 \<Rightarrow> page \<Rightarrow> page" where
  "insert_entry at k payload m =
     setNodeKeys (nodeKeys m + 1) (writeEntry at k payload (open_gap (nat (nodeKeys m)) at m))"

definition hang_child :: "nat \<Rightarrow> storedkey \<Rightarrow> u32 \<Rightarrow> u32 \<Rightarrow> page \<Rightarrow> page" where
  "hang_child at k child right m =
     (let keys = nodeKeys m; m = writeEntry at k child (open_gap (nat keys) at m);
          m = (if int at + 1 \<le> keys then putU32 (entryAt m (at + 1)) right m else setNodeLastChild right m)
      in setNodeKeys (keys + 1) m)"

subsection \<open>The orders of the stored keys\<close>

lemma index_consts [simp]: "INDEX_KEY_MAX = 40" "INDEX_ENTRY_INT = 8" "INDEX_ENTRY_FLOAT = 12"
  "INDEX_ENTRY_TEXT = 52" "INDEX_HEADER = 16"
  by (simp_all add: INDEX_KEY_MAX_def INDEX_ENTRY_INT_def INDEX_ENTRY_FLOAT_def INDEX_ENTRY_TEXT_def INDEX_HEADER_def)

lemma length_padded: "length bs \<le> 40 \<Longrightarrow> length (padded bs) = 40"
  by (simp add: padded_def)

lemma take_padded: "length bs = n \<Longrightarrow> take n (padded bs) = bs"
  by (simp add: padded_def)

lemma nth_padded: "i < length bs \<Longrightarrow> padded bs ! i = bs ! i"
  by (simp add: padded_def nth_append)

lemma bytes_of_length [simp]: "length (bytes_of n w) = n"
  by (simp add: bytes_of_def)

lemma nth_bytes_of [simp]: "i < n \<Longrightarrow> bytes_of n w ! i = byte_at w i"
  by (simp add: bytes_of_def)

lemma getU32_bytes: "getU32 0 (\<lambda>i. padded (bytes_of 4 w) ! i) = w"
  using getU32_holds [of "\<lambda>i. padded (bytes_of 4 w) ! i" 0 w] by (simp add: holds_def nth_padded)

lemma getU64_bytes: "getU64 0 (\<lambda>i. padded (bytes_of 8 w) ! i) = (w :: u64)"
  using getU64_holds [of "\<lambda>i. padded (bytes_of 8 w) ! i" 0 w] by (simp add: holds_def nth_padded)

text \<open>The keys of a tree by the key bits of its nodes, and the order of keys as one of numbers or texts.\<close>

definition keys_of_bits :: "u32 \<Rightarrow> storedkey set" where
  "keys_of_bits bits =
     (if bits = NODE_FLOAT then range float_key
      else if bits = NODE_TEXT then {text_key 1 s | s. length s < 2 ^ 31}
      else range int_key)"

lemma key_number_int: "key_number (int_key n) = n XOR 0x80000000"
  unfolding key_number_def int_key_def storedkey.simps by (rule getU32_bytes)

lemma key_real_float: "key_real (float_key x) = floatOrder x"
  unfolding key_real_def float_key_def storedkey.simps by (rule getU64_bytes)

lemma top_bit_add: "w XOR 2 ^ (LENGTH('a) - 1) = (w :: 'a::len word) + 2 ^ (LENGTH('a) - 1)"
proof -
  let ?t = "2 ^ (LENGTH('a) - 1) :: 'a word"
  have unset: "v XOR ?t = v + ?t" if "\<not> bit v (LENGTH('a) - 1)" for v :: "'a word"
  proof -
    have "v AND ?t = 0" by (rule bit_word_eqI) (use that in \<open>auto simp: bit_simps\<close>)
    then show ?thesis
      by (simp add: disjunctive_xor_eq_or disjunctive_add_eq_or)
  qed
  show ?thesis
  proof (cases "bit w (LENGTH('a) - 1)")
    case True
    define v where "v = w XOR ?t"
    have "\<not> bit v (LENGTH('a) - 1)" using True by (simp add: v_def bit_simps)
    from unset [OF this] have w: "w = v + ?t" by (simp add: v_def ac_simps)
    have "?t + ?t = 0" by (simp flip: mult_2 power_Suc)
    then have "w + ?t = v" unfolding w add.assoc by simp
    then show ?thesis by (simp add: v_def)
  qed (rule unset)
qed

lemma biased: "uint (w XOR 0x80000000) = sint (w :: u32) + 2 ^ 31"
proof -
  have "w XOR 0x80000000 = w + 0x80000000" using top_bit_add [of w] by simp
  then have "uint (w XOR 0x80000000) = take_bit 32 (uint w + 2 ^ 31)" by (simp add: uint_word_ariths take_bit_eq_mod)
  also have "\<dots> = sint w + 2 ^ 31" by (simp add: sint_uint signed_take_bit_eq_take_bit_shift)
  finally show ?thesis .
qed

lemma float_order_uint: "uint (floatOrder x) = (if fl_sign x then 2 ^ 63 - 1 - fl_magnitude x else 2 ^ 63 + fl_magnitude x)"
proof -
  have top: "x AND 0x8000000000000000 \<noteq> 0 \<longleftrightarrow> bit x 63"
  proof -
    have "x AND 0x8000000000000000 = x AND 2 ^ 63" by simp
    then show ?thesis by (metis and_exp_eq_0_iff_not_bit)
  qed
  have range: "0 \<le> uint x" "uint x < 2 ^ 64" using uint_lt2p [of x] by auto
  have "bit x 63 \<longleftrightarrow> bit (uint x) 63" by (simp add: bit_uint_iff)
  also have "\<dots> \<longleftrightarrow> odd (uint x div 2 ^ 63)" by (simp add: bit_iff_odd)
  also have "\<dots> \<longleftrightarrow> fl_sign x"
  proof (cases "2 ^ 63 \<le> uint x")
    case True
    then have "uint x div 2 ^ 63 = 1" using range by (intro int_div_pos_eq [of _ _ _ "uint x - 2 ^ 63"]) auto
    then show ?thesis using True by (simp add: fl_sign_def)
  qed (use range in \<open>simp add: fl_sign_def\<close>)
  finally have sign: "fl_sign x \<longleftrightarrow> bit x 63" ..
  show ?thesis
  proof (cases "fl_sign x")
    case True
    then have "uint x = 2 ^ 63 + fl_magnitude x" using uint_double_split [of x] by simp
    moreover have "uint (NOT x) = 2 ^ 64 - 1 - uint x"
      using range by (simp add: unsigned_not_eq take_bit_not_eq_mask_diff mask_eq_exp_minus_1 take_bit_int_eq_self)
    ultimately show ?thesis using True sign top by (simp add: floatOrder_def)
  next
    case False
    then have m: "uint x = fl_magnitude x" using uint_double_split [of x] by simp
    have "x AND 0x8000000000000000 = 0" using False sign top by blast
    then have "x OR 0x8000000000000000 = x + 0x8000000000000000" by (simp add: disjunctive_add_eq_or)
    then have "uint (floatOrder x) = (uint x + 2 ^ 63) mod 2 ^ 64"
      using False sign top by (simp add: floatOrder_def uint_word_ariths)
    then show ?thesis using False range m by (simp add: fl_sign_def)
  qed
qed


lemma floatOrder_less: "floatOrder x < floatOrder y \<longleftrightarrow> fl_key x < fl_key y \<or> (fl_key x = fl_key y \<and> fl_sign x \<and> \<not> fl_sign y)"
  using fl_magnitude_bounds [of x] fl_magnitude_bounds [of y]
  by (auto simp: word_less_def float_order_uint fl_key_def)

lemma compareKeys_int [simp]: "compareKeys (int_key a) (int_key b) = sgn (sint a - sint b)"
proof -
  have less: "key_number (int_key c) < key_number (int_key d) \<longleftrightarrow> sint c < sint d" for c d
    by (simp add: key_number_int word_less_def biased)
  have "ktype (int_key a) = 0" by (simp add: int_key_def)
  then show ?thesis by (simp add: compareKeys_def less sgn_if)
qed

lemma compareKeys_float [simp]:
  "compareKeys (float_key x) (float_key y) =
     (if floatOrder x < floatOrder y then -1 else if floatOrder y < floatOrder x then 1 else 0)"
  by (simp add: compareKeys_def key_real_float) (simp add: float_key_def)

lemma text_key_bytes: "map char_of_byte (take (storedLength (text_key t s)) (kbytes (text_key t s))) = take 40 s"
proof -
  have "take (min (length s) 40) (padded (map byte_of_char (take 40 s))) = map byte_of_char (take 40 s)"
    by (rule take_padded) simp
  then show ?thesis by (simp add: text_key_def comp_def)
qed

lemma compareKeys_text [simp]:
  assumes "t \<notin> {0, 2}"
  shows "compareKeys (text_key t s) (text_key t' s') = compareText (take 40 s) (take 40 s')"
proof -
  let ?a = "text_key t s" and ?b = "text_key t' s'"
  have len: "storedLength ?a = length (take 40 s)" "storedLength ?b = length (take 40 s')"
    by (simp_all add: text_key_def)
  have full: "fullLength ?a = of_nat (length s)" "fullLength ?b = of_nat (length s')" "ktype ?a = t"
    by (simp_all add: text_key_def)
  define n where "n = min (length (take 40 s)) (length (take 40 s'))"
  have n: "n \<le> length (take 40 s)" "n \<le> length (take 40 s')" unfolding n_def by (rule min.cobounded1, rule min.cobounded2)
  have front: "map char_of_byte (take n (kbytes (text_key u r))) = take n (take 40 r)" if "n \<le> length (take 40 r)" for u r
  proof -
    have "take n (map char_of_byte (take (length (take 40 r)) (kbytes (text_key u r)))) = take n (take 40 r)"
      using text_key_bytes [of u r] by (simp add: text_key_def)
    then show ?thesis using that by (simp add: take_map)
  qed
  have order: "memcmp (map char_of_byte (take n (kbytes ?a))) (map char_of_byte (take n (kbytes ?b))) =
      memcmp (take 40 s) (take 40 s')"
    unfolding front [of s t, OF n(1)] front [of s' t', OF n(2)] unfolding n_def by (rule memcmp_take)
  have kind: "ktype ?a \<noteq> type_byte TYPE_FLOAT" "ktype ?a \<noteq> type_byte TYPE_INT" using assms full(3) by auto
  have shared: "min (storedLength ?a) (storedLength ?b) = n" by (simp only: n_def len)
  have unfolded: "compareKeys ?a ?b =
     (if memcmp (take 40 s) (take 40 s') \<noteq> 0 then (if memcmp (take 40 s) (take 40 s') < 0 then -1 else 1)
      else if storedLength ?a \<noteq> storedLength ?b then (if storedLength ?a < storedLength ?b then -1 else 1)
      else if storedLength ?a = 40 \<and> fullLength ?a \<noteq> fullLength ?b then 0
      else if fullLength ?a < fullLength ?b then -1 else if fullLength ?a > fullLength ?b then 1 else 0)"
    by (simp only: compareKeys_def Let_def kind if_False shared order index_consts)
  define sa sb fa fb u w where "sa = storedLength ?a" and "sb = storedLength ?b" and "fa = fullLength ?a"
    and "fb = fullLength ?b" and "u = take 40 s" and "w = take 40 s'"
  note names = sa_def [symmetric] sb_def [symmetric] fa_def [symmetric] fb_def [symmetric] u_def [symmetric] w_def [symmetric]
  have sizes: "sa = length u" "sb = length w" using len by (simp_all only: names)
  have same: "fa = fb" if "u = w" "sa \<noteq> 40"
  proof -
    have "length s < 40" "length s' < 40" using that sizes by (auto simp: u_def w_def min_def split: if_splits)
    then show ?thesis using that(1) by (simp add: fa_def fb_def text_key_def u_def w_def)
  qed
  consider "memcmp u w \<noteq> 0" | "memcmp u w = 0" "length u \<noteq> length w" | "memcmp u w = 0" "length u = length w" by blast
  then have "compareKeys ?a ?b = compareText u w"
  proof cases
    case 1
    then show ?thesis using memcmp_range [of u w] unfolding unfolded names compareText_memcmp [of u w] by auto
  next
    case 2
    then show ?thesis unfolding unfolded names compareText_memcmp [of u w] by (simp add: sizes)
  next
    case 3
    then have "u = w" using memcmp_zero by blast
    then show ?thesis using 3 same sizes unfolding unfolded names compareText_memcmp [of u w] by auto
  qed
  then show ?thesis by (simp only: u_def w_def)
qed

interpretation stored: comparator "keys_of_bits bits" compareKeys for bits
proof -
  have laws: "a \<in> keys_of_bits bits \<Longrightarrow> b \<in> keys_of_bits bits \<Longrightarrow> c \<in> keys_of_bits bits \<Longrightarrow>
      compareKeys a a = 0 \<and> (compareKeys a b < 0 \<longleftrightarrow> compareKeys b a > 0) \<and>
      (compareKeys a b \<le> 0 \<longrightarrow> compareKeys b c \<le> 0 \<longrightarrow> compareKeys a c \<le> 0)" for a b c
  proof -
    assume k: "a \<in> keys_of_bits bits" "b \<in> keys_of_bits bits" "c \<in> keys_of_bits bits"
    consider (real) "bits = NODE_FLOAT" | (word) "bits = NODE_TEXT" "bits \<noteq> NODE_FLOAT"
      | (int) "bits \<noteq> NODE_FLOAT" "bits \<noteq> NODE_TEXT" by blast
    then show ?thesis
    proof cases
      case real
      then obtain x y z where "a = float_key x" "b = float_key y" "c = float_key z" using k by (auto simp: keys_of_bits_def)
      then show ?thesis by auto
    next
      case word
      then obtain x y z where "a = text_key 1 x" "b = text_key 1 y" "c = text_key 1 z" using k by (auto simp: keys_of_bits_def)
      then show ?thesis using text_order.refl text_order.swap text_order.trans [of "take 40 x" "take 40 y" "take 40 z"] by simp
    next
      case int
      then obtain x y z where "a = int_key x" "b = int_key y" "c = int_key z" using k by (auto simp: keys_of_bits_def)
      then show ?thesis by (auto simp: sgn_if split: if_splits)
    qed
  qed
  show "comparator (keys_of_bits bits) compareKeys"
    by unfold_locales (use laws in blast)+
qed

subsection \<open>Reading a node as its entries\<close>

text \<open>
  The header says what the node is and how many entries it has; the entries follow. \<open>node_rep\<close> fixes
  the kind of node, the key type and the list of entries; the two links are read off the page.
\<close>

definition entry_size :: "u32 \<Rightarrow> nat" where
  "entry_size bits = (if bits = NODE_TEXT then 52 else if bits = NODE_FLOAT then 12 else 8)"

definition node_room :: "u32 \<Rightarrow> nat" where "node_room bits = 8168 div entry_size bits"

definition node_rep :: "page \<Rightarrow> bool \<Rightarrow> u32 \<Rightarrow> (storedkey \<times> u32) list \<Rightarrow> bool" where
  "node_rep m leaf bits es \<longleftrightarrow> bits \<in> {0, NODE_TEXT, NODE_FLOAT} \<and>
     getU32 0 m = (if leaf then NODE_LEAF else 0) OR bits \<and>
     nodeKeys m = int (length es) \<and> length es \<le> node_room bits \<and>
     (\<forall>i < length es. readKey m i = fst (es ! i) \<and> entryPayload m i = snd (es ! i)) \<and>
     fst ` set es \<subseteq> keys_of_bits bits"

lemma node_flags [simp]:
  assumes "getU32 0 m = (if leaf then NODE_LEAF else 0) OR bits" "bits \<in> {0, NODE_TEXT, NODE_FLOAT}"
  shows "nodeIsLeaf m = leaf" "nodeIsText m \<longleftrightarrow> bits = NODE_TEXT" "nodeIsFloat m \<longleftrightarrow> bits = NODE_FLOAT"
    "nodeKeyBits m = bits" "nodeEntry m = entry_size bits" "nodeOrder m = node_room bits"
  using assms
  by (auto simp: nodeIsLeaf_def nodeIsText_def nodeIsFloat_def nodeKeyBits_def nodeEntry_def nodeOrder_def node_room_def
      entry_size_def NODE_LEAF_def NODE_TEXT_def NODE_FLOAT_def NODE_KEY_def split: if_splits)


lemma entry_size_cases: "bits \<in> {0, NODE_TEXT, NODE_FLOAT} \<Longrightarrow> entry_size bits \<in> {8, 12, 52}"
  by (auto simp: entry_size_def)

lemma entry_fits: "bits \<in> {0, NODE_TEXT, NODE_FLOAT} \<Longrightarrow> i < node_room bits \<Longrightarrow> 16 + i * entry_size bits + entry_size bits \<le> PAGE_USABLE"
  by (auto simp: node_room_def entry_size_def NODE_TEXT_def NODE_FLOAT_def)

definition same_entry :: "nat \<Rightarrow> page \<Rightarrow> nat \<Rightarrow> page \<Rightarrow> nat \<Rightarrow> bool" where
  "same_entry sz m i m' j \<longleftrightarrow> (\<forall>k < sz. m (16 + i * sz + k) = m' (16 + j * sz + k))"

definition same_header :: "page \<Rightarrow> page \<Rightarrow> bool" where
  "same_header m m' \<longleftrightarrow> (\<forall>k < 16. m k = m' k)"

lemma same_entry_refl [simp]: "same_entry sz m i m i" by (simp add: same_entry_def)
lemma same_entry_trans: "same_entry sz m i m' j \<Longrightarrow> same_entry sz m' j m'' k \<Longrightarrow> same_entry sz m i m'' k"
  by (simp add: same_entry_def)
lemma same_header_refl [simp]: "same_header m m" by (simp add: same_header_def)
lemma same_header_trans: "same_header m m' \<Longrightarrow> same_header m' m'' \<Longrightarrow> same_header m m''" by (simp add: same_header_def)

lemma same_header_getU32: "same_header m m' \<Longrightarrow> at + 4 \<le> 16 \<Longrightarrow> getU32 at m = getU32 at m'"
  by (rule getU32_cong) (simp add: same_header_def)

lemma same_entry_reads:
  assumes "getU32 0 m = getU32 0 m'" "same_entry (nodeEntry m) m i m' j"
  shows "readKey m i = readKey m' j \<and> entryPayload m i = entryPayload m' j"
proof -
  have kind: "nodeIsText m = nodeIsText m'" "nodeIsFloat m = nodeIsFloat m'" "nodeEntry m = nodeEntry m'"
    using assms(1) by (simp_all add: nodeIsText_def nodeIsFloat_def nodeEntry_def)
  let ?n = "nodeEntry m" and ?p = "16 + i * nodeEntry m" and ?q = "16 + j * nodeEntry m"
  have byte: "m (?p + k) = m' (?q + k)" if "k < ?n" for k using assms(2) that by (simp add: same_entry_def)
  have word: "getU32 (?p + a) m = getU32 (?q + a) m'" if "a + 4 \<le> ?n" for a
    using byte [of a] byte [of "a + 1"] byte [of "a + 2"] byte [of "a + 3"] that by (simp add: getU32_def add.assoc)
  have bytes: "get_bytes (?p + a) n m = get_bytes (?q + a) n m'" if "a + n \<le> ?n" for a n
    unfolding get_bytes_def by (rule map_cong) (use byte that in \<open>auto simp: add.assoc\<close>)
  have "4 \<le> ?n" by (simp add: nodeEntry_def)
  then have "entryPayload m i = entryPayload m' j"
    using word [of 0] kind by (simp add: entryPayload_def entryAt_def)
  moreover have "readKey m i = readKey m' j"
  proof (cases "nodeIsFloat m \<or> \<not> nodeIsText m")
    case True
    have "?n \<ge> 8" "nodeIsFloat m \<Longrightarrow> \<not> nodeIsText m \<Longrightarrow> ?n = 12" "nodeIsText m \<Longrightarrow> ?n = 52" by (simp_all add: nodeEntry_def)
    then show ?thesis using True bytes [of 4 8] bytes [of 4 4] kind by (cases "nodeIsText m") (auto simp: readKey_def entryAt_def Let_def)
  next
    case False
    then have "?n = 52" by (simp add: nodeEntry_def)
    then show ?thesis using False bytes [of 12 40] byte [of 8] byte [of 9] word [of 4] kind by (simp add: readKey_def entryAt_def Let_def)
  qed
  ultimately show ?thesis by simp
qed

lemma apart_entries: "i \<noteq> j \<Longrightarrow> k < (sz :: nat) \<Longrightarrow> 16 + i * sz + k < 16 + j * sz \<or> 16 + j * sz + sz \<le> 16 + i * sz + k"
proof (cases "i < j")
  case True
  then have "Suc i * sz \<le> j * sz" by (intro mult_right_mono) auto
  moreover assume "k < sz"
  ultimately show ?thesis by simp
next
  case False
  moreover assume "i \<noteq> j"
  ultimately have "Suc j * sz \<le> i * sz" by (intro mult_right_mono) auto
  then show ?thesis by simp
qed

lemma moveEntry_spec:
  assumes "nodeEntry m = sz"
  shows "same_header (moveEntry i src j m) m" "same_entry sz (moveEntry i src j m) i src j"
    "k \<noteq> i \<Longrightarrow> same_entry sz (moveEntry i src j m) k m k"
proof -
  have eq: "moveEntry i src j m = put_bytes (16 + i * sz) (get_bytes (16 + j * sz) sz src) m"
    using assms by (simp add: moveEntry_def entryAt_def)
  show "same_header (moveEntry i src j m) m" unfolding eq by (simp add: same_header_def put_bytes_out)
  show "same_entry sz (moveEntry i src j m) i src j" unfolding eq by (simp add: same_entry_def put_bytes_in)
  show "same_entry sz (moveEntry i src j m) k m k" if "k \<noteq> i"
    unfolding eq using apart_entries [OF that, of _ sz] by (simp add: same_entry_def put_bytes_out)
qed

lemma same_header_entry: "same_header m m' \<Longrightarrow> nodeEntry m = nodeEntry m'"
  using same_header_getU32 [of m m' 0] by (simp add: nodeEntry_def nodeIsText_def nodeIsFloat_def)

lemma open_gap_spec:
  assumes "nodeEntry m = sz"
  shows "same_header (open_gap i at m) m \<and>
     (\<forall>k. same_entry sz (open_gap i at m) k m (if at < k \<and> k \<le> i then k - 1 else k))"
  using assms
proof (induction i at m rule: open_gap.induct)
  case (1 i at m)
  show ?case
  proof (cases "at < i")
    case True
    define m1 where "m1 = moveEntry i m (i - 1) m"
    note mv = moveEntry_spec [OF "1.prems", where i = i and src = m and j = "i - 1", folded m1_def]
    have "nodeEntry m1 = sz" using same_header_entry [OF mv(1)] "1.prems" by simp
    then have ih: "same_header (open_gap (i - 1) at m1) m1"
      "same_entry sz (open_gap (i - 1) at m1) k m1 (if at < k \<and> k \<le> i - 1 then k - 1 else k)" for k
      using "1.IH" [OF True] by (auto simp: m1_def)
    have "same_entry sz (open_gap (i - 1) at m1) k m (if at < k \<and> k \<le> i then k - 1 else k)" for k
    proof (cases "k = i")
      case True
      have "same_entry sz (open_gap (i - 1) at m1) i m1 i" using ih(2) [of i] \<open>at < i\<close> by (simp split: if_splits)
      from same_entry_trans [OF this mv(2)] show ?thesis using \<open>k = i\<close> \<open>at < i\<close> by simp
    next
      case False
      define k' where "k' = (if at < k \<and> k \<le> i then k - 1 else k)"
      have "k' = (if at < k \<and> k \<le> i - 1 then k - 1 else k)" "k' \<noteq> i" using False by (auto simp: k'_def)
      then have "same_entry sz (open_gap (i - 1) at m1) k m1 k'" using ih(2) [of k] by simp
      from same_entry_trans [OF this mv(3) [OF \<open>k' \<noteq> i\<close>]] show ?thesis by (simp only: k'_def)
    qed
    moreover have "same_header (open_gap (i - 1) at m1) m" using ih(1) mv(1) by (rule same_header_trans)
    moreover have "open_gap i at m = open_gap (i - 1) at m1" using True by (subst open_gap.simps) (simp add: m1_def)
    ultimately show ?thesis by simp
  qed (auto simp: open_gap.simps)
qed

lemma copy_entries_spec:
  assumes "nodeEntry m = sz"
  shows "same_header (copy_entries n src first m) m \<and>
     (\<forall>k < n. same_entry sz (copy_entries n src first m) k src (first + k))"
  using assms
proof (induction n)
  case (Suc n)
  define m1 where "m1 = copy_entries n src first m"
  have m1: "same_header m1 m" "\<And>k. k < n \<Longrightarrow> same_entry sz m1 k src (first + k)" using Suc by (auto simp: m1_def)
  note mv = moveEntry_spec [where m = m1 and sz = sz and i = n and src = src and j = "first + n"]
  have sz: "nodeEntry m1 = sz" using same_header_entry [OF m1(1)] Suc.prems by simp
  have "same_entry sz (moveEntry n src (first + n) m1) k src (first + k)" if "k < Suc n" for k
  proof (cases "k = n")
    case False
    then show ?thesis using same_entry_trans [OF mv(3) [OF sz] m1(2)] that by simp
  qed (use mv(2) [OF sz] in simp)
  moreover have "same_header (moveEntry n src (first + n) m1) m" using mv(1) [OF sz] m1(1) by (rule same_header_trans)
  ultimately show ?case by (simp add: m1_def)
qed simp


subsection \<open>Operations on a node as operations on its entries\<close>

lemma node_room_small: "bits \<in> {0, NODE_TEXT, NODE_FLOAT} \<Longrightarrow> node_room bits \<le> 1021 \<and> 157 \<le> node_room bits"
  by (auto simp: node_room_def entry_size_def NODE_TEXT_def NODE_FLOAT_def)

lemma node_repD:
  assumes "node_rep m leaf bits es"
  shows "bits \<in> {0, NODE_TEXT, NODE_FLOAT}" "getU32 0 m = (if leaf then NODE_LEAF else 0) OR bits"
    "nodeKeys m = int (length es)" "length es \<le> node_room bits" "fst ` set es \<subseteq> keys_of_bits bits"
    "nodeIsLeaf m = leaf" "nodeKeyBits m = bits" "nodeEntry m = entry_size bits" "nodeOrder m = node_room bits"
    "i < length es \<Longrightarrow> readKey m i = fst (es ! i)" "i < length es \<Longrightarrow> entryPayload m i = snd (es ! i)"
  using assms node_flags [of m leaf bits] by (auto simp: node_rep_def)

lemma node_repI:
  assumes "node_rep m leaf bits es" "getU32 0 m' = getU32 0 m" "nodeKeys m' = int (length es')"
    "length es' \<le> node_room bits" "fst ` set es' \<subseteq> keys_of_bits bits"
    "\<And>i. i < length es' \<Longrightarrow> readKey m' i = fst (es' ! i) \<and> entryPayload m' i = snd (es' ! i)"
  shows "node_rep m' leaf bits es'"
  using assms by (auto simp: node_rep_def)

lemma nodeKeys_set [simp]: "n \<le> 1021 \<Longrightarrow> nodeKeys (setNodeKeys (int n) m) = int n"
  by (simp add: nodeKeys_def setNodeKeys_def mem sint_uint unsigned_of_nat take_bit_nat_eq_self signed_take_bit_int_eq_self)

lemma set_header_other:
  "same_entry sz (setNodeKeys n m) i m i" "same_entry sz (setNodeNextLeaf w m) i m i" "same_entry sz (setNodeLastChild w m) i m i"
  "getU32 0 (setNodeKeys n m) = getU32 0 m" "getU32 0 (setNodeNextLeaf w m) = getU32 0 m" "getU32 0 (setNodeLastChild w m) = getU32 0 m"
  "nodeKeys (setNodeNextLeaf w m) = nodeKeys m" "nodeKeys (setNodeLastChild w m) = nodeKeys m"
  "nodeNextLeaf (setNodeKeys n m) = nodeNextLeaf m" "nodeNextLeaf (setNodeLastChild w m) = nodeNextLeaf m"
  "nodeLastChild (setNodeKeys n m) = nodeLastChild m" "nodeLastChild (setNodeNextLeaf w m) = nodeLastChild m"
  "nodeNextLeaf (setNodeNextLeaf w m) = w" "nodeLastChild (setNodeLastChild w m) = w"
  by (simp_all add: same_entry_def setNodeKeys_def setNodeNextLeaf_def setNodeLastChild_def nodeKeys_def nodeNextLeaf_def
      nodeLastChild_def mem)

lemma same_header_fields:
  assumes "same_header m m'"
  shows "getU32 0 m = getU32 0 m'" "nodeKeys m = nodeKeys m'" "nodeNextLeaf m = nodeNextLeaf m'" "nodeLastChild m = nodeLastChild m'"
  using assms same_header_getU32 [of m m'] by (simp_all add: nodeKeys_def nodeNextLeaf_def nodeLastChild_def)

lemma node_rep_cong:
  assumes "node_rep m leaf bits es" "\<And>i. i < PAGE_USABLE \<Longrightarrow> m' i = m i"
  shows "node_rep m' leaf bits es \<and> nodeNextLeaf m' = nodeNextLeaf m \<and> nodeLastChild m' = nodeLastChild m"
proof -
  have h: "same_header m' m" using assms(2) by (simp add: same_header_def)
  note f = same_header_fields [OF h]
  have "readKey m' i = fst (es ! i) \<and> entryPayload m' i = snd (es ! i)" if "i < length es" for i
  proof -
    have "i < node_room bits" using that node_repD(4) [OF assms(1)] by simp
    then have fits: "16 + i * entry_size bits + entry_size bits \<le> 8184" using entry_fits [OF node_repD(1) [OF assms(1)]] by simp
    have "same_entry (entry_size bits) m' i m i" unfolding same_entry_def
    proof (intro allI impI)
      fix k assume "k < entry_size bits"
      then have "16 + i * entry_size bits + k < PAGE_USABLE" using fits by simp
      then show "m' (16 + i * entry_size bits + k) = m (16 + i * entry_size bits + k)" by (rule assms(2))
    qed
    moreover have "nodeEntry m' = entry_size bits" using same_header_entry [OF h] node_repD(8) [OF assms(1)] by simp
    ultimately show ?thesis using same_entry_reads [OF f(1), of i i] node_repD(10,11) [OF assms(1) that] by simp
  qed
  then show ?thesis
    using f node_repI [OF assms(1), of m' es] node_repD(3-5) [OF assms(1)] by simp
qed

lemma node_rep_usable: "node_rep m leaf bits es \<Longrightarrow> node_rep (usable m) leaf bits es"
  using node_rep_cong [of m leaf bits es "usable m"] by (simp add: usable_def)

lemma node_rep_unusable: "node_rep (usable m) leaf bits es \<Longrightarrow> node_rep m leaf bits es"
  using node_rep_cong [of "usable m" leaf bits es m] by (simp add: usable_def)

lemma links_usable [simp]: "nodeNextLeaf (usable m) = nodeNextLeaf m" "nodeLastChild (usable m) = nodeLastChild m"
  unfolding nodeNextLeaf_def nodeLastChild_def by (rule getU32_cong; simp add: usable_def)+

lemma init_node_rep:
  assumes "bits \<in> {0, NODE_TEXT, NODE_FLOAT}"
  shows "node_rep (init_node leaf bits m) leaf bits []" "nodeNextLeaf (init_node leaf bits m) = INVALID_PAGE"
    "nodeLastChild (init_node leaf bits m) = INVALID_PAGE"
proof -
  let ?m = "putU32 0 ((if leaf then NODE_LEAF else 0) OR bits) (\<lambda>i. if i < PAGE_SIZE then 0 else m i)"
  have "nodeKeys (setNodeKeys (int 0) ?m) = int 0" by (rule nodeKeys_set) simp
  then show "node_rep (init_node leaf bits m) leaf bits []"
    using assms by (simp add: node_rep_def init_node_def set_header_other mem)
qed (simp_all add: init_node_def set_header_other)


text \<open>What an entry written with a key of the tree's type reads back as.\<close>

lemma key_buffer:
  assumes "k \<in> keys_of_bits bits"
  shows "bits = NODE_FLOAT \<Longrightarrow> \<lparr>ktype = 2, storedLength = 8, fullLength = 8, kbytes = padded (take 8 (kbytes k))\<rparr> = k \<and> length (kbytes k) = 40"
    "bits \<noteq> NODE_FLOAT \<Longrightarrow> bits \<noteq> NODE_TEXT \<Longrightarrow>
       \<lparr>ktype = 0, storedLength = 4, fullLength = 4, kbytes = padded (take 4 (kbytes k))\<rparr> = k \<and> length (kbytes k) = 40"
    "bits = NODE_TEXT \<Longrightarrow> ktype k = 1 \<and> storedLength k \<le> 40 \<and> length (kbytes k) = 40"
proof -
  show "bits = NODE_FLOAT \<Longrightarrow> \<lparr>ktype = 2, storedLength = 8, fullLength = 8, kbytes = padded (take 8 (kbytes k))\<rparr> = k \<and> length (kbytes k) = 40"
    using assms by (auto simp: keys_of_bits_def float_key_def take_padded length_padded)
  show "bits \<noteq> NODE_FLOAT \<Longrightarrow> bits \<noteq> NODE_TEXT \<Longrightarrow>
       \<lparr>ktype = 0, storedLength = 4, fullLength = 4, kbytes = padded (take 4 (kbytes k))\<rparr> = k \<and> length (kbytes k) = 40"
    using assms by (auto simp: keys_of_bits_def int_key_def take_padded length_padded)
  have "NODE_TEXT \<noteq> NODE_FLOAT" by (simp add: NODE_TEXT_def NODE_FLOAT_def)
  then show "bits = NODE_TEXT \<Longrightarrow> ktype k = 1 \<and> storedLength k \<le> 40 \<and> length (kbytes k) = 40"
    using assms by (auto simp: keys_of_bits_def text_key_def length_padded)
qed

lemma get_bytes_put: "length bs = n \<Longrightarrow> get_bytes at n (put_bytes at bs m) = bs"
  using get_put_bytes [of at bs m] by simp

lemma writeEntry_spec:
  assumes kind: "getU32 0 m = (if leaf then NODE_LEAF else 0) OR bits" "bits \<in> {0, NODE_TEXT, NODE_FLOAT}"
    and k: "k \<in> keys_of_bits bits"
  shows "same_header (writeEntry i k w m) m" "readKey (writeEntry i k w m) i = k" "entryPayload (writeEntry i k w m) i = w"
    "j \<noteq> i \<Longrightarrow> same_entry (entry_size bits) (writeEntry i k w m) j m j"
proof -
  let ?m = "writeEntry i k w m"
  define at where "at = 16 + i * entry_size bits"
  note flags = node_flags [OF kind]
  have at: "entryAt m i = at" by (simp add: entryAt_def at_def flags)
  have TF: "NODE_TEXT \<noteq> NODE_FLOAT" "entry_size NODE_TEXT = 52" "entry_size NODE_FLOAT = 12"
    "bits \<noteq> NODE_TEXT \<Longrightarrow> bits \<noteq> NODE_FLOAT \<Longrightarrow> entry_size bits = 8"
    by (simp_all add: NODE_TEXT_def NODE_FLOAT_def entry_size_def)
  have len: "length (kbytes k) = 40" using key_buffer [OF k] by blast
  have out: "?m x = m x" if "x < at \<or> at + entry_size bits \<le> x" for x
    using that TF len by (auto simp: writeEntry_def Let_def at flags put_bytes_out putU32_out)
  have "16 \<le> at" by (simp add: at_def)
  then show header: "same_header ?m m" using out by (simp add: same_header_def)
  show "same_entry (entry_size bits) ?m j m j" if "j \<noteq> i" unfolding same_entry_def
    using out apart_entries [OF that, of _ "entry_size bits"] by (simp add: at_def)
  have kind': "getU32 0 ?m = (if leaf then NODE_LEAF else 0) OR bits" using same_header_fields(1) [OF header] kind(1) by simp
  note flags' = node_flags [OF kind' kind(2)]
  have at': "entryAt ?m i = at" by (simp add: entryAt_def at_def flags')
  have word: "getU32 at ?m = w"
    by (auto simp: writeEntry_def Let_def at flags mem)
  then show "entryPayload ?m i = w" by (simp add: entryPayload_def at')
  consider (real) "bits = NODE_FLOAT" | (words) "bits = NODE_TEXT" | (ints) "bits \<noteq> NODE_FLOAT" "bits \<noteq> NODE_TEXT" by blast
  then show "readKey ?m i = k"
  proof cases
    case real
    have "get_bytes (at + 4) 8 ?m = take 8 (kbytes k)"
      using real TF len by (simp add: writeEntry_def Let_def at flags get_bytes_put)
    then show ?thesis using key_buffer(1) [OF k real] real by (simp add: readKey_def Let_def at' flags')
  next
    case ints
    have "get_bytes (at + 4) 4 ?m = take 4 (kbytes k)"
      using ints len by (simp add: writeEntry_def Let_def at flags get_bytes_put)
    then show ?thesis using key_buffer(2) [OF k ints] ints by (simp add: readKey_def Let_def at' flags')
  next
    case words
    note b = key_buffer(3) [OF k words]
    have "get_bytes (at + 12) 40 ?m = kbytes k" "getU32 (at + 4) ?m = fullLength k" "?m (at + 8) = ktype k"
      "?m (at + 9) = of_nat (storedLength k)"
      using words TF len by (simp_all add: writeEntry_def Let_def at flags get_bytes_put mem put_bytes_in put_bytes_out)
    moreover have "unat (of_nat (storedLength k) :: byte) = storedLength k" using b by (simp add: unat_of_nat)
    ultimately show ?thesis using words TF by (simp add: readKey_def Let_def at' flags')
  qed
qed


lemma entry_inserted:
  assumes rep: "node_rep m leaf bits es" and at: "at \<le> length es" and k: "k \<in> keys_of_bits bits"
    and m': "m' = writeEntry at k w (open_gap (length es) at m)"
  shows "same_header m' m" "i \<le> length es \<Longrightarrow> readKey m' i = fst ((take at es @ (k, w) # drop at es) ! i) \<and>
      entryPayload m' i = snd ((take at es @ (k, w) # drop at es) ! i)"
proof -
  define g where "g = open_gap (length es) at m"
  note r = node_repD [OF rep]
  have g: "same_header g m" "same_entry (entry_size bits) g i m (if at < i \<and> i \<le> length es then i - 1 else i)" for i
    using open_gap_spec [OF r(8), of "length es" at] by (simp_all add: g_def)
  have kind: "getU32 0 g = (if leaf then NODE_LEAF else 0) OR bits" using same_header_fields(1) [OF g(1)] r(2) by simp
  note w = writeEntry_spec [OF kind r(1) k, where i = at and w = w, folded m' [folded g_def]]
  show header: "same_header m' m" using w(1) g(1) by (rule same_header_trans)
  assume i: "i \<le> length es"
  show "readKey m' i = fst ((take at es @ (k, w) # drop at es) ! i) \<and> entryPayload m' i = snd ((take at es @ (k, w) # drop at es) ! i)"
  proof (cases "i = at")
    case True
    then show ?thesis using w(2,3) at by (simp add: nth_append)
  next
    case False
    define j where "j = (if at < i then i - 1 else i)"
    have "same_entry (entry_size bits) m' i m j"
      using same_entry_trans [OF w(4) [OF False] g(2) [of i]] i by (simp add: j_def)
    moreover have "nodeEntry m' = entry_size bits" using same_header_entry [OF header] r(8) by simp
    ultimately have "readKey m' i = readKey m j \<and> entryPayload m' i = entryPayload m j"
      using same_entry_reads [OF same_header_fields(1) [OF header]] by simp
    moreover have "j < length es" using False i at by (auto simp: j_def)
    moreover have "(take at es @ (k, w) # drop at es) ! i = es ! j"
      using False i at by (auto simp: j_def nth_append nth_Cons' min_def)
    ultimately show ?thesis using r(10,11) by simp
  qed
qed

lemma keys_inserted:
  "fst ` set es \<subseteq> keys_of_bits bits \<Longrightarrow> k \<in> keys_of_bits bits \<Longrightarrow>
   fst ` set (take at es @ (k, w) # drop at es) \<subseteq> keys_of_bits bits"
  using set_take_subset [of at es] set_drop_subset [of at es] by auto

lemma insert_entry_rep:
  assumes rep: "node_rep m leaf bits es" and at: "at \<le> length es" and room: "length es < node_room bits"
    and k: "k \<in> keys_of_bits bits"
  shows "node_rep (insert_entry at k w m) leaf bits (take at es @ (k, w) # drop at es)"
    "nodeNextLeaf (insert_entry at k w m) = nodeNextLeaf m" "nodeLastChild (insert_entry at k w m) = nodeLastChild m"
proof -
  note r = node_repD [OF rep]
  define m' where "m' = writeEntry at k w (open_gap (length es) at m)"
  note e = entry_inserted [OF rep at k m'_def]
  have eq: "insert_entry at k w m = setNodeKeys (int (length es + 1)) m'"
    by (simp add: insert_entry_def r(3) m'_def ac_simps)
  have small: "length es + 1 \<le> 1021" using room node_room_small [OF r(1)] by simp
  note f = same_header_fields [OF e(1)]
  have read: "readKey (setNodeKeys n m') i = readKey m' i \<and> entryPayload (setNodeKeys n m') i = entryPayload m' i" for i n
    using same_entry_reads [OF set_header_other(4) set_header_other(1)] .
  show "node_rep (insert_entry at k w m) leaf bits (take at es @ (k, w) # drop at es)"
  proof (rule node_repI [OF rep])
    show "nodeKeys (insert_entry at k w m) = int (length (take at es @ (k, w) # drop at es))"
      unfolding eq nodeKeys_set [OF small] using at by simp
    show "fst ` set (take at es @ (k, w) # drop at es) \<subseteq> keys_of_bits bits" by (rule keys_inserted [OF r(5) k])
  qed (use eq f e(2) at room read in \<open>simp_all add: set_header_other\<close>)
  show "nodeNextLeaf (insert_entry at k w m) = nodeNextLeaf m" "nodeLastChild (insert_entry at k w m) = nodeLastChild m"
    unfolding eq using f by (simp_all add: set_header_other)
qed

text \<open>The entries once a child has split: the separator before the new node's pointer.\<close>

fun set_payload :: "u32 \<Rightarrow> (storedkey \<times> u32) list \<Rightarrow> (storedkey \<times> u32) list" where
  "set_payload w [] = []"
| "set_payload w ((k, _) # es) = (k, w) # es"

lemma set_payload_nth: "i < length es \<Longrightarrow> set_payload w es ! i = (if i = 0 then (fst (es ! 0), w) else es ! i)"
  by (cases es) auto
lemma length_set_payload [simp]: "length (set_payload w es) = length es" by (cases es) auto
lemma set_payload_keys [simp]: "map fst (set_payload w es) = map fst es" by (cases es) auto

lemma hang_child_rep:
  assumes rep: "node_rep m leaf bits es" and at: "at \<le> length es" and room: "length es < node_room bits"
    and k: "k \<in> keys_of_bits bits"
  shows "node_rep (hang_child at k child right m) leaf bits (take at es @ (k, child) # set_payload right (drop at es))"
    "nodeNextLeaf (hang_child at k child right m) = nodeNextLeaf m"
    "nodeLastChild (hang_child at k child right m) = (if at = length es then right else nodeLastChild m)"
proof -
  note r = node_repD [OF rep]
  define m1 where "m1 = writeEntry at k child (open_gap (length es) at m)"
  note e = entry_inserted [OF rep at k m1_def]
  define es1 es2 where "es1 = take at es @ (k, child) # drop at es" and "es2 = take at es @ (k, child) # set_payload right (drop at es)"
  have len: "length es1 = length es + 1" "length es2 = length es + 1" using at by (simp_all add: es1_def es2_def)
  have keys: "fst ` set es2 \<subseteq> keys_of_bits bits"
  proof -
    have "map fst es2 = map fst es1" by (simp add: es1_def es2_def)
    then show ?thesis using keys_inserted [OF r(5) k, of at child] by (metis es1_def image_set)
  qed
  define m2 where "m2 = (if at < length es then putU32 (entryAt m1 (at + 1)) right m1 else setNodeLastChild right m1)"
  have eq: "hang_child at k child right m = setNodeKeys (int (length es + 1)) m2"
    by (simp add: hang_child_def Let_def r(3) m1_def m2_def ac_simps)
  have size: "nodeEntry m1 = entry_size bits" using same_header_entry [OF e(1)] r(8) by simp
  have pos: "4 \<le> entry_size bits" by (simp add: entry_size_def)
  have at1: "entryAt m1 i = 16 + i * entry_size bits" for i by (simp add: entryAt_def size)
  have first: "getU32 0 m2 = getU32 0 m" using same_header_fields(1) [OF e(1)] by (simp add: m2_def at1 set_header_other mem)
  have links: "nodeNextLeaf m2 = nodeNextLeaf m" "nodeLastChild m2 = (if at = length es then right else nodeLastChild m)"
    using same_header_fields [OF e(1)] at by (auto simp: m2_def at1 setNodeLastChild_def nodeNextLeaf_def nodeLastChild_def mem)
  have read: "readKey m2 i = fst (es2 ! i) \<and> entryPayload m2 i = snd (es2 ! i)" if i: "i \<le> length es" for i
  proof (cases "at < length es \<and> i = at + 1")
    case True
    have m2: "m2 = putU32 (entryAt m1 i) right m1" using True by (simp add: m2_def)
    have fl: "getU32 0 m2 = getU32 0 m1" using first same_header_fields(1) [OF e(1)] by simp
    have kind: "nodeIsText m2 = nodeIsText m1" "nodeIsFloat m2 = nodeIsFloat m1" "entryAt m2 i = entryAt m1 i"
      using fl by (simp_all add: nodeIsText_def nodeIsFloat_def entryAt_def nodeEntry_def)
    have "getU32 (entryAt m1 i) m2 = right" by (simp add: m2 mem)
    moreover have "readKey m2 i = readKey m1 i"
    proof -
      have "get_bytes (entryAt m1 i + a) n m2 = get_bytes (entryAt m1 i + a) n m1" if "4 \<le> a" for a n
        by (rule get_bytes_cong) (use that in \<open>simp add: m2 putU32_out\<close>)
      moreover have "m2 (entryAt m1 i + 8) = m1 (entryAt m1 i + 8)" "m2 (entryAt m1 i + 9) = m1 (entryAt m1 i + 9)"
        "getU32 (entryAt m1 i + 4) m2 = getU32 (entryAt m1 i + 4) m1" by (simp_all add: m2 putU32_out mem)
      ultimately show ?thesis by (simp add: readKey_def kind Let_def)
    qed
    moreover have "es2 ! i = (fst (es1 ! i), right)"
      using True at by (simp add: es1_def es2_def nth_append set_payload_nth min_def)
    ultimately show ?thesis using e(2) [OF i] kind by (simp add: entryPayload_def es1_def)
  next
    case False
    have "same_entry (entry_size bits) m2 i m1 i"
    proof (cases "at < length es")
      case True
      then have "i \<noteq> at + 1" using False by simp
      from apart_entries [OF this, of _ "entry_size bits"] pos True show ?thesis
        by (fastforce simp: same_entry_def m2_def at1 putU32_out)
    qed (simp add: m2_def set_header_other)
    moreover have "getU32 0 m2 = getU32 0 m1" using first same_header_fields(1) [OF e(1)] by simp
    moreover from this have "nodeEntry m2 = nodeEntry m1" by (simp add: nodeEntry_def nodeIsText_def nodeIsFloat_def)
    ultimately have "readKey m2 i = readKey m1 i \<and> entryPayload m2 i = entryPayload m1 i"
      using same_entry_reads [of m2 m1 i i] size by simp
    moreover have "es2 ! i = es1 ! i"
      using False i at by (auto simp: es1_def es2_def nth_append nth_Cons' set_payload_nth min_def)
    ultimately show ?thesis using e(2) [OF i] by (simp add: es1_def)
  qed
  have small: "length es + 1 \<le> 1021" using room node_room_small [OF r(1)] by simp
  have read': "readKey (setNodeKeys n m2) i = readKey m2 i \<and> entryPayload (setNodeKeys n m2) i = entryPayload m2 i" for i n
    using same_entry_reads [OF set_header_other(4) set_header_other(1)] .
  have "node_rep (hang_child at k child right m) leaf bits es2"
    by (rule node_repI [OF rep]) (use eq nodeKeys_set [OF small] len room keys first read read' in \<open>simp_all add: set_header_other\<close>)
  then show "node_rep (hang_child at k child right m) leaf bits (take at es @ (k, child) # set_payload right (drop at es))"
    by (simp add: es2_def)
  show "nodeNextLeaf (hang_child at k child right m) = nodeNextLeaf m"
    "nodeLastChild (hang_child at k child right m) = (if at = length es then right else nodeLastChild m)"
    unfolding eq using links by (simp_all add: set_header_other)
qed


text \<open>Splitting: the lower entries stay, the upper ones are copied to a fresh node.\<close>

lemma lower_half_rep:
  assumes rep: "node_rep m leaf bits es" and n: "n \<le> length es"
  shows "node_rep (setNodeKeys (int n) m) leaf bits (take n es)"
proof (rule node_repI [OF rep])
  note r = node_repD [OF rep]
  have small: "n \<le> 1021" using n r(4) node_room_small [OF r(1)] by linarith
  show "nodeKeys (setNodeKeys (int n) m) = int (length (take n es))" using n nodeKeys_set [OF small] by simp
  show "fst ` set (take n es) \<subseteq> keys_of_bits bits" using r(5) set_take_subset [of n es] by blast
  fix i assume "i < length (take n es)"
  then show "readKey (setNodeKeys (int n) m) i = fst (take n es ! i) \<and> entryPayload (setNodeKeys (int n) m) i = snd (take n es ! i)"
    using same_entry_reads [OF set_header_other(4) set_header_other(1), of "int n" m i] r(10,11) by simp
qed (use n node_repD(4) [OF rep] in \<open>simp_all add: set_header_other\<close>)

lemma upper_half_rep:
  assumes rep: "node_rep m leaf bits es" and fresh: "node_rep r leaf bits []" and n: "first + n \<le> length es"
  shows "node_rep (setNodeKeys (int n) (copy_entries n m first r)) leaf bits (take n (drop first es))"
    "nodeNextLeaf (setNodeKeys (int n) (copy_entries n m first r)) = nodeNextLeaf r"
    "nodeLastChild (setNodeKeys (int n) (copy_entries n m first r)) = nodeLastChild r"
proof -
  note m = node_repD [OF rep] and f = node_repD [OF fresh]
  define c where "c = copy_entries n m first r"
  have c: "same_header c r" "\<And>k. k < n \<Longrightarrow> same_entry (entry_size bits) c k m (first + k)"
    using copy_entries_spec [OF f(8), of n m first] by (simp_all add: c_def)
  note h = same_header_fields [OF c(1)]
  have size: "nodeEntry c = entry_size bits" using same_header_entry [OF c(1)] f(8) by simp
  have small: "n \<le> 1021" using n m(4) node_room_small [OF m(1)] by linarith
  have keys: "nodeKeys (setNodeKeys (int n) c) = int (length (take n (drop first es)))" using n nodeKeys_set [OF small] by simp
  have sub: "set (take n (drop first es)) \<subseteq> set es" using set_take_subset set_drop_subset by (metis subset_trans)
  have read: "readKey (setNodeKeys (int n) c) i = fst (take n (drop first es) ! i) \<and>
      entryPayload (setNodeKeys (int n) c) i = snd (take n (drop first es) ! i)" if "i < n" for i
  proof -
    have "readKey c i = readKey m (first + i) \<and> entryPayload c i = entryPayload m (first + i)"
      using same_entry_reads [of c m i "first + i"] size c(2) [OF that] h(1) f(2) m(2) by simp
    then show ?thesis
      using same_entry_reads [OF set_header_other(4) set_header_other(1), of "int n" c i] m(10,11) that n by simp
  qed
  have "node_rep (setNodeKeys (int n) c) leaf bits (take n (drop first es))"
  proof (rule node_repI [OF fresh])
    show "fst ` set (take n (drop first es)) \<subseteq> keys_of_bits bits" using m(5) sub by blast
  qed (use keys h n m(4) read in \<open>simp_all add: set_header_other\<close>)
  then show "node_rep (setNodeKeys (int n) (copy_entries n m first r)) leaf bits (take n (drop first es))" by (simp add: c_def)
  show "nodeNextLeaf (setNodeKeys (int n) (copy_entries n m first r)) = nodeNextLeaf r"
    "nodeLastChild (setNodeKeys (int n) (copy_entries n m first r)) = nodeLastChild r"
    using h by (simp_all add: set_header_other flip: c_def)
qed

lemma set_links_rep:
  assumes "node_rep m leaf bits es"
  shows "node_rep (setNodeNextLeaf w m) leaf bits es" "node_rep (setNodeLastChild w m) leaf bits es"
proof -
  note r = node_repD [OF assms]
  have "readKey (setNodeNextLeaf w m) i = readKey m i \<and> entryPayload (setNodeNextLeaf w m) i = entryPayload m i"
    "readKey (setNodeLastChild w m) i = readKey m i \<and> entryPayload (setNodeLastChild w m) i = entryPayload m i" for i
    using same_entry_reads [OF set_header_other(5) set_header_other(2)] same_entry_reads [OF set_header_other(6) set_header_other(3)] .
  then show "node_rep (setNodeNextLeaf w m) leaf bits es" "node_rep (setNodeLastChild w m) leaf bits es"
    using r by (intro node_repI [OF assms]; simp add: set_header_other)+
qed

text \<open>The binary search finds the first entry that is not below the key.\<close>

lemma lowerBound_spec:
  assumes rep: "node_rep m leaf bits es" and sorted: "sorted_by compareKeys (map fst es)" and k: "k \<in> keys_of_bits bits"
  shows "lowerBound m k = length (takeWhile (\<lambda>e. compareKeys (fst e) k < 0) es)"
proof -
  note r = node_repD [OF rep]
  define below where "below i \<longleftrightarrow> compareKeys (readKey m i) k < 0" for i
  have mono: "below i" if "i \<le> j" "j < length es" "below j" for i j
  proof (cases "i = j")
    case False
    have v: "fst (es ! i) \<in> keys_of_bits bits" "fst (es ! j) \<in> keys_of_bits bits" using r(5) that by auto
    have "compareKeys (fst (es ! i)) (fst (es ! j)) \<le> 0"
      using sorted that False by (auto simp: sorted_by_def sorted_wrt_iff_nth_less)
    then have "\<not> compareKeys k (fst (es ! i)) \<le> 0"
      using stored.trans [OF k v] that r(10) stored.swap [OF v(2) k] by (auto simp: below_def)
    then show ?thesis using stored.swap [OF v(1) k] that r(10) by (simp add: below_def)
  qed (use that in simp)
  define n where "n = lowerBound m k"
  have n: "n = bsearch below 0 (length es)" by (simp add: n_def lowerBound_def below_def [abs_def] r(3))
  have "n \<le> length es" using bsearch_bounds [of 0 "length es" below] by (simp add: n)
  moreover have "(\<forall>i < n. below i) \<and> (\<forall>i. n \<le> i \<longrightarrow> i < length es \<longrightarrow> \<not> below i)"
    unfolding n by (rule bsearch_split [OF mono]) auto
  ultimately have "takeWhile (\<lambda>e. compareKeys (fst e) k < 0) es = take n es"
    using r(10) by (intro takeWhile_eq_take_P_nth) (auto simp: below_def)
  then show ?thesis using \<open>n \<le> length es\<close> by (simp add: n_def)
qed

end
