(* ===== verification/IndexTree.thy ===== *)
theory IndexTree
  imports IndexNode Schema "HOL-Library.Monad_Syntax"
begin

text \<open>
  The B+ tree over the pool, \<^verbatim>\<open>11_index.c\<close>: making and splitting nodes, the recursive insertion,
  descending to a leaf, walking the chain of leaves and giving a tree's pages back. Page ids are
  read from a page as C ints. Every function pins the pages it looks at through the pool, so any
  of them may fail there; the recursive ones follow whatever graph the pages form.
\<close>

subsection \<open>Making and splitting nodes\<close>

definition newNode :: "bool \<Rightarrow> u32 \<Rightarrow> pool \<Rightarrow> (error + nat) \<times> pool" where
  "newNode leaf bits p =
     andThen (poolAllocate p) (\<lambda>pid p.
       case poolPin (int pid) p of
         (None, p) \<Rightarrow> (Inl ERROR_EXEC_OUT_OF_MEMORY, p)
       | (Some i, p) \<Rightarrow> (Inr pid, poolUnpin (int pid) True (write_page i (init_node leaf bits) p)))"

text \<open>\<open>Split\<close>: an error, or whether the node split, with the separator and the new node.\<close>

type_synonym split = "error + (storedkey \<times> nat) option"

definition splitLeaf :: "nat \<Rightarrow> pool \<Rightarrow> split \<times> pool" where
  "splitLeaf i p =
     andThen (newNode True (nodeKeyBits (frame_page i p)) p) (\<lambda>rightPage p.
       case poolPin (int rightPage) p of
         (None, p) \<Rightarrow> (Inl ERROR_EXEC_OUT_OF_MEMORY, p)
       | (Some j, p) \<Rightarrow>
           let page = frame_page i p;
               half = nodeOrder page div 2; moved = nodeKeys page - int half;
               p = write_page j (\<lambda>right. setNodeNextLeaf (nodeNextLeaf page)
                     (setNodeKeys moved (copy_entries (nat moved) page half right))) p;
               p = write_page i (\<lambda>page. setNodeNextLeaf (of_nat rightPage) (setNodeKeys (int half) page)) p;
               key = readKey (frame_page j p) 0
           in (Inr (Some (key, rightPage)), poolUnpin (int rightPage) True p))"

definition splitInternal :: "nat \<Rightarrow> pool \<Rightarrow> split \<times> pool" where
  "splitInternal i p =
     andThen (newNode False (nodeKeyBits (frame_page i p)) p) (\<lambda>rightPage p.
       case poolPin (int rightPage) p of
         (None, p) \<Rightarrow> (Inl ERROR_EXEC_OUT_OF_MEMORY, p)
       | (Some j, p) \<Rightarrow>
           let page = frame_page i p;
               keys = nat (nodeKeys page); middle = keys div 2; key = readKey page middle;
               moved = keys - middle - 1;
               p = write_page j (\<lambda>right. setNodeLastChild (nodeLastChild page)
                     (setNodeKeys (int moved) (copy_entries moved page (middle + 1) right))) p;
               p = write_page i (\<lambda>page. setNodeKeys (int middle)
                     (setNodeLastChild (entryPayload page middle) page)) p
           in (Inr (Some (key, rightPage)), poolUnpin (int rightPage) True p))"

definition insertIntoLeaf :: "nat \<Rightarrow> storedkey \<Rightarrow> u32 \<Rightarrow> pool \<Rightarrow> split \<times> pool" where
  "insertIntoLeaf i key rowPosition p =
     (let page = frame_page i p; at = lowerBound page key; keys = nodeKeys page;
          p = write_page i (insert_entry at key rowPosition) p
      in if keys + 1 = int (nodeOrder page) then splitLeaf i p else (Inr None, p))"

text \<open>The child an entry position leads to.\<close>

definition child_at :: "nat \<Rightarrow> page \<Rightarrow> u32" where
  "child_at at m = (if int at < nodeKeys m then entryPayload m at else nodeLastChild m)"

subsection \<open>Inserting\<close>

partial_function (option) insertInto :: "int \<Rightarrow> storedkey \<Rightarrow> u32 \<Rightarrow> pool \<Rightarrow> (split \<times> pool) option" where
  [code]: "insertInto pid key rowPosition p =
     (case poolPin pid p of
        (None, p) \<Rightarrow> Some (Inl ERROR_EXEC_OUT_OF_MEMORY, p)
      | (Some i, p) \<Rightarrow>
          (let page = frame_page i p
           in if nodeIsLeaf page
              then (let (split, p) = insertIntoLeaf i key rowPosition p in Some (split, poolUnpin pid True p))
              else
                let at = lowerBound page key; keys = nodeKeys page; child = child_at at page
                in do {
                     (below, p) \<leftarrow> insertInto (sint child) key rowPosition p;
                     case below of
                       Inl e \<Rightarrow> Some (Inl e, poolUnpin pid False p)
                     | Inr None \<Rightarrow> Some (Inr None, poolUnpin pid False p)
                     | Inr (Some (separator, right)) \<Rightarrow>
                         let p = write_page i (hang_child at separator child (of_nat right)) p;
                             (split, p) = (if keys + 1 = int (nodeOrder page) then splitInternal i p else (Inr None, p))
                         in Some (split, poolUnpin pid True p) }))"

text \<open>\<open>Index\<close>: what a tree indexes, its root and how many keys it holds.\<close>

record index =
  index_name :: string
  index_table :: string
  index_column :: string
  index_slot :: int
  rootPage :: int
  keyCount :: int

definition keyBits_of_type :: "byte \<Rightarrow> u32" where "keyBits_of_type t = keyBitsFor (type_of_byte t)"

definition indexInsert :: "index \<Rightarrow> Value \<Rightarrow> u32 \<Rightarrow> pool \<Rightarrow> ((error + unit) \<times> index \<times> pool) option" where
  "indexInsert index key rowPosition p =
     (if isNull key then Some (Inr (), index, p)
      else
        let stored = makeKey key
        in do {
             (split, p) \<leftarrow> insertInto (rootPage index) stored rowPosition p;
             case split of
               Inl e \<Rightarrow> Some (Inl e, index, p)
             | Inr None \<Rightarrow> Some (Inr (), index\<lparr>keyCount := keyCount index + 1\<rparr>, p)
             | Inr (Some (separator, right)) \<Rightarrow>
                 let index = index\<lparr>keyCount := keyCount index + 1\<rparr>
                 in (case newNode False (keyBits_of_type (ktype stored)) p of
                       (Inl e, p) \<Rightarrow> Some (Inl e, index, p)
                     | (Inr root, p) \<Rightarrow>
                         (case poolPin (int root) p of
                            (None, p) \<Rightarrow> Some (Inl ERROR_EXEC_OUT_OF_MEMORY, index, p)
                          | (Some i, p) \<Rightarrow>
                              Some (Inr (), index\<lparr>rootPage := int root\<rparr>,
                                    poolUnpin (int root) True
                                      (write_page i (\<lambda>m. setNodeLastChild (of_nat right)
                                         (setNodeKeys 1 (writeEntry 0 separator (of_int (rootPage index)) m))) p)))) })"

subsection \<open>Descending and walking the leaves\<close>

partial_function (option) leftmostLeaf :: "int \<Rightarrow> pool \<Rightarrow> (int \<times> pool) option" where
  [code]: "leftmostLeaf pid p =
     (case poolPin pid p of
        (None, p) \<Rightarrow> Some (sint INVALID_PAGE, p)
      | (Some i, p) \<Rightarrow>
          (let page = frame_page i p; p = poolUnpin pid False p
           in if nodeIsLeaf page then Some (pid, p)
              else leftmostLeaf (sint (if nodeKeys page > 0 then entryPayload page 0 else nodeLastChild page)) p))"

partial_function (option) seekLeaf :: "storedkey \<Rightarrow> int \<Rightarrow> pool \<Rightarrow> (int \<times> pool) option" where
  [code]: "seekLeaf key pid p =
     (case poolPin pid p of
        (None, p) \<Rightarrow> Some (sint INVALID_PAGE, p)
      | (Some i, p) \<Rightarrow>
          (let page = frame_page i p; p = poolUnpin pid False p
           in if nodeIsLeaf page then Some (pid, p)
              else seekLeaf key (sint (child_at (lowerBound page key) page)) p))"

text \<open>
  The loop over the entries of one leaf, which both scans share: an entry past the range ends the
  scan, one that cannot be ruled out is taken while the caller has room.
\<close>

datatype scan_end = Ended "u32 list" | Overfull "u32 list" | Passed "u32 list"

fun scan_entries :: "(storedkey \<Rightarrow> bool) \<Rightarrow> (storedkey \<Rightarrow> bool) \<Rightarrow> int \<Rightarrow> (storedkey \<times> u32) list \<Rightarrow> u32 list \<Rightarrow> scan_end" where
  "scan_entries past hit maxRows [] rows = Passed rows"
| "scan_entries past hit maxRows ((k, w) # es) rows =
     (if past k then Ended rows
      else if \<not> hit k then scan_entries past hit maxRows es rows
      else if int (length rows) = maxRows then Overfull rows
      else scan_entries past hit maxRows es (rows @ [w]))"

definition leaf_entries :: "page \<Rightarrow> (storedkey \<times> u32) list" where
  "leaf_entries m = map (\<lambda>i. (readKey m i, entryPayload m i)) [0..<nat (nodeKeys m)]"

partial_function (option) scan_leaves :: "(storedkey \<Rightarrow> bool) \<Rightarrow> (storedkey \<Rightarrow> bool) \<Rightarrow> int \<Rightarrow> int \<Rightarrow> u32 list \<Rightarrow> pool \<Rightarrow>
    ((error + unit) \<times> u32 list \<times> pool) option" where
  [code]: "scan_leaves past hit maxRows pid rows p =
     (if pid = sint INVALID_PAGE then Some (Inr (), rows, p)
      else case poolPin pid p of
             (None, p) \<Rightarrow> Some (Inl ERROR_EXEC_OUT_OF_MEMORY, rows, p)
           | (Some i, p) \<Rightarrow>
               (let leaf = frame_page i p; p = poolUnpin pid False p
                in case scan_entries past hit maxRows (leaf_entries leaf) rows of
                     Ended rows \<Rightarrow> Some (Inr (), rows, p)
                   | Overfull rows \<Rightarrow> Some (Inl ERROR_EXEC_TABLE_FULL, rows, p)
                   | Passed rows \<Rightarrow> scan_leaves past hit maxRows (sint (nodeNextLeaf leaf)) rows p))"

definition scan_past :: "compareop \<Rightarrow> storedkey \<Rightarrow> storedkey \<Rightarrow> bool" where
  "scan_past op target k \<longleftrightarrow> compareKeys k target > 0 \<and> (op = OP_EQ \<or> op = OP_LT \<or> op = OP_LTE)"

definition scan_hit :: "compareop \<Rightarrow> storedkey \<Rightarrow> storedkey \<Rightarrow> bool" where
  "scan_hit op target k \<longleftrightarrow>
     (let comparison = compareKeys k target
      in case op of OP_EQ \<Rightarrow> comparison = 0 | OP_LT \<Rightarrow> comparison \<le> 0 | OP_LTE \<Rightarrow> comparison \<le> 0
         | OP_GT \<Rightarrow> comparison \<ge> 0 | OP_GTE \<Rightarrow> comparison \<ge> 0 | _ \<Rightarrow> False)"

definition indexScan :: "index \<Rightarrow> compareop \<Rightarrow> Value \<Rightarrow> int \<Rightarrow> pool \<Rightarrow> ((error + unit) \<times> u32 list \<times> pool) option" where
  "indexScan index op key maxRows p =
     (let target = makeKey key; openLeft = (op = OP_LT \<or> op = OP_LTE)
      in do {
           (leafPage, p) \<leftarrow> (if openLeft then leftmostLeaf (rootPage index) p else seekLeaf target (rootPage index) p);
           scan_leaves (scan_past op target) (scan_hit op target) maxRows leafPage [] p })"

text \<open>A stored key against a prefix: the bytes they share, then a shorter key comes first.\<close>

definition prefix_order :: "storedkey \<Rightarrow> storedkey \<Rightarrow> int" where
  "prefix_order target k =
     (let n = storedLength target; shared = min (storedLength k) n;
          order = memcmp (map char_of_byte (take shared (kbytes k))) (map char_of_byte (take shared (kbytes target)))
      in if order = 0 \<and> storedLength k < n then -1 else order)"

definition indexPrefixScan :: "index \<Rightarrow> string \<Rightarrow> int \<Rightarrow> pool \<Rightarrow> ((error + unit) \<times> u32 list \<times> pool) option" where
  "indexPrefixScan index prefix maxRows p =
     (let target = makeKey (blank_value\<lparr>vtype := TYPE_TEXT, vtext := prefix\<rparr>)
      in do {
           (leafPage, p) \<leftarrow> seekLeaf target (rootPage index) p;
           scan_leaves (\<lambda>k. prefix_order target k > 0) (\<lambda>k. prefix_order target k = 0) maxRows leafPage [] p })"

subsection \<open>Giving a tree back\<close>

text \<open>
  The recursion of \<open>freeSubtree\<close> as a list of what is left to do: subtrees to visit, and nodes to
  free once their children are.
\<close>

datatype subtree_task = Visit int | Release int

definition child_ids :: "page \<Rightarrow> int list" where
  "child_ids m = map (\<lambda>i. sint (entryPayload m i)) [0..<nat (nodeKeys m)] @ [sint (nodeLastChild m)]"

partial_function (option) free_tasks :: "subtree_task list \<Rightarrow> pool \<Rightarrow> pool option" where
  [code]: "free_tasks ts p =
     (case ts of
        [] \<Rightarrow> Some p
      | Release pid # rest \<Rightarrow> free_tasks rest (poolFree (nat pid) p)
      | Visit pid # rest \<Rightarrow>
          if pid = sint INVALID_PAGE \<or> pid < 0 then free_tasks rest p
          else (case poolPin pid p of
                  (None, p) \<Rightarrow> free_tasks rest p
                | (Some i, p) \<Rightarrow>
                    (let page = frame_page i p; p = poolUnpin pid False p
                     in if nodeIsLeaf page then free_tasks (Release pid # rest) p
                        else free_tasks (map Visit (child_ids page) @ Release pid # rest) p)))"

definition freeSubtree :: "int \<Rightarrow> pool \<Rightarrow> pool option" where
  "freeSubtree pid p = free_tasks [Visit pid] p"

partial_function (option) treeDepth :: "int \<Rightarrow> int \<Rightarrow> pool \<Rightarrow> (int \<times> pool) option" where
  [code]: "treeDepth depth pid p =
     (case poolPin pid p of
        (None, p) \<Rightarrow> Some (depth, p)
      | (Some i, p) \<Rightarrow>
          (let page = frame_page i p; p = poolUnpin pid False p
           in if nodeIsLeaf page then Some (depth, p)
              else treeDepth (depth + 1) (sint (if nodeKeys page > 0 then entryPayload page 0 else nodeLastChild page)) p))"

end
