(* ===== verification/PinnedStore.thy ===== *)
theory PinnedStore
  imports PageStore
begin

text \<open>
  The interface of \<^verbatim>\<open>PageStore\<close> for a client that holds several pages pinned at once, as the index
  does on its way down a tree: what pinning, unpinning, writing and allocating leave alone of the
  pages held besides. The pool is the interpretation.
\<close>

locale pinned_store = page_store +
  assumes pin_keeps: "ok W s \<Longrightarrow> pid \<in> used s \<Longrightarrow> pin pid s = (r, s') \<Longrightarrow> home s x i \<Longrightarrow>
        home s' x i \<and> usable (look i s') = usable (look i s)"
    and unpin_keeps: "ok W s \<Longrightarrow> home s pid j \<Longrightarrow> home s x i \<Longrightarrow> x \<noteq> pid \<Longrightarrow>
        home (unpin pid d s) x i \<and> look i (unpin pid d s) = look i s"
    and poke_keeps: "ok W s \<Longrightarrow> home s pid j \<Longrightarrow> home s x i \<Longrightarrow> x \<noteq> pid \<Longrightarrow>
        home (poke j g s) x i \<and> look i (poke j g s) = look i s"
    and alloc_wide: "ok W s \<Longrightarrow> alloc s = (Inr pid, s') \<Longrightarrow>
        ok W s' \<and> pid \<notin> used s \<and> used s' = insert pid (used s) \<and> view s' pid = Some (\<lambda>_. 0) \<and>
        (\<forall>x v. x \<noteq> pid \<longrightarrow> view s x = Some v \<longrightarrow> view s' x = Some v)"
    and alloc_keeps: "ok W s \<Longrightarrow> alloc s = (Inr pid, s') \<Longrightarrow> home s x i \<Longrightarrow>
        home s' x i \<and> usable (look i s') = usable (look i s)"
    and home_look: "ok W s \<Longrightarrow> home s pid i \<Longrightarrow> view s pid = Some (usable (look i s)) \<and> pid \<in> used s"
    and home_alone: "home s x i \<Longrightarrow> home s y i \<Longrightarrow> x = y"
    and writer_home: "ok W s \<Longrightarrow> i \<in> W \<Longrightarrow> \<exists>x. home s x i"
begin

text \<open>
  \<open>keeps A s s'\<close>: of the pages in use only those of \<open>A\<close> may have changed, and every page held besides
  those of \<open>A\<close> is still held, in its frame and with its bytes.
\<close>

definition keeps :: "nat set \<Rightarrow> 'a \<Rightarrow> 'a \<Rightarrow> bool" where
  "keeps A s s' \<longleftrightarrow> used s \<subseteq> used s' \<and>
     (\<forall>x v. x \<in> used s \<longrightarrow> x \<notin> A \<longrightarrow> view s x = Some v \<longrightarrow> view s' x = Some v) \<and>
     (\<forall>x i. x \<notin> A \<longrightarrow> home s x i \<longrightarrow> home s' x i \<and> usable (look i s') = usable (look i s))"

lemma keeps_refl [simp]: "keeps A s s" by (simp add: keeps_def)

lemma keeps_trans: "keeps A s t \<Longrightarrow> keeps A t u \<Longrightarrow> keeps A s u"
  unfolding keeps_def by (intro conjI allI impI) (auto simp: subset_iff)

lemma keeps_mono: "keeps A s t \<Longrightarrow> A \<subseteq> B \<Longrightarrow> keeps B s t"
  unfolding keeps_def by blast

lemma keeps_unused: "keeps A s t \<Longrightarrow> (\<And>x i. x \<in> A - B \<Longrightarrow> x \<notin> used s) \<Longrightarrow> (\<And>x i. x \<in> A - B \<Longrightarrow> \<not> home s x i) \<Longrightarrow> keeps B s t"
  unfolding keeps_def by blast

lemma pin_step:
  assumes "ok W s" "pid \<in> used s" "pin pid s = (Some i, s')"
  shows "ok W s'" "home s' pid i" "used s' = used s" "keeps {} s s'" "view s' pid = Some (usable (look i s'))"
    "view s pid = Some m \<Longrightarrow> usable (look i s') = m"
proof -
  note p = pin_law [OF assms]
  show "ok W s'" "home s' pid i" "used s' = used s" "view s' pid = Some (usable (look i s'))" using p by auto
  show "keeps {} s s'" unfolding keeps_def using p pin_keeps [OF assms] by (auto simp: map_le_def dom_def)
  show "usable (look i s') = m" if "view s pid = Some m"
    using p that by (metis domI map_le_def option.inject)
qed

lemma unpin_step:
  assumes "ok W s" "home s pid i" "d \<or> i \<notin> W"
  shows "ok (W - {i}) (unpin pid d s)" "view (unpin pid d s) = view s" "used (unpin pid d s) = used s"
    "keeps {pid} s (unpin pid d s)"
  using unpin_law [OF assms] unpin_keeps [OF assms(1,2)] by (auto simp: keeps_def)

lemma poke_step:
  assumes "ok W s" "home s pid i"
  shows "ok (insert i W) (poke i g s)" "view (poke i g s) = (view s)(pid \<mapsto> usable (g (look i s)))"
    "used (poke i g s) = used s" "home (poke i g s) pid i" "look i (poke i g s) = g (look i s)" "keeps {pid} s (poke i g s)"
  using poke_law [OF assms, of g] poke_keeps [OF assms] by (auto simp: keeps_def)

lemma alloc_step:
  assumes "ok W s" "alloc s = (Inr pid, s')"
  shows "ok W s'" "pid \<notin> used s" "used s' = insert pid (used s)" "view s' pid = Some (\<lambda>_. 0)" "keeps {} s s'"
    "\<not> home s pid i"
proof -
  note a = alloc_wide [OF assms]
  show "ok W s'" "pid \<notin> used s" "used s' = insert pid (used s)" "view s' pid = Some (\<lambda>_. 0)" using a by auto
  have "view s' x = Some v" if "x \<in> used s" "view s x = Some v" for x v
    using a that by (cases "x = pid") auto
  then show "keeps {} s s'" using a alloc_keeps [OF assms] by (auto simp: keeps_def)
  show "\<not> home s pid i" using home_look [OF assms(1), of pid i] a by auto
qed

text \<open>A page that is held stands where it is through a step that leaves it alone.\<close>

lemma held_through: "keeps A s t \<Longrightarrow> home s x i \<Longrightarrow> x \<notin> A \<Longrightarrow> home t x i \<and> usable (look i t) = usable (look i s)"
  unfolding keeps_def by blast

lemma view_through: "keeps A s t \<Longrightarrow> x \<in> used s \<Longrightarrow> x \<notin> A \<Longrightarrow> view s x = Some v \<Longrightarrow> view t x = Some v"
  unfolding keeps_def by blast

lemma used_through: "keeps A s t \<Longrightarrow> used s \<subseteq> used t"
  unfolding keeps_def by blast

text \<open>A page allocated, pinned, written and released: new, with what was written, and nothing else changed.\<close>

lemma fresh_page:
  assumes ok: "ok W s" and run: "alloc s = (Inr pid, s1)" "pin pid s1 = (Some i, s2)"
    and t: "t = unpin pid True (poke i g s2)"
  shows "ok W t" "pid \<notin> used s" "used t = insert pid (used s)" "keeps {} s t" "\<exists>m. view t pid = Some (usable (g m))"
proof -
  note a = alloc_step [OF ok run(1)]
  have pid: "pid \<in> used s1" using a(3) by simp
  note b = pin_step [OF a(1) pid run(2)]
  note c = poke_step [OF b(1,2), of g]
  note d = unpin_step [OF c(1,4), of True, simplified, folded t]
  have "i \<notin> W"
  proof
    assume "i \<in> W"
    then obtain x where x: "home s x i" using writer_home [OF ok] by blast
    then have "home s2 x i" using held_through [OF a(5) x] held_through [OF b(4)] by auto
    then have "x = pid" using b(2) home_alone by blast
    then show False using x a(6) by blast
  qed
  then show "ok W t" using d(1) by simp
  show "pid \<notin> used s" by (rule a(2))
  show "used t = insert pid (used s)" using a(3) b(3) c(3) d(3) by simp
  have "keeps {pid} s t"
    using keeps_mono [OF a(5)] keeps_mono [OF b(4)] c(6) d(4) by (meson empty_subsetI keeps_trans)
  then show "keeps {} s t" by (rule keeps_unused) (use a(2,6) in auto)
  show "\<exists>m. view t pid = Some (usable (g m))" using c(2) d(2) by auto
qed

text \<open>Two pages written together, the first held throughout, the second pinned for it.\<close>

lemma written_pair:
  assumes ok: "ok {i} s" and home: "home s p i" and q: "q \<in> used s" "q \<noteq> p" and pin: "pin q s = (Some j, s2)"
    and t: "t = unpin q True (poke i g (poke j f s2))"
  shows "ok {i} t" "home t p i" "used t = used s" "keeps {p, q} s t" "usable (look i s2) = usable (look i s)"
    "usable (look j s2) = the (view s2 q)" "view s q = Some v \<Longrightarrow> usable (look j s2) = v"
    "view t p = Some (usable (g (look i s2)))" "view t q = Some (usable (f (look j s2)))" "look j (poke i g (poke j f s2)) = f (look j s2)"
    "look i (poke j f s2) = look i s2" "usable (look i t) = usable (g (look i s2))"
proof -
  note a = pin_step [OF ok q(1) pin]
  have hp: "home s2 p i" "usable (look i s2) = usable (look i s)" using held_through [OF a(4) home] by auto
  note b = poke_step [OF a(1,2), of f]
  have hb: "home (poke j f s2) p i \<and> look i (poke j f s2) = look i s2" using poke_keeps [OF a(1,2) hp(1)] q(2) by simp
  note c = poke_step [OF b(1) conjunct1 [OF hb], of g]
  have hc: "home (poke i g (poke j f s2)) q j \<and> look j (poke i g (poke j f s2)) = f (look j s2)"
    using poke_keeps [OF b(1) conjunct1 [OF hb] b(4), of g] q(2) b(5) by simp
  note d = unpin_step [OF c(1) conjunct1 [OF hc], of True, simplified, folded t]
  have "i \<noteq> j" using hp(1) a(2) q(2) home_alone by blast
  then have "insert i (insert j {i}) - {j} = {i}" by auto
  then show "ok {i} t" using d(1) by simp
  show "home t p i" using held_through [OF d(4) c(4)] q(2) by simp
  show "usable (look i t) = usable (g (look i s2))" using held_through [OF d(4) c(4)] q(2) c(5) hb by simp
  show "used t = used s" using a(3) b(3) c(3) d(3) by simp
  show "keeps {p, q} s t"
    by (intro keeps_trans [OF keeps_mono [OF a(4)]] keeps_trans [OF keeps_mono [OF b(6)]] keeps_trans [OF keeps_mono [OF c(6)]]
        keeps_mono [OF d(4)]) auto
  show "usable (look i s2) = usable (look i s)" by (rule hp(2))
  show "usable (look j s2) = the (view s2 q)" using a(5) by simp
  show "view s q = Some v \<Longrightarrow> usable (look j s2) = v" by (rule a(6))
  show "view t p = Some (usable (g (look i s2)))" using d(2) c(2) hb by simp
  show "view t q = Some (usable (f (look j s2)))" using d(2) c(2) b(2) q(2) by simp
  show "look j (poke i g (poke j f s2)) = f (look j s2)" "look i (poke j f s2) = look i s2" using hc hb by simp_all
qed

end

subsection \<open>The pool provides it\<close>

interpretation held: pinned_store store_ok pool_view used_pages home_frame
  "\<lambda>pid. poolPin (int pid)" "\<lambda>pid. poolUnpin (int pid)" frame_page write_page poolAllocate poolFree
proof
  fix W s pid r s' x i assume ok: "store_ok W s" and pid: "pid \<in> used_pages s" and run: "poolPin (int pid) s = (r, s')"
    and home: "home_frame s x i"
  show "home_frame s' x i \<and> usable (frame_page i s') = usable (frame_page i s)"
    using pinLocked_ok [of W s pid r s'] ok run home
    by (auto simp: store_ok_def poolPin_def calm_def home_frame_def frame_page_def)
next
  fix W s pid j x i d assume ok: "store_ok W s" and home: "home_frame s pid j" "home_frame s x i" and ne: "x \<noteq> pid"
  have "resident s pid = Some j" "j \<noteq> i" using home_resident [OF ok] home ne by (auto simp: home_frame_def)
  then show "home_frame (poolUnpin (int pid) d s) x i \<and> frame_page i (poolUnpin (int pid) d s) = frame_page i s"
    using home by (auto simp: poolUnpin_def unpinLocked_def home_frame_def held_def frame_page_def)
next
  fix W s pid j x i g assume ok: "store_ok W s" and home: "home_frame s pid j" "home_frame s x i" and ne: "x \<noteq> pid"
  have "j \<noteq> i" using home ne by (auto simp: home_frame_def)
  then show "home_frame (write_page j g s) x i \<and> frame_page i (write_page j g s) = frame_page i s"
    using home by (auto simp: write_page_def home_frame_def held_def frame_page_def)
next
  fix W s pid s' assume ok: "store_ok W s" and run: "poolAllocate s = (Inr pid, s')"
  have "pool_ok W s" "free_ok s" using ok by (simp_all add: store_ok_def)
  note al = allocateLocked_ok [OF this run [unfolded poolAllocate_def]]
  have "pid \<notin> used_pages s \<and> used_pages s' = insert pid (used_pages s)"
    using al(10) \<open>free_ok s\<close> by (auto simp: used_pages_def free_ok_def)
  then show "store_ok W s' \<and> pid \<notin> used_pages s \<and> used_pages s' = insert pid (used_pages s) \<and>
      pool_view s' pid = Some (\<lambda>_. 0) \<and> (\<forall>x v. x \<noteq> pid \<longrightarrow> pool_view s x = Some v \<longrightarrow> pool_view s' x = Some v)"
    using al by (simp add: store_ok_def)
  fix x i assume home: "home_frame s x i"
  show "home_frame s' x i \<and> usable (frame_page i s') = usable (frame_page i s)"
    using al(8) home by (auto simp: home_frame_def frame_page_def)
next
  fix W s pid i assume ok: "store_ok W s" and home: "home_frame s pid i"
  have res: "resident s pid = Some i" by (rule home_resident [OF ok home])
  show "pool_view s pid = Some (usable (frame_page i s)) \<and> pid \<in> used_pages s"
    using res home ok pool_view_def [of s pid]
    by (auto simp: frame_page_def used_pages_def store_ok_def free_ok_def not_less [symmetric] intro: ccontr)
next
  fix W s i assume "store_ok W s" "i \<in> W"
  then have "held s i" using pool_ok_held [of W s i] by (simp add: store_ok_def)
  then show "\<exists>x. home_frame s x i" by (auto simp: home_frame_def held_def)
qed (auto simp: home_frame_def)

end
