(* ===== verification/IndexOrder.thy ===== *)
theory IndexOrder
  imports IndexTree PinnedStore "HOL-Library.List_Lexorder"
begin

text \<open>
  A B+ tree as a value: its pages, its separators and the entries of its leaves. The order of a tree
  is stated on ranks, lists of numbers that order as the stored keys do, and the lemmas say how
  inserting into a child, splitting a child and splitting a node keep it and change the entries.
\<close>

subsection \<open>Ranks\<close>

definition keyrank :: "storedkey \<Rightarrow> nat list" where
  "keyrank k = (if ktype k = 2 then [unat (key_real k)] else if ktype k = 0 then [unat (key_number k)]
     else map unat (take (storedLength k) (kbytes k)))"

lemma compareText_rank: "compareText u w < 0 \<longleftrightarrow> map of_char u < (map of_char w :: nat list)"
  by (induction u w rule: list_induct2') (auto simp: less_char_def)

lemma keyrank_text: "t \<notin> {0, 2} \<Longrightarrow> keyrank (text_key t s) = map of_char (take 40 s)"
proof -
  assume t: "t \<notin> {0, 2}"
  have len: "storedLength (text_key t s) = length (take 40 s)" and k: "ktype (text_key t s) = t" by (simp_all add: text_key_def)
  have "kbytes (text_key t s) = padded (map byte_of_char (take 40 s))" by (simp add: text_key_def)
  then have "take (length (take 40 s)) (kbytes (text_key t s)) = map byte_of_char (take 40 s)"
    using take_padded [of "map byte_of_char (take 40 s)" "length (take 40 s)"] by simp
  then have "keyrank (text_key t s) = map unat (map byte_of_char (take 40 s))" using t by (simp add: keyrank_def len k del: length_take)
  moreover have "unat (byte_of_char c) = of_char c" for c
  proof -
    have "byte_of_char c = of_nat (of_char c)" unfolding byte_of_char_def by (metis of_nat_of_char)
    then show ?thesis by (simp add: unat_of_nat)
  qed
  ultimately show ?thesis by simp
qed

lemma keyrank_less:
  assumes "a \<in> keys_of_bits bits" "b \<in> keys_of_bits bits"
  shows "compareKeys a b < 0 \<longleftrightarrow> keyrank a < keyrank b"
proof -
  consider (real) "bits = NODE_FLOAT" | (words) "bits = NODE_TEXT" "bits \<noteq> NODE_FLOAT"
    | (ints) "bits \<noteq> NODE_FLOAT" "bits \<noteq> NODE_TEXT" by blast
  then show ?thesis
  proof cases
    case real
    then obtain x y where "a = float_key x" "b = float_key y" using assms by (auto simp: keys_of_bits_def)
    then show ?thesis by (auto simp: keyrank_def key_real_float word_less_nat_alt) (simp_all add: float_key_def)
  next
    case words
    then obtain x y where "a = text_key 1 x" "b = text_key 1 y" using assms by (auto simp: keys_of_bits_def)
    then show ?thesis by (simp add: keyrank_text compareText_rank)
  next
    case ints
    then obtain x y where k: "a = int_key x" "b = int_key y" using assms by (auto simp: keys_of_bits_def)
    have "ktype (int_key n) = 0" for n by (simp add: int_key_def)
    moreover have "unat (x XOR 0x80000000) < unat (y XOR 0x80000000) \<longleftrightarrow> sint x < sint y"
      by (simp add: word_less_nat_alt [symmetric] word_less_def biased)
    ultimately show ?thesis by (simp add: k keyrank_def key_number_int sgn_if)
  qed
qed

lemma keyrank_le:
  assumes "a \<in> keys_of_bits bits" "b \<in> keys_of_bits bits"
  shows "compareKeys a b \<le> 0 \<longleftrightarrow> keyrank a \<le> keyrank b" "compareKeys a b = 0 \<longleftrightarrow> keyrank a = keyrank b"
    "compareKeys a b > 0 \<longleftrightarrow> keyrank b < keyrank a" "compareKeys a b \<ge> 0 \<longleftrightarrow> keyrank b \<le> keyrank a"
proof -
  have swap: "compareKeys b a < 0 \<longleftrightarrow> compareKeys a b > 0" by (rule stored.swap [OF assms(2,1)])
  show "compareKeys a b > 0 \<longleftrightarrow> keyrank b < keyrank a" using keyrank_less [OF assms(2,1)] swap by simp
  then show "compareKeys a b \<le> 0 \<longleftrightarrow> keyrank a \<le> keyrank b" by (meson not_le)
  then show "compareKeys a b = 0 \<longleftrightarrow> keyrank a = keyrank b" using keyrank_less [OF assms] by auto
  show "compareKeys a b \<ge> 0 \<longleftrightarrow> keyrank b \<le> keyrank a" using keyrank_less [OF assms] by (meson not_le)
qed

lemma sorted_ranks:
  assumes "set ks \<subseteq> keys_of_bits bits"
  shows "sorted_by compareKeys ks \<longleftrightarrow> sorted (map keyrank ks)"
  using assms
proof (induction ks)
  case (Cons k ks)
  have "compareKeys k k' \<le> 0 \<longleftrightarrow> keyrank k \<le> keyrank k'" if "k' \<in> set ks" for k'
    using keyrank_le(1) Cons.prems that by auto
  then show ?case using Cons by (auto simp: sorted_by_def)
qed (simp add: sorted_by_def)

subsection \<open>Trees\<close>

type_synonym entries = "(storedkey \<times> u32) list"

datatype btree = LeafNode (root: nat) entries | InnerNode (root: nat) "storedkey list" "btree list"

fun contents :: "btree \<Rightarrow> entries" where
  "contents (LeafNode p es) = es"
| "contents (InnerNode p ks ts) = concat (map contents ts)"

fun page_list :: "btree \<Rightarrow> nat list" where
  "page_list (LeafNode p es) = [p]"
| "page_list (InnerNode p ks ts) = p # concat (map page_list ts)"

fun leaf_list :: "btree \<Rightarrow> (nat \<times> entries) list" where
  "leaf_list (LeafNode p es) = [(p, es)]"
| "leaf_list (InnerNode p ks ts) = concat (map leaf_list ts)"

fun first_leaf :: "btree \<Rightarrow> nat" where
  "first_leaf (LeafNode p es) = p"
| "first_leaf (InnerNode p ks []) = p"
| "first_leaf (InnerNode p ks (t # ts)) = first_leaf t"

definition ranks :: "entries \<Rightarrow> nat list list" where "ranks es = map (keyrank \<circ> fst) es"

text \<open>\<open>fenced ks ts\<close>: the separators stand between the children, all keys before one at most it, all behind at least.\<close>

definition fenced :: "storedkey list \<Rightarrow> btree list \<Rightarrow> bool" where
  "fenced ks ts \<longleftrightarrow> length ts = Suc (length ks) \<and>
     (\<forall>i < length ks. \<forall>j < length ts. \<forall>e \<in> set (contents (ts ! j)).
        (j \<le> i \<longrightarrow> keyrank (fst e) \<le> keyrank (ks ! i)) \<and> (i < j \<longrightarrow> keyrank (ks ! i) \<le> keyrank (fst e)))"

fun ordered :: "u32 \<Rightarrow> btree \<Rightarrow> bool" where
  "ordered bits (LeafNode p es) \<longleftrightarrow> sorted (ranks es) \<and> fst ` set es \<subseteq> keys_of_bits bits"
| "ordered bits (InnerNode p ks ts) \<longleftrightarrow> fenced ks ts \<and> set ks \<subseteq> keys_of_bits bits \<and>
     (\<forall>t \<in> set ts. ordered bits t \<and> contents t \<noteq> [])"

fun roomy :: "u32 \<Rightarrow> btree \<Rightarrow> bool" where
  "roomy bits (LeafNode p es) \<longleftrightarrow> length es < node_room bits"
| "roomy bits (InnerNode p ks ts) \<longleftrightarrow> length ks < node_room bits \<and> (\<forall>t \<in> set ts. roomy bits t)"

text \<open>The insertion of the specification: before the first entry that is not below the key.\<close>

definition ins :: "storedkey \<Rightarrow> u32 \<Rightarrow> entries \<Rightarrow> entries" where
  "ins k w es = takeWhile (\<lambda>e. keyrank (fst e) < keyrank k) es @ (k, w) # dropWhile (\<lambda>e. keyrank (fst e) < keyrank k) es"

lemma set_ins [simp]: "set (ins k w es) = insert (k, w) (set es)"
proof -
  have "set es = set (takeWhile P es) \<union> set (dropWhile P es)" for P by (metis set_append takeWhile_dropWhile_id)
  then show ?thesis by (auto simp: ins_def)
qed

lemma mset_ins: "mset (ins k w es) = add_mset (k, w) (mset es)"
  by (simp add: ins_def) (metis mset_append takeWhile_dropWhile_id)

lemma ins_not_Nil [simp]: "ins k w es \<noteq> []" by (simp add: ins_def)

lemma sorted_ins: "sorted (ranks es) \<Longrightarrow> sorted (ranks (ins k w es))"
proof (induction es)
  case (Cons e es)
  show ?case
  proof (cases "keyrank (fst e) < keyrank k")
    case True
    then have "ins k w (e # es) = e # ins k w es" by (simp add: ins_def)
    then show ?thesis using True Cons by (simp add: ranks_def less_imp_le)
  next
    case False
    then have "ins k w (e # es) = (k, w) # e # es" by (simp add: ins_def)
    then show ?thesis using False Cons.prems by (force simp: ranks_def)
  qed
qed (simp add: ins_def ranks_def)

lemma ins_take:
  assumes "n = length (takeWhile (\<lambda>e. keyrank (fst e) < keyrank k) es)"
  shows "ins k w es = take n es @ (k, w) # drop n es"
  unfolding ins_def assms using takeWhile_eq_take dropWhile_eq_drop by metis

lemma ins_append:
  assumes "\<And>e. e \<in> set A \<Longrightarrow> keyrank (fst e) < keyrank k" "\<And>e. e \<in> set B \<Longrightarrow> \<not> keyrank (fst e) < keyrank k"
  shows "ins k w (A @ es @ B) = A @ ins k w es @ B"
proof -
  have "takeWhile (\<lambda>e. keyrank (fst e) < keyrank k) B = []" "dropWhile (\<lambda>e. keyrank (fst e) < keyrank k) B = B"
    using assms(2) by (cases B; simp)+
  then have "takeWhile (\<lambda>e. keyrank (fst e) < keyrank k) (es @ B) = takeWhile (\<lambda>e. keyrank (fst e) < keyrank k) es"
    "dropWhile (\<lambda>e. keyrank (fst e) < keyrank k) (es @ B) = dropWhile (\<lambda>e. keyrank (fst e) < keyrank k) es @ B"
    by (induction es) auto
  then show ?thesis using assms(1) by (simp add: ins_def)
qed


subsection \<open>Where a key belongs\<close>

definition slot_for :: "storedkey \<Rightarrow> storedkey list \<Rightarrow> nat" where
  "slot_for k ks = length (takeWhile (\<lambda>s. keyrank s < keyrank k) ks)"

lemma slot_for_le: "slot_for k ks \<le> length ks"
  by (simp add: slot_for_def length_takeWhile_le)

lemma fenced_length: "fenced ks ts \<Longrightarrow> length ts = Suc (length ks)"
  by (simp add: fenced_def)

lemma fencedD:
  assumes "fenced ks ts" "i < length ks" "j < length ts" "e \<in> set (contents (ts ! j))"
  shows "j \<le> i \<Longrightarrow> keyrank (fst e) \<le> keyrank (ks ! i)" "i < j \<Longrightarrow> keyrank (ks ! i) \<le> keyrank (fst e)"
  using assms fenced_def [of ks ts] by blast+

lemma fenced_sorted:
  assumes "fenced ks ts" "\<forall>t \<in> set ts. contents t \<noteq> []"
  shows "sorted (map keyrank ks)"
proof (rule sorted_wrt_iff_nth_less [THEN iffD2], intro allI impI)
  fix i j assume ij: "i < j" "j < length (map keyrank ks)"
  have j: "j < length ts" using ij fenced_length [OF assms(1)] by simp
  then obtain e where e: "e \<in> set (contents (ts ! j))" using assms(2) by (metis last_in_set nth_mem)
  have "keyrank (ks ! i) \<le> keyrank (fst e)" "keyrank (fst e) \<le> keyrank (ks ! j)"
    using fencedD [OF assms(1) _ j e] ij by auto
  then show "map keyrank ks ! i \<le> map keyrank ks ! j" using ij by simp
qed

lemma slot_for_split:
  assumes "sorted (map keyrank ks)"
  shows "i < slot_for k ks \<Longrightarrow> keyrank (ks ! i) < keyrank k" "slot_for k ks \<le> i \<Longrightarrow> i < length ks \<Longrightarrow> keyrank k \<le> keyrank (ks ! i)"
proof -
  show "keyrank (ks ! i) < keyrank k" if "i < slot_for k ks"
    using that nth_mem [of i "takeWhile (\<lambda>s. keyrank s < keyrank k) ks"] by (auto simp: slot_for_def takeWhile_nth dest: set_takeWhileD)
  assume i: "slot_for k ks \<le> i" "i < length ks"
  then have "\<not> keyrank (ks ! slot_for k ks) < keyrank k"
    unfolding slot_for_def by (intro nth_length_takeWhile) simp
  moreover have "keyrank (ks ! slot_for k ks) \<le> keyrank (ks ! i)"
    using assms i sorted_nth_mono [of "map keyrank ks" "slot_for k ks" i] by simp
  ultimately show "keyrank k \<le> keyrank (ks ! i)" by simp
qed

lemma child_key_side:
  assumes "fenced ks ts" "\<forall>t \<in> set ts. contents t \<noteq> []" "j < length ts" "e \<in> set (contents (ts ! j))"
  shows "j < slot_for k ks \<Longrightarrow> keyrank (fst e) < keyrank k" "slot_for k ks < j \<Longrightarrow> keyrank k \<le> keyrank (fst e)"
proof -
  note split = slot_for_split [OF fenced_sorted [OF assms(1,2)], where k = k]
  show "keyrank (fst e) < keyrank k" if "j < slot_for k ks"
    using fencedD(1) [OF assms(1) _ assms(3,4), of j] split(1) [OF that] that slot_for_le [of k ks] by fastforce
  assume "slot_for k ks < j"
  then have "slot_for k ks < length ks" using assms(3) fenced_length [OF assms(1)] by simp
  then show "keyrank k \<le> keyrank (fst e)"
    using fencedD(2) [OF assms(1) _ assms(3,4), of "slot_for k ks"] split(2) [of "slot_for k ks"] \<open>slot_for k ks < j\<close> by fastforce
qed

lemma split_children: "at < length ts \<Longrightarrow> ts = take at ts @ ts ! at # drop (Suc at) ts"
  by (rule id_take_nth_drop)

lemma contents_children:
  "at < length ts \<Longrightarrow> concat (map contents ts) =
     concat (map contents (take at ts)) @ contents (ts ! at) @ concat (map contents (drop (Suc at) ts))"
  using arg_cong [OF split_children [of at ts], of "\<lambda>ts. concat (map contents ts)"] by simp

lemma ins_children:
  assumes "fenced ks ts" "\<forall>t \<in> set ts. contents t \<noteq> []" "at = slot_for k ks"
  shows "ins k w (concat (map contents ts)) =
     concat (map contents (take at ts)) @ ins k w (contents (ts ! at)) @ concat (map contents (drop (Suc at) ts))"
proof -
  have at: "at < length ts" using slot_for_le [of k ks] fenced_length [OF assms(1)] assms(3) by simp
  show ?thesis
    unfolding contents_children [OF at]
  proof (rule ins_append)
    fix e assume "e \<in> set (concat (map contents (take at ts)))"
    then obtain t where "t \<in> set (take at ts)" "e \<in> set (contents t)" by auto
    then obtain j where "j < at" "e \<in> set (contents (ts ! j))"
      using at in_set_conv_nth [of t "take at ts"] by auto
    then show "keyrank (fst e) < keyrank k" using child_key_side(1) [OF assms(1,2), of j e k] at assms(3) by simp
  next
    fix e assume "e \<in> set (concat (map contents (drop (Suc at) ts)))"
    then obtain t where "t \<in> set (drop (Suc at) ts)" "e \<in> set (contents t)" by auto
    then obtain j where "Suc at + j < length ts" "e \<in> set (contents (ts ! (Suc at + j)))"
      using at in_set_conv_nth [of t "drop (Suc at) ts"] by (auto simp: less_diff_conv add.commute)
    then show "\<not> keyrank (fst e) < keyrank k"
      using child_key_side(2) [OF assms(1,2), of "Suc at + j" e k] assms(3) by auto
  qed
qed

subsection \<open>Trees after an insertion\<close>

text \<open>A child replaced by one that holds the new entry too.\<close>

lemma child_bounds:
  assumes "fenced ks ts" "\<forall>t \<in> set ts. contents t \<noteq> []" "at = slot_for k ks" "e \<in> insert (k, w) (set (contents (ts ! at)))" "i < length ks"
  shows "at \<le> i \<Longrightarrow> keyrank (fst e) \<le> keyrank (ks ! i)" "i < at \<Longrightarrow> keyrank (ks ! i) \<le> keyrank (fst e)"
proof -
  have at: "at < length ts" using slot_for_le [of k ks] fenced_length [OF assms(1)] assms(3) by simp
  note split = slot_for_split [OF fenced_sorted [OF assms(1,2)], where k = k]
  show "keyrank (fst e) \<le> keyrank (ks ! i)" if "at \<le> i"
    using fencedD(1) [OF assms(1,5) at] split(2) [of i] assms(3-5) that by fastforce
  show "keyrank (ks ! i) \<le> keyrank (fst e)" if "i < at"
    using fencedD(2) [OF assms(1,5) at] split(1) [of i] assms(3-5) that by fastforce
qed

lemma ordered_replace:
  assumes "ordered bits (InnerNode p ks ts)" "at = slot_for k ks" "ordered bits c" "contents c = ins k w (contents (ts ! at))"
  shows "ordered bits (InnerNode p ks (ts[at := c]))" "contents (InnerNode p ks (ts[at := c])) = ins k w (contents (InnerNode p ks ts))"
proof -
  have o: "fenced ks ts" "\<forall>t \<in> set ts. contents t \<noteq> []" using assms(1) by auto
  have at: "at < length ts" using slot_for_le [of k ks] fenced_length [OF o(1)] assms(2) by simp
  have "fenced ks (ts[at := c])"
    unfolding fenced_def
  proof (intro conjI allI impI ballI)
    fix i j e assume i: "i < length ks" and j: "j < length (ts[at := c])" and e: "e \<in> set (contents (ts[at := c] ! j))"
    have side: "(j \<le> i \<longrightarrow> keyrank (fst e) \<le> keyrank (ks ! i)) \<and> (i < j \<longrightarrow> keyrank (ks ! i) \<le> keyrank (fst e))"
    proof (cases "j = at")
      case True
      then have "e \<in> insert (k, w) (set (contents (ts ! at)))" using e at assms(4) by simp
      from child_bounds [OF o assms(2) this i] show ?thesis using True by blast
    next
      case False
      then show ?thesis using fencedD [OF o(1) i, of j e] j e by auto
    qed
    then show "j \<le> i \<Longrightarrow> keyrank (fst e) \<le> keyrank (ks ! i)" "i < j \<Longrightarrow> keyrank (ks ! i) \<le> keyrank (fst e)" by blast+
  qed (use fenced_length [OF o(1)] in simp)
  moreover have "contents c \<noteq> []" using assms(4) by simp
  then have "\<forall>t \<in> set (ts[at := c]). ordered bits t \<and> contents t \<noteq> []"
    using assms(1,3) set_update_subset_insert [of ts at c] by auto
  ultimately show "ordered bits (InnerNode p ks (ts[at := c]))" using assms(1) by simp
  have "ts[at := c] = take at ts @ c # drop (Suc at) ts" using at by (rule upd_conv_take_nth_drop)
  then show "contents (InnerNode p ks (ts[at := c])) = ins k w (contents (InnerNode p ks ts))"
    using ins_children [OF o assms(2)] assms(4) by simp
qed

text \<open>A child that split: its separator joins those of the node, its two parts the children.\<close>

definition with_split :: "nat \<Rightarrow> storedkey \<Rightarrow> 'a \<Rightarrow> 'a \<Rightarrow> storedkey list \<Rightarrow> 'a list \<Rightarrow> storedkey list \<times> 'a list" where
  "with_split at sep c d ks ts = (take at ks @ sep # drop at ks, take at ts @ c # d # drop (Suc at) ts)"

lemma ordered_split:
  assumes ord: "ordered bits (InnerNode p ks ts)" and at: "at = slot_for k ks"
    and c: "ordered bits c" "contents c \<noteq> []" and d: "ordered bits d" "contents d \<noteq> []"
    and both: "contents c @ contents d = ins k w (contents (ts ! at))" and sep: "sep \<in> keys_of_bits bits"
      "\<And>e. e \<in> set (contents c) \<Longrightarrow> keyrank (fst e) \<le> keyrank sep" "\<And>e. e \<in> set (contents d) \<Longrightarrow> keyrank sep \<le> keyrank (fst e)"
    and new: "with_split at sep c d ks ts = (ks', ts')"
  shows "ordered bits (InnerNode q ks' ts')" "contents (InnerNode q ks' ts') = ins k w (contents (InnerNode p ks ts))"
proof -
  have o: "fenced ks ts" "\<forall>t \<in> set ts. contents t \<noteq> []" using ord by auto
  have len: "length ts = Suc (length ks)" "at \<le> length ks" using slot_for_le [of k ks] fenced_length [OF o(1)] at by simp_all
  have new: "ks' = take at ks @ sep # drop at ks" "ts' = take at ts @ c # d # drop (Suc at) ts" using new by (simp_all add: with_split_def)
  have sub: "set (contents c) \<union> set (contents d) = insert (k, w) (set (contents (ts ! at)))"
    using arg_cong [OF both, of set] by simp
  have nth_t: "ts' ! j = (if j < at then ts ! j else if j = at then c else if j = Suc at then d else ts ! (j - 1))" if "j < length ts'" for j
  proof -
    have "Suc (j - 2) = j - 1" if "at < j" "j \<noteq> Suc at" using that by simp
    then show ?thesis using that len by (auto simp: new nth_append nth_Cons' min_def numeral_2_eq_2)
  qed
  have nth_k: "ks' ! i = (if i < at then ks ! i else if i = at then sep else ks ! (i - 1))" if "i < length ks'" for i
    using that len by (auto simp: new nth_append nth_Cons' min_def)
  obtain ec ed where ends: "ec \<in> set (contents c)" "ed \<in> set (contents d)" using c(2) d(2) by (meson last_in_set)
  have bounds: "at \<le> i \<Longrightarrow> keyrank (fst e) \<le> keyrank (ks ! i)" "i < at \<Longrightarrow> keyrank (ks ! i) \<le> keyrank (fst e)"
    if "e \<in> set (contents c) \<union> set (contents d)" "i < length ks" for e i
    using child_bounds [OF o at, of e w i] that sub by auto
  have low: "keyrank (fst e) \<le> keyrank sep" if "j < at" "e \<in> set (contents (ts ! j))" for j e
    using fencedD(1) [OF o(1), of j j e] bounds(2) [of ec j] sep(2) [OF ends(1)] that len ends by fastforce
  have high: "keyrank sep \<le> keyrank (fst e)" if "at < j" "j < length ts" "e \<in> set (contents (ts ! j))" for j e
    using fencedD(2) [OF o(1), of at j e] bounds(1) [of ed at] sep(3) [OF ends(2)] that len ends by fastforce
  have "fenced ks' ts'"
    unfolding fenced_def
  proof (intro conjI allI impI ballI)
    fix i j e assume i: "i < length ks'" and j: "j < length ts'" and e: "e \<in> set (contents (ts' ! j))"
    have l: "length ks' = Suc (length ks)" "length ts' = Suc (length ts)" using len by (auto simp: new)
    consider "j < at" | "j = at" | "j = Suc at" | "Suc at < j" by linarith
    then have "(j \<le> i \<longrightarrow> keyrank (fst e) \<le> keyrank (ks' ! i)) \<and> (i < j \<longrightarrow> keyrank (ks' ! i) \<le> keyrank (fst e))"
    proof cases
      case 1
      then have "e \<in> set (contents (ts ! j))" using e nth_t [OF j] by simp
      then show ?thesis
        using 1 fencedD [OF o(1), of _ j e] low [of j e] nth_k [OF i] i len l by (auto simp: not_less)
    next
      case 2
      then have "e \<in> set (contents c)" using e nth_t [OF j] by simp
      then show ?thesis using 2 bounds [of e] sep(2) [of e] nth_k [OF i] i l len by (auto simp: not_less)
    next
      case 3
      then have "e \<in> set (contents d)" using e nth_t [OF j] by simp
      then show ?thesis using 3 bounds [of e] sep(3) [of e] nth_k [OF i] i l len by (auto simp: not_less)
    next
      case 4
      then have "e \<in> set (contents (ts ! (j - 1)))" using e nth_t [OF j] by simp
      then show ?thesis
        using 4 fencedD [OF o(1), of _ "j - 1" e] high [of "j - 1" e] nth_k [OF i] i j len l by (auto simp: not_less)
    qed
    then show "j \<le> i \<Longrightarrow> keyrank (fst e) \<le> keyrank (ks' ! i)" "i < j \<Longrightarrow> keyrank (ks' ! i) \<le> keyrank (fst e)" by blast+
  qed (use len in \<open>simp add: new\<close>)
  moreover have "set ks' \<subseteq> keys_of_bits bits" using ord sep(1) by (auto simp: new dest: in_set_takeD in_set_dropD)
  moreover have "\<forall>t \<in> set ts'. ordered bits t \<and> contents t \<noteq> []"
    using ord c d by (auto simp: new dest: in_set_takeD in_set_dropD)
  ultimately show "ordered bits (InnerNode q ks' ts')" by simp
  show "contents (InnerNode q ks' ts') = ins k w (contents (InnerNode p ks ts))"
    using ins_children [OF o at] both by (simp add: new)
qed


text \<open>A node cut in two around one of its separators, and a leaf cut anywhere.\<close>

lemma ordered_cut:
  assumes ord: "ordered bits (InnerNode p ks ts)" and m: "m < length ks"
  shows "ordered bits (InnerNode q (take m ks) (take (Suc m) ts))" "ordered bits (InnerNode r (drop (Suc m) ks) (drop (Suc m) ts))"
    "contents (InnerNode q (take m ks) (take (Suc m) ts)) @ contents (InnerNode r (drop (Suc m) ks) (drop (Suc m) ts)) = contents (InnerNode p ks ts)"
    "e \<in> set (contents (InnerNode q (take m ks) (take (Suc m) ts))) \<Longrightarrow> keyrank (fst e) \<le> keyrank (ks ! m)"
    "e \<in> set (contents (InnerNode r (drop (Suc m) ks) (drop (Suc m) ts))) \<Longrightarrow> keyrank (ks ! m) \<le> keyrank (fst e)"
    "contents (InnerNode q (take m ks) (take (Suc m) ts)) \<noteq> []" "contents (InnerNode r (drop (Suc m) ks) (drop (Suc m) ts)) \<noteq> []"
proof -
  have o: "fenced ks ts" "\<forall>t \<in> set ts. contents t \<noteq> []" using ord by auto
  have len: "length ts = Suc (length ks)" using fenced_length [OF o(1)] .
  have "fenced (take m ks) (take (Suc m) ts)"
    unfolding fenced_def
  proof (intro conjI allI impI ballI)
    fix i j e assume a: "i < length (take m ks)" "j < length (take (Suc m) ts)" "e \<in> set (contents (take (Suc m) ts ! j))"
    then have "i < length ks" "i < m" "j < Suc m" "j < length ts" "e \<in> set (contents (ts ! j))" using m len by auto
    then show "j \<le> i \<Longrightarrow> keyrank (fst e) \<le> keyrank (take m ks ! i)" "i < j \<Longrightarrow> keyrank (take m ks ! i) \<le> keyrank (fst e)"
      using fencedD [OF o(1), of i j e] by simp_all
  qed (use m len in simp)
  then show "ordered bits (InnerNode q (take m ks) (take (Suc m) ts))" using ord by (auto dest: in_set_takeD)
  have "fenced (drop (Suc m) ks) (drop (Suc m) ts)"
    unfolding fenced_def
  proof (intro conjI allI impI ballI)
    fix i j e assume a: "i < length (drop (Suc m) ks)" "j < length (drop (Suc m) ts)" "e \<in> set (contents (drop (Suc m) ts ! j))"
    then have "Suc m + i < length ks" "Suc m + j < length ts" "e \<in> set (contents (ts ! (Suc m + j)))" using m len by auto
    then show "j \<le> i \<Longrightarrow> keyrank (fst e) \<le> keyrank (drop (Suc m) ks ! i)" "i < j \<Longrightarrow> keyrank (drop (Suc m) ks ! i) \<le> keyrank (fst e)"
      using fencedD [OF o(1), of "Suc m + i" "Suc m + j" e] by simp_all
  qed (use m len in simp)
  then show "ordered bits (InnerNode r (drop (Suc m) ks) (drop (Suc m) ts))" using ord by (auto dest: in_set_dropD)
  show "contents (InnerNode q (take m ks) (take (Suc m) ts)) @ contents (InnerNode r (drop (Suc m) ks) (drop (Suc m) ts)) = contents (InnerNode p ks ts)"
    by (simp flip: concat_append map_append)
  show "keyrank (fst e) \<le> keyrank (ks ! m)" if e: "e \<in> set (contents (InnerNode q (take m ks) (take (Suc m) ts)))"
  proof -
    obtain t where "t \<in> set (take (Suc m) ts)" "e \<in> set (contents t)" using e by auto
    then obtain j where "j \<le> m" "e \<in> set (contents (ts ! j))"
      using in_set_conv_nth [of t "take (Suc m) ts"] by (auto simp: less_Suc_eq_le)
    then show ?thesis using fencedD(1) [OF o(1) m, of j e] m len by simp
  qed
  show "keyrank (ks ! m) \<le> keyrank (fst e)" if e: "e \<in> set (contents (InnerNode r (drop (Suc m) ks) (drop (Suc m) ts)))"
  proof -
    obtain t where "t \<in> set (drop (Suc m) ts)" "e \<in> set (contents t)" using e by auto
    then obtain j where "Suc m + j < length ts" "e \<in> set (contents (ts ! (Suc m + j)))"
      using m len in_set_conv_nth [of t "drop (Suc m) ts"] by (auto simp: less_diff_conv add.commute)
    then show ?thesis using fencedD(2) [OF o(1) m, of "Suc m + j" e] by simp
  qed
  have "ts ! 0 \<in> set (take (Suc m) ts)" "ts ! Suc m \<in> set (drop (Suc m) ts)"
    using m len by (auto simp: in_set_conv_nth intro: exI [of _ 0])
  moreover have "contents (ts ! 0) \<noteq> []" "contents (ts ! Suc m) \<noteq> []" using o(2) m len by auto
  ultimately show "contents (InnerNode q (take m ks) (take (Suc m) ts)) \<noteq> []" "contents (InnerNode r (drop (Suc m) ks) (drop (Suc m) ts)) \<noteq> []"
    by (auto simp: concat_eq_Nil_conv)
qed

lemma ordered_contents: "ordered bits t \<Longrightarrow> sorted (ranks (contents t)) \<and> fst ` set (contents t) \<subseteq> keys_of_bits bits"
proof (induction t)
  case (InnerNode p ks ts)
  have o: "fenced ks ts" "\<forall>t \<in> set ts. contents t \<noteq> []" using InnerNode.prems by auto
  have "sorted (ranks (concat (map contents (take n ts))))" if "n \<le> length ts" for n
    using that
  proof (induction n)
    case (Suc n)
    have n: "n < length ts" using Suc.prems by simp
    have t: "sorted (ranks (contents (ts ! n)))" using InnerNode.IH [OF nth_mem [OF n]] InnerNode.prems n by auto
    have "keyrank (fst e) \<le> keyrank (fst e')" if e: "e \<in> set (concat (map contents (take n ts)))" "e' \<in> set (contents (ts ! n))" for e e'
    proof -
      obtain t where "t \<in> set (take n ts)" "e \<in> set (contents t)" using e(1) by auto
      then obtain j where j: "j < n" "e \<in> set (contents (ts ! j))" using in_set_conv_nth [of t "take n ts"] by auto
      have "j < length ks" using j n fenced_length [OF o(1)] by simp
      from fencedD(1) [OF o(1) this _ j(2)] fencedD(2) [OF o(1) this n e(2)] j(1) n show ?thesis by simp
    qed
    then show ?case
      using Suc.IH Suc.prems t n by (auto simp: take_Suc_conv_app_nth ranks_def sorted_append)
  qed (simp add: ranks_def)
  from this [of "length ts"] have "sorted (ranks (contents (InnerNode p ks ts)))" by simp
  moreover have "fst ` set (contents (InnerNode p ks ts)) \<subseteq> keys_of_bits bits" using InnerNode by fastforce
  ultimately show ?case by simp
qed simp

end
