(* ===== verification/IndexInsert.thy ===== *)
theory IndexInsert
  imports IndexOrder
begin

text \<open>
  The pages of the pool as a tree, and insertion into it: \<open>insertInto\<close> returns on every tree, keeps
  its order and its links, and puts the new entry where the specification does; splits go up to a
  new root. A failed pin or allocation is an error, and nothing is said then of the pages of the tree.
\<close>

subsection \<open>The pages that form a tree\<close>

definition pid :: "btree \<Rightarrow> u32" where "pid t = of_nat (root t)"

definition next_after :: "u32 \<Rightarrow> btree list \<Rightarrow> u32" where
  "next_after nxt ts = (case ts of [] \<Rightarrow> nxt | t # _ \<Rightarrow> of_nat (first_leaf t))"

text \<open>\<open>nxt\<close> is the link of the last leaf.\<close>

fun tree_rep :: "(nat \<Rightarrow> page option) \<Rightarrow> u32 \<Rightarrow> u32 \<Rightarrow> btree \<Rightarrow> bool"
  and forest_rep :: "(nat \<Rightarrow> page option) \<Rightarrow> u32 \<Rightarrow> u32 \<Rightarrow> btree list \<Rightarrow> bool" where
  "tree_rep v bits nxt (LeafNode p es) \<longleftrightarrow> (\<exists>m. v p = Some m \<and> node_rep m True bits es \<and> nodeNextLeaf m = nxt)"
| "tree_rep v bits nxt (InnerNode p ks ts) \<longleftrightarrow> length ts = Suc (length ks) \<and>
     (\<exists>m. v p = Some m \<and> node_rep m False bits (zip ks (map pid ts)) \<and> nodeLastChild m = pid (last ts)) \<and>
     forest_rep v bits nxt ts"
| "forest_rep v bits nxt [] \<longleftrightarrow> True"
| "forest_rep v bits nxt (t # ts) \<longleftrightarrow> tree_rep v bits (next_after nxt ts) t \<and> forest_rep v bits nxt ts"

lemma forest_rep_append:
  "forest_rep v bits nxt (xs @ ys) \<longleftrightarrow> forest_rep v bits (next_after nxt ys) xs \<and> forest_rep v bits nxt ys"
proof (induction xs)
  case (Cons x xs)
  have "next_after nxt (xs @ ys) = next_after (next_after nxt ys) xs" by (cases xs) (simp_all add: next_after_def)
  then show ?case using Cons by auto
qed simp

lemma tree_rep_keep:
  "tree_rep v bits nxt t \<Longrightarrow> (\<And>x m. x \<in> set (page_list t) \<Longrightarrow> v x = Some m \<Longrightarrow> v' x = Some m) \<Longrightarrow> tree_rep v' bits nxt t"
  "forest_rep v bits nxt ts \<Longrightarrow> (\<And>x m. x \<in> set (concat (map page_list ts)) \<Longrightarrow> v x = Some m \<Longrightarrow> v' x = Some m) \<Longrightarrow> forest_rep v' bits nxt ts"
  by (induction v bits nxt t and v bits nxt ts rule: tree_rep_forest_rep.induct) auto

lemma root_in_pages [simp]: "root t \<in> set (page_list t)" by (cases t) auto

lemma pid_back: "root t < 2 ^ 31 \<Longrightarrow> sint (pid t) = int (root t)"
  by (simp add: pid_def sint_uint unsigned_of_nat take_bit_nat_eq_self signed_take_bit_int_eq_self)

lemma sint_page: "p < 2 ^ 31 \<Longrightarrow> sint (of_nat p :: u32) = int p"
  by (simp add: sint_uint unsigned_of_nat take_bit_nat_eq_self signed_take_bit_int_eq_self)

lemma forest_rep_nth: "forest_rep v bits nxt ts \<Longrightarrow> i < length ts \<Longrightarrow> tree_rep v bits (next_after nxt (drop (Suc i) ts)) (ts ! i)"
proof (induction ts arbitrary: i)
  case (Cons t ts)
  then show ?case by (cases i) auto
qed simp

subsection \<open>New and split nodes\<close>

lemma newNode_step:
  assumes ok: "store_ok W s" and run: "newNode leaf bits s = (Inr q, t)" and bits: "bits \<in> {0, NODE_TEXT, NODE_FLOAT}"
  shows "store_ok W t" "q \<notin> used_pages s" "used_pages t = insert q (used_pages s)" "held.keeps {} s t"
    "\<exists>m. pool_view t q = Some m \<and> node_rep m leaf bits [] \<and> nodeNextLeaf m = INVALID_PAGE \<and> nodeLastChild m = INVALID_PAGE"
proof -
  obtain s1 i s2 where r: "poolAllocate s = (Inr q, s1)" "poolPin (int q) s1 = (Some i, s2)"
    "t = poolUnpin (int q) True (write_page i (init_node leaf bits) s2)"
    using run by (auto simp: newNode_def andThen_def split: prod.splits sum.splits option.splits)
  note f = held.fresh_page [OF ok r]
  show "store_ok W t" "q \<notin> used_pages s" "used_pages t = insert q (used_pages s)" "held.keeps {} s t" using f by auto
  show "\<exists>m. pool_view t q = Some m \<and> node_rep m leaf bits [] \<and> nodeNextLeaf m = INVALID_PAGE \<and> nodeLastChild m = INVALID_PAGE"
    using f(5) init_node_rep [OF bits] node_rep_usable by fastforce
qed

lemma bits_of_rep: "node_rep m leaf bits es \<Longrightarrow> bits \<in> {0, NODE_TEXT, NODE_FLOAT}"
  by (simp add: node_rep_def)

lemma splitLeaf_step:
  assumes ok: "store_ok {i} s" and home: "home_frame s p i" and rep: "node_rep (frame_page i s) True bits es"
    and full: "length es = node_room bits" and run: "splitLeaf i s = (Inr x, t)"
  obtains q m1 m2 where "x = Some (fst (es ! (length es div 2)), q)" "store_ok {i} t" "home_frame t p i"
    "q \<notin> used_pages s" "used_pages t = insert q (used_pages s)" "held.keeps {p} s t"
    "pool_view t p = Some m1" "node_rep m1 True bits (take (length es div 2) es)" "nodeNextLeaf m1 = of_nat q"
    "pool_view t q = Some m2" "node_rep m2 True bits (drop (length es div 2) es)" "nodeNextLeaf m2 = nodeNextLeaf (frame_page i s)"
proof -
  note r = node_repD [OF rep]
  let ?h = "length es div 2"
  obtain q s1 j s2 where new: "newNode True bits s = (Inr q, s1)" and pin: "poolPin (int q) s1 = (Some j, s2)"
    using run r(7) by (auto simp: splitLeaf_def andThen_def split: prod.splits sum.splits option.splits)
  note n = newNode_step [OF ok new r(1)]
  obtain m0 where m0: "pool_view s1 q = Some m0" "node_rep m0 True bits []" using n(5) by blast
  have home1: "home_frame s1 p i" and page1: "usable (frame_page i s1) = usable (frame_page i s)"
    using held.held_through [OF n(4) home] by auto
  have qp: "q \<in> used_pages s1" "q \<noteq> p" using n(2,3) held.home_look [OF ok home] by auto
  define page moved where "page = frame_page i s2" and "moved = length es - ?h"
  define f where "f = (\<lambda>right. setNodeNextLeaf (nodeNextLeaf page) (setNodeKeys (int moved) (copy_entries moved page ?h right)))"
  define g where "g = (\<lambda>page. setNodeNextLeaf (of_nat q) (setNodeKeys (int ?h) page))"
  have page: "node_rep page True bits es" "nodeNextLeaf page = nodeNextLeaf (frame_page i s)"
  proof -
    have "usable page = usable (frame_page i s)"
      using held.written_pair(5) [OF n(1) home1 qp pin refl] page1 by (simp add: page_def)
    then show "node_rep page True bits es" using node_rep_usable [OF rep] node_rep_unusable by metis
    show "nodeNextLeaf page = nodeNextLeaf (frame_page i s)" using links_usable \<open>usable page = _\<close> by metis
  qed
  note rp = node_repD [OF page(1)]
  have half: "nodeOrder page div 2 = ?h" "nodeKeys page - int ?h = int moved" using full rp(3,9) by (simp_all add: of_nat_diff moved_def)
  have result: "x = Some (readKey (frame_page j (write_page i g (write_page j f s2))) 0, q)"
    "t = poolUnpin (int q) True (write_page i g (write_page j f s2))"
    using run unfolding splitLeaf_def r(7) new andThen_simps pin prod.case option.case Let_def
    by (simp_all add: page_def [symmetric] half f_def g_def)
  note w = held.written_pair [OF n(1) home1 qp pin result(2)]
  have fresh: "node_rep (frame_page j s2) True bits []" using w(7) [OF m0(1)] m0(2) node_rep_unusable by simp
  have up: "node_rep (f (frame_page j s2)) True bits (drop ?h es)" "nodeNextLeaf (f (frame_page j s2)) = nodeNextLeaf page"
  proof -
    have "node_rep (setNodeKeys (int moved) (copy_entries moved page ?h (frame_page j s2))) True bits (drop ?h es)"
      using upper_half_rep(1) [OF page(1) fresh, of ?h moved] by (simp add: moved_def)
    then show "node_rep (f (frame_page j s2)) True bits (drop ?h es)" unfolding f_def by (rule set_links_rep)
    show "nodeNextLeaf (f (frame_page j s2)) = nodeNextLeaf page" by (simp add: f_def set_header_other)
  qed
  have low: "node_rep (g page) True bits (take ?h es)" "nodeNextLeaf (g page) = of_nat q"
    using set_links_rep(1) [OF lower_half_rep [OF page(1), of ?h]] by (simp_all add: g_def set_header_other)
  have "157 \<le> node_room bits" using node_room_small [OF r(1)] by simp
  then have "?h < length es" using full by simp
  then have "readKey (f (frame_page j s2)) 0 = fst (es ! ?h)" using node_repD(10) [OF up(1), of 0] by simp
  then have x: "x = Some (fst (es ! ?h), q)" using result(1) w(10) by simp
  show thesis
  proof (rule that [OF x w(1,2) n(2)])
    show "used_pages t = insert q (used_pages s)" using w(3) n(3) by simp
    have none: "\<not> home_frame s q k" for k using held.home_look [OF ok, of q k] n(2) by blast
    have "held.keeps {p, q} s t" using held.keeps_trans [OF held.keeps_mono [OF n(4)] w(4)] by simp
    then show "held.keeps {p} s t" by (rule held.keeps_unused) (use n(2) none in auto)
    show "pool_view t p = Some (usable (g page))" using w(8) by (simp add: page_def)
    show "node_rep (usable (g page)) True bits (take ?h es)" by (rule node_rep_usable [OF low(1)])
    show "nodeNextLeaf (usable (g page)) = of_nat q" using low(2) by simp
    show "pool_view t q = Some (usable (f (frame_page j s2)))" using w(9) .
    show "node_rep (usable (f (frame_page j s2))) True bits (drop ?h es)" by (rule node_rep_usable [OF up(1)])
    show "nodeNextLeaf (usable (f (frame_page j s2))) = nodeNextLeaf (frame_page i s)" using up(2) page(2) by simp
  qed
qed


lemma splitInternal_step:
  assumes ok: "store_ok {i} s" and home: "home_frame s p i" and rep: "node_rep (frame_page i s) False bits es"
    and full: "length es = node_room bits" and run: "splitInternal i s = (Inr x, t)"
  obtains q m1 m2 where "x = Some (fst (es ! (length es div 2)), q)" "store_ok {i} t" "home_frame t p i"
    "q \<notin> used_pages s" "used_pages t = insert q (used_pages s)" "held.keeps {p} s t"
    "pool_view t p = Some m1" "node_rep m1 False bits (take (length es div 2) es)" "nodeLastChild m1 = snd (es ! (length es div 2))"
    "pool_view t q = Some m2" "node_rep m2 False bits (drop (Suc (length es div 2)) es)"
    "nodeLastChild m2 = nodeLastChild (frame_page i s)"
proof -
  note r = node_repD [OF rep]
  let ?h = "length es div 2"
  obtain q s1 j s2 where new: "newNode False bits s = (Inr q, s1)" and pin: "poolPin (int q) s1 = (Some j, s2)"
    using run r(7) by (auto simp: splitInternal_def andThen_def split: prod.splits sum.splits option.splits)
  note n = newNode_step [OF ok new r(1)]
  obtain m0 where m0: "pool_view s1 q = Some m0" "node_rep m0 False bits []" using n(5) by blast
  have home1: "home_frame s1 p i" and page1: "usable (frame_page i s1) = usable (frame_page i s)"
    using held.held_through [OF n(4) home] by auto
  have qp: "q \<in> used_pages s1" "q \<noteq> p" using n(2,3) held.home_look [OF ok home] by auto
  define page moved where "page = frame_page i s2" and "moved = length es - ?h - 1"
  define f where "f = (\<lambda>right. setNodeLastChild (nodeLastChild page) (setNodeKeys (int moved) (copy_entries moved page (?h + 1) right)))"
  define g where "g = (\<lambda>m. setNodeKeys (int ?h) (setNodeLastChild (entryPayload m ?h) m))"
  have page: "node_rep page False bits es" "nodeLastChild page = nodeLastChild (frame_page i s)"
  proof -
    have "usable page = usable (frame_page i s)"
      using held.written_pair(5) [OF n(1) home1 qp pin refl] page1 by (simp add: page_def)
    then show "node_rep page False bits es" using node_rep_usable [OF rep] node_rep_unusable by metis
    show "nodeLastChild page = nodeLastChild (frame_page i s)" using links_usable \<open>usable page = _\<close> by metis
  qed
  note rp = node_repD [OF page(1)]
  have "157 \<le> node_room bits" using node_room_small [OF r(1)] by simp
  then have half: "?h < length es" using full by simp
  have keys: "nat (nodeKeys page) = length es" using rp(3) by simp
  have result: "x = Some (readKey page ?h, q)"
    "t = poolUnpin (int q) True (write_page i g (write_page j f s2))"
    using run unfolding splitInternal_def r(7) new andThen_simps pin prod.case option.case Let_def
    by (simp_all add: page_def [symmetric] keys moved_def f_def g_def)
  note w = held.written_pair [OF n(1) home1 qp pin result(2)]
  have fresh: "node_rep (frame_page j s2) False bits []" using w(7) [OF m0(1)] m0(2) node_rep_unusable by simp
  have up: "node_rep (f (frame_page j s2)) False bits (drop (Suc ?h) es)" "nodeLastChild (f (frame_page j s2)) = nodeLastChild page"
  proof -
    have "node_rep (setNodeKeys (int moved) (copy_entries moved page (?h + 1) (frame_page j s2))) False bits (drop (Suc ?h) es)"
      using upper_half_rep(1) [OF page(1) fresh, of "?h + 1" moved] half by (simp add: moved_def)
    then show "node_rep (f (frame_page j s2)) False bits (drop (Suc ?h) es)" unfolding f_def by (rule set_links_rep)
    show "nodeLastChild (f (frame_page j s2)) = nodeLastChild page" by (simp add: f_def set_header_other)
  qed
  have low: "node_rep (g page) False bits (take ?h es)" "nodeLastChild (g page) = snd (es ! ?h)"
    using lower_half_rep [OF set_links_rep(2) [OF page(1)], of ?h] rp(11) [OF half] by (simp_all add: g_def set_header_other)
  have x: "x = Some (fst (es ! ?h), q)" using result(1) rp(10) [OF half] by simp
  show thesis
  proof (rule that [OF x w(1,2) n(2)])
    show "used_pages t = insert q (used_pages s)" using w(3) n(3) by simp
    have none: "\<not> home_frame s q k" for k using held.home_look [OF ok, of q k] n(2) by blast
    have "held.keeps {p, q} s t" using held.keeps_trans [OF held.keeps_mono [OF n(4)] w(4)] by simp
    then show "held.keeps {p} s t" by (rule held.keeps_unused) (use n(2) none in auto)
    show "pool_view t p = Some (usable (g page))" using w(8) by (simp add: page_def)
    show "node_rep (usable (g page)) False bits (take ?h es)" by (rule node_rep_usable [OF low(1)])
    show "nodeLastChild (usable (g page)) = snd (es ! ?h)" using low(2) by simp
    show "pool_view t q = Some (usable (f (frame_page j s2)))" using w(9) .
    show "node_rep (usable (f (frame_page j s2))) False bits (drop (Suc ?h) es)" by (rule node_rep_usable [OF up(1)])
    show "nodeLastChild (usable (f (frame_page j s2))) = nodeLastChild (frame_page i s)" using up(2) page(2) by simp
  qed
qed


subsection \<open>What an insertion leaves\<close>

text \<open>
  The tree or the two trees that stand where the old one did: their pages are its pages and new ones,
  their entries the old ones with the new, their first leaf and the first root are the old ones.
\<close>

definition pages_of :: "btree list \<Rightarrow> nat list" where "pages_of ts = concat (map page_list ts)"

definition outcome :: "u32 \<Rightarrow> u32 \<Rightarrow> btree \<Rightarrow> storedkey \<Rightarrow> u32 \<Rightarrow> pool \<Rightarrow> btree list \<Rightarrow> pool \<Rightarrow> bool" where
  "outcome bits nxt t k w s rs s' \<longleftrightarrow>
     store_ok {} s' \<and> held.keeps (set (page_list t)) s s' \<and> forest_rep (pool_view s') bits nxt rs \<and>
     (\<forall>r \<in> set rs. ordered bits r \<and> roomy bits r \<and> contents r \<noteq> []) \<and>
     concat (map contents rs) = ins k w (contents t) \<and> distinct (pages_of rs) \<and>
     set (pages_of rs) \<subseteq> set (page_list t) \<union> (used_pages s' - used_pages s) \<and> set (pages_of rs) \<subseteq> used_pages s' \<and>
     rs \<noteq> [] \<and> root (hd rs) = root t \<and> first_leaf (hd rs) = first_leaf t"

definition parted :: "u32 \<Rightarrow> (storedkey \<times> nat) option \<Rightarrow> btree list \<Rightarrow> bool" where
  "parted bits x rs \<longleftrightarrow>
     (case x of None \<Rightarrow> length rs = 1
      | Some (sep, q) \<Rightarrow> \<exists>c d. rs = [c, d] \<and> root d = q \<and> sep \<in> keys_of_bits bits \<and>
          (\<forall>e \<in> set (contents c). keyrank (fst e) \<le> keyrank sep) \<and> (\<forall>e \<in> set (contents d). keyrank sep \<le> keyrank (fst e)))"

lemma lowerBound_rank:
  assumes "node_rep m leaf bits es" "sorted (ranks es)" "k \<in> keys_of_bits bits"
  shows "lowerBound m k = length (takeWhile (\<lambda>e. keyrank (fst e) < keyrank k) es)"
proof -
  note r = node_repD [OF assms(1)]
  have "sorted_by compareKeys (map fst es)"
    using sorted_ranks [of "map fst es" bits] assms(2) r(5) by (simp add: ranks_def)
  from lowerBound_spec [OF assms(1) this assms(3)]
  have "lowerBound m k = length (takeWhile (\<lambda>e. compareKeys (fst e) k < 0) es)" .
  also have "takeWhile (\<lambda>e. compareKeys (fst e) k < 0) es = takeWhile (\<lambda>e. keyrank (fst e) < keyrank k) es"
    by (rule takeWhile_cong [OF refl]) (use keyrank_less assms(3) r(5) in blast)
  finally show ?thesis .
qed

lemma leaf_outcome:
  assumes ok: "store_ok {} s" and rep: "tree_rep (pool_view s) bits nxt (LeafNode p es)" and ord: "ordered bits (LeafNode p es)"
    and room: "roomy bits (LeafNode p es)" and p: "p \<in> used_pages s" and k: "k \<in> keys_of_bits bits"
    and pin: "poolPin (int p) s = (Some i, s1)" and run: "insertIntoLeaf i k w s1 = (Inr x, s2)"
    and t: "s3 = poolUnpin (int p) True s2"
  shows "\<exists>rs. outcome bits nxt (LeafNode p es) k w s rs s3 \<and> parted bits x rs"
proof -
  obtain m where m: "pool_view s p = Some m" "node_rep m True bits es" "nodeNextLeaf m = nxt" using rep by auto
  note a = held.pin_step [OF ok p pin]
  have usable: "usable (frame_page i s1) = m" by (rule a(6) [OF m(1)])
  have page: "node_rep (frame_page i s1) True bits es" "nodeNextLeaf (frame_page i s1) = nxt"
    using m usable node_rep_unusable by auto
  note r = node_repD [OF page(1)]
  define at where "at = lowerBound (frame_page i s1) k"
  have at: "at = length (takeWhile (\<lambda>e. keyrank (fst e) < keyrank k) es)" unfolding at_def
    by (rule lowerBound_rank [OF page(1) _ k]) (use ord in simp)
  have atl: "at \<le> length es" by (simp add: at length_takeWhile_le)
  have ins: "ins k w es = take at es @ (k, w) # drop at es" by (rule ins_take [OF at])
  define s' where "s' = write_page i (insert_entry at k w) s1"
  note b = held.poke_step [OF a(1,2), of "insert_entry at k w", folded s'_def]
  have ent: "node_rep (frame_page i s') True bits (ins k w es)" "nodeNextLeaf (frame_page i s') = nxt"
    using insert_entry_rep [OF page(1) atl _ k, of w] room page(2) by (simp_all add: b(5) ins)
  have len: "length (ins k w es) = length es + 1" using atl by (simp add: ins)
  have ordered: "sorted (ranks (ins k w es))" "fst ` set (ins k w es) \<subseteq> keys_of_bits bits"
    using ord sorted_ins k by auto
  have run': "(if length (ins k w es) = node_room bits then splitLeaf i s' else (Inr None, s')) = (Inr x, s2)"
  proof -
    have "int (length es) + 1 = int (node_room bits) \<longleftrightarrow> length (ins k w es) = node_room bits" unfolding len by linarith
    then show ?thesis using run unfolding insertIntoLeaf_def Let_def at_def [symmetric] s'_def [symmetric] r(3,9) by simp
  qed
  have keeps1: "held.keeps {p} s s'" using held.keeps_trans [OF held.keeps_mono [OF a(4)] b(6)] by simp
  show ?thesis
  proof (cases "length (ins k w es) = node_room bits")
    case False
    then have x: "x = None" "s2 = s'" using run' by auto
    have ok': "store_ok {i} s'" using b(1) by simp
    note u = held.unpin_step [OF ok' b(4), of True, simplified, folded t [unfolded x(2)]]
    have p3: "p \<in> used_pages s3" using u(3) b(3) a(3) p by simp
    have "outcome bits nxt (LeafNode p es) k w s [LeafNode p (ins k w es)] s3"
      unfolding outcome_def
    proof (intro conjI)
      show "held.keeps (set (page_list (LeafNode p es))) s s3" using held.keeps_trans [OF keeps1 u(4)] by simp
      have "pool_view s3 p = Some (usable (frame_page i s'))" using u(2) b(2,5) by simp
      then show "forest_rep (pool_view s3) bits nxt [LeafNode p (ins k w es)]"
        using ent node_rep_usable by (simp add: next_after_def)
    qed (use u(1) ordered False len room p3 in \<open>simp_all add: pages_of_def\<close>)
    then show ?thesis using x(1) by (intro exI [of _ "[LeafNode p (ins k w es)]"]) (simp add: parted_def)
  next
    case True
    then have "splitLeaf i s' = (Inr x, s2)" using run' by simp
    moreover have "store_ok {i} s'" using b(1) by simp
    ultimately obtain q m1 m2 where sp: "x = Some (fst (ins k w es ! (length (ins k w es) div 2)), q)" "store_ok {i} s2" "home_frame s2 p i"
      "q \<notin> used_pages s'" "used_pages s2 = insert q (used_pages s')" "held.keeps {p} s' s2"
      "pool_view s2 p = Some m1" "node_rep m1 True bits (take (length (ins k w es) div 2) (ins k w es))" "nodeNextLeaf m1 = of_nat q"
      "pool_view s2 q = Some m2" "node_rep m2 True bits (drop (length (ins k w es) div 2) (ins k w es))" "nodeNextLeaf m2 = nxt"
      using splitLeaf_step [OF _ b(4) ent(1) True] ent(2) by metis
    define h where "h = length (ins k w es) div 2"
    have h: "0 < h" "h < length (ins k w es)" using True node_room_small [OF r(1)] by (auto simp: h_def)
    note u = held.unpin_step [OF sp(2,3), of True, simplified, folded t]
    have used: "used_pages s3 = insert q (used_pages s)" "q \<notin> used_pages s" using u(3) sp(4,5) b(3) a(3) by auto
    have pq: "p \<noteq> q" using used p by auto
    let ?c = "LeafNode p (take h (ins k w es))" and ?d = "LeafNode q (drop h (ins k w es))"
    have rank_split: "sorted (ranks (take h (ins k w es)))" "sorted (ranks (drop h (ins k w es)))"
      using ordered(1) by (simp_all add: ranks_def take_map [symmetric] drop_map [symmetric] sorted_wrt_take sorted_wrt_drop)
    have sub: "fst ` set (take h (ins k w es)) \<subseteq> keys_of_bits bits" "fst ` set (drop h (ins k w es)) \<subseteq> keys_of_bits bits"
      using ordered(2) image_mono [OF set_take_subset [of h "ins k w es"], of fst] image_mono [OF set_drop_subset [of h "ins k w es"], of fst]
      by blast+
    have "outcome bits nxt (LeafNode p es) k w s [?c, ?d] s3"
      unfolding outcome_def
    proof (intro conjI)
      show "held.keeps (set (page_list (LeafNode p es))) s s3"
        using held.keeps_trans [OF held.keeps_trans [OF keeps1 sp(6)] u(4)] by simp
      show "forest_rep (pool_view s3) bits nxt [?c, ?d]"
        using sp(7-12) pq by (simp add: u(2) next_after_def h_def)
      show "\<forall>r \<in> set [?c, ?d]. ordered bits r \<and> roomy bits r \<and> contents r \<noteq> []"
        using rank_split sub h True by simp
    qed (use u(1) pq p used in \<open>auto simp: pages_of_def\<close>)
    moreover have "parted bits x [?c, ?d]"
    proof -
      have le: "keyrank (fst (ins k w es ! a)) \<le> keyrank (fst (ins k w es ! b))" if "a \<le> b" "b < length (ins k w es)" for a b
        using sorted_nth_mono [OF ordered(1) that(1)] that by (simp add: ranks_def)
      have "fst (ins k w es ! h) \<in> keys_of_bits bits" using ordered(2) nth_mem [OF h(2)] by blast
      moreover have "keyrank (fst e) \<le> keyrank (fst (ins k w es ! h))" if "e \<in> set (take h (ins k w es))" for e
        using that le [of _ h] h by (fastforce simp: in_set_conv_nth [of e])
      moreover have "keyrank (fst (ins k w es ! h)) \<le> keyrank (fst e)" if "e \<in> set (drop h (ins k w es))" for e
        using that le [of h "h + _"] by (fastforce simp: in_set_conv_nth [of e])
      ultimately show ?thesis using sp(1) by (simp add: parted_def h_def)
    qed
    ultimately show ?thesis by blast
  qed
qed


subsection \<open>Insertion below a node\<close>

lemma hang_zip:
  assumes "length ts = Suc (length ks)" "at \<le> length ks" "with_split at sep c d ks ts = (ks', ts')" "pid c = pid (ts ! at)"
  shows "take at (zip ks (map pid ts)) @ (sep, pid (ts ! at)) # set_payload (pid d) (drop at (zip ks (map pid ts))) = zip ks' (map pid ts')"
    "pid (last ts') = (if at = length ks then pid d else pid (last ts))"
proof -
  have new: "ks' = take at ks @ sep # drop at ks" "ts' = take at ts @ c # d # drop (Suc at) ts" using assms(3) by (simp_all add: with_split_def)
  have "set_payload (pid d) (drop at (zip ks (map pid ts))) = zip (drop at ks) (pid d # map pid (drop (Suc at) ts))"
  proof (cases "drop at ks")
    case (Cons s rest)
    have "drop at ts = ts ! at # drop (Suc at) ts" using assms(1,2) by (simp add: Cons_nth_drop_Suc)
    then show ?thesis using Cons by (simp add: drop_zip drop_map)
  qed (simp add: drop_zip)
  moreover have "zip ks' (map pid ts') = zip (take at ks) (map pid (take at ts)) @ zip (sep # drop at ks) (map pid (c # d # drop (Suc at) ts))"
    using assms(1,2) by (simp add: new zip_append)
  ultimately show "take at (zip ks (map pid ts)) @ (sep, pid (ts ! at)) # set_payload (pid d) (drop at (zip ks (map pid ts))) = zip ks' (map pid ts')"
    using assms(4) by (simp add: take_zip take_map)
  show "pid (last ts') = (if at = length ks then pid d else pid (last ts))"
    using assms(1,2) by (auto simp: new last_drop)
qed

lemma next_after_append: "ys \<noteq> [] \<Longrightarrow> next_after nxt (ys @ zs) = of_nat (first_leaf (hd ys))"
  by (cases ys) (simp_all add: next_after_def)

lemma forest_replace:
  assumes rep: "forest_rep v bits nxt ts" and at: "at < length ts"
    and new: "forest_rep v' bits (next_after nxt (drop (Suc at) ts)) rs" "rs \<noteq> []" "first_leaf (hd rs) = first_leaf (ts ! at)"
    and keep: "\<And>x m. x \<in> set (pages_of (take at ts)) \<union> set (pages_of (drop (Suc at) ts)) \<Longrightarrow> v x = Some m \<Longrightarrow> v' x = Some m"
  shows "forest_rep v' bits nxt (take at ts @ rs @ drop (Suc at) ts)"
proof -
  have ts: "ts = take at ts @ ts ! at # drop (Suc at) ts" by (rule split_children [OF at])
  have "forest_rep v bits nxt (take at ts @ ts ! at # drop (Suc at) ts)" using rep ts by simp
  then have old: "forest_rep v bits (of_nat (first_leaf (ts ! at))) (take at ts)" "forest_rep v bits nxt (drop (Suc at) ts)"
    by (simp_all add: forest_rep_append next_after_def)
  have "forest_rep v' bits (of_nat (first_leaf (ts ! at))) (take at ts)"
    by (rule tree_rep_keep(2) [OF old(1)]) (use keep in \<open>simp add: pages_of_def\<close>)
  moreover have "forest_rep v' bits nxt (drop (Suc at) ts)"
    by (rule tree_rep_keep(2) [OF old(2)]) (use keep in \<open>simp add: pages_of_def\<close>)
  ultimately show ?thesis using new by (simp add: forest_rep_append next_after_append)
qed

lemma first_leaf_hd: "ts \<noteq> [] \<Longrightarrow> first_leaf (InnerNode p ks ts) = first_leaf (hd ts)" by (cases ts) auto

lemma first_leaf_replaced:
  assumes "at < length ts" "rs \<noteq> []" "first_leaf (hd rs) = first_leaf (ts ! at)"
  shows "first_leaf (InnerNode p ks' (take at ts @ rs @ drop (Suc at) ts)) = first_leaf (InnerNode q ks ts)"
proof -
  have "ts \<noteq> []" using assms(1) by auto
  then have "first_leaf (InnerNode q ks ts) = first_leaf (hd ts)" "hd ts = ts ! 0" by (simp_all add: first_leaf_hd hd_conv_nth)
  moreover have "first_leaf (hd (take at ts @ rs @ drop (Suc at) ts)) = first_leaf (ts ! 0)"
    using assms by (cases at) (auto simp: hd_append hd_conv_nth)
  ultimately show ?thesis using assms(2) by (simp add: first_leaf_hd)
qed

text \<open>The pages of a node whose child was replaced: distinct still, and old ones or new ones.\<close>

lemma pages_replaced:
  assumes dist: "distinct (page_list (InnerNode p ks ts))" and at: "at < length ts" and rs: "distinct (pages_of rs)"
    and sub: "set (pages_of rs) \<subseteq> set (page_list (ts ! at)) \<union> N" and new: "N \<inter> set (page_list (InnerNode p ks ts)) = {}"
  shows "distinct (p # pages_of (take at ts @ rs @ drop (Suc at) ts))"
    "set (p # pages_of (take at ts @ rs @ drop (Suc at) ts)) \<subseteq> set (page_list (InnerNode p ks ts)) \<union> N"
    "x \<in> set (pages_of (take at ts)) \<union> set (pages_of (drop (Suc at) ts)) \<Longrightarrow> x \<notin> set (page_list (ts ! at))"
    "p \<notin> set (page_list (ts ! at))" "p \<notin> set (pages_of rs)"
proof -
  have ts: "pages_of ts = pages_of (take at ts) @ page_list (ts ! at) @ pages_of (drop (Suc at) ts)"
    using arg_cong [OF split_children [OF at], of pages_of] by (simp add: pages_of_def)
  have pl: "page_list (InnerNode p ks ts) = p # pages_of ts" by (simp add: pages_of_def)
  have app: "pages_of (take at ts @ rs @ drop (Suc at) ts) = pages_of (take at ts) @ pages_of rs @ pages_of (drop (Suc at) ts)"
    by (simp add: pages_of_def)
  note d = dist [unfolded pl ts] and n = new [unfolded pl ts]
  show "distinct (p # pages_of (take at ts @ rs @ drop (Suc at) ts))"
    using d n rs sub unfolding app distinct.simps distinct_append set_append list.set by blast
  show "set (p # pages_of (take at ts @ rs @ drop (Suc at) ts)) \<subseteq> set (page_list (InnerNode p ks ts)) \<union> N"
    using sub unfolding app pl ts set_append list.set by blast
  show "x \<in> set (pages_of (take at ts)) \<union> set (pages_of (drop (Suc at) ts)) \<Longrightarrow> x \<notin> set (page_list (ts ! at))"
    "p \<notin> set (page_list (ts ! at))" "p \<notin> set (pages_of rs)" using d n sub by auto
qed


text \<open>After the recursive call, with the node still pinned: the children in place, the node untouched.\<close>

lemma below_node:
  assumes ok: "store_ok {} s" and rep: "tree_rep (pool_view s) bits nxt (InnerNode p ks ts)"
    and dist: "distinct (page_list (InnerNode p ks ts))" and used: "set (page_list (InnerNode p ks ts)) \<subseteq> used_pages s"
    and pin: "poolPin (int p) s = (Some i, s1)" and at: "at < length ts"
    and out: "outcome bits (next_after nxt (drop (Suc at) ts)) (ts ! at) k w s1 rs s2"
    and ts': "ts' = take at ts @ rs @ drop (Suc at) ts"
  shows "store_ok {} s2" "home_frame s2 p i" "node_rep (frame_page i s2) False bits (zip ks (map pid ts))"
    "nodeLastChild (frame_page i s2) = pid (last ts)" "forest_rep (pool_view s2) bits nxt ts'" "distinct (p # pages_of ts')"
    "set (p # pages_of ts') \<subseteq> set (page_list (InnerNode p ks ts)) \<union> (used_pages s2 - used_pages s)"
    "set (p # pages_of ts') \<subseteq> used_pages s2" "held.keeps (set (page_list (InnerNode p ks ts))) s s2"
    "first_leaf (InnerNode q ks' ts') = first_leaf (InnerNode p ks ts)"
proof -
  note o = out [unfolded outcome_def]
  have p: "p \<in> used_pages s" using used by simp
  note a = held.pin_step [OF ok p pin]
  have child: "set (page_list (ts ! at)) \<subseteq> set (page_list (InnerNode p ks ts))" using at by (fastforce simp: in_set_conv_nth)
  have new: "(used_pages s2 - used_pages s1) \<inter> set (page_list (InnerNode p ks ts)) = {}" using used a(3) by auto
  have rs: "distinct (pages_of rs)" "set (pages_of rs) \<subseteq> set (page_list (ts ! at)) \<union> (used_pages s2 - used_pages s1)"
    "rs \<noteq> []" "first_leaf (hd rs) = first_leaf (ts ! at)" using o by auto
  note pr = pages_replaced [OF dist at rs(1,2) new]
  have k12: "held.keeps (set (page_list (ts ! at))) s1 s2" using o by blast
  show "store_ok {} s2" using o by blast
  have h2: "home_frame s2 p i" "usable (frame_page i s2) = usable (frame_page i s1)"
    using held.held_through [OF k12 a(2) pr(4)] by auto
  show "home_frame s2 p i" by (rule h2(1))
  obtain m where m: "pool_view s p = Some m" "node_rep m False bits (zip ks (map pid ts))" "nodeLastChild m = pid (last ts)"
    using rep by auto
  have "usable (frame_page i s2) = m" using h2(2) a(6) [OF m(1)] by simp
  then show "node_rep (frame_page i s2) False bits (zip ks (map pid ts))" "nodeLastChild (frame_page i s2) = pid (last ts)"
    using m node_rep_unusable by auto
  show keeps: "held.keeps (set (page_list (InnerNode p ks ts))) s s2"
    using held.keeps_trans [OF held.keeps_mono [OF a(4)] held.keeps_mono [OF k12 child]] by simp
  have fr: "forest_rep (pool_view s) bits nxt ts" using rep by simp
  show "forest_rep (pool_view s2) bits nxt ts'" unfolding ts'
  proof (rule forest_replace [OF fr at _ rs(3,4)])
    show "forest_rep (pool_view s2) bits (next_after nxt (drop (Suc at) ts)) rs" using o by blast
    fix x v assume x: "x \<in> set (pages_of (take at ts)) \<union> set (pages_of (drop (Suc at) ts))" "pool_view s x = Some v"
    have "x \<in> set (page_list (InnerNode p ks ts))"
      using x(1) by (auto simp: pages_of_def dest: in_set_takeD in_set_dropD)
    then have "x \<in> used_pages s" using used by blast
    then have "pool_view s1 x = Some v" "x \<in> used_pages s1" using held.view_through [OF a(4) _ _ x(2)] a(3) by auto
    then show "pool_view s2 x = Some v" using held.view_through [OF k12] pr(3) [OF x(1)] by simp
  qed
  show "distinct (p # pages_of ts')" unfolding ts' by (rule pr(1))
  show "set (p # pages_of ts') \<subseteq> set (page_list (InnerNode p ks ts)) \<union> (used_pages s2 - used_pages s)"
    unfolding ts' using pr(2) a(3) by simp
  show "set (p # pages_of ts') \<subseteq> used_pages s2"
    using pr(2) used held.used_through [OF keeps] unfolding ts' by blast
  show "first_leaf (InnerNode q ks' ts') = first_leaf (InnerNode p ks ts)"
    unfolding ts' by (rule first_leaf_replaced [OF at rs(3,4)])
qed

lemma pages_Inner [simp]: "page_list (InnerNode p ks ts) = p # pages_of ts" by (simp add: pages_of_def)

lemma child_kept:
  assumes ok: "store_ok {} s" and rep: "tree_rep (pool_view s) bits nxt (InnerNode p ks ts)" and ord: "ordered bits (InnerNode p ks ts)"
    and room: "roomy bits (InnerNode p ks ts)"
    and dist: "distinct (page_list (InnerNode p ks ts))" and used: "set (page_list (InnerNode p ks ts)) \<subseteq> used_pages s"
    and pin: "poolPin (int p) s = (Some i, s1)" and at: "at = slot_for k ks" and k: "k \<in> keys_of_bits bits"
    and out: "outcome bits (next_after nxt (drop (Suc at) ts)) (ts ! at) k w s1 [c] s2"
    and t: "s3 = poolUnpin (int p) False s2"
  shows "outcome bits nxt (InnerNode p ks ts) k w s [InnerNode p ks (ts[at := c])] s3"
proof -
  have atl: "at < length ts" using slot_for_le [of k ks] rep at by simp
  have ts': "ts[at := c] = take at ts @ [c] @ drop (Suc at) ts" using upd_conv_take_nth_drop [OF atl] by simp
  note b = below_node [OF ok rep dist used pin atl out ts']
  have oc: "ordered bits c" "roomy bits c" "contents c = ins k w (contents (ts ! at))" "root c = root (ts ! at)"
    using out by (auto simp: outcome_def)
  note r = ordered_replace [OF ord at oc(1,3)]
  note u = held.unpin_step [OF b(1,2), of False, simplified, folded t]
  have same: "map pid (ts[at := c]) = map pid ts" "pid (last (ts[at := c])) = pid (last ts)"
  proof -
    have "pid c = map pid ts ! at" using oc(4) atl by (simp add: pid_def)
    then show e: "map pid (ts[at := c]) = map pid ts" by (simp add: map_update list_update_id)
    have "ts \<noteq> []" using atl by auto
    then show "pid (last (ts[at := c])) = pid (last ts)" using arg_cong [OF e, of last] by (simp add: last_map)
  qed
  show ?thesis
    unfolding outcome_def
  proof (intro conjI)
    show "store_ok {} s3" using u(1) by simp
    have "set [p] \<subseteq> set (page_list (InnerNode p ks ts))" by simp
    then show "held.keeps (set (page_list (InnerNode p ks ts))) s s3"
      using held.keeps_trans [OF b(9) held.keeps_mono [OF u(4)]] by simp
    have "pool_view s3 p = Some (usable (frame_page i s2))" using held.home_look [OF b(1,2)] u(2) by simp
    moreover have "node_rep (usable (frame_page i s2)) False bits (zip ks (map pid (ts[at := c])))"
      unfolding same by (rule node_rep_usable [OF b(3)])
    moreover have "nodeLastChild (usable (frame_page i s2)) = pid (last (ts[at := c]))" using b(4) same by simp
    ultimately show "forest_rep (pool_view s3) bits nxt [InnerNode p ks (ts[at := c])]"
      using rep b(5) u(2) by (simp add: next_after_def)
    have "\<forall>t \<in> set (ts[at := c]). roomy bits t" using room oc(2) set_update_subset_insert [of ts at c] by auto
    then show "\<forall>r \<in> set [InnerNode p ks (ts[at := c])]. ordered bits r \<and> roomy bits r \<and> contents r \<noteq> []"
      using r room by simp
    show "concat (map contents [InnerNode p ks (ts[at := c])]) = ins k w (contents (InnerNode p ks ts))" using r(2) by simp
    show "distinct (pages_of [InnerNode p ks (ts[at := c])])" using b(6) by (simp add: pages_of_def)
    show "set (pages_of [InnerNode p ks (ts[at := c])]) \<subseteq> set (page_list (InnerNode p ks ts)) \<union> (used_pages s3 - used_pages s)"
      using b(7) u(3) by (simp add: pages_of_def)
    show "set (pages_of [InnerNode p ks (ts[at := c])]) \<subseteq> used_pages s3" using b(8) u(3) by (simp add: pages_of_def)
    show "first_leaf (hd [InnerNode p ks (ts[at := c])]) = first_leaf (InnerNode p ks ts)" using b(10) by simp
  qed simp_all
qed


lemma zip_take_Suc: "length ts = Suc (length ks) \<Longrightarrow> h < length ks \<Longrightarrow>
    zip (take h ks) (map f (take (Suc h) ts)) = take h (zip ks (map f ts))"
  by (simp add: take_zip take_map [symmetric] take_Suc_conv_app_nth zip_append2)

lemma child_split:
  assumes ok: "store_ok {} s" and rep: "tree_rep (pool_view s) bits nxt (InnerNode p ks ts)" and ord: "ordered bits (InnerNode p ks ts)"
    and room: "roomy bits (InnerNode p ks ts)"
    and dist: "distinct (page_list (InnerNode p ks ts))" and used: "set (page_list (InnerNode p ks ts)) \<subseteq> used_pages s"
    and pin: "poolPin (int p) s = (Some i, s1)" and at: "at = slot_for k ks" and k: "k \<in> keys_of_bits bits"
    and out: "outcome bits (next_after nxt (drop (Suc at) ts)) (ts ! at) k w s1 rs s2"
    and part: "parted bits (Some (sep, q)) rs"
    and run: "(split, s4) = (if length ks + 1 = node_room bits then splitInternal i s3 else (Inr None, s3))"
    and s3: "s3 = write_page i (hang_child at sep (pid (ts ! at)) (of_nat q)) s2" and x: "split = Inr x"
    and t: "s5 = poolUnpin (int p) True s4"
  shows "\<exists>rs. outcome bits nxt (InnerNode p ks ts) k w s rs s5 \<and> parted bits x rs"
proof -
  obtain c d where rs: "rs = [c, d]" and d: "root d = q" and sep: "sep \<in> keys_of_bits bits"
    "\<And>e. e \<in> set (contents c) \<Longrightarrow> keyrank (fst e) \<le> keyrank sep" "\<And>e. e \<in> set (contents d) \<Longrightarrow> keyrank sep \<le> keyrank (fst e)"
    using part by (auto simp: parted_def)
  have lens: "length ts = Suc (length ks)" "at \<le> length ks" using rep at slot_for_le by auto
  then have atl: "at < length ts" by simp
  obtain ks' ts' where new: "with_split at sep c d ks ts = (ks', ts')" by force
  then have ts': "ts' = take at ts @ rs @ drop (Suc at) ts" and ks': "ks' = take at ks @ sep # drop at ks"
    by (simp_all add: with_split_def rs)
  note b = below_node [OF ok rep dist used pin atl out ts']
  have oc: "ordered bits c" "roomy bits c" "contents c \<noteq> []" "ordered bits d" "roomy bits d" "contents d \<noteq> []"
    "contents c @ contents d = ins k w (contents (ts ! at))" "root c = root (ts ! at)"
    using out by (auto simp: outcome_def rs)
  note r = ordered_split [OF ord at oc(1,3,4,6,7) sep new]
  have pidc: "pid c = pid (ts ! at)" using oc(8) by (simp add: pid_def)
  note hz = hang_zip [OF lens new pidc]
  have zl: "length (zip ks (map pid ts)) = length ks" using lens by simp
  have pd: "of_nat q = pid d" using d by (simp add: pid_def)
  note hang = hang_child_rep [OF b(3), of at sep "pid (ts ! at)" "of_nat q", unfolded zl pd, OF lens(2) _ sep(1)]
  have kroom: "length ks < node_room bits" using room by simp
  note w3 = held.poke_step [OF b(1,2), of "hang_child at sep (pid (ts ! at)) (of_nat q)", folded s3]
  have page3: "node_rep (frame_page i s3) False bits (zip ks' (map pid ts'))" "nodeLastChild (frame_page i s3) = pid (last ts')"
    using hang(1,3) [OF kroom] hz b(4) by (simp_all add: w3(5) pd)
  have l': "length ks' = length ks + 1" "length ts' = length ks' + 1" using lens by (auto simp: ks' ts' rs)
  have p': "p \<notin> set (pages_of ts')" using b(6) by simp
  have view3: "pool_view s3 y = Some v" if "y \<in> set (pages_of ts')" "pool_view s2 y = Some v" for y v
    using that p' by (auto simp: w3(2))
  have forest3: "forest_rep (pool_view s3) bits nxt ts'"
    by (rule tree_rep_keep(2) [OF b(5)]) (use view3 in \<open>simp add: pages_of_def\<close>)
  have keeps3: "held.keeps (set (page_list (InnerNode p ks ts))) s s3"
    using held.keeps_trans [OF b(9) held.keeps_mono [OF w3(6)]] by simp
  have kids: "\<forall>t \<in> set ts'. roomy bits t" using room oc(2,5) by (auto simp: ts' rs dest: in_set_takeD in_set_dropD)
  show ?thesis
  proof (cases "length ks' = node_room bits")
    case False
    then have s4: "s4 = s3" "x = None" using run l' x by (auto split: if_splits)
    have "store_ok {i} s3" using w3(1) by simp
    note u = held.unpin_step [OF this w3(4), of True, simplified, folded t [unfolded s4(1)]]
    have "outcome bits nxt (InnerNode p ks ts) k w s [InnerNode p ks' ts'] s5"
      unfolding outcome_def
    proof (intro conjI)
      show "store_ok {} s5" using u(1) by simp
      show "held.keeps (set (page_list (InnerNode p ks ts))) s s5"
        using held.keeps_trans [OF keeps3 held.keeps_mono [OF u(4)]] by simp
      have "pool_view s5 p = Some (usable (frame_page i s3))" using u(2) w3(2,5) by simp
      moreover have "node_rep (usable (frame_page i s3)) False bits (zip ks' (map pid ts'))" by (rule node_rep_usable [OF page3(1)])
      ultimately show "forest_rep (pool_view s5) bits nxt [InnerNode p ks' ts']"
        using rep forest3 u(2) l' page3(2) by (simp add: next_after_def)
      show "\<forall>r \<in> set [InnerNode p ks' ts']. ordered bits r \<and> roomy bits r \<and> contents r \<noteq> []"
        using r [of p] kids False kroom l' by simp
      show "concat (map contents [InnerNode p ks' ts']) = ins k w (contents (InnerNode p ks ts))" using r(2) [of p] by simp
      show "first_leaf (hd [InnerNode p ks' ts']) = first_leaf (InnerNode p ks ts)" using b(10) by simp
    qed (use b(6-8) u(3) w3(3) in \<open>simp_all add: pages_of_def\<close>)
    then show ?thesis using s4(2) by (intro exI [of _ "[InnerNode p ks' ts']"]) (simp add: parted_def)
  next
    case True
    then have "splitInternal i s3 = (Inr x, s4)" using run l' x by (auto split: if_splits)
    moreover have "store_ok {i} s3" using w3(1) by simp
    moreover have zl': "length (zip ks' (map pid ts')) = length ks'" using l' by simp
    define h where "h = length ks' div 2"
    have h: "h < length ks'" using True node_room_small [OF bits_of_rep [OF page3(1)]] by (simp add: h_def)
    have hz': "fst (zip ks' (map pid ts') ! h) = ks' ! h" "snd (zip ks' (map pid ts') ! h) = pid (ts' ! h)" using h l' by simp_all
    ultimately obtain q' m1 m2 where sp: "x = Some (ks' ! h, q')" "store_ok {i} s4" "home_frame s4 p i"
      "q' \<notin> used_pages s3" "used_pages s4 = insert q' (used_pages s3)" "held.keeps {p} s3 s4"
      "pool_view s4 p = Some m1" "node_rep m1 False bits (take h (zip ks' (map pid ts')))" "nodeLastChild m1 = pid (ts' ! h)"
      "pool_view s4 q' = Some m2" "node_rep m2 False bits (drop (Suc h) (zip ks' (map pid ts')))" "nodeLastChild m2 = pid (last ts')"
      using splitInternal_step [OF _ w3(4) page3(1), unfolded zl', OF _ True, folded h_def] page3(2) by (metis hz')
    note u = held.unpin_step [OF sp(2,3), of True, simplified, folded t]
    have us: "used_pages s5 = insert q' (used_pages s2)" "q' \<notin> used_pages s2" using u(3) sp(4,5) w3(3) by auto
    have q': "q' \<notin> set (p # pages_of ts')" "q' \<notin> used_pages s"
      using us b(8) held.used_through [OF b(9)] by auto
    let ?c = "InnerNode p (take h ks') (take (Suc h) ts')" and ?d = "InnerNode q' (drop (Suc h) ks') (drop (Suc h) ts')"
    note cut = ordered_cut [OF r(1) [of p] h]
    have zc: "take h (zip ks' (map pid ts')) = zip (take h ks') (map pid (take (Suc h) ts'))"
      using zip_take_Suc [of ts' ks' h pid] l' h by simp
    have zd: "drop (Suc h) (zip ks' (map pid ts')) = zip (drop (Suc h) ks') (map pid (drop (Suc h) ts'))"
      by (simp add: drop_zip drop_map)
    have lasts: "last (take (Suc h) ts') = ts' ! h" "last (drop (Suc h) ts') = last ts'" "drop (Suc h) ts' \<noteq> []"
      using h l' by (simp_all add: take_Suc_conv_app_nth last_drop)
    have view5: "pool_view s5 y = Some v" if "y \<in> set (pages_of ts')" "pool_view s3 y = Some v" for y v
    proof -
      have "y \<in> used_pages s3" "y \<notin> {p}" using that(1) b(8) p' w3(3) by auto
      then show ?thesis using held.view_through [OF sp(6) _ _ that(2)] u(2) by simp
    qed
    have "forest_rep (pool_view s5) bits nxt ts'"
      by (rule tree_rep_keep(2) [OF forest3]) (use view5 in \<open>simp add: pages_of_def\<close>)
    then have "forest_rep (pool_view s5) bits nxt (take (Suc h) ts' @ drop (Suc h) ts')" by simp
    then have forests: "forest_rep (pool_view s5) bits (of_nat (first_leaf ?d)) (take (Suc h) ts')"
      "forest_rep (pool_view s5) bits nxt (drop (Suc h) ts')"
      unfolding forest_rep_append using lasts(3) next_after_append [of "drop (Suc h) ts'" nxt "[]"]
      by (simp_all add: first_leaf_hd)
    have pages: "pages_of [?c, ?d] = p # pages_of (take (Suc h) ts') @ q' # pages_of (drop (Suc h) ts')" by (simp add: pages_of_def)
    have pt: "pages_of ts' = pages_of (take (Suc h) ts') @ pages_of (drop (Suc h) ts')"
      by (simp add: pages_of_def flip: concat_append map_append)
    have "outcome bits nxt (InnerNode p ks ts) k w s [?c, ?d] s5"
      unfolding outcome_def
    proof (intro conjI)
      show "store_ok {} s5" using u(1) by simp
      show "held.keeps (set (page_list (InnerNode p ks ts))) s s5"
        using held.keeps_trans [OF keeps3 held.keeps_trans [OF held.keeps_mono [OF sp(6)] held.keeps_mono [OF u(4)]]] by simp
      show "forest_rep (pool_view s5) bits nxt [?c, ?d]"
        using forests rep sp(7-12) l' h zc zd lasts by (simp add: next_after_def u(2))
      show "\<forall>r \<in> set [?c, ?d]. ordered bits r \<and> roomy bits r \<and> contents r \<noteq> []"
        using cut(1,2,6,7) kids h True by (auto dest: in_set_takeD in_set_dropD)
      show "concat (map contents [?c, ?d]) = ins k w (contents (InnerNode p ks ts))" using cut(3) r(2) [of p] by simp
      show "distinct (pages_of [?c, ?d])" unfolding pages using b(6) q'(1) pt by auto
      show "set (pages_of [?c, ?d]) \<subseteq> set (page_list (InnerNode p ks ts)) \<union> (used_pages s5 - used_pages s)"
        unfolding pages using b(7) pt us q'(2) by auto
      show "set (pages_of [?c, ?d]) \<subseteq> used_pages s5" unfolding pages using b(8) pt us by auto
      have "first_leaf ?c = first_leaf (InnerNode p ks' ts')" using l' by (cases ts') auto
      then show "first_leaf (hd [?c, ?d]) = first_leaf (InnerNode p ks ts)" using b(10) by simp
    qed simp_all
    moreover have "parted bits x [?c, ?d]"
    proof -
      have "set ks' \<subseteq> keys_of_bits bits" using r(1) [of p] by simp
      then have "ks' ! h \<in> keys_of_bits bits" using h by auto
      moreover have "\<forall>e \<in> set (contents ?c). keyrank (fst e) \<le> keyrank (ks' ! h)" "\<forall>e \<in> set (contents ?d). keyrank (ks' ! h) \<le> keyrank (fst e)"
        using cut(4) [where q = p] cut(5) [where r = q'] by blast+
      ultimately show ?thesis unfolding parted_def sp(1) option.case prod.case by (intro exI [of _ ?c] exI [of _ ?d]) simp
    qed
    ultimately show ?thesis by blast
  qed
qed


subsection \<open>Insertion into a tree\<close>

text \<open>Every page id of the tree fits the C int it is read back as.\<close>

definition ids_fit :: "btree \<Rightarrow> bool" where "ids_fit t \<longleftrightarrow> (\<forall>x \<in> set (page_list t). x < 2 ^ 31)"

lemma insertInto_tree:
  assumes k: "k \<in> keys_of_bits bits"
  shows "store_ok {} s \<Longrightarrow> tree_rep (pool_view s) bits nxt t \<Longrightarrow> ordered bits t \<Longrightarrow> roomy bits t \<Longrightarrow>
    distinct (page_list t) \<Longrightarrow> set (page_list t) \<subseteq> used_pages s \<Longrightarrow> ids_fit t \<Longrightarrow>
    \<exists>r s'. insertInto (int (root t)) k w s = Some (r, s') \<and>
      (\<forall>x. r = Inr x \<longrightarrow> (\<exists>rs. outcome bits nxt t k w s rs s' \<and> parted bits x rs))"
proof (induction t arbitrary: s nxt)
  case (LeafNode p es)
  obtain pr s1 where pin: "poolPin (int p) s = (pr, s1)" by force
  show ?case
  proof (cases pr)
    case None
    then show ?thesis using pin by (subst insertInto.simps) simp
  next
    case (Some i)
    then have pin: "poolPin (int p) s = (Some i, s1)" using pin by simp
    have p: "p \<in> used_pages s" using LeafNode.prems by simp
    obtain m where m: "pool_view s p = Some m" "node_rep m True bits es" using LeafNode.prems by auto
    have "usable (frame_page i s1) = m" by (rule held.pin_step(6) [OF LeafNode.prems(1) p pin m(1)])
    then have "node_rep (frame_page i s1) True bits es" using m(2) node_rep_unusable by simp
    then have leaf: "nodeIsLeaf (frame_page i s1)" using node_repD(6) by blast
    obtain r s2 where run: "insertIntoLeaf i k w s1 = (r, s2)" by force
    have "insertInto (int (root (LeafNode p es))) k w s = Some (r, poolUnpin (int p) True s2)"
      using pin leaf run by (subst insertInto.simps) (simp add: Let_def)
    moreover have "\<exists>rs. outcome bits nxt (LeafNode p es) k w s rs (poolUnpin (int p) True s2) \<and> parted bits x rs" if "r = Inr x" for x
      by (rule leaf_outcome [OF LeafNode.prems(1-4) p k pin run [unfolded that] refl])
    ultimately show ?thesis by blast
  qed
next
  case (InnerNode p ks ts)
  obtain pr s1 where pin: "poolPin (int p) s = (pr, s1)" by force
  show ?case
  proof (cases pr)
    case None
    then show ?thesis using pin by (subst insertInto.simps) simp
  next
    case (Some i)
    then have pin: "poolPin (int p) s = (Some i, s1)" using pin by simp
    have p: "p \<in> used_pages s" using InnerNode.prems by simp
    note a = held.pin_step [OF InnerNode.prems(1) p pin]
    obtain m where m: "pool_view s p = Some m" "node_rep m False bits (zip ks (map pid ts))" "nodeLastChild m = pid (last ts)"
      using InnerNode.prems by auto
    have us: "usable (frame_page i s1) = m" by (rule a(6) [OF m(1)])
    have page: "node_rep (frame_page i s1) False bits (zip ks (map pid ts))" "nodeLastChild (frame_page i s1) = pid (last ts)"
      using m us node_rep_unusable by auto
    note r = node_repD [OF page(1)]
    have lens: "length ts = Suc (length ks)" using InnerNode.prems by simp
    have fen: "fenced ks ts" "\<forall>t \<in> set ts. contents t \<noteq> []" using InnerNode.prems by auto
    define at where "at = slot_for k ks"
    have atl: "at \<le> length ks" "at < length ts" using slot_for_le lens by (auto simp: at_def less_Suc_eq_le)
    have low: "lowerBound (frame_page i s1) k = at"
    proof -
      have "ranks (zip ks (map pid ts)) = map keyrank ks" using lens by (simp add: ranks_def map_fst_zip_take flip: map_map)
      then have "sorted (ranks (zip ks (map pid ts)))" using fenced_sorted [OF fen] by simp
      from lowerBound_rank [OF page(1) this k]
      have "lowerBound (frame_page i s1) k = length (takeWhile (\<lambda>e. keyrank (fst e) < keyrank k) (zip ks (map pid ts)))" .
      also have "\<dots> = length (takeWhile (\<lambda>s. keyrank s < keyrank k) (map fst (zip ks (map pid ts))))" by (simp add: takeWhile_map comp_def)
      finally show ?thesis using lens by (simp add: at_def slot_for_def map_fst_zip_take)
    qed
    have child: "child_at at (frame_page i s1) = pid (ts ! at)"
    proof (cases "at < length ks")
      case False
      then have "last ts = ts ! at" using lens atl by (subst last_conv_nth) (auto simp: less_Suc_eq)
      then show ?thesis using False r(3) page(2) lens by (simp add: child_at_def)
    qed (use r(3) r(11) [of at] lens in \<open>simp add: child_at_def\<close>)
    define c where "c = ts ! at"
    have c: "c \<in> set ts" using atl by (simp add: c_def)
    have sub: "set (page_list c) \<subseteq> set (page_list (InnerNode p ks ts))" using c by (auto simp: pages_of_def)
    have "root c < 2 ^ 31" using InnerNode.prems(7) sub root_in_pages [of c] unfolding ids_fit_def by blast
    then have cid: "sint (pid c) = int (root c)" by (rule pid_back)
    have tree1: "tree_rep (pool_view s1) bits (next_after nxt (drop (Suc at) ts)) c"
    proof (rule tree_rep_keep(1))
      have "forest_rep (pool_view s) bits nxt ts" using InnerNode.prems by simp
      from forest_rep_nth [OF this atl(2)] show "tree_rep (pool_view s) bits (next_after nxt (drop (Suc at) ts)) c" by (simp add: c_def)
      fix x v assume "x \<in> set (page_list c)" "pool_view s x = Some v"
      then show "pool_view s1 x = Some v" using held.view_through [OF a(4)] sub InnerNode.prems(6) by blast
    qed
    have "ordered bits c" "roomy bits c" "ids_fit c" "set (page_list c) \<subseteq> used_pages s1"
      using InnerNode.prems c sub a(3) by (auto simp: ids_fit_def)
    moreover have "distinct (page_list c)" using InnerNode.prems(5) c by (auto simp: pages_of_def distinct_concat_iff)
    ultimately obtain br s2 where below: "insertInto (int (root c)) k w s1 = Some (br, s2)"
      and out: "\<And>x. br = Inr x \<Longrightarrow> \<exists>rs. outcome bits (next_after nxt (drop (Suc at) ts)) c k w s1 rs s2 \<and> parted bits x rs"
      using InnerNode.IH [OF c a(1) tree1] by metis
    have unfold: "insertInto (int (root (InnerNode p ks ts))) k w s =
        (case br of Inl e \<Rightarrow> Some (Inl e, poolUnpin (int p) False s2)
         | Inr None \<Rightarrow> Some (Inr None, poolUnpin (int p) False s2)
         | Inr (Some (sep, q)) \<Rightarrow>
             (let s3 = write_page i (hang_child at sep (pid c) (of_nat q)) s2;
                  (split, s4) = (if length ks + 1 = node_room bits then splitInternal i s3 else (Inr None, s3))
              in Some (split, poolUnpin (int p) True s4)))"
    proof -
      have "int (length ks) + 1 = int (node_room bits) \<longleftrightarrow> length ks + 1 = node_room bits" by linarith
      then show ?thesis
        using pin below r(3,6,9) lens
        by (subst insertInto.simps) (simp add: Let_def low child c_def [symmetric] cid split: sum.split option.split)
    qed
    consider (err) e where "br = Inl e" | (none) "br = Inr None" | (some) sep q where "br = Inr (Some (sep, q))"
      by (metis old.prod.exhaust option.exhaust sum.exhaust)
    then show ?thesis
    proof cases
      case err
      then show ?thesis using unfold by simp
    next
      case none
      obtain rs where rs: "outcome bits (next_after nxt (drop (Suc at) ts)) c k w s1 rs s2" "length rs = 1"
        using out [OF none] by (auto simp: parted_def)
      then obtain c' where "rs = [c']" by (metis One_nat_def length_0_conv length_Suc_conv)
      then have "outcome bits nxt (InnerNode p ks ts) k w s [InnerNode p ks (ts[at := c'])] (poolUnpin (int p) False s2)"
        using child_kept [OF InnerNode.prems(1-6) pin at_def k _ refl] rs(1) c_def by simp
      then show ?thesis using unfold none by (auto simp: parted_def)
    next
      case some
      obtain rs where rs: "outcome bits (next_after nxt (drop (Suc at) ts)) (ts ! at) k w s1 rs s2" "parted bits (Some (sep, q)) rs"
        using out [OF some] by (auto simp: c_def)
      define s3 where "s3 = write_page i (hang_child at sep (pid (ts ! at)) (of_nat q)) s2"
      obtain split s4 where run: "(split, s4) = (if length ks + 1 = node_room bits then splitInternal i s3 else (Inr None, s3))"
        by (metis surj_pair)
      have "insertInto (int (root (InnerNode p ks ts))) k w s = Some (split, poolUnpin (int p) True s4)"
        unfolding unfold some sum.case option.case prod.case Let_def c_def s3_def [symmetric] run [symmetric] by simp
      moreover have "\<exists>rs. outcome bits nxt (InnerNode p ks ts) k w s rs (poolUnpin (int p) True s4) \<and> parted bits x rs" if "split = Inr x" for x
        by (rule child_split [OF InnerNode.prems(1-6) pin at_def k rs run s3_def that refl])
      ultimately show ?thesis by blast
    qed
  qed
qed

end
