(* ===== verification/IndexRows.thy ===== *)
theory IndexRows
  imports IndexInsert ConditionTree
begin

text \<open>
  An index as the values and row positions it holds: \<open>indexInsert\<close> adds one, growing the tree at the
  root where it splits, and the scans find every position whose value meets the comparison. Keys
  stand for values up to the prefix they keep of a text, so a scan may return more.
\<close>

subsection \<open>The tree of an index\<close>

definition index_tree :: "index \<Rightarrow> u32 \<Rightarrow> btree \<Rightarrow> pool \<Rightarrow> bool" where
  "index_tree idx bits t s \<longleftrightarrow> rootPage idx = int (root t) \<and> tree_rep (pool_view s) bits INVALID_PAGE t \<and>
     ordered bits t \<and> roomy bits t \<and> distinct (page_list t) \<and> set (page_list t) \<subseteq> used_pages s \<and> ids_fit t \<and>
     bits \<in> {0, NODE_TEXT, NODE_FLOAT} \<and> keyCount idx = int (length (contents t))"

lemma key_type_bits:
  assumes "k \<in> keys_of_bits bits" "bits \<in> {0, NODE_TEXT, NODE_FLOAT}"
  shows "keyBits_of_type (ktype k) = bits"
proof -
  have T: "NODE_TEXT \<noteq> NODE_FLOAT" "NODE_TEXT \<noteq> 0" "NODE_FLOAT \<noteq> 0" by (simp_all add: NODE_TEXT_def NODE_FLOAT_def)
  consider "bits = NODE_FLOAT" | "bits = NODE_TEXT" | "bits = 0" using assms(2) by blast
  then show ?thesis
    using assms(1) T
    by cases (auto simp: keys_of_bits_def float_key_def text_key_def int_key_def keyBits_of_type_def type_of_byte_def keyBitsFor_def)
qed

lemma root_node_rep:
  assumes "node_rep m False bits []" "k \<in> keys_of_bits bits"
  shows "node_rep (setNodeLastChild r (setNodeKeys 1 (writeEntry 0 k w m))) False bits [(k, w)]"
    "nodeLastChild (setNodeLastChild r (setNodeKeys 1 (writeEntry 0 k w m))) = r"
proof -
  have keys: "nodeKeys m = 0" using node_repD(3) [OF assms(1)] by simp
  have eq: "insert_entry 0 k w m = setNodeKeys 1 (writeEntry 0 k w m)"
    by (simp add: insert_entry_def keys open_gap.simps [of 0])
  have "0 < node_room bits" using node_room_small [OF bits_of_rep [OF assms(1)]] by linarith
  then have "node_rep (insert_entry 0 k w m) False bits [(k, w)]" using insert_entry_rep(1) [OF assms(1) _ _ assms(2), of 0 w] by simp
  then show "node_rep (setNodeLastChild r (setNodeKeys 1 (writeEntry 0 k w m))) False bits [(k, w)]"
    unfolding eq by (rule set_links_rep)
qed (simp add: set_header_other)

lemma ordered_root:
  assumes "parted bits (Some (sep, q)) [c, d]" "\<forall>r \<in> set [c, d]. ordered bits r \<and> contents r \<noteq> []"
  shows "ordered bits (InnerNode p [sep] [c, d])"
  using assms by (auto simp: parted_def fenced_def less_Suc_eq nth_Cons')

text \<open>A root that split gets a new node above its two parts.\<close>

lemma new_root_page:
  assumes ok: "store_ok {} s" and new: "newNode False bits s = (Inr p, s2)" and pin: "poolPin (int p) s2 = (Some i, s3)"
    and bits: "bits \<in> {0, NODE_TEXT, NODE_FLOAT}"
    and t: "s4 = poolUnpin (int p) True (write_page i (\<lambda>m. setNodeLastChild r (setNodeKeys 1 (writeEntry 0 sep w m))) s3)"
    and sep: "sep \<in> keys_of_bits bits"
  shows "store_ok {} s4" "p \<notin> used_pages s" "used_pages s4 = insert p (used_pages s)" "held.keeps {} s s4"
    "\<exists>m. pool_view s4 p = Some m \<and> node_rep m False bits [(sep, w)] \<and> nodeLastChild m = r"
proof -
  define g where "g = (\<lambda>m. setNodeLastChild r (setNodeKeys 1 (writeEntry 0 sep w m)))"
  note n = newNode_step [OF ok new bits]
  have p2: "p \<in> used_pages s2" using n(3) by simp
  note a = held.pin_step [OF n(1) p2 pin]
  note b = held.poke_step [OF a(1,2), of g]
  note u = held.unpin_step [OF b(1,4), of True, simplified, folded t [folded g_def]]
  obtain m where m: "pool_view s2 p = Some m" "node_rep m False bits []" using n(5) by blast
  have "node_rep (frame_page i s3) False bits []" using a(6) [OF m(1)] m(2) node_rep_unusable by simp
  note rn = root_node_rep [OF this sep, of r w]
  show "store_ok {} s4" using u(1) by simp
  show p: "p \<notin> used_pages s" by (rule n(2))
  show "used_pages s4 = insert p (used_pages s)" using u(3) b(3) a(3) n(3) by simp
  have "held.keeps {p} s s4"
    using held.keeps_trans [OF held.keeps_mono [OF n(4)] held.keeps_trans [OF held.keeps_mono [OF a(4)]
      held.keeps_trans [OF b(6) u(4)]]] by simp
  then show "held.keeps {} s s4" by (rule held.keeps_unused) (use p held.home_look [OF ok] in auto)
  have "pool_view s4 p = Some (usable (g (frame_page i s3)))" using u(2) b(2) by simp
  then show "\<exists>m. pool_view s4 p = Some m \<and> node_rep m False bits [(sep, w)] \<and> nodeLastChild m = r"
    using rn node_rep_usable by (auto simp: g_def)
qed

lemma new_root_tree:
  assumes o: "outcome bits INVALID_PAGE t k w s [c, d] s1" and part: "parted bits (Some (sep, q)) [c, d]"
    and bits: "bits \<in> {0, NODE_TEXT, NODE_FLOAT}" and fit: "\<forall>x \<in> used_pages s4. x < 2 ^ 31"
    and p: "p \<notin> used_pages s1" "used_pages s4 = insert p (used_pages s1)" "held.keeps {} s1 s4"
    and page: "pool_view s4 p = Some m" "node_rep m False bits [(sep, pid c)]" "nodeLastChild m = pid d"
    and idx: "rootPage idx = int p" "keyCount idx = int (length (ins k w (contents t)))"
  shows "index_tree idx bits (InnerNode p [sep] [c, d]) s4"
  unfolding index_tree_def
proof (intro conjI)
  note o' = o [unfolded outcome_def]
  have pages: "pages_of [c, d] = page_list c @ page_list d" by (simp add: pages_of_def)
  have sub: "set (page_list c @ page_list d) \<subseteq> used_pages s1" "distinct (page_list c @ page_list d)"
    using o' unfolding pages by blast+
  have "forest_rep (pool_view s4) bits INVALID_PAGE [c, d]"
  proof (rule tree_rep_keep(2))
    show "forest_rep (pool_view s1) bits INVALID_PAGE [c, d]" using o' by blast
    fix x y assume x: "x \<in> set (concat (map page_list [c, d]))" and y: "pool_view s1 x = Some y"
    show "pool_view s4 x = Some y" by (rule held.view_through [OF p(3) _ _ y]) (use x sub in auto)
  qed
  then show "tree_rep (pool_view s4) bits INVALID_PAGE (InnerNode p [sep] [c, d])" using page by simp
  show "ordered bits (InnerNode p [sep] [c, d])" by (rule ordered_root [OF part]) (use o' in blast)
  show "roomy bits (InnerNode p [sep] [c, d])" using o' node_room_small [OF bits] by simp
  show "distinct (page_list (InnerNode p [sep] [c, d]))" "set (page_list (InnerNode p [sep] [c, d])) \<subseteq> used_pages s4"
    "ids_fit (InnerNode p [sep] [c, d])"
    using sub p fit by (auto simp: ids_fit_def)
  have "contents c @ contents d = ins k w (contents t)" using o' by simp
  then show "keyCount idx = int (length (contents (InnerNode p [sep] [c, d])))" using idx(2) by simp
qed (use bits idx in simp_all)

lemma length_ins [simp]: "length (ins k w es) = length es + 1"
  by (simp flip: size_mset add: mset_ins)

lemma indexInsert_tree:
  assumes ok: "store_ok {} s" and tree: "index_tree idx bits t s" and v: "\<not> isNull v" "makeKey v \<in> keys_of_bits bits"
  shows "\<exists>r idx' s'. indexInsert idx v pos s = Some (r, idx', s') \<and>
    (r = Inr () \<longrightarrow> (\<forall>x \<in> used_pages s'. x < 2 ^ 31) \<longrightarrow> store_ok {} s' \<and> held.keeps (set (page_list t)) s s' \<and>
      (\<exists>t'. index_tree idx' bits t' s' \<and> contents t' = ins (makeKey v) pos (contents t)))"
proof -
  note tr = tree [unfolded index_tree_def]
  obtain r s1 where run: "insertInto (rootPage idx) (makeKey v) pos s = Some (r, s1)"
    and out: "\<And>x. r = Inr x \<Longrightarrow> \<exists>rs. outcome bits INVALID_PAGE t (makeKey v) pos s rs s1 \<and> parted bits x rs"
    using insertInto_tree [OF v(2) ok, of INVALID_PAGE t pos] tr by metis
  consider (err) e where "r = Inl e" | (none) "r = Inr None" | (some) sep q where "r = Inr (Some (sep, q))"
    by (metis old.prod.exhaust option.exhaust sum.exhaust)
  then show ?thesis
  proof cases
    case err
    then show ?thesis using run v by (simp add: indexInsert_def Let_def)
  next
    case none
    obtain t' where o: "outcome bits INVALID_PAGE t (makeKey v) pos s [t'] s1"
      using out [OF none] by (auto simp: parted_def length_Suc_conv)
    have "index_tree (idx\<lparr>keyCount := keyCount idx + 1\<rparr>) bits t' s1" if "\<forall>x \<in> used_pages s1. x < 2 ^ 31"
      using o tr that by (auto simp: outcome_def index_tree_def next_after_def pages_of_def ids_fit_def)
    then show ?thesis using run none v o by (auto simp: indexInsert_def Let_def outcome_def)
  next
    case some
    obtain c d where o: "outcome bits INVALID_PAGE t (makeKey v) pos s [c, d] s1" and part: "parted bits (Some (sep, q)) [c, d]"
      using out [OF some] by (auto simp: parted_def)
    then have q: "root d = q" and sep: "sep \<in> keys_of_bits bits" by (auto simp: parted_def)
    have bits: "bits \<in> {0, NODE_TEXT, NODE_FLOAT}" using tr by blast
    have kb: "keyBits_of_type (ktype (makeKey v)) = bits" by (rule key_type_bits [OF v(2) bits])
    note o' = o [unfolded outcome_def]
    have rootc: "of_int (rootPage idx) = pid c" using tr o' by (simp add: pid_def)
    obtain nr s2 where new: "newNode False bits s1 = (nr, s2)" by force
    obtain pr s3 where pin: "poolPin (int (projr nr)) s2 = (pr, s3)" by force
    consider (full) e where "nr = Inl e" | (unpinned) p where "nr = Inr p" "pr = None" | (grown) p i where "nr = Inr p" "pr = Some i"
      by (metis option.exhaust sum.exhaust)
    then show ?thesis
    proof cases
      case grown
      define s4 where "s4 = poolUnpin (int p) True
        (write_page i (\<lambda>m. setNodeLastChild (of_nat q) (setNodeKeys 1 (writeEntry 0 sep (of_int (rootPage idx)) m))) s3)"
      have res: "indexInsert idx v pos s = Some (Inr (), idx\<lparr>keyCount := keyCount idx + 1, rootPage := int p\<rparr>, s4)"
        using run some v kb new pin grown by (simp add: indexInsert_def Let_def s4_def)
      have ok1: "store_ok {} s1" using o' by blast
      note n = new_root_page [OF ok1 new [unfolded grown] pin [unfolded grown sum.sel] bits s4_def sep]
      obtain m where m: "pool_view s4 p = Some m" "node_rep m False bits [(sep, pid c)]" "nodeLastChild m = pid d"
        using n(5) rootc q by (auto simp: pid_def)
      have "index_tree (idx\<lparr>keyCount := keyCount idx + 1, rootPage := int p\<rparr>) bits (InnerNode p [sep] [c, d]) s4"
        if "\<forall>x \<in> used_pages s4. x < 2 ^ 31"
        by (rule new_root_tree [OF o part bits that n(2-4) m]) (use tr in simp_all)
      moreover have "held.keeps (set (page_list t)) s s4"
        by (rule held.keeps_trans [OF _ held.keeps_mono [OF n(4)]]) (use o' in blast)+
      moreover have "contents (InnerNode p [sep] [c, d]) = ins (makeKey v) pos (contents t)" using o' by simp
      ultimately show ?thesis using res n(1) by blast
    qed (use run some v kb new pin in \<open>simp_all add: indexInsert_def Let_def\<close>)
  qed
qed

end
