(* ===== verification/IndexScan.thy ===== *)
theory IndexScan
  imports IndexRows
begin

text \<open>
  The scans of an index over the pages of its tree: the descent ends at a leaf with nothing above the
  key left of it, the chain of leaves holds the entries in order, and so a scan returns exactly the
  entries it cannot rule out. A descent that cannot pin a page gives no leaf, and the scan no rows.
\<close>

subsection \<open>The chain of leaves\<close>

fun leaf_chain :: "(nat \<Rightarrow> page option) \<Rightarrow> u32 \<Rightarrow> u32 \<Rightarrow> (nat \<times> entries) list \<Rightarrow> bool" where
  "leaf_chain v bits nxt [] \<longleftrightarrow> True"
| "leaf_chain v bits nxt ((p, es) # ls) \<longleftrightarrow>
     (\<exists>m. v p = Some m \<and> node_rep m True bits es \<and> nodeNextLeaf m = (case ls of [] \<Rightarrow> nxt | l # _ \<Rightarrow> of_nat (fst l))) \<and>
     leaf_chain v bits nxt ls"

lemma leaf_chain_append:
  "leaf_chain v bits nxt (xs @ ys) \<longleftrightarrow>
     leaf_chain v bits (case ys of [] \<Rightarrow> nxt | l # _ \<Rightarrow> of_nat (fst l)) xs \<and> leaf_chain v bits nxt ys"
proof (induction xs)
  case (Cons x xs)
  obtain p es where x: "x = (p, es)" by (cases x)
  have "(case xs @ ys of [] \<Rightarrow> nxt | l # _ \<Rightarrow> of_nat (fst l)) =
      (case xs of [] \<Rightarrow> (case ys of [] \<Rightarrow> nxt | l # _ \<Rightarrow> of_nat (fst l)) | l # _ \<Rightarrow> (of_nat (fst l) :: u32))" by (cases xs) simp_all
  then show ?case using Cons x by auto
qed simp

lemma leaf_chain_tree:
  "tree_rep v bits nxt t \<Longrightarrow> leaf_list t \<noteq> [] \<and> fst (hd (leaf_list t)) = first_leaf t \<and> leaf_chain v bits nxt (leaf_list t)"
  "forest_rep v bits nxt ts \<Longrightarrow> (ts = [] \<or> concat (map leaf_list ts) \<noteq> [] \<and>
     fst (hd (concat (map leaf_list ts))) = first_leaf (hd ts)) \<and> leaf_chain v bits nxt (concat (map leaf_list ts))"
proof (induction v bits nxt t and v bits nxt ts rule: tree_rep_forest_rep.induct)
  case (2 v bits nxt p ks ts)
  then show ?case by (cases ts) auto
next
  case (4 v bits nxt t ts)
  then have t: "leaf_list t \<noteq> []" "fst (hd (leaf_list t)) = first_leaf t" "leaf_chain v bits (next_after nxt ts) (leaf_list t)"
    and ts: "ts = [] \<or> concat (map leaf_list ts) \<noteq> [] \<and> fst (hd (concat (map leaf_list ts))) = first_leaf (hd ts)"
      "leaf_chain v bits nxt (concat (map leaf_list ts))" by simp_all
  have "(case concat (map leaf_list ts) of [] \<Rightarrow> nxt | l # _ \<Rightarrow> of_nat (fst l)) = next_after nxt ts"
    using ts(1) by (cases ts) (auto simp: next_after_def split: list.split)
  then show ?case using t ts by (simp add: leaf_chain_append)
qed simp_all

lemma leaf_list_contents: "contents t = concat (map snd (leaf_list t))"
proof (induction t)
  case (InnerNode p ks ts)
  then show ?case by (induction ts) simp_all
qed simp

lemma leaf_list_pages: "fst ` set (leaf_list t) \<subseteq> set (page_list t)"
  by (induction t) (auto simp: image_subset_iff)

subsection \<open>Descending\<close>

text \<open>What a descent looking for \<open>k\<close> ends with.\<close>

definition leaf_found :: "btree \<Rightarrow> (storedkey \<Rightarrow> bool) \<Rightarrow> int \<Rightarrow> bool" where
  "leaf_found t below r \<longleftrightarrow>
     (\<exists>A p es B. leaf_list t = A @ (p, es) # B \<and> r = int p \<and> (\<forall>e \<in> set (concat (map snd A)). below (fst e)))"

lemma leaf_found_leaf: "leaf_found (LeafNode p es) below (int p)"
  unfolding leaf_found_def by (intro exI [of _ "[]"] exI [of _ p] exI [of _ es]) simp

lemma leaf_found_child:
  assumes "leaf_found (ts ! i) below r" "i < length ts" "\<And>e. e \<in> set (concat (map contents (take i ts))) \<Longrightarrow> below (fst e)"
  shows "leaf_found (InnerNode p ks ts) below r"
proof -
  obtain A q es B where l: "leaf_list (ts ! i) = A @ (q, es) # B" "r = int q" "\<forall>e \<in> set (concat (map snd A)). below (fst e)"
    using assms(1) by (auto simp: leaf_found_def)
  have "ts = take i ts @ ts ! i # drop (Suc i) ts" by (rule split_children [OF assms(2)])
  then have "leaf_list (InnerNode p ks ts) = (concat (map leaf_list (take i ts)) @ A) @ (q, es) # B @ concat (map leaf_list (drop (Suc i) ts))"
    using l(1) by (metis append.assoc append_Cons concat.simps(2) concat_append leaf_list.simps(2) list.simps(9) map_append)
  moreover have "\<forall>e \<in> set (concat (map snd (concat (map leaf_list (take i ts)) @ A))). below (fst e)"
  proof
    fix e assume "e \<in> set (concat (map snd (concat (map leaf_list (take i ts)) @ A)))"
    then consider t where "t \<in> set (take i ts)" "e \<in> set (concat (map snd (leaf_list t)))" | "e \<in> set (concat (map snd A))" by auto
    then show "below (fst e)"
    proof cases
      case 1
      then have "e \<in> set (contents t)" by (simp add: leaf_list_contents)
      then have "e \<in> set (concat (map contents (take i ts)))" using 1(1) by auto
      then show ?thesis by (rule assms(3))
    qed (use l(3) in blast)
  qed
  ultimately show ?thesis unfolding leaf_found_def using l(2) by blast
qed

text \<open>A step that only looks: every page reads as before.\<close>

definition looked :: "pool \<Rightarrow> pool \<Rightarrow> bool" where
  "looked s s' \<longleftrightarrow> store_ok {} s' \<and> used_pages s' = used_pages s \<and> pool_view s \<subseteq>\<^sub>m pool_view s'"

lemma looked_trans: "looked s s' \<Longrightarrow> looked s' s'' \<Longrightarrow> looked s s''"
  unfolding looked_def using map_le_trans by metis

lemma looked_view: "looked s s' \<Longrightarrow> pool_view s x = Some m \<Longrightarrow> pool_view s' x = Some m"
  unfolding looked_def by (metis domI map_le_def)

lemma looked_tree: "looked s s' \<Longrightarrow> tree_rep (pool_view s) bits nxt t \<Longrightarrow> tree_rep (pool_view s') bits nxt t"
  by (rule tree_rep_keep(1) [of "pool_view s"]) (auto dest: looked_view)

lemma looked_leaf_chain: "looked s s' \<Longrightarrow> leaf_chain (pool_view s) bits nxt ls \<Longrightarrow> leaf_chain (pool_view s') bits nxt ls"
  by (induction "pool_view s" bits nxt ls rule: leaf_chain.induct) (auto dest: looked_view)

text \<open>A page looked at on the way, and the pin given back.\<close>

lemma read_step:
  assumes "store_ok {} s" "p \<in> used_pages s" "poolPin (int p) s = (r, s1)" "pool_view s p = Some m"
  shows "r = None \<Longrightarrow> looked s s1"
    "r = Some i \<Longrightarrow> usable (frame_page i s1) = m \<and> looked s (poolUnpin (int p) False s1)"
proof -
  show "looked s s1" if "r = None"
    using store.pin_law [OF assms(1-3)] by (simp add: looked_def)
  show "usable (frame_page i s1) = m \<and> looked s (poolUnpin (int p) False s1)" if "r = Some i"
    using store.read_under_pin [OF assms(1,2)] held.pin_step(6) [OF assms(1,2) _ assms(4)] assms(3) that
    unfolding looked_def by blast
qed

text \<open>The pages of a tree that the descents may look at.\<close>

definition legible :: "pool \<Rightarrow> u32 \<Rightarrow> btree \<Rightarrow> bool" where
  "legible s bits t \<longleftrightarrow> (\<exists>nxt. tree_rep (pool_view s) bits nxt t) \<and> ordered bits t \<and> set (page_list t) \<subseteq> used_pages s \<and> ids_fit t"

lemma legible_look: "looked s s' \<Longrightarrow> legible s bits t \<Longrightarrow> legible s' bits t"
  unfolding legible_def using looked_tree [of s s' bits _ t] looked_def [of s s'] by metis

lemma legible_child:
  assumes "legible s bits (InnerNode p ks ts)" "i < length ts"
  shows "legible s bits (ts ! i)" "sint (pid (ts ! i)) = int (root (ts ! i))"
proof -
  have c: "ts ! i \<in> set ts" using assms(2) by simp
  then have sub: "set (page_list (ts ! i)) \<subseteq> set (page_list (InnerNode p ks ts))" by auto
  obtain nxt where "forest_rep (pool_view s) bits nxt ts" using assms(1) by (auto simp: legible_def)
  from forest_rep_nth [OF this assms(2)] show "legible s bits (ts ! i)"
    using assms(1) c sub unfolding legible_def by (auto simp: ids_fit_def)
  show "sint (pid (ts ! i)) = int (root (ts ! i))"
    using assms(1) sub root_in_pages [of "ts ! i"] unfolding legible_def ids_fit_def by (intro pid_back) blast
qed

text \<open>The page of an inner node as a descent finds it.\<close>

lemma inner_page:
  assumes "legible s bits (InnerNode p ks ts)"
  obtains m where "pool_view s p = Some m" "node_rep m False bits (zip ks (map pid ts))" "nodeLastChild m = pid (last ts)"
    "length ts = Suc (length ks)" "p \<in> used_pages s" "fenced ks ts" "\<forall>t \<in> set ts. contents t \<noteq> []"
  using assms by (auto simp: legible_def)

lemma node_children:
  assumes "node_rep m False bits (zip ks (map pid ts))" "nodeLastChild m = pid (last ts)" "length ts = Suc (length ks)"
  shows "nodeKeys m = int (length ks)" "i \<le> length ks \<Longrightarrow> child_at i m = pid (ts ! i)"
    "(if nodeKeys m > 0 then entryPayload m 0 else nodeLastChild m) = pid (ts ! 0)"
proof -
  note r = node_repD [OF assms(1)]
  show k: "nodeKeys m = int (length ks)" using r(3) assms(3) by simp
  show c: "child_at i m = pid (ts ! i)" if "i \<le> length ks" for i
  proof (cases "i = length ks")
    case True
    then have "last ts = ts ! i" using assms(3) by (subst last_conv_nth) auto
    then show ?thesis using k True assms(2) by (simp add: child_at_def)
  qed (use k r(11) [of i] assms(3) that in \<open>simp add: child_at_def\<close>)
  show "(if nodeKeys m > 0 then entryPayload m 0 else nodeLastChild m) = pid (ts ! 0)"
    using c [of 0] k by (simp add: child_at_def)
qed

lemma node_slot:
  assumes "node_rep m False bits (zip ks (map pid ts))" "length ts = Suc (length ks)" "fenced ks ts" "\<forall>t \<in> set ts. contents t \<noteq> []"
    and "k \<in> keys_of_bits bits"
  shows "lowerBound m k = slot_for k ks"
proof -
  have "ranks (zip ks (map pid ts)) = map keyrank ks" using assms(2) by (simp add: ranks_def map_fst_zip_take flip: map_map)
  then have "sorted (ranks (zip ks (map pid ts)))" using fenced_sorted [OF assms(3,4)] by simp
  from lowerBound_rank [OF assms(1) this assms(5)]
  have "lowerBound m k = length (takeWhile (\<lambda>e. keyrank (fst e) < keyrank k) (zip ks (map pid ts)))" .
  also have "\<dots> = length (takeWhile (\<lambda>s. keyrank s < keyrank k) (map fst (zip ks (map pid ts))))" by (simp add: takeWhile_map comp_def)
  finally show ?thesis using assms(2) by (simp add: slot_for_def map_fst_zip_take)
qed

text \<open>What a descent sees of one node: no page, a leaf, or an inner node to go on from.\<close>

definition no_leaf :: int where "no_leaf = sint INVALID_PAGE"

lemma leaf_seen:
  assumes ok: "store_ok {} s" and t: "legible s bits (LeafNode p es)" and pin: "poolPin (int p) s = (Some i, s1)"
  shows "nodeIsLeaf (frame_page i s1)" "looked s (poolUnpin (int p) False s1)" "leaf_entries (frame_page i s1) = es"
proof -
  obtain m where m: "pool_view s p = Some m" "node_rep m True bits es" and p: "p \<in> used_pages s"
    using t by (auto simp: legible_def)
  note r = read_step(2) [OF ok p pin m(1), of i]
  then show "looked s (poolUnpin (int p) False s1)" by simp
  have "node_rep (frame_page i s1) True bits es" using r m(2) node_rep_unusable by simp
  note n = node_repD [OF this]
  show "nodeIsLeaf (frame_page i s1)" by (rule n(6) [THEN iffD2]) simp
  show "leaf_entries (frame_page i s1) = es" using n(3,10,11) by (auto simp: leaf_entries_def intro: nth_equalityI)
qed

lemma inner_seen:
  assumes ok: "store_ok {} s" and t: "legible s bits (InnerNode p ks ts)" and pin: "poolPin (int p) s = (Some i, s1)"
  shows "\<not> nodeIsLeaf (frame_page i s1)" "looked s (poolUnpin (int p) False s1)"
    "k \<in> keys_of_bits bits \<Longrightarrow> child_at (lowerBound (frame_page i s1) k) (frame_page i s1) = pid (ts ! slot_for k ks)"
    "(if nodeKeys (frame_page i s1) > 0 then entryPayload (frame_page i s1) 0 else nodeLastChild (frame_page i s1)) = pid (ts ! 0)"
proof -
  obtain m where m: "pool_view s p = Some m" "node_rep m False bits (zip ks (map pid ts))" "nodeLastChild m = pid (last ts)"
    and t': "length ts = Suc (length ks)" "p \<in> used_pages s" "fenced ks ts" "\<forall>t \<in> set ts. contents t \<noteq> []"
    using inner_page [OF t] by metis
  note r = read_step(2) [OF ok t'(2) pin m(1), of i]
  then show "looked s (poolUnpin (int p) False s1)" by simp
  have rep: "node_rep (frame_page i s1) False bits (zip ks (map pid ts))" "nodeLastChild (frame_page i s1) = pid (last ts)"
    using r m(2,3) node_rep_unusable by auto
  show "\<not> nodeIsLeaf (frame_page i s1)" using node_repD(6) [OF rep(1)] by simp
  note c = node_children [OF rep t'(1)]
  show "child_at (lowerBound (frame_page i s1) k) (frame_page i s1) = pid (ts ! slot_for k ks)" if "k \<in> keys_of_bits bits"
    using node_slot [OF rep(1) t'(1,3,4) that] c(2) [OF slot_for_le] by simp
  show "(if nodeKeys (frame_page i s1) > 0 then entryPayload (frame_page i s1) 0 else nodeLastChild (frame_page i s1)) = pid (ts ! 0)"
    by (rule c(3))
qed

lemma node_unseen:
  assumes "store_ok {} s" "legible s bits t" "poolPin (int (root t)) s = (None, s1)"
  shows "looked s s1"
proof -
  have "\<exists>m. pool_view s (root t) = Some m" "root t \<in> used_pages s" using assms(2) root_in_pages [of t] by (cases t; auto simp: legible_def)+
  then show ?thesis using read_step(1) [OF assms(1) _ assms(3)] by blast
qed

lemma seekLeaf_tree:
  assumes k: "k \<in> keys_of_bits bits"
  shows "store_ok {} s \<Longrightarrow> legible s bits t \<Longrightarrow>
    \<exists>r s'. seekLeaf k (int (root t)) s = Some (r, s') \<and> looked s s' \<and>
      (r = no_leaf \<or> leaf_found t (\<lambda>k'. keyrank k' < keyrank k) r)"
proof (induction t arbitrary: s)
  case (LeafNode p es)
  obtain pr s1 where pin: "poolPin (int p) s = (pr, s1)" by force
  show ?case
  proof (cases pr)
    case None
    then show ?thesis using node_unseen [OF LeafNode.prems] pin by (subst seekLeaf.simps) (simp add: no_leaf_def)
  next
    case (Some i)
    then show ?thesis using leaf_seen [OF LeafNode.prems] pin by (subst seekLeaf.simps) (simp add: leaf_found_leaf Let_def)
  qed
next
  case (InnerNode p ks ts)
  obtain pr s1 where pin: "poolPin (int p) s = (pr, s1)" by force
  show ?case
  proof (cases pr)
    case None
    then show ?thesis using node_unseen [OF InnerNode.prems] pin by (subst seekLeaf.simps) (simp add: no_leaf_def)
  next
    case (Some i)
    note n = inner_seen [OF InnerNode.prems pin [unfolded Some]]
    define at s2 where "at = slot_for k ks" and "s2 = poolUnpin (int p) False s1"
    have fen: "fenced ks ts" "\<forall>t \<in> set ts. contents t \<noteq> []" using inner_page [OF InnerNode.prems(2)] by metis+
    have at: "at < length ts" using slot_for_le [of k ks] fenced_length [OF fen(1)] by (simp add: at_def)
    have look: "looked s s2" using n(2) by (simp add: s2_def)
    note c = legible_child [OF legible_look [OF look InnerNode.prems(2)] at]
    obtain r s' where below: "seekLeaf k (int (root (ts ! at))) s2 = Some (r, s')" "looked s2 s'"
      "r = no_leaf \<or> leaf_found (ts ! at) (\<lambda>k'. keyrank k' < keyrank k) r"
      using InnerNode.IH [OF nth_mem [OF at] _ c(1)] look looked_def [of s s2] by metis
    have "seekLeaf k (int (root (InnerNode p ks ts))) s = Some (r, s')"
      using pin Some n(1) n(3) [OF k] c(2) below(1) by (subst seekLeaf.simps) (simp add: Let_def at_def s2_def)
    moreover have "leaf_found (InnerNode p ks ts) (\<lambda>k'. keyrank k' < keyrank k) r" if "r \<noteq> no_leaf"
    proof (rule leaf_found_child [OF _ at])
      show "leaf_found (ts ! at) (\<lambda>k'. keyrank k' < keyrank k) r" using below(3) that by blast
      fix e assume "e \<in> set (concat (map contents (take at ts)))"
      then obtain t where "t \<in> set (take at ts)" "e \<in> set (contents t)" by auto
      then obtain j where "j < at" "e \<in> set (contents (ts ! j))" using at in_set_conv_nth [of t "take at ts"] by auto
      then show "keyrank (fst e) < keyrank k" using child_key_side(1) [OF fen, of j e k] at by (simp add: at_def)
    qed
    ultimately show ?thesis using looked_trans [OF look below(2)] by blast
  qed
qed

lemma leftmostLeaf_tree:
  "store_ok {} s \<Longrightarrow> legible s bits t \<Longrightarrow>
    \<exists>r s'. leftmostLeaf (int (root t)) s = Some (r, s') \<and> looked s s' \<and> (r = no_leaf \<or> leaf_found t (\<lambda>_. False) r)"
proof (induction t arbitrary: s)
  case (LeafNode p es)
  obtain pr s1 where pin: "poolPin (int p) s = (pr, s1)" by force
  show ?case
  proof (cases pr)
    case None
    then show ?thesis using node_unseen [OF LeafNode.prems] pin by (subst leftmostLeaf.simps) (simp add: no_leaf_def)
  next
    case (Some i)
    then show ?thesis using leaf_seen [OF LeafNode.prems] pin by (subst leftmostLeaf.simps) (simp add: leaf_found_leaf Let_def)
  qed
next
  case (InnerNode p ks ts)
  obtain pr s1 where pin: "poolPin (int p) s = (pr, s1)" by force
  show ?case
  proof (cases pr)
    case None
    then show ?thesis using node_unseen [OF InnerNode.prems] pin by (subst leftmostLeaf.simps) (simp add: no_leaf_def)
  next
    case (Some i)
    note n = inner_seen [OF InnerNode.prems pin [unfolded Some]]
    define s2 where "s2 = poolUnpin (int p) False s1"
    have at: "0 < length ts" using inner_page [OF InnerNode.prems(2)] by (metis zero_less_Suc)
    have look: "looked s s2" using n(2) by (simp add: s2_def)
    note c = legible_child [OF legible_look [OF look InnerNode.prems(2)] at]
    obtain r s' where below: "leftmostLeaf (int (root (ts ! 0))) s2 = Some (r, s')" "looked s2 s'"
      "r = no_leaf \<or> leaf_found (ts ! 0) (\<lambda>_. False) r"
      using InnerNode.IH [OF nth_mem [OF at] _ c(1)] look looked_def [of s s2] by metis
    have "leftmostLeaf (int (root (InnerNode p ks ts))) s = Some (r, s')"
      using pin Some n(1,4) c(2) below(1) by (subst leftmostLeaf.simps) (simp add: Let_def s2_def)
    moreover have "leaf_found (InnerNode p ks ts) (\<lambda>_. False) r" if "r \<noteq> no_leaf"
      by (rule leaf_found_child [OF _ at]) (use below(3) that in auto)
    ultimately show ?thesis using looked_trans [OF look below(2)] by blast
  qed
qed

subsection \<open>Walking the chain\<close>

text \<open>Once an entry is past the range, no later one is in it.\<close>

definition range_ends :: "(storedkey \<Rightarrow> bool) \<Rightarrow> (storedkey \<Rightarrow> bool) \<Rightarrow> entries \<Rightarrow> bool" where
  "range_ends past hit es \<longleftrightarrow> sorted_wrt (\<lambda>a b. past (fst a) \<longrightarrow> \<not> hit (fst b)) es \<and> (\<forall>e \<in> set es. past (fst e) \<longrightarrow> \<not> hit (fst e))"

definition picked :: "(storedkey \<Rightarrow> bool) \<Rightarrow> entries \<Rightarrow> u32 list" where
  "picked hit es = map snd (filter (\<lambda>e. hit (fst e)) es)"

lemma picked_append [simp]: "picked hit (es @ es') = picked hit es @ picked hit es'"
  by (simp add: picked_def)

lemma scan_entries_picked:
  assumes "range_ends past hit (es @ later)"
  shows "case scan_entries past hit mx es rows of
      Ended r \<Rightarrow> r = rows @ picked hit es \<and> picked hit later = [] | Overfull r \<Rightarrow> True | Passed r \<Rightarrow> r = rows @ picked hit es"
  using assms
proof (induction past hit mx es rows rule: scan_entries.induct)
  case (2 past hit mx k w es rows)
  then have "range_ends past hit (es @ later)" by (simp add: range_ends_def)
  moreover have "past k \<Longrightarrow> picked hit ((k, w) # es) = [] \<and> picked hit later = []"
    using "2.prems" by (auto simp: range_ends_def picked_def filter_empty_conv)
  ultimately show ?case using "2.IH" by (auto simp: picked_def split: scan_end.split)
qed (simp add: picked_def)

lemma scan_leaves_along:
  assumes "store_ok {} s" "leaf_chain (pool_view s) bits INVALID_PAGE ls" "fst ` set ls \<subseteq> used_pages s" "\<forall>l \<in> set ls. fst l < 2 ^ 31"
    and "range_ends past hit (concat (map snd ls))"
  shows "\<exists>r rows' s'. scan_leaves past hit mx (case ls of [] \<Rightarrow> no_leaf | l # _ \<Rightarrow> int (fst l)) rows s = Some (r, rows', s') \<and>
    looked s s' \<and> (r = Inr () \<longrightarrow> rows' = rows @ picked hit (concat (map snd ls)))"
  using assms
proof (induction ls arbitrary: rows s)
  case Nil
  then show ?case by (subst scan_leaves.simps) (simp add: no_leaf_def picked_def looked_def)
next
  case (Cons l ls)
  obtain p es where l: "l = (p, es)" by (cases l)
  let ?next = "case ls of [] \<Rightarrow> no_leaf | l # _ \<Rightarrow> int (fst l)"
  obtain m where m: "pool_view s p = Some m" "node_rep m True bits es"
    "nodeNextLeaf m = (case ls of [] \<Rightarrow> INVALID_PAGE | l # _ \<Rightarrow> of_nat (fst l))" and p: "p \<in> used_pages s"
    using Cons.prems(2,3) l by auto
  have nxt: "sint (nodeNextLeaf m) = ?next"
    using m(3) Cons.prems(4) by (cases ls) (simp_all add: no_leaf_def sint_page)
  have pid: "int p \<noteq> sint INVALID_PAGE" by (simp add: INVALID_PAGE_def)
  obtain pr s1 where pin: "poolPin (int p) s = (pr, s1)" by force
  show ?case
  proof (cases pr)
    case None
    then show ?thesis
      using read_step(1) [OF Cons.prems(1) p pin m(1)] pin pid l by (subst scan_leaves.simps) simp
  next
    case (Some i)
    define s2 where "s2 = poolUnpin (int p) False s1"
    have page: "usable (frame_page i s1) = m" "looked s s2"
      using read_step(2) [OF Cons.prems(1) p pin m(1) Some] by (simp_all add: s2_def)
    have "node_rep (frame_page i s1) True bits es" using page(1) m(2) node_rep_unusable by simp
    then have "leaf_entries (frame_page i s1) = es"
      using node_repD(3,10,11) by (auto simp: leaf_entries_def intro: nth_equalityI)
    moreover have "sint (nodeNextLeaf (frame_page i s1)) = ?next" using nxt page(1) links_usable(1) by metis
    ultimately have step: "scan_leaves past hit mx (int p) rows s = (case scan_entries past hit mx es rows of
        Ended rows \<Rightarrow> Some (Inr (), rows, s2) | Overfull rows \<Rightarrow> Some (Inl ERROR_EXEC_TABLE_FULL, rows, s2)
      | Passed rows \<Rightarrow> scan_leaves past hit mx ?next rows s2)"
      using pin Some pid by (subst scan_leaves.simps) (simp add: Let_def s2_def split: scan_end.split)
    have rest: "range_ends past hit (concat (map snd ls))" using Cons.prems(5) l by (simp add: range_ends_def sorted_wrt_append)
    have ok2: "store_ok {} s2" "fst ` set ls \<subseteq> used_pages s2" using page(2) Cons.prems(3) by (auto simp: looked_def)
    have "leaf_chain (pool_view s2) bits INVALID_PAGE ls" by (rule looked_leaf_chain [OF page(2)]) (use Cons.prems(2) l in simp)
    note IH = Cons.IH [OF ok2(1) this ok2(2) _ rest]
    have ends: "case scan_entries past hit mx es rows of
      Ended r \<Rightarrow> r = rows @ picked hit es \<and> picked hit (concat (map snd ls)) = [] | Overfull r \<Rightarrow> True | Passed r \<Rightarrow> r = rows @ picked hit es"
      by (rule scan_entries_picked) (use Cons.prems(5) l in simp)
    have both: "picked hit (concat (map snd (l # ls))) = picked hit es @ picked hit (concat (map snd ls))" by (simp add: l)
    show ?thesis
    proof (cases "scan_entries past hit mx es rows")
      case (Passed r)
      obtain r' rows' s' where "scan_leaves past hit mx ?next r s2 = Some (r', rows', s')" "looked s2 s'"
        "r' = Inr () \<longrightarrow> rows' = r @ picked hit (concat (map snd ls))"
        using IH [of r] Cons.prems(4) by auto
      then show ?thesis using step Passed ends looked_trans [OF page(2)] unfolding both by (auto simp: l)
    qed (use step ends page(2) in \<open>auto simp: l both\<close>)
  qed
qed

subsection \<open>The scans of an index\<close>

text \<open>
  The scan from a leaf: with everything left of it out of the range, its rows are those of all the
  entries in the range. The descent's leaf may also be missing; then there are no rows.
\<close>

lemma index_tree_legible: "index_tree idx bits t s \<Longrightarrow> legible s bits t"
  unfolding index_tree_def legible_def by blast

lemma scan_from_leaf:
  assumes ok: "store_ok {} s" and t: "index_tree idx bits t s" and look: "looked s s1"
    and leaf: "r = no_leaf \<or> leaf_found t below r" and below: "\<And>e. e \<in> set (contents t) \<Longrightarrow> below (fst e) \<Longrightarrow> \<not> hit (fst e)"
    and range: "range_ends past hit (contents t)"
  shows "\<exists>e rows s'. scan_leaves past hit mx r [] s1 = Some (e, rows, s') \<and> looked s s' \<and>
    (e = Inr () \<longrightarrow> rows = (if r = no_leaf then [] else picked hit (contents t)))"
proof (cases "r = no_leaf")
  case True
  then show ?thesis using look by (subst scan_leaves.simps) (simp add: no_leaf_def)
next
  case False
  then obtain A p es B where l: "leaf_list t = A @ (p, es) # B" "r = int p" "\<forall>e \<in> set (concat (map snd A)). below (fst e)"
    using leaf by (auto simp: leaf_found_def)
  have "leaf_chain (pool_view s) bits INVALID_PAGE (leaf_list t)" using t leaf_chain_tree(1) by (auto simp: index_tree_def)
  then have "leaf_chain (pool_view s) bits INVALID_PAGE ((p, es) # B)" unfolding l(1) leaf_chain_append by blast
  note ch = looked_leaf_chain [OF look this]
  have sub: "fst ` set ((p, es) # B) \<subseteq> set (page_list t)" using leaf_list_pages [of t] l(1) by auto
  have pages: "fst ` set ((p, es) # B) \<subseteq> used_pages s1" "\<forall>l \<in> set ((p, es) # B). fst l < 2 ^ 31"
    using sub look t unfolding looked_def index_tree_def ids_fit_def by blast+
  have all: "contents t = concat (map snd A) @ concat (map snd ((p, es) # B))" by (simp add: leaf_list_contents l(1))
  then have "range_ends past hit (concat (map snd ((p, es) # B)))" using range by (simp add: range_ends_def sorted_wrt_append)
  from scan_leaves_along [OF _ ch pages this, of mx "[]"] have "\<exists>e rows s'. scan_leaves past hit mx r [] s1 = Some (e, rows, s') \<and>
      looked s1 s' \<and> (e = Inr () \<longrightarrow> rows = picked hit (concat (map snd ((p, es) # B))))"
    using look l(2) by (simp add: looked_def)
  moreover have "picked hit (concat (map snd A)) = []" 
    unfolding picked_def map_is_Nil_conv filter_empty_conv
  proof
    fix e assume "e \<in> set (concat (map snd A))"
    then show "\<not> hit (fst e)" using l(3) below [of e] all by auto
  qed
  then have "picked hit (contents t) = picked hit (concat (map snd ((p, es) # B)))" unfolding all by simp
  ultimately show ?thesis using False looked_trans [OF look] by fastforce
qed

lemma sorted_later:
  assumes "sorted (ranks es)" "\<And>a b. a \<in> set es \<Longrightarrow> b \<in> set es \<Longrightarrow> keyrank (fst a) \<le> keyrank (fst b) \<Longrightarrow> past (fst a) \<Longrightarrow> \<not> hit (fst b)"
  shows "range_ends past hit es"
proof -
  have "sorted_wrt (\<lambda>a b. keyrank (fst a) \<le> keyrank (fst b)) es" using assms(1) by (simp add: ranks_def sorted_wrt_map)
  then have "sorted_wrt (\<lambda>a b. past (fst a) \<longrightarrow> \<not> hit (fst b)) es"
    by (rule sorted_wrt_mono_rel [rotated]) (use assms(2) in blast)
  then show ?thesis using assms(2) by (auto simp: range_ends_def)
qed

lemma tree_entries:
  assumes "index_tree idx bits t s"
  shows "sorted (ranks (contents t))" "e \<in> set (contents t) \<Longrightarrow> fst e \<in> keys_of_bits bits"
  using ordered_contents [of bits t] assms unfolding index_tree_def by auto

definition ranges :: "compareop set" where "ranges = {OP_EQ, OP_LT, OP_LTE, OP_GT, OP_GTE}"

definition open_left :: "compareop \<Rightarrow> bool" where "open_left op \<longleftrightarrow> op = OP_LT \<or> op = OP_LTE"

text \<open>Where a scan starts, and what it then returns.\<close>

definition scan_start :: "index \<Rightarrow> compareop \<Rightarrow> Value \<Rightarrow> pool \<Rightarrow> (int \<times> pool) option" where
  "scan_start idx op key s =
     (if open_left op then leftmostLeaf (rootPage idx) s else seekLeaf (makeKey key) (rootPage idx) s)"

lemma indexScan_tree:
  assumes ok: "store_ok {} s" and t: "index_tree idx bits t s" and key: "makeKey key \<in> keys_of_bits bits" and op: "op \<in> ranges"
  shows "\<exists>leaf s1 e rows s'. scan_start idx op key s = Some (leaf, s1) \<and> indexScan idx op key mx s = Some (e, rows, s') \<and> looked s s' \<and>
    (e = Inr () \<longrightarrow> rows = (if leaf = no_leaf then [] else picked (scan_hit op (makeKey key)) (contents t)))"
proof -
  let ?k = "makeKey key" and ?below = "if open_left op then (\<lambda>_. False) else (\<lambda>k'. keyrank k' < keyrank (makeKey key))"
  have root: "rootPage idx = int (root t)" using t by (simp add: index_tree_def)
  obtain leaf s1 where start: "scan_start idx op key s = Some (leaf, s1)" "looked s s1" "leaf = no_leaf \<or> leaf_found t ?below leaf"
    using seekLeaf_tree [OF key ok index_tree_legible [OF t]] leftmostLeaf_tree [OF ok index_tree_legible [OF t]]
    by (cases "open_left op") (auto simp: scan_start_def root)
  note e = tree_entries [OF t]
  have hit: "scan_hit op ?k k' \<longleftrightarrow> (if op = OP_EQ then keyrank k' = keyrank ?k else if open_left op then keyrank k' \<le> keyrank ?k
      else keyrank ?k \<le> keyrank k')" if "k' \<in> keys_of_bits bits" for k'
    using op keyrank_le [OF that key] by (auto simp: scan_hit_def ranges_def open_left_def Let_def)
  have past: "scan_past op ?k k' \<longleftrightarrow> keyrank ?k < keyrank k' \<and> (op = OP_EQ \<or> open_left op)" if "k' \<in> keys_of_bits bits" for k'
    using keyrank_le [OF that key] by (auto simp: scan_past_def open_left_def)
  have "range_ends (scan_past op ?k) (scan_hit op ?k) (contents t)"
    by (rule sorted_later [OF e(1)]) (auto simp: hit past e(2))
  moreover have "\<not> scan_hit op ?k (fst x)" if "x \<in> set (contents t)" "?below (fst x)" for x
    using that hit [OF e(2) [OF that(1)]] by (auto split: if_splits simp: open_left_def)
  ultimately obtain r rows s' where "scan_leaves (scan_past op ?k) (scan_hit op ?k) mx leaf [] s1 = Some (r, rows, s')" "looked s s'"
    "r = Inr () \<longrightarrow> rows = (if leaf = no_leaf then [] else picked (scan_hit op ?k) (contents t))"
    using scan_from_leaf [OF ok t start(2,3), of "scan_hit op ?k" "scan_past op ?k" mx] by blast
  then show ?thesis using start(1) by (auto simp: indexScan_def scan_start_def open_left_def Let_def split: if_splits)
qed

text \<open>The same for a prefix of a text: its own order on texts, which the one on stored keys is.\<close>

fun against :: "string \<Rightarrow> string \<Rightarrow> int" where
  "against x [] = 0"
| "against [] (b # y) = -1"
| "against (a # x) (b # y) = (if a < b then -1 else if b < a then 1 else against x y)"

lemma against_zero: "against x y = 0 \<longleftrightarrow> take (length y) x = y"
  by (induction x y rule: against.induct) auto

lemma against_memcmp:
  "against x y = (if memcmp x y = 0 \<and> length x < length y then -1 else memcmp x y)"
  by (induction x y rule: against.induct) (auto simp: less_char_def)

lemma against_below: "compareText x y < 0 \<Longrightarrow> against x y < 0"
proof (induction x y rule: against.induct)
  case (1 x)
  then show ?case by (cases x) simp_all
qed (auto split: if_splits)

lemma against_mono: "against x y > 0 \<Longrightarrow> compareText x z \<le> 0 \<Longrightarrow> against z y > 0"
proof (induction x y arbitrary: z rule: against.induct)
  case (3 a x b y)
  then show ?case by (cases z) (auto split: if_splits)
qed (auto split: if_splits)

lemma prefix_order_texts: "prefix_order (text_key t y) (text_key t' x) = against (take 40 x) (take 40 y)"
proof -
  have len: "storedLength (text_key u w) = length (take 40 w)" for u w by (simp add: text_key_def)
  have bytes: "map char_of_byte (take n (kbytes (text_key u w))) = take n (take 40 w)" if "n \<le> storedLength (text_key u w)" for n u w
  proof -
    have "take n (kbytes (text_key u w)) = take n (take (storedLength (text_key u w)) (kbytes (text_key u w)))"
      using that by (simp add: min_def)
    then show ?thesis using text_key_bytes [of u w] by (metis take_map)
  qed
  show ?thesis
    unfolding prefix_order_def against_memcmp Let_def
    by (simp add: bytes len memcmp_take del: length_take take_take)
qed

lemma indexPrefixScan_tree:
  assumes ok: "store_ok {} s" and t: "index_tree idx NODE_TEXT t s" and len: "length u < 2 ^ 31"
  shows "\<exists>leaf s1 e rows s'. seekLeaf (text_key 1 u) (rootPage idx) s = Some (leaf, s1) \<and>
    indexPrefixScan idx u mx s = Some (e, rows, s') \<and> looked s s' \<and>
    (e = Inr () \<longrightarrow> rows = (if leaf = no_leaf then [] else picked (\<lambda>k. prefix_order (text_key 1 u) k = 0) (contents t)))"
proof -
  let ?k = "text_key 1 u"
  have key: "?k \<in> keys_of_bits NODE_TEXT" and made: "makeKey (blank_value\<lparr>vtype := TYPE_TEXT, vtext := u\<rparr>) = ?k"
    using len by (auto simp: keys_of_bits_def makeKey_def NODE_TEXT_def NODE_FLOAT_def)
  have root: "rootPage idx = int (root t)" using t by (simp add: index_tree_def)
  obtain leaf s1 where start: "seekLeaf ?k (rootPage idx) s = Some (leaf, s1)" "looked s s1"
    "leaf = no_leaf \<or> leaf_found t (\<lambda>k'. keyrank k' < keyrank ?k) leaf"
    using seekLeaf_tree [OF key ok index_tree_legible [OF t]] by (auto simp: root)
  note e = tree_entries [OF t]
  have textual: "\<exists>x. k' = text_key 1 x" if "k' \<in> keys_of_bits NODE_TEXT" for k'
    using that by (auto simp: keys_of_bits_def NODE_TEXT_def NODE_FLOAT_def)
  have le: "compareText (take 40 x) (take 40 z) \<le> 0" if "keyrank (text_key 1 x) \<le> keyrank (text_key 1 z)" for x z
    using that compareText_rank [of "take 40 z" "take 40 x"] compareText_swap [of "take 40 z" "take 40 x"]
    by (simp add: keyrank_text flip: not_less)
  have "range_ends (\<lambda>k. prefix_order ?k k > 0) (\<lambda>k. prefix_order ?k k = 0) (contents t)"
  proof (rule sorted_later [OF e(1)])
    fix a b assume ab: "a \<in> set (contents t)" "b \<in> set (contents t)" "keyrank (fst a) \<le> keyrank (fst b)" "0 < prefix_order ?k (fst a)"
    obtain x z where "fst a = text_key 1 x" "fst b = text_key 1 z"
      using textual [OF e(2) [OF ab(1)]] textual [OF e(2) [OF ab(2)]] by blast
    then show "\<not> prefix_order ?k (fst b) = 0"
      using against_mono [of "take 40 x" "take 40 u" "take 40 z"] le [of x z] ab(3,4) by (simp add: prefix_order_texts)
  qed
  moreover have "\<not> prefix_order ?k (fst x) = 0" if x: "x \<in> set (contents t)" "keyrank (fst x) < keyrank ?k" for x
  proof -
    obtain y where y: "fst x = text_key 1 y" using textual [OF e(2) [OF x(1)]] by blast
    then show ?thesis
      using x(2) against_below [of "take 40 y" "take 40 u"] compareText_rank [of "take 40 y" "take 40 u"]
      by (simp add: keyrank_text prefix_order_texts)
  qed
  ultimately obtain r rows s' where
    "scan_leaves (\<lambda>k. prefix_order ?k k > 0) (\<lambda>k. prefix_order ?k k = 0) mx leaf [] s1 = Some (r, rows, s')" "looked s s'"
    "r = Inr () \<longrightarrow> rows = (if leaf = no_leaf then [] else picked (\<lambda>k. prefix_order ?k k = 0) (contents t))"
    using scan_from_leaf [OF ok t start(2,3), of "\<lambda>k. prefix_order ?k k = 0" "\<lambda>k. prefix_order ?k k > 0" mx] by blast
  then show ?thesis using start(1) by (auto simp: indexPrefixScan_def made Let_def)
qed

end
