(* ===== verification/IndexAnswers.thy ===== *)
theory IndexAnswers
  imports IndexScan PoolDurability
begin

text \<open>
  The index at the level of values: adding a row, and the rows a comparison gets from it. A scan
  that finds its first leaf misses no row whose value meets the comparison, NaN and the negative
  zero apart; the pages of everybody else are left alone.
\<close>

subsection \<open>Values and the keys that stand for them\<close>

text \<open>The values that sort as their keys do.\<close>

definition ordinary :: "Value \<Rightarrow> bool" where
  "ordinary v \<longleftrightarrow> vtype v \<in> {TYPE_INT, TYPE_TEXT, TYPE_FLOAT, TYPE_DATE} \<and> (vtype v = TYPE_FLOAT \<longrightarrow>
     \<not> fl_nan (floatValue v) \<and> (fl_magnitude (floatValue v) = 0 \<longrightarrow> \<not> fl_sign (floatValue v)))"

lemma take_below: "take n y < take n x \<Longrightarrow> y < (x :: nat list)"
proof (induction n arbitrary: x y)
  case (Suc n)
  then show ?case by (cases x; cases y) auto
qed simp

lemma key_below:
  assumes "vtype a = vtype b" "makeKey a \<in> keys_of_bits bits" "makeKey b \<in> keys_of_bits bits" "ordinary a" "ordinary b"
    and "keyrank (makeKey a) < keyrank (makeKey b)"
  shows "compareValues a b < 0"
proof -
  have less: "compareKeys (makeKey a) (makeKey b) < 0" using keyrank_less [OF assms(2,3)] assms(6) by simp
  show ?thesis
  proof (cases "vtype b")
    case TYPE_FLOAT
    then have "floatOrder (floatValue a) < floatOrder (floatValue b)" using less assms(1) by (auto simp: makeKey_def split: if_splits)
    moreover have "fl_key (floatValue a) = fl_key (floatValue b) \<Longrightarrow> floatValue a = floatValue b"
      using assms(4,5) TYPE_FLOAT assms(1) by (auto simp: ordinary_def fl_key_eq_iff intro: fl_bits_eqI)
    ultimately have "fl_key (floatValue a) < fl_key (floatValue b)" by (auto simp: floatOrder_less)
    then show ?thesis using assms(1,4,5) TYPE_FLOAT by (simp add: compareValues_def intLike_def fl_less_def ordinary_def)
  next
    case TYPE_TEXT
    then have k: "makeKey a = text_key 1 (vtext a)" "makeKey b = text_key 1 (vtext b)" using assms(1) by (simp_all add: makeKey_def)
    then have "take 40 (map of_char (vtext a)) < (take 40 (map of_char (vtext b)) :: nat list)"
      using assms(6) by (simp add: keyrank_text take_map)
    then have "map of_char (vtext a) < (map of_char (vtext b) :: nat list)" by (rule take_below)
    then show ?thesis using compareText_rank TYPE_TEXT assms(1) by (simp add: compareValues_def intLike_def)
  qed (use less assms(1,5) in \<open>simp_all add: ordinary_def makeKey_def compareValues_def intLike_def sgn_if split: if_splits\<close>)
qed

lemma compareValues_flip: "vtype a = vtype b \<Longrightarrow> compareValues a b < 0 \<longleftrightarrow> compareValues b a > 0"
  using compareText_swap [of "vtext a" "vtext b"] by (auto simp: compareValues_def fl_less_def)

lemma same_not_below: "vtype a = vtype b \<Longrightarrow> valuesSame a b \<Longrightarrow> \<not> compareValues a b < 0 \<and> \<not> compareValues b a < 0"
  by (auto simp: valuesSame_def compareValues_def intLike_def fl_eq_def fl_less_def memcmp_zero)

lemma scan_hit_of_predicate:
  assumes "vtype v = vtype key" "makeKey v \<in> keys_of_bits bits" "makeKey key \<in> keys_of_bits bits" "ordinary v" "ordinary key"
    and "op \<in> ranges" "comparePredicate v key op = Some TRI_TRUE"
  shows "scan_hit op (makeKey key) (makeKey v)"
proof -
  have low: "keyrank (makeKey v) < keyrank (makeKey key) \<Longrightarrow> compareValues v key < 0"
    by (rule key_below [OF assms(1-5)])
  have high: "keyrank (makeKey key) < keyrank (makeKey v) \<Longrightarrow> compareValues key v < 0"
    by (rule key_below [OF assms(1) [symmetric] assms(3,2,5,4)])
  have flip: "compareValues key v < 0 \<longleftrightarrow> compareValues v key > 0"
    by (rule compareValues_flip) (simp add: assms(1))
  note k = keyrank_le [OF assms(2,3)]
  have true: "tri_of b = TRI_TRUE \<longleftrightarrow> b" for b by (simp add: tri_of_def)
  show ?thesis
    using assms(6,7) low high flip k same_not_below [OF assms(1)] unfolding ranges_def
    by (auto simp: comparePredicate_def scan_hit_def Let_def true split: if_splits) (meson linorder_neqE not_le)+
qed

subsection \<open>The properties\<close>

text \<open>
  C30: inserting refines inserting into the sorted entries. On the pages of an ordered tree
  \<open>indexInsert\<close> always returns; where it succeeds and page ids still fit a C int, the pages are those
  of an ordered tree again, under whatever root the splits left, its entries are the old ones with
  the new one where the order puts it, and every page of others is as it was.
\<close>
theorem index_insert_refines:
  assumes "store_ok {} s" "index_tree idx bits t s" "\<not> isNull v" "makeKey v \<in> keys_of_bits bits"
  shows "\<exists>r idx' s'. indexInsert idx v pos s = Some (r, idx', s') \<and>
    (r = Inr () \<longrightarrow> (\<forall>x \<in> used_pages s'. x < 2 ^ 31) \<longrightarrow> store_ok {} s' \<and>
      (\<exists>t'. index_tree idx' bits t' s' \<and> contents t' = ins (makeKey v) pos (contents t)) \<and>
      (\<forall>x \<in> used_pages s - set (page_list t). x \<in> used_pages s' \<and>
         (\<forall>m. pool_view s x = Some m \<longrightarrow> pool_view s' x = Some m)))"
  using indexInsert_tree [OF assms, of pos] unfolding held.keeps_def by blast

text \<open>
  C31: a scan misses nothing. From an ordered tree \<open>indexScan\<close> always returns; where it reports success
  and its descent found a leaf, every position entered under a value that meets the comparison is
  among its rows. NaN and the negative zero are left out: their keys sort differently.
\<close>
theorem index_scan_covers:
  assumes "store_ok {} s" "index_tree idx bits t s" "makeKey key \<in> keys_of_bits bits" "ordinary key" "op \<in> ranges"
  shows "\<exists>leaf s1 e rows s'. scan_start idx op key s = Some (leaf, s1) \<and> indexScan idx op key mx s = Some (e, rows, s') \<and>
    (e = Inr () \<longrightarrow> leaf \<noteq> no_leaf \<longrightarrow>
      (\<forall>v pos. (makeKey v, pos) \<in> set (contents t) \<longrightarrow> ordinary v \<longrightarrow> vtype v = vtype key \<longrightarrow>
         comparePredicate v key op = Some TRI_TRUE \<longrightarrow> pos \<in> set rows))"
proof -
  obtain leaf s1 e rows s' where run: "scan_start idx op key s = Some (leaf, s1)" "indexScan idx op key mx s = Some (e, rows, s')"
    and rows: "e = Inr () \<longrightarrow> rows = (if leaf = no_leaf then [] else picked (scan_hit op (makeKey key)) (contents t))"
    using indexScan_tree [OF assms(1-3,5), of mx] by blast
  have "pos \<in> set (picked (scan_hit op (makeKey key)) (contents t))"
    if entry: "(makeKey v, pos) \<in> set (contents t)" and v: "ordinary v" "vtype v = vtype key" "comparePredicate v key op = Some TRI_TRUE" for v pos
  proof -
    have "makeKey v \<in> keys_of_bits bits" using tree_entries(2) [OF assms(2) entry] by simp
    then have "scan_hit op (makeKey key) (makeKey v)"
      by (rule scan_hit_of_predicate [OF v(2) _ assms(3) v(1) assms(4,5) v(3)])
    then show ?thesis using entry by (force simp: picked_def)
  qed
  then show ?thesis using run rows by auto
qed

text \<open>
  What success leaves open: a descent that cannot pin the root has no leaf, and the scan reports
  success with no rows, whatever the tree holds.
\<close>

theorem unpinned_scan_is_empty:
  assumes "poolPin (rootPage idx) s = (None, s1)"
  shows "indexScan idx op key mx s = Some (Inr (), [], s1)"
  using assms by (auto simp: indexScan_def Let_def leftmostLeaf.simps [of "rootPage idx"] seekLeaf.simps [of _ "rootPage idx"]
      scan_leaves.simps [of _ _ _ "sint INVALID_PAGE"])

text \<open>The two zeros are equal values and different keys.\<close>

definition float_value :: "double \<Rightarrow> Value" where
  "float_value x = blank_value\<lparr>vtype := TYPE_FLOAT, floatValue := x\<rparr>"

theorem zeros_are_different_keys:
  "valuesSame (float_value 0) (float_value 0x8000000000000000) \<and>
   compareKeys (makeKey (float_value 0)) (makeKey (float_value 0x8000000000000000)) \<noteq> 0"
proof -
  have "fl_magnitude 0 = 0" "fl_magnitude 0x8000000000000000 = 0" by (simp_all add: fl_magnitude_def)
  then have same: "fl_eq 0 0x8000000000000000" by (simp add: fl_eq_def fl_nan_def fl_key_def)
  have "floatOrder 0 \<noteq> floatOrder 0x8000000000000000" by (simp add: floatOrder_def)
  then show ?thesis using same by (auto simp: float_value_def valuesSame_def intLike_def makeKey_def)
qed

subsection \<open>Witnesses\<close>

definition demo_index :: index where
  "demo_index = \<lparr>index_name = ''i'', index_table = ''t'', index_column = ''n'', index_slot = 0, rootPage = 1, keyCount = 0\<rparr>"

definition int_value :: "i32 \<Rightarrow> Value" where "int_value n = blank_value\<lparr>intValue := n\<rparr>"

lemma int_value_key: "makeKey (int_value n) \<in> keys_of_bits 0" "\<not> isNull (int_value n)" "ordinary (int_value n)"
  by (simp_all add: int_value_def blank_value_def makeKey_def keys_of_bits_def ordinary_def NODE_TEXT_def NODE_FLOAT_def)

lemma demo_node: "\<exists>s. newNode True 0 demo_pool = (Inr 1, s) \<and> fst (poolPin 1 s) \<noteq> None"
  by (simp add: newNode_def andThen_def demo_alloc poolPin_def pinLocked_def findFrame_def write_page_def update_frame_def
      poolUnpin_def unpinLocked_def frame_page_def demo_frame1_def)

lemma demo_tree: "\<exists>s. store_ok {} s \<and> index_tree demo_index 0 (LeafNode 1 []) s \<and> fst (poolPin 1 s) \<noteq> None"
proof -
  obtain s where s: "newNode True 0 demo_pool = (Inr 1, s)" "fst (poolPin 1 s) \<noteq> None" using demo_node by blast
  have "store_ok {} demo_pool" using demo_good by (simp add: store_ok_def)
  note n = newNode_step [OF this s(1)]
  have "0 < node_room 0" using node_room_small [of 0] by simp
  then have "index_tree demo_index 0 (LeafNode 1 []) s"
    using n by (auto simp: index_tree_def demo_index_def ranks_def ids_fit_def)
  then show ?thesis using n(1) s(2) by auto
qed

lemma index_tree_look: "looked s s' \<Longrightarrow> index_tree idx bits t s \<Longrightarrow> index_tree idx bits t s'"
  unfolding index_tree_def using looked_tree [of s s' bits INVALID_PAGE t] by (simp add: looked_def)

text \<open>On the demo pool page 1 stays in frame 0, and pinning it works.\<close>

definition at_hand :: "pool \<Rightarrow> bool" where
  "at_hand s \<longleftrightarrow> 1 < length (pageFrame s) \<and> pageFrame s ! 1 = Some 0 \<and> pageCount s = 2"

lemma at_hand_steps:
  assumes "at_hand s"
  shows "\<exists>s'. poolPin 1 s = (Some 0, s') \<and> at_hand s'" "at_hand (poolUnpin 1 d s)" "at_hand (write_page i g s)"
  using assms by (simp_all add: at_hand_def poolPin_def pinLocked_def poolUnpin_def unpinLocked_def write_page_def
      update_frame_def findFrame_def)

lemma demo_at_hand: "newNode True 0 demo_pool = (Inr 1, s) \<Longrightarrow> at_hand s"
  by (auto simp: newNode_def andThen_def demo_alloc poolPin_def pinLocked_def findFrame_def write_page_def update_frame_def
      poolUnpin_def unpinLocked_def frame_page_def demo_frame1_def at_hand_def)

text \<open>Five inserted at position seven: the tree is one leaf with that entry.\<close>

lemma demo_run:
  "\<exists>s idx s'. store_ok {} s \<and> index_tree demo_index 0 (LeafNode 1 []) s \<and>
     indexInsert demo_index (int_value 5) 7 s = Some (Inr (), idx, s') \<and> at_hand s' \<and> store_ok {} s' \<and>
     index_tree idx 0 (LeafNode 1 [(makeKey (int_value 5), 7)]) s' \<and> rootPage idx = 1"
proof -
  let ?k = "makeKey (int_value 5)"
  obtain s where s: "newNode True 0 demo_pool = (Inr 1, s)" using demo_node by blast
  have "store_ok {} demo_pool" using demo_good by (simp add: store_ok_def)
  note n = newNode_step [OF this s(1)]
  have room: "157 \<le> node_room 0" using node_room_small [of 0] by simp
  then have t: "index_tree demo_index 0 (LeafNode 1 []) s"
    using n by (auto simp: index_tree_def demo_index_def ranks_def ids_fit_def)
  have ok: "store_ok {} s" and p: "1 \<in> used_pages s" using n(1,3) by simp_all
  obtain s1 where pin: "poolPin 1 s = (Some 0, s1)" "at_hand s1" using at_hand_steps(1) [OF demo_at_hand [OF s]] by blast
  obtain m where m: "pool_view s 1 = Some m" "node_rep m True 0 []" "nodeNextLeaf m = INVALID_PAGE" using t by (auto simp: index_tree_def)
  note a = held.pin_step [of "{}" s 1 0 s1, OF ok p]
  have us: "usable (frame_page 0 s1) = m" using a(6) [OF _ m(1)] pin(1) by simp
  have page: "node_rep (frame_page 0 s1) True 0 []" "nodeNextLeaf (frame_page 0 s1) = INVALID_PAGE"
    using us m(2,3) node_rep_unusable links_usable(1) by metis+
  note d = node_repD [OF page(1)]
  have low: "lowerBound (frame_page 0 s1) ?k = 0"
    using lowerBound_rank [OF page(1) _ int_value_key(1)] by (simp add: ranks_def)
  define s2 s3 where "s2 = write_page 0 (insert_entry 0 ?k 7) s1" and "s3 = poolUnpin 1 True s2"
  have run: "insertIntoLeaf 0 ?k 7 s1 = (Inr None, s2)"
    using d(3,9) room by (simp add: insertIntoLeaf_def Let_def low s2_def)
  have ins: "indexInsert demo_index (int_value 5) 7 s = Some (Inr (), demo_index\<lparr>keyCount := 1\<rparr>, s3)"
    using pin(1) d(6) run int_value_key(2) [of 5]
    by (simp add: indexInsert_def Let_def demo_index_def insertInto.simps [of 1] s3_def)
  note e = insert_entry_rep [OF page(1) _ _ int_value_key(1), of 0 5 7, simplified]
  note b = held.poke_step [of "{}" s1 1 0 "insert_entry 0 ?k 7", folded s2_def]
  have home: "store_ok {} s1" "home_frame s1 1 0" using a pin(1) by simp_all
  have s2ok: "store_ok {0} s2" "home_frame s2 1 0" using b [OF home] by simp_all
  note u = held.unpin_step [OF s2ok, of True, simplified, folded One_nat_def, folded s3_def]
  have "pool_view s3 1 = Some (usable (insert_entry 0 ?k 7 (frame_page 0 s1)))" using u(2) b(2) [OF home] by simp
  moreover have "used_pages s3 = used_pages s" using u(3) b(3) [OF home] a(3) pin(1) by simp
  ultimately have "index_tree (demo_index\<lparr>keyCount := 1\<rparr>) 0 (LeafNode 1 [(?k, 7)]) s3"
    using p room e page(2) node_rep_usable int_value_key(1) [of 5]
    by (auto simp: index_tree_def demo_index_def ranks_def ids_fit_def)
  moreover have "at_hand s3" using at_hand_steps(2,3) pin(2) by (simp add: s3_def s2_def)
  moreover have "store_ok {} s3" using u(1) by simp
  moreover have "rootPage (demo_index\<lparr>keyCount := 1\<rparr>) = 1" by (simp add: demo_index_def)
  ultimately show ?thesis using ok t ins by blast
qed

theorem index_insert_refines_witness:
  "\<exists>s idx s'. store_ok {} s \<and> index_tree demo_index 0 (LeafNode 1 []) s \<and>
     indexInsert demo_index (int_value 5) 7 s = Some (Inr (), idx, s') \<and>
     (\<exists>t'. index_tree idx 0 t' s' \<and> contents t' = [(makeKey (int_value 5), 7)])"
proof -
  obtain s idx s' where s: "store_ok {} s" "index_tree demo_index 0 (LeafNode 1 []) s"
    "indexInsert demo_index (int_value 5) 7 s = Some (Inr (), idx, s')" "at_hand s'"
    using demo_run by blast
  have fit: "\<forall>x \<in> used_pages s'. x < 2 ^ 31" using s(4) by (auto simp: used_pages_def at_hand_def)
  have "\<exists>t'. index_tree idx 0 t' s' \<and> contents t' = ins (makeKey (int_value 5)) 7 []"
    using index_insert_refines [OF s(1,2) int_value_key(2,1) [of 5], of 7] s(3) fit by auto
  then show ?thesis using s by (auto simp: ins_def)
qed

theorem index_scan_covers_witness:
  "\<exists>s idx t rows s'. store_ok {} s \<and> index_tree idx 0 t s \<and> contents t = [(makeKey (int_value 5), 7)] \<and>
     indexScan idx OP_GTE (int_value 3) 8 s = Some (Inr (), rows, s') \<and> 7 \<in> set rows"
proof -
  let ?t = "LeafNode 1 [(makeKey (int_value 5), 7)]" and ?k = "makeKey (int_value 3)"
  obtain s idx where s: "store_ok {} s" "index_tree idx 0 ?t s" "at_hand s" "rootPage idx = 1"
    using demo_run by blast
  have range: "OP_GTE \<in> ranges" by (simp add: ranges_def)
  obtain leaf s1 e rows s' where start: "scan_start idx OP_GTE (int_value 3) s = Some (leaf, s1)"
    and scan: "indexScan idx OP_GTE (int_value 3) 8 s = Some (e, rows, s')"
    and rows: "e = Inr () \<longrightarrow> leaf \<noteq> no_leaf \<longrightarrow> (\<forall>v pos. (makeKey v, pos) \<in> set (contents ?t) \<longrightarrow> ordinary v \<longrightarrow>
      vtype v = vtype (int_value 3) \<longrightarrow> comparePredicate v (int_value 3) OP_GTE = Some TRI_TRUE \<longrightarrow> pos \<in> set rows)"
    using index_scan_covers [OF s(1,2) int_value_key(1,3) [of 3] range, of 8] by blast
  obtain t1 where pin: "poolPin 1 s = (Some 0, t1)" "at_hand t1" using at_hand_steps(1) [OF s(3)] by blast
  note leaf1 = leaf_seen [OF s(1) index_tree_legible [OF s(2)], of 0 t1]
  have seek: "seekLeaf ?k 1 s = Some (1, poolUnpin 1 False t1)" using pin(1) leaf1 by (simp add: seekLeaf.simps [of _ 1] Let_def)
  then have leaf: "leaf = 1" using start s(4) by (simp add: scan_start_def open_left_def)
  obtain t2 where pin2: "poolPin 1 (poolUnpin 1 False t1) = (Some 0, t2)" using at_hand_steps(1) [OF at_hand_steps(2) [OF pin(2)]] by blast
  have two: "store_ok {} (poolUnpin 1 False t1)" "index_tree idx 0 ?t (poolUnpin 1 False t1)"
    using leaf1(2) pin(1) index_tree_look [OF _ s(2)] by (simp_all add: looked_def)
  note leaf2 = leaf_seen [OF two(1) index_tree_legible [OF two(2)], of 0 t2]
  obtain m where m: "pool_view (poolUnpin 1 False t1) 1 = Some m" "nodeNextLeaf m = INVALID_PAGE"
    using two(2) by (auto simp: index_tree_def)
  have "usable (frame_page 0 t2) = m" using read_step(2) [of _ 1 "Some 0" t2 m 0] two pin2 m(1) by (simp add: index_tree_def)
  then have link: "nodeNextLeaf (frame_page 0 t2) = INVALID_PAGE" using m(2) links_usable(1) by metis
  have entries: "leaf_entries (frame_page 0 t2) = [(makeKey (int_value 5), 7)]" using leaf2(3) pin2 by simp
  have hit: "scan_hit OP_GTE ?k (makeKey (int_value 5))" "\<not> scan_past OP_GTE ?k (makeKey (int_value 5))"
    by (simp_all add: scan_hit_def scan_past_def int_value_def makeKey_def blank_value_def)
  have "sint INVALID_PAGE \<noteq> 1" by (simp add: INVALID_PAGE_def)
  then have "e = Inr ()"
    using scan s(4) seek pin2 entries link hit
    by (simp add: indexScan_def Let_def scan_leaves.simps [of _ _ _ 1] scan_leaves.simps [of _ _ _ "sint INVALID_PAGE"])
  moreover have "comparePredicate (int_value 5) (int_value 3) OP_GTE = Some TRI_TRUE"
    by (simp add: comparePredicate_def int_value_def blank_value_def compareValues_def intLike_def tri_of_def)
  ultimately have "7 \<in> set rows" using rows leaf int_value_key(3) [of 5] by (auto simp: no_leaf_def INVALID_PAGE_def int_value_def)
  then show ?thesis using s scan \<open>e = Inr ()\<close> by (intro exI [of _ s] exI [of _ idx] exI [of _ ?t]) auto
qed

end
