(* ===== verification/Actions.thy ===== *)
theory Actions
  imports Prelude
begin

text \<open>
  Steps of the stages behind the parser: a step reads and changes a state and ends with a value or
  an error code; \<open>None\<close> is a step that does not return. An error ends the steps behind it and keeps the
  state as it then is, which is how the code's early returns behave.
\<close>

type_synonym ('s, 'a) action = "'s \<Rightarrow> ((error + 'a) \<times> 's) option"

definition passed :: "'a \<Rightarrow> ('s, 'a) action" where "passed x s = Some (Inr x, s)"
definition failed :: "error \<Rightarrow> ('s, 'a) action" where "failed e s = Some (Inl e, s)"

definition andDo :: "('s, 'a) action \<Rightarrow> ('a \<Rightarrow> ('s, 'b) action) \<Rightarrow> ('s, 'b) action" where
  "andDo m k s =
     (case m s of None \<Rightarrow> None | Some (Inl e, s) \<Rightarrow> Some (Inl e, s) | Some (Inr x, s) \<Rightarrow> k x s)"

definition yielding :: "error + 'a \<Rightarrow> ('s, 'a) action" where "yielding r s = Some (r, s)"
definition reading :: "('s \<Rightarrow> ('s, 'a) action) \<Rightarrow> ('s, 'a) action" where "reading f s = f s s"
definition changing :: "('s \<Rightarrow> 's) \<Rightarrow> ('s, unit) action" where "changing f s = Some (Inr (), f s)"

text \<open>A step that is not an action of the state yet: its result and the next state.\<close>

definition stepping :: "('s \<Rightarrow> (error + 'a) \<times> 's) \<Rightarrow> ('s, 'a) action" where "stepping f s = Some (f s)"
definition trying :: "('s \<Rightarrow> ((error + 'a) \<times> 's) option) \<Rightarrow> ('s, 'a) action" where "trying f s = f s"

text \<open>The result is looked at by the caller, error or not.\<close>

definition caught :: "('s, 'a) action \<Rightarrow> (error + 'a \<Rightarrow> ('s, 'b) action) \<Rightarrow> ('s, 'b) action" where
  "caught m k s = (case m s of None \<Rightarrow> None | Some (r, s) \<Rightarrow> k r s)"

definition ensure :: "bool \<Rightarrow> error \<Rightarrow> ('s, unit) action" where
  "ensure b e = (if b then passed () else failed e)"

lemma action_simps [simp]:
  "passed x s = Some (Inr x, s)" "failed e s = Some (Inl e, s)" "yielding r s = Some (r, s)" "changing f s = Some (Inr (), f s)"
  "stepping g s = Some (g s)" "trying h s = h s" "reading k s = k s s"
  by (simp_all add: passed_def failed_def yielding_def changing_def stepping_def trying_def reading_def)

lemma ensure_simps [simp]: "ensure True e = passed ()" "ensure False e = failed e"
  by (simp_all add: ensure_def)

lemma andDo_simps [simp]: "andDo (passed x) k = k x" "andDo (failed e) k = failed e"
  by (simp_all add: andDo_def fun_eq_iff)

text \<open>What a step ended with tells how its parts did.\<close>

lemma andDo_Inr: "andDo m k s = Some (Inr y, s'') \<longleftrightarrow> (\<exists>x s'. m s = Some (Inr x, s') \<and> k x s' = Some (Inr y, s''))"
  by (auto simp: andDo_def split: option.split sum.split)

lemma andDo_returns: "(\<And>s. \<exists>r s'. m s = Some (r, s')) \<Longrightarrow> (\<And>x s. \<exists>r s'. k x s = Some (r, s')) \<Longrightarrow> \<exists>r s'. andDo m k s = Some (r, s')"
  by (simp add: andDo_def split: option.split sum.split)

end
