(* ===== verification/IndexList.thy ===== *)
theory IndexList
  imports IndexScan HeapRows
begin

text \<open>
  The list of indexes of each database, \<^verbatim>\<open>11_index.c\<close>: finding, creating, adopting and dropping them,
  entering a stored row into all of its table's, following ALTER TABLE, and filling them again from
  the live rows. The names are copied, so they are values here; \<open>memory\<close> is whether \<^verbatim>\<open>malloc\<close> finds room.
\<close>

type_synonym indexes = "nat \<Rightarrow> index list"

definition initIndexes :: indexes where "initIndexes = (\<lambda>_. [])"

definition freeIndexes :: "indexes \<Rightarrow> indexes" where "freeIndexes ix = (\<lambda>_. [])"

definition findIndexByName :: "nat \<Rightarrow> string \<Rightarrow> indexes \<Rightarrow> index option" where
  "findIndexByName db name ix = List.find (\<lambda>i. stricmp (index_name i) name) (ix db)"

definition findIndexOn :: "nat \<Rightarrow> string \<Rightarrow> string \<Rightarrow> indexes \<Rightarrow> index option" where
  "findIndexOn db table column ix =
     List.find (\<lambda>i. stricmp (index_table i) table \<and> stricmp (index_column i) (bareName column)) (ix db)"

definition new_index :: "string \<Rightarrow> string \<Rightarrow> string \<Rightarrow> int \<Rightarrow> int \<Rightarrow> int \<Rightarrow> index" where
  "new_index name table column slot rootp keys =
     \<lparr>index_name = name_of name, index_table = name_of table, index_column = name_of column, index_slot = slot,
      rootPage = rootp, keyCount = keys\<rparr>"

definition createIndex :: "bool \<Rightarrow> nat \<Rightarrow> string \<Rightarrow> string \<Rightarrow> string \<Rightarrow> int \<Rightarrow> coltype \<Rightarrow> indexes \<times> pool \<Rightarrow>
    (error + unit) \<times> indexes \<times> pool" where
  "createIndex memory db name table column slot keyType = (\<lambda>(ix, p).
     if \<not> memory then (Inl ERROR_EXEC_TOO_MANY_INDEXES, ix, p)
     else case newNode True (keyBitsFor keyType) p of
            (Inl e, p) \<Rightarrow> (Inl e, ix, p)
          | (Inr q, p) \<Rightarrow> (Inr (), ix(db := new_index name table column slot (int q) 0 # ix db), p))"

definition adoptIndex :: "bool \<Rightarrow> nat \<Rightarrow> string \<Rightarrow> string \<Rightarrow> string \<Rightarrow> int \<Rightarrow> int \<Rightarrow> int \<Rightarrow> indexes \<Rightarrow>
    (error + unit) \<times> indexes" where
  "adoptIndex memory db name table column slot rootp keys ix =
     (if \<not> memory then (Inl ERROR_EXEC_TOO_MANY_INDEXES, ix)
      else (Inr (), ix(db := new_index name table column slot rootp keys # ix db)))"

definition indexRootPage :: "index \<Rightarrow> int" where "indexRootPage i = rootPage i"
definition indexKeyCount :: "index \<Rightarrow> int" where "indexKeyCount i = keyCount i"

text \<open>Entering a row: the first index that fails ends it, those before keep their entry.\<close>

fun insert_into_all :: "string \<Rightarrow> row \<Rightarrow> u32 \<Rightarrow> index list \<Rightarrow> pool \<Rightarrow> ((error + unit) \<times> index list \<times> pool) option" where
  "insert_into_all table r pos [] p = Some (Inr (), [], p)"
| "insert_into_all table r pos (i # is) p =
     (if \<not> stricmp (index_table i) table
      then do { (e, is, p) \<leftarrow> insert_into_all table r pos is p; Some (e, i # is, p) }
      else do {
        (e, i, p) \<leftarrow> indexInsert i (rvals r ! nat (index_slot i)) pos p;
        case e of Inl err \<Rightarrow> Some (Inl err, i # is, p)
        | Inr _ \<Rightarrow> do { (e, is, p) \<leftarrow> insert_into_all table r pos is p; Some (e, i # is, p) } })"

definition indexInsertRow :: "nat \<Rightarrow> string \<Rightarrow> row \<Rightarrow> int \<Rightarrow> indexes \<times> pool \<Rightarrow> ((error + unit) \<times> indexes \<times> pool) option" where
  "indexInsertRow db table r pos = (\<lambda>(ix, p).
     do { (e, is, p) \<leftarrow> insert_into_all table r (of_int pos) (ix db) p; Some (e, ix(db := is), p) })"

subsection \<open>Following ALTER TABLE\<close>

fun columns_dropped :: "string \<Rightarrow> string \<Rightarrow> int \<Rightarrow> index list \<Rightarrow> pool \<Rightarrow> (index list \<times> pool) option" where
  "columns_dropped table column slot [] p = Some ([], p)"
| "columns_dropped table column slot (i # is) p =
     (if \<not> stricmp (index_table i) table
      then do { (is, p) \<leftarrow> columns_dropped table column slot is p; Some (i # is, p) }
      else if stricmp (index_column i) column
      then do { p \<leftarrow> freeSubtree (rootPage i) p; columns_dropped table column slot is p }
      else do { (is, p) \<leftarrow> columns_dropped table column slot is p;
                Some ((if index_slot i > slot then i\<lparr>index_slot := index_slot i - 1\<rparr> else i) # is, p) })"

definition indexesColumnDropped :: "nat \<Rightarrow> string \<Rightarrow> string \<Rightarrow> int \<Rightarrow> indexes \<times> pool \<Rightarrow> (indexes \<times> pool) option" where
  "indexesColumnDropped db table column slot = (\<lambda>(ix, p).
     do { (is, p) \<leftarrow> columns_dropped table column slot (ix db) p; Some (ix(db := is), p) })"

definition indexesColumnRenamed :: "nat \<Rightarrow> string \<Rightarrow> string \<Rightarrow> string \<Rightarrow> indexes \<Rightarrow> indexes" where
  "indexesColumnRenamed db table old new ix =
     ix(db := map (\<lambda>i. if stricmp (index_table i) table \<and> stricmp (index_column i) old
                       then i\<lparr>index_column := name_of new\<rparr> else i) (ix db))"

definition indexesTableRenamed :: "nat \<Rightarrow> string \<Rightarrow> string \<Rightarrow> indexes \<Rightarrow> indexes" where
  "indexesTableRenamed db old new ix =
     ix(db := map (\<lambda>i. if stricmp (index_table i) old then i\<lparr>index_table := name_of new\<rparr> else i) (ix db))"

subsection \<open>Filling again\<close>

text \<open>\<open>newNode\<close> writes the page id out before it pins the page, so a failed pin leaves the new id in the root.\<close>

text \<open>What kind of key the nodes carry, read from the root; 0 when that cannot be pinned.\<close>

definition indexKeyBits :: "index \<Rightarrow> pool \<Rightarrow> u32 \<times> pool" where
  "indexKeyBits i p =
     (case poolPin (rootPage i) p of
        (None, p) \<Rightarrow> (0, p)
      | (Some f, p) \<Rightarrow> (nodeKeyBits (frame_page f p), poolUnpin (rootPage i) False p))"

text \<open>The loop over the heap's positions, which creating an index and rebuilding one share.\<close>

partial_function (option) fill_index :: "heap \<Rightarrow> nat \<Rightarrow> int \<Rightarrow> index \<Rightarrow> pool \<Rightarrow> ((error + unit) \<times> index \<times> pool) option" where
  [code]: "fill_index h slot pos i p =
     (if pos < 0 then Some (Inr (), i, p)
      else let (r, p) = heapRead h pos p
           in if deleted r then fill_index h slot (heapNext h pos) i p
              else do {
                (e, i, p) \<leftarrow> indexInsert i (rvals r ! slot) (of_int pos) p;
                case e of Inl err \<Rightarrow> Some (Inl err, i, p)
                | Inr _ \<Rightarrow> fill_index h slot (heapNext h pos) i p })"

fun rebuild_list :: "string \<Rightarrow> heap \<Rightarrow> index list \<Rightarrow> pool \<Rightarrow> ((error + unit) \<times> index list \<times> pool) option" where
  "rebuild_list table h [] p = Some (Inr (), [], p)"
| "rebuild_list table h (i # is) p =
     (if \<not> stricmp (index_table i) table
      then do { (e, is, p) \<leftarrow> rebuild_list table h is p; Some (e, i # is, p) }
      else
        let (bits, p) = indexKeyBits i p
        in do {
             p \<leftarrow> freeSubtree (rootPage i) p;
             let i = i\<lparr>keyCount := 0\<rparr>;
             (case newNode True bits p of
                (Inl e, p') \<Rightarrow>
                  Some (Inl e, (case fst (poolAllocate p) of Inl _ \<Rightarrow> i | Inr q \<Rightarrow> i\<lparr>rootPage := int q\<rparr>) # is, p')
              | (Inr q, p) \<Rightarrow>
                  do { (e, i, p) \<leftarrow> fill_index h (nat (index_slot i)) (heapFirst h) (i\<lparr>rootPage := int q\<rparr>) p;
                       case e of Inl err \<Rightarrow> Some (Inl err, i # is, p)
                       | Inr _ \<Rightarrow> do { (e, is, p) \<leftarrow> rebuild_list table h is p; Some (e, i # is, p) } }) })"

definition rebuildIndexes :: "nat \<Rightarrow> string \<Rightarrow> heap \<Rightarrow> indexes \<times> pool \<Rightarrow> ((error + unit) \<times> indexes \<times> pool) option" where
  "rebuildIndexes db table h = (\<lambda>(ix, p).
     do { (e, is, p) \<leftarrow> rebuild_list table h (ix db) p; Some (e, ix(db := is), p) })"

subsection \<open>Dropping\<close>

fun drop_named :: "string \<Rightarrow> index list \<Rightarrow> (index \<times> index list) option" where
  "drop_named name [] = None"
| "drop_named name (i # is) =
     (if stricmp (index_name i) name then Some (i, is)
      else map_option (\<lambda>(dead, is). (dead, i # is)) (drop_named name is))"

definition dropIndexByName :: "nat \<Rightarrow> string \<Rightarrow> indexes \<times> pool \<Rightarrow> ((error + unit) \<times> indexes \<times> pool) option" where
  "dropIndexByName db name = (\<lambda>(ix, p).
     case drop_named name (ix db) of
       None \<Rightarrow> Some (Inl ERROR_SEMANTIC_INDEX_NOT_FOUND, ix, p)
     | Some (dead, is) \<Rightarrow> do { p \<leftarrow> freeSubtree (rootPage dead) p; Some (Inr (), ix(db := is), p) })"

fun drop_table_indexes :: "string \<Rightarrow> index list \<Rightarrow> pool \<Rightarrow> (index list \<times> pool) option" where
  "drop_table_indexes table [] p = Some ([], p)"
| "drop_table_indexes table (i # is) p =
     (if stricmp (index_table i) table
      then do { p \<leftarrow> freeSubtree (rootPage i) p; drop_table_indexes table is p }
      else do { (is, p) \<leftarrow> drop_table_indexes table is p; Some (i # is, p) })"

definition dropIndexesForTable :: "nat \<Rightarrow> string \<Rightarrow> indexes \<times> pool \<Rightarrow> (indexes \<times> pool) option" where
  "dropIndexesForTable db table = (\<lambda>(ix, p).
     do { (is, p) \<leftarrow> drop_table_indexes table (ix db) p; Some (ix(db := is), p) })"

definition listIndexes :: "nat \<Rightarrow> nat \<Rightarrow> indexes \<Rightarrow> index list" where
  "listIndexes db limit ix = take limit (ix db)"

end
