(* ===== verification/Engine.thy ===== *)
theory Engine
  imports Actions Databases Catalog IndexList OrderBy Grouping
begin

text \<open>
  The engine's state: the databases, the catalog, the heaps, the indexes and the page pool, which all
  sessions share, and the executor's and the semantic stage's own, which belong to a thread. Its start
  and end are in \<^verbatim>\<open>10_controller.c\<close>.
\<close>

text \<open>
  The executor's arrays live from statement to statement: their capacities, the group table, the heap
  and the row a join is built in, and the results of subqueries. \<open>memory\<close> says whether an
  allocation for so many entries finds room, \<open>held\<close> what unset memory holds, \<open>heapLimit\<close> how many
  pages the list of a heap may take.
\<close>

record executor =
  candidateCapacity :: nat
  probeCapacity :: nat
  sortCapacity :: nat
  joinEntryCapacity :: nat
  joinBucketCount :: nat
  distinctCount :: nat
  groupTable :: groups
  joinHeap :: heap
  work :: row
  subqueryResult :: "resultset list"
  memory :: "nat \<Rightarrow> bool"
  held :: "Value"
  unresolved :: string
  heapLimit :: nat

record engine =
  edbs :: databases
  ecat :: catalog
  estore :: storage
  eindexes :: indexes
  epool :: pool
  exec :: executor

type_synonym 'a step = "(engine, 'a) action"

definition db_of :: "engine \<Rightarrow> nat" where "db_of e = currentDatabaseId (edbs e)"
definition table_of :: "engine \<Rightarrow> string \<Rightarrow> table option" where "table_of e name = findTable (db_of e) name (ecat e)"
definition heap_of :: "engine \<Rightarrow> string \<Rightarrow> heap option" where "heap_of e name = findHeap (db_of e) name (estore e)"

text \<open>A statement holds a pointer to a heap; what it changes is in the storage at once.\<close>

definition put_heap :: "string \<Rightarrow> heap \<Rightarrow> engine \<Rightarrow> engine" where
  "put_heap name h e =
     (case heap_index name (estore e (db_of e)) of None \<Rightarrow> e
      | Some i \<Rightarrow> e\<lparr>estore := (estore e)(db_of e := (estore e (db_of e))[i := h])\<rparr>)"

definition set_exec :: "(executor \<Rightarrow> executor) \<Rightarrow> engine \<Rightarrow> engine" where
  "set_exec f e = e\<lparr>exec := f (exec e)\<rparr>"

definition pool_step :: "(pool \<Rightarrow> 'a \<times> pool) \<Rightarrow> 'a step" where
  "pool_step f e = (case f (epool e) of (x, p) \<Rightarrow> Some (Inr x, e\<lparr>epool := p\<rparr>))"

text \<open>A table and its heap, which most statements begin with.\<close>

definition table_and_heap :: "string \<Rightarrow> (table \<times> heap) step" where
  "table_and_heap name e =
     (case (table_of e name, heap_of e name) of
        (Some t, Some h) \<Rightarrow> Some (Inr (t, h), e) | _ \<Rightarrow> Some (Inl ERROR_SEMANTIC_TABLE_NOT_FOUND, e))"

subsection \<open>Room for rows\<close>

definition reserve_candidates :: "int \<Rightarrow> unit step" where
  "reserve_candidates rows e =
     (case reserveCandidates (memory (exec e) (nat rows)) (candidateCapacity (exec e)) (nat rows) of
        Inl err \<Rightarrow> Some (Inl err, e)
      | Inr c \<Rightarrow> Some (Inr (), set_exec (\<lambda>x. x\<lparr>candidateCapacity := c\<rparr>) e))"

definition reserve_probe :: "int \<Rightarrow> unit step" where
  "reserve_probe rows e =
     (case reserveProbe (memory (exec e) (nat rows)) (probeCapacity (exec e)) (nat rows) of
        Inl err \<Rightarrow> Some (Inl err, e)
      | Inr c \<Rightarrow> Some (Inr (), set_exec (\<lambda>x. x\<lparr>probeCapacity := c\<rparr>) e))"

definition reserve_entries :: "nat \<Rightarrow> unit step" where
  "reserve_entries rows e =
     (case reserveJoinEntries (memory (exec e) rows) (joinEntryCapacity (exec e)) rows of
        Inl err \<Rightarrow> Some (Inl err, e)
      | Inr c \<Rightarrow> Some (Inr (), set_exec (\<lambda>x. x\<lparr>joinEntryCapacity := c\<rparr>) e))"

subsection \<open>Start and end\<close>

definition no_heap :: heap where
  "no_heap = \<lparr>htable = [], pageIds = [], pageSlots = [], hcapacity = 0, nlive = 0, nslots = 0, hlimit = 0\<rparr>"

text \<open>\<open>freeExecutor\<close>: nothing is allocated any more; the join's heap and row stay.\<close>

definition freeExecutor :: "executor \<Rightarrow> executor" where
  "freeExecutor x = x\<lparr>candidateCapacity := 0, probeCapacity := 0, sortCapacity := 0, joinEntryCapacity := 0,
     joinBucketCount := 0, distinctCount := 0, groupTable := freeGroups, subqueryResult := replicate MAX_SUBQUERIES blank_result\<rparr>"

text \<open>The static data as the program starts, zero.\<close>

definition zero_databases :: databases where
  "zero_databases = \<lparr>dnames = replicate MAX_DATABASES [], dused = replicate MAX_DATABASES False, current = 0\<rparr>"

definition zero_executor :: "(nat \<Rightarrow> bool) \<Rightarrow> Value \<Rightarrow> nat \<Rightarrow> executor" where
  "zero_executor mem v limit = \<lparr>candidateCapacity = 0, probeCapacity = 0, sortCapacity = 0, joinEntryCapacity = 0,
     joinBucketCount = 0, distinctCount = 0, groupTable = freeGroups, joinHeap = no_heap\<lparr>hlimit := limit\<rparr>, work = blank_row,
     subqueryResult = replicate MAX_SUBQUERIES blank_result, memory = mem, held = v, unresolved = [], heapLimit = limit\<rparr>"

definition InitEngine :: "(nat \<Rightarrow> bool) \<Rightarrow> Value \<Rightarrow> nat \<Rightarrow> wal \<Rightarrow> nat \<Rightarrow> nat \<Rightarrow> nat \<Rightarrow> engine" where
  "InitEngine mem v limit w frame_limit directory_limit free_limit =
     \<lparr>edbs = initDatabases zero_databases, ecat = initCatalog, estore = initStorage, eindexes = initIndexes,
      epool = poolInit w frame_limit directory_limit free_limit, exec = zero_executor mem v limit\<rparr>"

definition FreeEngine :: "engine \<Rightarrow> engine" where
  "FreeEngine e =
     (let (st, p) = freeStorage (estore e, epool e)
      in e\<lparr>exec := freeExecutor (exec e), eindexes := freeIndexes (eindexes e), ecat := freeCatalog (ecat e),
           estore := st, epool := poolClear p\<rparr>)"

end
