(* ===== verification/Semantic.thy ===== *)
theory Semantic
  imports Engine
begin

text \<open>
  The semantic stage, \<^verbatim>\<open>05_semantic.c\<close>: a parsed statement against the catalog. Literals are fitted to
  their columns and names bound to positions in place, so a check returns the statement as it leaves
  it. A check also reads and writes the thread's subqueries and the name that last failed to resolve.
\<close>

subsection \<open>Checks\<close>

type_synonym check_state = "subqueries \<times> string"
type_synonym 'a check = "(check_state, 'a) action"

text \<open>Binding a tree, its type; \<open>rebind\<close> is a call whose result is not looked at.\<close>

definition resolve_check :: "table \<Rightarrow> exprpool \<Rightarrow> int \<Rightarrow> exprpool check" where
  "resolve_check t pool n = (\<lambda>(subs, unres).
     map_option (\<lambda>(r, pool, unres). (map_sum id (\<lambda>_. pool) r, subs, unres)) (exprResolve t pool n unres))"

definition rebind :: "table \<Rightarrow> exprpool \<Rightarrow> int \<Rightarrow> exprpool check" where
  "rebind t pool n = (\<lambda>(subs, unres).
     map_option (\<lambda>(_, pool, unres). (Inr pool, subs, unres)) (exprResolve t pool n unres))"

definition type_check :: "exprpool \<Rightarrow> int \<Rightarrow> coltype check" where
  "type_check pool n st = map_option (\<lambda>r. (r, st)) (exprType pool n)"

subsection \<open>Columns and literals\<close>

definition isGrouped :: "selectstatement \<Rightarrow> string \<Rightarrow> bool" where
  "isGrouped s column \<longleftrightarrow> (\<exists>g \<in> set (groupBy s). stricmp g column)"

definition columnError :: "int \<Rightarrow> error" where
  "columnError slot = (if slot = COLUMN_AMBIGUOUS then ERROR_SEMANTIC_AMBIGUOUS_COLUMN else ERROR_SEMANTIC_COLUMN_NOT_FOUND)"

definition coerceLiteral :: "Value \<Rightarrow> coltype \<Rightarrow> error + Value" where
  "coerceLiteral v type =
     (if isNull v then Inr (v\<lparr>vtype := type\<rparr>)
      else if vtype v = type then Inr v
      else if type = TYPE_FLOAT \<and> vtype v = TYPE_INT then Inr (setFloat (fl_of_int (sint (intValue v))))
      else if type = TYPE_DATE \<and> vtype v = TYPE_TEXT
      then (case textToDate (vtext v) of Inl e \<Rightarrow> Inl e
            | Inr days \<Rightarrow> Inr (v\<lparr>vtype := TYPE_DATE, intValue := of_int days, vtext := []\<rparr>))
      else Inl ERROR_SEMANTIC_TYPE_MISMATCH)"

text \<open>\<open>exprLiteral\<close> hands out the literal inside the node, and the caller writes to it.\<close>

definition set_literal :: "int \<Rightarrow> Value \<Rightarrow> exprpool \<Rightarrow> exprpool" where
  "set_literal n v pool = set_node n ((node_at pool n)\<lparr>eliteral := v\<rparr>) pool"

definition fit_literal :: "exprpool \<Rightarrow> int \<Rightarrow> Value \<Rightarrow> coltype \<Rightarrow> error + exprpool" where
  "fit_literal pool n v type = map_sum id (\<lambda>v. set_literal n v pool) (coerceLiteral v type)"

subsection \<open>Conditions\<close>

type_synonym select_check = "selectstatement \<Rightarrow> selectstatement check"

definition store_subquery :: "int \<Rightarrow> selectstatement \<Rightarrow> subqueries \<Rightarrow> subqueries" where
  "store_subquery n s subs = subs[nat n := (s, snd (subs ! nat n))]"

definition checkSubquery :: "select_check \<Rightarrow> table \<Rightarrow> int \<Rightarrow> bool \<Rightarrow> unit check" where
  "checkSubquery sel outer n wantOneColumn = (\<lambda>(subs, unres).
     case subqueryAt subs n of None \<Rightarrow> Some (Inl ERROR_SEMANTIC_COLUMN_NOT_FOUND, subs, unres)
     | Some sub \<Rightarrow>
         (case sel sub (subs, unres) of None \<Rightarrow> None
          | Some (Inl e, subs, unres) \<Rightarrow>
              Some (Inl (if e = ERROR_SEMANTIC_COLUMN_NOT_FOUND \<and> findColumn outer unres \<ge> 0
                         then ERROR_SEMANTIC_CORRELATED_SUBQUERY else e), subs, unres)
          | Some (Inr sub, subs, unres) \<Rightarrow>
              Some (if wantOneColumn \<and> \<not> selectAll sub \<and> length (sitems sub) \<noteq> 1
                    then Inl ERROR_SEMANTIC_SUBQUERY_COLUMNS else Inr (),
                    store_subquery n sub subs, unres)))"

text \<open>
  The two sides of a comparison agree, or one that is a bare literal is fitted to the other: the
  pool after it and whether they agree now.
\<close>

definition agree :: "exprpool \<Rightarrow> int \<Rightarrow> int \<Rightarrow> coltype \<Rightarrow> coltype \<Rightarrow> error + exprpool \<times> bool" where
  "agree pool l r left right =
     (if left = right then Inr (pool, True)
      else case exprLiteral pool r of
             Some v \<Rightarrow> map_sum id (\<lambda>pool. (pool, True)) (fit_literal pool r v left)
           | None \<Rightarrow>
               (case exprLiteral pool l of
                  Some v \<Rightarrow> map_sum id (\<lambda>pool. (pool, True)) (fit_literal pool l v right)
                | None \<Rightarrow> Inr (pool, False)))"

definition check_sides :: "table \<Rightarrow> exprpool \<Rightarrow> int \<Rightarrow> int \<Rightarrow> coltype \<Rightarrow> exprpool check" where
  "check_sides t pool l r left =
     andDo (resolve_check t pool r) (\<lambda>pool.
     andDo (type_check pool r) (\<lambda>right.
     andDo (yielding (agree pool l r left right)) (\<lambda>(fitted, same).
     andDo (if left = right then passed fitted
                 else andDo (rebind t fitted l) (\<lambda>pool. rebind t pool r)) (\<lambda>pool.
     if same then passed pool else failed ERROR_SEMANTIC_TYPE_MISMATCH))))"

definition check_compare :: "select_check \<Rightarrow> table \<Rightarrow> exprpool \<Rightarrow> predicate \<Rightarrow> exprpool check" where
  "check_compare sel t pool c =
     (if pop c = OP_EXISTS then andDo (checkSubquery sel t (psubquery c) False) (\<lambda>_. passed pool)
      else andDo (resolve_check t pool (pleft c)) (\<lambda>pool.
           andDo (type_check pool (pleft c)) (\<lambda>left.
           if pop c = OP_IS_NULL \<or> pop c = OP_IS_NOT_NULL then passed pool
           else if pop c = OP_IN \<or> psubquery c \<ge> 0
           then andDo (checkSubquery sel t (psubquery c) True) (\<lambda>_. passed pool)
           else if pop c = OP_LIKE \<or> pop c = OP_NOT_LIKE
           then (if left = TYPE_TEXT then passed pool else failed ERROR_SEMANTIC_TYPE_MISMATCH)
           else check_sides t pool (pleft c) (pright c) left)))"

text \<open>The walk: the nodes stay, their expressions change.\<close>

partial_function (option) checkCondition ::
  "select_check \<Rightarrow> table \<Rightarrow> conditionnode list \<Rightarrow> int \<Rightarrow> exprpool \<Rightarrow> check_state \<Rightarrow> ((error + exprpool) \<times> check_state) option" where
  [code]: "checkCondition sel t nodes n pool st =
     (let current = node_at nodes n
      in case ckind current of
           COND_COMPARE \<Rightarrow> check_compare sel t pool (ccompare current) st
         | COND_NOT \<Rightarrow> checkCondition sel t nodes (cleft current) pool st
         | _ \<Rightarrow> do {
             (r, st) \<leftarrow> checkCondition sel t nodes (cleft current) pool st;
             case r of Inl e \<Rightarrow> Some (Inl e, st)
             | Inr pool \<Rightarrow> checkCondition sel t nodes (cright current) pool st })"

definition check_tree :: "select_check \<Rightarrow> table \<Rightarrow> condition \<Rightarrow> int \<Rightarrow> condition check" where
  "check_tree sel t c n =
     andDo (checkCondition sel t (cnodes c) n (cexprs c)) (\<lambda>pool. passed (c\<lparr>cexprs := pool\<rparr>))"

definition checkWhere :: "select_check \<Rightarrow> table \<Rightarrow> condition \<Rightarrow> condition check" where
  "checkWhere sel t c = (if present c then check_tree sel t c (croot c) else passed c)"

fun check_trees :: "select_check \<Rightarrow> table \<Rightarrow> condition \<Rightarrow> int list \<Rightarrow> condition check" where
  "check_trees sel t c [] = passed c"
| "check_trees sel t c (r # rs) =
     (if r < 0 then check_trees sel t c rs
      else andDo (check_tree sel t c r) (\<lambda>c. check_trees sel t c rs))"

subsection \<open>SELECT\<close>

definition select_schema :: "nat \<Rightarrow> catalog \<Rightarrow> selectstatement \<Rightarrow> error + table" where
  "select_schema db cat s =
     (if joinSchemaNeeded s then buildJoinSchema db cat (stables s) (saliases s)
      else case findTable db (stable s) cat of None \<Rightarrow> Inl ERROR_SEMANTIC_TABLE_NOT_FOUND | Some t \<Rightarrow> Inr t)"

fun check_groups :: "table \<Rightarrow> string list \<Rightarrow> error + unit" where
  "check_groups t [] = Inr ()"
| "check_groups t (g # gs) = (let slot = findColumn t g in if slot < 0 then Inl (columnError slot) else check_groups t gs)"

text \<open>One item of the list, where groups are formed or not.\<close>

definition check_item :: "table \<Rightarrow> selectstatement \<Rightarrow> bool \<Rightarrow> selectitem \<Rightarrow> exprpool \<Rightarrow> exprpool check" where
  "check_item t s hasAggregate item pool =
     (if istar item then passed pool
      else andDo (resolve_check t pool (iexpr item)) (\<lambda>pool.
           andDo (type_check pool (iexpr item)) (\<lambda>type.
           if (aggregate item = AGG_SUM \<or> aggregate item = AGG_AVG) \<and> type \<noteq> TYPE_INT \<and> type \<noteq> TYPE_FLOAT
           then failed ERROR_SEMANTIC_TYPE_MISMATCH
           else if aggregate item \<noteq> AGG_NONE \<or> (groupBy s = [] \<and> \<not> hasAggregate) then passed pool
           else if \<not> exprIsColumn pool (iexpr item) \<or> \<not> isGrouped s (exprColumn pool (iexpr item))
           then failed ERROR_SEMANTIC_NOT_GROUPED
           else passed pool)))"

fun check_items :: "table \<Rightarrow> selectstatement \<Rightarrow> bool \<Rightarrow> selectitem list \<Rightarrow> exprpool \<Rightarrow> exprpool check" where
  "check_items t s hasAggregate [] pool = passed pool"
| "check_items t s hasAggregate (item # items) pool =
     andDo (check_item t s hasAggregate item pool) (check_items t s hasAggregate items)"

definition check_list :: "table \<Rightarrow> selectstatement \<Rightarrow> selectstatement check" where
  "check_list t s =
     (if selectAll s
      then (if groupBy s \<noteq> [] then failed ERROR_SEMANTIC_NOT_GROUPED
            else if present (having s) then failed ERROR_SEMANTIC_HAVING_WITHOUT_GROUP else passed s)
      else let hasAggregate = (\<exists>item \<in> set (sitems s). aggregate item \<noteq> AGG_NONE)
           in if present (having s) \<and> groupBy s = [] \<and> \<not> hasAggregate then failed ERROR_SEMANTIC_HAVING_WITHOUT_GROUP
              else andDo (check_items t s hasAggregate (sitems s) (sexprs s)) (\<lambda>pool. passed (s\<lparr>sexprs := pool\<rparr>)))"

definition check_select :: "select_check \<Rightarrow> nat \<Rightarrow> catalog \<Rightarrow> select_check" where
  "check_select sel db cat s =
     andDo (yielding (select_schema db cat s)) (\<lambda>t.
     andDo (checkWhere sel t (swhere s)) (\<lambda>c.
     andDo (check_trees sel t c (take (length (stables s)) (onRoot s))) (\<lambda>c.
     andDo (yielding (check_groups t (groupBy s))) (\<lambda>_.
     check_list t (s\<lparr>swhere := c\<rparr>)))))"

text \<open>A subquery stands at a later slot than the SELECT it is in, so their number is fuel enough.\<close>

primrec check_within :: "nat \<Rightarrow> nat \<Rightarrow> catalog \<Rightarrow> select_check" where
  "check_within 0 db cat s st = None"
| "check_within (Suc k) db cat s st = check_select (check_within k db cat) db cat s st"

definition checkSelect :: "nat \<Rightarrow> catalog \<Rightarrow> select_check" where
  "checkSelect db cat s = (\<lambda>(subs, unres). check_within (Suc (length subs)) db cat s (subs, unres))"

subsection \<open>The other statements\<close>

fun check_defaults :: "column list \<Rightarrow> error + column list" where
  "check_defaults [] = Inr []"
| "check_defaults (c # cs) =
     (if \<not> hasDefault c then map_sum id ((#) c) (check_defaults cs)
      else case coerceLiteral (defaultValue c) (ctype c) of Inl e \<Rightarrow> Inl e
           | Inr v \<Rightarrow>
               if isNull v \<and> cflags c AND COL_NOT_NULL \<noteq> 0 then Inl ERROR_EXEC_NOT_NULL
               else map_sum id ((#) (c\<lparr>defaultValue := v\<rparr>)) (check_defaults cs))"

definition names_repeat :: "column list \<Rightarrow> bool" where
  "names_repeat cs \<longleftrightarrow> (\<exists>j < length cs. \<exists>i < j. stricmp (cname (cs ! i)) (cname (cs ! j)))"

definition check_create :: "engine \<Rightarrow> createstatement \<Rightarrow> createstatement check" where
  "check_create e s =
     (if table_of e (crtable s) \<noteq> None then failed ERROR_SEMANTIC_TABLE_EXISTS
      else if names_repeat (crcols s) then failed ERROR_SEMANTIC_DUPLICATE_COLUMN
      else andDo (yielding (check_defaults (crcols s))) (\<lambda>cs.
           let s = s\<lparr>crcols := cs\<rparr>
           in if \<not> present (crcheck s) then passed s
              else let proposed = \<lparr>tname = name_of (crtable s), tcols = cs, tcheck = None\<rparr>
                   in andDo (check_tree (checkSelect (db_of e) (ecat e)) proposed (crcheck s) (croot (crcheck s))) (\<lambda>c.
                      passed (s\<lparr>crcheck := c\<rparr>))))"

definition check_create_index :: "engine \<Rightarrow> createindexstatement \<Rightarrow> unit check" where
  "check_create_index e s =
     (if findIndexByName (db_of e) (ixname s) (eindexes e) \<noteq> None then failed ERROR_SEMANTIC_INDEX_EXISTS
      else case table_of e (ixtable s) of None \<Rightarrow> failed ERROR_SEMANTIC_TABLE_NOT_FOUND
           | Some t \<Rightarrow> if findColumn t (ixcolumn s) < 0 then failed ERROR_SEMANTIC_COLUMN_NOT_FOUND else passed ())"

definition check_alter :: "engine \<Rightarrow> alterstatement \<Rightarrow> error + alterstatement" where
  "check_alter e s =
     (case table_of e (altable s) of None \<Rightarrow> Inl ERROR_SEMANTIC_TABLE_NOT_FOUND
      | Some t \<Rightarrow>
          (case alaction s of
             ALTER_ADD_COLUMN \<Rightarrow>
               let c = alcolumn s
               in if cflags c AND (COL_UNIQUE OR COL_PRIMARY) \<noteq> 0 then Inl ERROR_SEMANTIC_ALTER_UNSUPPORTED
                  else if cflags c AND COL_NOT_NULL \<noteq> 0 \<and> \<not> hasDefault c
                          \<and> (case heap_of e (altable s) of None \<Rightarrow> False | Some h \<Rightarrow> heapLive h > 0)
                  then Inl ERROR_SEMANTIC_MISSING_VALUE
                  else if hasDefault c
                  then map_sum id (\<lambda>v. s\<lparr>alcolumn := c\<lparr>defaultValue := v\<rparr>\<rparr>) (coerceLiteral (defaultValue c) (ctype c))
                  else Inr s
           | ALTER_RENAME_TABLE \<Rightarrow>
               if table_of e (alnewName s) \<noteq> None then Inl ERROR_SEMANTIC_TABLE_EXISTS else Inr s
           | action \<Rightarrow>
               if findColumn t (alname s) < 0 then Inl ERROR_SEMANTIC_COLUMN_NOT_FOUND
               else if action = ALTER_DROP_COLUMN \<and> tcheck t \<noteq> None then Inl ERROR_SEMANTIC_CHECK_BLOCKS_DROP
               else Inr s))"

text \<open>One assignment of UPDATE, with those behind it.\<close>

definition check_set :: "table \<Rightarrow> assignment \<Rightarrow> assignment list \<Rightarrow> exprpool \<Rightarrow> exprpool check" where
  "check_set t a later pool =
     (let slot = findColumn t (ascolumn a)
      in if slot < 0 then failed ERROR_SEMANTIC_COLUMN_NOT_FOUND
         else andDo (resolve_check t pool (asexpr a)) (\<lambda>pool.
              andDo (type_check pool (asexpr a)) (\<lambda>type.
              let wanted = ctype (tcols t ! nat slot)
              in andDo
                   (if type = wanted then passed pool
                    else case exprLiteral pool (asexpr a) of None \<Rightarrow> failed ERROR_SEMANTIC_TYPE_MISMATCH
                         | Some v \<Rightarrow>
                             andDo (yielding (fit_literal pool (asexpr a) v wanted)) (\<lambda>pool.
                             rebind t pool (asexpr a)))
                   (\<lambda>pool. if \<exists>b \<in> set later. stricmp (ascolumn a) (ascolumn b) then failed ERROR_SEMANTIC_DUPLICATE_COLUMN
                           else passed pool))))"

fun check_sets :: "table \<Rightarrow> assignment list \<Rightarrow> exprpool \<Rightarrow> exprpool check" where
  "check_sets t [] pool = passed pool"
| "check_sets t (a # as) pool = andDo (check_set t a as pool) (check_sets t as)"

definition check_update :: "engine \<Rightarrow> updatestatement \<Rightarrow> updatestatement check" where
  "check_update e s =
     (case table_of e (uptable s) of None \<Rightarrow> failed ERROR_SEMANTIC_TABLE_NOT_FOUND
      | Some t \<Rightarrow>
          andDo (check_sets t (upsets s) (upexprs s)) (\<lambda>pool.
          andDo (checkWhere (checkSelect (db_of e) (ecat e)) t (upwhere s)) (\<lambda>c.
          passed (s\<lparr>upexprs := pool, upwhere := c\<rparr>))))"

definition check_delete :: "engine \<Rightarrow> deletestatement \<Rightarrow> deletestatement check" where
  "check_delete e s =
     (case table_of e (detable s) of None \<Rightarrow> failed ERROR_SEMANTIC_TABLE_NOT_FOUND
      | Some t \<Rightarrow> andDo (checkWhere (checkSelect (db_of e) (ecat e)) t (dewhere s)) (\<lambda>c. passed (s\<lparr>dewhere := c\<rparr>)))"

fun fit_values :: "Value list \<Rightarrow> column list \<Rightarrow> error + Value list" where
  "fit_values (v # vs) (c # cs) =
     (case coerceLiteral v (ctype c) of Inl e \<Rightarrow> Inl e | Inr v \<Rightarrow> map_sum id ((#) v) (fit_values vs cs))"
| "fit_values vs _ = Inr vs"

text \<open>The columns of the list, one value each; \<open>listed_slots\<close> are those seen.\<close>

fun fit_listed :: "table \<Rightarrow> string list \<Rightarrow> Value list \<Rightarrow> int set \<Rightarrow> error + Value list \<times> int set" where
  "fit_listed t (name # names) (v # vs) seen_slots =
     (let slot = findColumn t name
      in if slot < 0 then Inl (columnError slot)
         else if slot \<in> seen_slots then Inl ERROR_SEMANTIC_DUPLICATE_COLUMN
         else case coerceLiteral v (ctype (tcols t ! nat slot)) of Inl e \<Rightarrow> Inl e
              | Inr v \<Rightarrow> map_sum id (\<lambda>(vs, seen_slots). (v # vs, seen_slots)) (fit_listed t names vs (insert slot seen_slots)))"
| "fit_listed t _ vs seen_slots = Inr (vs, seen_slots)"

definition check_insert :: "engine \<Rightarrow> insertstatement \<Rightarrow> error + insertstatement" where
  "check_insert e s =
     (case table_of e (intable s) of None \<Rightarrow> Inl ERROR_SEMANTIC_TABLE_NOT_FOUND
      | Some t \<Rightarrow>
          if incolumns s = []
          then (if length (invalues s) \<noteq> length (tcols t) then Inl ERROR_SEMANTIC_COLUMN_COUNT
                else map_sum id (\<lambda>vs. s\<lparr>invalues := vs\<rparr>) (fit_values (invalues s) (tcols t)))
          else if length (invalues s) \<noteq> length (incolumns s) then Inl ERROR_SEMANTIC_COLUMN_COUNT
          else case fit_listed t (incolumns s) (invalues s) {} of Inl e \<Rightarrow> Inl e
               | Inr (vs, seen_slots) \<Rightarrow>
                   if \<exists>c < length (tcols t). int c \<notin> seen_slots \<and> \<not> hasDefault (tcols t ! c) \<and>
                        cflags (tcols t ! c) AND COL_NOT_NULL \<noteq> 0
                   then Inl ERROR_SEMANTIC_MISSING_VALUE else Inr (s\<lparr>invalues := vs\<rparr>))"

definition known :: "bool \<Rightarrow> error \<Rightarrow> 'a \<Rightarrow> 'a check" where
  "known b e x = (if b then passed x else failed e)"

definition semanticCheck :: "engine \<Rightarrow> statement \<Rightarrow> statement check" where
  "semanticCheck e stmt =
     (case stmt of
        STMT_CREATE_TABLE s \<Rightarrow> andDo (check_create e s) (\<lambda>s. passed (STMT_CREATE_TABLE s))
      | STMT_CREATE_INDEX s \<Rightarrow> andDo (check_create_index e s) (\<lambda>_. passed stmt)
      | STMT_CREATE_DATABASE name \<Rightarrow> known (findDatabase name (edbs e) < 0) ERROR_SEMANTIC_DATABASE_EXISTS stmt
      | STMT_USE_DATABASE name \<Rightarrow> known (findDatabase name (edbs e) \<ge> 0) ERROR_SEMANTIC_DATABASE_NOT_FOUND stmt
      | STMT_DROP_DATABASE name \<Rightarrow>
          (if findDatabase name (edbs e) < 0 then failed ERROR_SEMANTIC_DATABASE_NOT_FOUND
           else known (findDatabase name (edbs e) \<noteq> 0) ERROR_SEMANTIC_CANNOT_DROP_DEFAULT stmt)
      | STMT_DROP_TABLE name \<Rightarrow> known (table_of e name \<noteq> None) ERROR_SEMANTIC_TABLE_NOT_FOUND stmt
      | STMT_DROP_INDEX name \<Rightarrow>
          known (findIndexByName (db_of e) name (eindexes e) \<noteq> None) ERROR_SEMANTIC_INDEX_NOT_FOUND stmt
      | STMT_VACUUM name \<Rightarrow> known (table_of e name \<noteq> None) ERROR_SEMANTIC_TABLE_NOT_FOUND stmt
      | STMT_ALTER_TABLE s \<Rightarrow> andDo (yielding (check_alter e s)) (\<lambda>s. passed (STMT_ALTER_TABLE s))
      | STMT_SELECT s \<Rightarrow> andDo (checkSelect (db_of e) (ecat e) s) (\<lambda>s. passed (STMT_SELECT s))
      | STMT_DELETE s \<Rightarrow> andDo (check_delete e s) (\<lambda>s. passed (STMT_DELETE s))
      | STMT_UPDATE s \<Rightarrow> andDo (check_update e s) (\<lambda>s. passed (STMT_UPDATE s))
      | STMT_INSERT s \<Rightarrow> andDo (yielding (check_insert e s)) (\<lambda>s. passed (STMT_INSERT s))
      | _ \<Rightarrow> passed stmt)"

end
