(* ===== verification/RowStore.thy ===== *)
theory RowStore
  imports Engine
begin

text \<open>
  Storing rows, \<^verbatim>\<open>06_executor.c\<close>: the loop over the live rows of a heap, what a table promises of a row
  and INSERT.
\<close>

subsection \<open>Walking the live rows\<close>

text \<open>
  The loop \<open>while (heapScanNext(...))\<close>. The body gets the position and the record, and says whether to go
  on; a body that fails ends the scan, as each of its callers does.
\<close>

type_synonym record_at = "nat \<times> memory"

partial_function (option) scanning ::
  "heap \<Rightarrow> (int \<Rightarrow> record_at \<Rightarrow> 'a \<Rightarrow> engine \<Rightarrow> ((error + bool \<times> 'a) \<times> engine) option) \<Rightarrow> heapscan \<Rightarrow> 'a \<Rightarrow> engine \<Rightarrow>
   ((error + heapscan \<times> 'a) \<times> engine) option" where
  [code]: "scanning h body sc x e =
     (case heapScanNext h sc (epool e) of
        (None, sc, p) \<Rightarrow> Some (Inr (sc, x), e\<lparr>epool := p\<rparr>)
      | (Some (pos, i, off), sc, p) \<Rightarrow>
          do {
            (r, e) \<leftarrow> body pos (off, frame_page i p) x (e\<lparr>epool := p\<rparr>);
            case r of
              Inl err \<Rightarrow> Some (Inl err, e\<lparr>epool := snd (heapScanEnd sc (epool e))\<rparr>)
            | Inr (go_on, x) \<Rightarrow> if go_on then scanning h body sc x e else Some (Inr (sc, x), e) })"

text \<open>The whole loop, its cursor opened before and closed behind it.\<close>

definition scan_rows :: "heap \<Rightarrow> (int \<Rightarrow> record_at \<Rightarrow> 'a \<Rightarrow> (bool \<times> 'a) step) \<Rightarrow> 'a \<Rightarrow> 'a step" where
  "scan_rows h body x =
     andDo (scanning h body heapScanStart x) (\<lambda>(sc, x).
     andDo (pool_step (heapScanEnd sc)) (\<lambda>_. passed x))"

definition decode :: "record_at \<Rightarrow> row \<Rightarrow> int \<Rightarrow> row" where
  "decode rec out wanted = decodeRecord (fst rec) (snd rec) out wanted"

text \<open>The loop over positions an index gave; a position that holds no row any go_on is passed over.\<close>

partial_function (option) fetching ::
  "heap \<Rightarrow> (int \<Rightarrow> record_at \<Rightarrow> 'a \<Rightarrow> engine \<Rightarrow> ((error + bool \<times> 'a) \<times> engine) option) \<Rightarrow> int list \<Rightarrow> heapscan \<Rightarrow> 'a \<Rightarrow> engine \<Rightarrow>
   ((error + heapscan \<times> 'a) \<times> engine) option" where
  [code]: "fetching h body ps sc x e =
     (case ps of [] \<Rightarrow> Some (Inr (sc, x), e)
      | pos # ps \<Rightarrow>
          (case heapScanAt h sc pos (epool e) of
             (None, sc, p) \<Rightarrow> fetching h body ps sc x (e\<lparr>epool := p\<rparr>)
           | (Some (i, off), sc, p) \<Rightarrow>
               do {
                 (r, e) \<leftarrow> body pos (off, frame_page i p) x (e\<lparr>epool := p\<rparr>);
                 case r of
                   Inl err \<Rightarrow> Some (Inl err, e\<lparr>epool := snd (heapScanEnd sc (epool e))\<rparr>)
                 | Inr (go_on, x) \<Rightarrow> if go_on then fetching h body ps sc x e else Some (Inr (sc, x), e) }))"

definition fetch_rows :: "heap \<Rightarrow> (int \<Rightarrow> record_at \<Rightarrow> 'a \<Rightarrow> (bool \<times> 'a) step) \<Rightarrow> int list \<Rightarrow> 'a \<Rightarrow> 'a step" where
  "fetch_rows h body ps x =
     andDo (fetching h body ps heapScanStart x) (\<lambda>(sc, x).
     andDo (pool_step (heapScanEnd sc)) (\<lambda>_. passed x))"

subsection \<open>Scans of an index\<close>

definition index_scan :: "index \<Rightarrow> compareop \<Rightarrow> Value \<Rightarrow> int \<Rightarrow> int list step" where
  "index_scan i op key limit e =
     map_option (\<lambda>(r, ps, p). (map_sum id (\<lambda>_. map sint ps) r, e\<lparr>epool := p\<rparr>)) (indexScan i op key limit (epool e))"

definition index_prefix_scan :: "index \<Rightarrow> string \<Rightarrow> int \<Rightarrow> int list step" where
  "index_prefix_scan i text limit e =
     map_option (\<lambda>(r, ps, p). (map_sum id (\<lambda>_. map sint ps) r, e\<lparr>epool := p\<rparr>)) (indexPrefixScan i text limit (epool e))"

definition index_on :: "engine \<Rightarrow> string \<Rightarrow> string \<Rightarrow> index option" where
  "index_on e table_name column_name = findIndexOn (db_of e) table_name column_name (eindexes e)"

subsection \<open>What a table promises\<close>

text \<open>One candidate: the row decoded into the one row the loop has, and whether it holds the value.\<close>

definition holds_value :: "nat \<Rightarrow> Value \<Rightarrow> row \<Rightarrow> bool" where
  "holds_value slot v r \<longleftrightarrow> \<not> isNull (rvals r ! slot) \<and> valuesSame (rvals r ! slot) v"

definition taken_body :: "nat \<Rightarrow> Value \<Rightarrow> int \<Rightarrow> int \<Rightarrow> record_at \<Rightarrow> bool \<times> row \<Rightarrow> (bool \<times> bool \<times> row) step" where
  "taken_body slot v exclude pos rec = (\<lambda>(taken, r).
     if pos = exclude then passed (True, taken, r)
     else let r = decode rec r (int slot); taken = (taken \<or> holds_value slot v r)
          in passed (\<not> taken, taken, r))"

definition valueIsTaken :: "table \<Rightarrow> heap \<Rightarrow> nat \<Rightarrow> Value \<Rightarrow> int \<Rightarrow> bool step" where
  "valueIsTaken t h slot v exclude =
     reading (\<lambda>e.
       case index_on e (tname t) (cname (tcols t ! slot)) of
         Some i \<Rightarrow>
           let slots = heapSlots h + 1
           in andDo (reserve_probe slots) (\<lambda>_.
              andDo (index_scan i OP_EQ v slots) (\<lambda>ps.
              andDo (fetch_rows h (taken_body slot v exclude) (filter (\<lambda>pos. pos \<noteq> exclude) ps) (False, blank_row))
                (\<lambda>(taken, _). passed taken)))
       | None \<Rightarrow>
           andDo (scan_rows h (taken_body slot v exclude) (False, blank_row)) (\<lambda>(taken, _). passed taken))"

text \<open>One column of a row; those before it were good.\<close>

definition check_column :: "table \<Rightarrow> heap \<Rightarrow> row \<Rightarrow> int \<Rightarrow> nat \<Rightarrow> unit step" where
  "check_column t h r exclude c =
     (let column = tcols t ! c; v = rvals r ! c
      in if isNull v then ensure (cflags column AND COL_NOT_NULL = 0) ERROR_EXEC_NOT_NULL
         else if ctype column = TYPE_TEXT \<and> csize column > 0 \<and> int (length (vtext v)) > csize column
         then failed ERROR_EXEC_VALUE_TOO_LONG
         else if cflags column AND COL_UNIQUE \<noteq> 0
         then andDo (valueIsTaken t h c v exclude) (\<lambda>taken. ensure (\<not> taken) ERROR_EXEC_NOT_UNIQUE)
         else passed ())"

fun check_columns :: "table \<Rightarrow> heap \<Rightarrow> row \<Rightarrow> int \<Rightarrow> nat list \<Rightarrow> unit step" where
  "check_columns t h r exclude [] = passed ()"
| "check_columns t h r exclude (c # cs) = andDo (check_column t h r exclude c) (\<lambda>_. check_columns t h r exclude cs)"

text \<open>A condition against a row, with the results of the statement's subqueries.\<close>

definition evaluate_step :: "condition \<Rightarrow> int \<Rightarrow> row \<Rightarrow> tristate step" where
  "evaluate_step c n r e = map_option (\<lambda>v. (Inr v, e)) (evaluateCondition (subqueryResult (exec e)) c n r)"

definition checkConstraints :: "table \<Rightarrow> heap \<Rightarrow> row \<Rightarrow> int \<Rightarrow> unit step" where
  "checkConstraints t h r exclude =
     andDo (check_columns t h r exclude [0..<length (tcols t)]) (\<lambda>_.
     case tcheck t of None \<Rightarrow> passed ()
     | Some c \<Rightarrow> andDo (evaluate_step c (croot c) r) (\<lambda>v. ensure (v \<noteq> TRI_FALSE) ERROR_EXEC_CHECK_FAILED))"

subsection \<open>INSERT\<close>

definition heap_insert :: "string \<Rightarrow> heap \<Rightarrow> row \<Rightarrow> ((error + int) \<times> heap) step" where
  "heap_insert name h r e =
     (case heapInsert h r (epool e) of (landed, h, p) \<Rightarrow> Some (Inr (landed, h), put_heap name h (e\<lparr>epool := p\<rparr>)))"

definition heap_delete :: "string \<Rightarrow> heap \<Rightarrow> int \<Rightarrow> heap step" where
  "heap_delete name h pos e =
     (case heapMarkDeleted h pos (epool e) of (h, p) \<Rightarrow> Some (Inr h, put_heap name h (e\<lparr>epool := p\<rparr>)))"

definition heap_read :: "heap \<Rightarrow> int \<Rightarrow> row step" where
  "heap_read h pos = pool_step (heapRead h pos)"

definition index_row :: "table \<Rightarrow> row \<Rightarrow> int \<Rightarrow> unit step" where
  "index_row t r pos e =
     map_option (\<lambda>(res, ix, p). (res, e\<lparr>eindexes := ix, epool := p\<rparr>)) (indexInsertRow (db_of e) (tname t) r pos (eindexes e, epool e))"

text \<open>The new row stored and indexed; when an index refuses it the row is deleted again.\<close>

definition store_row :: "table \<Rightarrow> heap \<Rightarrow> row \<Rightarrow> heap step" where
  "store_row t h r =
     andDo (heap_insert (htable h) h r) (\<lambda>(landed, h).
     andDo (yielding landed) (\<lambda>pos.
     caught (index_row t r pos) (\<lambda>res.
       case res of Inr _ \<Rightarrow> passed h
       | Inl err \<Rightarrow> andDo (heap_delete (htable h) h pos) (\<lambda>_. failed err))))"

text \<open>The row INSERT starts from: every column at its default or NULL.\<close>

definition default_value :: "column \<Rightarrow> Value" where
  "default_value c = (if hasDefault c then defaultValue c else setNull (ctype c))"

definition default_row :: "table \<Rightarrow> row" where
  "default_row t = \<lparr>rvals = map default_value (tcols t) @ replicate (MAX_COLS - length (tcols t)) blank_value,
     ncols = length (tcols t), deleted = False\<rparr>"

definition put_value :: "table \<Rightarrow> nat \<Rightarrow> Value \<Rightarrow> row \<Rightarrow> row" where
  "put_value t slot v r = r\<lparr>rvals := (rvals r)[slot := (if isNull v then v\<lparr>vtype := ctype (tcols t ! slot)\<rparr> else v)]\<rparr>"

fun insert_values :: "table \<Rightarrow> (int \<times> Value) list \<Rightarrow> row \<Rightarrow> error + row" where
  "insert_values t [] r = Inr r"
| "insert_values t ((slot, v) # vs) r =
     (if slot < 0 then Inl ERROR_SEMANTIC_COLUMN_NOT_FOUND else insert_values t vs (put_value t (nat slot) v r))"

definition insert_slots :: "table \<Rightarrow> insertstatement \<Rightarrow> int list" where
  "insert_slots t s =
     (if incolumns s = [] then map int [0..<length (invalues s)] else map (findColumn t) (incolumns s))"

definition executeInsert :: "insertstatement \<Rightarrow> resultset \<Rightarrow> resultset step" where
  "executeInsert s out =
     andDo (table_and_heap (intable s)) (\<lambda>(t, h).
     andDo (yielding (insert_values t (zip (insert_slots t s) (invalues s)) (default_row t))) (\<lambda>r.
     andDo (checkConstraints t h r (-1)) (\<lambda>_.
     andDo (store_row t h r) (\<lambda>_.
     passed (out\<lparr>rowsAffected := 1, message := ''1 row inserted into '' @ intable s\<rparr>)))))"

end
