(* ===== verification/TableChanges.thy ===== *)
theory TableChanges
  imports RowStore
begin

text \<open>
  Statements about tables and their indexes, \<^verbatim>\<open>06_executor.c\<close>: CREATE TABLE, CREATE INDEX, ALTER TABLE
  with the rewriting of rows, VACUUM and the DROPs.
\<close>

subsection \<open>Changing the catalog in place\<close>

fun replace_table :: "string \<Rightarrow> (table \<Rightarrow> table) \<Rightarrow> table list \<Rightarrow> table list" where
  "replace_table name f [] = []"
| "replace_table name f (t # ts) = (if named name t then f t # ts else t # replace_table name f ts)"

definition update_table :: "string \<Rightarrow> (table \<Rightarrow> table) \<Rightarrow> unit step" where
  "update_table name f =
     changing (\<lambda>e. e\<lparr>ecat := set_bucket (db_of e) (hashName name)
                               (replace_table name f (ecat e (db_of e) (hashName name))) (ecat e)\<rparr>)"

fun replace_index :: "string \<Rightarrow> index \<Rightarrow> index list \<Rightarrow> index list" where
  "replace_index name i [] = []"
| "replace_index name i (j # js) = (if stricmp (index_name j) name then i # js else j # replace_index name i js)"

definition indexes_step :: "(indexes \<times> pool \<Rightarrow> ((error + 'a) \<times> indexes \<times> pool) option) \<Rightarrow> 'a step" where
  "indexes_step f e = map_option (\<lambda>(r, ix, p). (r, e\<lparr>eindexes := ix, epool := p\<rparr>)) (f (eindexes e, epool e))"

definition create_index :: "string \<Rightarrow> string \<Rightarrow> string \<Rightarrow> nat \<Rightarrow> coltype \<Rightarrow> unit step" where
  "create_index name table_name column_name slot type =
     reading (\<lambda>e. indexes_step (\<lambda>st.
       Some (createIndex (memory (exec e) 1) (db_of e) name table_name column_name (int slot) type st)))"

subsection \<open>CREATE\<close>

definition key_index_name :: "string \<Rightarrow> string \<Rightarrow> string" where
  "key_index_name table_name column_name = name_of (take 24 table_name @ ''_'' @ take 24 column_name @ ''_key'')"

definition key_index :: "table \<Rightarrow> nat \<Rightarrow> unit step" where
  "key_index t c =
     (let column = tcols t ! c; name = key_index_name (tname t) (cname column)
      in reading (\<lambda>e.
           if cflags column AND COL_UNIQUE = 0 \<or> findIndexByName (db_of e) name (eindexes e) \<noteq> None then passed ()
           else create_index name (tname t) (cname column) c (ctype column)))"

fun key_indexes :: "table \<Rightarrow> nat list \<Rightarrow> unit step" where
  "key_indexes t [] = passed ()"
| "key_indexes t (c # cs) = andDo (key_index t c) (\<lambda>_. key_indexes t cs)"

definition create_heap :: "string \<Rightarrow> unit step" where
  "create_heap name e =
     (case createHeap (memory (exec e) 1) (heapLimit (exec e)) (db_of e) name (estore e) of
        (None, st) \<Rightarrow> Some (Inl ERROR_EXEC_TOO_MANY_TABLES, e\<lparr>estore := st\<rparr>)
      | (Some _, st) \<Rightarrow> Some (Inr (), e\<lparr>estore := st\<rparr>))"

definition add_table :: "createstatement \<Rightarrow> unit step" where
  "add_table s e =
     map_option (\<lambda>(r, cat). (r, e\<lparr>ecat := cat\<rparr>))
       (addTable (memory (exec e) 1) (memory (exec e) 1) (db_of e) (crtable s) (crcols s) (Some (crcheck s)) (ecat e))"

definition executeCreate :: "createstatement \<Rightarrow> resultset \<Rightarrow> resultset step" where
  "executeCreate s out =
     andDo (create_heap (crtable s)) (\<lambda>_.
     andDo (add_table s) (\<lambda>_.
     andDo (reading (\<lambda>e. case table_of e (crtable s) of None \<Rightarrow> passed ()
                         | Some t \<Rightarrow> key_indexes t [0..<length (tcols t)])) (\<lambda>_.
     passed (out\<lparr>message := ''table '' @ crtable s @ '' created with '' @ print_int (int (length (crcols s))) @ '' column(s)''\<rparr>))))"

text \<open>The new index is filled from the live rows; one that cannot be filled is dropped again.\<close>

definition fill_named :: "string \<Rightarrow> heap \<Rightarrow> nat \<Rightarrow> unit step" where
  "fill_named name h slot e =
     (case findIndexByName (db_of e) name (eindexes e) of None \<Rightarrow> Some (Inr (), e)
      | Some i \<Rightarrow>
          map_option (\<lambda>(r, i, p). (r, e\<lparr>eindexes := (eindexes e)(db_of e := replace_index name i (eindexes e (db_of e))), epool := p\<rparr>))
            (fill_index h slot (heapFirst h) i (epool e)))"

definition drop_index :: "string \<Rightarrow> unit step" where
  "drop_index name = reading (\<lambda>e. indexes_step (dropIndexByName (db_of e) name))"

definition executeCreateIndex :: "createindexstatement \<Rightarrow> resultset \<Rightarrow> resultset step" where
  "executeCreateIndex s out =
     andDo (table_and_heap (ixtable s)) (\<lambda>(t, h).
       let slot = findColumn t (ixcolumn s); column = tcols t ! nat slot
       in if slot < 0 then failed ERROR_SEMANTIC_COLUMN_NOT_FOUND
          else andDo (create_index (ixname s) (tname t) (cname column) (nat slot) (ctype column)) (\<lambda>_.
               caught (fill_named (ixname s) h (nat slot)) (\<lambda>r.
                 case r of Inl err \<Rightarrow> caught (drop_index (ixname s)) (\<lambda>_. failed err)
                 | Inr _ \<Rightarrow>
                     passed (out\<lparr>message := ''index '' @ ixname s @ '' created on '' @ tname t @ ''('' @ cname column @ ''), '' @
                       print_int (heapLive h) @ '' row(s) indexed''\<rparr>))))"

subsection \<open>ALTER TABLE\<close>

partial_function (option) positions_from :: "heap \<Rightarrow> int \<Rightarrow> int list option" where
  [code]: "positions_from h pos = 
     (if pos < 0 then Some [] else do { rest \<leftarrow> positions_from h (heapNext h pos); Some (pos # rest) })"

text \<open>A row with one column less, its later values one place down, or with a value at its end.\<close>

definition drop_value :: "nat \<Rightarrow> row \<Rightarrow> row" where
  "drop_value d r =
     (let n = ncols r; vs = rvals r
      in r\<lparr>rvals := (if d + 1 < n then take d vs @ drop (d + 1) (take n vs) @ drop (n - 1) vs else vs), ncols := n - 1\<rparr>)"

definition add_value :: "Value \<Rightarrow> row \<Rightarrow> row" where
  "add_value v r = r\<lparr>rvals := (rvals r)[ncols r := v], ncols := ncols r + 1\<rparr>"

fun rewrite_each :: "(row \<Rightarrow> row) \<Rightarrow> heap \<Rightarrow> int list \<Rightarrow> heap step" where
  "rewrite_each f h [] = passed h"
| "rewrite_each f h (pos # rows) =
     andDo (heap_read h pos) (\<lambda>r.
     if deleted r then rewrite_each f h rows
     else andDo (heap_insert (htable h) h (f r)) (\<lambda>(landed, h).
          andDo (yielding landed) (\<lambda>_.
          andDo (heap_delete (htable h) h pos) (\<lambda>h. rewrite_each f h rows))))"

definition compact_heap :: "heap \<Rightarrow> heap step" where
  "compact_heap h e =
     map_option (\<lambda>(r, h', p). (map_sum id (\<lambda>_. h') r, put_heap (htable h) h' (e\<lparr>epool := p\<rparr>))) (heapCompact h (epool e))"

definition rebuild_indexes :: "string \<Rightarrow> heap \<Rightarrow> unit step" where
  "rebuild_indexes name h = reading (\<lambda>e. indexes_step (rebuildIndexes (db_of e) name h))"

definition rewriteRows :: "string \<Rightarrow> heap \<Rightarrow> (row \<Rightarrow> row) \<Rightarrow> unit step" where
  "rewriteRows name h f =
     andDo (reserve_candidates (heapSlots h)) (\<lambda>_.
     andDo (trying (\<lambda>e. map_option (\<lambda>rows. (Inr rows, e)) (positions_from h (heapFirst h)))) (\<lambda>rows.
     andDo (rewrite_each f h rows) (\<lambda>h.
     andDo (compact_heap h) (\<lambda>h. rebuild_indexes name h))))"

definition add_column :: "alterstatement \<Rightarrow> table \<Rightarrow> heap \<Rightarrow> unit step" where
  "add_column s t h =
     (let c = alcolumn s
      in if findColumn t (cname c) \<ge> 0 then failed ERROR_SEMANTIC_DUPLICATE_COLUMN
         else if length (tcols t) = MAX_COLS then failed ERROR_EXEC_TABLE_TOO_WIDE
         else andDo (update_table (altable s) (\<lambda>t. t\<lparr>tcols := tcols t @ [c]\<rparr>)) (\<lambda>_.
              caught (rewriteRows (tname t) h (add_value (default_value c))) (\<lambda>r.
                case r of Inr _ \<Rightarrow> passed ()
                | Inl err \<Rightarrow> andDo (update_table (altable s) (\<lambda>t. t\<lparr>tcols := butlast (tcols t)\<rparr>)) (\<lambda>_. failed err))))"

definition drop_column :: "alterstatement \<Rightarrow> table \<Rightarrow> heap \<Rightarrow> unit step" where
  "drop_column s t h =
     (let slot = findColumn t (alname s)
      in if slot < 0 then failed ERROR_SEMANTIC_COLUMN_NOT_FOUND
         else if length (tcols t) = 1 then failed ERROR_SEMANTIC_LAST_COLUMN
         else andDo (reading (\<lambda>e. indexes_step (\<lambda>st. map_option (\<lambda>(ix, p). (Inr (), ix, p))
                       (indexesColumnDropped (db_of e) (tname t) (cname (tcols t ! nat slot)) slot st)))) (\<lambda>_.
              andDo (update_table (altable s) (\<lambda>t. t\<lparr>tcols := take (nat slot) (tcols t) @ drop (nat slot + 1) (tcols t)\<rparr>)) (\<lambda>_.
              rewriteRows (tname t) h (drop_value (nat slot)))))"

definition rename_column :: "alterstatement \<Rightarrow> table \<Rightarrow> unit step" where
  "rename_column s t =
     (let slot = findColumn t (alname s)
      in if slot < 0 then failed ERROR_SEMANTIC_COLUMN_NOT_FOUND
         else if findColumn t (alnewName s) \<ge> 0 then failed ERROR_SEMANTIC_DUPLICATE_COLUMN
         else andDo (changing (\<lambda>e. e\<lparr>eindexes := indexesColumnRenamed (db_of e) (tname t) (cname (tcols t ! nat slot)) (alnewName s) (eindexes e)\<rparr>)) (\<lambda>_.
              update_table (altable s) (\<lambda>t. t\<lparr>tcols := (tcols t)[nat slot := (tcols t ! nat slot)\<lparr>cname := name_of (alnewName s)\<rparr>]\<rparr>)))"

definition rename_table :: "alterstatement \<Rightarrow> table \<Rightarrow> unit step" where
  "rename_table s t =
     (let was = name_of (tname t)
      in andDo (stepping (\<lambda>e. case renameTableInCatalog (db_of e) was (alnewName s) (ecat e) of (r, cat) \<Rightarrow> (r, e\<lparr>ecat := cat\<rparr>))) (\<lambda>_.
         changing (\<lambda>e. e\<lparr>estore := renameHeap (db_of e) was (alnewName s) (estore e),
                          eindexes := indexesTableRenamed (db_of e) was (alnewName s) (eindexes e)\<rparr>)))"

definition executeAlter :: "alterstatement \<Rightarrow> resultset \<Rightarrow> resultset step" where
  "executeAlter s out =
     andDo (table_and_heap (altable s)) (\<lambda>(t, h).
       case alaction s of
         ALTER_ADD_COLUMN \<Rightarrow> andDo (add_column s t h) (\<lambda>_. passed (out\<lparr>message := tname t @ '': column '' @ cname (alcolumn s) @ '' added''\<rparr>))
       | ALTER_DROP_COLUMN \<Rightarrow> andDo (drop_column s t h) (\<lambda>_. passed (out\<lparr>message := tname t @ '': column '' @ alname s @ '' dropped''\<rparr>))
       | ALTER_RENAME_COLUMN \<Rightarrow>
           andDo (rename_column s t) (\<lambda>_. passed (out\<lparr>message := tname t @ '': column '' @ alname s @ '' renamed to '' @ alnewName s\<rparr>))
       | ALTER_RENAME_TABLE \<Rightarrow>
           andDo (rename_table s t) (\<lambda>_. passed (out\<lparr>message := ''table '' @ tname t @ '' renamed to '' @ alnewName s\<rparr>)))"

subsection \<open>VACUUM\<close>

definition executeVacuum :: "string \<Rightarrow> resultset \<Rightarrow> resultset step" where
  "executeVacuum name out =
     andDo (table_and_heap name) (\<lambda>(t, h).
       let slotsBefore = heapSlots h
       in andDo (compact_heap h) (\<lambda>h.
          andDo (rebuild_indexes (tname t) h) (\<lambda>_.
          passed (out\<lparr>message := tname t @ '': '' @ print_int slotsBefore @ '' slot(s) compacted to '' @ print_int (heapLive h) @
            '' row(s), '' @ print_int (slotsBefore - heapLive h) @ '' reclaimed''\<rparr>))))"

subsection \<open>DROP\<close>

text \<open>A table of the current database goes with its indexes and its heap.\<close>

definition drop_whole_table :: "string \<Rightarrow> unit step" where
  "drop_whole_table name =
     andDo (reading (\<lambda>e. indexes_step (\<lambda>st. map_option (\<lambda>(ix, p). (Inr (), ix, p)) (dropIndexesForTable (db_of e) name st)))) (\<lambda>_.
     changing (\<lambda>e. let (_, st, p) = dropHeap (db_of e) name (estore e, epool e)
                    in e\<lparr>estore := st, epool := p, ecat := snd (dropTable (db_of e) name (ecat e))\<rparr>))"

definition executeDropTable :: "string \<Rightarrow> resultset \<Rightarrow> resultset step" where
  "executeDropTable name out =
     reading (\<lambda>e. case table_of e name of None \<Rightarrow> failed ERROR_SEMANTIC_TABLE_NOT_FOUND
       | Some t \<Rightarrow>
           let resolved = name_of (tname t)
           in andDo (drop_whole_table resolved) (\<lambda>_. passed (out\<lparr>message := ''table '' @ resolved @ '' dropped''\<rparr>)))"

definition executeDropIndex :: "string \<Rightarrow> resultset \<Rightarrow> resultset step" where
  "executeDropIndex name out =
     andDo (drop_index name) (\<lambda>_. passed (out\<lparr>message := ''index '' @ name @ '' dropped''\<rparr>))"

text \<open>The loop over the tables left in the database; it ends when none is listed.\<close>

partial_function (option) drop_tables :: "engine \<Rightarrow> ((error + unit) \<times> engine) option" where
  [code]: "drop_tables e =
     (case listTables (db_of e) MAX_TABLES (ecat e) of [] \<Rightarrow> Some (Inr (), e)
      | t # _ \<Rightarrow>
          (case drop_whole_table (name_of (tname t)) e of None \<Rightarrow> None
           | Some (_, e) \<Rightarrow> drop_tables e))"

definition executeDropDatabase :: "string \<Rightarrow> resultset \<Rightarrow> resultset step" where
  "executeDropDatabase name out =
     reading (\<lambda>e.
       let k = findDatabase name (edbs e); restoreTo = currentDatabaseId (edbs e)
       in if k < 0 then failed ERROR_SEMANTIC_DATABASE_NOT_FOUND
          else if k = 0 then failed ERROR_SEMANTIC_CANNOT_DROP_DEFAULT
          else andDo (changing (\<lambda>e. e\<lparr>edbs := selectDatabaseById (nat k) (edbs e)\<rparr>)) (\<lambda>_.
               andDo (trying drop_tables) (\<lambda>_.
               andDo (changing (\<lambda>e. e\<lparr>edbs := releaseDatabase (nat k)
                        (selectDatabaseById (if restoreTo = nat k then 0 else restoreTo) (edbs e))\<rparr>)) (\<lambda>_.
               passed (out\<lparr>message := ''database '' @ name @ '' dropped''\<rparr>)))))"

end
