(* ===== verification/RowChanges.thy ===== *)
theory RowChanges
  imports RowStore
begin

text \<open>
  Choosing rows and changing them, \<^verbatim>\<open>06_executor.c\<close>: the access path with its positions, UPDATE and
  DELETE. \<open>EXPLAIN\<close>'s lines are printed only and left out.
\<close>

subsection \<open>The rows a condition keeps\<close>

definition resolve_condition :: "table \<Rightarrow> condition \<Rightarrow> condition step" where
  "resolve_condition t c e =
     map_option (\<lambda>(r, c, unres). (map_sum id (\<lambda>_. c) r, set_exec (\<lambda>x. x\<lparr>unresolved := unres\<rparr>) e))
       (resolveCondition t c (unresolved (exec e)))"

definition every_row :: "int \<Rightarrow> int \<Rightarrow> record_at \<Rightarrow> int list \<Rightarrow> (bool \<times> int list) step" where
  "every_row stopAt pos rec rows = (let rows = rows @ [pos] in passed (int (length rows) \<noteq> stopAt, rows))"

text \<open>A row is decoded as deep as the condition reads, into the one row the loop has.\<close>

definition matching_row :: "condition \<Rightarrow> int \<Rightarrow> int \<Rightarrow> int \<Rightarrow> record_at \<Rightarrow> int list \<times> row \<Rightarrow> (bool \<times> int list \<times> row) step" where
  "matching_row c reach stopAt pos rec = (\<lambda>(rows, r).
     let r = decode rec r reach
     in andDo (evaluate_step c (croot c) r) (\<lambda>v.
        if v \<noteq> TRI_TRUE then passed (True, rows, r)
        else let rows = rows @ [pos] in passed (int (length rows) \<noteq> stopAt, rows, r)))"

definition indexable_leaf :: "table \<Rightarrow> condition \<Rightarrow> int step" where
  "indexable_leaf t c e =
     map_option (\<lambda>leaf. (Inr leaf, e)) (findIndexableLeaf (\<lambda>column. index_on e (tname t) column \<noteq> None) c (croot c))"

definition deepest_column :: "condition \<Rightarrow> int step" where
  "deepest_column c e = map_option (\<lambda>d. (Inr d, e)) (conditionDeepest c)"

text \<open>The positions the index of a comparison gives.\<close>

definition candidates_of :: "table \<Rightarrow> condition \<Rightarrow> predicate \<Rightarrow> int \<Rightarrow> int list step" where
  "candidates_of t c p slots =
     reading (\<lambda>e.
       case index_on e (tname t) (exprColumn (cexprs c) (pleft p)) of None \<Rightarrow> passed []
       | Some i \<Rightarrow>
           let key = eliteral (node_at (cexprs c) (pright p))
           in if pop p = OP_LIKE then index_prefix_scan i (likePrefix (pattern_text key)) slots
              else index_scan i (pop p) key slots)"

definition collectRows :: "table \<Rightarrow> heap \<Rightarrow> condition \<Rightarrow> int \<Rightarrow> int list step" where
  "collectRows t h c stopAt =
     (if \<not> present c then scan_rows h (every_row stopAt) []
      else andDo (resolve_condition t c) (\<lambda>c.
           andDo (deepest_column c) (\<lambda>reach.
           andDo (indexable_leaf t c) (\<lambda>leaf.
           if leaf \<ge> 0
           then andDo (candidates_of t c (ccompare (node_at (cnodes c) leaf)) (heapSlots h)) (\<lambda>ps.
                andDo (fetch_rows h (matching_row c reach stopAt) ps ([], blank_row)) (\<lambda>(rows, _). passed rows))
           else andDo (scan_rows h (matching_row c reach stopAt) ([], blank_row)) (\<lambda>(rows, _). passed rows)))))"

subsection \<open>UPDATE\<close>

definition evaluate_expr :: "exprpool \<Rightarrow> int \<Rightarrow> row \<Rightarrow> ('s, Value) action" where
  "evaluate_expr pool n r st = map_option (\<lambda>v. (v, st)) (exprEvaluate pool n r)"

text \<open>An int for a float column is that number; a value of another type is refused.\<close>

definition fit_computed :: "coltype \<Rightarrow> Value \<Rightarrow> error + Value" where
  "fit_computed wanted v =
     (let v = (if \<not> isNull v \<and> vtype v = TYPE_INT \<and> wanted = TYPE_FLOAT then setFloat (fl_of_int (sint (intValue v))) else v)
      in if \<not> isNull v \<and> vtype v \<noteq> wanted then Inl ERROR_SEMANTIC_TYPE_MISMATCH else Inr v)"

fun compute_values :: "table \<Rightarrow> exprpool \<Rightarrow> (assignment \<times> nat) list \<Rightarrow> row \<Rightarrow> ('s, Value list) action" where
  "compute_values t pool [] r = passed []"
| "compute_values t pool ((a, slot) # as) r =
     andDo (evaluate_expr pool (asexpr a) r) (\<lambda>v.
     andDo (yielding (fit_computed (ctype (tcols t ! slot)) v)) (\<lambda>v.
     andDo (compute_values t pool as r) (\<lambda>vs. passed (v # vs))))"

definition applyAssignments :: "table \<Rightarrow> updatestatement \<Rightarrow> nat list \<Rightarrow> row \<Rightarrow> ('s, row) action" where
  "applyAssignments t s slots r =
     andDo (compute_values t (upexprs s) (zip (upsets s) slots) r) (\<lambda>vs.
     passed ((foldl (\<lambda>r (slot, v). put_value t slot v r) r (zip slots vs))\<lparr>deleted := False\<rparr>))"

fun set_slots :: "table \<Rightarrow> assignment list \<Rightarrow> error + nat list" where
  "set_slots t [] = Inr []"
| "set_slots t (a # as) =
     (let slot = findColumn t (ascolumn a)
      in if slot < 0 then Inl ERROR_SEMANTIC_COLUMN_NOT_FOUND else map_sum id ((#) (nat slot)) (set_slots t as))"

text \<open>The first pass: every new row is good before any is written.\<close>

fun check_updates :: "table \<Rightarrow> heap \<Rightarrow> updatestatement \<Rightarrow> nat list \<Rightarrow> int list \<Rightarrow> unit step" where
  "check_updates t h s slots [] = passed ()"
| "check_updates t h s slots (pos # rows) =
     andDo (heap_read h pos) (\<lambda>r.
     andDo (applyAssignments t s slots r) (\<lambda>r.
     andDo (checkConstraints t h r pos) (\<lambda>_. check_updates t h s slots rows)))"

text \<open>Two rows would get one literal in a unique column.\<close>

definition same_for_all :: "table \<Rightarrow> updatestatement \<Rightarrow> nat list \<Rightarrow> bool" where
  "same_for_all t s slots \<longleftrightarrow>
     (\<exists>(a, slot) \<in> set (zip (upsets s) slots). cflags (tcols t ! slot) AND COL_UNIQUE \<noteq> 0 \<and>
        (case exprLiteral (upexprs s) (asexpr a) of None \<Rightarrow> False | Some v \<Rightarrow> \<not> isNull v))"

fun write_updates :: "table \<Rightarrow> heap \<Rightarrow> updatestatement \<Rightarrow> nat list \<Rightarrow> int list \<Rightarrow> heap step" where
  "write_updates t h s slots [] = passed h"
| "write_updates t h s slots (pos # rows) =
     andDo (heap_read h pos) (\<lambda>r.
     andDo (applyAssignments t s slots r) (\<lambda>r.
     andDo (store_row t h r) (\<lambda>h.
     andDo (heap_delete (htable h) h pos) (\<lambda>h. write_updates t h s slots rows))))"

definition executeUpdate :: "updatestatement \<Rightarrow> resultset \<Rightarrow> resultset step" where
  "executeUpdate s out =
     andDo (table_and_heap (uptable s)) (\<lambda>(t, h).
     andDo (yielding (set_slots t (upsets s))) (\<lambda>slots.
     andDo (reserve_candidates (heapSlots h)) (\<lambda>_.
     andDo (collectRows t h (upwhere s) (-1)) (\<lambda>rows.
     andDo (check_updates t h s slots rows) (\<lambda>_.
     andDo (ensure (\<not> (length rows > 1 \<and> same_for_all t s slots)) ERROR_EXEC_NOT_UNIQUE) (\<lambda>_.
     andDo (write_updates t h s slots rows) (\<lambda>_.
     passed (out\<lparr>rowsAffected := int (length rows),
       message := print_int (int (length rows)) @ '' row(s) updated in '' @ tname t\<rparr>))))))))"

subsection \<open>DELETE\<close>

fun delete_rows :: "heap \<Rightarrow> int list \<Rightarrow> heap step" where
  "delete_rows h [] = passed h"
| "delete_rows h (pos # rows) = andDo (heap_delete (htable h) h pos) (\<lambda>h. delete_rows h rows)"

definition executeDelete :: "deletestatement \<Rightarrow> resultset \<Rightarrow> resultset step" where
  "executeDelete s out =
     andDo (table_and_heap (detable s)) (\<lambda>(t, h).
     andDo (reserve_candidates (heapSlots h)) (\<lambda>_.
     andDo (collectRows t h (dewhere s) (-1)) (\<lambda>rows.
     andDo (delete_rows h rows) (\<lambda>_.
     passed (out\<lparr>rowsAffected := int (length rows),
       message := print_int (int (length rows)) @ '' row(s) deleted from '' @ tname t\<rparr>)))))"

end
