(* ===== verification/Joins.thy ===== *)
theory Joins
  imports RowChanges
begin

text \<open>
  Joins, \<^verbatim>\<open>06_executor.c\<close>: the nested loops with LEFT JOIN, the equality a hash join can use, the hash
  join, and the heap of combined rows the rest of a SELECT reads.
\<close>

subsection \<open>The combined row\<close>

definition overlay :: "nat \<Rightarrow> 'a list \<Rightarrow> 'a list \<Rightarrow> 'a list" where
  "overlay base vs ws = take base ws @ vs @ drop (base + length vs) ws"

definition set_work :: "(row \<Rightarrow> row) \<Rightarrow> unit step" where
  "set_work f = changing (set_exec (\<lambda>x. x\<lparr>work := f (work x)\<rparr>))"

definition put_columns :: "nat \<Rightarrow> row \<Rightarrow> row \<Rightarrow> row" where
  "put_columns base r w = w\<lparr>rvals := overlay base (columns r) (rvals w)\<rparr>"

definition evaluate_work :: "condition \<Rightarrow> int \<Rightarrow> tristate step" where
  "evaluate_work c n = reading (\<lambda>e. evaluate_step c n (work (exec e)))"

definition join_insert :: "unit step" where
  "join_insert e =
     (case heapInsert (joinHeap (exec e)) (work (exec e)) (epool e) of (r, h, p) \<Rightarrow>
        Some (map_sum id (\<lambda>_. ()) r, set_exec (\<lambda>x. x\<lparr>joinHeap := h\<rparr>) (e\<lparr>epool := p\<rparr>)))"

subsection \<open>Nested loops\<close>

text \<open>The combined row is finished: it goes into the join's heap when the WHERE is true for it.\<close>

definition join_leaf :: "condition \<Rightarrow> nat \<Rightarrow> unit step" where
  "join_leaf c base =
     andDo (set_work (\<lambda>w. w\<lparr>ncols := base, deleted := False\<rparr>)) (\<lambda>_.
     if present c then andDo (evaluate_work c (croot c)) (\<lambda>v. if v \<noteq> TRI_TRUE then passed () else join_insert)
     else join_insert)"

text \<open>A row of this level: its ON, when it has one, and the levels below it. \<open>below\<close> is the rest of the join.\<close>

definition join_row :: "condition \<Rightarrow> int \<Rightarrow> nat \<Rightarrow> (nat \<Rightarrow> unit step) \<Rightarrow> int \<Rightarrow> record_at \<Rightarrow> row \<times> bool \<Rightarrow> (bool \<times> row \<times> bool) step" where
  "join_row c on base below pos rec = (\<lambda>(source, matched).
     let source = decode rec source (int MAX_COLS - 1); width = base + ncols source
     in andDo (set_work (put_columns base source)) (\<lambda>_.
        if on < 0 then andDo (below width) (\<lambda>_. passed (True, source, matched))
        else andDo (set_work (\<lambda>w. w\<lparr>ncols := width\<rparr>)) (\<lambda>_.
             andDo (evaluate_work c on) (\<lambda>v.
             if v \<noteq> TRI_TRUE then passed (True, source, matched)
             else andDo (below width) (\<lambda>_. passed (True, source, True))))))"

definition null_row :: "table \<Rightarrow> row" where
  "null_row t = \<lparr>rvals = map (\<lambda>c. setNull (ctype c)) (tcols t), ncols = length (tcols t), deleted = False\<rparr>"

fun joinTables :: "condition \<Rightarrow> (string \<times> int \<times> bool) list \<Rightarrow> nat \<Rightarrow> unit step" where
  "joinTables c [] base = join_leaf c base"
| "joinTables c ((name, on, outer) # ts) base =
     andDo (reading (\<lambda>e. yielding (case (heap_of e name, table_of e name) of (Some h, Some t) \<Rightarrow> Inr (h, t)
                                 | _ \<Rightarrow> Inl ERROR_SEMANTIC_TABLE_NOT_FOUND))) (\<lambda>(h, t).
     andDo (scan_rows h (join_row c on base (\<lambda>b. joinTables c ts b)) (blank_row, False)) (\<lambda>(_, matched).
     if outer \<and> \<not> matched
     then andDo (set_work (put_columns base (null_row t))) (\<lambda>_. joinTables c ts (base + length (tcols t)))
     else passed ()))"

subsection \<open>The hash join\<close>

definition equi_slots :: "exprpool \<Rightarrow> predicate \<Rightarrow> int \<Rightarrow> (nat \<times> nat) option" where
  "equi_slots pool p split =
     (if pop p \<noteq> OP_EQ \<or> \<not> exprIsColumn pool (pleft p) \<or> \<not> exprIsColumn pool (pright p) then None
      else let left = eslot (node_at pool (pleft p)); right = eslot (node_at pool (pright p))
           in if left < 0 \<or> right < 0 then None
              else if left < split \<and> right \<ge> split then Some (nat left, nat (right - split))
              else if right < split \<and> left \<ge> split then Some (nat right, nat (left - split)) else None)"

partial_function (option) findEquiJoin :: "condition \<Rightarrow> int \<Rightarrow> int \<Rightarrow> (nat \<times> nat) option option" where
  [code]: "findEquiJoin c n split =
     (let current = node_at (cnodes c) n
      in case ckind current of
           COND_COMPARE \<Rightarrow> Some (equi_slots (cexprs c) (ccompare current) split)
         | COND_AND \<Rightarrow>
             do { found \<leftarrow> findEquiJoin c (cleft current) split;
                  case found of Some slots \<Rightarrow> Some (Some slots) | None \<Rightarrow> findEquiJoin c (cright current) split }
         | _ \<Rightarrow> Some None)"

record joinentry =
  jkey :: "Value"
  jhash :: u32
  jposition :: int

text \<open>The build side: each row with a key that is not NULL, in the order of the heap.\<close>

definition build_entry :: "nat \<Rightarrow> int \<Rightarrow> record_at \<Rightarrow> joinentry list \<times> row \<Rightarrow> (bool \<times> joinentry list \<times> row) step" where
  "build_entry buildSlot pos rec = (\<lambda>(es, r).
     let r = decode rec r (int buildSlot); key = rvals r ! buildSlot
     in if isNull key then passed (True, es, r)
        else andDo (reserve_entries (length es + 1)) (\<lambda>_.
             reading (\<lambda>e.
               if vtype key = TYPE_TEXT \<and> vtext key \<noteq> [] \<and> \<not> memory (exec e) (length (vtext key)) then failed ERROR_EXEC_OUT_OF_MEMORY
               else passed (True, es @ [\<lparr>jkey = key, jhash = hashValue key, jposition = pos\<rparr>], r))))"

definition size_buckets :: "nat \<Rightarrow> nat step" where
  "size_buckets entries e =
     (let wanted = doubled 16 (entries * 2); n = joinBucketCount (exec e)
      in if wanted > n \<and> \<not> memory (exec e) wanted then Some (Inl ERROR_EXEC_OUT_OF_MEMORY, e)
         else Some (Inr (max wanted n), set_exec (\<lambda>x. x\<lparr>joinBucketCount := max wanted n\<rparr>) e))"

definition join_buckets :: "joinentry list \<Rightarrow> nat \<Rightarrow> nat list option" where
  "join_buckets es n = place_all 0 (map jhash es) (replicate n 0)"

text \<open>The run of full buckets from the hash on, and the entries in it that have the key.\<close>

partial_function (option) bucket_run :: "nat list \<Rightarrow> u32 \<Rightarrow> nat list option" where
  [code]: "bucket_run buckets at =
     (let slot = buckets ! unat at
      in if slot = 0 then Some []
         else do { rest \<leftarrow> bucket_run buckets (and (at + 1) (mask_of buckets)); Some ((slot - 1) # rest) })"

definition same_key :: "joinentry list \<Rightarrow> Value \<Rightarrow> nat \<Rightarrow> bool" where
  "same_key es key i \<longleftrightarrow> jhash (es ! i) = hashValue key \<and> valuesEqual (jkey (es ! i)) key"

definition probe_entries :: "joinentry list \<Rightarrow> nat list \<Rightarrow> Value \<Rightarrow> nat list option" where
  "probe_entries es buckets key =
     map_option (filter (same_key es key)) (bucket_run buckets (and (hashValue key) (mask_of buckets)))"

text \<open>One row of the first table against the entries with its key; \<open>sc\<close> is the cursor on the second.\<close>

fun probe_matches :: "condition \<Rightarrow> table \<Rightarrow> heap \<Rightarrow> nat \<Rightarrow> row \<Rightarrow> int list \<Rightarrow> heapscan \<times> row \<Rightarrow> (heapscan \<times> row) step" where
  "probe_matches c schema h split r [] st = passed st"
| "probe_matches c schema h split r (pos # ps) (sc, built) =
     andDo (\<lambda>e. case heapScanAt h sc pos (epool e) of (found, sc, p) \<Rightarrow>
               Some (Inr (map_option (\<lambda>(i, off). (off, frame_page i p)) found, sc), e\<lparr>epool := p\<rparr>)) (\<lambda>(found, sc).
     case found of None \<Rightarrow> probe_matches c schema h split r ps (sc, built)
     | Some rec \<Rightarrow>
         let built = decode rec built (int MAX_COLS - 1)
         in andDo (set_work (\<lambda>w. (put_columns split built (put_columns 0 r w))\<lparr>ncols := length (tcols schema), deleted := False\<rparr>)) (\<lambda>_.
            andDo (evaluate_work c (croot c)) (\<lambda>v.
            if v \<noteq> TRI_TRUE then probe_matches c schema h split r ps (sc, built)
            else caught join_insert (\<lambda>res.
                   case res of Inr _ \<Rightarrow> probe_matches c schema h split r ps (sc, built)
                   | Inl err \<Rightarrow> andDo (pool_step (heapScanEnd sc)) (\<lambda>_. failed err)))))"

definition probe_row :: "condition \<Rightarrow> table \<Rightarrow> heap \<Rightarrow> nat \<Rightarrow> nat \<Rightarrow> joinentry list \<Rightarrow> nat list \<Rightarrow>
    int \<Rightarrow> record_at \<Rightarrow> row \<times> heapscan \<times> row \<Rightarrow> (bool \<times> row \<times> heapscan \<times> row) step" where
  "probe_row c schema h split probeSlot es buckets pos rec = (\<lambda>(r, st).
     let r = decode rec r (int MAX_COLS - 1); key = rvals r ! probeSlot
     in if isNull key then passed (True, r, st)
        else andDo (trying (\<lambda>e. map_option (\<lambda>is. (Inr is, e)) (probe_entries es buckets key))) (\<lambda>is.
             andDo (probe_matches c schema h split r (map (\<lambda>i. jposition (es ! i)) is) st) (\<lambda>st. passed (True, r, st))))"

definition hashJoin :: "selectstatement \<Rightarrow> condition \<Rightarrow> table \<Rightarrow> nat \<Rightarrow> nat \<Rightarrow> nat \<Rightarrow> unit step" where
  "hashJoin s c schema split probeSlot buildSlot =
     andDo (reading (\<lambda>e. yielding (case (heap_of e (stables s ! 0), heap_of e (stables s ! 1)) of
             (Some p, Some b) \<Rightarrow> Inr (p, b) | _ \<Rightarrow> Inl ERROR_SEMANTIC_TABLE_NOT_FOUND))) (\<lambda>(probe, build).
     andDo (scan_rows build (build_entry buildSlot) ([], blank_row)) (\<lambda>(es, r).
     andDo (size_buckets (length es)) (\<lambda>n.
     andDo (trying (\<lambda>e. map_option (\<lambda>b. (Inr b, e)) (join_buckets es n))) (\<lambda>buckets.
     andDo (scanning probe (probe_row c schema build split probeSlot es buckets) heapScanStart (r, heapScanStart, blank_row)) (\<lambda>(sc, _, fetch, _).
     andDo (pool_step (heapScanEnd fetch)) (\<lambda>_.
     andDo (pool_step (heapScanEnd sc)) (\<lambda>_. passed ())))))))"

subsection \<open>Building the join\<close>

definition join_list :: "selectstatement \<Rightarrow> (string \<times> int \<times> bool) list" where
  "join_list s = map (\<lambda>t. (stables s ! t, onRoot s ! t, souter s ! t)) [0..<length (stables s)]"

definition reset_join :: "string \<Rightarrow> unit step" where
  "reset_join name e =
     (case heapReset (joinHeap (exec e)) (epool e) of (h, p) \<Rightarrow>
        Some (Inr (), set_exec (\<lambda>x. x\<lparr>joinHeap := h\<lparr>htable := name_of name\<rparr>\<rparr>) (e\<lparr>epool := p\<rparr>)))"

definition equi_join :: "selectstatement \<Rightarrow> condition \<Rightarrow> (nat \<times> nat \<times> nat) option step" where
  "equi_join s c =
     (if length (stables s) = 2 \<and> present c \<and> (\<forall>t < length (stables s). \<not> souter s ! t)
      then reading (\<lambda>e. case table_of e (stables s ! 0) of None \<Rightarrow> passed None
             | Some t \<Rightarrow> let split = length (tcols t)
                         in trying (\<lambda>e. map_option (\<lambda>found. (Inr (map_option (Pair split) found), e)) (findEquiJoin c (croot c) (int split))))
      else passed None)"

definition buildJoin :: "selectstatement \<Rightarrow> table \<Rightarrow> condition step" where
  "buildJoin s schema =
     andDo (resolve_condition schema (swhere s)) (\<lambda>c.
     andDo (reset_join (tname schema)) (\<lambda>_.
     andDo (equi_join s c) (\<lambda>found.
     andDo (case found of Some (split, probeSlot, buildSlot) \<Rightarrow> hashJoin s c schema split probeSlot buildSlot
            | None \<Rightarrow> joinTables c (join_list s) 0) (\<lambda>_. passed c))))"

end
