(* ===== verification/Queries.thy ===== *)
theory Queries
  imports Joins
begin

text \<open>
  SELECT, \<^verbatim>\<open>06_executor.c\<close>: the projection of rows or of groups over the positions a query keeps, and the
  stages behind it. Row arrays of a result are asked for whenever they are filled.
\<close>

subsection \<open>Rows\<close>

text \<open>One item of the list: its type and its header, with the names of its tree bound.\<close>

definition resolve_step :: "table \<Rightarrow> exprpool \<Rightarrow> int \<Rightarrow> exprpool step" where
  "resolve_step t pool n e =
     map_option (\<lambda>(r, pool, unres). (map_sum id (\<lambda>_. pool) r, set_exec (\<lambda>x. x\<lparr>unresolved := unres\<rparr>) e))
       (exprResolve t pool n (unresolved (exec e)))"

definition type_step :: "exprpool \<Rightarrow> int \<Rightarrow> coltype step" where
  "type_step pool n e = map_option (\<lambda>r. (r, e)) (exprType pool n)"

definition depth_step :: "exprpool \<Rightarrow> int \<Rightarrow> int step" where
  "depth_step pool n e = map_option (\<lambda>d. (Inr d, e)) (exprDeepest pool n)"

definition item_header :: "table \<Rightarrow> exprpool \<Rightarrow> selectitem \<Rightarrow> error + string" where
  "item_header t pool item =
     (if \<not> aliased item \<and> exprIsColumn pool (iexpr item)
      then let slot = findColumn t (exprColumn pool (iexpr item))
           in if slot < 0 then Inl ERROR_SEMANTIC_COLUMN_NOT_FOUND else Inr (name_of (cname (tcols t ! nat slot)))
      else Inr (name_of (ilabel item)))"

fun bind_items :: "table \<Rightarrow> selectitem list \<Rightarrow> exprpool \<Rightarrow> (exprpool \<times> (coltype \<times> string) list) step" where
  "bind_items t [] pool = passed (pool, [])"
| "bind_items t (item # items) pool =
     andDo (resolve_step t pool (iexpr item)) (\<lambda>pool.
     andDo (type_step pool (iexpr item)) (\<lambda>type.
     andDo (yielding (item_header t pool item)) (\<lambda>h.
     andDo (bind_items t items pool) (\<lambda>(pool, cols). passed (pool, (type, h) # cols)))))"

fun deepest_of :: "exprpool \<Rightarrow> int list \<Rightarrow> int \<Rightarrow> int step" where
  "deepest_of pool [] deepest = passed deepest"
| "deepest_of pool (n # ns) deepest = andDo (depth_step pool n) (\<lambda>d. deepest_of pool ns (max deepest d))"

fun evaluate_items :: "exprpool \<Rightarrow> selectitem list \<Rightarrow> row \<Rightarrow> Value list step" where
  "evaluate_items pool [] r = passed []"
| "evaluate_items pool (item # items) r =
     andDo (evaluate_expr pool (iexpr item) r) (\<lambda>v.
     andDo (evaluate_items pool items r) (\<lambda>vs. passed (v # vs)))"

definition result_room :: "nat \<Rightarrow> unit step" where
  "result_room rows = reading (\<lambda>e. ensure (rows = 0 \<or> memory (exec e) rows) ERROR_EXEC_OUT_OF_MEMORY)"

definition project_row :: "selectstatement \<Rightarrow> table \<Rightarrow> exprpool \<Rightarrow> int \<Rightarrow> int \<Rightarrow> record_at \<Rightarrow> row list \<times> row \<Rightarrow> (bool \<times> row list \<times> row) step" where
  "project_row s t pool deepest pos rec = (\<lambda>(rows, source).
     let source = decode rec source deepest
     in andDo (if selectAll s then passed (take (length (tcols t)) (rvals source)) else evaluate_items pool (sitems s) source) (\<lambda>vs.
        passed (True, rows @ [result_row vs], source)))"

definition projectRows :: "selectstatement \<Rightarrow> table \<Rightarrow> heap \<Rightarrow> int list \<Rightarrow> resultset \<Rightarrow> resultset step" where
  "projectRows s t h rows out =
     andDo (if selectAll s then passed (sexprs s, map (\<lambda>c. (ctype c, name_of (cname c))) (tcols t))
            else bind_items t (sitems s) (sexprs s)) (\<lambda>(pool, cols).
     andDo (result_room (length rows)) (\<lambda>_.
     andDo (if selectAll s then passed (int (length (tcols t)) - 1) else deepest_of pool (map iexpr (sitems s)) (-1)) (\<lambda>deepest.
     andDo (fetch_rows h (project_row s t pool deepest) rows ([], blank_row)) (\<lambda>(kept, _).
     passed (out\<lparr>rtypes := map fst cols, headers := map snd cols, rrows := kept\<rparr>)))))"

subsection \<open>Groups\<close>

fun group_slots :: "table \<Rightarrow> string list \<Rightarrow> error + nat list" where
  "group_slots t [] = Inr []"
| "group_slots t (g # gs) =
     (let slot = findColumn t g
      in if slot < 0 then Inl ERROR_SEMANTIC_COLUMN_NOT_FOUND else map_sum id ((#) (nat slot)) (group_slots t gs))"

text \<open>An item's type and, for a plain column, its last place among the keys.\<close>

definition item_key :: "selectstatement \<Rightarrow> exprpool \<Rightarrow> selectitem \<Rightarrow> nat" where
  "item_key s pool item =
     (if aggregate item \<noteq> AGG_NONE \<or> \<not> exprIsColumn pool (iexpr item) then 0
      else foldl (\<lambda>key k. if stricmp (groupBy s ! k) (exprColumn pool (iexpr item)) then k else key) 0 [0..<length (groupBy s)])"

fun type_items :: "table \<Rightarrow> selectstatement \<Rightarrow> selectitem list \<Rightarrow> exprpool \<Rightarrow> (exprpool \<times> (selectitem \<times> nat \<times> coltype) list) step" where
  "type_items t s [] pool = passed (pool, [])"
| "type_items t s (item # items) pool =
     andDo (if istar item then passed (pool, TYPE_INT)
            else andDo (resolve_step t pool (iexpr item)) (\<lambda>pool.
                 andDo (type_step pool (iexpr item)) (\<lambda>type. passed (pool, type)))) (\<lambda>(pool, type).
     andDo (type_items t s items pool) (\<lambda>(pool, typed). passed (pool, (item, item_key s pool item, type) # typed)))"

definition reserve_first_group :: "unit step" where
  "reserve_first_group e =
     map_option (\<lambda>r. case r of Inl err \<Rightarrow> (Inl err, e) | Inr g \<Rightarrow> (Inr (), set_exec (\<lambda>x. x\<lparr>groupTable := g\<rparr>) e))
       (reserveGroup (memory (exec e)) (groupTable (exec e)))"

definition group_body :: "selectstatement \<Rightarrow> nat list \<Rightarrow> int \<Rightarrow> int \<Rightarrow> record_at \<Rightarrow> row \<Rightarrow> (bool \<times> row) step" where
  "group_body s slots deepest pos rec r e =
     (let r = decode rec r deepest
      in map_option (\<lambda>res. case res of Inl err \<Rightarrow> (Inl err, e) | Inr g \<Rightarrow> (Inr (True, r), set_exec (\<lambda>x. x\<lparr>groupTable := g\<rparr>) e))
           (group_row (memory (exec e)) (held (exec e)) s slots r (groupTable (exec e))))"

text \<open>The pass: counted only when no item and no key reads a column, else row by row.\<close>

definition group_pass :: "selectstatement \<Rightarrow> heap \<Rightarrow> nat list \<Rightarrow> int \<Rightarrow> int list \<Rightarrow> (Value list \<times> accumulator list) list step" where
  "group_pass s h slots deepest rows =
     andDo (changing (set_exec (\<lambda>x. x\<lparr>groupTable := start_groups (groupTable x)\<rparr>))) (\<lambda>_.
     if deepest < 0 \<and> rows \<noteq> []
     then andDo reserve_first_group (\<lambda>_. reading (\<lambda>e.
            passed [([], map (\<lambda>_. (fresh_accumulator (held (exec e)))\<lparr>acount := int (length rows), seen := True\<rparr>) (sitems s))]))
     else andDo (fetch_rows h (group_body s slots deepest) rows blank_row) (\<lambda>_. reading (\<lambda>e.
            let g = groupTable (exec e)
            in if gkeys g = [] \<and> groupBy s = []
               then andDo reserve_first_group (\<lambda>_. passed [([], map (\<lambda>_. fresh_accumulator (held (exec e))) (sitems s))])
               else passed (zip (gkeys g) (gaccs g)))))"

definition group_type :: "selectitem \<times> nat \<times> coltype \<Rightarrow> coltype" where
  "group_type = (\<lambda>(item, _, type).
     if aggregate item = AGG_COUNT then TYPE_INT else if aggregate item = AGG_AVG then TYPE_FLOAT else type)"

definition group_header :: "table \<Rightarrow> exprpool \<Rightarrow> selectitem \<Rightarrow> string" where
  "group_header t pool item =
     (if aggregate item = AGG_NONE \<and> \<not> aliased item \<and> exprIsColumn pool (iexpr item)
      then let at = findColumn t (exprColumn pool (iexpr item))
           in name_of (if at \<ge> 0 then cname (tcols t ! nat at) else ilabel item)
      else name_of (ilabel item))"

definition projectGroups :: "selectstatement \<Rightarrow> table \<Rightarrow> heap \<Rightarrow> int list \<Rightarrow> resultset \<Rightarrow> resultset step" where
  "projectGroups s t h rows out =
     andDo (yielding (group_slots t (groupBy s))) (\<lambda>slots.
     andDo (type_items t s (sitems s) (sexprs s)) (\<lambda>(pool, typed).
     andDo (deepest_of pool (map iexpr (sitems s)) (foldl (\<lambda>d k. max d (int k)) (-1) slots)) (\<lambda>deepest.
     andDo (group_pass (s\<lparr>sexprs := pool\<rparr>) h slots deepest rows) (\<lambda>gs.
     let out = out\<lparr>rtypes := map group_type typed, headers := map (group_header t pool) (sitems s)\<rparr>
     in andDo (if present (having s) then (case resolveHavingExprs (having s) out of (r, c) \<Rightarrow> yielding (map_sum id (\<lambda>_. c) r))
               else passed (having s)) (\<lambda>hav.
        andDo (result_room (length gs)) (\<lambda>_.
        andDo (trying (\<lambda>e. map_option (\<lambda>r. (r, e)) (finish_groups (subqueryResult (exec e)) hav typed gs))) (\<lambda>kept.
        passed (out\<lparr>rrows := kept\<rparr>))))))))"

subsection \<open>SELECT\<close>

definition select_source :: "selectstatement \<Rightarrow> (table \<times> heap \<times> condition) step" where
  "select_source s =
     (if joinSchemaNeeded s
      then andDo (reading (\<lambda>e. yielding (buildJoinSchema (db_of e) (ecat e) (stables s) (saliases s)))) (\<lambda>schema.
           andDo (buildJoin s schema) (\<lambda>c. reading (\<lambda>e. passed (schema, joinHeap (exec e), c))))
      else andDo (table_and_heap (stable s)) (\<lambda>(t, h). passed (t, h, swhere s)))"

definition has_aggregate :: "selectstatement \<Rightarrow> bool" where
  "has_aggregate s \<longleftrightarrow> (\<exists>item \<in> set (sitems s). aggregate item \<noteq> AGG_NONE)"

text \<open>LIMIT stops the scan itself when nothing above it decides which rows are kept.\<close>

definition stop_at :: "selectstatement \<Rightarrow> int" where
  "stop_at s = (if slimit s \<ge> 0 \<and> sorder s = [] \<and> \<not> sdistinct s \<and> groupBy s = [] \<and> \<not> has_aggregate s then slimit s else -1)"

definition distinct_step_of :: "selectstatement \<Rightarrow> resultset \<Rightarrow> resultset step" where
  "distinct_step_of s out e =
     map_option (\<lambda>(r, room). (r, set_exec (\<lambda>x. x\<lparr>distinctCount := room\<rparr>) e))
       (applyDistinct (memory (exec e) (length (rrows out) * 2)) (distinctCount (exec e)) s out)"

definition order_step_of :: "selectstatement \<Rightarrow> resultset \<Rightarrow> resultset step" where
  "order_step_of s out e =
     (let m = memory (exec e) (length (rrows out)); cap = sortCapacity (exec e)
      in map_option (\<lambda>r. (r, if sorder s = [] then e
             else set_exec (\<lambda>x. x\<lparr>sortCapacity := (case reserveOrder m cap (length (rrows out)) of Inl _ \<Rightarrow> cap | Inr c \<Rightarrow> c)\<rparr>) e))
           (applyOrder m cap s out))"

definition executeSelect :: "selectstatement \<Rightarrow> resultset \<Rightarrow> resultset step" where
  "executeSelect s out =
     andDo (select_source s) (\<lambda>(t, h, c).
     andDo (reserve_candidates (heapSlots h)) (\<lambda>_.
     andDo (collectRows t h c (stop_at s)) (\<lambda>rows.
     andDo (if groupBy s = [] \<and> \<not> has_aggregate s then projectRows s t h rows out else projectGroups s t h rows out) (\<lambda>out.
     andDo (distinct_step_of s out) (\<lambda>out.
     andDo (order_step_of s out) (\<lambda>out.
     passed (applyLimit s out)))))))"

subsection \<open>Subqueries\<close>

text \<open>Deepest first: an inner subquery has the higher slot.\<close>

definition set_result :: "nat \<Rightarrow> resultset \<Rightarrow> unit step" where
  "set_result i out = changing (set_exec (\<lambda>x. x\<lparr>subqueryResult := (subqueryResult x)[i := out]\<rparr>))"

fun run_subqueries :: "subqueries \<Rightarrow> nat \<Rightarrow> unit step" where
  "run_subqueries subs 0 = passed ()"
| "run_subqueries subs (Suc i) =
     (case subqueryAt subs (int i) of None \<Rightarrow> failed ERROR_SEMANTIC_TABLE_NOT_FOUND
      | Some sub \<Rightarrow>
          andDo (executeSelect sub blank_result) (\<lambda>out.
          andDo (set_result i out) (\<lambda>_.
          andDo (ensure (\<not> (subqueryIsScalar subs (int i) \<and> length (rrows out) > 1)) ERROR_EXEC_SUBQUERY_NOT_SCALAR) (\<lambda>_.
          run_subqueries subs i))))"

definition materialiseSubqueries :: "subqueries \<Rightarrow> unit step" where
  "materialiseSubqueries subs =
     andDo (changing (set_exec (\<lambda>x. x\<lparr>subqueryResult := replicate MAX_SUBQUERIES blank_result\<rparr>))) (\<lambda>_.
     run_subqueries subs (subqueryTotal subs))"

end
