(* ===== verification/Sessions.thy ===== *)
theory Sessions
  imports Prelude
begin

text \<open>
  The locks of the engine and the sessions that share it: \<^verbatim>\<open>18_thread.c\<close>, the locking of
  \<open>ProcessStatement\<close> in \<^verbatim>\<open>10_controller.c\<close> and the accept loop and session end of \<^verbatim>\<open>16_wire.c\<close>. Threads are
  numbers. A lock that cannot be had now is a step that is not enabled; the platform's mutex is
  recursive, its reader-writer lock lets any number of readers in or one writer.
\<close>

subsection \<open>Locks\<close>

type_synonym thread = nat

record locks =
  started :: bool
  sessionCount :: int
  readers :: "thread set"
  writer :: "thread option"
  poolOwner :: "(thread \<times> nat) option"

definition MAX_SESSIONS :: int where "MAX_SESSIONS = 16"

definition initThreads :: "locks \<Rightarrow> locks" where
  "initThreads l = (if started l then l
     else \<lparr>started = True, sessionCount = 0, readers = {}, writer = None, poolOwner = None\<rparr>)"

definition freeThreads :: "locks \<Rightarrow> locks" where
  "freeThreads l = (if \<not> started l then l else l\<lparr>started := False\<rparr>)"

definition sessionAcquire :: "int \<Rightarrow> locks \<Rightarrow> bool \<times> locks" where
  "sessionAcquire limit l =
     (if \<not> started l then (True, l)
      else let room = sessionCount l < limit
           in (room, if room then l\<lparr>sessionCount := sessionCount l + 1\<rparr> else l))"

definition sessionRelease :: "locks \<Rightarrow> locks" where
  "sessionRelease l = (if \<not> started l then l else l\<lparr>sessionCount := sessionCount l - 1\<rparr>)"

definition rwReadLock :: "thread \<Rightarrow> locks \<Rightarrow> locks option" where
  "rwReadLock t l = (if writer l = None then Some (l\<lparr>readers := insert t (readers l)\<rparr>) else None)"

definition rwWriteLock :: "thread \<Rightarrow> locks \<Rightarrow> locks option" where
  "rwWriteLock t l = (if writer l = None \<and> readers l = {} then Some (l\<lparr>writer := Some t\<rparr>) else None)"

definition rwReadUnlock :: "thread \<Rightarrow> locks \<Rightarrow> locks" where "rwReadUnlock t l = l\<lparr>readers := readers l - {t}\<rparr>"
definition rwWriteUnlock :: "thread \<Rightarrow> locks \<Rightarrow> locks" where "rwWriteUnlock t l = l\<lparr>writer := None\<rparr>"

definition mutexLock :: "thread \<Rightarrow> locks \<Rightarrow> locks option" where
  "mutexLock t l =
     (case poolOwner l of None \<Rightarrow> Some (l\<lparr>poolOwner := Some (t, 0)\<rparr>)
      | Some (u, n) \<Rightarrow> if u = t then Some (l\<lparr>poolOwner := Some (t, Suc n)\<rparr>) else None)"

definition mutexUnlock :: "thread \<Rightarrow> locks \<Rightarrow> locks" where
  "mutexUnlock t l =
     (case poolOwner l of Some (u, Suc n) \<Rightarrow> l\<lparr>poolOwner := Some (u, n)\<rparr> | _ \<Rightarrow> l\<lparr>poolOwner := None\<rparr>)"

definition engineReadLock :: "thread \<Rightarrow> locks \<Rightarrow> locks option" where
  "engineReadLock t l = (if started l then rwReadLock t l else Some l)"
definition engineWriteLock :: "thread \<Rightarrow> locks \<Rightarrow> locks option" where
  "engineWriteLock t l = (if started l then rwWriteLock t l else Some l)"
definition engineReadUnlock :: "thread \<Rightarrow> locks \<Rightarrow> locks" where
  "engineReadUnlock t l = (if started l then rwReadUnlock t l else l)"
definition engineWriteUnlock :: "thread \<Rightarrow> locks \<Rightarrow> locks" where
  "engineWriteUnlock t l = (if started l then rwWriteUnlock t l else l)"
definition poolEnter :: "thread \<Rightarrow> locks \<Rightarrow> locks option" where
  "poolEnter t l = (if started l then mutexLock t l else Some l)"
definition poolLeave :: "thread \<Rightarrow> locks \<Rightarrow> locks" where
  "poolLeave t l = (if started l then mutexUnlock t l else l)"

subsection \<open>Sessions\<close>

text \<open>
  Where a session is: between messages, with a parsed statement that only reads or not and no lock
  yet, or running it with the engine lock shared or not. \<open>holding\<close> is \<open>holdingForTransaction\<close>.
\<close>

datatype phase = Idle | Ready bool | Running bool

record session =
  holding :: bool
  phase :: phase

text \<open>\<open>transactionOpen\<close> is the engine's one flag of \<^verbatim>\<open>12_persist.c\<close>.\<close>

record server =
  slocks :: locks
  sessions :: "thread \<Rightarrow> session option"
  transactionOpen :: bool

definition initial_server :: "locks \<Rightarrow> server" where
  "initial_server l = \<lparr>slocks = initThreads l, sessions = (\<lambda>_. None), transactionOpen = False\<rparr>"

definition set_session :: "thread \<Rightarrow> session option \<Rightarrow> server \<Rightarrow> server" where
  "set_session t x s = s\<lparr>sessions := (sessions s)(t := x)\<rparr>"

text \<open>Taking the lock a parsed statement needs: inside a transaction it is held already.\<close>

definition take_lock :: "thread \<Rightarrow> bool \<Rightarrow> bool \<Rightarrow> locks \<Rightarrow> (bool \<times> locks) option" where
  "take_lock t held readsOnly l =
     (let shared = (\<not> held \<and> readsOnly)
      in if held then Some (shared, l)
         else map_option (Pair shared) (if shared then engineReadLock t l else engineWriteLock t l))"

text \<open>Giving it back when the statement has run; \<open>inside\<close> is what \<open>inTransaction\<close> then says.\<close>

definition give_back :: "thread \<Rightarrow> bool \<Rightarrow> bool \<Rightarrow> bool \<Rightarrow> locks \<Rightarrow> bool \<times> locks" where
  "give_back t held shared inside l =
     (if held then (if \<not> inside then (False, engineWriteUnlock t l) else (held, l))
      else if shared then (held, engineReadUnlock t l)
      else if inside then (True, l)
      else (held, engineWriteUnlock t l))"

text \<open>\<open>closeSession\<close>: a transaction still open is abandoned and its lock given back.\<close>

definition closeSession :: "thread \<Rightarrow> session \<Rightarrow> server \<Rightarrow> server" where
  "closeSession t x s =
     (let s = (if holding x then s\<lparr>transactionOpen := False, slocks := engineWriteUnlock t (slocks s)\<rparr> else s)
      in set_session t None (s\<lparr>slocks := sessionRelease (slocks s)\<rparr>))"

text \<open>
  The steps of the server. A statement that runs alone may leave a transaction open or closed, one
  that only reads leaves it as it was; a statement ends outside the pool.
\<close>

inductive server_step :: "server \<Rightarrow> server \<Rightarrow> bool" where
  accept: "sessionAcquire MAX_SESSIONS (slocks s) = (True, l) \<Longrightarrow> sessions s t = None \<Longrightarrow>
    server_step s (set_session t (Some \<lparr>holding = False, phase = Idle\<rparr>) (s\<lparr>slocks := l\<rparr>))"
| accept_no_memory: "sessionAcquire MAX_SESSIONS (slocks s) = (True, l) \<Longrightarrow> server_step s (s\<lparr>slocks := l\<rparr>)"
| accept_no_thread: "sessionAcquire MAX_SESSIONS (slocks s) = (True, l) \<Longrightarrow>
    server_step s (s\<lparr>slocks := sessionRelease l\<rparr>)"
| refuse: "sessionAcquire MAX_SESSIONS (slocks s) = (False, l) \<Longrightarrow> server_step s (s\<lparr>slocks := l\<rparr>)"
| message: "sessions s t = Some x \<Longrightarrow> phase x = Idle \<Longrightarrow>
    server_step s (set_session t (Some (x\<lparr>phase := Ready readsOnly\<rparr>)) s)"
| lock: "sessions s t = Some x \<Longrightarrow> phase x = Ready readsOnly \<Longrightarrow>
    take_lock t (holding x) readsOnly (slocks s) = Some (shared, l) \<Longrightarrow>
    server_step s (set_session t (Some (x\<lparr>phase := Running shared\<rparr>)) (s\<lparr>slocks := l\<rparr>))"
| enter: "sessions s t = Some x \<Longrightarrow> phase x = Running shared \<Longrightarrow> poolEnter t (slocks s) = Some l \<Longrightarrow>
    server_step s (s\<lparr>slocks := l\<rparr>)"
| leave: "sessions s t = Some x \<Longrightarrow> phase x = Running shared \<Longrightarrow> poolOwner (slocks s) = Some (t, n) \<Longrightarrow>
    server_step s (s\<lparr>slocks := poolLeave t (slocks s)\<rparr>)"
| finish: "sessions s t = Some x \<Longrightarrow> phase x = Running shared \<Longrightarrow> \<forall>n. poolOwner (slocks s) \<noteq> Some (t, n) \<Longrightarrow>
    (shared \<longrightarrow> inside = transactionOpen s) \<Longrightarrow> give_back t (holding x) shared inside (slocks s) = (h, l) \<Longrightarrow>
    server_step s (set_session t (Some \<lparr>holding = h, phase = Idle\<rparr>) (s\<lparr>slocks := l, transactionOpen := inside\<rparr>))"
| close: "sessions s t = Some x \<Longrightarrow> phase x = Idle \<Longrightarrow> server_step s (closeSession t x s)"

inductive_cases server_stepE: "server_step s s'"

subsection \<open>The invariant\<close>

text \<open>
  The lock is held by exactly the sessions that run under it, a session in a transaction runs alone,
  and the pool's mutex belongs to a session that runs.
\<close>

definition runs :: "server \<Rightarrow> thread \<Rightarrow> bool \<Rightarrow> bool" where
  "runs s t shared \<longleftrightarrow> (\<exists>x. sessions s t = Some x \<and> phase x = Running shared)"

definition in_transaction :: "server \<Rightarrow> thread \<Rightarrow> bool" where
  "in_transaction s t \<longleftrightarrow> (\<exists>x. sessions s t = Some x \<and> holding x)"

definition locks_ok :: "locks \<Rightarrow> (thread \<Rightarrow> bool \<Rightarrow> bool) \<Rightarrow> (thread \<Rightarrow> bool) \<Rightarrow> bool \<Rightarrow> bool" where
  "locks_ok l R T opened \<longleftrightarrow> started l \<and>
     (\<forall>t. t \<in> readers l \<longleftrightarrow> R t True) \<and>
     (\<forall>t. writer l = Some t \<longleftrightarrow> R t False \<or> T t) \<and>
     (writer l \<noteq> None \<longrightarrow> readers l = {}) \<and>
     (\<forall>t n. poolOwner l = Some (t, n) \<longrightarrow> R t True \<or> R t False) \<and>
     (\<forall>t. T t \<longrightarrow> opened) \<and> (\<forall>t. writer l = Some t \<longrightarrow> opened \<longrightarrow> T t) \<and> (opened \<longrightarrow> writer l \<noteq> None)"

definition counts_ok :: "server \<Rightarrow> bool" where
  "counts_ok s \<longleftrightarrow> finite (dom (sessions s)) \<and> int (card (dom (sessions s))) \<le> sessionCount (slocks s) \<and>
     sessionCount (slocks s) \<le> MAX_SESSIONS"

definition server_ok :: "server \<Rightarrow> bool" where
  "server_ok s \<longleftrightarrow> locks_ok (slocks s) (runs s) (in_transaction s) (transactionOpen s) \<and> counts_ok s"

lemma set_session_sel [simp]:
  "slocks (set_session t x s) = slocks s" "transactionOpen (set_session t x s) = transactionOpen s"
  "sessions (set_session t x s) = (sessions s)(t := x)"
  by (simp_all add: set_session_def)

lemma runs_unchanged [simp]:
  "runs (s\<lparr>slocks := l\<rparr>) = runs s" "in_transaction (s\<lparr>slocks := l\<rparr>) = in_transaction s"
  "runs (s\<lparr>transactionOpen := b\<rparr>) = runs s" "in_transaction (s\<lparr>transactionOpen := b\<rparr>) = in_transaction s"
  by (simp_all add: runs_def in_transaction_def fun_eq_iff)

lemma runs_set [simp]:
  "runs (set_session t x s) = (runs s)(t := (\<lambda>b. \<exists>y. x = Some y \<and> phase y = Running b))"
  "in_transaction (set_session t x s) = (in_transaction s)(t := (\<exists>y. x = Some y \<and> holding y))"
  by (auto simp: runs_def in_transaction_def fun_eq_iff)

lemma runs_at: "sessions s t = Some x \<Longrightarrow> runs s t b \<longleftrightarrow> phase x = Running b"
  "sessions s t = Some x \<Longrightarrow> in_transaction s t \<longleftrightarrow> holding x"
  by (simp_all add: runs_def in_transaction_def)

lemmas lock_defs = sessionAcquire_def sessionRelease_def take_lock_def give_back_def engineReadLock_def engineWriteLock_def
  engineReadUnlock_def engineWriteUnlock_def rwReadLock_def rwWriteLock_def rwReadUnlock_def rwWriteUnlock_def
  poolEnter_def poolLeave_def mutexLock_def mutexUnlock_def closeSession_def Let_def

text \<open>What one session's step does to the counts, and to who holds what.\<close>

lemma counts_steps:
  assumes "counts_ok s"
  shows "sessionCount l = sessionCount (slocks s) \<Longrightarrow> sessions s t \<noteq> None \<Longrightarrow> counts_ok (set_session t (Some y) (s\<lparr>slocks := l\<rparr>))"
    "sessionCount l = sessionCount (slocks s) \<Longrightarrow> counts_ok (s\<lparr>slocks := l\<rparr>)"
    "counts_ok (s\<lparr>transactionOpen := b\<rparr>)"
    "sessions s t = None \<Longrightarrow> sessionCount (slocks s) < MAX_SESSIONS \<Longrightarrow> sessionCount l = sessionCount (slocks s) + 1 \<Longrightarrow>
       counts_ok (set_session t (Some y) (s\<lparr>slocks := l\<rparr>))"
    "sessionCount (slocks s) < MAX_SESSIONS \<Longrightarrow> sessionCount l = sessionCount (slocks s) + 1 \<Longrightarrow> counts_ok (s\<lparr>slocks := l\<rparr>)"
    "sessions s t \<noteq> None \<Longrightarrow> sessionCount l = sessionCount (slocks s) - 1 \<Longrightarrow> counts_ok (set_session t None (s\<lparr>slocks := l\<rparr>))"
proof -
  note c = assms [unfolded counts_ok_def]
  have dom: "sessions s t \<noteq> None \<Longrightarrow> insert t (dom (sessions s)) = dom (sessions s)" by auto
  show "sessionCount l = sessionCount (slocks s) \<Longrightarrow> sessions s t \<noteq> None \<Longrightarrow> counts_ok (set_session t (Some y) (s\<lparr>slocks := l\<rparr>))"
    using c dom by (simp add: counts_ok_def)
  show "sessionCount l = sessionCount (slocks s) \<Longrightarrow> counts_ok (s\<lparr>slocks := l\<rparr>)" "counts_ok (s\<lparr>transactionOpen := b\<rparr>)"
    "sessionCount (slocks s) < MAX_SESSIONS \<Longrightarrow> sessionCount l = sessionCount (slocks s) + 1 \<Longrightarrow> counts_ok (s\<lparr>slocks := l\<rparr>)"
    using c by (auto simp: counts_ok_def)
  show "sessions s t = None \<Longrightarrow> sessionCount (slocks s) < MAX_SESSIONS \<Longrightarrow> sessionCount l = sessionCount (slocks s) + 1 \<Longrightarrow>
       counts_ok (set_session t (Some y) (s\<lparr>slocks := l\<rparr>))"
    using c by (simp add: counts_ok_def domIff)
  assume t: "sessions s t \<noteq> None" "sessionCount l = sessionCount (slocks s) - 1"
  then have "card (dom (sessions s)) = Suc (card (dom (sessions s) - {t}))" using c by (intro card.remove) auto
  then show "counts_ok (set_session t None (s\<lparr>slocks := l\<rparr>))" using c t by (simp add: counts_ok_def)
qed

lemma locks_ok_pool:
  assumes "locks_ok l R T opened" "started l' = started l" "readers l' = readers l" "writer l' = writer l"
    and "\<And>u n. poolOwner l' = Some (u, n) \<Longrightarrow> R u True \<or> R u False"
  shows "locks_ok l' R T opened"
  using assms unfolding locks_ok_def by auto

lemma locks_ok_release: "locks_ok l R T opened \<Longrightarrow> locks_ok (sessionRelease l) R T opened"
  unfolding locks_ok_def sessionRelease_def by (cases "started l") (simp_all del: not_None_eq)

lemma locks_okD:
  assumes "locks_ok l R T opened"
  shows "started l" "t \<in> readers l \<longleftrightarrow> R t True" "writer l = Some t \<longleftrightarrow> R t False \<or> T t" "writer l = Some u \<Longrightarrow> readers l = {}"
    "poolOwner l = Some (t, n) \<Longrightarrow> R t True \<or> R t False" "T t \<Longrightarrow> opened" "writer l = Some t \<Longrightarrow> opened \<Longrightarrow> T t"
    "opened \<Longrightarrow> \<exists>t. writer l = Some t"
  using assms unfolding locks_ok_def by blast+

text \<open>The session that has the engine lock for itself gives it back, or keeps it for its transaction.\<close>

lemma locks_ok_alone:
  assumes ok: "locks_ok l R T opened" and t: "writer l = Some t" and free: "\<forall>n. poolOwner l \<noteq> Some (t, n)"
  shows "locks_ok (l\<lparr>writer := None\<rparr>) (R(t := (\<lambda>b. False))) (T(t := False)) False"
    "locks_ok l (R(t := (\<lambda>b. False))) (T(t := True)) True"
proof -
  note d = locks_okD [OF ok]
  have others: "\<not> R u b" "\<not> T u" if "u \<noteq> t" for u b
    using d(2,3) [of u] d(4) [OF t] t that by (cases b; simp)+
  have mutex: "poolOwner l = None" using d(5) free others by (metis option.exhaust surj_pair)
  show "locks_ok (l\<lparr>writer := None\<rparr>) (R(t := (\<lambda>b. False))) (T(t := False)) False"
    using d(1) d(4) [OF t] others mutex by (simp add: locks_ok_def)
  show "locks_ok l (R(t := (\<lambda>b. False))) (T(t := True)) True"
    using d(1) d(4) [OF t] others mutex t by (auto simp: locks_ok_def)
qed

lemma locks_ok_reader:
  assumes ok: "locks_ok l R T opened" and t: "R t True" "\<not> T t" and free: "\<forall>n. poolOwner l \<noteq> Some (t, n)"
  shows "locks_ok (l\<lparr>readers := readers l - {t}\<rparr>) (R(t := (\<lambda>b. False))) (T(t := False)) opened"
proof -
  note d = locks_okD [OF ok]
  have "writer l = None" using d(2) [of t] d(4) t(1) by (cases "writer l") auto
  then have "\<not> R u False" "\<not> T u" for u using d(3) [of u] by simp_all
  then show ?thesis using d(1,2,5,8) \<open>writer l = None\<close> free by (auto simp: locks_ok_def)
qed

lemma server_step_ok: "server_step s s' \<Longrightarrow> server_ok s \<Longrightarrow> server_ok s'"
proof (induction rule: server_step.induct)
  case (accept s l t)
  then have "\<not> runs s t b" "\<not> in_transaction s t" for b by (simp_all add: runs_def in_transaction_def)
  then show ?case
    using accept counts_steps(4) [of s t l] by (auto simp: server_ok_def locks_ok_def lock_defs split: if_splits)
next
  case (accept_no_memory s l)
  then show ?case using counts_steps(5) [of s l] by (auto simp: server_ok_def locks_ok_def lock_defs split: if_splits)
next
  case (accept_no_thread s l)
  then show ?case
    using counts_steps(2) [of s "sessionRelease l"] by (auto simp: server_ok_def locks_ok_def lock_defs split: if_splits)
next
  case (refuse s l)
  then show ?case by (auto simp: server_ok_def locks_ok_def lock_defs split: if_splits)
next
  case (message s t x readsOnly)
  note at = runs_at [OF message.hyps(1)]
  show ?case
    using message at counts_steps(1) [of s "slocks s" t "x\<lparr>phase := Ready readsOnly\<rparr>"]
    by (auto simp: server_ok_def locks_ok_def)
next
  case (lock s t x readsOnly shared l)
  note at = runs_at [OF lock.hyps(1)]
  show ?case
    using lock at counts_steps(1) [of s l t "x\<lparr>phase := Running shared\<rparr>"]
    by (auto simp: server_ok_def locks_ok_def lock_defs split: if_splits)
next
  case (enter s t x shared l)
  note at = runs_at [OF enter.hyps(1)]
  have ok: "locks_ok (slocks s) (runs s) (in_transaction s) (transactionOpen s)" using enter.prems by (simp add: server_ok_def)
  have l: "sessionCount l = sessionCount (slocks s)" "started l = started (slocks s)" "readers l = readers (slocks s)"
    "writer l = writer (slocks s)" "poolOwner l = poolOwner (slocks s) \<or> (\<exists>n. poolOwner l = Some (t, n))"
    using enter.hyps(3) by (auto simp: poolEnter_def mutexLock_def split: if_splits option.splits)
  have "locks_ok l (runs s) (in_transaction s) (transactionOpen s)"
  proof (rule locks_ok_pool [OF ok l(2-4)])
    have "runs s t True \<or> runs s t False" using enter.hyps(2) at(1) [of shared] by (cases shared) simp_all
    then show "runs s u True \<or> runs s u False" if "poolOwner l = Some (u, n)" for u n
      using that l(5) locks_okD(5) [OF ok, of u n] by auto
  qed
  then show ?case using enter.prems counts_steps(2) [OF _ l(1)] by (simp add: server_ok_def)
next
  case (leave s t x shared n)
  note at = runs_at [OF leave.hyps(1)]
  have ok: "locks_ok (slocks s) (runs s) (in_transaction s) (transactionOpen s)" using leave.prems by (simp add: server_ok_def)
  define l where "l = poolLeave t (slocks s)"
  have l: "sessionCount l = sessionCount (slocks s)" "started l = started (slocks s)" "readers l = readers (slocks s)"
    "writer l = writer (slocks s)" "poolOwner l = poolOwner (slocks s) \<or> poolOwner l = None \<or> (\<exists>n. poolOwner l = Some (t, n))"
    using leave.hyps(3) by (auto simp: l_def poolLeave_def mutexUnlock_def split: nat.splits)
  have "locks_ok l (runs s) (in_transaction s) (transactionOpen s)"
  proof (rule locks_ok_pool [OF ok l(2-4)])
    have "runs s t True \<or> runs s t False" using leave.hyps(2) at(1) [of shared] by (cases shared) simp_all
    then show "runs s u True \<or> runs s u False" if "poolOwner l = Some (u, n)" for u n
      using that l(5) locks_okD(5) [OF ok, of u n] by auto
  qed
  then show ?case using leave.prems counts_steps(2) [OF _ l(1)] by (simp add: server_ok_def l_def)
next
  case (finish s t x shared inside h l)
  note at = runs_at [OF finish.hyps(1)]
  have ok: "locks_ok (slocks s) (runs s) (in_transaction s) (transactionOpen s)" "counts_ok s" "started (slocks s)"
    using finish.prems locks_okD(1) by (auto simp: server_ok_def)
  have counts: "counts_ok (set_session t (Some \<lparr>holding = h, phase = Idle\<rparr>) (s\<lparr>slocks := l, transactionOpen := inside\<rparr>))"
  proof -
    have "sessionCount l = sessionCount (slocks s)" using finish.hyps(5) by (auto simp: lock_defs split: if_splits)
    moreover have "insert t (dom (sessions s)) = dom (sessions s)" using finish.hyps(1) by auto
    ultimately show ?thesis using ok(2) by (simp add: counts_ok_def)
  qed
  have sh: "writer (slocks s) = Some t" if "\<not> shared" using locks_okD(3) [OF ok(1), of t] at(1) [of False] finish.hyps(2) that by simp
  have hold: "writer (slocks s) = Some t" if "holding x" using locks_okD(3) [OF ok(1), of t] at(2) that by simp
  have opened: "transactionOpen s" if "holding x" using locks_okD(6) [OF ok(1), of t] at(2) that by simp
  have "locks_ok l ((runs s)(t := (\<lambda>b. False))) ((in_transaction s)(t := h)) inside"
  proof (cases "writer (slocks s) = Some t")
    case True
    note a = locks_ok_alone [OF ok(1) True finish.hyps(3)]
    have "\<not> shared" using locks_okD(2) [OF ok(1), of t] locks_okD(4) [OF ok(1) True] at(1) finish.hyps(2) by auto
    then show ?thesis using a finish.hyps(5) ok(3) opened by (auto simp: lock_defs split: if_splits)
  next
    case False
    then have s: "shared" "\<not> holding x" using sh hold by blast+
    then have r: "runs s t True" "\<not> in_transaction s t" using at finish.hyps(2) by simp_all
    show ?thesis
      using locks_ok_reader [OF ok(1) r finish.hyps(3)] finish.hyps(4,5) s ok(3) by (auto simp: lock_defs split: if_splits)
  qed
  then show ?case using counts by (simp add: server_ok_def)
next
  case (close s t x)
  note at = runs_at [OF close.hyps(1)]
  have ok: "locks_ok (slocks s) (runs s) (in_transaction s) (transactionOpen s)" "counts_ok s" "started (slocks s)"
    using close.prems locks_okD(1) by (auto simp: server_ok_def)
  define l where "l = (if holding x then engineWriteUnlock t (slocks s) else slocks s)"
  have same: "closeSession t x s =
      set_session t None ((s\<lparr>transactionOpen := (if holding x then False else transactionOpen s)\<rparr>)\<lparr>slocks := sessionRelease l\<rparr>)"
    by (simp add: closeSession_def l_def Let_def)
  have counts: "counts_ok (closeSession t x s)"
    unfolding same by (rule counts_steps(6)) (use close.hyps ok in \<open>auto simp: l_def lock_defs counts_steps(3)\<close>)
  have idle: "runs s t = (\<lambda>b. False)" using at(1) close.hyps(2) by (simp add: fun_eq_iff)
  have free: "\<forall>n. poolOwner (slocks s) \<noteq> Some (t, n)" using locks_okD(5) [OF ok(1)] idle by auto
  have "locks_ok l ((runs s)(t := (\<lambda>b. False))) ((in_transaction s)(t := False)) (if holding x then False else transactionOpen s)"
  proof (cases "holding x")
    case True
    then have "writer (slocks s) = Some t" using locks_okD(3) [OF ok(1), of t] at(2) by simp
    then show ?thesis using locks_ok_alone(1) [OF ok(1) _ free] True ok(3) by (simp add: l_def lock_defs)
  next
    case False
    then have "(runs s)(t := (\<lambda>b. False)) = runs s" "(in_transaction s)(t := False) = in_transaction s"
      using idle at(2) by (simp_all add: fun_eq_iff)
    then show ?thesis using ok(1) False by (simp add: l_def)
  qed
  then have "locks_ok (sessionRelease l) ((runs s)(t := (\<lambda>b. False))) ((in_transaction s)(t := False)) (if holding x then False else transactionOpen s)"
    by (rule locks_ok_release)
  then show ?case using counts by (simp add: server_ok_def same)
qed

lemma server_steps_ok: "server_step\<^sup>*\<^sup>* s s' \<Longrightarrow> server_ok s \<Longrightarrow> server_ok s'"
  by (induction rule: rtranclp_induct) (auto intro: server_step_ok)

lemma initial_server_ok: "\<not> started l \<Longrightarrow> server_ok (initial_server l)"
  by (simp add: server_ok_def locks_ok_def counts_ok_def initial_server_def initThreads_def runs_def in_transaction_def MAX_SESSIONS_def)

subsection \<open>Getting the lock\<close>

text \<open>A session that runs leaves the pool, however deep it is in it, and nothing else changes.\<close>

lemma leaves_pool:
  assumes "server_ok s" "runs s t b" "poolOwner (slocks s) = Some (t, n)"
  shows "\<exists>s'. server_step\<^sup>*\<^sup>* s s' \<and> sessions s' = sessions s \<and> poolOwner (slocks s') = None \<and>
    readers (slocks s') = readers (slocks s) \<and> writer (slocks s') = writer (slocks s)"
  using assms
proof (induction n arbitrary: s)
  case 0
  obtain x where x: "sessions s t = Some x" "phase x = Running b" using 0 by (auto simp: runs_def)
  have "started (slocks s)" using 0 locks_okD(1) by (auto simp: server_ok_def)
  then show ?case
    using server_step.leave [OF x 0(3)] 0(3)
    by (intro exI [of _ "s\<lparr>slocks := poolLeave t (slocks s)\<rparr>"]) (auto simp: poolLeave_def mutexUnlock_def)
next
  case (Suc n)
  obtain x where x: "sessions s t = Some x" "phase x = Running b" using Suc by (auto simp: runs_def)
  have st: "started (slocks s)" using Suc locks_okD(1) by (auto simp: server_ok_def)
  define s1 where "s1 = s\<lparr>slocks := poolLeave t (slocks s)\<rparr>"
  have step: "server_step s s1" using server_step.leave [OF x Suc.prems(3)] by (simp add: s1_def)
  have "runs s1 t b" "poolOwner (slocks s1) = Some (t, n)"
    using Suc.prems st by (simp_all add: s1_def poolLeave_def mutexUnlock_def)
  from Suc.IH [OF server_step_ok [OF step Suc.prems(1)] this] obtain s' where
    "server_step\<^sup>*\<^sup>* s1 s'" "sessions s' = sessions s1" "poolOwner (slocks s') = None"
    "readers (slocks s') = readers (slocks s1)" "writer (slocks s') = writer (slocks s1)" by blast
  then show ?case using step st Suc.prems(3)
    by (intro exI [of _ s'] conjI converse_rtranclp_into_rtranclp [of server_step, OF step]) (auto simp: s1_def poolLeave_def mutexUnlock_def)
qed

text \<open>A session that runs ends its statement, and the lock with it.\<close>

lemma ends_statement:
  assumes ok: "server_ok s" and t: "runs s t shared"
  shows "\<exists>s'. server_step\<^sup>*\<^sup>* s s' \<and> (\<forall>u. u \<noteq> t \<longrightarrow> sessions s' u = sessions s u) \<and>
    (shared \<longrightarrow> readers (slocks s') = readers (slocks s) - {t} \<and> writer (slocks s') = writer (slocks s)) \<and> (\<not> shared \<longrightarrow> writer (slocks s') = None \<and> readers (slocks s') = {})"
proof -
  have "\<exists>s1. server_step\<^sup>*\<^sup>* s s1 \<and> sessions s1 = sessions s \<and> (\<forall>n. poolOwner (slocks s1) \<noteq> Some (t, n)) \<and>
      readers (slocks s1) = readers (slocks s) \<and> writer (slocks s1) = writer (slocks s)"
  proof (cases "\<exists>n. poolOwner (slocks s) = Some (t, n)")
    case True
    then show ?thesis using leaves_pool [OF ok t] by fastforce
  qed blast
  then obtain s1 where s1: "server_step\<^sup>*\<^sup>* s s1" "sessions s1 = sessions s" "\<forall>n. poolOwner (slocks s1) \<noteq> Some (t, n)"
    "readers (slocks s1) = readers (slocks s)" "writer (slocks s1) = writer (slocks s)" by blast
  have ok1: "server_ok s1" by (rule server_steps_ok [OF s1(1) ok])
  then have l: "locks_ok (slocks s1) (runs s1) (in_transaction s1) (transactionOpen s1)" "started (slocks s1)"
    using locks_okD(1) by (auto simp: server_ok_def)
  obtain x where x: "sessions s1 t = Some x" "phase x = Running shared" using t s1(2) by (auto simp: runs_def)
  define inside where "inside = (shared \<and> transactionOpen s1)"
  obtain h l' where gave: "give_back t (holding x) shared inside (slocks s1) = (h, l')" by force
  define s2 where "s2 = set_session t (Some \<lparr>holding = h, phase = Idle\<rparr>) (s1\<lparr>slocks := l', transactionOpen := inside\<rparr>)"
  have "server_step s1 s2" unfolding s2_def by (rule server_step.finish [OF x s1(3) _ gave]) (simp add: inside_def)
  then have "server_step\<^sup>*\<^sup>* s s2" using s1(1) by simp
  moreover have alone: "readers (slocks s1) = {} \<and> \<not> runs s1 t True" if "writer (slocks s1) = Some t"
    using locks_okD(4) [OF l(1) that] locks_okD(2) [OF l(1), of t] by simp
  then have "shared \<Longrightarrow> \<not> holding x" "\<not> shared \<Longrightarrow> readers (slocks s1) = {}"
    using locks_okD(3) [OF l(1), of t] runs_at [OF x(1)] x(2) by auto
  then have "(\<forall>u. u \<noteq> t \<longrightarrow> sessions s2 u = sessions s1 u) \<and> (shared \<longrightarrow> readers l' = readers (slocks s1) - {t} \<and> writer l' = writer (slocks s1)) \<and>
      (\<not> shared \<longrightarrow> writer l' = None \<and> readers l' = {})"
    using gave l(2) by (auto simp: s2_def inside_def lock_defs split: if_splits)
  ultimately show ?thesis using s1(2,4,5) by (intro exI [of _ s2]) (simp add: s2_def)
qed

text \<open>With a session waiting for the lock, whoever has it can be through with it.\<close>

lemma readers_finish:
  assumes "server_ok s" "writer (slocks s) = None"
  shows "\<exists>s'. server_step\<^sup>*\<^sup>* s s' \<and> writer (slocks s') = None \<and> readers (slocks s') = {} \<and>
    (\<forall>t. (\<forall>b. \<not> runs s t b) \<longrightarrow> sessions s' t = sessions s t)"
  using assms
proof (induction "card (readers (slocks s))" arbitrary: s rule: less_induct)
  case less
  have l: "locks_ok (slocks s) (runs s) (in_transaction s) (transactionOpen s)" using less.prems by (simp add: server_ok_def)
  have "readers (slocks s) \<subseteq> dom (sessions s)" using locks_okD(2) [OF l] by (auto simp: runs_def)
  then have fin: "finite (readers (slocks s))"
    using less.prems(1) by (auto simp: server_ok_def counts_ok_def intro: finite_subset)
  show ?case
  proof (cases "readers (slocks s) = {}")
    case False
    then obtain u where u: "u \<in> readers (slocks s)" by blast
    then have r: "runs s u True" using locks_okD(2) [OF l] by blast
    obtain s1 where s1: "server_step\<^sup>*\<^sup>* s s1" "\<forall>v. v \<noteq> u \<longrightarrow> sessions s1 v = sessions s v" "readers (slocks s1) = readers (slocks s) - {u}" "writer (slocks s1) = writer (slocks s)"
      using ends_statement [OF less.prems(1) r] by blast
    have ok1: "server_ok s1" by (rule server_steps_ok [OF s1(1) less.prems(1)])
    then have l1: "locks_ok (slocks s1) (runs s1) (in_transaction s1) (transactionOpen s1)" by (simp add: server_ok_def)
    have w1: "writer (slocks s1) = None" using s1(4) less.prems(2) by simp
    have "card (readers (slocks s1)) < card (readers (slocks s))" using card_Diff1_less [OF fin u] s1(3) by simp
    from less.hyps [OF this ok1 w1] obtain s' where s': "server_step\<^sup>*\<^sup>* s1 s'" "writer (slocks s') = None" "readers (slocks s') = {}"
      "\<forall>t. (\<forall>b. \<not> runs s1 t b) \<longrightarrow> sessions s' t = sessions s1 t" by blast
    moreover have "sessions s' t = sessions s t" if "\<forall>b. \<not> runs s t b" for t
      using that s'(4) s1(2) r by (metis runs_def)
    ultimately show ?thesis using s1(1) by (meson rtranclp_trans)
  qed (use less.prems in blast)
qed

lemma writer_finishes:
  assumes ok: "server_ok s" and u: "writer (slocks s) = Some u"
  shows "\<exists>s'. server_step\<^sup>*\<^sup>* s s' \<and> writer (slocks s') = None \<and> readers (slocks s') = {} \<and>
    (\<forall>t. t \<noteq> u \<longrightarrow> sessions s' t = sessions s t)"
proof -
  have l: "locks_ok (slocks s) (runs s) (in_transaction s) (transactionOpen s)" using ok by (simp add: server_ok_def)
  have none: "readers (slocks s) = {}" "\<not> runs s u True" using locks_okD(4) [OF l u] locks_okD(2) [OF l, of u] by simp_all
  show ?thesis
  proof (cases "runs s u False")
    case True
    from ends_statement [OF ok this] show ?thesis by auto
  next
    case False
    then obtain x where x: "sessions s u = Some x" "holding x"
      using locks_okD(3) [OF l, of u] u by (auto simp: in_transaction_def)
    consider "phase x = Idle" | ro where "phase x = Ready ro" | b where "phase x = Running b" by (cases "phase x")
    then show ?thesis
    proof cases
      case 1
      have "server_step s (closeSession u x s)" by (rule server_step.close [OF x(1) 1])
      moreover have "started (slocks s)" by (rule locks_okD(1) [OF l])
      ultimately show ?thesis
        using x none by (intro exI [of _ "closeSession u x s"]) (auto simp: lock_defs)
    next
      case 2
      define s1 where "s1 = set_session u (Some (x\<lparr>phase := Running False\<rparr>)) (s\<lparr>slocks := slocks s\<rparr>)"
      have step: "server_step s s1"
        unfolding s1_def by (rule server_step.lock [OF x(1) 2]) (use x(2) in \<open>simp add: take_lock_def\<close>)
      have "runs s1 u False" by (simp add: s1_def)
      from ends_statement [OF server_step_ok [OF step ok] this] obtain s' where
        s': "server_step\<^sup>*\<^sup>* s1 s'" "\<forall>t. t \<noteq> u \<longrightarrow> sessions s' t = sessions s1 t" "writer (slocks s') = None" "readers (slocks s') = {}" by auto
      moreover have "server_step\<^sup>*\<^sup>* s s'" using step s'(1) by (rule converse_rtranclp_into_rtranclp)
      moreover have "\<forall>t. t \<noteq> u \<longrightarrow> sessions s' t = sessions s t" using s'(2) by (simp add: s1_def)
      ultimately show ?thesis by blast
    next
      case 3
      then show ?thesis using False none(2) x(1) by (cases b) (auto simp: runs_def)
    qed
  qed
qed

subsection \<open>The properties\<close>

text \<open>
  C32: a transaction is alone. In every state the server can reach, while a session is inside a
  transaction no other session runs a statement or is inside one, a statement that writes runs with
  no other, the flag that a transaction is open is true exactly while some session is in it, and
  there are at most \<open>MAX_SESSIONS\<close> sessions.
\<close>
theorem transactions_are_alone:
  assumes "\<not> started l" "server_step\<^sup>*\<^sup>* (initial_server l) s"
  shows "(in_transaction s t \<or> runs s t False \<longrightarrow> (\<forall>u b. u \<noteq> t \<longrightarrow> \<not> runs s u b \<and> \<not> in_transaction s u)) \<and>
    (transactionOpen s \<longleftrightarrow> (\<exists>t. in_transaction s t)) \<and>
    (\<forall>u n. poolOwner (slocks s) = Some (u, n) \<longrightarrow> runs s u True \<or> runs s u False) \<and>
    finite (dom (sessions s)) \<and> int (card (dom (sessions s))) \<le> MAX_SESSIONS"
proof -
  have ok: "server_ok s" by (rule server_steps_ok [OF assms(2) initial_server_ok [OF assms(1)]])
  then have l: "locks_ok (slocks s) (runs s) (in_transaction s) (transactionOpen s)" by (simp add: server_ok_def)
  note d = locks_okD [OF l]
  have "\<not> runs s u b \<and> \<not> in_transaction s u" if "in_transaction s t \<or> runs s t False" "u \<noteq> t" for u b
  proof -
    have w: "writer (slocks s) = Some t" using d(3) that(1) by blast
    then show ?thesis using d(2) [of u] d(3) [of u] d(4) [OF w] that(2) by (cases b) auto
  qed
  moreover have "transactionOpen s \<longleftrightarrow> (\<exists>t. in_transaction s t)" using d(6,7,8) by blast
  moreover have "finite (dom (sessions s)) \<and> int (card (dom (sessions s))) \<le> MAX_SESSIONS"
    using ok by (auto simp: server_ok_def counts_ok_def)
  ultimately show ?thesis using d(5) by blast
qed

text \<open>
  C33: no session waits for good. From every reachable state in which a session has a statement to run,
  the server can go on to a state in which it runs: whoever holds the lock can finish its statement
  or its transaction, leave the pool on the way, and nobody waits for a lock while holding another
  that is wanted there.
\<close>
theorem waiting_session_can_run:
  assumes "\<not> started l" "server_step\<^sup>*\<^sup>* (initial_server l) s" "sessions s t = Some x" "phase x = Ready readsOnly"
  shows "\<exists>s' b. server_step\<^sup>*\<^sup>* s s' \<and> runs s' t b"
proof -
  have ok: "server_ok s" by (rule server_steps_ok [OF assms(2) initial_server_ok [OF assms(1)]])
  then have l: "locks_ok (slocks s) (runs s) (in_transaction s) (transactionOpen s)" by (simp add: server_ok_def)
  have idle: "\<forall>b. \<not> runs s t b" using assms(3,4) by (simp add: runs_def)
  have "\<exists>s'. server_step\<^sup>*\<^sup>* s s' \<and> sessions s' t = Some x \<and> (holding x \<or> writer (slocks s') = None \<and> readers (slocks s') = {})"
  proof (cases "holding x")
    case False
    then have other: "writer (slocks s) \<noteq> Some t" using locks_okD(3) [OF l, of t] runs_at [OF assms(3)] assms(4) by simp
    show ?thesis
    proof (cases "writer (slocks s)")
      case None
      from readers_finish [OF ok this] show ?thesis using assms(3) idle by auto
    next
      case (Some u)
      from writer_finishes [OF ok this] show ?thesis using assms(3) other Some by auto
    qed
  qed (use assms(3) in blast)
  then obtain s' where s': "server_step\<^sup>*\<^sup>* s s'" "sessions s' t = Some x"
    "holding x \<or> writer (slocks s') = None \<and> readers (slocks s') = {}" by blast
  have "\<exists>y. take_lock t (holding x) readsOnly (slocks s') = Some y"
    using s'(3) by (cases "holding x"; cases readsOnly) (auto simp: lock_defs)
  then obtain shared l' where "take_lock t (holding x) readsOnly (slocks s') = Some (shared, l')" by auto
  from server_step.lock [OF s'(2) assms(4) this] s'(1) show ?thesis
    by (intro exI [of _ "set_session t (Some (x\<lparr>phase := Running shared\<rparr>)) (s'\<lparr>slocks := l'\<rparr>)"] exI [of _ shared]) simp
qed

text \<open>
  The slots of sessions do leak: each connection whose memory cannot be had takes one that nothing
  gives back, and after \<open>MAX_SESSIONS\<close> of them every connection is refused with no session there.
\<close>

theorem session_slots_leak:
  assumes "\<not> started l"
  shows "\<exists>s. server_step\<^sup>*\<^sup>* (initial_server l) s \<and> sessions s = (\<lambda>_. None) \<and>
    \<not> fst (sessionAcquire MAX_SESSIONS (slocks s))"
proof -
  define at where "at k = (initial_server l)\<lparr>slocks := (slocks (initial_server l))\<lparr>sessionCount := int k\<rparr>\<rparr>" for k
  have st: "started (slocks (initial_server l))" using assms by (simp add: initial_server_def initThreads_def)
  have "k \<le> 16 \<Longrightarrow> server_step\<^sup>*\<^sup>* (initial_server l) (at k)" for k
  proof (induction k)
    case 0
    have "at 0 = initial_server l" using assms by (simp add: at_def initial_server_def initThreads_def)
    then show ?case by simp
  next
    case (Suc k)
    have "server_step (at k) (at (Suc k))"
      using server_step.accept_no_memory [of "at k" "slocks (at (Suc k))"] Suc.prems st
      by (simp add: at_def sessionAcquire_def MAX_SESSIONS_def)
    then show ?case using Suc by simp
  qed
  from this [of 16] show ?thesis
    using st by (intro exI [of _ "at 16"]) (simp add: at_def sessionAcquire_def MAX_SESSIONS_def initial_server_def)
qed

subsection \<open>Witnesses\<close>

definition no_locks :: locks where
  "no_locks = \<lparr>started = False, sessionCount = 0, readers = {}, writer = None, poolOwner = None\<rparr>"

text \<open>Two clients connect, the first begins a transaction, the second has a query to run.\<close>

definition demo_server :: server where
  "demo_server = \<lparr>slocks = \<lparr>started = True, sessionCount = 2, readers = {}, writer = Some 1, poolOwner = None\<rparr>,
     sessions = (\<lambda>_. None)(1 := Some \<lparr>holding = True, phase = Idle\<rparr>, 2 := Some \<lparr>holding = False, phase = Ready True\<rparr>),
     transactionOpen = True\<rparr>"

lemma demo_server_reached: "server_step\<^sup>*\<^sup>* (initial_server no_locks) demo_server"
proof -
  define l where "l w = \<lparr>started = True, sessionCount = 2, readers = {}, writer = w, poolOwner = None\<rparr>" for w :: "thread option"
  define at where "at x y w b = \<lparr>slocks = l w, sessions = (\<lambda>_. None)(1 := Some x, 2 := Some y), transactionOpen = b\<rparr>"
    for x y and w :: "thread option" and b
  define new where "new = \<lparr>holding = False, phase = Idle\<rparr>"
  define one where "one = \<lparr>slocks = (l None)\<lparr>sessionCount := 1\<rparr>, sessions = (\<lambda>_. None)(1 := Some new), transactionOpen = False\<rparr>"
  have "server_step\<^sup>*\<^sup>* (initial_server no_locks) one"
    using r_into_rtranclp [of server_step, OF server_step.accept [of "initial_server no_locks" "(l None)\<lparr>sessionCount := 1\<rparr>" 1]]
    by (simp add: initial_server_def initThreads_def no_locks_def sessionAcquire_def MAX_SESSIONS_def one_def l_def new_def set_session_def)
  also have "server_step one (at new new None False)"
    using server_step.accept [of one "l None" 2] by (simp add: one_def at_def l_def new_def sessionAcquire_def MAX_SESSIONS_def set_session_def)
  also have "server_step (at new new None False) (at (new\<lparr>phase := Ready False\<rparr>) new None False)"
    using server_step.message [of "at new new None False" 1 new False] by (simp add: at_def new_def set_session_def fun_upd_twist)
  also have "server_step (at (new\<lparr>phase := Ready False\<rparr>) new None False) (at (new\<lparr>phase := Running False\<rparr>) new (Some 1) False)"
    using server_step.lock [of "at (new\<lparr>phase := Ready False\<rparr>) new None False" 1 "new\<lparr>phase := Ready False\<rparr>" False False "l (Some 1)"]
    by (simp add: at_def l_def new_def set_session_def fun_upd_twist lock_defs)
  also have "server_step (at (new\<lparr>phase := Running False\<rparr>) new (Some 1) False) (at \<lparr>holding = True, phase = Idle\<rparr> new (Some 1) True)"
    using server_step.finish [of "at (new\<lparr>phase := Running False\<rparr>) new (Some 1) False" 1 "new\<lparr>phase := Running False\<rparr>" False True True "l (Some 1)"]
    by (simp add: at_def l_def new_def set_session_def fun_upd_twist lock_defs)
  also have "server_step (at \<lparr>holding = True, phase = Idle\<rparr> new (Some 1) True) demo_server"
    using server_step.message [of "at \<lparr>holding = True, phase = Idle\<rparr> new (Some 1) True" 2 new True]
    by (simp add: at_def l_def new_def set_session_def demo_server_def)
  finally show ?thesis .
qed

theorem transactions_are_alone_witness:
  "in_transaction demo_server 1 \<and> (\<forall>b. \<not> runs demo_server 2 b \<and> \<not> in_transaction demo_server 2)"
proof -
  have start: "\<not> started no_locks" and t: "in_transaction demo_server 1"
    by (simp_all add: no_locks_def in_transaction_def demo_server_def)
  have "\<forall>u b. u \<noteq> 1 \<longrightarrow> \<not> runs demo_server u b \<and> \<not> in_transaction demo_server u"
    using transactions_are_alone [OF start demo_server_reached] t by blast
  then show ?thesis using t by simp
qed

theorem waiting_session_can_run_witness: "\<exists>s b. server_step\<^sup>*\<^sup>* demo_server s \<and> runs s 2 b"
  by (rule waiting_session_can_run [OF _ demo_server_reached, of 2 "\<lparr>holding = False, phase = Ready True\<rparr>" True])
    (simp_all add: no_locks_def demo_server_def)

end
