(* ===== verification/JoinProbe.thy ===== *)
theory JoinProbe
  imports Joins
begin

text \<open>
  What the hash join looks at: the run of buckets a probe walks holds every build row with the probe's
  key once, and in the order of the build side.
\<close>

subsection \<open>Entries of one hash stand in order\<close>

definition in_order :: "nat list \<Rightarrow> u32 list \<Rightarrow> bool" where
  "in_order b hs \<longleftrightarrow> (\<forall>g' < length hs. \<forall>g < g'. hs ! g = hs ! g' \<longrightarrow>
     (\<exists>d d'. d < d' \<and> b ! bucket b (hs ! g) d = Suc g \<and> b ! bucket b (hs ! g) d' = Suc g' \<and> (\<forall>e < d'. b ! bucket b (hs ! g) e \<noteq> 0)))"

lemma place_entry_first:
  assumes "table_ok b hs"
  shows "\<exists>f. place_entry g h b = Some (b[bucket b h f := Suc g]) \<and> b ! bucket b h f = 0 \<and> (\<forall>i < f. b ! bucket b h i \<noteq> 0)"
proof -
  from find_entry_walks [OF assms, of "\<lambda>_. False" h] obtain f r where
    fr: "find_entry (\<lambda>_. False) b h = Some (r, bucket b h f)" "\<forall>i < f. b ! bucket b h i \<noteq> 0"
    "case r of None \<Rightarrow> b ! bucket b h f = 0 | Some g \<Rightarrow> False" by (auto split: option.splits)
  then show ?thesis by (intro exI [of _ f]) (auto simp: place_entry_def split: option.splits)
qed

lemma bucket_update [simp]: "bucket (b[i := x]) h d = bucket b h d"
  by (simp add: bucket_def)

lemma bucket_bound: "table_ok b hs \<Longrightarrow> bucket b h d < length b"
  by (auto simp: table_ok_def bucket_def)

lemma before_empty:
  assumes "b ! bucket b h f = 0" "b ! bucket b h d = Suc g" "\<forall>e < d. b ! bucket b h e \<noteq> 0"
  shows "d < f"
proof (rule ccontr)
  assume "\<not> d < f"
  then have "f < d \<or> f = d" by linarith
  then show False using assms by auto
qed

lemma place_keeps_order:
  assumes ok: "table_ok b hs" and ord: "in_order b hs"
    and place: "place_entry (length hs) h b = Some b'"
  shows "in_order b' (hs @ [h])"
proof -
  obtain f where f: "b' = b[bucket b h f := Suc (length hs)]" "b ! bucket b h f = 0" "\<forall>i < f. b ! bucket b h i \<noteq> 0"
    using place_entry_first [OF ok, of "length hs" h] place by auto
  have keep: "b' ! bucket b' x d = b ! bucket b x d" if "b ! bucket b x d \<noteq> 0" for x d
    using that f(1,2) by (metis bucket_update nth_list_update_neq)
  have new: "b' ! bucket b' h f = Suc (length hs)" using f(1) bucket_bound [OF ok] by simp
  show ?thesis
    unfolding in_order_def
  proof (intro allI impI)
    fix g' g assume g: "g' < length (hs @ [h])" "g < g'" "(hs @ [h]) ! g = (hs @ [h]) ! g'"
    have hg: "(hs @ [h]) ! g = hs ! g" using g by (simp add: nth_append)
    show "\<exists>d d'. d < d' \<and> b' ! bucket b' ((hs @ [h]) ! g) d = Suc g \<and> b' ! bucket b' ((hs @ [h]) ! g) d' = Suc g' \<and>
        (\<forall>e < d'. b' ! bucket b' ((hs @ [h]) ! g) e \<noteq> 0)"
    proof (cases "g' < length hs")
      case True
      then have "hs ! g = hs ! g'" using g by (simp add: nth_append)
      then obtain d d' where "d < d'" "b ! bucket b (hs ! g) d = Suc g" "b ! bucket b (hs ! g) d' = Suc g'"
        "\<forall>e < d'. b ! bucket b (hs ! g) e \<noteq> 0"
        using ord [unfolded in_order_def] True g(2) by blast
      then show ?thesis using keep hg by (intro exI [of _ d] exI [of _ d']) simp
    next
      case False
      then have g': "g' = length hs" "hs ! g = h" "g < length hs" using g hg by (auto simp: nth_append)
      then have "reached b h g" using ok by (auto simp: table_ok_def)
      then obtain d where d: "b ! bucket b h d = Suc g" "\<forall>e < d. b ! bucket b h e \<noteq> 0" by (auto simp: reached_def)
      have "d < f" by (rule before_empty [OF f(2) d])
      then show ?thesis using keep d(1) f(3) new g' hg by (intro exI [of _ d] exI [of _ f]) simp
    qed
  qed
qed

lemma place_all_order:
  "\<lbrakk>table_ok b hs; in_order b hs; length hs + length later < length b\<rbrakk> \<Longrightarrow>
   \<exists>b'. place_all (length hs) later b = Some b' \<and> length b' = length b \<and> table_ok b' (hs @ later) \<and> in_order b' (hs @ later)"
proof (induction later arbitrary: b hs)
  case (Cons h later)
  obtain b' where b': "place_entry (length hs) h b = Some b'" "length b' = length b" "table_ok b' (hs @ [h])"
    using place_entry_ok [OF Cons.prems(1), of h] Cons.prems(3) by auto
  have "in_order b' (hs @ [h])" by (rule place_keeps_order [OF Cons.prems(1,2) b'(1)])
  then show ?case using Cons.IH [OF b'(3)] b' Cons.prems(3) by auto
qed auto

subsection \<open>The run\<close>

lemma bucket_run_from:
  assumes "length b = 2 ^ k" "k \<le> 31" "b ! bucket b h e = 0" "\<forall>i < e. b ! bucket b h i \<noteq> 0" "d \<le> e" "unat at = bucket b h d"
  shows "bucket_run b at = Some (map (\<lambda>i. b ! bucket b h i - 1) [d..<e])"
  using assms(5,6)
proof (induction "e - d" arbitrary: d at)
  case 0
  then show ?case using assms(3) by (simp add: bucket_run.simps [of b at] Let_def)
next
  case (Suc n)
  then have "d < e" by simp
  moreover have "bucket_run b (and (at + 1) (mask_of b)) = Some (map (\<lambda>i. b ! bucket b h i - 1) [Suc d..<e])"
    by (rule Suc.hyps(1)) (use Suc.hyps(2) Suc.prems unat_next [OF assms(1,2) Suc.prems(2)] in auto)
  ultimately show ?case
    using assms(4) Suc.prems(2) by (simp add: bucket_run.simps [of b at] Let_def upt_conv_Cons)
qed

lemma bucket_add: "bucket b h (d + length b * c) = bucket b h d"
  by (simp add: bucket_def flip: add.assoc)

text \<open>The buckets before the first empty one differ.\<close>

lemma run_distinct:
  assumes "0 < length b" "b ! bucket b h e = 0" "\<forall>i < e. b ! bucket b h i \<noteq> 0" "i < e" "j < e" "bucket b h i = bucket b h j"
  shows "i = j"
proof -
  let ?N = "length b"
  have "e < ?N"
  proof (rule ccontr)
    assume "\<not> e < ?N"
    then have "e mod ?N < e" using assms(1) by (meson mod_less_divisor not_le order_less_le_trans)
    moreover have "bucket b h (e mod ?N) = bucket b h e"
      using bucket_add [of b h "e mod ?N" "e div ?N"] by (simp add: mult.commute)
    ultimately show False using assms(2,3) by force
  qed
  then have "\<not> bucket b h x = bucket b h y" if "x < y" "y < e" for x y
  proof -
    have "0 < y - x" "y - x < ?N" using that \<open>e < ?N\<close> by simp_all
    then have "\<not> ?N dvd (unat h + y) - (unat h + x)" using nat_dvd_not_less [of "y - x" ?N] by simp
    moreover have "unat h + x \<le> unat h + y" using that by simp
    ultimately show ?thesis using mod_eq_dvd_iff_nat [of "unat h + x" "unat h + y" ?N] by (auto simp: bucket_def)
  qed
  then show ?thesis using assms(4-6) by (metis linorder_neqE_nat)
qed

lemma sorted_wrt_filter_pairs:
  "sorted_wrt R (filter P xs) \<longleftrightarrow> (\<forall>j < length xs. \<forall>i < j. P (xs ! i) \<longrightarrow> P (xs ! j) \<longrightarrow> R (xs ! i) (xs ! j))"
proof (induction xs rule: rev_induct)
  case (snoc x xs)
  have "(\<forall>j < length (xs @ [x]). \<forall>i < j. P ((xs @ [x]) ! i) \<longrightarrow> P ((xs @ [x]) ! j) \<longrightarrow> R ((xs @ [x]) ! i) ((xs @ [x]) ! j)) \<longleftrightarrow>
      (\<forall>j < length xs. \<forall>i < j. P (xs ! i) \<longrightarrow> P (xs ! j) \<longrightarrow> R (xs ! i) (xs ! j)) \<and> (P x \<longrightarrow> (\<forall>i < length xs. P (xs ! i) \<longrightarrow> R (xs ! i) x))"
    by (auto simp: nth_append less_Suc_eq)
  moreover have "sorted_wrt R (filter P (xs @ [x])) \<longleftrightarrow> sorted_wrt R (filter P xs) \<and> (P x \<longrightarrow> (\<forall>y \<in> set xs. P y \<longrightarrow> R y x))"
    by (auto simp: sorted_wrt_append)
  ultimately show ?case using snoc.IH by (simp add: all_set_conv_all_nth)
qed simp

text \<open>The entries of the run with the probe's hash are all there are, in order.\<close>

lemma run_entries:
  assumes ok: "table_ok b hs" and ord: "in_order b hs"
    and P: "\<And>i. i < length hs \<Longrightarrow> P i \<Longrightarrow> hs ! i = h"
  shows "\<exists>run. bucket_run b (and h (mask_of b)) = Some run \<and> filter P run = filter P [0..<length hs]"
proof -
  obtain k where k: "length b = 2 ^ k" "k \<le> 31" using ok by (auto simp: table_ok_def)
  define e where "e = (LEAST d. b ! bucket b h d = 0)"
  have e: "b ! bucket b h e = 0" "\<forall>i < e. b ! bucket b h i \<noteq> 0"
    using LeastI_ex [OF empty_ahead [OF ok, of h]] not_less_Least unfolding e_def by blast+
  define run where "run = map (\<lambda>i. b ! bucket b h i - 1) [0..<e]"
  have "unat (and h (mask_of b)) = bucket b h 0" using unat_and_mask [OF k, of h] by (simp add: bucket_def)
  then have r: "bucket_run b (and h (mask_of b)) = Some run"
    unfolding run_def by (intro bucket_run_from [OF k e]) simp_all
  have small: "b ! bucket b h i \<le> length hs" for i using ok bucket_bound [OF ok] by (auto simp: table_ok_def)
  have dist: "i = j" if "i < e" "j < e" "b ! bucket b h i = b ! bucket b h j" for i j
  proof -
    have "bucket b h i = bucket b h j" using that ok bucket_bound [OF ok] e(2) by (auto simp: table_ok_def)
    then show ?thesis using run_distinct [OF _ e that(1,2)] k by simp
  qed
  have pos: "\<exists>i < e. b ! bucket b h i = Suc g \<and> (\<forall>j < e. b ! bucket b h j = Suc g \<longrightarrow> j = i)" if "g < length hs" "hs ! g = h" for g
  proof -
    have "reached b h g" using ok that by (auto simp: table_ok_def)
    then obtain d where d: "b ! bucket b h d = Suc g" "\<forall>i < d. b ! bucket b h i \<noteq> 0" by (auto simp: reached_def)
    have "d < e" by (rule before_empty [OF e(1) d])
    then show ?thesis using d(1) dist by metis
  qed
  have asc: "run ! i < run ! j" if ij: "i < j" "j < e" "P (run ! i)" "P (run ! j)" for i j
  proof (rule ccontr)
    have at: "b ! bucket b h i = Suc (run ! i)" "b ! bucket b h j = Suc (run ! j)" using ij e(2) by (simp_all add: run_def)
    assume "\<not> run ! i < run ! j"
    moreover have "run ! i \<noteq> run ! j" using at dist [of i j] ij by auto
    ultimately have lt: "run ! j < run ! i" by simp
    have n: "run ! i < length hs" "run ! j < length hs" using small [of i] small [of j] at by simp_all
    have same: "hs ! (run ! j) = hs ! (run ! i)" "hs ! (run ! j) = h" using P n ij(3,4) by simp_all
    from ord [unfolded in_order_def, rule_format, OF n(1) lt same(1)] same(2) obtain d d' where
      d: "d < d'" "b ! bucket b h d = Suc (run ! j)" "b ! bucket b h d' = Suc (run ! i)" "\<forall>x < d'. b ! bucket b h x \<noteq> 0" by auto
    have "d' < e" by (rule before_empty [OF e(1) d(3,4)])
    then have "d' = i" "d = j" using dist [of d' i] dist [of d j] d at ij by auto
    then show False using d(1) ij(1) by simp
  qed
  have "sorted_wrt (<) (filter P run)"
    unfolding sorted_wrt_filter_pairs using asc by (simp add: run_def)
  moreover have "sorted_wrt (<) (filter P [0..<length hs])" by (simp add: sorted_wrt_filter)
  moreover have "set (filter P run) = set (filter P [0..<length hs])"
  proof -
    have "g \<in> set run \<longleftrightarrow> g < length hs" if "P g" for g
    proof
      assume "g \<in> set run"
      then obtain i where "i < e" "g = b ! bucket b h i - 1" by (auto simp: run_def)
      then show "g < length hs" using small [of i] e(2) by fastforce
    next
      assume n: "g < length hs"
      have "hs ! g = h" by (rule P [OF n that])
      from pos [OF n this] obtain i where "i < e" "b ! bucket b h i = Suc g" by blast
      then have "g = b ! bucket b h i - 1" "i \<in> set [0..<e]" by simp_all
      then show "g \<in> set run" unfolding run_def set_map by (rule image_eqI)
    qed
    then show ?thesis by auto
  qed
  ultimately have "filter P run = filter P [0..<length hs]" by (simp add: strict_sorted_equal)
  then show ?thesis using r by blast
qed

subsection \<open>The probe\<close>

lemma join_buckets_built:
  assumes "n = 2 ^ k" "k \<le> 30" "length es < n"
  shows "\<exists>b. join_buckets es n = Some b"
proof -
  have "table_ok (replicate n 0) []" using empty_table [of k] assms(1,2) by simp
  moreover have "in_order (replicate n 0) []" by (simp add: in_order_def)
  ultimately show ?thesis using place_all_order [of "replicate n 0" "[]" "map jhash es"] assms(3) by (auto simp: join_buckets_def)
qed

lemma doubled_least: "0 < grown \<Longrightarrow> grown \<le> doubled grown rows"
proof (induction grown rows rule: doubled.induct)
  case (1 grown rows)
  then show ?case by (subst doubled.simps) (cases "grown < rows"; simp)
qed

lemma probe_finds:
  assumes "join_buckets es n = Some b" "n = 2 ^ k" "k \<le> 30" "length es < n"
  shows "probe_entries es b key = Some (filter (same_key es key) [0..<length es])"
proof -
  let ?hs = "map jhash es"
  have "table_ok (replicate n 0) []" using empty_table [of k] assms(2,3) by simp
  moreover have "in_order (replicate n 0) []" by (simp add: in_order_def)
  ultimately have ok: "table_ok b ?hs" "in_order b ?hs"
    using place_all_order [of "replicate n 0" "[]" ?hs] assms(1,4) by (simp_all add: join_buckets_def)
  have "i < length ?hs \<Longrightarrow> same_key es key i \<Longrightarrow> ?hs ! i = hashValue key" for i by (simp add: same_key_def)
  from run_entries [OF ok this] obtain run where
    run: "bucket_run b (and (hashValue key) (mask_of b)) = Some run" "filter (same_key es key) run = filter (same_key es key) [0..<length es]"
    by auto
  then show ?thesis using run by (simp add: probe_entries_def)
qed

text \<open>The table is under half full and a power of two of at most \<open>2 ^ 30\<close> buckets, whatever the joins before it needed.\<close>

definition bucket_count_ok :: "nat \<Rightarrow> bool" where
  "bucket_count_ok n \<longleftrightarrow> n = 0 \<or> (\<exists>k \<le> 30. n = 2 ^ k)"

lemma size_buckets_power:
  assumes "size_buckets entries e = Some (Inr n, e')" "entries \<le> 2 ^ 28" "bucket_count_ok (joinBucketCount (exec e))"
  shows "(\<exists>k \<le> 30. n = 2 ^ k) \<and> entries < n \<and> joinBucketCount (exec e') = n"
proof -
  let ?w = "doubled 16 (entries * 2)"
  have n: "n = max ?w (joinBucketCount (exec e))" "joinBucketCount (exec e') = n"
    using assms(1) by (auto simp: size_buckets_def Let_def set_exec_def split: if_splits)
  have b: "entries * 2 \<le> ?w" "?w \<le> max 16 (2 * (entries * 2) - 1)" using doubled_bounds [of 16 "entries * 2"] by simp_all
  obtain k where k: "?w = 2 ^ k" using doubled_power [of 4 "entries * 2"] by auto
  have "?w < 2 ^ 31" using b(2) assms(2) by (simp add: max_def split: if_splits)
  then have "k < 31" using k power_less_imp_less_exp [of "2 :: nat" k 31] by simp
  then have "\<exists>j \<le> 30. n = 2 ^ j"
    using assms(3) k n(1) by (auto simp: bucket_count_ok_def max_def intro: exI [of _ k])
  moreover have "16 \<le> ?w"
    using doubled_least [of 16 "entries * 2"] by simp
  then have "entries < n" using b(1) n(1) by linarith
  ultimately show ?thesis using n(2) by blast
qed

text \<open>
  C34: the hash join's table. However large the table earlier joins left behind, it can be built, and
  the entries a probe visits are those a comparison with every build row would find equal, each once
  and in the order of the build side, as the nested loop meets them (for keys that are not a signed
  zero, whose hash and equality differ). The size stays one the next join can start from.
\<close>
theorem hash_probe_finds_partners:
  assumes "size_buckets (length es) e = Some (Inr n, e')" "length es \<le> 2 ^ 28" "bucket_count_ok (joinBucketCount (exec e))"
    and "\<forall>x \<in> set es. jhash x = hashValue (jkey x) \<and> plain (jkey x)"
  shows "bucket_count_ok (joinBucketCount (exec e')) \<and>
    (\<exists>b. join_buckets es n = Some b \<and>
      (\<forall>key. plain key \<longrightarrow> probe_entries es b key = Some (filter (\<lambda>i. valuesEqual (jkey (es ! i)) key) [0..<length es])))"
proof -
  obtain k where k: "k \<le> 30" "n = 2 ^ k" "length es < n" "joinBucketCount (exec e') = n"
    using size_buckets_power [OF assms(1-3)] by blast
  obtain b where b: "join_buckets es n = Some b"
    using join_buckets_built [of n k es] k by blast
  have "filter (same_key es key) [0..<length es] = filter (\<lambda>i. valuesEqual (jkey (es ! i)) key) [0..<length es]" if "plain key" for key
    using assms(4) that by (intro filter_cong) (auto simp: same_key_def hashValue_equal)
  then show ?thesis using b k probe_finds [OF b k(2,1,3)] by (auto simp: bucket_count_ok_def)
qed

definition numbers_build :: "joinentry list" where
  "numbers_build = map (\<lambda>i. let v = blank_value\<lparr>intValue := of_int (i mod 2)\<rparr> in \<lparr>jkey = v, jhash = hashValue v, jposition = i\<rparr>) [0, 1, 2]"

definition probe_engine :: engine where
  "probe_engine = InitEngine (\<lambda>_. True) blank_value 100 demo_wal 4 4 4"

theorem hash_probe_finds_partners_witness:
  "\<exists>n e' b. size_buckets 3 probe_engine = Some (Inr n, e') \<and> join_buckets numbers_build n = Some b \<and>
     probe_entries numbers_build b blank_value = Some [0, 2]"
proof -
  have l: "length numbers_build = 3" by (simp add: numbers_build_def)
  define e' where "e' = set_exec (\<lambda>x. x\<lparr>joinBucketCount := 16\<rparr>) probe_engine"
  have s: "size_buckets (length numbers_build) probe_engine = Some (Inr 16, e')"
    by (simp add: size_buckets_def probe_engine_def InitEngine_def zero_executor_def l doubled.simps e'_def)
  have h: "\<forall>x \<in> set numbers_build. jhash x = hashValue (jkey x) \<and> plain (jkey x)" "plain blank_value"
    by (simp_all add: numbers_build_def Let_def plain_def blank_value_def)
  have c: "length numbers_build \<le> 2 ^ 28" "bucket_count_ok (joinBucketCount (exec probe_engine))"
    by (simp_all add: l probe_engine_def InitEngine_def zero_executor_def bucket_count_ok_def)
  obtain b where b: "join_buckets numbers_build 16 = Some b"
    "probe_entries numbers_build b blank_value = Some (filter (\<lambda>i. valuesEqual (jkey (numbers_build ! i)) blank_value) [0..<length numbers_build])"
    using hash_probe_finds_partners [OF s c h(1)] h(2) by blast
  have "filter (\<lambda>i. valuesEqual (jkey (numbers_build ! i)) blank_value) [0..<length numbers_build] = [0, 2]"
    by (simp add: l numbers_build_def Let_def upt_rec valuesEqual_def valuesSame_def intLike_def blank_value_def)
  then show ?thesis using b s l by auto
qed

end
