(* ===== verification/Codec.thy ===== *)
theory Codec
  imports Catalog Results Records
begin

text \<open>
  The catalog's bytes, \<^verbatim>\<open>12_persist.c\<close>: the growing buffer a catalog is written to, and the writers and
  readers of its fields, literals, columns and CHECK conditions. What a reader has not read yet is
  the rest of the bytes. A reader that fails has no value; all of them fail with
  \<open>ERROR_IO_BAD_FORMAT\<close>.
\<close>

subsection \<open>The buffer\<close>

text \<open>
  \<open>bmemory n\<close> says whether the buffer can grow to \<open>n\<close> bytes. A writer says whether it could write.
\<close>

record buffer =
  bdata :: "byte list"
  bcapacity :: nat
  bmemory :: "nat \<Rightarrow> bool"

definition blank_buffer :: "(nat \<Rightarrow> bool) \<Rightarrow> buffer" where
  "blank_buffer mem = \<lparr>bdata = [], bcapacity = 0, bmemory = mem\<rparr>"

definition bufReserve :: "nat \<Rightarrow> buffer \<Rightarrow> bool \<times> buffer" where
  "bufReserve extra b =
     (let wanted = length (bdata b) + extra
      in if wanted \<le> bcapacity b then (True, b)
         else let grown = doubled (if bcapacity b \<noteq> 0 then bcapacity b else 4096) wanted
              in if \<not> bmemory b grown then (False, b) else (True, b\<lparr>bcapacity := grown\<rparr>))"

definition put_raw :: "byte list \<Rightarrow> buffer \<Rightarrow> bool \<times> buffer" where
  "put_raw bs b =
     (case bufReserve (length bs) b of (False, b) \<Rightarrow> (False, b)
      | (True, b) \<Rightarrow> (True, b\<lparr>bdata := bdata b @ bs\<rparr>))"

definition u32_bytes :: "u32 \<Rightarrow> byte list" where
  "u32_bytes v = [ucast v, ucast (drop_bit 8 v), ucast (drop_bit 16 v), ucast (drop_bit 24 v)]"

definition put_u32 :: "u32 \<Rightarrow> buffer \<Rightarrow> bool \<times> buffer" where "put_u32 v = put_raw (u32_bytes v)"

definition putString :: "string \<Rightarrow> buffer \<Rightarrow> bool \<times> buffer" where
  "putString s b =
     (case put_u32 (of_nat (length s)) b of (False, b) \<Rightarrow> (False, b)
      | (True, b) \<Rightarrow> put_raw (map byte_of_char s) b)"

text \<open>Several writers in a row, each tried whatever the one before it said.\<close>

type_synonym writer = "buffer \<Rightarrow> bool \<times> buffer"

fun put_all :: "writer list \<Rightarrow> writer" where
  "put_all [] b = (True, b)"
| "put_all (w # ws) b = (let (done1, b) = w b; (done2, b) = put_all ws b in (done1 \<and> done2, b))"

subsection \<open>Reading\<close>

type_synonym 'a reader = "byte list \<Rightarrow> ('a \<times> byte list) option"

definition get_u32 :: "u32 reader" where
  "get_u32 bs =
     (if 4 \<le> length bs
      then Some (ucast (bs ! 0) OR push_bit 8 (ucast (bs ! 1)) OR push_bit 16 (ucast (bs ! 2)) OR push_bit 24 (ucast (bs ! 3)), drop 4 bs)
      else None)"

definition get_raw :: "nat \<Rightarrow> byte list reader" where
  "get_raw n bs = (if n \<le> length bs then Some (take n bs, drop n bs) else None)"

definition getString :: "nat \<Rightarrow> string reader" where
  "getString capacity bs =
     do { (n, bs) \<leftarrow> get_u32 bs;
          if unat n \<ge> capacity then None
          else do { (text, bs) \<leftarrow> get_raw (unat n) bs;
                    Some (takeWhile (\<lambda>c. c \<noteq> CHR 0x00) (map char_of_byte text), bs) } }"

text \<open>A field that has to be below a bound, and one that is an int.\<close>

definition get_below :: "nat \<Rightarrow> nat reader" where
  "get_below n bs = do { (v, bs) \<leftarrow> get_u32 bs; if unat v < n then Some (unat v, bs) else None }"

definition get_int :: "int reader" where
  "get_int bs = do { (v, bs) \<leftarrow> get_u32 bs; Some (sint v, bs) }"

fun get_many :: "nat \<Rightarrow> 'a reader \<Rightarrow> 'a list reader" where
  "get_many 0 r bs = Some ([], bs)"
| "get_many (Suc n) r bs = do { (x, bs) \<leftarrow> r bs; (xs, bs) \<leftarrow> get_many n r bs; Some (x # xs, bs) }"

subsection \<open>Literals\<close>

definition flag_word :: "bool \<Rightarrow> u32" where "flag_word b = (if b then 1 else 0)"

definition putValue :: "Value \<Rightarrow> writer" where
  "putValue v = put_all
     [put_u32 (ucast (type_byte (vtype v))), put_u32 (flag_word (isNull v)), put_u32 (intValue v),
      put_raw (bytes_of 8 (floatValue v)), putString (if vtype v = TYPE_TEXT \<and> \<not> isNull v then vtext v else [])]"

definition getValue :: "Value reader" where
  "getValue bs =
     do { (type, bs) \<leftarrow> get_below 4 bs; (null, bs) \<leftarrow> get_u32 bs; (n, bs) \<leftarrow> get_u32 bs; (bits, bs) \<leftarrow> get_raw 8 bs;
          (text, bs) \<leftarrow> getString VALUE_LEN bs;
          let type = type_of_byte (of_nat type);
          Some (if null \<noteq> 0 then setNull type
                else if type = TYPE_TEXT then setText blank_value text
                else \<lparr>vtype = type, isNull = False, intValue = n, floatValue = getU64 0 (\<lambda>i. bits ! i), vtext = []\<rparr>, bs) }"

subsection \<open>Conditions\<close>

definition kinds :: "conditionkind list" where "kinds = [COND_COMPARE, COND_AND, COND_OR, COND_NOT]"
definition operators :: "compareop list" where
  "operators = [OP_EQ, OP_NE, OP_LT, OP_LTE, OP_GT, OP_GTE, OP_IS_NULL, OP_IS_NOT_NULL, OP_LIKE, OP_NOT_LIKE, OP_IN, OP_EXISTS]"
definition expr_kinds :: "exprkind list" where "expr_kinds = [EXPR_COLUMN, EXPR_LITERAL, EXPR_BINARY, EXPR_NEGATE]"
definition arith_ops :: "arithop list" where "arith_ops = [ARITH_ADD, ARITH_SUB, ARITH_MUL, ARITH_DIV, ARITH_MOD]"

text \<open>An enumerator is written as its number.\<close>

fun number_in :: "'a list \<Rightarrow> 'a \<Rightarrow> nat" where
  "number_in [] x = 0"
| "number_in (y # ys) x = (if x = y then 0 else Suc (number_in ys x))"

definition put_int :: "int \<Rightarrow> writer" where "put_int n = put_u32 (of_int n)"
definition put_number :: "nat \<Rightarrow> writer" where "put_number n = put_u32 (of_nat n)"

definition put_node :: "conditionnode \<Rightarrow> writer" where
  "put_node n = put_all
     ([put_number (number_in kinds (ckind n)), put_int (cleft n), put_int (cright n)] @
      (if ckind n \<noteq> COND_COMPARE then []
       else [put_int (pleft (ccompare n)), put_number (number_in operators (pop (ccompare n))), put_int (pright (ccompare n))]))"

definition put_operand :: "exprnode \<Rightarrow> writer" where
  "put_operand n = put_all
     [put_number (number_in expr_kinds (ekind n)), put_number (number_in arith_ops (eop n)), put_int (eleft n), put_int (eright n),
      putString (ecolumn n), putValue (eliteral n)]"

definition putCondition :: "condition option \<Rightarrow> writer" where
  "putCondition c =
     (case c of
        Some c \<Rightarrow>
          if present c
          then put_all ([put_u32 1, put_number (length (cnodes c)), put_int (croot c)] @ map put_node (cnodes c) @
                        [put_number (length (cexprs c))] @ map put_operand (cexprs c))
          else put_u32 0
      | None \<Rightarrow> put_u32 0)"

definition zero_predicate :: predicate where "zero_predicate = \<lparr>pleft = 0, pop = OP_EQ, pright = 0, psubquery = 0\<rparr>"

definition get_node :: "conditionnode reader" where
  "get_node bs =
     do { (kind, bs) \<leftarrow> get_below 4 bs; (left, bs) \<leftarrow> get_int bs; (right, bs) \<leftarrow> get_int bs;
          if kinds ! kind \<noteq> COND_COMPARE
          then Some (\<lparr>ckind = kinds ! kind, ccompare = zero_predicate, cleft = left, cright = right\<rparr>, bs)
          else do { (l, bs) \<leftarrow> get_int bs; (op, bs) \<leftarrow> get_below 10 bs; (r, bs) \<leftarrow> get_int bs;
                    Some (\<lparr>ckind = COND_COMPARE, ccompare = \<lparr>pleft = l, pop = operators ! op, pright = r, psubquery = -1\<rparr>,
                           cleft = left, cright = right\<rparr>, bs) } }"

definition get_operand :: "exprnode reader" where
  "get_operand bs =
     do { (kind, bs) \<leftarrow> get_below 4 bs; (op, bs) \<leftarrow> get_below 5 bs; (left, bs) \<leftarrow> get_int bs; (right, bs) \<leftarrow> get_int bs;
          (name, bs) \<leftarrow> getString NAME_LEN bs; (v, bs) \<leftarrow> getValue bs;
          Some (\<lparr>ekind = expr_kinds ! kind, eop = arith_ops ! op, eleft = left, eright = right, ecolumn = name,
                 eliteral = v, eslot = -1, etype = vtype v\<rparr>, bs) }"

text \<open>The condition, marked as there or not.\<close>

definition getCondition :: "condition reader" where
  "getCondition bs =
     do { (flag, bs) \<leftarrow> get_u32 bs;
          if flag = 0 then Some (blank_condition, bs)
          else do { (n, bs) \<leftarrow> get_below (MAX_CONDITION_NODES + 1) bs;
                    if n = 0 then None
                    else do { (root, bs) \<leftarrow> get_below n bs; (nodes, bs) \<leftarrow> get_many n get_node bs;
                              (operands, bs) \<leftarrow> get_below (MAX_EXPR_NODES + 1) bs; (exprs, bs) \<leftarrow> get_many operands get_operand bs;
                              Some (\<lparr>present = True, croot = int root, cnodes = nodes, cexprs = exprs\<rparr>, bs) } } }"

subsection \<open>What is written reads back\<close>

definition reads_back :: "writer \<Rightarrow> 'a reader \<Rightarrow> 'a \<Rightarrow> bool" where
  "reads_back w r x \<longleftrightarrow> (\<forall>b b'. w b = (True, b') \<longrightarrow> (\<exists>bs. bdata b' = bdata b @ bs \<and> (\<forall>rest. r (bs @ rest) = Some (x, rest))))"

lemma reads_back_nil: "reads_back (put_all []) (\<lambda>bs. Some (x, bs)) x"
  by (simp add: reads_back_def)

lemma reads_back_cons:
  assumes "reads_back w r x" "reads_back (put_all ws) (k x) y"
  shows "reads_back (put_all (w # ws)) (\<lambda>bs. do { (x, bs) \<leftarrow> r bs; k x bs }) y"
proof -
  have "\<exists>bs. bdata b2 = bdata b @ bs \<and> (\<forall>rest. (do { (x, bs) \<leftarrow> r (bs @ rest); k x bs }) = Some (y, rest))"
    if "put_all (w # ws) b = (True, b2)" for b b2
  proof -
    obtain b1 where b: "w b = (True, b1)" "put_all ws b1 = (True, b2)" using \<open>put_all (w # ws) b = (True, b2)\<close> by (auto split: prod.splits)
    obtain bs where bs: "bdata b1 = bdata b @ bs" "\<And>rest. r (bs @ rest) = Some (x, rest)" using assms(1) b(1) unfolding reads_back_def by blast
    obtain cs where cs: "bdata b2 = bdata b1 @ cs" "\<And>rest. k x (cs @ rest) = Some (y, rest)" using assms(2) b(2) unfolding reads_back_def by blast
    show ?thesis using bs cs by (intro exI [of _ "bs @ cs"]) simp
  qed
  then show ?thesis unfolding reads_back_def by blast
qed

lemma put_all_append: "put_all (ws @ vs) = put_all (ws @ [put_all vs])"
  by (induction ws) (auto split: prod.split)

lemma reads_back_many:
  "(\<And>x. x \<in> set xs \<Longrightarrow> reads_back (w x) r (f x)) \<Longrightarrow> reads_back (put_all (map w xs)) (get_many (length xs) r) (map f xs)"
proof (induction xs)
  case (Cons x xs)
  have "reads_back (put_all (w x # map w xs)) (\<lambda>bs. do { (y, bs) \<leftarrow> r bs; (ys, bs) \<leftarrow> get_many (length xs) r bs; Some (y # ys, bs) }) (f x # map f xs)"
  proof (rule reads_back_cons)
    show "reads_back (w x) r (f x)" using Cons(2) by simp
    have "reads_back (put_all (map w xs)) (get_many (length xs) r) (map f xs)" using Cons by simp
    then show "reads_back (put_all (map w xs)) (\<lambda>bs. do { (ys, bs) \<leftarrow> get_many (length xs) r bs; Some (f x # ys, bs) }) (f x # map f xs)"
      unfolding reads_back_def by fastforce
  qed
  then show ?case by (simp only: list.map list.size get_many.simps add_Suc_right add_0_right)
qed (simp add: reads_back_def)

lemma bufReserve_data: "bufReserve n b = (True, b') \<Longrightarrow> bdata b' = bdata b"
  by (auto simp: bufReserve_def Let_def split: if_splits)

lemma put_raw_data: "put_raw bs b = (True, b') \<Longrightarrow> bdata b' = bdata b @ bs"
  by (auto simp: put_raw_def split: prod.splits bool.splits dest: bufReserve_data)

lemma put_raw_reads: "(\<And>rest. r (bs @ rest) = Some (x, rest)) \<Longrightarrow> reads_back (put_raw bs) r x"
  unfolding reads_back_def using put_raw_data by blast

lemma u32_bytes_read: "get_u32 (u32_bytes v @ rest) = Some (v, rest)"
proof -
  have "ucast (ucast v :: byte) OR push_bit 8 (ucast (ucast (drop_bit 8 v) :: byte)) OR push_bit 16 (ucast (ucast (drop_bit 16 v) :: byte)) OR
      push_bit 24 (ucast (ucast (drop_bit 24 v) :: byte)) = (v :: u32)"
  proof (rule bit_word_eqI)
    fix n assume "n < LENGTH(32)"
    then consider "n < 8" | "8 \<le> n" "n < 16" | "16 \<le> n" "n < 24" | "24 \<le> n" "n < 32" by fastforce
    then show "bit (ucast (ucast v :: byte) OR push_bit 8 (ucast (ucast (drop_bit 8 v) :: byte)) OR push_bit 16 (ucast (ucast (drop_bit 16 v) :: byte)) OR
      push_bit 24 (ucast (ucast (drop_bit 24 v) :: byte)) :: u32) n = bit v n"
      by cases (auto simp: bit_simps le_add_diff_inverse)
  qed
  then show ?thesis by (simp add: get_u32_def u32_bytes_def numeral_eq_Suc)
qed

lemma put_u32_reads: "reads_back (put_u32 v) get_u32 v"
  unfolding put_u32_def by (rule put_raw_reads) (rule u32_bytes_read)

lemma put_u32_bytes: "put_u32 v b = (True, b') \<Longrightarrow> bdata b' = bdata b @ u32_bytes v"
  unfolding put_u32_def by (rule put_raw_data)

lemma put_number_reads:
  assumes "n < m" "m \<le> 2 ^ 32" shows "reads_back (put_number n) (get_below m) n"
proof -
  have "unat (of_nat n :: u32) = n" using assms by (simp add: unat_of_nat)
  then show ?thesis unfolding put_number_def put_u32_def
    by (intro put_raw_reads) (simp add: get_below_def u32_bytes_read assms(1))
qed

definition fits_int :: "int \<Rightarrow> bool" where "fits_int n \<longleftrightarrow> - (2 ^ 31) \<le> n \<and> n < 2 ^ 31"

lemma put_int_reads: "fits_int n \<Longrightarrow> reads_back (put_int n) get_int n"
  unfolding put_int_def put_u32_def
  by (rule put_raw_reads) (simp add: get_int_def u32_bytes_read fits_int_def sint_of_int_range INT_MIN_def INT_MAX_def)

definition clean_text :: "nat \<Rightarrow> string \<Rightarrow> bool" where
  "clean_text capacity s \<longleftrightarrow> length s < capacity \<and> CHR 0x00 \<notin> set s"

lemma takeWhile_not_in: "x \<notin> set s \<Longrightarrow> takeWhile (\<lambda>c. c \<noteq> x) s = s"
  by (induction s) auto

lemma putString_reads:
  assumes "clean_text capacity s" "capacity \<le> 2 ^ 32" shows "reads_back (putString s) (getString capacity) s"
proof -
  have n: "unat (of_nat (length s) :: u32) = length s" "length s < capacity" "CHR 0x00 \<notin> set s"
    using assms unfolding clean_text_def by (simp_all add: unat_of_nat)
  have "getString capacity (u32_bytes (of_nat (length s)) @ map byte_of_char s @ rest) = Some (s, rest)" for rest
    using n by (simp add: getString_def u32_bytes_read get_raw_def o_def takeWhile_not_in)
  moreover have "bdata b' = bdata b @ u32_bytes (of_nat (length s)) @ map byte_of_char s" if "putString s b = (True, b')" for b b'
    using that by (auto simp: putString_def split: prod.splits bool.splits dest!: put_u32_bytes put_raw_data)
  ultimately show ?thesis unfolding reads_back_def by fastforce
qed

lemma bits_read: "getU64 0 (\<lambda>i. bytes_of 8 x ! i) = (x :: double)"
  by (rule getU64_holds) (simp add: holds_def)

lemma reads_back_end: "x = y \<Longrightarrow> reads_back (put_all []) (\<lambda>bs. Some (x, bs)) y"
  by (simp add: reads_back_def)

text \<open>What a literal is when it comes back: nothing is kept in the fields its type does not use.\<close>

definition value_ok :: "Value \<Rightarrow> bool" where
  "value_ok v \<longleftrightarrow> (vtype v \<in> {TYPE_INT, TYPE_TEXT, TYPE_FLOAT, TYPE_DATE}) \<and> (vtype v = TYPE_TEXT \<and> \<not> isNull v \<longrightarrow> clean_text VALUE_LEN (vtext v))"

definition reloaded_value :: "Value \<Rightarrow> Value" where
  "reloaded_value v =
     (if isNull v then setNull (vtype v) else if vtype v = TYPE_TEXT then setText blank_value (vtext v) else v\<lparr>vtext := []\<rparr>)"

lemma type_reads: "t \<in> {TYPE_INT, TYPE_TEXT, TYPE_FLOAT, TYPE_DATE} \<Longrightarrow>
    unat (type_byte t) < 4 \<and> type_of_byte (of_nat (unat (type_byte t))) = t"
  by (auto simp: type_of_byte_def)

lemma put_type_reads:
  "t \<in> {TYPE_INT, TYPE_TEXT, TYPE_FLOAT, TYPE_DATE} \<Longrightarrow> reads_back (put_u32 (ucast (type_byte t))) (get_below 4) (unat (type_byte t))"
  unfolding put_u32_def by (rule put_raw_reads) (auto simp: get_below_def u32_bytes_read)

text \<open>A field and what follows it.\<close>

lemmas reads_u32 = reads_back_cons [OF put_u32_reads]
lemmas reads_int = reads_back_cons [OF put_int_reads]
lemmas reads_number = reads_back_cons [OF put_number_reads]
lemmas reads_string = reads_back_cons [OF putString_reads]
lemmas reads_type = reads_back_cons [OF put_type_reads]

lemma reads_bits:
  "reads_back (put_all ws) (k (bytes_of 8 x)) y \<Longrightarrow>
   reads_back (put_all (put_raw (bytes_of 8 (x :: double)) # ws)) (\<lambda>bs. do { (bits, bs) \<leftarrow> get_raw 8 bs; k bits bs }) y"
  by (rule reads_back_cons, rule put_raw_reads) (simp_all add: get_raw_def)

lemma putValue_reads:
  assumes "value_ok v" shows "reads_back (putValue v) getValue (reloaded_value v)"
proof -
  have t: "vtype v \<in> {TYPE_INT, TYPE_TEXT, TYPE_FLOAT, TYPE_DATE}" using assms by (simp add: value_ok_def)
  have "clean_text VALUE_LEN (if vtype v = TYPE_TEXT \<and> \<not> isNull v then vtext v else [])"
    using assms by (simp add: value_ok_def clean_text_def VALUE_LEN_def)
  then show ?thesis
    unfolding putValue_def getValue_def Let_def
    using type_reads [OF t] by (intro reads_type [OF t] reads_u32 reads_bits reads_string reads_back_end)
      (simp_all add: reloaded_value_def flag_word_def bits_read VALUE_LEN_def)
qed

lemmas reads_value = reads_back_cons [OF putValue_reads]

definition node_ok :: "conditionnode \<Rightarrow> bool" where
  "node_ok n \<longleftrightarrow> fits_int (cleft n) \<and> fits_int (cright n) \<and>
     (ckind n = COND_COMPARE \<longrightarrow> fits_int (pleft (ccompare n)) \<and> fits_int (pright (ccompare n)) \<and> pop (ccompare n) \<notin> {OP_IN, OP_EXISTS})"

definition reloaded_node :: "conditionnode \<Rightarrow> conditionnode" where
  "reloaded_node n = n\<lparr>ccompare := if ckind n = COND_COMPARE then (ccompare n)\<lparr>psubquery := -1\<rparr> else zero_predicate\<rparr>"

lemma number_in_nth: "x \<in> set xs \<Longrightarrow> number_in xs x < length xs \<and> xs ! number_in xs x = x"
  by (induction xs) auto

lemma kinds_number [simp]: "number_in kinds k < 4" "kinds ! number_in kinds k = k"
  using number_in_nth [of k kinds] by (cases k; simp add: kinds_def)+

lemma expr_kinds_number [simp]: "number_in expr_kinds k < 4" "expr_kinds ! number_in expr_kinds k = k"
  by (cases k; simp add: expr_kinds_def)+

lemma arith_ops_number [simp]: "number_in arith_ops k < 5" "arith_ops ! number_in arith_ops k = k"
  by (cases k; simp add: arith_ops_def)+

lemma operators_number [simp]: "k \<notin> {OP_IN, OP_EXISTS} \<Longrightarrow> number_in operators k < 10" "operators ! number_in operators k = k"
  by (cases k; simp add: operators_def)+

lemma put_node_reads:
  assumes "node_ok n" shows "reads_back (put_node n) get_node (reloaded_node n)"
proof (cases "ckind n = COND_COMPARE")
  case True
  then have p: "put_node n = put_all [put_number (number_in kinds (ckind n)), put_int (cleft n), put_int (cright n),
      put_int (pleft (ccompare n)), put_number (number_in operators (pop (ccompare n))), put_int (pright (ccompare n))]"
    by (simp add: put_node_def)
  have "reads_back (put_all [put_int (pleft (ccompare n)), put_number (number_in operators (pop (ccompare n))), put_int (pright (ccompare n))])
      (\<lambda>bs. do { (l, bs) \<leftarrow> get_int bs; (op, bs) \<leftarrow> get_below 10 bs; (r, bs) \<leftarrow> get_int bs;
            Some (\<lparr>ckind = COND_COMPARE, ccompare = \<lparr>pleft = l, pop = operators ! op, pright = r, psubquery = -1\<rparr>,
                           cleft = cleft n, cright = cright n\<rparr>, bs) }) (reloaded_node n)"
    using assms True by (intro reads_number reads_int reads_back_end) (simp_all add: node_ok_def reloaded_node_def)
  then show ?thesis unfolding p get_node_def
    using assms True by (intro reads_number reads_int) (simp_all add: node_ok_def)
next
  case False
  then have p: "put_node n = put_all [put_number (number_in kinds (ckind n)), put_int (cleft n), put_int (cright n)]" by (simp add: put_node_def)
  show ?thesis unfolding p get_node_def
    using assms False by (intro reads_number reads_int) (simp_all add: node_ok_def reloaded_node_def reads_back_end)
qed

definition operand_ok :: "exprnode \<Rightarrow> bool" where
  "operand_ok n \<longleftrightarrow> fits_int (eleft n) \<and> fits_int (eright n) \<and> clean_text NAME_LEN (ecolumn n) \<and> value_ok (eliteral n)"

definition reloaded_operand :: "exprnode \<Rightarrow> exprnode" where
  "reloaded_operand n = n\<lparr>eliteral := reloaded_value (eliteral n), eslot := -1, etype := vtype (eliteral n)\<rparr>"

lemma reloaded_type [simp]: "vtype (reloaded_value v) = vtype v"
  by (simp add: reloaded_value_def setNull_def setText_def)

lemma put_operand_reads:
  assumes "operand_ok n" shows "reads_back (put_operand n) get_operand (reloaded_operand n)"
  unfolding put_operand_def get_operand_def
  using assms by (intro reads_number reads_int reads_string reads_value reads_back_end) (simp_all add: operand_ok_def reloaded_operand_def NAME_LEN_def)

lemma put_all_split: "put_all (ws @ vs) b = (True, b') \<Longrightarrow> \<exists>b1. put_all ws b = (True, b1) \<and> put_all vs b1 = (True, b')"
  by (induction ws arbitrary: b) (fastforce split: prod.splits)+

lemma reads_many:
  assumes "\<And>x. x \<in> set xs \<Longrightarrow> reads_back (w x) r (f x)" "reads_back (put_all ws) (k (map f xs)) y"
  shows "reads_back (put_all (map w xs @ ws)) (\<lambda>bs. do { (ys, bs) \<leftarrow> get_many (length xs) r bs; k ys bs }) y"
proof -
  have "reads_back (put_all [put_all (map w xs), put_all ws]) (\<lambda>bs. do { (ys, bs) \<leftarrow> get_many (length xs) r bs; k ys bs }) y"
  proof (rule reads_back_cons)
    show "reads_back (put_all (map w xs)) (get_many (length xs) r) (map f xs)" by (rule reads_back_many [OF assms(1)])
    show "reads_back (put_all [put_all ws]) (k (map f xs)) y" using assms(2) by (auto simp: reads_back_def split: prod.splits)
  qed
  then show ?thesis
    unfolding reads_back_def using put_all_split [of "map w xs" ws] by (fastforce split: prod.splits)
qed

text \<open>A CHECK that can be saved: as the parser makes one, but without IN and EXISTS.\<close>

definition check_ok :: "condition \<Rightarrow> bool" where
  "check_ok c \<longleftrightarrow> present c \<and> cnodes c \<noteq> [] \<and> length (cnodes c) \<le> MAX_CONDITION_NODES \<and> 0 \<le> croot c \<and> croot c < int (length (cnodes c)) \<and>
     length (cexprs c) \<le> MAX_EXPR_NODES \<and> list_all node_ok (cnodes c) \<and> list_all operand_ok (cexprs c)"

definition reloaded_check :: "condition \<Rightarrow> condition" where
  "reloaded_check c = c\<lparr>cnodes := map reloaded_node (cnodes c), cexprs := map reloaded_operand (cexprs c)\<rparr>"

lemma putCondition_reads:
  assumes "check_ok c" shows "reads_back (putCondition (Some c)) getCondition (reloaded_check c)"
proof -
  have p: "putCondition (Some c) = put_all (put_u32 1 # put_number (length (cnodes c)) # put_number (nat (croot c)) # map put_node (cnodes c) @
      put_number (length (cexprs c)) # map put_operand (cexprs c) @ [])"
    using assms by (simp add: putCondition_def check_ok_def put_int_def put_number_def)
  have body: "reads_back (put_all (put_number (nat (croot c)) # map put_node (cnodes c) @ put_number (length (cexprs c)) # map put_operand (cexprs c) @ []))
      (\<lambda>bs. do { (root, bs) \<leftarrow> get_below (length (cnodes c)) bs; (nodes, bs) \<leftarrow> get_many (length (cnodes c)) get_node bs;
                 (operands, bs) \<leftarrow> get_below (MAX_EXPR_NODES + 1) bs; (exprs, bs) \<leftarrow> get_many operands get_operand bs;
                 Some (\<lparr>present = True, croot = int root, cnodes = nodes, cexprs = exprs\<rparr>, bs) }) (reloaded_check c)"
    using assms
    by (intro reads_number reads_many [OF put_node_reads] reads_many [OF put_operand_reads] reads_back_end)
      (auto simp: check_ok_def list_all_iff reloaded_check_def MAX_CONDITION_NODES_def MAX_EXPR_NODES_def)
  have ne: "(length (cnodes c) = 0) = False" using assms by (simp add: check_ok_def)
  show ?thesis
    unfolding p getCondition_def
    apply (rule reads_u32)
    apply (simp only: one_neq_zero if_False)
    apply (rule reads_number)
    subgoal using assms by (simp add: check_ok_def)
    subgoal by (simp add: MAX_CONDITION_NODES_def)
    subgoal using body unfolding ne if_False .
    done
qed

subsection \<open>Columns\<close>

definition put_column :: "column \<Rightarrow> writer" where
  "put_column c = put_all
     ([putString (cname c), put_u32 (ucast (type_byte (ctype c))), put_int (csize c), put_int (cflags c), put_u32 (flag_word (hasDefault c))] @
      (if hasDefault c then [putValue (defaultValue c)] else []))"

text \<open>\<open>meta\<close> is whether the version of the file keeps what a column promises.\<close>

definition get_column :: "bool \<Rightarrow> column reader" where
  "get_column meta bs =
     do { (name, bs) \<leftarrow> getString NAME_LEN bs; (type, bs) \<leftarrow> get_below 4 bs;
          let c = blank_column\<lparr>cname := name, ctype := type_of_byte (of_nat type)\<rparr>;
          if \<not> meta then Some (c, bs)
          else do { (sz, bs) \<leftarrow> get_int bs; (flags, bs) \<leftarrow> get_int bs; (given, bs) \<leftarrow> get_u32 bs;
                    let c = c\<lparr>csize := sz, cflags := flags, hasDefault := given \<noteq> 0\<rparr>;
                    if given = 0 then Some (c, bs)
                    else do { (v, bs) \<leftarrow> getValue bs; Some (c\<lparr>defaultValue := v\<rparr>, bs) } } }"

definition column_ok :: "column \<Rightarrow> bool" where
  "column_ok c \<longleftrightarrow> clean_text NAME_LEN (cname c) \<and> ctype c \<in> {TYPE_INT, TYPE_TEXT, TYPE_FLOAT, TYPE_DATE} \<and> fits_int (csize c) \<and>
     fits_int (cflags c) \<and> (hasDefault c \<longrightarrow> value_ok (defaultValue c))"

definition reloaded_column :: "column \<Rightarrow> column" where
  "reloaded_column c = c\<lparr>defaultValue := if hasDefault c then reloaded_value (defaultValue c) else blank_value\<rparr>"

lemma put_column_reads:
  assumes "column_ok c" shows "reads_back (put_column c) (get_column True) (reloaded_column c)"
proof -
  have t: "ctype c \<in> {TYPE_INT, TYPE_TEXT, TYPE_FLOAT, TYPE_DATE}" using assms by (simp add: column_ok_def)
  show ?thesis
  proof (cases "hasDefault c")
    case True
    then have p: "put_column c = put_all [putString (cname c), put_u32 (ucast (type_byte (ctype c))), put_int (csize c), put_int (cflags c),
        put_u32 (flag_word True), putValue (defaultValue c)]" by (simp add: put_column_def)
    have v: "reads_back (put_all [putValue (defaultValue c)])
        (\<lambda>bs. do { (v, bs) \<leftarrow> getValue bs; Some (blank_column\<lparr>cname := cname c, ctype := ctype c, csize := csize c, cflags := cflags c,
           hasDefault := True, defaultValue := v\<rparr>, bs) }) (reloaded_column c)"
      using assms True by (intro reads_value reads_back_end) (simp_all add: column_ok_def reloaded_column_def blank_column_def)
    show ?thesis
      unfolding p get_column_def Let_def not_True_eq_False if_False
      using assms v type_reads [OF t] True
      by (intro reads_string reads_type [OF t] reads_int reads_u32) (simp_all add: column_ok_def NAME_LEN_def flag_word_def blank_column_def)
  next
    case False
    then have p: "put_column c = put_all [putString (cname c), put_u32 (ucast (type_byte (ctype c))), put_int (csize c), put_int (cflags c),
        put_u32 (flag_word False)]" by (simp add: put_column_def)
    show ?thesis
      unfolding p get_column_def Let_def not_True_eq_False if_False
      using assms type_reads [OF t] False
      by (intro reads_string reads_type [OF t] reads_int reads_u32)
        (simp_all add: column_ok_def NAME_LEN_def flag_word_def reloaded_column_def blank_column_def reads_back_end)
  qed
qed

end
