(* ===== verification/Persist.thy ===== *)
theory Persist
  imports Codec TableChanges
begin

text \<open>
  The catalog saved and loaded, \<^verbatim>\<open>12_persist.c\<close>: every database's tables, page lists and indexes as
  bytes, those bytes in a chain of pages, and the reader of all versions of the format, which fills
  the engine as it goes.
\<close>

subsection \<open>Writing a database\<close>

definition MAX_INDEXES :: nat where "MAX_INDEXES = 64"

definition put_pages :: "heap option \<Rightarrow> writer" where
  "put_pages h =
     (case h of
        None \<Rightarrow> put_all [put_number 0, put_number 0]
      | Some h \<Rightarrow> put_all (put_number (npages h) #
          map (\<lambda>(pid, slots). put_all [put_number pid, put_number slots]) (zip (pageIds h) (pageSlots h)) @ [put_int (heapLive h)]))"

definition put_table :: "engine \<Rightarrow> table \<Rightarrow> writer" where
  "put_table e t = put_all
     (putString (tname t) # put_number (length (tcols t)) # map put_column (tcols t) @
      [putCondition (tcheck t), put_pages (heap_of e (tname t))])"

definition put_index :: "index \<Rightarrow> writer" where
  "put_index i = put_all
     [putString (index_name i), putString (index_table i), putString (index_column i), put_int (indexRootPage i), put_int (indexKeyCount i)]"

definition saveCurrentDatabase :: "engine \<Rightarrow> writer" where
  "saveCurrentDatabase e =
     (let tables = listTables (db_of e) MAX_TABLES (ecat e); ixs = listIndexes (db_of e) MAX_INDEXES (eindexes e)
      in put_all (put_number (length tables) # map (put_table e) tables @ put_number (length ixs) # map put_index ixs))"

definition select_db :: "nat \<Rightarrow> engine \<Rightarrow> engine" where
  "select_db k e = e\<lparr>edbs := selectDatabaseById k (edbs e)\<rparr>"

text \<open>The slots in use, in order; the current one is selected again at the end, so it does not change.\<close>

fun save_slots :: "engine \<Rightarrow> nat list \<Rightarrow> writer" where
  "save_slots e [] b = (True, b)"
| "save_slots e (d # ds) b =
     (if \<not> dused (edbs e) ! d then save_slots e ds b
      else case putString (dnames (edbs e) ! d) b of (False, b) \<Rightarrow> (False, b)
      | (True, b) \<Rightarrow> (case saveCurrentDatabase (select_db d e) b of (False, b) \<Rightarrow> (False, b) | (True, b) \<Rightarrow> save_slots e ds b))"

definition saveCatalog :: "engine \<Rightarrow> writer" where
  "saveCatalog e b =
     (case putString (currentDatabaseName (edbs e)) b of (False, b) \<Rightarrow> (False, b)
      | (True, b) \<Rightarrow>
          (case put_number (databaseCount (edbs e)) b of (False, b) \<Rightarrow> (False, b)
           | (True, b) \<Rightarrow> save_slots e [0..<MAX_DATABASES] b))"

subsection \<open>The chain of pages\<close>

definition INVALID_CATALOG :: int where "INVALID_CATALOG = -1"
definition CATALOG_HEADER :: nat where "CATALOG_HEADER = 8"
definition CATALOG_PAYLOAD :: nat where "CATALOG_PAYLOAD = PAGE_USABLE - CATALOG_HEADER"

definition pageU32 :: "page \<Rightarrow> nat \<Rightarrow> u32" where "pageU32 m at = getU32 at m"
definition setPageU32 :: "nat \<Rightarrow> u32 \<Rightarrow> page \<Rightarrow> page" where "setPageU32 at v m = putU32 at v m"

text \<open>A page for the chain, linked behind the one before it.\<close>

definition chain_page :: "int \<Rightarrow> pool \<Rightarrow> (error + int) \<times> pool" where
  "chain_page previous p =
     (case poolAllocate p of (Inl e, p) \<Rightarrow> (Inl e, p)
      | (Inr fresh, p) \<Rightarrow>
          (case poolPin (int fresh) p of (None, p) \<Rightarrow> (Inl ERROR_EXEC_OUT_OF_MEMORY, p)
           | (Some f, p) \<Rightarrow>
               let p = poolUnpin (int fresh) True (write_page f (\<lambda>m. setPageU32 4 0 (setPageU32 0 0xFFFFFFFF m)) p)
               in if previous = INVALID_CATALOG then (Inr (int fresh), p)
                  else (case poolPin previous p of (None, p) \<Rightarrow> (Inl ERROR_EXEC_OUT_OF_MEMORY, p)
                        | (Some f, p) \<Rightarrow>
                            (Inr (int fresh), poolUnpin previous True (write_page f (setPageU32 0 (of_nat fresh)) p)))))"

text \<open>The pages left over are given back, until one cannot be read.\<close>

partial_function (option) release_chain :: "int \<Rightarrow> pool \<Rightarrow> pool option" where
  [code]: "release_chain next p =
     (if next = INVALID_CATALOG then Some p
      else case poolPin next p of (None, p) \<Rightarrow> Some p
           | (Some f, p) \<Rightarrow>
               let following = sint (pageU32 (frame_page f p) 0)
               in release_chain following (poolFree (nat next) (poolUnpin next False p)))"

partial_function (option) write_chain :: "byte list \<Rightarrow> int \<Rightarrow> int \<Rightarrow> int \<Rightarrow> pool \<Rightarrow> ((error + int) \<times> pool) option" where
  [code]: "write_chain blob previous here head p =
     (case (if here = INVALID_CATALOG then chain_page previous p else (Inr here, p)) of
        (Inl e, p) \<Rightarrow> Some (Inl e, p)
      | (Inr here, p) \<Rightarrow>
          (case poolPin here p of (None, p) \<Rightarrow> Some (Inl ERROR_EXEC_OUT_OF_MEMORY, p)
           | (Some f, p) \<Rightarrow>
               let chunk = take CATALOG_PAYLOAD blob; rest = drop CATALOG_PAYLOAD blob;
                   p = write_page f (\<lambda>m. setPageU32 4 (of_nat (length chunk)) (put_bytes CATALOG_HEADER chunk m)) p;
                   next = sint (pageU32 (frame_page f p) 0); head = (if head = INVALID_CATALOG then here else head)
               in if rest = []
                  then do { p \<leftarrow> release_chain next (poolUnpin here True (write_page f (setPageU32 0 0xFFFFFFFF) p)); Some (Inr head, p) }
                  else write_chain rest here next head (poolUnpin here True p)))"

definition writeCatalogChain :: "byte list \<Rightarrow> int \<Rightarrow> pool \<Rightarrow> ((error + int) \<times> pool) option" where
  "writeCatalogChain blob rootp p = write_chain blob INVALID_CATALOG rootp INVALID_CATALOG p"

partial_function (option) readCatalogChain :: "int \<Rightarrow> buffer \<Rightarrow> pool \<Rightarrow> ((error + buffer) \<times> pool) option" where
  [code]: "readCatalogChain page b p =
     (if page < 0 then Some (Inr b, p)
      else case poolPin page p of (None, p) \<Rightarrow> Some (Inl ERROR_IO_BAD_FORMAT, p)
           | (Some f, p) \<Rightarrow>
               let used = unat (pageU32 (frame_page f p) 4); next = sint (pageU32 (frame_page f p) 0);
                   bytes = get_bytes CATALOG_HEADER used (frame_page f p); p = poolUnpin page False p
               in if used > PAGE_SIZE - CATALOG_HEADER then Some (Inl ERROR_IO_BAD_FORMAT, p)
                  else let (copied, b) = put_raw bytes b
                       in if \<not> copied then Some (Inl ERROR_EXEC_OUT_OF_MEMORY, p) else readCatalogChain next b p)"

subsection \<open>Reading a database\<close>

type_synonym 'a loading = "(engine \<times> byte list, 'a) action"

definition read :: "'a reader \<Rightarrow> 'a loading" where
  "read r = (\<lambda>(e, bs). case r bs of None \<Rightarrow> Some (Inl ERROR_IO_BAD_FORMAT, e, bs) | Some (x, bs) \<Rightarrow> Some (Inr x, e, bs))"

definition engine_does :: "'a step \<Rightarrow> 'a loading" where
  "engine_does m = (\<lambda>(e, bs). map_option (\<lambda>(r, e). (r, e, bs)) (m e))"

text \<open>Rows of the oldest files: an int as it is, any other type as text.\<close>

definition read_column :: "column \<Rightarrow> Value reader" where
  "read_column c bs =
     do { (null, bs) \<leftarrow> get_raw 1 bs;
          if hd null \<noteq> 0 then Some (setNull (ctype c), bs)
          else if ctype c = TYPE_INT then do { (n, bs) \<leftarrow> get_u32 bs; Some (blank_value\<lparr>intValue := n\<rparr>, bs) }
          else do { (text, bs) \<leftarrow> getString VALUE_LEN bs; Some (setText blank_value text, bs) } }"

fun read_columns :: "column list \<Rightarrow> Value list reader" where
  "read_columns [] bs = Some ([], bs)"
| "read_columns (c # cs) bs = do { (v, bs) \<leftarrow> read_column c bs; (vs, bs) \<leftarrow> read_columns cs bs; Some (v # vs, bs) }"

definition readRow :: "table \<Rightarrow> row reader" where
  "readRow t bs =
     do { (vs, bs) \<leftarrow> read_columns (tcols t) bs;
          Some (\<lparr>rvals = vs @ replicate (MAX_COLS - length vs) blank_value, ncols = length (tcols t), deleted = False\<rparr>, bs) }"

definition load_heap :: "string \<Rightarrow> (heap \<Rightarrow> pool \<Rightarrow> (error + unit) \<times> heap \<times> pool) \<Rightarrow> unit loading" where
  "load_heap name f = engine_does (\<lambda>e.
     case heap_of e name of None \<Rightarrow> Some (Inr (), e)
     | Some h \<Rightarrow> (case f h (epool e) of (r, h, p) \<Rightarrow> Some (r, put_heap name h (e\<lparr>epool := p\<rparr>))))"

text \<open>The page list of a table, page by page.\<close>

fun load_pages :: "string \<Rightarrow> nat \<Rightarrow> unit loading" where
  "load_pages name 0 = passed ()"
| "load_pages name (Suc n) =
     andDo (read get_u32) (\<lambda>pid. andDo (read get_u32) (\<lambda>slots.
     andDo (load_heap name (\<lambda>h p. case heapAdoptPage h (unat pid) (unat slots) of (r, h) \<Rightarrow> (r, h, p))) (\<lambda>_.
     load_pages name n)))"

fun load_rows :: "table \<Rightarrow> nat \<Rightarrow> unit loading" where
  "load_rows t 0 = passed ()"
| "load_rows t (Suc n) =
     andDo (read (readRow t)) (\<lambda>r.
     andDo (load_heap (tname t) (\<lambda>h p. case heapInsert h r p of (x, h, p) \<Rightarrow> (map_sum id (\<lambda>_. ()) x, h, p))) (\<lambda>_.
     load_rows t n))"

definition add_loaded :: "string \<Rightarrow> column list \<Rightarrow> condition \<Rightarrow> unit step" where
  "add_loaded name cols check e =
     map_option (\<lambda>(r, cat). (r, e\<lparr>ecat := cat\<rparr>))
       (addTable (memory (exec e) 1) (memory (exec e) 1) (db_of e) name cols (if present check then Some check else None) (ecat e))"

definition load_table :: "nat \<Rightarrow> unit loading" where
  "load_table version =
     andDo (read (getString NAME_LEN)) (\<lambda>name.
     andDo (read (get_below (MAX_COLS + 1))) (\<lambda>n.
     andDo (ensure (n \<noteq> 0) ERROR_IO_BAD_FORMAT) (\<lambda>_.
     andDo (read (get_many n (get_column (version \<ge> 6)))) (\<lambda>cols.
     andDo (if version \<ge> 6 then read getCondition else passed blank_condition) (\<lambda>check.
     andDo (engine_does (add_loaded name cols check)) (\<lambda>_.
     andDo (engine_does (create_heap name)) (\<lambda>_.
     if version \<ge> 3
     then andDo (read get_u32) (\<lambda>pages. andDo (load_pages name (unat pages)) (\<lambda>_.
          andDo (read get_int) (\<lambda>live. load_heap name (\<lambda>h p. (Inr (), heapSetLive h live, p)))))
     else andDo (read get_u32) (\<lambda>rows.
          reading (\<lambda>(e, _). case table_of e name of None \<Rightarrow> passed () | Some t \<Rightarrow> load_rows t (unat rows))))))))))"

definition load_index :: "nat \<Rightarrow> unit loading" where
  "load_index version =
     andDo (read (getString NAME_LEN)) (\<lambda>name. andDo (read (getString NAME_LEN)) (\<lambda>tab. andDo (read (getString NAME_LEN)) (\<lambda>col.
     reading (\<lambda>(e, _). case table_of e tab of None \<Rightarrow> failed ERROR_IO_BAD_FORMAT
       | Some t \<Rightarrow>
           let slot = findColumn t col; c = tcols t ! nat slot
           in if slot < 0 then failed ERROR_IO_BAD_FORMAT
              else if version \<ge> 4
              then andDo (read get_int) (\<lambda>root. andDo (read get_int) (\<lambda>keys.
                   engine_does (\<lambda>e. case adoptIndex (memory (exec e) 1) (db_of e) name (tname t) (cname c) slot root keys (eindexes e) of
                     (r, ix) \<Rightarrow> Some (r, e\<lparr>eindexes := ix\<rparr>))))
              else engine_does (create_index name (tname t) (cname c) (nat slot) (ctype c))))))"

fun repeat :: "nat \<Rightarrow> unit loading \<Rightarrow> unit loading" where
  "repeat 0 m = passed ()"
| "repeat (Suc n) m = andDo m (\<lambda>_. repeat n m)"

text \<open>Files that carry no trees: the indexes are filled from the rows.\<close>

fun rebuild_all :: "table list \<Rightarrow> unit step" where
  "rebuild_all [] = passed ()"
| "rebuild_all (t # ts) =
     reading (\<lambda>e. case heap_of e (tname t) of None \<Rightarrow> rebuild_all ts
       | Some h \<Rightarrow> andDo (rebuild_indexes (tname t) h) (\<lambda>_. rebuild_all ts))"

definition loadCurrentDatabase :: "nat \<Rightarrow> unit loading" where
  "loadCurrentDatabase version =
     andDo (read (get_below (MAX_TABLES + 1))) (\<lambda>n.
     andDo (repeat n (load_table version)) (\<lambda>_.
     andDo (read get_u32) (\<lambda>k.
     andDo (repeat (unat k) (load_index version)) (\<lambda>_.
     if version \<ge> 4 then passed ()
     else engine_does (\<lambda>e. rebuild_all (listTables (db_of e) MAX_TABLES (ecat e)) e)))))"

text \<open>Every database of the file, made when it is not there yet.\<close>

definition load_database :: "nat \<Rightarrow> unit loading" where
  "load_database version =
     andDo (read (getString NAME_LEN)) (\<lambda>name.
     andDo (engine_does (\<lambda>e. if findDatabase name (edbs e) \<ge> 0 then Some (Inr (), e)
              else case createDatabase name (edbs e) of (r, d) \<Rightarrow> Some (r, e\<lparr>edbs := d\<rparr>))) (\<lambda>_.
     andDo (changing (\<lambda>(e, bs). (select_db (nat (findDatabase name (edbs e))) e, bs))) (\<lambda>_.
     loadCurrentDatabase version)))"

end
