(* ===== verification/SaveLoad.thy ===== *)
theory SaveLoad
  imports Persist
begin

text \<open>
  A database saved and loaded: what \<open>saveCurrentDatabase\<close> writes, \<open>loadCurrentDatabase\<close> reads back into an
  empty database, table by table and index by index.
\<close>

subsection \<open>Loading what was written\<close>

definition loads :: "writer \<Rightarrow> 'a loading \<Rightarrow> engine \<Rightarrow> 'a \<Rightarrow> engine \<Rightarrow> bool" where
  "loads w m e x e' \<longleftrightarrow> (\<forall>b b'. w b = (True, b') \<longrightarrow>
     (\<exists>bs. bdata b' = bdata b @ bs \<and> (\<forall>rest. m (e, bs @ rest) = Some (Inr x, e', rest))))"

lemma loads_passed: "loads (put_all []) (passed x) e x e"
  by (simp add: loads_def)

lemma loads_seq:
  assumes "loads w m e x e1" "loads (put_all ws) (k x) e1 y e2"
  shows "loads (put_all (w # ws)) (andDo m k) e y e2"
proof -
  have "\<exists>bs. bdata b2 = bdata b @ bs \<and> (\<forall>rest. andDo m k (e, bs @ rest) = Some (Inr y, e2, rest))" if l: "put_all (w # ws) b = (True, b2)" for b b2
  proof -
    obtain b1 where b: "w b = (True, b1)" "put_all ws b1 = (True, b2)" using l by (auto split: prod.splits)
    obtain bs where bs: "bdata b1 = bdata b @ bs" "\<And>rest. m (e, bs @ rest) = Some (Inr x, e1, rest)" using assms(1) b(1) unfolding loads_def by blast
    obtain cs where cs: "bdata b2 = bdata b1 @ cs" "\<And>rest. k x (e1, cs @ rest) = Some (Inr y, e2, rest)" using assms(2) b(2) unfolding loads_def by blast
    show ?thesis using bs cs by (intro exI [of _ "bs @ cs"]) (simp add: andDo_def)
  qed
  then show ?thesis unfolding loads_def by blast
qed

lemma loads_reads: "reads_back w r x \<Longrightarrow> loads w (read r) e x e"
  unfolding loads_def reads_back_def read_def by fastforce

lemmas loads_read = loads_seq [OF loads_reads]

lemma loads_split: "loads (put_all [put_all ws, put_all vs]) m e x e' \<Longrightarrow> loads (put_all (ws @ vs)) m e x e'"
  unfolding loads_def using put_all_split [of ws vs] by (fastforce split: prod.splits)

lemma loads_single: "loads w m e x e' \<Longrightarrow> loads (put_all [w]) m e x e'"
  by (auto simp: loads_def split: prod.splits)

lemma loads_read_many:
  assumes "\<And>x. x \<in> set xs \<Longrightarrow> reads_back (w x) r (f x)" "loads (put_all ws) (k (map f xs)) e y e'"
  shows "loads (put_all (map w xs @ ws)) (andDo (read (get_many (length xs) r)) k) e y e'"
  by (rule loads_split, rule loads_read, rule reads_back_many [OF assms(1)]) (simp_all add: loads_single assms(2))

lemma loads_engine: "m e = Some (Inr x, e1) \<Longrightarrow> loads W (k x) e1 y e' \<Longrightarrow> loads W (andDo (engine_does m) k) e y e'"
  by (simp add: loads_def engine_does_def andDo_def)

lemma loads_ensure: "c \<Longrightarrow> loads W (k ()) e y e' \<Longrightarrow> loads W (andDo (ensure c err) k) e y e'"
  by (simp add: loads_def)

lemma loads_pass: "loads W (k x) e y e' \<Longrightarrow> loads W (andDo (passed x) k) e y e'"
  by simp

lemma loads_end: "loads W m e x e' \<Longrightarrow> loads W (andDo m passed) e x e'"
  unfolding loads_def andDo_def by fastforce

lemma put_all_pair: "put_all (put_all [v, w] # ws) = put_all (v # w # ws)"
  by (rule ext) (auto split: prod.split)

declare put_all.simps [simp del]

lemma put_u32_number: "n < 2 ^ 32 \<Longrightarrow> unat (of_nat n :: u32) = n"
  by (simp add: unat_of_nat)

lemma number_reads: "reads_back (put_number n) get_u32 (of_nat n)"
  unfolding put_number_def by (rule put_u32_reads)

subsection \<open>The page list\<close>

lemma heap_of_index: "heap_of e name = Some h \<longleftrightarrow>
    (\<exists>i. heap_index name (estore e (db_of e)) = Some i \<and> estore e (db_of e) ! i = h)"
  by (auto simp: heap_of_def findHeap_def split: option.splits)

lemma heap_index_same: "htable h' = htable (hs ! i) \<Longrightarrow> heap_index name (hs[i := h']) = heap_index name hs"
proof -
  assume h: "htable h' = htable (hs ! i)"
  have "htable (hs[i := h'] ! k) = htable (hs ! k)" for k
    using h by (cases "i < length hs"; cases "k = i") (auto simp: list_update_beyond)
  then show ?thesis by (simp add: heap_index_def)
qed

lemma heap_index_bound: "heap_index name hs = Some i \<Longrightarrow> i < length hs"
  by (auto simp: heap_index_def find_Some_iff)

lemma put_heap_found:
  assumes "heap_of e name = Some h" "htable h' = htable h"
  shows "heap_of (put_heap name h' e) name = Some h'" "put_heap name h2 (put_heap name h' e) = put_heap name h2 e"
proof -
  obtain i where i: "heap_index name (estore e (db_of e)) = Some i" "estore e (db_of e) ! i = h" using assms(1) by (auto simp: heap_of_index)
  then have "heap_index name ((estore e (db_of e))[i := h']) = Some i" "i < length (estore e (db_of e))"
    using assms(2) heap_index_same [of h' "estore e (db_of e)" i] heap_index_bound by auto
  then show "heap_of (put_heap name h' e) name = Some h'" "put_heap name h2 (put_heap name h' e) = put_heap name h2 e"
    using i(1) by (simp_all add: put_heap_def heap_of_def findHeap_def db_of_def)
qed

lemma put_heap_same: "heap_of e name = Some h \<Longrightarrow> put_heap name h e = e"
  by (auto simp: heap_of_index put_heap_def list_update_id)

fun adopted :: "(nat \<times> nat) list \<Rightarrow> heap \<Rightarrow> heap option" where
  "adopted [] h = Some h"
| "adopted ((pg, filled) # xs) h = (case heapAdoptPage h pg filled of (Inr _, h) \<Rightarrow> adopted xs h | (Inl _, _) \<Rightarrow> None)"

lemma heapAdoptPage_fields: "heapAdoptPage h pg filled = (Inr u, h') \<Longrightarrow>
    htable h' = htable h \<and> hlimit h' = hlimit h \<and> nlive h' = nlive h \<and> pageIds h' = pageIds h @ [pg] \<and> pageSlots h' = pageSlots h @ [filled]"
  by (auto simp: heapAdoptPage_def growPageList_def add_page_def Let_def split: prod.splits sum.splits if_splits)

lemma heapAdoptPage_room:
  assumes "npages h \<le> hcapacity h" "2 * (npages h + k) + 8 \<le> hlimit h" "0 < k"
  shows "\<exists>h'. heapAdoptPage h pg filled = (Inr (), h') \<and> npages h' \<le> hcapacity h' \<and> 2 * (npages h' + (k - 1)) + 8 \<le> hlimit h'"
  using assms by (auto simp: heapAdoptPage_def growPageList_def add_page_def npages_def Let_def)

lemma adopted_room:
  "\<lbrakk>npages h \<le> hcapacity h; 2 * (npages h + length xs) + 8 \<le> hlimit h\<rbrakk> \<Longrightarrow>
   \<exists>h'. adopted xs h = Some h' \<and> htable h' = htable h \<and> nlive h' = nlive h \<and>
        pageIds h' = pageIds h @ map fst xs \<and> pageSlots h' = pageSlots h @ map snd xs"
proof (induction xs arbitrary: h)
  case (Cons x xs)
  obtain pg filled where x: "x = (pg, filled)" by (cases x)
  obtain h1 where h1: "heapAdoptPage h pg filled = (Inr (), h1)" "npages h1 \<le> hcapacity h1" "2 * (npages h1 + length xs) + 8 \<le> hlimit h1"
    using heapAdoptPage_room [OF Cons.prems, of pg filled] by auto
  show ?case using Cons.IH [OF h1(2,3)] heapAdoptPage_fields [OF h1(1)] x h1(1) by auto
qed simp

lemma loads_pages:
  "\<lbrakk>heap_of e name = Some h; adopted xs h = Some h'; \<forall>(pg, filled) \<in> set xs. pg < 2 ^ 32 \<and> filled < 2 ^ 32\<rbrakk> \<Longrightarrow>
   loads (put_all (map (\<lambda>(pg, filled). put_all [put_number pg, put_number filled]) xs)) (load_pages name (length xs)) e () (put_heap name h' e)"
proof (induction xs arbitrary: e h)
  case Nil
  then show ?case by (simp add: put_heap_same loads_def put_all.simps)
next
  case (Cons x xs)
  obtain pg filled where x: "x = (pg, filled)" by (cases x)
  obtain h1 where h1: "heapAdoptPage h pg filled = (Inr (), h1)" "adopted xs h1 = Some h'"
    using Cons.prems(2) x by (auto split: prod.splits sum.splits)
  note f = heapAdoptPage_fields [OF h1(1)] and n = put_u32_number [of pg] put_u32_number [of filled]
  have step: "load_heap name (\<lambda>h p. case heapAdoptPage h (unat (of_nat pg :: u32)) (unat (of_nat filled :: u32)) of (r, h) \<Rightarrow> (r, h, p)) (e, bs) =
      Some (Inr (), put_heap name h1 e, bs)" for bs
    using Cons.prems(1,3) x h1(1) n by (simp add: load_heap_def engine_does_def)
  have "loads (put_all (map (\<lambda>(pg, filled). put_all [put_number pg, put_number filled]) xs)) (load_pages name (length xs)) (put_heap name h1 e) ()
      (put_heap name h' (put_heap name h1 e))"
    by (rule Cons.IH [OF put_heap_found(1) [OF Cons.prems(1) conjunct1 [OF f]] h1(2)]) (use Cons.prems(3) in simp)
  then have rest: "loads (put_all (map (\<lambda>(pg, filled). put_all [put_number pg, put_number filled]) xs))
      (andDo (load_heap name (\<lambda>h p. case heapAdoptPage h (unat (of_nat pg :: u32)) (unat (of_nat filled :: u32)) of (r, h) \<Rightarrow> (r, h, p)))
        (\<lambda>_. load_pages name (length xs))) e () (put_heap name h' e)"
    using put_heap_found(2) [OF Cons.prems(1)] f step by (simp add: loads_def andDo_def)
  have "loads (put_all ([put_number pg, put_number filled] @ map (\<lambda>(pg, filled). put_all [put_number pg, put_number filled]) xs))
      (load_pages name (Suc (length xs))) e () (put_heap name h' e)"
    unfolding load_pages.simps append_Cons append_Nil put_number_def
    by (intro loads_read [OF put_u32_reads] rest [unfolded put_number_def])
  then show ?case using x by (simp add: put_all_pair)
qed

subsection \<open>A table\<close>

text \<open>
  What a loaded table is: its columns and its CHECK as they read back, the CHECK bound again. A table
  can be saved when all of it fits the file's fields; its CHECK binds, as the parser's all do.
\<close>

definition unbound :: "table \<Rightarrow> table" where
  "unbound t = \<lparr>tname = tname t, tcols = map reloaded_column (tcols t), tcheck = None\<rparr>"

definition rebound :: "table \<Rightarrow> condition \<Rightarrow> exprpool option" where
  "rebound t c = bind_operands (unbound t) (cnodes (reloaded_check c)) (cexprs (reloaded_check c)) []"

definition reloaded_table :: "table \<Rightarrow> table" where
  "reloaded_table t = (unbound t)\<lparr>tcheck := map_option (\<lambda>c. (reloaded_check c)\<lparr>cexprs := the (rebound t c)\<rparr>) (tcheck t)\<rparr>"

definition table_savable :: "table \<Rightarrow> bool" where
  "table_savable t \<longleftrightarrow> clean_text NAME_LEN (tname t) \<and> tcols t \<noteq> [] \<and> length (tcols t) \<le> MAX_COLS \<and> list_all column_ok (tcols t) \<and>
     (\<forall>c. tcheck t = Some c \<longrightarrow> check_ok c \<and> rebound t c \<noteq> None)"

definition heap_savable :: "nat \<Rightarrow> heap \<Rightarrow> bool" where
  "heap_savable limit h \<longleftrightarrow> length (pageSlots h) = npages h \<and> 2 * npages h + 8 \<le> limit \<and> npages h < 2 ^ 32 \<and> fits_int (nlive h) \<and>
     (\<forall>pg \<in> set (pageIds h). pg < 2 ^ 32) \<and> (\<forall>n \<in> set (pageSlots h). n < 2 ^ 32)"

definition empty_heap :: "nat \<Rightarrow> string \<Rightarrow> heap" where
  "empty_heap limit name = \<lparr>htable = name, pageIds = [], pageSlots = [], hcapacity = 0, nlive = 0, nslots = 0, hlimit = limit\<rparr>"

definition page_list :: "heap option \<Rightarrow> (nat \<times> nat) list" where
  "page_list h = (case h of None \<Rightarrow> [] | Some h \<Rightarrow> zip (pageIds h) (pageSlots h))"

definition live_of :: "heap option \<Rightarrow> int" where "live_of h = (case h of None \<Rightarrow> 0 | Some h \<Rightarrow> nlive h)"

definition loaded_heap :: "nat \<Rightarrow> string \<Rightarrow> heap option \<Rightarrow> heap" where
  "loaded_heap limit name h = heapSetLive (the (adopted (page_list h) (empty_heap limit name))) (live_of h)"

definition install :: "engine \<Rightarrow> engine \<Rightarrow> table \<Rightarrow> engine" where
  "install old e t =
     e\<lparr>ecat := push_table (db_of e) (hashName (tname t)) (reloaded_table t) (ecat e),
       estore := (estore e)(db_of e := estore e (db_of e) @ [loaded_heap (heapLimit (exec e)) (tname t) (heap_of old (tname t))])\<rparr>"

lemma check_reads:
  assumes "\<And>c. tcheck t = Some c \<Longrightarrow> check_ok c"
  shows "reads_back (putCondition (tcheck t)) getCondition (case tcheck t of None \<Rightarrow> blank_condition | Some c \<Rightarrow> reloaded_check c)"
proof (cases "tcheck t")
  case None
  then show ?thesis
    by (simp add: putCondition_def put_u32_def put_raw_reads getCondition_def u32_bytes_read)
next
  case (Some c)
  then show ?thesis using putCondition_reads [OF assms [OF Some]] by simp
qed

lemma pages_written:
  assumes "\<And>h'. h = Some h' \<Longrightarrow> heap_savable limit h'"
  shows "put_pages h = put_all (put_number (length (page_list h)) #
    map (\<lambda>(pg, n). put_all [put_number pg, put_number n]) (page_list h) @ [put_int (live_of h)])"
  using assms
  by (cases h) (auto simp: put_pages_def page_list_def live_of_def heap_savable_def npages_def heapLive_def put_int_def put_number_def)

lemma heap_index_last: "heap_index name hs = None \<Longrightarrow> stricmp (htable h) name \<Longrightarrow> heap_index name (hs @ [h]) = Some (length hs)"
proof -
  assume n: "heap_index name hs = None" and h: "stricmp (htable h) name"
  have "\<not> stricmp (htable (hs ! i)) name" if "i < length hs" for i
    using n that by (simp add: heap_index_None heap_key)
  then have "\<not> stricmp (htable ((hs @ [h]) ! i)) name" if "i < length hs" for i using that by (simp add: nth_append)
  then show ?thesis using h unfolding heap_index_def find_Some_iff by (intro exI [of _ "length hs"]) (simp add: nth_append)
qed

text \<open>The engine with one heap more in its current database.\<close>

definition with_heap :: "engine \<Rightarrow> heap \<Rightarrow> engine" where
  "with_heap e h = e\<lparr>estore := (estore e)(db_of e := estore e (db_of e) @ [h])\<rparr>"

lemma with_heap_of:
  assumes "heap_of e name = None" "stricmp (htable h) name"
  shows "heap_of (with_heap e h) name = Some h" "put_heap name h' (with_heap e h) = with_heap e h'"
proof -
  have "heap_index name (estore e (db_of e)) = None" using assms(1) by (auto simp: heap_of_def findHeap_def split: option.splits)
  then have "heap_index name (estore e (db_of e) @ [h]) = Some (length (estore e (db_of e)))" by (rule heap_index_last [OF _ assms(2)])
  then show "heap_of (with_heap e h) name = Some h" "put_heap name h' (with_heap e h) = with_heap e h'"
    by (simp_all add: heap_of_def findHeap_def put_heap_def with_heap_def db_of_def)
qed

lemma create_heap_loaded:
  assumes "memory (exec e) 1" "length (estore e (db_of e)) < MAX_TABLES" "length name < NAME_LEN"
  shows "create_heap name e = Some (Inr (), with_heap e (empty_heap (heapLimit (exec e)) name))"
  using assms by (simp add: create_heap_def createHeap_def with_heap_def empty_heap_def Let_def)

lemma add_loaded_table:
  assumes "memory (exec e) 1" "table_savable t"
  shows "add_loaded (tname t) (map reloaded_column (tcols t)) (case tcheck t of None \<Rightarrow> blank_condition | Some c \<Rightarrow> reloaded_check c) e =
    Some (Inr (), e\<lparr>ecat := push_table (db_of e) (hashName (tname t)) (reloaded_table t) (ecat e)\<rparr>)"
proof (cases "tcheck t")
  case None
  then show ?thesis
    using assms by (simp add: add_loaded_def addTable_def table_savable_def blank_condition_def reloaded_table_def unbound_def clean_text_def)
next
  case (Some c)
  then obtain pool where "rebound t c = Some pool" "check_ok c" using assms(2) by (auto simp: table_savable_def)
  moreover have "present (reloaded_check c)" using \<open>check_ok c\<close> by (simp add: check_ok_def reloaded_check_def)
  ultimately show ?thesis
    using assms Some by (simp add: add_loaded_def addTable_def table_savable_def reloaded_table_def unbound_def rebound_def clean_text_def)
qed

lemma adopted_page_list:
  assumes "\<And>h'. h = Some h' \<Longrightarrow> heap_savable limit h'" "8 \<le> limit"
  shows "\<exists>h'. adopted (page_list h) (empty_heap limit name) = Some h' \<and> htable h' = name \<and>
    pageIds h' = map fst (page_list h) \<and> pageSlots h' = map snd (page_list h)"
proof -
  have "2 * length (page_list h) + 8 \<le> limit"
    using assms by (cases h) (auto simp: page_list_def heap_savable_def npages_def)
  then show ?thesis using adopted_room [of "empty_heap limit name" "page_list h"] by (auto simp: empty_heap_def npages_def)
qed

lemma loads_table:
  assumes t: "table_savable t" and h: "\<And>h'. heap_of old (tname t) = Some h' \<Longrightarrow> heap_savable (heapLimit (exec e)) h'"
    and e: "heap_of e (tname t) = None" "length (estore e (db_of e)) < MAX_TABLES" "memory (exec e) 1" "8 \<le> heapLimit (exec e)"
  shows "loads (put_table old t) (load_table 8) e () (install old e t)"
proof -
  let ?e1 = "e\<lparr>ecat := push_table (db_of e) (hashName (tname t)) (reloaded_table t) (ecat e)\<rparr>"
  let ?l = "heapLimit (exec e)" and ?ho = "heap_of old (tname t)" and ?name = "tname t"
  let ?xs = "page_list ?ho"
  have n: "clean_text NAME_LEN ?name" "length ?name < NAME_LEN" "length (tcols t) < MAX_COLS + 1" "tcols t \<noteq> []"
    using t by (auto simp: table_savable_def clean_text_def)
  have cols: "reads_back (put_column c) (get_column True) (reloaded_column c)" if "c \<in> set (tcols t)" for c
    using t that put_column_reads by (auto simp: table_savable_def list_all_iff)
  obtain h' where h': "adopted ?xs (empty_heap ?l ?name) = Some h'" "htable h' = ?name"
    using adopted_page_list [OF h e(4)] by metis
  have e1: "heap_of ?e1 ?name = None" using e(1) by (simp add: heap_of_def db_of_def)
  have pw: "put_pages ?ho = put_all (put_number (length ?xs) # map (\<lambda>(pg, n). put_all [put_number pg, put_number n]) ?xs @ [put_int (live_of ?ho)])"
    by (rule pages_written) (rule h)
  have em: "stricmp (htable (empty_heap ?l ?name)) ?name" by (simp add: empty_heap_def)
  have sizes: "length ?xs < 2 ^ 32" "fits_int (live_of ?ho)" "\<forall>(pg, n) \<in> set ?xs. pg < 2 ^ 32 \<and> n < 2 ^ 32"
    using h by (cases ?ho; force simp: page_list_def live_of_def heap_savable_def npages_def fits_int_def dest: set_zip_leftD set_zip_rightD)+
  have live: "load_heap ?name (\<lambda>h p. (Inr (), heapSetLive h (live_of ?ho), p)) (with_heap ?e1 h', bs) = Some (Inr (), install old e t, bs)" for bs
    using with_heap_of [OF e1, of h'] h' by (simp add: load_heap_def engine_does_def install_def with_heap_def loaded_heap_def db_of_def)
  have "loads (put_all [put_int (live_of ?ho)]) (andDo (read get_int) (\<lambda>live. load_heap ?name (\<lambda>h p. (Inr (), heapSetLive h live, p))))
      (with_heap ?e1 h') () (install old e t)"
    by (rule loads_read [OF put_int_reads [OF sizes(2)]]) (simp add: loads_def put_all.simps live)
  moreover have "loads (put_all (map (\<lambda>(pg, n). put_all [put_number pg, put_number n]) ?xs)) (load_pages ?name (length ?xs))
      (with_heap ?e1 (empty_heap ?l ?name)) () (with_heap ?e1 h')"
    using loads_pages [OF with_heap_of(1) [OF e1 em] h'(1) sizes(3)] unfolding with_heap_of(2) [OF e1 em] .
  ultimately have "loads (put_all (map (\<lambda>(pg, n). put_all [put_number pg, put_number n]) ?xs @ [put_int (live_of ?ho)]))
      (andDo (load_pages ?name (length ?xs)) (\<lambda>_. andDo (read get_int) (\<lambda>live. load_heap ?name (\<lambda>h p. (Inr (), heapSetLive h live, p)))))
      (with_heap ?e1 (empty_heap ?l ?name)) () (install old e t)"
    by (intro loads_split loads_seq [OF _ loads_single])
  then have pages: "loads (put_all [put_pages ?ho])
      (andDo (read get_u32) (\<lambda>pages. andDo (load_pages ?name (unat pages)) (\<lambda>_.
          andDo (read get_int) (\<lambda>live. load_heap ?name (\<lambda>h p. (Inr (), heapSetLive h live, p))))))
      (with_heap ?e1 (empty_heap ?l ?name)) () (install old e t)"
    unfolding pw
    by (intro loads_single loads_read [OF number_reads]) (simp_all only: put_u32_number [OF sizes(1)])
  have c: "create_heap ?name ?e1 = Some (Inr (), with_heap ?e1 (empty_heap ?l ?name))"
    using create_heap_loaded [of ?e1 ?name] e(2,3) n(2) by (simp add: db_of_def)
  have a: "add_loaded ?name (map reloaded_column (tcols t)) (case tcheck t of None \<Rightarrow> blank_condition | Some c \<Rightarrow> reloaded_check c) e = Some (Inr (), ?e1)"
    by (rule add_loaded_table [OF e(3) t])
  show ?thesis
    unfolding put_table_def load_table_def
    apply (rule loads_read [OF putString_reads [OF n(1)]])
     apply (simp add: NAME_LEN_def)
    apply (rule loads_read [OF put_number_reads [OF n(3)]])
     apply (simp add: MAX_COLS_def)
    apply (rule loads_ensure)
     apply (simp add: n(4))
    apply (simp only: order_refl if_True numeral_le_iff semiring_norm)
    apply (rule loads_read_many [OF cols], assumption)
    apply (rule loads_read [OF check_reads])
    subgoal using t by (simp add: table_savable_def)
    apply (rule loads_engine, rule a)
    apply (rule loads_engine, rule c)
    apply (rule pages)
    done
qed

subsection \<open>The tables of a database\<close>

abbreviation lower_name :: "table \<Rightarrow> string" where "lower_name t \<equiv> map to_lower (tname t)"

lemma loaded_heap_fields:
  assumes "\<And>h'. h = Some h' \<Longrightarrow> heap_savable limit h'" "8 \<le> limit"
  shows "htable (loaded_heap limit name h) = name" "nlive (loaded_heap limit name h) = live_of h"
    "pageIds (loaded_heap limit name h) = map fst (page_list h)" "pageSlots (loaded_heap limit name h) = map snd (page_list h)"
  using adopted_page_list [of h limit name, OF assms] by (auto simp: loaded_heap_def heapSetLive_def)

lemma reloaded_name [simp]: "tname (reloaded_table t) = tname t"
  by (simp add: reloaded_table_def unbound_def)

lemma install_same [simp]:
  "db_of (install old e t) = db_of e" "exec (install old e t) = exec e" "epool (install old e t) = epool e"
  "edbs (install old e t) = edbs e" "eindexes (install old e t) = eindexes e"
  by (simp_all add: install_def db_of_def)

lemma install_heap:
  assumes "\<forall>h'. heap_of old (tname t) = Some h' \<longrightarrow> heap_savable (heapLimit (exec e)) h'" "8 \<le> heapLimit (exec e)" "heap_of e (tname t) = None"
  shows "heap_of (install old e t) name = (if map to_lower name = lower_name t
      then Some (loaded_heap (heapLimit (exec e)) (tname t) (heap_of old (tname t))) else heap_of e name)"
proof -
  let ?h = "loaded_heap (heapLimit (exec e)) (tname t) (heap_of old (tname t))" and ?hs = "estore e (db_of e)"
  have n: "htable ?h = tname t" by (rule loaded_heap_fields(1)) (use assms(1,2) in auto)
  have hs: "estore (install old e t) (db_of e) = ?hs @ [?h]" by (simp add: install_def)
  show ?thesis
  proof (cases "map to_lower name = lower_name t")
    case True
    have "heap_index name ?hs = None" using assms(3) True by (auto simp: heap_of_def findHeap_def heap_index_None split: option.splits)
    from heap_index_last [OF this, of ?h] show ?thesis using True n hs by (simp add: heap_of_def findHeap_def stricmp_def)
  next
    case False
    have none: "heap_index name (?hs @ [?h]) = None \<longleftrightarrow> heap_index name ?hs = None" using False n by (auto simp: heap_index_None)
    show ?thesis
    proof (cases "heap_index name ?hs")
      case None
      then show ?thesis using False none hs by (simp add: heap_of_def findHeap_def)
    next
      case (Some i)
      then have i: "i < length ?hs" "stricmp (htable (?hs ! i)) name" "\<forall>j < i. \<not> stricmp (htable (?hs ! j)) name"
        by (auto simp: heap_index_def find_Some_iff)
      then have "heap_index name (?hs @ [?h]) = Some i"
        unfolding heap_index_def find_Some_iff by (intro exI [of _ i]) (simp add: nth_append)
      then show ?thesis using Some False i(1) hs by (simp add: heap_of_def findHeap_def nth_append)
    qed
  qed
qed

lemma install_table:
  "table_of (install old e t) name = (if map to_lower name = lower_name t then Some (reloaded_table t) else table_of e name)"
proof (cases "stricmp (tname t) name")
  case True
  then show ?thesis using hashName_same [OF True]
    by (simp add: table_of_def findTable_def install_def push_table_def set_bucket_def named_def db_of_def stricmp_def)
next
  case False
  then show ?thesis
    by (auto simp: table_of_def findTable_def install_def push_table_def set_bucket_def named_def db_of_def stricmp_def)
qed

definition tables_savable :: "engine \<Rightarrow> nat \<Rightarrow> table list \<Rightarrow> bool" where
  "tables_savable old limit ts \<longleftrightarrow> distinct (map lower_name ts) \<and> 8 \<le> limit \<and>
     (\<forall>t \<in> set ts. table_savable t \<and> (\<forall>h. heap_of old (tname t) = Some h \<longrightarrow> heap_savable limit h))"

lemma loads_tables:
  "\<lbrakk>tables_savable old (heapLimit (exec e)) ts; \<forall>t \<in> set ts. heap_of e (tname t) = None;
    length (estore e (db_of e)) + length ts \<le> MAX_TABLES; memory (exec e) 1\<rbrakk> \<Longrightarrow>
   loads (put_all (map (put_table old) ts)) (repeat (length ts) (load_table 8)) e () (foldl (install old) e ts)"
proof (induction ts arbitrary: e)
  case Nil
  then show ?case by (simp add: loads_def put_all.simps)
next
  case (Cons t ts)
  have t: "table_savable t" "8 \<le> heapLimit (exec e)" and h: "\<forall>h'. heap_of old (tname t) = Some h' \<longrightarrow> heap_savable (heapLimit (exec e)) h'"
    and n: "heap_of e (tname t) = None"
    using Cons.prems(1,2) by (auto simp: tables_savable_def)
  have "loads (put_table old t) (load_table 8) e () (install old e t)"
    using Cons.prems t h by (intro loads_table) auto
  moreover have "heap_of (install old e t) (tname u) = None" if "u \<in> set ts" for u
    using install_heap [OF h t(2) n, of "tname u"] Cons.prems(1,2) that by (auto simp: tables_savable_def image_iff)
  then have "loads (put_all (map (put_table old) ts)) (repeat (length ts) (load_table 8)) (install old e t) () (foldl (install old) (install old e t) ts)"
    using Cons.prems by (intro Cons.IH) (auto simp: tables_savable_def install_def db_of_def)
  ultimately show ?case by (simp add: loads_seq)
qed

lemma installed_same [simp]:
  "db_of (foldl (install old) e ts) = db_of e" "exec (foldl (install old) e ts) = exec e" "epool (foldl (install old) e ts) = epool e"
  "edbs (foldl (install old) e ts) = edbs e" "eindexes (foldl (install old) e ts) = eindexes e"
  by (induction ts arbitrary: e) simp_all

lemma installed_table:
  "distinct (map lower_name ts) \<Longrightarrow> t \<in> set ts \<Longrightarrow> map to_lower name = lower_name t \<Longrightarrow> table_of (foldl (install old) e ts) name = Some (reloaded_table t)"
proof (induction ts rule: rev_induct)
  case (snoc u us)
  then show ?case by (cases "lower_name t = lower_name u") (auto simp: install_table image_iff)
qed simp

lemma installed_heap:
  "\<lbrakk>tables_savable old (heapLimit (exec e)) ts; \<forall>t \<in> set ts. heap_of e (tname t) = None\<rbrakk> \<Longrightarrow>
   heap_of (foldl (install old) e ts) name = (case List.find (\<lambda>t. lower_name t = map to_lower name) ts of
     Some t \<Rightarrow> Some (loaded_heap (heapLimit (exec e)) (tname t) (heap_of old (tname t))) | None \<Rightarrow> heap_of e name)"
proof (induction ts arbitrary: e)
  case (Cons t ts)
  have t: "8 \<le> heapLimit (exec e)" and h: "\<forall>h'. heap_of old (tname t) = Some h' \<longrightarrow> heap_savable (heapLimit (exec e)) h'"
    using Cons.prems(1) by (auto simp: tables_savable_def)
  have n: "heap_of e (tname t) = None" using Cons.prems(2) by simp
  note i = install_heap [OF h t n]
  have "heap_of (install old e t) (tname u) = None" if "u \<in> set ts" for u
    using i [of "tname u"] Cons.prems that by (auto simp: tables_savable_def image_iff)
  then have IH: "heap_of (foldl (install old) (install old e t) ts) name = (case List.find (\<lambda>t. lower_name t = map to_lower name) ts of
     Some t \<Rightarrow> Some (loaded_heap (heapLimit (exec e)) (tname t) (heap_of old (tname t))) | None \<Rightarrow> heap_of (install old e t) name)"
    using Cons.IH [of "install old e t"] Cons.prems(1) by (simp add: tables_savable_def split: option.split)
  have "List.find (\<lambda>t. lower_name t = map to_lower name) ts = None" if "lower_name t = map to_lower name"
    using Cons.prems(1) that by (auto simp: tables_savable_def find_None_iff image_iff)
  then show ?case using IH i [of name] by (auto split: option.splits)
qed simp

subsection \<open>The indexes\<close>

lemma column_at_names: "map cname cs = map cname ds \<Longrightarrow> column_at same cs i = column_at same ds i"
proof (induction cs arbitrary: ds i)
  case (Cons c cs)
  then show ?case by (cases ds) auto
qed simp

lemma bare_column_names: "map cname cs = map cname ds \<Longrightarrow> bare_column name cs i found = bare_column name ds i found"
proof (induction cs arbitrary: ds i found)
  case (Cons c cs)
  then show ?case by (cases ds) auto
qed simp

lemma findColumn_names: "map cname (tcols t) = map cname (tcols u) \<Longrightarrow> tname t = tname u \<Longrightarrow> findColumn t name = findColumn u name"
  unfolding findColumn_def using column_at_names [of "tcols t" "tcols u"] bare_column_names [of "tcols t" "tcols u"]
  by (simp add: Let_def split: option.split)

text \<open>An index that names a column of one of the tables, as the code makes them.\<close>

definition index_savable :: "table list \<Rightarrow> index \<Rightarrow> bool" where
  "index_savable ts i \<longleftrightarrow> clean_text NAME_LEN (index_name i) \<and> clean_text NAME_LEN (index_table i) \<and> clean_text NAME_LEN (index_column i) \<and>
     fits_int (rootPage i) \<and> fits_int (keyCount i) \<and>
     (\<exists>t \<in> set ts. tname t = index_table i \<and> 0 \<le> index_slot i \<and> index_slot i < int (length (tcols t)) \<and>
        findColumn t (index_column i) = index_slot i \<and> cname (tcols t ! nat (index_slot i)) = index_column i)"

definition adopt_index :: "engine \<Rightarrow> index \<Rightarrow> engine" where
  "adopt_index e i = e\<lparr>eindexes := (eindexes e)(db_of e := i # eindexes e (db_of e))\<rparr>"

lemma loads_index:
  assumes i: "index_savable ts i" and t: "\<And>t. t \<in> set ts \<Longrightarrow> table_of e (tname t) = Some (reloaded_table t)" and m: "memory (exec e) 1"
  shows "loads (put_index i) (load_index 8) e () (adopt_index e i)"
proof -
  obtain t where t1: "t \<in> set ts" "tname t = index_table i" "0 \<le> index_slot i" "index_slot i < int (length (tcols t))"
      "findColumn t (index_column i) = index_slot i" "cname (tcols t ! nat (index_slot i)) = index_column i"
    using i by (auto simp: index_savable_def)
  let ?t = "reloaded_table t"
  have cols: "tcols ?t = map reloaded_column (tcols t)" "map cname (tcols ?t) = map cname (tcols t)"
    by (simp_all add: reloaded_table_def unbound_def reloaded_column_def)
  have slot: "findColumn ?t (index_column i) = index_slot i" using findColumn_names [OF cols(2)] t1(5) by simp
  have name: "cname (tcols ?t ! nat (index_slot i)) = index_column i"
    using t1(3,4,6) by (simp add: cols(1) reloaded_column_def)
  have tab: "table_of e (index_table i) = Some ?t" using t [OF t1(1)] t1(2) by simp
  have n: "clean_text NAME_LEN (index_name i)" "clean_text NAME_LEN (index_table i)" "clean_text NAME_LEN (index_column i)"
    "fits_int (rootPage i)" "fits_int (keyCount i)" using i by (simp_all add: index_savable_def)
  have new: "new_index (index_name i) (index_table i) (index_column i) (index_slot i) (rootPage i) (keyCount i) = i"
    using n by (simp add: new_index_def clean_text_def)
  have adopt: "adoptIndex (memory (exec e) 1) (db_of e) (index_name i) (tname ?t) (cname (tcols ?t ! nat (index_slot i))) (index_slot i)
      (rootPage i) (keyCount i) (eindexes e) = (Inr (), eindexes (adopt_index e i))"
    unfolding name using m t1(2) new by (simp add: adoptIndex_def adopt_index_def)
  have step: "engine_does (\<lambda>e. case adoptIndex (memory (exec e) 1) (db_of e) (index_name i) (tname ?t) (cname (tcols ?t ! nat (index_slot i))) (index_slot i)
      (rootPage i) (keyCount i) (eindexes e) of (r, ix) \<Rightarrow> Some (r, e\<lparr>eindexes := ix\<rparr>)) (e, bs) = Some (Inr (), adopt_index e i, bs)" for bs
    unfolding engine_does_def prod.case adopt by (simp add: adopt_index_def)
  have "loads (put_all [put_int (indexRootPage i), put_int (indexKeyCount i)])
      (andDo (read get_int) (\<lambda>root. andDo (read get_int) (\<lambda>keys.
         engine_does (\<lambda>e. case adoptIndex (memory (exec e) 1) (db_of e) (index_name i) (tname ?t) (cname (tcols ?t ! nat (index_slot i))) (index_slot i) root keys (eindexes e) of
           (r, ix) \<Rightarrow> Some (r, e\<lparr>eindexes := ix\<rparr>))))) e () (adopt_index e i)"
    unfolding indexRootPage_def indexKeyCount_def
    by (intro loads_read [OF put_int_reads] n) (unfold loads_def step, simp add: put_all.simps)
  then have "loads (put_all [put_int (indexRootPage i), put_int (indexKeyCount i)])
      (reading (\<lambda>(e, _). case table_of e (index_table i) of None \<Rightarrow> failed ERROR_IO_BAD_FORMAT
       | Some t \<Rightarrow>
           let slot = findColumn t (index_column i); c = tcols t ! nat slot
           in if slot < 0 then failed ERROR_IO_BAD_FORMAT
              else if (8 :: nat) \<ge> 4
              then andDo (read get_int) (\<lambda>root. andDo (read get_int) (\<lambda>keys.
                   engine_does (\<lambda>e. case adoptIndex (memory (exec e) 1) (db_of e) (index_name i) (tname t) (cname c) slot root keys (eindexes e) of
                     (r, ix) \<Rightarrow> Some (r, e\<lparr>eindexes := ix\<rparr>))))
              else engine_does (create_index (index_name i) (tname t) (cname c) (nat slot) (ctype c)))) e () (adopt_index e i)"
    using t1(3) by (simp add: loads_def tab slot Let_def)
  then show ?thesis
    unfolding put_index_def load_index_def
    by (intro loads_read [OF putString_reads] n) (simp_all add: NAME_LEN_def)
qed

lemma adopt_same [simp]:
  "exec (adopt_index e i) = exec e" "table_of (adopt_index e i) name = table_of e name" "heap_of (adopt_index e i) name = heap_of e name"
  "db_of (adopt_index e i) = db_of e" "epool (adopt_index e i) = epool e" "edbs (adopt_index e i) = edbs e"
  by (simp_all add: adopt_index_def table_of_def heap_of_def db_of_def)

lemma loads_indexes:
  "\<lbrakk>\<forall>i \<in> set is. index_savable ts i; \<And>t. t \<in> set ts \<Longrightarrow> table_of e (tname t) = Some (reloaded_table t); memory (exec e) 1\<rbrakk> \<Longrightarrow>
   loads (put_all (map put_index is)) (repeat (length is) (load_index 8)) e () (foldl adopt_index e is)"
proof (induction "is" arbitrary: e)
  case Nil
  then show ?case by (simp add: loads_def put_all.simps)
next
  case (Cons i "is")
  have "loads (put_index i) (load_index 8) e () (adopt_index e i)" using Cons.prems by (intro loads_index) auto
  moreover have "loads (put_all (map put_index is)) (repeat (length is) (load_index 8)) (adopt_index e i) () (foldl adopt_index (adopt_index e i) is)"
    using Cons.prems by (intro Cons.IH) auto
  ultimately show ?case by (simp add: loads_seq)
qed

lemma adopted_same [simp]:
  "table_of (foldl adopt_index e is) name = table_of e name" "heap_of (foldl adopt_index e is) name = heap_of e name"
  "epool (foldl adopt_index e is) = epool e" "edbs (foldl adopt_index e is) = edbs e" "db_of (foldl adopt_index e is) = db_of e"
  by (induction "is" arbitrary: e) simp_all

lemma adopted_indexes: "eindexes (foldl adopt_index e is) (db_of e) = rev is @ eindexes e (db_of e)"
proof (induction "is" arbitrary: e)
  case (Cons i "is")
  then show ?case using Cons.IH [of "adopt_index e i"] by simp (simp add: adopt_index_def)
qed simp

subsection \<open>The database\<close>

definition database_savable :: "engine \<Rightarrow> nat \<Rightarrow> bool" where
  "database_savable old limit \<longleftrightarrow>
     (let ts = listTables (db_of old) MAX_TABLES (ecat old)
      in tables_savable old limit ts \<and> (\<forall>i \<in> set (listIndexes (db_of old) MAX_INDEXES (eindexes old)). index_savable ts i))"

text \<open>The loaded heap has the pages of the saved one, with as many slots of each in use and as many live rows.\<close>

definition same_pages :: "heap \<Rightarrow> heap \<Rightarrow> bool" where
  "same_pages h h0 \<longleftrightarrow> pageIds h = pageIds h0 \<and> pageSlots h = pageSlots h0 \<and> nlive h = nlive h0"

definition no_tables :: "engine \<Rightarrow> bool" where
  "no_tables e \<longleftrightarrow> (\<forall>name. heap_of e name = None) \<and> estore e (db_of e) = [] \<and> eindexes e (db_of e) = []"


text \<open>With memory enough a database can always be written.\<close>

definition always_written :: "writer \<Rightarrow> bool" where
  "always_written w \<longleftrightarrow> (\<forall>b. bmemory b = (\<lambda>_. True) \<longrightarrow> (\<exists>b'. w b = (True, b') \<and> bmemory b' = (\<lambda>_. True)))"

lemma put_raw_always: "always_written (put_raw bs)"
  by (simp add: always_written_def put_raw_def bufReserve_def Let_def)

lemma always_all: "\<forall>w \<in> set ws. always_written w \<Longrightarrow> always_written (put_all ws)"
proof (induction ws)
  case (Cons w ws)
  have "always_written (put_all ws)" "always_written w" using Cons by auto
  then show ?case unfolding always_written_def put_all.simps by (fastforce split: prod.splits)
qed (simp add: always_written_def put_all.simps)

lemma always_now: "always_written w \<Longrightarrow> bmemory b = (\<lambda>_. True) \<Longrightarrow> \<exists>b'. w b = (True, b') \<and> bmemory b' = (\<lambda>_. True)"
  by (simp add: always_written_def)

lemma putString_always: "always_written (putString s)"
proof -
  have "\<exists>b'. putString s b = (True, b') \<and> bmemory b' = (\<lambda>_. True)" if m: "bmemory b = (\<lambda>_. True)" for b
  proof -
    obtain b1 where b1: "put_u32 (of_nat (length s)) b = (True, b1)" "bmemory b1 = (\<lambda>_. True)"
      using always_now [OF put_raw_always m] unfolding put_u32_def by blast
    show ?thesis using always_now [OF put_raw_always b1(2), of "map byte_of_char s"] b1(1) by (simp add: putString_def)
  qed
  then show ?thesis by (simp add: always_written_def)
qed

lemmas always = put_raw_always putString_always always_all

lemma field_always: "always_written (put_u32 v)" "always_written (put_int n)" "always_written (put_number k)" "always_written (putValue x)"
  by (auto simp: put_u32_def put_int_def put_number_def putValue_def intro!: always)

lemma schema_always: "always_written (put_column c)" "always_written (putCondition check)"
  by (auto simp: put_column_def putCondition_def put_node_def put_operand_def field_always intro!: always split: option.split if_splits)

lemma database_always: "always_written (saveCurrentDatabase old)"
  by (auto simp: saveCurrentDatabase_def Let_def put_table_def put_index_def put_pages_def field_always schema_always
      intro!: always split: option.split prod.split)

definition saved_table :: table where
  "saved_table = \<lparr>tname = ''t'', tcols = [blank_column\<lparr>cname := ''a'', hasDefault := True, defaultValue := blank_value\<lparr>intValue := 7\<rparr>\<rparr>], tcheck = None\<rparr>"

definition saved_engine :: engine where
  "saved_engine = (InitEngine (\<lambda>_. True) blank_value 100 demo_wal 4 4 4)
     \<lparr>ecat := push_table 0 (hashName ''t'') saved_table initCatalog,
      estore := (\<lambda>_. [])(0 := [\<lparr>htable = ''t'', pageIds = [5, 9], pageSlots = [3, 1], hcapacity = 8, nlive = 2, nslots = 4, hlimit = 100\<rparr>]),
      eindexes := (\<lambda>_. [])(0 := [\<lparr>index_name = ''i'', index_table = ''t'', index_column = ''a'', index_slot = 0, rootPage = 6, keyCount = 2\<rparr>])\<rparr>"

lemma saved_lists:
  "listTables 0 MAX_TABLES (push_table 0 (hashName ''t'') saved_table initCatalog) = [saved_table]"
proof -
  have h: "hashName ''t'' < CATALOG_SIZE" by (rule hashName_bucket)
  have "concat (map (\<lambda>b. if b = k then [x] else []) [0..<n]) = (if k < n then [x] else [])" for k n and x :: table
    by (induction n) auto
  moreover have "push_table 0 (hashName ''t'') saved_table initCatalog 0 = (\<lambda>b. if b = hashName ''t'' then [saved_table] else [])"
    by (rule ext) (simp add: push_table_def set_bucket_def initCatalog_def)
  ultimately show ?thesis using h by (simp add: listTables_def MAX_TABLES_def)
qed

lemma saved_engine_savable: "database_savable saved_engine 100"
proof -
  have db: "db_of saved_engine = 0" by (simp add: saved_engine_def db_of_def InitEngine_def initDatabases_def currentDatabaseId_def)
  have ts: "listTables (db_of saved_engine) MAX_TABLES (ecat saved_engine) = [saved_table]"
    unfolding db using saved_lists by (simp add: saved_engine_def)
  have "table_savable saved_table"
    by (simp add: table_savable_def saved_table_def clean_text_def NAME_LEN_def MAX_COLS_def column_ok_def blank_column_def fits_int_def value_ok_def blank_value_def)
  moreover have "heap_savable 100 h" if "heap_of saved_engine (tname saved_table) = Some h" for h
    using that db by (auto simp: saved_engine_def saved_table_def heap_of_def findHeap_def heap_index_def stricmp_def heap_savable_def npages_def fits_int_def)
  moreover have "findColumn saved_table ''a'' = 0" by (simp add: findColumn_def saved_table_def blank_column_def stricmp_def)
  then have "\<forall>i \<in> set (listIndexes 0 MAX_INDEXES (eindexes saved_engine)). index_savable [saved_table] i"
    by (simp add: saved_engine_def listIndexes_def MAX_INDEXES_def index_savable_def clean_text_def NAME_LEN_def fits_int_def saved_table_def blank_column_def)
  ultimately show ?thesis unfolding database_savable_def Let_def ts by (simp add: tables_savable_def db)
qed


end
