(* ===== verification/Controller.thy ===== *)
theory Controller
  imports Persist Semantic Queries Sessions Lexer Statements
begin

text \<open>
  The program around the engine: the file a session works on, opened, saved and closed, and its
  transactions, \<^verbatim>\<open>12_persist.c\<close>; the dispatch of a statement, \<^verbatim>\<open>06_executor.c\<close>; and one statement through
  the whole pipeline, \<^verbatim>\<open>10_controller.c\<close>. A path names a file; the streams the pool and the log hold
  are theirs, and what they wrote is in the file when it is opened again.
\<close>

subsection \<open>The program\<close>

text \<open>
  \<open>pfiles\<close> are the files by path, \<open>ppage\<close> is the path the pool's stream was opened with. \<open>popens k\<close> says whether
  the \<open>k\<close>-th opening of a file that is there succeeds, \<open>pcreates k\<close> what the \<open>k\<close>-th creation of a new one yields,
  \<open>prenames k\<close> whether the \<open>k\<close>-th renaming does. \<open>parena k\<close> is whether the text of token \<open>k\<close> can be held.
\<close>

record program =
  peng :: engine
  ptransaction :: bool
  ppages :: int
  pschema :: bool
  ppath :: string
  proot :: int
  pholding :: bool
  pfiles :: "string \<Rightarrow> fhandle option"
  ppage :: string
  popens :: "nat \<Rightarrow> bool"
  pcreates :: "nat \<Rightarrow> (nat \<Rightarrow> nat option) option"
  prenames :: "nat \<Rightarrow> bool"
  pcalls :: nat
  parena :: "nat \<Rightarrow> bool"

type_synonym 'a run = "(program, 'a) action"

definition on_engine :: "'a step \<Rightarrow> 'a run" where
  "on_engine m s = map_option (\<lambda>(r, e). (r, s\<lparr>peng := e\<rparr>)) (m (peng s))"

definition on_pool :: "(pool \<Rightarrow> (error + 'a) \<times> pool) \<Rightarrow> 'a run" where
  "on_pool f s = (case f (epool (peng s)) of (r, p) \<Rightarrow> Some (r, s\<lparr>peng := (peng s)\<lparr>epool := p\<rparr>\<rparr>))"

definition set_pool :: "(pool \<Rightarrow> pool) \<Rightarrow> program \<Rightarrow> program" where
  "set_pool f s = s\<lparr>peng := (peng s)\<lparr>epool := f (epool (peng s))\<rparr>\<rparr>"

definition count_open :: "program \<Rightarrow> program" where "count_open s = s\<lparr>pcalls := pcalls s + 1\<rparr>"

text \<open>What the pool's stream wrote is in its file.\<close>

definition settle :: "program \<Rightarrow> program" where
  "settle s = (case pageFile (epool (peng s)) of None \<Rightarrow> s | Some f \<Rightarrow> s\<lparr>pfiles := (pfiles s)(ppage s \<mapsto> f)\<rparr>)"

definition fopen :: "string \<Rightarrow> program \<Rightarrow> fhandle option \<times> program" where
  "fopen path s =
     (let s = settle s
      in (if popens s (pcalls s) then map_option (\<lambda>f. f\<lparr>fpos := 0\<rparr>) (pfiles s path) else None, count_open s))"

definition log_of :: "program \<Rightarrow> wal" where "log_of s = plog (epool (peng s))"

definition set_log :: "wal \<Rightarrow> program \<Rightarrow> program" where "set_log w = set_pool (\<lambda>p. p\<lparr>plog := w\<rparr>)"

subsection \<open>Committing and opening\<close>

definition commitDatabase :: "unit run" where
  "commitDatabase =
     reading (\<lambda>s.
       if \<not> walIsOpen (log_of s) \<or> (\<not> poolHasDirty (epool (peng s)) \<and> \<not> pschema s) then passed ()
       else let (written, b) = saveCatalog (peng s) (blank_buffer (memory (exec (peng s))))
            in if \<not> written then failed ERROR_EXEC_OUT_OF_MEMORY
               else andDo (trying (\<lambda>s. map_option (\<lambda>(r, p). (r, set_pool (\<lambda>_. p) s)) (writeCatalogChain (bdata b) (proot s) (epool (peng s))))) (\<lambda>rootp.
                    andDo (changing (\<lambda>s. set_pool (poolSetCatalogRoot rootp) (s\<lparr>proot := rootp\<rparr>))) (\<lambda>_.
                    andDo (on_pool poolCommit) (\<lambda>_.
                    changing (\<lambda>s. s\<lparr>pschema := False\<rparr>)))))"

text \<open>The log at the path, when there is one, is opened where it ends.\<close>

definition openForWrite :: "string \<Rightarrow> unit run" where
  "openForWrite path s =
     (case fopen path s of
        (None, s) \<Rightarrow> Some (Inl ERROR_IO_CANNOT_OPEN, s)
      | (Some f, s) \<Rightarrow>
          let s = (set_pool (\<lambda>p. poolSetCatalogRoot (proot s) (poolSetChecksums True (poolSetWritable (Some f) (pageCount p) p))) s)
                    \<lparr>ppage := path, ppath := take (VALUE_LEN - 1) path\<rparr>
          in (case walOpen path (pfiles s (walName path)) (log_of s) of (r, w) \<Rightarrow> Some (r, set_log w s)))"

definition closeDatabase :: "unit run" where
  "closeDatabase =
     andDo (on_pool poolCheckpoint) (\<lambda>_. changing (\<lambda>s.
       if walIsOpen (log_of s)
       then set_log (walClose (log_of s)) (s\<lparr>pfiles := (pfiles s)(walName (walDatabase (log_of s)) := None)\<rparr>) else s))"

subsection \<open>Loading\<close>

text \<open>Rows of older pages reach into the trailer: every heap is written afresh.\<close>

definition compact_table :: "table \<Rightarrow> unit step" where
  "compact_table t =
     reading (\<lambda>e. case heap_of e (tname t) of None \<Rightarrow> passed ()
       | Some h \<Rightarrow> andDo (compact_heap h) (\<lambda>h. rebuild_indexes (tname t) h))"

fun each_table :: "table list \<Rightarrow> unit step" where
  "each_table [] = passed ()"
| "each_table (t # ts) = andDo (compact_table t) (\<lambda>_. each_table ts)"

fun reserve_slots :: "nat list \<Rightarrow> unit step" where
  "reserve_slots [] = passed ()"
| "reserve_slots (d # ds) =
     andDo (reading (\<lambda>e. if \<not> dused (edbs e) ! d then passed ()
       else andDo (changing (select_db d)) (\<lambda>_. reading (\<lambda>e. each_table (listTables (db_of e) MAX_TABLES (ecat e)))))) (\<lambda>_.
     reserve_slots ds)"

definition reservePageTrailers :: "unit step" where
  "reservePageTrailers =
     reading (\<lambda>e. let restoreTo = db_of e
       in caught (reserve_slots [0..<MAX_DATABASES]) (\<lambda>r. andDo (changing (select_db restoreTo)) (\<lambda>_. yielding r)))"

text \<open>The engine as it is before a file is read into it.\<close>

definition emptied :: "engine \<Rightarrow> engine" where
  "emptied e =
     (let (st, p) = freeStorage (estore e, epool e)
      in e\<lparr>eindexes := initIndexes, ecat := initCatalog, estore := initStorage, edbs := initDatabases (edbs e),
           epool := poolClear p\<rparr>)"

definition header_version :: "memory \<Rightarrow> error + nat" where
  "header_version head =
     (if get_bytes 0 8 head \<noteq> SAVE_MAGIC then Inl ERROR_IO_BAD_FORMAT
      else let version = unat (getU32 8 head)
           in if version > 8 \<or> version < 1 then Inl ERROR_IO_VERSION else Inr version)"

definition readTail :: "nat \<Rightarrow> fhandle \<Rightarrow> buffer \<Rightarrow> error + buffer" where
  "readTail start f b =
     (let (found, f) = fseek_end f
      in if \<not> found \<or> fsize f < start then Inl ERROR_IO_BAD_FORMAT
         else let n = fsize f - start; (room, b) = bufReserve n b
              in if \<not> room then Inl ERROR_EXEC_OUT_OF_MEMORY
                 else let (found, f) = fseek_set start f
                      in if \<not> found then Inl ERROR_IO_BAD_FORMAT
                         else if n = 0 then Inr b
                         else (case fst (fread n f) of None \<Rightarrow> Inl ERROR_IO_BAD_FORMAT
                               | Some m \<Rightarrow> Inr (b\<lparr>bdata := get_bytes 0 n m\<rparr>)))"

definition load_all :: "nat \<Rightarrow> string loading" where
  "load_all version =
     (if version = 1
      then andDo (changing (\<lambda>(e, bs). (select_db 0 e, bs))) (\<lambda>_. andDo (loadCurrentDatabase 1) (\<lambda>_. passed DEFAULT_DB_NAME))
      else andDo (read (getString NAME_LEN)) (\<lambda>name.
           andDo (read (get_below (MAX_DATABASES + 1))) (\<lambda>total.
           andDo (repeat total (load_database version)) (\<lambda>_. passed name))))"

text \<open>
  A catalog whose first names cannot be read leaves the path and the root as they were; any other
  outcome sets both. \<open>read_blob\<close> is the catalog's bytes, in a chain of pages or behind the pages.
\<close>

definition read_blob :: "nat \<Rightarrow> nat \<Rightarrow> int \<Rightarrow> fhandle \<Rightarrow> buffer run" where
  "read_blob version pages chain f =
     reading (\<lambda>s. let b = blank_buffer (memory (exec (peng s)))
       in if version \<ge> 5
          then trying (\<lambda>s. map_option (\<lambda>(r, p). (r, set_pool (\<lambda>_. p) s)) (readCatalogChain chain b (epool (peng s))))
          else yielding (readTail (if version < 3 then 12 else PAGE_SIZE * (pages + 1)) f b))"

definition names_readable :: "nat \<Rightarrow> byte list \<Rightarrow> bool" where
  "names_readable version blob \<longleftrightarrow>
     version = 1 \<or> (do { (_, bs) \<leftarrow> getString NAME_LEN blob; get_below (MAX_DATABASES + 1) bs }) \<noteq> None"

definition use_or_default :: "string \<Rightarrow> engine \<Rightarrow> engine" where
  "use_or_default name e =
     (case useDatabase name (edbs e) of (Inr _, d) \<Rightarrow> e\<lparr>edbs := d\<rparr> | (Inl _, d) \<Rightarrow> e\<lparr>edbs := selectDatabaseById 0 d\<rparr>)"

definition load_blob :: "string \<Rightarrow> nat \<Rightarrow> int \<Rightarrow> byte list \<Rightarrow> unit run" where
  "load_blob path version chain blob =
     (if \<not> names_readable version blob then failed ERROR_IO_BAD_FORMAT
      else let rootp = (if version \<ge> 5 then chain else INVALID_CATALOG)
           in caught (trying (\<lambda>s. map_option (\<lambda>(r, e, _). (r, s\<lparr>peng := e\<rparr>)) (load_all version (peng s, blob)))) (\<lambda>r.
              andDo (changing (\<lambda>s. set_pool (poolSetCatalogRoot rootp)
                       (s\<lparr>ppath := (if version \<ge> 3 then take (VALUE_LEN - 1) path else []), proot := rootp\<rparr>))) (\<lambda>_.
              andDo (yielding r) (\<lambda>name.
              andDo (if version < 7 then on_engine reservePageTrailers else passed ()) (\<lambda>_.
              changing (\<lambda>s. s\<lparr>peng := use_or_default name (peng s)\<rparr>))))))"

text \<open>The first 24 bytes: the version, and from it on the number of pages and the head of the chain.\<close>

definition load_opened :: "string \<Rightarrow> fhandle \<Rightarrow> unit run" where
  "load_opened path f =
     (case fread 24 f of
        (None, f) \<Rightarrow> failed ERROR_IO_BAD_FORMAT
      | (Some head, f) \<Rightarrow>
          (case header_version head of
             Inl err \<Rightarrow> failed err
           | Inr version \<Rightarrow>
               let pages = unat (getU32 12 head); chain = sint (getU32 16 head)
               in andDo (changing (\<lambda>s. (settle s)\<lparr>peng := emptied (peng s)\<rparr>)) (\<lambda>_.
                  andDo (if version < 3 then passed ()
                         else (\<lambda>s. case fopen path s of
                                (None, s) \<Rightarrow> Some (Inl ERROR_IO_CANNOT_OPEN, s)
                              | (Some g, s) \<Rightarrow> Some (Inr (), (set_pool (poolSetChecksums (version \<ge> 7) \<circ> poolAdopt g pages) s)\<lparr>ppage := path\<rparr>))) (\<lambda>_.
                  andDo (read_blob version pages chain f) (\<lambda>b.
                  load_blob path version chain (bdata b))))))"

definition loadDatabase :: "string \<Rightarrow> unit run" where
  "loadDatabase path =
     andDo (reading (\<lambda>s. if walIsOpen (log_of s) then caught closeDatabase (\<lambda>_. passed ()) else passed ())) (\<lambda>_ s.
     case fopen path s of
       (None, s) \<Rightarrow> Some (Inl ERROR_IO_CANNOT_OPEN, s)
     | (Some f, s) \<Rightarrow> load_opened path f s)"

subsection \<open>Saving to a path\<close>

definition file_header :: "nat \<Rightarrow> int \<Rightarrow> memory" where
  "file_header pages chain =
     putU32 16 (of_int chain) (putU32 12 (of_nat pages) (put_bytes 0 (SAVE_MAGIC @ [SAVE_VERSION]) (\<lambda>_. 0)))"

text \<open>The new file, written whole; a part that fails leaves none.\<close>

definition write_copy :: "(nat \<Rightarrow> nat option) \<Rightarrow> program \<Rightarrow> (error + fhandle) \<times> program" where
  "write_copy fs s =
     (let p = epool (peng s); (done1, f) = fwrite (file_header (pageCount p) (proot s)) PAGE_SIZE (empty_file fs)
      in if \<not> done1 then (Inl ERROR_IO_WRITE, s)
         else case poolWriteAll f p of (r, f, p) \<Rightarrow>
           let s = set_pool (\<lambda>_. p) s
           in case r of Inl err \<Rightarrow> (Inl err, s)
              | Inr _ \<Rightarrow>
                  (case walSyncHandle (Some f) of
                     (Inl _, _) \<Rightarrow> (Inl ERROR_IO_WRITE, s)
                   | (Inr _, None) \<Rightarrow> (Inl ERROR_IO_WRITE, s)
                   | (Inr _, Some f) \<Rightarrow> (if fault_now f = None then (Inr (count_call f), s) else (Inl ERROR_IO_WRITE, s))))"

definition reopenPageFile :: "string \<Rightarrow> bool \<Rightarrow> program \<Rightarrow> program" where
  "reopenPageFile path writing s =
     (case fopen path s of (None, s) \<Rightarrow> s
      | (Some f, s) \<Rightarrow>
          (set_pool (\<lambda>p. if writing then poolSetWritable (Some f) (pageCount p) p else poolAdopt f (pageCount p) p) s)\<lparr>ppage := path\<rparr>)"

definition replace_file :: "string \<Rightarrow> fhandle \<Rightarrow> program \<Rightarrow> bool \<times> program" where
  "replace_file path f s =
     (let renamed = prenames s (pcalls s); s = count_open s
      in (renamed, if renamed then s\<lparr>pfiles := (pfiles s)(path \<mapsto> f)\<rparr> else s))"

definition discard_log :: "string \<Rightarrow> program \<Rightarrow> program" where
  "discard_log path s =
     (case walDiscard path (log_of s) of (gone, w) \<Rightarrow>
        set_log w (if gone then s\<lparr>pfiles := (pfiles s)(walName path := None)\<rparr> else s))"

definition put_in_place :: "string \<Rightarrow> fhandle \<Rightarrow> program \<Rightarrow> (error + unit) \<times> program" where
  "put_in_place path f s =
     (let replacing = (ppath s \<noteq> [] \<and> stricmp (ppath s) path); writing = writable (epool (peng s));
          s = (if replacing then set_pool poolDetachFile (settle s) else s);
          (renamed, s) = replace_file path f s
      in if \<not> renamed then (Inl ERROR_IO_WRITE, if replacing then reopenPageFile path writing s else s)
         else let s = (if replacing \<or> \<not> writable (epool (peng s)) then set_pool poolMarkAllClean s else s);
                  s = (if replacing then set_pool (poolSetChecksums True) (reopenPageFile path writing s) else s)
              in (Inr (), discard_log path s))"

definition saveDatabase :: "string \<Rightarrow> unit run" where
  "saveDatabase path =
     reading (\<lambda>s.
       let (written, b) = saveCatalog (peng s) (blank_buffer (memory (exec (peng s))))
       in if \<not> written then failed ERROR_EXEC_OUT_OF_MEMORY
          else andDo (trying (\<lambda>s. map_option (\<lambda>(r, p). (r, set_pool (\<lambda>_. p) s)) (writeCatalogChain (bdata b) (proot s) (epool (peng s))))) (\<lambda>rootp.
               andDo (changing (\<lambda>s. s\<lparr>proot := rootp\<rparr>)) (\<lambda>_.
               if length path + 4 \<ge> VALUE_LEN then failed ERROR_IO_CANNOT_OPEN
               else reading (\<lambda>s. case pcreates s (pcalls s) of None \<Rightarrow> andDo (changing count_open) (\<lambda>_. failed ERROR_IO_CANNOT_OPEN)
                    | Some fs \<Rightarrow> andDo (changing count_open) (\<lambda>_. andDo (stepping (write_copy fs)) (\<lambda>f. stepping (put_in_place path f)))))))"

subsection \<open>Transactions\<close>

definition markSchemaChanged :: "unit run" where "markSchemaChanged = changing (\<lambda>s. s\<lparr>pschema := True\<rparr>)"
definition inTransaction :: "program \<Rightarrow> bool" where "inTransaction s = ptransaction s"

definition beginTransaction :: "unit run" where
  "beginTransaction =
     reading (\<lambda>s. if ptransaction s then failed ERROR_EXEC_TRANSACTION_ACTIVE
       else andDo (on_pool poolCheckpoint) (\<lambda>_.
            changing (\<lambda>s. s\<lparr>ppages := int (pageCount (epool (peng s))), ptransaction := True\<rparr>)))"

definition commitTransaction :: "unit run" where
  "commitTransaction =
     reading (\<lambda>s. if \<not> ptransaction s then failed ERROR_EXEC_NO_TRANSACTION else changing (\<lambda>s. s\<lparr>ptransaction := False\<rparr>))"

definition rollbackTransaction :: "unit run" where
  "rollbackTransaction =
     reading (\<lambda>s. if \<not> ptransaction s then failed ERROR_EXEC_NO_TRANSACTION
       else andDo (changing (\<lambda>s. s\<lparr>pschema := False\<rparr>)) (\<lambda>_.
            if ppath s = [] then failed ERROR_EXEC_CANNOT_ROLLBACK
            else let path = ppath s; hadLog = walIsOpen (log_of s)
                 in andDo (changing (\<lambda>s. set_pool (poolRollback (ppages s)) (s\<lparr>ptransaction := False\<rparr>))) (\<lambda>_.
                    andDo (loadDatabase path) (\<lambda>_.
                    if hadLog then openForWrite path else passed ()))))"

definition abandonTransaction :: "unit run" where
  "abandonTransaction =
     reading (\<lambda>s. if \<not> ptransaction s then passed ()
       else caught rollbackTransaction (\<lambda>r. case r of Inr _ \<Rightarrow> passed () | Inl _ \<Rightarrow> changing (\<lambda>s. s\<lparr>ptransaction := False\<rparr>)))"

subsection \<open>Running a statement\<close>

definition said :: "string \<Rightarrow> resultset \<Rightarrow> resultset run" where "said text out = passed (out\<lparr>message := text\<rparr>)"

definition on_databases :: "(databases \<Rightarrow> (error + unit) \<times> databases) \<Rightarrow> unit step" where
  "on_databases f e = (case f (edbs e) of (r, d) \<Rightarrow> Some (r, e\<lparr>edbs := d\<rparr>))"

definition dispatch :: "statement \<Rightarrow> resultset \<Rightarrow> resultset run" where
  "dispatch stmt out =
     (case stmt of
        STMT_CREATE_TABLE x \<Rightarrow> on_engine (executeCreate x out)
      | STMT_CREATE_INDEX x \<Rightarrow> on_engine (executeCreateIndex x out)
      | STMT_INSERT x \<Rightarrow> on_engine (executeInsert x out)
      | STMT_SELECT x \<Rightarrow> on_engine (executeSelect x out)
      | STMT_DELETE x \<Rightarrow> on_engine (executeDelete x out)
      | STMT_UPDATE x \<Rightarrow> on_engine (executeUpdate x out)
      | STMT_VACUUM name \<Rightarrow> on_engine (executeVacuum name out)
      | STMT_ALTER_TABLE x \<Rightarrow> on_engine (executeAlter x out)
      | STMT_CREATE_DATABASE name \<Rightarrow>
          andDo (on_engine (on_databases (createDatabase name))) (\<lambda>_. said (''database '' @ name @ '' created'') out)
      | STMT_USE_DATABASE name \<Rightarrow>
          andDo (on_engine (on_databases (useDatabase name))) (\<lambda>_.
          reading (\<lambda>s. said (''using database '' @ currentDatabaseName (edbs (peng s))) out))
      | STMT_DROP_DATABASE name \<Rightarrow> on_engine (executeDropDatabase name out)
      | STMT_DROP_TABLE name \<Rightarrow> on_engine (executeDropTable name out)
      | STMT_DROP_INDEX name \<Rightarrow> on_engine (executeDropIndex name out)
      | STMT_BEGIN \<Rightarrow> andDo beginTransaction (\<lambda>_. said ''transaction started'' out)
      | STMT_COMMIT \<Rightarrow> andDo commitTransaction (\<lambda>_. said ''transaction committed'' out)
      | STMT_ROLLBACK \<Rightarrow> andDo rollbackTransaction (\<lambda>_. said ''transaction rolled back'' out))"

definition executeStatement :: "subqueries \<Rightarrow> statement \<Rightarrow> resultset \<Rightarrow> resultset run" where
  "executeStatement subs stmt out =
     andDo (if subqueryTotal subs > 0 then on_engine (materialiseSubqueries subs) else passed ()) (\<lambda>_. dispatch stmt out)"

subsection \<open>One statement\<close>

definition readsOnly :: "statement \<Rightarrow> bool" where
  "readsOnly stmt = (case stmt of STMT_SELECT _ \<Rightarrow> True | _ \<Rightarrow> False)"

definition changes_schema :: "statement \<Rightarrow> bool" where
  "changes_schema stmt =
     (case stmt of STMT_CREATE_TABLE _ \<Rightarrow> True | STMT_DROP_TABLE _ \<Rightarrow> True | STMT_CREATE_INDEX _ \<Rightarrow> True | STMT_DROP_INDEX _ \<Rightarrow> True
      | STMT_ALTER_TABLE _ \<Rightarrow> True | STMT_VACUUM _ \<Rightarrow> True | STMT_CREATE_DATABASE _ \<Rightarrow> True | STMT_DROP_DATABASE _ \<Rightarrow> True | _ \<Rightarrow> False)"

definition check_statement :: "subqueries \<Rightarrow> statement \<Rightarrow> (subqueries \<times> statement) run" where
  "check_statement subs stmt s =
     map_option (\<lambda>(r, subs, unres). (map_sum id (Pair subs) r, s\<lparr>peng := set_exec (\<lambda>x. x\<lparr>unresolved := unres\<rparr>) (peng s)\<rparr>))
       (semanticCheck (peng s) stmt (subs, unresolved (exec (peng s))))"

text \<open>Checked, run and, when it is not part of a transaction and may have written, committed.\<close>

definition run_statement :: "bool \<Rightarrow> subqueries \<Rightarrow> statement \<Rightarrow> resultset run" where
  "run_statement shared subs stmt =
     andDo (check_statement subs stmt) (\<lambda>(subs, stmt).
     reading (\<lambda>s. let damaged = poolCorruptCount (epool (peng s))
       in andDo (executeStatement subs stmt blank_result) (\<lambda>out.
          andDo (reading (\<lambda>s. ensure (poolCorruptCount (epool (peng s)) = damaged) ERROR_IO_CHECKSUM)) (\<lambda>_.
          andDo (if changes_schema stmt then markSchemaChanged else passed ()) (\<lambda>_.
          andDo (reading (\<lambda>s. if \<not> shared \<and> \<not> inTransaction s then commitDatabase else passed ())) (\<lambda>_.
          passed out))))))"

text \<open>With the locks: waiting for one is not returning.\<close>

definition locked :: "thread \<Rightarrow> subqueries \<Rightarrow> statement \<Rightarrow> program \<times> locks \<Rightarrow> ((error + resultset) \<times> program \<times> locks) option" where
  "locked t subs stmt = (\<lambda>(s, l).
     do { (shared, l) \<leftarrow> take_lock t (pholding s) (readsOnly stmt) l;
          (r, s) \<leftarrow> run_statement shared subs stmt s;
          let (held, l) = give_back t (pholding s) shared (inTransaction s) l;
          Some (r, s\<lparr>pholding := held\<rparr>, l) })"

definition ProcessStatement :: "thread \<Rightarrow> string \<Rightarrow> program \<times> locks \<Rightarrow> ((error + resultset) \<times> program \<times> locks) option" where
  "ProcessStatement t sql = (\<lambda>(s, l).
     case tokenizeStatement (parena s) sql of
       Inl err \<Rightarrow> Some (Inl err, s, l)
     | Inr toks \<Rightarrow>
         if toks = [] then Some (Inr blank_result, s, l)
         else do { r \<leftarrow> parseStatement toks resetSubqueries;
                   case r of Inl err \<Rightarrow> Some (Inl err, s, l)
                   | Inr (None, _) \<Rightarrow> Some (Inl GENERAL_ERROR, s, l)
                   | Inr (Some stmt, subs) \<Rightarrow> locked t subs stmt (s, l) })"

definition engineInTransaction :: "program \<Rightarrow> bool" where "engineInTransaction s = pholding s"

definition engineReleaseTransaction :: "thread \<Rightarrow> program \<times> locks \<Rightarrow> program \<times> locks" where
  "engineReleaseTransaction t = (\<lambda>(s, l). if \<not> pholding s then (s, l) else (s\<lparr>pholding := False\<rparr>, engineWriteUnlock t l))"

subsection \<open>A session at the prompt\<close>

text \<open>The file a session writes at its end, and whether a log is attached: \<^verbatim>\<open>main.c\<close>.\<close>

record shell =
  sprog :: program
  sessionPath :: string
  usingLog :: bool

type_synonym 'a shell_run = "(shell, 'a) action"

definition on_program :: "'a run \<Rightarrow> 'a shell_run" where
  "on_program m sh = map_option (\<lambda>(r, s). (r, sh\<lparr>sprog := s\<rparr>)) (m (sprog sh))"

definition attachLog :: "string \<Rightarrow> bool \<Rightarrow> unit shell_run" where
  "attachLog path fresh =
     andDo (changing (\<lambda>sh. sh\<lparr>usingLog := False\<rparr>)) (\<lambda>_.
     reading (\<lambda>sh. if \<not> fresh \<and> ppath (sprog sh) = [] then passed ()
       else case fopen path (sprog sh) of (f, s) \<Rightarrow>
         andDo (changing (\<lambda>sh. sh\<lparr>sprog := s\<rparr>)) (\<lambda>_.
         if \<not> isPageFile f then passed ()
         else caught (on_program (openForWrite path)) (\<lambda>r.
                case r of Inr _ \<Rightarrow> changing (\<lambda>sh. sh\<lparr>usingLog := True\<rparr>) | Inl _ \<Rightarrow> passed ()))))"

definition runFileCommand :: "bool \<Rightarrow> string \<Rightarrow> unit shell_run" where
  "runFileCommand loading path =
     (let kept = take (VALUE_LEN - 1) path
      in caught (on_program (if loading then loadDatabase kept else saveDatabase kept)) (\<lambda>r.
         case r of Inl _ \<Rightarrow> passed ()
         | Inr _ \<Rightarrow> reading (\<lambda>sh. if \<not> loading \<or> sessionPath sh = [] then passed ()
              else andDo (changing (\<lambda>sh. sh\<lparr>sessionPath := kept\<rparr>)) (\<lambda>_. attachLog kept False))))"

text \<open>The log a session that did not finish left behind is replayed into the file.\<close>

definition recover :: "string \<Rightarrow> unit run" where
  "recover path =
     changing (\<lambda>s. case walRecover (pfiles s (walName path)) (pfiles s path) (pfiles s path) of
       (_, gone, db) \<Rightarrow> s\<lparr>pfiles := (if gone then (pfiles s)(walName path := None) else pfiles s)(path := db)\<rparr>)"

definition open_session :: "string \<Rightarrow> unit shell_run" where
  "open_session path =
     andDo (on_program (recover path)) (\<lambda>_.
     caught (on_program (loadDatabase path)) (\<lambda>r.
     let keep = (\<lambda>fresh. andDo (changing (\<lambda>sh. sh\<lparr>sessionPath := take (VALUE_LEN - 1) path\<rparr>)) (\<lambda>_. attachLog path fresh))
     in case r of
          Inr _ \<Rightarrow> keep False
        | Inl err \<Rightarrow>
            if err = ERROR_IO_CANNOT_OPEN
            then caught (on_program (saveDatabase path)) (\<lambda>r. case r of Inr _ \<Rightarrow> keep True | Inl _ \<Rightarrow> passed ())
            else passed ()))"

text \<open>At the end a transaction still open is rolled back, whatever comes of it, and the file is made whole.\<close>

definition close_session :: "unit shell_run" where
  "close_session =
     andDo (reading (\<lambda>sh. if inTransaction (sprog sh) \<and> sessionPath sh \<noteq> [] then caught (on_program rollbackTransaction) (\<lambda>_. passed ()) else passed ())) (\<lambda>_.
     andDo (reading (\<lambda>sh. if sessionPath sh = [] then passed ()
       else caught (on_program (if usingLog sh then closeDatabase else saveDatabase (sessionPath sh))) (\<lambda>_. passed ()))) (\<lambda>_.
     changing (\<lambda>sh. sh\<lparr>sprog := (sprog sh)\<lparr>peng := FreeEngine (peng (sprog sh))\<rparr>\<rparr>)))"

end
