(* ===== verification/WireText.thy ===== *)
theory WireText
  imports Lexing
begin

text \<open>
  The texts of the wire server, \<^verbatim>\<open>16_wire.c\<close>: cutting a query message into statements, the word a
  statement starts with, and filling bound parameters into the text of a prepared statement. A text
  is what stands before its NUL; a parameter is bytes and may hold one.
\<close>

definition LINE_LEN :: nat where "LINE_LEN = 8192"
definition MAX_PARAMS :: nat where "MAX_PARAMS = 32"

definition OID_INT4 :: int where "OID_INT4 = 23"
definition OID_TEXT :: int where "OID_TEXT = 25"
definition OID_FLOAT8 :: int where "OID_FLOAT8 = 701"
definition OID_DATE :: int where "OID_DATE = 1082"

subsection \<open>Words\<close>

definition to_upper :: "char \<Rightarrow> char" where
  "to_upper c = (if is_lower c then char_of ((of_char c :: nat) - 32) else c)"

definition takeWord :: "string \<Rightarrow> string \<times> string" where
  "takeWord sql =
     (let sql = dropWhile is_space sql; word = take (NAME_LEN - 1) (takeWhile (\<lambda>c. \<not> is_space c) sql)
      in (map to_upper word, drop (length word) sql))"

subsection \<open>Cutting a message into statements\<close>

datatype cut = Overflow | NoMore | Statement string string

definition skip_comment :: "string \<Rightarrow> string" where
  "skip_comment sql = dropWhile (\<lambda>c. c \<noteq> CHR 0x0A) sql"

lemma skip_comment_shorter: "length (skip_comment cs) \<le> length cs"
  by (simp add: skip_comment_def length_dropWhile_le)

function nextStatement :: "nat \<Rightarrow> bool \<Rightarrow> bool \<Rightarrow> string \<Rightarrow> string \<Rightarrow> cut" where
  "nextStatement room inText any out [] = (if any then Statement out [] else NoMore)"
| "nextStatement room inText any out (c # sql) =
     (if inText
      then if c = QUOTE \<and> starts (\<lambda>d. d = QUOTE) sql
           then if length out + 2 \<ge> room then Overflow
                else nextStatement room True any (out @ [QUOTE, QUOTE]) (tl sql)
           else if length out + 1 \<ge> room then Overflow
           else nextStatement room (c \<noteq> QUOTE) any (out @ [c]) sql
      else if c = QUOTE
      then if length out + 1 \<ge> room then Overflow else nextStatement room True True (out @ [c]) sql
      else if c = CHR ''-'' \<and> starts (\<lambda>d. d = CHR ''-'') sql
      then nextStatement room False any out (skip_comment (c # sql))
      else if c = CHR '';''
      then if any then Statement out sql else nextStatement room False False [] sql
      else if length out + 1 \<ge> room then Overflow
      else nextStatement room False (any \<or> \<not> is_space c) (out @ [c]) sql)"
  by pat_completeness auto
termination
proof (relation "measure (\<lambda>(_, _, _, _, sql). length sql)", goal_cases)
  case (5 room inText any out c sql)
  then show ?case using skip_comment_shorter [of "tl sql"] by (cases sql) (auto simp: skip_comment_def)
qed auto

subsection \<open>Parameters\<close>

text \<open>The types \<open>Parse\<close> can declare that are numbers: int4, float8, int8, int2, float4, numeric.\<close>

fun looks_numeric :: "bool \<Rightarrow> bool \<Rightarrow> string \<Rightarrow> bool" where
  "looks_numeric seen dots [] = seen"
| "looks_numeric seen dots (c # cs) =
     (if is_digit c then looks_numeric True dots cs
      else if c = CHR ''.'' \<and> \<not> dots then looks_numeric seen True cs
      else False)"

definition parameterIsNumeric :: "int \<Rightarrow> string \<Rightarrow> bool" where
  "parameterIsNumeric oid text =
     (if oid \<in> {OID_INT4, OID_FLOAT8, 20, 21, 700, 1700} then True
      else if oid \<noteq> 0 \<or> text = [] then False
      else let digits = (if hd text \<in> {CHR ''-'', CHR ''+''} then tl text else text)
           in digits \<noteq> [] \<and> looks_numeric False False digits)"

fun read_index :: "nat \<Rightarrow> string \<Rightarrow> error + nat \<times> string" where
  "read_index at [] = Inr (at, [])"
| "read_index at (c # cs) =
     (if \<not> is_digit c then Inr (at, c # cs)
      else if at > MAX_PARAMS then Inl ERROR_SYNTAX_EXPECTED_VALUE
      else read_index (at * 10 + nat (digit_value c)) cs)"

fun quote_chars :: "nat \<Rightarrow> string \<Rightarrow> string \<Rightarrow> error + string" where
  "quote_chars room out [] = Inr out"
| "quote_chars room out (v # vs) =
     (if length out + 2 \<ge> room then Inl ERROR_TOO_MANY_TOKENS
      else quote_chars room (out @ (if v = QUOTE then [QUOTE, v] else [v])) vs)"

text \<open>What is written for a parameter: NULL, its bytes as they are, or its text quoted.\<close>

definition put_parameter :: "nat \<Rightarrow> bool \<Rightarrow> int \<Rightarrow> string option \<Rightarrow> string \<Rightarrow> error + string" where
  "put_parameter room spelled oid value out =
     (case value of
        None \<Rightarrow> if length out + 4 \<ge> room then Inl ERROR_TOO_MANY_TOKENS else Inr (out @ ''NULL'')
      | Some v \<Rightarrow>
          if spelled \<or> parameterIsNumeric oid v
          then if length out + length v \<ge> room then Inl ERROR_TOO_MANY_TOKENS else Inr (out @ v)
          else if length out + 1 \<ge> room then Inl ERROR_TOO_MANY_TOKENS
          else (case quote_chars room (out @ [QUOTE]) v of Inl e \<Rightarrow> Inl e
                | Inr out \<Rightarrow> if length out + 1 \<ge> room then Inl ERROR_TOO_MANY_TOKENS else Inr (out @ [QUOTE])))"

text \<open>\<open>types\<close> is the statement's array of \<open>MAX_PARAMS\<close> types.\<close>

definition fill_parameter :: "nat \<Rightarrow> bool \<Rightarrow> int list \<Rightarrow> string option list \<Rightarrow> nat \<Rightarrow> string \<Rightarrow> error + string" where
  "fill_parameter room spelled types values at out =
     (if at < 1 \<or> at > length values then Inl ERROR_SYNTAX_EXPECTED_VALUE
      else put_parameter room spelled (if at \<le> MAX_PARAMS then types ! (at - 1) else 0) (values ! (at - 1)) out)"

lemma read_index_shorter: "read_index at cs = Inr (n, rest) \<Longrightarrow> length rest \<le> length cs"
  by (induction at cs rule: read_index.induct) (auto split: if_splits)

lemma read_index_suffix: "read_index n cs = Inr (k, rest) \<Longrightarrow> set rest \<subseteq> set cs"
  by (induction n cs rule: read_index.induct) (auto split: if_splits)

function substituteParameters :: "nat \<Rightarrow> bool \<Rightarrow> int list \<Rightarrow> string option list \<Rightarrow> bool \<Rightarrow> string \<Rightarrow> string \<Rightarrow> error + string" where
  "substituteParameters room spelled types values inText [] out = Inr out"
| "substituteParameters room spelled types values inText (c # sql) out =
     (if \<not> inText \<and> c = CHR ''$'' \<and> starts (\<lambda>d. is_digit d \<and> d \<noteq> CHR ''0'') sql
      then (case read_index 0 sql of Inl e \<Rightarrow> Inl e
            | Inr (at, rest) \<Rightarrow>
                (case fill_parameter room spelled types values at out of Inl e \<Rightarrow> Inl e
                 | Inr out \<Rightarrow> substituteParameters room spelled types values False rest out))
      else if length out + 1 \<ge> room then Inl ERROR_TOO_MANY_TOKENS
      else substituteParameters room spelled types values (if c = QUOTE then \<not> inText else inText) sql (out @ [c]))"
  by pat_completeness auto
termination
  by (relation "measure (\<lambda>(_, _, _, _, _, sql, _). length sql)") (auto dest: read_index_shorter)

definition probeLiteral :: "int \<Rightarrow> nat \<Rightarrow> string" where
  "probeLiteral oid attempt =
     (if attempt = 0
      then if oid = OID_TEXT then [QUOTE, QUOTE] else if oid = OID_DATE then QUOTE # ''2000-01-01'' @ [QUOTE]
           else if oid = OID_FLOAT8 then ''0.0'' else ''0''
      else if attempt = 1 then [QUOTE, QUOTE] else QUOTE # ''2000-01-01'' @ [QUOTE])"

subsection \<open>What a text parameter holds is data\<close>

text \<open>
  Two statements that differ inside string literals only: \<open>outside\<close> of one both read the same bytes
  and meet a quote together, \<open>inside\<close> each has what it has, quotes in pairs, up to the next quote both have.
\<close>

inductive outside :: "string \<Rightarrow> string \<Rightarrow> bool" and inside :: "string \<Rightarrow> string \<Rightarrow> bool" where
  outside_end: "outside [] []"
| outside_char: "c \<noteq> QUOTE \<Longrightarrow> outside as bs \<Longrightarrow> outside (c # as) (c # bs)"
| outside_open: "inside as bs \<Longrightarrow> outside (QUOTE # as) (QUOTE # bs)"
| inside_end: "inside [] []"
| inside_left: "c \<noteq> QUOTE \<Longrightarrow> inside as bs \<Longrightarrow> inside (c # as) bs"
| inside_right: "c \<noteq> QUOTE \<Longrightarrow> inside as bs \<Longrightarrow> inside as (c # bs)"
| inside_left_pair: "inside as bs \<Longrightarrow> inside (QUOTE # QUOTE # as) bs"
| inside_right_pair: "inside as bs \<Longrightarrow> inside as (QUOTE # QUOTE # bs)"
| inside_close: "outside as bs \<Longrightarrow> inside (QUOTE # as) (QUOTE # bs)"

inductive_cases outside_nilE: "outside [] bs"
inductive_cases outside_consE: "outside (c # as) bs"

lemma outside_cons: "outside (c # as) bs \<longleftrightarrow> (\<exists>bs'. bs = c # bs' \<and> (if c = QUOTE then inside as bs' else outside as bs'))"
  by (auto elim: outside_consE intro: outside_inside.intros)

lemma outside_nil [simp]: "outside [] bs \<longleftrightarrow> bs = []"
  by (auto elim: outside_nilE intro: outside_inside.intros)

lemma outside_starts: "outside as bs \<Longrightarrow> starts P as = starts P bs"
  by (cases as) (auto simp: outside_cons)

text \<open>Both string literals end here, or neither does.\<close>

definition both_end :: "error + string \<times> string \<Rightarrow> error + string \<times> string \<Rightarrow> bool" where
  "both_end r r' \<longleftrightarrow> (r = Inl ERROR_UNTERMINATED_STRING \<and> r' = Inl ERROR_UNTERMINATED_STRING) \<or>
     (\<exists>v w ra rb. r = Inr (v, ra) \<and> r' = Inr (w, rb) \<and> outside ra rb)"

definition add_char :: "char \<Rightarrow> error + string \<times> string \<Rightarrow> error + string \<times> string" where
  "add_char c r = (case r of Inl e \<Rightarrow> Inl e | Inr (w, rest) \<Rightarrow> Inr (c # w, rest))"

lemma both_end_add [simp]: "both_end (add_char c r) r' = both_end r r'" "both_end r (add_char c r') = both_end r r'"
  by (auto simp: both_end_def add_char_def split: sum.split)

definition both_read :: "string \<Rightarrow> string \<Rightarrow> bool" where
  "both_read as bs \<longleftrightarrow> (\<forall>n m. n + length as < VALUE_LEN \<longrightarrow> m + length bs < VALUE_LEN \<longrightarrow> both_end (readString n as) (readString m bs))"

lemma readString_char: "c \<noteq> QUOTE \<Longrightarrow> n + length (c # as) < VALUE_LEN \<Longrightarrow> readString n (c # as) = add_char c (readString (Suc n) as)"
  by (auto simp: add_char_def)

lemma readString_pair: "n + length (QUOTE # QUOTE # as) < VALUE_LEN \<Longrightarrow> readString n (QUOTE # QUOTE # as) = add_char QUOTE (readString (Suc n) as)"
  by (auto simp: add_char_def)

lemma both_read_steps:
  "c \<noteq> QUOTE \<Longrightarrow> both_read as bs \<Longrightarrow> both_read (c # as) bs" "c \<noteq> QUOTE \<Longrightarrow> both_read as bs \<Longrightarrow> both_read as (c # bs)"
  "both_read as bs \<Longrightarrow> both_read (QUOTE # QUOTE # as) bs" "both_read as bs \<Longrightarrow> both_read as (QUOTE # QUOTE # bs)"
  unfolding both_read_def by (simp_all add: readString_char readString_pair del: readString.simps)

lemma both_read_pairs: "both_read as bs \<Longrightarrow> both_read (QUOTE # QUOTE # as) (QUOTE # QUOTE # bs)"
  by (intro both_read_steps)

lemma inside_both_read:
  "outside as bs \<Longrightarrow> (\<forall>as' bs'. as = QUOTE # as' \<and> bs = QUOTE # bs' \<longrightarrow> both_read as' bs')"
  "inside as bs \<Longrightarrow> both_read as bs"
proof (induction rule: outside_inside.inducts)
  case (inside_close as bs)
  show ?case
  proof (cases as)
    case Nil
    then show ?thesis using inside_close(1) by (auto simp: both_read_def both_end_def)
  next
    case (Cons c as')
    then obtain bs' where b: "bs = c # bs'" using inside_close(1) by (auto simp: outside_cons)
    then show ?thesis
      using inside_close Cons both_read_pairs [of as' bs'] by (cases "c = QUOTE") (auto simp: both_read_def both_end_def)
  qed
next
  case inside_end
  then show ?case by (simp add: both_read_def both_end_def)
qed (simp_all add: both_read_steps)

text \<open>The tokens are of the same types, and differ in the texts of string literals only.\<close>

definition same_kind :: "token \<Rightarrow> token \<Rightarrow> bool" where
  "same_kind s t \<longleftrightarrow> tokType s = tokType t \<and> (tokType s \<noteq> TOKEN_STRING \<longrightarrow> tokValue s = tokValue t)"

lemma quote_chars_not [simp]:
  "\<not> word_char QUOTE" "\<not> is_digit QUOTE" "\<not> is_space QUOTE" "\<not> is_alpha QUOTE" "QUOTE \<noteq> CHR ''.''" "QUOTE \<noteq> CHR ''_''" "QUOTE \<noteq> CHR ''-''"
  by code_simp+

definition same_end :: "error + string \<times> string \<Rightarrow> error + string \<times> string \<Rightarrow> bool" where
  "same_end r r' \<longleftrightarrow> (\<exists>e. r = Inl e \<and> r' = Inl e) \<or> (\<exists>w ra rb. r = Inr (w, ra) \<and> r' = Inr (w, rb) \<and> outside ra rb)"

lemma same_end_simps [simp]:
  "same_end (Inl e) (Inl f) = (e = f)" "same_end (Inr (w, ra)) (Inr (v, rb)) = (w = v \<and> outside ra rb)"
  by (auto simp: same_end_def)

lemma same_end_add: "same_end r r' \<Longrightarrow> same_end (add_char c r) (add_char c r')"
  by (auto simp: same_end_def add_char_def)

lemma read_word_step: "read_word n (c # cs) =
    (if word_char c \<or> (c = CHR ''.'' \<and> starts word_char cs)
     then if n \<ge> VALUE_LEN - 1 then Inl ERROR_TOKEN_TOO_LONG else add_char c (read_word (Suc n) cs) else Inr ([], c # cs))"
  unfolding add_char_def by (rule read_word.simps)

lemma read_number_step: "read_number n dot (c # cs) =
    (if is_digit c \<or> (c = CHR ''.'' \<and> \<not> dot \<and> starts is_digit cs)
     then if n \<ge> VALUE_LEN - 1 then Inl ERROR_TOKEN_TOO_LONG else add_char c (read_number (Suc n) (dot \<or> c = CHR ''.'') cs)
     else Inr ([], c # cs))"
  unfolding add_char_def by (rule read_number.simps)

lemma read_word_outside: "outside as bs \<Longrightarrow> same_end (read_word n as) (read_word n bs)"
proof (induction as arbitrary: n bs)
  case (Cons c cs)
  obtain bs' where b: "bs = c # bs'" "if c = QUOTE then inside cs bs' else outside cs bs'" using Cons(2) by (auto simp: outside_cons)
  show ?case
  proof (cases "c = QUOTE")
    case True
    then show ?thesis using Cons(2) b(1) by (simp add: read_word_step del: read_word.simps)
  next
    case False
    then have o: "outside cs bs'" using b by simp
    show ?thesis
      unfolding b(1) read_word_step outside_starts [OF o] using Cons(2) b(1) same_end_add [OF Cons.IH [OF o]]
      by (simp del: read_word.simps)
  qed
qed simp

lemma read_number_outside: "outside as bs \<Longrightarrow> same_end (read_number n dot as) (read_number n dot bs)"
proof (induction as arbitrary: n dot bs)
  case (Cons c cs)
  obtain bs' where b: "bs = c # bs'" "if c = QUOTE then inside cs bs' else outside cs bs'" using Cons(2) by (auto simp: outside_cons)
  show ?case
  proof (cases "c = QUOTE")
    case True
    then show ?thesis using Cons(2) b(1) by (simp add: read_number_step del: read_number.simps)
  next
    case False
    then have o: "outside cs bs'" using b by simp
    show ?thesis
      unfolding b(1) read_number_step outside_starts [OF o] using Cons(2) b(1) same_end_add [OF Cons.IH [OF o]]
      by (simp del: read_number.simps)
  qed
qed simp

text \<open>One token of each.\<close>

definition same_token :: "error + tokentype \<times> string \<times> string \<Rightarrow> error + tokentype \<times> string \<times> string \<Rightarrow> bool" where
  "same_token r r' \<longleftrightarrow> (\<exists>e. r = Inl e \<and> r' = Inl e) \<or>
     (\<exists>ty v w ra rb. r = Inr (ty, v, ra) \<and> r' = Inr (ty, w, rb) \<and> (ty \<noteq> TOKEN_STRING \<longrightarrow> v = w) \<and> outside ra rb)"

lemma take2_outside: "outside as bs \<Longrightarrow> take 1 as = take 1 bs \<and> (hd as \<noteq> QUOTE \<longrightarrow> take 2 as = take 2 bs \<and> outside (tl as) (tl bs))"
  by (cases as) (auto simp: outside_cons split: if_splits elim: outside.cases)

lemma readOperator_two_ends: "readOperator (c # d # cs) = Inr (ty, 2) \<Longrightarrow> d \<noteq> QUOTE"
  by (auto simp: readOperator_def Let_def QUOTE_def split: if_splits)

lemma readOperator_one_or_two: "readOperator cs = Inr (ty, n) \<Longrightarrow> n = 1 \<or> n = 2 \<and> 2 \<le> length cs"
  by (cases cs; cases "tl cs") (auto simp: readOperator_def Let_def numeral_2_eq_2 split: if_splits)

lemma readOperator_outside:
  assumes "outside as bs" "hd as \<noteq> QUOTE" "readOperator as = Inr (ty, n)"
  shows "readOperator bs = Inr (ty, n) \<and> take n as = take n bs \<and> outside (drop n as) (drop n bs)"
proof -
  have t: "take 1 as = take 1 bs" "take 2 as = take 2 bs" "outside (tl as) (tl bs)" using take2_outside [OF assms(1)] assms(2) by auto
  have r: "readOperator bs = Inr (ty, n)" using assms(3) t unfolding readOperator_def by simp
  from readOperator_one_or_two [OF assms(3)] show ?thesis
  proof
    assume "n = 1" then show ?thesis using r t by (simp add: drop_Suc)
  next
    assume n: "n = 2 \<and> 2 \<le> length as"
    then obtain c d cs where a: "as = c # d # cs" by (cases as; cases "tl as") auto
    then have "d \<noteq> QUOTE" using assms(3) n readOperator_two_ends by blast
    moreover obtain c' bs' where b: "bs = c' # bs'" using assms(1) a by (auto simp: outside_cons)
    ultimately have "outside cs (tl bs')" using t(3) a by (auto simp: outside_cons)
    then show ?thesis using r t n a b by (simp add: numeral_2_eq_2 drop_Suc)
  qed
qed

lemma next_token_outside:
  assumes "outside as bs" "as \<noteq> []" "length as < VALUE_LEN" "length bs < VALUE_LEN"
  shows "same_token (next_token as) (next_token bs)"
proof -
  obtain c as' where a: "as = c # as'" using assms(2) by (cases as) auto
  then obtain bs' where b: "bs = c # bs'" "if c = QUOTE then inside as' bs' else outside as' bs'" using assms(1) by (auto simp: outside_cons)
  consider (word) "is_alpha c \<or> c = CHR ''_''" | (number) "is_digit c" "\<not> (is_alpha c \<or> c = CHR ''_'')" | (quote) "c = QUOTE"
    | (operator) "c \<in> {CHR ''<'', CHR ''>'', CHR ''='', CHR ''!''}" "\<not> (is_alpha c \<or> c = CHR ''_'')" "\<not> is_digit c" "c \<noteq> QUOTE"
    | (symbol) "c \<notin> {CHR ''<'', CHR ''>'', CHR ''='', CHR ''!''}" "\<not> (is_alpha c \<or> c = CHR ''_'')" "\<not> is_digit c" "c \<noteq> QUOTE"
    by blast
  then show ?thesis
  proof cases
    case word
    then show ?thesis using read_word_outside [OF assms(1), of 0] a b(1)
      by (auto simp: next_token_def same_end_def same_token_def simp del: read_word.simps)
  next
    case number
    then show ?thesis using read_number_outside [OF assms(1), of 0 False] a b(1)
      by (auto simp: next_token_def same_end_def same_token_def simp del: read_number.simps)
  next
    case quote
    then have "both_end (readString 0 as') (readString 0 bs')"
      using inside_both_read(2) [of as' bs'] b a assms(3,4) by (simp add: both_read_def del: readString.simps)
    then show ?thesis using quote a b(1) by (auto simp: next_token_def both_end_def same_token_def simp del: readString.simps)
  next
    case operator
    then have n: "next_token as = (case readOperator as of Inl e \<Rightarrow> Inl e | Inr (type, n) \<Rightarrow> Inr (type, take n as, drop n as))"
      "next_token bs = (case readOperator bs of Inl e \<Rightarrow> Inl e | Inr (type, n) \<Rightarrow> Inr (type, take n bs, drop n bs))"
      using a b(1) by (auto simp: next_token_def)
    show ?thesis
    proof (cases "readOperator as")
      case (Inl e)
      have "take 1 as = take 1 bs" "take 2 as = take 2 bs" using take2_outside [OF assms(1)] operator a by auto
      then have "readOperator bs = readOperator as" unfolding readOperator_def by simp
      then show ?thesis using n Inl by (simp add: same_token_def)
    next
      case (Inr x)
      obtain ty k where x: "x = (ty, k)" by (cases x)
      show ?thesis using readOperator_outside [OF assms(1), of ty k] Inr x n operator a by (simp add: same_token_def)
    qed
  next
    case symbol
    then show ?thesis using a b by (auto simp: next_token_def same_token_def split: option.split)
  qed
qed

definition same_structure :: "error + token list \<Rightarrow> error + token list \<Rightarrow> bool" where
  "same_structure r r' \<longleftrightarrow> (\<exists>e. r = Inl e \<and> r' = Inl e) \<or> (\<exists>ts us. r = Inr ts \<and> r' = Inr us \<and> list_all2 same_kind ts us)"

lemma tokenize_outside:
  "\<lbrakk>outside as bs; length as < VALUE_LEN; length bs < VALUE_LEN; list_all2 same_kind out out'\<rbrakk> \<Longrightarrow>
   same_structure (tokenize heldOk as out) (tokenize heldOk bs out')"
proof (induction "length as" arbitrary: as bs out out' rule: less_induct)
  case less
  note o = less(2) and len = less(3,4) and same = less(5)
  show ?case
  proof (cases "as = [] \<or> (\<not> is_space (hd as) \<and> take 2 as = ''--'')")
    case True
    then have "bs = [] \<or> (\<not> is_space (hd bs) \<and> take 2 bs = ''--'')"
    proof (elim disjE conjE)
      assume h: "\<not> is_space (hd as)" "take 2 as = ''--''"
      then obtain as' where "as = CHR ''-'' # as'" by (cases as) auto
      then have q: "hd as \<noteq> QUOTE" by (simp add: QUOTE_def)
      have "take 2 bs = ''--''" using conjunct2 [OF take2_outside [OF o], THEN mp, OF q] h(2) by simp
      moreover have "hd bs = hd as" using o \<open>as = CHR ''-'' # as'\<close> by (auto simp: outside_cons)
      ultimately show ?thesis using h(1) by simp
    qed (use o in simp)
    then show ?thesis using tokenize_stop [of as heldOk out] tokenize_stop [of bs heldOk out'] True same by (simp add: same_structure_def)
  next
    case False
    then obtain c as' where a: "as = c # as'" by (cases as) auto
    then obtain bs' where b: "bs = c # bs'" "if c = QUOTE then inside as' bs' else outside as' bs'" using o by (auto simp: outside_cons)
    show ?thesis
    proof (cases "is_space c")
      case True
      then have "outside as' bs'" using b(2) by (auto split: if_splits)
      then have "same_structure (tokenize heldOk as' out) (tokenize heldOk bs' out')"
        using less(1) [of as' bs' out out'] a b(1) len same by simp
      then show ?thesis using True a b(1) by (simp add: tokenize.simps [of heldOk "c # as'"] tokenize.simps [of heldOk "c # bs'"])
    next
      case space: False
      have dash: "take 2 as \<noteq> ''--''" "take 2 bs \<noteq> ''--''"
        using False space a b(1) take2_outside [OF o] by (cases "c = QUOTE"; simp)+
      have ta: "tokenize heldOk as out = (case next_token as of Inl e \<Rightarrow> Inl e | Inr (type, v, rest) \<Rightarrow>
          (case pushToken heldOk out type v of Inl e \<Rightarrow> Inl e | Inr out \<Rightarrow> tokenize heldOk rest out))"
        and tb: "tokenize heldOk bs out' = (case next_token bs of Inl e \<Rightarrow> Inl e | Inr (type, v, rest) \<Rightarrow>
          (case pushToken heldOk out' type v of Inl e \<Rightarrow> Inl e | Inr out \<Rightarrow> tokenize heldOk rest out))"
        unfolding tokenize.simps [of heldOk as out] tokenize.simps [of heldOk bs out']
        using space dash a b(1) by (simp_all del: take_Suc_Cons take_Cons_numeral)
      from next_token_outside [OF o _ len] a consider (error) e where "next_token as = Inl e" "next_token bs = Inl e"
        | (token) ty v w ra rb where "next_token as = Inr (ty, v, ra)" "next_token bs = Inr (ty, w, rb)" "ty \<noteq> TOKEN_STRING \<longrightarrow> v = w" "outside ra rb"
        unfolding same_token_def by blast
      then show ?thesis
      proof cases
        case error
        then show ?thesis using ta tb by (simp add: same_structure_def)
      next
        case token
        have shorter: "length ra < length as" "length rb < length bs" using next_token_shorter token(1,2) a b(1) by blast+
        have "length out = length out'" using same by (rule list_all2_lengthD)
        then consider (full) e where "pushToken heldOk out ty v = Inl e" "pushToken heldOk out' ty w = Inl e"
          | (room) "pushToken heldOk out ty v = Inr (out @ [\<lparr>tokType = ty, tokValue = v\<rparr>])" "pushToken heldOk out' ty w = Inr (out' @ [\<lparr>tokType = ty, tokValue = w\<rparr>])"
          by (cases "length out' = MAX_TOKENS"; cases "heldOk (length out')") (auto simp: pushToken_def)
        then show ?thesis
        proof cases
          case full
          then show ?thesis using ta tb token by (simp add: same_structure_def)
        next
          case room
          have "list_all2 same_kind (out @ [\<lparr>tokType = ty, tokValue = v\<rparr>]) (out' @ [\<lparr>tokType = ty, tokValue = w\<rparr>])"
            using same token(3) by (intro list_all2_appendI) (auto simp: same_kind_def)
          then show ?thesis using less(1) [OF shorter(1) token(4)] shorter len ta tb token room by simp
        qed
      qed
    qed
  qed
qed

subsection \<open>Filling keeps two statements alike\<close>

text \<open>The same parameter, free of quotes, or two texts that are quoted.\<close>

definition parameter_alike :: "int \<Rightarrow> string option \<Rightarrow> string option \<Rightarrow> bool" where
  "parameter_alike oid v w \<longleftrightarrow> (v = w \<and> (\<forall>s. v = Some s \<longrightarrow> QUOTE \<notin> set s)) \<or>
     (\<exists>s t. v = Some s \<and> w = Some t \<and> \<not> parameterIsNumeric oid s \<and> \<not> parameterIsNumeric oid t)"

definition parameters_alike :: "int list \<Rightarrow> string option list \<Rightarrow> string option list \<Rightarrow> bool" where
  "parameters_alike types vs ws \<longleftrightarrow> length vs = length ws \<and> length vs \<le> MAX_PARAMS \<and>
     (\<forall>i < length vs. parameter_alike (types ! i) (vs ! i) (ws ! i)) \<and> (\<forall>v \<in> set vs \<union> set ws. \<forall>s. v = Some s \<longrightarrow> NUL \<notin> set s)"

lemma quote_chars_doubled: "quote_chars room out v = Inr o' \<Longrightarrow> o' = out @ doubled v"
  by (induction room out v rule: quote_chars.induct) (auto simp: doubled_def split: if_splits)

lemma inside_doubled: "outside as bs \<Longrightarrow> inside (doubled v @ QUOTE # as) (doubled w @ QUOTE # bs)"
proof (induction v)
  case Nil
  then show ?case by (induction w) (auto simp: doubled_def intro: outside_inside.intros)
qed (auto simp: doubled_def intro: outside_inside.intros)

lemma outside_same: "QUOTE \<notin> set cs \<Longrightarrow> outside as bs \<Longrightarrow> outside (cs @ as) (cs @ bs)"
  by (induction cs) (auto intro: outside_inside.intros)

lemma put_parameter_alike:
  assumes "put_parameter room False oid v o1 = Inr a" "put_parameter room False oid w o2 = Inr b" "parameter_alike oid v w"
  shows "\<exists>x y. a = o1 @ x \<and> b = o2 @ y \<and> (\<forall>as bs. outside as bs \<longrightarrow> outside (x @ as) (y @ bs))"
proof -
  from assms(3) consider (null) "v = None" "w = None"
    | (raw) s where "v = Some s" "w = Some s" "QUOTE \<notin> set s" "parameterIsNumeric oid s"
    | (quoted) s t where "v = Some s" "w = Some t" "\<not> parameterIsNumeric oid s" "\<not> parameterIsNumeric oid t"
    by (auto simp: parameter_alike_def)
  then show ?thesis
  proof cases
    case null
    have "QUOTE \<notin> set ''NULL''" by (simp add: QUOTE_def)
    then show ?thesis using assms null outside_same [of "''NULL''"]
      by (intro exI [of _ "''NULL''"]) (auto simp: put_parameter_def split: if_splits)
  next
    case raw
    then show ?thesis using assms outside_same [of s]
      by (intro exI [of _ s]) (auto simp: put_parameter_def split: if_splits)
  next
    case quoted
    have a: "a = o1 @ QUOTE # doubled s @ [QUOTE]" "b = o2 @ QUOTE # doubled t @ [QUOTE]"
      using assms quoted by (auto simp: put_parameter_def split: if_splits sum.splits dest!: quote_chars_doubled)
    have "outside (QUOTE # doubled s @ QUOTE # as) (QUOTE # doubled t @ QUOTE # bs)" if "outside as bs" for as bs
      using inside_doubled [OF that] by (rule outside_open)
    then show ?thesis using a by (intro exI [of _ "QUOTE # doubled s @ [QUOTE]"] exI [of _ "QUOTE # doubled t @ [QUOTE]"]) simp
  qed
qed

lemma substitute_alike:
  "\<lbrakk>substituteParameters room False types vs inText sql o1 = Inr a; substituteParameters room False types ws inText sql o2 = Inr b;
    parameters_alike types vs ws\<rbrakk> \<Longrightarrow>
   \<exists>x y. a = o1 @ x \<and> b = o2 @ y \<and> (if inText then inside x y else outside x y)"
proof (induction "length sql" arbitrary: sql inText o1 o2 rule: less_induct)
  case less
  show ?case
  proof (cases sql)
    case Nil
    then show ?thesis using less(2,3) by (auto intro: outside_inside.intros)
  next
    case (Cons c cs)
    show ?thesis
    proof (cases "\<not> inText \<and> c = CHR ''$'' \<and> starts (\<lambda>d. is_digit d \<and> d \<noteq> CHR ''0'') cs")
      case True
      then obtain k rest a1 b1 where r: "read_index 0 cs = Inr (k, rest)"
        "fill_parameter room False types vs k o1 = Inr a1" "fill_parameter room False types ws k o2 = Inr b1"
        "substituteParameters room False types vs False rest a1 = Inr a" "substituteParameters room False types ws False rest b1 = Inr b"
        using less(2,3) Cons by (auto split: sum.splits prod.splits)
      have "k - 1 < length vs" "length ws = length vs" "k \<le> MAX_PARAMS" "put_parameter room False (types ! (k - 1)) (vs ! (k - 1)) o1 = Inr a1"
        "put_parameter room False (types ! (k - 1)) (ws ! (k - 1)) o2 = Inr b1"
        using r(2,3) less(4) by (auto simp: fill_parameter_def parameters_alike_def split: if_splits)
      then obtain x y where x: "a1 = o1 @ x" "b1 = o2 @ y" "\<forall>as bs. outside as bs \<longrightarrow> outside (x @ as) (y @ bs)"
        using put_parameter_alike [of room "types ! (k - 1)"] less(4) by (meson parameters_alike_def)
      have "length rest < length sql" using read_index_shorter [OF r(1)] Cons by simp
      from less(1) [OF this r(4,5) less(4)] obtain x' y' where "a = a1 @ x'" "b = b1 @ y'" "outside x' y'" by auto
      then show ?thesis using x True by (intro exI [of _ "x @ x'"] exI [of _ "y @ y'"]) simp
    next
      case False
      let ?in = "if c = QUOTE then \<not> inText else inText"
      have "substituteParameters room False types vs ?in cs (o1 @ [c]) = Inr a" "substituteParameters room False types ws ?in cs (o2 @ [c]) = Inr b"
        using less(2,3) Cons False by (auto split: if_splits)
      from less(1) [OF _ this less(4)] Cons obtain x y where "a = o1 @ c # x" "b = o2 @ c # y" "if ?in then inside x y else outside x y" by auto
      then show ?thesis
        by (intro exI [of _ "c # x"] exI [of _ "c # y"]) (auto intro: outside_inside.intros split: if_splits)
    qed
  qed
qed

text \<open>One step of the scan, for properties of what it has written.\<close>

lemma substitute_invariant:
  assumes "\<And>oid v o1 o2. put_parameter room spelled oid v o1 = Inr o2 \<Longrightarrow> v \<in> set vs \<Longrightarrow> P o1 \<Longrightarrow> P o2"
    and "\<And>c o1. c \<in> chars \<Longrightarrow> length o1 + 1 < room \<Longrightarrow> P o1 \<Longrightarrow> P (o1 @ [c])"
  shows "\<lbrakk>substituteParameters room spelled types vs inText sql out = Inr a; P out; set sql \<subseteq> chars\<rbrakk> \<Longrightarrow> P a"
proof (induction "length sql" arbitrary: sql inText out rule: less_induct)
  case less
  show ?case
  proof (cases sql)
    case Nil
    then show ?thesis using less(2,3) by simp
  next
    case (Cons c cs)
    show ?thesis
    proof (cases "\<not> inText \<and> c = CHR ''$'' \<and> starts (\<lambda>d. is_digit d \<and> d \<noteq> CHR ''0'') cs")
      case True
      then obtain k rest a1 where r: "read_index 0 cs = Inr (k, rest)" "fill_parameter room spelled types vs k out = Inr a1"
        "substituteParameters room spelled types vs False rest a1 = Inr a"
        using less(2) Cons by (auto split: sum.splits prod.splits)
      then have "P a1" using less(3) assms(1) by (auto simp: fill_parameter_def split: if_splits)
      moreover have "set rest \<subseteq> set cs" using r(1) read_index_suffix by blast
      ultimately show ?thesis using less(1) [OF _ r(3)] read_index_shorter [OF r(1)] Cons less(4) by auto
    next
      case False
      then have "length out + 1 < room" "substituteParameters room spelled types vs (if c = QUOTE then \<not> inText else inText) cs (out @ [c]) = Inr a"
        using less(2) Cons by (auto split: if_splits)
      then show ?thesis using less(1) [of cs] Cons less(3,4) assms(2) by auto
    qed
  qed
qed

lemma put_parameter_fits: "put_parameter room spelled oid v out = Inr a \<Longrightarrow> length a < room"
  by (auto simp: put_parameter_def split: option.splits if_splits sum.splits)

lemma substitute_fits:
  "substituteParameters room spelled types vs inText sql [] = Inr a \<Longrightarrow> 0 < room \<Longrightarrow> length a < room"
  by (rule substitute_invariant [where P = "\<lambda>x. length x < room" and chars = UNIV]) (auto dest: put_parameter_fits)

lemma quoted_NUL: "NUL \<notin> set s \<Longrightarrow> NUL \<notin> set (out @ QUOTE # doubled s @ [QUOTE]) \<longleftrightarrow> NUL \<notin> set out"
  using doubled_NUL [of s] by (auto simp: QUOTE_def NUL_def)

lemma put_parameter_chars:
  assumes "put_parameter room spelled oid v out = Inr a" "NUL \<notin> set out" "\<forall>s. v = Some s \<longrightarrow> NUL \<notin> set s"
  shows "NUL \<notin> set a"
proof (cases v)
  case None
  moreover have "NUL \<notin> set ''NULL''" by code_simp
  ultimately show ?thesis using assms(1,2) by (auto simp: put_parameter_def split: if_splits)
next
  case (Some s)
  then have "a = out @ s \<or> a = out @ QUOTE # doubled s @ [QUOTE]"
    using assms(1) by (auto simp: put_parameter_def split: if_splits sum.splits dest!: quote_chars_doubled)
  then show ?thesis using quoted_NUL [of s out] assms(2,3) Some by auto
qed

lemma substitute_chars:
  assumes "substituteParameters room spelled types vs inText sql [] = Inr a" "NUL \<notin> set sql" "\<forall>v \<in> set vs. \<forall>s. v = Some s \<longrightarrow> NUL \<notin> set s"
  shows "NUL \<notin> set a"
proof (rule substitute_invariant [where P = "\<lambda>x. NUL \<notin> set x" and chars = "- {NUL}", OF _ _ assms(1)])
  show "NUL \<notin> set o2" if "put_parameter room spelled oid v o1 = Inr o2" "v \<in> set vs" "NUL \<notin> set o1" for oid v o1 o2
    by (rule put_parameter_chars [OF that(1,3)]) (use assms(3) that(2) in blast)
qed (use assms(2) in auto)


definition bound_sql :: string where "bound_sql = ''b=$1''"

lemma bound_harmless:
  "substituteParameters LINE_LEN False (replicate 32 0) [Some ''x''] False bound_sql [] = Inr (''b='' @ QUOTE # ''x'' @ [QUOTE])"
  by code_simp

lemma bound_hostile:
  "substituteParameters LINE_LEN False (replicate 32 0) [Some (QUOTE # ''--'')] False bound_sql [] =
   Inr (''b='' @ QUOTE # QUOTE # QUOTE # ''--'' @ [QUOTE])"
  by code_simp


subsection \<open>Numbers are not\<close>

text \<open>
  A number is written as it came. A negative one behind a minus of the statement makes a comment of the
  rest, and whatever comes for a parameter declared a number is part of the statement.
\<close>

lemma negative_number_comments:
  "substituteParameters LINE_LEN False (replicate 32 0) [Some ''-1''] False ''a -$1, b'' [] = Inr ''a --1, b'' \<and>
   tokenizeStatement (\<lambda>_. True) ''a --1, b'' = Inr [\<lparr>tokType = TOKEN_IDENTIFIER, tokValue = ''a''\<rparr>]"
  by code_simp

lemma declared_number_spliced:
  "substituteParameters LINE_LEN False ((replicate 32 0)[0 := OID_INT4]) [Some ''1 or 2''] False ''id=$1'' [] =
     Inr ''id=1 or 2''"
  by code_simp

text \<open>A byte of zero ends the statement that holds it.\<close>

lemma zero_byte_cuts:
  "tokenizeStatement (\<lambda>_. True) (QUOTE # ''a'' @ NUL # ''b'' @ [QUOTE]) = Inl ERROR_UNTERMINATED_STRING"
  by code_simp

end
