(* ===== verification/Prompt.thy ===== *)
theory Prompt
  imports Controller WireText
begin

text \<open>
  The program at the prompt, \<^verbatim>\<open>main.c\<close>: the commands that start with a dot, the loop over the lines and the
  session around it. What is printed is left out, and so are the commands that only print.
\<close>

datatype commandresult = NOT_A_COMMAND | HANDLED | QUIT

text \<open>
  A command is its whole line; \<^verbatim>\<open>.save\<close> and \<^verbatim>\<open>.load\<close> have a path behind a blank. One that is not known
  is reported and is no statement.
\<close>

definition runDotCommand :: "string \<Rightarrow> commandresult shell_run" where
  "runDotCommand line =
     (if line = [] \<or> hd line \<noteq> CHR ''.'' then passed NOT_A_COMMAND
      else if line = ''.exit'' \<or> line = ''.quit'' then passed QUIT
      else if take 6 line = ''.save '' \<and> drop 6 line \<noteq> [] then andDo (runFileCommand False (drop 6 line)) (\<lambda>_. passed HANDLED)
      else if take 6 line = ''.load '' \<and> drop 6 line \<noteq> [] then andDo (runFileCommand True (drop 6 line)) (\<lambda>_. passed HANDLED)
      else passed HANDLED)"

text \<open>The lines as they come, each ended by a newline and without a NUL: one that does not fit is skipped whole.\<close>

fun prompt :: "thread \<Rightarrow> string list \<Rightarrow> shell \<times> locks \<Rightarrow> (shell \<times> locks) option" where
  "prompt t [] = Some"
| "prompt t (line # lines) = (\<lambda>(sh, l).
     if length line + 1 > LINE_LEN - 1 \<or> line = [] then prompt t lines (sh, l)
     else do { (r, sh) \<leftarrow> runDotCommand line sh;
               case r of Inr QUIT \<Rightarrow> Some (sh, l)
               | Inr NOT_A_COMMAND \<Rightarrow>
                   do { (_, s, l) \<leftarrow> ProcessStatement t line (sprog sh, l); prompt t lines (sh\<lparr>sprog := s\<rparr>, l) }
               | _ \<Rightarrow> prompt t lines (sh, l) })"

text \<open>A run without a port: \<open>:memory:\<close> is a session without a file.\<close>

definition main_prompt :: "thread \<Rightarrow> string \<Rightarrow> string list \<Rightarrow> shell \<times> locks \<Rightarrow> (shell \<times> locks) option" where
  "main_prompt t databaseFile lines = (\<lambda>(sh, l).
     do { (_, sh) \<leftarrow> (if databaseFile = '':memory:'' then passed () else open_session databaseFile) sh;
          (sh, l) \<leftarrow> prompt t lines (sh, l);
          (_, sh) \<leftarrow> close_session sh;
          Some (sh, l) })"

end
