(* ===== verification/Wire.thy ===== *)
theory Wire
  imports WireText Controller
begin

text \<open>
  The wire server, \<^verbatim>\<open>16_wire.c\<close>: the bytes to and from a client, the messages they make, queries,
  prepared statements and the portal, the handshake and the life of a connection; and the texts of
  the error codes, \<^verbatim>\<open>01_errors.c\<close>.
\<close>

subsection \<open>The texts of the errors\<close>

definition error_texts :: "(error \<times> string) list" where
  "error_texts = [
     (ERROR_UNKNOWN_TOKEN, ''unknown token''),
     (ERROR_UNTERMINATED_STRING, ''unterminated string literal''),
     (ERROR_TOO_MANY_TOKENS, ''statement too long''),
     (ERROR_VALUE_OUT_OF_RANGE, ''integer literal out of range''),
     (ERROR_TOKEN_TOO_LONG, ''a name or literal is too long''),
     (ERROR_SYNTAX_INVALID_STATEMENT, ''not a valid statement''),
     (ERROR_SYNTAX_EXPECTED_FROM, ''expected FROM''),
     (ERROR_SYNTAX_EXPECTED_TABLE_NAME, ''expected a table name''),
     (ERROR_SYNTAX_EXPECTED_COLUMN, ''expected a column name''),
     (ERROR_SYNTAX_EXPECTED_TYPE, ''expected a column type''),
     (ERROR_SYNTAX_EXPECTED_PARENTHESES, ''unbalanced parentheses''),
     (ERROR_SYNTAX_TRAILING_TOKENS, ''unexpected tokens after statement''),
     (ERROR_SYNTAX_TOO_MANY_COLUMNS, ''too many columns''),
     (ERROR_SYNTAX_EXPECTED_VALUES, ''expected VALUES''),
     (ERROR_SYNTAX_EXPECTED_VALUE, ''expected a number or a quoted string''),
     (ERROR_SYNTAX_EXPECTED_OPERATOR, ''expected a comparison operator''),
     (ERROR_SYNTAX_EXPECTED_BY, ''expected BY after GROUP or ORDER''),
     (ERROR_SYNTAX_UNKNOWN_FUNCTION, ''unknown function''),
     (ERROR_SYNTAX_EXPECTED_NULL, ''expected NULL after IS''),
     (ERROR_SYNTAX_EXPECTED_ON, ''expected ON''),
     (ERROR_SYNTAX_EXPECTED_SET, ''expected SET''),
     (ERROR_SYNTAX_EXPECTED_ASSIGNMENT, ''expected = in a SET assignment''),
     (ERROR_SYNTAX_CONDITION_TOO_COMPLEX, ''WHERE clause is too complex''),
     (ERROR_SYNTAX_TOO_MANY_TABLES, ''too many tables in FROM''),
     (ERROR_SYNTAX_EXPECTED_KEY, ''expected KEY after PRIMARY''),
     (ERROR_SYNTAX_EXPECTED_SIZE, ''expected a positive length in varchar(n)''),
     (ERROR_SYNTAX_EXPECTED_TABLE, ''expected the keyword table''),
     (ERROR_SYNTAX_EXPECTED_TO, ''expected the keyword to''),
     (ERROR_SYNTAX_TOO_MANY_SUBQUERIES, ''too many subqueries in one statement''),
     (ERROR_SYNTAX_EXPRESSION_TOO_COMPLEX, ''expression is too complex''),
     (ERROR_SEMANTIC_TABLE_NOT_FOUND, ''no such table''),
     (ERROR_SEMANTIC_TABLE_EXISTS, ''table already exists''),
     (ERROR_SEMANTIC_COLUMN_NOT_FOUND, ''no such column''),
     (ERROR_SEMANTIC_TYPE_MISMATCH, ''type mismatch''),
     (ERROR_SEMANTIC_COLUMN_COUNT, ''wrong number of values''),
     (ERROR_SEMANTIC_DUPLICATE_COLUMN, ''duplicate column name''),
     (ERROR_SEMANTIC_NOT_GROUPED, ''column must appear in GROUP BY or an aggregate''),
     (ERROR_SEMANTIC_INDEX_EXISTS, ''index already exists''),
     (ERROR_SEMANTIC_INDEX_NOT_FOUND, ''no such index''),
     (ERROR_SEMANTIC_HAVING_WITHOUT_GROUP, ''HAVING requires GROUP BY or an aggregate''),
     (ERROR_SEMANTIC_DATABASE_EXISTS, ''database already exists''),
     (ERROR_SEMANTIC_DATABASE_NOT_FOUND, ''no such database''),
     (ERROR_SEMANTIC_CANNOT_DROP_DEFAULT, ''the default database cannot be dropped''),
     (ERROR_SEMANTIC_AMBIGUOUS_COLUMN, ''column name matches more than one table''),
     (ERROR_SEMANTIC_DUPLICATE_TABLE, ''the same table is listed twice in FROM''),
     (ERROR_SEMANTIC_JOIN_TOO_WIDE, ''the joined tables have too many columns''),
     (ERROR_SEMANTIC_MISSING_VALUE, ''a column with no value and no default''),
     (ERROR_SEMANTIC_INVALID_DATE, ''not a date: expected '' @ [QUOTE] @ ''YYYY-MM-DD'' @ [QUOTE]),
     (ERROR_SEMANTIC_LAST_COLUMN, ''cannot drop the only column of a table''),
     (ERROR_SEMANTIC_ALTER_UNSUPPORTED, ''unique, primary key and check are not supported on a new column''),
     (ERROR_SEMANTIC_CHECK_BLOCKS_DROP, ''cannot drop a column from a table with a check constraint''),
     (ERROR_SEMANTIC_CORRELATED_SUBQUERY, ''a subquery may not refer to a column of the outer query''),
     (ERROR_SEMANTIC_SUBQUERY_COLUMNS, ''a subquery used here must return exactly one column''),
     (ERROR_EXEC_TABLE_FULL, ''table is full''),
     (ERROR_EXEC_TOO_MANY_TABLES, ''too many tables''),
     (ERROR_EXEC_TOO_MANY_GROUPS, ''too many groups''),
     (ERROR_EXEC_TOO_MANY_INDEXES, ''out of memory building the index''),
     (ERROR_EXEC_JOIN_TOO_LARGE, ''the join produced too many rows''),
     (ERROR_EXEC_ROW_TOO_LARGE, ''row is too large to store''),
     (ERROR_EXEC_OUT_OF_MEMORY, ''out of memory''),
     (ERROR_EXEC_TOO_MANY_DATABASES, ''too many databases''),
     (ERROR_EXEC_TRANSACTION_ACTIVE, ''a transaction is already open''),
     (ERROR_EXEC_NO_TRANSACTION, ''no transaction is open''),
     (ERROR_EXEC_CANNOT_ROLLBACK, ''nothing to roll back to: this session has no database file''),
     (ERROR_EXEC_NOT_NULL, ''NULL in a NOT NULL column''),
     (ERROR_EXEC_NOT_UNIQUE, ''duplicate value in a unique column''),
     (ERROR_EXEC_CHECK_FAILED, ''row fails the table'' @ [QUOTE] @ ''s CHECK''),
     (ERROR_EXEC_VALUE_TOO_LONG, ''text is longer than the column allows''),
     (ERROR_EXEC_DIVIDE_BY_ZERO, ''division by zero''),
     (ERROR_EXEC_TABLE_TOO_WIDE, ''too many columns''),
     (ERROR_EXEC_SUBQUERY_NOT_SCALAR, ''a subquery compared with an operator must return one row''),
     (ERROR_IO_CANNOT_OPEN, ''cannot open the database file''),
     (ERROR_IO_BAD_FORMAT, ''not a database file, or it is truncated''),
     (ERROR_IO_VERSION, ''database file version not supported''),
     (ERROR_IO_WRITE, ''failed writing the database file''),
     (ERROR_IO_CHECKSUM, ''a page failed its checksum: the database file is damaged''),
     (ERROR_IO_TIMED_OUT, ''the client went quiet'')]"

definition errorCodeToString :: "error \<Rightarrow> string" where
  "errorCodeToString code = (if code = 0 then ''ok'' else case map_of error_texts code of Some text \<Rightarrow> text | None \<Rightarrow> ''error'')"

subsection \<open>A connection\<close>

definition PROTOCOL_V3 :: u32 where "PROTOCOL_V3 = 196608"
definition SSL_REQUEST :: u32 where "SSL_REQUEST = 80877103"
definition GSSENC_REQUEST :: u32 where "GSSENC_REQUEST = 80877104"
definition CANCEL_REQUEST :: u32 where "CANCEL_REQUEST = 80877102"
definition WIRE_BUFFER :: nat where "WIRE_BUFFER = 65536"
definition MAX_PREPARED :: nat where "MAX_PREPARED = 8"
definition IDLE_IN_TRANSACTION_SECONDS :: nat where "IDLE_IN_TRANSACTION_SECONDS = 30"

record prepared =
  st_used :: bool
  st_name :: string
  st_sql :: string
  st_params :: nat
  st_types :: "int list"

record portal =
  po_used :: bool
  po_name :: string
  po_sql :: string
  po_executed :: bool
  po_sent :: int
  po_result :: resultset

text \<open>
  A session with its socket. \<open>outgoing\<close> is the buffer, \<open>delivered\<close> what the socket took, \<open>incoming\<close> what the
  client has sent and nobody read. The \<open>k\<close>-th call takes or gives so many of the bytes there are, none
  when it fails; \<open>late k\<close> is whether a receive that fails would have failed for time, which it can
  only when the socket has a \<open>timeout\<close>. \<open>torn\<close> is what a substitution that fails half way leaves in the
  portal's text.
\<close>

record client =
  me :: thread
  cprog :: program
  clocks :: locks
  outgoing :: "byte list"
  delivered :: "byte list"
  incoming :: "byte list"
  sends :: "nat \<Rightarrow> nat \<Rightarrow> nat"
  receives :: "nat \<Rightarrow> nat \<Rightarrow> nat"
  late :: "nat \<Rightarrow> bool"
  timeout :: nat
  calls :: nat
  prepared :: "prepared list"
  portal :: portal
  ignoringUntilSync :: bool
  torn :: "string \<Rightarrow> string"

type_synonym 'a client_run = "(client, 'a) action"

subsection \<open>Bytes on the wire\<close>

function send_loop :: "(nat \<Rightarrow> nat \<Rightarrow> nat) \<Rightarrow> nat \<Rightarrow> byte list \<Rightarrow> byte list \<times> bool \<times> nat" where
  "send_loop f k bs =
     (if bs = [] then ([], True, k)
      else let n = min (f k (length bs)) (length bs)
           in if n = 0 then ([], False, Suc k)
              else let (sent, ok, k) = send_loop f (Suc k) (drop n bs) in (take n bs @ sent, ok, k))"
  by pat_completeness auto
termination by (relation "measure (\<lambda>(_, _, bs). length bs)") auto

declare send_loop.simps [simp del]

definition send_bytes :: "byte list \<Rightarrow> unit client_run" where
  "send_bytes bs c =
     (let (sent, ok, k) = send_loop (sends c) (calls c) bs
      in Some (if ok then Inr () else Inl ERROR_IO_WRITE, c\<lparr>delivered := delivered c @ sent, calls := k\<rparr>))"

definition flushWire :: "unit client_run" where
  "flushWire c = map_option (\<lambda>(r, c). (r, c\<lparr>outgoing := []\<rparr>)) (send_bytes (outgoing c) c)"

definition putBytes :: "byte list \<Rightarrow> unit client_run" where
  "putBytes bs =
     (if length bs > WIRE_BUFFER then andDo flushWire (\<lambda>_. send_bytes bs)
      else andDo (reading (\<lambda>c. if length (outgoing c) + length bs > WIRE_BUFFER then flushWire else passed ())) (\<lambda>_.
           changing (\<lambda>c. c\<lparr>outgoing := outgoing c @ bs\<rparr>)))"

definition be_bytes :: "u32 \<Rightarrow> byte list" where
  "be_bytes v = [ucast (drop_bit 24 v), ucast (drop_bit 16 v), ucast (drop_bit 8 v), ucast v]"

definition putI32 :: "u32 \<Rightarrow> unit client_run" where "putI32 v = putBytes (be_bytes v)"

definition readU32 :: "byte list \<Rightarrow> u32" where
  "readU32 bs = push_bit 24 (ucast (bs ! 0)) OR push_bit 16 (ucast (bs ! 1)) OR push_bit 8 (ucast (bs ! 2)) OR ucast (bs ! 3)"

function recv_loop :: "(nat \<Rightarrow> nat \<Rightarrow> nat) \<Rightarrow> nat \<Rightarrow> nat \<Rightarrow> byte list \<Rightarrow> byte list option \<times> byte list \<times> nat" where
  "recv_loop f k n bs =
     (if n = 0 then (Some [], bs, k)
      else let got = min (f k n) (min n (length bs))
           in if got = 0 then (None, bs, k)
              else (case recv_loop f (Suc k) (n - got) (drop got bs) of
                      (r, rest, k) \<Rightarrow> (map_option ((@) (take got bs)) r, rest, k)))"
  by pat_completeness auto
termination by (relation "measure (\<lambda>(_, _, n, _). n)") auto

declare recv_loop.simps [simp del]

definition receiveTimedOut :: "nat \<Rightarrow> client \<Rightarrow> bool" where
  "receiveTimedOut k c \<longleftrightarrow> timeout c > 0 \<and> late c k"

definition readExactly :: "nat \<Rightarrow> byte list client_run" where
  "readExactly n c =
     (case recv_loop (receives c) (calls c) n (incoming c) of
        (r, rest, k) \<Rightarrow>
          Some (case r of Some bs \<Rightarrow> Inr bs
                | None \<Rightarrow> Inl (if receiveTimedOut k c then ERROR_IO_TIMED_OUT else ERROR_IO_CANNOT_OPEN),
                c\<lparr>incoming := rest, calls := Suc k\<rparr>))"

subsection \<open>Messages\<close>

text \<open>
  A message is made in a buffer of its own, which \<open>startMessage\<close> empties: here it is the list so far.
  A part that has no room is left out.
\<close>

definition startMessage :: "byte list" where "startMessage = []"
definition addBytes :: "byte list \<Rightarrow> byte list \<Rightarrow> byte list" where
  "addBytes bs m = (if length m + length bs > WIRE_BUFFER then m else m @ bs)"
definition addI32 :: "int \<Rightarrow> byte list \<Rightarrow> byte list" where "addI32 n = addBytes (be_bytes (of_int n))"
definition addI16 :: "int \<Rightarrow> byte list \<Rightarrow> byte list" where "addI16 n = addBytes (drop 2 (be_bytes (of_int n)))"
definition addText :: "string \<Rightarrow> byte list \<Rightarrow> byte list" where "addText s = addBytes (map byte_of_char s)"
definition addCString :: "string \<Rightarrow> byte list \<Rightarrow> byte list" where "addCString s = addBytes (map byte_of_char s @ [0])"

definition add_parts :: "(byte list \<Rightarrow> byte list) list \<Rightarrow> byte list \<Rightarrow> byte list" where
  "add_parts parts m = foldl (\<lambda>m part. part m) m parts"

definition sendMessage :: "char \<Rightarrow> byte list \<Rightarrow> unit client_run" where
  "sendMessage kind m =
     andDo (putBytes [byte_of_char kind]) (\<lambda>_.
     andDo (putI32 (of_nat (length m + 4))) (\<lambda>_.
     putBytes m))"

definition sendReadyForQuery :: "unit client_run" where
  "sendReadyForQuery =
     reading (\<lambda>c. andDo (sendMessage (CHR ''Z'') (addText (if engineInTransaction (cprog c) then ''T'' else ''I'') startMessage)) (\<lambda>_. flushWire))"

definition error_message :: "error \<Rightarrow> byte list" where
  "error_message code = add_parts
     [addText ''S'', addCString ''ERROR'', addText ''V'', addCString ''ERROR'', addText ''C'', addCString ''42000'',
      addText ''M'', addCString (errorCodeToString code), addBytes [0]] startMessage"

definition sendError :: "error \<Rightarrow> unit client_run" where "sendError code = sendMessage (CHR ''E'') (error_message code)"

subsection \<open>Results\<close>

definition typeOid :: "coltype \<Rightarrow> int" where
  "typeOid t = (case t of TYPE_INT \<Rightarrow> OID_INT4 | TYPE_FLOAT \<Rightarrow> OID_FLOAT8 | TYPE_DATE \<Rightarrow> OID_DATE | _ \<Rightarrow> OID_TEXT)"

definition renderScalar :: "Value \<Rightarrow> string" where
  "renderScalar v =
     (case vtype v of TYPE_DATE \<Rightarrow> take 10 (dateToText (sint (intValue v)))
      | TYPE_FLOAT \<Rightarrow> print_g (floatValue v) | _ \<Rightarrow> print_int (sint (intValue v)))"

definition column_parts :: "string \<Rightarrow> coltype \<Rightarrow> (byte list \<Rightarrow> byte list) list" where
  "column_parts name t =
     (let oid = typeOid t
      in [addCString name, addI32 0, addI16 0, addI32 oid, addI16 (if oid = OID_INT4 then 4 else if oid = OID_FLOAT8 then 8 else -1),
          addI32 (-1), addI16 0])"

definition sendRowDescription :: "resultset \<Rightarrow> unit client_run" where
  "sendRowDescription r =
     sendMessage (CHR ''T'') (add_parts
       (addI16 (int (length (headers r))) #
        concat (map (\<lambda>i. column_parts (headers r ! i) (rtypes r ! i)) [0..<length (headers r)])) startMessage)"

definition value_parts :: "Value \<Rightarrow> (byte list \<Rightarrow> byte list) list" where
  "value_parts v =
     (if isNull v then [addI32 (-1)]
      else let text = (if vtype v = TYPE_TEXT then vtext v else renderScalar v) in [addI32 (int (length text)), addText text])"

definition sendDataRow :: "row \<Rightarrow> nat \<Rightarrow> unit client_run" where
  "sendDataRow r n =
     sendMessage (CHR ''D'') (add_parts (addI16 (int n) # concat (map (\<lambda>i. value_parts (rvals r ! i)) [0..<n])) startMessage)"

definition commandTag :: "string \<Rightarrow> resultset \<Rightarrow> string" where
  "commandTag sql r =
     (let (verb, rest) = takeWord sql; counted = (\<lambda>word n. word @ '' '' @ print_int n)
      in if headers r \<noteq> [] then counted ''SELECT'' (int (length (rrows r)))
         else if verb = ''INSERT'' then counted ''INSERT 0'' (rowsAffected r)
         else if verb = ''UPDATE'' \<or> verb = ''DELETE'' then counted verb (rowsAffected r)
         else let (object, _) = takeWord rest
              in if (verb = ''CREATE'' \<or> verb = ''DROP'') \<and> object \<noteq> []
                 then take (NAME_LEN div 2) verb @ '' '' @ take (NAME_LEN div 2) object
                 else if verb \<noteq> [] then verb else ''OK'')"

fun send_rows :: "row list \<Rightarrow> nat \<Rightarrow> unit client_run" where
  "send_rows [] n = passed ()"
| "send_rows (r # rs) n = andDo (sendDataRow r n) (\<lambda>_. send_rows rs n)"

definition sendTag :: "string \<Rightarrow> resultset \<Rightarrow> unit client_run" where
  "sendTag sql r = sendMessage (CHR ''C'') (addCString (commandTag sql r) startMessage)"

definition sendResult :: "string \<Rightarrow> resultset \<Rightarrow> unit client_run" where
  "sendResult sql r =
     andDo (if headers r = [] then passed () else andDo (sendRowDescription r) (\<lambda>_. send_rows (rrows r) (length (headers r)))) (\<lambda>_.
     sendTag sql r)"

subsection \<open>A query\<close>

definition process :: "string \<Rightarrow> resultset client_run" where
  "process sql c =
     map_option (\<lambda>(r, s, l). (r, c\<lparr>cprog := s, clocks := l\<rparr>)) (ProcessStatement (me c) sql (cprog c, clocks c))"

lemma nextStatement_shorter:
  "nextStatement room inText any out sql = Statement stmt rest \<Longrightarrow> length rest \<le> length sql \<and> (\<not> any \<longrightarrow> rest = [] \<or> length rest < length sql)"
proof (induction room inText any out sql rule: nextStatement.induct)
  case (2 room inText any out c sql)
  have t: "length (tl sql) \<le> length sql" "length (skip_comment (c # sql)) \<le> Suc (length sql)"
    using skip_comment_shorter [of "c # sql"] by simp_all
  have s: "length (skip_comment (CHR ''-'' # sql)) \<le> length sql"
    using skip_comment_shorter [of sql] by (simp add: skip_comment_def)
  show ?case
    using "2.prems" "2.IH" t s by (simp split: if_splits) linarith+
qed (auto split: if_splits)

lemma andDo_cong [fundef_cong]: "m = m' \<Longrightarrow> (\<And>x. k x = k' x) \<Longrightarrow> andDo m k = andDo m' k'"
  by (metis ext)

lemma caught_cong [fundef_cong]: "m = m' \<Longrightarrow> (\<And>x. k x = k' x) \<Longrightarrow> caught m k = caught m' k'"
  by (metis ext)

function run_statements :: "string \<Rightarrow> unit client_run" where
  "run_statements sql =
     (case nextStatement LINE_LEN False False [] sql of
        Overflow \<Rightarrow> sendError ERROR_TOO_MANY_TOKENS
      | NoMore \<Rightarrow> passed ()
      | Statement stmt rest \<Rightarrow>
          caught (process stmt) (\<lambda>r. case r of Inl e \<Rightarrow> sendError e
            | Inr out \<Rightarrow> andDo (sendResult stmt out) (\<lambda>_. if rest = [] then passed () else run_statements rest)))"
  by pat_completeness auto
termination
  by (relation "measure length") (auto dest: nextStatement_shorter)

declare run_statements.simps [simp del]

definition runQuery :: "string \<Rightarrow> unit client_run" where "runQuery sql = run_statements sql"

end
