(* ===== verification/Serve.thy ===== *)
theory Serve
  imports Wire
begin

text \<open>
  The messages of a client, \<^verbatim>\<open>16_wire.c\<close>: the extended query protocol with its prepared statements and
  its one portal, the handshake, serving one message, and a connection from its start to its end.
\<close>

subsection \<open>Reading a message\<close>

text \<open>A body is what is left of the message; a text is cut at its buffer without a word.\<close>

definition bodyString :: "nat \<Rightarrow> string reader" where
  "bodyString room bs =
     (let text = takeWhile (\<lambda>b. b \<noteq> 0) bs
      in if length text = length bs then None else Some (map char_of_byte (take (room - 1) text), drop (length text + 1) bs))"

definition bodyI16 :: "nat reader" where
  "bodyI16 bs = (if length bs < 2 then None else Some (unat (bs ! 0) * 256 + unat (bs ! 1), drop 2 bs))"

definition bodyI32 :: "int reader" where
  "bodyI32 bs = (if length bs < 4 then None else Some (sint (readU32 bs), drop 4 bs))"

text \<open>Reading is asked of the body once; what does not read is an error of the batch.\<close>

definition sendSimple :: "char \<Rightarrow> unit client_run" where "sendSimple kind = sendMessage kind startMessage"

definition failExtended :: "error \<Rightarrow> unit client_run" where
  "failExtended code = andDo (changing (\<lambda>c. c\<lparr>ignoringUntilSync := True\<rparr>)) (\<lambda>_. sendError code)"

definition parsed_or_fail :: "'a option \<Rightarrow> ('a \<Rightarrow> unit client_run) \<Rightarrow> unit client_run" where
  "parsed_or_fail r k = (case r of None \<Rightarrow> failExtended ERROR_IO_BAD_FORMAT | Some x \<Rightarrow> k x)"

subsection \<open>Prepared statements\<close>

definition find_slot :: "(prepared \<Rightarrow> bool) \<Rightarrow> prepared list \<Rightarrow> nat option" where
  "find_slot P ps = (case filter (\<lambda>i. P (ps ! i)) [0..<MAX_PREPARED] of [] \<Rightarrow> None | i # _ \<Rightarrow> Some i)"

definition findPrepared :: "string \<Rightarrow> prepared list \<Rightarrow> nat option" where
  "findPrepared name = find_slot (\<lambda>p. st_used p \<and> st_name p = name)"

definition claimPrepared :: "string \<Rightarrow> prepared list \<Rightarrow> (nat \<times> prepared list) option" where
  "claimPrepared name ps =
     (case findPrepared name ps of Some i \<Rightarrow> Some (i, ps)
      | None \<Rightarrow> map_option (\<lambda>i. (i, ps[i := (ps ! i)\<lparr>st_used := True, st_name := take (NAME_LEN - 1) name\<rparr>]))
                  (find_slot (\<lambda>p. \<not> st_used p) ps))"

text \<open>The types a \<open>Parse\<close> declares, put where the slot keeps them; those it does not declare stay.\<close>

fun declare_types :: "nat \<Rightarrow> nat \<Rightarrow> byte list \<Rightarrow> int list \<Rightarrow> bool \<times> int list" where
  "declare_types i 0 bs types = (True, types)"
| "declare_types i (Suc n) bs types =
     (case bodyI32 bs of None \<Rightarrow> (False, types)
      | Some (oid, bs) \<Rightarrow> declare_types (Suc i) n bs (if i < MAX_PARAMS then types[i := oid] else types))"

definition parse_head :: "(string \<times> string \<times> nat) reader" where
  "parse_head bs =
     do { (name, bs) \<leftarrow> bodyString NAME_LEN bs; (sql, bs) \<leftarrow> bodyString LINE_LEN bs; (n, bs) \<leftarrow> bodyI16 bs;
          Some ((name, sql, n), bs) }"

definition handleParse :: "byte list \<Rightarrow> unit client_run" where
  "handleParse body =
     parsed_or_fail (parse_head body) (\<lambda>((name, sql, n), bs).
     reading (\<lambda>c. case claimPrepared name (prepared c) of
         None \<Rightarrow> failExtended ERROR_EXEC_OUT_OF_MEMORY
       | Some (i, ps) \<Rightarrow>
           let (ok, types) = declare_types 0 n bs (st_types (ps ! i));
               p = (ps ! i)\<lparr>st_sql := sql, st_params := min n MAX_PARAMS, st_types := types\<rparr>
           in andDo (changing (\<lambda>c. c\<lparr>prepared := ps[i := p]\<rparr>)) (\<lambda>_.
              if ok then sendSimple (CHR ''1'') else failExtended ERROR_IO_BAD_FORMAT)))"

subsection \<open>Binding\<close>

fun skip_formats :: "nat \<Rightarrow> byte list \<Rightarrow> error + byte list" where
  "skip_formats 0 bs = Inr bs"
| "skip_formats (Suc n) bs =
     (case bodyI16 bs of None \<Rightarrow> Inl ERROR_IO_BAD_FORMAT
      | Some (code, bs) \<Rightarrow> if code \<noteq> 0 then Inl ERROR_SEMANTIC_TYPE_MISMATCH else skip_formats n bs)"

fun bound_values :: "nat \<Rightarrow> string option list reader" where
  "bound_values 0 bs = Some ([], bs)"
| "bound_values (Suc n) bs =
     do { (len, bs) \<leftarrow> bodyI32 bs;
          (v, bs) \<leftarrow> (if len < 0 then Some (None, bs)
                     else if length bs < nat len then None
                     else Some (Some (map char_of_byte (take (nat len) bs)), drop (nat len) bs));
          (vs, bs) \<leftarrow> bound_values n bs;
          Some (v # vs, bs) }"

definition bind_head :: "(string \<times> string \<times> nat) reader" where
  "bind_head bs =
     do { (name, bs) \<leftarrow> bodyString NAME_LEN bs; (source, bs) \<leftarrow> bodyString NAME_LEN bs; (n, bs) \<leftarrow> bodyI16 bs;
          Some ((name, source, n), bs) }"

definition bind_values :: "string option list reader" where
  "bind_values bs = do { (n, bs) \<leftarrow> bodyI16 bs; if n > MAX_PARAMS then None else bound_values n bs }"

text \<open>The portal's text is what stands before a NUL that a parameter may have brought.\<close>

definition set_portal :: "(portal \<Rightarrow> portal) \<Rightarrow> unit client_run" where
  "set_portal f = changing (\<lambda>c. c\<lparr>portal := f (portal c)\<rparr>)"

definition bind_portal :: "string \<Rightarrow> prepared \<Rightarrow> string option list \<Rightarrow> unit client_run" where
  "bind_portal name p vs =
     (case substituteParameters LINE_LEN False (st_types p) vs False (st_sql p) [] of
        Inl e \<Rightarrow> andDo (reading (\<lambda>c. set_portal (\<lambda>q. q\<lparr>po_sql := torn c (po_sql q)\<rparr>))) (\<lambda>_. failExtended e)
      | Inr sql \<Rightarrow>
          andDo (set_portal (\<lambda>q. q\<lparr>po_name := name, po_used := True, po_sql := takeWhile (\<lambda>c. c \<noteq> NUL) sql,
                   po_executed := False, po_sent := 0\<rparr>)) (\<lambda>_.
          sendSimple (CHR ''2'')))"

definition handleBind :: "byte list \<Rightarrow> unit client_run" where
  "handleBind body =
     parsed_or_fail (bind_head body) (\<lambda>((name, source, n), bs).
     case skip_formats n bs of Inl e \<Rightarrow> failExtended e
     | Inr bs \<Rightarrow>
         reading (\<lambda>c. case findPrepared source (prepared c) of
             None \<Rightarrow> failExtended ERROR_SEMANTIC_TABLE_NOT_FOUND
           | Some i \<Rightarrow> parsed_or_fail (bind_values bs) (\<lambda>(vs, _). bind_portal name (prepared c ! i) vs)))"

subsection \<open>The portal\<close>

definition runPortal :: "unit client_run" where
  "runPortal =
     reading (\<lambda>c.
       if \<not> po_used (portal c) then failed ERROR_SEMANTIC_TABLE_NOT_FOUND
       else if po_executed (portal c) then passed ()
       else andDo (process (po_sql (portal c))) (\<lambda>out.
            set_portal (\<lambda>q. q\<lparr>po_result := out, po_executed := True, po_sent := 0\<rparr>)))"

text \<open>\<open>'S'\<close> or another letter for a portal, and the name.\<close>

definition target :: "(char \<times> string) reader" where
  "target bs = (if bs = [] then None
     else do { (name, rest) \<leftarrow> bodyString NAME_LEN (tl bs); Some ((char_of_byte (hd bs), name), rest) })"

definition send_shape :: "resultset \<Rightarrow> unit client_run" where
  "send_shape r = (if headers r = [] then sendSimple (CHR ''n'') else sendRowDescription r)"

definition stand_ins :: "prepared \<Rightarrow> nat \<Rightarrow> string option list" where
  "stand_ins p attempt = map (\<lambda>i. Some (probeLiteral (if i < st_params p then st_types p ! i else 0) attempt)) [0..<MAX_PARAMS]"

text \<open>A SELECT is run for its shape, with one guess at its parameters after the other.\<close>

fun probe :: "prepared \<Rightarrow> error \<Rightarrow> nat list \<Rightarrow> unit client_run" where
  "probe p err [] = failExtended err"
| "probe p err (attempt # rest) =
     (case substituteParameters LINE_LEN True (st_types p) (stand_ins p attempt) False (st_sql p) [] of
        Inl _ \<Rightarrow> failExtended ERROR_SYNTAX_EXPECTED_VALUE
      | Inr sql \<Rightarrow> caught (process (takeWhile (\<lambda>c. c \<noteq> NUL) sql)) (\<lambda>r. case r of Inl e \<Rightarrow> probe p e rest | Inr shape \<Rightarrow> send_shape shape))"

definition describe_statement :: "prepared \<Rightarrow> unit client_run" where
  "describe_statement p =
     andDo (sendMessage (CHR ''t'') (add_parts (addI16 (int (st_params p)) # replicate (st_params p) (addI32 0)) startMessage)) (\<lambda>_.
     if fst (takeWord (st_sql p)) \<noteq> ''SELECT'' then sendSimple (CHR ''n'')
     else probe p ERROR_SYNTAX_EXPECTED_VALUE [0, 1, 2])"

definition handleDescribe :: "byte list \<Rightarrow> unit client_run" where
  "handleDescribe body =
     parsed_or_fail (target body) (\<lambda>((what, name), _).
     if what = CHR ''S''
     then reading (\<lambda>c. case findPrepared name (prepared c) of
              None \<Rightarrow> failExtended ERROR_SEMANTIC_TABLE_NOT_FOUND | Some i \<Rightarrow> describe_statement (prepared c ! i))
     else caught runPortal (\<lambda>r. case r of Inl e \<Rightarrow> failExtended e
       | Inr _ \<Rightarrow> reading (\<lambda>c. send_shape (po_result (portal c)))))"

text \<open>
  Rows from \<open>po_sent\<close> on, so many as are asked for. The sum that the code computes in an \<^verbatim>\<open>int\<close> is exact here:
  where it would overflow, C gives it no meaning.
\<close>

definition rows_until :: "portal \<Rightarrow> int \<Rightarrow> int" where
  "rows_until q limit =
     (let n = int (length (rrows (po_result q))) in if limit > 0 \<and> po_sent q + limit < n then po_sent q + limit else n)"

definition send_portal :: "int \<Rightarrow> unit client_run" where
  "send_portal limit =
     reading (\<lambda>c. let q = portal c; r = po_result q; last = rows_until q limit
       in andDo (send_rows (take (nat (last - po_sent q)) (drop (nat (po_sent q)) (rrows r))) (length (headers r))) (\<lambda>_.
          andDo (set_portal (\<lambda>q. q\<lparr>po_sent := last\<rparr>)) (\<lambda>_.
          if last < int (length (rrows r)) then sendSimple (CHR ''s'') else sendTag (po_sql q) r)))"

definition handleExecute :: "byte list \<Rightarrow> unit client_run" where
  "handleExecute body =
     parsed_or_fail (do { (name, bs) \<leftarrow> bodyString NAME_LEN body; bodyI32 bs }) (\<lambda>(limit, _).
     caught runPortal (\<lambda>r. case r of Inl e \<Rightarrow> failExtended e | Inr _ \<Rightarrow> send_portal limit))"

definition handleClose :: "byte list \<Rightarrow> unit client_run" where
  "handleClose body =
     parsed_or_fail (target body) (\<lambda>((what, name), _).
     andDo (changing (\<lambda>c.
         if what = CHR ''S''
         then (case findPrepared name (prepared c) of None \<Rightarrow> c
               | Some i \<Rightarrow> c\<lparr>prepared := (prepared c)[i := (prepared c ! i)\<lparr>st_used := False\<rparr>]\<rparr>)
         else if po_used (portal c) \<and> po_name (portal c) = name
         then c\<lparr>portal := (portal c)\<lparr>po_used := False, po_executed := False\<rparr>\<rparr> else c)) (\<lambda>_.
     sendSimple (CHR ''3'')))"

subsection \<open>A connection\<close>

definition settings :: "(string \<times> string) list" where
  "settings = [(''server_version'', ''9.6.0 (minisql)''), (''server_encoding'', ''UTF8''), (''client_encoding'', ''UTF8''),
     (''DateStyle'', ''ISO, MDY''), (''standard_conforming_strings'', ''on''), (''integer_datetimes'', ''on''), (''TimeZone'', ''UTC'')]"

fun send_settings :: "(string \<times> string) list \<Rightarrow> unit client_run" where
  "send_settings [] = passed ()"
| "send_settings ((name, v) # rest) =
     andDo (sendMessage (CHR ''S'') (addCString v (addCString name startMessage))) (\<lambda>_. send_settings rest)"

text \<open>One packet of the startup exchange: the version it asks for.\<close>

definition startup_packet :: "u32 client_run" where
  "startup_packet =
     andDo (readExactly 4) (\<lambda>head.
     let n = unat (readU32 head)
     in if n < 8 \<or> n > WIRE_BUFFER then failed ERROR_IO_BAD_FORMAT
        else andDo (readExactly (n - 4)) (\<lambda>body. passed (readU32 body)))"

partial_function (option) startup :: "client \<Rightarrow> ((error + unit) \<times> client) option" where
  [code]: "startup c =
     do { (r, c) \<leftarrow> startup_packet c;
          case r of Inl e \<Rightarrow> Some (Inl e, c)
          | Inr version \<Rightarrow>
              if version = SSL_REQUEST \<or> version = GSSENC_REQUEST
              then do { (r, c) \<leftarrow> andDo (putBytes [byte_of_char (CHR ''N'')]) (\<lambda>_. flushWire) c;
                        case r of Inl e \<Rightarrow> Some (Inl e, c) | Inr _ \<Rightarrow> startup c }
              else if version = CANCEL_REQUEST then Some (Inl ERROR_IO_CANNOT_OPEN, c)
              else if version \<noteq> PROTOCOL_V3 then Some (Inl ERROR_IO_VERSION, c)
              else Some (Inr (), c) }"

definition handshake :: "unit client_run" where
  "handshake =
     andDo startup (\<lambda>_.
     andDo (sendMessage (CHR ''R'') (addI32 0 startMessage)) (\<lambda>_.
     andDo (send_settings settings) (\<lambda>_.
     andDo (sendMessage (CHR ''K'') (addI32 1 (addI32 1 startMessage))) (\<lambda>_.
     sendReadyForQuery))))"

definition handle :: "char \<Rightarrow> byte list \<Rightarrow> unit client_run" where
  "handle kind body =
     (if kind = CHR ''Q''
      then andDo (set_portal (\<lambda>q. q\<lparr>po_used := False, po_executed := False\<rparr>)) (\<lambda>_.
           andDo (runQuery (map char_of_byte (takeWhile (\<lambda>b. b \<noteq> 0) body))) (\<lambda>_. sendReadyForQuery))
      else if kind = CHR ''P'' then handleParse body
      else if kind = CHR ''B'' then handleBind body
      else if kind = CHR ''D'' then handleDescribe body
      else if kind = CHR ''E'' then handleExecute body
      else if kind = CHR ''C'' then handleClose body
      else if kind = CHR ''H'' then flushWire
      else if kind = CHR ''S'' then andDo (changing (\<lambda>c. c\<lparr>ignoringUntilSync := False\<rparr>)) (\<lambda>_. sendReadyForQuery)
      else failExtended ERROR_SYNTAX_INVALID_STATEMENT)"

text \<open>The rest of a message whose start has come: a client that stops there is gone.\<close>

definition read_body :: "nat \<Rightarrow> byte list client_run" where
  "read_body n = (if n = 0 then passed [] else caught (readExactly n) (\<lambda>r. case r of Inl _ \<Rightarrow> failed ERROR_IO_CANNOT_OPEN | Inr bs \<Rightarrow> passed bs))"

definition serveMessage :: "unit client_run" where
  "serveMessage =
     andDo (readExactly 5) (\<lambda>head.
     let kind = char_of_byte (hd head); n = unat (readU32 (tl head))
     in if n < 4 \<or> n > WIRE_BUFFER then failed ERROR_IO_BAD_FORMAT
        else andDo (read_body (n - 4)) (\<lambda>body.
             if kind = CHR ''X'' then failed ERROR_IO_CANNOT_OPEN
             else reading (\<lambda>c. if ignoringUntilSync c \<and> kind \<noteq> CHR ''S'' then passed () else handle kind body)))"

definition setIdleTimeout :: "nat \<Rightarrow> unit client_run" where "setIdleTimeout n = changing (\<lambda>c. c\<lparr>timeout := n\<rparr>)"

text \<open>Messages until one ends the connection.\<close>

partial_function (option) serve_loop :: "client \<Rightarrow> client option" where
  [code]: "serve_loop c =
     do { (r, c) \<leftarrow> andDo (setIdleTimeout (if engineInTransaction (cprog c) then IDLE_IN_TRANSACTION_SECONDS else 0)) (\<lambda>_. serveMessage) c;
          case r of Inl _ \<Rightarrow> Some c | Inr _ \<Rightarrow> serve_loop c }"

text \<open>The end: an open transaction is abandoned under the lock it still holds; the thread's own memory goes.\<close>

definition end_session :: "client \<Rightarrow> client option" where
  "end_session c =
     map_option (\<lambda>(_, c). c\<lparr>cprog := (cprog c)\<lparr>peng := set_exec freeExecutor (peng (cprog c))\<rparr>, clocks := sessionRelease (clocks c)\<rparr>)
       (if engineInTransaction (cprog c)
        then andDo (\<lambda>c. map_option (\<lambda>(r, s). (r, c\<lparr>cprog := s\<rparr>)) (abandonTransaction (cprog c))) (\<lambda>_.
             changing (\<lambda>c. let (s, l) = engineReleaseTransaction (me c) (cprog c, clocks c) in c\<lparr>cprog := s, clocks := l\<rparr>)) c
        else Some (Inr (), c))"

definition serveClient :: "client \<Rightarrow> client option" where
  "serveClient c =
     do { (r, c) \<leftarrow> handshake c;
          c \<leftarrow> (case r of Inl _ \<Rightarrow> Some c | Inr _ \<Rightarrow> serve_loop c);
          end_session c }"

end
