(* ===== verification/Pipeline.thy ===== *)
theory Pipeline
  imports Controller
begin

text \<open>
  What a statement leaves behind once \<open>ProcessStatement\<close> has answered: the locks a session holds, and
  what the log has of its changes.
\<close>

subsection \<open>Parts of the state a step leaves alone\<close>

definition leaves :: "('s \<Rightarrow> 'b) \<Rightarrow> ('s, 'a) action \<Rightarrow> bool" where
  "leaves f m \<longleftrightarrow> (\<forall>s r s'. m s = Some (r, s') \<longrightarrow> f s' = f s)"

named_theorems keep \<open>steps that keep a part of the state\<close>

lemma leavesD: "leaves f m \<Longrightarrow> m s = Some (r, s') \<Longrightarrow> f s' = f s"
  by (simp add: leaves_def)

lemma leaves_now [keep]:
  "leaves f (passed x)" "leaves f (failed e)" "leaves f (yielding r)" "leaves f (ensure b e)"
  by (auto simp: leaves_def ensure_def)

lemma leaves_changing [keep]: "(\<And>s. f (g s) = f s) \<Longrightarrow> leaves f (changing g)"
  by (simp add: leaves_def)

lemma leaves_some [keep]: "(\<And>s. f (g s) = f s) \<Longrightarrow> leaves f (\<lambda>s. Some (r, g s))"
  by (simp add: leaves_def)

lemma leaves_reading [keep]: "(\<And>s. leaves f (m s)) \<Longrightarrow> leaves f (reading m)"
  by (auto simp: leaves_def)

lemma leaves_andDo [keep]: "leaves f m \<Longrightarrow> (\<And>x. leaves f (k x)) \<Longrightarrow> leaves f (andDo m k)"
  by (fastforce simp: leaves_def andDo_def split: option.splits sum.splits)

lemma leaves_caught [keep]: "leaves f m \<Longrightarrow> (\<And>r. leaves f (k r)) \<Longrightarrow> leaves f (caught m k)"
  by (fastforce simp: leaves_def caught_def split: option.splits)

lemma leaves_if [keep]: "leaves f a \<Longrightarrow> leaves f b \<Longrightarrow> leaves f (if c then a else b)" by simp

lemma leaves_engine [keep]: "(\<And>s e. f (s\<lparr>peng := e\<rparr>) = f s) \<Longrightarrow> leaves f (on_engine m)"
  by (auto simp: leaves_def on_engine_def)

lemma leaves_trying [keep]: "(\<And>s r s'. g s = Some (r, s') \<Longrightarrow> f s' = f s) \<Longrightarrow> leaves f (trying g)"
  by (simp add: leaves_def)

lemma leaves_stepping [keep]: "(\<And>s. f (snd (g s)) = f s) \<Longrightarrow> leaves f (stepping g)"
  by (simp add: leaves_def) (metis snd_conv)

text \<open>The session's own flag of the lock it holds, and the engine's of its transaction.\<close>

definition flags :: "program \<Rightarrow> bool \<times> bool" where "flags s = (pholding s, ptransaction s)"

lemma flags_updates [simp]:
  "flags (s\<lparr>peng := e\<rparr>) = flags s" "flags (s\<lparr>pschema := b\<rparr>) = flags s" "flags (s\<lparr>ppages := n\<rparr>) = flags s"
  "flags (s\<lparr>ppath := p\<rparr>) = flags s" "flags (s\<lparr>proot := k\<rparr>) = flags s" "flags (s\<lparr>pfiles := fs\<rparr>) = flags s"
  "flags (s\<lparr>ppage := q\<rparr>) = flags s" "flags (s\<lparr>pcalls := c\<rparr>) = flags s"
  by (simp_all add: flags_def)

lemma pool_updates [simp]:
  "flags (set_pool g s) = flags s" "flags (count_open s) = flags s" "flags (settle s) = flags s" "flags (set_log w s) = flags s"
  by (simp_all add: set_pool_def count_open_def settle_def set_log_def split: option.split)

lemma fopen_flags: "fopen path s = (r, s') \<Longrightarrow> flags s' = flags s"
  by (auto simp: fopen_def Let_def)

lemma on_pool_flags [keep]: "leaves flags (on_pool g)"
  by (auto simp: leaves_def on_pool_def split: prod.splits)

lemma chain_flags [keep]: "leaves flags (trying (\<lambda>s. map_option (\<lambda>(r, p). (r, set_pool (\<lambda>_. p) s)) (g s)))"
  by (auto simp: leaves_def)

lemma commitDatabase_flags [keep]: "leaves flags commitDatabase"
  unfolding commitDatabase_def by (auto simp: Let_def split: prod.split intro!: keep)

lemma openForWrite_flags [keep]: "leaves flags (openForWrite path)"
  by (auto simp: leaves_def openForWrite_def Let_def split: prod.splits option.splits dest!: fopen_flags)

lemma closeDatabase_flags [keep]: "leaves flags closeDatabase"
  unfolding closeDatabase_def by (auto intro!: keep)

lemma load_flags [keep]: "leaves flags (load_blob path version chain blob)" "leaves flags (read_blob version pages chain f)"
  unfolding load_blob_def read_blob_def by (auto simp: Let_def intro!: keep)

lemma load_opened_flags [keep]: "leaves flags (load_opened path f)"
proof -
  have "leaves flags (\<lambda>s. case fopen path s of
      (None, s) \<Rightarrow> Some (Inl ERROR_IO_CANNOT_OPEN, s)
    | (Some g, s) \<Rightarrow> Some (Inr (), (set_pool (poolSetChecksums b \<circ> poolAdopt g pages) s)\<lparr>ppage := path\<rparr>))" for b pages
    by (auto simp: leaves_def split: prod.splits option.splits dest!: fopen_flags)
  then show ?thesis unfolding load_opened_def by (auto simp: Let_def split: prod.split option.split sum.split intro!: keep)
qed

lemma loadDatabase_flags [keep]: "leaves flags (loadDatabase path)"
proof -
  have "leaves flags (\<lambda>s. case fopen path s of (None, s) \<Rightarrow> Some (Inl ERROR_IO_CANNOT_OPEN, s) | (Some f, s) \<Rightarrow> load_opened path f s)"
    using load_opened_flags by (auto simp: leaves_def split: prod.splits option.splits dest!: fopen_flags)
  then show ?thesis unfolding loadDatabase_def by (auto intro!: keep)
qed

text \<open>A transaction's own statements change its flag and nothing touches the session's.\<close>

lemma leaves_part: "leaves flags m \<Longrightarrow> leaves pholding m" "leaves flags m \<Longrightarrow> leaves ptransaction m"
  by (auto simp: leaves_def flags_def)

lemma rollback_holding [keep]: "leaves pholding rollbackTransaction"
  unfolding rollbackTransaction_def
  by (auto simp: Let_def set_pool_def intro!: keep leaves_part [OF loadDatabase_flags] leaves_part [OF openForWrite_flags])

lemma transactions_holding [keep]: "leaves pholding beginTransaction" "leaves pholding commitTransaction"
  unfolding beginTransaction_def commitTransaction_def by (auto intro!: keep leaves_part [OF on_pool_flags])

lemma dispatch_holding [keep]: "leaves pholding (dispatch stmt out)"
  unfolding dispatch_def by (auto simp: said_def split: statement.split intro!: keep)

lemma dispatch_reads: "readsOnly stmt \<Longrightarrow> leaves ptransaction (dispatch stmt out)"
  unfolding dispatch_def by (auto simp: readsOnly_def split: statement.splits intro!: keep)

lemma execute_keeps:
  "leaves pholding (executeStatement subs stmt out)" "readsOnly stmt \<Longrightarrow> leaves ptransaction (executeStatement subs stmt out)"
  unfolding executeStatement_def by (auto intro!: keep dispatch_reads)

text \<open>The check keeps the kind of the statement.\<close>

lemma check_statement_keeps [keep]: "leaves flags (check_statement subs stmt)"
  by (auto simp: leaves_def check_statement_def)

lemma run_holding: "leaves pholding (run_statement shared subs stmt)"
  unfolding run_statement_def markSchemaChanged_def
  by (auto simp: Let_def split: prod.split intro!: keep execute_keeps leaves_part [OF check_statement_keeps] leaves_part [OF commitDatabase_flags])

lemma semantic_kind:
  "semanticCheck e stmt x = Some (Inr stmt', y) \<Longrightarrow> readsOnly stmt' = readsOnly stmt"
  by (cases stmt) (auto simp: semanticCheck_def readsOnly_def known_def andDo_Inr split: if_splits)

lemma check_kind:
  "check_statement subs stmt s = Some (Inr (subs', stmt'), s') \<Longrightarrow> readsOnly stmt' = readsOnly stmt"
proof -
  have "map_sum id g x = Inr y \<longleftrightarrow> (\<exists>z. x = Inr z \<and> y = g z)" for g :: "statement \<Rightarrow> subqueries \<times> statement" and x :: "error + statement" and y
    by (cases x) auto
  then show "check_statement subs stmt s = Some (Inr (subs', stmt'), s') \<Longrightarrow> readsOnly stmt' = readsOnly stmt"
    by (auto simp: check_statement_def dest: semantic_kind)
qed

lemma run_reads:
  assumes "readsOnly stmt" "run_statement True subs stmt s = Some (r, s')"
  shows "ptransaction s' = ptransaction s"
proof -
  have k: "leaves ptransaction (reading (\<lambda>s. let damaged = poolCorruptCount (epool (peng s))
       in andDo (executeStatement subs stmt blank_result) (\<lambda>out.
          andDo (reading (\<lambda>s. ensure (poolCorruptCount (epool (peng s)) = damaged) ERROR_IO_CHECKSUM)) (\<lambda>_.
          andDo (if changes_schema stmt then markSchemaChanged else passed ()) (\<lambda>_.
          andDo (reading (\<lambda>s. if \<not> True \<and> \<not> inTransaction s then commitDatabase else passed ())) (\<lambda>_.
          passed out))))))" if "readsOnly stmt" for subs stmt
    unfolding markSchemaChanged_def Let_def by (auto intro!: keep execute_keeps that)
  obtain q s1 where c: "check_statement subs stmt s = Some (q, s1)"
    using assms(2) by (auto simp: run_statement_def andDo_def split: option.splits)
  have e: "ptransaction s1 = ptransaction s" using leavesD [OF check_statement_keeps c] by (simp add: flags_def)
  show ?thesis
  proof (cases q)
    case (Inl err)
    then show ?thesis using assms(2) c e by (simp add: run_statement_def andDo_def)
  next
    case (Inr x)
    obtain subs' stmt' where x: "x = (subs', stmt')" by (cases x)
    have "readsOnly stmt'" using check_kind c Inr x assms(1) by metis
    from leavesD [OF k [OF this, of subs']] show ?thesis
      using assms(2) c e Inr x by (simp add: run_statement_def andDo_def)
  qed
qed

subsection \<open>Locks and transactions\<close>

text \<open>
  The session of thread \<open>t\<close> between two statements: it holds the engine lock exactly while its
  transaction is open, and whoever has one open holds the lock.
\<close>

definition disciplined :: "thread \<Rightarrow> program \<times> locks \<Rightarrow> bool" where
  "disciplined t = (\<lambda>(s, l). started l \<and> (writer l \<noteq> None \<longrightarrow> readers l = {}) \<and> (ptransaction s \<longrightarrow> writer l \<noteq> None) \<and>
     t \<notin> readers l \<and> (pholding s \<longleftrightarrow> writer l = Some t) \<and> (pholding s \<longrightarrow> ptransaction s))"

lemma locked_discipline:
  assumes d: "disciplined t (s, l)" and run: "locked t subs stmt (s, l) = Some (r, s', l')"
  shows "disciplined t (s', l') \<and> readers l' = readers l \<and> sessionCount l' = sessionCount l \<and> (writer l' = writer l \<or> readers l = {})"
proof -
  obtain shared l1 where L: "take_lock t (pholding s) (readsOnly stmt) l = Some (shared, l1)"
    using run by (cases "take_lock t (pholding s) (readsOnly stmt) l") (auto simp: locked_def)
  obtain q s1 where R0: "run_statement shared subs stmt s = Some (q, s1)"
    using run L by (cases "run_statement shared subs stmt s") (auto simp: locked_def)
  obtain h l2 where G0: "give_back t (pholding s1) shared (ptransaction s1) l1 = (h, l2)" by fastforce
  have e: "r = q" "s' = s1\<lparr>pholding := h\<rparr>" "l' = l2" using run L R0 G0 by (simp_all add: locked_def inTransaction_def)
  have R: "run_statement shared subs stmt s = Some (r, s1)" using R0 e by simp
  have G: "give_back t (pholding s) shared (ptransaction s1) l1 = (pholding s', l')" and tr: "ptransaction s' = ptransaction s1"
    using G0 e leavesD [OF run_holding R] by simp_all
  show ?thesis
  proof (cases "pholding s")
    case True
    then show ?thesis using d L G tr by (auto simp: disciplined_def take_lock_def give_back_def engineWriteUnlock_def rwWriteUnlock_def Let_def split: if_splits)
  next
    case out: False
    show ?thesis
    proof (cases "readsOnly stmt")
      case True
      then have "ptransaction s1 = ptransaction s" using run_reads [of stmt subs s r s1] R L out by (auto simp: take_lock_def Let_def split: if_splits)
      then show ?thesis using d L G tr out True
        by (auto simp: disciplined_def take_lock_def give_back_def engineReadLock_def rwReadLock_def engineReadUnlock_def rwReadUnlock_def Let_def split: if_splits)
    next
      case False
      then show ?thesis using d L G tr out
        by (auto simp: disciplined_def take_lock_def give_back_def engineWriteLock_def rwWriteLock_def engineWriteUnlock_def rwWriteUnlock_def Let_def split: if_splits)
    qed
  qed
qed

text \<open>
  C38: a session holds the engine lock between statements exactly while it has a transaction open. Whatever
  \<open>ProcessStatement\<close> is given and whether it succeeds, a session that holds the lock exactly in a
  transaction does so afterwards, the locks of other sessions are as they were, and a transaction is
  open only while its session holds the lock.
\<close>
theorem lock_follows_transaction:
  assumes "disciplined t (s, l)" "ProcessStatement t sql (s, l) = Some (r, s', l')"
  shows "disciplined t (s', l') \<and> readers l' = readers l \<and> sessionCount l' = sessionCount l \<and> (writer l' = writer l \<or> readers l = {})"
proof -
  have "(s', l') = (s, l) \<or> (\<exists>subs stmt. locked t subs stmt (s, l) = Some (r, s', l'))"
  proof (cases "tokenizeStatement (parena s) sql")
    case (Inr toks)
    show ?thesis
    proof (cases "toks = []")
      case False
      with Inr assms(2) obtain q where q: "parseStatement toks resetSubqueries = Some q"
        by (cases "parseStatement toks resetSubqueries") (simp_all add: ProcessStatement_def)
      show ?thesis
      proof (cases q)
        case out: (Inr x)
        obtain st subs where x: "x = (st, subs)" by (cases x)
        show ?thesis using assms(2) Inr False q out x by (cases st) (auto simp: ProcessStatement_def)
      qed (use assms(2) Inr False q in \<open>simp add: ProcessStatement_def\<close>)
    qed (use assms(2) Inr in \<open>simp add: ProcessStatement_def\<close>)
  qed (use assms(2) in \<open>simp add: ProcessStatement_def\<close>)
  then show ?thesis
  proof (elim disjE exE)
    fix subs stmt assume "locked t subs stmt (s, l) = Some (r, s', l')"
    then show ?thesis by (rule locked_discipline [OF assms(1)])
  qed (use assms(1) in simp)
qed

subsection \<open>What was acknowledged is in the log\<close>

lemma commit_marks:
  assumes "poolCommit p = (Inr (), p')" "walIsOpen (plog p)"
  shows "\<forall>f \<in> set (frames p'). \<not> unlogged f"
proof (cases "last_unlogged p")
  case None
  then have "p' = p" using assms by (simp add: poolCommit_def)
  then show ?thesis using None unfolding last_unlogged_spec(1) by (metis in_set_conv_nth)
next
  case (Some k)
  then show ?thesis using assms
    by (auto simp: poolCommit_def andThen_def mark_logged_def unlogged_def Let_def split: prod.splits sum.splits)
qed

lemma on_pool_Some:
  "on_pool f s = Some (r, s') \<longleftrightarrow> (\<exists>p. f (epool (peng s)) = (r, p) \<and> s' = s\<lparr>peng := (peng s)\<lparr>epool := p\<rparr>\<rparr>)"
  by (auto simp: on_pool_def split: prod.split)

lemma commit_database_logged:
  assumes "commitDatabase s = Some (Inr (), s')" "walIsOpen (log_of s')"
  shows "(\<forall>f \<in> set (frames (epool (peng s'))). \<not> unlogged f) \<and> \<not> pschema s'"
proof (cases "\<not> walIsOpen (log_of s) \<or> (\<not> poolHasDirty (epool (peng s)) \<and> \<not> pschema s)")
  case True
  then show ?thesis using assms by (auto simp: commitDatabase_def poolHasDirty_def unlogged_def)
next
  case False
  then obtain s1 p' where p: "poolCommit (epool (peng s1)) = (Inr (), p')" "s' = s1\<lparr>peng := (peng s1)\<lparr>epool := p'\<rparr>, pschema := False\<rparr>"
    using assms(1) by (auto simp: commitDatabase_def Let_def andDo_Inr on_pool_Some split: prod.split_asm if_splits)
  then have "walIsOpen (plog p')" using assms(2) by (simp add: log_of_def)
  then have "walIsOpen (plog (epool (peng s1)))" using p(1) by (auto simp: poolCommit_def split: if_splits)
  then show ?thesis using commit_marks [OF p(1)] p(2) by simp
qed

lemma run_logged:
  assumes run: "run_statement False subs stmt s = Some (Inr out, s')" and "\<not> ptransaction s'" "walIsOpen (log_of s')"
  shows "(\<forall>f \<in> set (frames (epool (peng s'))). \<not> unlogged f) \<and> \<not> pschema s'"
proof -
  obtain s2 where c: "(if \<not> inTransaction s2 then commitDatabase else passed ()) s2 = Some (Inr (), s')"
    using run by (auto simp: run_statement_def Let_def andDo_Inr)
  then have "\<not> inTransaction s2" using assms(2) by (auto simp: inTransaction_def split: if_splits)
  then show ?thesis using c commit_database_logged [OF _ assms(3)] by simp
qed


subsection \<open>A COMMIT\<close>

definition commit_program :: program where
  "commit_program = \<lparr>peng = (InitEngine (\<lambda>_. True) blank_value 100 demo_wal 1 256 16)\<lparr>epool := demo_pool\<rparr>,
     ptransaction = True, ppages = 1, pschema = False, ppath = ''d'', proot = -1, pholding = True, pfiles = (\<lambda>_. None), ppage = ''d'',
     popens = (\<lambda>_. True), pcreates = (\<lambda>_. None), prenames = (\<lambda>_. True), pcalls = 0, parena = (\<lambda>_. True)\<rparr>"

definition commit_locks :: locks where
  "commit_locks = \<lparr>started = True, sessionCount = 1, readers = {}, writer = Some 0, poolOwner = None\<rparr>"



lemma commit_word: "classifyWord ''commit'' = TOKEN_KEYWORD_COMMIT"
  by (simp add: classifyWord_def word_prefix_def keyword_cases_def PACK_4_LOWER_def PACK_4_def FOLD_def NUL_def strnicmp_def KEYWORD_MAX_def)

lemma commit_token: "next_token ''commit'' = Inr (TOKEN_KEYWORD_COMMIT, ''commit'', [])"
proof -
  have "read_word 0 ''commit'' = Inr (''commit'', [])"
    by (simp add: VALUE_LEN_def word_char_def is_alnum_def is_alpha_def is_lower_def is_upper_def is_digit_def)
  then show ?thesis by (simp only: next_token_def Let_def list.sel) (simp add: is_alpha_def is_lower_def commit_word)
qed

lemma commit_tokens: "tokenizeStatement (\<lambda>_. True) ''commit'' = Inr [\<lparr>tokType = TOKEN_KEYWORD_COMMIT, tokValue = ''commit''\<rparr>]"
  by (simp add: tokenizeStatement_def tokenize.simps commit_token pushToken_def NUL_def is_space_def MAX_TOKENS_def)

lemma commit_parsed:
  "parseStatement [\<lparr>tokType = TOKEN_KEYWORD_COMMIT, tokValue = ''commit''\<rparr>] resetSubqueries = Some (Inr (Some STMT_COMMIT, resetSubqueries))"
  by (simp add: parseStatement_def typeAt_def bare_statement_def with_subqueries_def endOfStatement_def got_def after_def)

lemma commit_runs:
  obtains out s' where "ProcessStatement 0 ''commit'' (commit_program, commit_locks) = Some (Inr out, s', commit_locks\<lparr>writer := None\<rparr>)"
    "\<not> ptransaction s'" "epool (peng s') = demo_pool"
proof -
  have check: "check_statement resetSubqueries STMT_COMMIT commit_program = Some (Inr (resetSubqueries, STMT_COMMIT),
      commit_program\<lparr>peng := set_exec (\<lambda>x. x\<lparr>unresolved := unresolved (exec (peng commit_program))\<rparr>) (peng commit_program)\<rparr>)"
    by (simp add: check_statement_def semanticCheck_def)
  have clean: "\<not> poolHasDirty demo_pool" by (simp add: poolHasDirty_def)
  obtain out s1 where run: "run_statement False resetSubqueries STMT_COMMIT commit_program = Some (Inr out, s1)"
    "\<not> ptransaction s1" "epool (peng s1) = demo_pool" "pholding s1"
    using check clean by (simp add: run_statement_def andDo_def executeStatement_def dispatch_def commitTransaction_def said_def
        subqueryTotal_def resetSubqueries_def changes_schema_def inTransaction_def commitDatabase_def commit_program_def set_exec_def)
  have "locked 0 resetSubqueries STMT_COMMIT (commit_program, commit_locks) = Some (Inr out, s1\<lparr>pholding := False\<rparr>, commit_locks\<lparr>writer := None\<rparr>)"
    using run by (simp add: locked_def take_lock_def give_back_def inTransaction_def commit_program_def commit_locks_def
        engineWriteUnlock_def rwWriteUnlock_def readsOnly_def)
  then have "ProcessStatement 0 ''commit'' (commit_program, commit_locks) = Some (Inr out, s1\<lparr>pholding := False\<rparr>, commit_locks\<lparr>writer := None\<rparr>)"
    using commit_tokens by (simp add: ProcessStatement_def commit_parsed commit_program_def)
  then show thesis by (rule that) (use run(2,3) in simp_all)
qed

theorem lock_follows_transaction_witness:
  "\<exists>out s'. ProcessStatement 0 ''commit'' (commit_program, commit_locks) = Some (Inr out, s', commit_locks\<lparr>writer := None\<rparr>) \<and>
     disciplined 0 (s', commit_locks\<lparr>writer := None\<rparr>) \<and> \<not> pholding s'"
proof -
  obtain out s' where run: "ProcessStatement 0 ''commit'' (commit_program, commit_locks) = Some (Inr out, s', commit_locks\<lparr>writer := None\<rparr>)"
    by (rule commit_runs)
  have "disciplined 0 (commit_program, commit_locks)" by (simp add: disciplined_def commit_program_def commit_locks_def)
  from lock_follows_transaction [OF this run] show ?thesis using run by (auto simp: disciplined_def)
qed


end
