(* ===== verification/Frames.thy ===== *)
theory Frames
  imports Serve Pipeline
begin

text \<open>
  What a client reads: the bytes sent for one message of the client are whole messages of the server, in
  the order they were made, each with its type and a length that counts itself; a connection that
  breaks has given the client a part of them from the start.
\<close>

subsection \<open>The stream\<close>

definition stream :: "client \<Rightarrow> byte list" where "stream c = delivered c @ outgoing c"

definition message_bytes :: "char \<times> byte list \<Rightarrow> byte list" where
  "message_bytes = (\<lambda>(kind, m). byte_of_char kind # be_bytes (of_nat (length m + 4)) @ m)"

definition wire :: "(char \<times> byte list) list \<Rightarrow> byte list" where "wire fs = concat (map message_bytes fs)"

lemma wire_append [simp]: "wire (fs @ gs) = wire fs @ wire gs" "wire [] = []" "wire (f # fs) = message_bytes f @ wire fs"
  by (simp_all add: wire_def)

definition kinds_of :: "(char \<times> byte list) list \<Rightarrow> char set" where "kinds_of fs = fst ` set fs"

lemma kinds_of_simps [simp]:
  "kinds_of [] = {}" "kinds_of (f # fs) = insert (fst f) (kinds_of fs)" "kinds_of (fs @ gs) = kinds_of fs \<union> kinds_of gs"
  by (auto simp: kinds_of_def)

text \<open>A step that puts these bytes into the stream; when it fails the client has a part of them.\<close>

definition puts :: "byte list \<Rightarrow> unit client_run \<Rightarrow> bool" where
  "puts bs m \<longleftrightarrow> (\<forall>c r c'. m c = Some (r, c') \<longrightarrow>
     ignoringUntilSync c' = ignoringUntilSync c \<and> prefix (delivered c') (stream c @ bs) \<and>
     (r = Inr () \<longrightarrow> stream c' = stream c @ bs))"

lemma send_loop_end:
  "send_loop f k [] = ([], True, k)"
  "bs \<noteq> [] \<Longrightarrow> min (f k (length bs)) (length bs) = 0 \<Longrightarrow> send_loop f k bs = ([], False, Suc k)"
  by (subst send_loop.simps, simp) (subst send_loop.simps, simp only: Let_def if_False refl if_True)

lemma send_loop_step:
  assumes "bs \<noteq> []" "n = min (f k (length bs)) (length bs)" "n \<noteq> 0"
  shows "send_loop f k bs = (case send_loop f (Suc k) (drop n bs) of (s, ok, k) \<Rightarrow> (take n bs @ s, ok, k))"
  using assms by (subst send_loop.simps) (simp only: Let_def if_False)

lemma send_loop_prefix: "send_loop f k bs = (sent, ok, k') \<Longrightarrow> prefix sent bs \<and> (ok \<longrightarrow> sent = bs)"
proof (induction f k bs arbitrary: sent ok k' rule: send_loop.induct)
  case (1 f k bs)
  show ?case
  proof (cases "bs = [] \<or> min (f k (length bs)) (length bs) = 0")
    case True
    then show ?thesis using send_loop_end(1) [of f k] send_loop_end(2) [of bs f k] "1.prems" by (cases "bs = []") auto
  next
    case False
    define n where "n = min (f k (length bs)) (length bs)"
    have n: "bs \<noteq> []" "n \<noteq> 0" using False by (simp_all add: n_def)
    obtain s o2 k2 where r: "send_loop f (Suc k) (drop n bs) = (s, o2, k2)" by (cases "send_loop f (Suc k) (drop n bs)")
    have e: "sent = take n bs @ s" "ok = o2"
      using "1.prems" unfolding send_loop_step [of bs n f k, OF n(1) n_def n(2)] r by simp_all
    have "prefix s (drop n bs) \<and> (o2 \<longrightarrow> s = drop n bs)" by (rule "1.IH" [OF n(1) n_def n(2) r])
    then have "prefix (take n bs @ s) (take n bs @ drop n bs) \<and> (o2 \<longrightarrow> take n bs @ s = take n bs @ drop n bs)"
      unfolding same_prefix_prefix by simp
    then show ?thesis unfolding e append_take_drop_id .
  qed
qed

lemma flush_stream:
  assumes "flushWire c = Some (r, c')"
  shows "ignoringUntilSync c' = ignoringUntilSync c \<and> outgoing c' = [] \<and> prefix (delivered c') (stream c) \<and> (r = Inr () \<longrightarrow> delivered c' = stream c)"
proof -
  obtain s ok k where l: "send_loop (sends c) (calls c) (outgoing c) = (s, ok, k)" by (cases "send_loop (sends c) (calls c) (outgoing c)")
  then show ?thesis using assms send_loop_prefix [OF l] by (auto simp: flushWire_def send_bytes_def stream_def split: if_splits)
qed

lemma puts_flush: "puts [] flushWire"
  using flush_stream by (auto simp: puts_def stream_def)

lemma puts_send:
  assumes "outgoing c = []" "send_bytes bs c = Some (r, c')"
  shows "ignoringUntilSync c' = ignoringUntilSync c \<and> prefix (delivered c') (stream c @ bs) \<and> (r = Inr () \<longrightarrow> stream c' = stream c @ bs)"
proof -
  obtain s ok k where l: "send_loop (sends c) (calls c) bs = (s, ok, k)" by (cases "send_loop (sends c) (calls c) bs")
  then show ?thesis using assms send_loop_prefix [OF l] by (auto simp: send_bytes_def stream_def split: if_splits)
qed

lemma prefix_further: "prefix xs (as @ bs) \<Longrightarrow> prefix xs (as @ bs @ cs)"
  by (metis append_assoc prefix_prefix)

lemma puts_seq:
  assumes a: "puts as m" and b: "\<And>x. puts bs (k x)"
  shows "puts (as @ bs) (andDo m k)"
  unfolding puts_def
proof (intro allI impI)
  fix c r c'' assume run: "andDo m k c = Some (r, c'')"
  obtain q c' where m: "m c = Some (q, c')" using run by (auto simp: andDo_def split: option.splits)
  note A = a [unfolded puts_def, rule_format, OF m]
  show "ignoringUntilSync c'' = ignoringUntilSync c \<and> prefix (delivered c'') (stream c @ as @ bs) \<and> (r = Inr () \<longrightarrow> stream c'' = stream c @ as @ bs)"
  proof (cases q)
    case (Inl e)
    then show ?thesis using A run m by (auto simp: andDo_def prefix_further)
  next
    case (Inr x)
    then have "k x c' = Some (r, c'')" using run m by (simp add: andDo_def)
    then show ?thesis using A b [unfolded puts_def, rule_format, of x c' r c''] Inr by simp
  qed
qed

lemma puts_putBytes: "puts bs (putBytes bs)"
proof (cases "length bs > WIRE_BUFFER")
  case True
  have "ignoringUntilSync c'' = ignoringUntilSync c \<and> prefix (delivered c'') (stream c @ bs) \<and> (r = Inr () \<longrightarrow> stream c'' = stream c @ bs)"
    if run: "andDo flushWire (\<lambda>_. send_bytes bs) c = Some (r, c'')" for c r c''
  proof -
    obtain q c' where f: "flushWire c = Some (q, c')" using run by (auto simp: andDo_def split: option.splits)
    note F = flush_stream [OF f]
    show ?thesis
    proof (cases q)
      case (Inl e)
      then show ?thesis using F f run by (auto simp: andDo_def)
    next
      case (Inr x)
      then have "send_bytes bs c' = Some (r, c'')" using f run by (simp add: andDo_def)
      then show ?thesis using puts_send [of c' bs r c''] F Inr by (auto simp: stream_def)
    qed
  qed
  then show ?thesis unfolding puts_def putBytes_def using True by simp
next
  case False
  have "puts [] (reading (\<lambda>c. if length (outgoing c) + length bs > WIRE_BUFFER then flushWire else passed ()))"
    using puts_flush by (auto simp: puts_def stream_def)
  moreover have "puts bs (changing (\<lambda>c. c\<lparr>outgoing := outgoing c @ bs\<rparr>))" by (auto simp: puts_def stream_def)
  ultimately show ?thesis using False puts_seq [of "[]" _ bs] by (simp add: putBytes_def)
qed

lemma puts_message: "puts (wire [(kind, m)]) (sendMessage kind m)"
proof -
  have "puts ([byte_of_char kind] @ be_bytes (of_nat (length m + 4)) @ m) (sendMessage kind m)"
    unfolding sendMessage_def putI32_def by (intro puts_seq puts_putBytes)
  then show ?thesis by (simp add: wire_def message_bytes_def)
qed

subsection \<open>Messages fit their buffer\<close>

definition part_fits :: "(byte list \<Rightarrow> byte list) \<Rightarrow> bool" where
  "part_fits part \<longleftrightarrow> (\<forall>m. length m \<le> WIRE_BUFFER \<longrightarrow> length (part m) \<le> WIRE_BUFFER)"

lemma part_fits_add [simp]:
  "part_fits (addBytes bs)" "part_fits (addI32 n)" "part_fits (addI16 n)" "part_fits (addText s)" "part_fits (addCString s)"
  by (auto simp: part_fits_def addBytes_def addI32_def addI16_def addText_def addCString_def)

lemma add_parts_fits: "\<forall>part \<in> set parts. part_fits part \<Longrightarrow> length m \<le> WIRE_BUFFER \<Longrightarrow> length (add_parts parts m) \<le> WIRE_BUFFER"
  by (induction parts arbitrary: m) (auto simp: add_parts_def part_fits_def)

lemma start_fits [simp]: "length startMessage \<le> WIRE_BUFFER" by (simp add: startMessage_def)

lemma part_fitsD: "part_fits part \<Longrightarrow> length m \<le> WIRE_BUFFER \<Longrightarrow> length (part m) \<le> WIRE_BUFFER"
  by (simp add: part_fits_def)

subsection \<open>Steps that send messages\<close>

text \<open>
  \<open>P\<close> relates the skip flag before, the messages sent and the flag after. A step that fails has broken
  the connection, or found it broken.
\<close>

type_synonym protocol = "bool \<Rightarrow> (char \<times> byte list) list \<Rightarrow> bool \<Rightarrow> bool"

definition sends_as :: "protocol \<Rightarrow> unit client_run \<Rightarrow> bool" where
  "sends_as P m \<longleftrightarrow> (\<forall>c r c'. m c = Some (r, c') \<longrightarrow>
     (\<exists>fs. (\<forall>(kind, body) \<in> set fs. length body \<le> WIRE_BUFFER) \<and> prefix (delivered c') (stream c @ wire fs) \<and>
        (r = Inr () \<longrightarrow> stream c' = stream c @ wire fs \<and> P (ignoringUntilSync c) fs (ignoringUntilSync c'))))"

definition followed :: "protocol \<Rightarrow> protocol \<Rightarrow> protocol" where
  "followed P Q i fs k \<longleftrightarrow> (\<exists>as bs j. fs = as @ bs \<and> P i as j \<and> Q j bs k)"

lemma sends_as_weaken: "sends_as P m \<Longrightarrow> (\<And>i fs j. P i fs j \<Longrightarrow> Q i fs j) \<Longrightarrow> sends_as Q m"
  unfolding sends_as_def by meson

lemma sends_seq:
  assumes a: "sends_as P m" and b: "\<And>x. sends_as Q (k x)"
  shows "sends_as (followed P Q) (andDo m k)"
  unfolding sends_as_def
proof (intro allI impI)
  fix c r c'' assume run: "andDo m k c = Some (r, c'')"
  obtain q c' where m: "m c = Some (q, c')" using run by (auto simp: andDo_def split: option.splits)
  obtain fs where A: "\<forall>(kind, body) \<in> set fs. length body \<le> WIRE_BUFFER" "prefix (delivered c') (stream c @ wire fs)"
    "q = Inr () \<Longrightarrow> stream c' = stream c @ wire fs \<and> P (ignoringUntilSync c) fs (ignoringUntilSync c')"
    using a [unfolded sends_as_def, rule_format, OF m] by blast
  show "\<exists>fs. (\<forall>(kind, body) \<in> set fs. length body \<le> WIRE_BUFFER) \<and> prefix (delivered c'') (stream c @ wire fs) \<and>
        (r = Inr () \<longrightarrow> stream c'' = stream c @ wire fs \<and> followed P Q (ignoringUntilSync c) fs (ignoringUntilSync c''))"
  proof (cases q)
    case (Inl e)
    then show ?thesis using A run m by (auto simp: andDo_def)
  next
    case (Inr x)
    then have k: "k x c' = Some (r, c'')" using run m by (simp add: andDo_def)
    obtain gs where B: "\<forall>(kind, body) \<in> set gs. length body \<le> WIRE_BUFFER" "prefix (delivered c'') (stream c' @ wire gs)"
      "r = Inr () \<Longrightarrow> stream c'' = stream c' @ wire gs \<and> Q (ignoringUntilSync c') gs (ignoringUntilSync c'')"
      using b [unfolded sends_as_def, rule_format, OF k] by blast
    show ?thesis using A B Inr by (intro exI [of _ "fs @ gs"]) (auto simp: followed_def)
  qed
qed

lemma sends_puts:
  assumes "puts (wire fs) m" "\<forall>(kind, body) \<in> set fs. length body \<le> WIRE_BUFFER" "\<And>i. P i fs i"
  shows "sends_as P m"
  unfolding sends_as_def
proof (intro allI impI exI [of _ fs] conjI)
  fix c r c' assume run: "m c = Some (r, c')"
  note A = assms(1) [unfolded puts_def, rule_format, OF run]
  show "prefix (delivered c') (stream c @ wire fs)" using A by simp
  show "r = Inr () \<Longrightarrow> stream c' = stream c @ wire fs" using A by simp
  show "P (ignoringUntilSync c) fs (ignoringUntilSync c')" using A assms(3) by simp
qed (rule assms(2))

subsection \<open>What each message is answered with\<close>

named_theorems sent \<open>what steps send\<close>

text \<open>
  A step that touches neither the stream nor the flag; an answer without errors; one that may hold an
  error, of a query; one of the extended protocol, where an error sets the flag; and one that ends with
  the one \<^verbatim>\<open>ReadyForQuery\<close> there is.
\<close>

definition silent :: "'a client_run \<Rightarrow> bool" where
  "silent m \<longleftrightarrow> (\<forall>c r c'. m c = Some (r, c') \<longrightarrow>
     outgoing c' = outgoing c \<and> delivered c' = delivered c \<and> ignoringUntilSync c' = ignoringUntilSync c)"

definition answered :: protocol where
  "answered i fs j \<longleftrightarrow> j = i \<and> CHR ''Z'' \<notin> kinds_of fs \<and> CHR ''E'' \<notin> kinds_of fs"
definition replied :: protocol where "replied i fs j \<longleftrightarrow> j = i \<and> CHR ''Z'' \<notin> kinds_of fs"
definition extended :: protocol where
  "extended i fs j \<longleftrightarrow> CHR ''Z'' \<notin> kinds_of fs \<and> (if CHR ''E'' \<in> kinds_of fs then j else j = i)"
definition readied :: protocol where
  "readied i fs j \<longleftrightarrow> j = i \<and> (\<exists>gs m. fs = gs @ [(CHR ''Z'', m)] \<and> CHR ''Z'' \<notin> kinds_of gs)"

lemma answered_is: "sends_as answered m \<Longrightarrow> sends_as replied m" "sends_as answered m \<Longrightarrow> sends_as extended m"
  by (erule sends_as_weaken, simp add: answered_def replied_def extended_def)+

lemma answered_then:
  "sends_as answered m \<Longrightarrow> (\<And>x. sends_as answered (k x)) \<Longrightarrow> sends_as answered (andDo m k)"
  "sends_as answered m \<Longrightarrow> (\<And>x. sends_as extended (k x)) \<Longrightarrow> sends_as extended (andDo m k)"
  "sends_as replied m \<Longrightarrow> (\<And>x. sends_as replied (k x)) \<Longrightarrow> sends_as replied (andDo m k)"
  "sends_as replied m \<Longrightarrow> (\<And>x. sends_as readied (k x)) \<Longrightarrow> sends_as readied (andDo m k)"
  by (rule sends_as_weaken [OF sends_seq], assumption, assumption,
      fastforce simp: followed_def answered_def replied_def extended_def readied_def)+

lemma sends_passed: "sends_as answered (passed ())" "sends_as answered (\<lambda>c. Some (Inr (), c))"
  by (auto simp: sends_as_def answered_def stream_def intro!: exI [of _ "[]"])

lemma sends_silent:
  "silent m \<Longrightarrow> (\<And>x. sends_as P (k x)) \<Longrightarrow> sends_as P (andDo m k)"
  "silent m \<Longrightarrow> (\<And>r. sends_as P (h r)) \<Longrightarrow> sends_as P (caught m h)"
  "(\<And>c. sends_as P (f c)) \<Longrightarrow> sends_as P (reading f)"
proof -
  show "sends_as P (reading f)" if "\<And>c. sends_as P (f c)" using that by (simp add: sends_as_def)
  assume m: "silent m"
  show "sends_as P (andDo m k)" if k: "\<And>x. sends_as P (k x)"
    unfolding sends_as_def
  proof (intro allI impI)
    fix c r c'' assume run: "andDo m k c = Some (r, c'')"
    obtain q c' where q: "m c = Some (q, c')" using run by (auto simp: andDo_def split: option.splits)
    note M = m [unfolded silent_def, rule_format, OF q]
    show "\<exists>fs. (\<forall>(kind, body) \<in> set fs. length body \<le> WIRE_BUFFER) \<and> prefix (delivered c'') (stream c @ wire fs) \<and>
        (r = Inr () \<longrightarrow> stream c'' = stream c @ wire fs \<and> P (ignoringUntilSync c) fs (ignoringUntilSync c''))"
    proof (cases q)
      case (Inl e)
      then show ?thesis using run q M by (auto simp: andDo_def stream_def intro!: exI [of _ "[]"])
    next
      case (Inr x)
      then have "k x c' = Some (r, c'')" using run q by (simp add: andDo_def)
      from k [unfolded sends_as_def, rule_format, OF this] show ?thesis using M by (simp add: stream_def)
    qed
  qed
  show "sends_as P (caught m h)" if h: "\<And>r. sends_as P (h r)"
    unfolding sends_as_def
  proof (intro allI impI)
    fix c r c'' assume run: "caught m h c = Some (r, c'')"
    obtain q c' where q: "m c = Some (q, c')" "h q c' = Some (r, c'')" using run by (auto simp: caught_def split: option.splits)
    note M = m [unfolded silent_def, rule_format, OF q(1)]
    from h [unfolded sends_as_def, rule_format, OF q(2)] M
    show "\<exists>fs. (\<forall>(kind, body) \<in> set fs. length body \<le> WIRE_BUFFER) \<and> prefix (delivered c'') (stream c @ wire fs) \<and>
        (r = Inr () \<longrightarrow> stream c'' = stream c @ wire fs \<and> P (ignoringUntilSync c) fs (ignoringUntilSync c''))"
      by (simp add: stream_def)
  qed
qed

lemma sends_message:
  assumes "length m \<le> WIRE_BUFFER"
  shows "kind \<noteq> CHR ''Z'' \<Longrightarrow> kind \<noteq> CHR ''E'' \<Longrightarrow> sends_as answered (sendMessage kind m)"
    "kind \<noteq> CHR ''Z'' \<Longrightarrow> sends_as replied (sendMessage kind m)"
  using assms by (auto intro!: sends_puts [OF puts_message] simp: answered_def replied_def)

text \<open>Steps that send nothing.\<close>

lemma silent_now [sent]:
  "silent (passed x)" "silent (failed e)"
  "(\<And>c. outgoing (f c) = outgoing c \<and> delivered (f c) = delivered c \<and> ignoringUntilSync (f c) = ignoringUntilSync c) \<Longrightarrow> silent (changing f)"
  by (auto simp: silent_def)

lemma silent_steps [sent]:
  "silent m \<Longrightarrow> (\<And>x. silent (k x)) \<Longrightarrow> silent (andDo m k)" "(\<And>c. silent (g c)) \<Longrightarrow> silent (reading g)"
  "silent m \<Longrightarrow> (\<And>r. silent (h r)) \<Longrightarrow> silent (caught m h)"
  by (auto simp: silent_def andDo_def caught_def split: option.splits sum.splits)

lemma silent_set_portal [sent]: "silent (set_portal f)"
  by (simp add: set_portal_def silent_def)

lemma silent_process [sent]: "silent (process sql)" by (auto simp: silent_def process_def)

lemma silent_read [sent]: "silent (readExactly n)"
  by (auto simp: silent_def readExactly_def split: prod.splits)

lemma silent_runPortal [sent]: "silent runPortal"
  unfolding runPortal_def by (auto intro!: sent)

subsection \<open>The handlers\<close>

lemma sends_error [sent]: "sends_as replied (sendError e)"
proof -
  have "length (error_message e) \<le> WIRE_BUFFER"
    unfolding error_message_def by (rule add_parts_fits) auto
  then show ?thesis by (auto simp: sendError_def intro: sends_message(2))
qed

lemma sends_fail [sent]: "sends_as extended (failExtended e)"
  unfolding sends_as_def
proof (intro allI impI)
  fix c r c' assume "failExtended e c = Some (r, c')"
  then have run: "sendMessage (CHR ''E'') (error_message e) (c\<lparr>ignoringUntilSync := True\<rparr>) = Some (r, c')"
    by (simp add: failExtended_def sendError_def andDo_def)
  have fits: "length (error_message e) \<le> WIRE_BUFFER" unfolding error_message_def by (rule add_parts_fits) auto
  from puts_message [unfolded puts_def, rule_format, OF run] fits
  show "\<exists>fs. (\<forall>(kind, body) \<in> set fs. length body \<le> WIRE_BUFFER) \<and> prefix (delivered c') (stream c @ wire fs) \<and>
      (r = Inr () \<longrightarrow> stream c' = stream c @ wire fs \<and> extended (ignoringUntilSync c) fs (ignoringUntilSync c'))"
    by (intro exI [of _ "[(CHR ''E'', error_message e)]"]) (auto simp: stream_def extended_def)
qed

lemma sends_if [sent]: "sends_as P a \<Longrightarrow> sends_as P b \<Longrightarrow> sends_as P (if x then a else b)" by simp

lemma sends_simple [sent]: "kind \<noteq> CHR ''Z'' \<Longrightarrow> kind \<noteq> CHR ''E'' \<Longrightarrow> sends_as answered (sendSimple kind)"
  by (simp add: sendSimple_def sends_message)

lemma column_parts_fit: "part \<in> set (column_parts name t) \<Longrightarrow> part_fits part"
  by (auto simp: column_parts_def Let_def)

lemma value_parts_fit: "part \<in> set (value_parts v) \<Longrightarrow> part_fits part"
  by (auto simp: value_parts_def Let_def split: if_splits)

lemma sends_results [sent]:
  "sends_as answered (sendRowDescription out)" "sends_as answered (sendDataRow row n)" "sends_as answered (sendTag sql out)"
proof -
  have "length (add_parts (addI16 (int (length (headers out))) #
      concat (map (\<lambda>i. column_parts (headers out ! i) (rtypes out ! i)) [0..<length (headers out)])) startMessage) \<le> WIRE_BUFFER"
    by (rule add_parts_fits) (auto dest: column_parts_fit)
  then show "sends_as answered (sendRowDescription out)" unfolding sendRowDescription_def by (rule sends_message(1)) simp_all
  have "length (add_parts (addI16 (int n) # concat (map (\<lambda>i. value_parts (rvals row ! i)) [0..<n])) startMessage) \<le> WIRE_BUFFER"
    by (rule add_parts_fits) (auto dest: value_parts_fit)
  then show "sends_as answered (sendDataRow row n)" unfolding sendDataRow_def by (rule sends_message(1)) simp_all
  have "length (addCString (commandTag sql out) startMessage) \<le> WIRE_BUFFER" by (rule part_fitsD) simp_all
  then show "sends_as answered (sendTag sql out)" unfolding sendTag_def by (rule sends_message(1)) simp_all
qed

lemma sends_rows [sent]: "sends_as answered (send_rows rows n)"
proof (induction rows)
  case (Cons row rows)
  show ?case unfolding send_rows.simps by (rule answered_then(1) [OF sends_results(2) Cons])
qed (simp add: sends_passed)

lemma sends_result [sent]: "sends_as answered (sendResult sql out)"
proof -
  have "sends_as answered (andDo (sendRowDescription out) (\<lambda>_. send_rows (rrows out) (length (headers out))))"
    by (rule answered_then(1) [OF sends_results(1) sends_rows])
  then show ?thesis unfolding sendResult_def
    by (rule answered_then(1) [OF sends_if [OF sends_passed(1)] sends_results(3)])
qed

lemmas query_leaves = sends_passed [THEN answered_is(1)] sends_result [THEN answered_is(1)]

lemma sends_statements [sent]: "sends_as replied (run_statements sql)"
proof (induction sql rule: run_statements.induct)
  case (1 sql)
  show ?case
  proof (cases "nextStatement LINE_LEN False False [] sql")
    case (Statement stmt rest)
    have "sends_as replied (andDo (sendResult stmt out) (\<lambda>_. if rest = [] then passed () else run_statements rest))" for out
      using 1 [OF Statement] by (auto intro!: answered_then(3) query_leaves)
    then show ?thesis unfolding run_statements.simps [of sql] Statement
      by (auto intro!: sends_silent(2) silent_process sends_error split: sum.split)
  qed (auto simp: run_statements.simps [of sql] intro: sends_error query_leaves)
qed

lemma sends_shape [sent]: "sends_as answered (send_shape out)"
  by (auto simp: send_shape_def intro: sent)

lemmas extended_leaves = sends_fail sends_simple [THEN answered_is(2)] sends_shape [THEN answered_is(2)]

lemma sends_parsed [sent]: "(\<And>x. sends_as extended (k x)) \<Longrightarrow> sends_as extended (parsed_or_fail r k)"
  by (auto simp: parsed_or_fail_def intro: sent split: option.split)

lemma handlers_send [sent]:
  "sends_as extended (handleParse body)" "sends_as extended (handleBind body)" "sends_as extended (handleClose body)"
proof -
  show "sends_as extended (handleParse body)" unfolding handleParse_def
    by (auto simp: Let_def intro!: sends_parsed sends_silent(1,3) extended_leaves silent_now(3) split: option.split prod.split)
  have "sends_as extended (bind_portal name p vs)" for name p vs unfolding bind_portal_def
    by (auto intro!: sends_silent(1) extended_leaves silent_set_portal silent_steps(2) split: sum.split)
  then show "sends_as extended (handleBind body)" unfolding handleBind_def
    by (auto intro!: sends_parsed sends_silent(3) sends_fail split: option.split sum.split prod.split)
  have "silent (changing (\<lambda>c. if b then (case g c of None \<Rightarrow> c | Some i \<Rightarrow> c\<lparr>prepared := h i c\<rparr>) else if u c then c\<lparr>portal := q c\<rparr> else c))"
    for b g h u q by (auto simp: silent_def split: option.split)
  then show "sends_as extended (handleClose body)" unfolding handleClose_def
    by (auto intro!: sends_parsed sends_silent(1) extended_leaves simp del: action_simps split: prod.split)
qed

lemma sends_probe [sent]: "sends_as extended (probe p e attempts)"
  by (induction p e attempts rule: probe.induct)
     (auto intro!: extended_leaves sends_silent(2) silent_process split: sum.split)

lemma handlers_run [sent]: "sends_as extended (handleDescribe body)" "sends_as extended (handleExecute body)"
proof -
  have fits: "length (add_parts (addI16 (int (st_params p)) # replicate (st_params p) (addI32 0)) startMessage) \<le> WIRE_BUFFER" for p
    by (rule add_parts_fits) auto
  have "sends_as extended (describe_statement p)" for p unfolding describe_statement_def
    by (rule answered_then(2) [OF sends_message(1) [OF fits]]) (auto intro: sends_probe extended_leaves simp del: probe.simps)
  then show "sends_as extended (handleDescribe body)" unfolding handleDescribe_def
    by (auto intro!: sends_parsed sends_silent(2,3) silent_runPortal extended_leaves split: option.split sum.split prod.split)
  have "sends_as answered (send_portal limit)" for limit unfolding send_portal_def Let_def
    by (intro sends_silent(3) answered_then(1) [OF sends_rows] sends_silent(1) [OF silent_set_portal] sends_if sends_simple sends_results(3)) simp_all
  from answered_is(2) [OF this] show "sends_as extended (handleExecute body)" unfolding handleExecute_def
    by (auto intro!: sends_parsed sends_silent(2) sends_fail silent_runPortal split: sum.split prod.split)
qed

lemma sends_ready [sent]: "sends_as readied sendReadyForQuery"
proof -
  have "sends_as readied (andDo (sendMessage (CHR ''Z'') m) (\<lambda>_. flushWire))" if "length m \<le> WIRE_BUFFER" for m
    using puts_seq [OF puts_message puts_flush, of "CHR ''Z''" m] that
    by (intro sends_puts [of "[(CHR ''Z'', m)]"]) (auto simp: readied_def)
  then show ?thesis unfolding sendReadyForQuery_def by (intro sends_silent(3)) (simp add: part_fitsD)
qed

lemma sends_handle:
  "kind = CHR ''Q'' \<Longrightarrow> sends_as readied (handle kind body)"
  "kind \<noteq> CHR ''Q'' \<Longrightarrow> kind \<noteq> CHR ''S'' \<Longrightarrow> sends_as extended (handle kind body)"
proof -
  show "sends_as readied (handle kind body)" if "kind = CHR ''Q''"
    using that unfolding handle_def runQuery_def
    by (auto intro!: sends_silent(1) [OF silent_set_portal] answered_then(4) sends_statements sends_ready)
  have "sends_as extended flushWire" by (rule sends_puts [of "[]"]) (auto simp: puts_flush extended_def)
  then show "sends_as extended (handle kind body)" if "kind \<noteq> CHR ''Q''" "kind \<noteq> CHR ''S''"
    using that unfolding handle_def by (auto intro: handlers_send handlers_run sends_fail)
qed

text \<open>A Sync ends the batch: the flag is taken back and the answer is one \<^verbatim>\<open>ReadyForQuery\<close>.\<close>

definition synced_batch :: protocol where
  "synced_batch i fs j \<longleftrightarrow> \<not> j \<and> (\<exists>m. fs = [(CHR ''Z'', m)])"

lemma sends_sync: "sends_as synced_batch (handle (CHR ''S'') body)"
  unfolding sends_as_def
proof (intro allI impI)
  fix c r c' assume "handle (CHR ''S'') body c = Some (r, c')"
  then have run: "andDo (sendMessage (CHR ''Z'') (addText (if engineInTransaction (cprog c) then ''T'' else ''I'') startMessage)) (\<lambda>_. flushWire)
      (c\<lparr>ignoringUntilSync := False\<rparr>) = Some (r, c')" (is "andDo (sendMessage _ ?m) _ _ = _")
    by (simp add: handle_def andDo_def sendReadyForQuery_def)
  have fits: "length ?m \<le> WIRE_BUFFER" by (rule part_fitsD) simp_all
  from puts_seq [OF puts_message puts_flush, unfolded puts_def, rule_format, OF run] fits
  show "\<exists>fs. (\<forall>(kind, body) \<in> set fs. length body \<le> WIRE_BUFFER) \<and> prefix (delivered c') (stream c @ wire fs) \<and>
      (r = Inr () \<longrightarrow> stream c' = stream c @ wire fs \<and> synced_batch (ignoringUntilSync c) fs (ignoringUntilSync c'))"
    by (intro exI [of _ "[(CHR ''Z'', ?m)]"]) (auto simp: stream_def synced_batch_def)
qed

text \<open>What a message is answered with, by its type and whether the batch is being skipped.\<close>

definition answer_to :: "char \<Rightarrow> protocol" where
  "answer_to kind i fs j \<longleftrightarrow>
     (if i \<and> kind \<noteq> CHR ''S'' then fs = [] \<and> j
      else if kind = CHR ''S'' then synced_batch i fs j
      else if kind = CHR ''Q'' then readied i fs j
      else extended i fs j)"

lemma sends_answer: "sends_as (answer_to kind) (reading (\<lambda>c. if ignoringUntilSync c \<and> kind \<noteq> CHR ''S'' then passed () else handle kind body))"
  unfolding sends_as_def
proof (intro allI impI)
  fix c r c' assume run: "reading (\<lambda>c. if ignoringUntilSync c \<and> kind \<noteq> CHR ''S'' then passed () else handle kind body) c = Some (r, c')"
  show "\<exists>fs. (\<forall>(kind, body) \<in> set fs. length body \<le> WIRE_BUFFER) \<and> prefix (delivered c') (stream c @ wire fs) \<and>
      (r = Inr () \<longrightarrow> stream c' = stream c @ wire fs \<and> answer_to kind (ignoringUntilSync c) fs (ignoringUntilSync c'))"
  proof (cases "ignoringUntilSync c \<and> kind \<noteq> CHR ''S''")
    case True
    then show ?thesis using run by (intro exI [of _ "[]"]) (auto simp: stream_def answer_to_def)
  next
    case False
    have h: "handle kind body c = Some (r, c')" using run unfolding action_simps if_not_P [OF False] .
    note S = sends_sync [of body, unfolded sends_as_def, rule_format]
    note Q = sends_handle(1) [of kind body, unfolded sends_as_def, rule_format, OF _ h]
    note X = sends_handle(2) [of kind body, unfolded sends_as_def, rule_format, OF _ _ h]
    show ?thesis
    proof (cases "kind = CHR ''S''")
      case True
      then show ?thesis using S [of c r c'] h by (simp add: answer_to_def)
    next
      case noS: False
      then show ?thesis using Q X False by (cases "kind = CHR ''Q''") (simp_all add: answer_to_def)
    qed
  qed
qed

lemma sends_serve:
  assumes "readExactly 5 c = Some (Inr head, c1)" "serveMessage c = Some (r, c')"
  shows "\<exists>fs. (\<forall>(kind, body) \<in> set fs. length body \<le> WIRE_BUFFER) \<and> prefix (delivered c') (stream c @ wire fs) \<and>
     (r = Inr () \<longrightarrow> stream c' = stream c @ wire fs \<and> answer_to (char_of_byte (hd head)) (ignoringUntilSync c) fs (ignoringUntilSync c'))"
proof -
  let ?n = "unat (readU32 (tl head))"
  have s: "sends_as (answer_to (char_of_byte (hd head))) (if ?n < 4 \<or> ?n > WIRE_BUFFER then failed ERROR_IO_BAD_FORMAT
      else andDo (read_body (?n - 4)) (\<lambda>body.
             if char_of_byte (hd head) = CHR ''X'' then failed ERROR_IO_CANNOT_OPEN
             else reading (\<lambda>c. if ignoringUntilSync c \<and> char_of_byte (hd head) \<noteq> CHR ''S'' then passed () else handle (char_of_byte (hd head)) body)))"
  proof -
    have f: "sends_as P (failed e)" for P e by (auto simp: sends_as_def stream_def intro!: exI [of _ "[]"])
    have "silent (read_body k)" for k
      unfolding read_body_def by (auto intro!: silent_steps(3) silent_read silent_now(1,2) simp del: action_simps split: sum.split)
    then show ?thesis by (intro sends_if f sends_silent(1) sends_answer)
  qed
  have "stream c1 = stream c \<and> ignoringUntilSync c1 = ignoringUntilSync c"
    using silent_read [of 5] assms(1) by (auto simp: silent_def stream_def)
  then show ?thesis
    using s [unfolded sends_as_def, rule_format, of c1 r c'] assms by (simp add: serveMessage_def andDo_def Let_def)
qed

subsection \<open>Whole messages\<close>

lemma readU32_be_bytes [simp]: "readU32 (be_bytes v @ bs) = v"
proof (rule bit_word_eqI)
  fix n assume "n < LENGTH(32)"
  then consider "n < 8" | "8 \<le> n" "n < 16" | "16 \<le> n" "n < 24" | "24 \<le> n" "n < 32" by fastforce
  then show "bit (readU32 (be_bytes v @ bs)) n = bit v n" by cases (auto simp: readU32_def be_bytes_def bit_simps)
qed

lemma length_be_bytes [simp]: "length (be_bytes v) = 4" by (simp add: be_bytes_def)

lemma of_nat_length: "(of_nat m :: u32) = of_nat n \<Longrightarrow> m < 2 ^ 32 \<Longrightarrow> n < 2 ^ 32 \<Longrightarrow> m = n"
  by (drule arg_cong [of _ _ unat]) (simp add: unat_of_nat)

text \<open>A stream of whole messages is read in one way: by the type, the length that counts itself and so many bytes.\<close>

lemma frames_unique:
  assumes "\<forall>(kind, body) \<in> set fs. length body \<le> WIRE_BUFFER" "\<forall>(kind, body) \<in> set gs. length body \<le> WIRE_BUFFER" "wire fs = wire gs"
  shows "fs = gs"
  using assms
proof (induction fs arbitrary: gs)
  case Nil
  then show ?case by (cases gs) (auto simp: message_bytes_def)
next
  case (Cons f fs)
  obtain k m where f: "f = (k, m)" by (cases f)
  obtain k' m' hs where g: "gs = (k', m') # hs" using Cons.prems(3) f by (cases gs) (auto simp: message_bytes_def)
  have eq: "byte_of_char k = byte_of_char k'" "be_bytes (of_nat (length m + 4)) @ m @ wire fs = be_bytes (of_nat (length m' + 4)) @ m' @ wire hs"
    using Cons.prems(3) unfolding f g by (simp_all add: message_bytes_def)
  have "readU32 (be_bytes (of_nat (length m + 4)) @ m @ wire fs) = readU32 (be_bytes (of_nat (length m' + 4)) @ m' @ wire hs)"
    using eq(2) by (rule arg_cong)
  then have "length m + 4 = length m' + 4"
    using Cons.prems(1,2) unfolding f g readU32_be_bytes by (intro of_nat_length) (auto simp: WIRE_BUFFER_def)
  then have "m = m'" "wire fs = wire hs" using eq(2) by simp_all
  moreover have "k = k'" using eq(1) by (metis char_of_byte_of_char)
  ultimately show ?case using Cons.IH [of hs] Cons.prems(1,2) unfolding f g by simp
qed

text \<open>
  C40: a client reads whole messages. When \<open>serveMessage\<close> succeeds, what it adds to the stream of bytes is one
  sequence of messages and in one way only, each with a length that counts itself; when it fails, the
  bytes the client has had are a part from the start of such a stream.
\<close>
theorem replies_are_framed:
  assumes "serveMessage c = Some (r, c')"
  shows "(r = Inr () \<longrightarrow> (\<exists>!fs. (\<forall>(kind, body) \<in> set fs. length body \<le> WIRE_BUFFER) \<and> stream c' = stream c @ wire fs)) \<and>
     (\<exists>fs. (\<forall>(kind, body) \<in> set fs. length body \<le> WIRE_BUFFER) \<and> prefix (delivered c') (stream c @ wire fs))"
proof -
  obtain q c1 where head: "readExactly 5 c = Some (q, c1)" by (cases "readExactly 5 c") (auto simp: readExactly_def split: prod.splits)
  show ?thesis
  proof (cases q)
    case (Inl e)
    then have "c' = c1" "r = Inl e" using assms head by (simp_all add: serveMessage_def andDo_def)
    moreover have "delivered c1 = delivered c" using silent_read [of 5] head by (simp add: silent_def)
    ultimately show ?thesis by (auto simp: stream_def intro!: exI [of _ "[]"])
  next
    case (Inr x)
    obtain fs where fs: "\<forall>(kind, body) \<in> set fs. length body \<le> WIRE_BUFFER" "prefix (delivered c') (stream c @ wire fs)"
      "r = Inr () \<longrightarrow> stream c' = stream c @ wire fs"
      using sends_serve [OF head [unfolded Inr] assms] by blast
    have u: "\<exists>!gs. (\<forall>(kind, body) \<in> set gs. length body \<le> WIRE_BUFFER) \<and> stream c @ wire fs = stream c @ wire gs"
    proof (rule ex1I [of _ fs])
      fix gs assume gs: "(\<forall>(kind, body) \<in> set gs. length body \<le> WIRE_BUFFER) \<and> stream c @ wire fs = stream c @ wire gs"
      show "gs = fs" by (rule frames_unique [OF conjunct1 [OF gs] fs(1)]) (use gs in simp)
    qed (use fs(1) in simp)
    show ?thesis
    proof (intro conjI impI)
      assume "r = Inr ()"
      then have e: "stream c' = stream c @ wire fs" using fs(3) by simp
      show "\<exists>!fs. (\<forall>(kind, body) \<in> set fs. length body \<le> WIRE_BUFFER) \<and> stream c' = stream c @ wire fs" unfolding e by (rule u)
    qed (use fs(1,2) in blast)
  qed
qed

text \<open>
  C39: every request has its answer. A message that \<open>serveMessage\<close> serves is answered by its type: a query by
  messages that end with the one \<^verbatim>\<open>ReadyForQuery\<close> among them, a Sync by that message alone; any other one has
  none, and there is an error in its answer just when the rest of the batch is skipped; while it is
  skipped nothing but a Sync has an answer, and the Sync ends it.
\<close>
theorem requests_are_answered:
  assumes "readExactly 5 c = Some (Inr head, c1)" "kind = char_of_byte (hd head)" "serveMessage c = Some (Inr (), c')"
  shows "\<exists>fs. stream c' = stream c @ wire fs \<and>
     (if kind = CHR ''S'' then (\<exists>m. fs = [(CHR ''Z'', m)]) \<and> \<not> ignoringUntilSync c'
      else if ignoringUntilSync c then fs = [] \<and> ignoringUntilSync c'
      else if kind = CHR ''Q'' then (\<exists>gs m. fs = gs @ [(CHR ''Z'', m)] \<and> CHR ''Z'' \<notin> kinds_of gs) \<and> \<not> ignoringUntilSync c'
      else CHR ''Z'' \<notin> kinds_of fs \<and> (ignoringUntilSync c' \<longleftrightarrow> CHR ''E'' \<in> kinds_of fs))"
  using sends_serve [OF assms(1,3)] unfolding assms(2) [symmetric]
  by (auto simp: answer_to_def readied_def extended_def synced_batch_def split: if_splits)

subsection \<open>A Sync\<close>

definition sync_client :: client where
  "sync_client = \<lparr>me = 0, cprog = commit_program, clocks = commit_locks, outgoing = [], delivered = [],
     incoming = [byte_of_char (CHR ''S''), 0, 0, 0, 4], sends = (\<lambda>_ n. n), receives = (\<lambda>_ n. n), late = (\<lambda>_. False), timeout = 0, calls = 0,
     prepared = replicate MAX_PREPARED \<lparr>st_used = False, st_name = [], st_sql = [], st_params = 0, st_types = replicate MAX_PARAMS 0\<rparr>,
     portal = \<lparr>po_used = False, po_name = [], po_sql = [], po_executed = False, po_sent = 0, po_result = blank_result\<rparr>,
     ignoringUntilSync = True, torn = (\<lambda>s. s)\<rparr>"

lemma sync_read: "\<exists>c1. readExactly 5 sync_client = Some (Inr [byte_of_char (CHR ''S''), 0, 0, 0, 4], c1) \<and>
    sends c1 = (\<lambda>_ n. n) \<and> outgoing c1 = [] \<and> ignoringUntilSync c1"
  by (simp add: readExactly_def sync_client_def recv_loop.simps [of _ _ 5] recv_loop.simps [of _ _ 0])

lemma sync_served: "\<exists>c'. serveMessage sync_client = Some (Inr (), c')"
proof -
  obtain c1 where c1: "readExactly 5 sync_client = Some (Inr [byte_of_char (CHR ''S''), 0, 0, 0, 4], c1)" "sends c1 = (\<lambda>_ n. n)" "outgoing c1 = []"
    using sync_read by blast
  have "\<exists>c'. sendReadyForQuery c = Some (Inr (), c')" if "sends c = (\<lambda>_ n. n)" "outgoing c = []" for c
    using that by (simp add: sendReadyForQuery_def sendMessage_def putI32_def putBytes_def andDo_def WIRE_BUFFER_def addText_def addBytes_def
        startMessage_def flushWire_def send_bytes_def send_loop.simps Let_def)
  then show ?thesis using c1
    by (simp add: serveMessage_def andDo_def readU32_def read_body_def handle_def WIRE_BUFFER_def)
qed

theorem replies_are_framed_witness:
  "\<exists>c'. serveMessage sync_client = Some (Inr (), c') \<and> (\<exists>!fs. (\<forall>(kind, body) \<in> set fs. length body \<le> WIRE_BUFFER) \<and> stream c' = wire fs)"
proof -
  obtain c' where run: "serveMessage sync_client = Some (Inr (), c')" using sync_served by blast
  show ?thesis using replies_are_framed [OF run] run by (simp add: stream_def sync_client_def)
qed

theorem requests_are_answered_witness:
  "\<exists>c' m. serveMessage sync_client = Some (Inr (), c') \<and> stream c' = wire [(CHR ''Z'', m)] \<and> \<not> ignoringUntilSync c'"
proof -
  obtain c' where run: "serveMessage sync_client = Some (Inr (), c')" using sync_served by blast
  obtain c1 where head: "readExactly 5 sync_client = Some (Inr [byte_of_char (CHR ''S''), 0, 0, 0, 4], c1)" using sync_read by blast
  show ?thesis using requests_are_answered [OF head refl run] run by (auto simp: stream_def sync_client_def)
qed

end
