(* ===== verification/Spec2Isabelle.thy ===== *)
theory Spec2Isabelle
  imports Dates WalRecovery HeapRows Catalog Databases Lexing Parsed Printing OrderBy Grouping IndexAnswers Semantic TableChanges
    Queries Sessions JoinProbe SaveLoad Prompt Frames
begin

text \<open>
  A verification library for the database engine under \<^verbatim>\<open>src/DatabaseEngine\<close>: a single-file SQL database in C
  with a buffer pool, a write-ahead log, heaps, B+ tree indexes, a parser, an executor, transactions, a
  prompt and a server that speaks the PostgreSQL protocol.

  \<^bold>\<open>How the parts work together.\<close> A statement is text. \<open>ProcessStatement\<close> (\<^verbatim>\<open>10_controller.c\<close>) lexes and parses it,
  takes the engine lock, has the semantic stage check it against the catalog, runs it, and commits before it
  answers, unless a transaction is open. The executor finds rows through heaps and indexes; both work on
  pages, which only the pool hands out. The pool keeps pages in frames, writes a page to the database file
  only once the log has it, and appends to the log at a commit. The catalog is bytes in a chain of pages of
  the same file. Opening a file first replays the log a session left behind.

  \<^bold>\<open>Conventions.\<close> A C struct is a record, an enum a datatype, an \<^verbatim>\<open>unsigned\<close> field a word of its width, a page a
  function from offsets to bytes. A C function that returns an error code is a function into \<open>error + 'a\<close> with
  the numbers of \<^verbatim>\<open>sql_common.h\<close>; what changes state returns the new state. From the semantic stage on, a step is an
  action (\<open>Actions\<close>): \<open>None\<close> is a step that does not return, \<open>Inl\<close> an error with the state as it then is. Globals of
  a C file are fields of the state of its component. What the code cannot decide itself is a parameter:
  whether memory is there (\<open>memory\<close>, \<open>frameLimit\<close>, \<open>hlimit\<close>, \<open>heldOk\<close>), whether a call on a stream or a socket fails and
  how much of it is done (\<open>faults\<close>, \<open>sends\<close>, \<open>receives\<close>), what unset memory holds.

  \<^bold>\<open>The theories\<close>, from the ground up.

  \<^item> \<open>Prelude\<close>: words, memory and its little-endian fields, error codes, limits, binary search. \<open>Dates\<close>, \<open>Float64\<close>, \<open>Values\<close>:
    the civil calendar, IEEE doubles by their bits, values and their orders (\<^verbatim>\<open>07_storage.c\<close>). \<open>Names\<close>: names without
    case, \<^verbatim>\<open>%d\<close> and \<^verbatim>\<open>%g\<close>, \<^verbatim>\<open>strtod\<close>.
  \<^item> \<open>Files\<close>, \<open>Wal\<close>, \<open>WalRecovery\<close>: streams with faults, and with what a crash leaves of them; the log (\<^verbatim>\<open>15_wal.c\<close>); recovery replays
    the committed prefix of a log cut at any byte.
  \<^item> \<open>Pool\<close>, \<open>PoolCache\<close>, \<open>PoolUse\<close>, \<open>PoolDurability\<close>: \<^verbatim>\<open>14_pool.c\<close>; the pool as a cache of pages, its invariant over a step
    relation of its callers, write-ahead, commit and checkpoint against a crash. \<open>PageStore\<close> and \<open>PinnedStore\<close> are the
    interface the heaps and the indexes rest on, as locales, interpreted by the pool.
  \<^item> \<open>Records\<close>, \<open>Heap\<close>, \<open>HeapTable\<close>, \<open>HeapScan\<close>, \<open>HeapCompact\<close>, \<open>HeapRows\<close>: records, slotted pages and heaps (\<^verbatim>\<open>07_storage.c\<close>); a heap as the rows
    it holds, page by page, which inserting, reading, deleting, scanning and compacting refine.
  \<^item> \<open>IndexNode\<close>, \<open>IndexTree\<close>, \<open>IndexOrder\<close>, \<open>IndexInsert\<close>, \<open>IndexRows\<close>, \<open>IndexScan\<close>, \<open>IndexAnswers\<close>, \<open>IndexList\<close>: \<^verbatim>\<open>11_index.c\<close>; pages as a tree, a
    tree as its entries, insertion with its splits and the scans.
  \<^item> \<open>Schema\<close>, \<open>Tokens\<close>: the types of \<^verbatim>\<open>sql_common.h\<close>. \<open>Lexer\<close>, \<open>Lexing\<close>: \<^verbatim>\<open>03_lexer.c\<close>. \<open>Parser\<close>, \<open>Conditions\<close>, \<open>Statements\<close>: \<^verbatim>\<open>04_parser.c\<close>;
    \<open>Grammar\<close>, \<open>Parsing\<close>, \<open>Parsed\<close>, \<open>Printing\<close>: it returns on every token list, what it returns is well formed, and expressions
    printed are read back.
  \<^item> \<open>Catalog\<close>, \<open>Databases\<close>: \<^verbatim>\<open>02_catalog.c\<close>, \<^verbatim>\<open>13_database.c\<close>, the heaps by name; each refines a map from names without case.
  \<^item> \<open>Expr\<close>, \<open>ExprTree\<close>, \<open>Evaluate\<close>, \<open>ConditionTree\<close>, \<open>Like\<close>: \<^verbatim>\<open>17_expr.c\<close> and the conditions of \<^verbatim>\<open>06_executor.c\<close> against trees and
    Kleene's logic.
  \<^item> \<open>Comparators\<close>, \<open>TopRows\<close>, \<open>OrderBy\<close>, \<open>Hashing\<close>, \<open>Distinct\<close>, \<open>Grouping\<close>, \<open>Results\<close>: what the executor does with a finished result;
    \<open>Joins\<close>, \<open>JoinProbe\<close>: nested loops and the hash join; \<open>Engine\<close>, \<open>RowStore\<close>, \<open>RowChanges\<close>, \<open>TableChanges\<close>, \<open>Queries\<close>: the
    statements of \<^verbatim>\<open>06_executor.c\<close>, each whole, over the engine's state; \<open>Semantic\<close>: \<^verbatim>\<open>05_semantic.c\<close>.
  \<^item> \<open>Codec\<close>, \<open>Persist\<close>, \<open>SaveLoad\<close>: the catalog as bytes and as a chain of pages (\<^verbatim>\<open>12_persist.c\<close>), every version of the
    format read; a database saved and loaded is the same database.
  \<^item> \<open>Controller\<close>, \<open>Pipeline\<close>: opening, saving, committing, transactions, \<open>ProcessStatement\<close>; what it leaves behind. \<open>Sessions\<close>: the
    locks of \<^verbatim>\<open>18_thread.c\<close> and the server's sessions as a step relation.
  \<^item> \<open>WireText\<close>, \<open>Wire\<close>, \<open>Serve\<close>, \<open>Frames\<close>: \<^verbatim>\<open>16_wire.c\<close> and \<^verbatim>\<open>01_errors.c\<close>; bound parameters stay data, what a client reads is
    whole messages, each request has its answer. \<open>Prompt\<close>: \<^verbatim>\<open>main.c\<close>.

  \<^bold>\<open>Bounds and fuel.\<close> The limits are the code's (\<open>MAX_COLS\<close>, \<open>MAX_TOKENS\<close>, \<open>LINE_LEN\<close> and the like). Only the parser's loops
  take fuel, one more than the tokens there are, and every turn takes a token (\<open>parser_total\<close>). A loop that could
  go on for ever on bad data is a \<open>partial_function\<close>: that the walks of expressions, conditions, indexes and
  compaction return is proved; the chain of catalog pages is followed as long as it goes, and a damaged file
  may hold one that does not end.

  \<^bold>\<open>Not modelled\<close>: printing and the commands that only print (\<^verbatim>\<open>08_result_set.c\<close>, \<^verbatim>\<open>09_view.c\<close>, \<^verbatim>\<open>.pool\<close>, the
  lines of \<^verbatim>\<open>.explain\<close>, banners), which change no state; the statement arena, as a text is its characters here, so that
  results that outlive it are not seen; making sockets and threads, system calls whose outcome is a step of
  the sessions; the Windows branches. A signed overflow, which C leaves open, is exact arithmetic where the code
  does not guard against it. Threads interleave by whole operations under the locks they hold.
\<close>

end
